(* ===== verification/Prelude.thy ===== *)
theory Prelude
  imports Main "HOL-Library.Word" "HOL-Library.Multiset"
begin

text \<open>
  Shared vocabulary of the development: the machine-integer types of the C++ code, the
  collections of facts the component proofs use, and the generic lemmas on arrays (lists
  updated by index), multisets of tasks and optional results.
\<close>

section \<open>Types and fact collections\<close>

type_synonym u32 = "32 word"   \<comment> \<open>\<open>uint32_t\<close>\<close>
type_synonym u64 = "64 word"   \<comment> \<open>\<open>unsigned long\<close>, \<open>uint64_t\<close>, \<open>size_t\<close> where it may wrap\<close>

text \<open>
  \<open>bag_simps\<close> holds the equations that say how an operation changes the multiset of tasks a
  structure holds; \<open>len_simps\<close> the equations for lengths and frames.
\<close>

named_theorems bag_simps \<open>how an operation changes the multiset of stored tasks\<close>
named_theorems len_simps \<open>lengths and fields an operation leaves alone\<close>

section \<open>Arrays\<close>

text \<open>A bag of everything stored in an array of containers.\<close>

definition bags :: "('c \<Rightarrow> 'a multiset) \<Rightarrow> 'c list \<Rightarrow> 'a multiset" where
  "bags f cs = (\<Sum>c\<leftarrow>cs. f c)"

lemma bags_Nil [simp]: "bags f [] = {#}"
  by (simp add: bags_def)

lemma bags_Cons [simp]: "bags f (c # cs) = f c + bags f cs"
  by (simp add: bags_def)

lemma bags_append [simp]: "bags f (cs @ ds) = bags f cs + bags f ds"
  by (simp add: bags_def)

lemma bags_replicate_empty: "f c = {#} \<Longrightarrow> bags f (replicate n c) = {#}"
  by (induction n) auto

lemma bags_split:
  assumes "i < length cs"
  shows "bags f cs = f (cs ! i) + bags f (take i cs @ drop (Suc i) cs)"
proof -
  have "bags f cs = bags f (take i cs @ cs ! i # drop (Suc i) cs)"
    using id_take_nth_drop [OF assms] by simp
  then show ?thesis by (simp add: ac_simps)
qed

lemma bags_update:
  assumes "i < length cs"
  shows "bags f (cs[i := c]) + f (cs ! i) = bags f cs + f c"
proof -
  have "bags f (cs[i := c]) = f c + bags f (take i cs @ drop (Suc i) cs)"
    using assms bags_split [of i "cs[i := c]" f] by simp
  moreover have "bags f cs = f (cs ! i) + bags f (take i cs @ drop (Suc i) cs)"
    by (rule bags_split [OF assms])
  ultimately show ?thesis by simp
qed

lemma bags_update_add:
  assumes "i < length cs" "f c = f (cs ! i) + m"
  shows "bags f (cs[i := c]) = bags f cs + m"
  using bags_update [OF assms(1), of f c] assms(2) by (simp add: ac_simps)

lemma bags_update_sub:
  assumes "i < length cs" "f (cs ! i) = f c + m"
  shows "bags f cs = bags f (cs[i := c]) + m"
  using bags_update [OF assms(1), of f c] assms(2) by (simp add: ac_simps)

lemma bags_update_same:
  assumes "i < length cs" "f c = f (cs ! i)"
  shows "bags f (cs[i := c]) = bags f cs"
  using bags_update_add [OF assms(1), of f c "{#}"] assms(2) by simp

lemma bags_member: "i < length cs \<Longrightarrow> f (cs ! i) \<subseteq># bags f cs"
  by (simp add: bags_split)

lemma in_bags_iff: "x \<in># bags f cs \<longleftrightarrow> (\<exists>i < length cs. x \<in># f (cs ! i))"
proof (induction cs)
  case Nil
  show ?case by simp
next
  case (Cons c cs)
  have "(\<exists>i < length (c # cs). x \<in># f ((c # cs) ! i)) \<longleftrightarrow>
      x \<in># f ((c # cs) ! 0) \<or> (\<exists>i < length cs. x \<in># f ((c # cs) ! Suc i))"
    by (simp only: length_Cons Ex_less_Suc2)
  with Cons show ?case by simp
qed

text \<open>
  \<open>all_upd\<close>: a property of every cell of an array survives the update of one cell by a
  value that has it.
\<close>

lemma all_upd:
  assumes "\<forall>i < length cs. P (cs ! i)" and "P c"
  shows "\<forall>i < length (cs[k := c]). P (cs[k := c] ! i)"
  using assms by (metis length_list_update nth_list_update_eq nth_list_update_neq)

lemma mset_butlast_last: "xs \<noteq> [] \<Longrightarrow> mset xs = add_mset (last xs) (mset (butlast xs))"
  by (metis append_butlast_last_id mset.simps(1) mset.simps(2) mset_append union_mset_add_mset_right
      add.right_neutral)

lemma takeWhile_append_replicate:
  "\<forall>x\<in>set xs. P x \<Longrightarrow> \<not> P d \<Longrightarrow> takeWhile P (xs @ replicate n d) = xs"
  by (induction xs) (auto simp: takeWhile_eq_Nil_iff dest: in_set_replicate [THEN iffD1] hd_in_set)

lemma case_Some_conjunct1:
  "(case Some x of None \<Rightarrow> P | Some y \<Rightarrow> Q y \<and> R y) \<Longrightarrow> Q x"
  by simp

end
