(* ===== verification/UpdateRequest.thy ===== *)
theory UpdateRequest
  imports Prelude
begin

text \<open>
  The task type the shortest-path application stores in the schedulers
  (\<open>apps/sssp/SSSP.h\<close>, \<open>UpdateRequestCommon\<close>) and its comparers
  (\<open>apps/sssp/SSSP.cpp\<close>). The schedulers ask of a comparer that it be a strict weak order,
  "true iff the first argument should follow the second one": that is the locale
  \<open>strict_weak_order\<close>, and both comparers are interpretations of it. The priority-reading
  schedulers also need the comparer to agree with \<open>prior()\<close>: \<open>prior_order\<close>.
\<close>

section \<open>The contract of a comparer\<close>

locale strict_weak_order =
  fixes cmp :: "'a \<Rightarrow> 'a \<Rightarrow> bool"
  assumes asym: "cmp x y \<Longrightarrow> \<not> cmp y x"
    and neg_trans: "\<not> cmp x y \<Longrightarrow> \<not> cmp y z \<Longrightarrow> \<not> cmp x z"
begin

lemma irrefl: "\<not> cmp x x"
  using asym by blast

lemma cmp_trans: "cmp x y \<Longrightarrow> cmp y z \<Longrightarrow> cmp x z"
  using asym neg_trans by blast

lemma before_le: "cmp x y \<Longrightarrow> \<not> cmp x z \<Longrightarrow> \<not> cmp y z"
  using asym neg_trans by blast

lemma cmp_le_trans: "cmp x y \<Longrightarrow> \<not> cmp z y \<Longrightarrow> cmp x z"
  using neg_trans by blast

end

text \<open>
  \<open>prior_order cmp prior\<close>: the comparer says "follows" for no pair whose priorities are in
  the other order, and for every pair whose priorities differ.
\<close>

locale prior_order = strict_weak_order cmp
  for cmp :: "'a \<Rightarrow> 'a \<Rightarrow> bool" +
  fixes prior :: "'a \<Rightarrow> u64"
  assumes cmp_prior: "cmp x y \<Longrightarrow> prior y \<le> prior x"
    and prior_cmp: "prior y < prior x \<Longrightarrow> cmp x y"
begin

lemma min_prior: "\<not> cmp x y \<Longrightarrow> prior x \<le> prior y"
  using prior_cmp by force

end

section \<open>The update request\<close>

datatype 'n update_request = UpdateRequest (req_n: 'n) (req_w: u64)

definition prior :: "'n update_request \<Rightarrow> u64" where
  "prior r = req_w r"

definition DIST_INFINITY :: u64 where
  "DIST_INFINITY = 18446744073709551615 - 1"

text \<open>\<open>operator>\<close>, \<open>operator==\<close>, \<open>operator!=\<close>.\<close>

definition req_greater :: "('n::linorder) update_request \<Rightarrow> 'n update_request \<Rightarrow> bool" where
  "req_greater l r =
     (if req_w l > req_w r then True
      else if req_w l < req_w r then False
      else req_n l > req_n r)"

definition req_equal :: "'n update_request \<Rightarrow> 'n update_request \<Rightarrow> bool" where
  "req_equal l r \<longleftrightarrow> req_w l = req_w r \<and> req_n l = req_n r"

definition req_not_equal :: "'n update_request \<Rightarrow> 'n update_request \<Rightarrow> bool" where
  "req_not_equal l r = (if req_w l \<noteq> req_w r then True else req_n l \<noteq> req_n r)"

text \<open>\<open>operator<\<close> is the order of the type.\<close>

definition req_less :: "('n::linorder) update_request \<Rightarrow> 'n update_request \<Rightarrow> bool" where
  "req_less l r =
     (if req_w l < req_w r then True
      else if req_w l > req_w r then False
      else req_n l < req_n r)"

instantiation update_request :: (linorder) linorder
begin

definition less_update_request :: "'a update_request \<Rightarrow> 'a update_request \<Rightarrow> bool" where
  "less_update_request = req_less"

definition less_eq_update_request :: "'a update_request \<Rightarrow> 'a update_request \<Rightarrow> bool" where
  "less_eq_update_request l r \<longleftrightarrow> l < r \<or> l = r"

instance
proof
  fix x y z :: "'a update_request"
  show "(x < y) = (x \<le> y \<and> \<not> y \<le> x)"
    by (auto simp: less_eq_update_request_def less_update_request_def req_less_def split: if_splits)
  show "x \<le> x"
    by (simp add: less_eq_update_request_def)
  show "x \<le> y \<Longrightarrow> y \<le> z \<Longrightarrow> x \<le> z"
    by (auto simp: less_eq_update_request_def less_update_request_def req_less_def split: if_splits)
  show "x \<le> y \<Longrightarrow> y \<le> x \<Longrightarrow> x = y"
    by (auto simp: less_eq_update_request_def less_update_request_def req_less_def split: if_splits)
  show "x \<le> y \<or> y \<le> x"
    by (auto simp: less_eq_update_request_def less_update_request_def req_less_def
        intro: update_request.expand split: if_splits)
qed

end

text \<open>The comparers of the application (\<open>unsigned\<close> results used as truth values).\<close>

definition UpdateRequestComparer :: "'n update_request \<Rightarrow> 'n update_request \<Rightarrow> bool" where
  "UpdateRequestComparer x y \<longleftrightarrow> req_w x > req_w y"

definition UpdateRequestNodeComparer ::
    "('n::linorder) update_request \<Rightarrow> 'n update_request \<Rightarrow> bool" where
  "UpdateRequestNodeComparer x y \<longleftrightarrow> req_greater x y"

section \<open>The comparers meet the contract\<close>

lemma req_greater_less: "req_greater x y \<longleftrightarrow> y < x"
  by (auto simp: req_greater_def less_update_request_def req_less_def)

lemma req_equal_eq: "req_equal x y \<longleftrightarrow> x = y"
  by (auto simp: req_equal_def intro: update_request.expand)

lemma req_not_equal_eq: "req_not_equal x y \<longleftrightarrow> x \<noteq> y"
  by (auto simp: req_not_equal_def intro: update_request.expand)

interpretation urc: prior_order UpdateRequestComparer prior
  by unfold_locales (auto simp: UpdateRequestComparer_def prior_def)

interpretation urnc: prior_order UpdateRequestNodeComparer prior
  by unfold_locales
    (auto simp: UpdateRequestNodeComparer_def req_greater_def prior_def split: if_splits)

text \<open>
  Exactly one of \<open><\<close>, \<open>==\<close>, \<open>>\<close> holds of any two requests.
\<close>

lemma request_operators_trichotomy:
  "(x < y \<and> \<not> req_equal x y \<and> \<not> req_greater x y) \<or>
   (\<not> x < y \<and> req_equal x y \<and> \<not> req_greater x y) \<or>
   (\<not> x < y \<and> \<not> req_equal x y \<and> req_greater x y)"
  by (auto simp: req_equal_eq req_greater_less)

end
