(* ===== verification/DAryHeap.thy ===== *)
theory DAryHeap
  imports UpdateRequest
begin

text \<open>
  \<open>DAryHeap\<close> of \<open>WorkList/Heap.h\<close>: the array-based heap of arity \<open>D\<close> the adaptive
  schedulers use, without the position indexer (\<open>DAryIndexer\<close> adds it). The vector is a
  list; the private helpers work on the list, the public operations on the record of the
  struct's fields. An operation that is undefined on an empty vector returns \<open>None\<close> there.
  \<open>cmp x y\<close> is the comparer: "\<open>x\<close> should follow \<open>y\<close>". Indices are \<open>nat\<close>: a vector
  of the addressable sizes has no index that wraps.
\<close>

section \<open>Array helpers\<close>

definition swap :: "nat \<Rightarrow> nat \<Rightarrow> 'a list \<Rightarrow> 'a list" where
  "swap i j h = (let t = h ! i; h1 = h[i := h ! j] in h1[j := t])"

definition is_root :: "nat \<Rightarrow> bool" where
  "is_root index \<longleftrightarrow> index = 0"

definition is_valid_index :: "'a list \<Rightarrow> nat \<Rightarrow> bool" where
  "is_valid_index h index \<longleftrightarrow> index \<ge> 0 \<and> index < length h"

definition get_parent :: "nat \<Rightarrow> 'a list \<Rightarrow> nat \<Rightarrow> nat option" where
  "get_parent D h index =
     (if \<not> is_root index \<and> is_valid_index h index then Some ((index - 1) div D) else None)"

text \<open>The loop of \<open>get_smallest_child\<close>, from child number \<open>k\<close> on.\<close>

function smallest_child_loop ::
    "('a \<Rightarrow> 'a \<Rightarrow> bool) \<Rightarrow> nat \<Rightarrow> 'a list \<Rightarrow> nat \<Rightarrow> nat \<Rightarrow> nat \<Rightarrow> nat" where
  "smallest_child_loop cmp D h index k smallest =
     (if k \<le> D then
        let k_child = D * index + k in
        if \<not> is_valid_index h k_child then smallest
        else smallest_child_loop cmp D h index (k + 1)
               (if cmp (h ! smallest) (h ! k_child) then k_child else smallest)
      else smallest)"
  by pat_completeness auto
termination
  by (relation "measure (\<lambda>(cmp, D, h, index, k, smallest). Suc D - k)") auto

definition get_smallest_child ::
    "('a \<Rightarrow> 'a \<Rightarrow> bool) \<Rightarrow> nat \<Rightarrow> 'a list \<Rightarrow> nat \<Rightarrow> nat option" where
  "get_smallest_child cmp D h index =
     (if \<not> is_valid_index h (D * index + 1) then None
      else Some (smallest_child_loop cmp D h index 2 (D * index + 1)))"

lemma length_swap [simp]: "length (swap i j h) = length h"
  by (simp add: swap_def Let_def)

lemma nth_swap:
  "i < length h \<Longrightarrow> j < length h \<Longrightarrow>
   swap i j h ! k = (if k = j then h ! i else if k = i then h ! j else h ! k)"
  by (auto simp: swap_def Let_def nth_list_update)

lemma mset_swap_eq [simp]: "i < length h \<Longrightarrow> j < length h \<Longrightarrow> mset (swap i j h) = mset h"
  using mset_swap [of j h i] by (simp add: swap_def Let_def)

lemma smallest_child_loop_valid:
  "is_valid_index h s \<Longrightarrow> is_valid_index h (smallest_child_loop cmp D h index k s)"
proof (induction cmp D h index k s rule: smallest_child_loop.induct)
  case (1 cmp D h index k s)
  then show ?case
    by (subst smallest_child_loop.simps) (auto simp: Let_def)
qed

lemma smallest_child_loop_ge:
  "D * index + 1 \<le> s \<Longrightarrow> 1 \<le> k \<Longrightarrow> D * index + 1 \<le> smallest_child_loop cmp D h index k s"
proof (induction cmp D h index k s rule: smallest_child_loop.induct)
  case (1 cmp D h index k s)
  then show ?case
    by (subst smallest_child_loop.simps) (auto simp: Let_def)
qed

lemma smallest_child_loop_le:
  "s \<le> D * index + D \<Longrightarrow> smallest_child_loop cmp D h index k s \<le> D * index + D"
proof (induction cmp D h index k s rule: smallest_child_loop.induct)
  case (1 cmp D h index k s)
  then show ?case
    by (subst smallest_child_loop.simps) (auto simp: Let_def)
qed

lemma get_smallest_child_bounds:
  assumes "get_smallest_child cmp D h index = Some c"
  shows "c < length h" and "D * index < c"
  using assms smallest_child_loop_valid [of h "D * index + 1" cmp D index 2]
    smallest_child_loop_ge [of D index "D * index + 1" 2 cmp h]
  by (auto simp: get_smallest_child_def is_valid_index_def split: if_splits)

lemma get_smallest_child_gt:
  assumes "get_smallest_child cmp D h index = Some c" and "0 < D"
  shows "index < c"
  using get_smallest_child_bounds [OF assms(1)] assms(2)
  by (metis gr0_implies_Suc le_add1 le_less_trans mult_Suc)

lemma sift_down_decreases:
  "get_smallest_child cmp D h index = Some c \<Longrightarrow> 0 < D \<Longrightarrow> length h - c < length h - index"
  using get_smallest_child_gt get_smallest_child_bounds(1) by (metis diff_less_mono2 less_trans)

lemma get_parent_bounds:
  "get_parent D h index = Some p \<Longrightarrow> index < length h \<and> p < index \<and> p = (index - 1) div D"
  by (auto simp: get_parent_def is_root_def is_valid_index_def split: if_splits
      intro: le_less_trans [OF div_le_dividend])

text \<open>
  \<open>sift_down\<close>. The guard \<open>0 < D\<close> only makes the function total: an arity of 0, which
  \<open>get_parent\<close> would divide by, is not instantiated.
\<close>

function sift_down :: "('a \<Rightarrow> 'a \<Rightarrow> bool) \<Rightarrow> nat \<Rightarrow> 'a list \<Rightarrow> nat \<Rightarrow> 'a list" where
  "sift_down cmp D h index =
     (case get_smallest_child cmp D h index of
        None \<Rightarrow> h
      | Some smallest_child \<Rightarrow>
          if 0 < D \<and> cmp (h ! index) (h ! smallest_child)
          then sift_down cmp D (swap index smallest_child h) smallest_child
          else h)"
  by pat_completeness auto
termination
  by (relation "measure (\<lambda>(cmp, D, h, index). length h - index)")
    (auto dest: sift_down_decreases)

text \<open>\<open>sift_up\<close> also returns the index the element ends at.\<close>

function sift_up :: "('a \<Rightarrow> 'a \<Rightarrow> bool) \<Rightarrow> nat \<Rightarrow> 'a list \<Rightarrow> nat \<Rightarrow> 'a list \<times> nat" where
  "sift_up cmp D h index =
     (case get_parent D h index of
        None \<Rightarrow> (h, index)
      | Some parent \<Rightarrow>
          if cmp (h ! parent) (h ! index)
          then sift_up cmp D (swap index parent h) parent
          else (h, index))"
  by pat_completeness auto
termination
  by (relation "measure (\<lambda>(cmp, D, h, index). index)") (auto dest: get_parent_bounds)

declare smallest_child_loop.simps [simp del] sift_down.simps [simp del] sift_up.simps [simp del]

lemma length_sift_up [simp]: "length (fst (sift_up cmp D h i)) = length h"
proof (induction cmp D h i rule: sift_up.induct)
  case (1 cmp D h index)
  then show ?case
    by (subst sift_up.simps) (auto split: option.splits)
qed

lemma length_sift_down [simp]: "length (sift_down cmp D h i) = length h"
proof (induction cmp D h i rule: sift_down.induct)
  case (1 cmp D h index)
  then show ?case
    by (subst sift_down.simps) (auto split: option.splits)
qed

lemma mset_sift_up [simp]: "mset (fst (sift_up cmp D h i)) = mset h"
proof (induction cmp D h i rule: sift_up.induct)
  case (1 cmp D h index)
  then show ?case
    by (subst sift_up.simps) (auto split: option.splits dest!: get_parent_bounds)
qed

lemma mset_sift_down [simp]: "i < length h \<Longrightarrow> mset (sift_down cmp D h i) = mset h"
proof (induction cmp D h i rule: sift_down.induct)
  case (1 cmp D h index)
  then show ?case
    by (subst sift_down.simps) (auto split: option.splits dest: get_smallest_child_bounds)
qed

section \<open>The struct and its operations\<close>

record 'a DAryHeap =
  heap :: "'a list"
  inTheQueue :: u64
  inAnotherQueue :: u64
  notInQeues :: u64
  qInd :: int

definition DAryHeap_init :: "'a DAryHeap" where
  "DAryHeap_init = \<lparr>heap = [], inTheQueue = 0, inAnotherQueue = 0, notInQeues = 0, qInd = 0\<rparr>"

definition set_index :: "'a DAryHeap \<Rightarrow> nat \<Rightarrow> 'a DAryHeap" where
  "set_index H index = H\<lparr>qInd := int index\<rparr>"

definition DAryHeap_empty :: "'a DAryHeap \<Rightarrow> bool" where
  "DAryHeap_empty H \<longleftrightarrow> heap H = []"

definition DAryHeap_size :: "'a DAryHeap \<Rightarrow> nat" where
  "DAryHeap_size H = length (heap H)"

definition DAryHeap_min :: "'a DAryHeap \<Rightarrow> 'a option" where
  "DAryHeap_min H = (if heap H = [] then None else Some (heap H ! 0))"

text \<open>The array part of \<open>extractMin\<close>: take the root, move the last element there, sift.\<close>

definition extract_root :: "('a \<Rightarrow> 'a \<Rightarrow> bool) \<Rightarrow> nat \<Rightarrow> 'a list \<Rightarrow> ('a \<times> 'a list) option" where
  "extract_root cmp D h =
     (if h = [] then None
      else let m = h ! 0; h1 = butlast (h[0 := last h])
           in Some (m, if 0 < length h1 then sift_down cmp D h1 0 else h1))"

definition DAryHeap_extractMin ::
    "('a \<Rightarrow> 'a \<Rightarrow> bool) \<Rightarrow> nat \<Rightarrow> 'a DAryHeap \<Rightarrow> ('a \<times> 'a DAryHeap) option" where
  "DAryHeap_extractMin cmp D H =
     map_option (\<lambda>(m, h). (m, H\<lparr>heap := h\<rparr>)) (extract_root cmp D (heap H))"

definition DAryHeap_push :: "('a \<Rightarrow> 'a \<Rightarrow> bool) \<Rightarrow> nat \<Rightarrow> 'a DAryHeap \<Rightarrow> 'a \<Rightarrow> 'a DAryHeap" where
  "DAryHeap_push cmp D H val =
     (let index = length (heap H); h = heap H @ [val]
      in H\<lparr>heap := fst (sift_up cmp D h index)\<rparr>)"

text \<open>\<open>build\<close>: \<open>i\<close> runs from \<open>size - 1\<close> down to 0.\<close>

fun build_loop :: "('a \<Rightarrow> 'a \<Rightarrow> bool) \<Rightarrow> nat \<Rightarrow> nat \<Rightarrow> 'a list \<Rightarrow> 'a list" where
  "build_loop cmp D 0 h = h"
| "build_loop cmp D (Suc i) h = build_loop cmp D i (sift_down cmp D h i)"

definition DAryHeap_build :: "('a \<Rightarrow> 'a \<Rightarrow> bool) \<Rightarrow> nat \<Rightarrow> 'a DAryHeap \<Rightarrow> 'a DAryHeap" where
  "DAryHeap_build cmp D H =
     (if heap H = [] then H else H\<lparr>heap := build_loop cmp D (length (heap H)) (heap H)\<rparr>)"

text \<open>
  The loop of \<open>divideElems\<close>: odd positions go to the other heap, even ones are compacted
  to the front; the erase of the tail is the final \<open>take\<close>.
\<close>

function divide_loop :: "nat \<Rightarrow> nat \<Rightarrow> 'a list \<Rightarrow> 'a list \<Rightarrow> 'a list \<times> 'a list" where
  "divide_loop i newSize a b =
     (if i < length a then
        if i mod 2 \<noteq> 0 then divide_loop (i + 1) newSize a (b @ [a ! i])
        else divide_loop (i + 1) (newSize + 1) (a[newSize := a ! i]) b
      else (take newSize a, b))"
  by pat_completeness auto
termination
  by (relation "measure (\<lambda>(i, n, a, b). length a - i)") auto

declare divide_loop.simps [simp del]

definition divideElems ::
    "('a \<Rightarrow> 'a \<Rightarrow> bool) \<Rightarrow> nat \<Rightarrow> 'a DAryHeap \<Rightarrow> 'a DAryHeap \<Rightarrow> 'a DAryHeap \<times> 'a DAryHeap" where
  "divideElems cmp D H h =
     (case divide_loop 0 0 (heap H) (heap h) of (a, b) \<Rightarrow>
        (DAryHeap_build cmp D (H\<lparr>heap := a\<rparr>), DAryHeap_build cmp D (h\<lparr>heap := b\<rparr>)))"

text \<open>The loop of \<open>pushAllAndClear\<close> over the positions appended from the other heap.\<close>

function push_all_loop :: "('a \<Rightarrow> 'a \<Rightarrow> bool) \<Rightarrow> nat \<Rightarrow> nat \<Rightarrow> 'a list \<Rightarrow> 'a list" where
  "push_all_loop cmp D i h =
     (if i < length h then push_all_loop cmp D (i + 1) (fst (sift_up cmp D h i)) else h)"
  by pat_completeness auto
termination
  by (relation "measure (\<lambda>(cmp, D, i, h). length h - i)") auto

declare push_all_loop.simps [simp del]

definition pushAllAndClear ::
    "('a \<Rightarrow> 'a \<Rightarrow> bool) \<Rightarrow> nat \<Rightarrow> 'a DAryHeap \<Rightarrow> 'a DAryHeap \<Rightarrow> 'a DAryHeap \<times> 'a DAryHeap" where
  "pushAllAndClear cmp D H fromH =
     (let prevSize = length (heap H); h = heap H @ heap fromH
      in (H\<lparr>heap := push_all_loop cmp D prevSize h\<rparr>, fromH\<lparr>heap := []\<rparr>))"

section \<open>The heap order\<close>

text \<open>\<open>par D j\<close> is the position of the parent of position \<open>j\<close>.\<close>

definition par :: "nat \<Rightarrow> nat \<Rightarrow> nat" where
  "par D j = (j - 1) div D"

lemma par_less: "0 < j \<Longrightarrow> par D j < j"
  unfolding par_def by (rule le_less_trans [OF div_le_dividend]) simp

lemma get_parent_par: "get_parent D h i = Some p \<Longrightarrow> i < length h \<and> p < i \<and> p = par D i"
  by (drule get_parent_bounds) (simp add: par_def)

text \<open>
  \<open>heap_upto n\<close>: no element of the first \<open>n\<close> positions follows a child of it there.
  \<open>heap_from m\<close>: no element at position \<open>m\<close> or later follows a child of it.
\<close>

definition heap_upto :: "('a \<Rightarrow> 'a \<Rightarrow> bool) \<Rightarrow> nat \<Rightarrow> nat \<Rightarrow> 'a list \<Rightarrow> bool" where
  "heap_upto cmp D n h \<longleftrightarrow> (\<forall>j < n. 0 < j \<longrightarrow> \<not> cmp (h ! (par D j)) (h ! j))"

definition heap_from :: "('a \<Rightarrow> 'a \<Rightarrow> bool) \<Rightarrow> nat \<Rightarrow> nat \<Rightarrow> 'a list \<Rightarrow> bool" where
  "heap_from cmp D m h \<longleftrightarrow>
     (\<forall>j < length h. 0 < j \<longrightarrow> m \<le> par D j \<longrightarrow> \<not> cmp (h ! (par D j)) (h ! j))"

definition is_heap :: "('a \<Rightarrow> 'a \<Rightarrow> bool) \<Rightarrow> nat \<Rightarrow> 'a list \<Rightarrow> bool" where
  "is_heap cmp D h \<longleftrightarrow> heap_upto cmp D (length h) h"

text \<open>The two weakened orders that hold while one element, at \<open>i\<close>, is on its way.\<close>

definition up_ok :: "('a \<Rightarrow> 'a \<Rightarrow> bool) \<Rightarrow> nat \<Rightarrow> nat \<Rightarrow> nat \<Rightarrow> 'a list \<Rightarrow> bool" where
  "up_ok cmp D n i h \<longleftrightarrow>
     (\<forall>j < n. 0 < j \<longrightarrow>
        (j \<noteq> i \<longrightarrow> \<not> cmp (h ! (par D j)) (h ! j)) \<and>
        (par D j = i \<and> 0 < i \<longrightarrow> \<not> cmp (h ! (par D i)) (h ! j)))"

definition down_ok :: "('a \<Rightarrow> 'a \<Rightarrow> bool) \<Rightarrow> nat \<Rightarrow> nat \<Rightarrow> nat \<Rightarrow> 'a list \<Rightarrow> bool" where
  "down_ok cmp D m i h \<longleftrightarrow>
     (\<forall>j < length h. 0 < j \<longrightarrow> m \<le> par D j \<longrightarrow>
        (par D j \<noteq> i \<longrightarrow> \<not> cmp (h ! (par D j)) (h ! j)) \<and>
        (par D j = i \<and> 0 < i \<and> m \<le> par D i \<longrightarrow>
           \<not> cmp (h ! (par D i)) (h ! j)))"

lemma heap_from_Nil [simp]: "heap_from cmp D m []"
  by (simp add: heap_from_def)

lemma is_heap_Nil [simp]: "is_heap cmp D []"
  by (simp add: is_heap_def heap_upto_def)

lemma is_heap_iff_from: "is_heap cmp D h \<longleftrightarrow> heap_from cmp D 0 h"
  by (auto simp: is_heap_def heap_upto_def heap_from_def)

text \<open>The children of position \<open>i\<close>.\<close>

lemma parent_iff:
  fixes D j i :: nat
  assumes "0 < D" "0 < j"
  shows "par D j = i \<longleftrightarrow> D * i < j \<and> j \<le> D * i + D"
proof -
  have "par D j = i \<longleftrightarrow> i \<le> (j - 1) div D \<and> (j - 1) div D < Suc i"
    by (auto simp: par_def)
  also have "\<dots> \<longleftrightarrow> i * D \<le> j - 1 \<and> j - 1 < Suc i * D"
    using assms(1) by (simp add: less_eq_div_iff_mult_less_eq div_less_iff_less_mult)
  also have "\<dots> \<longleftrightarrow> D * i < j \<and> j \<le> D * i + D"
    using assms(2) by (auto simp: mult.commute)
  finally show ?thesis .
qed

lemma smallest_child_loop_min:
  assumes "strict_weak_order cmp"
    and "1 \<le> k" "is_valid_index h s"
    and "\<forall>j. D * i < j \<and> j < D * i + k \<and> j < length h \<longrightarrow> \<not> cmp (h ! s) (h ! j)"
  shows "\<forall>j. D * i < j \<and> j \<le> D * i + D \<and> j < length h \<longrightarrow>
           \<not> cmp (h ! smallest_child_loop cmp D h i k s) (h ! j)"
  using assms
proof (induction cmp D h i k s rule: smallest_child_loop.induct)
  case (1 cmp D h i k s)
  show ?case
  proof (cases "k \<le> D \<and> is_valid_index h (D * i + k)")
    case False
    with "1.prems" show ?thesis
      by (subst smallest_child_loop.simps) (auto simp: Let_def is_valid_index_def)
  next
    case True
    let ?c = "D * i + k" and ?s = "if cmp (h ! s) (h ! (D * i + k)) then D * i + k else s"
    have min: "\<forall>j. D * i < j \<and> j < D * i + (k + 1) \<and> j < length h \<longrightarrow> \<not> cmp (h ! ?s) (h ! j)"
    proof (intro allI impI)
      fix j
      assume j: "D * i < j \<and> j < D * i + (k + 1) \<and> j < length h"
      show "\<not> cmp (h ! ?s) (h ! j)"
      proof (cases "j = ?c")
        case True
        then show ?thesis by (simp add: strict_weak_order.irrefl [OF "1.prems"(1)])
      next
        case False
        with j "1.prems"(4) have "\<not> cmp (h ! s) (h ! j)" by auto
        then show ?thesis
          using strict_weak_order.before_le [OF "1.prems"(1), of "h ! s" "h ! ?c" "h ! j"] by simp
      qed
    qed
    have "smallest_child_loop cmp D h i k s = smallest_child_loop cmp D h i (k + 1) ?s"
      using True by (subst smallest_child_loop.simps) (simp add: Let_def)
    moreover have "\<forall>j. D * i < j \<and> j \<le> D * i + D \<and> j < length h \<longrightarrow>
        \<not> cmp (h ! smallest_child_loop cmp D h i (k + 1) ?s) (h ! j)"
    proof (rule "1.IH" [OF _ refl _ "1.prems"(1) _ _ min])
      show "k \<le> D" "\<not> \<not> is_valid_index h ?c" using True by auto
      show "1 \<le> k + 1" "is_valid_index h ?s" using True "1.prems"(3) by auto
    qed
    ultimately show ?thesis by (simp only:)
  qed
qed

lemma get_smallest_child_Some:
  assumes "strict_weak_order cmp" "0 < D" and c: "get_smallest_child cmp D h i = Some c"
  shows "c < length h" "i < c" "par D c = i"
    and "\<And>j. j < length h \<Longrightarrow> 0 < j \<Longrightarrow> par D j = i \<Longrightarrow> \<not> cmp (h ! c) (h ! j)"
proof -
  show 1: "c < length h" "i < c"
    using get_smallest_child_bounds [OF c] get_smallest_child_gt [OF c assms(2)] by auto
  have valid: "is_valid_index h (D * i + 1)"
    and ceq: "c = smallest_child_loop cmp D h i 2 (D * i + 1)"
    using c by (auto simp: get_smallest_child_def split: if_splits)
  have min: "\<forall>j. D * i < j \<and> j \<le> D * i + D \<and> j < length h \<longrightarrow> \<not> cmp (h ! c) (h ! j)"
    unfolding ceq
    by (rule smallest_child_loop_min [OF assms(1) _ valid])
      (auto simp: less_Suc_eq strict_weak_order.irrefl [OF assms(1)])
  show "\<not> cmp (h ! c) (h ! j)" if "j < length h" "0 < j" "par D j = i" for j
    using that min parent_iff [OF assms(2)] by blast
  have "smallest_child_loop cmp D h i 2 (D * i + 1) \<le> D * i + D"
    by (rule smallest_child_loop_le) (use assms(2) in auto)
  with 1 show "par D c = i"
    using parent_iff [OF assms(2), of c i] get_smallest_child_bounds [OF c] ceq by simp
qed

lemma get_smallest_child_None:
  assumes "0 < D" "get_smallest_child cmp D h i = None" "0 < j" "par D j = i"
  shows "length h \<le> j"
  using assms(2) parent_iff [OF assms(1,3), of i] assms(4)
  by (auto simp: get_smallest_child_def is_valid_index_def split: if_splits)

section \<open>The sifts restore the order\<close>

lemma nth_sift_up_beyond:
  "i < n \<Longrightarrow> n \<le> k \<Longrightarrow> fst (sift_up cmp D h i) ! k = h ! k"
proof (induction cmp D h i rule: sift_up.induct)
  case (1 cmp D h index)
  show ?case
  proof (cases "get_parent D h index")
    case None
    then show ?thesis by (subst sift_up.simps) simp
  next
    case (Some p)
    note b = get_parent_par [OF Some]
    from b "1.prems" have "swap index p h ! k = h ! k" by (simp add: nth_swap)
    with Some b "1.prems" show ?thesis
      using "1.IH" [OF Some] by (subst sift_up.simps) auto
  qed
qed

lemma sift_up_index_le: "snd (sift_up cmp D h i) \<le> i"
proof (induction cmp D h i rule: sift_up.induct)
  case (1 cmp D h index)
  show ?case
  proof (cases "get_parent D h index")
    case None
    then show ?thesis by (subst sift_up.simps) simp
  next
    case (Some p)
    with "1.IH" [OF Some] get_parent_par [OF Some] show ?thesis
      by (subst sift_up.simps) auto
  qed
qed

lemma up_ok_root: "up_ok cmp D n 0 h \<Longrightarrow> heap_upto cmp D n h"
  by (auto simp: up_ok_def heap_upto_def)

lemma up_ok_done:
  "up_ok cmp D n i h \<Longrightarrow> \<not> cmp (h ! (par D i)) (h ! i) \<Longrightarrow> heap_upto cmp D n h"
  by (auto simp: up_ok_def heap_upto_def)

lemma up_ok_step:
  assumes swo: "strict_weak_order cmp"
    and ok: "up_ok cmp D n i h" and n: "n \<le> length h" "i < n" "0 < i"
    and less: "cmp (h ! (par D i)) (h ! i)"
  shows "up_ok cmp D n (par D i) (swap i (par D i) h)"
proof -
  let ?p = "par D i" and ?h = "swap i (par D i) h"
  have p: "?p < i" using n(3) by (rule par_less)
  have nth: "?h ! k = (if k = ?p then h ! i else if k = i then h ! ?p else h ! k)" for k
    using p n by (simp add: nth_swap)
  have old: "\<not> cmp (h ! (par D j)) (h ! j)" if "j < n" "0 < j" "j \<noteq> i" for j
    using ok that by (simp add: up_ok_def)
  have grand: "\<not> cmp (h ! ?p) (h ! j)" if "j < n" "0 < j" "par D j = i" for j
    using ok that n(3) by (simp add: up_ok_def)
  show ?thesis
    unfolding up_ok_def
  proof (intro allI impI conjI)
    fix j
    assume j: "j < n" "0 < j" "j \<noteq> ?p"
    show "\<not> cmp (?h ! (par D j)) (?h ! j)"
    proof (cases "j = i")
      case True
      then show ?thesis
        using strict_weak_order.asym [OF swo less] p by (simp add: nth)
    next
      case False
      consider "par D j = i" | "par D j = ?p" | "par D j \<noteq> i" "par D j \<noteq> ?p"
        by blast
      then show ?thesis
      proof cases
        case 1
        with j False p show ?thesis using grand [OF j(1,2)] by (simp add: nth)
      next
        case 2
        then show ?thesis
          using j False p strict_weak_order.before_le [OF swo less] old [OF j(1,2) False]
          by (simp add: nth)
      next
        case 3
        with j False show ?thesis using old [OF j(1,2) False] by (simp add: nth)
      qed
    qed
  next
    fix j
    assume j: "j < n" "0 < j" and c: "par D j = ?p \<and> 0 < ?p"
    have pp: "par D ?p < ?p" using c by (intro par_less) simp
    have top: "\<not> cmp (h ! (par D ?p)) (h ! ?p)"
      using c p n by (intro old) auto
    show "\<not> cmp (?h ! (par D ?p)) (?h ! j)"
    proof (cases "j = i")
      case True
      then show ?thesis using pp p top by (simp add: nth)
    next
      case False
      have "j \<noteq> ?p" using par_less [OF j(2), of D] c by auto
      then show ?thesis
        using pp p False c strict_weak_order.neg_trans [OF swo top] old [OF j False]
        by (simp add: nth)
    qed
  qed
qed

lemma sift_up_heap:
  assumes "strict_weak_order cmp" "up_ok cmp D n i h" "n \<le> length h" "i < n"
  shows "heap_upto cmp D n (fst (sift_up cmp D h i))"
  using assms
proof (induction cmp D h i rule: sift_up.induct)
  case (1 cmp D h index)
  show ?case
  proof (cases "get_parent D h index")
    case None
    with "1.prems" have "index = 0"
      by (auto simp: get_parent_def is_root_def is_valid_index_def split: if_splits)
    with None "1.prems" show ?thesis
      by (subst sift_up.simps) (simp add: up_ok_root)
  next
    case (Some p)
    note b = get_parent_par [OF Some]
    show ?thesis
    proof (cases "cmp (h ! p) (h ! index)")
      case False
      with Some b "1.prems" show ?thesis
        by (subst sift_up.simps) (auto intro: up_ok_done)
    next
      case True
      with b "1.prems" have "up_ok cmp D n p (swap index p h)"
        using up_ok_step [of cmp D n index h] by simp
      with True Some b "1.prems" show ?thesis
        using "1.IH" [OF Some True] by (subst sift_up.simps) simp
    qed
  qed
qed

lemma down_ok_done:
  assumes swo: "strict_weak_order cmp" and "0 < D" and ok: "down_ok cmp D m i h"
    and stop: "\<And>c. get_smallest_child cmp D h i = Some c \<Longrightarrow> \<not> cmp (h ! i) (h ! c)"
  shows "heap_from cmp D m h"
  unfolding heap_from_def
proof (intro allI impI)
  fix j
  assume j: "j < length h" "0 < j" "m \<le> par D j"
  show "\<not> cmp (h ! (par D j)) (h ! j)"
  proof (cases "par D j = i")
    case False
    with ok j show ?thesis by (simp add: down_ok_def)
  next
    case True
    with j get_smallest_child_None [OF assms(2) _ j(2) True]
    obtain c where c: "get_smallest_child cmp D h i = Some c" by fastforce
    show ?thesis
      using strict_weak_order.neg_trans [OF swo stop [OF c]]
        get_smallest_child_Some(4) [OF swo assms(2) c j(1,2) True] True by simp
  qed
qed

lemma down_ok_step:
  assumes swo: "strict_weak_order cmp" and D: "0 < D" and ok: "down_ok cmp D m i h"
    and m: "m \<le> i" and c: "get_smallest_child cmp D h i = Some c"
    and less: "cmp (h ! i) (h ! c)"
  shows "down_ok cmp D m c (swap i c h)"
proof -
  note child = get_smallest_child_Some [OF swo D c]
  let ?h = "swap i c h"
  have nth: "?h ! k = (if k = c then h ! i else if k = i then h ! c else h ! k)" for k
    using child(1,2) by (simp add: nth_swap)
  have old: "\<not> cmp (h ! (par D j)) (h ! j)"
    if "j < length h" "0 < j" "m \<le> par D j" "par D j \<noteq> i" for j
    using ok that by (simp add: down_ok_def)
  show ?thesis
    unfolding down_ok_def length_swap
  proof (intro allI impI conjI)
    fix j
    assume j: "j < length h" "0 < j" "m \<le> par D j" "par D j \<noteq> c"
    show "\<not> cmp (?h ! (par D j)) (?h ! j)"
    proof (cases "par D j = i")
      case True
      have "j \<noteq> i" using par_less [OF j(2), of D] True by auto
      with True j(4) show ?thesis
        using strict_weak_order.asym [OF swo less] child(4) [OF j(1,2) True] by (simp add: nth)
    next
      case False
      have "j \<noteq> c" using child(3) False by auto
      show ?thesis
      proof (cases "j = i")
        case True
        have "\<not> cmp (h ! (par D i)) (h ! c)"
          using ok [unfolded down_ok_def, rule_format, of c] child(1-3) j True m by simp
        with True False j(4) child(2) show ?thesis by (simp add: nth)
      next
        case False
        with j \<open>j \<noteq> c\<close> \<open>par D j \<noteq> i\<close> show ?thesis using old by (simp add: nth)
      qed
    qed
  next
    fix j
    assume j: "j < length h" "0 < j" "m \<le> par D j"
      and p: "par D j = c \<and> 0 < c \<and> m \<le> par D c"
    have "c < j" using par_less [OF j(2), of D] p by simp
    moreover have "\<not> cmp (h ! c) (h ! j)" using old [OF j] p child(2) by simp
    ultimately show "\<not> cmp (?h ! (par D c)) (?h ! j)"
      using child(2,3) by (simp add: nth)
  qed
qed

lemma sift_down_heap:
  assumes "strict_weak_order cmp" "0 < D" "down_ok cmp D m i h" "m \<le> i"
  shows "heap_from cmp D m (sift_down cmp D h i)"
  using assms
proof (induction cmp D h i rule: sift_down.induct)
  case (1 cmp D h index)
  show ?case
  proof (cases "\<exists>c. get_smallest_child cmp D h index = Some c \<and> cmp (h ! index) (h ! c)")
    case False
    with "1.prems" have "sift_down cmp D h index = h"
      by (subst sift_down.simps) (auto split: option.splits)
    with False "1.prems" show ?thesis
      using down_ok_done [of cmp D m index h] by auto
  next
    case True
    then obtain c where c: "get_smallest_child cmp D h index = Some c" "cmp (h ! index) (h ! c)"
      by blast
    have "down_ok cmp D m c (swap index c h)"
      using "1.prems" c by (intro down_ok_step)
    then have "heap_from cmp D m (sift_down cmp D (swap index c h) c)"
      using "1.IH" [OF c(1)] c(2) "1.prems" get_smallest_child_gt [OF c(1)] by simp
    with c "1.prems"(2) show ?thesis by (subst sift_down.simps) simp
  qed
qed

section \<open>The operations\<close>

lemma heap_root_min:
  assumes "strict_weak_order cmp" "is_heap cmp D h" "k < length h"
  shows "\<not> cmp (h ! 0) (h ! k)"
  using assms(3)
proof (induction k rule: less_induct)
  case (less k)
  show ?case
  proof (cases "k = 0")
    case True
    then show ?thesis by (simp add: strict_weak_order.irrefl [OF assms(1)])
  next
    case False
    then have "par D k < k" by (simp add: par_less)
    with less have "\<not> cmp (h ! 0) (h ! par D k)" by simp
    moreover have "\<not> cmp (h ! par D k) (h ! k)"
      using assms(2) less.prems False by (simp add: is_heap_def heap_upto_def)
    ultimately show ?thesis by (rule strict_weak_order.neg_trans [OF assms(1)])
  qed
qed

lemma heap_root_min_set:
  assumes "strict_weak_order cmp" "is_heap cmp D h" "x \<in> set h"
  shows "\<not> cmp (h ! 0) x"
  using assms(3) heap_root_min [OF assms(1,2)] by (auto simp: in_set_conv_nth)

text \<open>The array after the last element has replaced the root.\<close>

lemma length_moved: "h \<noteq> [] \<Longrightarrow> length (butlast (h[0 := last h])) = length h - 1"
  by simp

lemma nth_moved:
  "0 < k \<Longrightarrow> k < length h - 1 \<Longrightarrow> butlast (h[0 := last h]) ! k = h ! k"
  by (simp add: nth_butlast)

lemma mset_moved:
  assumes "h \<noteq> []"
  shows "mset h = add_mset (h ! 0) (mset (butlast (h[0 := last h])))"
proof (cases h)
  case Nil
  with assms show ?thesis by simp
next
  case (Cons x xs)
  then show ?thesis by (cases xs rule: rev_cases) auto
qed

lemma extract_root_None [simp]: "extract_root cmp D h = None \<longleftrightarrow> h = []"
  by (simp add: extract_root_def Let_def)

lemma extract_root_mset:
  "extract_root cmp D h = Some (m, h') \<Longrightarrow> mset h = add_mset m (mset h') \<and> m = h ! 0"
  using mset_moved [of h]
  by (auto simp: extract_root_def Let_def simp flip: length_greater_0_conv split: if_splits)

lemma extract_root_length:
  "extract_root cmp D h = Some (m, h') \<Longrightarrow> length h = Suc (length h')"
  by (metis extract_root_mset size_add_mset size_mset)

lemma extract_root_heap:
  assumes swo: "strict_weak_order cmp" and D: "0 < D" and heap: "is_heap cmp D h"
    and ex: "extract_root cmp D h = Some (m, h')"
  shows "is_heap cmp D h'"
proof -
  let ?h = "butlast (h[0 := last h])"
  have ne: "h \<noteq> []" using ex by (auto simp: extract_root_def)
  have "down_ok cmp D 0 0 ?h"
    unfolding down_ok_def
  proof (intro allI impI conjI)
    fix j
    assume j: "j < length ?h" "0 < j" "par D j \<noteq> 0"
    have "par D j < j" using j(2) by (rule par_less)
    then show "\<not> cmp (?h ! par D j) (?h ! j)"
      using j ne heap by (simp add: nth_moved is_heap_def heap_upto_def)
  qed simp
  then have "heap_from cmp D 0 (sift_down cmp D ?h 0)"
    by (rule sift_down_heap [OF swo D]) simp
  moreover have "h' = (if 0 < length ?h then sift_down cmp D ?h 0 else ?h)"
    using ex ne by (simp only: extract_root_def Let_def if_False option.inject prod.inject simp_thms)
  moreover have "is_heap cmp D ?h" if "\<not> 0 < length ?h"
    using that by (simp only: length_greater_0_conv not_not is_heap_Nil)
  ultimately show ?thesis
    by (metis is_heap_iff_from)
qed

lemma extract_root_min:
  assumes "strict_weak_order cmp" "is_heap cmp D h" "extract_root cmp D h = Some (m, h')"
    and "x \<in> set h"
  shows "\<not> cmp m x"
  using heap_root_min_set [OF assms(1,2,4)] extract_root_mset [OF assms(3)] by simp

lemma push_array_heap:
  assumes swo: "strict_weak_order cmp" and heap: "is_heap cmp D h"
  shows "is_heap cmp D (fst (sift_up cmp D (h @ [x]) (length h)))"
proof -
  have "up_ok cmp D (Suc (length h)) (length h) (h @ [x])"
    unfolding up_ok_def
  proof (intro allI impI conjI)
    fix j
    assume j: "j < Suc (length h)" "0 < j" "j \<noteq> length h"
    have "par D j < j" using j(2) by (rule par_less)
    then show "\<not> cmp ((h @ [x]) ! par D j) ((h @ [x]) ! j)"
      using j heap by (simp add: nth_append is_heap_def heap_upto_def)
  next
    fix j
    assume j: "j < Suc (length h)" "0 < j" and "par D j = length h \<and> 0 < length h"
    then show "\<not> cmp ((h @ [x]) ! par D (length h)) ((h @ [x]) ! j)"
      using par_less [OF j(2), of D] by simp
  qed
  from sift_up_heap [OF swo this] show ?thesis by (simp add: is_heap_def)
qed

lemma length_build_loop [simp]: "length (build_loop cmp D n h) = length h"
  by (induction n arbitrary: h) simp_all

lemma mset_build_loop [simp]: "n \<le> length h \<Longrightarrow> mset (build_loop cmp D n h) = mset h"
  by (induction n arbitrary: h) simp_all

lemma build_loop_heap:
  assumes "strict_weak_order cmp" "0 < D"
  shows "heap_from cmp D n h \<Longrightarrow> is_heap cmp D (build_loop cmp D n h)"
proof (induction n arbitrary: h)
  case 0
  then show ?case by (simp add: is_heap_iff_from)
next
  case (Suc i)
  have "down_ok cmp D i i h"
    unfolding down_ok_def
  proof (intro allI impI conjI)
    fix j
    assume "j < length h" "0 < j" "i \<le> par D j" "par D j \<noteq> i"
    with Suc.prems show "\<not> cmp (h ! par D j) (h ! j)" by (simp add: heap_from_def)
  next
    fix j
    assume "par D j = i \<and> 0 < i \<and> i \<le> par D i"
    with par_less [of i D] show "\<not> cmp (h ! par D i) (h ! j)" by simp
  qed
  from sift_down_heap [OF assms this] Suc.IH show ?case by simp
qed

lemma build_array_heap:
  assumes "strict_weak_order cmp" "0 < D"
  shows "is_heap cmp D (build_loop cmp D (length h) h)"
proof (rule build_loop_heap [OF assms])
  show "heap_from cmp D (length h) h"
    unfolding heap_from_def
  proof (intro allI impI)
    fix j
    assume "j < length h" "0 < j" "length h \<le> par D j"
    with par_less [of j D] show "\<not> cmp (h ! par D j) (h ! j)" by simp
  qed
qed

lemma divide_loop_mset:
  "ns \<le> i \<Longrightarrow> i \<le> length a \<Longrightarrow> divide_loop i ns a b = (a', b') \<Longrightarrow>
   mset a' + mset b' = mset (take ns a) + mset (drop i a) + mset b"
proof (induction i ns a b rule: divide_loop.induct)
  case (1 i ns a b)
  show ?case
  proof (cases "i < length a")
    case False
    then have "divide_loop i ns a b = (take ns a, b)"
      by (simp add: divide_loop.simps [of i ns a b])
    with False "1.prems" show ?thesis by simp
  next
    case True
    then have dr: "mset (drop i a) = add_mset (a ! i) (mset (drop (Suc i) a))"
      by (simp flip: Cons_nth_drop_Suc)
    show ?thesis
    proof (cases "i mod 2 \<noteq> 0")
      case odd: True
      with True "1.prems" have "divide_loop (i + 1) ns a (b @ [a ! i]) = (a', b')"
        by (simp add: divide_loop.simps [of i])
      with "1.IH"(1) [OF True odd] "1.prems" True dr show ?thesis by simp
    next
      case even: False
      with True "1.prems" have "divide_loop (i + 1) (ns + 1) (a[ns := a ! i]) b = (a', b')"
        by (simp add: divide_loop.simps [of i])
      moreover have "take (ns + 1) (a[ns := a ! i]) = take ns a @ [a ! i]"
        using True "1.prems" by (simp add: take_Suc_conv_app_nth)
      ultimately show ?thesis
        using "1.IH"(2) [OF True even] "1.prems" True dr by simp
    qed
  qed
qed

lemma divide_loop_length:
  "ns \<le> i \<Longrightarrow> i \<le> length a \<Longrightarrow> divide_loop i ns a b = (a', b') \<Longrightarrow>
   length a' + Suc i div 2 = ns + Suc (length a) div 2 \<and>
   length b' + i div 2 = length b + length a div 2"
proof (induction i ns a b rule: divide_loop.induct)
  case (1 i ns a b)
  show ?case
  proof (cases "i < length a")
    case False
    then have "divide_loop i ns a b = (take ns a, b)"
      by (simp add: divide_loop.simps [of i ns a b])
    with False "1.prems" show ?thesis by simp
  next
    case True
    show ?thesis
    proof (cases "i mod 2 \<noteq> 0")
      case odd: True
      with True "1.prems" have "divide_loop (i + 1) ns a (b @ [a ! i]) = (a', b')"
        by (simp add: divide_loop.simps [of i])
      with "1.IH"(1) [OF True odd] "1.prems"(1,2) True
      have "length a' + Suc (i + 1) div 2 = ns + Suc (length a) div 2 \<and>
          length b' + (i + 1) div 2 = Suc (length b) + length a div 2" by simp
      moreover have "Suc (i + 1) div 2 = Suc i div 2" "(i + 1) div 2 = Suc (i div 2)"
        using odd by presburger+
      ultimately show ?thesis by simp
    next
      case even: False
      with True "1.prems" have "divide_loop (i + 1) (ns + 1) (a[ns := a ! i]) b = (a', b')"
        by (simp add: divide_loop.simps [of i])
      with "1.IH"(2) [OF True even] "1.prems"(1,2) True
      have "length a' + Suc (i + 1) div 2 = ns + 1 + Suc (length a) div 2 \<and>
          length b' + (i + 1) div 2 = length b + length a div 2" by simp
      moreover have "Suc (i + 1) div 2 = Suc (Suc i div 2)" "(i + 1) div 2 = i div 2"
        using even by presburger+
      ultimately show ?thesis by simp
    qed
  qed
qed

lemma push_all_loop_mset [simp]:
  "i \<le> length h \<Longrightarrow> mset (push_all_loop cmp D i h) = mset h"
proof (induction cmp D i h rule: push_all_loop.induct)
  case (1 cmp D i h)
  then show ?case by (subst push_all_loop.simps) simp
qed

lemma push_all_loop_heap:
  assumes "strict_weak_order cmp"
  shows "heap_upto cmp D i h \<Longrightarrow> i \<le> length h \<Longrightarrow> is_heap cmp D (push_all_loop cmp D i h)"
  using assms
proof (induction cmp D i h rule: push_all_loop.induct)
  case (1 cmp D i h)
  show ?case
  proof (cases "i < length h")
    case False
    with "1.prems" show ?thesis by (subst push_all_loop.simps) (simp add: is_heap_def)
  next
    case True
    have "up_ok cmp D (Suc i) i h"
      unfolding up_ok_def
    proof (intro allI impI conjI)
      fix j
      assume "j < Suc i" "0 < j" "j \<noteq> i"
      with "1.prems"(1) show "\<not> cmp (h ! par D j) (h ! j)" by (simp add: heap_upto_def)
    next
      fix j
      assume "j < Suc i" "0 < j" "par D j = i \<and> 0 < i"
      with par_less [of j D] show "\<not> cmp (h ! par D i) (h ! j)" by simp
    qed
    with True "1.prems"(3) have "heap_upto cmp D (Suc i) (fst (sift_up cmp D h i))"
      by (intro sift_up_heap) simp_all
    with "1.IH" [OF True] True "1.prems" show ?thesis
      by (subst push_all_loop.simps) simp
  qed
qed

section \<open>Properties of the struct\<close>

text \<open>
  \<open>DAryHeap_ok\<close>: the array is a heap. \<open>std::greater<int>\<close>, the default comparer, is used
  for the concrete instances.
\<close>

definition DAryHeap_ok :: "('a \<Rightarrow> 'a \<Rightarrow> bool) \<Rightarrow> nat \<Rightarrow> 'a DAryHeap \<Rightarrow> bool" where
  "DAryHeap_ok cmp D H \<longleftrightarrow> is_heap cmp D (heap H)"

definition std_greater :: "int \<Rightarrow> int \<Rightarrow> bool" where
  "std_greater x y \<longleftrightarrow> x > y"

interpretation std_greater: strict_weak_order std_greater
  by unfold_locales (auto simp: std_greater_def)

lemma DAryHeap_init_ok: "DAryHeap_ok cmp D DAryHeap_init"
  by (simp add: DAryHeap_ok_def DAryHeap_init_def)

lemma heap_DAryHeap_init [simp]: "heap DAryHeap_init = []"
  by (simp add: DAryHeap_init_def)

lemma DAryHeap_push_ok:
  assumes "strict_weak_order cmp" "DAryHeap_ok cmp D H"
  shows "DAryHeap_ok cmp D (DAryHeap_push cmp D H x)"
  using push_array_heap [OF assms(1), of D "heap H" x] assms(2)
  by (simp add: DAryHeap_ok_def DAryHeap_push_def Let_def)

lemma DAryHeap_push_mset [bag_simps]:
  "mset (heap (DAryHeap_push cmp D H x)) = add_mset x (mset (heap H))"
  by (simp add: DAryHeap_push_def Let_def)

lemma DAryHeap_build_ok:
  assumes "strict_weak_order cmp" "0 < D"
  shows "DAryHeap_ok cmp D (DAryHeap_build cmp D H)"
  using build_array_heap [OF assms, of "heap H"]
  by (simp add: DAryHeap_ok_def DAryHeap_build_def)

lemma DAryHeap_build_mset [bag_simps]: "mset (heap (DAryHeap_build cmp D H)) = mset (heap H)"
  by (simp add: DAryHeap_build_def)

lemma DAryHeap_build_length [len_simps]:
  "length (heap (DAryHeap_build cmp D H)) = length (heap H)"
  by (simp add: DAryHeap_build_def)

text \<open>
  C2: \<open>extractMin\<close> on a heap returns an element that follows no stored element, removes
  exactly that one occurrence, keeps the heap order and touches no other field; it is undefined
  exactly on the empty heap.
\<close>

theorem extractMin_correct:
  assumes "strict_weak_order cmp" "0 < D" "DAryHeap_ok cmp D H"
  shows "case DAryHeap_extractMin cmp D H of
      None \<Rightarrow> heap H = []
    | Some (m, H') \<Rightarrow> (\<forall>i < length (heap H). \<not> cmp m (heap H ! i)) \<and>
        mset (heap H) = add_mset m (mset (heap H')) \<and> DAryHeap_ok cmp D H' \<and>
        H' = H\<lparr>heap := heap H'\<rparr>"
proof (cases "extract_root cmp D (heap H)")
  case None
  then have "DAryHeap_extractMin cmp D H = None" by (simp only: DAryHeap_extractMin_def option.map)
  with None show ?thesis by simp
next
  case (Some r)
  obtain m h' where r: "extract_root cmp D (heap H) = Some (m, h')"
    using Some by (cases r) simp
  have "is_heap cmp D (heap H)" using assms(3) by (simp add: DAryHeap_ok_def)
  with r show ?thesis
    using extract_root_min [OF assms(1) _ r] extract_root_heap [OF assms(1,2) _ r]
      extract_root_mset [OF r]
    by (auto simp: DAryHeap_extractMin_def DAryHeap_ok_def)
qed

theorem extractMin_correct_witness:
  "\<exists>H :: int DAryHeap. heap H = [2, 3, 4, 5, 7, 9] \<and> DAryHeap_ok std_greater 4 H \<and>
     map_option fst (DAryHeap_extractMin std_greater 4 H) = Some 2 \<and>
     (case DAryHeap_extractMin std_greater 4 H of
        None \<Rightarrow> heap H = []
      | Some (m, H') \<Rightarrow> (\<forall>i < length (heap H). \<not> std_greater m (heap H ! i)) \<and>
          mset (heap H) = add_mset m (mset (heap H')) \<and> DAryHeap_ok std_greater 4 H' \<and>
          H' = H\<lparr>heap := heap H'\<rparr>)"
proof -
  let ?H = "DAryHeap_init\<lparr>heap := [2, 3, 4, 5, 7, 9 :: int]\<rparr>"
  have ok: "DAryHeap_ok std_greater 4 ?H" by code_simp
  have m: "map_option fst (DAryHeap_extractMin std_greater 4 ?H) = Some 2" by code_simp
  show ?thesis
    using extractMin_correct [OF std_greater.strict_weak_order_axioms _ ok] ok m
    by (intro exI [of _ ?H]) simp
qed

text \<open>
  Draining a heap: the elements in the order \<open>extractMin\<close> returns them, for as many calls as
  there are elements.
\<close>

fun drain :: "('a \<Rightarrow> 'a \<Rightarrow> bool) \<Rightarrow> nat \<Rightarrow> nat \<Rightarrow> 'a DAryHeap \<Rightarrow> 'a list" where
  "drain cmp D 0 H = []"
| "drain cmp D (Suc n) H =
     (case DAryHeap_extractMin cmp D H of
        None \<Rightarrow> []
      | Some (m, H') \<Rightarrow> m # drain cmp D n H')"

lemma drain_sorted:
  assumes "strict_weak_order cmp" "0 < D"
  shows "DAryHeap_ok cmp D H \<Longrightarrow>
    mset (drain cmp D (length (heap H)) H) = mset (heap H) \<and>
    sorted_wrt (\<lambda>x y. \<not> cmp x y) (drain cmp D (length (heap H)) H)"
proof (induction "length (heap H)" arbitrary: H)
  case 0
  then show ?case by simp
next
  case (Suc n)
  from Suc(2) have "heap H \<noteq> []" by auto
  then obtain m h' where r: "extract_root cmp D (heap H) = Some (m, h')"
    by (metis extract_root_None not_None_eq surj_pair)
  let ?H = "H\<lparr>heap := h'\<rparr>"
  have ex: "DAryHeap_extractMin cmp D H = Some (m, ?H)"
    using r by (simp add: DAryHeap_extractMin_def)
  have heap: "is_heap cmp D (heap H)" using Suc.prems by (simp add: DAryHeap_ok_def)
  have n: "n = length (heap ?H)" using Suc(2) extract_root_length [OF r] by simp
  have ok: "DAryHeap_ok cmp D ?H"
    using extract_root_heap [OF assms heap r] by (simp add: DAryHeap_ok_def)
  note IH = Suc(1) [OF n ok]
  have "set (drain cmp D n ?H) = set h'"
    using IH n by (metis mset_eq_setD select_convs(1) surjective update_convs(1))
  moreover have "set h' \<subseteq> set (heap H)"
    using extract_root_mset [OF r] by (metis set_mset_add_mset_insert set_mset_mset subset_insertI)
  ultimately have "\<forall>x \<in> set (drain cmp D n ?H). \<not> cmp m x"
    using extract_root_min [OF assms(1) heap r] by blast
  with IH n ex extract_root_mset [OF r] Suc(2) [symmetric] show ?case by simp
qed

text \<open>
  C1: Pushing any sequence of elements into an empty heap and extracting as often as was
  pushed returns the same elements, each as often as it was pushed, in the comparer's order.
\<close>

theorem push_extract_sorts:
  assumes "strict_weak_order cmp" "0 < D"
  shows "mset (drain cmp D (length xs) (foldl (DAryHeap_push cmp D) DAryHeap_init xs)) = mset xs \<and>
    sorted_wrt (\<lambda>x y. \<not> cmp x y)
      (drain cmp D (length xs) (foldl (DAryHeap_push cmp D) DAryHeap_init xs))"
proof -
  let ?H = "foldl (DAryHeap_push cmp D) DAryHeap_init xs"
  have "DAryHeap_ok cmp D ?H \<and> mset (heap ?H) = mset xs"
    by (induction xs rule: rev_induct)
      (simp_all add: DAryHeap_init_ok DAryHeap_push_ok [OF assms(1)] bag_simps)
  then have "DAryHeap_ok cmp D ?H" "mset (heap ?H) = mset xs" "length (heap ?H) = length xs"
    by (auto dest: mset_eq_length)
  with drain_sorted [OF assms, of ?H] show ?thesis by simp
qed

theorem push_extract_sorts_witness:
  "drain std_greater 4 6 (foldl (DAryHeap_push std_greater 4) DAryHeap_init [5, 1, 4, 1, 3, 2])
     = [1, 1, 2, 3, 4, 5 :: int] \<and>
   sorted_wrt (\<lambda>x y. \<not> std_greater x y)
     (drain std_greater 4 (length [5, 1, 4, 1, 3, 2])
       (foldl (DAryHeap_push std_greater 4) DAryHeap_init [5, 1, 4, 1, 3, 2]))"
proof -
  have "drain std_greater 4 6 (foldl (DAryHeap_push std_greater 4) DAryHeap_init [5, 1, 4, 1, 3, 2])
     = [1, 1, 2, 3, 4, 5 :: int]" by code_simp
  with push_extract_sorts [OF std_greater.strict_weak_order_axioms, of 4 "[5, 1, 4, 1, 3, 2]"]
  show ?thesis by simp
qed

text \<open>
  \<open>divideElems\<close> splits a heap's elements over the two heaps without losing or copying
  one: the first keeps the half rounded up, the second gets the rest on top of what it held,
  and both end as heaps, whatever order they were in.
\<close>

theorem divideElems_correct:
  assumes "strict_weak_order cmp" "0 < D" "divideElems cmp D H h = (H', h')"
  shows "mset (heap H') + mset (heap h') = mset (heap H) + mset (heap h) \<and>
    length (heap H') = Suc (length (heap H)) div 2 \<and>
    length (heap h') = length (heap h) + length (heap H) div 2 \<and>
    DAryHeap_ok cmp D H' \<and> DAryHeap_ok cmp D h'"
proof -
  obtain a b where ab: "divide_loop 0 0 (heap H) (heap h) = (a, b)" by fastforce
  with assms(3) have H': "H' = DAryHeap_build cmp D (H\<lparr>heap := a\<rparr>)"
    and h': "h' = DAryHeap_build cmp D (h\<lparr>heap := b\<rparr>)"
    by (auto simp: divideElems_def)
  show ?thesis
    using divide_loop_mset [OF _ _ ab] divide_loop_length [OF _ _ ab]
    by (simp add: H' h' bag_simps len_simps DAryHeap_build_ok [OF assms(1,2)])
qed

theorem divideElems_correct_witness:
  "\<exists>H' h'. divideElems std_greater 4 (DAryHeap_init\<lparr>heap := [1, 2, 3, 4, 5]\<rparr>) DAryHeap_init = (H', h') \<and>
     heap H' = [1, 3, 5] \<and> heap h' = [2, 4] \<and> DAryHeap_ok std_greater 4 H' \<and>
     mset (heap H') + mset (heap h') = mset [1, 2, 3, 4, 5 :: int]"
proof -
  let ?H = "DAryHeap_init\<lparr>heap := [1, 2, 3, 4, 5 :: int]\<rparr>"
  have eq: "divideElems std_greater 4 ?H DAryHeap_init =
      (DAryHeap_init\<lparr>heap := [1, 3, 5]\<rparr>, DAryHeap_init\<lparr>heap := [2, 4]\<rparr>)" by code_simp
  show ?thesis
    using divideElems_correct [OF std_greater.strict_weak_order_axioms _ eq] eq
    by (simp add: DAryHeap_init_def)
qed

text \<open>
  \<open>pushAllAndClear\<close> moves every element of the other heap into this one, leaving the
  other empty and this one a heap.
\<close>

theorem pushAllAndClear_correct:
  assumes "strict_weak_order cmp" "DAryHeap_ok cmp D H" "pushAllAndClear cmp D H fromH = (H', fromH')"
  shows "mset (heap H') = mset (heap H) + mset (heap fromH) \<and> heap fromH' = [] \<and>
    DAryHeap_ok cmp D H'"
proof -
  have H': "heap H' = push_all_loop cmp D (length (heap H)) (heap H @ heap fromH)"
    and from': "heap fromH' = []"
    using assms(3) by (auto simp: pushAllAndClear_def Let_def)
  have "heap_upto cmp D (length (heap H)) (heap H @ heap fromH)"
    unfolding heap_upto_def
  proof (intro allI impI)
    fix j
    assume j: "j < length (heap H)" "0 < j"
    have "par D j < length (heap H)" using par_less [OF j(2), of D] j(1) by simp
    with j assms(2) show "\<not> cmp ((heap H @ heap fromH) ! par D j) ((heap H @ heap fromH) ! j)"
      by (simp add: nth_append DAryHeap_ok_def is_heap_def heap_upto_def)
  qed
  from push_all_loop_heap [OF assms(1) this] show ?thesis
    by (simp add: H' from' DAryHeap_ok_def)
qed

theorem pushAllAndClear_correct_witness:
  "\<exists>H' f'. pushAllAndClear std_greater 2 (DAryHeap_init\<lparr>heap := [3, 5]\<rparr>)
       (DAryHeap_init\<lparr>heap := [4, 1]\<rparr>) = (H', f') \<and>
     mset (heap H') = mset [3, 5] + mset [4, 1 :: int] \<and> heap f' = [] \<and> hd (heap H') = 1"
proof -
  let ?H = "DAryHeap_init\<lparr>heap := [3, 5 :: int]\<rparr>" and ?F = "DAryHeap_init\<lparr>heap := [4, 1 :: int]\<rparr>"
  have ok: "DAryHeap_ok std_greater 2 ?H" by code_simp
  have eq: "pushAllAndClear std_greater 2 ?H ?F =
      (DAryHeap_init\<lparr>heap := [1, 3, 4, 5]\<rparr>, DAryHeap_init)" by code_simp
  show ?thesis
    using pushAllAndClear_correct [OF std_greater.strict_weak_order_axioms ok eq] eq
    by (simp add: DAryHeap_init_def)
qed

end
