(* ===== verification/DAryIndexer.thy ===== *)
theory DAryIndexer
  imports DAryHeap
begin

unbundle bit_operations_syntax

text \<open>
  The overloads of \<open>DAryHeap\<close> (\<open>WorkList/Heap.h\<close>) that keep an external index of where
  each element is, and \<open>decrease_key\<close>. The indexer is an interface: \<open>get_pair\<close> and
  \<open>set_pair\<close> with the laws of a store keyed by the element's node (locale
  \<open>pair_indexer\<close>). \<open>apps/astar/astar.h\<close> packs the pair into one 64-bit word per node; that
  encoding is modelled here and interprets the locale.
\<close>

section \<open>The indexer interface\<close>

text \<open>The two calls the heap makes, as a parameter of the definitions.\<close>

record ('i, 'a) indexer =
  ix_get :: "'i \<Rightarrow> 'a \<Rightarrow> int \<times> nat"
  ix_set :: "'i \<Rightarrow> 'a \<Rightarrow> int \<Rightarrow> nat \<Rightarrow> 'i"

text \<open>Positions the packed encoding can hold: queue numbers and 32-bit indices.\<close>

definition pos_ok :: "int \<Rightarrow> nat \<Rightarrow> bool" where
  "pos_ok q i \<longleftrightarrow> - 1 \<le> q \<and> q < 2 ^ 31 - 1 \<and> i < 2 ^ 32"

locale pair_indexer =
  fixes ix :: "('i, 'a) indexer" and key :: "'a \<Rightarrow> 'k"
  assumes get_key: "key v = key w \<Longrightarrow> ix_get ix s v = ix_get ix s w"
    and get_set_same: "key v = key w \<Longrightarrow> pos_ok q i \<Longrightarrow> ix_get ix (ix_set ix s v q i) w = (q, i)"
    and get_set_other: "key v \<noteq> key w \<Longrightarrow> ix_get ix (ix_set ix s v q i) w = ix_get ix s w"

section \<open>The operations\<close>

definition remove_info :: "('i, 'a) indexer \<Rightarrow> 'i \<Rightarrow> 'a list \<Rightarrow> nat \<Rightarrow> 'i" where
  "remove_info ix s h index = ix_set ix s (h ! index) (-1) 0"

definition set_position :: "('i, 'a) indexer \<Rightarrow> int \<Rightarrow> 'i \<Rightarrow> 'a list \<Rightarrow> nat \<Rightarrow> 'i" where
  "set_position ix q s h new_pos = ix_set ix s (h ! new_pos) q new_pos"

function sift_down_ix ::
    "('a \<Rightarrow> 'a \<Rightarrow> bool) \<Rightarrow> nat \<Rightarrow> ('i, 'a) indexer \<Rightarrow> int \<Rightarrow> 'i \<Rightarrow> 'a list \<Rightarrow> nat \<Rightarrow> 'a list \<times> 'i" where
  "sift_down_ix cmp D ix q s h index =
     (case get_smallest_child cmp D h index of
        None \<Rightarrow> (h, set_position ix q s h index)
      | Some smallest_child \<Rightarrow>
          if 0 < D \<and> cmp (h ! index) (h ! smallest_child)
          then let h' = swap index smallest_child h
               in sift_down_ix cmp D ix q (set_position ix q s h' index) h' smallest_child
          else (h, set_position ix q s h index))"
  by pat_completeness auto
termination
  by (relation "measure (\<lambda>(cmp, D, ix, q, s, h, index). length h - index)")
    (auto dest: sift_down_decreases)

function sift_up_ix ::
    "('a \<Rightarrow> 'a \<Rightarrow> bool) \<Rightarrow> nat \<Rightarrow> ('i, 'a) indexer \<Rightarrow> int \<Rightarrow> 'i \<Rightarrow> 'a list \<Rightarrow> nat \<Rightarrow>
     ('a list \<times> 'i) \<times> nat" where
  "sift_up_ix cmp D ix q s h index =
     (case get_parent D h index of
        None \<Rightarrow> ((h, set_position ix q s h index), index)
      | Some parent \<Rightarrow>
          if cmp (h ! parent) (h ! index)
          then let h' = swap index parent h
               in sift_up_ix cmp D ix q (set_position ix q s h' index) h' parent
          else ((h, set_position ix q s h index), index))"
  by pat_completeness auto
termination
  by (relation "measure (\<lambda>(cmp, D, ix, q, s, h, index). index)") (auto dest: get_parent_bounds)

declare sift_down_ix.simps [simp del] sift_up_ix.simps [simp del]

definition extractMin_ix ::
    "('a \<Rightarrow> 'a \<Rightarrow> bool) \<Rightarrow> nat \<Rightarrow> ('i, 'a) indexer \<Rightarrow> 'i \<Rightarrow> 'a DAryHeap \<Rightarrow>
     ('a \<times> 'a DAryHeap \<times> 'i) option" where
  "extractMin_ix cmp D ix s H =
     (if heap H = [] then None
      else let h = heap H;
               m = h ! 0;
               s1 = remove_info ix s h 0;
               h1 = butlast (h[0 := last h]);
               (h2, s2) = (if 0 < length h1 then sift_down_ix cmp D ix (qInd H) s1 h1 0 else (h1, s1))
           in Some (m, H\<lparr>heap := h2\<rparr>, s2))"

definition push_ix ::
    "('a \<Rightarrow> 'a \<Rightarrow> bool) \<Rightarrow> nat \<Rightarrow> ('i, 'a) indexer \<Rightarrow> 'i \<Rightarrow> 'a DAryHeap \<Rightarrow> 'a \<Rightarrow> 'a DAryHeap \<times> 'i" where
  "push_ix cmp D ix s H val =
     (let index = length (heap H); h = heap H @ [val];
          (h', s') = fst (sift_up_ix cmp D ix (qInd H) s h index)
      in (H\<lparr>heap := h'\<rparr>, s'))"

definition decrease_key ::
    "('a \<Rightarrow> 'a \<Rightarrow> bool) \<Rightarrow> nat \<Rightarrow> ('i, 'a) indexer \<Rightarrow> 'i \<Rightarrow> 'a DAryHeap \<Rightarrow> 'a \<Rightarrow> 'a DAryHeap \<times> 'i" where
  "decrease_key cmp D ix s H val =
     (case ix_get ix s val of (q, index) \<Rightarrow>
        if q \<noteq> qInd H then
          let H' = (if qInd H = -1 then H\<lparr>notInQeues := notInQeues H + 1\<rparr>
                    else H\<lparr>inAnotherQueue := inAnotherQueue H + 1\<rparr>)
          in push_ix cmp D ix s H' val
        else
          let H' = H\<lparr>inTheQueue := inTheQueue H + 1\<rparr>
          in if cmp (heap H' ! index) val then
               let h = (heap H')[index := val];
                   (h', s') = fst (sift_up_ix cmp D ix (qInd H') s h index)
               in (H'\<lparr>heap := h'\<rparr>, s')
             else (H', s))"

text \<open>The final loops of \<open>divideElems\<close>: record every position, from \<open>i\<close> on.\<close>

function set_all :: "('i, 'a) indexer \<Rightarrow> int \<Rightarrow> nat \<Rightarrow> 'a list \<Rightarrow> 'i \<Rightarrow> 'i" where
  "set_all ix q i h s = (if i < length h then set_all ix q (i + 1) h (ix_set ix s (h ! i) q i) else s)"
  by pat_completeness auto
termination
  by (relation "measure (\<lambda>(ix, q, i, h, s). length h - i)") auto

declare set_all.simps [simp del]

definition divideElems_ix ::
    "('a \<Rightarrow> 'a \<Rightarrow> bool) \<Rightarrow> nat \<Rightarrow> ('i, 'a) indexer \<Rightarrow> 'i \<Rightarrow> 'a DAryHeap \<Rightarrow> 'a DAryHeap \<Rightarrow>
     'a DAryHeap \<times> 'a DAryHeap \<times> 'i" where
  "divideElems_ix cmp D ix s H h =
     (case divide_loop 0 0 (heap H) (heap h) of (a, b) \<Rightarrow>
        let H' = DAryHeap_build cmp D (H\<lparr>heap := a\<rparr>);
            h' = DAryHeap_build cmp D (h\<lparr>heap := b\<rparr>);
            s1 = set_all ix (qInd h') 0 (heap h') s;
            s2 = set_all ix (qInd H') 0 (heap H') s1
        in (H', h', s2))"

lemma length_sift_up_ix [simp]: "length (fst (fst (sift_up_ix cmp D ix q s h i))) = length h"
proof (induction cmp D ix q s h i rule: sift_up_ix.induct)
  case (1 cmp D ix q s h index)
  then show ?case
    by (subst sift_up_ix.simps) (auto simp: Let_def split: option.splits)
qed

function push_all_loop_ix ::
    "('a \<Rightarrow> 'a \<Rightarrow> bool) \<Rightarrow> nat \<Rightarrow> ('i, 'a) indexer \<Rightarrow> int \<Rightarrow> nat \<Rightarrow> 'a list \<Rightarrow> 'i \<Rightarrow> 'a list \<times> 'i" where
  "push_all_loop_ix cmp D ix q i h s =
     (if i < length h then
        let r = fst (sift_up_ix cmp D ix q s h i)
        in push_all_loop_ix cmp D ix q (i + 1) (fst r) (snd r)
      else (h, s))"
  by pat_completeness auto
termination
  by (relation "measure (\<lambda>(cmp, D, ix, q, i, h, s). length h - i)") (auto simp: case_prod_beta)

declare push_all_loop_ix.simps [simp del]

definition pushAllAndClear_ix ::
    "('a \<Rightarrow> 'a \<Rightarrow> bool) \<Rightarrow> nat \<Rightarrow> ('i, 'a) indexer \<Rightarrow> 'i \<Rightarrow> 'a DAryHeap \<Rightarrow> 'a DAryHeap \<Rightarrow>
     'a DAryHeap \<times> 'a DAryHeap \<times> 'i" where
  "pushAllAndClear_ix cmp D ix s H fromH =
     (let prevSize = length (heap H); h = heap H @ heap fromH;
          (h', s') = push_all_loop_ix cmp D ix (qInd H) prevSize h s
      in (H\<lparr>heap := h'\<rparr>, fromH\<lparr>heap := []\<rparr>, s'))"

section \<open>The array part is the plain heap's\<close>

text \<open>With the indexer forgotten, the operations are those of \<open>DAryHeap\<close>.\<close>

lemma sift_down_ix_array: "fst (sift_down_ix cmp D ix q s h i) = sift_down cmp D h i"
proof (induction cmp D ix q s h i rule: sift_down_ix.induct)
  case (1 cmp D ix q s h index)
  then show ?case
    by (subst sift_down_ix.simps, subst sift_down.simps) (auto simp: Let_def split: option.splits)
qed

lemma sift_up_ix_array: "fst (fst (sift_up_ix cmp D ix q s h i)) = fst (sift_up cmp D h i)"
proof (induction cmp D ix q s h i rule: sift_up_ix.induct)
  case (1 cmp D ix q s h index)
  then show ?case
    by (subst sift_up_ix.simps, subst sift_up.simps) (auto simp: Let_def split: option.splits)
qed

lemma push_all_loop_ix_array: "fst (push_all_loop_ix cmp D ix q i h s) = push_all_loop cmp D i h"
proof (induction cmp D ix q i h s rule: push_all_loop_ix.induct)
  case (1 cmp D ix q i h s)
  then show ?case
    by (subst push_all_loop_ix.simps, subst push_all_loop.simps) (simp add: Let_def sift_up_ix_array)
qed

lemma push_ix_heap: "fst (push_ix cmp D ix s H x) = DAryHeap_push cmp D H x"
  by (simp add: push_ix_def DAryHeap_push_def Let_def sift_up_ix_array split: prod.splits)
    (metis fst_conv sift_up_ix_array)

lemma extractMin_ix_heap:
  "map_option (\<lambda>(m, H', s'). (m, H')) (extractMin_ix cmp D ix s H) = DAryHeap_extractMin cmp D H"
  by (auto simp: extractMin_ix_def DAryHeap_extractMin_def extract_root_def Let_def
      simp flip: sift_down_ix_array [of cmp D ix "qInd H" "remove_info ix s (heap H) 0"]
      split: prod.splits)

section \<open>The index stays consistent\<close>

text \<open>
  \<open>indexed_but n i\<close>: every element of the first \<open>n\<close> positions but the one at \<open>i\<close> is recorded
  at its position of queue \<open>q\<close>; \<open>same_outside\<close>: the records of elements with other nodes are untouched.
\<close>

definition indexed_but ::
    "('i, 'a) indexer \<Rightarrow> int \<Rightarrow> 'i \<Rightarrow> 'a list \<Rightarrow> nat \<Rightarrow> nat \<Rightarrow> bool" where
  "indexed_but ix q s h n i \<longleftrightarrow> (\<forall>j < n. j \<noteq> i \<longrightarrow> ix_get ix s (h ! j) = (q, j))"

definition indexed_upto :: "('i, 'a) indexer \<Rightarrow> int \<Rightarrow> 'i \<Rightarrow> 'a list \<Rightarrow> nat \<Rightarrow> bool" where
  "indexed_upto ix q s h n \<longleftrightarrow> (\<forall>j < n. ix_get ix s (h ! j) = (q, j))"

definition indexed :: "('i, 'a) indexer \<Rightarrow> int \<Rightarrow> 'i \<Rightarrow> 'a list \<Rightarrow> bool" where
  "indexed ix q s h \<longleftrightarrow> (\<forall>j < length h. ix_get ix s (h ! j) = (q, j))"

lemma indexed_upto_length: "indexed_upto ix q s h (length h) \<longleftrightarrow> indexed ix q s h"
  by (simp add: indexed_upto_def indexed_def)

definition same_outside :: "('i, 'a) indexer \<Rightarrow> ('a \<Rightarrow> 'k) \<Rightarrow> 'k set \<Rightarrow> 'i \<Rightarrow> 'i \<Rightarrow> bool" where
  "same_outside ix key K s s' \<longleftrightarrow> (\<forall>v. key v \<notin> K \<longrightarrow> ix_get ix s' v = ix_get ix s v)"

lemma same_outside_refl [simp]: "same_outside ix key K s s"
  by (simp add: same_outside_def)

lemma same_outside_trans:
  "same_outside ix key K s s' \<Longrightarrow> same_outside ix key K s' s'' \<Longrightarrow> same_outside ix key K s s''"
  by (simp add: same_outside_def)

lemma keys_nth_neq: "distinct (map key h) \<Longrightarrow> i < length h \<Longrightarrow> j < length h \<Longrightarrow> i \<noteq> j \<Longrightarrow>
    key (h ! i) \<noteq> key (h ! j)"
  by (metis length_map nth_eq_iff_index_eq nth_map)

lemma mset_eq_keys:
  assumes "mset h' = mset h"
  shows "distinct (map key h') = distinct (map key h)" and "set h' = set h"
  using assms by (metis mset_eq_imp_distinct_iff mset_map) (rule mset_eq_setD [OF assms])

lemma swap_keys [simp]:
  assumes "i < length h" "j < length h"
  shows "distinct (map key (swap i j h)) = distinct (map key h)" and "set (swap i j h) = set h"
  using mset_eq_keys [of "swap i j h" h] assms by simp_all

context pair_indexer
begin

lemma set_position_same_outside:
  "i < length h \<Longrightarrow> key ` set h \<subseteq> K \<Longrightarrow> same_outside ix key K s (set_position ix q s h i)"
  by (metis get_set_other image_subset_iff nth_mem same_outside_def set_position_def)

lemma set_position_indexed:
  assumes "distinct (map key h)" "i < n" "n \<le> length h" "pos_ok q i" "indexed_but ix q s h n i"
  shows "indexed_upto ix q (set_position ix q s h i) h n"
  unfolding indexed_upto_def set_position_def
proof (intro allI impI)
  fix j
  assume j: "j < n"
  show "ix_get ix (ix_set ix s (h ! i) q i) (h ! j) = (q, j)"
  proof (cases "j = i")
    case True
    with assms show ?thesis by (simp add: get_set_same)
  next
    case False
    with assms j keys_nth_neq [OF assms(1), of i j] show ?thesis
      by (simp add: get_set_other indexed_but_def)
  qed
qed

lemma swap_indexed_but:
  assumes "distinct (map key h)" "i < n" "p < n" "n \<le> length h" "i \<noteq> p" "pos_ok q i"
    and "indexed_but ix q s h n i"
  shows "indexed_but ix q (set_position ix q s (swap i p h) i) (swap i p h) n p"
  unfolding indexed_but_def
proof (intro allI impI)
  fix j
  assume j: "j < n" "j \<noteq> p"
  show "ix_get ix (set_position ix q s (swap i p h) i) (swap i p h ! j) = (q, j)"
  proof (cases "j = i")
    case True
    with assms show ?thesis by (simp add: set_position_def get_set_same)
  next
    case False
    with assms j have "key (swap i p h ! i) \<noteq> key (swap i p h ! j)"
      by (intro keys_nth_neq) simp_all
    with assms j False show ?thesis
      by (simp add: set_position_def get_set_other indexed_but_def nth_swap)
  qed
qed

lemma sift_up_indexed:
  assumes "distinct (map key h)" "i < n" "n \<le> length h" "\<forall>j < n. pos_ok q j"
    and "indexed_but ix q s h n i"
  shows "case fst (sift_up_ix cmp D ix q s h i) of (h', s') \<Rightarrow>
    indexed_upto ix q s' h' n \<and> same_outside ix key (key ` set h) s s'"
  using assms
proof (induction i arbitrary: s h rule: less_induct)
  case (less i)
  have stop: "indexed_upto ix q (set_position ix q s h i) h n \<and>
      same_outside ix key (key ` set h) s (set_position ix q s h i)"
    using less.prems by (auto intro: set_position_indexed set_position_same_outside)
  show ?case
  proof (cases "\<exists>p. get_parent D h i = Some p \<and> cmp (h ! p) (h ! i)")
    case False
    with stop show ?thesis
      by (subst sift_up_ix.simps) (auto split: option.splits)
  next
    case True
    then obtain p where p: "get_parent D h i = Some p" "cmp (h ! p) (h ! i)" by blast
    note b = get_parent_bounds [OF p(1)]
    let ?h = "swap i p h" and ?s = "set_position ix q s (swap i p h) i"
    have "case fst (sift_up_ix cmp D ix q ?s ?h p) of (h', s') \<Rightarrow>
        indexed_upto ix q s' h' n \<and> same_outside ix key (key ` set ?h) ?s s'"
      using b less.prems by (intro less.IH) (auto intro: swap_indexed_but)
    moreover have "same_outside ix key (key ` set h) s ?s"
      using b less.prems by (intro set_position_same_outside) auto
    ultimately show ?thesis
      using p b by (subst sift_up_ix.simps) (auto simp: Let_def intro: same_outside_trans)
  qed
qed

lemma sift_down_indexed:
  assumes "distinct (map key h)" "i < length h" "\<forall>j < length h. pos_ok q j" "0 < D"
    and "indexed_but ix q s h (length h) i"
  shows "case sift_down_ix cmp D ix q s h i of (h', s') \<Rightarrow>
    indexed ix q s' h' \<and> same_outside ix key (key ` set h) s s'"
  using assms
proof (induction "length h - i" arbitrary: i s h rule: less_induct)
  case less
  have stop: "indexed ix q (set_position ix q s h i) h \<and>
      same_outside ix key (key ` set h) s (set_position ix q s h i)"
    using less.prems set_position_indexed [of h i "length h" q s]
    by (auto simp: indexed_upto_length intro: set_position_same_outside)
  show ?case
  proof (cases "\<exists>c. get_smallest_child cmp D h i = Some c \<and> cmp (h ! i) (h ! c)")
    case False
    with stop show ?thesis
      by (subst sift_down_ix.simps) (auto split: option.splits)
  next
    case True
    then obtain c where c: "get_smallest_child cmp D h i = Some c" "cmp (h ! i) (h ! c)" by blast
    note b = get_smallest_child_bounds(1) [OF c(1)] get_smallest_child_gt [OF c(1) less.prems(4)]
    let ?h = "swap i c h" and ?s = "set_position ix q s (swap i c h) i"
    have "case sift_down_ix cmp D ix q ?s ?h c of (h', s') \<Rightarrow>
        indexed ix q s' h' \<and> same_outside ix key (key ` set ?h) ?s s'"
      using b less.prems by (intro less.hyps) (auto intro: swap_indexed_but)
    moreover have "same_outside ix key (key ` set h) s ?s"
      using b less.prems by (intro set_position_same_outside) auto
    ultimately show ?thesis
      using c b less.prems(4) by (subst sift_down_ix.simps) (auto simp: Let_def intro: same_outside_trans)
  qed
qed

end

text \<open>
  The invariant of a heap and its indexer: nodes are stored at most once, every stored element
  is recorded at its position, the indexer names this queue for no other node, and the
  positions fit the record.
\<close>

definition ix_inv :: "('i, 'a) indexer \<Rightarrow> ('a \<Rightarrow> 'k) \<Rightarrow> 'i \<Rightarrow> 'a DAryHeap \<Rightarrow> bool" where
  "ix_inv ix key s H \<longleftrightarrow>
     distinct (map key (heap H)) \<and> indexed ix (qInd H) s (heap H) \<and>
     (\<forall>v. fst (ix_get ix s v) = qInd H \<longrightarrow> key v \<in> key ` set (heap H)) \<and> 0 \<le> qInd H"

lemma set_push_array: "set (fst (sift_up cmp D (h @ [x]) (length h))) = insert x (set h)"
  using mset_eq_setD [OF mset_sift_up [of cmp D "h @ [x]" "length h"]] by simp

lemma indexed_but_last: "indexed ix q s h \<Longrightarrow> indexed_but ix q s (h @ [x]) (Suc (length h)) (length h)"
  by (auto simp: indexed_def indexed_but_def nth_append)

lemma indexed_but_update: "indexed ix q s h \<Longrightarrow> indexed_but ix q s (h[i := x]) (length h) i"
  by (auto simp: indexed_def indexed_but_def)

lemma map_key_update: "i < length h \<Longrightarrow> key x = key (h ! i) \<Longrightarrow> map key (h[i := x]) = map key h"
  by (metis list_update_id map_update)

lemma up_ok_replace:
  assumes swo: "strict_weak_order cmp" and heap: "is_heap cmp D h" and i: "i < length h"
    and less: "cmp (h ! i) x"
  shows "up_ok cmp D (length (h[i := x])) i (h[i := x])"
  unfolding up_ok_def
proof (intro allI impI conjI)
  fix j
  assume j: "j < length (h[i := x])" "0 < j" "j \<noteq> i"
  then have "\<not> cmp (h ! par D j) (h ! j)" using heap by (simp add: is_heap_def heap_upto_def)
  with j i show "\<not> cmp (h[i := x] ! par D j) (h[i := x] ! j)"
    using strict_weak_order.before_le [OF swo less] by (cases "par D j = i") simp_all
next
  fix j
  assume j: "j < length (h[i := x])" "0 < j" and p: "par D j = i \<and> 0 < i"
  then have "\<not> cmp (h ! i) (h ! j)" "\<not> cmp (h ! par D i) (h ! i)"
    using heap i by (auto simp: is_heap_def heap_upto_def)
  moreover have "par D i < i" "i < j" using p j par_less [of i D] par_less [of j D] by auto
  ultimately show "\<not> cmp (h[i := x] ! par D i) (h[i := x] ! j)"
    using strict_weak_order.neg_trans [OF swo, of "h ! par D i" "h ! i" "h ! j"] by simp
qed

context pair_indexer
begin

lemma inv_sift_up:
  assumes "distinct (map key h)" "i < length h" "\<forall>j < length h. pos_ok q j" "0 \<le> q"
    and "indexed_but ix q s h (length h) i" "\<forall>v. fst (ix_get ix s v) = q \<longrightarrow> key v \<in> key ` set h"
    and r: "fst (sift_up_ix cmp D ix q s h i) = (h', s')" and H: "heap H = h'" "qInd H = q"
  shows "ix_inv ix key s' H \<and> same_outside ix key (key ` set h) s s'"
proof -
  have "mset h' = mset h" "length h' = length h"
    using sift_up_ix_array [of cmp D ix q s h i] r
    by (metis fst_conv mset_sift_up, metis fst_conv length_sift_up)
  note h' = this
  have ind: "indexed ix q s' h'" and out: "same_outside ix key (key ` set h) s s'"
    using sift_up_indexed [OF assms(1,2) order_refl assms(3,5), of cmp D] r
    by (auto simp flip: indexed_upto_length h'(2))
  from ind h'(1)
  have "distinct (map key h')" "set h' = set h" "indexed ix q s' h'"
    using assms(1) mset_eq_keys by metis+
  moreover have "key v \<in> key ` set h" if "fst (ix_get ix s' v) = q" for v
    using that out assms(6) unfolding same_outside_def by (metis fst_conv)
  ultimately show ?thesis
    using assms(4) H out by (auto simp: ix_inv_def)
qed

lemma inv_push:
  assumes "ix_inv ix key s H" "key x \<notin> key ` set (heap H)" "pos_ok (qInd H) (length (heap H))"
    and r: "push_ix cmp D ix s H x = (H', s')"
  shows "ix_inv ix key s' H'"
proof -
  let ?h = "heap H @ [x]"
  obtain h' s'' where up: "fst (sift_up_ix cmp D ix (qInd H) s ?h (length (heap H))) = (h', s'')"
    by fastforce
  with r have H': "H' = H\<lparr>heap := h'\<rparr>" "s' = s''" by (auto simp: push_ix_def Let_def)
  have pos: "\<forall>j < length ?h. pos_ok (qInd H) j" using assms(3) by (auto simp: pos_ok_def)
  have "ix_inv ix key s'' (H\<lparr>heap := h'\<rparr>) \<and> same_outside ix key (key ` set ?h) s s''"
  proof (rule inv_sift_up [OF _ _ pos _ _ _ up])
    show "distinct (map key ?h)" using assms(1,2) by (simp add: ix_inv_def)
    show "\<forall>v. fst (ix_get ix s v) = qInd H \<longrightarrow> key v \<in> key ` set ?h"
      using assms(1) by (auto simp: ix_inv_def)
  qed (use assms(1) in \<open>auto simp: ix_inv_def intro: indexed_but_last\<close>)
  then show ?thesis using H' by simp
qed

lemma found_at:
  assumes "ix_inv ix key s H" "ix_get ix s v = (qInd H, i)"
  shows "i < length (heap H)" "key (heap H ! i) = key v"
proof -
  have "key v \<in> key ` set (heap H)" using assms by (auto simp: ix_inv_def)
  then obtain j where j: "j < length (heap H)" "key (heap H ! j) = key v"
    by (auto simp: in_set_conv_nth)
  then have "ix_get ix s v = (qInd H, j)"
    using assms(1) get_key [of v "heap H ! j" s] by (simp add: ix_inv_def indexed_def)
  with assms(2) j show "i < length (heap H)" "key (heap H ! i) = key v" by auto
qed

lemma absent:
  assumes "ix_inv ix key s H" "fst (ix_get ix s v) \<noteq> qInd H"
  shows "key v \<notin> key ` set (heap H)"
proof
  assume "key v \<in> key ` set (heap H)"
  then obtain j where "j < length (heap H)" "key (heap H ! j) = key v"
    by (auto simp: in_set_conv_nth)
  then have "ix_get ix s v = (qInd H, j)"
    using assms(1) get_key [of v "heap H ! j" s] by (simp add: ix_inv_def indexed_def)
  with assms(2) show False by simp
qed

lemma inv_counters:
  "ix_inv ix key s (H\<lparr>inTheQueue := a\<rparr>) = ix_inv ix key s H"
  "ix_inv ix key s (H\<lparr>inAnotherQueue := a\<rparr>) = ix_inv ix key s H"
  "ix_inv ix key s (H\<lparr>notInQeues := a\<rparr>) = ix_inv ix key s H"
  by (simp_all add: ix_inv_def)

lemma inv_decrease_found:
  assumes inv: "ix_inv ix key s H" and at: "ix_get ix s v = (qInd H, i)"
    and pos: "pos_ok (qInd H) (length (heap H))"
    and up: "fst (sift_up_ix cmp D ix (qInd H) s ((heap H)[i := v]) i) = (h', s')"
    and H': "heap H' = h'" "qInd H' = qInd H"
  shows "ix_inv ix key s' H'"
proof -
  note f = found_at [OF inv at]
  let ?h = "(heap H)[i := v]"
  have keys: "map key ?h = map key (heap H)"
    using f by (intro map_key_update) auto
  have "ix_inv ix key s' H' \<and> same_outside ix key (key ` set ?h) s s'"
  proof (rule inv_sift_up [OF _ _ _ _ _ _ up H'])
    show "\<forall>w. fst (ix_get ix s w) = qInd H \<longrightarrow> key w \<in> key ` set ?h"
      using inv arg_cong [OF keys, of set] by (simp add: ix_inv_def)
    show "\<forall>j < length ?h. pos_ok (qInd H) j" using pos by (auto simp: pos_ok_def)
  qed (use inv f keys in \<open>auto simp: ix_inv_def intro: indexed_but_update\<close>)
  then show ?thesis by simp
qed

lemma inv_extractMin:
  assumes inv: "ix_inv ix key s H" and D: "0 < D"
    and pos: "pos_ok (qInd H) (length (heap H))"
    and ex: "extractMin_ix cmp D ix s H = Some (m, H', s')"
  shows "ix_inv ix key s' H' \<and> ix_get ix s' m = (-1, 0)"
proof -
  let ?h = "butlast ((heap H)[0 := last (heap H)])" and ?s = "remove_info ix s (heap H) 0"
  have ne: "heap H \<noteq> []" using ex by (auto simp: extractMin_ix_def)
  have m: "m = heap H ! 0" using ex ne by (auto simp: extractMin_ix_def Let_def split: prod.splits)
  have ms: "mset (heap H) = add_mset m (mset ?h)" using mset_moved [OF ne] m by simp
  then have "mset (map key (heap H)) = mset (key m # map key ?h)" by simp
  then have "distinct (key m # map key ?h)"
    using inv by (metis ix_inv_def mset_eq_imp_distinct_iff)
  then have dist: "distinct (map key ?h)" "key m \<notin> key ` set ?h" by simp_all
  have set: "set (heap H) = insert m (set ?h)" using mset_eq_setD [of "heap H" "m # ?h"] ms by simp
  have pos0: "pos_ok (-1) 0" by (simp add: pos_ok_def)
  have getm: "ix_get ix ?s w = (-1, 0)" if "key w = key m" for w
    using that pos0 m by (simp add: remove_info_def get_set_same)
  have other: "ix_get ix ?s w = ix_get ix s w" if "key w \<noteq> key m" for w
    using that m by (simp add: remove_info_def get_set_other)
  have but: "indexed_but ix (qInd H) ?s ?h (length ?h) 0"
    unfolding indexed_but_def
  proof (intro allI impI)
    fix j
    assume j: "j < length ?h" "j \<noteq> 0"
    then have "?h ! j = heap H ! j" by (simp add: nth_moved)
    moreover have "key (?h ! j) \<noteq> key m" using dist(2) j(1) by (metis image_eqI nth_mem)
    ultimately show "ix_get ix ?s (?h ! j) = (qInd H, j)"
      using inv j other by (simp add: ix_inv_def indexed_def)
  qed
  have here: "key w \<in> key ` set ?h" if "fst (ix_get ix ?s w) = qInd H" for w
  proof -
    have "key w \<noteq> key m" using that getm inv by (auto simp: ix_inv_def)
    with that other inv set show ?thesis by (auto simp: ix_inv_def)
  qed
  obtain h' s'' where r: "(if 0 < length ?h then sift_down_ix cmp D ix (qInd H) ?s ?h 0 else (?h, ?s)) = (h', s'')"
    by fastforce
  have ex': "H' = H\<lparr>heap := h'\<rparr>" "s' = s''"
    using ex ne unfolding extractMin_ix_def Let_def r by simp_all
  have fin: "indexed ix (qInd H) s'' h' \<and> same_outside ix key (key ` set ?h) ?s s'' \<and> mset h' = mset ?h"
  proof (cases "0 < length ?h")
    case False
    then have "?h = []" by (simp only: length_greater_0_conv not_not)
    moreover have "h' = ?h" "s'' = ?s" using r False by (simp_all only: if_False prod.inject)
    ultimately show ?thesis by (simp add: indexed_def)
  next
    case True
    have "\<forall>j < length ?h. pos_ok (qInd H) j" using pos by (auto simp: pos_ok_def)
    from sift_down_indexed [OF dist(1) True this D but, of cmp] r True show ?thesis
      using sift_down_ix_array [of cmp D ix "qInd H" ?s ?h 0] mset_sift_down [OF True, of cmp D] by auto
  qed
  then have "distinct (map key h')" "set h' = set ?h"
    using dist(1) mset_eq_keys by metis+
  moreover have "fst (ix_get ix s'' w) = qInd H \<longrightarrow> key w \<in> key ` set ?h" for w
    using fin here unfolding same_outside_def by metis
  moreover have "ix_get ix s'' m = (-1, 0)"
    using fin dist(2) getm unfolding same_outside_def by metis
  ultimately show ?thesis using fin inv ex' by (auto simp: ix_inv_def)
qed

end

section \<open>The packed index of the A* application\<close>

text \<open>
  \<open>apps/astar/astar.h\<close>: each graph node has one atomic 64-bit word, with the position in the
  upper half and the queue number plus one in the lower half.
\<close>

definition pack_pair :: "int \<Rightarrow> nat \<Rightarrow> u64" where
  "pack_pair q ind =
     push_bit 32 (ucast (word_of_nat ind :: u32)) OR ucast (word_of_int (q + 1) :: u32)"

definition unpack_pair :: "u64 \<Rightarrow> int \<times> nat" where
  "unpack_pair w = (let q = sint (ucast (w AND mask 32) :: u32) in (q - 1, unat (ucast (drop_bit 32 w) :: u32)))"

definition astar_set_pair ::
    "('n \<Rightarrow> u64) \<Rightarrow> 'n update_request \<Rightarrow> int \<Rightarrow> nat \<Rightarrow> ('n \<Rightarrow> u64)" where
  "astar_set_pair nodes wi q ind = nodes(req_n wi := pack_pair q ind)"

definition astar_get_pair :: "('n \<Rightarrow> u64) \<Rightarrow> 'n update_request \<Rightarrow> int \<times> nat" where
  "astar_get_pair nodes wi = unpack_pair (nodes (req_n wi))"

definition astar_get_queue :: "('n \<Rightarrow> u64) \<Rightarrow> 'n update_request \<Rightarrow> int" where
  "astar_get_queue nodes wi = fst (astar_get_pair nodes wi)"

definition astar_indexer :: "('n \<Rightarrow> u64, 'n update_request) indexer" where
  "astar_indexer = \<lparr>ix_get = astar_get_pair, ix_set = astar_set_pair\<rparr>"

lemma low_word: "ucast ((push_bit 32 (ucast a) OR ucast b :: u64) AND mask 32) = (b :: u32)" for a :: u32
  by (rule bit_word_eqI) (auto simp: bit_simps)

lemma high_word: "ucast (drop_bit 32 (push_bit 32 (ucast a) OR ucast b :: u64)) = (a :: u32)" for b :: u32
  by (rule bit_word_eqI) (auto simp: bit_simps dest: bit_imp_le_length)

lemma low_half: "ucast (pack_pair q i AND mask 32) = (word_of_int (q + 1) :: u32)"
  unfolding pack_pair_def by (rule low_word)

lemma high_half: "ucast (drop_bit 32 (pack_pair q i)) = (word_of_nat i :: u32)"
  unfolding pack_pair_def by (rule high_word)

lemma sint_queue:
  assumes "- 1 \<le> q" "q < 2 ^ 31 - 1"
  shows "sint (word_of_int (q + 1) :: u32) = q + 1"
  using assms by (simp add: sint_sbintrunc' signed_take_bit_int_eq_self del: of_int_add)

text \<open>
  C30: The packed index word gives back the queue and the position it was made from, for
  every queue number the \<open>int\<close> can hold after the shift by one (with -1 for "in no queue")
  and every 32-bit position.
\<close>

theorem unpack_pack_pair:
  assumes "- 1 \<le> q" "q < 2 ^ 31 - 1" "i < 2 ^ 32"
  shows "unpack_pair (pack_pair q i) = (q, i)"
  using assms sint_queue [of q]
  by (simp add: unpack_pair_def low_half high_half unat_of_nat del: of_int_add)

theorem unpack_pack_pair_witness:
  "unpack_pair (pack_pair (-1) 0) = (-1, 0) \<and> unpack_pair (pack_pair 6 4294967295) = (6, 4294967295)"
  using unpack_pack_pair [of "-1" 0] unpack_pack_pair [of 6 4294967295] by simp

lemma unpack_pack_ok: "pos_ok q i \<Longrightarrow> unpack_pair (pack_pair q i) = (q, i)"
  using sint_queue [of q]
  by (simp add: pos_ok_def unpack_pair_def low_half high_half unat_of_nat del: of_int_add)

interpretation astar: pair_indexer astar_indexer req_n
  by unfold_locales
    (auto simp: astar_indexer_def astar_get_pair_def astar_set_pair_def unpack_pack_ok)

section \<open>Properties\<close>

text \<open>
  C29: \<open>decrease_key\<close> keeps the heap order and the index consistent. A node the queue does not
  hold is pushed; for a node it holds, the stored element is replaced exactly when the new one
  comes before it, and nothing else changes.
\<close>

theorem decrease_key_correct:
  assumes "strict_weak_order cmp" and ix: "pair_indexer ix key"
    and inv: "ix_inv ix key s H" and heap: "DAryHeap_ok cmp D H"
    and pos: "pos_ok (qInd H) (length (heap H))"
    and dk: "decrease_key cmp D ix s H v = (H', s')"
  shows "ix_inv ix key s' H' \<and> DAryHeap_ok cmp D H' \<and>
    mset (heap H') =
      (if fst (ix_get ix s v) \<noteq> qInd H then add_mset v (mset (heap H))
       else let old = heap H ! snd (ix_get ix s v)
            in if cmp old v then add_mset v (mset (heap H) - {#old#}) else mset (heap H))"
proof -
  obtain q i where at: "ix_get ix s v = (q, i)" by fastforce
  show ?thesis
  proof (cases "q = qInd H")
    case False
    define H0 where "H0 = (if qInd H = -1 then H\<lparr>notInQeues := notInQeues H + 1\<rparr>
                    else H\<lparr>inAnotherQueue := inAnotherQueue H + 1\<rparr>)"
    have H0: "heap H0 = heap H" "qInd H0 = qInd H" "ix_inv ix key s H0"
      using inv by (simp_all add: H0_def pair_indexer.inv_counters [OF ix])
    have r: "push_ix cmp D ix s H0 v = (H', s')"
      using dk at False by (simp add: decrease_key_def H0_def)
    have "key v \<notin> key ` set (heap H0)"
      using pair_indexer.absent [OF ix inv, of v] at False H0 by simp
    then have "ix_inv ix key s' H'"
      using pair_indexer.inv_push [OF ix H0(3) _ _ r] pos H0 by simp
    moreover have "H' = DAryHeap_push cmp D H0 v"
      using push_ix_heap [of cmp D ix s H0 v] r by simp
    ultimately show ?thesis
      using at False H0 DAryHeap_push_ok [OF assms(1), of D H0 v] heap
      by (simp add: bag_simps DAryHeap_ok_def)
  next
    case True
    note f = pair_indexer.found_at [OF ix inv at [unfolded True]]
    show ?thesis
    proof (cases "cmp (heap H ! i) v")
      case False
      with dk at True have "H' = H\<lparr>inTheQueue := inTheQueue H + 1\<rparr>" "s' = s"
        by (auto simp: decrease_key_def Let_def)
      with at True False inv heap show ?thesis
        by (simp add: pair_indexer.inv_counters [OF ix] DAryHeap_ok_def)
    next
      case less: True
      let ?h = "(heap H)[i := v]"
      obtain h'' s'' where up: "fst (sift_up_ix cmp D ix (qInd H) s ?h i) = (h'', s'')" by fastforce
      have H': "H' = H\<lparr>inTheQueue := inTheQueue H + 1, heap := h''\<rparr>" "s' = s''"
        using dk at True less up by (auto simp: decrease_key_def Let_def)
      have "ix_inv ix key s'' H'"
        by (rule pair_indexer.inv_decrease_found [OF ix inv at [unfolded True] pos up]) (simp_all add: H')
      moreover have h'': "h'' = fst (sift_up cmp D ?h i)"
        using sift_up_ix_array [of cmp D ix "qInd H" s ?h i] up by simp
      have "up_ok cmp D (length ?h) i ?h"
        using f(1) heap less by (intro up_ok_replace [OF assms(1)]) (simp_all add: DAryHeap_ok_def)
      then have "is_heap cmp D h''"
        using sift_up_heap [OF assms(1), of D "length ?h" i ?h] f(1) by (simp add: h'' is_heap_def)
      ultimately show ?thesis
        using at True less f(1) by (simp add: H' h'' DAryHeap_ok_def mset_update)
    qed
  qed
qed

text \<open>A queue with number 3 that holds the requests of nodes 0 and 1, and its index.\<close>

definition example_nodes :: "nat \<Rightarrow> u64" where
  "example_nodes = (\<lambda>n. if n = 0 then pack_pair 3 0 else if n = 1 then pack_pair 3 1 else pack_pair (-1) 0)"

definition example_queue :: "nat update_request DAryHeap" where
  "example_queue = set_index (DAryHeap_init\<lparr>heap := [UpdateRequest 0 4, UpdateRequest 1 5]\<rparr>) 3"

lemma example_get:
  "ix_get astar_indexer example_nodes w =
     (if req_n w = 0 then (3, 0) else if req_n w = 1 then (3, 1) else (-1, 0))"
  by (simp add: astar_indexer_def astar_get_pair_def example_nodes_def unpack_pack_ok pos_ok_def)

lemma example_ok:
  "ix_inv astar_indexer req_n example_nodes example_queue"
  "DAryHeap_ok UpdateRequestComparer 4 example_queue"
  "pos_ok (qInd example_queue) (length (heap example_queue))"
  by (auto simp: ix_inv_def example_get indexed_def example_queue_def set_index_def less_Suc_eq
      DAryHeap_ok_def is_heap_def heap_upto_def par_def UpdateRequestComparer_def pos_ok_def
      split: if_splits)

theorem decrease_key_correct_witness:
  "\<exists>H' s'. decrease_key UpdateRequestComparer 4 astar_indexer example_nodes example_queue
       (UpdateRequest 1 2) = (H', s') \<and>
     ix_inv astar_indexer req_n s' H' \<and> DAryHeap_ok UpdateRequestComparer 4 H' \<and>
     mset (heap H') = {#UpdateRequest 1 2, UpdateRequest 0 4#}"
proof -
  obtain H' s' where r: "decrease_key UpdateRequestComparer 4 astar_indexer example_nodes example_queue
       (UpdateRequest 1 2) = (H', s')" by fastforce
  show ?thesis
    using decrease_key_correct [OF urc.strict_weak_order_axioms astar.pair_indexer_axioms example_ok r] r
    by (simp add: example_get) (simp add: example_queue_def set_index_def UpdateRequestComparer_def)
qed

text \<open>
  \<open>extractMin\<close> with an indexer returns what the plain \<open>extractMin\<close> returns, marks the
  returned element as being in no queue, and keeps every other record consistent.
\<close>

theorem extractMin_ix_correct:
  assumes "pair_indexer ix key" "ix_inv ix key s H" "0 < D"
    and "pos_ok (qInd H) (length (heap H))" "extractMin_ix cmp D ix s H = Some (m, H', s')"
  shows "DAryHeap_extractMin cmp D H = Some (m, H') \<and> ix_get ix s' m = (-1, 0) \<and> ix_inv ix key s' H'"
  using pair_indexer.inv_extractMin [OF assms(1-3,4,5)] extractMin_ix_heap [of cmp D ix s H] assms(5)
  by simp

theorem extractMin_ix_correct_witness:
  "\<exists>H' s'. extractMin_ix UpdateRequestComparer 4 astar_indexer example_nodes example_queue
       = Some (UpdateRequest 0 4, H', s') \<and>
     ix_get astar_indexer s' (UpdateRequest 0 4) = (-1, 0) \<and> ix_inv astar_indexer req_n s' H'"
proof -
  let ?ex = "extractMin_ix UpdateRequestComparer 4 astar_indexer example_nodes example_queue"
  have h: "heap example_queue \<noteq> []" "heap example_queue ! 0 = UpdateRequest 0 4"
    by (simp_all add: example_queue_def set_index_def)
  then obtain H0 where "DAryHeap_extractMin UpdateRequestComparer 4 example_queue = Some (UpdateRequest 0 4, H0)"
    by (simp add: DAryHeap_extractMin_def extract_root_def Let_def)
  then obtain H' s' where r: "?ex = Some (UpdateRequest 0 4, H', s')"
    using extractMin_ix_heap [of UpdateRequestComparer 4 astar_indexer example_nodes example_queue]
    by (auto split: prod.splits)
  show ?thesis
    using extractMin_ix_correct [OF astar.pair_indexer_axioms example_ok(1) _ example_ok(3) r] r by simp
qed

section \<open>Merging and splitting with an index\<close>

lemma length_push_all_loop [simp]: "i \<le> length h \<Longrightarrow> length (push_all_loop cmp D i h) = length h"
  by (metis push_all_loop_mset size_mset)

context pair_indexer
begin

lemma set_all_indexed:
  assumes "distinct (map key h)" "\<forall>j < length h. pos_ok q j" "i \<le> length h"
    and "\<forall>j < i. ix_get ix s (h ! j) = (q, j)"
  shows "indexed ix q (set_all ix q i h s) h \<and> same_outside ix key (key ` set h) s (set_all ix q i h s)"
  using assms(3,4)
proof (induction "length h - i" arbitrary: i s rule: less_induct)
  case less
  show ?case
  proof (cases "i < length h")
    case False
    with less.prems show ?thesis by (subst (1 2) set_all.simps) (simp add: indexed_def)
  next
    case True
    let ?s = "ix_set ix s (h ! i) q i"
    have "\<forall>j < i + 1. ix_get ix ?s (h ! j) = (q, j)"
    proof (intro allI impI)
      fix j
      assume "j < i + 1"
      with True less.prems assms(2) keys_nth_neq [OF assms(1) True, of j]
      show "ix_get ix ?s (h ! j) = (q, j)"
        by (cases "j = i") (simp_all add: get_set_same get_set_other)
    qed
    then have "indexed ix q (set_all ix q (i + 1) h ?s) h \<and>
        same_outside ix key (key ` set h) ?s (set_all ix q (i + 1) h ?s)"
      using True by (intro less.hyps) auto
    moreover have "same_outside ix key (key ` set h) s ?s"
      using set_position_same_outside [OF True order_refl, of s q] by (simp add: set_position_def)
    ultimately show ?thesis
      using True by (subst (1 2) set_all.simps) (auto intro: same_outside_trans)
  qed
qed

lemma push_all_indexed:
  assumes "distinct (map key h)" "\<forall>j < length h. pos_ok q j" "i \<le> length h"
    and "indexed_upto ix q s h i" and "push_all_loop_ix cmp D ix q i h s = (h', s')"
  shows "indexed ix q s' h' \<and> same_outside ix key (key ` set h) s s'"
  using assms
proof (induction "length h - i" arbitrary: i s h rule: less_induct)
  case less
  show ?case
  proof (cases "i < length h")
    case False
    then have "push_all_loop_ix cmp D ix q i h s = (h, s)"
      by (simp add: push_all_loop_ix.simps [of cmp D ix q i h s])
    with less.prems False show ?thesis by (simp add: indexed_def indexed_upto_def)
  next
    case True
    obtain h1 s1 where r: "fst (sift_up_ix cmp D ix q s h i) = (h1, s1)" by fastforce
    have up: "indexed_upto ix q s1 h1 (Suc i) \<and> same_outside ix key (key ` set h) s s1"
      using sift_up_indexed [of h i "Suc i" q s cmp D] less.prems True r
      by (simp add: indexed_but_def indexed_upto_def less_Suc_eq)
    have "mset h1 = mset h"
      using sift_up_ix_array [of cmp D ix q s h i] r by (metis fst_conv mset_sift_up)
    then have h1: "distinct (map key h1)" "set h1 = set h" "length h1 = length h"
      using less.prems(1) mset_eq_keys mset_eq_length by metis+
    have "push_all_loop_ix cmp D ix q (Suc i) h1 s1 = (h', s')"
      using less.prems(5) True r by (simp add: push_all_loop_ix.simps [of cmp D ix q i h s] Let_def)
    then have "indexed ix q s' h' \<and> same_outside ix key (key ` set h1) s1 s'"
      using True up h1 less.prems(2) by (intro less.hyps) auto
    with up h1(2) show ?thesis by (auto intro: same_outside_trans)
  qed
qed

end

text \<open>
  Splitting two heaps with an index leaves every element of both heaps recorded at its
  position in its heap.
\<close>

theorem divideElems_ix_indexed:
  assumes "pair_indexer ix key" "divideElems_ix cmp D ix s H h = (H', h', s')"
    and "distinct (map key (heap H @ heap h))"
    and "pos_ok (qInd H) (length (heap H))" "pos_ok (qInd h) (length (heap H) + length (heap h))"
  shows "indexed ix (qInd H) s' (heap H') \<and> indexed ix (qInd h) s' (heap h') \<and>
    divideElems cmp D H h = (H', h')"
proof -
  have eq: "divideElems cmp D H h = (H', h')"
    and s': "s' = set_all ix (qInd H') 0 (heap H') (set_all ix (qInd h') 0 (heap h') s)"
    using assms(2) by (auto simp: divideElems_ix_def divideElems_def Let_def split: prod.splits)
  obtain a b where ab: "divide_loop 0 0 (heap H) (heap h) = (a, b)" by fastforce
  have H': "H' = DAryHeap_build cmp D (H\<lparr>heap := a\<rparr>)" and h': "h' = DAryHeap_build cmp D (h\<lparr>heap := b\<rparr>)"
    using eq ab by (auto simp: divideElems_def)
  have q: "qInd H' = qInd H" "qInd h' = qInd h" by (simp_all add: H' h' DAryHeap_build_def)
  have "mset (heap H' @ heap h') = mset (heap H @ heap h)"
    using divide_loop_mset [OF _ _ ab] by (simp add: H' h' bag_simps)
  then have d: "distinct (map key (heap H' @ heap h'))"
    using assms(3) mset_eq_keys(1) by metis
  have len: "length (heap H') \<le> length (heap H)"
    "length (heap h') \<le> length (heap H) + length (heap h)"
    using divide_loop_length [OF _ _ ab] by (auto simp: H' h' len_simps)
  have pos: "\<forall>j < length (heap H'). pos_ok (qInd H) j" "\<forall>j < length (heap h'). pos_ok (qInd h) j"
    using assms(4,5) len by (auto simp: pos_ok_def)
  let ?s1 = "set_all ix (qInd h) 0 (heap h') s"
  have 1: "indexed ix (qInd h) ?s1 (heap h')"
    using pair_indexer.set_all_indexed [OF assms(1) _ pos(2), of 0 s] d by simp
  have 2: "indexed ix (qInd H) s' (heap H')" "same_outside ix key (key ` set (heap H')) ?s1 s'"
    using pair_indexer.set_all_indexed [OF assms(1) _ pos(1), of 0 ?s1] d by (simp_all add: s' q)
  have "key (heap h' ! j) \<notin> key ` set (heap H')" if "j < length (heap h')" for j
    using d that by (auto simp: disjoint_iff) (metis image_eqI nth_mem)
  with 1 2(2) have "indexed ix (qInd h) s' (heap h')"
    by (simp add: indexed_def same_outside_def)
  with 2(1) eq show ?thesis by simp
qed

theorem divideElems_ix_indexed_witness:
  "\<exists>H' h' s'. divideElems_ix UpdateRequestComparer 4 astar_indexer example_nodes example_queue
       (set_index DAryHeap_init 7) = (H', h', s') \<and>
     indexed astar_indexer 3 s' (heap H') \<and> indexed astar_indexer 7 s' (heap h') \<and>
     mset (heap H') + mset (heap h') = {#UpdateRequest 0 4, UpdateRequest 1 5#}"
proof -
  obtain H' h' s' where r: "divideElems_ix UpdateRequestComparer 4 astar_indexer example_nodes
      example_queue (set_index DAryHeap_init 7) = (H', h', s')"
    by (metis prod_cases3)
  show ?thesis
    using divideElems_ix_indexed [OF astar.pair_indexer_axioms r]
      divideElems_correct [OF urc.strict_weak_order_axioms, of 4 example_queue "set_index DAryHeap_init 7" H' h'] r
    by (simp add: example_queue_def set_index_def pos_ok_def)
qed

text \<open>
  Merging two heaps with an index: every element ends recorded at its position in this heap.
\<close>

lemma pushAllAndClear_ix_indexed:
  assumes "pair_indexer ix key" "pushAllAndClear_ix cmp D ix s H fromH = (H', fromH', s')"
    and "distinct (map key (heap H @ heap fromH))" "indexed ix (qInd H) s (heap H)"
    and "pos_ok (qInd H) (length (heap H) + length (heap fromH))"
  shows "indexed ix (qInd H) s' (heap H') \<and> pushAllAndClear cmp D H fromH = (H', fromH')"
proof -
  let ?h = "heap H @ heap fromH"
  obtain h' s'' where r: "push_all_loop_ix cmp D ix (qInd H) (length (heap H)) ?h s = (h', s'')"
    by fastforce
  have eq: "H' = H\<lparr>heap := h'\<rparr>" "fromH' = fromH\<lparr>heap := []\<rparr>" "s' = s''"
    using assms(2) r by (auto simp: pushAllAndClear_ix_def Let_def)
  have "\<forall>j < length ?h. pos_ok (qInd H) j" using assms(5) by (auto simp: pos_ok_def)
  from pair_indexer.push_all_indexed [OF assms(1,3) this _ _ r] assms(4)
  have "indexed ix (qInd H) s'' h'" by (simp add: indexed_def indexed_upto_def nth_append)
  moreover have "h' = push_all_loop cmp D (length (heap H)) ?h"
    using push_all_loop_ix_array [of cmp D ix "qInd H" "length (heap H)" ?h s] r by simp
  ultimately show ?thesis by (simp add: eq pushAllAndClear_def)
qed

end
