(* ===== verification/TaskHeap.thy ===== *)
theory TaskHeap
  imports DAryHeap
begin

text \<open>
  The sequential priority queue under the MultiQueue variants. The code uses
  \<open>boost::heap::d_ary_heap\<close>, which is not part of the repository: its member functions are
  the parameter \<open>heap_ops\<close> of every definition that calls them, and the locale
  \<open>task_heap\<close> states what boost documents of them, over an abstract bag of tasks. The
  array heap of \<open>Heap.h\<close>, with the arity 8 the schedulers choose, satisfies it.
\<close>

section \<open>The interface\<close>

text \<open>The calls the schedulers make, and \<open>T::prior()\<close>.\<close>

record ('a, 'h) heap_ops =
  h_empty :: 'h
  h_push :: "'h \<Rightarrow> 'a \<Rightarrow> 'h"
  h_top :: "'h \<Rightarrow> 'a option"
  h_pop :: "'h \<Rightarrow> 'h"
  h_size :: "'h \<Rightarrow> nat"
  t_prior :: "'a \<Rightarrow> u64"

locale task_heap = prior_order cmp "t_prior B"
  for cmp :: "'a \<Rightarrow> 'a \<Rightarrow> bool" and B :: "('a, 'h) heap_ops" +
  fixes hinv :: "'h \<Rightarrow> bool" and hbag :: "'h \<Rightarrow> 'a multiset"
  assumes empty_inv: "hinv (h_empty B)"
    and empty_bag: "hbag (h_empty B) = {#}"
    and push_inv: "hinv h \<Longrightarrow> hinv (h_push B h x)"
    and push_bag: "hinv h \<Longrightarrow> hbag (h_push B h x) = add_mset x (hbag h)"
    and top_None: "hinv h \<Longrightarrow> h_top B h = None \<longleftrightarrow> hbag h = {#}"
    and top_min: "hinv h \<Longrightarrow> h_top B h = Some x \<Longrightarrow> y \<in># hbag h \<Longrightarrow> \<not> cmp x y"
    and pop_inv: "hinv h \<Longrightarrow> h_top B h = Some x \<Longrightarrow> hinv (h_pop B h)"
    and pop_bag: "hinv h \<Longrightarrow> h_top B h = Some x \<Longrightarrow> hbag h = add_mset x (hbag (h_pop B h))"
    and size_bag: "hinv h \<Longrightarrow> h_size B h = size (hbag h)"
begin

lemma size_zero: "hinv h \<Longrightarrow> h_size B h = 0 \<longleftrightarrow> hbag h = {#}"
  by (simp add: size_bag)

lemma top_Some: "hinv h \<Longrightarrow> hbag h \<noteq> {#} \<Longrightarrow> \<exists>x. h_top B h = Some x"
  using top_None by fastforce

lemma top_in: "hinv h \<Longrightarrow> h_top B h = Some x \<Longrightarrow> x \<in># hbag h"
  by (simp add: pop_bag)

lemma top_prior: "hinv h \<Longrightarrow> h_top B h = Some x \<Longrightarrow> y \<in># hbag h \<Longrightarrow> t_prior B x \<le> t_prior B y"
  using top_min min_prior by blast

text \<open>Pushing a list of tasks one after the other.\<close>

lemma push_list:
  "hinv h \<Longrightarrow> hinv (foldl (h_push B) h xs) \<and> hbag (foldl (h_push B) h xs) = hbag h + mset xs"
  by (induction xs arbitrary: h) (simp_all add: push_inv push_bag)

end

section \<open>The repository's own heap satisfies it\<close>

definition array_heap :: "('a \<Rightarrow> 'a \<Rightarrow> bool) \<Rightarrow> ('a \<Rightarrow> u64) \<Rightarrow> ('a, 'a DAryHeap) heap_ops" where
  "array_heap cmp pr =
     \<lparr>h_empty = DAryHeap_init,
      h_push = DAryHeap_push cmp 8,
      h_top = DAryHeap_min,
      h_pop = (\<lambda>H. case DAryHeap_extractMin cmp 8 H of None \<Rightarrow> H | Some (m, H') \<Rightarrow> H'),
      h_size = DAryHeap_size,
      t_prior = pr\<rparr>"

lemma array_heap_task_heap:
  assumes "prior_order cmp pr"
  shows "task_heap cmp (array_heap cmp pr) (DAryHeap_ok cmp 8) (\<lambda>H. mset (heap H))"
proof -
  note swo = prior_order.axioms(1) [OF assms]
  have top: "DAryHeap_min H = Some x \<longleftrightarrow> heap H \<noteq> [] \<and> x = heap H ! 0" for H x
    by (auto simp: DAryHeap_min_def)
  have pop: "\<exists>h'. extract_root cmp 8 (heap H) = Some (x, h') \<and>
      DAryHeap_extractMin cmp 8 H = Some (x, H\<lparr>heap := h'\<rparr>)"
    if "DAryHeap_min H = Some x" for H x
    using that by (auto simp: top DAryHeap_extractMin_def extract_root_def Let_def)
  have prior: "prior_order cmp (t_prior (array_heap cmp pr))"
    using assms by (simp add: array_heap_def)
  show ?thesis
  proof (intro task_heap.intro prior task_heap_axioms.intro)
    fix H :: "'a DAryHeap" and x y
    assume H: "DAryHeap_ok cmp 8 H"
    show "h_top (array_heap cmp pr) H = None \<longleftrightarrow> mset (heap H) = {#}"
      by (simp add: array_heap_def DAryHeap_min_def)
    show "DAryHeap_ok cmp 8 (h_push (array_heap cmp pr) H x)"
      by (simp add: array_heap_def DAryHeap_push_ok [OF swo H])
    show "mset (heap (h_push (array_heap cmp pr) H x)) = add_mset x (mset (heap H))"
      by (simp add: array_heap_def bag_simps)
    show "h_size (array_heap cmp pr) H = size (mset (heap H))"
      by (simp add: array_heap_def DAryHeap_size_def)
    assume "h_top (array_heap cmp pr) H = Some x"
    then have x: "DAryHeap_min H = Some x" by (simp add: array_heap_def)
    from pop [OF x] obtain h' where h': "extract_root cmp 8 (heap H) = Some (x, h')"
      "h_pop (array_heap cmp pr) H = H\<lparr>heap := h'\<rparr>" by (auto simp: array_heap_def)
    show "DAryHeap_ok cmp 8 (h_pop (array_heap cmp pr) H)"
      using extract_root_heap [OF swo _ _ h'(1)] H by (simp add: h' DAryHeap_ok_def)
    show "mset (heap H) = add_mset x (mset (heap (h_pop (array_heap cmp pr) H)))"
      using extract_root_mset [OF h'(1)] by (simp add: h')
    assume "y \<in># mset (heap H)"
    then show "\<not> cmp x y"
      using extract_root_min [OF swo _ h'(1)] H by (simp add: DAryHeap_ok_def)
  qed (simp_all add: array_heap_def DAryHeap_init_ok)
qed

text \<open>The instance the witnesses run: update requests in the array heap.\<close>

definition req_heap :: "(nat update_request, nat update_request DAryHeap) heap_ops" where
  "req_heap = array_heap UpdateRequestComparer prior"

abbreviation req_inv :: "nat update_request DAryHeap \<Rightarrow> bool" where
  "req_inv \<equiv> DAryHeap_ok UpdateRequestComparer 8"

abbreviation req_bag :: "nat update_request DAryHeap \<Rightarrow> nat update_request multiset" where
  "req_bag \<equiv> \<lambda>H. mset (heap H)"

interpretation req: task_heap UpdateRequestComparer req_heap req_inv req_bag
  unfolding req_heap_def by (rule array_heap_task_heap) (rule urc.prior_order_axioms)

end
