(* ===== verification/ThreadRandom.thy ===== *)
theory ThreadRandom
  imports Prelude
begin

unbundle bit_operations_syntax

text \<open>
  The thread-local generator every scheduler carries (\<open>random()\<close> in the MultiQueue and
  StealingMultiQueue headers): Marsaglia's 32-bit xorshift with the shifts 13, 17, 5, seeded
  from the clock. The state is a \<open>32 word\<close>; a call returns the new state as the random
  number. The lemmas show that the generator permutes the non-zero states, so a generator
  seeded by the headers' expression never gets stuck at zero.
\<close>

section \<open>The generator\<close>

definition random :: "u32 \<Rightarrow> u32 \<times> u32" where
  "random x =
     (let x1 = x XOR push_bit 13 x;
          x2 = x1 XOR drop_bit 17 x1;
          x3 = x2 XOR push_bit 5 x2
      in (x3, x3))"

text \<open>The seed: \<open>time_since_epoch().count() % 16386 + 1\<close>, for a clock value \<open>t\<close>.\<close>

definition random_seed :: "nat \<Rightarrow> u32" where
  "random_seed t = word_of_nat (t mod 16386 + 1)"

text \<open>\<open>random() % n\<close> for a size \<open>n\<close>; the code equation computes it on binary integers.\<close>

definition remainder :: "u32 \<Rightarrow> nat \<Rightarrow> nat" where
  "remainder r n = unat r mod n"

lemma remainder_code [code]: "remainder r n = nat (uint r mod int n)"
  by (simp add: remainder_def nat_mod_distrib unsigned_of_nat)

lemma remainder_less: "0 < n \<Longrightarrow> remainder r n < n"
  by (simp add: remainder_def)

definition rand_mod :: "nat \<Rightarrow> u32 \<Rightarrow> nat \<times> u32" where
  "rand_mod n x = (case random x of (r, x') \<Rightarrow> (remainder r n, x'))"

text \<open>The states a thread's generator goes through.\<close>

fun random_iter :: "nat \<Rightarrow> u32 \<Rightarrow> u32" where
  "random_iter 0 x = x"
| "random_iter (Suc n) x = random_iter n (snd (random x))"

section \<open>The generator permutes the non-zero states\<close>

lemma xor_push_bit_zero:
  fixes x :: "'a::len word"
  assumes "x XOR push_bit k x = 0" and "0 < k"
  shows "x = 0"
proof (rule bit_word_eqI)
  fix n
  show "n < LENGTH('a) \<Longrightarrow> bit x n = bit 0 n"
  proof (induction n rule: less_induct)
    case (less n)
    have "bit (x XOR push_bit k x) n = bit (0 :: 'a word) n"
      by (simp add: assms(1))
    then have "bit x n = (k \<le> n \<and> bit x (n - k))"
      using less.prems by (simp add: bit_simps)
    with less assms(2) show ?case by simp
  qed
qed

lemma xor_drop_bit_zero:
  fixes x :: "'a::len word"
  assumes "x XOR drop_bit k x = 0" and "0 < k"
  shows "x = 0"
proof (rule bit_word_eqI)
  fix n
  show "n < LENGTH('a) \<Longrightarrow> bit x n = bit 0 n"
  proof (induction "LENGTH('a) - n" arbitrary: n rule: less_induct)
    case less
    have "bit (x XOR drop_bit k x) n = bit (0 :: 'a word) n"
      by (simp add: assms(1))
    then have eq: "bit x n = bit x (n + k)"
      by (simp add: bit_simps add.commute)
    show ?case
    proof (cases "n + k < LENGTH('a)")
      case True
      with assms(2) have "bit x (n + k) = bit 0 (n + k)" using less.hyps [of "n + k"] by simp
      with eq show ?thesis by simp
    next
      case False
      with eq show ?thesis by (metis bit_imp_le_length bit_0_eq bot_apply not_less bot_bool_def)
    qed
  qed
qed

lemma inj_xor_shift:
  fixes f :: "'a::len word \<Rightarrow> 'a word"
  assumes zero: "\<And>x. x XOR f x = 0 \<Longrightarrow> x = 0"
    and lin: "\<And>x y. f (x XOR y) = f x XOR f y"
  shows "inj (\<lambda>x. x XOR f x)"
proof (rule injI)
  fix x y
  assume "x XOR f x = y XOR f y"
  then have "(x XOR y) XOR f (x XOR y) = 0"
    by (metis lin xor.assoc xor.left_commute xor_self_eq)
  then have "x XOR y = 0" by (rule zero)
  then show "x = y"
    by (metis xor.assoc xor.left_neutral xor_self_eq xor.right_neutral)
qed

lemma random_snd: "snd (random x) = fst (random x)"
  by (simp add: random_def Let_def)

lemma inj_random: "inj (\<lambda>x. snd (random x))"
proof -
  have 1: "inj (\<lambda>x :: u32. x XOR push_bit 13 x)"
    by (rule inj_xor_shift) (auto intro: xor_push_bit_zero simp: push_bit_xor)
  have 2: "inj (\<lambda>x :: u32. x XOR drop_bit 17 x)"
    by (rule inj_xor_shift) (auto intro: xor_drop_bit_zero simp: drop_bit_xor)
  have 3: "inj (\<lambda>x :: u32. x XOR push_bit 5 x)"
    by (rule inj_xor_shift) (auto intro: xor_push_bit_zero simp: push_bit_xor)
  have "(\<lambda>x. snd (random x)) =
      (\<lambda>x. x XOR push_bit 5 x) \<circ> (\<lambda>x. x XOR drop_bit 17 x) \<circ> (\<lambda>x. x XOR push_bit 13 x)"
    by (simp add: random_def Let_def fun_eq_iff)
  then show ?thesis using 1 2 3 by (simp add: inj_compose)
qed

lemma random_zero [simp]: "random 0 = (0, 0)"
  by (simp add: random_def)

lemma random_nonzero: "x \<noteq> 0 \<Longrightarrow> snd (random x) \<noteq> 0"
  using inj_random [THEN injD, of x 0] by auto

lemma random_seed_nonzero: "random_seed t \<noteq> 0"
proof -
  have "t mod 16386 + 1 < 2 ^ 32"
    by (rule le_less_trans [of _ 16386]) (auto simp: Suc_le_eq)
  then have "unat (random_seed t) = t mod 16386 + 1"
    by (simp add: random_seed_def unat_of_nat take_bit_nat_def del: of_nat_add of_nat_Suc)
  then show ?thesis by (metis add_is_0 one_neq_zero unat_0)
qed

lemma rand_mod_less: "0 < n \<Longrightarrow> fst (rand_mod n x) < n"
  by (simp add: rand_mod_def remainder_less split: prod.splits)

lemma rand_mod_snd [simp]: "snd (rand_mod n x) = snd (random x)"
  by (simp add: rand_mod_def split: prod.splits)

lemma rand_mod_zero: "rand_mod n 0 = (0, 0)"
  by (simp add: rand_mod_def remainder_def)

text \<open>
  A thread's generator, seeded from any clock value, is non-zero after any number of
  draws, and it never maps two different states to the same one: it stays on a cycle of
  non-zero states. The zero state, which the seed expression excludes, is absorbing.
\<close>

theorem random_never_stuck:
  "random_iter n (random_seed t) \<noteq> 0 \<and> inj (\<lambda>x. snd (random x)) \<and> random_iter n 0 = 0"
proof -
  have nz: "x \<noteq> 0 \<Longrightarrow> random_iter n x \<noteq> 0" for x
    by (induction n arbitrary: x) (auto dest: random_nonzero)
  have "random_iter n 0 = 0" by (induction n) auto
  with nz show ?thesis by (simp add: random_seed_nonzero inj_random)
qed

end
