(* ===== verification/HeapWithLock.thy ===== *)
theory HeapWithLock
  imports TaskHeap ThreadRandom
begin

text \<open>
  \<open>HeapWithLock\<close> (\<open>WorkList/MQOptimized/HeapWithLock.h\<close>): a priority queue, its lock and
  the cached priority of its minimum, which other threads read without the lock. The dummy
  priority that marks an empty heap has all bits set (the \<open>memset\<close> of the MultiQueue
  constructors). The second half is the array of such heaps every MultiQueue has, with
  the facts about one critical section that the variants share.
\<close>

section \<open>The lockable heap\<close>

record 'h HeapWithLock =
  bheap :: 'h
  lck :: bool
  hmin :: u64

definition dummy :: u64 where
  "dummy = - 1"

definition HeapWithLock_init :: "('a, 'h) heap_ops \<Rightarrow> 'h HeapWithLock" where
  "HeapWithLock_init B = \<lparr>bheap = h_empty B, lck = False, hmin = dummy\<rparr>"

definition try_lock :: "'h HeapWithLock \<Rightarrow> bool \<times> 'h HeapWithLock" where
  "try_lock H = (if lck H then (False, H) else (True, H\<lparr>lck := True\<rparr>))"

definition unlock :: "'h HeapWithLock \<Rightarrow> 'h HeapWithLock" where
  "unlock H = H\<lparr>lck := False\<rparr>"

definition getMin :: "'h HeapWithLock \<Rightarrow> u64" where
  "getMin H = hmin H"

definition isMinDummy :: "u64 \<Rightarrow> bool" where
  "isMinDummy value \<longleftrightarrow> value = dummy"

text \<open>\<open>top()\<close> is called only when the size is positive; \<open>dummy\<close> covers the other case.\<close>

definition updateMin :: "('a, 'h) heap_ops \<Rightarrow> 'h HeapWithLock \<Rightarrow> 'h HeapWithLock" where
  "updateMin B H =
     H\<lparr>hmin := (if h_size B (bheap H) > 0
                then (case h_top B (bheap H) of Some x \<Rightarrow> t_prior B x | None \<Rightarrow> dummy)
                else dummy)\<rparr>"

text \<open>\<open>None\<close>: \<open>top()\<close> of an empty heap, which boost leaves undefined.\<close>

definition HeapWithLock_extractMin ::
    "('a, 'h) heap_ops \<Rightarrow> 'h HeapWithLock \<Rightarrow> ('a \<times> 'h HeapWithLock) option" where
  "HeapWithLock_extractMin B H =
     (case h_top B (bheap H) of
        None \<Rightarrow> None
      | Some result \<Rightarrow> Some (result, H\<lparr>bheap := h_pop B (bheap H)\<rparr>))"

definition HeapWithLock_push :: "('a, 'h) heap_ops \<Rightarrow> 'h HeapWithLock \<Rightarrow> 'a \<Rightarrow> 'h HeapWithLock" where
  "HeapWithLock_push B H task = H\<lparr>bheap := h_push B (bheap H) task\<rparr>"

definition HeapWithLock_empty :: "('a, 'h) heap_ops \<Rightarrow> 'h HeapWithLock \<Rightarrow> bool" where
  "HeapWithLock_empty B H \<longleftrightarrow> h_size B (bheap H) = 0"

text \<open>\<open>isFirstLess\<close>, which every MultiQueue variant has a copy of.\<close>

definition isFirstLess :: "u64 \<Rightarrow> u64 \<Rightarrow> bool" where
  "isFirstLess v1 v2 =
     (if isMinDummy v1 then False
      else if isMinDummy v2 then True
      else v1 < v2)"

section \<open>Single operations\<close>

lemma dummy_max: "v \<le> dummy"
  by (simp add: dummy_def)

text \<open>The dummy is the greatest word, so the two special cases agree with \<open><\<close>.\<close>

lemma isFirstLess_iff: "isFirstLess v1 v2 \<longleftrightarrow> v1 < v2"
  using dummy_max [of v1] dummy_max [of v2]
  by (auto simp: isFirstLess_def isMinDummy_def)

lemma try_lock_cases:
  "try_lock H = (r, H') \<longleftrightarrow> (if lck H then \<not> r \<and> H' = H else r \<and> H' = H\<lparr>lck := True\<rparr>)"
  by (auto simp: try_lock_def)

lemma HeapWithLock_push_fields [simp]:
  "lck (HeapWithLock_push B H x) = lck H" "hmin (HeapWithLock_push B H x) = hmin H"
  "bheap (HeapWithLock_push B H x) = h_push B (bheap H) x"
  by (simp_all add: HeapWithLock_push_def)

lemma updateMin_fields [simp]:
  "bheap (updateMin B H) = bheap H" "lck (updateMin B H) = lck H"
  by (simp_all add: updateMin_def)

lemma unlock_fields [simp]:
  "bheap (unlock H) = bheap H" "\<not> lck (unlock H)" "hmin (unlock H) = hmin H"
  by (simp_all add: unlock_def)

lemma push_list_fields [simp]:
  "bheap (foldl (HeapWithLock_push B) H xs) = foldl (h_push B) (bheap H) xs"
  "lck (foldl (HeapWithLock_push B) H xs) = lck H"
  by (induction xs arbitrary: H) simp_all

text \<open>
  \<open>min_cache B m c\<close>: \<open>c\<close> is the least priority in the bag \<open>m\<close>, the dummy if there is none.
  An unlocked heap's cached minimum is right; a heap whose lock is held may be out of date.
\<close>

definition min_cache :: "('a, 'h) heap_ops \<Rightarrow> 'a multiset \<Rightarrow> u64 \<Rightarrow> bool" where
  "min_cache B m c \<longleftrightarrow>
     (if m = {#} then c = dummy
      else (\<exists>x \<in># m. t_prior B x = c) \<and> (\<forall>x \<in># m. c \<le> t_prior B x))"

definition hl_ok ::
    "('a, 'h) heap_ops \<Rightarrow> ('h \<Rightarrow> bool) \<Rightarrow> ('h \<Rightarrow> 'a multiset) \<Rightarrow> 'h HeapWithLock \<Rightarrow> bool" where
  "hl_ok B hinv hbag H \<longleftrightarrow>
     hinv (bheap H) \<and> (\<not> lck H \<longrightarrow> min_cache B (hbag (bheap H)) (hmin H))"

context task_heap
begin

lemma init_ok: "hl_ok B hinv hbag (HeapWithLock_init B)"
  by (simp add: hl_ok_def HeapWithLock_init_def empty_inv empty_bag min_cache_def)

lemma updateMin_cache:
  assumes "hinv (bheap H)"
  shows "min_cache B (hbag (bheap H)) (hmin (updateMin B H))"
proof (cases "hbag (bheap H) = {#}")
  case True
  with assms show ?thesis by (simp add: min_cache_def updateMin_def size_bag)
next
  case False
  then obtain x where x: "h_top B (bheap H) = Some x" using assms top_Some by blast
  have "0 < h_size B (bheap H)" using False assms by (simp add: size_bag nonempty_has_size)
  with x False show ?thesis
    using top_in [OF assms x] top_prior [OF assms x] by (auto simp: min_cache_def updateMin_def)
qed

lemma empty_iff: "hinv (bheap H) \<Longrightarrow> HeapWithLock_empty B H \<longleftrightarrow> hbag (bheap H) = {#}"
  by (simp add: HeapWithLock_empty_def size_bag)

lemma extractMin_None:
  "hinv (bheap H) \<Longrightarrow> HeapWithLock_extractMin B H = None \<longleftrightarrow> hbag (bheap H) = {#}"
  by (auto simp: HeapWithLock_extractMin_def top_None split: option.splits)
    (simp flip: top_None)

lemma extractMin_Some:
  assumes "hinv (bheap H)" "HeapWithLock_extractMin B H = Some (x, H')"
  shows "hinv (bheap H')" and "hbag (bheap H) = add_mset x (hbag (bheap H'))"
    and "\<forall>y \<in># hbag (bheap H). \<not> cmp x y" and "lck H' = lck H"
  using assms pop_inv [of "bheap H" x] pop_bag [of "bheap H" x] top_min [of "bheap H" x]
  by (auto simp: HeapWithLock_extractMin_def split: option.splits)

end

section \<open>The array of heaps\<close>

text \<open>
  \<open>others_kept hs hs'\<close>: the lock states are the same, and a heap whose lock is held (by
  another thread) is untouched. \<open>mq_bag\<close> is the bag of all stored tasks.
\<close>

definition others_kept :: "'h HeapWithLock list \<Rightarrow> 'h HeapWithLock list \<Rightarrow> bool" where
  "others_kept hs hs' \<longleftrightarrow> length hs' = length hs \<and>
     (\<forall>i < length hs. lck (hs' ! i) = lck (hs ! i) \<and> (lck (hs ! i) \<longrightarrow> hs' ! i = hs ! i))"

definition mq_ok ::
    "('a, 'h) heap_ops \<Rightarrow> ('h \<Rightarrow> bool) \<Rightarrow> ('h \<Rightarrow> 'a multiset) \<Rightarrow> 'h HeapWithLock list \<Rightarrow> bool" where
  "mq_ok B hinv hbag hs \<longleftrightarrow> (\<forall>i < length hs. hl_ok B hinv hbag (hs ! i))"

definition mq_bag :: "('h \<Rightarrow> 'a multiset) \<Rightarrow> 'h HeapWithLock list \<Rightarrow> 'a multiset" where
  "mq_bag hbag hs = bags (\<lambda>H. hbag (bheap H)) hs"

lemma others_kept_refl [simp]: "others_kept hs hs"
  by (simp add: others_kept_def)

lemma others_kept_trans: "others_kept hs hs' \<Longrightarrow> others_kept hs' hs'' \<Longrightarrow> others_kept hs hs''"
  by (simp add: others_kept_def)

lemma others_kept_length: "others_kept hs hs' \<Longrightarrow> length hs' = length hs"
  by (simp add: others_kept_def)

lemma others_kept_update:
  "k < length hs \<Longrightarrow> \<not> lck (hs ! k) \<Longrightarrow> \<not> lck H \<Longrightarrow> others_kept hs (hs[k := H])"
  by (auto simp: others_kept_def nth_list_update)

text \<open>
  What a critical section on heap \<open>k\<close> amounts to: the heap is replaced by an unlocked one
  with a right cache, and the bag changes as that heap's bag does.
\<close>

lemma critical_section:
  assumes "mq_ok B hinv hbag hs" "k < length hs" "\<not> lck (hs ! k)"
    and "\<not> lck H" "hinv (bheap H)" "min_cache B (hbag (bheap H)) (hmin H)"
  shows "mq_ok B hinv hbag (hs[k := H])" "others_kept hs (hs[k := H])"
    "mq_bag hbag (hs[k := H]) + hbag (bheap (hs ! k)) = mq_bag hbag hs + hbag (bheap H)"
  using assms bags_update [of k hs "\<lambda>H. hbag (bheap H)" H]
  by (auto simp: mq_ok_def hl_ok_def mq_bag_def nth_list_update intro: others_kept_update)

lemma mq_ok_nth: "mq_ok B hinv hbag hs \<Longrightarrow> k < length hs \<Longrightarrow> hinv (bheap (hs ! k))"
  by (simp add: mq_ok_def hl_ok_def)

end
