(* ===== verification/MultiQueueBase.thy ===== *)
theory MultiQueueBase
  imports HeapWithLock
begin

text \<open>
  The loops the four MultiQueue variants of \<open>WorkList/MQOptimized\<close> share, each variant
  having its own copy in the code: the retry loop that looks for a heap to lock, the choice
  of the better of two random heaps, the four attempts of \<open>pop\<close>, and the pushing of a range
  in batches.

  An operation runs from an arbitrary state of the heaps, with an arbitrary set of locks held
  by other threads for its whole duration. The retry loops are partial functions in the
  \<open>option\<close> type: \<open>None\<close> is the loop that never ends. \<open>rh\<close> is \<open>rand_heap()\<close>:
  \<open>rand_heap nQ\<close> in the plain variants, the weighted draw of \<open>NUMA.h\<close> in the others.
\<close>

section \<open>Thread-local state\<close>

text \<open>
  The \<open>static thread_local\<close> variables: the generator and the \<open>local_q\<close> of \<open>push\<close> and of
  \<open>pop\<close>, which are initialised by \<open>rand_heap()\<close> at the first call.
\<close>

record mq_thread =
  rng :: u32
  push_q :: "nat option"
  pop_q :: "nat option"

definition rand_heap :: "nat \<Rightarrow> u32 \<Rightarrow> nat \<times> u32" where
  "rand_heap nQ x = rand_mod nQ x"

definition init_local_q :: "(u32 \<Rightarrow> nat \<times> u32) \<Rightarrow> nat option \<Rightarrow> u32 \<Rightarrow> nat \<times> u32" where
  "init_local_q rh q x = (case q of Some i \<Rightarrow> (i, x) | None \<Rightarrow> rh x)"

section \<open>Looking for a heap\<close>

definition try_lock_at :: "'h HeapWithLock list \<Rightarrow> nat \<Rightarrow> bool \<times> 'h HeapWithLock list" where
  "try_lock_at hs i = (case try_lock (hs ! i) of (r, H) \<Rightarrow> (r, hs[i := H]))"

text \<open>\<open>while (!heap->try_lock()) { local_q = rand_heap(); heap = \<dots>; }\<close>.\<close>

partial_function (option) lock_loop ::
    "(u32 \<Rightarrow> nat \<times> u32) \<Rightarrow> 'h HeapWithLock list \<Rightarrow> nat \<Rightarrow> u32 \<Rightarrow>
     ('h HeapWithLock list \<times> nat \<times> u32) option" where
  "lock_loop rh hs q x =
     (case try_lock_at hs q of (r, hs') \<Rightarrow>
        if r then Some (hs', q, x)
        else case rh x of (q', x') \<Rightarrow> lock_loop rh hs' q' x')"

text \<open>
  The inner loop of \<open>pop\<close>: draw two indices, take the one with the smaller cached minimum,
  and retry when its lock is held. \<open>gm\<close> reads a cached minimum and \<open>tr\<close> tries a lock.
\<close>

partial_function (option) choose_loop ::
    "(u32 \<Rightarrow> nat \<times> u32) \<Rightarrow> nat \<Rightarrow> ('s \<Rightarrow> nat \<Rightarrow> u64) \<Rightarrow> ('s \<Rightarrow> nat \<Rightarrow> bool \<times> 's) \<Rightarrow> 's \<Rightarrow> u32 \<Rightarrow>
     ('s \<times> nat \<times> u32) option" where
  "choose_loop rh nQ gm tr s x =
     (case rh x of (i_ind, x1) \<Rightarrow> case rh x1 of (j_ind, x2) \<Rightarrow>
        if i_ind = j_ind \<and> nQ > 1 then choose_loop rh nQ gm tr s x2
        else
          case (if isFirstLess (gm s j_ind) (gm s i_ind) then j_ind else i_ind) of i_ind' \<Rightarrow>
          case tr s i_ind' of (r, s') \<Rightarrow>
            if r then Some (s', i_ind', x2) else choose_loop rh nQ gm tr s' x2)"

definition min_at :: "'h HeapWithLock list \<Rightarrow> nat \<Rightarrow> u64" where
  "min_at hs i = getMin (hs ! i)"

text \<open>
  The outer loop of \<open>pop\<close>: at most \<open>n\<close> times lock a chosen heap and stop at the first that is
  not empty. The result is that heap, still locked, or \<open>None\<close> with every lock given back.
\<close>

fun attempts ::
    "('a, 'h) heap_ops \<Rightarrow> (u32 \<Rightarrow> nat \<times> u32) \<Rightarrow> nat \<Rightarrow> nat \<Rightarrow> 'h HeapWithLock list \<Rightarrow> u32 \<Rightarrow>
     ('h HeapWithLock list \<times> nat option \<times> u32) option" where
  "attempts B rh nQ 0 hs x = Some (hs, None, x)"
| "attempts B rh nQ (Suc n) hs x =
     (case choose_loop rh nQ min_at try_lock_at hs x of
        None \<Rightarrow> None
      | Some (hs1, i_ind, x1) \<Rightarrow>
          if \<not> HeapWithLock_empty B (hs1 ! i_ind) then Some (hs1, Some i_ind, x1)
          else attempts B rh nQ n (hs1[i_ind := unlock (hs1 ! i_ind)]) x1)"

definition ATTEMPTS :: nat where
  "ATTEMPTS = 4"

declare lock_loop.simps [code] choose_loop.simps [code]

section \<open>Pushing a range in random batches\<close>

function batch_loop :: "nat \<Rightarrow> nat \<Rightarrow> nat \<Rightarrow> u32 \<Rightarrow> nat \<times> u32" where
  "batch_loop ChangeQPush limit i x =
     (if i < limit then
        case random x of (r, x') \<Rightarrow>
          if remainder r ChangeQPush = 0 then (i + 1, x')
          else batch_loop ChangeQPush limit (i + 1) x'
      else (limit, x))"
  by pat_completeness auto
termination
  by (relation "measure (\<lambda>(c, limit, i, x). limit - i)") auto

declare batch_loop.simps [simp del]

definition randomBatchSize :: "nat \<Rightarrow> nat \<Rightarrow> u32 \<Rightarrow> nat \<times> u32" where
  "randomBatchSize ChangeQPush limit x = batch_loop ChangeQPush limit 0 x"

lemma batch_loop_bounds:
  "i < limit \<Longrightarrow> i < fst (batch_loop c limit i x) \<and> fst (batch_loop c limit i x) \<le> limit"
proof (induction c limit i x rule: batch_loop.induct)
  case (1 c limit i x)
  show ?case
  proof (cases "Suc i < limit")
    case True
    with 1 show ?thesis
      by (subst (1 2) batch_loop.simps) (fastforce simp: Let_def split: prod.splits)
  next
    case False
    then have "batch_loop c limit (Suc i) y = (limit, y)" for y
      by (subst batch_loop.simps) simp
    with 1(2) show ?thesis
      by (subst (1 2) batch_loop.simps) (auto split: prod.splits)
  qed
qed

lemma batch_loop_keeps: "x \<noteq> 0 \<Longrightarrow> snd (batch_loop c limit i x) \<noteq> 0"
proof (induction c limit i x rule: batch_loop.induct)
  case (1 c limit i x)
  obtain r x' where "random x = (r, x')" by fastforce
  with 1 random_nonzero [of x] show ?case by (subst batch_loop.simps) simp
qed

lemma randomBatchSize_bounds:
  assumes "randomBatchSize c limit x = (k, x')" "0 < limit"
  shows "0 < k" "k \<le> limit"
  using batch_loop_bounds [OF assms(2), of c x] assms(1) by (auto simp: randomBatchSize_def)

function push_loop ::
    "('a, 'h) heap_ops \<Rightarrow> (u32 \<Rightarrow> nat \<times> u32) \<Rightarrow> nat \<Rightarrow> 'h HeapWithLock list \<Rightarrow> nat \<Rightarrow> u32 \<Rightarrow> u32 \<Rightarrow>
     'a list \<Rightarrow> ('h HeapWithLock list \<times> nat \<times> u32 \<times> u32) option" where
  "push_loop B rh ChangeQPush hs local_q x pushNumber es =
     (if es = [] then Some (hs, local_q, x, pushNumber)
      else
        case randomBatchSize ChangeQPush (length es) x of (batchSize, x1) \<Rightarrow>
        case lock_loop rh hs local_q x1 of
          None \<Rightarrow> None
        | Some (hs1, q1, x2) \<Rightarrow>
            case foldl (HeapWithLock_push B) (hs1 ! q1) (take batchSize es) of H1 \<Rightarrow>
            case (if drop batchSize es \<noteq> [] then rh x2 else (q1, x2)) of (q2, x3) \<Rightarrow>
              push_loop B rh ChangeQPush (hs1[q1 := unlock (updateMin B H1)]) q2 x3
                (pushNumber + of_nat batchSize) (drop batchSize es))"
  by pat_completeness auto
termination
  by (relation "measure (\<lambda>(B, rh, c, hs, q, x, n, es). length es)")
    (auto dest!: randomBatchSize_bounds(1) [OF sym])

declare push_loop.simps [simp del]

lemma push_loop_Nil [simp]: "push_loop B rh c hs q x n [] = Some (hs, q, x, n)"
  by (simp add: push_loop.simps)

section \<open>What the loops return\<close>

text \<open>\<open>draws_below rh N\<close>: the random draw stays below the number of heaps.\<close>

definition draws_below :: "(u32 \<Rightarrow> nat \<times> u32) \<Rightarrow> nat \<Rightarrow> bool" where
  "draws_below rh N \<longleftrightarrow> (\<forall>x. fst (rh x) < N)"

lemma draws_belowD: "draws_below rh N \<Longrightarrow> rh x = (i, x') \<Longrightarrow> i < N"
  by (metis draws_below_def fst_conv)

lemma rand_heap_below: "0 < nQ \<Longrightarrow> draws_below (rand_heap nQ) nQ"
  by (simp add: draws_below_def rand_heap_def rand_mod_less)

lemma init_local_q_below:
  "draws_below rh N \<Longrightarrow> pred_option (\<lambda>i. i < N) q \<Longrightarrow> init_local_q rh q x = (i, x') \<Longrightarrow> i < N"
  by (auto simp: init_local_q_def dest: draws_belowD split: option.splits)

text \<open>\<open>keeps_rng rh\<close>: a draw leaves a non-zero generator non-zero.\<close>

definition keeps_rng :: "(u32 \<Rightarrow> nat \<times> u32) \<Rightarrow> bool" where
  "keeps_rng rh \<longleftrightarrow> (\<forall>x. x \<noteq> 0 \<longrightarrow> snd (rh x) \<noteq> 0)"

lemma keeps_rngD: "keeps_rng rh \<Longrightarrow> rh x = (i, x') \<Longrightarrow> x \<noteq> 0 \<Longrightarrow> x' \<noteq> 0"
  by (metis keeps_rng_def snd_conv)

lemma rand_heap_keeps: "keeps_rng (rand_heap nQ)"
  by (simp add: keeps_rng_def rand_heap_def random_nonzero)

lemma init_local_q_keeps: "keeps_rng rh \<Longrightarrow> init_local_q rh q x = (i, x') \<Longrightarrow> x \<noteq> 0 \<Longrightarrow> x' \<noteq> 0"
  by (auto simp: init_local_q_def dest: keeps_rngD split: option.splits)

definition locked_at :: "'h HeapWithLock list \<Rightarrow> nat \<Rightarrow> 'h HeapWithLock list" where
  "locked_at hs k = hs[k := (hs ! k)\<lparr>lck := True\<rparr>]"

lemma length_locked_at [simp]: "length (locked_at hs k) = length hs"
  by (simp add: locked_at_def)

lemma nth_locked_at [simp]: "k < length hs \<Longrightarrow> locked_at hs k ! k = (hs ! k)\<lparr>lck := True\<rparr>"
  by (simp add: locked_at_def)

lemma update_locked_at [simp]: "(locked_at hs k)[k := H] = hs[k := H]"
  by (simp add: locked_at_def)

lemma try_lock_at_cases:
  "try_lock_at hs i = (r, hs') \<longleftrightarrow> (if lck (hs ! i) then \<not> r \<and> hs' = hs else r \<and> hs' = locked_at hs i)"
  by (auto simp: try_lock_at_def try_lock_def locked_at_def)

lemma unlock_lock [simp]: "\<not> lck H \<Longrightarrow> unlock (H\<lparr>lck := True\<rparr>) = H"
  by (cases H) (simp add: unlock_def)

lemma unlock_locked_at [simp]: "\<not> lck (hs ! k) \<Longrightarrow> hs[k := unlock ((hs ! k)\<lparr>lck := True\<rparr>)] = hs"
  by simp

lemma HeapWithLock_empty_lck [simp]: "HeapWithLock_empty B (H\<lparr>lck := b\<rparr>) = HeapWithLock_empty B H"
  by (simp add: HeapWithLock_empty_def)

lemma lock_loop_induct [consumes 1, case_names step]:
  assumes "lock_loop rh hs q x = Some r"
    and "\<And>loop rh hs q x r. (\<And>rh hs q x r. loop rh hs q x = Some r \<Longrightarrow> P rh hs q x r) \<Longrightarrow>
      (case try_lock_at hs q of (r, hs') \<Rightarrow>
         if r then Some (hs', q, x) else case rh x of (q', x') \<Rightarrow> loop rh hs' q' x') = Some r \<Longrightarrow>
      P rh hs q x r"
  shows "P rh hs q x r"
proof (rule lock_loop.raw_induct [of P "(((rh, hs), q), x)" r, unfolded prod.case, OF _ assms(1)],
    goal_cases)
  case (1 loop)
  show ?case by (rule assms(2) [of loop]) (use 1 in blast)+
qed

lemma lock_loop_Some:
  assumes "lock_loop rh hs q x = Some (hs', q', x')" "draws_below rh N" "q < N"
  shows "q' < N \<and> \<not> lck (hs ! q') \<and> hs' = locked_at hs q'"
proof -
  have "q < N \<longrightarrow> draws_below rh N \<longrightarrow>
      fst (snd r) < N \<and> \<not> lck (hs ! fst (snd r)) \<and> fst r = locked_at hs (fst (snd r))" if "lock_loop rh hs q x = Some r" for r
    using that
  proof (induction rule: lock_loop_induct)
    case (step loop rh hs q x r)
    obtain b hs1 where t: "try_lock_at hs q = (b, hs1)" by fastforce
    obtain q2 x2 where d: "rh x = (q2, x2)" by fastforce
    show ?case
    proof (cases b)
      case True
      with step(2) t show ?thesis by (auto simp: try_lock_at_cases split: if_splits)
    next
      case False
      with t have "hs1 = hs" by (auto simp: try_lock_at_cases split: if_splits)
      with False t d step(2) have "loop rh hs q2 x2 = Some r" by simp
      from step(1) [OF this] d show ?thesis by (auto dest: draws_belowD)
    qed
  qed
  with assms show ?thesis by fastforce
qed

lemma lock_loop_keeps:
  assumes "lock_loop rh hs q x = Some (hs', q', x')" "keeps_rng rh" "x \<noteq> 0"
  shows "x' \<noteq> 0"
proof -
  have "keeps_rng rh \<longrightarrow> x \<noteq> 0 \<longrightarrow> snd (snd r) \<noteq> 0" if "lock_loop rh hs q x = Some r" for r
    using that
  proof (induction rule: lock_loop_induct)
    case (step loop rh hs q x r)
    obtain b hs1 where t: "try_lock_at hs q = (b, hs1)" by fastforce
    obtain q2 x2 where d: "rh x = (q2, x2)" by fastforce
    show ?case
    proof (cases b)
      case True
      with step(2) t show ?thesis by auto
    next
      case False
      with t d step(2) have "loop rh hs1 q2 x2 = Some r" by simp
      from step(1) [OF this] d show ?thesis by (auto dest: keeps_rngD)
    qed
  qed
  from this [OF assms(1)] assms(2,3) show ?thesis by simp
qed

text \<open>The heap the \<open>n\<close>-th iteration of the retry loop looks at.\<close>

fun draw_at :: "(u32 \<Rightarrow> nat \<times> u32) \<Rightarrow> nat \<Rightarrow> u32 \<Rightarrow> nat \<Rightarrow> nat" where
  "draw_at rh q x 0 = q"
| "draw_at rh q x (Suc n) = (case rh x of (q', x') \<Rightarrow> draw_at rh q' x' n)"

lemma lock_loop_returns_iff:
  "(\<exists>r. lock_loop rh hs q x = Some r) \<longleftrightarrow> (\<exists>n. \<not> lck (hs ! draw_at rh q x n))"
proof
  assume "\<exists>r. lock_loop rh hs q x = Some r"
  then obtain r where "lock_loop rh hs q x = Some r" by blast
  then show "\<exists>n. \<not> lck (hs ! draw_at rh q x n)"
  proof (induction rule: lock_loop_induct)
    case (step loop rh hs q x r)
    obtain b hs1 where t: "try_lock_at hs q = (b, hs1)" by fastforce
    obtain q2 x2 where d: "rh x = (q2, x2)" by fastforce
    show ?case
    proof (cases b)
      case True
      with t show ?thesis by (auto simp: try_lock_at_cases intro: exI [of _ 0] split: if_splits)
    next
      case False
      with t have "hs1 = hs" by (auto simp: try_lock_at_cases split: if_splits)
      with False t d step(2) have "loop rh hs q2 x2 = Some r" by simp
      from step(1) [OF this] obtain n where "\<not> lck (hs ! draw_at rh q2 x2 n)" by blast
      with d show ?thesis by (intro exI [of _ "Suc n"]) simp
    qed
  qed
next
  assume "\<exists>n. \<not> lck (hs ! draw_at rh q x n)"
  then obtain n where "\<not> lck (hs ! draw_at rh q x n)" by blast
  then show "\<exists>r. lock_loop rh hs q x = Some r"
  proof (induction n arbitrary: q x)
    case 0
    then show ?case by (subst lock_loop.simps) (auto simp: try_lock_at_def try_lock_def)
  next
    case (Suc n)
    then show ?case
      by (subst lock_loop.simps)
        (auto simp: try_lock_at_def try_lock_def list_update_id split: prod.splits)
  qed
qed

text \<open>The choice between two indices.\<close>

definition better :: "('s \<Rightarrow> nat \<Rightarrow> u64) \<Rightarrow> 's \<Rightarrow> nat \<Rightarrow> nat \<Rightarrow> nat" where
  "better gm s i j = (if isFirstLess (gm s j) (gm s i) then j else i)"

lemma better_min:
  "better gm s i j \<in> {i, j}" "gm s (better gm s i j) \<le> gm s i" "gm s (better gm s i j) \<le> gm s j"
  by (auto simp: better_def isFirstLess_iff)

definition two_choice :: "nat \<Rightarrow> ('s \<Rightarrow> nat \<Rightarrow> u64) \<Rightarrow> 's \<Rightarrow> nat \<Rightarrow> nat \<Rightarrow> bool" where
  "two_choice N gm s nQ k \<longleftrightarrow>
     (\<exists>i < N. \<exists>j < N. (nQ > 1 \<longrightarrow> i \<noteq> j) \<and> k \<in> {i, j} \<and> gm s k \<le> gm s i \<and> gm s k \<le> gm s j)"

lemma two_choice_less: "two_choice N gm s nQ k \<Longrightarrow> k < N"
  by (auto simp: two_choice_def)

lemma choose_loop_induct [consumes 1, case_names step]:
  assumes "choose_loop rh nQ gm tr s x = Some r"
    and "\<And>loop rh nQ gm tr s x r.
      (\<And>rh nQ gm tr s x r. loop rh nQ gm tr s x = Some r \<Longrightarrow> P rh nQ gm tr s x r) \<Longrightarrow>
      (case rh x of (i_ind, x1) \<Rightarrow> case rh x1 of (j_ind, x2) \<Rightarrow>
         if i_ind = j_ind \<and> nQ > 1 then loop rh nQ gm tr s x2
         else
           case (if isFirstLess (gm s j_ind) (gm s i_ind) then j_ind else i_ind) of i_ind' \<Rightarrow>
           case tr s i_ind' of (r, s') \<Rightarrow>
             if r then Some (s', i_ind', x2) else loop rh nQ gm tr s' x2) = Some r \<Longrightarrow>
      P rh nQ gm tr s x r"
  shows "P rh nQ gm tr s x r"
proof (rule choose_loop.raw_induct [of P "(((((rh, nQ), gm), tr), s), x)" r, unfolded prod.case,
    OF _ assms(1)], goal_cases)
  case (1 loop)
  show ?case by (rule assms(2) [of loop]) (use 1 in blast)+
qed

lemma choose_loop_Some:
  assumes "choose_loop rh nQ gm tr s x = Some (s', k, x')" "draws_below rh N"
    and "\<And>s i s'. tr s i = (False, s') \<Longrightarrow> s' = s"
  shows "two_choice N gm s nQ k \<and> tr s k = (True, s')"
proof -
  have "draws_below rh N \<longrightarrow> (\<forall>s i s'. tr s i = (False, s') \<longrightarrow> s' = s) \<longrightarrow>
      two_choice N gm s nQ (fst (snd r)) \<and> tr s (fst (snd r)) = (True, fst r)"
    if "choose_loop rh nQ gm tr s x = Some r" for r
    using that
  proof (induction rule: choose_loop_induct)
    case (step loop rh nQ gm tr s x r)
    obtain i x1 j x2 where d: "rh x = (i, x1)" "rh x1 = (j, x2)" by fastforce
    obtain b s1 where t: "tr s (better gm s i j) = (b, s1)" by fastforce
    show ?case
    proof (intro impI)
      assume below: "draws_below rh N" and stay: "\<forall>s i s'. tr s i = (False, s') \<longrightarrow> s' = s"
      have ij: "i < N" "j < N" using below d by (auto dest: draws_belowD)
      show "two_choice N gm s nQ (fst (snd r)) \<and> tr s (fst (snd r)) = (True, fst r)"
      proof (cases "i = j \<and> nQ > 1 \<or> \<not> b")
        case True
        with t stay have "loop rh nQ gm tr s x2 = Some r"
          using step(2) d by (auto simp: Let_def better_def split: if_splits)
        with step(1) below stay show ?thesis by blast
      next
        case False
        with step(2) d t have "r = (s1, better gm s i j, x2)"
          by (auto simp: Let_def better_def split: if_splits)
        moreover have "two_choice N gm s nQ (better gm s i j)"
          using better_min [of gm s i j] ij False unfolding two_choice_def by blast
        ultimately show ?thesis using t False by simp
      qed
    qed
  qed
  with assms show ?thesis by fastforce
qed

lemma choose_loop_keeps:
  assumes "choose_loop rh nQ gm tr s x = Some (s', k, x')" "keeps_rng rh" "x \<noteq> 0"
  shows "x' \<noteq> 0"
proof -
  have "keeps_rng rh \<longrightarrow> x \<noteq> 0 \<longrightarrow> snd (snd r) \<noteq> 0" if "choose_loop rh nQ gm tr s x = Some r" for r
    using that
  proof (induction rule: choose_loop_induct)
    case (step loop rh nQ gm tr s x r)
    obtain i x1 j x2 where d: "rh x = (i, x1)" "rh x1 = (j, x2)" by fastforce
    obtain b s1 where t: "tr s (better gm s i j) = (b, s1)" by fastforce
    have x2: "keeps_rng rh \<longrightarrow> x \<noteq> 0 \<longrightarrow> x2 \<noteq> 0" using d by (auto dest: keeps_rngD)
    have "loop rh nQ gm tr s x2 = Some r \<or> loop rh nQ gm tr s1 x2 = Some r \<or> snd (snd r) = x2"
      using step(2) d t by (auto simp: Let_def better_def split: if_splits)
    with step(1) x2 show ?case by blast
  qed
  from this [OF assms(1)] assms(2,3) show ?thesis by simp
qed

text \<open>The pair the \<open>n\<close>-th iteration draws, and when it ends the loop.\<close>

fun pair_at :: "(u32 \<Rightarrow> nat \<times> u32) \<Rightarrow> u32 \<Rightarrow> nat \<Rightarrow> nat \<times> nat" where
  "pair_at rh x 0 = (let (i, x1) = rh x; (j, x2) = rh x1 in (i, j))"
| "pair_at rh x (Suc n) = pair_at rh (snd (rh (snd (rh x)))) n"

definition pair_works ::
    "nat \<Rightarrow> ('s \<Rightarrow> nat \<Rightarrow> u64) \<Rightarrow> ('s \<Rightarrow> nat \<Rightarrow> bool \<times> 's) \<Rightarrow> 's \<Rightarrow> nat \<times> nat \<Rightarrow> bool" where
  "pair_works nQ gm tr s p \<longleftrightarrow>
     (nQ > 1 \<longrightarrow> fst p \<noteq> snd p) \<and> fst (tr s (better gm s (fst p) (snd p)))"

lemma choose_loop_returns:
  assumes stay: "\<And>i s'. tr s i = (False, s') \<Longrightarrow> s' = s"
    and "pair_works nQ gm tr s (pair_at rh x n)"
  shows "\<exists>r. choose_loop rh nQ gm tr s x = Some r"
  using assms(2)
proof (induction n arbitrary: x)
  case 0
  then show ?case
    by (subst choose_loop.simps)
      (auto simp: pair_works_def better_def Let_def split: prod.splits if_splits)
next
  case (Suc n)
  obtain i x1 j x2 where d: "rh x = (i, x1)" "rh x1 = (j, x2)" by fastforce
  obtain b s1 where t: "tr s (better gm s i j) = (b, s1)" by fastforce
  have "\<exists>r. choose_loop rh nQ gm tr s x2 = Some r"
    using Suc d by simp
  moreover have "s1 = s" if "\<not> b" using stay t that by (cases b) auto
  ultimately show ?case
    using d t by (subst choose_loop.simps) (cases b; auto simp: Let_def better_def split: if_splits)
qed

lemma choose_loop_returns_only:
  assumes "choose_loop rh nQ gm tr s x = Some r" "\<And>s i s'. tr s i = (False, s') \<Longrightarrow> s' = s"
  shows "\<exists>n. pair_works nQ gm tr s (pair_at rh x n)"
proof -
  have "(\<forall>s i s'. tr s i = (False, s') \<longrightarrow> s' = s) \<longrightarrow> (\<exists>n. pair_works nQ gm tr s (pair_at rh x n))"
    using assms(1)
  proof (induction rule: choose_loop_induct)
    case (step loop rh nQ gm tr s x r)
    obtain i x1 j x2 where d: "rh x = (i, x1)" "rh x1 = (j, x2)" by fastforce
    obtain b s1 where t: "tr s (better gm s i j) = (b, s1)" by fastforce
    show ?case
    proof (intro impI, cases "i = j \<and> nQ > 1 \<or> \<not> b")
      case True
      assume stay: "\<forall>s i s'. tr s i = (False, s') \<longrightarrow> s' = s"
      with True t have "loop rh nQ gm tr s x2 = Some r"
        using step(2) d by (auto simp: Let_def better_def split: if_splits)
      with step(1) stay obtain n where "pair_works nQ gm tr s (pair_at rh x2 n)" by blast
      then have "pair_works nQ gm tr s (pair_at rh x (Suc n))" by (simp add: d)
      then show "\<exists>n. pair_works nQ gm tr s (pair_at rh x n)" by blast
    next
      case False
      then have "pair_works nQ gm tr s (pair_at rh x 0)" by (auto simp: d t pair_works_def)
      then show "\<exists>n. pair_works nQ gm tr s (pair_at rh x n)" by blast
    qed
  qed
  with assms(2) show ?thesis by blast
qed

section \<open>The attempts of pop\<close>

lemma tr_stays: "try_lock_at hs i = (False, hs') \<Longrightarrow> hs' = hs"
  by (simp add: try_lock_at_cases split: if_splits)

text \<open>\<open>looks_empty\<close>: two heaps (different ones when there are two) have a dummy minimum.\<close>

definition looks_empty :: "nat \<Rightarrow> ('s \<Rightarrow> nat \<Rightarrow> u64) \<Rightarrow> 's \<Rightarrow> nat \<Rightarrow> bool" where
  "looks_empty N gm s nQ \<longleftrightarrow>
     (\<exists>i < N. \<exists>j < N. (nQ > 1 \<longrightarrow> i \<noteq> j) \<and> gm s i = dummy \<and> gm s j = dummy)"

lemma two_choice_dummy: "two_choice N gm s nQ k \<Longrightarrow> gm s k = dummy \<Longrightarrow> looks_empty N gm s nQ"
  unfolding two_choice_def looks_empty_def by (metis dummy_max order_antisym)

lemma attempts_Some:
  assumes "attempts B rh nQ n hs x = Some (hs', r, x')" "draws_below rh (length hs)"
  shows "case r of
      None \<Rightarrow> hs' = hs \<and> (0 < n \<longrightarrow>
        (\<exists>k. two_choice (length hs) min_at hs nQ k \<and> \<not> lck (hs ! k) \<and> HeapWithLock_empty B (hs ! k)))
    | Some k \<Rightarrow> two_choice (length hs) min_at hs nQ k \<and> \<not> lck (hs ! k) \<and> hs' = locked_at hs k \<and>
        \<not> HeapWithLock_empty B (hs ! k)"
  using assms(1)
proof (induction n arbitrary: x)
  case 0
  then show ?case by simp
next
  case (Suc n)
  from Suc.prems obtain hs1 k x1 where c: "choose_loop rh nQ min_at try_lock_at hs x = Some (hs1, k, x1)"
    by (auto split: option.splits)
  from choose_loop_Some [OF c assms(2) tr_stays]
  have tc: "two_choice (length hs) min_at hs nQ k" and "try_lock_at hs k = (True, hs1)" by auto
  then have k: "k < length hs" "\<not> lck (hs ! k)" "hs1 = locked_at hs k"
    by (auto simp: try_lock_at_cases two_choice_less split: if_splits)
  show ?case
  proof (cases "HeapWithLock_empty B (hs ! k)")
    case False
    with Suc.prems c k tc show ?thesis by auto
  next
    case True
    with Suc.prems c k have "attempts B rh nQ n hs x1 = Some (hs', r, x')" by simp
    from Suc.IH [OF this] True tc k show ?thesis by (auto split: option.splits)
  qed
qed

lemma attempts_keeps:
  "attempts B rh nQ n hs x = Some (hs', r, x') \<Longrightarrow> keeps_rng rh \<Longrightarrow> x \<noteq> 0 \<Longrightarrow> x' \<noteq> 0"
proof (induction n arbitrary: hs x)
  case (Suc n)
  from Suc.prems(1) obtain hs1 k x1 where c: "choose_loop rh nQ min_at try_lock_at hs x = Some (hs1, k, x1)"
    by (auto split: option.splits)
  have "x1 \<noteq> 0" by (rule choose_loop_keeps [OF c Suc.prems(2,3)])
  with Suc c show ?case by (auto split: if_splits)
qed simp

text \<open>
  \<open>pairs_work\<close>: from every non-zero generator state the loop comes to a pair it accepts.
\<close>

definition pairs_work ::
    "(u32 \<Rightarrow> nat \<times> u32) \<Rightarrow> nat \<Rightarrow> 'h HeapWithLock list \<Rightarrow> bool" where
  "pairs_work rh nQ hs \<longleftrightarrow> (\<forall>x. x \<noteq> 0 \<longrightarrow> (\<exists>m. pair_works nQ min_at try_lock_at hs (pair_at rh x m)))"

lemma attempts_returns:
  assumes "pairs_work rh nQ hs" "draws_below rh (length hs)" "keeps_rng rh" "x \<noteq> 0"
  shows "\<exists>r. attempts B rh nQ n hs x = Some r"
  using assms(4)
proof (induction n arbitrary: x)
  case 0
  show ?case by simp
next
  case (Suc n)
  obtain hs1 k x1 where c: "choose_loop rh nQ min_at try_lock_at hs x = Some (hs1, k, x1)"
    using choose_loop_returns [of try_lock_at hs nQ min_at rh x] assms(1) Suc.prems tr_stays
    by (metis pairs_work_def prod_cases3)
  from choose_loop_Some [OF c assms(2) tr_stays]
  have "two_choice (length hs) min_at hs nQ k" and "try_lock_at hs k = (True, hs1)" by auto
  then have k: "k < length hs" "\<not> lck (hs ! k)" "hs1 = locked_at hs k"
    by (auto simp: try_lock_at_cases two_choice_less split: if_splits)
  obtain r where "attempts B rh nQ n hs x1 = Some r"
    using Suc.IH choose_loop_keeps [OF c assms(3) Suc.prems] by blast
  with c k show ?case by (cases r) auto
qed

section \<open>The batches of push\<close>

context task_heap
begin

lemma push_batch_section:
  assumes "mq_ok B hinv hbag hs" "k < length hs" "\<not> lck (hs ! k)"
    and H: "H = unlock (updateMin B (foldl (HeapWithLock_push B) ((hs ! k)\<lparr>lck := True\<rparr>) es))"
  shows "mq_ok B hinv hbag (hs[k := H])" "others_kept hs (hs[k := H])"
    "mq_bag hbag (hs[k := H]) = mq_bag hbag hs + mset es"
proof -
  note pl = push_list [OF mq_ok_nth [OF assms(1,2)], of es]
  have inv: "hinv (bheap H)" and bag: "hbag (bheap H) = hbag (bheap (hs ! k)) + mset es"
    using pl by (simp_all add: H)
  have "min_cache B (hbag (bheap H)) (hmin H)"
    using updateMin_cache [of "foldl (HeapWithLock_push B) ((hs ! k)\<lparr>lck := True\<rparr>) es"] pl
    by (simp add: H)
  from critical_section [OF assms(1-3) _ inv this] bag H
  show "mq_ok B hinv hbag (hs[k := H])" "others_kept hs (hs[k := H])"
    "mq_bag hbag (hs[k := H]) = mq_bag hbag hs + mset es"
    by (simp_all add: ac_simps)
qed

lemma push_loop_Some:
  assumes "push_loop B rh c hs q x n es = Some (hs', q', x', n')"
    and "draws_below rh (length hs)" "q < length hs" "mq_ok B hinv hbag hs"
  shows "mq_ok B hinv hbag hs' \<and> others_kept hs hs' \<and> mq_bag hbag hs' = mq_bag hbag hs + mset es \<and>
    q' < length hs \<and> n' = n + of_nat (length es)"
  using assms
proof (induction "length es" arbitrary: hs q x n es rule: less_induct)
  case less
  show ?case
  proof (cases "es = []")
    case True
    with less.prems show ?thesis by simp
  next
    case False
    obtain k x1 where b: "randomBatchSize c (length es) x = (k, x1)" by fastforce
    have k: "0 < k" "k \<le> length es"
      using randomBatchSize_bounds [OF b] False by auto
    from less.prems(1) False b obtain hs1 q1 x2 where l: "lock_loop rh hs q x1 = Some (hs1, q1, x2)"
      by (auto simp: push_loop.simps [of B rh c hs q x n es] split: option.splits)
    have q1: "q1 < length hs" "\<not> lck (hs ! q1)" "hs1 = locked_at hs q1"
      using lock_loop_Some [OF l less.prems(2,3)] by auto
    let ?H = "unlock (updateMin B (foldl (HeapWithLock_push B) ((hs ! q1)\<lparr>lck := True\<rparr>) (take k es)))"
    obtain q2 x3 where d: "(if drop k es \<noteq> [] then rh x2 else (q1, x2)) = (q2, x3)" by fastforce
    have rec: "push_loop B rh c (hs[q1 := ?H]) q2 x3 (n + of_nat k) (drop k es) = Some (hs', q', x', n')"
      using less.prems(1) False b l q1 d
      by (simp add: push_loop.simps [of B rh c hs q x n es] Let_def)
    note sec = push_batch_section [OF less.prems(4) q1(1,2) refl, of "take k es"]
    have "q2 < length hs"
      using d less.prems(2) q1(1) by (auto dest: draws_belowD split: if_splits)
    with less.hyps [OF _ rec] k False less.prems(2) sec(1)
    have "mq_ok B hinv hbag hs' \<and> others_kept (hs[q1 := ?H]) hs' \<and>
      mq_bag hbag hs' = mq_bag hbag (hs[q1 := ?H]) + mset (drop k es) \<and> q' < length hs \<and>
      n' = n + of_nat k + of_nat (length es - k)"
      by simp
    moreover have "mset (take k es) + mset (drop k es) = mset es"
      by (metis append_take_drop_id mset_append)
    moreover have "of_nat k + of_nat (length es - k) = (of_nat (length es) :: u32)"
      using k(2) by (simp flip: of_nat_add)
    ultimately show ?thesis
      using sec(2,3) others_kept_trans by (auto simp: ac_simps)
  qed
qed

end

text \<open>The locks another thread holds are the only thing that can keep \<open>push\<close> from returning.\<close>

lemma draw_at_others_kept:
  assumes "others_kept hs hs'" "draws_below rh (length hs)" "q < length hs"
  shows "lck (hs' ! draw_at rh q x n) = lck (hs ! draw_at rh q x n)"
proof -
  have "draw_at rh q x n < length hs"
    using assms(2,3) by (induction n arbitrary: q x) (auto split: prod.splits dest: draws_belowD)
  with assms(1) show ?thesis by (simp add: others_kept_def)
qed

text \<open>\<open>draws_work\<close>: from every non-zero generator state the draws reach a heap that is not locked.\<close>

definition draws_work :: "(u32 \<Rightarrow> nat \<times> u32) \<Rightarrow> 'h HeapWithLock list \<Rightarrow> bool" where
  "draws_work rh hs \<longleftrightarrow> (\<forall>q x. x \<noteq> 0 \<longrightarrow> (\<exists>m. \<not> lck (hs ! draw_at rh q x m)))"

lemma draws_work_kept:
  assumes "draws_work rh hs" "others_kept hs hs'" "draws_below rh (length hs)" "keeps_rng rh"
  shows "draws_work rh hs'"
  unfolding draws_work_def
proof (intro allI impI)
  fix q x
  assume x: "x \<noteq> (0 :: u32)"
  obtain q' x' where d: "rh x = (q', x')" by fastforce
  then have "q' < length hs" "x' \<noteq> 0"
    using assms(3,4) x by (auto dest: draws_belowD keeps_rngD)
  moreover from this obtain m where "\<not> lck (hs ! draw_at rh q' x' m)"
    using assms(1) by (auto simp: draws_work_def)
  ultimately have "\<not> lck (hs' ! draw_at rh q' x' m)"
    by (simp add: draw_at_others_kept [OF assms(2,3)])
  with d show "\<exists>m. \<not> lck (hs' ! draw_at rh q x m)" by (intro exI [of _ "Suc m"]) simp
qed

lemma push_loop_returns:
  assumes "draws_work rh hs" "draws_below rh (length hs)" "keeps_rng rh" "q < length hs" "x \<noteq> 0"
  shows "\<exists>r. push_loop B rh c hs q x n es = Some r"
  using assms
proof (induction "length es" arbitrary: hs q x n es rule: less_induct)
  case less
  show ?case
  proof (cases "es = []")
    case True
    then show ?thesis by simp
  next
    case False
    obtain k x1 where b: "randomBatchSize c (length es) x = (k, x1)" by fastforce
    have k: "0 < k" "x1 \<noteq> 0"
      using randomBatchSize_bounds [OF b] False batch_loop_keeps [OF less.prems(5)] b
      by (auto simp: randomBatchSize_def) (metis snd_conv)
    obtain hs1 q1 x2 where l: "lock_loop rh hs q x1 = Some (hs1, q1, x2)"
      using lock_loop_returns_iff [of rh hs q x1] less.prems(1) k(2)
      by (metis draws_work_def prod_cases3)
    have q1: "q1 < length hs" "\<not> lck (hs ! q1)" "hs1 = locked_at hs q1"
      using lock_loop_Some [OF l less.prems(2,4)] by auto
    let ?H = "unlock (updateMin B (foldl (HeapWithLock_push B) ((hs ! q1)\<lparr>lck := True\<rparr>) (take k es)))"
    have ok: "others_kept hs (hs[q1 := ?H])" using q1 by (intro others_kept_update) simp_all
    obtain q2 x3 where d: "(if drop k es \<noteq> [] then rh x2 else (q1, x2)) = (q2, x3)" by fastforce
    have "q2 < length hs" "x3 \<noteq> 0"
      using d less.prems(2,3) q1(1) lock_loop_keeps [OF l less.prems(3) k(2)]
      by (auto dest: draws_belowD keeps_rngD split: if_splits)
    then have "\<exists>r. push_loop B rh c (hs[q1 := ?H]) q2 x3 (n + of_nat k) (drop k es) = Some r"
      using k False less.prems draws_work_kept [OF less.prems(1) ok less.prems(2,3)]
      by (intro less.hyps) auto
    with False b l q1 d show ?thesis
      by (simp add: push_loop.simps [of B rh c hs q x n es] Let_def)
  qed
qed

section \<open>Heaps for the witnesses\<close>

definition req_lockable :: "nat update_request list \<Rightarrow> nat update_request DAryHeap HeapWithLock" where
  "req_lockable es =
     updateMin req_heap (foldl (HeapWithLock_push req_heap) (HeapWithLock_init req_heap) es)"

text \<open>Two heaps: one with the given requests, one whose lock another thread holds.\<close>

definition req_heaps :: "nat update_request list \<Rightarrow> nat update_request DAryHeap HeapWithLock list" where
  "req_heaps es = [req_lockable es, (req_lockable [])\<lparr>lck := True\<rparr>]"

definition new_thread :: mq_thread where
  "new_thread = \<lparr>rng = 1, push_q = None, pop_q = None\<rparr>"

lemma req_lockable_ok:
  "hl_ok req_heap req_inv req_bag (req_lockable es)" "req_bag (bheap (req_lockable es)) = mset es"
proof -
  have p: "req_inv (foldl (h_push req_heap) (h_empty req_heap) es) \<and>
      req_bag (foldl (h_push req_heap) (h_empty req_heap) es) = req_bag (h_empty req_heap) + mset es"
    by (rule req.push_list) (rule req.empty_inv)
  then show "req_bag (bheap (req_lockable es)) = mset es"
    using req.empty_bag by (simp add: req_lockable_def HeapWithLock_init_def)
  show "hl_ok req_heap req_inv req_bag (req_lockable es)"
    using p req.updateMin_cache [of "foldl (HeapWithLock_push req_heap) (HeapWithLock_init req_heap) es"]
    by (simp add: hl_ok_def req_lockable_def HeapWithLock_init_def)
qed

lemma req_lockable_unlocked [simp]: "\<not> lck (req_lockable es)"
  by (simp add: req_lockable_def HeapWithLock_init_def)

lemma req_heaps_ok:
  "mq_ok req_heap req_inv req_bag (req_heaps es)" "mq_bag req_bag (req_heaps es) = mset es"
  "length (req_heaps es) = 2"
  using req_lockable_ok [of es] req_lockable_ok [of "[]"]
  by (auto simp: mq_ok_def hl_ok_def mq_bag_def req_heaps_def less_Suc_eq nth_Cons')

text \<open>One heap, not locked: every draw finds it.\<close>

lemma rand_heap_1: "rand_heap (Suc 0) x = (0, snd (random x))"
  by (simp add: rand_heap_def rand_mod_def remainder_def split: prod.splits)

lemma one_heap_works:
  assumes "\<not> lck H"
  shows "draws_work (rand_heap 1) [H]" "pairs_work (rand_heap 1) 1 [H]"
  unfolding draws_work_def pairs_work_def pair_works_def
  by (intro allI impI exI [of _ 1]; simp add: rand_heap_1 assms)
    (intro allI impI exI [of _ 0]; simp add: rand_heap_1 assms better_def try_lock_at_def try_lock_def)

lemma attempts_one_empty:
  assumes "\<not> lck H" "HeapWithLock_empty B H" "x \<noteq> 0"
  shows "\<exists>x'. attempts B (rand_heap 1) 1 n [H] x = Some ([H], None, x')"
proof -
  have below: "draws_below (rand_heap 1) (length [H])" using rand_heap_below [of 1] by simp
  obtain hs r x' where a: "attempts B (rand_heap 1) 1 n [H] x = Some (hs, r, x')"
    using attempts_returns [OF one_heap_works(2) [OF assms(1)] below rand_heap_keeps assms(3)]
    by (metis prod_cases3)
  from attempts_Some [OF a below] assms(2) have "r = None \<and> hs = [H]"
    by (cases r) (auto dest: two_choice_less)
  with a show ?thesis by blast
qed

end
