(* ===== verification/NUMA.thy ===== *)
theory NUMA
  imports MultiQueueBase
begin

text \<open>
  \<open>WorkList/MQOptimized/NUMA.h\<close>: the weighted draw of a queue in the NUMA variants. The
  socket count selects one of two implementations at compile time (\<open>SOCKETS_NUM\<close> 2 or 4);
  both are modelled, with the suffix of their socket count. \<open>S\<close> is \<open>socketSize\<close>, \<open>C\<close> the
  number of queues per thread, \<open>L\<close> is \<open>LOCAL_NUMA_W\<close>, \<open>nT\<close> the number of threads, and
  \<open>nQ = C * nT\<close>. Sizes are \<open>nat\<close>: thread counts are far from the width of \<open>size_t\<close>.

  The lemmas show that the draw gives every queue of the machine a slot and the weights
  intended: each queue of the thread's own socket \<open>LOCAL_NUMA_W\<close> slots, others fewer.
\<close>

section \<open>Two sockets\<close>

definition OTHER_W :: nat where
  "OTHER_W = 1"

definition node1Cnt :: "nat \<Rightarrow> nat \<Rightarrow> nat" where
  "node1Cnt S nT =
     (if nT > S then
        let res = S in
        if S * 2 < nT then res + (min nT (S * 3) - S * 2) else res
      else nT)"

definition node2Cnt :: "nat \<Rightarrow> nat \<Rightarrow> nat" where
  "node2Cnt S nT = nT - node1Cnt S nT"

definition is1Node :: "nat \<Rightarrow> nat \<Rightarrow> bool" where
  "is1Node S tId \<longleftrightarrow> tId < S \<or> (tId \<ge> S * 2 \<and> tId < S * 3)"

definition is2Node :: "nat \<Rightarrow> nat \<Rightarrow> bool" where
  "is2Node S tId \<longleftrightarrow> \<not> is1Node S tId"

definition socketIdByTID2 :: "nat \<Rightarrow> nat \<Rightarrow> nat" where
  "socketIdByTID2 S tId = (if is1Node S tId then 0 else 1)"

definition socketIdByQID2 :: "nat \<Rightarrow> nat \<Rightarrow> nat \<Rightarrow> nat" where
  "socketIdByQID2 S C qId =
     (if qId < S * C then 0
      else if qId < 2 * S * C then 1
      else if qId < 3 * S * C then 0
      else 1)"

definition map1Node :: "nat \<Rightarrow> nat \<Rightarrow> nat \<Rightarrow> nat" where
  "map1Node S C qId = (if qId < S * C then qId else qId + S * C)"

definition map2Node :: "nat \<Rightarrow> nat \<Rightarrow> nat \<Rightarrow> nat" where
  "map2Node S C qId = (if qId < S * C then qId + S * C else qId + S * 2 * C)"

text \<open>The number of slots and the queue a slot stands for.\<close>

definition slots2 :: "nat \<Rightarrow> nat \<Rightarrow> nat \<Rightarrow> nat \<Rightarrow> nat \<Rightarrow> nat" where
  "slots2 S C L nT tId =
     (let localCnt = (if is1Node S tId then node1Cnt S nT else node2Cnt S nT);
          otherCnt = nT - localCnt
      in localCnt * L * C + otherCnt * OTHER_W * C)"

definition pick2 :: "nat \<Rightarrow> nat \<Rightarrow> nat \<Rightarrow> nat \<Rightarrow> nat \<Rightarrow> nat \<Rightarrow> nat" where
  "pick2 S C L nT tId r =
     (let isFirst = is1Node S tId;
          localCnt = (if isFirst then node1Cnt S nT else node2Cnt S nT)
      in if r < localCnt * L * C then
           let qId = r div L in if isFirst then map1Node S C qId else map2Node S C qId
         else
           let qId = (r - localCnt * L * C) div OTHER_W
           in if isFirst then map2Node S C qId else map1Node S C qId)"

definition rand_heap2 :: "nat \<Rightarrow> nat \<Rightarrow> nat \<Rightarrow> nat \<Rightarrow> nat \<Rightarrow> u32 \<Rightarrow> nat \<times> u32" where
  "rand_heap2 S C L nT tId x =
     (case rand_mod (slots2 S C L nT tId) x of (r, x') \<Rightarrow> (pick2 S C L nT tId r, x'))"

definition rand_heap_with_local2 :: "nat \<Rightarrow> nat \<Rightarrow> nat \<Rightarrow> nat \<Rightarrow> nat \<Rightarrow> u32 \<Rightarrow> nat \<times> u32" where
  "rand_heap_with_local2 S C L nT tId x =
     (let Q = slots2 S C L nT tId + 1 in
      case rand_mod Q x of (r, x') \<Rightarrow>
        if r + 1 = Q then (C * nT, x') else (pick2 S C L nT tId r, x'))"

section \<open>Four sockets\<close>

definition NEIGH_WEIGHT :: nat where "NEIGH_WEIGHT = 2"
definition DIAG_WEIGHT :: nat where "DIAG_WEIGHT = 1"
definition LOCAL_WEIGHT :: "nat \<Rightarrow> nat" where "LOCAL_WEIGHT L = L * 2"
definition SOCKETS_NUM :: nat where "SOCKETS_NUM = 4"

text \<open>The two nested loops, \<open>j < 2\<close> around \<open>i < SOCKETS_NUM\<close>, visit these socket numbers.\<close>

definition socket_visits :: "nat list" where
  "socket_visits = [0..<SOCKETS_NUM] @ [0..<SOCKETS_NUM]"

fun cnt_loop :: "nat \<Rightarrow> nat list \<Rightarrow> nat \<Rightarrow> nat list \<Rightarrow> nat list" where
  "cnt_loop S [] nTCnt result = result"
| "cnt_loop S (i # is) nTCnt result =
     (if nTCnt > 0
      then cnt_loop S is (nTCnt - min nTCnt S) (result[i := result ! i + min nTCnt S])
      else cnt_loop S is nTCnt result)"

definition cntSockets :: "nat \<Rightarrow> nat \<Rightarrow> nat list" where
  "cntSockets S nT = cnt_loop S socket_visits nT [0, 0, 0, 0]"

text \<open>\<open>return -1\<close> as a \<open>size_t\<close> is the greatest 64-bit value.\<close>

fun socket_loop :: "nat \<Rightarrow> nat list \<Rightarrow> nat \<Rightarrow> nat" where
  "socket_loop n [] k = 2 ^ 64 - 1"
| "socket_loop n (i # is) k = (if k < n then i else socket_loop n is (k - n))"

definition socketIdByTID4 :: "nat \<Rightarrow> nat \<Rightarrow> nat" where
  "socketIdByTID4 S tId = socket_loop S socket_visits tId"

definition socketIdByQID4 :: "nat \<Rightarrow> nat \<Rightarrow> nat \<Rightarrow> nat" where
  "socketIdByQID4 S C qId = socket_loop (S * C) socket_visits qId"

definition mapQID :: "nat \<Rightarrow> nat \<Rightarrow> nat \<Rightarrow> nat \<Rightarrow> nat" where
  "mapQID S C socketId qId =
     (if qId < S * C then socketId * S * C + qId
      else socketId * S * C + qId + (SOCKETS_NUM - 1) * S * C)"

definition slots4 :: "nat \<Rightarrow> nat \<Rightarrow> nat \<Rightarrow> nat \<Rightarrow> nat \<Rightarrow> nat" where
  "slots4 S C L nT tId =
     (let socketId = socketIdByTID4 S tId;
          cnt = cntSockets S nT;
          localCnt = cnt ! socketId;
          neighId1 = (socketId + 1) mod SOCKETS_NUM;
          neighId2 = (socketId + SOCKETS_NUM - 1) mod SOCKETS_NUM;
          neighCnt = cnt ! neighId1 + cnt ! neighId2;
          diagCnt = nT - localCnt - neighCnt
      in localCnt * C * LOCAL_WEIGHT L + neighCnt * C * NEIGH_WEIGHT + DIAG_WEIGHT * C * diagCnt)"

definition pick4 :: "nat \<Rightarrow> nat \<Rightarrow> nat \<Rightarrow> nat \<Rightarrow> nat \<Rightarrow> nat \<Rightarrow> nat" where
  "pick4 S C L nT tId r =
     (let socketId = socketIdByTID4 S tId;
          cnt = cntSockets S nT;
          localCnt = cnt ! socketId;
          neighId1 = (socketId + 1) mod SOCKETS_NUM;
          neighId2 = (socketId + SOCKETS_NUM - 1) mod SOCKETS_NUM;
          diagId = (socketId + 2) mod SOCKETS_NUM
      in if r < localCnt * LOCAL_WEIGHT L * C then mapQID S C socketId (r div LOCAL_WEIGHT L)
         else
           let r1 = r - localCnt * LOCAL_WEIGHT L * C in
           if r1 < cnt ! neighId1 * NEIGH_WEIGHT * C then mapQID S C neighId1 (r1 div NEIGH_WEIGHT)
           else
             let r2 = r1 - cnt ! neighId1 * NEIGH_WEIGHT * C in
             if r2 < cnt ! neighId2 * NEIGH_WEIGHT * C then mapQID S C neighId2 (r2 div NEIGH_WEIGHT)
             else
               let r3 = r2 - cnt ! neighId2 * NEIGH_WEIGHT * C
               in mapQID S C diagId (r3 div DIAG_WEIGHT))"

definition rand_heap4 :: "nat \<Rightarrow> nat \<Rightarrow> nat \<Rightarrow> nat \<Rightarrow> nat \<Rightarrow> u32 \<Rightarrow> nat \<times> u32" where
  "rand_heap4 S C L nT tId x =
     (case rand_mod (slots4 S C L nT tId) x of (r, x') \<Rightarrow> (pick4 S C L nT tId r, x'))"

definition rand_heap_with_local4 :: "nat \<Rightarrow> nat \<Rightarrow> nat \<Rightarrow> nat \<Rightarrow> nat \<Rightarrow> u32 \<Rightarrow> nat \<times> u32" where
  "rand_heap_with_local4 S C L nT tId x =
     (let Q = slots4 S C L nT tId + 1 in
      case rand_mod Q x of (r, x') \<Rightarrow>
        if r + 1 = Q then (C * nT, x') else (pick4 S C L nT tId r, x'))"

section \<open>Counting slots\<close>

text \<open>Slots of weight \<open>w\<close> for the \<open>n\<close> queues an injective numbering \<open>f\<close> reaches.\<close>

lemma card_segment:
  assumes "inj_on f {..<n}" "0 < w"
  shows "card {r. r < n * w \<and> f (r div w) = q} = (if q \<in> f ` {..<n} then w else 0)"
proof (cases "q \<in> f ` {..<n}")
  case False
  have "f (r div w) \<noteq> q" if "r < n * w" for r
    using False that by (metis imageI less_mult_imp_div_less lessThan_iff)
  then have "{r. r < n * w \<and> f (r div w) = q} = {}" by blast
  with False show ?thesis by simp
next
  case True
  then obtain k where k: "k < n" "f k = q" by auto
  have "{r. r < n * w \<and> f (r div w) = q} = {k * w..<Suc k * w}"
  proof (intro set_eqI iffI)
    fix r
    assume "r \<in> {r. r < n * w \<and> f (r div w) = q}"
    then have "r < n * w" "f (r div w) = f k" using k by auto
    then have "r div w = k"
      using assms(1) k by (metis inj_onD less_mult_imp_div_less lessThan_iff)
    then show "r \<in> {k * w..<Suc k * w}"
      using div_mult_mod_eq [of r w] mod_less_divisor [OF assms(2), of r] by simp
  next
    fix r
    assume r: "r \<in> {k * w..<Suc k * w}"
    then have "r div w = k" by (intro div_nat_eqI) (auto simp: mult.commute)
    moreover have "Suc k * w \<le> n * w" using k(1) by (intro mult_le_mono1) simp
    ultimately show "r \<in> {r. r < n * w \<and> f (r div w) = q}" using r k by auto
  qed
  with True show ?thesis by simp
qed

lemma card_split:
  "card {r. r < a + b \<and> P r} = card {r. r < a \<and> P r} + card {r. r < b \<and> P (r + a)}" for a b :: nat
proof -
  have "{r. r < a + b \<and> P r} = {r. r < a \<and> P r} \<union> (\<lambda>r. r + a) ` {r. r < b \<and> P (r + a)}"
  proof (intro set_eqI iffI)
    fix r
    assume "r \<in> {r. r < a + b \<and> P r}"
    then show "r \<in> {r. r < a \<and> P r} \<union> (\<lambda>r. r + a) ` {r. r < b \<and> P (r + a)}"
      by (cases "r < a") (auto intro: image_eqI [of _ _ "r - a"])
  qed auto
  also have "card \<dots> = card {r. r < a \<and> P r} + card ((\<lambda>r. r + a) ` {r. r < b \<and> P (r + a)})"
    by (rule card_Un_disjoint) auto
  also have "card ((\<lambda>r. r + a) ` {r. r < b \<and> P (r + a)}) = card {r. r < b \<and> P (r + a)}"
    by (rule card_image) (simp add: inj_on_def)
  finally show ?thesis .
qed

section \<open>Every queue has its slots\<close>

text \<open>\<open>mapped\<close>: \<open>f\<close> numbers the queues of a socket, which are those with \<open>P\<close>.\<close>

definition numbers :: "(nat \<Rightarrow> nat) \<Rightarrow> nat \<Rightarrow> (nat \<Rightarrow> bool) \<Rightarrow> bool" where
  "numbers f n P \<longleftrightarrow> inj_on f {..<n} \<and> (\<forall>q. q \<in> f ` {..<n} \<longleftrightarrow> P q)"

lemma numbers_card:
  "numbers f n P \<Longrightarrow> 0 < w \<Longrightarrow> card {r. r < n * w \<and> f (r div w) = q} = (if P q then w else 0)"
  by (simp add: numbers_def card_segment)

text \<open>In blocks of \<open>K = S * C\<close> queues, for \<open>N = nT * C\<close> queues in all.\<close>

lemma node1Cnt_blocks:
  assumes "K = S * C" "N = nT * C"
  shows "node1Cnt S nT * C = min N K + (min N (3 * K) - 2 * K)"
proof -
  have "node1Cnt S nT = min nT S + (min nT (3 * S) - 2 * S)"
    by (auto simp: node1Cnt_def Let_def)
  then show ?thesis
    by (simp add: assms algebra_simps diff_mult_distrib flip: nat_mult_min_left nat_mult_min_right)
qed

lemma node2Cnt_blocks:
  assumes "K = S * C" "N = nT * C"
  shows "node2Cnt S nT * C = N - (min N K + (min N (3 * K) - 2 * K))"
  by (simp add: node2Cnt_def diff_mult_distrib node1Cnt_blocks [OF assms] flip: assms(2))

lemma socketIdByQID2_blocks:
  "K = S * C \<Longrightarrow> socketIdByQID2 S C q =
     (if q < K then 0 else if q < 2 * K then 1 else if q < 3 * K then 0 else 1)"
  by (simp add: socketIdByQID2_def mult.assoc)

lemma map1Node_numbers:
  "numbers (map1Node S C) (node1Cnt S nT * C) (\<lambda>q. q < nT * C \<and> socketIdByQID2 S C q = 0)"
  unfolding numbers_def
proof (intro conjI allI)
  define K N where KN: "K = S * C" "N = nT * C"
  note blocks = node1Cnt_blocks [OF KN] socketIdByQID2_blocks [OF KN(1)] map1Node_def
  show "inj_on (map1Node S C) {..<node1Cnt S nT * C}"
    by (auto simp: inj_on_def map1Node_def split: if_splits)
  fix q
  have "q < nT * C \<and> socketIdByQID2 S C q = 0" if "q \<in> map1Node S C ` {..<node1Cnt S nT * C}"
    using that by (auto simp: blocks min_def simp flip: KN split: if_splits)
  moreover have "q \<in> map1Node S C ` {..<node1Cnt S nT * C}" if q: "q < nT * C \<and> socketIdByQID2 S C q = 0"
    by (rule image_eqI [of _ _ "if q < K then q else q - K"])
      (use q in \<open>auto simp: blocks min_def simp flip: KN split: if_splits\<close>)
  ultimately show "(q \<in> map1Node S C ` {..<node1Cnt S nT * C}) = (q < nT * C \<and> socketIdByQID2 S C q = 0)" by (rule iffI)
qed

lemma map2Node_numbers:
  "numbers (map2Node S C) (node2Cnt S nT * C) (\<lambda>q. q < nT * C \<and> socketIdByQID2 S C q = 1)"
  unfolding numbers_def
proof (intro conjI allI)
  define K N where KN: "K = S * C" "N = nT * C"
  have "S * 2 * C = 2 * K" by (simp add: KN)
  note blocks = node2Cnt_blocks [OF KN] socketIdByQID2_blocks [OF KN(1)] map2Node_def this
  show "inj_on (map2Node S C) {..<node2Cnt S nT * C}"
    by (auto simp: inj_on_def map2Node_def split: if_splits)
  fix q
  have "q < nT * C \<and> socketIdByQID2 S C q = 1" if "q \<in> map2Node S C ` {..<node2Cnt S nT * C}"
    using that by (auto simp: blocks min_def simp flip: KN split: if_splits)
  moreover have "q \<in> map2Node S C ` {..<node2Cnt S nT * C}" if q: "q < nT * C \<and> socketIdByQID2 S C q = 1"
    by (rule image_eqI [of _ _ "if q < 2 * K then q - K else q - 2 * K"])
      (use q in \<open>auto simp: blocks min_def simp flip: KN split: if_splits\<close>)
  ultimately show "(q \<in> map2Node S C ` {..<node2Cnt S nT * C}) = (q < nT * C \<and> socketIdByQID2 S C q = 1)" by (rule iffI)
qed

text \<open>Two segments of slots, and one segment after a prefix.\<close>

lemma slots2_card:
  assumes "0 < L"
  shows "card {r. r < slots2 S C L nT tId \<and> pick2 S C L nT tId r = q} =
    (if q < nT * C then if socketIdByQID2 S C q = socketIdByTID2 S tId then L else OTHER_W else 0)"
proof -
  have le: "node1Cnt S nT \<le> nT" by (auto simp: node1Cnt_def Let_def)
  then have other: "nT - node2Cnt S nT = node1Cnt S nT" "nT - node1Cnt S nT = node2Cnt S nT"
    by (simp_all add: node2Cnt_def)
  have sock: "socketIdByQID2 S C q = 0 \<or> socketIdByQID2 S C q = 1" by (simp add: socketIdByQID2_def)
  define f n g m where fn: "f = (if is1Node S tId then map1Node S C else map2Node S C)"
    "n = (if is1Node S tId then node1Cnt S nT else node2Cnt S nT) * C"
    "g = (if is1Node S tId then map2Node S C else map1Node S C)"
    "m = (if is1Node S tId then node2Cnt S nT else node1Cnt S nT) * C"
  have slots: "slots2 S C L nT tId = n * L + m * OTHER_W"
    by (simp add: slots2_def fn other Let_def mult.commute mult.left_commute)
  have pick: "pick2 S C L nT tId r =
      (if r < n * L then f (r div L) else g ((r - n * L) div OTHER_W))" for r
    by (simp add: pick2_def fn Let_def mult.commute mult.left_commute)
  have "numbers f n (\<lambda>q. q < nT * C \<and> socketIdByQID2 S C q = socketIdByTID2 S tId)"
    "numbers g m (\<lambda>q. q < nT * C \<and> socketIdByQID2 S C q \<noteq> socketIdByTID2 S tId)"
    using map1Node_numbers [of S C nT] map2Node_numbers [of S C nT] sock
    by (auto simp: fn socketIdByTID2_def numbers_def socketIdByQID2_def split: if_splits)
  note c = numbers_card [OF this(1) assms, of q] numbers_card [OF this(2), of OTHER_W q]
  have "card {r. r < n * L \<and> pick2 S C L nT tId r = q} = card {r. r < n * L \<and> f (r div L) = q}"
    by (rule arg_cong [of _ _ card]) (auto simp: pick)
  moreover have "card {r. r < m * OTHER_W \<and> pick2 S C L nT tId (r + n * L) = q} =
      card {r. r < m * OTHER_W \<and> g (r div OTHER_W) = q}"
    by (simp add: pick)
  ultimately show ?thesis
    using c by (simp add: slots card_split OTHER_W_def)
qed

text \<open>The four-socket counts in closed form.\<close>

lemma cnt_loop_Cons:
  "i < length result \<Longrightarrow> cnt_loop S (i # is) n result = cnt_loop S is (n - S) (result[i := result ! i + min n S])"
  by (auto simp: min_def)

lemma socket_visits_list: "socket_visits = [0, 1, 2, 3, 0, 1, 2, 3]"
  by (simp add: socket_visits_def SOCKETS_NUM_def upt_rec)

lemma cntSockets_list:
  "cntSockets S nT =
    [min nT S + min (nT - 4 * S) S, min (nT - S) S + min (nT - 5 * S) S,
     min (nT - 2 * S) S + min (nT - 6 * S) S, min (nT - 3 * S) S + min (nT - 7 * S) S]"
  by (simp add: cntSockets_def socket_visits_list cnt_loop_Cons mult_2 flip: mult_2 del: cnt_loop.simps(2))

lemma less_4: "s < SOCKETS_NUM \<Longrightarrow> s = 0 \<or> s = 1 \<or> s = 2 \<or> s = 3"
  by (auto simp: SOCKETS_NUM_def)

lemma cntSockets_blocks:
  assumes "K = S * C" "N = nT * C" "s < SOCKETS_NUM"
  shows "cntSockets S nT ! s * C = min (N - s * K) K + min (N - (s + 4) * K) K"
proof -
  have "cntSockets S nT ! s = min (nT - s * S) S + min (nT - (s + 4) * S) S"
    using less_4 [OF assms(3)] by (auto simp: cntSockets_list)
  then show ?thesis
    by (simp only: assms(1,2) add_mult_distrib nat_mult_min_left diff_mult_distrib mult.assoc)
qed

lemma socket_loop_offset:
  "m \<le> k \<Longrightarrow> socket_loop n (i # is) (k - m) = (if k < m + n then i else socket_loop n is (k - (m + n)))"
  by auto

lemma socket_loop_blocks:
  "socket_loop n socket_visits k =
     (if k < n then 0 else if k < 2 * n then 1 else if k < 3 * n then 2 else if k < 4 * n then 3
      else if k < 5 * n then 0 else if k < 6 * n then 1 else if k < 7 * n then 2
      else if k < 8 * n then 3 else 2 ^ 64 - 1)"
  using socket_loop_offset [of 0 k n 0 "[1, 2, 3, 0, 1, 2, 3]"]
  by (simp add: socket_visits_list socket_loop_offset del: socket_loop.simps(2) cong: if_cong)

lemma socketIdByTID4_less: "tId < 8 * S \<Longrightarrow> socketIdByTID4 S tId < SOCKETS_NUM"
  by (simp add: socketIdByTID4_def socket_loop_blocks SOCKETS_NUM_def)

lemma block_index_arith:
  assumes "s = 0 \<or> s = 1 \<or> s = 2 \<or> s = (3 :: nat)" "N \<le> 8 * K"
  shows "k < min (N - s * K) K + min (N - (s + 4) * K) K \<Longrightarrow>
      q = (if k < K then s * K + k else s * K + k + 3 * K) \<Longrightarrow>
      q < N \<and> (s * K \<le> q \<and> q < (s + 1) * K \<or> (s + 4) * K \<le> q \<and> q < (s + 5) * K)"
    and "q < N \<Longrightarrow> s * K \<le> q \<and> q < (s + 1) * K \<or> (s + 4) * K \<le> q \<and> q < (s + 5) * K \<Longrightarrow>
      \<exists>k < min (N - s * K) K + min (N - (s + 4) * K) K.
        q = (if k < K then s * K + k else s * K + k + 3 * K)"
proof -
  show "q < N \<and> (s * K \<le> q \<and> q < (s + 1) * K \<or> (s + 4) * K \<le> q \<and> q < (s + 5) * K)"
    if "k < min (N - s * K) K + min (N - (s + 4) * K) K"
      "q = (if k < K then s * K + k else s * K + k + 3 * K)"
    using assms that by (elim disjE) (simp_all add: min_def split: if_splits)
  show "\<exists>k < min (N - s * K) K + min (N - (s + 4) * K) K.
        q = (if k < K then s * K + k else s * K + k + 3 * K)"
    if "q < N" "s * K \<le> q \<and> q < (s + 1) * K \<or> (s + 4) * K \<le> q \<and> q < (s + 5) * K"
    using that(2)
  proof (elim disjE conjE)
    assume "s * K \<le> q" "q < (s + 1) * K"
    then obtain j where "q = s * K + j" "j < K" by (auto simp: le_iff_add)
    with that(1) show ?thesis by (intro exI [of _ j]) (auto simp: min_def)
  next
    assume "(s + 4) * K \<le> q" "q < (s + 5) * K"
    then obtain j where j: "q = (s + 4) * K + j" "j < K" by (auto simp: le_iff_add add_mult_distrib)
    with that(1) have "K + j < min (N - s * K) K + min (N - (s + 4) * K) K"
      using assms by (elim disjE) (auto simp: min_def)
    with j show ?thesis by (intro exI [of _ "K + j"]) (simp add: add_mult_distrib)
  qed
qed

lemma socket_block:
  assumes "s < SOCKETS_NUM" "q < 8 * K"
  shows "socket_loop K socket_visits q = s \<longleftrightarrow>
    (s * K \<le> q \<and> q < (s + 1) * K \<or> (s + 4) * K \<le> q \<and> q < (s + 5) * K)"
  using less_4 [OF assms(1)] assms(2) by (elim disjE) (auto simp: socket_loop_blocks)

lemma mapQID_numbers:
  assumes "s < SOCKETS_NUM" "nT \<le> 8 * S"
  shows "numbers (mapQID S C s) (cntSockets S nT ! s * C) (\<lambda>q. q < nT * C \<and> socketIdByQID4 S C q = s)"
  unfolding numbers_def
proof (intro conjI allI)
  define K N where KN: "K = S * C" "N = nT * C"
  have N: "N \<le> 8 * K" using assms(2) by (metis KN mult.assoc mult_le_mono1)
  have map: "mapQID S C s k = (if k < K then s * K + k else s * K + k + 3 * K)" for k
    by (simp add: mapQID_def KN SOCKETS_NUM_def mult.assoc)
  show "inj_on (mapQID S C s) {..<cntSockets S nT ! s * C}"
    by (auto simp: inj_on_def map split: if_splits)
  fix q
  have "q \<in> mapQID S C s ` {..<cntSockets S nT ! s * C} \<longleftrightarrow>
      (\<exists>k < min (N - s * K) K + min (N - (s + 4) * K) K. q = (if k < K then s * K + k else s * K + k + 3 * K))"
    by (auto simp: cntSockets_blocks [OF KN assms(1)] map image_iff)
  also have "\<dots> \<longleftrightarrow> q < N \<and> (s * K \<le> q \<and> q < (s + 1) * K \<or> (s + 4) * K \<le> q \<and> q < (s + 5) * K)"
    using block_index_arith [OF less_4 [OF assms(1)] N] by blast
  also have "\<dots> \<longleftrightarrow> q < nT * C \<and> socketIdByQID4 S C q = s"
    using N socket_block [OF assms(1), of q K] by (auto simp: socketIdByQID4_def simp flip: KN)
  finally show "(q \<in> mapQID S C s ` {..<cntSockets S nT ! s * C}) =
      (q < nT * C \<and> socketIdByQID4 S C q = s)" .
qed

definition weight4 :: "nat \<Rightarrow> nat \<Rightarrow> nat \<Rightarrow> nat" where
  "weight4 L own s =
     (if s = own then LOCAL_WEIGHT L
      else if s = (own + 2) mod SOCKETS_NUM then DIAG_WEIGHT else NEIGH_WEIGHT)"

lemma cntSockets_sum:
  assumes "nT \<le> 8 * S"
  shows "cntSockets S nT ! 0 + cntSockets S nT ! 1 + cntSockets S nT ! 2 + cntSockets S nT ! 3 = nT"
proof -
  have step: "j = k + 1 \<Longrightarrow> min (nT - k * S) S + (nT - j * S) = nT - k * S" for j k
    by (simp add: min_def)
  show ?thesis
    using step [of 1 0] step [of 2 1] step [of 3 2] step [of 4 3] step [of 5 4] step [of 6 5]
      step [of 7 6] step [of 8 7] assms
    by (simp add: cntSockets_list)
qed

text \<open>The slots are four consecutive segments: own socket, its neighbours, the diagonal one.\<close>

lemma pick4_segments:
  fixes S C L nT tId :: nat
  defines "cnt \<equiv> cntSockets S nT" and "s \<equiv> socketIdByTID4 S tId"
  defines "s1 \<equiv> (s + 1) mod SOCKETS_NUM" and "s2 \<equiv> (s + SOCKETS_NUM - 1) mod SOCKETS_NUM"
    and "s3 \<equiv> (s + 2) mod SOCKETS_NUM"
  defines "n0 \<equiv> cnt ! s * C * LOCAL_WEIGHT L" and "n1 \<equiv> cnt ! s1 * C * NEIGH_WEIGHT"
    and "n2 \<equiv> cnt ! s2 * C * NEIGH_WEIGHT" and "n3 \<equiv> cnt ! s3 * C * DIAG_WEIGHT"
  assumes nT: "nT \<le> 8 * S" and tId: "tId < 8 * S"
  shows "slots4 S C L nT tId = n0 + (n1 + (n2 + n3))"
    and "r < n0 \<Longrightarrow> pick4 S C L nT tId r = mapQID S C s (r div LOCAL_WEIGHT L)"
    and "r < n1 \<Longrightarrow> pick4 S C L nT tId (r + n0) = mapQID S C s1 (r div NEIGH_WEIGHT)"
    and "r < n2 \<Longrightarrow> pick4 S C L nT tId (r + n1 + n0) = mapQID S C s2 (r div NEIGH_WEIGHT)"
    and "pick4 S C L nT tId (r + n2 + n1 + n0) = mapQID S C s3 (r div DIAG_WEIGHT)"
proof -
  have "s < SOCKETS_NUM" using socketIdByTID4_less [OF tId] by (simp add: s_def)
  then have "cnt ! s + (cnt ! s1 + cnt ! s2) + cnt ! s3 = nT"
  proof -
    obtain a b c d where list: "cntSockets S nT = [a, b, c, d]" using cntSockets_list by blast
    show ?thesis
      using cntSockets_sum [OF nT] less_4 [OF \<open>s < SOCKETS_NUM\<close>]
      unfolding cnt_def s1_def s2_def s3_def SOCKETS_NUM_def list by (elim disjE) simp_all
  qed
  then have diag: "nT - cnt ! s - (cnt ! s1 + cnt ! s2) = cnt ! s3" by simp
  have "slots4 S C L nT tId = cnt ! s * C * LOCAL_WEIGHT L + (cnt ! s1 + cnt ! s2) * C * NEIGH_WEIGHT +
      DIAG_WEIGHT * C * (nT - cnt ! s - (cnt ! s1 + cnt ! s2))"
    by (simp only: slots4_def Let_def cnt_def s_def s1_def s2_def)
  then show "slots4 S C L nT tId = n0 + (n1 + (n2 + n3))"
    unfolding diag by (simp add: n0_def n1_def n2_def n3_def algebra_simps)
  have m: "cntSockets S nT ! t * w * C = cntSockets S nT ! t * C * w" for t w by (simp add: mult.commute mult.left_commute)
  have pick: "pick4 S C L nT tId r =
      (if r < n0 then mapQID S C s (r div LOCAL_WEIGHT L)
       else if r - n0 < n1 then mapQID S C s1 ((r - n0) div NEIGH_WEIGHT)
       else if r - n0 - n1 < n2 then mapQID S C s2 ((r - n0 - n1) div NEIGH_WEIGHT)
       else mapQID S C s3 ((r - n0 - n1 - n2) div DIAG_WEIGHT))" for r
    by (simp only: pick4_def Let_def m n0_def n1_def n2_def cnt_def s_def s1_def s2_def s3_def)
  show "r < n0 \<Longrightarrow> pick4 S C L nT tId r = mapQID S C s (r div LOCAL_WEIGHT L)"
    "r < n1 \<Longrightarrow> pick4 S C L nT tId (r + n0) = mapQID S C s1 (r div NEIGH_WEIGHT)"
    "r < n2 \<Longrightarrow> pick4 S C L nT tId (r + n1 + n0) = mapQID S C s2 (r div NEIGH_WEIGHT)"
    "pick4 S C L nT tId (r + n2 + n1 + n0) = mapQID S C s3 (r div DIAG_WEIGHT)"
    by (simp_all add: pick)
qed

lemma slots4_card:
  assumes "0 < L" "nT \<le> 8 * S" "tId < 8 * S"
  shows "card {r. r < slots4 S C L nT tId \<and> pick4 S C L nT tId r = q} =
    (if q < nT * C then weight4 L (socketIdByTID4 S tId) (socketIdByQID4 S C q) else 0)"
proof -
  let ?s = "socketIdByTID4 S tId" and ?p = "pick4 S C L nT tId"
  let ?s1 = "(?s + 1) mod SOCKETS_NUM" and ?s2 = "(?s + SOCKETS_NUM - 1) mod SOCKETS_NUM"
  let ?s3 = "(?s + 2) mod SOCKETS_NUM"
  define n0 n1 n2 n3 where n: "n0 = cntSockets S nT ! ?s * C * LOCAL_WEIGHT L"
    "n1 = cntSockets S nT ! ?s1 * C * NEIGH_WEIGHT" "n2 = cntSockets S nT ! ?s2 * C * NEIGH_WEIGHT"
    "n3 = cntSockets S nT ! ?s3 * C * DIAG_WEIGHT"
  note seg = pick4_segments [OF assms(2,3), where C = C and L = L, folded n]
  note lt = socketIdByTID4_less [OF assms(3)]
  have c: "card {r. r < cntSockets S nT ! t * C * w \<and> mapQID S C t (r div w) = q} =
      (if q < nT * C \<and> socketIdByQID4 S C q = t then w else 0)" if "t < SOCKETS_NUM" "0 < w" for t w
    using numbers_card [OF mapQID_numbers [OF that(1) assms(2)] that(2)] .
  have less: "?s1 < SOCKETS_NUM" "?s2 < SOCKETS_NUM" "?s3 < SOCKETS_NUM" by (simp_all add: SOCKETS_NUM_def)
  have w: "0 < LOCAL_WEIGHT L" "0 < NEIGH_WEIGHT" "0 < DIAG_WEIGHT"
    using assms(1) by (simp_all add: LOCAL_WEIGHT_def NEIGH_WEIGHT_def DIAG_WEIGHT_def)
  have "card {r. r < slots4 S C L nT tId \<and> ?p r = q} =
      card {r. r < n0 \<and> mapQID S C ?s (r div LOCAL_WEIGHT L) = q} +
      (card {r. r < n1 \<and> mapQID S C ?s1 (r div NEIGH_WEIGHT) = q} +
      (card {r. r < n2 \<and> mapQID S C ?s2 (r div NEIGH_WEIGHT) = q} +
       card {r. r < n3 \<and> mapQID S C ?s3 (r div DIAG_WEIGHT) = q}))"
    unfolding seg(1) card_split using seg(2-) by (simp add: conj_commute cong: conj_cong)
  also have "\<dots> = (if q < nT * C then weight4 L ?s (socketIdByQID4 S C q) else 0)"
  proof (cases "q < nT * C")
    case True
    have "socketIdByQID4 S C q < SOCKETS_NUM"
      using less_le_trans [OF True mult_le_mono1 [OF assms(2)], unfolded mult.assoc]
      by (simp add: socketIdByQID4_def socket_loop_blocks SOCKETS_NUM_def)
    from less_4 [OF this] less_4 [OF lt] show ?thesis
      unfolding n c [OF lt w(1)] c [OF less(1) w(2)] c [OF less(2) w(2)] c [OF less(3) w(3)]
      using True by (elim disjE) (simp_all add: weight4_def SOCKETS_NUM_def)
  next
    case False
    then show ?thesis
      unfolding n c [OF lt w(1)] c [OF less(1) w(2)] c [OF less(2) w(2)] c [OF less(3) w(3)] by simp
  qed
  finally show ?thesis .
qed

section \<open>The draws stay in range\<close>

lemma pick_in_range:
  fixes m :: nat
  assumes "\<And>q. card {r. r < m \<and> pick r = q} = (if q < N then w q else (0 :: nat))" and "r < m"
  shows "pick r < N"
proof (rule ccontr)
  assume "\<not> pick r < N"
  then have "card {r'. r' < m \<and> pick r' = pick r} = 0" by (simp add: assms(1))
  moreover have "finite {r'. r' < m \<and> pick r' = pick r}"
    by (rule finite_subset [of _ "{..<m}"]) auto
  moreover have "r \<in> {r'. r' < m \<and> pick r' = pick r}" using assms(2) by simp
  ultimately show False by (auto simp: card_eq_0_iff)
qed

lemma slots_positive:
  assumes "0 < C" "0 < L" "0 < nT"
  shows "0 < slots2 S C L nT tId" and "nT \<le> 8 * S \<Longrightarrow> tId < 8 * S \<Longrightarrow> 0 < slots4 S C L nT tId"
proof -
  have 0: "0 < nT * C" using assms by simp
  have w: "card {r. r < slots2 S C L nT tId \<and> pick2 S C L nT tId r = 0} > 0"
    using slots2_card [OF assms(2), of S C nT tId 0] 0 assms(2) by (simp add: OTHER_W_def)
  show "0 < slots2 S C L nT tId"
    by (rule ccontr) (use w in simp)
  assume s: "nT \<le> 8 * S" "tId < 8 * S"
  have w: "card {r. r < slots4 S C L nT tId \<and> pick4 S C L nT tId r = 0} > 0"
    using slots4_card [OF assms(2) s, of C 0] 0 assms(2)
    by (simp add: weight4_def LOCAL_WEIGHT_def DIAG_WEIGHT_def NEIGH_WEIGHT_def)
  show "0 < slots4 S C L nT tId"
    by (rule ccontr) (use w in simp)
qed

lemma rand_heap2_below:
  assumes "0 < C" "0 < L" "0 < nT"
  shows "draws_below (rand_heap2 S C L nT tId) (C * nT)"
  using pick_in_range [OF slots2_card [OF assms(2)]] slots_positive(1) [OF assms] rand_mod_less
  by (simp add: draws_below_def rand_heap2_def mult.commute [of C] split: prod.splits) (metis fst_conv)

lemma rand_heap4_below:
  assumes "0 < C" "0 < L" "0 < nT" "nT \<le> 8 * S" "tId < 8 * S"
  shows "draws_below (rand_heap4 S C L nT tId) (C * nT)"
  using pick_in_range [OF slots4_card [OF assms(2,4,5)]] slots_positive(2) [OF assms] rand_mod_less
  by (simp add: draws_below_def rand_heap4_def mult.commute [of C] split: prod.splits) (metis fst_conv)

section \<open>A configuration\<close>

text \<open>
  The compile-time constants of \<open>NUMA.h\<close> and the members of the scheduler it reads, and the
  function of the file they select.
\<close>

record numa_cfg =
  cSockets4 :: bool
  cS :: nat
  cC :: nat
  cL :: nat
  cT :: nat

definition numa_nQ :: "numa_cfg \<Rightarrow> nat" where
  "numa_nQ c = cC c * cT c"

definition numa_rand_heap :: "numa_cfg \<Rightarrow> nat \<Rightarrow> u32 \<Rightarrow> nat \<times> u32" where
  "numa_rand_heap c tId =
     (if cSockets4 c then rand_heap4 (cS c) (cC c) (cL c) (cT c) tId
      else rand_heap2 (cS c) (cC c) (cL c) (cT c) tId)"

definition numa_rand_heap_with_local :: "numa_cfg \<Rightarrow> nat \<Rightarrow> u32 \<Rightarrow> nat \<times> u32" where
  "numa_rand_heap_with_local c tId =
     (if cSockets4 c then rand_heap_with_local4 (cS c) (cC c) (cL c) (cT c) tId
      else rand_heap_with_local2 (cS c) (cC c) (cL c) (cT c) tId)"

definition socketIdByQID :: "numa_cfg \<Rightarrow> nat \<Rightarrow> nat" where
  "socketIdByQID c = (if cSockets4 c then socketIdByQID4 (cS c) (cC c) else socketIdByQID2 (cS c) (cC c))"

definition socketIdByTID :: "numa_cfg \<Rightarrow> nat \<Rightarrow> nat" where
  "socketIdByTID c = (if cSockets4 c then socketIdByTID4 (cS c) else socketIdByTID2 (cS c))"

text \<open>What the constructors of the NUMA schedulers rely on.\<close>

definition numa_ok :: "numa_cfg \<Rightarrow> nat \<Rightarrow> bool" where
  "numa_ok c tId \<longleftrightarrow> 0 < cC c \<and> 0 < cL c \<and> 0 < cT c \<and>
     (cSockets4 c \<longrightarrow> cT c \<le> 8 * cS c \<and> tId < 8 * cS c)"

lemma numa_below: "numa_ok c tId \<Longrightarrow> draws_below (numa_rand_heap c tId) (numa_nQ c)"
  by (simp add: numa_ok_def numa_nQ_def numa_rand_heap_def rand_heap2_below rand_heap4_below)

lemma numa_keeps: "keeps_rng (numa_rand_heap c tId)"
  by (auto simp: keeps_rng_def numa_rand_heap_def rand_heap4_def rand_heap2_def split: prod.splits)
    (metis rand_mod_snd random_nonzero snd_conv)+

lemma with_local_le:
  fixes N :: nat
  assumes "\<And>r. r < m \<Longrightarrow> pick r < N"
  shows "fst (case rand_mod (m + 1) x of (r, x') \<Rightarrow> if r + 1 = m + 1 then (N, x') else (pick r, x')) < N + 1"
proof -
  obtain r x' where r: "rand_mod (m + 1) x = (r, x')" by fastforce
  then have "r < m + 1" using rand_mod_less [of "m + 1" x] by simp
  with assms [of r] r show ?thesis by (auto simp: less_Suc_eq)
qed

lemma numa_with_local_below:
  assumes "numa_ok c tId"
  shows "draws_below (numa_rand_heap_with_local c tId) (numa_nQ c + 1)"
proof -
  have "fst (rand_heap_with_local4 (cS c) (cC c) (cL c) (cT c) tId x) < numa_nQ c + 1" if "cSockets4 c" for x
    using pick_in_range [OF slots4_card [of "cL c" "cT c" "cS c" tId "cC c"]] assms that
    unfolding rand_heap_with_local4_def Let_def numa_nQ_def [symmetric]
    by (intro with_local_le) (simp add: numa_ok_def numa_nQ_def mult.commute)
  moreover have "fst (rand_heap_with_local2 (cS c) (cC c) (cL c) (cT c) tId x) < numa_nQ c + 1" for x
    using pick_in_range [OF slots2_card [of "cL c" "cS c" "cC c" "cT c" tId]] assms
    unfolding rand_heap_with_local2_def Let_def numa_nQ_def [symmetric]
    by (intro with_local_le) (simp add: numa_ok_def numa_nQ_def mult.commute)
  ultimately show ?thesis by (simp add: draws_below_def numa_rand_heap_with_local_def)
qed

section \<open>Properties\<close>

text \<open>
  With two sockets, the draw of a thread ranges over exactly the queues below \<open>nQ\<close>: each
  queue of its own socket has \<open>LOCAL_NUMA_W\<close> of the slots the random number is reduced
  to, each queue of the other socket one.
\<close>

theorem numa2_weights:
  assumes "0 < C" "0 < L" "0 < nT"
  shows "card {r. r < slots2 S C L nT tId \<and> pick2 S C L nT tId r = q} =
      (if q < C * nT then if socketIdByQID2 S C q = socketIdByTID2 S tId then L else OTHER_W else 0) \<and>
    fst (rand_heap2 S C L nT tId x) < C * nT"
  using slots2_card [OF assms(2), of S C nT tId q] rand_heap2_below [OF assms, of S tId]
  by (simp add: draws_below_def mult.commute)

theorem numa2_weights_witness:
  "card {r. r < slots2 2 2 4 6 1 \<and> pick2 2 2 4 6 1 r = 9} = 4 \<and>
   card {r. r < slots2 2 2 4 6 1 \<and> pick2 2 2 4 6 1 r = 5} = 1 \<and>
   fst (rand_heap2 2 2 4 6 1 7) < 12"
  using numa2_weights [of 2 4 6 2 1 9 7] numa2_weights [of 2 4 6 2 1 5 7]
  by (simp add: socketIdByQID2_def socketIdByTID2_def is1Node_def OTHER_W_def)

text \<open>
  C10: With four sockets, the draw of a thread ranges over exactly the queues below \<open>nQ\<close>:
  each queue of its own socket has \<open>2 * LOCAL_NUMA_W\<close> slots, each queue of a neighbouring
  socket two, each queue of the diagonal socket one.
\<close>

theorem numa4_weights:
  assumes "0 < C" "0 < L" "0 < nT" "nT \<le> 8 * S" "tId < 8 * S"
  shows "card {r. r < slots4 S C L nT tId \<and> pick4 S C L nT tId r = q} =
      (if q < C * nT then weight4 L (socketIdByTID4 S tId) (socketIdByQID4 S C q) else 0) \<and>
    fst (rand_heap4 S C L nT tId x) < C * nT"
  using slots4_card [OF assms(2,4,5), of C q] rand_heap4_below [OF assms]
  by (simp add: draws_below_def mult.commute)

theorem numa4_weights_witness:
  "card {r. r < slots4 2 2 3 9 4 \<and> pick4 2 2 3 9 4 r = 8} = 6 \<and>
   card {r. r < slots4 2 2 3 9 4 \<and> pick4 2 2 3 9 4 r = 16} = 1 \<and>
   card {r. r < slots4 2 2 3 9 4 \<and> pick4 2 2 3 9 4 r = 4} = 2 \<and>
   fst (rand_heap4 2 2 3 9 4 7) < 18"
  using numa4_weights [of 2 3 9 2 4 8 7] numa4_weights [of 2 3 9 2 4 16 7]
    numa4_weights [of 2 3 9 2 4 4 7]
  by (simp add: socketIdByQID4_def socketIdByTID4_def socket_loop_blocks weight4_def
      LOCAL_WEIGHT_def DIAG_WEIGHT_def NEIGH_WEIGHT_def SOCKETS_NUM_def)

text \<open>The queues \<open>tId * C + j\<close> that belong to a thread are on the socket of the thread.\<close>

lemma thread_queues_socket:
  assumes "j < C"
  shows "socketIdByQID2 S C (tId * C + j) = socketIdByTID2 S tId"
    and "tId < 8 * S \<Longrightarrow> socketIdByQID4 S C (tId * C + j) = socketIdByTID4 S tId"
proof -
  have *: "tId * C + j < k * S * C \<longleftrightarrow> tId < k * S" for k
  proof
    assume "tId * C + j < k * S * C"
    then have "tId * C < k * S * C" by linarith
    then show "tId < k * S" by (metis mult_less_cancel2)
  next
    assume "tId < k * S"
    then have "Suc tId * C \<le> k * S * C" by (intro mult_le_mono1) simp
    with assms show "tId * C + j < k * S * C" by simp
  qed
  note blocks = * [of 1, simplified] * [of 2] * [of 3] * [of 4] * [of 5] * [of 6] * [of 7] * [of 8]
  show "socketIdByQID2 S C (tId * C + j) = socketIdByTID2 S tId"
    by (simp add: socketIdByQID2_def socketIdByTID2_def is1Node_def blocks)
  show "socketIdByQID4 S C (tId * C + j) = socketIdByTID4 S tId" if "tId < 8 * S"
    by (simp add: socketIdByQID4_def socketIdByTID4_def socket_loop_blocks blocks flip: mult.assoc)
qed

end
