(* ===== verification/MQProbProb.thy ===== *)
theory MQProbProb
  imports NUMA
begin

text \<open>
  \<open>MultiQueueProbProb\<close> and \<open>MultiQueueProbProbNuma\<close> (\<open>WorkList/MQOptimized\<close>): \<open>push\<close> and
  \<open>pop\<close> stay on one queue and leave it with probability \<open>1 / ChangeQ\<close>. The state is the array
  of heaps and the calling thread's local variables. The NUMA variant differs in the draw
  and in a last step that redraws \<open>local_q\<close> when it is on another socket: the parameters
  \<open>rh\<close> and \<open>relocal\<close>.
\<close>

section \<open>The operations\<close>

text \<open>The constructor: \<open>nQ\<close> heaps that hold nothing, with the dummy as minimum.\<close>

definition MultiQueueProbProb_init :: "('a, 'h) heap_ops \<Rightarrow> nat \<Rightarrow> nat \<Rightarrow> 'h HeapWithLock list" where
  "MultiQueueProbProb_init B C nT = replicate (C * nT) (HeapWithLock_init B)"

text \<open>\<open>extract_min\<close> of a locked heap; \<open>None\<close> only where the code's behaviour is undefined.\<close>

definition ProbProb_extract_min ::
    "('a, 'h) heap_ops \<Rightarrow> 'h HeapWithLock \<Rightarrow> 'a option \<times> 'h HeapWithLock" where
  "ProbProb_extract_min B H =
     (case HeapWithLock_extractMin B H of
        None \<Rightarrow> (None, H)
      | Some (result, H1) \<Rightarrow> (Some result, unlock (updateMin B H1)))"

definition prob_push ::
    "('a, 'h) heap_ops \<Rightarrow> (u32 \<Rightarrow> nat \<times> u32) \<Rightarrow> (nat \<Rightarrow> u32 \<Rightarrow> nat \<times> u32) \<Rightarrow> nat \<Rightarrow>
     'h HeapWithLock list \<Rightarrow> mq_thread \<Rightarrow> 'a list \<Rightarrow> ('h HeapWithLock list \<times> mq_thread \<times> u32) option" where
  "prob_push B rh relocal ChangeQPush hs t es =
     (if es = [] then Some (hs, t, 0)
      else
        let (local_q, x) = init_local_q rh (push_q t) (rng t) in
        case push_loop B rh ChangeQPush hs local_q x 0 es of
          None \<Rightarrow> None
        | Some (hs', local_q', x', pushNumber) \<Rightarrow>
            let (q, x'') = relocal local_q' x'
            in Some (hs', t\<lparr>rng := x'', push_q := Some q\<rparr>, pushNumber))"

text \<open>The first part of \<open>pop\<close>: one try on the local queue.\<close>

definition local_pop ::
    "('a, 'h) heap_ops \<Rightarrow> 'h HeapWithLock list \<Rightarrow> nat \<Rightarrow> 'h HeapWithLock list \<times> 'a option" where
  "local_pop B hs local_q =
     (let (r, hs1) = try_lock_at hs local_q in
      if r then
        if \<not> HeapWithLock_empty B (hs1 ! local_q) then
          let (result, H) = ProbProb_extract_min B (hs1 ! local_q) in (hs1[local_q := H], result)
        else (hs1[local_q := unlock (hs1 ! local_q)], None)
      else (hs1, None))"

definition prob_pop ::
    "('a, 'h) heap_ops \<Rightarrow> (u32 \<Rightarrow> nat \<times> u32) \<Rightarrow> (nat \<Rightarrow> u32 \<Rightarrow> nat \<times> u32) \<Rightarrow> nat \<Rightarrow> nat \<Rightarrow>
     'h HeapWithLock list \<Rightarrow> mq_thread \<Rightarrow> ('h HeapWithLock list \<times> mq_thread \<times> 'a option) option" where
  "prob_pop B rh relocal nQ ChangeQPop hs t =
     (let (local_q, x) = init_local_q rh (pop_q t) (rng t);
          (c, x0) = random x;
          change = remainder c ChangeQPop;
          (hs0, result) = (if change > 0 then local_pop B hs local_q else (hs, None))
      in case result of
           Some v \<Rightarrow> Some (hs0, t\<lparr>rng := x0, pop_q := Some local_q\<rparr>, Some v)
         | None \<Rightarrow>
             (case attempts B rh nQ ATTEMPTS hs0 x0 of
                None \<Rightarrow> None
              | Some (hs1, None, x1) \<Rightarrow>
                  let (q, x2) = relocal local_q x1
                  in Some (hs1, t\<lparr>rng := x2, pop_q := Some q\<rparr>, None)
              | Some (hs1, Some i_ind, x1) \<Rightarrow>
                  let (q, x2) = relocal i_ind x1;
                      (v, H) = ProbProb_extract_min B (hs1 ! i_ind)
                  in Some (hs1[i_ind := H], t\<lparr>rng := x2, pop_q := Some q\<rparr>, v)))"

definition stay :: "nat \<Rightarrow> u32 \<Rightarrow> nat \<times> u32" where
  "stay q x = (q, x)"

text \<open>\<open>if (socketIdByQID(local_q) != socketIdByTID(tId)) local_q = rand_heap();\<close>\<close>

definition relocalNuma :: "numa_cfg \<Rightarrow> nat \<Rightarrow> nat \<Rightarrow> u32 \<Rightarrow> nat \<times> u32" where
  "relocalNuma c tId q x =
     (if socketIdByQID c q \<noteq> socketIdByTID c tId then numa_rand_heap c tId x else (q, x))"

definition MultiQueueProbProb_push where
  "MultiQueueProbProb_push B nQ = prob_push B (rand_heap nQ) stay"

definition MultiQueueProbProb_pop where
  "MultiQueueProbProb_pop B nQ = prob_pop B (rand_heap nQ) stay nQ"

definition MultiQueueProbProbNuma_push where
  "MultiQueueProbProbNuma_push B c tId = prob_push B (numa_rand_heap c tId) (relocalNuma c tId)"

definition MultiQueueProbProbNuma_pop where
  "MultiQueueProbProbNuma_pop B c tId =
     prob_pop B (numa_rand_heap c tId) (relocalNuma c tId) (numa_nQ c)"

section \<open>What they do\<close>

definition keeps_range :: "(nat \<Rightarrow> u32 \<Rightarrow> nat \<times> u32) \<Rightarrow> nat \<Rightarrow> bool" where
  "keeps_range relocal N \<longleftrightarrow> (\<forall>q x. q < N \<longrightarrow> fst (relocal q x) < N)"

lemma keeps_rangeD: "keeps_range relocal N \<Longrightarrow> relocal q x = (q', x') \<Longrightarrow> q < N \<Longrightarrow> q' < N"
  by (metis keeps_range_def fst_conv)

lemma stay_keeps: "keeps_range stay N"
  by (simp add: keeps_range_def stay_def)

lemma relocalNuma_keeps: "numa_ok c tId \<Longrightarrow> keeps_range (relocalNuma c tId) (numa_nQ c)"
  using numa_below by (auto simp: keeps_range_def relocalNuma_def draws_below_def)

text \<open>The thread's \<open>local_q\<close>s, once set, name heaps that exist.\<close>

definition thread_ok :: "nat \<Rightarrow> mq_thread \<Rightarrow> bool" where
  "thread_ok N t \<longleftrightarrow> pred_option (\<lambda>i. i < N) (push_q t) \<and> pred_option (\<lambda>i. i < N) (pop_q t)"

text \<open>
  \<open>takes_min\<close>: the task \<open>x\<close> is a minimum of heap \<open>k\<close>; the other heaps do not change, and the
  heap loses just that task.
\<close>

definition takes_min ::
    "('a \<Rightarrow> 'a \<Rightarrow> bool) \<Rightarrow> ('h \<Rightarrow> 'a multiset) \<Rightarrow> 'h HeapWithLock list \<Rightarrow> 'h HeapWithLock list \<Rightarrow>
     nat \<Rightarrow> 'a \<Rightarrow> bool" where
  "takes_min cmp hbag hs hs' k x \<longleftrightarrow>
     k < length hs \<and> \<not> lck (hs ! k) \<and> (\<forall>y \<in># hbag (bheap (hs ! k)). \<not> cmp x y) \<and>
     hbag (bheap (hs ! k)) = add_mset x (hbag (bheap (hs' ! k))) \<and>
     (\<forall>i < length hs. i \<noteq> k \<longrightarrow> hs' ! i = hs ! i)"

lemma takes_min_bag:
  assumes "takes_min cmp hbag hs hs' k x" "length hs' = length hs"
  shows "mq_bag hbag hs = add_mset x (mq_bag hbag hs')"
proof -
  have "hs' = hs[k := hs' ! k]"
    using assms by (intro nth_equalityI) (auto simp: takes_min_def nth_list_update)
  then have "mq_bag hbag hs' = mq_bag hbag (hs[k := hs' ! k])" by simp
  moreover have "mq_bag hbag hs = mq_bag hbag (hs[k := hs' ! k]) + {#x#}"
    unfolding mq_bag_def using assms by (intro bags_update_sub) (auto simp: takes_min_def)
  ultimately show ?thesis by simp
qed

context task_heap
begin

lemma extract_min_section:
  assumes "mq_ok B hinv hbag hs" "k < length hs" "\<not> lck (hs ! k)"
    and "\<not> HeapWithLock_empty B (hs ! k)"
    and "ProbProb_extract_min B ((hs ! k)\<lparr>lck := True\<rparr>) = (v, H)"
  shows "\<exists>x. v = Some x \<and> takes_min cmp hbag hs (hs[k := H]) k x" "mq_ok B hinv hbag (hs[k := H])"
    "others_kept hs (hs[k := H])"
proof -
  let ?L = "(hs ! k)\<lparr>lck := True\<rparr>"
  have inv: "hinv (bheap ?L)" using mq_ok_nth [OF assms(1,2)] by simp
  have "hbag (bheap ?L) \<noteq> {#}" using assms(4) empty_iff [of "hs ! k"] inv by simp
  then obtain x H1 where ex: "HeapWithLock_extractMin B ?L = Some (x, H1)"
    using extractMin_None [OF inv] by fastforce
  note e = extractMin_Some [OF inv ex]
  have v: "v = Some x" "H = unlock (updateMin B H1)"
    using assms(5) ex by (simp_all add: ProbProb_extract_min_def)
  have "min_cache B (hbag (bheap H)) (hmin H)" using updateMin_cache [OF e(1)] by (simp add: v)
  note sec = critical_section [OF assms(1-3) _ _ this]
  show "mq_ok B hinv hbag (hs[k := H])" "others_kept hs (hs[k := H])"
    using sec e(1) by (simp_all add: v)
  show "\<exists>x. v = Some x \<and> takes_min cmp hbag hs (hs[k := H]) k x"
    using e assms(2,3) by (simp add: v takes_min_def)
qed

lemma local_pop_cases:
  assumes "mq_ok B hinv hbag hs" "q < length hs" "local_pop B hs q = (hs', r)"
  shows "case r of None \<Rightarrow> hs' = hs
    | Some x \<Rightarrow> mq_ok B hinv hbag hs' \<and> others_kept hs hs' \<and> takes_min cmp hbag hs hs' q x"
proof -
  obtain b hs1 where t: "try_lock_at hs q = (b, hs1)" by fastforce
  show ?thesis
  proof (cases "b \<and> \<not> HeapWithLock_empty B (hs ! q)")
    case True
    with t have l: "\<not> lck (hs ! q)" "hs1 = locked_at hs q"
      by (auto simp: try_lock_at_cases split: if_splits)
    obtain v H where e: "ProbProb_extract_min B ((hs ! q)\<lparr>lck := True\<rparr>) = (v, H)" by fastforce
    have "hs' = hs[q := H]" "r = v"
      using assms(2,3) t True l e by (auto simp: local_pop_def)
    with extract_min_section [OF assms(1,2) l(1) _ e] True show ?thesis by auto
  next
    case False
    with assms(2,3) t show ?thesis
      by (auto simp: local_pop_def try_lock_at_cases split: if_splits)
  qed
qed

lemma attempts_pop:
  assumes "mq_ok B hinv hbag hs" "draws_below rh (length hs)"
    and "attempts B rh nQ ATTEMPTS hs x = Some (hs1, r, x1)"
  shows "r = None \<Longrightarrow> hs1 = hs \<and> looks_empty (length hs) min_at hs nQ"
    and "r = Some k \<Longrightarrow> ProbProb_extract_min B (hs1 ! k) = (v, H) \<Longrightarrow>
      k < length hs \<and> two_choice (length hs) min_at hs nQ k \<and>
      mq_ok B hinv hbag (hs1[k := H]) \<and> others_kept hs (hs1[k := H]) \<and>
      (\<exists>x. v = Some x \<and> takes_min cmp hbag hs (hs1[k := H]) k x)"
proof -
  note a = attempts_Some [OF assms(3,2)]
  show "hs1 = hs \<and> looks_empty (length hs) min_at hs nQ" if "r = None"
  proof -
    from a that obtain k where k: "hs1 = hs" "two_choice (length hs) min_at hs nQ k"
      "\<not> lck (hs ! k)" "HeapWithLock_empty B (hs ! k)" by (auto simp: ATTEMPTS_def)
    note lt = two_choice_less [OF k(2)]
    have d: "min_at hs k = dummy"
      using assms(1) lt k(3,4) mq_ok_nth [OF assms(1) lt] empty_iff [of "hs ! k"]
      by (auto simp: mq_ok_def hl_ok_def min_cache_def min_at_def getMin_def)
    show ?thesis using k(1) two_choice_dummy [OF k(2) d] by simp
  qed
  show "k < length hs \<and> two_choice (length hs) min_at hs nQ k \<and>
      mq_ok B hinv hbag (hs1[k := H]) \<and> others_kept hs (hs1[k := H]) \<and>
      (\<exists>x. v = Some x \<and> takes_min cmp hbag hs (hs1[k := H]) k x)"
    if "r = Some k" and e: "ProbProb_extract_min B (hs1 ! k) = (v, H)"
  proof -
    from a that have k: "two_choice (length hs) min_at hs nQ k" "\<not> lck (hs ! k)"
      "hs1 = locked_at hs k" "\<not> HeapWithLock_empty B (hs ! k)" by auto
    note lt = two_choice_less [OF k(1)]
    have "ProbProb_extract_min B ((hs ! k)\<lparr>lck := True\<rparr>) = (v, H)" using e lt k(3) by simp
    from extract_min_section [OF assms(1) lt k(2,4) this] k lt show ?thesis by simp
  qed
qed

lemma prob_push_Some:
  assumes "prob_push B rh relocal c hs t es = Some (hs', t', n)"
    and "draws_below rh (length hs)" "keeps_range relocal (length hs)"
    and "mq_ok B hinv hbag hs" "thread_ok (length hs) t"
  shows "mq_ok B hinv hbag hs' \<and> others_kept hs hs' \<and> mq_bag hbag hs' = mq_bag hbag hs + mset es \<and>
    n = of_nat (length es) \<and> thread_ok (length hs) t'"
proof (cases "es = []")
  case True
  with assms show ?thesis by (simp add: prob_push_def)
next
  case False
  obtain q x where i: "init_local_q rh (push_q t) (rng t) = (q, x)" by fastforce
  from assms(1) False i obtain q1 x1 where l: "push_loop B rh c hs q x 0 es = Some (hs', q1, x1, n)"
    by (auto simp: prob_push_def split: option.splits prod.splits)
  obtain q2 x2 where r: "relocal q1 x1 = (q2, x2)" by fastforce
  have "q < length hs"
    using assms(5) init_local_q_below [OF assms(2) _ i] by (simp add: thread_ok_def)
  from push_loop_Some [OF l assms(2) this assms(4)] show ?thesis
    using assms(1,5) False i l r keeps_rangeD [OF assms(3) r]
    by (auto simp: prob_push_def thread_ok_def)
qed

lemma prob_pop_Some:
  assumes "prob_pop B rh relocal nQ c hs t = Some (hs', t', r)"
    and "draws_below rh (length hs)" "keeps_range relocal (length hs)"
    and "mq_ok B hinv hbag hs" "thread_ok (length hs) t"
  shows "mq_ok B hinv hbag hs' \<and> others_kept hs hs' \<and> thread_ok (length hs) t' \<and>
    (case r of
       None \<Rightarrow> hs' = hs \<and> looks_empty (length hs) min_at hs nQ
     | Some x \<Rightarrow> (\<exists>k. takes_min cmp hbag hs hs' k x \<and>
         (two_choice (length hs) min_at hs nQ k \<or> k = fst (init_local_q rh (pop_q t) (rng t)))))"
proof -
  obtain q x where i: "init_local_q rh (pop_q t) (rng t) = (q, x)" by fastforce
  have q: "q < length hs"
    using assms(5) init_local_q_below [OF assms(2) _ i] by (simp add: thread_ok_def)
  obtain ch x0 where rnd: "random x = (ch, x0)" by fastforce
  obtain hs0 v0 where lp: "(if remainder ch c > 0 then local_pop B hs q else (hs, None)) = (hs0, v0)"
    by fastforce
  have l: "case v0 of None \<Rightarrow> hs0 = hs
    | Some x \<Rightarrow> mq_ok B hinv hbag hs0 \<and> others_kept hs hs0 \<and> takes_min cmp hbag hs hs0 q x"
    using local_pop_cases [OF assms(4) q] lp by (auto split: if_splits)
  show ?thesis
  proof (cases v0)
    case (Some v)
    with assms(1,5) i rnd lp l q show ?thesis by (auto simp: prob_pop_def thread_ok_def)
  next
    case None
    with l have hs0: "hs0 = hs" by simp
    obtain hs1 r1 x1 where a: "attempts B rh nQ ATTEMPTS hs x0 = Some (hs1, r1, x1)"
      using assms(1) i rnd lp None hs0 by (auto simp: prob_pop_def split: option.splits)
    note ap = attempts_pop [OF assms(4,2) a]
    show ?thesis
    proof (cases r1)
      case r1: None
      obtain q2 x2 where "relocal q x1 = (q2, x2)" by fastforce
      with assms(1,4,5) i rnd lp None hs0 a r1 ap(1) [OF r1] q keeps_rangeD [OF assms(3)] show ?thesis
        by (auto simp: prob_pop_def thread_ok_def)
    next
      case r1: (Some k)
      obtain q2 x2 where rl: "relocal k x1 = (q2, x2)" by fastforce
      obtain v H where e: "ProbProb_extract_min B (hs1 ! k) = (v, H)" by fastforce
      from ap(2) [OF r1 e] obtain y where y: "v = Some y" "takes_min cmp hbag hs (hs1[k := H]) k y"
        and k: "k < length hs" "two_choice (length hs) min_at hs nQ k" "mq_ok B hinv hbag (hs1[k := H])"
          "others_kept hs (hs1[k := H])" by blast
      from assms(1) i rnd lp None hs0 a r1 rl e y(1)
      have "hs' = hs1[k := H]" "t' = t\<lparr>rng := x2, pop_q := Some q2\<rparr>" "r = Some y"
        by (simp_all add: prob_pop_def)
      with y k assms(5) keeps_rangeD [OF assms(3) rl] show ?thesis by (auto simp: thread_ok_def)
    qed
  qed
qed

end

text \<open>When the operations return: other threads' locks do not starve the draws.\<close>

lemma prob_push_returns:
  assumes "draws_work rh hs" "draws_below rh (length hs)" "keeps_rng rh" "thread_ok (length hs) t"
    and "rng t \<noteq> 0"
  shows "\<exists>r. prob_push B rh relocal c hs t es = Some r"
proof (cases "es = []")
  case True
  then show ?thesis by (simp add: prob_push_def)
next
  case False
  obtain q x where i: "init_local_q rh (push_q t) (rng t) = (q, x)" by fastforce
  have "q < length hs" "x \<noteq> 0"
    using assms(4) init_local_q_below [OF assms(2) _ i] init_local_q_keeps [OF assms(3) i assms(5)]
    by (simp_all add: thread_ok_def)
  from push_loop_returns [OF assms(1-3) this, of B c 0 es] obtain r
    where "push_loop B rh c hs q x 0 es = Some r" by blast
  with False i show ?thesis by (cases r) (auto simp: prob_push_def split: prod.splits)
qed

lemma prob_pop_returns:
  assumes "task_heap cmp B hinv hbag" "mq_ok B hinv hbag hs"
    and "pairs_work rh nQ hs" "draws_below rh (length hs)" "keeps_rng rh"
    and "thread_ok (length hs) t" "rng t \<noteq> 0"
  shows "\<exists>r. prob_pop B rh relocal nQ c hs t = Some r"
proof -
  obtain q x where i: "init_local_q rh (pop_q t) (rng t) = (q, x)" by fastforce
  have q: "q < length hs" "x \<noteq> 0"
    using assms(6) init_local_q_below [OF assms(4) _ i] init_local_q_keeps [OF assms(5) i assms(7)]
    by (simp_all add: thread_ok_def)
  obtain ch x0 where rnd: "random x = (ch, x0)" by fastforce
  then have "x0 \<noteq> 0" using random_nonzero [OF q(2)] by simp
  then obtain hs1 r1 x1 where a: "attempts B rh nQ ATTEMPTS hs x0 = Some (hs1, r1, x1)"
    using attempts_returns [OF assms(3-5)] by (metis prod_cases3)
  obtain hs0 v0 where lp: "(if remainder ch c > 0 then local_pop B hs q else (hs, None)) = (hs0, v0)"
    by fastforce
  have "hs0 = hs" if "v0 = None"
    using task_heap.local_pop_cases [OF assms(1,2) q(1)] lp that by (auto split: if_splits)
  with i rnd lp a show ?thesis
    by (cases v0; cases r1) (auto simp: prob_pop_def split: prod.splits)
qed

section \<open>Properties\<close>

text \<open>
  C4: \<open>push\<close> of \<open>MultiQueueProbProb\<close>, whenever it returns, has added exactly the given
  tasks, counted them, released every lock it took, left alone the heaps other threads hold,
  and kept the heap invariants and the cached minima right; its \<open>local_q\<close> names a heap.
\<close>

theorem MultiQueueProbProb_push_correct:
  assumes "task_heap cmp B hinv hbag" "mq_ok B hinv hbag hs" "0 < length hs" "thread_ok (length hs) t"
    and "MultiQueueProbProb_push B (length hs) c hs t es = Some (hs', t', n)"
  shows "mq_ok B hinv hbag hs' \<and> others_kept hs hs' \<and> mq_bag hbag hs' = mq_bag hbag hs + mset es \<and>
    n = of_nat (length es) \<and> thread_ok (length hs) t'"
  using task_heap.prob_push_Some [OF assms(1) _ rand_heap_below [OF assms(3)] stay_keeps assms(2,4)]
    assms(5)
  by (simp add: MultiQueueProbProb_push_def)

lemma new_thread_ok: "thread_ok N new_thread"
  by (simp add: thread_ok_def new_thread_def)

theorem MultiQueueProbProb_push_correct_witness:
  "\<exists>hs' t'. MultiQueueProbProb_push req_heap 2 8 (req_heaps [UpdateRequest 7 9]) new_thread
       [UpdateRequest 1 4, UpdateRequest 2 3] = Some (hs', t', 2) \<and>
     mq_ok req_heap req_inv req_bag hs' \<and> others_kept (req_heaps [UpdateRequest 7 9]) hs' \<and>
     mq_bag req_bag hs' = {#UpdateRequest 7 9, UpdateRequest 1 4, UpdateRequest 2 3#}"
proof -
  have "map_option (\<lambda>(hs', t', n). n) (MultiQueueProbProb_push req_heap 2 8
      (req_heaps [UpdateRequest 7 9]) new_thread [UpdateRequest 1 4, UpdateRequest 2 3]) = Some 2"
    by code_simp
  then obtain hs' t' where r: "MultiQueueProbProb_push req_heap 2 8 (req_heaps [UpdateRequest 7 9])
      new_thread [UpdateRequest 1 4, UpdateRequest 2 3] = Some (hs', t', 2)" by auto
  have "mq_ok req_heap req_inv req_bag hs' \<and> others_kept (req_heaps [UpdateRequest 7 9]) hs' \<and>
      mq_bag req_bag hs' = mset [UpdateRequest 7 9] + mset [UpdateRequest 1 4, UpdateRequest 2 3]"
    using MultiQueueProbProb_push_correct [OF req.task_heap_axioms req_heaps_ok(1) _ new_thread_ok,
        of "[UpdateRequest 7 9]" 8 "[UpdateRequest 1 4, UpdateRequest 2 3]" hs' t' 2]
      r req_heaps_ok(2,3) [of "[UpdateRequest 7 9]"]
    by simp
  with r show ?thesis by (intro exI [of _ hs'] exI [of _ t']) (simp add: add_mset_commute)
qed

text \<open>
  C3: \<open>pop\<close> of \<open>MultiQueueProbProb\<close>, whenever it returns a task, has removed one minimum of
  one heap: the local one or one whose cached minimum was no worse than that of another
  random heap. When it returns nothing, nothing changed, and two heaps (one if there is only
  one) looked empty.
\<close>

theorem MultiQueueProbProb_pop_correct:
  assumes "task_heap cmp B hinv hbag" "mq_ok B hinv hbag hs" "0 < length hs" "thread_ok (length hs) t"
    and "MultiQueueProbProb_pop B (length hs) c hs t = Some (hs', t', r)"
  shows "mq_ok B hinv hbag hs' \<and> others_kept hs hs' \<and> thread_ok (length hs) t' \<and>
    (case r of
       None \<Rightarrow> hs' = hs \<and> looks_empty (length hs) min_at hs (length hs)
     | Some x \<Rightarrow> mq_bag hbag hs = add_mset x (mq_bag hbag hs') \<and>
         (\<exists>k. takes_min cmp hbag hs hs' k x \<and>
           (two_choice (length hs) min_at hs (length hs) k \<or>
            k = fst (init_local_q (rand_heap (length hs)) (pop_q t) (rng t)))))"
  using task_heap.prob_pop_Some [OF assms(1) _ rand_heap_below [OF assms(3)] stay_keeps assms(2,4)]
    assms(5) takes_min_bag others_kept_length
  by (fastforce simp: MultiQueueProbProb_pop_def split: option.splits)

theorem MultiQueueProbProb_pop_correct_witness:
  "\<exists>hs' t'. MultiQueueProbProb_pop req_heap 2 8 (req_heaps [UpdateRequest 1 4, UpdateRequest 2 3])
       new_thread = Some (hs', t', Some (UpdateRequest 2 3)) \<and>
     mq_ok req_heap req_inv req_bag hs' \<and>
     mset [UpdateRequest 1 4, UpdateRequest 2 3] = add_mset (UpdateRequest 2 3) (mq_bag req_bag hs')"
proof -
  let ?hs = "req_heaps [UpdateRequest 1 4, UpdateRequest 2 3]"
  have "map_option (\<lambda>(hs', t', r). r) (MultiQueueProbProb_pop req_heap 2 8 ?hs new_thread) =
      Some (Some (UpdateRequest 2 3))"
    by code_simp
  then obtain hs' t' where r: "MultiQueueProbProb_pop req_heap 2 8 ?hs new_thread =
      Some (hs', t', Some (UpdateRequest 2 3))" by auto
  have "mq_ok req_heap req_inv req_bag hs' \<and> mq_bag req_bag ?hs = add_mset (UpdateRequest 2 3) (mq_bag req_bag hs')"
    using MultiQueueProbProb_pop_correct [OF req.task_heap_axioms req_heaps_ok(1) _ new_thread_ok,
        of "[UpdateRequest 1 4, UpdateRequest 2 3]" 8 hs' t' "Some (UpdateRequest 2 3)"] r req_heaps_ok(3)
    by simp
  with r req_heaps_ok(2) show ?thesis by auto
qed



text \<open>
  The NUMA variant keeps the same contract: with the weighted draw and the redraw of a
  remote \<open>local_q\<close>, \<open>push\<close> adds exactly the given tasks and \<open>pop\<close> takes one minimum of one
  heap or changes nothing.
\<close>

theorem MultiQueueProbProbNuma_correct:
  assumes "task_heap cmp B hinv hbag" "mq_ok B hinv hbag hs" "thread_ok (length hs) t"
    and "numa_ok c tId" "length hs = numa_nQ c"
  shows "(\<forall>hs' t' n. MultiQueueProbProbNuma_push B c tId d hs t es = Some (hs', t', n) \<longrightarrow>
      mq_ok B hinv hbag hs' \<and> others_kept hs hs' \<and> mq_bag hbag hs' = mq_bag hbag hs + mset es \<and>
      n = of_nat (length es) \<and> thread_ok (length hs) t') \<and>
    (\<forall>hs' t' r. MultiQueueProbProbNuma_pop B c tId d hs t = Some (hs', t', r) \<longrightarrow>
      mq_ok B hinv hbag hs' \<and> others_kept hs hs' \<and> thread_ok (length hs) t' \<and>
      (case r of None \<Rightarrow> hs' = hs \<and> looks_empty (length hs) min_at hs (length hs)
       | Some x \<Rightarrow> \<exists>k. takes_min cmp hbag hs hs' k x))"
proof (intro conjI allI impI)
  note below = numa_below [OF assms(4), folded assms(5)]
    and range = relocalNuma_keeps [OF assms(4), folded assms(5)]
  fix hs' t' n
  assume "MultiQueueProbProbNuma_push B c tId d hs t es = Some (hs', t', n)"
  then show "mq_ok B hinv hbag hs'" "others_kept hs hs'" "mq_bag hbag hs' = mq_bag hbag hs + mset es"
    "n = of_nat (length es)" "thread_ok (length hs) t'"
    using task_heap.prob_push_Some [OF assms(1) _ below range assms(2,3)]
    by (auto simp: MultiQueueProbProbNuma_push_def)
next
  note below = numa_below [OF assms(4), folded assms(5)]
    and range = relocalNuma_keeps [OF assms(4), folded assms(5)]
  fix hs' t' r
  assume "MultiQueueProbProbNuma_pop B c tId d hs t = Some (hs', t', r)"
  then have "prob_pop B (numa_rand_heap c tId) (relocalNuma c tId) (length hs) d hs t = Some (hs', t', r)"
    by (simp add: MultiQueueProbProbNuma_pop_def assms(5))
  note p = task_heap.prob_pop_Some [OF assms(1) this below range assms(2,3)]
  from p show "mq_ok B hinv hbag hs'" "others_kept hs hs'" "thread_ok (length hs) t'" by simp_all
  from p show "case r of None \<Rightarrow> hs' = hs \<and> looks_empty (length hs) min_at hs (length hs)
       | Some x \<Rightarrow> \<exists>k. takes_min cmp hbag hs hs' k x"
    by (auto split: option.splits)
qed

text \<open>Two threads on the two sockets of a machine of socket size 1, one queue each.\<close>

definition two_socket_cfg :: numa_cfg where
  "two_socket_cfg = \<lparr>cSockets4 = False, cS = 1, cC = 1, cL = 4, cT = 2\<rparr>"

theorem MultiQueueProbProbNuma_correct_witness:
  "\<exists>hs' t' hs'' t''. MultiQueueProbProbNuma_push req_heap two_socket_cfg 0 8 (req_heaps []) new_thread
       [UpdateRequest 1 4, UpdateRequest 2 3] = Some (hs', t', 2) \<and>
     mq_bag req_bag hs' = {#UpdateRequest 1 4, UpdateRequest 2 3#} \<and>
     MultiQueueProbProbNuma_pop req_heap two_socket_cfg 0 8 (req_heaps [UpdateRequest 1 4, UpdateRequest 2 3])
       (new_thread\<lparr>pop_q := Some 0\<rparr>) = Some (hs'', t'', Some (UpdateRequest 2 3)) \<and>
     mq_ok req_heap req_inv req_bag hs''"
proof -
  let ?push = "MultiQueueProbProbNuma_push req_heap two_socket_cfg 0 8 (req_heaps []) new_thread
       [UpdateRequest 1 4, UpdateRequest 2 3]"
    and ?pop = "MultiQueueProbProbNuma_pop req_heap two_socket_cfg 0 8
       (req_heaps [UpdateRequest 1 4, UpdateRequest 2 3]) (new_thread\<lparr>pop_q := Some 0\<rparr>)"
  have c: "numa_ok two_socket_cfg 0" "numa_nQ two_socket_cfg = 2"
    by (simp_all add: numa_ok_def numa_nQ_def two_socket_cfg_def)
  have "map_option (\<lambda>(hs', t', n). n) ?push = Some 2"
    "map_option (\<lambda>(hs', t', r). r) ?pop = Some (Some (UpdateRequest 2 3))" by code_simp+
  then obtain hs' t' hs'' t'' where r: "?push = Some (hs', t', 2)"
    "?pop = Some (hs'', t'', Some (UpdateRequest 2 3))" by auto
  have len: "length (req_heaps es) = numa_nQ two_socket_cfg" for es by (simp add: c(2) req_heaps_ok(3))
  have ok: "thread_ok (length (req_heaps es)) (new_thread\<lparr>pop_q := Some 0\<rparr>)" for es
    by (simp add: thread_ok_def new_thread_def req_heaps_ok(3))
  have "mq_bag req_bag hs' = mq_bag req_bag (req_heaps []) + mset [UpdateRequest 1 4, UpdateRequest 2 3]"
    using MultiQueueProbProbNuma_correct [where es = "[UpdateRequest 1 4, UpdateRequest 2 3]",
        OF req.task_heap_axioms req_heaps_ok(1) new_thread_ok c(1) len] r(1) by blast
  moreover have "mq_ok req_heap req_inv req_bag hs''"
    using MultiQueueProbProbNuma_correct [where es = "[]",
        OF req.task_heap_axioms req_heaps_ok(1) ok c(1) len] r(2) by blast
  ultimately show ?thesis using r req_heaps_ok(2) [of "[]"] by auto
qed

end
