(* ===== verification/MQProbLocal.thy ===== *)
theory MQProbLocal
  imports MQProbProb
begin

text \<open>
  \<open>MultiQueueProbLocal\<close> and \<open>MultiQueueProbLocalNuma\<close>: \<open>push\<close> as in \<open>MultiQueueProbProb\<close>;
  \<open>pop\<close> takes a batch of \<open>PopSize\<close> tasks from a heap, returns the first and keeps the others
  in the thread's buffer, reversed, so that the next one is at the back.
\<close>

section \<open>The operations\<close>

record ('a, 'h) mq_buffered =
  mq_heaps :: "'h HeapWithLock list"
  popBuffer :: "'a list list"

definition MultiQueueProbLocal_init ::
    "('a, 'h) heap_ops \<Rightarrow> nat \<Rightarrow> nat \<Rightarrow> ('a, 'h) mq_buffered" where
  "MultiQueueProbLocal_init B C nT =
     \<lparr>mq_heaps = replicate (C * nT) (HeapWithLock_init B), popBuffer = replicate nT []\<rparr>"

text \<open>\<open>PopSize - 1\<close> as a \<open>size_t\<close>.\<close>

definition size_pred :: "nat \<Rightarrow> nat" where
  "size_pred n = (if n = 0 then 2 ^ 64 - 1 else n - 1)"

text \<open>The batch loop of \<open>extract_min\<close>, with \<open>n\<close> iterations left.\<close>

fun fill_loop ::
    "('a, 'h) heap_ops \<Rightarrow> nat \<Rightarrow> 'a list \<Rightarrow> 'h HeapWithLock \<Rightarrow> 'a list \<times> 'h HeapWithLock" where
  "fill_loop B 0 buffer H = (buffer, H)"
| "fill_loop B (Suc n) buffer H =
     (if HeapWithLock_empty B H then (buffer, H)
      else case HeapWithLock_extractMin B H of
             None \<Rightarrow> (buffer, H)
           | Some (x, H') \<Rightarrow> fill_loop B n (buffer @ [x]) H')"

definition batch_extract_min ::
    "('a, 'h) heap_ops \<Rightarrow> nat \<Rightarrow> 'a list \<Rightarrow> 'h HeapWithLock \<Rightarrow> 'a option \<times> 'a list \<times> 'h HeapWithLock" where
  "batch_extract_min B PopSize buffer H =
     (case HeapWithLock_extractMin B H of
        None \<Rightarrow> (None, buffer, H)
      | Some (result, H1) \<Rightarrow>
          let (buffer1, H2) = fill_loop B (size_pred PopSize) buffer H1
          in (Some result, rev buffer1, unlock (updateMin B H2)))"

definition probLocal_pop ::
    "('a, 'h) heap_ops \<Rightarrow> (u32 \<Rightarrow> nat \<times> u32) \<Rightarrow> nat \<Rightarrow> nat \<Rightarrow> nat \<Rightarrow>
     ('a, 'h) mq_buffered \<Rightarrow> mq_thread \<Rightarrow> (('a, 'h) mq_buffered \<times> mq_thread \<times> 'a option) option" where
  "probLocal_pop B rh nQ PopSize tId s t =
     (let buffer = popBuffer s ! tId in
      if buffer \<noteq> [] then
        Some (s\<lparr>popBuffer := (popBuffer s)[tId := butlast buffer]\<rparr>, t, Some (last buffer))
      else
        case attempts B rh nQ ATTEMPTS (mq_heaps s) (rng t) of
          None \<Rightarrow> None
        | Some (hs, None, x) \<Rightarrow> Some (s\<lparr>mq_heaps := hs\<rparr>, t\<lparr>rng := x\<rparr>, None)
        | Some (hs, Some i_ind, x) \<Rightarrow>
            let (v, buffer', H) = batch_extract_min B PopSize buffer (hs ! i_ind)
            in Some (s\<lparr>mq_heaps := hs[i_ind := H], popBuffer := (popBuffer s)[tId := buffer']\<rparr>,
                     t\<lparr>rng := x\<rparr>, v))"

definition probLocal_push ::
    "('a, 'h) heap_ops \<Rightarrow> (u32 \<Rightarrow> nat \<times> u32) \<Rightarrow> (nat \<Rightarrow> u32 \<Rightarrow> nat \<times> u32) \<Rightarrow> nat \<Rightarrow>
     ('a, 'h) mq_buffered \<Rightarrow> mq_thread \<Rightarrow> 'a list \<Rightarrow> (('a, 'h) mq_buffered \<times> mq_thread \<times> u32) option" where
  "probLocal_push B rh relocal ChangeQPush s t es =
     (case prob_push B rh relocal ChangeQPush (mq_heaps s) t es of
        None \<Rightarrow> None
      | Some (hs, t', n) \<Rightarrow> Some (s\<lparr>mq_heaps := hs\<rparr>, t', n))"

definition MultiQueueProbLocal_push where
  "MultiQueueProbLocal_push B nQ = probLocal_push B (rand_heap nQ) stay"

definition MultiQueueProbLocal_pop where
  "MultiQueueProbLocal_pop B nQ = probLocal_pop B (rand_heap nQ) nQ"

definition MultiQueueProbLocalNuma_push where
  "MultiQueueProbLocalNuma_push B c tId = probLocal_push B (numa_rand_heap c tId) (relocalNuma c tId)"

definition MultiQueueProbLocalNuma_pop where
  "MultiQueueProbLocalNuma_pop B c PopSize tId = probLocal_pop B (numa_rand_heap c tId) (numa_nQ c) PopSize tId"

section \<open>Taking a batch\<close>

text \<open>
  \<open>takes_batch\<close>: \<open>xs\<close> are the \<open>length xs\<close> first tasks of heap \<open>k\<close> in priority order; the heap
  loses just them and no other heap changes.
\<close>

definition takes_batch ::
    "('a \<Rightarrow> 'a \<Rightarrow> bool) \<Rightarrow> ('h \<Rightarrow> 'a multiset) \<Rightarrow> 'h HeapWithLock list \<Rightarrow> 'h HeapWithLock list \<Rightarrow>
     nat \<Rightarrow> 'a list \<Rightarrow> bool" where
  "takes_batch cmp hbag hs hs' k xs \<longleftrightarrow>
     k < length hs \<and> \<not> lck (hs ! k) \<and> sorted_wrt (\<lambda>x y. \<not> cmp x y) xs \<and>
     (\<forall>x \<in> set xs. \<forall>y \<in># hbag (bheap (hs' ! k)). \<not> cmp x y) \<and>
     hbag (bheap (hs ! k)) = mset xs + hbag (bheap (hs' ! k)) \<and>
     (\<forall>i < length hs. i \<noteq> k \<longrightarrow> hs' ! i = hs ! i)"

lemma takes_batch_bag:
  assumes "takes_batch cmp hbag hs hs' k xs" "length hs' = length hs"
  shows "mq_bag hbag hs = mq_bag hbag hs' + mset xs"
proof -
  have "hs' = hs[k := hs' ! k]"
    using assms by (intro nth_equalityI) (auto simp: takes_batch_def nth_list_update)
  then have "mq_bag hbag hs' = mq_bag hbag (hs[k := hs' ! k])" by simp
  also have "mq_bag hbag hs = mq_bag hbag (hs[k := hs' ! k]) + mset xs"
    unfolding mq_bag_def using assms by (intro bags_update_sub) (auto simp: takes_batch_def)
  finally show ?thesis by simp
qed

context task_heap
begin

lemma fill_loop_batch:
  assumes "hinv (bheap H)" "fill_loop B n buffer H = (buffer', H')"
  shows "\<exists>xs. buffer' = buffer @ xs \<and> hinv (bheap H') \<and> hbag (bheap H) = mset xs + hbag (bheap H') \<and>
    sorted_wrt (\<lambda>x y. \<not> cmp x y) xs \<and> (\<forall>x \<in> set xs. \<forall>y \<in># hbag (bheap H'). \<not> cmp x y) \<and>
    length xs \<le> n \<and> (length xs < n \<longrightarrow> hbag (bheap H') = {#})"
  using assms
proof (induction n arbitrary: buffer H)
  case 0
  then show ?case by simp
next
  case (Suc n)
  show ?case
  proof (cases "hbag (bheap H) = {#}")
    case True
    with Suc.prems show ?thesis by (simp add: empty_iff)
  next
    case False
    then obtain x H1 where ex: "HeapWithLock_extractMin B H = Some (x, H1)"
      using extractMin_None [OF Suc.prems(1)] by fastforce
    note e = extractMin_Some [OF Suc.prems(1) ex]
    have "fill_loop B n (buffer @ [x]) H1 = (buffer', H')"
      using Suc.prems False ex by (simp add: empty_iff)
    from Suc.IH [OF e(1) this] obtain xs where xs: "buffer' = (buffer @ [x]) @ xs" "hinv (bheap H')"
      "hbag (bheap H1) = mset xs + hbag (bheap H')" "sorted_wrt (\<lambda>x y. \<not> cmp x y) xs"
      "\<forall>x \<in> set xs. \<forall>y \<in># hbag (bheap H'). \<not> cmp x y" "length xs \<le> n"
      "length xs < n \<longrightarrow> hbag (bheap H') = {#}" by blast
    then show ?thesis
      using e(2,3) by (intro exI [of _ "x # xs"]) auto
  qed
qed

lemma batch_section:
  assumes "mq_ok B hinv hbag hs" "k < length hs" "\<not> lck (hs ! k)" "\<not> HeapWithLock_empty B (hs ! k)"
    and "batch_extract_min B m [] ((hs ! k)\<lparr>lck := True\<rparr>) = (v, buffer, H)"
  shows "\<exists>x. v = Some x \<and> takes_batch cmp hbag hs (hs[k := H]) k (x # rev buffer) \<and>
      length buffer \<le> size_pred m" "mq_ok B hinv hbag (hs[k := H])" "others_kept hs (hs[k := H])"
proof -
  let ?L = "(hs ! k)\<lparr>lck := True\<rparr>"
  have inv: "hinv (bheap ?L)" using mq_ok_nth [OF assms(1,2)] by simp
  have "hbag (bheap ?L) \<noteq> {#}" using assms(4) empty_iff [of "hs ! k"] inv by simp
  then obtain x H1 where ex: "HeapWithLock_extractMin B ?L = Some (x, H1)"
    using extractMin_None [OF inv] by fastforce
  note e = extractMin_Some [OF inv ex]
  obtain b1 H2 where f: "fill_loop B (size_pred m) [] H1 = (b1, H2)" by fastforce
  have v: "v = Some x" "buffer = rev b1" "H = unlock (updateMin B H2)"
    using assms(5) ex f by (simp_all add: batch_extract_min_def)
  from fill_loop_batch [OF e(1) f] have b: "hinv (bheap H2)"
    "hbag (bheap H1) = mset b1 + hbag (bheap H2)" "sorted_wrt (\<lambda>x y. \<not> cmp x y) b1"
    "\<forall>x \<in> set b1. \<forall>y \<in># hbag (bheap H2). \<not> cmp x y" "length b1 \<le> size_pred m" by auto
  have "min_cache B (hbag (bheap H)) (hmin H)" using updateMin_cache [OF b(1)] by (simp add: v)
  note sec = critical_section [OF assms(1-3) _ _ this]
  show "mq_ok B hinv hbag (hs[k := H])" "others_kept hs (hs[k := H])"
    using sec b(1) by (simp_all add: v)
  show "\<exists>x. v = Some x \<and> takes_batch cmp hbag hs (hs[k := H]) k (x # rev buffer) \<and>
      length buffer \<le> size_pred m"
    using e b assms(2,3) by (auto simp: v takes_batch_def)
qed

lemma attempts_batch:
  assumes "mq_ok B hinv hbag hs" "draws_below rh (length hs)"
    and "attempts B rh nQ ATTEMPTS hs x = Some (hs1, Some k, x1)"
    and "batch_extract_min B m [] (hs1 ! k) = (v, buffer, H)"
  shows "k < length hs \<and> two_choice (length hs) min_at hs nQ k \<and>
    mq_ok B hinv hbag (hs1[k := H]) \<and> others_kept hs (hs1[k := H]) \<and>
    (\<exists>x. v = Some x \<and> takes_batch cmp hbag hs (hs1[k := H]) k (x # rev buffer) \<and>
      length buffer \<le> size_pred m)"
proof -
  from attempts_Some [OF assms(3,2)] have k: "two_choice (length hs) min_at hs nQ k" "\<not> lck (hs ! k)"
    "hs1 = locked_at hs k" "\<not> HeapWithLock_empty B (hs ! k)" by auto
  note lt = two_choice_less [OF k(1)]
  have "batch_extract_min B m [] ((hs ! k)\<lparr>lck := True\<rparr>) = (v, buffer, H)"
    using assms(4) lt k(3) by simp
  from batch_section [OF assms(1) lt k(2,4) this] k lt show ?thesis by simp
qed

end

section \<open>What they do\<close>

text \<open>All tasks of the structure, in the heaps and in the threads' buffers.\<close>

definition buffered_bag :: "('h \<Rightarrow> 'a multiset) \<Rightarrow> ('a, 'h) mq_buffered \<Rightarrow> 'a multiset" where
  "buffered_bag hbag s = mq_bag hbag (mq_heaps s) + bags mset (popBuffer s)"

context task_heap
begin

lemma probLocal_pop_Some:
  assumes "probLocal_pop B rh nQ m tId s t = Some (s', t', r)"
    and "draws_below rh (length (mq_heaps s))" "mq_ok B hinv hbag (mq_heaps s)"
    and "tId < length (popBuffer s)"
  shows "mq_ok B hinv hbag (mq_heaps s') \<and> others_kept (mq_heaps s) (mq_heaps s') \<and>
    push_q t' = push_q t \<and> pop_q t' = pop_q t \<and>
    (\<exists>b. popBuffer s' = (popBuffer s)[tId := b] \<and>
      (if popBuffer s ! tId \<noteq> [] then mq_heaps s' = mq_heaps s \<and> popBuffer s ! tId = b @ [the r] \<and> r \<noteq> None
       else case r of
           None \<Rightarrow> s' = s \<and> looks_empty (length (mq_heaps s)) min_at (mq_heaps s) nQ
         | Some x \<Rightarrow> \<exists>k. two_choice (length (mq_heaps s)) min_at (mq_heaps s) nQ k \<and>
             takes_batch cmp hbag (mq_heaps s) (mq_heaps s') k (x # rev b) \<and> length b \<le> size_pred m))"
proof (cases "popBuffer s ! tId \<noteq> []")
  case True
  with assms show ?thesis by (auto simp: probLocal_pop_def Let_def)
next
  case False
  then have e: "popBuffer s ! tId = []" by simp
  obtain hs1 r1 x1 where a: "attempts B rh nQ ATTEMPTS (mq_heaps s) (rng t) = Some (hs1, r1, x1)"
    using assms(1) e by (auto simp: probLocal_pop_def split: option.splits)
  show ?thesis
  proof (cases r1)
    case None
    with assms(1) a e have "s' = s\<lparr>mq_heaps := hs1\<rparr>" "t' = t\<lparr>rng := x1\<rparr>" "r = None"
      by (auto simp: probLocal_pop_def)
    with attempts_pop(1) [OF assms(3,2) a None] e assms(3)
      list_update_id [of "popBuffer s" tId, unfolded e] show ?thesis
      by (auto intro!: exI [of _ "[]"])
  next
    case (Some k)
    obtain v b H where x: "batch_extract_min B m [] (hs1 ! k) = (v, b, H)"
      by (metis prod_cases3)
    from assms(1) a e Some x have "s' = s\<lparr>mq_heaps := hs1[k := H], popBuffer := (popBuffer s)[tId := b]\<rparr>"
      "t' = t\<lparr>rng := x1\<rparr>" "r = v"
      by (auto simp: probLocal_pop_def)
    with attempts_batch [OF assms(3,2) a [unfolded Some] x] e show ?thesis
      by (auto intro!: exI [of _ b])
  qed
qed

lemma probLocal_pop_bag:
  assumes "probLocal_pop B rh nQ m tId s t = Some (s', t', Some x)"
    and "draws_below rh (length (mq_heaps s))" "mq_ok B hinv hbag (mq_heaps s)"
    and "tId < length (popBuffer s)"
  shows "buffered_bag hbag s = add_mset x (buffered_bag hbag s')"
proof -
  from probLocal_pop_Some [OF assms] obtain b where b: "popBuffer s' = (popBuffer s)[tId := b]"
    and hs: "length (mq_heaps s') = length (mq_heaps s)"
    and r: "if popBuffer s ! tId \<noteq> [] then mq_heaps s' = mq_heaps s \<and> popBuffer s ! tId = b @ [x]
      else \<exists>k. takes_batch cmp hbag (mq_heaps s) (mq_heaps s') k (x # rev b)"
    by (elim conjE exE) (rule that, auto simp: others_kept_length split: if_splits)
  note u = bags_update [OF assms(4), of mset b, folded b]
  show ?thesis
  proof (cases "popBuffer s ! tId = []")
    case False
    with r u show ?thesis by (simp add: buffered_bag_def)
  next
    case True
    with r obtain k where "takes_batch cmp hbag (mq_heaps s) (mq_heaps s') k (x # rev b)" by auto
    from takes_batch_bag [OF this hs] u True show ?thesis by (simp add: buffered_bag_def)
  qed
qed

end

section \<open>Properties\<close>

text \<open>
  \<open>pop\<close> of \<open>MultiQueueProbLocal\<close>: a task in the thread's buffer is returned from its
  back and nothing else changes; otherwise a batch of at most \<open>PopSize\<close> tasks, the first of
  one heap in order, leaves that heap: the best is returned, the buffer holds the others so
  that its back is the next best. Without a task nothing changes.
\<close>

theorem MultiQueueProbLocal_pop_correct:
  assumes "task_heap cmp B hinv hbag" "mq_ok B hinv hbag (mq_heaps s)" "0 < length (mq_heaps s)"
    and "tId < length (popBuffer s)"
    and "MultiQueueProbLocal_pop B (length (mq_heaps s)) m tId s t = Some (s', t', r)"
  shows "mq_ok B hinv hbag (mq_heaps s') \<and> others_kept (mq_heaps s) (mq_heaps s') \<and>
    (case r of
       None \<Rightarrow> s' = s \<and> popBuffer s ! tId = []
     | Some x \<Rightarrow> buffered_bag hbag s = add_mset x (buffered_bag hbag s')) \<and>
    (\<exists>b. popBuffer s' = (popBuffer s)[tId := b] \<and>
      (if popBuffer s ! tId \<noteq> [] then mq_heaps s' = mq_heaps s \<and> popBuffer s ! tId = b @ [the r]
       else \<forall>x. r = Some x \<longrightarrow> length b \<le> size_pred m \<and>
         (\<exists>k. two_choice (length (mq_heaps s)) min_at (mq_heaps s) (length (mq_heaps s)) k \<and>
           takes_batch cmp hbag (mq_heaps s) (mq_heaps s') k (x # rev b))))"
proof -
  note pop = assms(5) [unfolded MultiQueueProbLocal_pop_def]
  note below = rand_heap_below [OF assms(3)]
  note bag = task_heap.probLocal_pop_bag [OF assms(1) _ below assms(2,4)]
  have "r = Some x \<Longrightarrow> buffered_bag hbag s = add_mset x (buffered_bag hbag s')" for x
    using bag pop by blast
  with task_heap.probLocal_pop_Some [OF assms(1) pop below assms(2,4)] show ?thesis
    by (cases r) (auto split: if_splits)
qed

text \<open>A state for the witnesses: the heaps of \<open>req_heaps\<close> and empty buffers of two threads.\<close>

definition req_buffered :: "nat update_request list \<Rightarrow> (nat update_request, nat update_request DAryHeap) mq_buffered" where
  "req_buffered es = \<lparr>mq_heaps = req_heaps es, popBuffer = [[], []]\<rparr>"

theorem MultiQueueProbLocal_pop_correct_witness:
  "\<exists>s' t'. MultiQueueProbLocal_pop req_heap 2 3 1
       (req_buffered [UpdateRequest 1 4, UpdateRequest 2 3, UpdateRequest 3 8, UpdateRequest 4 6]) new_thread
     = Some (s', t', Some (UpdateRequest 2 3)) \<and>
     popBuffer s' = [[], [UpdateRequest 4 6, UpdateRequest 1 4]] \<and>
     mq_ok req_heap req_inv req_bag (mq_heaps s')"
proof -
  let ?s = "req_buffered [UpdateRequest 1 4, UpdateRequest 2 3, UpdateRequest 3 8, UpdateRequest 4 6]"
  have "map_option (\<lambda>(s', t', r). (popBuffer s', r)) (MultiQueueProbLocal_pop req_heap 2 3 1 ?s new_thread)
      = Some ([[], [UpdateRequest 4 6, UpdateRequest 1 4]], Some (UpdateRequest 2 3))"
    by code_simp
  then obtain s' t' where r: "MultiQueueProbLocal_pop req_heap 2 3 1 ?s new_thread =
      Some (s', t', Some (UpdateRequest 2 3))" "popBuffer s' = [[], [UpdateRequest 4 6, UpdateRequest 1 4]]"
    by auto
  have heaps: "mq_heaps ?s = req_heaps [UpdateRequest 1 4, UpdateRequest 2 3, UpdateRequest 3 8, UpdateRequest 4 6]"
    "length (popBuffer ?s) = 2" by (simp_all add: req_buffered_def)
  have "mq_ok req_heap req_inv req_bag (mq_heaps s')"
    using MultiQueueProbLocal_pop_correct [OF req.task_heap_axioms, of ?s 1 3 new_thread s' t'
        "Some (UpdateRequest 2 3)"] r(1) req_heaps_ok unfolding heaps by simp
  with r show ?thesis by blast
qed

lemma MultiQueueProbLocal_push_correct:
  assumes "task_heap cmp B hinv hbag" "mq_ok B hinv hbag (mq_heaps s)" "0 < length (mq_heaps s)"
    and "thread_ok (length (mq_heaps s)) t"
    and "MultiQueueProbLocal_push B (length (mq_heaps s)) c s t es = Some (s', t', n)"
  shows "mq_ok B hinv hbag (mq_heaps s') \<and> others_kept (mq_heaps s) (mq_heaps s') \<and>
    popBuffer s' = popBuffer s \<and> buffered_bag hbag s' = buffered_bag hbag s + mset es \<and>
    n = of_nat (length es) \<and> thread_ok (length (mq_heaps s)) t'"
proof -
  from assms(5) obtain hs where p: "prob_push B (rand_heap (length (mq_heaps s))) stay c (mq_heaps s) t es
      = Some (hs, t', n)" and s': "s' = s\<lparr>mq_heaps := hs\<rparr>"
    by (auto simp: MultiQueueProbLocal_push_def probLocal_push_def split: option.splits)
  from task_heap.prob_push_Some [OF assms(1) p rand_heap_below [OF assms(3)] stay_keeps assms(2,4)]
  show ?thesis by (simp add: s' buffered_bag_def)
qed

text \<open>
  The NUMA variant: \<open>push\<close> adds exactly the given tasks, \<open>pop\<close> removes exactly the task
  it returns, from heaps and buffers together, and both leave the locks of others alone.
\<close>

theorem MultiQueueProbLocalNuma_correct:
  assumes "task_heap cmp B hinv hbag" "mq_ok B hinv hbag (mq_heaps s)" "thread_ok (length (mq_heaps s)) t"
    and "numa_ok c tId" "length (mq_heaps s) = numa_nQ c" "tId < length (popBuffer s)"
  shows "(\<forall>s' t' n. MultiQueueProbLocalNuma_push B c tId d s t es = Some (s', t', n) \<longrightarrow>
      mq_ok B hinv hbag (mq_heaps s') \<and> others_kept (mq_heaps s) (mq_heaps s') \<and>
      buffered_bag hbag s' = buffered_bag hbag s + mset es \<and> n = of_nat (length es)) \<and>
    (\<forall>s' t' r. MultiQueueProbLocalNuma_pop B c m tId s t = Some (s', t', r) \<longrightarrow>
      mq_ok B hinv hbag (mq_heaps s') \<and> others_kept (mq_heaps s) (mq_heaps s') \<and>
      (case r of None \<Rightarrow> s' = s | Some x \<Rightarrow> buffered_bag hbag s = add_mset x (buffered_bag hbag s')))"
proof -
  note below = numa_below [OF assms(4), folded assms(5)]
    and range = relocalNuma_keeps [OF assms(4), folded assms(5)]
  have "mq_ok B hinv hbag (mq_heaps s') \<and> others_kept (mq_heaps s) (mq_heaps s') \<and>
      buffered_bag hbag s' = buffered_bag hbag s + mset es \<and> n = of_nat (length es)"
    if "MultiQueueProbLocalNuma_push B c tId d s t es = Some (s', t', n)" for s' t' n
  proof -
    from that obtain hs where p: "prob_push B (numa_rand_heap c tId) (relocalNuma c tId) d (mq_heaps s) t es
        = Some (hs, t', n)" and s': "s' = s\<lparr>mq_heaps := hs\<rparr>"
      by (auto simp: MultiQueueProbLocalNuma_push_def probLocal_push_def split: option.splits)
    from task_heap.prob_push_Some [OF assms(1) p below range assms(2,3)]
    show ?thesis by (simp add: s' buffered_bag_def)
  qed
  moreover have "mq_ok B hinv hbag (mq_heaps s') \<and> others_kept (mq_heaps s) (mq_heaps s') \<and>
      (case r of None \<Rightarrow> s' = s | Some x \<Rightarrow> buffered_bag hbag s = add_mset x (buffered_bag hbag s'))"
    if "MultiQueueProbLocalNuma_pop B c m tId s t = Some (s', t', r)" for s' t' r
  proof -
    note pop = that [unfolded MultiQueueProbLocalNuma_pop_def]
    have "r = Some x \<Longrightarrow> buffered_bag hbag s = add_mset x (buffered_bag hbag s')" for x
      using task_heap.probLocal_pop_bag [OF assms(1) _ below assms(2,6)] pop by blast
    with task_heap.probLocal_pop_Some [OF assms(1) pop below assms(2,6)] show ?thesis
      by (cases r) (auto split: if_splits)
  qed
  ultimately show ?thesis by blast
qed

theorem MultiQueueProbLocalNuma_correct_witness:
  "\<exists>s' t'. MultiQueueProbLocalNuma_push req_heap two_socket_cfg 0 8 (req_buffered []) new_thread
       [UpdateRequest 1 4, UpdateRequest 2 3] = Some (s', t', 2) \<and>
     buffered_bag req_bag s' = {#UpdateRequest 1 4, UpdateRequest 2 3#}"
proof -
  let ?push = "MultiQueueProbLocalNuma_push req_heap two_socket_cfg 0 8 (req_buffered []) new_thread
       [UpdateRequest 1 4, UpdateRequest 2 3]"
  have "map_option (\<lambda>(s', t', n). n) ?push = Some 2" by code_simp
  then obtain s' t' where r: "?push = Some (s', t', 2)" by auto
  have c: "numa_ok two_socket_cfg 0" "length (req_heaps []) = numa_nQ two_socket_cfg"
    by (simp_all add: numa_ok_def numa_nQ_def two_socket_cfg_def req_heaps_ok(3))
  have h: "mq_heaps (req_buffered []) = req_heaps []" "popBuffer (req_buffered []) = [[], []]"
    by (simp_all add: req_buffered_def)
  have "buffered_bag req_bag s' = buffered_bag req_bag (req_buffered []) +
      mset [UpdateRequest 1 4, UpdateRequest 2 3]"
    using MultiQueueProbLocalNuma_correct [where s = "req_buffered []" and m = 1
        and es = "[UpdateRequest 1 4, UpdateRequest 2 3]" and t = new_thread and tId = 0,
        OF req.task_heap_axioms _ _ c(1)] r
    unfolding h using c(2) req_heaps_ok(1) [of "[]"] new_thread_ok by fastforce
  with r show ?thesis
    using req_heaps_ok(2) [of "[]"] by (auto simp: buffered_bag_def h)
qed

end
