(* ===== verification/MQLocalLocal.thy ===== *)
theory MQLocalLocal
  imports MQProbLocal
begin

text \<open>
  \<open>MultiQueueLocalLocal\<close> and \<open>MultiQueueLocalLocalNuma\<close>: \<open>push\<close> collects tasks in the
  thread's push buffer and flushes it into a random heap when it is full; \<open>pop\<close> works as in
  \<open>MultiQueueProbLocal\<close> and, when four attempts find nothing, serves the push buffer.
\<close>

section \<open>The operations\<close>

record ('a, 'h) mq_local =
  ll_core :: "('a, 'h) mq_buffered"
  pushBuffer :: "'a list list"

definition MultiQueueLocalLocal_init :: "('a, 'h) heap_ops \<Rightarrow> nat \<Rightarrow> nat \<Rightarrow> ('a, 'h) mq_local" where
  "MultiQueueLocalLocal_init B C nT =
     \<lparr>ll_core = MultiQueueProbLocal_init B C nT, pushBuffer = replicate nT []\<rparr>"

definition lockRandomQ ::
    "(u32 \<Rightarrow> nat \<times> u32) \<Rightarrow> 'h HeapWithLock list \<Rightarrow> u32 \<Rightarrow> ('h HeapWithLock list \<times> nat \<times> u32) option" where
  "lockRandomQ rh hs x = (case rh x of (r, x') \<Rightarrow> lock_loop rh hs r x')"

text \<open>The flush pushes from the back of the buffer: \<open>rev\<close>.\<close>

definition pushLocally ::
    "('a, 'h) heap_ops \<Rightarrow> (u32 \<Rightarrow> nat \<times> u32) \<Rightarrow> nat \<Rightarrow> nat \<Rightarrow> ('a, 'h) mq_local \<Rightarrow> u32 \<Rightarrow> 'a \<Rightarrow>
     (('a, 'h) mq_local \<times> u32) option" where
  "pushLocally B rh PushSize tId s x val =
     (let buffer = pushBuffer s ! tId @ [val] in
      if length buffer \<ge> PushSize then
        case lockRandomQ rh (mq_heaps (ll_core s)) x of
          None \<Rightarrow> None
        | Some (hs1, qi, x') \<Rightarrow>
            let H1 = foldl (HeapWithLock_push B) (hs1 ! qi) (rev buffer);
                hs2 = hs1[qi := unlock (updateMin B H1)]
            in Some (s\<lparr>ll_core := (ll_core s)\<lparr>mq_heaps := hs2\<rparr>,
                       pushBuffer := (pushBuffer s)[tId := []]\<rparr>, x')
      else Some (s\<lparr>pushBuffer := (pushBuffer s)[tId := buffer]\<rparr>, x))"

fun localLocal_push ::
    "('a, 'h) heap_ops \<Rightarrow> (u32 \<Rightarrow> nat \<times> u32) \<Rightarrow> nat \<Rightarrow> nat \<Rightarrow> ('a, 'h) mq_local \<Rightarrow> u32 \<Rightarrow> u32 \<Rightarrow>
     'a list \<Rightarrow> (('a, 'h) mq_local \<times> u32 \<times> u32) option" where
  "localLocal_push B rh PushSize tId s x pushNumber [] = Some (s, x, pushNumber)"
| "localLocal_push B rh PushSize tId s x pushNumber (e # es) =
     (case pushLocally B rh PushSize tId s x e of
        None \<Rightarrow> None
      | Some (s', x') \<Rightarrow> localLocal_push B rh PushSize tId s' x' (pushNumber + 1) es)"

text \<open>
  \<open>std::sort\<close> by descending priority; for equal priorities, whose order the library leaves
  open, this takes the stable one of the reversed list.
\<close>

definition sort_descending :: "('a \<Rightarrow> u64) \<Rightarrow> 'a list \<Rightarrow> 'a list" where
  "sort_descending pr xs = rev (foldr (insort_key pr) xs [])"

lemma sort_descending_eq: "sort_descending pr xs = rev (sort_key pr xs)"
  by (simp add: sort_descending_def sort_key_def)

function refill_loop :: "nat \<Rightarrow> 'a list \<Rightarrow> 'a list \<Rightarrow> 'a list \<times> 'a list" where
  "refill_loop PopSize pushB popB =
     (if pushB \<noteq> [] \<and> length popB < PopSize
      then refill_loop PopSize (butlast pushB) (popB @ [last pushB])
      else (pushB, popB))"
  by pat_completeness auto
termination
  by (relation "measure (\<lambda>(p, pushB, popB). length pushB)") auto

declare refill_loop.simps [simp del]

definition localLocal_pop ::
    "('a, 'h) heap_ops \<Rightarrow> (u32 \<Rightarrow> nat \<times> u32) \<Rightarrow> nat \<Rightarrow> nat \<Rightarrow> nat \<Rightarrow>
     ('a, 'h) mq_local \<Rightarrow> mq_thread \<Rightarrow> (('a, 'h) mq_local \<times> mq_thread \<times> 'a option) option" where
  "localLocal_pop B rh nQ PopSize tId s t =
     (case probLocal_pop B rh nQ PopSize tId (ll_core s) t of
        None \<Rightarrow> None
      | Some (c, t', Some v) \<Rightarrow> Some (s\<lparr>ll_core := c\<rparr>, t', Some v)
      | Some (c, t', None) \<Rightarrow>
          if pushBuffer s ! tId = [] then Some (s\<lparr>ll_core := c\<rparr>, t', None)
          else
            let sorted = sort_descending (t_prior B) (pushBuffer s ! tId);
                (pushB, popB) = refill_loop PopSize (butlast sorted) (popBuffer c ! tId)
            in Some (s\<lparr>ll_core := c\<lparr>popBuffer := (popBuffer c)[tId := popB]\<rparr>,
                       pushBuffer := (pushBuffer s)[tId := pushB]\<rparr>, t', Some (last sorted)))"

definition MultiQueueLocalLocal_push where
  "MultiQueueLocalLocal_push B nQ PushSize tId s t es =
     map_option (\<lambda>(s', x, n). (s', t\<lparr>rng := x\<rparr>, n))
       (localLocal_push B (rand_heap nQ) PushSize tId s (rng t) 0 es)"

definition MultiQueueLocalLocal_pop where
  "MultiQueueLocalLocal_pop B nQ = localLocal_pop B (rand_heap nQ) nQ"

definition MultiQueueLocalLocalNuma_push where
  "MultiQueueLocalLocalNuma_push B c PushSize tId s t es =
     map_option (\<lambda>(s', x, n). (s', t\<lparr>rng := x\<rparr>, n))
       (localLocal_push B (numa_rand_heap c tId) PushSize tId s (rng t) 0 es)"

definition MultiQueueLocalLocalNuma_pop where
  "MultiQueueLocalLocalNuma_pop B c PopSize tId =
     localLocal_pop B (numa_rand_heap c tId) (numa_nQ c) PopSize tId"

section \<open>What they do\<close>

definition local_bag :: "('h \<Rightarrow> 'a multiset) \<Rightarrow> ('a, 'h) mq_local \<Rightarrow> 'a multiset" where
  "local_bag hbag s = buffered_bag hbag (ll_core s) + bags mset (pushBuffer s)"

definition ll_ok ::
    "('a, 'h) heap_ops \<Rightarrow> ('h \<Rightarrow> bool) \<Rightarrow> ('h \<Rightarrow> 'a multiset) \<Rightarrow> nat \<Rightarrow> nat \<Rightarrow> ('a, 'h) mq_local \<Rightarrow> bool" where
  "ll_ok B hinv hbag N nT s \<longleftrightarrow> mq_ok B hinv hbag (mq_heaps (ll_core s)) \<and>
     length (mq_heaps (ll_core s)) = N \<and> length (popBuffer (ll_core s)) = nT \<and> length (pushBuffer s) = nT"

lemma refill_loop_split:
  "refill_loop m p q = (p', q') \<Longrightarrow>
    \<exists>r. q' = q @ r \<and> p = p' @ rev r \<and> (length q \<le> m \<longrightarrow> length q' \<le> m) \<and> (p' \<noteq> [] \<longrightarrow> m \<le> length q')"
proof (induction m p q rule: refill_loop.induct)
  case (1 m p q)
  show ?case
  proof (cases "p \<noteq> [] \<and> length q < m")
    case True
    with 1 have "refill_loop m (butlast p) (q @ [last p]) = (p', q')"
      by (simp add: refill_loop.simps [of m p q])
    from 1(1) [OF True this] obtain r where r: "q' = (q @ [last p]) @ r" "butlast p = p' @ rev r"
      "length (q @ [last p]) \<le> m \<longrightarrow> length q' \<le> m" "p' \<noteq> [] \<longrightarrow> m \<le> length q'" by blast
    have "p = p' @ rev (last p # r)"
      using r(2) True append_butlast_last_id [of p] by simp
    with r True show ?thesis by (intro exI [of _ "last p # r"]) simp
  next
    case False
    with 1(2) show ?thesis by (auto simp: refill_loop.simps [of m p q])
  qed
qed

lemma sort_descending_mset: "mset (sort_descending pr xs) = mset xs"
  by (simp add: sort_descending_eq)

lemma last_sort_descending:
  assumes "xs \<noteq> []"
  shows "\<forall>y \<in> set xs. pr (last (sort_descending pr xs)) \<le> pr y"
proof
  fix y
  assume "y \<in> set xs"
  then have y: "y \<in> set (sort_key pr xs)" by simp
  have "last (sort_descending pr xs) = hd (sort_key pr xs)"
    using assms by (simp add: sort_descending_eq last_rev)
  moreover have "sorted (map pr (sort_key pr xs))" by (rule sorted_sort_key)
  ultimately show "pr (last (sort_descending pr xs)) \<le> pr y"
    using y assms by (cases "sort_key pr xs") auto
qed

text \<open>
  Where \<open>pop\<close> takes the task \<open>x\<close> it returns, with \<open>a\<close> and \<open>b\<close> the two buffers of the thread afterwards: the
  back of its pop buffer; else the best task of one heap, with a batch of the next ones for the pop buffer; else,
  when two heaps looked empty, the best task of its push buffer, whose next best tasks go to the pop buffer.
\<close>

definition local_source ::
    "('a \<Rightarrow> 'a \<Rightarrow> bool) \<Rightarrow> ('a, 'h) heap_ops \<Rightarrow> ('h \<Rightarrow> 'a multiset) \<Rightarrow> nat \<Rightarrow> nat \<Rightarrow> nat \<Rightarrow> nat \<Rightarrow> ('a, 'h) mq_local \<Rightarrow>
     ('a, 'h) mq_local \<Rightarrow> 'a \<Rightarrow> 'a list \<Rightarrow> 'a list \<Rightarrow> bool" where
  "local_source cmp B hbag N nQ m tId s s' x a b \<longleftrightarrow>
     (let hs = mq_heaps (ll_core s); hs' = mq_heaps (ll_core s') in
      if popBuffer (ll_core s) ! tId \<noteq> []
      then popBuffer (ll_core s) ! tId = a @ [x] \<and> b = pushBuffer s ! tId \<and> hs' = hs
      else
        (\<exists>k. two_choice N min_at hs nQ k \<and> takes_batch cmp hbag hs hs' k (x # rev a) \<and>
           length a \<le> size_pred m \<and> b = pushBuffer s ! tId) \<or>
        (looks_empty N min_at hs nQ \<and> hs' = hs \<and> mset (pushBuffer s ! tId) = mset (x # a @ b) \<and>
           sorted (map (t_prior B) (x # a @ rev b)) \<and> length a \<le> m \<and> (b \<noteq> [] \<longrightarrow> length a = m)))"

context task_heap
begin

lemma pushLocally_Some:
  assumes "pushLocally B rh m tId s x val = Some (s', x')" "draws_below rh N"
    and "ll_ok B hinv hbag N nT s" "tId < nT"
  shows "ll_ok B hinv hbag N nT s' \<and>
    others_kept (mq_heaps (ll_core s)) (mq_heaps (ll_core s')) \<and> popBuffer (ll_core s') = popBuffer (ll_core s) \<and>
    local_bag hbag s' = add_mset val (local_bag hbag s) \<and>
    (\<exists>b. pushBuffer s' = (pushBuffer s)[tId := b] \<and> (0 < m \<longrightarrow> length b < m))"
proof -
  let ?b = "pushBuffer s ! tId @ [val]"
  note ok = assms(3) [unfolded ll_ok_def]
  have t: "tId < length (pushBuffer s)" using ok assms(4) by simp
  note up = bags_update [OF t, of mset]
  show ?thesis
  proof (cases "length ?b \<ge> m")
    case False
    with assms ok show ?thesis
      using up [of ?b] by (auto simp: pushLocally_def Let_def ll_ok_def local_bag_def buffered_bag_def)
  next
    case True
    obtain r x1 where d: "rh x = (r, x1)" by fastforce
    from assms(1) True d obtain hs1 k x2 where l: "lock_loop rh (mq_heaps (ll_core s)) r x1 = Some (hs1, k, x2)"
      by (auto simp: pushLocally_def lockRandomQ_def Let_def split: option.splits)
    have below: "draws_below rh (length (mq_heaps (ll_core s)))" using assms(2) ok by simp
    from lock_loop_Some [OF l below draws_belowD [OF below d]]
    have k: "k < length (mq_heaps (ll_core s))" "\<not> lck (mq_heaps (ll_core s) ! k)"
      "hs1 = locked_at (mq_heaps (ll_core s)) k" by auto
    let ?H = "unlock (updateMin B (foldl (HeapWithLock_push B)
      ((mq_heaps (ll_core s) ! k)\<lparr>lck := True\<rparr>) (rev ?b)))"
    have s': "s' = s\<lparr>ll_core := (ll_core s)\<lparr>mq_heaps := (mq_heaps (ll_core s))[k := ?H]\<rparr>,
        pushBuffer := (pushBuffer s)[tId := []]\<rparr>"
      using assms(1) True d l k by (simp add: pushLocally_def lockRandomQ_def Let_def)
    from push_batch_section [OF conjunct1 [OF ok] k(1,2) refl, of "rev ?b"]
    show ?thesis
      using up [of "[]"] ok
      by (auto simp: s' ll_ok_def local_bag_def buffered_bag_def ac_simps intro!: exI [of _ "[]"])
  qed
qed

lemma localLocal_push_Some:
  assumes "localLocal_push B rh m tId s x n es = Some (s', x', n')" "draws_below rh N"
    and "ll_ok B hinv hbag N nT s" "tId < nT"
  shows "ll_ok B hinv hbag N nT s' \<and>
    others_kept (mq_heaps (ll_core s)) (mq_heaps (ll_core s')) \<and> popBuffer (ll_core s') = popBuffer (ll_core s) \<and>
    local_bag hbag s' = local_bag hbag s + mset es \<and> n' = n + of_nat (length es) \<and>
    (0 < m \<and> length (pushBuffer s ! tId) < m \<longrightarrow> length (pushBuffer s' ! tId) < m)"
  using assms(1,3)
proof (induction es arbitrary: s x n)
  case Nil
  then show ?case by simp
next
  case (Cons e es)
  from Cons.prems(1) obtain s1 x1 where p: "pushLocally B rh m tId s x e = Some (s1, x1)"
    and l: "localLocal_push B rh m tId s1 x1 (n + 1) es = Some (s', x', n')"
    by (auto split: option.splits)
  note q = pushLocally_Some [OF p assms(2) Cons.prems(2) assms(4)]
  then have ok: "ll_ok B hinv hbag N nT s1" by blast
  from q obtain b where b: "pushBuffer s1 = (pushBuffer s)[tId := b]" "0 < m \<longrightarrow> length b < m" by blast
  have "tId < length (pushBuffer s)" using Cons.prems(2) assms(4) by (simp add: ll_ok_def)
  with Cons.IH [OF l ok] q b show ?case by (auto intro: others_kept_trans)
qed

lemma localLocal_pop_Some:
  assumes "localLocal_pop B rh nQ m tId s t = Some (s', t', r)" "draws_below rh N"
    and "ll_ok B hinv hbag N nT s" "tId < nT"
  shows "ll_ok B hinv hbag N nT s' \<and>
    others_kept (mq_heaps (ll_core s)) (mq_heaps (ll_core s')) \<and>
    (case r of
       None \<Rightarrow> s' = s \<and> popBuffer (ll_core s) ! tId = [] \<and> pushBuffer s ! tId = [] \<and>
         looks_empty N min_at (mq_heaps (ll_core s)) nQ
     | Some x \<Rightarrow> local_bag hbag s = add_mset x (local_bag hbag s') \<and>
         (\<exists>a b. popBuffer (ll_core s') = (popBuffer (ll_core s))[tId := a] \<and> pushBuffer s' = (pushBuffer s)[tId := b] \<and>
           local_source cmp B hbag N nQ m tId s s' x a b))"
proof -
  note ok = assms(3) [unfolded ll_ok_def]
  have below: "draws_below rh (length (mq_heaps (ll_core s)))" using assms(2) ok by simp
  have N: "length (mq_heaps (ll_core s)) = N" using ok by simp
  have t: "tId < length (popBuffer (ll_core s))" "tId < length (pushBuffer s)" using ok assms(4) by auto
  from assms(1) obtain c t1 r1 where p: "probLocal_pop B rh nQ m tId (ll_core s) t = Some (c, t1, r1)"
    by (auto simp: localLocal_pop_def split: option.splits)
  note q = probLocal_pop_Some [OF p below conjunct1 [OF ok] t(1)]
  show ?thesis
  proof (cases r1)
    case (Some v)
    with assms(1) p have s': "s' = s\<lparr>ll_core := c\<rparr>" "r = Some v" by (auto simp: localLocal_pop_def)
    have bag: "buffered_bag hbag (ll_core s) = add_mset v (buffered_bag hbag c)"
      by (rule probLocal_pop_bag [OF p [unfolded Some] below conjunct1 [OF ok] t(1)])
    from q [unfolded Some N] obtain a where a: "popBuffer c = (popBuffer (ll_core s))[tId := a]"
      and src: "if popBuffer (ll_core s) ! tId \<noteq> [] then mq_heaps c = mq_heaps (ll_core s) \<and>
          popBuffer (ll_core s) ! tId = a @ [v]
        else \<exists>k. two_choice N min_at (mq_heaps (ll_core s)) nQ k \<and>
          takes_batch cmp hbag (mq_heaps (ll_core s)) (mq_heaps c) k (v # rev a) \<and> length a \<le> size_pred m"
      by (elim conjE exE) (rule that, auto split: if_splits)
    have "local_source cmp B hbag N nQ m tId s s' v a (pushBuffer s ! tId)"
      using src by (auto simp: local_source_def s'(1) Let_def split: if_splits)
    with a have "\<exists>a b. popBuffer (ll_core s') = (popBuffer (ll_core s))[tId := a] \<and>
        pushBuffer s' = (pushBuffer s)[tId := b] \<and> local_source cmp B hbag N nQ m tId s s' v a b"
      by (intro exI [of _ a] exI [of _ "pushBuffer s ! tId"]) (simp add: s'(1))
    with bag q s' ok a show ?thesis by (auto simp: ll_ok_def local_bag_def others_kept_length)
  next
    case None
    with q have c: "c = ll_core s" "popBuffer (ll_core s) ! tId = []"
      "looks_empty (length (mq_heaps (ll_core s))) min_at (mq_heaps (ll_core s)) nQ"
      by (auto split: if_splits)
    show ?thesis
    proof (cases "pushBuffer s ! tId = []")
      case True
      with assms(1) p None c ok show ?thesis by (auto simp: localLocal_pop_def ll_ok_def)
    next
      case False
      define so where "so = sort_descending (t_prior B) (pushBuffer s ! tId)"
      have so: "so \<noteq> []" "mset so = mset (pushBuffer s ! tId)"
        using False sort_descending_mset [of "t_prior B" "pushBuffer s ! tId"]
        by (auto simp: so_def)
      obtain pb qb where rl: "refill_loop m (butlast so) [] = (pb, qb)" by fastforce
      have s': "s' = s\<lparr>ll_core := (ll_core s)\<lparr>popBuffer := (popBuffer (ll_core s))[tId := qb]\<rparr>,
          pushBuffer := (pushBuffer s)[tId := pb]\<rparr>" "r = Some (last so)"
        using assms(1) p None c False rl by (auto simp: localLocal_pop_def Let_def so_def)
      from refill_loop_split [OF rl] have qb: "butlast so = pb @ rev qb" "length qb \<le> m" "pb \<noteq> [] \<longrightarrow> m \<le> length qb"
        by auto
      then have "so = pb @ rev qb @ [last so]" using so(1) by (metis append.assoc append_butlast_last_id)
      then have rso: "rev so = last so # qb @ rev pb" by (metis rev.simps(2) rev_append rev_rev_ident append.simps)
      have "mset (rev so) = mset (pushBuffer s ! tId)" using so(2) by simp
      then have split: "mset (pushBuffer s ! tId) = mset (last so # qb @ pb)" unfolding rso by simp
      have "sorted (map (t_prior B) (rev so))" by (simp add: so_def sort_descending_eq)
      then have "sorted (map (t_prior B) (last so # qb @ rev pb))" by (simp only: rso)
      with split c qb have src: "local_source cmp B hbag N nQ m tId s s' (last so) qb pb"
        unfolding local_source_def Let_def N s' by auto
      have "mset pb + bags mset (pushBuffer s) =
          mset pb + add_mset (last so) (bags mset ((pushBuffer s)[tId := pb]) + mset qb)"
        using bags_update [OF t(2), of mset pb] split
        by (simp only: mset.simps mset_append ac_simps union_mset_add_mset_left union_mset_add_mset_right)
      then have "bags mset (pushBuffer s) = add_mset (last so) (bags mset ((pushBuffer s)[tId := pb]) + mset qb)"
        by (rule add_left_imp_eq)
      then have "local_bag hbag s = add_mset (last so) (local_bag hbag s')"
        using bags_update [OF t(1), of mset qb] c(2) by (simp add: s' local_bag_def buffered_bag_def)
      with s' ok src show ?thesis by (auto simp: ll_ok_def)
    qed
  qed
qed

end

section \<open>Properties\<close>

lemma localLocal_pop_from_push_buffer:
  assumes "popBuffer (ll_core s) ! tId = []" "pushBuffer s ! tId \<noteq> []"
    and "tId < length (popBuffer (ll_core s))"
    and "probLocal_pop B rh nQ m tId (ll_core s) t = Some (ll_core s, t1, None)"
    and "localLocal_pop B rh nQ m tId s t = Some (s', t', r)"
  shows "\<exists>x b. r = Some x \<and> (\<forall>y \<in> set (pushBuffer s ! tId). t_prior B x \<le> t_prior B y) \<and>
    popBuffer (ll_core s') ! tId = b \<and> length b \<le> m \<and> sorted (map (t_prior B) b)"
proof -
  define so where "so = sort_descending (t_prior B) (pushBuffer s ! tId)"
  obtain pb qb where rl: "refill_loop m (butlast so) [] = (pb, qb)" by fastforce
  have s': "popBuffer (ll_core s') ! tId = qb" "r = Some (last so)"
    using assms rl by (auto simp: localLocal_pop_def Let_def so_def)
  from refill_loop_split [OF rl] have qb: "butlast so = pb @ rev qb" "length qb \<le> m" by auto
  have "so \<noteq> []" using assms(2) sort_descending_mset [of "t_prior B" "pushBuffer s ! tId"] by (auto simp: so_def)
  then have "so = pb @ rev qb @ [last so]" using qb(1) by (metis append.assoc append_butlast_last_id)
  then have "rev so = last so # qb @ rev pb" by (metis rev.simps(2) rev_append rev_rev_ident append.simps)
  moreover have "sorted (map (t_prior B) (rev so))"
    by (simp add: so_def sort_descending_eq)
  ultimately have "sorted (map (t_prior B) (last so # qb @ rev pb))" by (simp only:)
  then have "sorted (map (t_prior B) qb)" by (simp add: sorted_append)
  with s' qb(2) last_sort_descending [OF assms(2), of "t_prior B"] show ?thesis by (simp add: so_def)
qed

text \<open>
  \<open>push\<close> of \<open>MultiQueueLocalLocal\<close> adds exactly the given tasks to the structure (heaps
  and buffers together), counts them, and leaves fewer than \<open>PushSize\<close> in the thread's buffer.
\<close>

theorem MultiQueueLocalLocal_push_correct:
  assumes "task_heap cmp B hinv hbag" "ll_ok B hinv hbag N nT s" "0 < N" "tId < nT"
    and "MultiQueueLocalLocal_push B N m tId s t es = Some (s', t', n)"
  shows "ll_ok B hinv hbag N nT s' \<and> others_kept (mq_heaps (ll_core s)) (mq_heaps (ll_core s')) \<and>
    local_bag hbag s' = local_bag hbag s + mset es \<and> n = of_nat (length es) \<and>
    (0 < m \<and> length (pushBuffer s ! tId) < m \<longrightarrow> length (pushBuffer s' ! tId) < m)"
proof -
  from assms(5) obtain x where p: "localLocal_push B (rand_heap N) m tId s (rng t) 0 es = Some (s', x, n)"
    by (auto simp: MultiQueueLocalLocal_push_def)
  from task_heap.localLocal_push_Some [OF assms(1) p rand_heap_below [OF assms(3)] assms(2,4)]
  show ?thesis by simp
qed

text \<open>
  C11: \<open>pop\<close> of \<open>MultiQueueLocalLocal\<close> removes exactly the task it returns, changes no buffer of another thread, and
  takes it, in this order, from the back of the thread's pop buffer; from one heap, whose best task it is, with at
  most \<open>PopSize - 1\<close> next ones in order for the pop buffer; or, when two heaps looked empty, from the thread's push buffer, whose
  best task it is, with at most \<open>PopSize\<close> next ones for the pop buffer. It returns none only when both buffers of the
  thread are empty and two heaps looked empty, and then changes nothing.
\<close>

theorem MultiQueueLocalLocal_pop_correct:
  assumes "task_heap cmp B hinv hbag" "ll_ok B hinv hbag N nT s" "0 < N" "tId < nT"
    and "MultiQueueLocalLocal_pop B N m tId s t = Some (s', t', r)"
  shows "ll_ok B hinv hbag N nT s' \<and> others_kept (mq_heaps (ll_core s)) (mq_heaps (ll_core s')) \<and>
    (case r of
       None \<Rightarrow> s' = s \<and> popBuffer (ll_core s) ! tId = [] \<and> pushBuffer s ! tId = [] \<and>
         looks_empty N min_at (mq_heaps (ll_core s)) N
     | Some x \<Rightarrow> local_bag hbag s = add_mset x (local_bag hbag s') \<and>
         (\<exists>a b. popBuffer (ll_core s') = (popBuffer (ll_core s))[tId := a] \<and> pushBuffer s' = (pushBuffer s)[tId := b] \<and>
           local_source cmp B hbag N N m tId s s' x a b))"
  using task_heap.localLocal_pop_Some [OF assms(1) _ rand_heap_below [OF assms(3)] assms(2,4)] assms(5)
  by (simp add: MultiQueueLocalLocal_pop_def)

text \<open>A state for the witnesses: two threads, thread 1 with tasks in its push buffer.\<close>

definition req_local :: "nat update_request list \<Rightarrow> nat update_request list \<Rightarrow>
    (nat update_request, nat update_request DAryHeap) mq_local" where
  "req_local es b = \<lparr>ll_core = req_buffered es, pushBuffer = [[], b]\<rparr>"

lemma req_local_ok: "ll_ok req_heap req_inv req_bag 2 2 (req_local es b)"
  "local_bag req_bag (req_local es b) = mset es + mset b"
  using req_heaps_ok [of es]
  by (simp_all add: ll_ok_def req_local_def req_buffered_def local_bag_def buffered_bag_def)

theorem MultiQueueLocalLocal_push_correct_witness:
  "\<exists>s' t'. MultiQueueLocalLocal_push req_heap 2 3 1 (req_local [] []) new_thread
       [UpdateRequest 1 4, UpdateRequest 2 3, UpdateRequest 3 8, UpdateRequest 4 6] = Some (s', t', 4) \<and>
     pushBuffer s' = [[], [UpdateRequest 4 6]] \<and>
     local_bag req_bag s' = mset [UpdateRequest 1 4, UpdateRequest 2 3, UpdateRequest 3 8, UpdateRequest 4 6]"
proof -
  let ?push = "MultiQueueLocalLocal_push req_heap 2 3 1 (req_local [] []) new_thread
       [UpdateRequest 1 4, UpdateRequest 2 3, UpdateRequest 3 8, UpdateRequest 4 6]"
  have "map_option (\<lambda>(s', t', n). (pushBuffer s', n)) ?push = Some ([[], [UpdateRequest 4 6]], 4)"
    by code_simp
  then obtain s' t' where r: "?push = Some (s', t', 4)" "pushBuffer s' = [[], [UpdateRequest 4 6]]" by auto
  show ?thesis
    using MultiQueueLocalLocal_push_correct [OF req.task_heap_axioms req_local_ok(1) _ _ r(1)] r
      req_local_ok(2) [of "[]" "[]"] by auto
qed

theorem MultiQueueLocalLocal_pop_correct_witness:
  "\<exists>s' t'. MultiQueueLocalLocal_pop req_heap 2 3 1 (req_local [UpdateRequest 1 4, UpdateRequest 2 3]
       [UpdateRequest 3 8]) new_thread = Some (s', t', Some (UpdateRequest 2 3)) \<and>
     mset [UpdateRequest 1 4, UpdateRequest 2 3, UpdateRequest 3 8] =
       add_mset (UpdateRequest 2 3) (local_bag req_bag s')"
proof -
  let ?pop = "MultiQueueLocalLocal_pop req_heap 2 3 1 (req_local [UpdateRequest 1 4, UpdateRequest 2 3]
       [UpdateRequest 3 8]) new_thread"
  have "map_option (\<lambda>(s', t', r). r) ?pop = Some (Some (UpdateRequest 2 3))" by code_simp
  then obtain s' t' where r: "?pop = Some (s', t', Some (UpdateRequest 2 3))" by auto
  have "local_bag req_bag (req_local [UpdateRequest 1 4, UpdateRequest 2 3] [UpdateRequest 3 8]) =
      add_mset (UpdateRequest 2 3) (local_bag req_bag s')"
    using MultiQueueLocalLocal_pop_correct [OF req.task_heap_axioms req_local_ok(1) _ _ r] by simp
  with r show ?thesis unfolding req_local_ok(2) by (auto simp: add_mset_commute)
qed

text \<open>
  When the heaps look empty, \<open>pop\<close> serves the push buffer: it returns its best task, but
  leaves the rest of the batch in ascending order, so that the next \<open>pop\<close>, which takes the
  back, returns the worst task of the batch (\<open>extract_min\<close> reverses the buffer, this path
  does not).
\<close>

theorem MultiQueueLocalLocal_fallback_order:
  assumes "popBuffer (ll_core s) ! tId = []" "pushBuffer s ! tId \<noteq> []"
    and "tId < length (popBuffer (ll_core s))"
    and "probLocal_pop B (rand_heap N) N m tId (ll_core s) t = Some (ll_core s, t1, None)"
    and "MultiQueueLocalLocal_pop B N m tId s t = Some (s1, t2, r1)"
    and "popBuffer (ll_core s1) ! tId \<noteq> []"
    and "MultiQueueLocalLocal_pop B N m tId s1 t2 = Some (s2, t3, r2)"
  shows "\<exists>x y. r1 = Some x \<and> (\<forall>z \<in> set (pushBuffer s ! tId). t_prior B x \<le> t_prior B z) \<and>
    r2 = Some y \<and> (\<forall>z \<in> set (popBuffer (ll_core s1) ! tId). t_prior B z \<le> t_prior B y)"
proof -
  let ?b = "popBuffer (ll_core s1) ! tId"
  obtain x where x: "r1 = Some x" "\<forall>z \<in> set (pushBuffer s ! tId). t_prior B x \<le> t_prior B z"
    "sorted (map (t_prior B) ?b)"
    using localLocal_pop_from_push_buffer [OF assms(1-4)] assms(5)
    by (auto simp: MultiQueueLocalLocal_pop_def)
  have "sorted (map (t_prior B) (butlast ?b @ [last ?b]))" using x(3) assms(6) by simp
  then have "\<forall>z \<in> set (butlast ?b @ [last ?b]). t_prior B z \<le> t_prior B (last ?b)"
    by (auto simp: sorted_append simp del: append_butlast_last_id)
  moreover have "r2 = Some (last ?b)"
    using assms(6,7) by (auto simp: MultiQueueLocalLocal_pop_def localLocal_pop_def probLocal_pop_def Let_def)
  ultimately show ?thesis using x assms(6) by simp
qed

definition one_heap :: "nat update_request list \<Rightarrow>
    (nat update_request, nat update_request DAryHeap) mq_local" where
  "one_heap b = \<lparr>ll_core = \<lparr>mq_heaps = [req_lockable []], popBuffer = [[], []]\<rparr>, pushBuffer = [[], b]\<rparr>"

theorem MultiQueueLocalLocal_fallback_order_witness:
  "\<exists>s1 t2 s2 t3.
     MultiQueueLocalLocal_pop req_heap 1 4 1 (one_heap [UpdateRequest 1 5, UpdateRequest 2 3, UpdateRequest 3 9])
       new_thread = Some (s1, t2, Some (UpdateRequest 2 3)) \<and>
     MultiQueueLocalLocal_pop req_heap 1 4 1 s1 t2 = Some (s2, t3, Some (UpdateRequest 3 9)) \<and>
     (\<forall>z \<in> set (popBuffer (ll_core s1) ! 1). t_prior req_heap z \<le> t_prior req_heap (UpdateRequest 3 9))"
proof -
  let ?s = "one_heap [UpdateRequest 1 5, UpdateRequest 2 3, UpdateRequest 3 9]"
  let ?b = "[UpdateRequest 1 5, UpdateRequest (3 :: nat) 9]"
  have l: "popBuffer (ll_core ?s) = [[], []]" "pushBuffer ?s = [[], [UpdateRequest 1 5, UpdateRequest 2 3, UpdateRequest 3 9]]"
    "mq_heaps (ll_core ?s) = [req_lockable []]"
    by (simp_all add: one_heap_def)
  have "HeapWithLock_empty req_heap (req_lockable [])" by code_simp
  from attempts_one_empty [OF req_lockable_unlocked this, of 1 ATTEMPTS] obtain x where
    a: "attempts req_heap (rand_heap 1) 1 ATTEMPTS [req_lockable []] 1 = Some ([req_lockable []], None, x)"
    by auto
  then have p: "probLocal_pop req_heap (rand_heap 1) 1 4 1 (ll_core ?s) new_thread =
      Some (ll_core ?s, new_thread\<lparr>rng := x\<rparr>, None)"
    by (simp add: probLocal_pop_def one_heap_def new_thread_def)
  have "sort_descending (t_prior req_heap) [UpdateRequest 1 5, UpdateRequest 2 3, UpdateRequest 3 9] =
      [UpdateRequest 3 9, UpdateRequest 1 5, UpdateRequest 2 3]"
    "refill_loop 4 [UpdateRequest (3 :: nat) 9, UpdateRequest 1 5] [] = ([], ?b)" by code_simp+
  with p obtain s1 t2 where r: "MultiQueueLocalLocal_pop req_heap 1 4 1 ?s new_thread =
      Some (s1, t2, Some (UpdateRequest 2 3))" and b: "popBuffer (ll_core s1) = [[], ?b]"
    by (simp add: MultiQueueLocalLocal_pop_def localLocal_pop_def one_heap_def Let_def)
  obtain s2 t3 where r2: "MultiQueueLocalLocal_pop req_heap 1 4 1 s1 t2 = Some (s2, t3, Some (UpdateRequest 3 9))"
    by (simp add: MultiQueueLocalLocal_pop_def localLocal_pop_def probLocal_pop_def b)
  then have "\<forall>z \<in> set (popBuffer (ll_core s1) ! 1). t_prior req_heap z \<le> t_prior req_heap (UpdateRequest 3 9)"
    using MultiQueueLocalLocal_fallback_order [OF _ _ _ p r _ r2] unfolding l b by simp
  with r r2 show ?thesis by blast
qed

text \<open>
  The NUMA variant: \<open>push\<close> adds exactly the given tasks, \<open>pop\<close> removes exactly the task
  it returns and fails only with both buffers of the thread empty.
\<close>

theorem MultiQueueLocalLocalNuma_correct:
  assumes "task_heap cmp B hinv hbag" "ll_ok B hinv hbag (numa_nQ c) nT s" "numa_ok c tId" "tId < nT"
  shows "(\<forall>s' t' n. MultiQueueLocalLocalNuma_push B c m tId s t es = Some (s', t', n) \<longrightarrow>
      ll_ok B hinv hbag (numa_nQ c) nT s' \<and> others_kept (mq_heaps (ll_core s)) (mq_heaps (ll_core s')) \<and>
      local_bag hbag s' = local_bag hbag s + mset es \<and> n = of_nat (length es)) \<and>
    (\<forall>s' t' r. MultiQueueLocalLocalNuma_pop B c d tId s t = Some (s', t', r) \<longrightarrow>
      ll_ok B hinv hbag (numa_nQ c) nT s' \<and> others_kept (mq_heaps (ll_core s)) (mq_heaps (ll_core s')) \<and>
      (case r of
         None \<Rightarrow> s' = s \<and> popBuffer (ll_core s) ! tId = [] \<and> pushBuffer s ! tId = []
       | Some x \<Rightarrow> local_bag hbag s = add_mset x (local_bag hbag s') \<and>
           (\<exists>a b. popBuffer (ll_core s') = (popBuffer (ll_core s))[tId := a] \<and> pushBuffer s' = (pushBuffer s)[tId := b] \<and>
             local_source cmp B hbag (numa_nQ c) (numa_nQ c) d tId s s' x a b)))"
proof (intro conjI allI impI)
  note below = numa_below [OF assms(3)]
  fix s' t' n
  assume "MultiQueueLocalLocalNuma_push B c m tId s t es = Some (s', t', n)"
  then obtain x where "localLocal_push B (numa_rand_heap c tId) m tId s (rng t) 0 es = Some (s', x, n)"
    by (auto simp: MultiQueueLocalLocalNuma_push_def)
  from task_heap.localLocal_push_Some [OF assms(1) this below assms(2,4)]
  show "ll_ok B hinv hbag (numa_nQ c) nT s'" "others_kept (mq_heaps (ll_core s)) (mq_heaps (ll_core s'))"
    "local_bag hbag s' = local_bag hbag s + mset es" "n = of_nat (length es)" by simp_all
next
  note below = numa_below [OF assms(3)]
  fix s' t' r
  assume "MultiQueueLocalLocalNuma_pop B c d tId s t = Some (s', t', r)"
  then have "localLocal_pop B (numa_rand_heap c tId) (numa_nQ c) d tId s t = Some (s', t', r)"
    by (simp add: MultiQueueLocalLocalNuma_pop_def)
  from task_heap.localLocal_pop_Some [OF assms(1) this below assms(2,4)]
  show "ll_ok B hinv hbag (numa_nQ c) nT s'" "others_kept (mq_heaps (ll_core s)) (mq_heaps (ll_core s'))"
    "case r of None \<Rightarrow> s' = s \<and> popBuffer (ll_core s) ! tId = [] \<and> pushBuffer s ! tId = []
     | Some x \<Rightarrow> local_bag hbag s = add_mset x (local_bag hbag s') \<and>
         (\<exists>a b. popBuffer (ll_core s') = (popBuffer (ll_core s))[tId := a] \<and> pushBuffer s' = (pushBuffer s)[tId := b] \<and>
           local_source cmp B hbag (numa_nQ c) (numa_nQ c) d tId s s' x a b)"
    by (auto split: option.splits)
qed

theorem MultiQueueLocalLocalNuma_correct_witness:
  "\<exists>s' t'. MultiQueueLocalLocalNuma_push req_heap two_socket_cfg 3 1 (req_local [] [UpdateRequest 7 7]) new_thread
       [UpdateRequest 5 4] = Some (s', t', 1) \<and>
     local_bag req_bag s' = {#UpdateRequest 7 7, UpdateRequest 5 4#}"
proof -
  let ?push = "MultiQueueLocalLocalNuma_push req_heap two_socket_cfg 3 1 (req_local [] [UpdateRequest 7 7])
      new_thread [UpdateRequest 5 4]"
  have "map_option (\<lambda>(s', t', n). n) ?push = Some 1"
    by (simp add: MultiQueueLocalLocalNuma_push_def pushLocally_def req_local_def)
  then obtain s' t' where r: "?push = Some (s', t', 1)" by auto
  have c: "numa_ok two_socket_cfg 1" "numa_nQ two_socket_cfg = 2"
    by (simp_all add: numa_ok_def numa_nQ_def two_socket_cfg_def)
  have "local_bag req_bag s' = local_bag req_bag (req_local [] [UpdateRequest 7 7]) + mset [UpdateRequest 5 4]"
    using MultiQueueLocalLocalNuma_correct [where m = 3 and es = "[UpdateRequest 5 4]" and t = new_thread,
        OF req.task_heap_axioms req_local_ok(1) [of "[]" "[UpdateRequest 7 7]", folded c(2)] c(1)] r
    by (metis c(2) one_less_numeral_iff semiring_norm(76))
  with r show ?thesis by (auto simp: req_local_ok(2) add_mset_commute)
qed

end
