(* ===== verification/MQLocalProb.thy ===== *)
theory MQLocalProb
  imports MQLocalLocal
begin

text \<open>
  \<open>MultiQueueLocalProb\<close> and \<open>MultiQueueLocalProbNuma\<close>: \<open>push\<close> collects tasks in a heap of
  the thread and moves them all to a random heap when there are \<open>PushSize\<close> of them; \<open>pop\<close>
  draws among the shared heaps and, under the number \<open>nQ\<close>, the thread's own heap, which needs
  no lock. The overload \<open>push(const value_type&)\<close> is not modelled: it names members that the
  heap does not have or that are private, so it cannot be instantiated.
\<close>

section \<open>The operations\<close>

record 'h mq_lp =
  lp_heaps :: "'h HeapWithLock list"
  pushLocal :: "'h HeapWithLock list"

definition MultiQueueLocalProb_init :: "('a, 'h) heap_ops \<Rightarrow> nat \<Rightarrow> nat \<Rightarrow> 'h mq_lp" where
  "MultiQueueLocalProb_init B C nT =
     \<lparr>lp_heaps = replicate (C * nT) (HeapWithLock_init B), pushLocal = replicate nT (HeapWithLock_init B)\<rparr>"

definition rand_heap_with_local :: "nat \<Rightarrow> u32 \<Rightarrow> nat \<times> u32" where
  "rand_heap_with_local nQ x = rand_mod (nQ + 1) x"

text \<open>\<open>get_heap_ptr\<close> as reading and, for what the caller does through the pointer, writing.\<close>

definition get_heap :: "nat \<Rightarrow> nat \<Rightarrow> 'h mq_lp \<Rightarrow> nat \<Rightarrow> 'h HeapWithLock" where
  "get_heap nQ tId s q = (if q = nQ then pushLocal s ! tId else lp_heaps s ! q)"

definition set_heap :: "nat \<Rightarrow> nat \<Rightarrow> 'h mq_lp \<Rightarrow> nat \<Rightarrow> 'h HeapWithLock \<Rightarrow> 'h mq_lp" where
  "set_heap nQ tId s q H =
     (if q = nQ then s\<lparr>pushLocal := (pushLocal s)[tId := H]\<rparr>
      else s\<lparr>lp_heaps := (lp_heaps s)[q := H]\<rparr>)"

definition try_lock_heap :: "nat \<Rightarrow> 'h mq_lp \<Rightarrow> nat \<Rightarrow> bool \<times> 'h mq_lp" where
  "try_lock_heap nQ s q =
     (if q = nQ then (True, s)
      else case try_lock_at (lp_heaps s) q of (r, hs) \<Rightarrow> (r, s\<lparr>lp_heaps := hs\<rparr>))"

definition unlock_heap :: "nat \<Rightarrow> 'h mq_lp \<Rightarrow> nat \<Rightarrow> 'h mq_lp" where
  "unlock_heap nQ s q =
     (if q = nQ then s else s\<lparr>lp_heaps := (lp_heaps s)[q := unlock (lp_heaps s ! q)]\<rparr>)"

definition lp_extract_min ::
    "('a, 'h) heap_ops \<Rightarrow> nat \<Rightarrow> 'h HeapWithLock \<Rightarrow> nat \<Rightarrow> 'a option \<times> 'h HeapWithLock" where
  "lp_extract_min B nQ H heapId =
     (case HeapWithLock_extractMin B H of
        None \<Rightarrow> (None, H)
      | Some (result, H1) \<Rightarrow>
          let H2 = updateMin B H1 in (Some result, if heapId < nQ then unlock H2 else H2))"

text \<open>Move at most \<open>n\<close> tasks, best first, from one heap to another.\<close>

fun move_loop ::
    "('a, 'h) heap_ops \<Rightarrow> nat \<Rightarrow> 'h HeapWithLock \<Rightarrow> 'h HeapWithLock \<Rightarrow> 'h HeapWithLock \<times> 'h HeapWithLock" where
  "move_loop B 0 local H = (local, H)"
| "move_loop B (Suc n) local H =
     (if HeapWithLock_empty B local then (local, H)
      else case HeapWithLock_extractMin B local of
             None \<Rightarrow> (local, H)
           | Some (x, local') \<Rightarrow> move_loop B n local' (HeapWithLock_push B H x))"

text \<open>
  \<open>pushLocally\<close>; its \<open>while\<close> loop runs until the local heap is empty, which takes as many
  iterations as the heap has tasks.
\<close>

definition lp_pushLocally ::
    "('a, 'h) heap_ops \<Rightarrow> (u32 \<Rightarrow> nat \<times> u32) \<Rightarrow> nat \<Rightarrow> nat \<Rightarrow> 'h mq_lp \<Rightarrow> u32 \<Rightarrow> 'a \<Rightarrow>
     ('h mq_lp \<times> u32) option" where
  "lp_pushLocally B rh PushSize tId s x val =
     (let local = HeapWithLock_push B (pushLocal s ! tId) val in
      if h_size B (bheap local) \<ge> PushSize then
        case lockRandomQ rh (lp_heaps s) x of
          None \<Rightarrow> None
        | Some (hs, k, x') \<Rightarrow>
            let (local', H) = move_loop B (h_size B (bheap local)) local (hs ! k)
            in Some (s\<lparr>lp_heaps := hs[k := unlock (updateMin B H)],
                       pushLocal := (pushLocal s)[tId := updateMin B local']\<rparr>, x')
      else Some (s\<lparr>pushLocal := (pushLocal s)[tId := updateMin B local]\<rparr>, x))"

fun localProb_push ::
    "('a, 'h) heap_ops \<Rightarrow> (u32 \<Rightarrow> nat \<times> u32) \<Rightarrow> nat \<Rightarrow> nat \<Rightarrow> 'h mq_lp \<Rightarrow> u32 \<Rightarrow> u32 \<Rightarrow>
     'a list \<Rightarrow> ('h mq_lp \<times> u32 \<times> u32) option" where
  "localProb_push B rh PushSize tId s x pushNumber [] = Some (s, x, pushNumber)"
| "localProb_push B rh PushSize tId s x pushNumber (e # es) =
     (case lp_pushLocally B rh PushSize tId s x e of
        None \<Rightarrow> None
      | Some (s', x') \<Rightarrow> localProb_push B rh PushSize tId s' x' (pushNumber + 1) es)"

definition lp_min_at :: "nat \<Rightarrow> nat \<Rightarrow> 'h mq_lp \<Rightarrow> nat \<Rightarrow> u64" where
  "lp_min_at nQ tId s q = getMin (get_heap nQ tId s q)"

fun lp_attempts ::
    "('a, 'h) heap_ops \<Rightarrow> (u32 \<Rightarrow> nat \<times> u32) \<Rightarrow> nat \<Rightarrow> nat \<Rightarrow> nat \<Rightarrow> 'h mq_lp \<Rightarrow> u32 \<Rightarrow>
     ('h mq_lp \<times> nat option \<times> u32) option" where
  "lp_attempts B rhl nQ tId 0 s x = Some (s, None, x)"
| "lp_attempts B rhl nQ tId (Suc n) s x =
     (case choose_loop rhl nQ (lp_min_at nQ tId) (try_lock_heap nQ) s x of
        None \<Rightarrow> None
      | Some (s1, i_ind, x1) \<Rightarrow>
          if \<not> HeapWithLock_empty B (get_heap nQ tId s1 i_ind) then Some (s1, Some i_ind, x1)
          else lp_attempts B rhl nQ tId n (unlock_heap nQ s1 i_ind) x1)"

definition lp_local_pop ::
    "('a, 'h) heap_ops \<Rightarrow> nat \<Rightarrow> nat \<Rightarrow> 'h mq_lp \<Rightarrow> nat \<Rightarrow> 'h mq_lp \<times> 'a option" where
  "lp_local_pop B nQ tId s local_q =
     (let (r, s1) = try_lock_heap nQ s local_q in
      if r then
        if \<not> HeapWithLock_empty B (get_heap nQ tId s1 local_q) then
          let (result, H) = lp_extract_min B nQ (get_heap nQ tId s1 local_q) local_q
          in (set_heap nQ tId s1 local_q H, result)
        else (unlock_heap nQ s1 local_q, None)
      else (s1, None))"

text \<open>The last resort of \<open>pop\<close>: the thread's own heap, four of whose tasks it gives away.\<close>

definition lp_own_pop ::
    "('a, 'h) heap_ops \<Rightarrow> (u32 \<Rightarrow> nat \<times> u32) \<Rightarrow> nat \<Rightarrow> 'h mq_lp \<Rightarrow> u32 \<Rightarrow>
     ('h mq_lp \<times> u32 \<times> 'a option) option" where
  "lp_own_pop B rh tId s x =
     (case HeapWithLock_extractMin B (pushLocal s ! tId) of
        None \<Rightarrow> Some (s, x, None)
      | Some (minVal, local) \<Rightarrow>
          if \<not> HeapWithLock_empty B local then
            case lockRandomQ rh (lp_heaps s) x of
              None \<Rightarrow> None
            | Some (hs, rQ, x') \<Rightarrow>
                let (local', H) = move_loop B 4 local (hs ! rQ)
                in Some (s\<lparr>lp_heaps := hs[rQ := unlock (updateMin B H)],
                           pushLocal := (pushLocal s)[tId := updateMin B local']\<rparr>, x', Some minVal)
          else Some (s\<lparr>pushLocal := (pushLocal s)[tId := updateMin B local]\<rparr>, x, Some minVal))"

definition localProb_pop ::
    "('a, 'h) heap_ops \<Rightarrow> (u32 \<Rightarrow> nat \<times> u32) \<Rightarrow> (u32 \<Rightarrow> nat \<times> u32) \<Rightarrow> (nat \<Rightarrow> u32 \<Rightarrow> nat \<times> u32) \<Rightarrow>
     nat \<Rightarrow> nat \<Rightarrow> nat \<Rightarrow> 'h mq_lp \<Rightarrow> mq_thread \<Rightarrow> ('h mq_lp \<times> mq_thread \<times> 'a option) option" where
  "localProb_pop B rh rhl relocal nQ ChangeQPop tId s t =
     (let (local_q, x) = init_local_q rh (pop_q t) (rng t);
          (c, x0) = random x;
          (s0, result) = (if remainder c ChangeQPop > 0 then lp_local_pop B nQ tId s local_q else (s, None))
      in case result of
           Some v \<Rightarrow> Some (s0, t\<lparr>rng := x0, pop_q := Some local_q\<rparr>, Some v)
         | None \<Rightarrow>
             (case lp_attempts B rhl nQ tId ATTEMPTS s0 x0 of
                None \<Rightarrow> None
              | Some (s1, Some i_ind, x1) \<Rightarrow>
                  let (q, x2) = relocal i_ind x1;
                      (v, H) = lp_extract_min B nQ (get_heap nQ tId s1 i_ind) i_ind
                  in Some (set_heap nQ tId s1 i_ind H, t\<lparr>rng := x2, pop_q := Some q\<rparr>, v)
              | Some (s1, None, x1) \<Rightarrow>
                  if \<not> HeapWithLock_empty B (pushLocal s1 ! tId) then
                    map_option (\<lambda>(s2, x2, v). (s2, t\<lparr>rng := x2, pop_q := Some local_q\<rparr>, v))
                      (lp_own_pop B rh tId s1 x1)
                  else
                    let (q, x2) = relocal local_q x1
                    in Some (s1, t\<lparr>rng := x2, pop_q := Some q\<rparr>, None)))"

definition MultiQueueLocalProb_push where
  "MultiQueueLocalProb_push B nQ PushSize tId s t es =
     map_option (\<lambda>(s', x, n). (s', t\<lparr>rng := x\<rparr>, n))
       (localProb_push B (rand_heap nQ) PushSize tId s (rng t) 0 es)"

definition MultiQueueLocalProb_pop where
  "MultiQueueLocalProb_pop B nQ = localProb_pop B (rand_heap nQ) (rand_heap_with_local nQ) stay nQ"

definition MultiQueueLocalProbNuma_push where
  "MultiQueueLocalProbNuma_push B c PushSize tId s t es =
     map_option (\<lambda>(s', x, n). (s', t\<lparr>rng := x\<rparr>, n))
       (localProb_push B (numa_rand_heap c tId) PushSize tId s (rng t) 0 es)"

definition MultiQueueLocalProbNuma_pop where
  "MultiQueueLocalProbNuma_pop B c ChangeQPop tId =
     localProb_pop B (numa_rand_heap c tId) (numa_rand_heap_with_local c tId) (relocalNuma c tId)
       (numa_nQ c) ChangeQPop tId"

section \<open>What they do\<close>

definition lp_ok ::
    "('a, 'h) heap_ops \<Rightarrow> ('h \<Rightarrow> bool) \<Rightarrow> ('h \<Rightarrow> 'a multiset) \<Rightarrow> nat \<Rightarrow> nat \<Rightarrow> 'h mq_lp \<Rightarrow> bool" where
  "lp_ok B hinv hbag N nT s \<longleftrightarrow> mq_ok B hinv hbag (lp_heaps s) \<and> mq_ok B hinv hbag (pushLocal s) \<and>
     length (lp_heaps s) = N \<and> length (pushLocal s) = nT \<and> (\<forall>i < nT. \<not> lck (pushLocal s ! i))"

definition lp_bag :: "('h \<Rightarrow> 'a multiset) \<Rightarrow> 'h mq_lp \<Rightarrow> 'a multiset" where
  "lp_bag hbag s = mq_bag hbag (lp_heaps s) + mq_bag hbag (pushLocal s)"

lemma try_lock_heap_stays: "try_lock_heap nQ s i = (False, s') \<Longrightarrow> s' = s"
  by (auto simp: try_lock_heap_def try_lock_at_cases split: if_splits prod.splits)

text \<open>Heap \<open>k\<close> of a state in which \<open>try_lock_heap\<close> has succeeded.\<close>

definition lp_locked :: "nat \<Rightarrow> 'h mq_lp \<Rightarrow> nat \<Rightarrow> 'h mq_lp" where
  "lp_locked nQ s k = (if k = nQ then s else s\<lparr>lp_heaps := locked_at (lp_heaps s) k\<rparr>)"

lemma try_lock_heap_True:
  "try_lock_heap nQ s k = (True, s') \<longleftrightarrow> (k < nQ \<or> k > nQ \<longrightarrow> \<not> lck (lp_heaps s ! k)) \<and> s' = lp_locked nQ s k"
  by (auto simp: try_lock_heap_def lp_locked_def try_lock_at_def try_lock_def locked_at_def)

lemma empty_lp_locked:
  "k \<le> length (lp_heaps s) \<Longrightarrow> nQ = length (lp_heaps s) \<Longrightarrow>
   HeapWithLock_empty B (get_heap nQ tId (lp_locked nQ s k) k) = HeapWithLock_empty B (get_heap nQ tId s k)"
  by (auto simp: get_heap_def lp_locked_def)

lemma unlock_lp_locked:
  "k \<le> length (lp_heaps s) \<Longrightarrow> nQ = length (lp_heaps s) \<Longrightarrow> (k < nQ \<longrightarrow> \<not> lck (lp_heaps s ! k)) \<Longrightarrow>
   unlock_heap nQ (lp_locked nQ s k) k = s"
  by (auto simp: unlock_heap_def lp_locked_def)

lemma lp_attempts_Some:
  assumes "lp_attempts B rhl nQ tId n s x = Some (s', r, x')"
    and "draws_below rhl (nQ + 1)" "nQ = length (lp_heaps s)"
  shows "case r of
      None \<Rightarrow> s' = s \<and> (0 < n \<longrightarrow> (\<exists>k. two_choice (nQ + 1) (lp_min_at nQ tId) s nQ k \<and>
        (k < nQ \<longrightarrow> \<not> lck (lp_heaps s ! k)) \<and> HeapWithLock_empty B (get_heap nQ tId s k)))
    | Some k \<Rightarrow> two_choice (nQ + 1) (lp_min_at nQ tId) s nQ k \<and> (k < nQ \<longrightarrow> \<not> lck (lp_heaps s ! k)) \<and>
        s' = lp_locked nQ s k \<and> \<not> HeapWithLock_empty B (get_heap nQ tId s k)"
  using assms(1)
proof (induction n arbitrary: x)
  case 0
  then show ?case by simp
next
  case (Suc n)
  from Suc.prems obtain s1 k x1
    where c: "choose_loop rhl nQ (lp_min_at nQ tId) (try_lock_heap nQ) s x = Some (s1, k, x1)"
    by (auto split: option.splits)
  from choose_loop_Some [OF c assms(2) try_lock_heap_stays]
  have tc: "two_choice (nQ + 1) (lp_min_at nQ tId) s nQ k" and "try_lock_heap nQ s k = (True, s1)" by auto
  then have k: "k \<le> nQ" "k < nQ \<longrightarrow> \<not> lck (lp_heaps s ! k)" "s1 = lp_locked nQ s k"
    by (auto simp: try_lock_heap_True dest: two_choice_less)
  show ?case
  proof (cases "HeapWithLock_empty B (get_heap nQ tId s k)")
    case False
    with Suc.prems c k tc assms(3) show ?thesis by (auto simp: empty_lp_locked)
  next
    case True
    with Suc.prems c k assms(3) have "lp_attempts B rhl nQ tId n s x1 = Some (s', r, x')"
      by (simp add: empty_lp_locked unlock_lp_locked)
    from Suc.IH [OF this] True tc k show ?thesis by (auto split: option.splits)
  qed
qed

context task_heap
begin

lemma move_loop_bag:
  assumes "hinv (bheap local)" "hinv (bheap H)" "move_loop B n local H = (local', H')"
  shows "hinv (bheap local') \<and> hinv (bheap H') \<and> lck local' = lck local \<and> lck H' = lck H \<and>
    hbag (bheap local') + hbag (bheap H') = hbag (bheap local) + hbag (bheap H) \<and>
    size (hbag (bheap local')) = size (hbag (bheap local)) - n"
  using assms
proof (induction n arbitrary: local H)
  case 0
  then show ?case by simp
next
  case (Suc n)
  show ?case
  proof (cases "hbag (bheap local) = {#}")
    case True
    with Suc.prems show ?thesis by (simp add: empty_iff)
  next
    case False
    then obtain x l1 where ex: "HeapWithLock_extractMin B local = Some (x, l1)"
      using extractMin_None [OF Suc.prems(1)] by fastforce
    note e = extractMin_Some [OF Suc.prems(1) ex]
    have "move_loop B n l1 (HeapWithLock_push B H x) = (local', H')"
      using Suc.prems False ex by (simp add: empty_iff)
    from Suc.IH [OF e(1) _ this] show ?thesis
      using e Suc.prems(2) by (auto simp: push_inv push_bag)
  qed
qed

lemma lp_extract_section:
  assumes ok: "lp_ok B hinv hbag N nT s" and k: "k \<le> N" "k < N \<longrightarrow> \<not> lck (lp_heaps s ! k)" and t: "tId < nT"
    and ne: "\<not> HeapWithLock_empty B (get_heap N tId s k)"
    and ex: "lp_extract_min B N (get_heap N tId (lp_locked N s k) k) k = (v, H)"
  shows "\<exists>x. v = Some x \<and> lp_ok B hinv hbag N nT (set_heap N tId (lp_locked N s k) k H) \<and>
    others_kept (lp_heaps s) (lp_heaps (set_heap N tId (lp_locked N s k) k H)) \<and>
    lp_bag hbag s = add_mset x (lp_bag hbag (set_heap N tId (lp_locked N s k) k H)) \<and>
    (\<forall>y \<in># hbag (bheap (get_heap N tId s k)). \<not> cmp x y)"
proof -
  note ok' = ok [unfolded lp_ok_def]
  show ?thesis
  proof (cases "k = N")
    case False
    with k have lt: "k < length (lp_heaps s)" "\<not> lck (lp_heaps s ! k)" using ok' by auto
    have "ProbProb_extract_min B ((lp_heaps s ! k)\<lparr>lck := True\<rparr>) = (v, H)"
      using ex False lt ok' by (auto simp: lp_extract_min_def ProbProb_extract_min_def get_heap_def
        lp_locked_def Let_def split: option.splits)
    from extract_min_section [OF conjunct1 [OF ok'] lt _ this] ne False
    obtain x where x: "v = Some x" "takes_min cmp hbag (lp_heaps s) ((lp_heaps s)[k := H]) k x"
      "mq_ok B hinv hbag ((lp_heaps s)[k := H])" "others_kept (lp_heaps s) ((lp_heaps s)[k := H])"
      by (auto simp: get_heap_def)
    with takes_min_bag [OF x(2)] ok False show ?thesis
      by (auto simp: lp_ok_def lp_bag_def set_heap_def lp_locked_def get_heap_def takes_min_def)
  next
    case True
    let ?L = "pushLocal s ! tId"
    have L: "tId < length (pushLocal s)" "\<not> lck ?L" using ok' t by auto
    have inv: "hinv (bheap ?L)" using mq_ok_nth [of B hinv hbag "pushLocal s" tId] ok' L by simp
    have "hbag (bheap ?L) \<noteq> {#}" using ne empty_iff [OF inv] True by (simp add: get_heap_def)
    then obtain x H1 where e1: "HeapWithLock_extractMin B ?L = Some (x, H1)"
      using extractMin_None [OF inv] by fastforce
    note e = extractMin_Some [OF inv e1]
    have v: "v = Some x" "H = updateMin B H1"
      using ex True e1 by (simp_all add: lp_extract_min_def get_heap_def lp_locked_def)
    have "mq_ok B hinv hbag (pushLocal s)" using ok' by blast
    note sec = critical_section [OF this L, of H] updateMin_cache [OF e(1)]
    have c: "mq_ok B hinv hbag ((pushLocal s)[tId := H])"
      "mq_bag hbag ((pushLocal s)[tId := H]) + hbag (bheap ?L) = mq_bag hbag (pushLocal s) + hbag (bheap H)"
      using sec e(1,4) L(2) by (simp_all add: v)
    have "mq_bag hbag (pushLocal s) = add_mset x (mq_bag hbag ((pushLocal s)[tId := H]))"
      using c(2) e(2) by (simp add: v)
    moreover have "\<forall>i < length (pushLocal s). \<not> lck ((pushLocal s)[tId := H] ! i)"
      using ok' L e(4) by (simp add: v nth_list_update)
    ultimately show ?thesis
      using c(1) ok' True e L(2)
      by (auto simp: lp_ok_def lp_bag_def set_heap_def lp_locked_def get_heap_def v nth_list_update)
  qed
qed

text \<open>Moving tasks from the thread's heap \<open>local\<close> into a random shared heap.\<close>

lemma lp_flush:
  assumes ok: "lp_ok B hinv hbag N nT s" and t: "tId < nT" and below: "draws_below rh N"
    and l: "lockRandomQ rh (lp_heaps s) x = Some (hs, k, x')"
    and local: "hinv (bheap local)" "\<not> lck local"
    and m: "move_loop B n local (hs ! k) = (local', H)"
    and s': "s' = s\<lparr>lp_heaps := hs[k := unlock (updateMin B H)],
      pushLocal := (pushLocal s)[tId := updateMin B local']\<rparr>"
  shows "lp_ok B hinv hbag N nT s' \<and> others_kept (lp_heaps s) (lp_heaps s') \<and>
    lp_bag hbag s' + hbag (bheap (pushLocal s ! tId)) = lp_bag hbag s + hbag (bheap local) \<and>
    size (hbag (bheap (pushLocal s' ! tId))) = size (hbag (bheap local)) - n"
proof -
  note ok' = ok [unfolded lp_ok_def]
  obtain r x1 where d: "rh x = (r, x1)" by fastforce
  have below': "draws_below rh (length (lp_heaps s))" using below ok' by simp
  have "lock_loop rh (lp_heaps s) r x1 = Some (hs, k, x')" using l d by (simp add: lockRandomQ_def)
  from lock_loop_Some [OF this below' draws_belowD [OF below' d]]
  have k: "k < length (lp_heaps s)" "\<not> lck (lp_heaps s ! k)" "hs = locked_at (lp_heaps s) k"
    by auto
  have h: "hinv (bheap (hs ! k))" "bheap (hs ! k) = bheap (lp_heaps s ! k)"
    using mq_ok_nth [OF conjunct1 [OF ok'] k(1)] k by simp_all
  note mv = move_loop_bag [OF local(1) h(1) m]
  have okp: "mq_ok B hinv hbag (pushLocal s)" using ok' by blast
  have L: "tId < length (pushLocal s)" "\<not> lck (pushLocal s ! tId)" using ok' t by auto
  have c1: "min_cache B (hbag (bheap H)) (hmin (updateMin B H))"
    "min_cache B (hbag (bheap local')) (hmin (updateMin B local'))" using mv updateMin_cache by auto
  note h1 = critical_section [OF conjunct1 [OF ok'] k(1,2), of "unlock (updateMin B H)"]
    and h2 = critical_section [OF okp L, of "updateMin B local'"]
  have "\<forall>i < length (pushLocal s). \<not> lck ((pushLocal s)[tId := updateMin B local'] ! i)"
    using ok' L mv local(2) by (simp add: nth_list_update)
  then have "lp_ok B hinv hbag N nT s'" "others_kept (lp_heaps s) (lp_heaps s')"
    using h1 h2 c1 mv local(2) ok' k(3) by (simp_all add: lp_ok_def s')
  moreover have "lp_bag hbag s' + hbag (bheap (pushLocal s ! tId)) = lp_bag hbag s + hbag (bheap local)"
  proof -
    have a: "mq_bag hbag (lp_heaps s') + hbag (bheap (lp_heaps s ! k)) = mq_bag hbag (lp_heaps s) + hbag (bheap H)"
      using h1(3) c1(1) mv k(3) by (simp add: s')
    have b: "mq_bag hbag (pushLocal s') + hbag (bheap (pushLocal s ! tId)) =
        mq_bag hbag (pushLocal s) + hbag (bheap local')"
      using h2(3) c1(2) mv local(2) by (simp add: s')
    have m: "hbag (bheap local') + hbag (bheap H) = hbag (bheap local) + hbag (bheap (lp_heaps s ! k))"
      using mv h(2) by simp
    have "lp_bag hbag s' + hbag (bheap (pushLocal s ! tId)) + hbag (bheap (lp_heaps s ! k)) =
        lp_bag hbag s + hbag (bheap local) + hbag (bheap (lp_heaps s ! k))"
    proof -
      have "lp_bag hbag s' + hbag (bheap (pushLocal s ! tId)) + hbag (bheap (lp_heaps s ! k)) =
          (mq_bag hbag (lp_heaps s') + hbag (bheap (lp_heaps s ! k))) +
          (mq_bag hbag (pushLocal s') + hbag (bheap (pushLocal s ! tId)))"
        by (simp only: lp_bag_def ac_simps)
      also have "\<dots> = lp_bag hbag s + (hbag (bheap local') + hbag (bheap H))"
        unfolding a b by (simp only: lp_bag_def ac_simps)
      finally show ?thesis unfolding m by (simp only: ac_simps)
    qed
    then show ?thesis by (rule add_right_imp_eq)
  qed
  moreover have "size (hbag (bheap (pushLocal s' ! tId))) = size (hbag (bheap local)) - n"
    using mv L(1) by (simp add: s')
  ultimately show ?thesis by blast
qed

text \<open>Replacing the thread's own heap by another one with a right cache.\<close>

lemma lp_set_local:
  assumes ok: "lp_ok B hinv hbag N nT s" and t: "tId < nT" and H: "hinv (bheap H)" "\<not> lck H"
    and s': "s' = s\<lparr>pushLocal := (pushLocal s)[tId := updateMin B H]\<rparr>"
  shows "lp_ok B hinv hbag N nT s' \<and>
    lp_bag hbag s' + hbag (bheap (pushLocal s ! tId)) = lp_bag hbag s + hbag (bheap H)"
proof -
  note ok' = ok [unfolded lp_ok_def]
  have okp: "mq_ok B hinv hbag (pushLocal s)" using ok' by blast
  have L: "tId < length (pushLocal s)" "\<not> lck (pushLocal s ! tId)" using ok' t by auto
  note h = critical_section [OF okp L, of "updateMin B H"]
  have "\<forall>i < length (pushLocal s). \<not> lck ((pushLocal s)[tId := updateMin B H] ! i)"
    using ok' L H(2) by (simp add: nth_list_update)
  with h ok' H updateMin_cache [OF H(1)] show ?thesis by (simp add: lp_ok_def lp_bag_def s')
qed

lemma lp_pushLocally_Some:
  assumes "lp_pushLocally B rh m tId s x val = Some (s', x')" "draws_below rh N"
    and ok: "lp_ok B hinv hbag N nT s" and t: "tId < nT"
  shows "lp_ok B hinv hbag N nT s' \<and> others_kept (lp_heaps s) (lp_heaps s') \<and>
    lp_bag hbag s' = add_mset val (lp_bag hbag s) \<and>
    (0 < m \<longrightarrow> size (hbag (bheap (pushLocal s' ! tId))) < m)"
proof -
  note ok' = ok [unfolded lp_ok_def]
  let ?L = "pushLocal s ! tId"
  let ?l = "HeapWithLock_push B ?L val"
  have L: "tId < length (pushLocal s)" "\<not> lck ?L" using ok' t by auto
  have inv: "hinv (bheap ?L)" using mq_ok_nth [of B hinv hbag "pushLocal s" tId] ok' L by simp
  then have l: "hinv (bheap ?l)" "\<not> lck ?l" "hbag (bheap ?l) = add_mset val (hbag (bheap ?L))"
    using L push_inv push_bag by simp_all
  show ?thesis
  proof (cases "h_size B (bheap ?l) \<ge> m")
    case True
    with assms(1) obtain hs k x1 where lk: "lockRandomQ rh (lp_heaps s) x = Some (hs, k, x1)"
      by (auto simp: lp_pushLocally_def Let_def split: option.splits)
    obtain l' H where mv: "move_loop B (h_size B (bheap ?l)) ?l (hs ! k) = (l', H)" by fastforce
    have "s' = s\<lparr>lp_heaps := hs[k := unlock (updateMin B H)], pushLocal := (pushLocal s)[tId := updateMin B l']\<rparr>"
      using assms(1) True lk mv by (simp add: lp_pushLocally_def Let_def)
    from lp_flush [OF ok t assms(2) lk l(1,2) mv this] l(3) size_bag [OF l(1)] show ?thesis
      by simp
  next
    case False
    with assms(1) have s': "s' = s\<lparr>pushLocal := (pushLocal s)[tId := updateMin B ?l]\<rparr>"
      by (simp add: lp_pushLocally_def Let_def)
    have "size (hbag (bheap (pushLocal s' ! tId))) < m"
      using False L size_bag [OF l(1)] by (simp add: s')
    with lp_set_local [OF ok t l(1,2) s'] l(3) show ?thesis by (simp add: s')
  qed
qed

lemma localProb_push_Some:
  assumes "localProb_push B rh m tId s x n es = Some (s', x', n')" "draws_below rh N"
    and "lp_ok B hinv hbag N nT s" "tId < nT"
  shows "lp_ok B hinv hbag N nT s' \<and> others_kept (lp_heaps s) (lp_heaps s') \<and>
    lp_bag hbag s' = lp_bag hbag s + mset es \<and> n' = n + of_nat (length es) \<and>
    (0 < m \<and> es \<noteq> [] \<longrightarrow> size (hbag (bheap (pushLocal s' ! tId))) < m)"
  using assms(1,3)
proof (induction es arbitrary: s x n)
  case Nil
  then show ?case by simp
next
  case (Cons e es)
  from Cons.prems(1) obtain s1 x1 where p: "lp_pushLocally B rh m tId s x e = Some (s1, x1)"
    and l: "localProb_push B rh m tId s1 x1 (n + 1) es = Some (s', x', n')"
    by (auto split: option.splits)
  note q = lp_pushLocally_Some [OF p assms(2) Cons.prems(2) assms(4)]
  then have ok: "lp_ok B hinv hbag N nT s1" by blast
  have "es = [] \<Longrightarrow> s' = s1" using l by simp
  with Cons.IH [OF l ok] q show ?case by (auto intro: others_kept_trans)
qed

lemma lp_own_pop_Some:
  assumes "lp_own_pop B rh tId s x = Some (s', x', r)" "draws_below rh N"
    and ok: "lp_ok B hinv hbag N nT s" and t: "tId < nT" and ne: "\<not> HeapWithLock_empty B (pushLocal s ! tId)"
  shows "\<exists>v. r = Some v \<and> lp_ok B hinv hbag N nT s' \<and> others_kept (lp_heaps s) (lp_heaps s') \<and>
    lp_bag hbag s = add_mset v (lp_bag hbag s') \<and> (\<forall>y \<in># hbag (bheap (pushLocal s ! tId)). \<not> cmp v y)"
proof -
  note ok' = ok [unfolded lp_ok_def]
  let ?L = "pushLocal s ! tId"
  have L: "tId < length (pushLocal s)" "\<not> lck ?L" using ok' t by auto
  have inv: "hinv (bheap ?L)" using mq_ok_nth [of B hinv hbag "pushLocal s" tId] ok' L by simp
  have "hbag (bheap ?L) \<noteq> {#}" using ne empty_iff [OF inv] by simp
  then obtain v l1 where e1: "HeapWithLock_extractMin B ?L = Some (v, l1)"
    using extractMin_None [OF inv] by fastforce
  note e = extractMin_Some [OF inv e1]
  have l: "hinv (bheap l1)" "\<not> lck l1" using e L by simp_all
  have cancel: "a = add_mset v b" if "b + hbag (bheap ?L) = a + hbag (bheap l1)" for a b
    using that e(2) by simp
  show ?thesis
  proof (cases "HeapWithLock_empty B l1")
    case True
    with assms(1) e1 have s': "s' = s\<lparr>pushLocal := (pushLocal s)[tId := updateMin B l1]\<rparr>" "r = Some v"
      by (simp_all add: lp_own_pop_def)
    from lp_set_local [OF ok t l s'(1)] cancel [of "lp_bag hbag s'" "lp_bag hbag s"] e(3) s'
    show ?thesis by simp
  next
    case False
    with assms(1) e1 obtain hs k x1 where lk: "lockRandomQ rh (lp_heaps s) x = Some (hs, k, x1)"
      by (auto simp: lp_own_pop_def split: option.splits)
    obtain l' H where mv: "move_loop B 4 l1 (hs ! k) = (l', H)" by fastforce
    have s': "s' = s\<lparr>lp_heaps := hs[k := unlock (updateMin B H)], pushLocal := (pushLocal s)[tId := updateMin B l']\<rparr>"
      "r = Some v"
      using assms(1) False e1 lk mv by (simp_all add: lp_own_pop_def)
    from lp_flush [OF ok t assms(2) lk l mv s'(1)] cancel [of "lp_bag hbag s'" "lp_bag hbag s"] e(3) s'(2)
    show ?thesis by simp
  qed
qed

text \<open>The thread's \<open>local_q\<close> of \<open>pop\<close> may be the number \<open>N\<close> of its own heap.\<close>

lemma localProb_pop_Some:
  assumes "localProb_pop B rh rhl relocal N c tId s t = Some (s', t', r)"
    and "draws_below rh N" "draws_below rhl (N + 1)" "keeps_range relocal (N + 1)"
    and ok: "lp_ok B hinv hbag N nT s" and t: "tId < nT" and th: "pred_option (\<lambda>q. q \<le> N) (pop_q t)"
  shows "lp_ok B hinv hbag N nT s' \<and> others_kept (lp_heaps s) (lp_heaps s') \<and>
    pred_option (\<lambda>q. q \<le> N) (pop_q t') \<and>
    (case r of
       None \<Rightarrow> s' = s \<and> hbag (bheap (pushLocal s ! tId)) = {#}
     | Some x \<Rightarrow> lp_bag hbag s = add_mset x (lp_bag hbag s') \<and>
         (\<exists>k \<le> N. \<forall>y \<in># hbag (bheap (get_heap N tId s k)). \<not> cmp x y))"
proof -
  note ok' = ok [unfolded lp_ok_def]
  have N: "N = length (lp_heaps s)" using ok' by simp
  obtain q x where i: "init_local_q rh (pop_q t) (rng t) = (q, x)" by fastforce
  have "draws_below rh (N + 1)" using assms(2) by (simp add: draws_below_def less_SucI)
  then have q: "q \<le> N"
    using init_local_q_below [of rh "N + 1" "pop_q t" "rng t" q x] i th
    by (auto simp: less_Suc_eq_le option.pred_set)
  obtain ch x0 where rnd: "random x = (ch, x0)" by fastforce
  obtain s0 v0 where lp: "(if remainder ch c > 0 then lp_local_pop B N tId s q else (s, None)) = (s0, v0)"
    by fastforce
  have own: "hinv (bheap (pushLocal s ! tId))"
    using mq_ok_nth [of B hinv hbag "pushLocal s" tId] ok' t by simp
  have l: "case v0 of None \<Rightarrow> s0 = s
    | Some y \<Rightarrow> lp_ok B hinv hbag N nT s0 \<and> others_kept (lp_heaps s) (lp_heaps s0) \<and>
        lp_bag hbag s = add_mset y (lp_bag hbag s0) \<and> (\<forall>z \<in># hbag (bheap (get_heap N tId s q)). \<not> cmp y z)"
  proof (cases "remainder ch c > 0 \<and> (q < N \<longrightarrow> \<not> lck (lp_heaps s ! q))")
    case True
    then have tl: "try_lock_heap N s q = (True, lp_locked N s q)" using q by (simp add: try_lock_heap_True)
    show ?thesis
    proof (cases "HeapWithLock_empty B (get_heap N tId s q)")
      case e: True
      then have "s0 = s \<and> v0 = None"
        using lp True tl q N by (auto simp: lp_local_pop_def empty_lp_locked unlock_lp_locked)
      then show ?thesis by simp
    next
      case e: False
      obtain v H where ex: "lp_extract_min B N (get_heap N tId (lp_locked N s q) q) q = (v, H)" by fastforce
      have "s0 = set_heap N tId (lp_locked N s q) q H" "v0 = v"
        using lp True tl q N e ex by (auto simp: lp_local_pop_def empty_lp_locked)
      with lp_extract_section [OF ok q _ t e ex] True show ?thesis by auto
    qed
  next
    case False
    have "s0 = s \<and> v0 = None"
    proof (cases "remainder ch c > 0")
      case True
      with False have "q < N" "lck (lp_heaps s ! q)" by auto
      then have "try_lock_heap N s q = (False, s)"
        by (simp add: try_lock_heap_def try_lock_at_def try_lock_def list_update_id)
      with lp True show ?thesis by (simp add: lp_local_pop_def)
    qed (use lp in simp)
    then show ?thesis by simp
  qed
  show ?thesis
  proof (cases v0)
    case (Some y)
    with assms(1) i rnd lp have "s' = s0" "t' = t\<lparr>rng := x0, pop_q := Some q\<rparr>" "r = Some y"
      by (auto simp: localProb_pop_def)
    with l Some q show ?thesis by auto
  next
    case None
    with l have s0: "s0 = s" by simp
    obtain s1 r1 x1 where a: "lp_attempts B rhl N tId ATTEMPTS s x0 = Some (s1, r1, x1)"
      using assms(1) i rnd lp None s0 by (auto simp: localProb_pop_def split: option.splits)
    note at = lp_attempts_Some [OF a assms(3) N]
    show ?thesis
    proof (cases r1)
      case r1: (Some k)
      obtain q2 x2 where rl: "relocal k x1 = (q2, x2)" by fastforce
      obtain v H where ex: "lp_extract_min B N (get_heap N tId s1 k) k = (v, H)" by fastforce
      have k: "k \<le> N" "k < N \<longrightarrow> \<not> lck (lp_heaps s ! k)" "s1 = lp_locked N s k"
        "\<not> HeapWithLock_empty B (get_heap N tId s k)"
        using at r1 by (auto dest: two_choice_less)
      have "s' = set_heap N tId s1 k H" "t' = t\<lparr>rng := x2, pop_q := Some q2\<rparr>" "r = v"
        using assms(1) i rnd lp None s0 a r1 rl ex by (auto simp: localProb_pop_def)
      moreover have "q2 \<le> N" using keeps_rangeD [OF assms(4) rl] k(1) by simp
      ultimately show ?thesis
        using lp_extract_section [OF ok k(1,2) t k(4) ex [unfolded k(3)]] k by auto
    next
      case r1: None
      with at have s1: "s1 = s" by simp
      show ?thesis
      proof (cases "HeapWithLock_empty B (pushLocal s ! tId)")
        case False
        with assms(1) i rnd lp None s0 a r1 s1 obtain x2 where
          o: "lp_own_pop B rh tId s x1 = Some (s', x2, r)" and t': "t' = t\<lparr>rng := x2, pop_q := Some q\<rparr>"
          by (auto simp: localProb_pop_def)
        from lp_own_pop_Some [OF o assms(2) ok t False] q show ?thesis
          by (auto simp: t' get_heap_def intro: exI [of _ N])
      next
        case True
        obtain q2 x2 where rl: "relocal q x1 = (q2, x2)" by fastforce
        have "s' = s" "t' = t\<lparr>rng := x2, pop_q := Some q2\<rparr>" "r = None"
          using assms(1) i rnd lp None s0 a r1 s1 True rl by (auto simp: localProb_pop_def)
        moreover have "q2 \<le> N" using keeps_rangeD [OF assms(4) rl] q by simp
        ultimately show ?thesis using ok True empty_iff [OF own] by simp
      qed
    qed
  qed
qed

end

section \<open>Properties\<close>

lemma rand_heap_with_local_below: "draws_below (rand_heap_with_local nQ) (nQ + 1)"
  by (simp add: draws_below_def rand_heap_with_local_def rand_mod_less del: add_Suc_right)

text \<open>
  \<open>push\<close> of \<open>MultiQueueLocalProb\<close> adds exactly the given tasks to the structure, counts
  them, keeps every cached minimum right and leaves fewer than \<open>PushSize\<close> tasks in the
  thread's own heap.
\<close>

theorem MultiQueueLocalProb_push_correct:
  assumes "task_heap cmp B hinv hbag" "lp_ok B hinv hbag N nT s" "0 < N" "tId < nT"
    and "MultiQueueLocalProb_push B N m tId s t es = Some (s', t', n)"
  shows "lp_ok B hinv hbag N nT s' \<and> others_kept (lp_heaps s) (lp_heaps s') \<and>
    lp_bag hbag s' = lp_bag hbag s + mset es \<and> n = of_nat (length es) \<and>
    (0 < m \<and> es \<noteq> [] \<longrightarrow> size (hbag (bheap (pushLocal s' ! tId))) < m)"
proof -
  from assms(5) obtain x where p: "localProb_push B (rand_heap N) m tId s (rng t) 0 es = Some (s', x, n)"
    by (auto simp: MultiQueueLocalProb_push_def)
  from task_heap.localProb_push_Some [OF assms(1) p rand_heap_below [OF assms(3)] assms(2,4)]
  show ?thesis by simp
qed

text \<open>
  \<open>pop\<close> of \<open>MultiQueueLocalProb\<close> removes exactly the task it returns, a minimum of a
  shared heap or of the thread's own one; it returns none only when the own heap is empty, and
  then changes nothing.
\<close>

theorem MultiQueueLocalProb_pop_correct:
  assumes "task_heap cmp B hinv hbag" "lp_ok B hinv hbag N nT s" "0 < N" "tId < nT"
    and "pred_option (\<lambda>q. q \<le> N) (pop_q t)"
    and "MultiQueueLocalProb_pop B N c tId s t = Some (s', t', r)"
  shows "lp_ok B hinv hbag N nT s' \<and> others_kept (lp_heaps s) (lp_heaps s') \<and>
    pred_option (\<lambda>q. q \<le> N) (pop_q t') \<and>
    (case r of
       None \<Rightarrow> s' = s \<and> hbag (bheap (pushLocal s ! tId)) = {#}
     | Some x \<Rightarrow> lp_bag hbag s = add_mset x (lp_bag hbag s') \<and>
         (\<exists>k \<le> N. \<forall>y \<in># hbag (bheap (get_heap N tId s k)). \<not> cmp x y))"
  using task_heap.localProb_pop_Some [OF assms(1) _ rand_heap_below [OF assms(3)]
      rand_heap_with_local_below stay_keeps assms(2,4,5)] assms(6)
  by (simp add: MultiQueueLocalProb_pop_def)

text \<open>A state for the witnesses: two shared heaps and one thread with an own heap.\<close>

definition req_lp :: "nat update_request list \<Rightarrow> nat update_request list \<Rightarrow> nat update_request DAryHeap mq_lp" where
  "req_lp es b = \<lparr>lp_heaps = req_heaps es, pushLocal = [req_lockable b]\<rparr>"

lemma req_lp_ok: "lp_ok req_heap req_inv req_bag 2 1 (req_lp es b)"
  "lp_bag req_bag (req_lp es b) = mset es + mset b"
  using req_heaps_ok [of es] req_lockable_ok [of b]
  by (simp_all add: lp_ok_def req_lp_def lp_bag_def mq_ok_def mq_bag_def)

theorem MultiQueueLocalProb_push_correct_witness:
  "\<exists>s' t'. MultiQueueLocalProb_push req_heap 2 2 0 (req_lp [] [UpdateRequest 6 1]) new_thread
       [UpdateRequest 3 8, UpdateRequest 4 6] = Some (s', t', 2) \<and>
     lp_bag req_bag s' = mset [UpdateRequest 6 1, UpdateRequest 3 8, UpdateRequest 4 6] \<and>
     size (req_bag (bheap (pushLocal s' ! 0))) < 2"
proof -
  let ?push = "MultiQueueLocalProb_push req_heap 2 2 0 (req_lp [] [UpdateRequest 6 1]) new_thread
       [UpdateRequest 3 8, UpdateRequest 4 6]"
  have "map_option (\<lambda>(s', t', n). n) ?push = Some 2" by code_simp
  then obtain s' t' where r: "?push = Some (s', t', 2)" by auto
  show ?thesis
    using MultiQueueLocalProb_push_correct [OF req.task_heap_axioms req_lp_ok(1) _ _ r] r
    by (auto simp: req_lp_ok(2))
qed

theorem MultiQueueLocalProb_pop_correct_witness:
  "\<exists>s' t'. MultiQueueLocalProb_pop req_heap 2 8 0 (req_lp [UpdateRequest 3 8] [UpdateRequest 4 6])
       (new_thread\<lparr>pop_q := Some 2\<rparr>) = Some (s', t', Some (UpdateRequest 4 6)) \<and>
     {#UpdateRequest 3 8, UpdateRequest 4 6#} = add_mset (UpdateRequest 4 6) (lp_bag req_bag s')"
proof -
  let ?pop = "MultiQueueLocalProb_pop req_heap 2 8 0 (req_lp [UpdateRequest 3 8] [UpdateRequest 4 6])
       (new_thread\<lparr>pop_q := Some 2\<rparr>)"
  have "map_option (\<lambda>(s', t', r). r) ?pop = Some (Some (UpdateRequest 4 6))" by code_simp
  then obtain s' t' where r: "?pop = Some (s', t', Some (UpdateRequest 4 6))" by auto
  have "lp_bag req_bag (req_lp [UpdateRequest 3 8] [UpdateRequest 4 6]) =
      add_mset (UpdateRequest 4 6) (lp_bag req_bag s')"
    using MultiQueueLocalProb_pop_correct [OF req.task_heap_axioms req_lp_ok(1) _ _ _ r] by simp
  with r show ?thesis by (simp add: req_lp_ok(2) add_mset_commute)
qed

text \<open>
  The NUMA variant: \<open>push\<close> adds exactly the given tasks, \<open>pop\<close> removes exactly the task
  it returns, a minimum of the heap it came from.
\<close>

theorem MultiQueueLocalProbNuma_correct:
  assumes "task_heap cmp B hinv hbag" "lp_ok B hinv hbag (numa_nQ c) nT s" "numa_ok c tId" "tId < nT"
    and "pred_option (\<lambda>q. q \<le> numa_nQ c) (pop_q t)"
  shows "(\<forall>s' t' n. MultiQueueLocalProbNuma_push B c m tId s t es = Some (s', t', n) \<longrightarrow>
      lp_ok B hinv hbag (numa_nQ c) nT s' \<and> others_kept (lp_heaps s) (lp_heaps s') \<and>
      lp_bag hbag s' = lp_bag hbag s + mset es \<and> n = of_nat (length es)) \<and>
    (\<forall>s' t' r. MultiQueueLocalProbNuma_pop B c d tId s t = Some (s', t', r) \<longrightarrow>
      lp_ok B hinv hbag (numa_nQ c) nT s' \<and> others_kept (lp_heaps s) (lp_heaps s') \<and>
      (case r of
         None \<Rightarrow> s' = s \<and> hbag (bheap (pushLocal s ! tId)) = {#}
       | Some x \<Rightarrow> lp_bag hbag s = add_mset x (lp_bag hbag s') \<and>
           (\<exists>k \<le> numa_nQ c. \<forall>y \<in># hbag (bheap (get_heap (numa_nQ c) tId s k)). \<not> cmp x y)))"
proof (intro conjI allI impI)
  note below = numa_below [OF assms(3)]
  fix s' t' n
  assume "MultiQueueLocalProbNuma_push B c m tId s t es = Some (s', t', n)"
  then obtain x where "localProb_push B (numa_rand_heap c tId) m tId s (rng t) 0 es = Some (s', x, n)"
    by (auto simp: MultiQueueLocalProbNuma_push_def)
  from task_heap.localProb_push_Some [OF assms(1) this below assms(2,4)]
  show "lp_ok B hinv hbag (numa_nQ c) nT s'" "others_kept (lp_heaps s) (lp_heaps s')"
    "lp_bag hbag s' = lp_bag hbag s + mset es" "n = of_nat (length es)" by simp_all
next
  have range: "keeps_range (relocalNuma c tId) (numa_nQ c + 1)"
    using numa_below [OF assms(3)]
    by (auto simp: keeps_range_def relocalNuma_def draws_below_def less_SucI)
  fix s' t' r
  assume "MultiQueueLocalProbNuma_pop B c d tId s t = Some (s', t', r)"
  then have "localProb_pop B (numa_rand_heap c tId) (numa_rand_heap_with_local c tId) (relocalNuma c tId)
      (numa_nQ c) d tId s t = Some (s', t', r)"
    by (simp add: MultiQueueLocalProbNuma_pop_def)
  note p = task_heap.localProb_pop_Some [OF assms(1) this numa_below [OF assms(3)]
      numa_with_local_below [OF assms(3)] range assms(2,4,5)]
  then show "lp_ok B hinv hbag (numa_nQ c) nT s'" "others_kept (lp_heaps s) (lp_heaps s')"
    "case r of None \<Rightarrow> s' = s \<and> hbag (bheap (pushLocal s ! tId)) = {#}
     | Some x \<Rightarrow> lp_bag hbag s = add_mset x (lp_bag hbag s') \<and>
         (\<exists>k \<le> numa_nQ c. \<forall>y \<in># hbag (bheap (get_heap (numa_nQ c) tId s k)). \<not> cmp x y)"
    by blast+
qed

theorem MultiQueueLocalProbNuma_correct_witness:
  "\<exists>s' t'. MultiQueueLocalProbNuma_pop req_heap two_socket_cfg 8 0
       (req_lp [UpdateRequest 3 8] [UpdateRequest 4 6]) (new_thread\<lparr>pop_q := Some 2\<rparr>) =
       Some (s', t', Some (UpdateRequest 4 6)) \<and>
     {#UpdateRequest 3 8, UpdateRequest 4 6#} = add_mset (UpdateRequest 4 6) (lp_bag req_bag s')"
proof -
  let ?pop = "MultiQueueLocalProbNuma_pop req_heap two_socket_cfg 8 0
       (req_lp [UpdateRequest 3 8] [UpdateRequest 4 6]) (new_thread\<lparr>pop_q := Some 2\<rparr>)"
  have c: "numa_ok two_socket_cfg 0" "numa_nQ two_socket_cfg = 2"
    by (simp_all add: numa_ok_def numa_nQ_def two_socket_cfg_def)
  have x: "random (rng new_thread) = (270369, 270369)" "remainder 270369 8 > 0" by code_simp+
  have "snd (lp_local_pop req_heap 2 0 (req_lp [UpdateRequest 3 8] [UpdateRequest 4 6]) 2) =
      Some (UpdateRequest 4 6)" by code_simp
  then obtain s' t' where r: "?pop = Some (s', t', Some (UpdateRequest 4 6))"
    by (cases "lp_local_pop req_heap 2 0 (req_lp [UpdateRequest 3 8] [UpdateRequest 4 6]) 2")
      (simp add: MultiQueueLocalProbNuma_pop_def localProb_pop_def init_local_q_def c x)
  have th: "pred_option (\<lambda>q. q \<le> numa_nQ two_socket_cfg) (pop_q (new_thread\<lparr>pop_q := Some 2\<rparr>))"
    by (simp add: c(2))
  note correct = MultiQueueLocalProbNuma_correct [where m = 1 and es = "[]" and d = 8 and tId = 0,
      OF req.task_heap_axioms req_lp_ok(1) [folded c(2)] c(1) zero_less_one th]
  have "lp_bag req_bag (req_lp [UpdateRequest 3 8] [UpdateRequest 4 6]) =
      add_mset (UpdateRequest 4 6) (lp_bag req_bag s')"
    by (rule case_Some_conjunct1
        [OF conjunct2 [OF conjunct2 [OF conjunct2 [OF correct, THEN spec, THEN spec, THEN spec, THEN mp, OF r]]]])
  with r show ?thesis by (simp add: req_lp_ok(2) add_mset_commute)
qed

end
