(* ===== verification/StealBuffer.thy ===== *)
theory StealBuffer
  imports DAryHeap ThreadRandom
begin

text \<open>
  \<open>HeapWithStealBuffer\<close> of \<open>WorkList/StealingMultiQueue.h\<close>: the heap of one thread of a
  StealingMultiQueue with the buffer of its smallest tasks that other threads may steal as a
  whole. The version counter is odd while the buffer is on offer and even once it is stolen.

  The operations here are the code's, each run without interference (\<open>StealProtocol\<close> runs
  owner and thieves step by step). The class has its own copy of the array heap, line by line
  that of \<open>Heap.h\<close>, whose model in \<open>DAryHeap\<close> is used. The main result: as a priority queue
  the structure is a bag, the tasks of the heap together with those on offer, and
  \<open>extractMin\<close> takes a minimum of that bag.
\<close>

section \<open>The structure\<close>

text \<open>The template parameters and the static \<open>dummy\<close>.\<close>

record 'a steal_cfg =
  compare :: "'a \<Rightarrow> 'a \<Rightarrow> bool"
  STEAL_NUM :: nat
  arity :: nat
  dummyT :: 'a

record 'a HeapWithStealBuffer =
  local_heap :: "'a list"
  stealBuffer :: "'a list"
  version :: u64

definition HeapWithStealBuffer_init :: "'a steal_cfg \<Rightarrow> 'a HeapWithStealBuffer" where
  "HeapWithStealBuffer_init P =
     \<lparr>local_heap = [], stealBuffer = replicate (STEAL_NUM P) (dummyT P), version = 0\<rparr>"

definition isDummy :: "'a steal_cfg \<Rightarrow> 'a \<Rightarrow> bool" where
  "isDummy P element \<longleftrightarrow> element = dummyT P"

definition isBufferStolen :: "'a HeapWithStealBuffer \<Rightarrow> bool" where
  "isBufferStolen H \<longleftrightarrow> version H mod 2 = 0"

section \<open>The heap\<close>

text \<open>\<open>heap[0]\<close> of an empty vector is undefined: \<open>None\<close>.\<close>

definition popLocally ::
    "'a steal_cfg \<Rightarrow> 'a HeapWithStealBuffer \<Rightarrow> ('a \<times> 'a HeapWithStealBuffer) option" where
  "popLocally P H =
     (case extract_root (compare P) (arity P) (local_heap H) of
        None \<Rightarrow> None
      | Some (res, h) \<Rightarrow> Some (res, H\<lparr>local_heap := h\<rparr>))"

definition heapPush :: "'a steal_cfg \<Rightarrow> 'a HeapWithStealBuffer \<Rightarrow> 'a \<Rightarrow> 'a HeapWithStealBuffer" where
  "heapPush P H val =
     H\<lparr>local_heap := fst (sift_up (compare P) (arity P) (local_heap H @ [val]) (length (local_heap H)))\<rparr>"

section \<open>The steal buffer\<close>

text \<open>
  \<open>getBufferMin\<close> from what its three loads return, the version before, the first cell and the
  version after; the second result is \<open>raceHappened\<close>. Without interference the loads see one state.
\<close>

definition read_min :: "'a steal_cfg \<Rightarrow> u64 \<Rightarrow> 'a \<Rightarrow> u64 \<Rightarrow> 'a \<times> bool" where
  "read_min P v1 minVal v2 =
     (if v1 mod 2 = 0 then (dummyT P, False)
      else if v1 = v2 then (minVal, False)
      else (dummyT P, True))"

definition getBufferMin :: "'a steal_cfg \<Rightarrow> 'a HeapWithStealBuffer \<Rightarrow> 'a \<times> bool" where
  "getBufferMin P H = read_min P (version H) (stealBuffer H ! 0) (version H)"

text \<open>
  The loop of \<open>fillBuffer\<close>: up to \<open>n\<close> smallest elements of the heap. In this class the fill
  size \<open>n\<close> is always \<open>STEAL_NUM\<close>; the adaptive variant (\<open>StealBufferAdap\<close>) passes its own.
\<close>

fun pop_several ::
    "'a steal_cfg \<Rightarrow> nat \<Rightarrow> 'a HeapWithStealBuffer \<Rightarrow> 'a list \<times> 'a HeapWithStealBuffer" where
  "pop_several P 0 H = ([], H)"
| "pop_several P (Suc n) H =
     (case popLocally P H of
        None \<Rightarrow> ([], H)
      | Some (x, H1) \<Rightarrow> (case pop_several P n H1 of (xs, H2) \<Rightarrow> (x # xs, H2)))"

definition fill_upto ::
    "'a steal_cfg \<Rightarrow> nat \<Rightarrow> 'a HeapWithStealBuffer \<Rightarrow> 'a \<times> 'a HeapWithStealBuffer" where
  "fill_upto P n H =
     (if local_heap H = [] then (dummyT P, H)
      else case pop_several P n H of
        (xs, H1) \<Rightarrow>
          let elements = xs @ replicate (STEAL_NUM P - length xs) (dummyT P)
          in (elements ! 0, H1\<lparr>stealBuffer := elements, version := version H1 + 1\<rparr>))"

definition fillBuffer :: "'a steal_cfg \<Rightarrow> 'a HeapWithStealBuffer \<Rightarrow> 'a \<times> 'a HeapWithStealBuffer" where
  "fillBuffer P H = fill_upto P (STEAL_NUM P) H"

definition fill_if_stolen ::
    "'a steal_cfg \<Rightarrow> nat \<Rightarrow> 'a HeapWithStealBuffer \<Rightarrow> 'a HeapWithStealBuffer" where
  "fill_if_stolen P n H = (if isBufferStolen H then snd (fill_upto P n H) else H)"

definition fillBufferIfStolen :: "'a steal_cfg \<Rightarrow> 'a HeapWithStealBuffer \<Rightarrow> 'a HeapWithStealBuffer" where
  "fillBufferIfStolen P H = fill_if_stolen P (STEAL_NUM P) H"

definition min_writer ::
    "'a steal_cfg \<Rightarrow> nat \<Rightarrow> 'a HeapWithStealBuffer \<Rightarrow> 'a \<times> 'a HeapWithStealBuffer" where
  "min_writer P n H =
     (let v1 = version H; minVal = stealBuffer H ! 0; v2 = version H in
      if v1 mod 2 \<noteq> 0 \<and> v1 = v2 then (minVal, H) else fill_upto P n H)"

definition getMinWriter :: "'a steal_cfg \<Rightarrow> 'a HeapWithStealBuffer \<Rightarrow> 'a \<times> 'a HeapWithStealBuffer" where
  "getMinWriter P H = min_writer P (STEAL_NUM P) H"

text \<open>\<open>trySteal\<close>: the buffer as it was read, the new state and \<open>raceHappened\<close>.\<close>

definition trySteal ::
    "'a HeapWithStealBuffer \<Rightarrow> 'a list option \<times> 'a HeapWithStealBuffer \<times> bool" where
  "trySteal H =
     (let v1 = version H in
      if v1 mod 2 = 0 then (None, H, False)
      else
        let buffer = stealBuffer H in
        if version H = v1 then (Some buffer, H\<lparr>version := v1 + 1\<rparr>, False)
        else (None, H, True))"

text \<open>The elements a thief keeps for later: those after the first, up to the first dummy.\<close>

definition rest_of :: "'a steal_cfg \<Rightarrow> 'a list \<Rightarrow> 'a list" where
  "rest_of P elements = takeWhile (\<lambda>x. \<not> isDummy P x) (drop 1 elements)"

definition tryStealLocally ::
    "'a steal_cfg \<Rightarrow> 'a HeapWithStealBuffer \<Rightarrow> 'a option \<times> 'a HeapWithStealBuffer" where
  "tryStealLocally P H =
     (case trySteal H of
        (Some elements, H1, race) \<Rightarrow> (Some (elements ! 0), foldl (heapPush P) H1 (rest_of P elements))
      | (None, H1, race) \<Rightarrow> (None, H1))"

text \<open>\<open>extractMin\<close>. The heap is not empty where \<open>popLocally\<close> is called.\<close>

definition pop_or_refill ::
    "'a steal_cfg \<Rightarrow> nat \<Rightarrow> 'a \<Rightarrow> 'a HeapWithStealBuffer \<Rightarrow> 'a option \<times> 'a HeapWithStealBuffer" where
  "pop_or_refill P n bufferMin H =
     (case popLocally P H of
        None \<Rightarrow> (None, H)
      | Some (localMin, H1) \<Rightarrow>
          (Some localMin, if isDummy P bufferMin then snd (fill_upto P n H1) else H1))"

definition extract_upto ::
    "'a steal_cfg \<Rightarrow> nat \<Rightarrow> 'a HeapWithStealBuffer \<Rightarrow> 'a option \<times> 'a HeapWithStealBuffer" where
  "extract_upto P n H =
     (if local_heap H = [] then tryStealLocally P H
      else
        let bufferMin = fst (getBufferMin P H) in
        if \<not> isDummy P bufferMin \<and> compare P (local_heap H ! 0) bufferMin then
          (case tryStealLocally P H of
             (Some stolen, H1) \<Rightarrow> (Some stolen, snd (fill_upto P n H1))
           | (None, H1) \<Rightarrow> pop_or_refill P n bufferMin H1)
        else pop_or_refill P n bufferMin H)"

definition steal_extractMin ::
    "'a steal_cfg \<Rightarrow> 'a HeapWithStealBuffer \<Rightarrow> 'a option \<times> 'a HeapWithStealBuffer" where
  "steal_extractMin P H = extract_upto P (STEAL_NUM P) H"

section \<open>What the structure holds\<close>

text \<open>The tasks on offer, the bag of all tasks and the invariant of the owner.\<close>

definition batch :: "'a steal_cfg \<Rightarrow> 'a HeapWithStealBuffer \<Rightarrow> 'a list" where
  "batch P H = (if isBufferStolen H then [] else stealBuffer H ! 0 # rest_of P (stealBuffer H))"

definition steal_bag :: "'a steal_cfg \<Rightarrow> 'a HeapWithStealBuffer \<Rightarrow> 'a multiset" where
  "steal_bag P H = mset (local_heap H) + mset (batch P H)"

definition cfg_ok :: "'a steal_cfg \<Rightarrow> bool" where
  "cfg_ok P \<longleftrightarrow> 0 < STEAL_NUM P \<and> 0 < arity P"

definition steal_ok :: "'a steal_cfg \<Rightarrow> 'a HeapWithStealBuffer \<Rightarrow> bool" where
  "steal_ok P H \<longleftrightarrow>
     is_heap (compare P) (arity P) (local_heap H) \<and> length (stealBuffer H) = STEAL_NUM P \<and>
     dummyT P \<notin># steal_bag P H \<and> sorted_wrt (\<lambda>x y. \<not> compare P x y) (batch P H)"

lemma extract_root_Nil [simp]: "extract_root cmp D [] = None"
  by (simp only: extract_root_None)

lemma word_parity [simp]: "(v + 1) mod 2 = 0 \<longleftrightarrow> v mod 2 \<noteq> (0 :: u64)"
  by (simp flip: even_iff_mod_2_eq_zero)

lemma in_batchD: "x \<in> set (rest_of P xs) \<Longrightarrow> x \<noteq> dummyT P"
  by (auto simp: rest_of_def isDummy_def dest: set_takeWhileD)

lemma rest_of_fill:
  assumes "xs \<noteq> []" "dummyT P \<notin> set xs"
  shows "(xs @ replicate k (dummyT P)) ! 0 # rest_of P (xs @ replicate k (dummyT P)) = xs"
proof (cases xs)
  case (Cons x ys)
  with assms have "\<forall>y \<in> set ys. y \<noteq> dummyT P" by auto
  with Cons show ?thesis
    by (simp add: rest_of_def isDummy_def takeWhile_append_replicate)
qed (simp add: assms(1))

text \<open>\<open>steal_class\<close>: the comparer is an order and the template parameters are positive.\<close>

locale steal_class = strict_weak_order "compare P" for P :: "'a steal_cfg" +
  assumes cfg: "cfg_ok P"
begin

lemma swo: "strict_weak_order (compare P)"
  by (rule strict_weak_order_axioms)

lemma pos: "0 < STEAL_NUM P" "0 < arity P"
  using cfg by (simp_all add: cfg_ok_def)

lemma init_ok: "steal_ok P (HeapWithStealBuffer_init P)"
  "steal_bag P (HeapWithStealBuffer_init P) = {#}"
  by (simp_all add: steal_ok_def HeapWithStealBuffer_init_def steal_bag_def batch_def isBufferStolen_def)

lemma popLocally_None: "popLocally P H = None \<longleftrightarrow> local_heap H = []"
  using extract_root_None [of "compare P" "arity P" "local_heap H"]
  by (auto simp: popLocally_def simp del: extract_root_None split: option.splits)

lemma popLocally_Some:
  assumes "popLocally P H = Some (x, H')" "is_heap (compare P) (arity P) (local_heap H)"
  shows "is_heap (compare P) (arity P) (local_heap H')"
    "mset (local_heap H) = add_mset x (mset (local_heap H'))" "x = local_heap H ! 0"
    "\<And>y. y \<in> set (local_heap H) \<Longrightarrow> \<not> compare P x y"
    "H' = H\<lparr>local_heap := local_heap H'\<rparr>"
proof -
  from assms(1) obtain h where h: "extract_root (compare P) (arity P) (local_heap H) = Some (x, h)"
    "H' = H\<lparr>local_heap := h\<rparr>" by (auto simp: popLocally_def split: option.splits)
  show "is_heap (compare P) (arity P) (local_heap H')"
    using extract_root_heap [OF swo pos(2) assms(2) h(1)] h(2) by simp
  show "mset (local_heap H) = add_mset x (mset (local_heap H'))" "x = local_heap H ! 0"
    using extract_root_mset [OF h(1)] h(2) by simp_all
  show "\<And>y. y \<in> set (local_heap H) \<Longrightarrow> \<not> compare P x y"
    using extract_root_min [OF swo assms(2) h(1)] .
  show "H' = H\<lparr>local_heap := local_heap H'\<rparr>" using h(2) by simp
qed

lemma pop_several_Some:
  assumes "pop_several P n H = (xs, H')" "is_heap (compare P) (arity P) (local_heap H)"
  shows "is_heap (compare P) (arity P) (local_heap H') \<and>
    mset (local_heap H) = mset xs + mset (local_heap H') \<and>
    sorted_wrt (\<lambda>x y. \<not> compare P x y) xs \<and>
    (\<forall>x \<in> set xs. \<forall>y \<in> set (local_heap H'). \<not> compare P x y) \<and>
    length xs = min n (length (local_heap H)) \<and> H' = H\<lparr>local_heap := local_heap H'\<rparr>"
  using assms
proof (induction n arbitrary: H xs)
  case 0
  then show ?case by simp
next
  case (Suc n)
  show ?case
  proof (cases "popLocally P H")
    case None
    with Suc.prems show ?thesis using popLocally_None [of H] by auto
  next
    case (Some r)
    then obtain x H1 where x: "popLocally P H = Some (x, H1)" by (cases r) simp
    with Suc.prems(1) obtain ys where ys: "pop_several P n H1 = (ys, H')" "xs = x # ys"
      by (auto split: prod.splits)
    note p = popLocally_Some [OF x Suc.prems(2)]
    note IH = Suc.IH [OF ys(1) p(1)]
    have "set (local_heap H1) = set ys \<union> set (local_heap H')"
      using arg_cong [of _ _ set_mset, OF conjunct1 [OF conjunct2 [OF IH]]] by simp
    moreover have "set (local_heap H) = insert x (set (local_heap H1))"
      using arg_cong [of _ _ set_mset, OF p(2)] by simp
    moreover have "length (local_heap H) = Suc (length (local_heap H1))"
      using arg_cong [of _ _ size, OF p(2)] by simp
    moreover have "H1\<lparr>local_heap := local_heap H'\<rparr> = H\<lparr>local_heap := local_heap H'\<rparr>"
      by (subst p(5)) simp
    ultimately show ?thesis using IH p(2,4) ys(2) by auto
  qed
qed

lemma pop_several_nonempty:
  assumes "pop_several P n H = (xs, H')" "is_heap (compare P) (arity P) (local_heap H)"
    "local_heap H \<noteq> []" "0 < n"
  shows "xs \<noteq> []"
  using pop_several_Some [OF assms(1,2)] assms(3,4) by (auto simp: min_def split: if_splits)

text \<open>
  Filling the buffer puts nothing in and takes nothing out: the smallest tasks of the heap go on
  offer, in order.
\<close>

lemma fill_upto_ok:
  assumes "steal_ok P H" "isBufferStolen H" "fill_upto P n H = (v, H')" "0 < n" "n \<le> STEAL_NUM P"
  shows "steal_ok P H'" "steal_bag P H' = steal_bag P H"
    "v = dummyT P \<longleftrightarrow> local_heap H = []"
    "local_heap H \<noteq> [] \<Longrightarrow> \<not> isBufferStolen H' \<and> v = stealBuffer H' ! 0"
    "\<And>x y. x \<in> set (batch P H') \<Longrightarrow> y \<in> set (local_heap H') \<Longrightarrow> \<not> compare P x y"
    "length (batch P H') = min n (length (local_heap H))"
proof -
  have *: "steal_ok P H' \<and> steal_bag P H' = steal_bag P H \<and> (v = dummyT P \<longleftrightarrow> local_heap H = []) \<and>
    (local_heap H \<noteq> [] \<longrightarrow> \<not> isBufferStolen H' \<and> v = stealBuffer H' ! 0) \<and>
    (\<forall>x \<in> set (batch P H'). \<forall>y \<in> set (local_heap H'). \<not> compare P x y) \<and>
    length (batch P H') = min n (length (local_heap H))"
  proof (cases "local_heap H = []")
    case True
    with assms(2,3) have "v = dummyT P" "H' = H" by (simp_all add: fill_upto_def)
    with True assms(1,2) show ?thesis by (simp add: batch_def)
  next
    case False
    obtain xs H1 where xs: "pop_several P n H = (xs, H1)" by fastforce
    have heap: "is_heap (compare P) (arity P) (local_heap H)" using assms(1) by (simp add: steal_ok_def)
    note p = pop_several_Some [OF xs heap]
    have frame: "stealBuffer H1 = stealBuffer H" "version H1 = version H"
      using p by (metis HeapWithStealBuffer.simps(7) HeapWithStealBuffer.surjective
          HeapWithStealBuffer.update_convs(1) HeapWithStealBuffer.select_convs(2,3))+
    have ne: "xs \<noteq> []" by (rule pop_several_nonempty [OF xs heap False assms(4)])
    have d: "dummyT P \<notin> set xs" "dummyT P \<notin> set (local_heap H1)"
      using assms(1,2) p by (auto simp: steal_ok_def steal_bag_def)
    let ?e = "xs @ replicate (STEAL_NUM P - length xs) (dummyT P)"
    have H': "H' = H1\<lparr>stealBuffer := ?e, version := version H + 1\<rparr>" "v = ?e ! 0"
      using assms(3) False xs frame by (simp_all add: fill_upto_def Let_def)
    have odd: "\<not> isBufferStolen H'" using assms(2) H' by (simp add: isBufferStolen_def)
    have b: "batch P H' = xs"
      using rest_of_fill [OF ne d(1)] odd H' by (simp add: batch_def)
    have "v = xs ! 0" "xs ! 0 \<in> set xs" using ne H' by (auto simp: nth_append)
    moreover have "length ?e = STEAL_NUM P" using p assms(5) by simp
    ultimately show ?thesis
      using assms(1,2) p H' b d odd False by (auto simp: steal_ok_def steal_bag_def batch_def)
  qed
  then show "steal_ok P H'" "steal_bag P H' = steal_bag P H" "v = dummyT P \<longleftrightarrow> local_heap H = []"
    "local_heap H \<noteq> [] \<Longrightarrow> \<not> isBufferStolen H' \<and> v = stealBuffer H' ! 0"
    "\<And>x y. x \<in> set (batch P H') \<Longrightarrow> y \<in> set (local_heap H') \<Longrightarrow> \<not> compare P x y"
    "length (batch P H') = min n (length (local_heap H))" by blast+
qed

lemma batch_offered:
  "\<not> isBufferStolen H \<Longrightarrow> batch P H = stealBuffer H ! 0 # rest_of P (stealBuffer H)"
  by (simp add: batch_def)

text \<open>A steal takes exactly what was on offer; without an offer it takes nothing.\<close>

lemma trySteal_cases:
  assumes "steal_ok P H" "trySteal H = (r, H', race)"
  shows "\<not> race" "r = None \<Longrightarrow> isBufferStolen H \<and> H' = H"
    "r = Some es \<Longrightarrow> \<not> isBufferStolen H \<and> es = stealBuffer H \<and> steal_ok P H' \<and>
       isBufferStolen H' \<and> local_heap H' = local_heap H \<and>
       steal_bag P H = mset (batch P H) + steal_bag P H'"
  using assms
  by (auto simp: trySteal_def Let_def isBufferStolen_def steal_ok_def steal_bag_def batch_def
      split: if_splits)

lemma heapPush_ok:
  assumes "steal_ok P H" "x \<noteq> dummyT P"
  shows "steal_ok P (heapPush P H x)" "steal_bag P (heapPush P H x) = add_mset x (steal_bag P H)"
    "version (heapPush P H x) = version H" "batch P (heapPush P H x) = batch P H"
    "isBufferStolen (heapPush P H x) = isBufferStolen H" "local_heap (heapPush P H x) \<noteq> []"
proof -
  let ?h = "fst (sift_up (compare P) (arity P) (local_heap H @ [x]) (length (local_heap H)))"
  have "is_heap (compare P) (arity P) ?h"
    using push_array_heap [OF swo] assms(1) by (simp add: steal_ok_def)
  moreover have "mset ?h = add_mset x (mset (local_heap H))" by simp
  moreover from this have "?h \<noteq> []" by (metis mset.simps(1) empty_not_add_mset)
  moreover have b: "batch P (heapPush P H x) = batch P H"
    by (simp add: heapPush_def batch_def isBufferStolen_def)
  ultimately show "steal_ok P (heapPush P H x)"
    "steal_bag P (heapPush P H x) = add_mset x (steal_bag P H)" "local_heap (heapPush P H x) \<noteq> []"
    using assms by (auto simp: steal_ok_def steal_bag_def heapPush_def batch_def isBufferStolen_def)
  show "batch P (heapPush P H x) = batch P H" by (rule b)
qed (simp_all add: heapPush_def isBufferStolen_def)

lemma heapPushes_ok:
  assumes "steal_ok P H" "dummyT P \<notin> set xs"
  shows "steal_ok P (foldl (heapPush P) H xs) \<and>
    steal_bag P (foldl (heapPush P) H xs) = steal_bag P H + mset xs \<and>
    isBufferStolen (foldl (heapPush P) H xs) = isBufferStolen H \<and>
    batch P (foldl (heapPush P) H xs) = batch P H"
  using assms
proof (induction xs arbitrary: H)
  case (Cons x xs)
  then have "x \<noteq> dummyT P" by auto
  note push = heapPush_ok [OF Cons.prems(1) this]
  show ?case using Cons.IH [OF push(1)] Cons.prems(2) push by simp
qed simp

lemma tryStealLocally_cases:
  assumes "steal_ok P H" "tryStealLocally P H = (r, H')"
  shows "steal_ok P H'"
    "r = None \<Longrightarrow> isBufferStolen H \<and> H' = H"
    "r = Some x \<Longrightarrow> \<not> isBufferStolen H \<and> isBufferStolen H' \<and> x = stealBuffer H ! 0 \<and>
       steal_bag P H = add_mset x (steal_bag P H')"
proof -
  obtain v H1 race where st: "trySteal H = (v, H1, race)" by (metis prod_cases3)
  note t = trySteal_cases [OF assms(1) st]
  have *: "steal_ok P H' \<and> (r = None \<longrightarrow> isBufferStolen H \<and> H' = H) \<and>
    (r = Some x \<longrightarrow> \<not> isBufferStolen H \<and> isBufferStolen H' \<and> x = stealBuffer H ! 0 \<and>
       steal_bag P H = add_mset x (steal_bag P H'))"
  proof (cases v)
    case None
    with t(2) st assms show ?thesis by (simp add: tryStealLocally_def)
  next
    case (Some es)
    note ok = t(3) [OF Some]
    have r: "r = Some (es ! 0)" "H' = foldl (heapPush P) H1 (rest_of P es)"
      using assms(2) st Some by (simp_all add: tryStealLocally_def)
    have "dummyT P \<notin> set (rest_of P es)" by (auto dest: in_batchD)
    moreover have "mset (batch P H) = add_mset (es ! 0) (mset (rest_of P es))"
      using ok by (simp add: batch_offered)
    ultimately show ?thesis
      using ok r heapPushes_ok [of H1 "rest_of P es"] by (simp add: ac_simps)
  qed
  then show "steal_ok P H'" "r = None \<Longrightarrow> isBufferStolen H \<and> H' = H"
    "r = Some x \<Longrightarrow> \<not> isBufferStolen H \<and> isBufferStolen H' \<and> x = stealBuffer H ! 0 \<and>
       steal_bag P H = add_mset x (steal_bag P H')" by blast+
qed

lemma getBufferMin_eq:
  assumes "steal_ok P H"
  shows "getBufferMin P H = (if isBufferStolen H then dummyT P else stealBuffer H ! 0, False)"
    "isDummy P (fst (getBufferMin P H)) \<longleftrightarrow> isBufferStolen H"
  using assms
  by (auto simp: getBufferMin_def read_min_def isBufferStolen_def isDummy_def steal_ok_def
      steal_bag_def batch_def)

lemma batch_min:
  assumes "steal_ok P H" "x \<in> set (batch P H)"
  shows "\<not> compare P (stealBuffer H ! 0) x"
  using assms by (auto simp: steal_ok_def batch_def irrefl split: if_splits)

lemma min_writer_ok:
  assumes "steal_ok P H" "min_writer P n H = (v, H')" "0 < n" "n \<le> STEAL_NUM P"
  shows "steal_ok P H'" "steal_bag P H' = steal_bag P H"
    "v = dummyT P \<longleftrightarrow> steal_bag P H = {#}"
    "v \<noteq> dummyT P \<Longrightarrow> \<not> isBufferStolen H' \<and> v = stealBuffer H' ! 0"
proof -
  have *: "steal_ok P H' \<and> steal_bag P H' = steal_bag P H \<and> (v = dummyT P \<longleftrightarrow> steal_bag P H = {#}) \<and>
      (v \<noteq> dummyT P \<longrightarrow> \<not> isBufferStolen H' \<and> v = stealBuffer H' ! 0)"
  proof (cases "isBufferStolen H")
    case True
    then have "fill_upto P n H = (v, H')"
      using assms(2) by (simp add: min_writer_def Let_def isBufferStolen_def)
    with fill_upto_ok [OF assms(1) True _ assms(3,4)] True show ?thesis
      by (auto simp: steal_bag_def batch_def)
  next
    case False
    then have "v = stealBuffer H ! 0" "H' = H"
      using assms(2) by (auto simp: min_writer_def Let_def isBufferStolen_def)
    with False assms(1) show ?thesis by (auto simp: steal_ok_def steal_bag_def batch_def)
  qed
  then show "steal_ok P H'" "steal_bag P H' = steal_bag P H" "v = dummyT P \<longleftrightarrow> steal_bag P H = {#}"
    "v \<noteq> dummyT P \<Longrightarrow> \<not> isBufferStolen H' \<and> v = stealBuffer H' ! 0" by blast+
qed

lemma fill_if_stolen_ok:
  assumes "steal_ok P H" "0 < n" "n \<le> STEAL_NUM P"
  shows "steal_ok P (fill_if_stolen P n H)" "steal_bag P (fill_if_stolen P n H) = steal_bag P H"
    "steal_bag P H \<noteq> {#} \<Longrightarrow> \<not> isBufferStolen (fill_if_stolen P n H)"
  using assms fill_upto_ok [OF assms(1), of n "fst (fill_upto P n H)" "snd (fill_upto P n H)"]
  by (auto simp: fill_if_stolen_def steal_bag_def batch_def)

lemma pop_or_refill_ok:
  assumes "steal_ok P H" "local_heap H \<noteq> []" "isDummy P b = isBufferStolen H"
    "pop_or_refill P n b H = (r, H')" "0 < n" "n \<le> STEAL_NUM P"
  shows "steal_ok P H' \<and> r = Some (local_heap H ! 0) \<and>
    steal_bag P H = add_mset (local_heap H ! 0) (steal_bag P H') \<and>
    (\<forall>y \<in> set (local_heap H). \<not> compare P (local_heap H ! 0) y)"
proof -
  obtain x H1 where x: "popLocally P H = Some (x, H1)"
    using assms(2) popLocally_None [of H] by (cases "popLocally P H") auto
  have heap: "is_heap (compare P) (arity P) (local_heap H)" using assms(1) by (simp add: steal_ok_def)
  note p = popLocally_Some [OF x heap]
  have b: "batch P H1 = batch P H" "isBufferStolen H1 = isBufferStolen H"
    "stealBuffer H1 = stealBuffer H"
    by (subst p(5), simp add: batch_def isBufferStolen_def)+
  have H1: "steal_ok P H1" "steal_bag P H = add_mset x (steal_bag P H1)"
    using assms(1) p b by (auto simp: steal_ok_def steal_bag_def)
  have "r = Some x" "H' = (if isDummy P b then snd (fill_upto P n H1) else H1)"
    using assms(4) x by (simp_all add: pop_or_refill_def)
  with H1 p b assms(3) fill_upto_ok(1,2) [OF H1(1) _ _ assms(5,6), of "fst (fill_upto P n H1)"]
  show ?thesis by auto
qed

lemma extractMin_spec:
  assumes "steal_ok P H" "extract_upto P n H = (r, H')" "0 < n" "n \<le> STEAL_NUM P"
  shows "steal_ok P H' \<and>
    (case r of
       None \<Rightarrow> steal_bag P H = {#} \<and> H' = H
     | Some x \<Rightarrow> steal_bag P H = add_mset x (steal_bag P H') \<and>
         (\<forall>y \<in># steal_bag P H. \<not> compare P x y))"
proof (cases "local_heap H = []")
  case True
  then have "tryStealLocally P H = (r, H')" using assms(2) by (simp add: extract_upto_def)
  note t = tryStealLocally_cases [OF assms(1) this]
  show ?thesis
  proof (cases r)
    case None
    with t True assms(1) show ?thesis by (simp add: steal_bag_def batch_def)
  next
    case (Some x)
    have "steal_bag P H = mset (batch P H)" using True by (simp add: steal_bag_def)
    then have "\<forall>y \<in># steal_bag P H. \<not> compare P (stealBuffer H ! 0) y"
      using batch_min [OF assms(1)] by simp
    with t(1) t(3) [OF Some] Some show ?thesis by simp
  qed
next
  case False
  let ?b = "fst (getBufferMin P H)"
  note b = getBufferMin_eq [OF assms(1)]
  have heap: "is_heap (compare P) (arity P) (local_heap H)" using assms(1) by (simp add: steal_ok_def)
  show ?thesis
  proof (cases "\<not> isBufferStolen H \<and> compare P (local_heap H ! 0) (stealBuffer H ! 0)")
    case True
    obtain v H1 where st: "tryStealLocally P H = (v, H1)" by fastforce
    note t = tryStealLocally_cases [OF assms(1) st]
    from True t(2) obtain x where v: "v = Some x" by (cases v) auto
    note x = t(3) [OF v]
    have r: "r = Some x" "H' = snd (fill_upto P n H1)"
      using assms(2) False True b st v by (simp_all add: extract_upto_def Let_def)
    have "\<not> compare P x y" if "y \<in># steal_bag P H" for y
    proof -
      from that consider "y \<in> set (local_heap H)" | "y \<in> set (batch P H)" by (auto simp: steal_bag_def)
      then show ?thesis
      proof cases
        case 1
        with heap_root_min_set [OF swo heap] True x show ?thesis by (metis before_le)
      qed (use batch_min [OF assms(1)] x in simp)
    qed
    with x r fill_upto_ok(1,2) [OF t(1) _ _ assms(3,4), of "fst (fill_upto P n H1)"] show ?thesis by simp
  next
    case c: False
    then have "pop_or_refill P n ?b H = (r, H')"
      using assms(2) False b by (auto simp: extract_upto_def Let_def)
    note p = pop_or_refill_ok [OF assms(1) False b(2) this assms(3,4)]
    have "\<not> compare P (local_heap H ! 0) y" if "y \<in> set (batch P H)" for y
      using that c batch_min [OF assms(1) that]
      by (metis batch_def empty_iff empty_set neg_trans)
    moreover have "set_mset (steal_bag P H) = set (local_heap H) \<union> set (batch P H)"
      by (simp add: steal_bag_def)
    ultimately have "\<forall>y \<in># steal_bag P H. \<not> compare P (local_heap H ! 0) y"
      using p by (metis UnE)
    with p show ?thesis by simp
  qed
qed

end

section \<open>Correctness\<close>

text \<open>
  C16: \<open>extractMin\<close> of the owner is the extraction of a priority queue over the bag of the
  heap and the tasks on offer: it returns a task that follows none of them and removes exactly
  that one, keeping the invariant; it returns nothing exactly when the bag is empty, and then
  changes nothing.
\<close>

theorem steal_extractMin_correct:
  assumes "strict_weak_order (compare P)" "cfg_ok P" "steal_ok P H" "steal_extractMin P H = (r, H')"
  shows "steal_ok P H' \<and>
    (case r of
       None \<Rightarrow> steal_bag P H = {#} \<and> H' = H
     | Some x \<Rightarrow> steal_bag P H = add_mset x (steal_bag P H') \<and>
         (\<forall>y \<in># steal_bag P H. \<not> compare P x y))"
proof -
  note c = steal_class.intro [OF assms(1) steal_class_axioms.intro [OF assms(2)]]
  show ?thesis
    using steal_class.extractMin_spec [OF c assms(3) _ steal_class.pos(1) [OF c] order.refl] assms(4)
    by (simp add: steal_extractMin_def)
qed

text \<open>The concrete instance: update requests, batches of two, arity 4, a dummy of all ones.\<close>

definition req_cfg :: "nat update_request steal_cfg" where
  "req_cfg = \<lparr>compare = UpdateRequestComparer, STEAL_NUM = 2, arity = 4,
     dummyT = UpdateRequest 0 (- 1)\<rparr>"

lemma req_cfg_simps [simp]:
  "compare req_cfg = UpdateRequestComparer" "STEAL_NUM req_cfg = 2" "arity req_cfg = 4"
  by (simp_all add: req_cfg_def)

interpretation req_steal: steal_class req_cfg
  by unfold_locales (auto simp: cfg_ok_def dest: urc.asym urc.neg_trans)

definition req_thread :: "nat update_request list \<Rightarrow> nat update_request HeapWithStealBuffer" where
  "req_thread es = foldl (heapPush req_cfg) (HeapWithStealBuffer_init req_cfg) es"

lemma req_thread_ok:
  assumes "dummyT req_cfg \<notin> set es"
  shows "steal_ok req_cfg (req_thread es)" "steal_bag req_cfg (req_thread es) = mset es"
    "isBufferStolen (req_thread es)"
  using req_steal.heapPushes_ok [OF req_steal.init_ok(1) assms] req_steal.init_ok(2)
  by (simp_all add: req_thread_def HeapWithStealBuffer_init_def isBufferStolen_def)

theorem steal_extractMin_correct_witness:
  "\<exists>H'. steal_extractMin req_cfg (req_thread [UpdateRequest 6 5, UpdateRequest 3 2, UpdateRequest 4 9]) =
       (Some (UpdateRequest 3 2), H') \<and> \<not> isBufferStolen H' \<and>
     steal_bag req_cfg H' = {#UpdateRequest 6 5, UpdateRequest 4 9#}"
proof -
  let ?es = "[UpdateRequest 6 5, UpdateRequest 3 2, UpdateRequest 4 9]"
  have "map_prod (\<lambda>r. r) isBufferStolen (steal_extractMin req_cfg (req_thread ?es)) =
    (Some (UpdateRequest 3 2), False)" by code_simp
  then obtain H' where r: "steal_extractMin req_cfg (req_thread ?es) = (Some (UpdateRequest 3 2), H')"
    "\<not> isBufferStolen H'" by (cases "steal_extractMin req_cfg (req_thread ?es)") auto
  have "dummyT req_cfg \<notin> set ?es" by (simp add: req_cfg_def)
  note ok = req_thread_ok [OF this]
  have "steal_bag req_cfg (req_thread ?es) = add_mset (UpdateRequest 3 2) (steal_bag req_cfg H')"
    using steal_extractMin_correct [OF req_steal.swo req_steal.cfg ok(1) r(1)] by simp
  then have "{#UpdateRequest 6 5, UpdateRequest 4 9#} = steal_bag req_cfg H'"
    by (simp add: ok(2) add_mset_commute)
  with r show ?thesis by (intro exI [of _ H'] conjI) simp_all
qed

text \<open>
  A batch: filling a stolen buffer offers the \<open>STEAL_NUM\<close> smallest tasks of the heap (all
  of a smaller heap), in priority order; the first thief gets exactly these and the next one
  nothing.
\<close>

theorem fill_then_steal:
  assumes "strict_weak_order (compare P)" "cfg_ok P" "steal_ok P H" "isBufferStolen H"
    and "local_heap H \<noteq> []"
  shows "\<exists>es H' xs. trySteal (snd (fillBuffer P H)) = (Some es, H', False) \<and>
    xs = es ! 0 # rest_of P es \<and> sorted_wrt (\<lambda>x y. \<not> compare P x y) xs \<and>
    length xs = min (STEAL_NUM P) (length (local_heap H)) \<and>
    mset (local_heap H) = mset xs + mset (local_heap H') \<and>
    (\<forall>x \<in> set xs. \<forall>y \<in> set (local_heap H'). \<not> compare P x y) \<and>
    trySteal H' = (None, H', False)"
proof -
  note c = steal_class.intro [OF assms(1) steal_class_axioms.intro [OF assms(2)]]
  obtain v H1 where f: "fill_upto P (STEAL_NUM P) H = (v, H1)" by fastforce
  note f_ok = steal_class.fill_upto_ok [OF c assms(3,4) f steal_class.pos(1) [OF c] order.refl]
  let ?H' = "H1\<lparr>version := version H1 + 1\<rparr>"
  have odd: "\<not> isBufferStolen H1" using f_ok(4) assms(5) by simp
  then have st: "trySteal H1 = (Some (stealBuffer H1), ?H', False)"
    by (simp add: trySteal_def isBufferStolen_def)
  have "mset (local_heap H) = mset (batch P H1) + mset (local_heap H1)"
    using f_ok(2) assms(4) by (simp add: steal_bag_def batch_def [of P H] ac_simps)
  moreover have "trySteal ?H' = (None, ?H', False)"
    using odd by (simp add: trySteal_def isBufferStolen_def)
  ultimately show ?thesis
    using st f f_ok(1,5,6) steal_class.batch_offered [OF c odd]
    by (intro exI [of _ "stealBuffer H1"] exI [of _ ?H'] exI [of _ "batch P H1"])
      (auto simp: fillBuffer_def steal_ok_def)
qed

theorem fill_then_steal_witness:
  "\<exists>es H'. trySteal (snd (fillBuffer req_cfg (req_thread
       [UpdateRequest 6 5, UpdateRequest 3 2, UpdateRequest 4 9]))) = (Some es, H', False) \<and>
     length (es ! 0 # rest_of req_cfg es) = 2 \<and> trySteal H' = (None, H', False)"
proof -
  let ?H = "req_thread [UpdateRequest 6 5, UpdateRequest 3 2, UpdateRequest 4 9]"
  have "dummyT req_cfg \<notin> set [UpdateRequest 6 5, UpdateRequest 3 2, UpdateRequest 4 9]" by (simp add: req_cfg_def)
  note ok = req_thread_ok [OF this]
  have len: "length (local_heap ?H) = 3" by code_simp
  then have "local_heap ?H \<noteq> []" by auto
  from fill_then_steal [OF req_steal.swo req_steal.cfg ok(1,3) this] len
  show ?thesis by auto
qed

end
