(* ===== verification/StealProtocol.thy ===== *)
theory StealProtocol
  imports StealBuffer
begin

text \<open>
  \<open>HeapWithStealBuffer\<close> under interference: its owner and any number of thieves run
  concurrently, one load, store or compare-and-swap at a time, in every order. The cells of the
  steal buffer are read and written one by one, unprotected; the version counter decides who
  gets them. \<open>ver\<close> counts the increments and the word the code reads is its value modulo
  \<open>2 ^ 64\<close>; memory is sequentially consistent (the acquire and release orders of the code are
  on the one location the protocol synchronises on). What the owner publishes, \<open>es\<close>, is an
  arbitrary array: which tasks it takes from its heap is the business of \<open>StealBuffer\<close>.

  The result: as long as the counter has not wrapped around, the arrays the thieves obtain are,
  in order, exactly those that were published: none is torn, lost or handed out twice.
\<close>

section \<open>The steps\<close>

text \<open>
  Where the owner is: \<open>OMin\<close> and \<open>OMinRead\<close> inside \<open>getMinWriter\<close> or \<open>getBufferMin\<close>,
  after the first load and after reading the cell; \<open>OStolen\<close> after it has learnt that the
  buffer is stolen; \<open>OFill es i\<close> in \<open>fillBuffer\<close> before storing cell \<open>i\<close>; \<open>OSteal\<close> in its
  own \<open>trySteal\<close>. The thieves likewise.
\<close>

datatype 'a owner_pc =
    OIdle
  | OMin u64
  | OMinRead u64 'a
  | OStolen
  | OFill "'a list" nat
  | OSteal u64 "'a list"

datatype 'a thief_pc =
    TIdle
  | TSteal u64 "'a list"
  | TMin u64
  | TMinRead u64 'a

text \<open>\<open>offered\<close> and \<open>taken\<close> record the arrays published and obtained so far.\<close>

record 'a proto =
  cells :: "'a list"
  ver :: nat
  owner :: "'a owner_pc"
  thieves :: "nat \<Rightarrow> 'a thief_pc"
  offered :: "'a list list"
  taken :: "'a list list"

definition loaded :: "'a proto \<Rightarrow> u64" where
  "loaded s = of_nat (ver s)"

definition set_thief :: "nat \<Rightarrow> 'a thief_pc \<Rightarrow> 'a proto \<Rightarrow> 'a proto" where
  "set_thief t p s = s\<lparr>thieves := (thieves s)(t := p)\<rparr>"

text \<open>\<open>compare_exchange_weak\<close> may also fail when the values agree: \<open>steal_fail\<close> has no guard.\<close>

inductive proto_step :: "nat \<Rightarrow> 'a proto \<Rightarrow> 'a proto \<Rightarrow> bool" for n where
  steal_load: "thieves s t = TIdle \<Longrightarrow> loaded s mod 2 \<noteq> 0 \<Longrightarrow>
    proto_step n s (set_thief t (TSteal (loaded s) []) s)"
| steal_read: "thieves s t = TSteal v buf \<Longrightarrow> length buf < n \<Longrightarrow>
    proto_step n s (set_thief t (TSteal v (buf @ [cells s ! length buf])) s)"
| steal_cas: "thieves s t = TSteal v buf \<Longrightarrow> length buf = n \<Longrightarrow> loaded s = v \<Longrightarrow>
    proto_step n s ((set_thief t TIdle s)\<lparr>ver := ver s + 1, taken := taken s @ [buf]\<rparr>)"
| steal_fail: "thieves s t = TSteal v buf \<Longrightarrow> length buf = n \<Longrightarrow>
    proto_step n s (set_thief t TIdle s)"
| min_load: "thieves s t = TIdle \<Longrightarrow> loaded s mod 2 \<noteq> 0 \<Longrightarrow>
    proto_step n s (set_thief t (TMin (loaded s)) s)"
| min_read: "thieves s t = TMin v \<Longrightarrow> proto_step n s (set_thief t (TMinRead v (cells s ! 0)) s)"
| min_check: "thieves s t = TMinRead v m \<Longrightarrow> proto_step n s (set_thief t TIdle s)"
| own_stolen: "owner s = OIdle \<Longrightarrow> loaded s mod 2 = 0 \<Longrightarrow> proto_step n s (s\<lparr>owner := OStolen\<rparr>)"
| own_min_load: "owner s = OIdle \<Longrightarrow> loaded s mod 2 \<noteq> 0 \<Longrightarrow>
    proto_step n s (s\<lparr>owner := OMin (loaded s)\<rparr>)"
| own_min_read: "owner s = OMin v \<Longrightarrow> proto_step n s (s\<lparr>owner := OMinRead v (cells s ! 0)\<rparr>)"
| own_min_check: "owner s = OMinRead v m \<Longrightarrow>
    proto_step n s (s\<lparr>owner := if v = loaded s then OIdle else OStolen\<rparr>)"
| own_return: "owner s = OStolen \<Longrightarrow> proto_step n s (s\<lparr>owner := OIdle\<rparr>)"
| own_fill: "owner s = OStolen \<Longrightarrow> length es = n \<Longrightarrow> proto_step n s (s\<lparr>owner := OFill es 0\<rparr>)"
| own_store: "owner s = OFill es i \<Longrightarrow> i < n \<Longrightarrow>
    proto_step n s (s\<lparr>cells := (cells s)[i := es ! i], owner := OFill es (i + 1)\<rparr>)"
| own_publish: "owner s = OFill es n \<Longrightarrow>
    proto_step n s (s\<lparr>ver := ver s + 1, offered := offered s @ [es], owner := OIdle\<rparr>)"
| own_steal_load: "owner s = OIdle \<Longrightarrow> loaded s mod 2 \<noteq> 0 \<Longrightarrow>
    proto_step n s (s\<lparr>owner := OSteal (loaded s) []\<rparr>)"
| own_steal_read: "owner s = OSteal v buf \<Longrightarrow> length buf < n \<Longrightarrow>
    proto_step n s (s\<lparr>owner := OSteal v (buf @ [cells s ! length buf])\<rparr>)"
| own_steal_cas: "owner s = OSteal v buf \<Longrightarrow> length buf = n \<Longrightarrow> loaded s = v \<Longrightarrow>
    proto_step n s (s\<lparr>ver := ver s + 1, taken := taken s @ [buf], owner := OStolen\<rparr>)"
| own_steal_fail: "owner s = OSteal v buf \<Longrightarrow> length buf = n \<Longrightarrow> proto_step n s (s\<lparr>owner := OIdle\<rparr>)"

definition proto_init :: "nat \<Rightarrow> 'a \<Rightarrow> 'a proto" where
  "proto_init n d =
     \<lparr>cells = replicate n d, ver = 0, owner = OIdle, thieves = (\<lambda>t. TIdle), offered = [], taken = []\<rparr>"

inductive proto_reach :: "nat \<Rightarrow> 'a \<Rightarrow> 'a proto \<Rightarrow> bool" for n d where
  init: "proto_reach n d (proto_init n d)"
| step: "proto_reach n d s \<Longrightarrow> proto_step n s s' \<Longrightarrow> proto_reach n d s'"

section \<open>The invariant\<close>

lemma loaded_parity: "loaded s mod 2 = 0 \<longleftrightarrow> even (ver s)"
  by (simp add: loaded_def flip: even_iff_mod_2_eq_zero)

lemma loaded_eq: "ver s < 2 ^ 64 \<Longrightarrow> k \<le> ver s \<Longrightarrow> loaded s = of_nat k \<longleftrightarrow> k = ver s"
  by (auto simp: loaded_def word_of_nat_eq_iff take_bit_nat_eq_self)

text \<open>
  What the owner knows in each of its states, with \<open>v\<close> a version it loaded while the buffer
  was on offer: only a steal can have happened since.
\<close>

definition owner_saw :: "'a proto \<Rightarrow> u64 \<Rightarrow> bool" where
  "owner_saw s v \<longleftrightarrow> (\<exists>k. odd k \<and> v = of_nat k \<and> (ver s = k \<or> ver s = Suc k))"

fun owner_ok :: "nat \<Rightarrow> 'a proto \<Rightarrow> 'a owner_pc \<Rightarrow> bool" where
  "owner_ok n s OIdle \<longleftrightarrow> True"
| "owner_ok n s (OMin v) \<longleftrightarrow> owner_saw s v"
| "owner_ok n s (OMinRead v m) \<longleftrightarrow> owner_saw s v"
| "owner_ok n s OStolen \<longleftrightarrow> even (ver s)"
| "owner_ok n s (OFill es i) \<longleftrightarrow> even (ver s) \<and> length es = n \<and> i \<le> n \<and> take i (cells s) = take i es"
| "owner_ok n s (OSteal v buf) \<longleftrightarrow> owner_saw s v \<and> length buf \<le> n \<and>
     (odd (ver s) \<longrightarrow> buf = take (length buf) (cells s))"

text \<open>What a thief has read is the offer it saw, as long as the version is still the one it loaded.\<close>

definition thief_saw :: "'a proto \<Rightarrow> u64 \<Rightarrow> bool \<Rightarrow> bool" where
  "thief_saw s v Q \<longleftrightarrow> (\<exists>k \<le> ver s. odd k \<and> v = of_nat k \<and> (ver s = k \<longrightarrow> Q))"

fun thief_ok :: "nat \<Rightarrow> 'a proto \<Rightarrow> 'a thief_pc \<Rightarrow> bool" where
  "thief_ok n s TIdle \<longleftrightarrow> True"
| "thief_ok n s (TSteal v buf) \<longleftrightarrow> length buf \<le> n \<and> thief_saw s v (buf = take (length buf) (cells s))"
| "thief_ok n s (TMin v) \<longleftrightarrow> thief_saw s v True"
| "thief_ok n s (TMinRead v m) \<longleftrightarrow> thief_saw s v (m = cells s ! 0)"

definition proto_inv :: "nat \<Rightarrow> 'a proto \<Rightarrow> bool" where
  "proto_inv n s \<longleftrightarrow>
     length (cells s) = n \<and> length (offered s) = (ver s + 1) div 2 \<and>
     taken s = take (ver s div 2) (offered s) \<and>
     (odd (ver s) \<longrightarrow> cells s = last (offered s)) \<and>
     owner_ok n s (owner s) \<and> (\<forall>t. thief_ok n s (thieves s t))"

section \<open>It is an invariant\<close>

lemma thief_saw_now: "odd (ver s) \<Longrightarrow> thief_saw s (loaded s) True"
  by (auto simp: thief_saw_def loaded_def)

lemma owner_saw_now: "odd (ver s) \<Longrightarrow> owner_saw s (loaded s)"
  by (auto simp: owner_saw_def loaded_def)

lemma thief_saw_stale:
  "thief_saw s v Q \<Longrightarrow> ver s' = ver s \<and> even (ver s) \<or> ver s' = Suc (ver s) \<Longrightarrow> thief_saw s' v Q'"
proof -
  assume "thief_saw s v Q" and step: "ver s' = ver s \<and> even (ver s) \<or> ver s' = Suc (ver s)"
  then obtain k where "k \<le> ver s" "odd k" "v = of_nat k" by (auto simp: thief_saw_def)
  with step show "thief_saw s' v Q'"
    unfolding thief_saw_def by (intro exI [of _ k]) auto
qed

lemma thief_saw_same: "thief_saw s v Q \<Longrightarrow> ver s' = ver s \<Longrightarrow> (Q \<Longrightarrow> Q') \<Longrightarrow> thief_saw s' v Q'"
  by (auto simp: thief_saw_def)

text \<open>A thief's knowledge survives whatever the others do.\<close>

lemma thief_ok_stale:
  assumes "thief_ok n s p" "ver s' = ver s \<and> even (ver s) \<or> ver s' = Suc (ver s)"
  shows "thief_ok n s' p"
  using assms(1) thief_saw_stale [OF _ assms(2)] by (cases p) auto

lemma thief_ok_same:
  "thief_ok n s p \<Longrightarrow> ver s' = ver s \<Longrightarrow> cells s' = cells s \<Longrightarrow> thief_ok n s' p"
  by (cases p) (auto simp: thief_saw_def)

lemma owner_ok_same: "owner_ok n s p \<Longrightarrow> ver s' = ver s \<Longrightarrow> cells s' = cells s \<Longrightarrow> owner_ok n s' p"
  by (cases p) (auto simp: owner_saw_def)

lemma owner_ok_stolen:
  assumes "owner_ok n s p" "odd (ver s)" "ver s' = Suc (ver s)" "cells s' = cells s"
  shows "owner_ok n s' p"
  using assms by (cases p) (auto simp: owner_saw_def)

lemma take_half: "length xs = (m + 1) div 2 \<Longrightarrow> take (m div 2) xs = (if odd m then butlast xs else xs)"
  by (auto simp: butlast_conv_take elim!: oddE)

text \<open>
  A successful compare-and-swap on the version a batch was read at hands out the batch on
  offer, as a whole.
\<close>

lemma take_offer:
  assumes "proto_inv n s" "odd (ver s)" "buf = cells s"
  shows "taken s @ [buf] = take (Suc (ver s) div 2) (offered s)"
proof -
  have len: "length (offered s) = (ver s + 1) div 2" using assms(1) by (simp add: proto_inv_def)
  have "taken s = butlast (offered s)"
    using assms(1,2) take_half [OF len] by (simp add: proto_inv_def)
  moreover have "buf = last (offered s)" using assms by (simp add: proto_inv_def)
  moreover have "offered s \<noteq> []" using len assms(2) by (auto elim!: oddE)
  ultimately show ?thesis using len by simp
qed

lemma thief_cas:
  assumes "proto_inv n s" "thieves s t = TSteal v buf" "length buf = n" "loaded s = v" "ver s < 2 ^ 64"
  shows "odd (ver s) \<and> buf = cells s"
proof -
  have "thief_ok n s (TSteal v buf)" using assms(1,2) by (metis proto_inv_def)
  then obtain k where k: "k \<le> ver s" "odd k" "v = of_nat k"
    "ver s = k \<longrightarrow> buf = take (length buf) (cells s)" by (auto simp: thief_saw_def)
  from k assms(4) loaded_eq [OF assms(5) k(1)] have "k = ver s" by simp
  moreover have "length (cells s) = n" using assms(1) by (simp add: proto_inv_def)
  ultimately show ?thesis using k assms(3) by auto
qed

lemma owner_cas:
  assumes "proto_inv n s" "owner s = OSteal v buf" "length buf = n" "loaded s = v" "ver s < 2 ^ 64"
  shows "odd (ver s) \<and> buf = cells s"
proof -
  have o: "owner_ok n s (OSteal v buf)" using assms(1,2) by (metis proto_inv_def)
  then obtain k where k: "odd k" "v = of_nat k" "ver s = k \<or> ver s = Suc k"
    by (auto simp: owner_saw_def)
  then have "k \<le> ver s" by auto
  from k assms(4) loaded_eq [OF assms(5) this] have "k = ver s" by simp
  moreover have "length (cells s) = n" using assms(1) by (simp add: proto_inv_def)
  ultimately show ?thesis using o k assms(3) by auto
qed

lemma owner_race:
  assumes "owner_saw s v" "v \<noteq> loaded s"
  shows "even (ver s)"
  using assms by (auto simp: owner_saw_def loaded_def)

lemma inv_thieves:
  assumes "proto_inv n s" "thief_ok n s p"
  shows "proto_inv n (set_thief t p s)"
  using assms thief_ok_same [of n s _ "set_thief t p s"] owner_ok_same [of n s _ "set_thief t p s"]
  by (simp add: proto_inv_def set_thief_def)

lemma inv_owner:
  assumes "proto_inv n s" "owner_ok n s p"
  shows "proto_inv n (s\<lparr>owner := p\<rparr>)"
  using assms thief_ok_same [of n s _ "s\<lparr>owner := p\<rparr>"] owner_ok_same [of n s _ "s\<lparr>owner := p\<rparr>"]
  by (simp add: proto_inv_def)

lemma inv_taken:
  assumes "proto_inv n s" "odd (ver s)" "buf = cells s"
    and "owner_ok n (s\<lparr>ver := Suc (ver s)\<rparr>) p" "thief_ok n (s\<lparr>ver := Suc (ver s)\<rparr>) q"
  shows "proto_inv n (s\<lparr>ver := Suc (ver s), taken := taken s @ [buf], owner := p,
    thieves := (thieves s)(t := q)\<rparr>)" (is "proto_inv n ?s")
proof -
  have "owner_ok n ?s p" using assms(4) by (rule owner_ok_same) simp_all
  moreover have "thief_ok n ?s q" using assms(5) by (rule thief_ok_same) simp_all
  moreover have "thief_ok n ?s (thieves s u)" for u
    by (rule thief_ok_stale [of n s]) (use assms(1) in \<open>simp_all add: proto_inv_def\<close>)
  moreover have "length (offered s) = (ver s + 1) div 2" "length (cells s) = n"
    using assms(1) by (simp_all add: proto_inv_def)
  ultimately show ?thesis
    using take_offer [OF assms(1-3)] assms(2) by (auto simp: proto_inv_def elim!: oddE)
qed

lemma inv_step:
  assumes "proto_step n s s'" "proto_inv n s" "ver s < 2 ^ 64"
  shows "proto_inv n s'"
  using assms(1)
proof cases
  case (steal_load t)
  then show ?thesis
    using assms(2) thief_saw_now [of s] by (auto intro!: inv_thieves simp: loaded_parity)
next
  case (steal_read t v buf)
  then have "thief_ok n s (TSteal v buf)" using assms(2) by (metis proto_inv_def)
  moreover have "length (cells s) = n" using assms(2) by (simp add: proto_inv_def)
  ultimately have "thief_ok n s (TSteal v (buf @ [cells s ! length buf]))"
    using steal_read(3) by (auto simp: thief_saw_def take_Suc_conv_app_nth)
  with steal_read(1) assms(2) show ?thesis by (auto intro!: inv_thieves)
next
  case (steal_cas t v buf)
  note c = thief_cas [OF assms(2) steal_cas(2-4) assms(3)]
  have "owner_ok n (s\<lparr>ver := Suc (ver s)\<rparr>) (owner s)"
    by (rule owner_ok_stolen [of n s]) (use assms(2) c in \<open>simp_all add: proto_inv_def\<close>)
  moreover have "s' = s\<lparr>ver := Suc (ver s), taken := taken s @ [buf], owner := owner s,
      thieves := (thieves s)(t := TIdle)\<rparr>" by (simp add: steal_cas(1) set_thief_def)
  ultimately show ?thesis using inv_taken [OF assms(2) _ _, of buf "owner s" TIdle t] c by simp
next
  case (min_load t)
  then show ?thesis
    using assms(2) thief_saw_now [of s] by (auto intro!: inv_thieves simp: loaded_parity)
next
  case (min_read t v)
  then have "thief_ok n s (TMin v)" using assms(2) by (metis proto_inv_def)
  with min_read assms(2) show ?thesis by (auto intro!: inv_thieves simp: thief_saw_def)
next
  case (own_min_load)
  then show ?thesis
    using assms(2) owner_saw_now [of s] by (auto intro!: inv_owner simp: loaded_parity)
next
  case (own_min_read v)
  then have "owner_ok n s (OMin v)" using assms(2) by (metis proto_inv_def)
  with own_min_read assms(2) show ?thesis by (auto intro!: inv_owner)
next
  case (own_min_check v m)
  then have "owner_ok n s (OMinRead v m)" using assms(2) by (metis proto_inv_def)
  with own_min_check assms(2) owner_race [of s v] show ?thesis by (auto intro!: inv_owner)
next
  case (own_fill es)
  then have "owner_ok n s OStolen" using assms(2) by (metis proto_inv_def)
  with own_fill assms(2) show ?thesis by (auto intro!: inv_owner)
next
  case (own_store es i)
  then have o: "owner_ok n s (OFill es i)" using assms(2) by (metis proto_inv_def)
  let ?s = "s\<lparr>cells := (cells s)[i := es ! i], owner := OFill es (i + 1)\<rparr>"
  have "thief_ok n ?s (thieves s t)" for t
    by (rule thief_ok_stale [of n s]) (use assms(2) o in \<open>simp_all add: proto_inv_def\<close>)
  with o own_store assms(2) show ?thesis by (simp add: proto_inv_def take_Suc_conv_app_nth)
next
  case (own_publish es)
  then have o: "owner_ok n s (OFill es n)" using assms(2) by (metis proto_inv_def)
  have "thief_ok n s' (thieves s t)" for t
    by (rule thief_ok_stale [of n s]) (use assms(2) in \<open>simp_all add: own_publish proto_inv_def\<close>)
  moreover have "cells s = es" using o assms(2) by (simp add: proto_inv_def)
  ultimately show ?thesis using o assms(2) own_publish(1) by (auto simp: proto_inv_def elim!: evenE)
next
  case (own_steal_load)
  then show ?thesis
    using assms(2) owner_saw_now [of s] by (auto intro!: inv_owner simp: loaded_parity)
next
  case (own_steal_read v buf)
  then have "owner_ok n s (OSteal v buf)" using assms(2) by (metis proto_inv_def)
  moreover have "length (cells s) = n" using assms(2) by (simp add: proto_inv_def)
  ultimately have "owner_ok n s (OSteal v (buf @ [cells s ! length buf]))"
    using own_steal_read(3) by (auto simp: take_Suc_conv_app_nth)
  from inv_owner [OF assms(2) this] own_steal_read(1) show ?thesis by simp
next
  case (own_steal_cas v buf)
  note c = owner_cas [OF assms(2) own_steal_cas(2-4) assms(3)]
  have "thief_ok n (s\<lparr>ver := Suc (ver s)\<rparr>) (thieves s 0)"
    by (rule thief_ok_stale [of n s]) (use assms(2) in \<open>simp_all add: proto_inv_def\<close>)
  from inv_taken [OF assms(2) _ _ _ this, of buf OStolen 0] c own_steal_cas(1)
  show ?thesis by simp
qed (use assms(2) in \<open>auto intro!: inv_thieves inv_owner simp: loaded_parity\<close>)

section \<open>What the invariant means\<close>

lemma inv_init: "proto_inv n (proto_init n d)"
  by (simp add: proto_inv_def proto_init_def)

lemma step_ver_mono: "proto_step n s s' \<Longrightarrow> ver s \<le> ver s'"
  by (induction rule: proto_step.induct) (simp_all add: set_thief_def)

lemma reach_inv: "proto_reach n d s \<Longrightarrow> ver s < 2 ^ 64 \<Longrightarrow> proto_inv n s"
proof (induction rule: proto_reach.induct)
  case (step s s')
  with step_ver_mono [OF step(2)] show ?case by (auto intro: inv_step)
qed (rule inv_init)

text \<open>
  A run for the witnesses: the owner publishes \<open>7\<close>, and thief 3 reads it.
\<close>

definition run_published :: "int proto" where
  "run_published = \<lparr>cells = [7], ver = 1, owner = OIdle, thieves = (\<lambda>t. TIdle), offered = [[7]], taken = []\<rparr>"

lemma reach_published: "proto_reach 1 0 run_published"
proof -
  let ?s = "proto_init 1 (0 :: int)"
  have "proto_reach 1 0 ?s" by (rule proto_reach.init)
  then have "proto_reach 1 0 (?s\<lparr>owner := OStolen\<rparr>)"
    by (rule proto_reach.step [OF _ own_stolen]) (simp_all add: proto_init_def loaded_def)
  then have "proto_reach 1 0 (?s\<lparr>owner := OFill [7] 0\<rparr>)"
    using proto_reach.step [OF _ own_fill [of "?s\<lparr>owner := OStolen\<rparr>" "[7]" 1]] by simp
  then have "proto_reach 1 0 (?s\<lparr>cells := [7], owner := OFill [7] 1\<rparr>)"
    using proto_reach.step [OF _ own_store [of "?s\<lparr>owner := OFill [7] 0\<rparr>" "[7]" 0 1]]
    by (simp add: proto_init_def)
  then show ?thesis
    using proto_reach.step [OF _ own_publish [of "?s\<lparr>cells := [7], owner := OFill [7] 1\<rparr>" "[7]" 1]]
    by (simp add: proto_init_def run_published_def)
qed

lemma reach_thief_read: "proto_reach 1 0 (set_thief 3 (TSteal 1 [7]) run_published)"
proof -
  have "proto_reach 1 0 (set_thief 3 (TSteal 1 []) run_published)"
    using proto_reach.step [OF reach_published steal_load [of run_published 3 1]]
    by (simp add: run_published_def loaded_def)
  then show ?thesis
    using proto_reach.step [OF _ steal_read [of "set_thief 3 (TSteal 1 []) run_published" 3 1 "[]" 1]]
    by (simp add: run_published_def set_thief_def)
qed

text \<open>
  C12: No stolen batch is torn, lost or handed out twice: after any interleaving of the owner
  and any number of thieves (fewer than \<open>2 ^ 64\<close> version changes), the arrays obtained are, in
  order, exactly the arrays published, except for the one still on offer while the version is
  odd, which the cells then hold.
\<close>

theorem steal_protocol_safe:
  assumes "proto_reach n d s" "ver s < 2 ^ 64"
  shows "taken s = (if odd (ver s) then butlast (offered s) else offered s) \<and>
    (odd (ver s) \<longrightarrow> offered s \<noteq> [] \<and> cells s = last (offered s))"
proof -
  note inv = reach_inv [OF assms]
  then have len: "length (offered s) = (ver s + 1) div 2" by (simp add: proto_inv_def)
  with inv take_half [OF len] show ?thesis by (auto simp: proto_inv_def elim!: oddE)
qed

theorem steal_protocol_safe_witness:
  "\<exists>s :: int proto. proto_reach 1 0 s \<and> ver s = 2 \<and> taken s = [[7]] \<and> taken s = offered s"
proof -
  let ?s = "set_thief 3 (TSteal 1 [7]) run_published"
  let ?s' = "(set_thief 3 TIdle ?s)\<lparr>ver := ver ?s + 1, taken := taken ?s @ [[7]]\<rparr>"
  have r: "proto_reach 1 0 ?s'"
    by (rule proto_reach.step [OF reach_thief_read steal_cas [of ?s 3 1 "[7]"]])
      (simp_all add: set_thief_def run_published_def loaded_def)
  have v: "ver ?s' = 2" "taken ?s' = [[7]]" by (simp_all add: set_thief_def run_published_def)
  then have "taken ?s' = offered ?s'" using steal_protocol_safe [OF r] by simp
  with r v show ?thesis by blast
qed

text \<open>
  \<open>getBufferMin\<close> is right whenever it reports no race: a thread that is about to check its
  second load, and finds the version it loaded first, has read the first task of the batch on
  offer.
\<close>

theorem buffer_min_safe:
  assumes "proto_reach n d s" "ver s < 2 ^ 64" "thieves s t = TMinRead v m"
    and "read_min P v m (loaded s) = (r, False)" "r \<noteq> dummyT P"
  shows "odd (ver s) \<and> r = last (offered s) ! 0"
proof -
  note inv = reach_inv [OF assms(1,2)]
  then have "thief_ok n s (TMinRead v m)" using assms(3) by (metis proto_inv_def)
  then obtain k where k: "k \<le> ver s" "v = of_nat k" "odd k" "ver s = k \<longrightarrow> m = cells s ! 0"
    by (auto simp: thief_saw_def)
  from assms(4,5) have "v = loaded s" "r = m" by (auto simp: read_min_def split: if_splits)
  with k loaded_eq [OF assms(2) k(1)] have "k = ver s" by auto
  with k inv \<open>r = m\<close> show ?thesis by (simp add: proto_inv_def)
qed

theorem buffer_min_safe_witness:
  "\<exists>s. proto_reach 1 0 s \<and> thieves s 3 = TMinRead 1 (7 :: int) \<and> odd (ver s) \<and> 7 = last (offered s) ! 0"
proof -
  let ?P = "\<lparr>compare = std_greater, STEAL_NUM = 1, arity = 4, dummyT = 0\<rparr>"
  let ?s = "set_thief 3 (TMin 1) run_published" and ?s' = "set_thief 3 (TMinRead 1 7) run_published"
  have "proto_reach 1 0 ?s"
    using proto_reach.step [OF reach_published min_load [of run_published 3 1]]
    by (simp add: run_published_def loaded_def)
  then have r: "proto_reach 1 0 ?s'"
    using proto_reach.step [OF _ min_read [of ?s 3 1 1]] by (simp add: run_published_def set_thief_def)
  have t: "thieves ?s' 3 = TMinRead 1 7" "ver ?s' < 2 ^ 64"
    and read: "read_min ?P 1 7 (loaded ?s') = (7, False)"
    by (simp_all add: set_thief_def run_published_def read_min_def loaded_def)
  from buffer_min_safe [OF r t(2,1) read] r t(1) show ?thesis by auto
qed

end
