(* ===== verification/StealBufferAdap.thy ===== *)
theory StealBufferAdap
  imports StealBuffer
begin

text \<open>
  \<open>HeapWithStealBufferAdap\<close> of \<open>WorkList/AdaptiveStealingMultiQueue.h\<close>: the heap with a
  steal buffer whose fill size changes at run time. It stores the batch into the buffer in
  place and clears only the cells the previous fill used; \<open>prevFillNum\<close>, how many those were,
  is a \<open>static thread_local\<close> of \<open>fillBuffer\<close> and so an argument and a result here.

  The main result: with \<open>prevFillNum\<close> left by the last fill of the same buffer, every operation
  does to the structure what the operation of \<open>HeapWithStealBuffer\<close> with that fill size does.
  With a \<open>prevFillNum\<close> left by another buffer, which the code does not exclude, it need not.
\<close>

section \<open>The structure and its operations\<close>

record 'a HeapWithStealBufferAdap =
  adap_heap :: "'a DAryHeap"
  adap_buffer :: "'a list"
  adap_version :: u64

definition HeapWithStealBufferAdap_init :: "'a steal_cfg \<Rightarrow> 'a HeapWithStealBufferAdap" where
  "HeapWithStealBufferAdap_init P =
     \<lparr>adap_heap = DAryHeap_init, adap_buffer = replicate (STEAL_NUM P) (dummyT P), adap_version = 0\<rparr>"

definition adap_isBufferStolen :: "'a HeapWithStealBufferAdap \<Rightarrow> bool" where
  "adap_isBufferStolen H \<longleftrightarrow> adap_version H mod 2 = 0"

definition adap_getBufferMin :: "'a steal_cfg \<Rightarrow> 'a HeapWithStealBufferAdap \<Rightarrow> 'a \<times> bool" where
  "adap_getBufferMin P H = read_min P (adap_version H) (adap_buffer H ! 0) (adap_version H)"

text \<open>The two loops of \<open>fillBuffer\<close>; \<open>k\<close> counts down from \<open>elementsNumber\<close>.\<close>

fun fill_cells ::
    "'a steal_cfg \<Rightarrow> nat \<Rightarrow> nat \<Rightarrow> 'a HeapWithStealBufferAdap \<Rightarrow> 'a HeapWithStealBufferAdap \<times> nat" where
  "fill_cells P 0 curFillNum H = (H, curFillNum)"
| "fill_cells P (Suc k) curFillNum H =
     (case DAryHeap_extractMin (compare P) (arity P) (adap_heap H) of
        None \<Rightarrow> (H, curFillNum)
      | Some (x, h) \<Rightarrow>
          fill_cells P k (curFillNum + 1)
            (H\<lparr>adap_heap := h, adap_buffer := (adap_buffer H)[curFillNum := x]\<rparr>))"

definition clear_cells :: "'a steal_cfg \<Rightarrow> nat \<Rightarrow> nat \<Rightarrow> 'a list \<Rightarrow> 'a list" where
  "clear_cells P i k b = foldl (\<lambda>b j. b[j := dummyT P]) b [i..<k]"

definition adap_fillBuffer ::
    "'a steal_cfg \<Rightarrow> nat \<Rightarrow> nat \<Rightarrow> 'a HeapWithStealBufferAdap \<Rightarrow> 'a \<times> nat \<times> 'a HeapWithStealBufferAdap" where
  "adap_fillBuffer P prevFillNum elementsNumber H =
     (if DAryHeap_empty (adap_heap H) then (dummyT P, prevFillNum, H)
      else case fill_cells P elementsNumber 0 H of
        (H1, curFillNum) \<Rightarrow>
          let b = clear_cells P curFillNum prevFillNum (adap_buffer H1)
          in (b ! 0, curFillNum, H1\<lparr>adap_buffer := b, adap_version := adap_version H1 + 1\<rparr>))"

definition adap_getMinWriter ::
    "'a steal_cfg \<Rightarrow> nat \<Rightarrow> nat \<Rightarrow> 'a HeapWithStealBufferAdap \<Rightarrow> 'a \<times> nat \<times> 'a HeapWithStealBufferAdap" where
  "adap_getMinWriter P prevFillNum elementsSum H =
     (let v1 = adap_version H; res = adap_buffer H ! 0; v2 = adap_version H in
      if v1 mod 2 \<noteq> 0 \<and> v1 = v2 then (res, prevFillNum, H)
      else adap_fillBuffer P prevFillNum elementsSum H)"

text \<open>
  \<open>trySteal\<close>: the elements written to the thief's array, as many as the returned count, the
  new state and \<open>raceHappened\<close>.
\<close>

definition adap_trySteal ::
    "'a steal_cfg \<Rightarrow> 'a HeapWithStealBufferAdap \<Rightarrow> 'a list \<times> 'a HeapWithStealBufferAdap \<times> bool" where
  "adap_trySteal P H =
     (let v1 = adap_version H in
      if v1 mod 2 = 0 then ([], H, False)
      else
        let buffer = takeWhile (\<lambda>x. \<not> isDummy P x) (take (STEAL_NUM P) (adap_buffer H)) in
        if adap_version H = v1 then (buffer, H\<lparr>adap_version := v1 + 1\<rparr>, False)
        else ([], H, True))"

definition adap_push :: "'a steal_cfg \<Rightarrow> 'a HeapWithStealBufferAdap \<Rightarrow> 'a \<Rightarrow> 'a HeapWithStealBufferAdap" where
  "adap_push P H x = H\<lparr>adap_heap := DAryHeap_push (compare P) (arity P) (adap_heap H) x\<rparr>"

definition adap_tryStealLocally ::
    "'a steal_cfg \<Rightarrow> 'a HeapWithStealBufferAdap \<Rightarrow> 'a option \<times> 'a HeapWithStealBufferAdap" where
  "adap_tryStealLocally P H =
     (case adap_trySteal P H of
        (stolen, H1, race) \<Rightarrow>
          if 0 < length stolen then (Some (stolen ! 0), foldl (adap_push P) H1 (drop 1 stolen))
          else (None, H1))"

definition adap_pop_or_refill ::
    "'a steal_cfg \<Rightarrow> nat \<Rightarrow> nat \<Rightarrow> 'a \<Rightarrow> 'a HeapWithStealBufferAdap \<Rightarrow>
     'a option \<times> nat \<times> 'a HeapWithStealBufferAdap" where
  "adap_pop_or_refill P prevFillNum elementsNum bufferMin H =
     (case DAryHeap_extractMin (compare P) (arity P) (adap_heap H) of
        None \<Rightarrow> (None, prevFillNum, H)
      | Some (localMin, h) \<Rightarrow>
          let H1 = H\<lparr>adap_heap := h\<rparr> in
          (Some localMin,
           if isDummy P bufferMin then snd (adap_fillBuffer P prevFillNum elementsNum H1)
           else (prevFillNum, H1)))"

definition adap_extractMin ::
    "'a steal_cfg \<Rightarrow> nat \<Rightarrow> nat \<Rightarrow> 'a HeapWithStealBufferAdap \<Rightarrow>
     'a option \<times> nat \<times> 'a HeapWithStealBufferAdap" where
  "adap_extractMin P prevFillNum elementsNum H =
     (case DAryHeap_min (adap_heap H) of
        None \<Rightarrow> (case adap_tryStealLocally P H of (r, H1) \<Rightarrow> (r, prevFillNum, H1))
      | Some root \<Rightarrow>
          let bufferMin = fst (adap_getBufferMin P H) in
          if \<not> isDummy P bufferMin \<and> compare P root bufferMin then
            (case adap_tryStealLocally P H of
               (Some stolen, H1) \<Rightarrow> (Some stolen, snd (adap_fillBuffer P prevFillNum elementsNum H1))
             | (None, H1) \<Rightarrow> adap_pop_or_refill P prevFillNum elementsNum bufferMin H1)
          else adap_pop_or_refill P prevFillNum elementsNum bufferMin H)"

section \<open>It is a \<open>HeapWithStealBuffer\<close>\<close>

definition steal_abs :: "'a HeapWithStealBufferAdap \<Rightarrow> 'a HeapWithStealBuffer" where
  "steal_abs H = \<lparr>local_heap = heap (adap_heap H), stealBuffer = adap_buffer H, version = adap_version H\<rparr>"

lemma steal_abs_simps [simp]:
  "local_heap (steal_abs H) = heap (adap_heap H)" "stealBuffer (steal_abs H) = adap_buffer H"
  "version (steal_abs H) = adap_version H"
  "steal_abs (H\<lparr>adap_version := v\<rparr>) = (steal_abs H)\<lparr>version := v\<rparr>"
  "(steal_abs H)\<lparr>stealBuffer := adap_buffer H\<rparr> = steal_abs H"
  by (simp_all add: steal_abs_def)

text \<open>\<open>prevFillNum\<close> fits the buffer: only dummies behind it.\<close>

definition adap_clean :: "'a steal_cfg \<Rightarrow> nat \<Rightarrow> 'a HeapWithStealBufferAdap \<Rightarrow> bool" where
  "adap_clean P prevFillNum H \<longleftrightarrow>
     length (adap_buffer H) = STEAL_NUM P \<and> prevFillNum \<le> STEAL_NUM P \<and>
     (\<forall>j < STEAL_NUM P. prevFillNum \<le> j \<longrightarrow> adap_buffer H ! j = dummyT P)"

lemma length_clear_cells [simp]: "length (clear_cells P i k b) = length b"
proof -
  have "length (foldl (\<lambda>b j. b[j := dummyT P]) b js) = length b" for js
    by (induction js arbitrary: b) simp_all
  then show ?thesis by (simp add: clear_cells_def)
qed

lemma nth_clear_cells:
  assumes "j < length b"
  shows "clear_cells P i k b ! j = (if i \<le> j \<and> j < k then dummyT P else b ! j)"
proof -
  have "foldl (\<lambda>b j. b[j := dummyT P]) b js ! j = (if j \<in> set js then dummyT P else b ! j)" for js
    using assms by (induction js arbitrary: b) (auto simp: nth_list_update)
  then show ?thesis by (simp add: clear_cells_def)
qed

lemma popLocally_abs:
  "popLocally P (steal_abs H) =
     map_option (\<lambda>(x, h). (x, steal_abs (H\<lparr>adap_heap := h\<rparr>)))
       (DAryHeap_extractMin (compare P) (arity P) (adap_heap H))"
  by (simp add: popLocally_def DAryHeap_extractMin_def steal_abs_def split: option.splits)

lemma heapPush_abs: "heapPush P (steal_abs H) x = steal_abs (adap_push P H x)"
  by (simp add: heapPush_def adap_push_def steal_abs_def DAryHeap_push_def Let_def)

lemma heapPushes_abs: "foldl (heapPush P) (steal_abs H) xs = steal_abs (foldl (adap_push P) H xs)"
  by (induction xs arbitrary: H) (simp_all add: heapPush_abs)

lemma popLocally_frame:
  "popLocally P (H\<lparr>stealBuffer := b\<rparr>) =
     map_option (\<lambda>(x, H1). (x, H1\<lparr>stealBuffer := b\<rparr>)) (popLocally P H)"
  by (simp add: popLocally_def split: option.splits)

lemma pop_several_frame:
  "pop_several P n (H\<lparr>stealBuffer := b\<rparr>) =
     (case pop_several P n H of (ys, H1) \<Rightarrow> (ys, H1\<lparr>stealBuffer := b\<rparr>))"
proof (induction n arbitrary: H)
  case (Suc n)
  show ?case
    by (cases "popLocally P H") (auto simp: popLocally_frame Suc split: prod.splits)
qed simp

text \<open>The in-place loop stores what \<open>pop_several\<close> collects.\<close>

lemma fill_cells_abs:
  assumes "fill_cells P k cur H = (H', cur')" "cur + k \<le> length (adap_buffer H)"
  shows "\<exists>xs. pop_several P k (steal_abs H) =
      (xs, (steal_abs H')\<lparr>stealBuffer := adap_buffer H\<rparr>) \<and>
    cur' = cur + length xs \<and> length xs \<le> k \<and>
    adap_buffer H' = take cur (adap_buffer H) @ xs @ drop cur' (adap_buffer H) \<and>
    adap_version H' = adap_version H"
  using assms
proof (induction P k cur H rule: fill_cells.induct)
  case (1 P cur H)
  then show ?case by (simp add: steal_abs_def)
next
  case (2 P k cur H)
  show ?case
  proof (cases "DAryHeap_extractMin (compare P) (arity P) (adap_heap H)")
    case None
    with 2 show ?thesis by (auto simp: popLocally_abs)
  next
    case (Some r)
    then obtain x h where x: "DAryHeap_extractMin (compare P) (arity P) (adap_heap H) = Some (x, h)"
      by (cases r) simp
    let ?H = "H\<lparr>adap_heap := h, adap_buffer := (adap_buffer H)[cur := x]\<rparr>"
    have f: "fill_cells P k (cur + 1) ?H = (H', cur')" using 2 x by simp
    with 2(1) [OF x refl] 2(3) obtain xs where xs:
      "pop_several P k (steal_abs ?H) = (xs, (steal_abs H')\<lparr>stealBuffer := adap_buffer ?H\<rparr>)"
      "cur' = cur + 1 + length xs" "length xs \<le> k"
      "adap_buffer H' = take (cur + 1) (adap_buffer ?H) @ xs @ drop cur' (adap_buffer ?H)"
      "adap_version H' = adap_version H" by auto
    have "steal_abs (H\<lparr>adap_heap := h\<rparr>) = (steal_abs ?H)\<lparr>stealBuffer := adap_buffer H\<rparr>"
      by (simp add: steal_abs_def)
    then have "pop_several P k (steal_abs (H\<lparr>adap_heap := h\<rparr>)) =
        (xs, (steal_abs H')\<lparr>stealBuffer := adap_buffer H\<rparr>)"
      by (simp only: pop_several_frame xs(1) prod.case) simp
    then have "pop_several P (Suc k) (steal_abs H) =
        (x # xs, (steal_abs H')\<lparr>stealBuffer := adap_buffer H\<rparr>)"
      using x by (simp add: popLocally_abs)
    moreover have "take (cur + 1) (adap_buffer ?H) = take cur (adap_buffer H) @ [x]"
      using 2(3) by (simp add: take_Suc_conv_app_nth)
    moreover have "drop cur' (adap_buffer ?H) = drop cur' (adap_buffer H)" using xs(2) by simp
    ultimately show ?thesis using xs by (intro exI [of _ "x # xs"]) simp
  qed
qed

text \<open>With a clean buffer, filling in place has the effect of filling a fresh array.\<close>

lemma adap_fillBuffer_abs:
  assumes "adap_clean P prev H" "n \<le> STEAL_NUM P" "adap_fillBuffer P prev n H = (v, prev', H')"
  shows "fill_upto P n (steal_abs H) = (v, steal_abs H')" "adap_clean P prev' H'"
proof -
  have *: "fill_upto P n (steal_abs H) = (v, steal_abs H') \<and> adap_clean P prev' H'"
  proof (cases "heap (adap_heap H) = []")
    case True
    with assms show ?thesis by (simp add: fill_upto_def adap_fillBuffer_def DAryHeap_empty_def)
  next
    case False
    obtain H1 cur where f: "fill_cells P n 0 H = (H1, cur)" by fastforce
    have len: "length (adap_buffer H) = STEAL_NUM P" "prev \<le> STEAL_NUM P"
      using assms(1) by (simp_all add: adap_clean_def)
    from fill_cells_abs [OF f] len assms(2) obtain xs where xs:
      "pop_several P n (steal_abs H) = (xs, (steal_abs H1)\<lparr>stealBuffer := adap_buffer H\<rparr>)"
      "cur = length xs" "length xs \<le> n"
      "adap_buffer H1 = xs @ drop (length xs) (adap_buffer H)" "adap_version H1 = adap_version H"
      by auto
    let ?b = "clear_cells P cur prev (adap_buffer H1)"
    have r: "v = ?b ! 0" "prev' = cur"
      "H' = H1\<lparr>adap_buffer := ?b, adap_version := adap_version H1 + 1\<rparr>"
      using assms(3) False f by (auto simp: adap_fillBuffer_def DAryHeap_empty_def Let_def)
    have b: "?b = xs @ replicate (STEAL_NUM P - length xs) (dummyT P)"
      using xs(2-4) len assms(1,2)
      by (intro nth_equalityI) (auto simp: nth_clear_cells nth_append adap_clean_def)
    show ?thesis
      using False xs(1-3,5) r b len assms(2)
      by (auto simp: fill_upto_def Let_def steal_abs_def adap_clean_def nth_append)
  qed
  then show "fill_upto P n (steal_abs H) = (v, steal_abs H')" "adap_clean P prev' H'" by blast+
qed

lemma adap_isBufferStolen_abs: "isBufferStolen (steal_abs H) = adap_isBufferStolen H"
  by (simp add: isBufferStolen_def adap_isBufferStolen_def)

lemma adap_getBufferMin_abs: "getBufferMin P (steal_abs H) = adap_getBufferMin P H"
  by (simp add: getBufferMin_def adap_getBufferMin_def)

lemma adap_getMinWriter_abs:
  assumes "adap_clean P prev H" "n \<le> STEAL_NUM P" "adap_getMinWriter P prev n H = (v, prev', H')"
  shows "min_writer P n (steal_abs H) = (v, steal_abs H')" "adap_clean P prev' H'"
  using adap_fillBuffer_abs [OF assms(1,2)] assms
  by (auto simp: min_writer_def adap_getMinWriter_def Let_def split: if_splits)

text \<open>
  What a thief copies is the batch, and a local steal is the local steal: the counts of the
  adaptive class and the dummies of the other say the same.
\<close>

lemma adap_trySteal_abs:
  assumes "steal_ok P (steal_abs H)" "adap_trySteal P H = (xs, H', race)" "0 < STEAL_NUM P"
  shows "\<not> race" "if adap_isBufferStolen H then xs = [] \<and> H' = H
    else xs = batch P (steal_abs H) \<and> xs \<noteq> [] \<and> (\<exists>es. trySteal (steal_abs H) = (Some es, steal_abs H', False))"
    "adap_buffer H' = adap_buffer H"
proof -
  have len: "length (adap_buffer H) = STEAL_NUM P" using assms(1) by (simp add: steal_ok_def)
  have "takeWhile (\<lambda>x. \<not> isDummy P x) (adap_buffer H) = batch P (steal_abs H)"
    if "\<not> adap_isBufferStolen H"
  proof -
    from that have "adap_buffer H ! 0 \<noteq> dummyT P" "adap_buffer H \<noteq> []"
      using assms(1,3) len
      by (auto simp: steal_ok_def steal_bag_def batch_def adap_isBufferStolen_abs)
    then show ?thesis
      using that assms(1) by (cases "adap_buffer H")
        (auto simp: batch_def adap_isBufferStolen_abs rest_of_def isDummy_def)
  qed
  with assms len show "\<not> race" "if adap_isBufferStolen H then xs = [] \<and> H' = H
    else xs = batch P (steal_abs H) \<and> xs \<noteq> [] \<and> (\<exists>es. trySteal (steal_abs H) = (Some es, steal_abs H', False))"
    "adap_buffer H' = adap_buffer H"
    by (auto simp: adap_trySteal_def trySteal_def Let_def adap_isBufferStolen_def batch_def
        isBufferStolen_def split: if_splits)
qed

lemma adap_push_buffer: "adap_buffer (foldl (adap_push P) H xs) = adap_buffer H"
  by (induction xs arbitrary: H) (simp_all add: adap_push_def)

lemma adap_tryStealLocally_abs:
  assumes "steal_ok P (steal_abs H)" "0 < STEAL_NUM P" "adap_tryStealLocally P H = (r, H')"
  shows "tryStealLocally P (steal_abs H) = (r, steal_abs H')" "adap_buffer H' = adap_buffer H"
proof -
  obtain xs H1 race where st: "adap_trySteal P H = (xs, H1, race)" by (metis prod_cases3)
  note t = adap_trySteal_abs [OF assms(1) st assms(2)]
  have *: "tryStealLocally P (steal_abs H) = (r, steal_abs H') \<and> adap_buffer H' = adap_buffer H"
  proof (cases "adap_isBufferStolen H")
    case True
    with t(2) assms(3) st show ?thesis
      by (simp add: adap_tryStealLocally_def tryStealLocally_def trySteal_def
          isBufferStolen_def [symmetric] adap_isBufferStolen_abs flip: steal_abs_simps(3))
  next
    case False
    with t(2) obtain es where es: "xs = batch P (steal_abs H)" "xs \<noteq> []"
      "trySteal (steal_abs H) = (Some es, steal_abs H1, False)" by auto
    have "es = adap_buffer H" using es(3) by (simp add: trySteal_def Let_def split: if_splits)
    then have "xs = es ! 0 # rest_of P es"
      using es(1) False by (simp add: batch_def adap_isBufferStolen_abs)
    then have "xs ! 0 = es ! 0" "drop 1 xs = rest_of P es" "0 < length xs" by simp_all
    with assms(3) st es(3) t(3) show ?thesis
      by (auto simp: adap_tryStealLocally_def tryStealLocally_def heapPushes_abs adap_push_buffer)
  qed
  then show "tryStealLocally P (steal_abs H) = (r, steal_abs H')" "adap_buffer H' = adap_buffer H"
    by blast+
qed

lemma adap_clean_cong: "adap_buffer H' = adap_buffer H \<Longrightarrow> adap_clean P prev H' = adap_clean P prev H"
  by (simp add: adap_clean_def)

lemma adap_pop_or_refill_abs:
  assumes "adap_clean P prev H" "n \<le> STEAL_NUM P" "adap_pop_or_refill P prev n b H = (r, prev', H')"
  shows "pop_or_refill P n b (steal_abs H) = (r, steal_abs H')" "adap_clean P prev' H'"
proof -
  have *: "pop_or_refill P n b (steal_abs H) = (r, steal_abs H') \<and> adap_clean P prev' H'"
  proof (cases "DAryHeap_extractMin (compare P) (arity P) (adap_heap H)")
    case None
    with assms show ?thesis by (simp add: pop_or_refill_def adap_pop_or_refill_def popLocally_abs)
  next
    case (Some q)
    then obtain m h where m: "DAryHeap_extractMin (compare P) (arity P) (adap_heap H) = Some (m, h)"
      by (cases q) simp
    let ?H = "H\<lparr>adap_heap := h\<rparr>"
    have c: "adap_clean P prev ?H" using assms(1) by (simp add: adap_clean_def)
    obtain v prev1 H1 where f: "adap_fillBuffer P prev n ?H = (v, prev1, H1)" by (metis prod_cases3)
    from adap_fillBuffer_abs [OF c assms(2) f] m c f assms(3) show ?thesis
      by (auto simp: pop_or_refill_def adap_pop_or_refill_def popLocally_abs Let_def split: if_splits)
  qed
  then show "pop_or_refill P n b (steal_abs H) = (r, steal_abs H')" "adap_clean P prev' H'" by blast+
qed

lemma adap_extractMin_abs:
  assumes "steal_ok P (steal_abs H)" "adap_clean P prev H" "0 < STEAL_NUM P" "n \<le> STEAL_NUM P"
    and "adap_extractMin P prev n H = (r, prev', H')"
  shows "extract_upto P n (steal_abs H) = (r, steal_abs H')" "adap_clean P prev' H'"
proof -
  obtain v H1 where st: "adap_tryStealLocally P H = (v, H1)" by fastforce
  note t = adap_tryStealLocally_abs [OF assms(1,3) st]
  have c1: "adap_clean P prev H1" using t(2) assms(2) adap_clean_cong by blast
  have *: "extract_upto P n (steal_abs H) = (r, steal_abs H') \<and> adap_clean P prev' H'"
  proof (cases "heap (adap_heap H) = []")
    case True
    with st t(1) c1 assms(5) show ?thesis
      by (auto simp: extract_upto_def adap_extractMin_def DAryHeap_min_def)
  next
    case False
    let ?b = "fst (adap_getBufferMin P H)" and ?root = "heap (adap_heap H) ! 0"
    have root: "DAryHeap_min (adap_heap H) = Some ?root" using False by (simp add: DAryHeap_min_def)
    show ?thesis
    proof (cases "\<not> isDummy P ?b \<and> compare P ?root ?b")
      case better: True
      show ?thesis
      proof (cases v)
        case None
        with better root st assms(5) have p: "adap_pop_or_refill P prev n ?b H1 = (r, prev', H')"
          by (simp add: adap_extractMin_def Let_def)
        from adap_pop_or_refill_abs [OF c1 assms(4) p] better None False t(1) show ?thesis
          by (simp add: extract_upto_def adap_getBufferMin_abs Let_def)
      next
        case (Some m)
        obtain v' prev1 H2 where f: "adap_fillBuffer P prev n H1 = (v', prev1, H2)"
          by (metis prod_cases3)
        with better root st Some assms(5) have "r = Some m" "prev' = prev1" "H' = H2"
          by (simp_all add: adap_extractMin_def Let_def)
        with adap_fillBuffer_abs [OF c1 assms(4) f] better Some False t(1) show ?thesis
          by (simp add: extract_upto_def adap_getBufferMin_abs Let_def)
      qed
    next
      case worse: False
      with root assms(5) have p: "adap_pop_or_refill P prev n ?b H = (r, prev', H')"
        by (auto simp: adap_extractMin_def Let_def)
      from adap_pop_or_refill_abs [OF assms(2,4) p] worse False show ?thesis
        by (auto simp: extract_upto_def adap_getBufferMin_abs Let_def)
    qed
  qed
  then show "extract_upto P n (steal_abs H) = (r, steal_abs H')" "adap_clean P prev' H'" by blast+
qed

section \<open>Correctness\<close>

text \<open>
  C18: The adaptive structure refines \<open>HeapWithStealBuffer\<close>: with a clean buffer each
  operation of the owner and of a thief gives the result of its counterpart with that fill
  size and leaves the buffer clean for the next call.
\<close>

theorem HeapWithStealBufferAdap_refines:
  assumes "steal_ok P (steal_abs H)" "adap_clean P prev H" "0 < n" "n \<le> STEAL_NUM P"
  shows "(\<forall>v prev' H'. adap_getMinWriter P prev n H = (v, prev', H') \<longrightarrow>
      min_writer P n (steal_abs H) = (v, steal_abs H') \<and> adap_clean P prev' H') \<and>
    (\<forall>r prev' H'. adap_extractMin P prev n H = (r, prev', H') \<longrightarrow>
      extract_upto P n (steal_abs H) = (r, steal_abs H') \<and> adap_clean P prev' H') \<and>
    (\<forall>x. heapPush P (steal_abs H) x = steal_abs (adap_push P H x) \<and>
      adap_clean P prev (adap_push P H x)) \<and>
    getBufferMin P (steal_abs H) = adap_getBufferMin P H \<and>
    (\<forall>xs H' race. adap_trySteal P H = (xs, H', race) \<longrightarrow> \<not> race \<and> adap_clean P prev H' \<and>
      xs = batch P (steal_abs H) \<and> fst (snd (trySteal (steal_abs H))) = steal_abs H')"
proof (intro conjI allI impI)
  have pos: "0 < STEAL_NUM P" using assms(3,4) by simp
  fix xs H' race
  assume st: "adap_trySteal P H = (xs, H', race)"
  note t = adap_trySteal_abs [OF assms(1) st pos]
  show "\<not> race" by (rule t(1))
  show "adap_clean P prev H'" using t(3) assms(2) by (simp add: adap_clean_def)
  show "xs = batch P (steal_abs H)" "fst (snd (trySteal (steal_abs H))) = steal_abs H'"
    using t(2) by (auto simp: batch_def adap_isBufferStolen_abs trySteal_def adap_isBufferStolen_def
        split: if_splits)
next
  fix r prev' H'
  assume "adap_extractMin P prev n H = (r, prev', H')"
  from adap_extractMin_abs [OF assms(1,2) _ assms(4) this] assms(3,4)
  show "extract_upto P n (steal_abs H) = (r, steal_abs H')" "adap_clean P prev' H'" by simp_all
qed (use assms adap_getMinWriter_abs [OF assms(2,4)] in
  \<open>auto simp: heapPush_abs adap_getBufferMin_abs adap_clean_def adap_push_def\<close>)

text \<open>
  A structure for the witness and the counterexample: the tasks given in the heap, \<open>b\<close> left in
  a stolen buffer.
\<close>

definition req_adap :: "nat update_request list \<Rightarrow> nat update_request list \<Rightarrow>
    nat update_request HeapWithStealBufferAdap" where
  "req_adap es b = foldl (adap_push req_cfg)
     ((HeapWithStealBufferAdap_init req_cfg)\<lparr>adap_buffer := b, adap_version := 2\<rparr>) es"

lemma req_adap_ok:
  assumes "dummyT req_cfg \<notin> set es" "length b = 2"
  shows "steal_ok req_cfg (steal_abs (req_adap es b))" "adap_isBufferStolen (req_adap es b)"
    "adap_buffer (req_adap es b) = b" "steal_bag req_cfg (steal_abs (req_adap es b)) = mset es"
proof -
  let ?H = "(HeapWithStealBufferAdap_init req_cfg)\<lparr>adap_buffer := b, adap_version := 2\<rparr>"
  have empty: "steal_ok req_cfg (steal_abs ?H)" "steal_bag req_cfg (steal_abs ?H) = {#}"
    "isBufferStolen (steal_abs ?H)"
    using assms(2)
    by (simp_all add: steal_ok_def steal_bag_def batch_def isBufferStolen_def
        HeapWithStealBufferAdap_init_def)
  note req_steal.heapPushes_ok [OF empty(1) assms(1), unfolded heapPushes_abs, folded req_adap_def]
  with empty show "steal_ok req_cfg (steal_abs (req_adap es b))" "adap_isBufferStolen (req_adap es b)"
    "steal_bag req_cfg (steal_abs (req_adap es b)) = mset es"
    by (simp_all only: adap_isBufferStolen_abs [symmetric] add_0 simp_thms)
  show "adap_buffer (req_adap es b) = b" by (simp add: req_adap_def adap_push_buffer)
qed

theorem HeapWithStealBufferAdap_refines_witness:
  "\<exists>prev' H'. adap_extractMin req_cfg 2 1
       (req_adap [UpdateRequest 6 5, UpdateRequest 3 2] [dummyT req_cfg, dummyT req_cfg]) =
       (Some (UpdateRequest 3 2), prev', H') \<and>
     extract_upto req_cfg 1
       (steal_abs (req_adap [UpdateRequest 6 5, UpdateRequest 3 2] [dummyT req_cfg, dummyT req_cfg])) =
       (Some (UpdateRequest 3 2), steal_abs H')"
proof -
  let ?H = "req_adap [UpdateRequest 6 5, UpdateRequest 3 2] [dummyT req_cfg, dummyT req_cfg]"
  obtain r prev' H' where r: "adap_extractMin req_cfg 2 1 ?H = (r, prev', H')" by (metis prod_cases3)
  have "fst (adap_extractMin req_cfg 2 1 ?H) = Some (UpdateRequest 3 2)" by code_simp
  with r have x: "r = Some (UpdateRequest 3 2)" by simp
  have "dummyT req_cfg \<notin> set [UpdateRequest 6 5, UpdateRequest 3 2]" by (simp add: req_cfg_def)
  note ok = req_adap_ok [OF this, of "[dummyT req_cfg, dummyT req_cfg]"]
  have "steal_ok req_cfg (steal_abs ?H)" "adap_clean req_cfg 2 ?H"
    using ok by (simp_all add: adap_clean_def)
  from HeapWithStealBufferAdap_refines [OF this, of 1] r
  have "extract_upto req_cfg 1 (steal_abs ?H) = (r, steal_abs H')" by fastforce
  with r x show ?thesis by blast
qed

text \<open>
  \<open>prevFillNum\<close> is shared by all structures of a thread. A fill of another structure in
  between can leave it smaller than the number of cells the last fill of this one used; then
  the next, smaller fill leaves a stolen task in the buffer and offers it again: the bag of
  tasks grows by a task that was already handed out.
\<close>

theorem shared_prevFillNum_duplicates:
  "\<exists>(H :: nat update_request HeapWithStealBufferAdap) H'.
     steal_ok req_cfg (steal_abs H) \<and> adap_isBufferStolen H \<and>
     snd (snd (adap_fillBuffer req_cfg 1 1 H)) = H' \<and>
     steal_bag req_cfg (steal_abs H) = {#UpdateRequest 6 5#} \<and>
     steal_bag req_cfg (steal_abs H') = {#UpdateRequest 6 5, UpdateRequest 4 9#}"
proof -
  let ?H = "req_adap [UpdateRequest 6 5] [UpdateRequest 3 2, UpdateRequest 4 9]"
  let ?H' = "snd (snd (adap_fillBuffer req_cfg 1 1 ?H))"
  have "dummyT req_cfg \<notin> set [UpdateRequest 6 5]" by (simp add: req_cfg_def)
  note ok = req_adap_ok [OF this, of "[UpdateRequest 3 2, UpdateRequest 4 9]"]
  have "local_heap (steal_abs ?H') = []"
    "batch req_cfg (steal_abs ?H') = [UpdateRequest 6 5, UpdateRequest 4 9]" by code_simp+
  then have "steal_bag req_cfg (steal_abs ?H') = {#UpdateRequest 6 5, UpdateRequest 4 9#}"
    by (simp only: steal_bag_def) simp
  with ok show ?thesis by (intro exI [of _ ?H] exI [of _ ?H'] conjI) simp_all
qed

end
