(* ===== verification/StealingMQ.thy ===== *)
theory StealingMQ
  imports StealBuffer NUMA
begin

text \<open>
  \<open>StealingMultiQueue\<close> of \<open>WorkList/StealingMultiQueue.h\<close> and its NUMA variant
  \<open>StealingMultiQueueNuma.h\<close>: one \<open>HeapWithStealBuffer\<close> per thread and one vector per thread
  with the rest of the last stolen batch. The classes differ in the draw \<open>rand_heap()\<close>, the
  parameter \<open>rh\<close>. Each operation runs without interference; the loop of \<open>trySteal\<close>, which
  redraws until it meets another thread, is a partial function whose \<open>None\<close> is the loop that
  never ends.
\<close>

section \<open>State and operations\<close>

record 'a StealingMultiQueue =
  smq_heaps :: "'a HeapWithStealBuffer list"
  smq_stolen :: "'a list list"

definition StealingMultiQueue_init :: "'a steal_cfg \<Rightarrow> nat \<Rightarrow> 'a StealingMultiQueue" where
  "StealingMultiQueue_init P nQ =
     \<lparr>smq_heaps = replicate nQ (HeapWithStealBuffer_init P), smq_stolen = replicate nQ []\<rparr>"

definition set_steal_heap ::
    "nat \<Rightarrow> 'a HeapWithStealBuffer \<Rightarrow> 'a StealingMultiQueue \<Rightarrow> 'a StealingMultiQueue" where
  "set_steal_heap i H s = s\<lparr>smq_heaps := (smq_heaps s)[i := H]\<rparr>"

text \<open>
  The body of the loop of \<open>trySteal\<close>, from the drawn thread \<open>randId\<close> on: the stolen task, if
  any, and \<open>nextIterNeeded\<close>.
\<close>

definition steal_from ::
    "'a steal_cfg \<Rightarrow> nat \<Rightarrow> 'a \<Rightarrow> nat \<Rightarrow> 'a StealingMultiQueue \<Rightarrow>
     'a StealingMultiQueue \<times> 'a option \<times> bool" where
  "steal_from P tId localMin randId s =
     (case getBufferMin P (smq_heaps s ! randId) of (randMin, race) \<Rightarrow>
        if isDummy P randMin then (s, None, race)
        else if isDummy P localMin \<or> compare P localMin randMin then
          (case trySteal (smq_heaps s ! randId) of
             (Some elements, H, race') \<Rightarrow>
               let buffer = smq_stolen s ! tId @ rest_of P elements
               in ((set_steal_heap randId H s)\<lparr>smq_stolen := (smq_stolen s)[tId := rev buffer]\<rparr>,
                   Some (elements ! 0), race \<or> race')
           | (None, H, race') \<Rightarrow> (set_steal_heap randId H s, None, race \<or> race'))
        else (s, None, race))"

partial_function (option) steal_loop ::
    "(u32 \<Rightarrow> nat \<times> u32) \<Rightarrow> 'a steal_cfg \<Rightarrow> nat \<Rightarrow> 'a \<Rightarrow> 'a StealingMultiQueue \<Rightarrow> u32 \<Rightarrow>
     ('a StealingMultiQueue \<times> u32 \<times> 'a option) option" where
  "steal_loop rh P tId localMin s x =
     (case rh x of (randId, x1) \<Rightarrow>
        if randId = tId then steal_loop rh P tId localMin s x1
        else case steal_from P tId localMin randId s of (s1, stolen, nextIterNeeded) \<Rightarrow>
          if stolen \<noteq> None then Some (s1, x1, stolen)
          else if nextIterNeeded then steal_loop rh P tId localMin s1 x1
          else Some (s1, x1, None))"

declare steal_loop.simps [code]

definition smq_trySteal ::
    "(u32 \<Rightarrow> nat \<times> u32) \<Rightarrow> 'a steal_cfg \<Rightarrow> nat \<Rightarrow> 'a StealingMultiQueue \<Rightarrow> u32 \<Rightarrow>
     ('a StealingMultiQueue \<times> u32 \<times> 'a option) option" where
  "smq_trySteal rh P tId s x =
     (case getMinWriter P (smq_heaps s ! tId) of (localMin, H) \<Rightarrow>
        steal_loop rh P tId localMin (set_steal_heap tId H s) x)"

definition smq_push ::
    "'a steal_cfg \<Rightarrow> nat \<Rightarrow> 'a StealingMultiQueue \<Rightarrow> 'a list \<Rightarrow> 'a StealingMultiQueue \<times> u32" where
  "smq_push P tId s es =
     (if es = [] then (s, 0)
      else
        let H = foldl (heapPush P) (smq_heaps s ! tId) es
        in (set_steal_heap tId (fillBufferIfStolen P H) s, of_nat (length es)))"

definition smq_pop_local ::
    "(u32 \<Rightarrow> nat \<times> u32) \<Rightarrow> 'a steal_cfg \<Rightarrow> nat \<Rightarrow> nat \<Rightarrow> 'a StealingMultiQueue \<Rightarrow> u32 \<Rightarrow>
     ('a StealingMultiQueue \<times> u32 \<times> 'a option) option" where
  "smq_pop_local rh P nQ tId s x =
     (case steal_extractMin P (smq_heaps s ! tId) of
        (Some minVal, H) \<Rightarrow> Some (set_steal_heap tId H s, x, Some minVal)
      | (None, H) \<Rightarrow>
          if nQ = 1 then Some (set_steal_heap tId H s, x, None)
          else smq_trySteal rh P tId (set_steal_heap tId H s) x)"

definition smq_pop ::
    "(u32 \<Rightarrow> nat \<times> u32) \<Rightarrow> 'a steal_cfg \<Rightarrow> nat \<Rightarrow> nat \<Rightarrow> nat \<Rightarrow> 'a StealingMultiQueue \<Rightarrow> u32 \<Rightarrow>
     ('a StealingMultiQueue \<times> u32 \<times> 'a option) option" where
  "smq_pop rh P StealProb nQ tId s x =
     (let buffer = smq_stolen s ! tId in
      if buffer \<noteq> [] then
        Some ((set_steal_heap tId (fillBufferIfStolen P (smq_heaps s ! tId)) s)
                \<lparr>smq_stolen := (smq_stolen s)[tId := butlast buffer]\<rparr>, x, Some (last buffer))
      else if nQ > 1 then
        (case random x of (r, x1) \<Rightarrow>
           if remainder r StealProb = 0 then
             (case smq_trySteal rh P tId s x1 of
                None \<Rightarrow> None
              | Some (s1, x2, Some stolen) \<Rightarrow> Some (s1, x2, Some stolen)
              | Some (s1, x2, None) \<Rightarrow> smq_pop_local rh P nQ tId s1 x2)
           else smq_pop_local rh P nQ tId s x1)
      else smq_pop_local rh P nQ tId s x)"

text \<open>The two classes.\<close>

definition StealingMultiQueue_push where
  "StealingMultiQueue_push = smq_push"

definition StealingMultiQueue_pop where
  "StealingMultiQueue_pop P StealProb nQ = smq_pop (rand_heap nQ) P StealProb nQ"

definition StealingMultiQueueNuma_push where
  "StealingMultiQueueNuma_push = smq_push"

definition StealingMultiQueueNuma_pop where
  "StealingMultiQueueNuma_pop P StealProb c tId =
     smq_pop (numa_rand_heap c tId) P StealProb (numa_nQ c) tId"

section \<open>The invariant\<close>

text \<open>
  Every heap is well formed, and the stolen vector of each thread holds real tasks with the
  first one to serve at the back.
\<close>

definition smq_ok :: "'a steal_cfg \<Rightarrow> nat \<Rightarrow> 'a StealingMultiQueue \<Rightarrow> bool" where
  "smq_ok P nQ s \<longleftrightarrow>
     length (smq_heaps s) = nQ \<and> length (smq_stolen s) = nQ \<and>
     (\<forall>i < nQ. steal_ok P (smq_heaps s ! i)) \<and>
     (\<forall>i < nQ. dummyT P \<notin> set (smq_stolen s ! i) \<and>
        sorted_wrt (\<lambda>x y. \<not> compare P y x) (smq_stolen s ! i))"

definition smq_bag :: "'a steal_cfg \<Rightarrow> 'a StealingMultiQueue \<Rightarrow> 'a multiset" where
  "smq_bag P s = bags (steal_bag P) (smq_heaps s) + bags mset (smq_stolen s)"

lemma set_steal_heap_simps [simp]:
  "smq_heaps (set_steal_heap i H s) = (smq_heaps s)[i := H]"
  "smq_stolen (set_steal_heap i H s) = smq_stolen s"
  by (simp_all add: set_steal_heap_def)

lemma steal_loop_induct [consumes 1, case_names step]:
  assumes "steal_loop rh P tId localMin s x = Some r"
    and "\<And>loop s x r. (\<And>s x r. loop rh P tId localMin s x = Some r \<Longrightarrow> Q s x r) \<Longrightarrow>
      (case rh x of (randId, x1) \<Rightarrow>
         if randId = tId then loop rh P tId localMin s x1
         else case steal_from P tId localMin randId s of (s1, stolen, nextIterNeeded) \<Rightarrow>
           if stolen \<noteq> None then Some (s1, x1, stolen)
           else if nextIterNeeded then loop rh P tId localMin s1 x1
           else Some (s1, x1, None)) = Some r \<Longrightarrow> Q s x r"
  shows "Q s x r"
proof -
  let ?Q = "\<lambda>rh' P' tId' localMin' s x r.
    rh' = rh \<longrightarrow> P' = P \<longrightarrow> tId' = tId \<longrightarrow> localMin' = localMin \<longrightarrow> Q s x r"
  have "?Q rh P tId localMin s x r"
  proof (rule steal_loop.raw_induct [of "\<lambda>(((((rh, P), tId), localMin), s), x). ?Q rh P tId localMin s x"
        "(((((rh, P), tId), localMin), s), x)" r, unfolded prod.case, OF _ assms(1)], goal_cases)
    case (1 loop rh' P' tId' localMin' s x r)
    show ?case
      by (intro impI, rule assms(2) [of loop]) (use 1 in blast)+
  qed
  then show ?thesis by simp
qed

text \<open>
  \<open>stole\<close>: \<open>v\<close> was the first task on offer at another thread, which was better than this
  thread's own first offer (if it had a task at all), and the rest of that batch is now in this
  thread's stolen vector, in priority order from the back.
\<close>

definition stole ::
    "'a steal_cfg \<Rightarrow> nat \<Rightarrow> nat \<Rightarrow> 'a StealingMultiQueue \<Rightarrow> 'a StealingMultiQueue \<Rightarrow> 'a \<Rightarrow> bool" where
  "stole P nQ tId s s1 v \<longleftrightarrow>
     (\<exists>k < nQ. k \<noteq> tId \<and> v # rev (smq_stolen s1 ! tId) = batch P (smq_heaps s ! k)) \<and>
     (steal_bag P (smq_heaps s ! tId) = {#} \<or>
      (\<exists>m \<in># steal_bag P (smq_heaps s ! tId). compare P m v))"

text \<open>\<open>same_tasks\<close>: only the own heap moved tasks between its vector and its buffer.\<close>

definition same_tasks ::
    "'a steal_cfg \<Rightarrow> nat \<Rightarrow> nat \<Rightarrow> 'a StealingMultiQueue \<Rightarrow> 'a StealingMultiQueue \<Rightarrow> bool" where
  "same_tasks P nQ tId s s1 \<longleftrightarrow>
     smq_ok P nQ s1 \<and> smq_bag P s1 = smq_bag P s \<and> smq_stolen s1 = smq_stolen s \<and>
     steal_bag P (smq_heaps s1 ! tId) = steal_bag P (smq_heaps s ! tId) \<and>
     (\<forall>k. k \<noteq> tId \<longrightarrow> smq_heaps s1 ! k = smq_heaps s ! k)"

lemma stole_same_tasks: "same_tasks P nQ tId s s1 \<Longrightarrow> stole P nQ tId s1 s2 v \<Longrightarrow> stole P nQ tId s s2 v"
  by (auto simp: stole_def same_tasks_def)

context steal_class
begin

lemma set_heap_ok:
  assumes "smq_ok P nQ s" "i < nQ" "steal_ok P H"
  shows "smq_ok P nQ (set_steal_heap i H s)"
  using assms by (simp add: smq_ok_def nth_list_update)

lemma set_stolen_ok:
  assumes "smq_ok P nQ s" "i < nQ" "dummyT P \<notin> set b" "sorted_wrt (\<lambda>x y. \<not> compare P y x) b"
  shows "smq_ok P nQ (s\<lparr>smq_stolen := (smq_stolen s)[i := b]\<rparr>)"
  using assms by (simp add: smq_ok_def nth_list_update)

lemma set_heap_bag:
  assumes "smq_ok P nQ s" "i < nQ"
  shows "smq_bag P (set_steal_heap i H s) + steal_bag P (smq_heaps s ! i) = smq_bag P s + steal_bag P H"
  using bags_update [of i "smq_heaps s" "steal_bag P" H] assms
  by (simp add: smq_bag_def smq_ok_def ac_simps)

lemma set_heap_same_bag:
  assumes "smq_ok P nQ s" "i < nQ" "steal_bag P H = steal_bag P (smq_heaps s ! i)"
  shows "smq_bag P (set_steal_heap i H s) = smq_bag P s"
  using set_heap_bag [OF assms(1,2), of H] assms(3) by simp

lemma smq_okD:
  assumes "smq_ok P nQ s" "i < nQ"
  shows "steal_ok P (smq_heaps s ! i)" "i < length (smq_heaps s)" "i < length (smq_stolen s)"
    "dummyT P \<notin> set (smq_stolen s ! i)" "sorted_wrt (\<lambda>x y. \<not> compare P y x) (smq_stolen s ! i)"
  using assms by (simp_all add: smq_ok_def)

text \<open>One visit to another thread: nothing changes, or its whole batch changes hands.\<close>

lemma steal_from_cases:
  assumes "smq_ok P nQ s" "tId < nQ" "k < nQ" "smq_stolen s ! tId = []"
    and "steal_from P tId localMin k s = (s1, r, again)"
  shows "\<not> again" "r = None \<Longrightarrow> s1 = s"
    "r = Some v \<Longrightarrow> smq_ok P nQ s1 \<and> smq_bag P s = add_mset v (smq_bag P s1) \<and>
       v \<noteq> dummyT P \<and> v # rev (smq_stolen s1 ! tId) = batch P (smq_heaps s ! k) \<and>
       (localMin = dummyT P \<or> compare P localMin v)"
proof -
  let ?H = "smq_heaps s ! k"
  note ok = smq_okD [OF assms(1,3)]
  note g = getBufferMin_eq [OF ok(1)]
  obtain v' H1 race where st: "trySteal ?H = (v', H1, race)" by (metis prod_cases3)
  note t = trySteal_cases [OF ok(1) st]
  have *: "\<not> again \<and> (r = None \<longrightarrow> s1 = s) \<and>
    (r = Some v \<longrightarrow> smq_ok P nQ s1 \<and> smq_bag P s = add_mset v (smq_bag P s1) \<and>
       v \<noteq> dummyT P \<and> v # rev (smq_stolen s1 ! tId) = batch P ?H \<and>
       (localMin = dummyT P \<or> compare P localMin v))"
  proof (cases "\<not> isBufferStolen ?H \<and> (isDummy P localMin \<or> compare P localMin (stealBuffer ?H ! 0))")
    case False
    with assms(5) g show ?thesis by (auto simp: steal_from_def split: if_splits)
  next
    case True
    with t(2) obtain es where v': "v' = Some es" by (cases v') auto
    note e = t(3) [OF v']
    let ?rest = "rest_of P es"
    have r: "r = Some (es ! 0)" "\<not> again"
      "s1 = (set_steal_heap k H1 s)\<lparr>smq_stolen := (smq_stolen s)[tId := rev ?rest]\<rparr>"
      using assms(4,5) g True st v' t(1) by (auto simp: steal_from_def Let_def)
    have b: "batch P ?H = es ! 0 # ?rest" using e True by (simp add: batch_offered)
    have "sorted_wrt (\<lambda>x y. \<not> compare P x y) (batch P ?H)" "dummyT P \<notin> set (batch P ?H)"
      using ok(1) by (auto simp: steal_ok_def steal_bag_def)
    then have rest: "sorted_wrt (\<lambda>x y. \<not> compare P y x) (rev ?rest)" "dummyT P \<notin> set ?rest"
      "es ! 0 \<noteq> dummyT P" by (auto simp: b sorted_wrt_rev)
    have lens: "tId < length (smq_stolen s)" using assms(1,2) by (simp add: smq_ok_def)
    have ok1: "smq_ok P nQ s1"
      using set_heap_ok [OF assms(1,3), of H1] e rest lens assms(2)
      by (auto simp: smq_ok_def r(3) nth_list_update)
    have "smq_bag P s1 = smq_bag P (set_steal_heap k H1 s) + mset ?rest"
      using bags_update_add [OF lens, of mset "rev ?rest" "mset ?rest"] assms(4)
      by (simp add: smq_bag_def r(3))
    moreover have "smq_bag P (set_steal_heap k H1 s) + mset (batch P ?H) = smq_bag P s"
      using set_heap_bag [OF assms(1,3), of H1] e by simp
    ultimately have "smq_bag P s = add_mset (es ! 0) (smq_bag P s1)" by (simp add: b)
    with ok1 r rest b lens True e show ?thesis by (auto simp: isDummy_def)
  qed
  then show "\<not> again" "r = None \<Longrightarrow> s1 = s"
    "r = Some v \<Longrightarrow> smq_ok P nQ s1 \<and> smq_bag P s = add_mset v (smq_bag P s1) \<and>
       v \<noteq> dummyT P \<and> v # rev (smq_stolen s1 ! tId) = batch P ?H \<and>
       (localMin = dummyT P \<or> compare P localMin v)" by blast+
qed

lemma steal_loop_Some:
  assumes "steal_loop rh P tId localMin s x = Some (s1, x1, r)"
    and "smq_ok P nQ s" "tId < nQ" "smq_stolen s ! tId = []" "draws_below rh nQ"
  shows "\<exists>k < nQ. k \<noteq> tId \<and> steal_from P tId localMin k s = (s1, r, False)"
proof -
  have "\<exists>k < nQ. k \<noteq> tId \<and> steal_from P tId localMin k s = (fst q, snd (snd q), False)"
    if "steal_loop rh P tId localMin s x = Some q" for q
    using that assms(2,4)
  proof (induction rule: steal_loop_induct)
    case (step loop s x q)
    obtain k x1 where d: "rh x = (k, x1)" by fastforce
    have k: "k < nQ" using assms(5) d by (rule draws_belowD)
    obtain s1 v again where f: "steal_from P tId localMin k s = (s1, v, again)" by (metis prod_cases3)
    show ?case
    proof (cases "k = tId")
      case True
      with step(2) d have "loop rh P tId localMin s x1 = Some q" by simp
      from step(1) [OF this step(3,4)] show ?thesis .
    next
      case False
      have "\<not> again" by (rule steal_from_cases(1) [OF step(3) assms(3) k step(4) f])
      with False step(2) d f have "q = (s1, x1, v)" by (auto split: if_splits)
      with False f k \<open>\<not> again\<close> show ?thesis by auto
    qed
  qed
  from this [OF assms(1)] show ?thesis by simp
qed

lemma set_heap_same_tasks:
  assumes "smq_ok P nQ s" "tId < nQ" "steal_ok P H" "steal_bag P H = steal_bag P (smq_heaps s ! tId)"
  shows "same_tasks P nQ tId s (set_steal_heap tId H s)"
  using set_heap_ok [OF assms(1-3)] set_heap_same_bag [OF assms(1,2,4)] smq_okD(2) [OF assms(1,2)]
    assms(4)
  by (simp add: same_tasks_def)

lemma steal_visit_outcome:
  assumes "smq_ok P nQ s" "tId < nQ" "smq_stolen s ! tId = []" "0 < n" "n \<le> STEAL_NUM P"
    and "min_writer P n (smq_heaps s ! tId) = (m, H)"
    and "k < nQ" "k \<noteq> tId" "steal_from P tId m k (set_steal_heap tId H s) = (s1, r, again)"
  shows "case r of
      None \<Rightarrow> same_tasks P nQ tId s s1
    | Some v \<Rightarrow> smq_ok P nQ s1 \<and> smq_bag P s = add_mset v (smq_bag P s1) \<and> v \<noteq> dummyT P \<and>
        stole P nQ tId s s1 v"
proof -
  let ?s = "set_steal_heap tId H s"
  note w_ok = min_writer_ok [OF smq_okD(1) [OF assms(1,2)] assms(6,4,5)]
  have same: "same_tasks P nQ tId s ?s"
    by (rule set_heap_same_tasks [OF assms(1,2) w_ok(1,2)])
  then have ok': "smq_ok P nQ ?s" "smq_bag P ?s = smq_bag P s" by (simp_all add: same_tasks_def)
  note f = steal_from_cases [OF ok'(1) assms(2,7) _ assms(9)]
  show ?thesis
  proof (cases r)
    case None
    with f(2) same assms(3) show ?thesis by simp
  next
    case (Some v)
    from f(3) [OF _ Some] assms(3) have v: "smq_ok P nQ s1" "smq_bag P ?s = add_mset v (smq_bag P s1)"
      "v \<noteq> dummyT P" "v # rev (smq_stolen s1 ! tId) = batch P (smq_heaps ?s ! k)"
      "m = dummyT P \<or> compare P m v" by simp_all
    have "steal_bag P (smq_heaps s ! tId) = {#} \<or> (\<exists>y \<in># steal_bag P (smq_heaps s ! tId). compare P y v)"
    proof (cases "m = dummyT P")
      case True
      with w_ok(3) show ?thesis by simp
    next
      case False
      then have "m \<in># steal_bag P H" using w_ok(4) by (simp add: steal_bag_def batch_offered)
      with False v(5) w_ok(2) show ?thesis by auto
    qed
    with v assms(7,8) ok' Some show ?thesis by (auto simp: stole_def)
  qed
qed

lemma trySteal_outcome:
  assumes "smq_trySteal rh P tId s x = Some (s1, x1, r)"
    and "smq_ok P nQ s" "tId < nQ" "smq_stolen s ! tId = []" "draws_below rh nQ"
  shows "case r of
      None \<Rightarrow> same_tasks P nQ tId s s1
    | Some v \<Rightarrow> smq_ok P nQ s1 \<and> smq_bag P s = add_mset v (smq_bag P s1) \<and> v \<noteq> dummyT P \<and>
        stole P nQ tId s s1 v"
proof -
  obtain m H where w: "getMinWriter P (smq_heaps s ! tId) = (m, H)" by fastforce
  let ?s = "set_steal_heap tId H s"
  note w' = w [unfolded getMinWriter_def]
  note w_ok = min_writer_ok [OF smq_okD(1) [OF assms(2,3)] w' pos(1) order.refl]
  have loop: "steal_loop rh P tId m ?s x = Some (s1, x1, r)"
    using assms(1) w by (simp add: smq_trySteal_def)
  have "smq_ok P nQ ?s" by (rule set_heap_ok [OF assms(2,3) w_ok(1)])
  from steal_loop_Some [OF loop this assms(3) _ assms(5)] assms(4) obtain k where
    "k < nQ" "k \<noteq> tId" "steal_from P tId m k ?s = (s1, r, False)" by auto
  then show ?thesis
    using steal_visit_outcome [OF assms(2-4) pos(1) order.refl w'] by blast
qed

text \<open>What \<open>pop\<close> does once the stolen vector is empty.\<close>

definition popped :: "nat \<Rightarrow> nat \<Rightarrow> 'a StealingMultiQueue \<Rightarrow> 'a StealingMultiQueue \<Rightarrow> 'a option \<Rightarrow> bool" where
  "popped nQ tId s s1 r \<longleftrightarrow> smq_ok P nQ s1 \<and>
    (case r of
       None \<Rightarrow> smq_bag P s1 = smq_bag P s \<and> steal_bag P (smq_heaps s ! tId) = {#}
     | Some v \<Rightarrow> smq_bag P s = add_mset v (smq_bag P s1) \<and> v \<noteq> dummyT P \<and>
         ((\<forall>y \<in># steal_bag P (smq_heaps s ! tId). \<not> compare P v y) \<or> stole P nQ tId s s1 v))"

lemma popped_same_tasks: "same_tasks P nQ tId s s1 \<Longrightarrow> popped nQ tId s1 s2 r \<Longrightarrow> popped nQ tId s s2 r"
  using stole_same_tasks [of P nQ tId s s1 s2]
  by (auto simp: popped_def same_tasks_def split: option.splits)

lemma extract_outcome:
  assumes "smq_ok P nQ s" "tId < nQ" "0 < n" "n \<le> STEAL_NUM P"
    and "extract_upto P n (smq_heaps s ! tId) = (v, H)"
  shows "popped nQ tId s (set_steal_heap tId H s) v"
    "v = None \<Longrightarrow> same_tasks P nQ tId s (set_steal_heap tId H s)"
proof -
  note ok = smq_okD [OF assms(1,2)]
  note e_ok = extractMin_spec [OF ok(1) assms(5,3,4)]
  let ?s = "set_steal_heap tId H s"
  have same: "same_tasks P nQ tId s ?s" if "v = None"
    by (rule set_heap_same_tasks [OF assms(1,2)]) (use e_ok ok that in simp_all)
  then show "v = None \<Longrightarrow> same_tasks P nQ tId s ?s" .
  show "popped nQ tId s ?s v"
  proof (cases v)
    case (Some m)
    have "smq_bag P s = add_mset m (smq_bag P ?s)"
      using set_heap_bag [OF assms(1,2), of H] e_ok Some by simp
    moreover have "m \<noteq> dummyT P" using ok(1) e_ok Some by (auto simp: steal_ok_def)
    ultimately show ?thesis
      using set_heap_ok [OF assms(1,2)] e_ok Some by (simp add: popped_def)
  next
    case None
    with same e_ok show ?thesis by (simp add: popped_def same_tasks_def)
  qed
qed

text \<open>Stealing when the own heap has turned out to be empty.\<close>

lemma popped_stolen:
  assumes "case r of
      None \<Rightarrow> same_tasks P nQ tId s s1
    | Some v \<Rightarrow> smq_ok P nQ s1 \<and> smq_bag P s = add_mset v (smq_bag P s1) \<and> v \<noteq> dummyT P \<and>
        stole P nQ tId s s1 v"
    and "r = None \<Longrightarrow> steal_bag P (smq_heaps s ! tId) = {#}"
  shows "popped nQ tId s s1 r"
  using assms by (cases r) (simp_all add: popped_def same_tasks_def)

lemma pop_local_outcome:
  assumes "smq_pop_local rh P nQ tId s x = Some (s1, x1, r)"
    and "smq_ok P nQ s" "tId < nQ" "smq_stolen s ! tId = []" "draws_below rh nQ"
  shows "popped nQ tId s s1 r"
proof -
  obtain v H where e: "extract_upto P (STEAL_NUM P) (smq_heaps s ! tId) = (v, H)" by fastforce
  let ?s = "set_steal_heap tId H s"
  note x = extract_outcome [OF assms(2,3) pos(1) order.refl e]
  show ?thesis
  proof (cases "v = None \<and> nQ \<noteq> 1")
    case False
    with assms(1) e have "s1 = ?s" "r = v"
      by (auto simp: smq_pop_local_def steal_extractMin_def split: option.splits)
    with x(1) show ?thesis by simp
  next
    case True
    then have same: "same_tasks P nQ tId s ?s" using x(2) by simp
    from True assms(1) e have t: "smq_trySteal rh P tId ?s x = Some (s1, x1, r)"
      by (simp add: smq_pop_local_def steal_extractMin_def)
    have ok': "smq_ok P nQ ?s" "smq_stolen ?s ! tId = []" "steal_bag P (smq_heaps ?s ! tId) = {#}"
      using same assms(4) x(1) True by (simp_all add: same_tasks_def popped_def)
    have "popped nQ tId ?s s1 r"
      by (rule popped_stolen [OF trySteal_outcome [OF t ok'(1) assms(3) ok'(2) assms(5)] ok'(3)])
    with same show ?thesis by (rule popped_same_tasks)
  qed
qed

lemma pop_outcome:
  assumes "smq_pop rh P StealProb nQ tId s x = Some (s1, x1, r)"
    and "smq_ok P nQ s" "tId < nQ" "draws_below rh nQ"
  shows "if smq_stolen s ! tId = [] then popped nQ tId s s1 r
    else smq_ok P nQ s1 \<and> r = Some (last (smq_stolen s ! tId)) \<and>
      smq_stolen s1 ! tId = butlast (smq_stolen s ! tId) \<and>
      smq_bag P s = add_mset (last (smq_stolen s ! tId)) (smq_bag P s1)"
proof (cases "smq_stolen s ! tId = []")
  case True
  show ?thesis
  proof (cases "nQ > 1 \<and> remainder (fst (random x)) StealProb = 0")
    case False
    with True assms(1) obtain x2 where "smq_pop_local rh P nQ tId s x2 = Some (s1, x1, r)"
      by (auto simp: smq_pop_def split: if_splits prod.splits)
    from pop_local_outcome [OF this assms(2,3) True assms(4)] True show ?thesis by simp
  next
    case steal: True
    then obtain s2 x2 v where t: "smq_trySteal rh P tId s (snd (random x)) = Some (s2, x2, v)"
      and r: "if v = None then smq_pop_local rh P nQ tId s2 x2 = Some (s1, x1, r)
              else s1 = s2 \<and> r = v"
      using True assms(1) by (auto simp: smq_pop_def split: prod.splits option.splits)
    note o = trySteal_outcome [OF t assms(2,3) True assms(4)]
    have "popped nQ tId s s1 r"
    proof (cases v)
      case None
      with o have same: "same_tasks P nQ tId s s2" by simp
      then have "smq_ok P nQ s2" "smq_stolen s2 ! tId = []" using True by (simp_all add: same_tasks_def)
      with None r have "popped nQ tId s2 s1 r"
        using pop_local_outcome [OF _ _ assms(3) _ assms(4)] by simp
      with same show ?thesis by (rule popped_same_tasks)
    next
      case (Some m)
      with o r show ?thesis by (simp add: popped_def)
    qed
    with True show ?thesis by simp
  qed
next
  case False
  let ?b = "smq_stolen s ! tId" and ?H = "fillBufferIfStolen P (smq_heaps s ! tId)"
  let ?s = "set_steal_heap tId ?H s"
  note ok = smq_okD [OF assms(2,3)]
  note fill = fill_if_stolen_ok [OF ok(1) pos(1) order.refl, folded fillBufferIfStolen_def]
  have r: "s1 = ?s\<lparr>smq_stolen := (smq_stolen s)[tId := butlast ?b]\<rparr>" "r = Some (last ?b)"
    using False assms(1) by (simp_all add: smq_pop_def Let_def)
  have "sorted_wrt (\<lambda>x y. \<not> compare P y x) (butlast ?b)"
    using ok(5) by (simp add: butlast_conv_take sorted_wrt_take)
  moreover have "dummyT P \<notin> set (butlast ?b)" using ok(4) by (meson in_set_butlastD)
  ultimately have "smq_ok P nQ s1"
    using set_stolen_ok [OF set_heap_ok [OF assms(2,3) fill(1)] assms(3)] by (simp add: r(1))
  moreover have "bags mset (smq_stolen s) = bags mset (smq_stolen s1) + {#last ?b#}"
    using bags_update_sub [OF ok(3), of mset "butlast ?b" "{#last ?b#}"] mset_butlast_last [OF False]
    by (simp add: r(1))
  moreover have "bags (steal_bag P) (smq_heaps s1) = bags (steal_bag P) (smq_heaps s)"
    using bags_update_same [OF ok(2), of "steal_bag P"] fill(2) by (simp add: r(1))
  ultimately show ?thesis using False r ok(3) by (simp add: smq_bag_def)
qed

lemma pop_result:
  assumes "smq_pop rh P StealProb nQ tId s x = Some (s', x', r)"
    and "smq_ok P nQ s" "tId < nQ" "draws_below rh nQ"
  shows "smq_ok P nQ s' \<and>
    (case r of
       None \<Rightarrow> smq_bag P s' = smq_bag P s \<and> smq_stolen s ! tId = [] \<and>
         steal_bag P (smq_heaps s ! tId) = {#}
     | Some v \<Rightarrow> smq_bag P s = add_mset v (smq_bag P s') \<and>
         (if smq_stolen s ! tId \<noteq> [] then smq_stolen s ! tId = smq_stolen s' ! tId @ [v]
          else (\<forall>y \<in># steal_bag P (smq_heaps s ! tId). \<not> compare P v y) \<or> stole P nQ tId s s' v))"
  using pop_outcome [OF assms] append_butlast_last_id [of "smq_stolen s ! tId"]
  by (cases "smq_stolen s ! tId = []"; cases r) (auto simp: popped_def)

text \<open>Without interference the loop ends at the first draw of another thread, if there is one.\<close>

lemma steal_loop_returns_iff:
  assumes "smq_ok P nQ s" "tId < nQ" "smq_stolen s ! tId = []" "draws_below rh nQ"
  shows "(\<exists>r. steal_loop rh P tId m s x = Some r) \<longleftrightarrow> (\<exists>n. draw_at rh tId x n \<noteq> tId)"
proof
  assume "\<exists>r. steal_loop rh P tId m s x = Some r"
  then obtain r where "steal_loop rh P tId m s x = Some r" by blast
  then show "\<exists>n. draw_at rh tId x n \<noteq> tId"
  proof (induction rule: steal_loop_induct)
    case (step loop s x r)
    obtain k x1 where d: "rh x = (k, x1)" by fastforce
    show ?case
    proof (cases "k = tId")
      case True
      with step(2) d have "loop rh P tId m s x1 = Some r" by simp
      from step(1) [OF this] d True obtain n where "draw_at rh tId x1 n \<noteq> tId" by blast
      with d True show ?thesis by (intro exI [of _ "Suc n"]) simp
    next
      case False
      with d show ?thesis by (intro exI [of _ "Suc 0"]) simp
    qed
  qed
next
  assume "\<exists>n. draw_at rh tId x n \<noteq> tId"
  then obtain n where "draw_at rh tId x n \<noteq> tId" by blast
  then show "\<exists>r. steal_loop rh P tId m s x = Some r"
  proof (induction n arbitrary: x)
    case (Suc n)
    obtain k x1 where d: "rh x = (k, x1)" by fastforce
    have k: "k < nQ" using assms(4) d by (rule draws_belowD)
    obtain s1 v again where f: "steal_from P tId m k s = (s1, v, again)" by (metis prod_cases3)
    have "\<not> again" by (rule steal_from_cases(1) [OF assms(1,2) k assms(3) f])
    with Suc d f show ?case by (cases "k = tId") (simp_all add: steal_loop.simps [of rh P tId m s x])
  qed simp
qed

lemma trySteal_returns_iff:
  assumes "smq_ok P nQ s" "tId < nQ" "smq_stolen s ! tId = []" "draws_below rh nQ"
  shows "(\<exists>r. smq_trySteal rh P tId s x = Some r) \<longleftrightarrow> (\<exists>n. draw_at rh tId x n \<noteq> tId)"
proof -
  obtain m H where w: "getMinWriter P (smq_heaps s ! tId) = (m, H)" by fastforce
  note w_ok = min_writer_ok [OF smq_okD(1) [OF assms(1,2)] w [unfolded getMinWriter_def] pos(1) order.refl]
  have "smq_ok P nQ (set_steal_heap tId H s)" by (rule set_heap_ok [OF assms(1,2) w_ok(1)])
  from steal_loop_returns_iff [OF this assms(2) _ assms(4)] assms(3) w
  show ?thesis by (simp add: smq_trySteal_def)
qed

lemma push_outcome:
  assumes "smq_push P tId s es = (s1, n)" "smq_ok P nQ s" "tId < nQ" "dummyT P \<notin> set es"
  shows "smq_ok P nQ s1 \<and> smq_bag P s1 = smq_bag P s + mset es \<and> n = of_nat (length es) \<and>
    (es \<noteq> [] \<longrightarrow> \<not> isBufferStolen (smq_heaps s1 ! tId))"
proof (cases "es = []")
  case True
  with assms show ?thesis by (simp add: smq_push_def)
next
  case False
  let ?H = "foldl (heapPush P) (smq_heaps s ! tId) es"
  note ok = smq_okD [OF assms(2,3)]
  note push = heapPushes_ok [OF ok(1) assms(4)]
  then have "steal_ok P ?H" by simp
  note fill = fill_if_stolen_ok [OF this pos(1) order.refl, folded fillBufferIfStolen_def]
  have r: "s1 = set_steal_heap tId (fillBufferIfStolen P ?H) s" "n = of_nat (length es)"
    using assms(1) False by (simp_all add: smq_push_def Let_def)
  have "smq_bag P s1 = smq_bag P s + mset es"
    using set_heap_bag [OF assms(2,3), of "fillBufferIfStolen P ?H"] push fill(2)
    by (simp add: r(1) ac_simps)
  with set_heap_ok [OF assms(2,3) fill(1)] push fill(3) r False ok(2) show ?thesis by simp
qed

end

section \<open>Correctness\<close>

lemma steal_classI: "strict_weak_order (compare P) \<Longrightarrow> cfg_ok P \<Longrightarrow> steal_class P"
  by (simp add: steal_class.intro steal_class_axioms.intro)

text \<open>
  \<open>push\<close> adds exactly the given tasks and counts them, and leaves the thread with tasks on
  offer for the thieves.
\<close>

theorem StealingMultiQueue_push_correct:
  assumes "strict_weak_order (compare P)" "cfg_ok P" "smq_ok P nQ s" "tId < nQ" "dummyT P \<notin> set es"
    and "StealingMultiQueue_push P tId s es = (s', n)"
  shows "smq_ok P nQ s' \<and> smq_bag P s' = smq_bag P s + mset es \<and> n = of_nat (length es) \<and>
    (es \<noteq> [] \<longrightarrow> \<not> isBufferStolen (smq_heaps s' ! tId))"
  using steal_class.push_outcome [OF steal_classI [OF assms(1,2)] _ assms(3-5)] assms(6)
  by (simp add: StealingMultiQueue_push_def)

text \<open>Two threads, the second with its batch on offer, and stolen tasks of the first.\<close>

definition req_smq :: "nat update_request list \<Rightarrow> nat update_request list \<Rightarrow> nat update_request list \<Rightarrow>
    nat update_request StealingMultiQueue" where
  "req_smq es0 es1 st0 =
     \<lparr>smq_heaps = [req_thread es0, fillBufferIfStolen req_cfg (req_thread es1)], smq_stolen = [st0, []]\<rparr>"

lemma req_smq_ok:
  assumes "dummyT req_cfg \<notin> set (es0 @ es1 @ st0)"
    and "sorted_wrt (\<lambda>x y. \<not> UpdateRequestComparer y x) st0"
  shows "smq_ok req_cfg 2 (req_smq es0 es1 st0)"
    "smq_bag req_cfg (req_smq es0 es1 st0) = mset es0 + mset es1 + mset st0"
proof -
  have ok: "steal_ok req_cfg (req_thread es0)" "steal_bag req_cfg (req_thread es0) = mset es0"
    "steal_ok req_cfg (req_thread es1)" "steal_bag req_cfg (req_thread es1) = mset es1"
    using req_thread_ok [of es0] req_thread_ok [of es1] assms(1) by simp_all
  note fill = req_steal.fill_if_stolen_ok [OF ok(3) req_steal.pos(1) order.refl,
      folded fillBufferIfStolen_def]
  show "smq_ok req_cfg 2 (req_smq es0 es1 st0)"
    using ok fill assms by (auto simp: smq_ok_def req_smq_def less_2_cases_iff)
  show "smq_bag req_cfg (req_smq es0 es1 st0) = mset es0 + mset es1 + mset st0"
    using ok fill by (simp add: smq_bag_def req_smq_def)
qed

lemma not_dummy_req: "UpdateRequest n w \<noteq> dummyT req_cfg" "dummyT req_cfg \<noteq> UpdateRequest n w" if "0 < n"
  using that by (simp_all add: req_cfg_def)

theorem StealingMultiQueue_push_correct_witness:
  "\<exists>s'. StealingMultiQueue_push req_cfg 0 (req_smq [] [] []) [UpdateRequest 3 8, UpdateRequest 4 6] =
       (s', 2) \<and> smq_bag req_cfg s' = {#UpdateRequest 3 8, UpdateRequest 4 6#} \<and>
     \<not> isBufferStolen (smq_heaps s' ! 0)"
proof -
  let ?es = "[UpdateRequest 3 8, UpdateRequest 4 6] :: nat update_request list"
  obtain s' n where r: "StealingMultiQueue_push req_cfg 0 (req_smq [] [] []) ?es = (s', n)" by fastforce
  have ok: "smq_ok req_cfg 2 (req_smq [] [] [])" "smq_bag req_cfg (req_smq [] [] []) = {#}"
    using req_smq_ok [of "[]" "[]" "[]"] by simp_all
  have "dummyT req_cfg \<notin> set ?es" by (simp add: not_dummy_req)
  from StealingMultiQueue_push_correct [OF req_steal.swo req_steal.cfg ok(1) _ this r] ok(2)
  show ?thesis using r by simp
qed

text \<open>
  C17: \<open>pop\<close>: with stolen tasks left it serves the next of them; otherwise it returns a minimum
  of the thread's own tasks or steals another thread's batch whose first task is better than
  one of its own, and keeps the rest of that batch in order. It returns nothing only when the
  thread has no task. No task is lost or duplicated.
\<close>

theorem StealingMultiQueue_pop_correct:
  assumes "strict_weak_order (compare P)" "cfg_ok P" "smq_ok P nQ s" "tId < nQ"
    and "StealingMultiQueue_pop P StealProb nQ tId s x = Some (s', x', r)"
  shows "smq_ok P nQ s' \<and>
    (case r of
       None \<Rightarrow> smq_bag P s' = smq_bag P s \<and> smq_stolen s ! tId = [] \<and>
         steal_bag P (smq_heaps s ! tId) = {#}
     | Some v \<Rightarrow> smq_bag P s = add_mset v (smq_bag P s') \<and>
         (if smq_stolen s ! tId \<noteq> [] then smq_stolen s ! tId = smq_stolen s' ! tId @ [v]
          else (\<forall>y \<in># steal_bag P (smq_heaps s ! tId). \<not> compare P v y) \<or> stole P nQ tId s s' v))"
proof -
  note c = steal_classI [OF assms(1,2)]
  have "draws_below (rand_heap nQ) nQ" using assms(4) by (simp add: rand_heap_below)
  from steal_class.pop_result [OF c assms(5) [unfolded StealingMultiQueue_pop_def] assms(3,4) this]
  show ?thesis .
qed

theorem StealingMultiQueue_pop_correct_witness:
  "\<exists>s' x'. StealingMultiQueue_pop req_cfg 1 2 0
       (req_smq [UpdateRequest 6 5] [UpdateRequest 3 2, UpdateRequest 4 3] []) 1 =
       Some (s', x', Some (UpdateRequest 3 2)) \<and>
     smq_bag req_cfg s' = {#UpdateRequest 6 5, UpdateRequest 4 3#}"
proof -
  let ?s = "req_smq [UpdateRequest 6 5] [UpdateRequest 3 2, UpdateRequest 4 3] []"
  let ?pop = "StealingMultiQueue_pop req_cfg 1 2 0 ?s 1"
  have "map_option (\<lambda>(s', x', r). r) ?pop = Some (Some (UpdateRequest 3 2))" by code_simp
  then obtain s' x' where r: "?pop = Some (s', x', Some (UpdateRequest 3 2))" by auto
  have ok: "smq_ok req_cfg 2 ?s"
    "smq_bag req_cfg ?s = {#UpdateRequest 6 5, UpdateRequest 3 2, UpdateRequest 4 3#}"
    using req_smq_ok [of "[UpdateRequest 6 5]" "[UpdateRequest 3 2, UpdateRequest 4 3]" "[]"]
    by (simp_all add: not_dummy_req)
  have "smq_bag req_cfg ?s = add_mset (UpdateRequest 3 2) (smq_bag req_cfg s')"
    using StealingMultiQueue_pop_correct [OF req_steal.swo req_steal.cfg ok(1) _ r] by simp
  then have "{#UpdateRequest 6 5, UpdateRequest 4 3#} = smq_bag req_cfg s'"
    by (simp add: ok(2) add_mset_commute)
  with r show ?thesis by (intro exI [of _ s'] exI [of _ x'] conjI) simp_all
qed

text \<open>
  \<open>trySteal\<close>, run without interference, returns exactly if the thread's draws come to
  another thread.
\<close>

theorem StealingMultiQueue_trySteal_returns:
  assumes "strict_weak_order (compare P)" "cfg_ok P" "smq_ok P nQ s" "tId < nQ"
    and "smq_stolen s ! tId = []"
  shows "(\<exists>r. smq_trySteal (rand_heap nQ) P tId s x = Some r) \<longleftrightarrow>
    (\<exists>n. draw_at (rand_heap nQ) tId x n \<noteq> tId)"
proof -
  have "draws_below (rand_heap nQ) nQ" using assms(4) by (simp add: rand_heap_below)
  from steal_class.trySteal_returns_iff [OF steal_classI [OF assms(1,2)] assms(3-5) this]
  show ?thesis .
qed

theorem StealingMultiQueue_trySteal_returns_witness:
  "\<exists>r. smq_trySteal (rand_heap 2) req_cfg 0 (req_smq [UpdateRequest 6 5] [UpdateRequest 3 2] []) 1 = Some r"
proof -
  have ok: "smq_ok req_cfg 2 (req_smq [UpdateRequest 6 5] [UpdateRequest 3 2] [])"
    using req_smq_ok [of "[UpdateRequest 6 5]" "[UpdateRequest 3 2]" "[]"] by (simp add: not_dummy_req)
  have stolen: "smq_stolen (req_smq [UpdateRequest 6 5] [UpdateRequest 3 2] []) ! 0 = []"
    by (simp add: req_smq_def)
  have "draw_at (rand_heap 2) 0 1 1 = 1" by code_simp
  then show ?thesis
    by (subst StealingMultiQueue_trySteal_returns [OF req_steal.swo req_steal.cfg ok _ stolen])
      (simp, intro exI [of _ 1], simp)
qed

text \<open>A number of calls of \<open>pop\<close> by one thread, and what they return.\<close>

fun smq_pops ::
    "(u32 \<Rightarrow> nat \<times> u32) \<Rightarrow> 'a steal_cfg \<Rightarrow> nat \<Rightarrow> nat \<Rightarrow> nat \<Rightarrow> nat \<Rightarrow> 'a StealingMultiQueue \<Rightarrow> u32 \<Rightarrow>
     ('a StealingMultiQueue \<times> u32 \<times> 'a option list) option" where
  "smq_pops rh P StealProb nQ tId 0 s x = Some (s, x, [])"
| "smq_pops rh P StealProb nQ tId (Suc n) s x =
     (case smq_pop rh P StealProb nQ tId s x of
        None \<Rightarrow> None
      | Some (s1, x1, r) \<Rightarrow>
          map_option (\<lambda>(s2, x2, rs). (s2, x2, r # rs)) (smq_pops rh P StealProb nQ tId n s1 x1))"

text \<open>
  The rest of a stolen batch is served next, in priority order, without drawing a random
  number: with \<open>n\<close> tasks in its stolen vector, the next \<open>n\<close> calls of \<open>pop\<close> return them from the
  back, which is sorted, and leave the vector empty.
\<close>

theorem stolen_batch_in_order:
  assumes "strict_weak_order (compare P)" "cfg_ok P" "smq_ok P nQ s" "tId < nQ"
  shows "\<exists>s'. smq_pops (rand_heap nQ) P StealProb nQ tId (length (smq_stolen s ! tId)) s x =
      Some (s', x, map Some (rev (smq_stolen s ! tId))) \<and>
    sorted_wrt (\<lambda>x y. \<not> compare P x y) (rev (smq_stolen s ! tId)) \<and>
    smq_ok P nQ s' \<and> smq_stolen s' ! tId = []"
proof -
  note c = steal_classI [OF assms(1,2)]
  have below: "draws_below (rand_heap nQ) nQ" using assms(4) by (simp add: rand_heap_below)
  have "\<exists>s'. smq_pops (rand_heap nQ) P StealProb nQ tId (length b) s x =
      Some (s', x, map Some (rev b)) \<and> smq_ok P nQ s' \<and> smq_stolen s' ! tId = []"
    if "smq_stolen s ! tId = b" "smq_ok P nQ s" for b s
    using that
  proof (induction b arbitrary: s rule: rev_induct)
    case (snoc v b)
    obtain s1 x1 r where p: "smq_pop (rand_heap nQ) P StealProb nQ tId s x = Some (s1, x1, r)"
      using snoc.prems(1) by (auto simp: smq_pop_def Let_def)
    then have "x1 = x" using snoc.prems(1) by (simp add: smq_pop_def Let_def)
    moreover from steal_class.pop_outcome [OF c p snoc.prems(2) assms(4) below] snoc.prems(1)
    have "smq_ok P nQ s1" "r = Some v" "smq_stolen s1 ! tId = b" by simp_all
    ultimately show ?case using snoc.IH [of s1] p by auto
  qed simp
  from this [OF refl assms(3)] steal_class.smq_okD(5) [OF c assms(3,4)]
  show ?thesis by (auto simp: sorted_wrt_rev)
qed

theorem stolen_batch_in_order_witness:
  "\<exists>s'. smq_pops (rand_heap 2) req_cfg 1 2 0 2
      (req_smq [UpdateRequest 6 5] [] [UpdateRequest 4 9, UpdateRequest 3 2]) 7 =
      Some (s', 7, [Some (UpdateRequest 3 2), Some (UpdateRequest 4 9)]) \<and> smq_stolen s' ! 0 = []"
proof -
  let ?s = "req_smq [UpdateRequest 6 5] [] [UpdateRequest 4 9, UpdateRequest 3 2]"
  have "sorted_wrt (\<lambda>x y. \<not> UpdateRequestComparer y x) [UpdateRequest 4 9, UpdateRequest (3 :: nat) 2]"
    by code_simp
  then have ok: "smq_ok req_cfg 2 ?s"
    using req_smq_ok [of "[UpdateRequest 6 5]" "[]" "[UpdateRequest 4 9, UpdateRequest 3 2]"]
    by (simp add: not_dummy_req)
  have stolen: "smq_stolen ?s ! 0 = [UpdateRequest 4 9, UpdateRequest 3 2]" by (simp add: req_smq_def)
  from stolen_batch_in_order [OF req_steal.swo req_steal.cfg ok, of 0 1 7]
  show ?thesis by (auto simp: stolen numeral_2_eq_2)
qed

text \<open>
  The NUMA variant keeps the contract of \<open>push\<close> and \<open>pop\<close>.
\<close>

theorem StealingMultiQueueNuma_correct:
  assumes "strict_weak_order (compare P)" "cfg_ok P" "smq_ok P (numa_nQ c) s" "numa_ok c tId"
    and "tId < numa_nQ c" "dummyT P \<notin> set es"
  shows "(\<forall>s' n. StealingMultiQueueNuma_push P tId s es = (s', n) \<longrightarrow>
      smq_ok P (numa_nQ c) s' \<and> smq_bag P s' = smq_bag P s + mset es \<and> n = of_nat (length es)) \<and>
    (\<forall>s' x' r. StealingMultiQueueNuma_pop P StealProb c tId s x = Some (s', x', r) \<longrightarrow>
      smq_ok P (numa_nQ c) s' \<and>
      (case r of
         None \<Rightarrow> smq_bag P s' = smq_bag P s \<and> steal_bag P (smq_heaps s ! tId) = {#}
       | Some v \<Rightarrow> smq_bag P s = add_mset v (smq_bag P s') \<and>
           (smq_stolen s ! tId = [] \<longrightarrow>
              (\<forall>y \<in># steal_bag P (smq_heaps s ! tId). \<not> compare P v y) \<or>
              stole P (numa_nQ c) tId s s' v)))"
proof (intro conjI allI impI)
  note c = steal_classI [OF assms(1,2)]
  fix s' n
  assume "StealingMultiQueueNuma_push P tId s es = (s', n)"
  from steal_class.push_outcome [OF c _ assms(3,5,6)] this
  show "smq_ok P (numa_nQ c) s'" "smq_bag P s' = smq_bag P s + mset es" "n = of_nat (length es)"
    by (simp_all add: StealingMultiQueueNuma_push_def)
next
  fix s' x' r
  assume "StealingMultiQueueNuma_pop P StealProb c tId s x = Some (s', x', r)"
  from steal_class.pop_result [OF steal_classI [OF assms(1,2)]
      this [unfolded StealingMultiQueueNuma_pop_def] assms(3,5) numa_below [OF assms(4)]]
  show "smq_ok P (numa_nQ c) s'"
    "case r of
       None \<Rightarrow> smq_bag P s' = smq_bag P s \<and> steal_bag P (smq_heaps s ! tId) = {#}
     | Some v \<Rightarrow> smq_bag P s = add_mset v (smq_bag P s') \<and>
         (smq_stolen s ! tId = [] \<longrightarrow>
            (\<forall>y \<in># steal_bag P (smq_heaps s ! tId). \<not> compare P v y) \<or>
            stole P (numa_nQ c) tId s s' v)"
    by (simp_all split: option.splits if_splits)
qed

text \<open>One queue per thread (\<open>C = 1\<close>), two threads on two sockets of one.\<close>

definition two_threads_cfg :: numa_cfg where
  "two_threads_cfg = \<lparr>cSockets4 = False, cS = 1, cC = 1, cL = 4, cT = 2\<rparr>"

theorem StealingMultiQueueNuma_correct_witness:
  "\<exists>s' x'. StealingMultiQueueNuma_pop req_cfg 8 two_threads_cfg 0
       (req_smq [UpdateRequest 6 5] [UpdateRequest 3 2] []) 1 = Some (s', x', Some (UpdateRequest 6 5)) \<and>
     smq_bag req_cfg s' = {#UpdateRequest 3 2#}"
proof -
  let ?s = "req_smq [UpdateRequest 6 5] [UpdateRequest 3 2] []"
  let ?pop = "StealingMultiQueueNuma_pop req_cfg 8 two_threads_cfg 0 ?s 1"
  have c: "numa_ok two_threads_cfg 0" "numa_nQ two_threads_cfg = 2"
    by (simp_all add: numa_ok_def numa_nQ_def two_threads_cfg_def)
  have x: "random 1 = (270369, 270369)" "remainder 270369 8 = 1" by code_simp+
  have "fst (steal_extractMin req_cfg (smq_heaps ?s ! 0)) = Some (UpdateRequest 6 5)" by code_simp
  then obtain s' x' where r: "?pop = Some (s', x', Some (UpdateRequest 6 5))"
    by (cases "steal_extractMin req_cfg (smq_heaps ?s ! 0)")
      (simp add: StealingMultiQueueNuma_pop_def smq_pop_def smq_pop_local_def c x req_smq_def)
  have ok: "smq_ok req_cfg (numa_nQ two_threads_cfg) ?s"
    "smq_bag req_cfg ?s = {#UpdateRequest 6 5, UpdateRequest 3 2#}"
    using req_smq_ok [of "[UpdateRequest 6 5]" "[UpdateRequest 3 2]" "[]"]
    by (simp_all add: not_dummy_req c)
  have tid: "0 < numa_nQ two_threads_cfg" by (simp add: c)
  note correct = StealingMultiQueueNuma_correct [where es = "[]" and StealProb = 8 and x = 1,
      OF req_steal.swo req_steal.cfg ok(1) c(1) tid]
  have "smq_bag req_cfg ?s = add_mset (UpdateRequest 6 5) (smq_bag req_cfg s')"
    using conjunct2 [OF correct] r by fastforce
  then have "{#UpdateRequest 3 2#} = smq_bag req_cfg s'" by (simp add: ok(2))
  with r show ?thesis by (intro exI [of _ s'] exI [of _ x'] conjI) simp_all
qed

end
