(* ===== verification/AdaptiveSMQ.thy ===== *)
theory AdaptiveSMQ
  imports StealBufferAdap StealingMQ
begin

text \<open>
  \<open>AdaptiveStealingMultiQueue\<close> of \<open>WorkList/AdaptiveStealingMultiQueue.h\<close>: the
  StealingMultiQueue that tunes, per thread, the batch size and the stealing probability from
  counts of its own attempts. The state abstracts to that of \<open>StealingMQ\<close>, whose lemmas carry
  the proofs. The \<open>Galois::Statistic\<close> counters, written to a file by the destructor, are not
  modelled; sizes and counts are \<open>nat\<close>.
\<close>

section \<open>Tuning\<close>

definition BUFF_REPORT_CNT :: nat where "BUFF_REPORT_CNT = 16"
definition PROB_REPORT_CNT :: nat where "PROB_REPORT_CNT = 1024"
definition STEAL_BUFFER_SIZE :: nat where "STEAL_BUFFER_SIZE = 16"
definition INIT_BUFFER_FILL :: nat where "INIT_BUFFER_FILL = 16"
definition INIT_STEAL_PROB :: nat where "INIT_STEAL_PROB = 8"

record PerThread =
  stealProb :: nat
  stealSize :: nat
  stealAttemptsNum :: nat
  otherMinLessNum :: nat
  stealReportId :: nat
  emptyNum :: nat
  tryNum :: nat
  emptyReportId :: nat

definition PerThread_init :: PerThread where
  "PerThread_init = \<lparr>stealProb = INIT_STEAL_PROB, stealSize = INIT_BUFFER_FILL,
     stealAttemptsNum = 0, otherMinLessNum = 0, stealReportId = 0,
     emptyNum = 0, tryNum = 0, emptyReportId = 0\<rparr>"

definition updateSize :: "PerThread \<Rightarrow> PerThread" where
  "updateSize t = t\<lparr>stealSize :=
     (if emptyNum t * 100 \<le> tryNum t * 30 then 1
      else if emptyNum t * 100 \<le> tryNum t * 60 then 2
      else if emptyNum t * 100 \<le> tryNum t * 90 then 8
      else 16)\<rparr>"

definition updateProbability :: "PerThread \<Rightarrow> PerThread" where
  "updateProbability t = t\<lparr>stealProb :=
     (if otherMinLessNum t * 100 \<le> stealAttemptsNum t * 5 then 32
      else if otherMinLessNum t * 100 \<le> stealAttemptsNum t * 20 then 16
      else if otherMinLessNum t * 100 \<le> stealAttemptsNum t * 80 then 8
      else if otherMinLessNum t * 100 \<le> stealAttemptsNum t * 90 then 4
      else 2)\<rparr>"

definition clearProbStats :: "PerThread \<Rightarrow> PerThread" where
  "clearProbStats t = t\<lparr>stealAttemptsNum := 0, otherMinLessNum := 0, stealReportId := 0\<rparr>"

definition clearEmptyStats :: "PerThread \<Rightarrow> PerThread" where
  "clearEmptyStats t = t\<lparr>tryNum := 0, emptyNum := 0, emptyReportId := 0\<rparr>"

definition reportBetterPer :: "nat \<Rightarrow> nat \<Rightarrow> PerThread \<Rightarrow> PerThread" where
  "reportBetterPer ourBetter otherBetter t =
     (let t1 = t\<lparr>stealAttemptsNum := stealAttemptsNum t + (ourBetter + otherBetter),
                 otherMinLessNum := otherMinLessNum t + otherBetter,
                 stealReportId := stealReportId t + 1\<rparr>
      in if stealReportId t1 \<ge> PROB_REPORT_CNT then clearProbStats (updateProbability t1) else t1)"

definition reportEmptyPer :: "nat \<Rightarrow> nat \<Rightarrow> PerThread \<Rightarrow> PerThread" where
  "reportEmptyPer empties tries t =
     (let t1 = t\<lparr>emptyNum := emptyNum t + empties, tryNum := tryNum t + tries,
                 emptyReportId := emptyReportId t + 1\<rparr>
      in if emptyReportId t1 \<ge> BUFF_REPORT_CNT then clearEmptyStats (updateSize t1) else t1)"

section \<open>The scheduler\<close>

record 'a AdaptiveSMQ =
  asmq_heaps :: "'a HeapWithStealBufferAdap list"
  asmq_stolen :: "'a list list"
  asmq_threads :: "PerThread list"
  asmq_prev :: "nat list"

definition AdaptiveSMQ_init :: "'a steal_cfg \<Rightarrow> nat \<Rightarrow> 'a AdaptiveSMQ" where
  "AdaptiveSMQ_init P nQ =
     \<lparr>asmq_heaps = replicate nQ (HeapWithStealBufferAdap_init P), asmq_stolen = replicate nQ [],
      asmq_threads = replicate nQ PerThread_init, asmq_prev = replicate nQ (STEAL_NUM P)\<rparr>"

definition set_adap :: "nat \<Rightarrow> 'a HeapWithStealBufferAdap \<Rightarrow> 'a AdaptiveSMQ \<Rightarrow> 'a AdaptiveSMQ" where
  "set_adap i H s = s\<lparr>asmq_heaps := (asmq_heaps s)[i := H]\<rparr>"

text \<open>The owner's operations also return \<open>prevFillNum\<close>.\<close>

definition set_own ::
    "nat \<Rightarrow> nat \<times> 'a HeapWithStealBufferAdap \<Rightarrow> 'a AdaptiveSMQ \<Rightarrow> 'a AdaptiveSMQ" where
  "set_own i r s = s\<lparr>asmq_heaps := (asmq_heaps s)[i := snd r], asmq_prev := (asmq_prev s)[i := fst r]\<rparr>"

text \<open>The local counters of \<open>trySteal\<close>.\<close>

record steal_counts =
  ourBetterCnt :: nat
  otherBetterCnt :: nat
  emptyCnt :: nat
  stealAttemptCnt :: nat

text \<open>
  The body of the loop from the drawn thread \<open>randId\<close> on, another thread. The results: the
  stolen task, \<open>nextIterNeeded\<close> and the counters.
\<close>

definition asmq_visit ::
    "'a steal_cfg \<Rightarrow> nat \<Rightarrow> 'a \<Rightarrow> nat \<Rightarrow> 'a AdaptiveSMQ \<Rightarrow> steal_counts \<Rightarrow>
     'a AdaptiveSMQ \<times> 'a option \<times> bool \<times> steal_counts" where
  "asmq_visit P tId localMin randId s n =
     (case adap_getBufferMin P (asmq_heaps s ! randId) of (randMin, race) \<Rightarrow>
        if isDummy P randMin then
          (s, None, race, if \<not> race then n\<lparr>emptyCnt := emptyCnt n + 1\<rparr> else n)
        else if isDummy P localMin \<or> compare P localMin randMin then
          let n1 = n\<lparr>otherBetterCnt := otherBetterCnt n + 1\<rparr> in
          (case adap_trySteal P (asmq_heaps s ! randId) of (stolenBuff, H, race') \<Rightarrow>
             let s1 = set_adap randId H s in
             if 0 < length stolenBuff then
               (s1\<lparr>asmq_stolen := (asmq_stolen s)[tId := rev (asmq_stolen s ! tId @ drop 1 stolenBuff)]\<rparr>,
                Some (stolenBuff ! 0), race \<or> race', n1)
             else (s1, None, race \<or> race', n1))
        else (s, None, race, n\<lparr>ourBetterCnt := ourBetterCnt n + 1\<rparr>))"

partial_function (option) asmq_loop ::
    "(u32 \<Rightarrow> nat \<times> u32) \<Rightarrow> 'a steal_cfg \<Rightarrow> nat \<Rightarrow> 'a \<Rightarrow> 'a AdaptiveSMQ \<Rightarrow> steal_counts \<Rightarrow> u32 \<Rightarrow>
     ('a AdaptiveSMQ \<times> u32 \<times> 'a option \<times> steal_counts) option" where
  "asmq_loop rh P tId localMin s n x =
     (case n\<lparr>stealAttemptCnt := stealAttemptCnt n + 1\<rparr> of n1 \<Rightarrow>
      case rh x of (randId, x1) \<Rightarrow>
        if randId = tId then Some (s, x1, None, n1)
        else case asmq_visit P tId localMin randId s n1 of (s1, stolen, nextIterNeeded, n2) \<Rightarrow>
          if stolen \<noteq> None then Some (s1, x1, stolen, n2)
          else if nextIterNeeded then asmq_loop rh P tId localMin s1 n2 x1
          else Some (s1, x1, None, n2))"

declare asmq_loop.simps [code]

definition asmq_trySteal ::
    "(u32 \<Rightarrow> nat \<times> u32) \<Rightarrow> 'a steal_cfg \<Rightarrow> nat \<Rightarrow> 'a AdaptiveSMQ \<Rightarrow> u32 \<Rightarrow>
     ('a AdaptiveSMQ \<times> u32 \<times> 'a option) option" where
  "asmq_trySteal rh P tId s x =
     (case adap_getMinWriter P (asmq_prev s ! tId) (stealSize (asmq_threads s ! tId)) (asmq_heaps s ! tId) of
        (localMin, r) \<Rightarrow>
          case asmq_loop rh P tId localMin (set_own tId r s)
                 \<lparr>ourBetterCnt = 0, otherBetterCnt = 0, emptyCnt = 0, stealAttemptCnt = 0\<rparr> x of
            None \<Rightarrow> None
          | Some (s1, x1, stolen, n) \<Rightarrow>
              Some (s1\<lparr>asmq_threads := (asmq_threads s1)[tId :=
                        reportEmptyPer (emptyCnt n) (stealAttemptCnt n)
                          (reportBetterPer (ourBetterCnt n) (otherBetterCnt n) (asmq_threads s1 ! tId))]\<rparr>,
                    x1, stolen))"

definition fillBufferIfNeeded :: "'a steal_cfg \<Rightarrow> nat \<Rightarrow> 'a AdaptiveSMQ \<Rightarrow> 'a AdaptiveSMQ" where
  "fillBufferIfNeeded P tId s =
     (if adap_isBufferStolen (asmq_heaps s ! tId)
      then set_own tId (snd (adap_fillBuffer P (asmq_prev s ! tId)
             (stealSize (asmq_threads s ! tId)) (asmq_heaps s ! tId))) s
      else s)"

definition asmq_push :: "'a steal_cfg \<Rightarrow> nat \<Rightarrow> 'a AdaptiveSMQ \<Rightarrow> 'a list \<Rightarrow> 'a AdaptiveSMQ \<times> u32" where
  "asmq_push P tId s es =
     (if es = [] then (s, 0)
      else (fillBufferIfNeeded P tId
              (set_adap tId (foldl (adap_push P) (asmq_heaps s ! tId) es) s), of_nat (length es)))"

definition asmq_pop_local ::
    "(u32 \<Rightarrow> nat \<times> u32) \<Rightarrow> 'a steal_cfg \<Rightarrow> nat \<Rightarrow> nat \<Rightarrow> 'a AdaptiveSMQ \<Rightarrow> u32 \<Rightarrow>
     ('a AdaptiveSMQ \<times> u32 \<times> 'a option) option" where
  "asmq_pop_local rh P nQ tId s x =
     (case adap_extractMin P (asmq_prev s ! tId) (stealSize (asmq_threads s ! tId)) (asmq_heaps s ! tId) of
        (Some minVal, r) \<Rightarrow> Some (set_own tId r s, x, Some minVal)
      | (None, r) \<Rightarrow>
          if nQ = 1 then Some (set_own tId r s, x, None)
          else asmq_trySteal rh P tId (set_own tId r s) x)"

definition asmq_pop ::
    "(u32 \<Rightarrow> nat \<times> u32) \<Rightarrow> 'a steal_cfg \<Rightarrow> nat \<Rightarrow> nat \<Rightarrow> 'a AdaptiveSMQ \<Rightarrow> u32 \<Rightarrow>
     ('a AdaptiveSMQ \<times> u32 \<times> 'a option) option" where
  "asmq_pop rh P nQ tId s x =
     (let buffer = asmq_stolen s ! tId in
      if buffer \<noteq> [] then
        Some (fillBufferIfNeeded P tId (s\<lparr>asmq_stolen := (asmq_stolen s)[tId := butlast buffer]\<rparr>),
              x, Some (last buffer))
      else if nQ > 1 then
        (case random x of (r, x1) \<Rightarrow>
           if remainder r (stealProb (asmq_threads s ! tId)) = 0 then
             (case asmq_trySteal rh P tId s x1 of
                None \<Rightarrow> None
              | Some (s1, x2, Some stolen) \<Rightarrow> Some (s1, x2, Some stolen)
              | Some (s1, x2, None) \<Rightarrow> asmq_pop_local rh P nQ tId s1 x2)
           else asmq_pop_local rh P nQ tId s x1)
      else asmq_pop_local rh P nQ tId s x)"

section \<open>Tuning stays in range\<close>

definition tuned :: "PerThread \<Rightarrow> bool" where
  "tuned t \<longleftrightarrow> stealSize t \<in> {1, 2, 8, 16} \<and> stealProb t \<in> {2, 4, 8, 16, 32} \<and>
     otherMinLessNum t \<le> stealAttemptsNum t \<and> emptyNum t \<le> tryNum t \<and>
     stealReportId t < PROB_REPORT_CNT \<and> emptyReportId t < BUFF_REPORT_CNT"

lemma tuned_init: "tuned PerThread_init"
  by (simp add: tuned_def PerThread_init_def INIT_BUFFER_FILL_def INIT_STEAL_PROB_def
      PROB_REPORT_CNT_def BUFF_REPORT_CNT_def)

lemma tuned_reportBetter: "tuned t \<Longrightarrow> tuned (reportBetterPer our other t)"
  by (auto simp: tuned_def reportBetterPer_def clearProbStats_def updateProbability_def Let_def
      PROB_REPORT_CNT_def)

lemma tuned_reportEmpty: "tuned t \<Longrightarrow> empties \<le> tries \<Longrightarrow> tuned (reportEmptyPer empties tries t)"
  by (auto simp: tuned_def reportEmptyPer_def clearEmptyStats_def updateSize_def Let_def
      BUFF_REPORT_CNT_def)

section \<open>Abstraction to the StealingMultiQueue\<close>

definition asmq_abs :: "'a AdaptiveSMQ \<Rightarrow> 'a StealingMultiQueue" where
  "asmq_abs s = \<lparr>smq_heaps = map steal_abs (asmq_heaps s), smq_stolen = asmq_stolen s\<rparr>"

lemma asmq_abs_simps [simp]:
  "smq_heaps (asmq_abs s) = map steal_abs (asmq_heaps s)" "smq_stolen (asmq_abs s) = asmq_stolen s"
  "asmq_abs (set_adap i H s) = set_steal_heap i (steal_abs H) (asmq_abs s)"
  "asmq_abs (set_own i r s) = set_steal_heap i (steal_abs (snd r)) (asmq_abs s)"
  "asmq_abs (s\<lparr>asmq_threads := ts\<rparr>) = asmq_abs s"
  "asmq_abs (s\<lparr>asmq_stolen := b\<rparr>) = (asmq_abs s)\<lparr>smq_stolen := b\<rparr>"
  by (simp_all add: asmq_abs_def set_adap_def set_own_def set_steal_heap_def map_update)

definition asmq_ok :: "'a steal_cfg \<Rightarrow> nat \<Rightarrow> 'a AdaptiveSMQ \<Rightarrow> bool" where
  "asmq_ok P nQ s \<longleftrightarrow>
     smq_ok P nQ (asmq_abs s) \<and> length (asmq_threads s) = nQ \<and> length (asmq_prev s) = nQ \<and>
     (\<forall>i < nQ. tuned (asmq_threads s ! i)) \<and>
     (\<forall>i < nQ. adap_clean P (asmq_prev s ! i) (asmq_heaps s ! i))"

definition asmq_bag :: "'a steal_cfg \<Rightarrow> 'a AdaptiveSMQ \<Rightarrow> 'a multiset" where
  "asmq_bag P s = smq_bag P (asmq_abs s)"

locale adaptive_class = steal_class +
  assumes size: "STEAL_NUM P = STEAL_BUFFER_SIZE"
begin

lemma asmq_okD:
  assumes "asmq_ok P nQ s" "i < nQ"
  shows "smq_ok P nQ (asmq_abs s)" "length (asmq_heaps s) = nQ" "length (asmq_stolen s) = nQ"
    "length (asmq_threads s) = nQ" "length (asmq_prev s) = nQ"
    "tuned (asmq_threads s ! i)" "adap_clean P (asmq_prev s ! i) (asmq_heaps s ! i)"
    "steal_ok P (steal_abs (asmq_heaps s ! i))" "smq_heaps (asmq_abs s) ! i = steal_abs (asmq_heaps s ! i)"
    "0 < stealSize (asmq_threads s ! i)" "stealSize (asmq_threads s ! i) \<le> STEAL_NUM P"
  using assms by (auto simp: asmq_ok_def smq_ok_def tuned_def size STEAL_BUFFER_SIZE_def)

text \<open>What is left to show of a changed state, beyond its abstraction.\<close>

lemma asmq_ok_set_adap:
  assumes "asmq_ok P nQ s" "smq_ok P nQ (asmq_abs (set_adap i H s))" "i < nQ"
    and "adap_buffer H = adap_buffer (asmq_heaps s ! i)"
  shows "asmq_ok P nQ (set_adap i H s)"
  using assms asmq_okD(2,7) [OF assms(1)] adap_clean_cong [OF assms(4), of P]
  by (simp add: asmq_ok_def set_adap_def nth_list_update)

lemma asmq_ok_set_own:
  assumes "asmq_ok P nQ s" "smq_ok P nQ (asmq_abs (set_own i r s))" "i < nQ"
    and "adap_clean P (fst r) (snd r)"
  shows "asmq_ok P nQ (set_own i r s)"
  using assms asmq_okD(2,5) [OF assms(1,3)] by (simp add: asmq_ok_def set_own_def nth_list_update)

lemma asmq_ok_set_threads:
  assumes "asmq_ok P nQ s" "i < nQ" "tuned t"
  shows "asmq_ok P nQ (s\<lparr>asmq_threads := (asmq_threads s)[i := t]\<rparr>)"
  using assms by (simp add: asmq_ok_def nth_list_update)

lemma asmq_ok_set_stolen:
  assumes "asmq_ok P nQ s" "smq_ok P nQ (asmq_abs (s\<lparr>asmq_stolen := b\<rparr>))"
  shows "asmq_ok P nQ (s\<lparr>asmq_stolen := b\<rparr>)"
  using assms by (simp add: asmq_ok_def)

text \<open>A visit is the visit of the StealingMultiQueue.\<close>

lemma asmq_visit_abs:
  assumes "asmq_ok P nQ s" "tId < nQ" "k < nQ" "asmq_stolen s ! tId = []"
    and "asmq_visit P tId m k s n = (s1, r, again, n1)"
  shows "steal_from P tId m k (asmq_abs s) = (asmq_abs s1, r, again)" "\<not> again" "asmq_ok P nQ s1"
    "asmq_threads s1 = asmq_threads s"
    "stealAttemptCnt n1 = stealAttemptCnt n" "emptyCnt n1 \<le> emptyCnt n + 1"
proof -
  let ?H = "asmq_heaps s ! k"
  note ok = asmq_okD [OF assms(1,3)]
  obtain xs H1 race where st: "adap_trySteal P ?H = (xs, H1, race)" by (metis prod_cases3)
  note t = adap_trySteal_abs [OF ok(8) st pos(1)]
  have g: "getBufferMin P (smq_heaps (asmq_abs s) ! k) = adap_getBufferMin P ?H"
    by (simp only: ok(9) adap_getBufferMin_abs)
  note g_ok = getBufferMin_eq [OF ok(8), folded ok(9), unfolded g]
  have stolen: "adap_isBufferStolen ?H = isBufferStolen (smq_heaps (asmq_abs s) ! k)"
    by (simp only: ok(9) adap_isBufferStolen_abs)
  have *: "steal_from P tId m k (asmq_abs s) = (asmq_abs s1, r, again) \<and>
    (s1 = s \<or> (\<exists>b. s1 = (set_adap k H1 s)\<lparr>asmq_stolen := b\<rparr>)) \<and>
    stealAttemptCnt n1 = stealAttemptCnt n \<and> emptyCnt n1 \<le> emptyCnt n + 1"
  proof (cases "isDummy P (fst (adap_getBufferMin P ?H)) \<or>
      \<not> (isDummy P m \<or> compare P m (fst (adap_getBufferMin P ?H)))")
    case True
    with assms(5) g g_ok(1) show ?thesis
      by (auto simp: asmq_visit_def steal_from_def split: if_splits)
  next
    case False
    with g_ok(2) stolen have "\<not> adap_isBufferStolen ?H" by simp
    with t(2) obtain es where es: "xs = batch P (steal_abs ?H)" "xs \<noteq> []"
      "trySteal (steal_abs ?H) = (Some es, steal_abs H1, False)" by auto
    have "es = stealBuffer (steal_abs ?H)" "\<not> isBufferStolen (steal_abs ?H)"
      using es(3) by (auto simp: trySteal_def Let_def isBufferStolen_def split: if_splits)
    then have "xs = es ! 0 # rest_of P es" using es(1) by (simp add: batch_offered)
    then have xs: "xs ! 0 = es ! 0" "drop 1 xs = rest_of P es" by simp_all
    have tr: "trySteal (smq_heaps (asmq_abs s) ! k) = (Some es, steal_abs H1, False)"
      by (simp only: ok(9) es(3))
    obtain mn rc where gm: "adap_getBufferMin P ?H = (mn, rc)" by fastforce
    have "s1 = (set_adap k H1 s)\<lparr>asmq_stolen := (asmq_stolen s)[tId := rev (rest_of P es)]\<rparr>"
      "r = Some (es ! 0)" "again = (rc \<or> race)" "n1 = n\<lparr>otherBetterCnt := otherBetterCnt n + 1\<rparr>"
      using assms(4,5) False es(2) st xs gm by (auto simp: asmq_visit_def Let_def)
    moreover have "steal_from P tId m k (asmq_abs s) =
      ((set_steal_heap k (steal_abs H1) (asmq_abs s))\<lparr>smq_stolen := (asmq_stolen s)[tId := rev (rest_of P es)]\<rparr>,
       Some (es ! 0), rc)"
      using assms(4) False gm tr unfolding steal_from_def g by (simp add: Let_def)
    ultimately show ?thesis using t(1) by simp blast
  qed
  then show sf: "steal_from P tId m k (asmq_abs s) = (asmq_abs s1, r, again)"
    "stealAttemptCnt n1 = stealAttemptCnt n" "emptyCnt n1 \<le> emptyCnt n + 1" by blast+
  note c = steal_from_cases [OF ok(1) assms(2,3) _ sf(1)]
  show "\<not> again" using c(1) assms(4) by simp
  have abs: "smq_ok P nQ (asmq_abs s1)"
    using c(2,3) assms(4) ok(1) by (cases r) simp_all
  from * consider "s1 = s" | b where "s1 = (set_adap k H1 s)\<lparr>asmq_stolen := b\<rparr>" by blast
  then have "asmq_threads s1 = asmq_threads s \<and> asmq_ok P nQ s1"
  proof cases
    case 2
    have "adap_clean P (asmq_prev s ! i) ((asmq_heaps s)[k := H1] ! i)" if "i < nQ" for i
      using asmq_okD(2,7) [OF assms(1) that] adap_clean_cong [OF t(3)] assms(3)
      by (simp add: nth_list_update)
    with abs assms(1) 2 show ?thesis by (simp add: asmq_ok_def set_adap_def)
  qed (use assms(1) in simp)
  then show "asmq_threads s1 = asmq_threads s" "asmq_ok P nQ s1" by simp_all
qed

text \<open>
  Without interference the loop draws once: its own number gives the attempt up, another
  thread's is visited.
\<close>

lemma asmq_loop_once:
  assumes "asmq_loop rh P tId m s n x = Some (s1, x1, r, n1)"
    and "asmq_ok P nQ s" "tId < nQ" "asmq_stolen s ! tId = []" "draws_below rh nQ"
  shows "(s1 = s \<and> r = None \<or>
      (\<exists>k < nQ. k \<noteq> tId \<and> steal_from P tId m k (asmq_abs s) = (asmq_abs s1, r, False))) \<and>
    asmq_ok P nQ s1 \<and> asmq_threads s1 = asmq_threads s \<and>
    stealAttemptCnt n1 = stealAttemptCnt n + 1 \<and> emptyCnt n1 \<le> emptyCnt n + 1"
proof -
  let ?n = "n\<lparr>stealAttemptCnt := stealAttemptCnt n + 1\<rparr>"
  obtain k x2 where d: "rh x = (k, x2)" by fastforce
  have k: "k < nQ" using assms(5) d by (rule draws_belowD)
  show ?thesis
  proof (cases "k = tId")
    case True
    with assms(1,2) d show ?thesis by (subst (asm) asmq_loop.simps) auto
  next
    case False
    obtain s2 v again n2 where v: "asmq_visit P tId m k s ?n = (s2, v, again, n2)" by (metis prod_cases4)
    note o = asmq_visit_abs [OF assms(2,3) k assms(4) v]
    from assms(1) False d v o(2) have "s1 = s2" "r = v" "n1 = n2"
      by (subst (asm) asmq_loop.simps, auto split: if_splits)+
    with o k False show ?thesis by auto
  qed
qed

lemma asmq_trySteal_outcome:
  assumes "asmq_trySteal rh P tId s x = Some (s1, x1, r)"
    and "asmq_ok P nQ s" "tId < nQ" "asmq_stolen s ! tId = []" "draws_below rh nQ"
  shows "asmq_ok P nQ s1 \<and>
    (case r of
       None \<Rightarrow> same_tasks P nQ tId (asmq_abs s) (asmq_abs s1)
     | Some v \<Rightarrow> smq_ok P nQ (asmq_abs s1) \<and>
         smq_bag P (asmq_abs s) = add_mset v (smq_bag P (asmq_abs s1)) \<and> v \<noteq> dummyT P \<and>
         stole P nQ tId (asmq_abs s) (asmq_abs s1) v)"
proof -
  let ?n = "stealSize (asmq_threads s ! tId)"
  note ok = asmq_okD [OF assms(2,3)]
  obtain m prev H where w: "adap_getMinWriter P (asmq_prev s ! tId) ?n (asmq_heaps s ! tId) = (m, prev, H)"
    by (metis prod_cases3)
  note w_abs = adap_getMinWriter_abs [OF ok(7,11) w]
  have mw: "min_writer P ?n (smq_heaps (asmq_abs s) ! tId) = (m, steal_abs H)"
    by (simp only: ok(9) w_abs(1))
  note w_ok = min_writer_ok [OF ok(8) w_abs(1) ok(10,11)]
  let ?s = "set_own tId (prev, H) s"
  have same: "same_tasks P nQ tId (asmq_abs s) (asmq_abs ?s)"
    using set_heap_same_tasks [OF ok(1) assms(3) w_ok(1)] w_ok(2) ok(9) by simp
  have ok': "asmq_ok P nQ ?s"
    by (rule asmq_ok_set_own [OF assms(2) _ assms(3)])
      (use same w_abs(2) in \<open>simp_all add: same_tasks_def\<close>)
  have stolen: "asmq_stolen ?s ! tId = []" using assms(4) by (simp add: set_own_def)
  obtain s2 n2 where l: "asmq_loop rh P tId m ?s
      \<lparr>ourBetterCnt = 0, otherBetterCnt = 0, emptyCnt = 0, stealAttemptCnt = 0\<rparr> x = Some (s2, x1, r, n2)"
    and s1: "s1 = s2\<lparr>asmq_threads := (asmq_threads s2)[tId := reportEmptyPer (emptyCnt n2) (stealAttemptCnt n2)
      (reportBetterPer (ourBetterCnt n2) (otherBetterCnt n2) (asmq_threads s2 ! tId))]\<rparr>"
    using assms(1) w by (auto simp: asmq_trySteal_def split: option.splits)
  note o = asmq_loop_once [OF l ok' assms(3) stolen assms(5)]
  have s2: "asmq_ok P nQ s2" "emptyCnt n2 \<le> stealAttemptCnt n2" using o by simp_all
  have "tuned (reportEmptyPer (emptyCnt n2) (stealAttemptCnt n2)
      (reportBetterPer (ourBetterCnt n2) (otherBetterCnt n2) (asmq_threads s2 ! tId)))"
    by (intro tuned_reportEmpty tuned_reportBetter asmq_okD(6) [OF s2(1) assms(3)] s2(2))
  then have "asmq_ok P nQ s1" unfolding s1 by (rule asmq_ok_set_threads [OF s2(1) assms(3)])
  moreover have abs: "asmq_abs s1 = asmq_abs s2" by (simp add: s1)
  moreover from o consider "asmq_abs s2 = asmq_abs ?s" "r = None" |
    k where "k < nQ" "k \<noteq> tId" "steal_from P tId m k (asmq_abs ?s) = (asmq_abs s2, r, False)" by auto
  then have "case r of
       None \<Rightarrow> same_tasks P nQ tId (asmq_abs s) (asmq_abs s2)
     | Some v \<Rightarrow> smq_ok P nQ (asmq_abs s2) \<and>
         smq_bag P (asmq_abs s) = add_mset v (smq_bag P (asmq_abs s2)) \<and> v \<noteq> dummyT P \<and>
         stole P nQ tId (asmq_abs s) (asmq_abs s2) v"
  proof cases
    case 1
    with same show ?thesis by simp
  next
    case (2 k)
    have "smq_stolen (asmq_abs s) ! tId = []" using assms(4) by simp
    note v = steal_visit_outcome [OF ok(1) assms(3) this ok(10,11) mw 2(1,2)]
    show ?thesis by (rule v [of _ _ False]) (use 2(3) in simp)
  qed
  ultimately show ?thesis by (simp only: simp_thms)
qed

lemma asmq_pop_local_outcome:
  assumes "asmq_pop_local rh P nQ tId s x = Some (s1, x1, r)"
    and "asmq_ok P nQ s" "tId < nQ" "asmq_stolen s ! tId = []" "draws_below rh nQ"
  shows "asmq_ok P nQ s1 \<and> popped nQ tId (asmq_abs s) (asmq_abs s1) r"
proof -
  let ?n = "stealSize (asmq_threads s ! tId)"
  note ok = asmq_okD [OF assms(2,3)]
  obtain v prev H where e: "adap_extractMin P (asmq_prev s ! tId) ?n (asmq_heaps s ! tId) = (v, prev, H)"
    by (metis prod_cases3)
  note e_abs = adap_extractMin_abs [OF ok(8,7) pos(1) ok(11) e]
  let ?s = "set_own tId (prev, H) s"
  have ex: "extract_upto P ?n (smq_heaps (asmq_abs s) ! tId) = (v, steal_abs H)"
    by (simp only: ok(9) e_abs(1))
  note o = extract_outcome [OF ok(1) assms(3) ok(10,11) ex]
  have abs: "asmq_abs ?s = set_steal_heap tId (steal_abs H) (asmq_abs s)" by simp
  have ok': "asmq_ok P nQ ?s"
    by (rule asmq_ok_set_own [OF assms(2) _ assms(3)]) (use o(1) e_abs(2) in \<open>simp_all add: popped_def\<close>)
  show ?thesis
  proof (cases "v = None \<and> nQ \<noteq> 1")
    case False
    with assms(1) e have "s1 = ?s" "r = v" by (auto simp: asmq_pop_local_def split: option.splits)
    with o(1) ok' abs show ?thesis by simp
  next
    case True
    then have same: "same_tasks P nQ tId (asmq_abs s) (asmq_abs ?s)" using o(2) by simp
    from True assms(1) e have t: "asmq_trySteal rh P tId ?s x = Some (s1, x1, r)"
      by (simp add: asmq_pop_local_def)
    have "asmq_stolen ?s ! tId = []" using assms(4) by (simp add: set_own_def)
    note out = asmq_trySteal_outcome [OF t ok' assms(3) this assms(5)]
    have "steal_bag P (smq_heaps (asmq_abs ?s) ! tId) = {#}"
      using same o(1) True by (simp add: same_tasks_def popped_def)
    with out have "popped nQ tId (asmq_abs ?s) (asmq_abs s1) r"
      by (intro popped_stolen) simp_all
    with same out show ?thesis by (blast intro: popped_same_tasks)
  qed
qed

lemma fillBufferIfNeeded_ok:
  assumes "asmq_ok P nQ s" "tId < nQ"
  shows "asmq_ok P nQ (fillBufferIfNeeded P tId s)"
    "asmq_bag P (fillBufferIfNeeded P tId s) = asmq_bag P s"
    "asmq_stolen (fillBufferIfNeeded P tId s) = asmq_stolen s"
    "steal_bag P (steal_abs (asmq_heaps s ! tId)) \<noteq> {#} \<Longrightarrow>
       \<not> adap_isBufferStolen (asmq_heaps (fillBufferIfNeeded P tId s) ! tId)"
proof -
  let ?n = "stealSize (asmq_threads s ! tId)" and ?H = "asmq_heaps s ! tId"
  note ok = asmq_okD [OF assms]
  obtain v prev H where f: "adap_fillBuffer P (asmq_prev s ! tId) ?n ?H = (v, prev, H)"
    by (metis prod_cases3)
  note f_abs = adap_fillBuffer_abs [OF ok(7,11) f]
  have *: "asmq_ok P nQ (fillBufferIfNeeded P tId s) \<and>
    asmq_bag P (fillBufferIfNeeded P tId s) = asmq_bag P s \<and>
    asmq_stolen (fillBufferIfNeeded P tId s) = asmq_stolen s \<and>
    (steal_bag P (steal_abs ?H) \<noteq> {#} \<longrightarrow>
       \<not> adap_isBufferStolen (asmq_heaps (fillBufferIfNeeded P tId s) ! tId))"
  proof (cases "adap_isBufferStolen ?H")
    case False
    with assms(1) show ?thesis by (simp add: fillBufferIfNeeded_def)
  next
    case True
    then have st: "isBufferStolen (steal_abs ?H)" by (simp add: adap_isBufferStolen_abs)
    note fill = fill_upto_ok [OF ok(8) st f_abs(1) ok(10,11)]
    let ?s = "set_own tId (prev, H) s"
    have same: "same_tasks P nQ tId (asmq_abs s) (asmq_abs ?s)"
      using set_heap_same_tasks [OF ok(1) assms(2) fill(1)] fill(2) ok(9) by simp
    have "asmq_ok P nQ ?s"
      by (rule asmq_ok_set_own [OF assms(1) _ assms(2)])
        (use same f_abs(2) in \<open>simp_all add: same_tasks_def\<close>)
    moreover have "fillBufferIfNeeded P tId s = ?s"
      using True f by (simp add: fillBufferIfNeeded_def)
    moreover have "steal_bag P (steal_abs ?H) \<noteq> {#} \<longrightarrow> \<not> adap_isBufferStolen H"
      using fill(4) st by (auto simp: steal_bag_def batch_def adap_isBufferStolen_abs)
    ultimately show ?thesis
      using same ok(2) assms(2) by (simp add: asmq_bag_def same_tasks_def set_own_def)
  qed
  then show "asmq_ok P nQ (fillBufferIfNeeded P tId s)"
    "asmq_bag P (fillBufferIfNeeded P tId s) = asmq_bag P s"
    "asmq_stolen (fillBufferIfNeeded P tId s) = asmq_stolen s"
    "steal_bag P (steal_abs (asmq_heaps s ! tId)) \<noteq> {#} \<Longrightarrow>
       \<not> adap_isBufferStolen (asmq_heaps (fillBufferIfNeeded P tId s) ! tId)" by blast+
qed

lemma asmq_pop_result:
  assumes "asmq_pop rh P nQ tId s x = Some (s', x', r)"
    and "asmq_ok P nQ s" "tId < nQ" "draws_below rh nQ"
  shows "asmq_ok P nQ s' \<and>
    (case r of
       None \<Rightarrow> asmq_bag P s' = asmq_bag P s \<and> asmq_stolen s ! tId = [] \<and>
         steal_bag P (steal_abs (asmq_heaps s ! tId)) = {#}
     | Some v \<Rightarrow> asmq_bag P s = add_mset v (asmq_bag P s') \<and>
         (if asmq_stolen s ! tId \<noteq> [] then asmq_stolen s ! tId = asmq_stolen s' ! tId @ [v]
          else (\<forall>y \<in># steal_bag P (steal_abs (asmq_heaps s ! tId)). \<not> compare P v y) \<or>
            stole P nQ tId (asmq_abs s) (asmq_abs s') v))"
proof (cases "asmq_stolen s ! tId = []")
  case True
  have "asmq_ok P nQ s' \<and> popped nQ tId (asmq_abs s) (asmq_abs s') r"
  proof (cases "nQ > 1 \<and> remainder (fst (random x)) (stealProb (asmq_threads s ! tId)) = 0")
    case False
    with True assms(1) obtain x2 where "asmq_pop_local rh P nQ tId s x2 = Some (s', x', r)"
      by (auto simp: asmq_pop_def split: if_splits prod.splits)
    from asmq_pop_local_outcome [OF this assms(2,3) True assms(4)] show ?thesis .
  next
    case steal: True
    then obtain s2 x2 v where t: "asmq_trySteal rh P tId s (snd (random x)) = Some (s2, x2, v)"
      and r: "if v = None then asmq_pop_local rh P nQ tId s2 x2 = Some (s', x', r)
              else s' = s2 \<and> r = v"
      using True assms(1) by (auto simp: asmq_pop_def split: prod.splits option.splits)
    note o = asmq_trySteal_outcome [OF t assms(2,3) True assms(4)]
    show ?thesis
    proof (cases v)
      case None
      with o have same: "same_tasks P nQ tId (asmq_abs s) (asmq_abs s2)" by simp
      then have "asmq_stolen s2 ! tId = []" using True by (simp add: same_tasks_def)
      with None r o have "asmq_ok P nQ s' \<and> popped nQ tId (asmq_abs s2) (asmq_abs s') r"
        using asmq_pop_local_outcome [OF _ _ assms(3) _ assms(4)] by simp
      with same show ?thesis by (blast intro: popped_same_tasks)
    next
      case (Some m)
      with o r show ?thesis by (simp add: popped_def)
    qed
  qed
  with True asmq_okD(9) [OF assms(2,3)] show ?thesis
    by (cases r) (simp_all add: popped_def asmq_bag_def)
next
  case False
  let ?b = "asmq_stolen s ! tId" and ?s = "s\<lparr>asmq_stolen := (asmq_stolen s)[tId := butlast (asmq_stolen s ! tId)]\<rparr>"
  note ok = asmq_okD [OF assms(2,3)]
  have r: "s' = fillBufferIfNeeded P tId ?s" "r = Some (last ?b)"
    using False assms(1) by (simp_all add: asmq_pop_def Let_def)
  note stolen = smq_okD(3-5) [OF ok(1) assms(3)]
  have "sorted_wrt (\<lambda>x y. \<not> compare P y x) (butlast ?b)" "dummyT P \<notin> set (butlast ?b)"
    using stolen by (auto simp: butlast_conv_take sorted_wrt_take dest: in_set_takeD)
  with set_stolen_ok [OF ok(1) assms(3)] have "smq_ok P nQ (asmq_abs ?s)" by simp
  with asmq_ok_set_stolen [OF assms(2)] have ok': "asmq_ok P nQ ?s" by blast
  note fill = fillBufferIfNeeded_ok [OF ok' assms(3)]
  have "bags mset (asmq_stolen s) = bags mset (asmq_stolen ?s) + {#last ?b#}"
    using bags_update_sub [of tId "asmq_stolen s" mset "butlast ?b" "{#last ?b#}"] ok(3) assms(3)
      mset_butlast_last [OF False] by simp
  then have "asmq_bag P s = add_mset (last ?b) (asmq_bag P ?s)"
    by (simp add: asmq_bag_def smq_bag_def)
  with fill r False ok(3) assms(3) show ?thesis by simp
qed

lemma asmq_push_result:
  assumes "asmq_push P tId s es = (s', n)" "asmq_ok P nQ s" "tId < nQ" "dummyT P \<notin> set es"
  shows "asmq_ok P nQ s' \<and> asmq_bag P s' = asmq_bag P s + mset es \<and> n = of_nat (length es) \<and>
    (es \<noteq> [] \<longrightarrow> \<not> adap_isBufferStolen (asmq_heaps s' ! tId))"
proof (cases "es = []")
  case True
  with assms show ?thesis by (simp add: asmq_push_def)
next
  case False
  let ?H = "foldl (adap_push P) (asmq_heaps s ! tId) es"
  let ?s = "set_adap tId ?H s"
  note ok = asmq_okD [OF assms(2,3)]
  note push = heapPushes_ok [OF ok(8) assms(4), unfolded heapPushes_abs]
  have abs: "asmq_abs ?s = set_steal_heap tId (steal_abs ?H) (asmq_abs s)" by simp
  have smq: "smq_ok P nQ (asmq_abs ?s)"
    unfolding abs by (rule set_heap_ok [OF ok(1) assms(3)]) (use push in simp)
  have ok': "asmq_ok P nQ ?s"
    by (rule asmq_ok_set_adap [OF assms(2) smq assms(3)]) (simp add: adap_push_buffer)
  have "smq_bag P (asmq_abs ?s) = smq_bag P (asmq_abs s) + mset es"
    unfolding abs using set_heap_bag [OF ok(1) assms(3), of "steal_abs ?H"] push ok(9)
    by (simp add: ac_simps)
  moreover note fill = fillBufferIfNeeded_ok [OF ok' assms(3)]
  moreover have "asmq_heaps ?s ! tId = ?H" using ok(2) assms(3) by (simp add: set_adap_def)
  moreover have "steal_bag P (steal_abs ?H) \<noteq> {#}" using push False by simp
  moreover have "s' = fillBufferIfNeeded P tId ?s" "n = of_nat (length es)"
    using assms(1) False by (simp_all add: asmq_push_def)
  ultimately show ?thesis by (simp add: asmq_bag_def)
qed

end

section \<open>Correctness\<close>

lemma adaptive_classI:
  "strict_weak_order (compare P) \<Longrightarrow> cfg_ok P \<Longrightarrow> STEAL_NUM P = STEAL_BUFFER_SIZE \<Longrightarrow> adaptive_class P"
  by (simp add: adaptive_class.intro adaptive_class_axioms.intro steal_classI)

text \<open>
  The tuned parameters keep to their tables: whatever a thread reports, its batch size
  stays one of 1, 2, 8, 16, so it fits the steal buffer and is not 0, and its stealing
  probability stays a power of two up to 32; the counters they are computed from are reset
  with the last report of a period.
\<close>

theorem tuning_in_range:
  assumes "tuned t" "empties \<le> tries"
  shows "tuned (reportBetterPer our other t) \<and> tuned (reportEmptyPer empties tries t) \<and>
    0 < stealSize t \<and> stealSize t \<le> STEAL_BUFFER_SIZE \<and> 0 < stealProb t"
  using assms tuned_reportBetter tuned_reportEmpty by (auto simp: tuned_def STEAL_BUFFER_SIZE_def)

theorem tuning_in_range_witness:
  "tuned (reportEmptyPer 1 1 (PerThread_init\<lparr>emptyNum := 3, tryNum := 14, emptyReportId := 15\<rparr>)) \<and>
   stealSize (reportEmptyPer 1 1 (PerThread_init\<lparr>emptyNum := 3, tryNum := 14, emptyReportId := 15\<rparr>)) = 1"
proof -
  have "tuned (PerThread_init\<lparr>emptyNum := 3, tryNum := 14, emptyReportId := 15\<rparr>)" by code_simp
  from tuning_in_range [OF this, of 1 1] show ?thesis by (simp, code_simp)
qed

text \<open>
  C19: The adaptive scheduler keeps the contract of the StealingMultiQueue whatever its tuning
  is at the moment: \<open>push\<close> adds exactly the given tasks and leaves an offer; \<open>pop\<close> serves the
  rest of a stolen batch, or a minimum of the own tasks, or steals a better batch, returns
  nothing only when the thread has no task, and loses or duplicates none; the buffers stay
  clean and the tuning in range.
\<close>

theorem AdaptiveSMQ_correct:
  assumes "strict_weak_order (compare P)" "cfg_ok P" "STEAL_NUM P = STEAL_BUFFER_SIZE"
    and "asmq_ok P nQ s" "tId < nQ" "dummyT P \<notin> set es"
  shows "(\<forall>s' n. asmq_push P tId s es = (s', n) \<longrightarrow>
      asmq_ok P nQ s' \<and> asmq_bag P s' = asmq_bag P s + mset es \<and> n = of_nat (length es) \<and>
      (es \<noteq> [] \<longrightarrow> \<not> adap_isBufferStolen (asmq_heaps s' ! tId))) \<and>
    (\<forall>s' x' r. asmq_pop (rand_heap nQ) P nQ tId s x = Some (s', x', r) \<longrightarrow>
      asmq_ok P nQ s' \<and>
      (case r of
         None \<Rightarrow> asmq_bag P s' = asmq_bag P s \<and> asmq_stolen s ! tId = [] \<and>
           steal_bag P (steal_abs (asmq_heaps s ! tId)) = {#}
       | Some v \<Rightarrow> asmq_bag P s = add_mset v (asmq_bag P s') \<and>
           (if asmq_stolen s ! tId \<noteq> [] then asmq_stolen s ! tId = asmq_stolen s' ! tId @ [v]
            else (\<forall>y \<in># steal_bag P (steal_abs (asmq_heaps s ! tId)). \<not> compare P v y) \<or>
              stole P nQ tId (asmq_abs s) (asmq_abs s') v)))"
proof -
  note c = adaptive_classI [OF assms(1-3)]
  have "draws_below (rand_heap nQ) nQ" using assms(5) by (simp add: rand_heap_below)
  with adaptive_class.asmq_push_result [OF c _ assms(4-6)]
    adaptive_class.asmq_pop_result [OF c _ assms(4,5)] show ?thesis by blast
qed

text \<open>The instance: the steal buffer of 16 cells, two threads.\<close>

definition adap_cfg :: "nat update_request steal_cfg" where
  "adap_cfg = req_cfg\<lparr>STEAL_NUM := 16\<rparr>"

lemma adap_cfg_simps [simp]:
  "compare adap_cfg = UpdateRequestComparer" "STEAL_NUM adap_cfg = 16" "arity adap_cfg = 4"
  by (simp_all add: adap_cfg_def)

interpretation req_adap: adaptive_class adap_cfg
  by unfold_locales (auto simp: cfg_ok_def STEAL_BUFFER_SIZE_def dest: urc.asym urc.neg_trans)

lemma AdaptiveSMQ_init_ok:
  "asmq_ok adap_cfg nQ (AdaptiveSMQ_init adap_cfg nQ)"
  "asmq_bag adap_cfg (AdaptiveSMQ_init adap_cfg nQ) = {#}"
proof -
  let ?H = "HeapWithStealBufferAdap_init adap_cfg"
  have abs: "steal_abs ?H = HeapWithStealBuffer_init adap_cfg"
    by (simp add: steal_abs_def HeapWithStealBufferAdap_init_def HeapWithStealBuffer_init_def)
  have "adap_clean adap_cfg 16 ?H" by (simp add: adap_clean_def HeapWithStealBufferAdap_init_def)
  then show "asmq_ok adap_cfg nQ (AdaptiveSMQ_init adap_cfg nQ)"
    using req_adap.init_ok(1) tuned_init
    by (simp add: asmq_ok_def smq_ok_def AdaptiveSMQ_init_def abs)
  show "asmq_bag adap_cfg (AdaptiveSMQ_init adap_cfg nQ) = {#}"
    using req_adap.init_ok(2)
    by (simp add: asmq_bag_def smq_bag_def AdaptiveSMQ_init_def abs bags_replicate_empty)
qed

theorem AdaptiveSMQ_correct_witness:
  "\<exists>s' s'' x''. asmq_push adap_cfg 0 (AdaptiveSMQ_init adap_cfg 2) [UpdateRequest 3 8, UpdateRequest 4 6] =
       (s', 2) \<and> asmq_bag adap_cfg s' = {#UpdateRequest 3 8, UpdateRequest 4 6#} \<and>
     asmq_pop (rand_heap 2) adap_cfg 2 0 s' 1 = Some (s'', x'', Some (UpdateRequest 4 6)) \<and>
     asmq_bag adap_cfg s'' = {#UpdateRequest 3 8#}"
proof -
  let ?es = "[UpdateRequest 3 8, UpdateRequest 4 6] :: nat update_request list"
  let ?s = "AdaptiveSMQ_init adap_cfg 2"
  let ?s' = "fst (asmq_push adap_cfg 0 ?s ?es)"
  have "dummyT adap_cfg \<notin> set ?es" by (simp add: adap_cfg_def not_dummy_req)
  note correct = AdaptiveSMQ_correct [OF req_adap.swo req_adap.cfg req_adap.size _ _ this]
  have push: "asmq_push adap_cfg 0 ?s ?es = (?s', 2)" by (simp add: asmq_push_def)
  have s': "asmq_ok adap_cfg 2 ?s'" "asmq_bag adap_cfg ?s' = {#UpdateRequest 3 8, UpdateRequest 4 6#}"
    using conjunct1 [OF correct [OF AdaptiveSMQ_init_ok(1)], of 0 2] push AdaptiveSMQ_init_ok(2) by auto
  have "map_option (\<lambda>(s', x', r). r) (asmq_pop (rand_heap 2) adap_cfg 2 0 ?s' 1) =
      Some (Some (UpdateRequest 4 6))" by code_simp
  then obtain s'' x'' where r: "asmq_pop (rand_heap 2) adap_cfg 2 0 ?s' 1 =
      Some (s'', x'', Some (UpdateRequest 4 6))" by auto
  have "asmq_bag adap_cfg ?s' = add_mset (UpdateRequest 4 6) (asmq_bag adap_cfg s'')"
    by (rule case_Some_conjunct1 [OF conjunct2 [OF conjunct2 [OF correct [OF s'(1)],
          THEN spec, THEN spec, THEN spec, THEN mp, OF _ r]]]) simp
  then have "{#UpdateRequest 3 8#} = asmq_bag adap_cfg s''" by (simp add: s'(2) add_mset_commute)
  with push s'(2) r show ?thesis by (intro exI [of _ ?s'] exI [of _ s''] exI [of _ x''] conjI) simp_all
qed

end
