(* ===== verification/SparseBits.thy ===== *)
theory SparseBits
  imports Prelude
begin

unbundle bit_operations_syntax

text \<open>
  \<open>SparseBitVector\<close> of \<open>Galois/SparseBitVector.h\<close>, the points-to sets of \<open>apps/pta\<close>: a
  linked list of 64-bit words, sorted by the index \<open>base\<close> of the word. The list from \<open>head\<close>
  on is a list of nodes; no operation shares a node between two vectors, so pointers are not
  needed. The locks are not taken by any operation (the calls are commented out). Bit numbers
  and bases are \<open>nat\<close>: a base is a 32-bit number divided by 64.

  \<open>elems\<close> is the set a vector stands for. \<open>set\<close>, \<open>count\<close>, \<open>getAllSetBits\<close> and \<open>unify\<close> do to
  it what they should, once the word of a new node starts at 0; \<open>unify\<close> does not count all it
  adds, and \<open>isSubsetEq\<close> has its comparison of bases the wrong way round.
\<close>

section \<open>One word\<close>

definition wordsize :: nat where
  "wordsize = 64"

record OneWord =
  bits :: u64
  base :: nat

definition word_set :: "nat \<Rightarrow> OneWord \<Rightarrow> bool \<times> OneWord" where
  "word_set oo w =
     (let oribits = bits w; b = oribits OR push_bit oo 1 in (b \<noteq> oribits, w\<lparr>bits := b\<rparr>))"

text \<open>
  The constructor \<open>OneWord(bb, oo)\<close> calls \<open>set\<close> on the member \<open>bits\<close>, which nothing has
  initialised: \<open>garbage\<close> is what the memory held.
\<close>

definition OneWord_new :: "u64 \<Rightarrow> nat \<Rightarrow> nat \<Rightarrow> OneWord" where
  "OneWord_new garbage bb oo = snd (word_set oo \<lparr>bits = garbage, base = bb\<rparr>)"

text \<open>The loop of \<open>count\<close>, for the remaining \<open>k\<close> positions.\<close>

fun count_loop :: "nat \<Rightarrow> u64 \<Rightarrow> u64 \<Rightarrow> nat" where
  "count_loop 0 powerof2 b = 0"
| "count_loop (Suc k) powerof2 b =
     (if b AND powerof2 \<noteq> 0 then 1 else 0) + count_loop k (push_bit 1 powerof2) b"

definition word_count :: "OneWord \<Rightarrow> nat" where
  "word_count w = count_loop wordsize 1 (bits w)"

definition word_unify :: "OneWord \<Rightarrow> OneWord \<Rightarrow> OneWord \<times> nat" where
  "word_unify w second =
     (let oribits = word_count w; w1 = w\<lparr>bits := bits w OR bits second\<rparr>
      in (w1, word_count w1 - oribits))"

definition word_isSubsetEq :: "OneWord \<Rightarrow> OneWord \<Rightarrow> bool" where
  "word_isSubsetEq w second \<longleftrightarrow> bits w AND bits second = bits w"

definition word_clone :: "OneWord \<Rightarrow> OneWord" where
  "word_clone w = \<lparr>bits = bits w, base = base w\<rparr>"

definition cloneAll :: "OneWord list \<Rightarrow> OneWord list" where
  "cloneAll ws = map word_clone ws"

fun set_bits_loop :: "nat \<Rightarrow> u64 \<Rightarrow> nat \<Rightarrow> OneWord \<Rightarrow> nat list" where
  "set_bits_loop 0 powerof2 bitno w = []"
| "set_bits_loop (Suc k) powerof2 bitno w =
     (if bits w AND powerof2 \<noteq> 0 then [base w * wordsize + bitno] else []) @
     set_bits_loop k (push_bit 1 powerof2) (bitno + 1) w"

definition word_getAllSetBits :: "OneWord \<Rightarrow> nat list" where
  "word_getAllSetBits w = set_bits_loop wordsize 1 0 w"

section \<open>The vector\<close>

definition getOffsets :: "nat \<Rightarrow> nat \<times> nat" where
  "getOffsets b = (b div wordsize, b mod wordsize)"

definition sbv_init :: "OneWord list" where
  "sbv_init = []"

text \<open>The walk of \<open>set\<close> to the node of this base or to the place of a new one.\<close>

fun sbv_insert :: "u64 \<Rightarrow> nat \<Rightarrow> nat \<Rightarrow> OneWord list \<Rightarrow> bool \<times> OneWord list" where
  "sbv_insert garbage bb oo [] = (True, [OneWord_new garbage bb oo])"
| "sbv_insert garbage bb oo (w # ws) =
     (if base w \<le> bb then
        if base w = bb then (case word_set oo w of (r, w1) \<Rightarrow> (r, w1 # ws))
        else (case sbv_insert garbage bb oo ws of (r, ws1) \<Rightarrow> (r, w # ws1))
      else (True, OneWord_new garbage bb oo # w # ws))"

definition sbv_set :: "u64 \<Rightarrow> nat \<Rightarrow> OneWord list \<Rightarrow> bool \<times> OneWord list" where
  "sbv_set garbage b v = (case getOffsets b of (bb, oo) \<Rightarrow> sbv_insert garbage bb oo v)"

text \<open>\<open>unify\<close>: the merged list and \<open>nchanged\<close>.\<close>

fun sbv_unify :: "OneWord list \<Rightarrow> OneWord list \<Rightarrow> OneWord list \<times> nat" where
  "sbv_unify [] second = (cloneAll second, 0)"
| "sbv_unify one [] = (one, 0)"
| "sbv_unify (w # one) (w2 # two) =
     (if base w = base w2 then
        (case word_unify w w2 of (w1, n) \<Rightarrow> case sbv_unify one two of (ws, m) \<Rightarrow> (w1 # ws, n + m))
      else if base w < base w2 then
        (case sbv_unify one (w2 # two) of (ws, m) \<Rightarrow> (w # ws, m))
      else
        (case sbv_unify (w # one) two of (ws, m) \<Rightarrow> (word_clone w2 # ws, m)))"

fun sbv_isSubsetEq :: "OneWord list \<Rightarrow> OneWord list \<Rightarrow> bool" where
  "sbv_isSubsetEq [] two \<longleftrightarrow> True"
| "sbv_isSubsetEq (w # one) [] \<longleftrightarrow> False"
| "sbv_isSubsetEq (w # one) (w2 # two) \<longleftrightarrow>
     (if base w = base w2 then
        if \<not> word_isSubsetEq w w2 then False else sbv_isSubsetEq one two
      else if base w > base w2 then False
      else sbv_isSubsetEq one (w2 # two))"

definition sbv_count :: "OneWord list \<Rightarrow> nat" where
  "sbv_count v = foldl (\<lambda>nbits w. nbits + word_count w) 0 v"

definition sbv_getAllSetBits :: "OneWord list \<Rightarrow> nat list \<times> nat" where
  "sbv_getAllSetBits v =
     foldl (\<lambda>(setbits, nnodes) w. (setbits @ word_getAllSetBits w, nnodes + 1)) ([], 0) v"

section \<open>The set it stands for\<close>

definition word_bits :: "u64 \<Rightarrow> nat set" where
  "word_bits b = {i. i < 64 \<and> bit b i}"

definition elems :: "OneWord list \<Rightarrow> nat set" where
  "elems v = {n. \<exists>w \<in> set v. base w = n div 64 \<and> bit (bits w) (n mod 64)}"

definition sbv_ok :: "OneWord list \<Rightarrow> bool" where
  "sbv_ok v \<longleftrightarrow> sorted_wrt (\<lambda>w w'. base w < base w') v"

lemma sbv_ok_Nil [simp]: "sbv_ok []"
  by (simp add: sbv_ok_def)

lemma sbv_ok_Cons [simp]: "sbv_ok (w # v) \<longleftrightarrow> (\<forall>w' \<in> set v. base w < base w') \<and> sbv_ok v"
  by (simp add: sbv_ok_def)

lemma elems_Nil [simp]: "elems [] = {}"
  by (simp add: elems_def)

lemma elems_Cons: "elems (w # v) = {n. base w = n div 64 \<and> bit (bits w) (n mod 64)} \<union> elems v"
  by (auto simp: elems_def)

lemma elems_base: "n \<in> elems v \<Longrightarrow> \<exists>w \<in> set v. base w = n div 64"
  by (auto simp: elems_def)

lemma finite_word_bits [simp]: "finite (word_bits b)"
  by (simp add: word_bits_def)

lemma and_power_of_2: "(b AND 2 ^ j :: u64) \<noteq> 0 \<longleftrightarrow> bit b j"
  using bit_iff_and_push_bit_not_eq_0 [of b j] by simp

lemma double_power: "push_bit 1 (2 ^ j) = (2 ^ Suc j :: u64)"
  by simp

lemma count_loop_card:
  "j + k \<le> 64 \<Longrightarrow> count_loop k (2 ^ j) b = card {i. j \<le> i \<and> i < j + k \<and> bit b i}"
proof (induction k arbitrary: j)
  case 0
  then show ?case by simp
next
  case (Suc k)
  let ?rest = "{i. Suc j \<le> i \<and> i < Suc j + k \<and> bit b i}"
  have "{i. j \<le> i \<and> i < j + Suc k \<and> bit b i} = (if bit b j then {j} else {}) \<union> ?rest"
    by (auto simp: le_less Suc_le_eq)
  moreover have "j \<notin> ?rest" "finite ?rest" by auto
  moreover have "count_loop k (2 ^ Suc j) b = card ?rest" using Suc.IH [of "Suc j"] Suc.prems by simp
  ultimately show ?case by (simp only: count_loop.simps double_power and_power_of_2) simp
qed

lemma word_count_card: "word_count w = card (word_bits (bits w))"
  using count_loop_card [of 0 64 "bits w"] by (simp add: word_count_def wordsize_def word_bits_def)

lemma set_bits_loop_eq:
  "j + k \<le> 64 \<Longrightarrow> set_bits_loop k (2 ^ j) j w =
     map (\<lambda>i. base w * 64 + i) (filter (bit (bits w)) [j..<j + k])"
proof (induction k arbitrary: j)
  case (Suc k)
  have "[j..<j + Suc k] = j # [Suc j..<Suc j + k]" by (simp add: upt_rec)
  moreover have "set_bits_loop k (2 ^ Suc j) (j + 1) w =
      map (\<lambda>i. base w * 64 + i) (filter (bit (bits w)) [Suc j..<Suc j + k])"
    using Suc.IH [of "Suc j"] Suc.prems by simp
  ultimately show ?case
    by (simp only: set_bits_loop.simps double_power and_power_of_2 wordsize_def) simp
qed simp

lemma word_getAllSetBits_eq:
  "word_getAllSetBits w = map (\<lambda>i. base w * 64 + i) (filter (bit (bits w)) [0..<64])"
  using set_bits_loop_eq [of 0 64 w] by (simp add: word_getAllSetBits_def wordsize_def)

section \<open>The operations on the set\<close>

lemma div_mod_64: "n div 64 = bb \<and> n mod 64 = oo \<longleftrightarrow> n = 64 * bb + oo" if "oo < 64" for n bb oo :: nat
  using that by auto

lemma bit_set: "i < 64 \<Longrightarrow> bit (b OR 2 ^ oo :: u64) i \<longleftrightarrow> bit b i \<or> i = oo"
  by (auto simp: bit_simps)

lemma word_set_elems:
  assumes "oo < 64" "word_set oo w = (r, w1)"
  shows "elems [w1] = insert (64 * base w + oo) (elems [w])" "base w1 = base w"
    "r \<longleftrightarrow> 64 * base w + oo \<notin> elems [w]"
proof -
  have w1: "w1 = w\<lparr>bits := bits w OR 2 ^ oo\<rparr>" "r \<longleftrightarrow> bits w OR 2 ^ oo \<noteq> bits w"
    using assms(2) by (auto simp: word_set_def Let_def)
  then show "base w1 = base w" by simp
  show "elems [w1] = insert (64 * base w + oo) (elems [w])"
    using div_mod_64 [OF assms(1)] w1 assms(1) by (auto simp: elems_def bit_set)
  have "bits w OR 2 ^ oo = bits w \<longleftrightarrow> bit (bits w) oo"
  proof
    assume "bits w OR 2 ^ oo = bits w"
    then show "bit (bits w) oo" using assms(1) bit_set [of oo "bits w" oo] by simp
  next
    assume "bit (bits w) oo"
    then show "bits w OR 2 ^ oo = bits w"
      by (intro bit_word_eqI) (auto simp: bit_set)
  qed
  then show "r \<longleftrightarrow> 64 * base w + oo \<notin> elems [w]"
    using w1(2) assms(1) by (simp add: elems_def)
qed

lemma elems_new:
  assumes "oo < 64"
  shows "elems [OneWord_new 0 bb oo] = {64 * bb + oo}" "base (OneWord_new g bb oo) = bb"
proof -
  obtain r w1 where w: "word_set oo \<lparr>bits = 0, base = bb\<rparr> = (r, w1)" by fastforce
  from word_set_elems(1) [OF assms w] w show "elems [OneWord_new 0 bb oo] = {64 * bb + oo}"
    by (simp add: OneWord_new_def elems_def)
  show "base (OneWord_new g bb oo) = bb" by (simp add: OneWord_new_def word_set_def Let_def)
qed

lemma elems_Cons1: "elems (w # v) = elems [w] \<union> elems v"
  by (auto simp: elems_def)

lemma sbv_insert_elems:
  assumes "sbv_ok v" "oo < 64" "sbv_insert 0 bb oo v = (r, v')"
  shows "sbv_ok v' \<and> base ` set v' = insert bb (base ` set v) \<and>
    elems v' = insert (64 * bb + oo) (elems v) \<and> (r \<longleftrightarrow> 64 * bb + oo \<notin> elems v)"
  using assms
proof (induction v arbitrary: r v')
  case Nil
  then show ?case using elems_new [OF assms(2)] by auto
next
  case (Cons w v)
  have later: "64 * bb + oo \<notin> elems v" if "bb \<le> base w"
    using that Cons.prems(1,2) elems_base [of "64 * bb + oo" v] by fastforce
  consider "base w = bb" | "base w < bb" | "bb < base w" by linarith
  then show ?case
  proof cases
    case 1
    obtain w1 where w1: "word_set oo w = (r, w1)" "v' = w1 # v"
      using Cons.prems(3) 1 by (auto split: prod.splits)
    note e = word_set_elems [OF assms(2) w1(1)]
    then show ?thesis
      using Cons.prems(1) 1 w1(2) later elems_Cons1 [of w1 v] elems_Cons1 [of w v] by auto
  next
    case 2
    obtain v1 where v1: "sbv_insert 0 bb oo v = (r, v1)" "v' = w # v1"
      using Cons.prems(3) 2 by (auto split: prod.splits)
    have ok: "sbv_ok v" using Cons.prems(1) by simp
    note IH = Cons.IH [OF ok assms(2) v1(1)]
    have "\<forall>w' \<in> set v1. base w < base w'"
    proof
      fix w'
      assume "w' \<in> set v1"
      then have "base w' \<in> insert bb (base ` set v)" using IH by blast
      then show "base w < base w'" using Cons.prems(1) 2 by auto
    qed
    moreover have "64 * bb + oo \<notin> elems [w]" using 2 assms(2) by (auto simp: elems_def)
    ultimately show ?thesis
      using IH v1(2) elems_Cons1 [of w v1] elems_Cons1 [of w v] by auto
  next
    case 3
    then have v': "r" "v' = OneWord_new 0 bb oo # w # v" using Cons.prems(3) by auto
    have "64 * bb + oo \<notin> elems [w]" using 3 assms(2) by (auto simp: elems_def)
    with 3 v' later Cons.prems(1) elems_new [OF assms(2)] elems_Cons1 [of w v]
      elems_Cons1 [of "OneWord_new 0 bb oo" "w # v"]
    show ?thesis by auto
  qed
qed

lemma elems_single: "elems [w] = (\<lambda>i. 64 * base w + i) ` word_bits (bits w)"
proof (intro set_eqI iffI)
  fix x
  assume "x \<in> elems [w]"
  then show "x \<in> (\<lambda>i. 64 * base w + i) ` word_bits (bits w)"
    by (intro image_eqI [where x = "x mod 64"]) (simp_all add: elems_def word_bits_def)
qed (auto simp: elems_def word_bits_def)

lemma finite_elems [simp]: "finite (elems v)"
proof (induction v)
  case (Cons w v)
  have "finite (elems [w])" by (simp add: elems_single)
  with Cons show ?case using elems_Cons1 [of w v] by simp
qed simp

lemma word_unify_elems:
  assumes "word_unify w w2 = (w1, n)" "base w = base w2"
  shows "elems [w1] = elems [w] \<union> elems [w2]" "base w1 = base w"
    "n = card (elems [w2] - elems [w])"
proof -
  have w1: "w1 = w\<lparr>bits := bits w OR bits w2\<rparr>" "n = word_count w1 - word_count w"
    using assms(1) by (auto simp: word_unify_def Let_def)
  have b: "word_bits (bits w1) = word_bits (bits w) \<union> word_bits (bits w2)"
    by (auto simp: w1(1) word_bits_def bit_simps)
  then show "elems [w1] = elems [w] \<union> elems [w2]" "base w1 = base w"
    using assms(2) by (auto simp: elems_single w1(1))
  have inj: "inj (\<lambda>i. 64 * base w2 + i)" by (simp add: inj_on_def)
  have "n = card (word_bits (bits w) \<union> word_bits (bits w2)) - card (word_bits (bits w))"
    by (simp add: w1(2) word_count_card b)
  also have "\<dots> = card (word_bits (bits w2) - word_bits (bits w))"
    by (metis Diff_cancel Un_Diff card_Diff_subset finite_word_bits sup_bot_left sup_ge1)
  also have "\<dots> = card (elems [w2] - elems [w])"
    using card_image [OF inj_on_subset [OF inj], of "word_bits (bits w2) - word_bits (bits w)"]
    by (simp add: elems_single assms(2) image_set_diff [OF inj])
  finally show "n = card (elems [w2] - elems [w])" .
qed

text \<open>The elements of \<open>two\<close> that are new to \<open>one\<close>, in words \<open>one\<close> already has.\<close>

definition gained :: "OneWord list \<Rightarrow> OneWord list \<Rightarrow> nat set" where
  "gained one two = {x \<in> elems two - elems one. x div 64 \<in> base ` set one}"

lemma elems_above: "\<forall>w' \<in> set v. b < base w' \<Longrightarrow> x \<in> elems v \<Longrightarrow> b < x div 64"
  by (auto simp: elems_def)

lemma in_elems_single: "x \<in> elems [w] \<Longrightarrow> x div 64 = base w"
  by (simp add: elems_def)

lemma elems_clone: "elems (word_clone w # v) = elems (w # v)"
  by (simp add: elems_Cons word_clone_def)

lemma cloneAll_id: "cloneAll v = v"
  by (simp add: cloneAll_def word_clone_def map_idI)

lemma bases_above:
  assumes "base ` set v = B" "\<And>b. b \<in> B \<Longrightarrow> c < b"
  shows "\<forall>w' \<in> set v. c < base w'"
  using assms by blast

lemma sbv_unify_elems:
  assumes "sbv_ok one" "sbv_ok two" "sbv_unify one two = (v, n)"
  shows "sbv_ok v \<and> base ` set v = base ` set one \<union> base ` set two \<and>
    elems v = elems one \<union> elems two \<and> n = card (gained one two)"
  using assms
proof (induction one two arbitrary: v n rule: sbv_unify.induct)
  case (1 second)
  then show ?case by (simp add: cloneAll_id gained_def)
next
  case (2 w one)
  then show ?case by (auto simp: gained_def)
next
  case (3 w one w2 two)
  have ok: "sbv_ok one" "sbv_ok two" "\<forall>w' \<in> set one. base w < base w'"
    "\<forall>w' \<in> set two. base w2 < base w'" using 3(4,5) by auto
  note one = elems_above [OF ok(3)] and two = elems_above [OF ok(4)]
  note Cons = elems_Cons1 [of w one] elems_Cons1 [of w2 two]
  consider "base w = base w2" | "base w < base w2" | "base w2 < base w" by linarith
  then show ?case
  proof cases
    case 1
    obtain w1 k where w1: "word_unify w w2 = (w1, k)" by fastforce
    obtain ws m where r: "sbv_unify one two = (ws, m)" by fastforce
    have v: "v = w1 # ws" "n = k + m" using 3(6) 1 w1 r by simp_all
    note u = word_unify_elems [OF w1 1]
    note IH = 3(1) [OF 1 w1 [symmetric] ok(1,2) r]
    have bases: "base ` set ws = base ` set one \<union> base ` set two" using IH by simp
    have "\<forall>w' \<in> set ws. base w < base w'"
      by (rule bases_above [OF bases]) (use ok(3,4) 1 in auto)
    moreover have "gained (w # one) (w2 # two) = (elems [w2] - elems [w]) \<union> gained one two"
      using one two 1 by (fastforce simp: gained_def Cons dest: in_elems_single)
    moreover have "(elems [w2] - elems [w]) \<inter> gained one two = {}"
      using two by (fastforce simp: gained_def dest: in_elems_single)
    moreover have "finite (gained one two)" by (simp add: gained_def)
    ultimately have "sbv_ok v" "n = card (gained (w # one) (w2 # two))"
      using IH u(2,3) v by (simp_all add: card_Un_disjoint)
    moreover have "elems v = elems (w # one) \<union> elems (w2 # two)"
      using IH u(1) by (simp only: v(1) elems_Cons1 [of w1 ws] Cons) blast
    moreover have "base ` set v = base ` set (w # one) \<union> base ` set (w2 # two)"
      using IH u(2) 1 by (simp add: v(1))
    ultimately show ?thesis by (intro conjI)
  next
    case 2
    obtain ws m where r: "sbv_unify one (w2 # two) = (ws, m)" by fastforce
    have v: "v = w # ws" "n = m" using 3(6) 2 r by simp_all
    have "base w \<noteq> base w2" using 2 by simp
    note IH = 3(2) [OF this 2 ok(1) 3(5) r]
    have bases: "base ` set ws = base ` set one \<union> base ` set (w2 # two)" using IH by simp
    have "\<forall>w' \<in> set ws. base w < base w'"
      by (rule bases_above [OF bases]) (use ok(3,4) 2 in auto)
    moreover have "gained (w # one) (w2 # two) = gained one (w2 # two)"
      using two 2 by (fastforce simp: gained_def Cons dest: in_elems_single)
    ultimately have "sbv_ok v" "n = card (gained (w # one) (w2 # two))"
      using IH v by simp_all
    moreover have "elems v = elems (w # one) \<union> elems (w2 # two)"
      using IH by (simp only: v(1) elems_Cons1 [of w ws] Cons(1) Un_assoc)
    moreover have "base ` set v = base ` set (w # one) \<union> base ` set (w2 # two)"
      using IH by (auto simp: v(1))
    ultimately show ?thesis by (intro conjI)
  next
    case c: 3
    obtain ws m where r: "sbv_unify (w # one) two = (ws, m)" by fastforce
    have v: "v = word_clone w2 # ws" "n = m" using 3(6) c r by simp_all
    have "base w \<noteq> base w2" "\<not> base w < base w2" using c by simp_all
    note IH = 3(3) [OF this 3(4) ok(2) r]
    have bases: "base ` set ws = base ` set (w # one) \<union> base ` set two" using IH by simp
    have "\<forall>w' \<in> set ws. base w2 < base w'"
      by (rule bases_above [OF bases]) (use ok(3,4) c in auto)
    moreover have "gained (w # one) (w2 # two) = gained (w # one) two"
      using ok(3) c by (fastforce simp: gained_def Cons dest: in_elems_single)
    moreover have "base (word_clone w2) = base w2" by (simp add: word_clone_def)
    ultimately have "sbv_ok v" "n = card (gained (w # one) (w2 # two))"
      using IH v by simp_all
    moreover have "elems v = elems (w # one) \<union> elems (w2 # two)"
      using IH by (simp only: v(1) elems_clone elems_Cons1 [of w2 ws] Cons(2)) blast
    moreover have "base ` set v = base ` set (w # one) \<union> base ` set (w2 # two)"
      using IH by (auto simp: v(1) word_clone_def)
    ultimately show ?thesis by (intro conjI)
  qed
qed

text \<open>The subset test on the words of two vectors with the same bases.\<close>

lemma word_isSubsetEq_elems:
  assumes "base w = base w2"
  shows "word_isSubsetEq w w2 \<longleftrightarrow> elems [w] \<subseteq> elems [w2]"
proof -
  have "word_isSubsetEq w w2 \<longleftrightarrow> word_bits (bits w) \<subseteq> word_bits (bits w2)"
  proof
    assume "word_isSubsetEq w w2"
    then have "bits w = bits w AND bits w2" by (simp add: word_isSubsetEq_def)
    then have "bit (bits w) i \<Longrightarrow> bit (bits w2) i" for i by (metis bit_and_iff)
    then show "word_bits (bits w) \<subseteq> word_bits (bits w2)" by (auto simp: word_bits_def)
  next
    assume "word_bits (bits w) \<subseteq> word_bits (bits w2)"
    then have "bits w AND bits w2 = bits w"
      by (intro bit_word_eqI) (auto simp: bit_and_iff word_bits_def)
    then show "word_isSubsetEq w w2" by (simp add: word_isSubsetEq_def)
  qed
  then show ?thesis
    using inj_image_subset_iff [of "\<lambda>i. 64 * base w2 + i"] assms by (simp add: elems_single inj_on_def)
qed

lemma sbv_isSubsetEq_same_bases:
  assumes "sbv_ok one" "sbv_ok two" "map base one = map base two"
  shows "sbv_isSubsetEq one two \<longleftrightarrow> elems one \<subseteq> elems two"
  using assms
proof (induction one two rule: sbv_isSubsetEq.induct)
  case (3 w one w2 two)
  have ok: "sbv_ok one" "sbv_ok two" "map base one = map base two" "base w = base w2" using 3(3-5) by auto
  have "\<forall>w' \<in> set one. base w < base w'" "\<forall>w' \<in> set two. base w < base w'"
    using 3(3,4) ok(4) by auto
  then have "x \<in> elems one \<Longrightarrow> base w < x div 64" "x \<in> elems two \<Longrightarrow> base w < x div 64" for x
    by (auto dest: elems_above)
  then have "elems [w] \<inter> elems two = {}" "elems one \<inter> elems [w2] = {}"
    using ok(4) by (fastforce dest: in_elems_single)+
  then have "elems (w # one) \<subseteq> elems (w2 # two) \<longleftrightarrow> elems [w] \<subseteq> elems [w2] \<and> elems one \<subseteq> elems two"
    unfolding elems_Cons1 [of w one] elems_Cons1 [of w2 two] by blast
  moreover have "sbv_isSubsetEq (w # one) (w2 # two) \<longleftrightarrow> word_isSubsetEq w w2 \<and> sbv_isSubsetEq one two"
    using ok(4) by simp
  ultimately show ?case
    using 3(1) ok word_isSubsetEq_elems [OF ok(4)] by (cases "word_isSubsetEq w w2") simp_all
qed auto

lemma sbv_count_sum: "sbv_count v = sum_list (map word_count v)"
proof -
  have "foldl (\<lambda>nbits w. nbits + word_count w) k v = k + sum_list (map word_count v)" for k
    by (induction v arbitrary: k) simp_all
  then show ?thesis by (simp add: sbv_count_def)
qed

lemma card_elems_single: "card (elems [w]) = word_count w"
  by (simp add: elems_single word_count_card card_image inj_on_def)

lemma sum_list_elems: "sbv_ok v \<Longrightarrow> sum_list (map word_count v) = card (elems v)"
proof (induction v)
  case (Cons w v)
  have "elems [w] \<inter> elems v = {}"
    using Cons.prems by (fastforce dest: elems_above [rotated] in_elems_single)
  then show ?case
    using Cons elems_Cons1 [of w v] by (simp add: card_Un_disjoint card_elems_single)
qed simp

lemma sbv_getAllSetBits_concat:
  "sbv_getAllSetBits v = (concat (map word_getAllSetBits v), length v)"
proof -
  have "foldl (\<lambda>(setbits, nnodes) w. (setbits @ word_getAllSetBits w, nnodes + 1)) (xs, k) v =
      (xs @ concat (map word_getAllSetBits v), k + length v)" for xs and k :: nat
    by (induction v arbitrary: xs k) simp_all
  then show ?thesis by (simp add: sbv_getAllSetBits_def)
qed

lemma sorted_map_plus: "sorted_wrt (<) xs \<Longrightarrow> sorted_wrt (<) (map (\<lambda>i. k + i :: nat) xs)"
  by (induction xs) auto

lemma word_getAllSetBits_elems:
  "set (word_getAllSetBits w) = elems [w]" "sorted_wrt (<) (word_getAllSetBits w)"
proof -
  show "set (word_getAllSetBits w) = elems [w]"
    by (auto simp: word_getAllSetBits_eq elems_single word_bits_def mult.commute)
  show "sorted_wrt (<) (word_getAllSetBits w)"
    unfolding word_getAllSetBits_eq
    by (rule sorted_map_plus) (rule sorted_wrt_filter, simp)
qed

lemma getAllSetBits_elems:
  "sbv_ok v \<Longrightarrow> set (concat (map word_getAllSetBits v)) = elems v \<and>
     sorted_wrt (<) (concat (map word_getAllSetBits v))"
proof (induction v)
  case (Cons w v)
  have "x < y" if "x \<in> elems [w]" "y \<in> elems v" for x y
  proof -
    have "x div 64 < y div 64"
      using that Cons.prems by (auto dest!: in_elems_single elems_above [rotated])
    then show ?thesis by (meson div_le_mono not_le)
  qed
  then show ?case
    using Cons word_getAllSetBits_elems [of w] elems_Cons1 [of w v]
    by (simp add: sorted_wrt_append)
qed simp

section \<open>Properties\<close>

text \<open>
  \<open>set\<close> of a bit adds exactly this bit, keeps the list sorted by base without duplicates,
  and returns whether the bit is new, given that the memory of a new node is zero.
\<close>

theorem SparseBitVector_set_correct:
  assumes "sbv_ok v" "sbv_set 0 b v = (r, v')"
  shows "sbv_ok v' \<and> elems v' = insert b (elems v) \<and> (r \<longleftrightarrow> b \<notin> elems v)"
  using sbv_insert_elems [of v "b mod 64" "b div 64" r v'] assms
  by (simp add: sbv_set_def getOffsets_def wordsize_def)

lemma sbv_example: "sbv_set 0 5 [] = (True, [\<lparr>bits = 32, base = 0\<rparr>])"
  by code_simp

theorem SparseBitVector_set_correct_witness:
  "elems [\<lparr>bits = 32, base = 0\<rparr>] = {5} \<and> sbv_ok [\<lparr>bits = 32, base = 0\<rparr>]"
  using SparseBitVector_set_correct [OF sbv_ok_Nil sbv_example] by simp

text \<open>
  C26: \<open>unify\<close> makes the first vector the union, still sorted. The number it returns counts the
  new elements in words the first vector already had, and none of those in words it copied.
\<close>

theorem SparseBitVector_unify_correct:
  assumes "sbv_ok one" "sbv_ok two" "sbv_unify one two = (v, n)"
  shows "sbv_ok v \<and> elems v = elems one \<union> elems two \<and>
    n = card {x \<in> elems two - elems one. x div 64 \<in> base ` set one}"
  using sbv_unify_elems [OF assms] by (simp add: gained_def)

theorem SparseBitVector_unify_correct_witness:
  "elems [\<lparr>bits = 1, base = 0\<rparr>, \<lparr>bits = 3, base = 2\<rparr>] =
   elems [\<lparr>bits = 1, base = 0\<rparr>, \<lparr>bits = 2, base = 2\<rparr>] \<union> elems [\<lparr>bits = 1, base = 2\<rparr>]"
proof -
  have "sbv_unify [\<lparr>bits = 1, base = 0\<rparr>, \<lparr>bits = 2, base = 2\<rparr>] [\<lparr>bits = 1, base = 2\<rparr>] =
      ([\<lparr>bits = 1, base = 0\<rparr>, \<lparr>bits = 3, base = 2\<rparr>], 1)"
    by code_simp
  from SparseBitVector_unify_correct [OF _ _ this] show ?thesis by simp
qed

text \<open>
  \<open>unify\<close> into the empty vector copies every element and reports that nothing changed, and
  \<open>isSubsetEq\<close> is wrong both ways: it accepts \<open>{0, 64} \<subseteq> {64}\<close> and rejects \<open>{64} \<subseteq> {0, 64}\<close>.
  The sets involved are those their vectors stand for.
\<close>

theorem SparseBitVector_wrong_answers:
  "(\<forall>v. sbv_unify [] v = (v, 0)) \<and>
   elems [\<lparr>bits = 1, base = 0\<rparr>, \<lparr>bits = 1, base = 1\<rparr>] = {0, 64} \<and> elems [\<lparr>bits = 1, base = 1\<rparr>] = {64} \<and>
   sbv_isSubsetEq [\<lparr>bits = 1, base = 0\<rparr>, \<lparr>bits = 1, base = 1\<rparr>] [\<lparr>bits = 1, base = 1\<rparr>] \<and>
   \<not> sbv_isSubsetEq [\<lparr>bits = 1, base = 1\<rparr>] [\<lparr>bits = 1, base = 0\<rparr>, \<lparr>bits = 1, base = 1\<rparr>]"
proof -
  have w: "{i. i < 64 \<and> bit (1 :: u64) i} = {0}" by (auto simp: bit_simps)
  have e1: "elems [\<lparr>bits = 1, base = 1\<rparr>] = {64}"
    using w by (simp add: elems_single word_bits_def)
  have "elems [\<lparr>bits = 1, base = 0\<rparr>, \<lparr>bits = 1, base = 1\<rparr>] = {0, 64}"
    using w e1 elems_Cons1 [of "\<lparr>bits = 1, base = 0\<rparr>" "[\<lparr>bits = 1, base = 1\<rparr>]"]
    by (auto simp: elems_single word_bits_def)
  with e1 show ?thesis by (simp add: cloneAll_id word_isSubsetEq_def)
qed

text \<open>
  \<open>count\<close> is the number of elements, \<open>getAllSetBits\<close> lists them in ascending order, and on
  vectors with the same words \<open>isSubsetEq\<close> is inclusion.
\<close>

theorem SparseBitVector_reads:
  assumes "sbv_ok v" "sbv_ok v2" "map base v = map base v2"
  shows "sbv_count v = card (elems v) \<and>
    set (fst (sbv_getAllSetBits v)) = elems v \<and> sorted_wrt (<) (fst (sbv_getAllSetBits v)) \<and>
    (sbv_isSubsetEq v v2 \<longleftrightarrow> elems v \<subseteq> elems v2)"
  using getAllSetBits_elems [OF assms(1)] sbv_isSubsetEq_same_bases [OF assms]
  by (simp add: sbv_count_sum sum_list_elems [OF assms(1)] sbv_getAllSetBits_concat)

theorem SparseBitVector_reads_witness:
  "card (elems [\<lparr>bits = 3, base = 0\<rparr>, \<lparr>bits = 1, base = 2\<rparr>]) = 3"
proof -
  have "sbv_count [\<lparr>bits = 3, base = 0\<rparr>, \<lparr>bits = 1, base = 2\<rparr>] = 3" by code_simp
  with SparseBitVector_reads [of "[\<lparr>bits = 3, base = 0\<rparr>, \<lparr>bits = 1, base = 2\<rparr>]"
      "[\<lparr>bits = 3, base = 0\<rparr>, \<lparr>bits = 1, base = 2\<rparr>]"]
  show ?thesis by simp
qed

end
