(* ===== verification/RandomPeriod.thy ===== *)
theory RandomPeriod
  imports ThreadRandom
begin

text \<open>
  The period of the generator of the schedulers: from any state but 0 it goes through all of the \<open>2 ^ 32 - 1\<close> others.
  The step is linear over bits, so a state that lies in the span of the first 32 states is a list of coefficients, and
  the number of steps can be doubled by squaring (\<open>sqr\<close>), which makes the states after \<open>2 ^ 32 - 1\<close> steps and
  after its maximal divisors computable.
\<close>

section \<open>Linear combinations of states\<close>

definition xorshift :: "u32 \<Rightarrow> u32" where
  "xorshift x = snd (random x)"

lemma xorshift_xor: "xorshift (x XOR y) = xorshift x XOR xorshift y"
  by (simp add: xorshift_def random_def Let_def push_bit_xor drop_bit_xor ac_simps)

lemma xorshift_zero [simp]: "xorshift 0 = 0"
  by (simp add: xorshift_def)

lemma inj_xorshift: "inj xorshift"
  using inj_random by (simp add: xorshift_def [abs_def])

lemma funpow_xorshift_xor: "(xorshift ^^ m) (x XOR y) = (xorshift ^^ m) x XOR (xorshift ^^ m) y"
  by (induction m) (simp_all add: xorshift_xor)

lemma funpow_xorshift_zero [simp]: "(xorshift ^^ m) 0 = 0"
  by (induction m) simp_all

lemma random_iter_funpow: "random_iter k x = (xorshift ^^ k) x"
proof (induction k arbitrary: x)
  case (Suc k)
  then show ?case by (simp add: xorshift_def [symmetric] funpow_swap1)
qed simp

fun comb :: "(nat \<Rightarrow> u32) \<Rightarrow> bool list \<Rightarrow> u32" where
  "comb g [] = 0"
| "comb g (b # bs) = (if b then g 0 else 0) XOR comb (\<lambda>i. g (Suc i)) bs"

lemma comb_funpow: "(xorshift ^^ m) (comb g a) = comb (\<lambda>i. (xorshift ^^ m) (g i)) a"
  by (induction a arbitrary: g) (simp_all add: funpow_xorshift_xor)

lemma comb_xor: "comb (\<lambda>i. g i XOR h i) a = comb g a XOR comb h a"
  by (induction a arbitrary: g h) (simp_all add: ac_simps)

lemma comb_zero [simp]: "comb (\<lambda>i. 0) a = 0"
  by (induction a) simp_all

lemma comb_cong: "(\<And>i. g i = h i) \<Longrightarrow> comb g a = comb h a"
  by (rule arg_cong [of g h]) (rule ext)

lemma comb_replicate_False [simp]: "comb g (replicate n False) = 0"
  by (induction n arbitrary: g) simp_all

lemma comb_append: "comb g (a @ b) = comb g a XOR comb (\<lambda>i. g (length a + i)) b"
  by (induction a arbitrary: g) (simp_all add: ac_simps)

definition bxor :: "bool list \<Rightarrow> bool list \<Rightarrow> bool list" where
  "bxor a b = map2 (\<noteq>) a b"

lemma length_bxor [simp]: "length (bxor a b) = min (length a) (length b)"
  by (simp add: bxor_def)

lemma comb_bxor: "length a = length b \<Longrightarrow> comb g (bxor a b) = comb g a XOR comb g b"
proof (induction a b arbitrary: g rule: list_induct2)
  case (Cons x a y b)
  then show ?case by (cases x; cases y) (simp_all add: bxor_def ac_simps)
qed (simp add: bxor_def)

section \<open>Squaring\<close>

text \<open>\<open>T ^ (2 m)\<close> of a state, when \<open>T ^ m\<close> is the combination \<open>a\<close> of \<open>T ^ 0, T ^ 1, \<dots>\<close>: mixed terms cancel.\<close>

lemma comb_comb: "comb (\<lambda>i. comb (\<lambda>j. g (i + j)) a) a = comb (\<lambda>i. g (2 * i)) a"
proof (induction a arbitrary: g)
  case (Cons b a)
  have "comb (\<lambda>i. comb (\<lambda>j. g (i + j)) (b # a)) (b # a) =
      (if b then g 0 XOR comb (\<lambda>j. g (Suc j)) a else 0) XOR
      (comb (\<lambda>i. (if b then g (Suc i) else 0)) a XOR comb (\<lambda>i. comb (\<lambda>j. g (Suc (Suc (i + j)))) a) a)"
    by (simp add: comb_xor)
  also have "\<dots> = (if b then g 0 else 0) XOR comb (\<lambda>i. comb (\<lambda>j. g (Suc (Suc (i + j)))) a) a"
    by (cases b) (simp_all add: ac_simps)
  also have "comb (\<lambda>i. comb (\<lambda>j. g (Suc (Suc (i + j)))) a) a = comb (\<lambda>i. g (Suc (Suc (2 * i)))) a"
    using Cons.IH [of "\<lambda>i. g (Suc (Suc i))"] by simp
  finally show ?case by simp
qed simp

lemma state_double:
  assumes "(xorshift ^^ m) v = comb (\<lambda>i. (xorshift ^^ i) v) a"
  shows "(xorshift ^^ (2 * m)) v = comb (\<lambda>i. (xorshift ^^ (2 * i)) v) a"
proof -
  have swap: "(xorshift ^^ m) ((xorshift ^^ i) v) = (xorshift ^^ i) ((xorshift ^^ m) v)" for i
  proof -
    have "(xorshift ^^ m) ((xorshift ^^ i) v) = (xorshift ^^ (m + i)) v"
      "(xorshift ^^ i) ((xorshift ^^ m) v) = (xorshift ^^ (i + m)) v" by (simp_all only: funpow_add comp_apply)
    then show ?thesis by (simp only: add.commute)
  qed
  have "(xorshift ^^ (2 * m)) v = (xorshift ^^ m) ((xorshift ^^ m) v)"
    by (simp add: mult_2 funpow_add)
  also have "\<dots> = (xorshift ^^ m) (comb (\<lambda>i. (xorshift ^^ i) v) a)" by (rule arg_cong [OF assms])
  also have "\<dots> = comb (\<lambda>i. (xorshift ^^ i) ((xorshift ^^ m) v)) a"
    unfolding comb_funpow by (rule comb_cong) (rule swap)
  also have "\<dots> = comb (\<lambda>i. comb (\<lambda>j. (xorshift ^^ (i + j)) v) a) a"
    by (simp only: assms comb_funpow funpow_add comp_apply)
  also have "\<dots> = comb (\<lambda>i. (xorshift ^^ (2 * i)) v) a" by (rule comb_comb)
  finally show ?thesis .
qed

text \<open>One step further in coefficients: a shift, and the coefficients \<open>step32\<close> of the 32nd state for the one that leaves.\<close>

definition step32 :: "bool list" where
  "step32 =
    [True, False, False, False, False, False, True, False, False, True, False, False, False, False, True, True,
     False, True, True, True, True, True, False, False, False, False, False, False, False, False, False, False]"

definition coeff :: "bool list \<Rightarrow> u32" where
  "coeff a = comb (\<lambda>i. (xorshift ^^ i) 1) a"

definition next_coeff :: "bool list \<Rightarrow> bool list" where
  "next_coeff a = (if last a then bxor (False # butlast a) step32 else False # butlast a)"

definition flip :: "bool list \<Rightarrow> bool list" where
  "flip a = (\<not> hd a) # tl a"

definition flip_if :: "bool \<Rightarrow> bool list \<Rightarrow> bool list" where
  "flip_if b a = (if b then flip a else a)"

fun sqr :: "bool list \<Rightarrow> bool list" where
  "sqr [] = replicate 32 False"
| "sqr (b # bs) = flip_if b (next_coeff (next_coeff (sqr bs)))"

text \<open>The coefficients of the state after a number of steps given in binary, most significant digit first.\<close>

definition next_if :: "bool \<Rightarrow> bool list \<Rightarrow> bool list" where
  "next_if b a = (if b then next_coeff a else a)"

fun coeffs_loop :: "bool list \<Rightarrow> bool list \<Rightarrow> bool list" where
  "coeffs_loop acc [] = acc"
| "coeffs_loop acc (b # bs) = coeffs_loop (next_if b (sqr acc)) bs"

definition coeffs_at :: "bool list \<Rightarrow> bool list" where
  "coeffs_at bs = coeffs_loop (True # replicate 31 False) bs"

lemma coeffs_loop_append: "coeffs_loop acc (as @ bs) = coeffs_loop (coeffs_loop acc as) bs"
  by (induction as arbitrary: acc) simp_all

definition from_bits :: "bool list \<Rightarrow> int" where
  "from_bits bs = foldl (\<lambda>n b. if b then 2 * n + 1 else 2 * n) 0 bs"

fun coeff_from :: "u32 \<Rightarrow> bool list \<Rightarrow> u32" where
  "coeff_from x [] = 0"
| "coeff_from x (b # bs) = (if b then x else 0) XOR coeff_from (xorshift x) bs"

lemma coeff_from: "coeff_from x a = comb (\<lambda>i. (xorshift ^^ i) x) a"
  by (induction a arbitrary: x) (simp_all add: funpow_swap1)

lemma coeff_code: "coeff a = coeff_from 1 a"
  by (simp add: coeff_def coeff_from)

lemma length_step32 [simp]: "length step32 = 32"
  by (simp add: step32_def)

text \<open>The same on the bits of a word, lowest first, for evaluation.\<close>

definition to_bits :: "u32 \<Rightarrow> bool list" where
  "to_bits x = map (bit x) [0..<32]"

definition xorshift_bits :: "bool list \<Rightarrow> bool list" where
  "xorshift_bits b =
     (let b1 = bxor b (take 32 (replicate 13 False @ b));
          b2 = bxor b1 (drop 17 b1 @ replicate 17 False)
      in bxor b2 (take 32 (replicate 5 False @ b2)))"

definition bxor_if :: "bool \<Rightarrow> bool list \<Rightarrow> bool list \<Rightarrow> bool list" where
  "bxor_if b x r = (if b then bxor x r else r)"

fun coeff_bits :: "bool list \<Rightarrow> bool list \<Rightarrow> bool list" where
  "coeff_bits x [] = replicate 32 False"
| "coeff_bits x (b # bs) = bxor_if b x (coeff_bits (xorshift_bits x) bs)"

lemma to_bits_inject: "to_bits x = to_bits y \<longleftrightarrow> x = y"
proof
  assume e: "to_bits x = to_bits y"
  show "x = y"
  proof (rule bit_word_eqI)
    fix i
    assume "i < LENGTH(32)"
    then show "bit x i \<longleftrightarrow> bit y i" using arg_cong [OF e, of "\<lambda>l. l ! i"] by (simp add: to_bits_def)
  qed
qed simp

lemma to_bits_xor: "to_bits (x XOR y) = bxor (to_bits x) (to_bits y)"
  by (rule nth_equalityI) (simp_all add: to_bits_def bxor_def bit_xor_iff)

lemma to_bits_push: "n \<le> 32 \<Longrightarrow> to_bits (push_bit n x) = take 32 (replicate n False @ to_bits x)"
  by (rule nth_equalityI) (auto simp: to_bits_def bit_push_bit_iff nth_append)

lemma to_bits_drop: "n \<le> 32 \<Longrightarrow> to_bits (drop_bit n x) = drop n (to_bits x) @ replicate n False"
  by (rule nth_equalityI) (auto simp: to_bits_def bit_drop_bit_eq nth_append bit_imp_le_length dest: bit_imp_le_length)

lemma to_bits_xorshift: "to_bits (xorshift x) = xorshift_bits (to_bits x)"
  unfolding xorshift_def random_def xorshift_bits_def Let_def snd_conv to_bits_xor
  by (simp only: to_bits_push to_bits_drop to_bits_xor numeral_le_iff semiring_norm)

lemma to_bits_zero: "to_bits 0 = replicate 32 False"
  by (rule nth_equalityI) (simp_all add: to_bits_def)

lemma length_coeff_bits: "length x = 32 \<Longrightarrow> length (coeff_bits x a) = 32"
  by (induction x a rule: coeff_bits.induct) (simp_all add: xorshift_bits_def bxor_if_def Let_def)

lemma length_to_bits [simp]: "length (to_bits x) = 32"
  by (simp add: to_bits_def)

lemma length_xorshift_bits [simp]: "length (xorshift_bits b) = min (length b) 32"
  by (simp add: xorshift_bits_def Let_def)

lemma bxor_zero: "length b = n \<Longrightarrow> bxor (replicate n False) b = b"
  by (rule nth_equalityI) (simp_all add: bxor_def)

lemma to_bits_coeff: "to_bits (coeff_from x a) = coeff_bits (to_bits x) a"
  by (induction a arbitrary: x) (simp_all add: to_bits_zero to_bits_xor to_bits_xorshift bxor_zero length_coeff_bits bxor_if_def)

lemma to_bits_one: "to_bits 1 = True # replicate 31 False"
  by (rule nth_equalityI) (auto simp: to_bits_def nth_Cons' bit_1_iff)

lemma to_bits_iter: "to_bits ((xorshift ^^ k) x) = (xorshift_bits ^^ k) (to_bits x)"
  by (induction k) (simp_all add: to_bits_xorshift)

fun bits_iter :: "nat \<Rightarrow> bool list \<Rightarrow> bool list" where
  "bits_iter 0 x = x"
| "bits_iter (Suc k) x = bits_iter k (xorshift_bits x)"

lemma bits_iter: "bits_iter k x = (xorshift_bits ^^ k) x"
  by (induction k arbitrary: x) (simp_all add: funpow_swap1)

lemma coeff_step32: "coeff step32 = (xorshift ^^ 32) 1"
proof -
  have "coeff_bits (True # replicate 31 False) step32 = bits_iter 32 (True # replicate 31 False)" by code_simp
  then have "to_bits (coeff step32) = to_bits ((xorshift ^^ 32) 1)"
    by (simp only: coeff_code to_bits_coeff to_bits_one to_bits_iter bits_iter)
  then show ?thesis by (simp only: to_bits_inject)
qed

lemma length_next_coeff [simp]: "length a = 32 \<Longrightarrow> length (next_coeff a) = 32"
  by (simp add: next_coeff_def)

lemma coeff_next:
  assumes "length a = 32"
  shows "coeff (next_coeff a) = xorshift (coeff a)"
proof -
  have "a \<noteq> []" using assms by auto
  then have a: "a = butlast a @ [last a]" "length (butlast a) = 31" using assms by simp_all
  have shift: "coeff (False # butlast a) = xorshift (coeff (butlast a))"
    using comb_funpow [of 1 "\<lambda>i. (xorshift ^^ i) 1" "butlast a"] by (simp add: coeff_def)
  have "coeff a = coeff (butlast a) XOR (if last a then (xorshift ^^ 31) 1 else 0)"
    by (subst a(1), unfold coeff_def comb_append a(2)) simp
  moreover have "xorshift ((xorshift ^^ 31) 1) = coeff step32"
    unfolding coeff_step32 by (simp add: eval_nat_numeral)
  moreover have "coeff (bxor (False # butlast a) step32) = coeff (False # butlast a) XOR coeff step32"
    unfolding coeff_def by (rule comb_bxor) (simp add: assms)
  ultimately show ?thesis using shift by (simp add: next_coeff_def xorshift_xor)
qed

lemma flip_props:
  assumes "length a = 32"
  shows "length (flip a) = 32" "coeff (flip a) = 1 XOR coeff a"
proof -
  obtain b c where "a = b # c" using assms by (cases a) auto
  then show "length (flip a) = 32" "coeff (flip a) = 1 XOR coeff a"
    using assms by (auto simp: flip_def coeff_def xor.left_commute)
qed

lemma sqr_props: "length (sqr a) = 32 \<and> coeff (sqr a) = comb (\<lambda>i. (xorshift ^^ (2 * i)) 1) a"
proof (induction a)
  case Nil
  show ?case by (simp add: coeff_def)
next
  case (Cons b a)
  let ?n = "next_coeff (next_coeff (sqr a))"
  have l: "length ?n = 32" using Cons.IH by simp
  have c: "coeff ?n = comb (\<lambda>i. (xorshift ^^ (2 * Suc i)) 1) a"
    using Cons.IH comb_funpow [of 2 "\<lambda>i. (xorshift ^^ (2 * i)) 1" a]
    by (simp add: coeff_next funpow_add [symmetric] numeral_2_eq_2)
  have "sqr (b # a) = (if b then flip ?n else ?n)" by (simp add: flip_if_def)
  then show ?case using l c flip_props [OF l] by simp
qed

lemma from_bits_snoc: "from_bits (bs @ [b]) = (if b then 2 * from_bits bs + 1 else 2 * from_bits bs)"
  by (simp add: from_bits_def)

lemma from_bits_nonneg: "0 \<le> from_bits bs"
  by (induction bs rule: rev_induct) (simp_all add: from_bits_snoc, simp add: from_bits_def)

lemma coeffs_at_props: "length (coeffs_at bs) = 32 \<and> coeff (coeffs_at bs) = (xorshift ^^ nat (from_bits bs)) 1"
proof (induction bs rule: rev_induct)
  case Nil
  show ?case by (simp add: coeffs_at_def from_bits_def coeff_def)
next
  case (snoc b bs)
  let ?a = "coeffs_at bs"
  have c: "coeff (sqr ?a) = (xorshift ^^ (2 * nat (from_bits bs))) 1"
    using sqr_props [of ?a] state_double [of "nat (from_bits bs)" 1 ?a] snoc by (simp add: coeff_def)
  have l: "length (sqr ?a) = 32" using sqr_props by blast
  have n: "nat (2 * from_bits bs) = 2 * nat (from_bits bs)" "nat (2 * from_bits bs + 1) = Suc (2 * nat (from_bits bs))"
    using from_bits_nonneg [of bs] by simp_all
  have "coeffs_at (bs @ [b]) = (if b then next_coeff (sqr ?a) else sqr ?a)"
    by (simp add: coeffs_at_def coeffs_loop_append next_if_def)
  then show ?case using c l n by (simp add: from_bits_snoc coeff_next)
qed

section \<open>The period\<close>

text \<open>
  The digits of \<open>2 ^ 32 - 1\<close> divided by its prime factors 3, 5, 17, 257 and 65537 are a pattern that is repeated.
\<close>

definition pattern :: "nat \<Rightarrow> nat \<Rightarrow> bool list" where
  "pattern n k = concat (replicate n (replicate k False @ replicate k True))"

lemma pattern_values:
  "from_bits (pattern 16 1) = 1431655765" "from_bits (pattern 8 2) = 858993459" "from_bits (pattern 4 4) = 252645135"
  "from_bits (pattern 2 8) = 16711935" "from_bits (pattern 1 16) = 65535" "from_bits (replicate 32 True) = 4294967295"
  by code_simp+

abbreviation (input) "one_bits \<equiv> True # replicate 31 False"

lemma returns_bits: "coeff_bits one_bits (coeffs_at (replicate 32 True)) = one_bits"
  by code_simp

lemma differs_3: "coeff_bits one_bits (coeffs_at (pattern 16 1)) \<noteq> one_bits"
  by code_simp

lemma differs_5: "coeff_bits one_bits (coeffs_at (pattern 8 2)) \<noteq> one_bits"
  by code_simp

lemma differs_17: "coeff_bits one_bits (coeffs_at (pattern 4 4)) \<noteq> one_bits"
  by code_simp

lemma differs_257: "coeff_bits one_bits (coeffs_at (pattern 2 8)) \<noteq> one_bits"
  by code_simp

lemma differs_65537: "coeff_bits one_bits (coeffs_at (pattern 1 16)) \<noteq> one_bits"
  by code_simp

lemma state_bits:
  "from_bits bs = int k \<Longrightarrow> to_bits ((xorshift ^^ k) 1) = coeff_bits one_bits (coeffs_at bs)"
  using coeffs_at_props [of bs] by (simp add: to_bits_coeff [symmetric] to_bits_one [symmetric] coeff_code [symmetric])

definition period :: nat where
  "period = 4294967295"

lemma period_pos [simp]: "0 < period" and odd_period: "odd period" and period_pow: "2 ^ 32 - 1 = period"
  by (simp_all add: period_def)

lemma period_returns: "(xorshift ^^ period) 1 = 1"
proof -
  have "from_bits (replicate 32 True) = int period" unfolding period_def pattern_values(6) by simp
  from state_bits [OF this] have "to_bits ((xorshift ^^ period) 1) = to_bits 1" unfolding returns_bits to_bits_one .
  then show ?thesis by (simp only: to_bits_inject)
qed

lemma not_earlier:
  assumes "from_bits bs = int k" "coeff_bits one_bits (coeffs_at bs) \<noteq> one_bits"
  shows "(xorshift ^^ k) 1 \<noteq> 1"
  using state_bits [OF assms(1)] assms(2) by (auto simp: to_bits_one)

text \<open>A number without a divisor from 2 up to its root is prime.\<close>

lemma divisor_cases:
  assumes "x dvd p" "\<forall>y \<in> set [2..int n - 1]. int p mod y \<noteq> 0" "p < n * n" "0 < p"
  shows "x = 1 \<or> x = (p :: nat)"
proof -
  have none: "\<not> y dvd p" if "2 \<le> y" "y < n" for y
  proof
    assume "y dvd p"
    then have "int p mod int y = 0" by (simp add: mod_eq_0_iff_dvd)
    moreover have "int y \<in> set [2..int n - 1]" using that by auto
    then have "int p mod int y \<noteq> 0" by (rule bspec [OF assms(2)])
    ultimately show False by contradiction
  qed
  obtain y where y: "p = x * y" using assms(1) by blast
  have "x < n \<or> y < n" using assms(3) y by (meson mult_le_mono not_less)
  moreover have "0 < x" "0 < y" using y assms(4) by (auto intro: Nat.gr0I)
  moreover have "y dvd p" using y by simp
  ultimately have "x = 1 \<or> y = 1" using assms(1) none [of x] none [of y] by linarith
  then show ?thesis using y by auto
qed

lemma no_divisor:
  assumes "d * e = period" "(xorshift ^^ d) 1 = 1"
  shows "e = 1"
proof -
  have multiple: "(xorshift ^^ (d * k)) 1 = 1" for k
    by (induction k) (simp_all add: assms(2) funpow_add)
  have co: "coprime e p"
    if p: "\<And>x. x dvd p \<Longrightarrow> x = 1 \<or> x = p" "p * k = period" "(xorshift ^^ k) 1 \<noteq> 1" "0 < p" for p k :: nat
  proof (rule ccontr)
    assume "\<not> coprime e p"
    then have "gcd e p = p" using p(1) [of "gcd e p"] by (auto simp: coprime_iff_gcd_eq_1)
    then have "p dvd e" by (metis gcd_dvd1)
    then obtain f where "e = p * f" by blast
    then have "p * k = p * (d * f)" using assms(1) p(2) by (metis mult.assoc mult.left_commute)
    then have "k = d * f" using p(4) by simp
    with p(3) multiple show False by simp
  qed
  have range: "\<forall>y \<in> set [2..int 2 - 1]. int 3 mod y \<noteq> 0" "\<forall>y \<in> set [2..int 3 - 1]. int 5 mod y \<noteq> 0"
    "\<forall>y \<in> set [2..int 5 - 1]. int 17 mod y \<noteq> 0" "\<forall>y \<in> set [2..int 17 - 1]. int 257 mod y \<noteq> 0"
    "\<forall>y \<in> set [2..int 257 - 1]. int 65537 mod y \<noteq> 0"
    unfolding of_nat_numeral by code_simp+
  have "coprime e 3"
    by (rule co [OF divisor_cases [OF _ range(1)] _ not_earlier [OF _ differs_3]]) (simp_all add: pattern_values [unfolded One_nat_def] period_def)
  moreover have "coprime e 5"
    by (rule co [OF divisor_cases [OF _ range(2)] _ not_earlier [OF _ differs_5]]) (simp_all add: pattern_values [unfolded One_nat_def] period_def)
  moreover have "coprime e 17"
    by (rule co [OF divisor_cases [OF _ range(3)] _ not_earlier [OF _ differs_17]]) (simp_all add: pattern_values [unfolded One_nat_def] period_def)
  moreover have "coprime e 257"
    by (rule co [OF divisor_cases [OF _ range(4)] _ not_earlier [OF _ differs_257]]) (simp_all add: pattern_values [unfolded One_nat_def] period_def)
  moreover have "coprime e 65537"
    by (rule co [OF divisor_cases [OF _ range(5)] _ not_earlier [OF _ differs_65537]]) (simp_all add: pattern_values [unfolded One_nat_def] period_def)
  ultimately have "coprime e (3 * (5 * (17 * (257 * 65537))))" by (simp only: coprime_mult_right_iff)
  then have "coprime e (d * e)" unfolding assms(1) by (simp add: period_def)
  then show ?thesis by (simp add: coprime_mult_right_iff)
qed

lemma first_return:
  assumes "0 < d" "(xorshift ^^ d) 1 = 1"
  shows "period \<le> d"
proof -
  define m where "m = (LEAST m. 0 < m \<and> (xorshift ^^ m) 1 = 1)"
  have m: "0 < m" "(xorshift ^^ m) 1 = 1" and le: "m \<le> d"
    using LeastI [of "\<lambda>m. 0 < m \<and> (xorshift ^^ m) 1 = 1" d] assms
      Least_le [of "\<lambda>m. 0 < m \<and> (xorshift ^^ m) 1 = 1" d] by (simp_all add: m_def)
  have "(xorshift ^^ (period mod m)) 1 = 1"
    using m(2) period_returns by (simp add: funpow_mod_eq)
  moreover have "period mod m < m" using m(1) by simp
  ultimately have "period mod m = 0"
    using not_less_Least [of "period mod m" "\<lambda>m. 0 < m \<and> (xorshift ^^ m) 1 = 1"] by (auto simp: m_def)
  then obtain e where "m * e = period" by (metis mod_eq_0_iff_dvd dvdE)
  with no_divisor [OF this m(2)] le show ?thesis by simp
qed

lemma inj_states: "inj_on (\<lambda>k. (xorshift ^^ k) 1) {..<period}"
proof (rule linorder_inj_onI)
  fix i j :: nat
  assume ij: "i < j" "i \<in> {..<period}" "j \<in> {..<period}"
  have inj: "inj (xorshift ^^ i)" by (rule inj_fn [OF inj_xorshift])
  have "(xorshift ^^ j) 1 = (xorshift ^^ i) ((xorshift ^^ (j - i)) 1)"
    using ij(1) by (metis comp_apply funpow_add le_add_diff_inverse less_imp_le)
  moreover have "(xorshift ^^ (j - i)) 1 \<noteq> 1" using first_return [of "j - i"] ij by auto
  ultimately show "(xorshift ^^ i) 1 \<noteq> (xorshift ^^ j) 1" using injD [OF inj] by metis
qed auto

lemma all_states:
  assumes "x \<noteq> 0"
  shows "\<exists>k < period. (xorshift ^^ k) 1 = x"
proof -
  let ?f = "\<lambda>k. (xorshift ^^ k) (1 :: u32)"
  have nz: "?f k \<noteq> 0" for k
    by (induction k) (simp_all add: xorshift_def random_nonzero)
  have "card (UNIV - {0 :: u32}) = period"
    unfolding card_Diff_singleton [OF UNIV_I] card_word by (simp add: period_def)
  moreover have "card (?f ` {..<period}) = period" unfolding card_image [OF inj_states] by simp
  ultimately have card: "card (?f ` {..<period}) = card (UNIV - {0 :: u32})" by (simp only:)
  have "?f ` {..<period} \<subseteq> UNIV - {0}" using nz by (intro image_subsetI) simp
  from card_subset_eq [OF finite this card] have "?f ` {..<period} = UNIV - {0}" .
  moreover have "x \<in> UNIV - {0}" using assms by simp
  ultimately have "x \<in> ?f ` {..<period}" by (simp only:)
  then show ?thesis by (elim imageE) (simp only: lessThan_iff, metis)
qed

lemma states_period: "(xorshift ^^ (k mod period)) 1 = (xorshift ^^ k) 1"
  by (rule funpow_mod_eq [OF period_returns])

lemma reach_state:
  assumes "x \<noteq> 0" "y \<noteq> 0"
  shows "\<exists>k < period. (xorshift ^^ k) x = y"
proof -
  obtain a b where a: "a < period" "x = (xorshift ^^ a) 1" and b: "b < period" "y = (xorshift ^^ b) 1"
    using all_states assms by metis
  let ?k = "(b + (period - a)) mod period"
  have "(xorshift ^^ ?k) x = (xorshift ^^ (?k + a)) 1" by (simp only: a(2) funpow_add comp_apply)
  also have "\<dots> = (xorshift ^^ ((?k + a) mod period)) 1" by (simp only: states_period)
  also have "(?k + a) mod period = b" using a(1) b(1) by (simp add: mod_simps)
  finally have "(xorshift ^^ ?k) x = y" by (simp only: b(2))
  moreover have "?k < period" by simp
  ultimately show ?thesis by blast
qed

text \<open>As the period is odd, every second state covers them all too.\<close>

lemma reach_state_odd:
  assumes "x \<noteq> 0" "y \<noteq> 0"
  shows "\<exists>k. (xorshift ^^ Suc (2 * k)) x = y"
proof -
  obtain k where k: "(xorshift ^^ k) x = y" using reach_state [OF assms] by blast
  obtain a where a: "x = (xorshift ^^ a) 1" using all_states [OF assms(1)] by blast
  show ?thesis
  proof (cases "even k")
    case False
    then have "k = Suc (2 * (k div 2))" by presburger
    with k show ?thesis by metis
  next
    case True
    with odd_period obtain m where m: "k + period = Suc (2 * m)" by (metis oddE odd_add Suc_eq_plus1)
    have "(xorshift ^^ (k + period)) x = (xorshift ^^ (k + period + a)) 1"
      by (simp only: a funpow_add comp_apply)
    also have "\<dots> = (xorshift ^^ ((k + period + a) mod period)) 1" by (simp only: states_period)
    also have "(k + period + a) mod period = (k + a) mod period"
      by (metis add.assoc add.commute mod_add_self2)
    also have "(xorshift ^^ \<dots>) 1 = y" using k by (simp only: states_period a funpow_add comp_apply)
    finally show ?thesis unfolding m by blast
  qed
qed

text \<open>
  C9: The generator of the schedulers has the full period: from any state but 0 it comes to any other in less than
  \<open>2 ^ 32 - 1\<close> draws and back to itself after \<open>2 ^ 32 - 1\<close>, so a thread cannot be confined to some of the heaps,
  whatever the clock value of its seed.
\<close>

theorem random_full_period:
  assumes "x \<noteq> 0" "y \<noteq> 0"
  shows "(\<exists>k < 2 ^ 32 - 1. random_iter k x = y) \<and> random_iter (2 ^ 32 - 1) x = x \<and>
    (\<forall>k. 0 < k \<and> k < 2 ^ 32 - 1 \<longrightarrow> random_iter k x \<noteq> x)"
  unfolding period_pow random_iter_funpow
proof (intro conjI allI impI)
  show "\<exists>k<period. (xorshift ^^ k) x = y" by (rule reach_state [OF assms])
  obtain a where a: "x = (xorshift ^^ a) 1" using all_states [OF assms(1)] by blast
  have swap: "(xorshift ^^ k) x = (xorshift ^^ a) ((xorshift ^^ k) 1)" for k
  proof -
    have "(xorshift ^^ k) x = (xorshift ^^ (k + a)) 1" by (simp only: a funpow_add comp_apply)
    also have "\<dots> = (xorshift ^^ (a + k)) 1" by (simp only: add.commute)
    finally show ?thesis by (simp only: funpow_add comp_apply)
  qed
  show "(xorshift ^^ period) x = x" unfolding swap period_returns by (simp only: a)
  fix k
  assume "0 < k \<and> k < period"
  then have k: "0 < k" "k < period" by simp_all
  have inj: "inj (xorshift ^^ a)" by (rule inj_fn [OF inj_xorshift])
  have "(xorshift ^^ k) 1 \<noteq> 1" using first_return [OF k(1)] k(2) by auto
  then show "(xorshift ^^ k) x \<noteq> x" unfolding swap using injD [OF inj, of _ 1] a by metis
qed

theorem random_full_period_witness:
  "\<exists>k < 2 ^ 32 - 1. random_iter k (random_seed 7) = 1"
  using random_full_period [of "random_seed 7" 1] random_seed_nonzero by auto

text \<open>Two draws in a row give different heaps sooner or later, if there are two heaps.\<close>

lemma remainders_differ:
  assumes "1 < n"
  shows "\<exists>y \<in> {1, 16}. remainder y n \<noteq> remainder (xorshift y) n"
proof (rule ccontr)
  assume "\<not> ?thesis"
  moreover have "xorshift 1 = 270369" "xorshift 16 = 4325937" by (simp_all add: xorshift_def random_def)
  ultimately have e: "270369 mod n = 1 mod n" "4325937 mod n = 16 mod n" by (simp_all add: remainder_def)
  have "n dvd 270369 - 1" using e(1) mod_eq_dvd_iff_nat [of 1 270369 n] by simp
  moreover have "n dvd 4325937 - 16" using e(2) mod_eq_dvd_iff_nat [of 16 4325937 n] by simp
  ultimately have "n dvd 270368" "n dvd 4325921" by simp_all
  then have "n dvd gcd 270368 4325921" by (rule gcd_greatest)
  also have "gcd 270368 4325921 = (1 :: nat)" by (simp add: gcd_nat.simps)
  finally show False using assms by simp
qed

end
