(* ===== verification/RandomDraws.thy ===== *)
theory RandomDraws
  imports RandomPeriod MQProbProb
begin

text \<open>
  What the period of the generator gives the schedulers: its draws come to every heap, and to two different heaps in a row,
  so a loop that draws until it gets a heap that is not locked, or a pair of different heaps, returns.
\<close>

lemma rand_heap_state: "rand_heap n x = (remainder (xorshift x) n, xorshift x)"
  by (simp add: rand_heap_def rand_mod_def xorshift_def random_snd case_prod_beta)

lemma draw_at_states: "0 < m \<Longrightarrow> draw_at (rand_heap n) q x m = remainder ((xorshift ^^ m) x) n"
proof (induction m arbitrary: q x)
  case (Suc m)
  have "draw_at (rand_heap n) q x (Suc m) = draw_at (rand_heap n) (remainder (xorshift x) n) (xorshift x) m"
    by (simp add: rand_heap_state)
  also have "\<dots> = remainder ((xorshift ^^ Suc m) x) n"
    using Suc.IH by (cases m) (simp_all add: funpow_swap1)
  finally show ?case .
qed simp

lemma pair_at_states:
  "pair_at (rand_heap n) x m =
     (remainder ((xorshift ^^ Suc (2 * m)) x) n, remainder (xorshift ((xorshift ^^ Suc (2 * m)) x)) n)"
  by (induction m arbitrary: x) (simp_all add: rand_heap_state funpow_swap1)

text \<open>Every heap is drawn.\<close>

lemma rand_heap_reaches:
  assumes "x \<noteq> 0" "i < n" "n < 2 ^ 32"
  shows "\<exists>m. draw_at (rand_heap n) q x m = i"
proof -
  define y :: u32 where "y = of_nat (if i = 0 then n else i)"
  have u: "unat y = (if i = 0 then n else i)" using assms(2,3) by (simp add: y_def unat_of_nat)
  then have "y \<noteq> 0" using assms(2) by (metis less_nat_zero_code neq0_conv unat_0)
  then obtain m where "(xorshift ^^ Suc (2 * m)) x = y" using reach_state_odd [OF assms(1)] by blast
  then have "draw_at (rand_heap n) q x (Suc (2 * m)) = unat y mod n"
    by (subst draw_at_states) (simp_all add: remainder_def)
  then show ?thesis using u assms(2) by (intro exI [of _ "Suc (2 * m)"]) simp
qed

text \<open>Two draws in a row differ.\<close>

lemma rand_heap_pairs:
  assumes "x \<noteq> 0" "1 < n"
  shows "\<exists>m. fst (pair_at (rand_heap n) x m) \<noteq> snd (pair_at (rand_heap n) x m)"
proof -
  obtain y where y: "y \<in> {1, 16}" "remainder y n \<noteq> remainder (xorshift y) n" using remainders_differ [OF assms(2)] by blast
  then have "y \<noteq> 0" by auto
  then obtain m where "(xorshift ^^ Suc (2 * m)) x = y" using reach_state_odd [OF assms(1)] by blast
  with y(2) show ?thesis by (intro exI [of _ m]) (simp add: pair_at_states del: funpow.simps)
qed

lemma draws_work_unlocked:
  assumes "i < length hs" "\<not> lck (hs ! i)" "length hs < 2 ^ 32"
  shows "draws_work (rand_heap (length hs)) hs"
  unfolding draws_work_def using rand_heap_reaches [OF _ assms(1,3)] assms(2) by metis

lemma pairs_work_unlocked:
  assumes "hs \<noteq> []" "\<forall>H \<in> set hs. \<not> lck H"
  shows "pairs_work (rand_heap (length hs)) (length hs) hs"
  unfolding pairs_work_def
proof (intro allI impI)
  fix x :: u32
  assume x: "x \<noteq> 0"
  let ?n = "length hs"
  have lock: "fst (try_lock_at hs i)" if "i < ?n" for i
    using assms(2) that by (simp add: try_lock_at_def try_lock_def)
  have below: "fst (pair_at (rand_heap ?n) x m) < ?n \<and> snd (pair_at (rand_heap ?n) x m) < ?n" for m
    using assms(1) by (simp add: pair_at_states remainder_less del: funpow.simps)
  have "better min_at hs i j \<in> {i, j}" for i j by (simp add: better_def)
  then have works: "fst (try_lock_at hs (better min_at hs (fst (pair_at (rand_heap ?n) x m)) (snd (pair_at (rand_heap ?n) x m))))"
    for m using lock below [of m] by (metis empty_iff insert_iff)
  show "\<exists>m. pair_works ?n min_at try_lock_at hs (pair_at (rand_heap ?n) x m)"
    unfolding pair_works_def using works rand_heap_pairs [OF x, of ?n] by blast
qed

text \<open>
  C8: From any state of the generator but 0, \<open>push\<close> of \<open>MultiQueueProbProb\<close> returns as soon as one of the heaps is not
  locked, and \<open>pop\<close> when none is: the generator has the full period, so its draws come to every heap and to two different ones.
\<close>

theorem MultiQueueProbProb_draws_suffice:
  assumes "task_heap cmp B hinv hbag" "mq_ok B hinv hbag hs" "thread_ok (length hs) t" "rng t \<noteq> 0"
    and "length hs < 2 ^ 32" "i < length hs" "\<not> lck (hs ! i)"
  shows "(\<exists>r. MultiQueueProbProb_push B (length hs) c hs t es = Some r) \<and>
    ((\<forall>H \<in> set hs. \<not> lck H) \<longrightarrow> (\<exists>r. MultiQueueProbProb_pop B (length hs) d hs t = Some r))"
proof -
  have n: "0 < length hs" "hs \<noteq> []" using assms(6) by auto
  note below = rand_heap_below [OF n(1)]
  show ?thesis
    using prob_push_returns [OF draws_work_unlocked [OF assms(6,7,5)] below rand_heap_keeps assms(3,4)]
      prob_pop_returns [OF assms(1,2) pairs_work_unlocked [OF n(2)] below rand_heap_keeps assms(3,4)]
    by (simp add: MultiQueueProbProb_push_def MultiQueueProbProb_pop_def)
qed

text \<open>Two heaps, the second one locked by another thread for \<open>push\<close>, both free for \<open>pop\<close>.\<close>

theorem MultiQueueProbProb_draws_suffice_witness:
  "(\<exists>r. MultiQueueProbProb_push req_heap 2 8 (req_heaps []) new_thread [UpdateRequest 2 3, UpdateRequest 3 9] = Some r) \<and>
   (\<exists>r. MultiQueueProbProb_pop req_heap 2 8 [req_lockable [UpdateRequest 1 4], req_lockable [UpdateRequest 5 2]] new_thread
     = Some r)"
proof -
  let ?hs = "[req_lockable [UpdateRequest 1 4], req_lockable [UpdateRequest 5 2]]"
  note ok = req_heaps_ok(1,3) [of "[]"]
  have "mq_ok req_heap req_inv req_bag ?hs"
    using req_lockable_ok(1) by (auto simp: mq_ok_def less_Suc_eq nth_Cons')
  moreover have "\<not> lck (req_heaps [] ! 0)" by (simp add: req_heaps_def req_lockable_unlocked)
  moreover have "rng new_thread \<noteq> 0" by (simp add: new_thread_def)
  moreover have "length ?hs = 2" "(2 :: nat) < 2 ^ 32" "0 < (2 :: nat)" by simp_all
  moreover have "\<forall>H \<in> set ?hs. \<not> lck H" "\<not> lck (?hs ! 0)" using req_lockable_unlocked by auto
  ultimately show ?thesis
    using MultiQueueProbProb_draws_suffice [OF req.task_heap_axioms ok(1) new_thread_ok, of 0 8
        "[UpdateRequest 2 3, UpdateRequest 3 9]", unfolded ok(2)]
      MultiQueueProbProb_draws_suffice [OF req.task_heap_axioms _ new_thread_ok, of ?hs 0 8 "[]" 8]
    by metis
qed

end
