(* ===== verification/AdaptiveMQ.thy ===== *)
theory AdaptiveMQ
  imports DAryHeap RandomDraws
begin

text \<open>
  \<open>AdaptiveMultiQueue\<close> of \<open>WorkList/experimental_adaptive_mqs/AdaptiveMultiQueue.h\<close>: a
  MultiQueue whose number of heaps in use can grow and shrink. This is the instance with
  \<open>Blocking\<close> and \<open>DecreaseKey\<close> off, any \<open>ChunkPop\<close> and any probabilities of change. An operation
  runs from any state with any set of locks held by other threads; \<open>None\<close> is a call that never
  returns. \<open>size\<close> is the counter other threads read; \<open>push\<close> of one value does not write it.
  \<open>is_locked\<close> has no \<open>return\<close> in the code; the model is the one that returns the lock's state.
\<close>

section \<open>The lockable heap\<close>

record 'a LockableHeap =
  lh_heap :: "'a DAryHeap"
  lh_min :: 'a
  lh_size :: nat
  lh_locked :: bool

record 'a amq_cfg =
  amq_compare :: "'a \<Rightarrow> 'a \<Rightarrow> bool"
  nT :: nat
  PushP :: nat
  PushQ :: nat
  PopP :: nat
  PopQ :: nat
  ChunkPop :: nat
  initT :: 'a   \<comment> \<open>the default-constructed element\<close>

definition LockableHeap_init :: "'a amq_cfg \<Rightarrow> nat \<Rightarrow> 'a LockableHeap" where
  "LockableHeap_init P i =
     \<lparr>lh_heap = set_index DAryHeap_init i, lh_min = initT P, lh_size = 0, lh_locked = False\<rparr>"

definition is_locked :: "'a LockableHeap \<Rightarrow> bool" where
  "is_locked H \<longleftrightarrow> lh_locked H"

definition lh_try_lock :: "'a LockableHeap \<Rightarrow> bool \<times> 'a LockableHeap" where
  "lh_try_lock H = (if lh_locked H then (False, H) else (True, H\<lparr>lh_locked := True\<rparr>))"

definition my_try_lock :: "'a LockableHeap \<Rightarrow> bool \<times> 'a LockableHeap" where
  "my_try_lock H = (if \<not> is_locked H then lh_try_lock H else (False, H))"

definition lh_lock :: "'a LockableHeap \<Rightarrow> 'a LockableHeap option" where
  "lh_lock H = (if lh_locked H then None else Some (H\<lparr>lh_locked := True\<rparr>))"

definition lh_unlock :: "'a LockableHeap \<Rightarrow> 'a LockableHeap" where
  "lh_unlock H = H\<lparr>lh_locked := False\<rparr>"

text \<open>\<open>heap->min = heap->heap.min()\<close> of a heap that is not empty.\<close>

definition store_min :: "'a LockableHeap \<Rightarrow> 'a LockableHeap" where
  "store_min H = (case DAryHeap_min (lh_heap H) of Some m \<Rightarrow> H\<lparr>lh_min := m\<rparr> | None \<Rightarrow> H)"

definition store_size :: "'a LockableHeap \<Rightarrow> 'a LockableHeap" where
  "store_size H = H\<lparr>lh_size := DAryHeap_size (lh_heap H)\<rparr>"

definition lh_push :: "'a amq_cfg \<Rightarrow> 'a LockableHeap \<Rightarrow> 'a \<Rightarrow> 'a LockableHeap" where
  "lh_push P H val = H\<lparr>lh_heap := DAryHeap_push (amq_compare P) 4 (lh_heap H) val\<rparr>"

definition lh_getMin :: "'a amq_cfg \<Rightarrow> 'a LockableHeap \<Rightarrow> ('a \<times> 'a LockableHeap) option" where
  "lh_getMin P H =
     map_option (\<lambda>(m, h). (m, H\<lparr>lh_heap := h\<rparr>)) (DAryHeap_extractMin (amq_compare P) 4 (lh_heap H))"

section \<open>The scheduler\<close>

record 'a AdaptiveMQ =
  amq_heaps :: "'a LockableHeap list"
  nQ :: nat
  maxQNum :: nat
  adaptLock :: bool
  deletedQ :: nat
  addedQ :: nat
  wantedToDelete :: nat
  wantedToAdd :: nat
  minNumQ :: nat
  maxNumQ :: nat

record 'a amq_thread =
  amq_rng :: u32
  amq_push_q :: "nat option"
  amq_pop_q :: "nat option"
  popped_v :: "'a list"

definition AdaptiveMQ_init :: "'a amq_cfg \<Rightarrow> nat \<Rightarrow> 'a AdaptiveMQ" where
  "AdaptiveMQ_init P C =
     (let n = (if C > 0 then C * nT P else 1) in
      \<lparr>amq_heaps = map (LockableHeap_init P) [0..<nT P * 4], nQ = n, maxQNum = nT P * 4,
       adaptLock = False, deletedQ = 0, addedQ = 0, wantedToDelete = 0, wantedToAdd = 0,
       minNumQ = n, maxNumQ = n\<rparr>)"

definition get_push_local :: "'a amq_cfg \<Rightarrow> nat \<Rightarrow> nat \<Rightarrow> u32 \<Rightarrow> nat \<times> u32" where
  "get_push_local P n old_local x =
     (case random x of (r, x1) \<Rightarrow>
        if old_local \<ge> n \<or> remainder r (PushQ P) < PushP P then rand_heap n x1 else (old_local, x1))"

definition my_try_lock_at :: "'a LockableHeap list \<Rightarrow> nat \<Rightarrow> bool \<times> 'a LockableHeap list" where
  "my_try_lock_at hs i = (case my_try_lock (hs ! i) of (r, H) \<Rightarrow> (r, hs[i := H]))"

text \<open>\<open>while (!heap->my_try_lock())\<close>, with a new draw each time.\<close>

partial_function (option) amq_lock_loop ::
    "nat \<Rightarrow> 'a LockableHeap list \<Rightarrow> nat \<Rightarrow> u32 \<Rightarrow> ('a LockableHeap list \<times> nat \<times> u32) option" where
  "amq_lock_loop n hs q x =
     (case my_try_lock_at hs q of (r, hs1) \<Rightarrow>
        if r then Some (hs1, q, x)
        else case rand_heap n x of (q1, x1) \<Rightarrow> amq_lock_loop n hs1 q1 x1)"

declare amq_lock_loop.simps [code]

text \<open>\<open>push\<close> of a single value.\<close>

definition amq_push_one ::
    "'a amq_cfg \<Rightarrow> 'a AdaptiveMQ \<Rightarrow> 'a amq_thread \<Rightarrow> 'a \<Rightarrow> ('a AdaptiveMQ \<times> 'a amq_thread) option" where
  "amq_push_one P s t val =
     (case rand_heap (nQ s) (amq_rng t) of (q0, x0) \<Rightarrow>
      case amq_lock_loop (nQ s) (amq_heaps s) q0 x0 of
        None \<Rightarrow> None
      | Some (hs, q, x) \<Rightarrow>
          Some (s\<lparr>amq_heaps := hs[q := lh_unlock (store_min (lh_push P (hs ! q) val))]\<rparr>,
                t\<lparr>amq_rng := x\<rparr>))"

text \<open>
  The loop of \<open>push\<close> of a range. A heap index may be stale only in \<open>local_q\<close>, and it is
  \<open>local_q\<close>, not \<open>indexToLock\<close>, that is compared with the number of queues.
\<close>

definition chunk_size :: nat where
  "chunk_size = 8"

partial_function (option) amq_push_loop ::
    "'a amq_cfg \<Rightarrow> nat \<Rightarrow> nat \<Rightarrow> 'a LockableHeap list \<Rightarrow> nat \<Rightarrow> u32 \<Rightarrow> nat \<Rightarrow> 'a list \<Rightarrow>
     ('a LockableHeap list \<times> nat \<times> u32 \<times> nat) option" where
  "amq_push_loop cfg n local_q hs indexToLock x npush es =
     (if es = [] then Some (hs, indexToLock, x, npush)
      else case get_push_local cfg n local_q x of (q0, x1) \<Rightarrow>
        (case amq_lock_loop n hs q0 x1 of
           None \<Rightarrow> None
         | Some (hs1, q, x2) \<Rightarrow>
             if local_q \<ge> n then
               amq_push_loop cfg n local_q (hs1[q := lh_unlock (hs1 ! q)]) q x2 npush es
             else
               let batch = take chunk_size es;
                   H = foldl (lh_push cfg) (hs1 ! q) batch
               in amq_push_loop cfg n local_q (hs1[q := lh_unlock (store_size (store_min H))]) q x2
                    (npush + length batch) (drop chunk_size es)))"

text \<open>\<open>reportStat\<close> returns before it does anything; the rest of its body is never reached.\<close>

definition reportStat :: "nat \<Rightarrow> nat \<Rightarrow> nat \<Rightarrow> 'a AdaptiveMQ \<Rightarrow> 'a AdaptiveMQ" where
  "reportStat succs failures empties s = s"

definition amq_push ::
    "'a amq_cfg \<Rightarrow> 'a AdaptiveMQ \<Rightarrow> 'a amq_thread \<Rightarrow> 'a list \<Rightarrow>
     ('a AdaptiveMQ \<times> 'a amq_thread \<times> nat) option" where
  "amq_push P s t es =
     (case init_local_q (rand_heap (nQ s)) (amq_push_q t) (amq_rng t) of (local_q, x) \<Rightarrow>
      case amq_push_loop P (nQ s) local_q (amq_heaps s) 0 x 0 es of
        None \<Rightarrow> None
      | Some (hs, q, x1, npush) \<Rightarrow>
          Some (s\<lparr>amq_heaps := hs\<rparr>, t\<lparr>amq_rng := x1, amq_push_q := Some q\<rparr>, npush))"

section \<open>Pop\<close>

fun chunk_loop :: "'a amq_cfg \<Rightarrow> nat \<Rightarrow> 'a LockableHeap \<Rightarrow> 'a list \<times> 'a LockableHeap" where
  "chunk_loop P 0 H = ([], H)"
| "chunk_loop P (Suc i) H =
     (if DAryHeap_size (lh_heap H) > 1 then
        (case lh_getMin P H of
           None \<Rightarrow> ([], H)
         | Some (m, H1) \<Rightarrow> (case chunk_loop P i H1 of (ms, H2) \<Rightarrow> (m # ms, H2)))
      else ([], H))"

text \<open>\<open>extract_min\<close>: the task, the buffer (empty before) and the heap, unlocked.\<close>

definition amq_extract_min ::
    "'a amq_cfg \<Rightarrow> 'a LockableHeap \<Rightarrow> 'a list \<Rightarrow> ('a \<times> 'a list \<times> 'a LockableHeap) option" where
  "amq_extract_min P H pv =
     (case lh_getMin P H of
        None \<Rightarrow> None
      | Some (result, H1) \<Rightarrow>
          (case (if ChunkPop P > 0 then (case chunk_loop P (ChunkPop P) H1 of (ms, H2) \<Rightarrow> (rev (pv @ ms), H2))
                 else (pv, H1)) of
             (pv1, H2) \<Rightarrow> Some (result, pv1, lh_unlock (store_size (store_min H2)))))"

definition amq_try_lock_heap :: "nat \<Rightarrow> 'a LockableHeap list \<Rightarrow> nat \<Rightarrow> bool \<times> 'a LockableHeap list" where
  "amq_try_lock_heap n hs i =
     (case my_try_lock_at hs i of (r, hs1) \<Rightarrow>
        if r then if i \<ge> n then (False, hs1[i := lh_unlock (hs1 ! i)]) else (True, hs1)
        else (False, hs1))"

text \<open>The choice between two drawn heaps.\<close>

definition amq_better :: "'a amq_cfg \<Rightarrow> 'a LockableHeap list \<Rightarrow> nat \<Rightarrow> nat \<Rightarrow> nat" where
  "amq_better P hs i j =
     (if lh_size (hs ! i) = 0 then j
      else if lh_size (hs ! j) = 0 then i
      else if amq_compare P (lh_min (hs ! i)) (lh_min (hs ! j)) then j
      else i)"

partial_function (option) amq_choose ::
    "'a amq_cfg \<Rightarrow> nat \<Rightarrow> 'a LockableHeap list \<Rightarrow> u32 \<Rightarrow> ('a LockableHeap list \<times> nat \<times> u32) option" where
  "amq_choose cfg n hs x =
     (case rand_heap n x of (i_ind, x1) \<Rightarrow> case rand_heap n x1 of (j_ind, x2) \<Rightarrow>
        if i_ind = j_ind \<and> n > 1 then amq_choose cfg n hs x2
        else case amq_try_lock_heap n hs (amq_better cfg hs i_ind j_ind) of (r, hs1) \<Rightarrow>
          if r then Some (hs1, amq_better cfg hs i_ind j_ind, x2) else amq_choose cfg n hs1 x2)"

declare amq_push_loop.simps [code] amq_choose.simps [code]

text \<open>The random attempts: the locked heap that is not empty, if any, and \<open>indexToLock\<close>.\<close>

fun amq_attempts ::
    "'a amq_cfg \<Rightarrow> nat \<Rightarrow> nat \<Rightarrow> 'a LockableHeap list \<Rightarrow> nat \<Rightarrow> u32 \<Rightarrow>
     ('a LockableHeap list \<times> bool \<times> nat \<times> u32) option" where
  "amq_attempts P n 0 hs k x = Some (hs, False, k, x)"
| "amq_attempts P n (Suc m) hs k x =
     (case amq_choose P n hs x of
        None \<Rightarrow> None
      | Some (hs1, k1, x1) \<Rightarrow>
          if DAryHeap_size (lh_heap (hs1 ! k1)) \<noteq> 0 then Some (hs1, True, k1, x1)
          else amq_attempts P n m (hs1[k1 := lh_unlock (hs1 ! k1)]) k1 x1)"

text \<open>The scan of all queues but \<open>indexToLock\<close>: the heap found, locked.\<close>

fun amq_scan ::
    "nat \<Rightarrow> 'a LockableHeap list \<Rightarrow> nat list \<Rightarrow> 'a LockableHeap list \<times> nat option" where
  "amq_scan indexToLock hs [] = (hs, None)"
| "amq_scan indexToLock hs (k # ks) =
     (if k = indexToLock then amq_scan indexToLock hs ks
      else if lh_size (hs ! k) = 0 then amq_scan indexToLock hs ks
      else case my_try_lock_at hs k of (r, hs1) \<Rightarrow>
        if r then
          if DAryHeap_size (lh_heap (hs1 ! k)) > 0 then (hs1, Some k)
          else amq_scan indexToLock (hs1[k := lh_unlock (hs1 ! k)]) ks
        else amq_scan indexToLock hs1 ks)"

text \<open>The attempt on the local queue before the random ones.\<close>

definition amq_try_local ::
    "'a amq_cfg \<Rightarrow> nat \<Rightarrow> 'a LockableHeap list \<Rightarrow> nat \<Rightarrow> nat \<Rightarrow> 'a LockableHeap list \<times> bool" where
  "amq_try_local P n hs local_q change =
     (if local_q < n \<and> change \<ge> PopP P * (if ChunkPop P > 0 then ChunkPop P + 1 else 1) \<and>
         (ChunkPop P > 0 \<longrightarrow> lh_size (hs ! local_q) \<noteq> 0)
      then case amq_try_lock_heap n hs local_q of (r, hs1) \<Rightarrow>
        if r then
          if DAryHeap_size (lh_heap (hs1 ! local_q)) \<noteq> 0 then (hs1, True)
          else (hs1[local_q := lh_unlock (hs1 ! local_q)], False)
        else (hs1, False)
      else (hs, False))"

text \<open>\<open>return extract_min(\<dots>)\<close> from heap \<open>k\<close>, which is locked and not empty.\<close>

definition amq_return ::
    "'a amq_cfg \<Rightarrow> 'a AdaptiveMQ \<Rightarrow> 'a amq_thread \<Rightarrow> 'a LockableHeap list \<Rightarrow> nat \<Rightarrow>
     ('a option \<times> 'a AdaptiveMQ \<times> 'a amq_thread) option" where
  "amq_return P s t hs k =
     (case amq_extract_min P (hs ! k) (popped_v t) of
        None \<Rightarrow> None
      | Some (x, pv, H) \<Rightarrow> Some (Some x, s\<lparr>amq_heaps := hs[k := H]\<rparr>, t\<lparr>popped_v := pv\<rparr>))"

definition RANDOM_ATTEMPTS :: "'a amq_cfg \<Rightarrow> nat" where
  "RANDOM_ATTEMPTS P = (if nT P < 4 then 1 else 4)"

definition amq_pop ::
    "'a amq_cfg \<Rightarrow> 'a AdaptiveMQ \<Rightarrow> 'a amq_thread \<Rightarrow>
     ('a option \<times> 'a AdaptiveMQ \<times> 'a amq_thread) option" where
  "amq_pop P s t =
     (if ChunkPop P > 0 \<and> popped_v t \<noteq> [] then
        Some (Some (last (popped_v t)), s, t\<lparr>popped_v := butlast (popped_v t)\<rparr>)
      else
        case init_local_q (rand_heap (nQ s)) (amq_pop_q t) (amq_rng t) of (local_q, x0) \<Rightarrow>
        case random x0 of (r, x1) \<Rightarrow>
        case amq_try_local P (nQ s) (amq_heaps s) local_q (remainder r (PopQ P)) of (hs1, found) \<Rightarrow>
          if found then amq_return P s (t\<lparr>amq_rng := x1, amq_pop_q := Some local_q\<rparr>) hs1 local_q
          else
            (case amq_attempts P (nQ s) (RANDOM_ATTEMPTS P) hs1 0 x1 of
               None \<Rightarrow> None
             | Some (hs2, found2, k, x2) \<Rightarrow>
                 if found2 then amq_return P s (t\<lparr>amq_rng := x2, amq_pop_q := Some k\<rparr>) hs2 k
                 else
                   (case amq_scan k hs2 [0..<nQ s] of
                      (hs3, Some k1) \<Rightarrow> amq_return P s (t\<lparr>amq_rng := x2, amq_pop_q := Some k1\<rparr>) hs3 k1
                    | (hs3, None) \<Rightarrow>
                        Some (None, s\<lparr>amq_heaps := hs3\<rparr>, t\<lparr>amq_rng := x2, amq_pop_q := Some local_q\<rparr>))))"

section \<open>Changing the number of queues\<close>

text \<open>The index of the heap with the smallest (largest) recorded size, the first of equals.\<close>

fun smallest_loop :: "nat \<Rightarrow> nat \<Rightarrow> 'a LockableHeap list \<Rightarrow> nat list \<Rightarrow> nat" where
  "smallest_loop idMin szMin hs [] = idMin"
| "smallest_loop idMin szMin hs (i # is) =
     (if szMin > lh_size (hs ! i) then smallest_loop i (lh_size (hs ! i)) hs is
      else smallest_loop idMin szMin hs is)"

fun largest_loop :: "nat \<Rightarrow> nat \<Rightarrow> 'a LockableHeap list \<Rightarrow> nat list \<Rightarrow> nat" where
  "largest_loop ind szVal hs [] = ind"
| "largest_loop ind szVal hs (i # is) =
     (if szVal < lh_size (hs ! i) then largest_loop i (lh_size (hs ! i)) hs is
      else largest_loop ind szVal hs is)"

text \<open>\<open>setMin\<close>, \<open>setMax\<close> of \<open>Statistic\<close>: 0 is a statistic that has no value yet.\<close>

definition setMin :: "nat \<Rightarrow> nat \<Rightarrow> nat" where
  "setMin v0 v = (if v0 = 0 then v else min v0 v)"

definition setMax :: "nat \<Rightarrow> nat \<Rightarrow> nat" where
  "setMax v0 v = (if v0 = 0 then v else max v0 v)"

definition SIZE_MAX :: nat where
  "SIZE_MAX = 2 ^ 64 - 1"

definition merge_heaps ::
    "'a amq_cfg \<Rightarrow> 'a LockableHeap \<Rightarrow> 'a LockableHeap \<Rightarrow> 'a LockableHeap \<times> 'a LockableHeap" where
  "merge_heaps P mergeH removeH =
     (case pushAllAndClear (amq_compare P) 4 (lh_heap mergeH) (lh_heap removeH) of
        (h, h0) \<Rightarrow>
          (lh_unlock (store_min (store_size (mergeH\<lparr>lh_heap := h\<rparr>))),
           lh_unlock (removeH\<lparr>lh_heap := h0, lh_size := 0\<rparr>)))"

definition deleteQueue :: "'a amq_cfg \<Rightarrow> nat \<Rightarrow> 'a AdaptiveMQ \<Rightarrow> 'a AdaptiveMQ option" where
  "deleteQueue P expectedNQ s0 =
     (let s = s0\<lparr>wantedToDelete := wantedToDelete s0 + 1\<rparr> in
      if adaptLock s then Some s
      else
        let curNQ = nQ s in
        if curNQ = 1 \<or> expectedNQ \<noteq> curNQ then Some s
        else
          let hs = amq_heaps s; idMin = smallest_loop 0 SIZE_MAX hs [0..<curNQ - 1] in
          case (lh_lock (hs ! idMin), lh_lock (hs ! (curNQ - 1))) of
            (Some mergeH, Some removeH) \<Rightarrow>
              (case merge_heaps P mergeH removeH of (mergeH', removeH') \<Rightarrow>
                 Some (s\<lparr>amq_heaps := hs[idMin := mergeH', curNQ - 1 := removeH'],
                         nQ := curNQ - 1, deletedQ := deletedQ s + 1,
                         minNumQ := setMin (minNumQ s) (curNQ - 1)\<rparr>))
          | _ \<Rightarrow> None)"

definition split_heap ::
    "'a amq_cfg \<Rightarrow> 'a LockableHeap \<Rightarrow> 'a LockableHeap \<Rightarrow> 'a LockableHeap \<times> 'a LockableHeap" where
  "split_heap P elemsH addH =
     (case divideElems (amq_compare P) 4 (lh_heap elemsH) (lh_heap addH) of
        (h, h1) \<Rightarrow>
          (lh_unlock (store_min (store_size (elemsH\<lparr>lh_heap := h\<rparr>))),
           lh_unlock (store_min (store_size (addH\<lparr>lh_heap := h1\<rparr>)))))"

definition addQueue :: "'a amq_cfg \<Rightarrow> nat \<Rightarrow> 'a AdaptiveMQ \<Rightarrow> 'a AdaptiveMQ option" where
  "addQueue P expectedNQ s0 =
     (let s = s0\<lparr>wantedToAdd := wantedToAdd s0 + 1\<rparr> in
      if adaptLock s then Some s
      else
        let curNQ = nQ s in
        if curNQ = maxQNum s \<or> expectedNQ \<noteq> curNQ then Some s
        else
          let hs = amq_heaps s; ind = largest_loop 0 0 hs [0..<curNQ] in
          case (lh_lock (hs ! ind), lh_lock (hs ! curNQ)) of
            (Some elemsH, Some addH) \<Rightarrow>
              (case split_heap P elemsH addH of (elemsH', addH') \<Rightarrow>
                 Some (s\<lparr>amq_heaps := hs[ind := elemsH', curNQ := addH'],
                         nQ := curNQ + 1, addedQ := addedQ s + 1,
                         maxNumQ := setMax (maxNumQ s) (curNQ + 1)\<rparr>))
          | _ \<Rightarrow> None)"

section \<open>Locks and the array of heaps\<close>

definition lh_locked_at :: "'a LockableHeap list \<Rightarrow> nat \<Rightarrow> 'a LockableHeap list" where
  "lh_locked_at hs k = hs[k := (hs ! k)\<lparr>lh_locked := True\<rparr>]"

lemma length_lh_locked_at [simp]: "length (lh_locked_at hs k) = length hs"
  by (simp add: lh_locked_at_def)

lemma nth_lh_locked_at [simp]: "k < length hs \<Longrightarrow> lh_locked_at hs k ! k = (hs ! k)\<lparr>lh_locked := True\<rparr>"
  by (simp add: lh_locked_at_def)

lemma update_lh_locked_at [simp]: "(lh_locked_at hs k)[k := H] = hs[k := H]"
  by (simp add: lh_locked_at_def)

lemma my_try_lock_at_cases:
  "my_try_lock_at hs i = (r, hs1) \<longleftrightarrow>
     (if lh_locked (hs ! i) then \<not> r \<and> hs1 = hs else r \<and> hs1 = lh_locked_at hs i)"
  by (auto simp: my_try_lock_at_def my_try_lock_def is_locked_def lh_try_lock_def lh_locked_at_def)

lemma lh_unlock_lock: "\<not> lh_locked H \<Longrightarrow> lh_unlock (H\<lparr>lh_locked := True\<rparr>) = H"
  by (cases H) (simp add: lh_unlock_def)

lemma unlock_lh_locked_at [simp]:
  "\<not> lh_locked (hs ! k) \<Longrightarrow> k < length hs \<Longrightarrow>
   hs[k := lh_unlock ((hs ! k)\<lparr>lh_locked := True\<rparr>)] = hs"
  by (simp add: lh_unlock_lock)

lemma lh_unlock_fields [simp]:
  "\<not> lh_locked (lh_unlock H)" "lh_heap (lh_unlock H) = lh_heap H" "lh_min (lh_unlock H) = lh_min H"
  "lh_size (lh_unlock H) = lh_size H"
  by (simp_all add: lh_unlock_def)

lemma store_min_fields [simp]:
  "lh_heap (store_min H) = lh_heap H" "lh_size (store_min H) = lh_size H"
  "lh_locked (store_min H) = lh_locked H"
  by (simp_all add: store_min_def split: option.splits)

lemma store_size_fields [simp]:
  "lh_heap (store_size H) = lh_heap H" "lh_min (store_size H) = lh_min H"
  "lh_locked (store_size H) = lh_locked H" "lh_size (store_size H) = length (heap (lh_heap H))"
  by (simp_all add: store_size_def DAryHeap_size_def)

lemma lh_min_store_min [simp]: "heap (lh_heap H) \<noteq> [] \<Longrightarrow> lh_min (store_min H) = heap (lh_heap H) ! 0"
  by (simp add: store_min_def DAryHeap_min_def)

lemma try_lock_heap_cases:
  assumes "i < n" "i < length hs"
  shows "amq_try_lock_heap n hs i = (r, hs1) \<longleftrightarrow>
     (if lh_locked (hs ! i) then \<not> r \<and> hs1 = hs else r \<and> hs1 = lh_locked_at hs i)"
  using assms by (auto simp: amq_try_lock_heap_def my_try_lock_at_cases split: prod.splits if_splits)

text \<open>
  \<open>lh_ok\<close>: heap order, and on an unlocked heap the recorded minimum is right and the recorded size not too large;
  \<open>push\<close> of one value leaves it too small. \<open>amq_ok\<close>: the queues out of use are empty. Every operation keeps it.
\<close>

definition lh_cached :: "'a LockableHeap \<Rightarrow> bool" where
  "lh_cached H \<longleftrightarrow> lh_size H \<le> length (heap (lh_heap H)) \<and>
     (heap (lh_heap H) \<noteq> [] \<longrightarrow> lh_min H = heap (lh_heap H) ! 0)"

definition lh_ok :: "'a amq_cfg \<Rightarrow> 'a LockableHeap \<Rightarrow> bool" where
  "lh_ok P H \<longleftrightarrow> DAryHeap_ok (amq_compare P) 4 (lh_heap H) \<and> (\<not> lh_locked H \<longrightarrow> lh_cached H)"

definition lhs_ok :: "'a amq_cfg \<Rightarrow> nat \<Rightarrow> 'a LockableHeap list \<Rightarrow> bool" where
  "lhs_ok P n hs \<longleftrightarrow> 0 < n \<and> n \<le> length hs \<and> (\<forall>i < length hs. lh_ok P (hs ! i)) \<and>
     (\<forall>i < length hs. n \<le> i \<longrightarrow> heap (lh_heap (hs ! i)) = [])"

definition amq_ok :: "'a amq_cfg \<Rightarrow> 'a AdaptiveMQ \<Rightarrow> bool" where
  "amq_ok P s \<longleftrightarrow> lhs_ok P (nQ s) (amq_heaps s) \<and> maxQNum s = length (amq_heaps s)"

definition lh_kept :: "'a LockableHeap list \<Rightarrow> 'a LockableHeap list \<Rightarrow> bool" where
  "lh_kept hs hs' \<longleftrightarrow> length hs' = length hs \<and>
     (\<forall>i < length hs. lh_locked (hs' ! i) = lh_locked (hs ! i) \<and> (lh_locked (hs ! i) \<longrightarrow> hs' ! i = hs ! i))"

definition lh_tasks :: "'a LockableHeap \<Rightarrow> 'a multiset" where
  "lh_tasks H = mset (heap (lh_heap H))"

definition amq_bag :: "'a AdaptiveMQ \<Rightarrow> 'a multiset" where
  "amq_bag s = bags lh_tasks (amq_heaps s)"

lemma lh_kept_refl [simp]: "lh_kept hs hs"
  by (simp add: lh_kept_def)

lemma lh_kept_trans: "lh_kept hs hs' \<Longrightarrow> lh_kept hs' hs'' \<Longrightarrow> lh_kept hs hs''"
  by (simp add: lh_kept_def)

lemma lh_kept_length: "lh_kept hs hs' \<Longrightarrow> length hs' = length hs"
  by (simp add: lh_kept_def)

lemma lh_kept_update:
  "k < length hs \<Longrightarrow> \<not> lh_locked (hs ! k) \<Longrightarrow> \<not> lh_locked H \<Longrightarrow> lh_kept hs (hs[k := H])"
  by (auto simp: lh_kept_def nth_list_update)

lemma lh_section:
  assumes "lhs_ok P n hs" "k < n" "\<not> lh_locked (hs ! k)" "\<not> lh_locked H" "lh_ok P H"
  shows "lhs_ok P n (hs[k := H])" "lh_kept hs (hs[k := H])"
    "bags lh_tasks (hs[k := H]) + lh_tasks (hs ! k) = bags lh_tasks hs + lh_tasks H"
  using assms bags_update [of k hs lh_tasks H]
  by (auto simp: lhs_ok_def nth_list_update intro: lh_kept_update)

lemma lhs_ok_nth:
  "lhs_ok P n hs \<Longrightarrow> k < n \<Longrightarrow> k < length hs \<and> DAryHeap_ok (amq_compare P) 4 (lh_heap (hs ! k))"
  by (simp add: lhs_ok_def lh_ok_def)

text \<open>A new scheduler is well formed.\<close>

lemma AdaptiveMQ_init_ok:
  assumes "C > 0 \<longrightarrow> C \<le> 4" "0 < nT P"
  shows "amq_ok P (AdaptiveMQ_init P C)" "amq_bag (AdaptiveMQ_init P C) = {#}"
proof -
  have H: "lh_ok P (LockableHeap_init P i)" "heap (lh_heap (LockableHeap_init P i)) = []"
    "lh_tasks (LockableHeap_init P i) = {#}" for i
    using DAryHeap_init_ok [of "amq_compare P" 4]
    by (simp_all add: LockableHeap_init_def lh_ok_def lh_cached_def set_index_def DAryHeap_ok_def
        lh_tasks_def)
  have "(if C > 0 then C * nT P else 1) \<le> nT P * 4" "0 < (if C > 0 then C * nT P else 1)"
    using assms by (simp_all add: mult.commute)
  with H show "amq_ok P (AdaptiveMQ_init P C)"
    by (simp add: amq_ok_def AdaptiveMQ_init_def Let_def lhs_ok_def)
  have "bags lh_tasks (map (LockableHeap_init P) is) = {#}" for "is"
    using H by (induction "is") simp_all
  then show "amq_bag (AdaptiveMQ_init P C) = {#}" by (simp add: amq_bag_def AdaptiveMQ_init_def Let_def)
qed

section \<open>Push\<close>

lemma amq_lock_loop_induct [consumes 1, case_names step]:
  assumes "amq_lock_loop n hs q x = Some r"
    and "\<And>loop n hs q x r. (\<And>n hs q x r. loop n hs q x = Some r \<Longrightarrow> Q n hs q x r) \<Longrightarrow>
      (case my_try_lock_at hs q of (r, hs1) \<Rightarrow>
         if r then Some (hs1, q, x) else case rand_heap n x of (q1, x1) \<Rightarrow> loop n hs1 q1 x1) = Some r \<Longrightarrow>
      Q n hs q x r"
  shows "Q n hs q x r"
proof (rule amq_lock_loop.raw_induct [of Q "(((n, hs), q), x)" r, unfolded prod.case, OF _ assms(1)],
    goal_cases)
  case (1 loop)
  show ?case by (rule assms(2) [of loop]) (use 1 in blast)+
qed

lemma amq_lock_loop_Some:
  assumes "amq_lock_loop n hs q x = Some (hs1, q1, x1)" "0 < n" "q < n"
  shows "q1 < n \<and> \<not> lh_locked (hs ! q1) \<and> hs1 = lh_locked_at hs q1"
proof -
  have "0 < n \<longrightarrow> q < n \<longrightarrow> fst (snd r) < n \<and> \<not> lh_locked (hs ! fst (snd r)) \<and>
      fst r = lh_locked_at hs (fst (snd r))" if "amq_lock_loop n hs q x = Some r" for r
    using that
  proof (induction rule: amq_lock_loop_induct)
    case (step loop n hs q x r)
    obtain b hs1 where t: "my_try_lock_at hs q = (b, hs1)" by fastforce
    obtain q2 x2 where d: "rand_heap n x = (q2, x2)" by fastforce
    show ?case
    proof (cases b)
      case True
      with step(2) t show ?thesis by (auto simp: my_try_lock_at_cases split: if_splits)
    next
      case False
      with t have "hs1 = hs" by (auto simp: my_try_lock_at_cases split: if_splits)
      with False t d step(2) have "loop n hs q2 x2 = Some r" by simp
      from step(1) [OF this] d show ?thesis
        using draws_belowD [OF rand_heap_below] by blast
    qed
  qed
  with assms show ?thesis by fastforce
qed

lemma amq_lock_loop_free:
  "\<not> lh_locked (hs ! q) \<Longrightarrow> amq_lock_loop n hs q x = Some (lh_locked_at hs q, q, x)"
  by (subst amq_lock_loop.simps) (auto simp: my_try_lock_at_cases split: prod.splits)

lemma get_push_local_below:
  "get_push_local P n q x = (q1, x1) \<Longrightarrow> 0 < n \<Longrightarrow> q1 < n"
  using draws_belowD [OF rand_heap_below]
  by (auto simp: get_push_local_def not_le split: prod.splits if_splits)

lemma lh_push_list:
  assumes "strict_weak_order (amq_compare P)" "DAryHeap_ok (amq_compare P) 4 (lh_heap H)"
  shows "DAryHeap_ok (amq_compare P) 4 (lh_heap (foldl (lh_push P) H es)) \<and>
    mset (heap (lh_heap (foldl (lh_push P) H es))) = mset (heap (lh_heap H)) + mset es \<and>
    lh_locked (foldl (lh_push P) H es) = lh_locked H"
  using assms(2)
proof (induction es arbitrary: H)
  case (Cons e es)
  from Cons.IH [of "lh_push P H e"] DAryHeap_push_ok [OF assms(1) Cons.prems]
  show ?case by (simp add: lh_push_def bag_simps)
qed simp

lemma push_section:
  assumes "strict_weak_order (amq_compare P)" "lhs_ok P n hs" "k < n" "\<not> lh_locked (hs ! k)" "es \<noteq> []"
  defines "H \<equiv> lh_unlock (store_size (store_min (foldl (lh_push P) ((hs ! k)\<lparr>lh_locked := True\<rparr>) es)))"
  shows "lhs_ok P n (hs[k := H])" "lh_kept hs (hs[k := H])"
    "bags lh_tasks (hs[k := H]) = bags lh_tasks hs + mset es"
proof -
  have "DAryHeap_ok (amq_compare P) 4 (lh_heap ((hs ! k)\<lparr>lh_locked := True\<rparr>))"
    using lhs_ok_nth [OF assms(2,3)] by simp
  note p = lh_push_list [OF assms(1) this, of es]
  then have "heap (lh_heap (foldl (lh_push P) ((hs ! k)\<lparr>lh_locked := True\<rparr>) es)) \<noteq> []"
    using assms(5) by auto
  with p have "lh_ok P H" by (simp add: lh_ok_def lh_cached_def H_def)
  moreover have "\<not> lh_locked H" by (simp add: H_def)
  moreover have "lh_tasks H = lh_tasks (hs ! k) + mset es" using p by (simp add: lh_tasks_def H_def)
  ultimately show "lhs_ok P n (hs[k := H])" "lh_kept hs (hs[k := H])"
    "bags lh_tasks (hs[k := H]) = bags lh_tasks hs + mset es"
    using lh_section [OF assms(2-4), of H] by (simp_all add: ac_simps)
qed

lemma take_drop_mset: "mset (take k es) + mset (drop k es) = mset es"
  by (metis append_take_drop_id mset_append)

lemma amq_push_loop_Some:
  assumes "strict_weak_order (amq_compare P)" "local_q < n"
    and "amq_push_loop P n local_q hs q x k es = Some (hs', q', x', k')" "lhs_ok P n hs"
  shows "lhs_ok P n hs' \<and> lh_kept hs hs' \<and> bags lh_tasks hs' = bags lh_tasks hs + mset es \<and>
    k' = k + length es \<and> (es \<noteq> [] \<longrightarrow> q' < n)"
  using assms(3,4)
proof (induction "length es" arbitrary: hs q x k es rule: less_induct)
  case less
  show ?case
  proof (cases "es = []")
    case True
    with less.prems show ?thesis by (simp add: amq_push_loop.simps)
  next
    case False
    obtain q0 x1 where g: "get_push_local P n local_q x = (q0, x1)" by fastforce
    from less.prems(1) False g obtain hs1 q1 x2 where l: "amq_lock_loop n hs q0 x1 = Some (hs1, q1, x2)"
      by (auto simp: amq_push_loop.simps [of P n local_q hs q x k es] split: option.splits)
    have n: "0 < n" using assms(2) by simp
    have q1: "q1 < n" "\<not> lh_locked (hs ! q1)" "hs1 = lh_locked_at hs q1"
      using amq_lock_loop_Some [OF l n get_push_local_below [OF g n]] by auto
    have len: "q1 < length hs" using lhs_ok_nth [OF less.prems(2) q1(1)] by simp
    let ?b = "take chunk_size es" and ?es = "drop chunk_size es"
    let ?hs = "hs[q1 := lh_unlock (store_size (store_min
        (foldl (lh_push P) ((hs ! q1)\<lparr>lh_locked := True\<rparr>) ?b)))]"
    have "amq_push_loop P n local_q ?hs q1 x2 (k + length ?b) ?es = Some (hs', q', x', k')"
      using less.prems(1) False g l assms(2) len
      by (simp add: amq_push_loop.simps [of P n local_q hs q x k es] Let_def q1(3))
    moreover have "?b \<noteq> []" "length ?es < length es" using False by (simp_all add: chunk_size_def)
    note sec = push_section [OF assms(1) less.prems(2) q1(1,2) this(1)]
    ultimately have IH: "lhs_ok P n hs' \<and> lh_kept ?hs hs' \<and>
        bags lh_tasks hs' = bags lh_tasks ?hs + mset ?es \<and> k' = k + length ?b + length ?es \<and>
        (?es \<noteq> [] \<longrightarrow> q' < n)"
      using less.hyps [of ?es ?hs q1 x2 "k + length ?b"] sec(1) \<open>length ?es < length es\<close> by blast
    have "q' < n"
    proof (cases "?es = []")
      case True
      with \<open>amq_push_loop P n local_q ?hs q1 x2 (k + length ?b) ?es = Some (hs', q', x', k')\<close> q1(1)
      show ?thesis by (simp add: amq_push_loop.simps)
    qed (use IH in simp)
    moreover have "bags lh_tasks hs' = bags lh_tasks hs + mset es"
      using IH sec(3) take_drop_mset [of chunk_size es] by (simp add: ac_simps)
    ultimately show ?thesis using IH sec(2) lh_kept_trans by auto
  qed
qed

text \<open>With a stale \<open>local_q\<close> the loop unlocks and starts again, for ever.\<close>

lemma amq_push_loop_induct [consumes 1, case_names step]:
  assumes "amq_push_loop P n local_q hs q x k es = Some r"
    and "\<And>loop P n local_q hs q x k es r.
      (\<And>P n local_q hs q x k es r. loop P n local_q hs q x k es = Some r \<Longrightarrow>
         Q P n local_q hs q x k es r) \<Longrightarrow>
      (if es = [] then Some (hs, q, x, k)
       else case get_push_local P n local_q x of (q0, x1) \<Rightarrow>
         (case amq_lock_loop n hs q0 x1 of
            None \<Rightarrow> None
          | Some (hs1, q, x2) \<Rightarrow>
              if local_q \<ge> n then
                loop P n local_q (hs1[q := lh_unlock (hs1 ! q)]) q x2 k es
              else
                let batch = take chunk_size es;
                    H = foldl (lh_push P) (hs1 ! q) batch
                in loop P n local_q (hs1[q := lh_unlock (store_size (store_min H))]) q x2
                     (k + length batch) (drop chunk_size es))) = Some r \<Longrightarrow>
      Q P n local_q hs q x k es r"
  shows "Q P n local_q hs q x k es r"
proof (rule amq_push_loop.raw_induct
    [of Q "(((((((P, n), local_q), hs), q), x), k), es)" r, unfolded prod.case, OF _ assms(1)],
    goal_cases)
  case (1 loop)
  show ?case by (rule assms(2) [of loop]) (use 1 in blast)+
qed

lemma amq_push_loop_stale:
  assumes "amq_push_loop P n local_q hs q x k es = Some r" "n \<le> local_q"
  shows "es = []"
proof -
  have "n \<le> local_q \<longrightarrow> es = []"
    using assms(1)
  proof (induction rule: amq_push_loop_induct)
    case (step loop P n local_q hs q x k es r)
    show ?case
      using step(1) step(2) by (auto split: if_splits prod.splits option.splits)
  qed
  with assms(2) show ?thesis by simp
qed

section \<open>Pop\<close>

lemma lh_getMin_Some:
  assumes "strict_weak_order (amq_compare P)" "DAryHeap_ok (amq_compare P) 4 (lh_heap H)"
    and "lh_getMin P H = Some (m, H1)"
  shows "DAryHeap_ok (amq_compare P) 4 (lh_heap H1)" "lh_tasks H = add_mset m (lh_tasks H1)"
    "\<forall>y \<in># lh_tasks H. \<not> amq_compare P m y" "lh_locked H1 = lh_locked H"
proof -
  obtain h where ex: "extract_root (amq_compare P) 4 (heap (lh_heap H)) = Some (m, h)"
    and H1: "H1 = H\<lparr>lh_heap := (lh_heap H)\<lparr>heap := h\<rparr>\<rparr>"
    using assms(3) by (auto simp: lh_getMin_def DAryHeap_extractMin_def)
  have heap: "is_heap (amq_compare P) 4 (heap (lh_heap H))"
    using assms(2) by (simp add: DAryHeap_ok_def)
  show "DAryHeap_ok (amq_compare P) 4 (lh_heap H1)"
    using extract_root_heap [OF assms(1) _ heap ex] by (simp add: H1 DAryHeap_ok_def)
  show "lh_tasks H = add_mset m (lh_tasks H1)"
    using extract_root_mset [OF ex] by (simp add: lh_tasks_def H1)
  show "\<forall>y \<in># lh_tasks H. \<not> amq_compare P m y"
    using extract_root_min [OF assms(1) heap ex] by (simp add: lh_tasks_def)
  show "lh_locked H1 = lh_locked H" by (simp add: H1)
qed

lemma lh_getMin_None: "lh_getMin P H = None \<longleftrightarrow> heap (lh_heap H) = []"
  by (auto simp: lh_getMin_def DAryHeap_extractMin_def)

text \<open>\<open>served cmp xs m\<close>: \<open>xs\<close> in order, and none of it follows a task of \<open>m\<close>.\<close>

definition served :: "('a \<Rightarrow> 'a \<Rightarrow> bool) \<Rightarrow> 'a list \<Rightarrow> 'a multiset \<Rightarrow> bool" where
  "served cmp xs m \<longleftrightarrow> sorted_wrt (\<lambda>x y. \<not> cmp x y) xs \<and> (\<forall>x \<in> set xs. \<forall>y \<in># m. \<not> cmp x y)"

lemma served_Nil [simp]: "served cmp [] m"
  by (simp add: served_def)

lemma served_Cons:
  "served cmp (x # xs) m \<longleftrightarrow> served cmp xs m \<and> (\<forall>y \<in> set xs. \<not> cmp x y) \<and> (\<forall>y \<in># m. \<not> cmp x y)"
  by (auto simp: served_def)

lemma chunk_loop_served:
  assumes "strict_weak_order (amq_compare P)" "DAryHeap_ok (amq_compare P) 4 (lh_heap H)"
    and "chunk_loop P i H = (ms, H1)"
  shows "DAryHeap_ok (amq_compare P) 4 (lh_heap H1) \<and> lh_tasks H = mset ms + lh_tasks H1 \<and>
    served (amq_compare P) ms (lh_tasks H1) \<and> lh_locked H1 = lh_locked H"
  using assms(2,3)
proof (induction i arbitrary: H ms H1)
  case (Suc i)
  show ?case
  proof (cases "DAryHeap_size (lh_heap H) > 1 \<and> lh_getMin P H \<noteq> None")
    case False
    then have "chunk_loop P (Suc i) H = ([], H)" by (auto split: option.splits)
    with Suc.prems show ?thesis by simp
  next
    case True
    then obtain m H2 where m: "lh_getMin P H = Some (m, H2)" by auto
    obtain ms1 H3 where r: "chunk_loop P i H2 = (ms1, H3)" by fastforce
    have eq: "ms = m # ms1" "H1 = H3" using Suc.prems(2) True m r by auto
    note g = lh_getMin_Some [OF assms(1) Suc.prems(1) m]
    note IH = Suc.IH [OF g(1) r]
    have "\<forall>y \<in> set ms1. \<not> amq_compare P m y" "\<forall>y \<in># lh_tasks H3. \<not> amq_compare P m y"
      using g(2,3) IH by auto
    with IH g eq show ?thesis by (simp add: served_Cons)
  qed
qed simp

text \<open>What an extraction from heap \<open>H\<close> makes of it and of the thread's buffer.\<close>

definition lh_extracted ::
    "'a amq_cfg \<Rightarrow> 'a LockableHeap \<Rightarrow> 'a list \<Rightarrow> 'a \<Rightarrow> 'a list \<Rightarrow> 'a LockableHeap \<Rightarrow> bool" where
  "lh_extracted P H pv x pv1 H1 \<longleftrightarrow>
     lh_ok P H1 \<and> \<not> lh_locked H1 \<and>
     lh_tasks H + mset pv = add_mset x (lh_tasks H1 + mset pv1) \<and>
     (\<forall>y \<in># lh_tasks H. \<not> amq_compare P x y) \<and>
     (pv = [] \<longrightarrow> served (amq_compare P) (x # rev pv1) (lh_tasks H1)) \<and>
     (ChunkPop P = 0 \<longrightarrow> pv1 = pv)"

lemma amq_extract_min_Some:
  assumes "strict_weak_order (amq_compare P)" "DAryHeap_ok (amq_compare P) 4 (lh_heap H)"
    and "heap (lh_heap H) \<noteq> []" "ChunkPop P > 0 \<longrightarrow> pv = []"
  shows "\<exists>x pv1 H1. amq_extract_min P H pv = Some (x, pv1, H1) \<and> lh_extracted P H pv x pv1 H1"
proof -
  obtain x H1 where x: "lh_getMin P H = Some (x, H1)"
    using assms(3) lh_getMin_None [of P H] by fastforce
  note g = lh_getMin_Some [OF assms(1,2) x]
  obtain ms H2 where c: "(if ChunkPop P > 0 then chunk_loop P (ChunkPop P) H1 else ([], H1)) = (ms, H2)"
    by fastforce
  then have "chunk_loop P (ChunkPop P) H1 = (ms, H2)" by (cases "ChunkPop P > 0") simp_all
  note ch = chunk_loop_served [OF assms(1) g(1) this]
  let ?pv = "if ChunkPop P > 0 then rev (pv @ ms) else pv"
  let ?H = "lh_unlock (store_size (store_min H2))"
  have "amq_extract_min P H pv = Some (x, ?pv, ?H)"
    using x c by (cases "ChunkPop P > 0") (simp_all add: amq_extract_min_def)
  moreover have "lh_extracted P H pv x ?pv ?H"
  proof -
    have ms: "mset ?pv = mset pv + mset ms" "pv = [] \<longrightarrow> rev ?pv = ms"
      using c assms(4) by (cases "ChunkPop P > 0"; simp add: ac_simps)+
    have "lh_ok P ?H" using ch by (simp add: lh_ok_def lh_cached_def)
    moreover have "lh_tasks H + mset pv = add_mset x (lh_tasks ?H + mset ?pv)"
      using g(2) ch ms(1) by (simp add: lh_tasks_def ac_simps)
    moreover have "lh_tasks ?H = lh_tasks H2" by (simp add: lh_tasks_def)
    moreover have "served (amq_compare P) (x # ms) (lh_tasks H2)"
      using ch g(2,3) by (auto simp: served_Cons)
    ultimately show ?thesis using g(3) ms(2) by (simp add: lh_extracted_def)
  qed
  ultimately show ?thesis by blast
qed

lemma amq_choose_induct [consumes 1, case_names step]:
  assumes "amq_choose P n hs x = Some r"
    and "\<And>loop P n hs x r. (\<And>P n hs x r. loop P n hs x = Some r \<Longrightarrow> Q P n hs x r) \<Longrightarrow>
      (case rand_heap n x of (i_ind, x1) \<Rightarrow> case rand_heap n x1 of (j_ind, x2) \<Rightarrow>
        if i_ind = j_ind \<and> n > 1 then loop P n hs x2
        else case amq_try_lock_heap n hs (amq_better P hs i_ind j_ind) of (r, hs1) \<Rightarrow>
          if r then Some (hs1, amq_better P hs i_ind j_ind, x2) else loop P n hs1 x2) = Some r \<Longrightarrow>
      Q P n hs x r"
  shows "Q P n hs x r"
proof (rule amq_choose.raw_induct [of Q "(((P, n), hs), x)" r,
    unfolded prod.case, OF _ assms(1)], goal_cases)
  case (1 loop)
  show ?case by (rule assms(2) [of loop]) (use 1 in blast)+
qed

text \<open>What the searches of \<open>pop\<close> return: heap \<open>k\<close>, in use and now locked.\<close>

definition now_locked :: "nat \<Rightarrow> 'a LockableHeap list \<Rightarrow> nat \<Rightarrow> 'a LockableHeap list \<Rightarrow> bool" where
  "now_locked n hs k hs1 \<longleftrightarrow> k < n \<and> \<not> lh_locked (hs ! k) \<and> hs1 = lh_locked_at hs k"

lemma amq_better_in: "amq_better P hs i j \<in> {i, j}"
  by (simp add: amq_better_def)

lemma amq_choose_Some:
  assumes "amq_choose P n hs x = Some (hs1, k, x1)" "0 < n" "n \<le> length hs"
  shows "now_locked n hs k hs1"
proof -
  have "0 < n \<longrightarrow> n \<le> length hs \<longrightarrow> now_locked n hs (fst (snd r)) (fst r)"
    if "amq_choose P n hs x = Some r" for r
    using that
  proof (induction rule: amq_choose_induct)
    case (step loop P n hs x r)
    obtain i y1 where d1: "rand_heap n x = (i, y1)" by fastforce
    obtain j y2 where d2: "rand_heap n y1 = (j, y2)" by fastforce
    let ?k = "amq_better P hs i j"
    show ?case
    proof (intro impI)
      assume n: "0 < n" "n \<le> length hs"
      have "?k < n"
        using amq_better_in [of P hs i j] draws_belowD [OF rand_heap_below [OF n(1)] d1]
          draws_belowD [OF rand_heap_below [OF n(1)] d2] by auto
      then have k: "?k < n" "?k < length hs" using n(2) by auto
      obtain b hs1 where t: "amq_try_lock_heap n hs ?k = (b, hs1)" by fastforce
      show "now_locked n hs (fst (snd r)) (fst r)"
      proof (cases "i = j \<and> n > 1 \<or> \<not> b")
        case True
        with t have "loop P n hs y2 = Some r"
          using step(2) d1 d2 try_lock_heap_cases [OF k, of b hs1] by (auto split: if_splits)
        with step(1) n show ?thesis by blast
      next
        case False
        with step(2) d1 d2 t have r: "r = (hs1, ?k, y2)" by (auto split: if_splits)
        with False t k try_lock_heap_cases [OF k, of b hs1] show ?thesis
          by (auto simp: now_locked_def split: if_splits)
      qed
    qed
  qed
  with assms show ?thesis by fastforce
qed

lemma now_locked_unlock:
  assumes "now_locked n hs k hs1" "n \<le> length hs"
  shows "hs1[k := lh_unlock (hs1 ! k)] = hs" "lh_heap (hs1 ! k) = lh_heap (hs ! k)"
  using assms by (simp_all add: now_locked_def)

lemma amq_attempts_Some:
  assumes "amq_attempts P n m hs k0 x = Some (hs1, found, k, x1)" "0 < n" "n \<le> length hs"
  shows "if found then now_locked n hs k hs1 \<and> heap (lh_heap (hs ! k)) \<noteq> []
    else hs1 = hs \<and> (0 < m \<longrightarrow> k < n \<and> heap (lh_heap (hs ! k)) = [])"
  using assms(1)
proof (induction m arbitrary: k0 x)
  case (Suc m)
  from Suc.prems obtain hs2 k2 x2 where c: "amq_choose P n hs x = Some (hs2, k2, x2)"
    by (auto split: option.splits)
  note l = amq_choose_Some [OF c assms(2,3)]
  note u = now_locked_unlock [OF l assms(3)]
  show ?case
  proof (cases "heap (lh_heap (hs ! k2)) = []")
    case False
    with Suc.prems c u l show ?thesis by (auto simp: DAryHeap_size_def)
  next
    case True
    with Suc.prems c u have r: "amq_attempts P n m hs k2 x2 = Some (hs1, found, k, x1)"
      by (simp add: DAryHeap_size_def)
    show ?thesis
    proof (cases m)
      case 0
      with r True l show ?thesis by (auto simp: now_locked_def)
    next
      case (Suc _)
      with Suc.IH [OF r] show ?thesis by simp
    qed
  qed
qed auto

lemma amq_scan_Some:
  assumes "n \<le> length hs" "set ks \<subseteq> {..<n}" "amq_scan k0 hs ks = (hs1, r)"
  shows "case r of Some k \<Rightarrow> now_locked n hs k hs1 \<and> heap (lh_heap (hs ! k)) \<noteq> []
    | None \<Rightarrow> hs1 = hs \<and> (\<forall>k \<in> set ks. k = k0 \<or> lh_size (hs ! k) = 0 \<or> lh_locked (hs ! k) \<or>
        heap (lh_heap (hs ! k)) = [])"
  using assms(2,3)
proof (induction ks)
  case (Cons k ks)
  have k: "k < n" "k < length hs" using Cons.prems(1) assms(1) by auto
  note IH = Cons.IH [OF _ _]
  show ?case
  proof (cases "k = k0 \<or> lh_size (hs ! k) = 0 \<or> lh_locked (hs ! k)")
    case True
    then have "amq_scan k0 hs ks = (hs1, r)"
      using Cons.prems(2) by (auto simp: my_try_lock_at_cases split: prod.splits if_splits)
    with Cons True show ?thesis by (auto split: option.splits)
  next
    case False
    then obtain hs2 where t: "my_try_lock_at hs k = (True, hs2)" "hs2 = lh_locked_at hs k"
      by (simp add: my_try_lock_at_cases)
    with False k have l: "now_locked n hs k hs2" by (simp add: now_locked_def)
    note u = now_locked_unlock [OF l assms(1)]
    show ?thesis
    proof (cases "heap (lh_heap (hs ! k)) = []")
      case True
      with False Cons.prems(2) t(1) u have "amq_scan k0 hs ks = (hs1, r)"
        by (auto simp: DAryHeap_size_def)
      with Cons True show ?thesis by (auto split: option.splits)
    next
      case nonempty: False
      with False Cons.prems(2) t(1) u l show ?thesis by (auto simp: DAryHeap_size_def)
    qed
  qed
qed simp

lemma amq_try_local_Some:
  assumes "amq_try_local P n hs q change = (hs1, found)" "n \<le> length hs"
  shows "if found then now_locked n hs q hs1 \<and> heap (lh_heap (hs ! q)) \<noteq> [] else hs1 = hs"
proof (cases "q < n \<and> change \<ge> PopP P * (if ChunkPop P > 0 then ChunkPop P + 1 else 1) \<and>
    (ChunkPop P > 0 \<longrightarrow> lh_size (hs ! q) \<noteq> 0)")
  case False
  then have "amq_try_local P n hs q change = (hs, False)" unfolding amq_try_local_def by (rule if_not_P)
  with assms(1) show ?thesis by simp
next
  case True
  then have q: "q < n" "q < length hs" using assms(2) by auto
  obtain r hs2 where t: "amq_try_lock_heap n hs q = (r, hs2)" by fastforce
  have res: "amq_try_local P n hs q change =
      (if r then if DAryHeap_size (lh_heap (hs2 ! q)) \<noteq> 0 then (hs2, True)
         else (hs2[q := lh_unlock (hs2 ! q)], False) else (hs2, False))"
    unfolding amq_try_local_def if_P [OF True] t by simp
  have tc: "if lh_locked (hs ! q) then \<not> r \<and> hs2 = hs else r \<and> hs2 = lh_locked_at hs q"
    using t try_lock_heap_cases [OF q] by blast
  show ?thesis
  proof (cases r)
    case False
    with res tc assms(1) show ?thesis by (auto split: if_splits)
  next
    case True
    with tc q have l: "now_locked n hs q hs2" by (auto simp: now_locked_def split: if_splits)
    from res True l assms(1) now_locked_unlock [OF l assms(2)] show ?thesis
      by (auto simp: DAryHeap_size_def split: if_splits)
  qed
qed

lemma amq_return_Some:
  assumes "strict_weak_order (amq_compare P)" "lhs_ok P n hs" "now_locked n hs k hs1"
    and "heap (lh_heap (hs ! k)) \<noteq> []" "ChunkPop P > 0 \<longrightarrow> popped_v t = []"
  shows "\<exists>x pv H. amq_return P s t hs1 k = Some (Some x, s\<lparr>amq_heaps := hs[k := H]\<rparr>, t\<lparr>popped_v := pv\<rparr>) \<and>
    lh_extracted P (hs ! k) (popped_v t) x pv H"
proof -
  have k: "k < n" "k < length hs" "hs1 = lh_locked_at hs k"
    using assms(2,3) by (auto simp: now_locked_def lhs_ok_def)
  have "DAryHeap_ok (amq_compare P) 4 (lh_heap (hs1 ! k))" "heap (lh_heap (hs1 ! k)) \<noteq> []"
    using k assms(4) lhs_ok_nth [OF assms(2) k(1)] by simp_all
  from amq_extract_min_Some [OF assms(1) this assms(5)] obtain x pv H
    where e: "amq_extract_min P (hs1 ! k) (popped_v t) = Some (x, pv, H)"
      "lh_extracted P (hs1 ! k) (popped_v t) x pv H" by blast
  then have "lh_extracted P (hs ! k) (popped_v t) x pv H"
    using k by (simp add: lh_extracted_def lh_tasks_def)
  with e(1) k show ?thesis by (auto simp: amq_return_def)
qed

text \<open>What \<open>pop\<close> does, in terms of the heap \<open>k\<close> it takes a task from.\<close>

definition amq_popped ::
    "'a amq_cfg \<Rightarrow> 'a AdaptiveMQ \<Rightarrow> 'a list \<Rightarrow> 'a \<Rightarrow> 'a AdaptiveMQ \<Rightarrow> 'a list \<Rightarrow> bool" where
  "amq_popped P s pv x s' pv1 \<longleftrightarrow>
     (\<exists>k < nQ s. \<exists>H. s' = s\<lparr>amq_heaps := (amq_heaps s)[k := H]\<rparr> \<and> \<not> lh_locked (amq_heaps s ! k) \<and>
        lh_extracted P (amq_heaps s ! k) pv x pv1 H)"

lemma amq_popped_of:
  assumes "strict_weak_order (amq_compare P)" "lhs_ok P (nQ s) (amq_heaps s)"
    and "now_locked (nQ s) (amq_heaps s) k hs1" "heap (lh_heap (amq_heaps s ! k)) \<noteq> []"
    and "ChunkPop P > 0 \<longrightarrow> popped_v t = []" "amq_return P s t hs1 k = Some (r, s', t')"
  shows "\<exists>x. r = Some x \<and> amq_popped P s (popped_v t) x s' (popped_v t')"
proof -
  from amq_return_Some [OF assms(1-5), of s] assms(6) obtain x pv H
    where "r = Some x" "s' = s\<lparr>amq_heaps := (amq_heaps s)[k := H]\<rparr>" "t' = t\<lparr>popped_v := pv\<rparr>"
      "lh_extracted P (amq_heaps s ! k) (popped_v t) x pv H"
    by auto
  moreover have "k < nQ s" "\<not> lh_locked (amq_heaps s ! k)" using assms(3) by (simp_all add: now_locked_def)
  ultimately show ?thesis unfolding amq_popped_def by fastforce
qed

lemma amq_pop_cases:
  assumes "strict_weak_order (amq_compare P)" "lhs_ok P (nQ s) (amq_heaps s)"
    and "amq_pop P s t = Some (r, s', t')"
  shows "(ChunkPop P > 0 \<and> popped_v t \<noteq> [] \<and> r = Some (last (popped_v t)) \<and> s' = s \<and>
      popped_v t' = butlast (popped_v t)) \<or>
    (\<exists>x. (ChunkPop P > 0 \<longrightarrow> popped_v t = []) \<and> r = Some x \<and> amq_popped P s (popped_v t) x s' (popped_v t')) \<or>
    (r = None \<and> s' = s \<and> popped_v t' = popped_v t \<and>
      (\<forall>k < nQ s. lh_size (amq_heaps s ! k) = 0 \<or> lh_locked (amq_heaps s ! k) \<or>
        heap (lh_heap (amq_heaps s ! k)) = []))"
proof (cases "ChunkPop P > 0 \<and> popped_v t \<noteq> []")
  case True
  with assms(3) show ?thesis by (auto simp: amq_pop_def)
next
  case False
  let ?n = "nQ s" and ?hs = "amq_heaps s"
  have n: "0 < ?n" "?n \<le> length ?hs" using assms(2) by (simp_all add: lhs_ok_def)
  have buf: "ChunkPop P > 0 \<longrightarrow> popped_v (t\<lparr>amq_rng := y, amq_pop_q := z\<rparr>) = []" for y z
    using False by auto
  note popped = amq_popped_of [OF assms(1,2) _ _ buf]
  obtain q x0 where q: "init_local_q (rand_heap ?n) (amq_pop_q t) (amq_rng t) = (q, x0)" by fastforce
  obtain u x1 where u: "random x0 = (u, x1)" by fastforce
  obtain hs1 found where l: "amq_try_local P ?n ?hs q (remainder u (PopQ P)) = (hs1, found)" by fastforce
  note lc = amq_try_local_Some [OF l n(2)]
  note unf = assms(3) [unfolded amq_pop_def if_not_P [OF False] q prod.case u l]
  show ?thesis
  proof (cases found)
    case True
    then have "amq_return P s (t\<lparr>amq_rng := x1, amq_pop_q := Some q\<rparr>) hs1 q = Some (r, s', t')"
      using unf by simp
    from popped [OF _ _ this] lc True False show ?thesis by auto
  next
    case notlocal: False
    then have hs1: "hs1 = ?hs" using lc by simp
    obtain hs2 found2 k x2 where a: "amq_attempts P ?n (RANDOM_ATTEMPTS P) ?hs 0 x1 = Some (hs2, found2, k, x2)"
      using unf notlocal hs1 by (auto split: option.splits)
    note ac = amq_attempts_Some [OF a n]
    show ?thesis
    proof (cases found2)
      case True
      then have "amq_return P s (t\<lparr>amq_rng := x2, amq_pop_q := Some k\<rparr>) hs2 k = Some (r, s', t')"
        using unf notlocal hs1 a by simp
      from popped [OF _ _ this] ac True False show ?thesis by auto
    next
      case notrandom: False
      then have hs2: "hs2 = ?hs" "heap (lh_heap (?hs ! k)) = []"
        using ac by (simp_all add: RANDOM_ATTEMPTS_def split: if_splits)
      obtain hs3 r3 where sc: "amq_scan k ?hs [0..<?n] = (hs3, r3)" by fastforce
      have "set [0..<?n] \<subseteq> {..<?n}" by auto
      note sk = amq_scan_Some [OF n(2) this sc]
      show ?thesis
      proof (cases r3)
        case (Some k1)
        then have "amq_return P s (t\<lparr>amq_rng := x2, amq_pop_q := Some k1\<rparr>) hs3 k1 = Some (r, s', t')"
          using unf notlocal hs1 a notrandom hs2 sc by simp
        from popped [OF _ _ this] sk Some False show ?thesis by auto
      next
        case None
        then have "r = None" "s' = s\<lparr>amq_heaps := hs3\<rparr>" "popped_v t' = popped_v t"
          using unf notlocal hs1 a notrandom hs2 sc by auto
        with sk None hs2(2) show ?thesis by auto
      qed
    qed
  qed
qed

lemma amq_popped_bag:
  assumes "amq_ok P s" "amq_popped P s pv x s' pv1"
  shows "amq_ok P s'" "lh_kept (amq_heaps s) (amq_heaps s')"
    "amq_bag s + mset pv = add_mset x (amq_bag s' + mset pv1)"
proof -
  obtain k H where k: "k < nQ s" "s' = s\<lparr>amq_heaps := (amq_heaps s)[k := H]\<rparr>"
      "\<not> lh_locked (amq_heaps s ! k)" "lh_extracted P (amq_heaps s ! k) pv x pv1 H"
    using assms(2) by (auto simp: amq_popped_def)
  then have H: "lh_ok P H" "\<not> lh_locked H"
      "lh_tasks (amq_heaps s ! k) + mset pv = add_mset x (lh_tasks H + mset pv1)"
    by (auto simp: lh_extracted_def)
  have ok: "lhs_ok P (nQ s) (amq_heaps s)" using assms(1) by (simp add: amq_ok_def)
  note sec = lh_section [OF ok k(1,3) H(2,1)]
  then show "amq_ok P s'" "lh_kept (amq_heaps s) (amq_heaps s')"
    using assms(1) by (simp_all add: k(2) amq_ok_def)
  have "amq_bag s' + lh_tasks (amq_heaps s ! k) = amq_bag s + lh_tasks H"
    using sec(3) by (simp add: k(2) amq_bag_def)
  then have "amq_bag s + mset pv + lh_tasks H = add_mset x (amq_bag s' + mset pv1) + lh_tasks H"
    using H(3) by (metis add.assoc add.commute union_mset_add_mset_left)
  then show "amq_bag s + mset pv = add_mset x (amq_bag s' + mset pv1)" by simp
qed

text \<open>Nothing found and no lock held: a task can only be in a queue whose recorded size is 0.\<close>

definition sizes_recorded :: "'a LockableHeap list \<Rightarrow> bool" where
  "sizes_recorded hs \<longleftrightarrow> (\<forall>H \<in> set hs. lh_size H = length (heap (lh_heap H)))"

lemma amq_all_empty:
  assumes "lhs_ok P n hs" "\<forall>H \<in> set hs. \<not> lh_locked H"
    and "\<forall>k < n. lh_size (hs ! k) = 0 \<or> lh_locked (hs ! k) \<or> heap (lh_heap (hs ! k)) = []"
  shows "\<forall>H \<in> set hs. lh_size H = 0 \<or> lh_tasks H = {#}" "sizes_recorded hs \<Longrightarrow> bags lh_tasks hs = {#}"
proof -
  show all: "\<forall>H \<in> set hs. lh_size H = 0 \<or> lh_tasks H = {#}"
  proof
    fix H
    assume "H \<in> set hs"
    then obtain i where i: "i < length hs" "H = hs ! i" by (metis in_set_conv_nth)
    have "n \<le> i \<longrightarrow> heap (lh_heap (hs ! i)) = []" using assms(1) i(1) by (simp add: lhs_ok_def)
    then show "lh_size H = 0 \<or> lh_tasks H = {#}"
      using assms(2,3) i by (cases "i < n") (auto simp: lh_tasks_def)
  qed
  assume "sizes_recorded hs"
  with all have "lh_tasks (hs ! i) = {#}" if "i < length hs" for i
    using that by (fastforce simp: sizes_recorded_def lh_tasks_def)
  then have "x \<notin># bags lh_tasks hs" for x by (simp add: in_bags_iff)
  then show "bags lh_tasks hs = {#}" by (simp add: multiset_eq_iff count_eq_zero_iff)
qed

section \<open>Changing the number of queues\<close>

lemma smallest_loop_in: "smallest_loop d z hs is \<in> insert d (set is)"
  by (induction d z hs "is" rule: smallest_loop.induct) auto

lemma largest_loop_in: "largest_loop d z hs is \<in> insert d (set is)"
  by (induction d z hs "is" rule: largest_loop.induct) auto

lemma cached_after: "lh_cached (lh_unlock (store_min (store_size H)))"
  by (simp add: lh_cached_def)

lemma lh_lock_Some: "lh_lock H = Some H1 \<longleftrightarrow> \<not> lh_locked H \<and> H1 = H\<lparr>lh_locked := True\<rparr>"
  by (auto simp: lh_lock_def)

lemma merge_heaps_ok:
  assumes "strict_weak_order (amq_compare P)" "DAryHeap_ok (amq_compare P) 4 (lh_heap A)"
    and "merge_heaps P A B = (A', B')"
  shows "lh_ok P A'" "\<not> lh_locked A'" "lh_ok P B'" "\<not> lh_locked B'" "lh_tasks B' = {#}"
    "lh_tasks A' = lh_tasks A + lh_tasks B"
proof -
  obtain h h0 where p: "pushAllAndClear (amq_compare P) 4 (lh_heap A) (lh_heap B) = (h, h0)" by fastforce
  note pc = pushAllAndClear_correct [OF assms(1,2) p]
  have eq: "A' = lh_unlock (store_min (store_size (A\<lparr>lh_heap := h\<rparr>)))"
    "B' = lh_unlock (B\<lparr>lh_heap := h0, lh_size := 0\<rparr>)"
    using assms(3) p by (simp_all add: merge_heaps_def)
  show "lh_ok P A'" "\<not> lh_locked A'" "lh_ok P B'" "\<not> lh_locked B'" "lh_tasks B' = {#}"
    "lh_tasks A' = lh_tasks A + lh_tasks B"
    using pc cached_after [of "A\<lparr>lh_heap := h\<rparr>"]
    by (simp_all add: eq lh_ok_def lh_tasks_def lh_cached_def DAryHeap_ok_def)
qed

lemma split_heap_ok:
  assumes "strict_weak_order (amq_compare P)" "split_heap P A B = (A', B')"
  shows "lh_ok P A'" "\<not> lh_locked A'" "lh_ok P B'" "\<not> lh_locked B'"
    "lh_tasks A' + lh_tasks B' = lh_tasks A + lh_tasks B"
proof -
  obtain h h1 where d: "divideElems (amq_compare P) 4 (lh_heap A) (lh_heap B) = (h, h1)" by fastforce
  note dc = divideElems_correct [OF assms(1) _ d]
  have eq: "A' = lh_unlock (store_min (store_size (A\<lparr>lh_heap := h\<rparr>)))"
    "B' = lh_unlock (store_min (store_size (B\<lparr>lh_heap := h1\<rparr>)))"
    using assms(2) d by (simp_all add: split_heap_def)
  show "lh_ok P A'" "\<not> lh_locked A'" "lh_ok P B'" "\<not> lh_locked B'"
    "lh_tasks A' + lh_tasks B' = lh_tasks A + lh_tasks B"
    using dc cached_after [of "A\<lparr>lh_heap := h\<rparr>"] cached_after [of "B\<lparr>lh_heap := h1\<rparr>"]
    by (simp_all add: eq lh_ok_def lh_tasks_def)
qed

text \<open>Two heaps replaced at once, the second being the last in use before or after.\<close>

lemma two_sections:
  assumes "lhs_ok P n hs" "i < n" "i \<noteq> j" "j < length hs" "\<not> lh_locked (hs ! i)" "\<not> lh_locked (hs ! j)"
    and "lh_ok P A" "\<not> lh_locked A" "lh_ok P B" "\<not> lh_locked B"
    and "lh_tasks A + lh_tasks B = lh_tasks (hs ! i) + lh_tasks (hs ! j)"
    and "0 < m" "i < m" "m \<le> length hs" "\<forall>k < length hs. m \<le> k \<longrightarrow> (n \<le> k \<and> k \<noteq> j) \<or> (k = j \<and> lh_tasks B = {#})"
  shows "lhs_ok P m (hs[i := A, j := B]) \<and> lh_kept hs (hs[i := A, j := B]) \<and>
    bags lh_tasks (hs[i := A, j := B]) = bags lh_tasks hs"
proof (intro conjI)
  have i: "i < length hs" using assms(1,2) by (simp add: lhs_ok_def)
  have "lh_ok P (hs[i := A, j := B] ! k)" if "k < length hs" for k
    using assms(1,3,4,7,9) i that by (cases "k = j"; cases "k = i") (auto simp: lhs_ok_def)
  moreover have "heap (lh_heap (hs[i := A, j := B] ! k)) = []" if "k < length hs" "m \<le> k" for k
    using assms(1,13,15) that assms(3,4) by (cases "k = j") (auto simp: lhs_ok_def lh_tasks_def)
  ultimately show "lhs_ok P m (hs[i := A, j := B])" using assms(12,14) by (simp add: lhs_ok_def)
  have "lh_kept hs (hs[i := A])" by (rule lh_kept_update [OF i assms(5,8)])
  moreover have "lh_kept (hs[i := A]) (hs[i := A, j := B])"
    using assms(3,4,6,10) by (intro lh_kept_update) simp_all
  ultimately show "lh_kept hs (hs[i := A, j := B])" by (rule lh_kept_trans)
  have "bags lh_tasks (hs[i := A]) + lh_tasks (hs ! i) = bags lh_tasks hs + lh_tasks A"
    by (rule bags_update [OF i])
  moreover have "bags lh_tasks (hs[i := A, j := B]) + lh_tasks (hs ! j) = bags lh_tasks (hs[i := A]) + lh_tasks B"
    using bags_update [of j "hs[i := A]" lh_tasks B] assms(3,4) by simp
  ultimately have "bags lh_tasks (hs[i := A, j := B]) + (lh_tasks (hs ! i) + lh_tasks (hs ! j)) =
      bags lh_tasks hs + (lh_tasks A + lh_tasks B)"
    by (metis (no_types, lifting) add.assoc add.commute)
  then show "bags lh_tasks (hs[i := A, j := B]) = bags lh_tasks hs" using assms(11) by simp
qed

text \<open>\<open>adapted\<close>: the number of queues changed and nothing else that matters.\<close>

definition adapted :: "'a amq_cfg \<Rightarrow> 'a AdaptiveMQ \<Rightarrow> 'a AdaptiveMQ \<Rightarrow> bool" where
  "adapted P s s' \<longleftrightarrow> amq_ok P s' \<and> amq_bag s' = amq_bag s \<and>
     lh_kept (amq_heaps s) (amq_heaps s') \<and> maxQNum s' = maxQNum s"

lemma deleteQueue_adapted:
  assumes swo: "strict_weak_order (amq_compare P)" and ok: "amq_ok P s"
    and s': "deleteQueue P e s = Some s'"
  shows "adapted P s s' \<and>
    nQ s' = (if adaptLock s \<or> nQ s = 1 \<or> e \<noteq> nQ s then nQ s else nQ s - 1)"
proof (cases "adaptLock s \<or> nQ s = 1 \<or> e \<noteq> nQ s")
  case True
  then have "s' = s\<lparr>wantedToDelete := wantedToDelete s + 1\<rparr>"
    using s' by (auto simp: deleteQueue_def Let_def split: if_splits)
  with True ok show ?thesis by (simp add: adapted_def amq_ok_def amq_bag_def)
next
  case False
  let ?hs = "amq_heaps s" and ?i = "smallest_loop 0 SIZE_MAX (amq_heaps s) [0..<nQ s - 1]" and ?j = "nQ s - 1"
  have lhs: "lhs_ok P (nQ s) ?hs" using ok by (simp add: amq_ok_def)
  then have n: "1 < nQ s" "nQ s \<le> length ?hs" using False by (auto simp: lhs_ok_def)
  have i: "?i < ?j" using smallest_loop_in [of 0 SIZE_MAX ?hs "[0..<?j]"] n by auto
  obtain A B where locks: "\<not> lh_locked (?hs ! ?i)" "\<not> lh_locked (?hs ! ?j)"
    and m: "merge_heaps P ((?hs ! ?i)\<lparr>lh_locked := True\<rparr>) ((?hs ! ?j)\<lparr>lh_locked := True\<rparr>) = (A, B)"
    and s'': "s' = s\<lparr>wantedToDelete := wantedToDelete s + 1, amq_heaps := ?hs[?i := A, ?j := B],
        nQ := ?j, deletedQ := deletedQ s + 1, minNumQ := setMin (minNumQ s) ?j\<rparr>"
    using s' False
    by (auto simp: deleteQueue_def Let_def lh_lock_Some split: option.splits prod.splits)
  have "DAryHeap_ok (amq_compare P) 4 (lh_heap ((?hs ! ?i)\<lparr>lh_locked := True\<rparr>))"
    using lhs_ok_nth [OF lhs, of ?i] i by simp
  note mh = merge_heaps_ok [OF swo this m]
  have "lhs_ok P ?j (?hs[?i := A, ?j := B]) \<and> lh_kept ?hs (?hs[?i := A, ?j := B]) \<and>
      bags lh_tasks (?hs[?i := A, ?j := B]) = bags lh_tasks ?hs"
  proof (rule two_sections [OF lhs])
    show "lh_tasks A + lh_tasks B = lh_tasks (?hs ! ?i) + lh_tasks (?hs ! ?j)"
      using mh(5,6) by (simp add: lh_tasks_def)
    show "\<forall>k < length ?hs. ?j \<le> k \<longrightarrow> (nQ s \<le> k \<and> k \<noteq> ?j) \<or> (k = ?j \<and> lh_tasks B = {#})"
      using mh(5) n by auto
  qed (use i n locks mh in simp_all)
  with False ok show ?thesis by (simp add: adapted_def amq_ok_def amq_bag_def s'')
qed

lemma addQueue_adapted:
  assumes swo: "strict_weak_order (amq_compare P)" and ok: "amq_ok P s"
    and s': "addQueue P e s = Some s'"
  shows "adapted P s s' \<and>
    nQ s' = (if adaptLock s \<or> nQ s = maxQNum s \<or> e \<noteq> nQ s then nQ s else nQ s + 1)"
proof (cases "adaptLock s \<or> nQ s = maxQNum s \<or> e \<noteq> nQ s")
  case True
  then have "s' = s\<lparr>wantedToAdd := wantedToAdd s + 1\<rparr>"
    using s' by (auto simp: addQueue_def Let_def split: if_splits)
  with True ok show ?thesis by (simp add: adapted_def amq_ok_def amq_bag_def)
next
  case False
  let ?hs = "amq_heaps s" and ?i = "largest_loop 0 0 (amq_heaps s) [0..<nQ s]" and ?j = "nQ s"
  have lhs: "lhs_ok P (nQ s) ?hs" using ok by (simp add: amq_ok_def)
  then have n: "0 < nQ s" "nQ s < length ?hs" using False ok by (auto simp: lhs_ok_def amq_ok_def)
  have i: "?i < ?j" using largest_loop_in [of 0 0 ?hs "[0..<?j]"] n by auto
  obtain A B where locks: "\<not> lh_locked (?hs ! ?i)" "\<not> lh_locked (?hs ! ?j)"
    and m: "split_heap P ((?hs ! ?i)\<lparr>lh_locked := True\<rparr>) ((?hs ! ?j)\<lparr>lh_locked := True\<rparr>) = (A, B)"
    and s'': "s' = s\<lparr>wantedToAdd := wantedToAdd s + 1, amq_heaps := ?hs[?i := A, ?j := B],
        nQ := ?j + 1, addedQ := addedQ s + 1, maxNumQ := setMax (maxNumQ s) (?j + 1)\<rparr>"
    using s' False
    by (auto simp: addQueue_def Let_def lh_lock_Some split: option.splits prod.splits)
  note sh = split_heap_ok [OF swo m]
  have "lhs_ok P (?j + 1) (?hs[?i := A, ?j := B]) \<and> lh_kept ?hs (?hs[?i := A, ?j := B]) \<and>
      bags lh_tasks (?hs[?i := A, ?j := B]) = bags lh_tasks ?hs"
  proof (rule two_sections [OF lhs])
    show "lh_tasks A + lh_tasks B = lh_tasks (?hs ! ?i) + lh_tasks (?hs ! ?j)"
      using sh(5) by (simp add: lh_tasks_def)
    show "\<forall>k < length ?hs. ?j + 1 \<le> k \<longrightarrow> (nQ s \<le> k \<and> k \<noteq> ?j) \<or> (k = ?j \<and> lh_tasks B = {#})"
      by auto
  qed (use i n locks sh in simp_all)
  with False ok show ?thesis by (simp add: adapted_def amq_ok_def amq_bag_def s'')
qed

lemma adapt_returns:
  assumes "lhs_ok P (nQ s) (amq_heaps s)" "maxQNum s = length (amq_heaps s)"
    and "\<forall>H \<in> set (amq_heaps s). \<not> lh_locked H"
  shows "\<exists>s'. deleteQueue P e s = Some s'" "\<exists>s'. addQueue P e s = Some s'"
proof -
  let ?hs = "amq_heaps s"
  have n: "0 < nQ s" "nQ s \<le> length ?hs" using assms(1) by (simp_all add: lhs_ok_def)
  have free: "k < length ?hs \<Longrightarrow> lh_lock (?hs ! k) = Some ((?hs ! k)\<lparr>lh_locked := True\<rparr>)" for k
    using assms(3) by (simp add: lh_lock_def)
  have "smallest_loop 0 SIZE_MAX ?hs [0..<nQ s - 1] < length ?hs"
    using smallest_loop_in [of 0 SIZE_MAX ?hs "[0..<nQ s - 1]"] n by auto
  from free [OF this] show "\<exists>s'. deleteQueue P e s = Some s'"
    using n free [of "nQ s - 1"] by (auto simp: deleteQueue_def Let_def split: prod.splits)
  have "largest_loop 0 0 ?hs [0..<nQ s] < length ?hs"
    using largest_loop_in [of 0 0 ?hs "[0..<nQ s]"] n by auto
  from free [OF this] show "\<exists>s'. addQueue P e s = Some s'"
    using n free [of "nQ s"] assms(2) by (auto simp: addQueue_def Let_def split: prod.splits)
qed

section \<open>When push and pop return\<close>

lemma amq_push_loop_returns:
  assumes "\<forall>H \<in> set hs. \<not> lh_locked H" "local_q < n" "n \<le> length hs"
  shows "\<exists>r. amq_push_loop P n local_q hs q x k es = Some r"
  using assms(1,3)
proof (induction "length es" arbitrary: hs q x k es rule: less_induct)
  case less
  show ?case
  proof (cases "es = []")
    case True
    then show ?thesis by (simp add: amq_push_loop.simps)
  next
    case False
    obtain q0 x1 where g: "get_push_local P n local_q x = (q0, x1)" by fastforce
    have q0: "q0 < n" using get_push_local_below [OF g] assms(2) by simp
    then have free: "\<not> lh_locked (hs ! q0)" using less.prems by simp
    let ?H = "lh_unlock (store_size (store_min
        (foldl (lh_push P) (lh_locked_at hs q0 ! q0) (take chunk_size es))))"
    have "\<forall>H \<in> set (hs[q0 := ?H]). \<not> lh_locked H"
      using less.prems(1) set_update_subset_insert [of hs q0 ?H] by auto
    moreover have "length (drop chunk_size es) < length es" using False by (simp add: chunk_size_def)
    ultimately have "\<exists>r. amq_push_loop P n local_q (hs[q0 := ?H]) q0 x1
        (k + length (take chunk_size es)) (drop chunk_size es) = Some r"
      by (intro less.hyps) (use less.prems(2) in simp_all)
    then show ?thesis
      using False g assms(2)
      by (simp add: amq_push_loop.simps [of P n local_q hs q x k es] amq_lock_loop_free [OF free] Let_def)
  qed
qed

lemma amq_choose_returns:
  assumes free: "\<forall>H \<in> set hs. \<not> lh_locked H" and n: "0 < n" "n \<le> length hs" and "x \<noteq> 0"
    and pair: "n > 1 \<longrightarrow> fst (pair_at (rand_heap n) x m) \<noteq> snd (pair_at (rand_heap n) x m)"
  shows "\<exists>hs1 k x1. amq_choose P n hs x = Some (hs1, k, x1) \<and> x1 \<noteq> 0"
  using assms(4,5)
proof (induction m arbitrary: x)
  case 0
  obtain i y1 where d1: "rand_heap n x = (i, y1)" by fastforce
  obtain j y2 where d2: "rand_heap n y1 = (j, y2)" by fastforce
  have y: "y1 \<noteq> 0" "y2 \<noteq> 0"
    using keeps_rngD [OF rand_heap_keeps d1] keeps_rngD [OF rand_heap_keeps d2] 0 by auto
  have "amq_better P hs i j < n"
    using amq_better_in [of P hs i j] draws_belowD [OF rand_heap_below [OF n(1)] d1]
      draws_belowD [OF rand_heap_below [OF n(1)] d2] by auto
  then have "amq_try_lock_heap n hs (amq_better P hs i j) = (True, lh_locked_at hs (amq_better P hs i j))"
    using free n(2) by (subst try_lock_heap_cases) auto
  with 0 d1 d2 y show ?case by (subst amq_choose.simps) auto
next
  case (Suc m)
  obtain i y1 where d1: "rand_heap n x = (i, y1)" by fastforce
  obtain j y2 where d2: "rand_heap n y1 = (j, y2)" by fastforce
  have y: "y1 \<noteq> 0" "y2 \<noteq> 0"
    using keeps_rngD [OF rand_heap_keeps d1] keeps_rngD [OF rand_heap_keeps d2] Suc.prems by auto
  have "amq_better P hs i j < n"
    using amq_better_in [of P hs i j] draws_belowD [OF rand_heap_below [OF n(1)] d1]
      draws_belowD [OF rand_heap_below [OF n(1)] d2] by auto
  then have t: "amq_try_lock_heap n hs (amq_better P hs i j) = (True, lh_locked_at hs (amq_better P hs i j))"
    using free n(2) by (subst try_lock_heap_cases) auto
  show ?case
  proof (cases "i = j \<and> n > 1")
    case True
    with d1 d2 have "amq_choose P n hs x = amq_choose P n hs y2"
      by (subst amq_choose.simps) simp
    moreover have "n > 1 \<longrightarrow> fst (pair_at (rand_heap n) y2 m) \<noteq> snd (pair_at (rand_heap n) y2 m)"
      using Suc.prems(2) d1 d2 by simp
    ultimately show ?thesis using Suc.IH y by simp
  next
    case False
    with d1 d2 t y show ?thesis by (subst amq_choose.simps) auto
  qed
qed

lemma amq_attempts_returns:
  assumes "\<forall>H \<in> set hs. \<not> lh_locked H" "0 < n" "n \<le> length hs" "x \<noteq> 0"
  shows "\<exists>r. amq_attempts P n m hs k0 x = Some r"
  using assms(4)
proof (induction m arbitrary: k0 x)
  case (Suc m)
  obtain m0 where "n > 1 \<longrightarrow> fst (pair_at (rand_heap n) x m0) \<noteq> snd (pair_at (rand_heap n) x m0)"
    using rand_heap_pairs [OF Suc.prems, of n] by blast
  from amq_choose_returns [OF assms(1-3) Suc.prems this] obtain hs1 k x1
    where c: "amq_choose P n hs x = Some (hs1, k, x1)" "x1 \<noteq> 0" by blast
  note l = amq_choose_Some [OF c(1) assms(2,3)]
  note u = now_locked_unlock [OF l assms(3)]
  show ?case using Suc.IH [OF c(2)] c(1) u by auto
qed (rule exI, rule amq_attempts.simps(1))

lemma amq_pop_returns:
  assumes "strict_weak_order (amq_compare P)" "lhs_ok P (nQ s) (amq_heaps s)"
    and free: "\<forall>H \<in> set (amq_heaps s). \<not> lh_locked H" and "amq_rng t \<noteq> 0"
  shows "\<exists>r. amq_pop P s t = Some r"
proof (cases "ChunkPop P > 0 \<and> popped_v t \<noteq> []")
  case True
  then show ?thesis by (simp add: amq_pop_def)
next
  case False
  let ?n = "nQ s" and ?hs = "amq_heaps s"
  have n: "0 < ?n" "?n \<le> length ?hs" using assms(2) by (simp_all add: lhs_ok_def)
  obtain q x0 where q: "init_local_q (rand_heap ?n) (amq_pop_q t) (amq_rng t) = (q, x0)" by fastforce
  obtain u x1 where u: "random x0 = (u, x1)" by fastforce
  have "x0 \<noteq> 0" by (rule init_local_q_keeps [OF rand_heap_keeps q assms(4)])
  then have x1: "x1 \<noteq> 0" using random_nonzero [of x0] u by auto
  obtain hs1 found where l: "amq_try_local P ?n ?hs q (remainder u (PopQ P)) = (hs1, found)" by fastforce
  note lc = amq_try_local_Some [OF l n(2)]
  have ret: "\<exists>r. amq_return P s (t\<lparr>amq_rng := y, amq_pop_q := z\<rparr>) hs2 k = Some r"
    if "now_locked ?n ?hs k hs2" "heap (lh_heap (?hs ! k)) \<noteq> []" for y z hs2 k
    using amq_return_Some [OF assms(1,2) that, of "t\<lparr>amq_rng := y, amq_pop_q := z\<rparr>" s] False by auto
  note unf = amq_pop_def [of P s t, unfolded if_not_P [OF False] q prod.case u l]
  show ?thesis
  proof (cases found)
    case True
    with lc ret unf show ?thesis by simp
  next
    case notlocal: False
    then have hs1: "hs1 = ?hs" using lc by simp
    obtain hs2 found2 k x2 where a: "amq_attempts P ?n (RANDOM_ATTEMPTS P) ?hs 0 x1 = Some (hs2, found2, k, x2)"
      using amq_attempts_returns [OF free n x1] by (metis prod_cases4)
    note ac = amq_attempts_Some [OF a n]
    obtain hs3 r3 where sc: "amq_scan k ?hs [0..<?n] = (hs3, r3)" by fastforce
    have "set [0..<?n] \<subseteq> {..<?n}" by auto
    note sk = amq_scan_Some [OF n(2) this sc]
    show ?thesis
      using unf notlocal hs1 a ac sk sc ret by (cases found2; cases r3) (auto split: if_splits)
  qed
qed

section \<open>Properties\<close>

text \<open>
  \<open>push\<close> of a range adds exactly the tasks given, counts them, touches no heap another
  thread has locked and keeps every heap in order with right \<open>min\<close> and \<open>size\<close>, provided the
  \<open>local_q\<close> of the thread is the index of a queue in use.
\<close>

theorem AdaptiveMQ_push_correct:
  assumes "strict_weak_order (amq_compare P)" "amq_ok P s"
    and "pred_option (\<lambda>q. q < nQ s) (amq_push_q t)" "amq_push P s t es = Some (s', t', n)"
  shows "amq_ok P s' \<and> lh_kept (amq_heaps s) (amq_heaps s') \<and> amq_bag s' = amq_bag s + mset es \<and>
    n = length es \<and> pred_option (\<lambda>q. q < nQ s') (amq_push_q t')"
proof -
  have n: "0 < nQ s" "lhs_ok P (nQ s) (amq_heaps s)" using assms(2) by (simp_all add: amq_ok_def lhs_ok_def)
  obtain q x where q: "init_local_q (rand_heap (nQ s)) (amq_push_q t) (amq_rng t) = (q, x)" by fastforce
  have "q < nQ s" by (rule init_local_q_below [OF rand_heap_below [OF n(1)] assms(3) q])
  moreover obtain hs q' x' where r: "amq_push_loop P (nQ s) q (amq_heaps s) 0 x 0 es = Some (hs, q', x', n)"
    and eq: "s' = s\<lparr>amq_heaps := hs\<rparr>" "t' = t\<lparr>amq_rng := x', amq_push_q := Some q'\<rparr>"
    using assms(4) q by (auto simp: amq_push_def split: option.splits)
  ultimately have p: "lhs_ok P (nQ s) hs \<and> lh_kept (amq_heaps s) hs \<and>
      bags lh_tasks hs = bags lh_tasks (amq_heaps s) + mset es \<and> n = 0 + length es \<and> (es \<noteq> [] \<longrightarrow> q' < nQ s)"
    using amq_push_loop_Some [OF assms(1) _ r n(2)] by blast
  have "q' < nQ s" using p n(1) r by (cases "es = []") (simp_all add: amq_push_loop.simps)
  with p assms(2) lh_kept_length [of "amq_heaps s" hs] show ?thesis
    by (simp add: eq amq_ok_def amq_bag_def)
qed

definition int_cfg :: "int amq_cfg" where
  "int_cfg = \<lparr>amq_compare = std_greater, nT = 1, PushP = 1, PushQ = 1, PopP = 1, PopQ = 1,
     ChunkPop = 2, initT = 0\<rparr>"

definition fresh_thread :: "int amq_thread" where
  "fresh_thread = \<lparr>amq_rng = 25, amq_push_q = None, amq_pop_q = None, popped_v = []\<rparr>"

definition three_tasks :: "int AdaptiveMQ" where
  "three_tasks =
     (AdaptiveMQ_init int_cfg 0)\<lparr>amq_heaps :=
        (amq_heaps (AdaptiveMQ_init int_cfg 0))[0 :=
           \<lparr>lh_heap = DAryHeap_init\<lparr>heap := [2, 3, 5]\<rparr>, lh_min = 2, lh_size = 3, lh_locked = False\<rparr>]\<rparr>"

lemma upt_four: "[0..<4] = [0, 1, 2, 3 :: nat]"
  by code_simp

lemma int_swo: "strict_weak_order (amq_compare int_cfg)"
  using std_greater.strict_weak_order_axioms by (simp add: int_cfg_def)

lemma three_tasks_ok:
  "amq_ok int_cfg three_tasks" "amq_bag three_tasks = {#2, 3, 5#}" "nQ three_tasks = 1"
  "\<forall>H \<in> set (amq_heaps three_tasks). \<not> lh_locked H"
proof -
  have n: "nT int_cfg = 1" by (simp add: int_cfg_def)
  have heaps: "amq_heaps three_tasks = \<lparr>lh_heap = DAryHeap_init\<lparr>heap := [2, 3, 5]\<rparr>, lh_min = 2, lh_size = 3,
      lh_locked = False\<rparr> # map (LockableHeap_init int_cfg) [1, 2, 3]"
    by (simp add: three_tasks_def AdaptiveMQ_init_def Let_def n upt_four)
  have h: "DAryHeap_ok std_greater 4 (DAryHeap_init\<lparr>heap := [2, 3, 5]\<rparr>)" by code_simp
  have i: "lh_ok int_cfg (LockableHeap_init int_cfg i)" "lh_tasks (LockableHeap_init int_cfg i) = {#}"
    "heap (lh_heap (LockableHeap_init int_cfg i)) = []" "\<not> lh_locked (LockableHeap_init int_cfg i)" for i
    using DAryHeap_init_ok [of std_greater 4]
    by (simp_all add: LockableHeap_init_def lh_ok_def lh_cached_def set_index_def DAryHeap_ok_def
        lh_tasks_def int_cfg_def)
  show "nQ three_tasks = 1" by (simp add: three_tasks_def AdaptiveMQ_init_def Let_def)
  moreover have "length (amq_heaps three_tasks) = 4" by (simp add: heaps)
  moreover have "maxQNum three_tasks = 4" by (simp add: three_tasks_def AdaptiveMQ_init_def Let_def n)
  moreover have "lh_ok int_cfg H" if "H \<in> set (amq_heaps three_tasks)" for H
    using that h i by (auto simp: heaps lh_ok_def lh_cached_def int_cfg_def)
  moreover have "heap (lh_heap (amq_heaps three_tasks ! k)) = []" if "1 \<le> k" "k < 4" for k
  proof -
    have "k = 1 \<or> k = 2 \<or> k = 3" using that by arith
    then show ?thesis using i by (auto simp: heaps)
  qed
  ultimately show "amq_ok int_cfg three_tasks" by (simp add: amq_ok_def lhs_ok_def)
  show "amq_bag three_tasks = {#2, 3, 5#}" "\<forall>H \<in> set (amq_heaps three_tasks). \<not> lh_locked H"
    using i by (simp_all add: amq_bag_def heaps lh_tasks_def add_mset_commute)
qed

lemma three_tasks_recorded: "sizes_recorded (amq_heaps three_tasks)"
  by (simp add: sizes_recorded_def three_tasks_def AdaptiveMQ_init_def Let_def int_cfg_def upt_four
      LockableHeap_init_def set_index_def)

theorem AdaptiveMQ_push_correct_witness:
  "\<exists>s' t' n. amq_push int_cfg three_tasks fresh_thread [4, 1] = Some (s', t', n) \<and>
     amq_bag s' = {#2, 3, 5, 4, 1#} \<and> n = 2"
proof -
  have q: "init_local_q (rand_heap 1) None 25 = (0, 6759192)" by code_simp
  have "length (amq_heaps three_tasks) \<ge> 1" using three_tasks_ok(1,3) by (simp add: amq_ok_def lhs_ok_def)
  from amq_push_loop_returns [OF three_tasks_ok(4) _ this, of 0 int_cfg 0 6759192 0 "[4, 1]"]
  obtain r where "amq_push_loop int_cfg 1 0 (amq_heaps three_tasks) 0 6759192 0 [4, 1] = Some r" by auto
  then obtain s' t' n where p: "amq_push int_cfg three_tasks fresh_thread [4, 1] = Some (s', t', n)"
    using q by (cases r) (simp add: amq_push_def three_tasks_ok(3) fresh_thread_def)
  from AdaptiveMQ_push_correct [OF int_swo three_tasks_ok(1) _ p] p three_tasks_ok(2)
  show ?thesis by (simp add: fresh_thread_def add_mset_commute)
qed

text \<open>
  A thread whose \<open>local_q\<close> is the index of a queue that is no longer in use never returns
  from \<open>push\<close> of a range that is not empty: the loop compares \<open>local_q\<close>, which it does not
  change, instead of the index of the heap it has locked.
\<close>

theorem AdaptiveMQ_push_stale:
  assumes "amq_push_q t = Some q" "nQ s \<le> q" "es \<noteq> []"
  shows "amq_push P s t es = None"
proof -
  have "amq_push_loop P (nQ s) q (amq_heaps s) 0 (amq_rng t) 0 es = None"
    using amq_push_loop_stale [of P "nQ s" q "amq_heaps s" 0 "amq_rng t" 0 es] assms(2,3)
    by (metis not_None_eq)
  then show ?thesis by (simp add: amq_push_def init_local_q_def assms(1))
qed

theorem AdaptiveMQ_push_stale_witness:
  "\<exists>s. deleteQueue int_cfg 2 (three_tasks\<lparr>nQ := 2\<rparr>) = Some s \<and> amq_bag s = amq_bag three_tasks \<and>
     amq_push int_cfg s (fresh_thread\<lparr>amq_push_q := Some 1\<rparr>) [4] = None"
proof -
  let ?s = "three_tasks\<lparr>nQ := 2\<rparr>"
  have ok: "amq_ok int_cfg ?s"
    using three_tasks_ok(1)
    by (auto simp: amq_ok_def lhs_ok_def three_tasks_def AdaptiveMQ_init_def int_cfg_def Let_def)
  from ok three_tasks_ok(4) obtain s where s: "deleteQueue int_cfg 2 ?s = Some s"
    using adapt_returns(1) [of int_cfg ?s 2] by (auto simp: amq_ok_def)
  from deleteQueue_adapted [OF int_swo ok s] have "nQ s = 1" "amq_bag s = amq_bag three_tasks"
    by (simp_all add: adapted_def three_tasks_def AdaptiveMQ_init_def Let_def amq_bag_def)
  with s AdaptiveMQ_push_stale [of "fresh_thread\<lparr>amq_push_q := Some 1\<rparr>" 1 s "[4]" int_cfg]
  show ?thesis by simp
qed

text \<open>
  C20: \<open>pop\<close> serves the rest of the last chunk in order; else it takes a minimum of one heap,
  with the next \<open>ChunkPop\<close> smallest in order for the later calls. It loses and copies nothing. It returns nothing
  only when it has seen no task: where no other thread holds a lock, every queue is then empty or has the recorded
  size 0, which \<open>push\<close> of one value leaves behind in an empty queue; where the sizes are recorded, as the other
  operations do, all queues are empty.
\<close>

theorem AdaptiveMQ_pop_correct:
  assumes "strict_weak_order (amq_compare P)" "amq_ok P s" "amq_pop P s t = Some (r, s', t')"
  shows "case r of
      None \<Rightarrow> s' = s \<and> popped_v t' = popped_v t \<and>
        ((\<forall>H \<in> set (amq_heaps s). \<not> lh_locked H) \<longrightarrow>
           (\<forall>H \<in> set (amq_heaps s). lh_size H = 0 \<or> lh_tasks H = {#}) \<and>
           (sizes_recorded (amq_heaps s) \<longrightarrow> amq_bag s = {#}))
    | Some x \<Rightarrow> amq_ok P s' \<and> lh_kept (amq_heaps s) (amq_heaps s') \<and>
        amq_bag s + mset (popped_v t) = add_mset x (amq_bag s' + mset (popped_v t')) \<and>
        (if ChunkPop P > 0 \<and> popped_v t \<noteq> [] then s' = s \<and> popped_v t = popped_v t' @ [x]
         else \<exists>k < nQ s. (\<forall>y \<in># lh_tasks (amq_heaps s ! k). \<not> amq_compare P x y) \<and>
           (popped_v t = [] \<longrightarrow>
             served (amq_compare P) (x # rev (popped_v t')) (lh_tasks (amq_heaps s' ! k))))"
proof -
  have lhs: "lhs_ok P (nQ s) (amq_heaps s)" using assms(2) by (simp add: amq_ok_def)
  from amq_pop_cases [OF assms(1) lhs assms(3)] show ?thesis
  proof (elim disjE exE conjE, goal_cases)
    case 1
    with assms(2) mset_butlast_last [OF 1(2)] show ?thesis by simp
  next
    case (2 x)
    note b = amq_popped_bag [OF assms(2) 2(3)]
    from 2(3) obtain k H where k: "k < nQ s" "s' = s\<lparr>amq_heaps := (amq_heaps s)[k := H]\<rparr>"
        "lh_extracted P (amq_heaps s ! k) (popped_v t) x (popped_v t') H"
      by (auto simp: amq_popped_def)
    have "k < length (amq_heaps s)" using lhs_ok_nth [OF lhs k(1)] by simp
    with k have "\<exists>k < nQ s. (\<forall>y \<in># lh_tasks (amq_heaps s ! k). \<not> amq_compare P x y) \<and>
        (popped_v t = [] \<longrightarrow> served (amq_compare P) (x # rev (popped_v t')) (lh_tasks (amq_heaps s' ! k)))"
      by (intro exI [of _ k]) (simp add: lh_extracted_def)
    with b 2(1,2) show ?thesis by auto
  next
    case 3
    with amq_all_empty [OF lhs _ 3(4)] show ?thesis by (simp add: amq_bag_def)
  qed
qed

theorem AdaptiveMQ_pop_correct_witness:
  "\<exists>s' t'. amq_pop int_cfg three_tasks fresh_thread = Some (Some 2, s', t') \<and>
     amq_bag s' + mset (popped_v t') = {#3, 5#}"
proof -
  have lhs: "lhs_ok int_cfg (nQ three_tasks) (amq_heaps three_tasks)"
    using three_tasks_ok(1) by (simp add: amq_ok_def)
  obtain r s' t' where p: "amq_pop int_cfg three_tasks fresh_thread = Some (r, s', t')"
    using amq_pop_returns [OF int_swo lhs three_tasks_ok(4), of fresh_thread] three_tasks_ok(3)
    by (auto simp: fresh_thread_def)
  note c = AdaptiveMQ_pop_correct [OF int_swo three_tasks_ok(1) p]
  then obtain x where r: "r = Some x" using three_tasks_ok(2,4) three_tasks_recorded by (cases r) auto
  have "lh_tasks (amq_heaps three_tasks ! 0) = {#2, 3, 5#}"
    by (simp add: three_tasks_def AdaptiveMQ_init_def Let_def int_cfg_def lh_tasks_def add_mset_commute upt_four)
  with c r have "amq_bag three_tasks = add_mset x (amq_bag s' + mset (popped_v t'))" "x \<le> 2"
    by (auto simp: fresh_thread_def three_tasks_ok(3) int_cfg_def std_greater_def)
  then have split: "{#2, 3, 5#} = add_mset x (amq_bag s' + mset (popped_v t'))" "x \<le> 2"
    using three_tasks_ok(2) by simp_all
  have "x \<in># add_mset x (amq_bag s' + mset (popped_v t'))" by simp
  then have "x \<in># {#2, 3, 5#}" by (simp only: split(1))
  with split(2) have "x = 2" by auto
  with split(1) have "amq_bag s' + mset (popped_v t') = {#3, 5#}" by simp
  with p r \<open>x = 2\<close> show ?thesis by simp
qed

text \<open>
  \<open>push\<close> of a single value adds it to one heap in use that nobody has locked, whose recorded minimum it
  keeps right, and changes nothing else; the recorded sizes stay as they were.
\<close>

theorem AdaptiveMQ_push_one_correct:
  assumes "strict_weak_order (amq_compare P)" "amq_ok P s" "amq_push_one P s t val = Some (s', t')"
  shows "amq_ok P s' \<and> lh_kept (amq_heaps s) (amq_heaps s') \<and> amq_bag s' = add_mset val (amq_bag s) \<and>
    map lh_size (amq_heaps s') = map lh_size (amq_heaps s)"
proof -
  have lhs: "lhs_ok P (nQ s) (amq_heaps s)" "0 < nQ s" using assms(2) by (simp_all add: amq_ok_def lhs_ok_def)
  obtain q0 x0 where d: "rand_heap (nQ s) (amq_rng t) = (q0, x0)" by fastforce
  then obtain hs k x where l: "amq_lock_loop (nQ s) (amq_heaps s) q0 x0 = Some (hs, k, x)"
    and s': "s' = s\<lparr>amq_heaps := hs[k := lh_unlock (store_min (lh_push P (hs ! k) val))]\<rparr>"
    using assms(3) by (auto simp: amq_push_one_def split: option.splits)
  have "q0 < nQ s" by (rule draws_belowD [OF rand_heap_below [OF lhs(2)] d])
  from amq_lock_loop_Some [OF l lhs(2) this] have k: "k < nQ s" "\<not> lh_locked (amq_heaps s ! k)"
    "hs = lh_locked_at (amq_heaps s) k" by auto
  note ord = lhs_ok_nth [OF lhs(1) k(1)]
  let ?H = "lh_unlock (store_min (lh_push P (hs ! k) val))"
  have hk: "hs ! k = (amq_heaps s ! k)\<lparr>lh_locked := True\<rparr>" using k(3) ord by simp
  have "DAryHeap_ok (amq_compare P) 4 (lh_heap (hs ! k))" using ord hk by simp
  from lh_push_list [OF assms(1) this, of "[val]"] have p: "DAryHeap_ok (amq_compare P) 4 (lh_heap (lh_push P (hs ! k) val))"
    "mset (heap (lh_heap (lh_push P (hs ! k) val))) = add_mset val (mset (heap (lh_heap (amq_heaps s ! k))))"
    by (simp_all add: hk)
  have ne: "heap (lh_heap (lh_push P (hs ! k) val)) \<noteq> []" using p(2) by auto
  have sz: "lh_size ?H = lh_size (amq_heaps s ! k)" by (simp add: lh_push_def hk)
  have "lh_cached (amq_heaps s ! k)" using lhs(1) k(1,2) ord by (simp add: lhs_ok_def lh_ok_def)
  moreover have "length (heap (lh_heap (lh_push P (hs ! k) val))) = Suc (length (heap (lh_heap (amq_heaps s ! k))))"
    using arg_cong [OF p(2), of size] by simp
  ultimately have "lh_ok P ?H" using p(1) ne sz by (simp add: lh_ok_def lh_cached_def)
  note sec = lh_section [OF lhs(1) k(1,2) _ this]
  have "lh_tasks ?H = add_mset val (lh_tasks (amq_heaps s ! k))" using p(2) by (simp add: lh_tasks_def)
  moreover have "map lh_size ((amq_heaps s)[k := ?H]) = map lh_size (amq_heaps s)"
    using sz ord by (simp add: map_update list_update_same_conv)
  ultimately show ?thesis using sec assms(2) by (simp add: s' k(3) amq_ok_def amq_bag_def)
qed

theorem AdaptiveMQ_push_one_correct_witness:
  "\<exists>s' t'. amq_push_one int_cfg three_tasks fresh_thread 4 = Some (s', t') \<and> amq_ok int_cfg s' \<and>
     amq_bag s' = {#4, 2, 3, 5#} \<and> map lh_size (amq_heaps s') = map lh_size (amq_heaps three_tasks)"
proof -
  have "rand_heap 1 25 = (0, 6759192)" by code_simp
  moreover have "amq_lock_loop 1 (amq_heaps three_tasks) 0 6759192 = Some (lh_locked_at (amq_heaps three_tasks) 0, 0, 6759192)"
  proof (rule amq_lock_loop_free)
    have "0 < length (amq_heaps three_tasks)" using three_tasks_ok(1,3)
      unfolding amq_ok_def lhs_ok_def by linarith
    then show "\<not> lh_locked (amq_heaps three_tasks ! 0)" using three_tasks_ok(4) nth_mem by blast
  qed
  ultimately obtain s' t' where p: "amq_push_one int_cfg three_tasks fresh_thread 4 = Some (s', t')"
    using three_tasks_ok(3) by (auto simp: amq_push_one_def fresh_thread_def)
  from AdaptiveMQ_push_one_correct [OF int_swo three_tasks_ok(1) p] p three_tasks_ok(2) show ?thesis by simp
qed

text \<open>
  \<open>push\<close> of a single value does not record the new size, so the value can be invisible to
  \<open>pop\<close>: here one thread pushes 7 into the empty scheduler with two queues and its next \<open>pop\<close>
  returns nothing, while the task is stored and no lock is held.
\<close>

theorem AdaptiveMQ_push_one_hidden:
  defines "t \<equiv> fresh_thread\<lparr>amq_pop_q := Some 0\<rparr>"
  shows "\<exists>s1 t1 t2. amq_push_one int_cfg (AdaptiveMQ_init int_cfg 2) t 7 = Some (s1, t1) \<and>
     amq_pop int_cfg s1 t1 = Some (None, s1, t2) \<and> amq_bag s1 = {#7#}"
proof -
  let ?s = "AdaptiveMQ_init int_cfg 2" and ?L = "LockableHeap_init int_cfg"
  let ?H = "lh_unlock (store_min (lh_push int_cfg ((?L 0)\<lparr>lh_locked := True\<rparr>) 7))"
  let ?hs = "[?H, ?L 1, ?L 2, ?L 3]"
  let ?s1 = "?s\<lparr>amq_heaps := ?hs\<rparr>" and ?t1 = "t\<lparr>amq_rng := 6759192\<rparr>"
  have r: "rand_heap 2 25 = (0, 6759192)" "random 6759192 = (1687056986, 1687056986)"
      "rand_heap 2 1687056986 = (0, 4067000376)" "rand_heap 2 4067000376 = (1, 2410856687)"
    by code_simp+
  have s: "amq_heaps ?s = [?L 0, ?L 1, ?L 2, ?L 3]" "nQ ?s = 2"
    by (simp_all add: AdaptiveMQ_init_def Let_def int_cfg_def upt_four)
  have L: "\<not> lh_locked (?L i)" "lh_size (?L i) = 0" "heap (lh_heap (?L i)) = []" for i
    by (simp_all add: LockableHeap_init_def set_index_def)
  have H: "lh_tasks ?H = {#7#}" "lh_size ?H = 0" "\<not> lh_locked ?H"
    using L(3) by (simp_all add: lh_push_def lh_tasks_def bag_simps L(2))
  have size: "lh_size (lh_push int_cfg ((?L 0)\<lparr>lh_locked := True\<rparr>) 7) = 0" by (simp add: lh_push_def L(2))
  have "amq_lock_loop 2 (amq_heaps ?s) 0 6759192 = Some (lh_locked_at (amq_heaps ?s) 0, 0, 6759192)"
    by (rule amq_lock_loop_free) (simp add: s L)
  then have "amq_push_one int_cfg ?s t 7 = Some (?s1, ?t1)"
    using r(1) by (simp add: amq_push_one_def s lh_locked_at_def t_def fresh_thread_def)
  moreover have "amq_pop int_cfg ?s1 ?t1 = Some (None, ?s1, ?t1\<lparr>amq_rng := 2410856687, amq_pop_q := Some 0\<rparr>)"
  proof -
    have "amq_try_local int_cfg 2 ?hs 0 (remainder 1687056986 1) = (?hs, False)"
      by (simp add: amq_try_local_def int_cfg_def remainder_def)
    moreover have "amq_choose int_cfg 2 ?hs 1687056986 = Some (lh_locked_at ?hs 1, 1, 2410856687)"
    proof -
      have "amq_better int_cfg ?hs 0 1 = 1" by (simp add: amq_better_def size)
      moreover have "amq_try_lock_heap 2 ?hs 1 = (True, lh_locked_at ?hs 1)"
        using try_lock_heap_cases [of 1 2 ?hs True "lh_locked_at ?hs 1"] L(1) by simp
      ultimately show ?thesis using r(3,4) by (subst amq_choose.simps) simp
    qed
    then have "amq_attempts int_cfg 2 1 ?hs 0 1687056986 = Some (?hs, False, 1, 2410856687)"
      by (simp add: L lh_locked_at_def DAryHeap_size_def lh_unlock_lock)
    moreover have "amq_scan 1 ?hs [0, 1] = (?hs, None)" by (simp add: size)
    moreover have "[0..<2] = [0, 1 :: nat]" by (simp add: upt_rec)
    ultimately show ?thesis
      using r(2) s(2)
      by (simp add: amq_pop_def t_def fresh_thread_def init_local_q_def RANDOM_ATTEMPTS_def int_cfg_def)
  qed
  moreover have "amq_bag ?s1 = {#7#}" using H(1) L(3) by (simp add: amq_bag_def lh_tasks_def)
  ultimately show ?thesis by blast
qed

text \<open>
  \<open>addQueue\<close> and \<open>deleteQueue\<close> change the number of queues by one exactly when nobody else is
  changing it, it is still the expected one and stays within 1 and \<open>maxQNum\<close>; they move tasks
  between two heaps and lose none, and the queues out of use stay empty.
\<close>

theorem AdaptiveMQ_adapt_correct:
  assumes "strict_weak_order (amq_compare P)" "amq_ok P s"
  shows "(\<forall>s'. addQueue P e s = Some s' \<longrightarrow> adapted P s s' \<and>
      nQ s' = (if adaptLock s \<or> nQ s = maxQNum s \<or> e \<noteq> nQ s then nQ s else nQ s + 1)) \<and>
    (\<forall>s'. deleteQueue P e s = Some s' \<longrightarrow> adapted P s s' \<and>
      nQ s' = (if adaptLock s \<or> nQ s = 1 \<or> e \<noteq> nQ s then nQ s else nQ s - 1))"
  using addQueue_adapted [OF assms] deleteQueue_adapted [OF assms] by blast

theorem AdaptiveMQ_adapt_correct_witness:
  "\<exists>s. addQueue int_cfg 1 three_tasks = Some s \<and> nQ s = 2 \<and> amq_bag s = {#2, 3, 5#}"
proof -
  have len: "maxQNum three_tasks = 4" "\<not> adaptLock three_tasks"
    by (simp_all add: three_tasks_def AdaptiveMQ_init_def Let_def int_cfg_def)
  from three_tasks_ok(1,4) obtain s where s: "addQueue int_cfg 1 three_tasks = Some s"
    using adapt_returns(2) [of int_cfg three_tasks 1] by (auto simp: amq_ok_def)
  from AdaptiveMQ_adapt_correct [OF int_swo three_tasks_ok(1), of 1] s three_tasks_ok(2,3) len
  show ?thesis by (auto simp: adapted_def)
qed

text \<open>
  C21: Where no other thread holds a lock, a thread whose generator was not seeded with 0 returns from \<open>pop\<close>, and from \<open>push\<close> of a
  range if the \<open>local_q\<close> of its pushes is a queue in use: the loop of \<open>pop\<close> that draws until it has two different queues
  ends, because the generator has the full period. Both conditions on the thread are needed (a seed of 0 draws queue 0 for ever; a stale
  \<open>local_q\<close> makes \<open>push\<close> loop).
\<close>

theorem AdaptiveMQ_returns:
  assumes "strict_weak_order (amq_compare P)" "amq_ok P s" "\<forall>H \<in> set (amq_heaps s). \<not> lh_locked H"
    and "amq_rng t \<noteq> 0"
  shows "(pred_option (\<lambda>q. q < nQ s) (amq_push_q t) \<longrightarrow> (\<exists>r. amq_push P s t es = Some r)) \<and>
    (\<exists>r. amq_pop P s t = Some r)"
proof (intro conjI impI)
  have lhs: "0 < nQ s" "nQ s \<le> length (amq_heaps s)" "lhs_ok P (nQ s) (amq_heaps s)"
    using assms(2) by (simp_all add: amq_ok_def lhs_ok_def)
  obtain q x where q: "init_local_q (rand_heap (nQ s)) (amq_push_q t) (amq_rng t) = (q, x)" by fastforce
  show "\<exists>r. amq_push P s t es = Some r" if "pred_option (\<lambda>q. q < nQ s) (amq_push_q t)"
  proof -
    have "q < nQ s" by (rule init_local_q_below [OF rand_heap_below [OF lhs(1)] that q])
    from amq_push_loop_returns [OF assms(3) this lhs(2)]
    obtain r where "amq_push_loop P (nQ s) q (amq_heaps s) 0 x 0 es = Some r" by blast
    with q show ?thesis by (cases r) (simp add: amq_push_def)
  qed
  show "\<exists>r. amq_pop P s t = Some r"
    by (rule amq_pop_returns [OF assms(1) lhs(3) assms(3,4)])
qed

theorem AdaptiveMQ_returns_witness:
  "\<exists>s. addQueue int_cfg 1 three_tasks = Some s \<and> nQ s = 2 \<and>
     (\<exists>r. amq_push int_cfg s fresh_thread [9, 1, 1] = Some r) \<and> (\<exists>r. amq_pop int_cfg s fresh_thread = Some r)"
proof -
  have len: "maxQNum three_tasks = 4" "\<not> adaptLock three_tasks"
    by (simp_all add: three_tasks_def AdaptiveMQ_init_def Let_def int_cfg_def)
  from three_tasks_ok(1,4) obtain s where s: "addQueue int_cfg 1 three_tasks = Some s"
    using adapt_returns(2) [of int_cfg three_tasks 1] by (auto simp: amq_ok_def)
  from addQueue_adapted [OF int_swo three_tasks_ok(1) s] three_tasks_ok(3) len
  have a: "amq_ok int_cfg s" "nQ s = 2" "lh_kept (amq_heaps three_tasks) (amq_heaps s)" by (simp_all add: adapted_def)
  have "\<forall>H \<in> set (amq_heaps s). \<not> lh_locked H"
    using a(3) three_tasks_ok(4) nth_mem by (fastforce simp: lh_kept_def in_set_conv_nth)
  from AdaptiveMQ_returns [OF int_swo a(1) this, of fresh_thread "[9, 1, 1]"] s a(2)
  show ?thesis by (simp add: fresh_thread_def)
qed

end
