(* ===== verification/SuspendProtocol.thy ===== *)
theory SuspendProtocol
  imports Prelude
begin

text \<open>
  The blocking part of \<open>AdaptiveMultiQueue\<close> (\<open>experimental_adaptive_mqs/AdaptiveMultiQueue.h\<close>,
  \<open>CondNode\<close>, \<open>try_suspend\<close>, \<open>try_resume\<close>, \<open>blocking_resume\<close>, \<open>resume_all\<close>): threads that find all
  queues empty go to sleep in the cells of \<open>suspend_array\<close>, and threads that push wake them.
  Every access to shared memory is a step of its own and any interleaving of the \<open>n\<close> threads is
  allowed. A thread outside these functions may call \<open>try_suspend\<close> or \<open>try_resume\<close> on any cell at
  any time, which covers the loops of \<open>suspend\<close> and \<open>resume\<close>, and \<open>empty_queues\<close> may change at any
  time. \<open>suspended\<close> is an integer here; the invariant keeps it between 0 and \<open>n\<close>, so the
  \<open>size_t\<close> of the code does not wrap.
\<close>

section \<open>Threads, cells and steps\<close>

datatype cstate = FREE | SUSPENDED | RESUMED

text \<open>
  The points in \<open>try_suspend\<close> (\<open>TS\<close>), \<open>try_resume\<close> (\<open>TR\<close>) and \<open>resume_all\<close> (\<open>RA\<close>, \<open>BR\<close>) before
  each shared access; the argument is the cell.
\<close>

datatype pc =
    Idle
  | TS_check nat | TS_lock nat | TS_recheck nat | TS_add nat
  | TS_last_unlock nat | TS_last_sub | TS_last_empty
  | TS_set nat | TS_wait nat | TS_asleep nat | TS_free nat | TS_unlock nat
  | TR_check nat | TR_lock nat | TR_recheck nat | TR_set nat | TR_sub nat | TR_unlock nat
  | RA_start | BR_check nat | BR_lock nat | BR_recheck nat | BR_set nat | BR_unlock nat

record susp_state =
  pcs :: "nat \<Rightarrow> pc"
  cell :: "nat \<Rightarrow> cstate"
  mutex :: "nat \<Rightarrow> nat option"
  suspended :: int
  no_work :: bool
  empty_queues :: nat

definition susp_init :: "nat \<Rightarrow> susp_state" where
  "susp_init e =
     \<lparr>pcs = (\<lambda>_. Idle), cell = (\<lambda>_. FREE), mutex = (\<lambda>_. None), suspended = 0, no_work = False,
      empty_queues = e\<rparr>"

definition goto :: "nat \<Rightarrow> pc \<Rightarrow> susp_state \<Rightarrow> susp_state" where
  "goto t p s = s\<lparr>pcs := (pcs s)(t := p)\<rparr>"

definition set_mutex :: "nat \<Rightarrow> nat option \<Rightarrow> susp_state \<Rightarrow> susp_state" where
  "set_mutex i m s = s\<lparr>mutex := (mutex s)(i := m)\<rparr>"

definition set_cell :: "nat \<Rightarrow> cstate \<Rightarrow> susp_state \<Rightarrow> susp_state" where
  "set_cell i c s = s\<lparr>cell := (cell s)(i := c)\<rparr>"

definition add_suspended :: "int \<Rightarrow> susp_state \<Rightarrow> susp_state" where
  "add_suspended k s = s\<lparr>suspended := suspended s + k\<rparr>"

text \<open>
  One step of one thread. \<open>n\<close> is the number of threads, \<open>cells\<close> the size of the array, \<open>nQ\<close> the
  number of queues.
\<close>

inductive susp_step :: "nat \<Rightarrow> nat \<Rightarrow> nat \<Rightarrow> susp_state \<Rightarrow> susp_state \<Rightarrow> bool" for n cells nQ where
  call_suspend: "t < n \<Longrightarrow> pcs s t = Idle \<Longrightarrow> i < cells \<Longrightarrow> susp_step n cells nQ s (goto t (TS_check i) s)"
| call_resume: "t < n \<Longrightarrow> pcs s t = Idle \<Longrightarrow> i < cells \<Longrightarrow> susp_step n cells nQ s (goto t (TR_check i) s)"
| queues: "susp_step n cells nQ s (s\<lparr>empty_queues := e\<rparr>)"
| ts_check: "t < n \<Longrightarrow> pcs s t = TS_check i \<Longrightarrow>
    susp_step n cells nQ s (goto t (if cell s i \<noteq> FREE then Idle else TS_lock i) s)"
| ts_lock: "t < n \<Longrightarrow> pcs s t = TS_lock i \<Longrightarrow> mutex s i = None \<Longrightarrow>
    susp_step n cells nQ s (goto t (TS_recheck i) (set_mutex i (Some t) s))"
| ts_lock_fails: "t < n \<Longrightarrow> pcs s t = TS_lock i \<Longrightarrow> mutex s i \<noteq> None \<Longrightarrow>
    susp_step n cells nQ s (goto t Idle s)"
| ts_recheck: "t < n \<Longrightarrow> pcs s t = TS_recheck i \<Longrightarrow> cell s i = FREE \<Longrightarrow>
    susp_step n cells nQ s (goto t (TS_add i) s)"
| ts_recheck_fails: "t < n \<Longrightarrow> pcs s t = TS_recheck i \<Longrightarrow> cell s i \<noteq> FREE \<Longrightarrow>
    susp_step n cells nQ s (goto t (TS_unlock i) s)"
| ts_add: "t < n \<Longrightarrow> pcs s t = TS_add i \<Longrightarrow>
    susp_step n cells nQ s
      (goto t (if suspended s + 1 = int n then TS_last_unlock i else TS_set i) (add_suspended 1 s))"
| ts_last_unlock: "t < n \<Longrightarrow> pcs s t = TS_last_unlock i \<Longrightarrow>
    susp_step n cells nQ s (goto t TS_last_sub (set_mutex i None s))"
| ts_last_sub: "t < n \<Longrightarrow> pcs s t = TS_last_sub \<Longrightarrow>
    susp_step n cells nQ s (goto t TS_last_empty (add_suspended (- 1) s))"
| ts_last_empty: "t < n \<Longrightarrow> pcs s t = TS_last_empty \<Longrightarrow>
    susp_step n cells nQ s (goto t (if empty_queues s < nQ then Idle else RA_start) s)"
| ts_set: "t < n \<Longrightarrow> pcs s t = TS_set i \<Longrightarrow>
    susp_step n cells nQ s (goto t (TS_wait i) (set_cell i SUSPENDED s))"
| ts_wait: "t < n \<Longrightarrow> pcs s t = TS_wait i \<Longrightarrow>
    susp_step n cells nQ s (goto t (TS_asleep i) (set_mutex i None s))"
| ts_wake: "t < n \<Longrightarrow> pcs s t = TS_asleep i \<Longrightarrow> mutex s i = None \<Longrightarrow> cell s i = RESUMED \<Longrightarrow>
    susp_step n cells nQ s (goto t (TS_free i) (set_mutex i (Some t) s))"
| ts_free: "t < n \<Longrightarrow> pcs s t = TS_free i \<Longrightarrow>
    susp_step n cells nQ s (goto t (TS_unlock i) (set_cell i FREE s))"
| ts_unlock: "t < n \<Longrightarrow> pcs s t = TS_unlock i \<Longrightarrow>
    susp_step n cells nQ s (goto t Idle (set_mutex i None s))"
| tr_check: "t < n \<Longrightarrow> pcs s t = TR_check i \<Longrightarrow>
    susp_step n cells nQ s (goto t (if cell s i \<noteq> SUSPENDED then Idle else TR_lock i) s)"
| tr_lock: "t < n \<Longrightarrow> pcs s t = TR_lock i \<Longrightarrow> mutex s i = None \<Longrightarrow>
    susp_step n cells nQ s (goto t (TR_recheck i) (set_mutex i (Some t) s))"
| tr_lock_fails: "t < n \<Longrightarrow> pcs s t = TR_lock i \<Longrightarrow> mutex s i \<noteq> None \<Longrightarrow>
    susp_step n cells nQ s (goto t Idle s)"
| tr_recheck: "t < n \<Longrightarrow> pcs s t = TR_recheck i \<Longrightarrow> cell s i = SUSPENDED \<Longrightarrow>
    susp_step n cells nQ s (goto t (TR_set i) s)"
| tr_recheck_fails: "t < n \<Longrightarrow> pcs s t = TR_recheck i \<Longrightarrow> cell s i \<noteq> SUSPENDED \<Longrightarrow>
    susp_step n cells nQ s (goto t (TR_unlock i) s)"
| tr_set: "t < n \<Longrightarrow> pcs s t = TR_set i \<Longrightarrow>
    susp_step n cells nQ s (goto t (TR_sub i) (set_cell i RESUMED s))"
| tr_sub: "t < n \<Longrightarrow> pcs s t = TR_sub i \<Longrightarrow>
    susp_step n cells nQ s (goto t (TR_unlock i) (add_suspended (- 1) s))"
| tr_unlock: "t < n \<Longrightarrow> pcs s t = TR_unlock i \<Longrightarrow>
    susp_step n cells nQ s (goto t Idle (set_mutex i None s))"
| ra_start: "t < n \<Longrightarrow> pcs s t = RA_start \<Longrightarrow>
    susp_step n cells nQ s (goto t (if 0 < cells then BR_check 0 else Idle) (s\<lparr>no_work := True\<rparr>))"
| br_check: "t < n \<Longrightarrow> pcs s t = BR_check i \<Longrightarrow>
    susp_step n cells nQ s
      (goto t (if cell s i = SUSPENDED then BR_lock i else if i + 1 < cells then BR_check (i + 1) else Idle) s)"
| br_lock: "t < n \<Longrightarrow> pcs s t = BR_lock i \<Longrightarrow> mutex s i = None \<Longrightarrow>
    susp_step n cells nQ s (goto t (BR_recheck i) (set_mutex i (Some t) s))"
| br_recheck: "t < n \<Longrightarrow> pcs s t = BR_recheck i \<Longrightarrow> cell s i = SUSPENDED \<Longrightarrow>
    susp_step n cells nQ s (goto t (BR_set i) (add_suspended (- 1) s))"
| br_recheck_fails: "t < n \<Longrightarrow> pcs s t = BR_recheck i \<Longrightarrow> cell s i \<noteq> SUSPENDED \<Longrightarrow>
    susp_step n cells nQ s (goto t (BR_unlock i) s)"
| br_set: "t < n \<Longrightarrow> pcs s t = BR_set i \<Longrightarrow>
    susp_step n cells nQ s (goto t (BR_unlock i) (set_cell i RESUMED s))"
| br_unlock: "t < n \<Longrightarrow> pcs s t = BR_unlock i \<Longrightarrow>
    susp_step n cells nQ s (goto t (if i + 1 < cells then BR_check (i + 1) else Idle) (set_mutex i None s))"

inductive susp_reach :: "nat \<Rightarrow> nat \<Rightarrow> nat \<Rightarrow> susp_state \<Rightarrow> bool" for n cells nQ where
  start: "susp_reach n cells nQ (susp_init e)"
| step: "susp_reach n cells nQ s \<Longrightarrow> susp_step n cells nQ s s' \<Longrightarrow> susp_reach n cells nQ s'"

section \<open>The invariant\<close>

text \<open>The cell whose mutex a thread holds.\<close>

fun holds :: "pc \<Rightarrow> nat option" where
  "holds (TS_recheck i) = Some i"
| "holds (TS_add i) = Some i"
| "holds (TS_last_unlock i) = Some i"
| "holds (TS_set i) = Some i"
| "holds (TS_wait i) = Some i"
| "holds (TS_free i) = Some i"
| "holds (TS_unlock i) = Some i"
| "holds (TR_recheck i) = Some i"
| "holds (TR_set i) = Some i"
| "holds (TR_sub i) = Some i"
| "holds (TR_unlock i) = Some i"
| "holds (BR_recheck i) = Some i"
| "holds (BR_set i) = Some i"
| "holds (BR_unlock i) = Some i"
| "holds _ = None"

text \<open>What a thread that holds the mutex knows of the cell.\<close>

fun know :: "pc \<Rightarrow> cstate \<Rightarrow> bool" where
  "know (TS_add i) c \<longleftrightarrow> c = FREE"
| "know (TS_set i) c \<longleftrightarrow> c = FREE"
| "know (TS_wait i) c \<longleftrightarrow> c = SUSPENDED"
| "know (TS_free i) c \<longleftrightarrow> c = RESUMED"
| "know (TR_set i) c \<longleftrightarrow> c = SUSPENDED"
| "know (BR_set i) c \<longleftrightarrow> c = SUSPENDED"
| "know _ c \<longleftrightarrow> True"

text \<open>The cell a thread sleeps in, from when it has taken it until it has freed it.\<close>

fun sleeps_in :: "pc \<Rightarrow> nat option" where
  "sleeps_in (TS_wait i) = Some i"
| "sleeps_in (TS_asleep i) = Some i"
| "sleeps_in (TS_free i) = Some i"
| "sleeps_in _ = None"

text \<open>
  \<open>counted\<close>: a thread that is asleep or irrevocably about to be. \<open>weight\<close>: what a thread adds to
  the counter \<open>suspended\<close>.
\<close>

fun counted :: "(nat \<Rightarrow> cstate) \<Rightarrow> pc \<Rightarrow> bool" where
  "counted c (TS_set i) \<longleftrightarrow> True"
| "counted c (TS_wait i) \<longleftrightarrow> c i = SUSPENDED"
| "counted c (TS_asleep i) \<longleftrightarrow> c i = SUSPENDED"
| "counted c _ \<longleftrightarrow> False"

fun extra :: "pc \<Rightarrow> int" where
  "extra (TS_last_unlock i) = 1"
| "extra TS_last_sub = 1"
| "extra (TR_sub i) = 1"
| "extra (BR_set i) = - 1"
| "extra _ = 0"

definition weight :: "(nat \<Rightarrow> cstate) \<Rightarrow> pc \<Rightarrow> int" where
  "weight c p = (if counted c p then 1 else 0) + extra p"

definition susp_inv :: "nat \<Rightarrow> susp_state \<Rightarrow> bool" where
  "susp_inv n s \<longleftrightarrow>
     suspended s = (\<Sum>t<n. weight (cell s) (pcs s t)) \<and>
     (\<forall>t<n. \<forall>i. holds (pcs s t) = Some i \<longrightarrow> mutex s i = Some t \<and> know (pcs s t) (cell s i)) \<and>
     (\<forall>t<n. \<forall>i. sleeps_in (pcs s t) = Some i \<longrightarrow> cell s i \<noteq> FREE \<and>
        (\<forall>u<n. sleeps_in (pcs s u) = Some i \<longrightarrow> u = t)) \<and>
     (\<forall>i. cell s i \<noteq> FREE \<longrightarrow> (\<exists>t<n. sleeps_in (pcs s t) = Some i)) \<and>
     (0 < n \<longrightarrow> (\<exists>t<n. \<not> counted (cell s) (pcs s t)))"

lemma goto_fields [simp]:
  "pcs (goto t p s) = (pcs s)(t := p)" "cell (goto t p s) = cell s" "mutex (goto t p s) = mutex s"
  "suspended (goto t p s) = suspended s"
  by (simp_all add: goto_def)

lemma set_fields [simp]:
  "pcs (set_mutex i m s) = pcs s" "cell (set_mutex i m s) = cell s"
  "mutex (set_mutex i m s) = (mutex s)(i := m)" "suspended (set_mutex i m s) = suspended s"
  "pcs (set_cell i c s) = pcs s" "cell (set_cell i c s) = (cell s)(i := c)"
  "mutex (set_cell i c s) = mutex s" "suspended (set_cell i c s) = suspended s"
  "pcs (add_suspended k s) = pcs s" "cell (add_suspended k s) = cell s"
  "mutex (add_suspended k s) = mutex s" "suspended (add_suspended k s) = suspended s + k"
  by (simp_all add: set_mutex_def set_cell_def add_suspended_def)

lemma sum_upd:
  fixes t n :: nat and f :: "'p \<Rightarrow> int"
  assumes "t < n"
  shows "(\<Sum>u<n. f ((g(t := p)) u)) = (\<Sum>u<n. f (g u)) - f (g t) + f p"
proof -
  have "(\<Sum>u<n. f ((g(t := p)) u)) = f p + (\<Sum>u\<in>{..<n} - {t}. f (g u))"
    using assms by (subst sum.remove [of _ t]) simp_all
  moreover have "(\<Sum>u<n. f (g u)) = f (g t) + (\<Sum>u\<in>{..<n} - {t}. f (g u))"
    using assms by (subst sum.remove [of _ t]) simp_all
  ultimately show ?thesis by simp
qed

lemma susp_invD:
  assumes "susp_inv n s"
  shows "suspended s = (\<Sum>t<n. weight (cell s) (pcs s t))"
    "t < n \<Longrightarrow> holds (pcs s t) = Some i \<Longrightarrow> mutex s i = Some t \<and> know (pcs s t) (cell s i)"
    "t < n \<Longrightarrow> sleeps_in (pcs s t) = Some i \<Longrightarrow> cell s i \<noteq> FREE"
    "t < n \<Longrightarrow> sleeps_in (pcs s t) = Some i \<Longrightarrow> u < n \<Longrightarrow> sleeps_in (pcs s u) = Some i \<Longrightarrow> u = t"
    "cell s i \<noteq> FREE \<Longrightarrow> \<exists>t<n. sleeps_in (pcs s t) = Some i"
    "0 < n \<Longrightarrow> \<exists>t<n. \<not> counted (cell s) (pcs s t)"
  using assms unfolding susp_inv_def by blast+

text \<open>A step that changes no cell. The mutex is kept, taken or given back.\<close>

definition mutex_step :: "nat \<Rightarrow> pc \<Rightarrow> pc \<Rightarrow> (nat \<Rightarrow> nat option) \<Rightarrow> (nat \<Rightarrow> nat option) \<Rightarrow> bool" where
  "mutex_step t p p' m m' \<longleftrightarrow>
     (m' = m \<and> holds p' = holds p) \<or>
     (\<exists>i. holds p = None \<and> holds p' = Some i \<and> m i = None \<and> m' = m(i := Some t)) \<or>
     (\<exists>i. holds p = Some i \<and> holds p' = None \<and> m' = m(i := None))"

lemma move:
  assumes inv: "susp_inv n s" and t: "t < n"
    and s': "pcs s' = (pcs s)(t := p')" "cell s' = cell s"
    and susp: "suspended s' = suspended s + (weight (cell s) p' - weight (cell s) (pcs s t))"
    and sleep: "sleeps_in p' = sleeps_in (pcs s t)"
    and mtx: "mutex_step t (pcs s t) p' (mutex s) (mutex s')"
    and know: "\<And>i. holds p' = Some i \<Longrightarrow> know p' (cell s i)"
    and awake: "counted (cell s) p' \<Longrightarrow> \<exists>u<n. u \<noteq> t \<and> \<not> counted (cell s) (pcs s u)"
  shows "susp_inv n s'"
  unfolding susp_inv_def
proof (intro conjI allI impI)
  note I = susp_invD [OF inv]
  show "suspended s' = (\<Sum>t<n. weight (cell s') (pcs s' t))"
    using I(1) susp sum_upd [OF t, of "weight (cell s)" "pcs s" p'] by (simp add: s')
next
  note I = susp_invD [OF inv]
  fix u i
  assume u: "u < n" "holds (pcs s' u) = Some i"
  show "mutex s' i = Some u"
  proof (cases "u = t")
    case True
    with u s' have "holds p' = Some i" by simp
    with mtx I(2) [OF t] True show ?thesis by (auto simp: mutex_step_def)
  next
    case False
    with u s' have h: "mutex s i = Some u" using I(2) [OF u(1)] by simp
    have "holds (pcs s t) \<noteq> Some i" using I(2) [OF t, of i] h False by auto
    with mtx h show ?thesis by (auto simp: mutex_step_def)
  qed
  show "know (pcs s' u) (cell s' i)"
    using u know I(2) [OF u(1)] by (cases "u = t") (simp_all add: s')
next
  note I = susp_invD [OF inv]
  have sl: "sleeps_in (pcs s' u) = sleeps_in (pcs s u)" for u using sleep by (simp add: s')
  fix u i
  assume "u < n" "sleeps_in (pcs s' u) = Some i"
  then show "cell s' i \<noteq> FREE" using I(3) [of u i] by (simp add: sl s'(2))
  fix v
  assume "v < n" "sleeps_in (pcs s' v) = Some i"
  then show "v = u" using I(4) [of u i v] \<open>u < n\<close> \<open>sleeps_in (pcs s' u) = Some i\<close> by (simp add: sl)
next
  note I = susp_invD [OF inv]
  fix i
  assume "cell s' i \<noteq> FREE"
  then have "\<exists>u<n. sleeps_in (pcs s u) = Some i" using I(5) by (simp add: s')
  moreover have "sleeps_in (pcs s' u) = sleeps_in (pcs s u)" for u using sleep by (simp add: s')
  ultimately show "\<exists>u<n. sleeps_in (pcs s' u) = Some i" by simp
next
  assume "0 < n"
  show "\<exists>u<n. \<not> counted (cell s') (pcs s' u)"
  proof (cases "counted (cell s) p'")
    case True
    from awake [OF this] show ?thesis by (auto simp: s')
  next
    case False
    with t show ?thesis by (intro exI [of _ t]) (simp add: s')
  qed
qed

lemma move_quiet:
  assumes "susp_inv n s" "t < n" "pcs s' = (pcs s)(t := p')" "cell s' = cell s"
    and "suspended s' = suspended s + (weight (cell s) p' - weight (cell s) (pcs s t))"
    and "sleeps_in p' = sleeps_in (pcs s t)" "mutex_step t (pcs s t) p' (mutex s) (mutex s')"
    and "\<And>i. holds p' = Some i \<Longrightarrow> know p' (cell s i)"
    and awake: "counted (cell s) p' \<Longrightarrow> counted (cell s) (pcs s t)"
  shows "susp_inv n s'"
proof (rule move [OF assms(1-8)])
  assume "counted (cell s) p'"
  moreover obtain u where "u < n" "\<not> counted (cell s) (pcs s u)"
    using susp_invD(6) [OF assms(1)] assms(2) by auto
  ultimately show "\<exists>u<n. u \<noteq> t \<and> \<not> counted (cell s) (pcs s u)"
    using awake by (intro exI [of _ u]) auto
qed

lemma counted_upd: "sleeps_in p \<noteq> Some i \<Longrightarrow> counted (c(i := v)) p = counted c p"
  by (cases p) auto

lemma weight_upd: "sleeps_in p \<noteq> Some i \<Longrightarrow> weight (c(i := v)) p = weight c p"
  by (simp add: weight_def counted_upd)

lemma sum_weight_upd:
  fixes t n :: nat
  assumes "t < n" "w = weight (c(i := v)) p" "\<And>u. u < n \<Longrightarrow> u \<noteq> t \<Longrightarrow> sleeps_in (g u) \<noteq> Some i"
  shows "(\<Sum>u<n. weight (c(i := v)) ((g(t := p)) u)) = (\<Sum>u<n. weight c (g u)) - weight c (g t) + w"
proof -
  have "(\<Sum>u\<in>{..<n} - {t}. weight (c(i := v)) (g u)) = (\<Sum>u\<in>{..<n} - {t}. weight c (g u))"
    by (rule sum.cong) (simp_all add: weight_upd assms(3))
  moreover have "(\<Sum>u<n. weight (c(i := v)) ((g(t := p)) u)) =
      weight (c(i := v)) p + (\<Sum>u\<in>{..<n} - {t}. weight (c(i := v)) (g u))"
    using assms(1) by (subst sum.remove [of _ t]) simp_all
  moreover have "(\<Sum>u<n. weight c (g u)) = weight c (g t) + (\<Sum>u\<in>{..<n} - {t}. weight c (g u))"
    using assms(1) by (subst sum.remove [of _ t]) simp_all
  ultimately show ?thesis using assms(2) by simp
qed

text \<open>Only the holder of the mutex of a cell knows something of it or is about to change it.\<close>

lemma others_not_hold:
  assumes "susp_inv n s" "t < n" "holds (pcs s t) = Some i" "u < n" "u \<noteq> t"
  shows "holds (pcs s u) \<noteq> Some i"
  using susp_invD(2) [OF assms(1,2,3)] susp_invD(2) [OF assms(1,4), of i] assms(5) by auto

text \<open>A step of the holder of the mutex of \<open>i\<close> that takes or frees the cell.\<close>

lemma take_cell:
  assumes inv: "susp_inv n s" and t: "t < n" and p: "holds (pcs s t) = Some i" "holds p' = Some i"
    and s': "pcs s' = (pcs s)(t := p')" "cell s' = (cell s)(i := v)" "mutex s' = mutex s"
    and susp: "suspended s' = suspended s" "weight ((cell s)(i := v)) p' = weight (cell s) (pcs s t)"
    and alone: "\<And>u. u < n \<Longrightarrow> u \<noteq> t \<Longrightarrow> sleeps_in (pcs s u) \<noteq> Some i"
    and sleep: "sleeps_in p' = (if v = FREE then None else Some i)" "sleeps_in (pcs s t) \<in> {None, Some i}"
    and know: "know p' v"
    and awake: "counted ((cell s)(i := v)) p' \<Longrightarrow> \<exists>u<n. u \<noteq> t \<and> \<not> counted (cell s) (pcs s u)"
  shows "susp_inv n s'"
  unfolding susp_inv_def
proof (intro conjI allI impI)
  note I = susp_invD [OF inv]
  show "suspended s' = (\<Sum>t<n. weight (cell s') (pcs s' t))"
    using I(1) susp sum_weight_upd [OF t refl alone, where c = "cell s" and v = v and p = p'] by (simp add: s')
next
  note I = susp_invD [OF inv]
  fix u j
  assume u: "u < n" "holds (pcs s' u) = Some j"
  show "mutex s' j = Some u"
    using u p I(2) [OF t, of i] I(2) [OF u(1), of j] by (cases "u = t") (simp_all add: s')
  show "know (pcs s' u) (cell s' j)"
  proof (cases "u = t")
    case True
    with u p know show ?thesis by (simp add: s')
  next
    case False
    with u others_not_hold [OF inv t p(1) u(1)] I(2) [OF u(1), of j] show ?thesis by (auto simp: s')
  qed
next
  note I = susp_invD [OF inv]
  fix u j
  assume u: "u < n" "sleeps_in (pcs s' u) = Some j"
  show "cell s' j \<noteq> FREE"
  proof (cases "u = t")
    case True
    with u sleep show ?thesis by (auto simp: s' split: if_splits)
  next
    case False
    with u alone [OF u(1)] I(3) [OF u(1), of j] show ?thesis by (auto simp: s')
  qed
  fix w
  assume w: "w < n" "sleeps_in (pcs s' w) = Some j"
  show "w = u"
    using u w alone I(4) [of u j w] sleep(1) by (cases "u = t"; cases "w = t") (auto simp: s' split: if_splits)
next
  note I = susp_invD [OF inv]
  fix j
  assume j: "cell s' j \<noteq> FREE"
  show "\<exists>u<n. sleeps_in (pcs s' u) = Some j"
  proof (cases "j = i")
    case True
    with j t sleep(1) show ?thesis by (intro exI [of _ t]) (auto simp: s')
  next
    case False
    with j I(5) [of j] obtain u where "u < n" "sleeps_in (pcs s u) = Some j" by (auto simp: s')
    moreover from this have "u \<noteq> t" using sleep(2) False by auto
    ultimately show ?thesis by (intro exI [of _ u]) (simp add: s')
  qed
next
  assume "0 < n"
  show "\<exists>u<n. \<not> counted (cell s') (pcs s' u)"
  proof (cases "counted ((cell s)(i := v)) p'")
    case True
    from awake [OF this] obtain u where "u < n" "u \<noteq> t" "\<not> counted (cell s) (pcs s u)" by blast
    with counted_upd [OF alone] show ?thesis by (intro exI [of _ u]) (simp add: s')
  next
    case False
    with t show ?thesis by (intro exI [of _ t]) (simp add: s')
  qed
qed

text \<open>A step of the holder of the mutex that wakes the thread asleep in the cell.\<close>

lemma wake_cell:
  assumes inv: "susp_inv n s" and t: "t < n" and p: "holds (pcs s t) = Some i" "holds p' = Some i"
    and c: "cell s i = SUSPENDED" "sleeps_in p' = None" "sleeps_in (pcs s t) = None"
    and s': "pcs s' = (pcs s)(t := p')" "cell s' = (cell s)(i := RESUMED)" "mutex s' = mutex s"
    and susp: "suspended s' = suspended s" "\<And>d. weight d p' = weight d (pcs s t) + 1"
    and know: "know p' RESUMED"
  shows "susp_inv n s'"
proof -
  note I = susp_invD [OF inv]
  let ?c = "(cell s)(i := RESUMED)"
  obtain w where w: "w < n" "sleeps_in (pcs s w) = Some i" using I(5) [of i] c(1) by auto
  then have wt: "w \<noteq> t" using c(3) by auto
  have "holds (pcs s w) \<noteq> Some i" by (rule others_not_hold [OF inv t p(1) w(1) wt])
  with w(2) have asleep: "pcs s w = TS_asleep i" by (cases "pcs s w") auto
  then have ww: "weight (cell s) (pcs s w) = 1" "weight ?c (pcs s w) = 0" "\<not> counted ?c (pcs s w)"
    using c(1) by (simp_all add: weight_def)
  have only: "u < n \<Longrightarrow> u \<noteq> w \<Longrightarrow> sleeps_in (pcs s u) \<noteq> Some i" for u using I(4) [OF w] by blast
  have sl: "sleeps_in (pcs s' u) = sleeps_in (pcs s u)" for u using c(2,3) by (simp add: s')
  show ?thesis
    unfolding susp_inv_def
  proof (intro conjI allI impI)
    have "(\<Sum>u<n. weight ?c ((pcs s) u)) = (\<Sum>u<n. weight (cell s) (pcs s u)) - 1"
      using sum_weight_upd [of w n _ "cell s" i RESUMED "pcs s w" "pcs s", OF w(1) refl only] ww by simp
    moreover have "(\<Sum>u<n. weight ?c (((pcs s)(t := p')) u)) =
        (\<Sum>u<n. weight ?c (pcs s u)) - weight ?c (pcs s t) + weight ?c p'"
      by (rule sum_upd [OF t])
    ultimately show "suspended s' = (\<Sum>t<n. weight (cell s') (pcs s' t))"
      using I(1) susp(1) susp(2) [of ?c] by (simp add: s')
  next
    fix u j
    assume u: "u < n" "holds (pcs s' u) = Some j"
    show "mutex s' j = Some u"
      using u p I(2) [OF t, of i] I(2) [OF u(1), of j] by (cases "u = t") (simp_all add: s')
    show "know (pcs s' u) (cell s' j)"
    proof (cases "u = t")
      case True
      with u p know show ?thesis by (simp add: s')
    next
      case False
      with u others_not_hold [OF inv t p(1) u(1)] I(2) [OF u(1), of j] show ?thesis by (auto simp: s')
    qed
  next
    fix u j
    assume u: "u < n" "sleeps_in (pcs s' u) = Some j"
    then show "cell s' j \<noteq> FREE" using I(3) [of u j] by (simp add: sl s'(2))
    fix v
    assume "v < n" "sleeps_in (pcs s' v) = Some j"
    with u show "v = u" using I(4) [of u j v] by (simp add: sl)
  next
    fix j
    assume "cell s' j \<noteq> FREE"
    then have "cell s j \<noteq> FREE" using c(1) by (auto simp: s' split: if_splits)
    with I(5) [of j] show "\<exists>u<n. sleeps_in (pcs s' u) = Some j" by (simp add: sl)
  next
    assume "0 < n"
    show "\<exists>u<n. \<not> counted (cell s') (pcs s' u)"
      using w(1) wt ww(3) by (intro exI [of _ w]) (simp add: s')
  qed
qed

lemma susp_init_inv: "susp_inv n (susp_init e)"
  by (auto simp: susp_inv_def susp_init_def weight_def)

text \<open>
  If every other thread is counted, a thread that is about to increment the counter reads
  \<open>n - 1\<close> there and is the last.
\<close>

lemma last_is_last:
  assumes inv: "susp_inv n s" and t: "t < n" "pcs s t = TS_add i"
    and others: "\<And>u. u < n \<Longrightarrow> u \<noteq> t \<Longrightarrow> counted (cell s) (pcs s u)"
  shows "suspended s + 1 = int n"
proof -
  have one: "weight (cell s) (pcs s u) = 1" if "u \<in> {..<n} - {t}" for u
  proof -
    have "counted (cell s) (pcs s u)" using others that by simp
    then show ?thesis by (cases "pcs s u") (simp_all add: weight_def)
  qed
  have "(\<Sum>u<n. weight (cell s) (pcs s u)) =
      weight (cell s) (pcs s t) + (\<Sum>u\<in>{..<n} - {t}. weight (cell s) (pcs s u))"
    using t(1) by (subst sum.remove [of _ t]) simp_all
  also have "(\<Sum>u\<in>{..<n} - {t}. weight (cell s) (pcs s u)) = (\<Sum>u\<in>{..<n} - {t}. 1)"
    by (rule sum.cong) (use one in auto)
  also have "\<dots> = int n - 1" using t(1) by simp
  finally show ?thesis using susp_invD(1) [OF inv] t(2) by (simp add: weight_def)
qed

lemma susp_step_inv:
  assumes "susp_step n cells nQ s s'" "susp_inv n s"
  shows "susp_inv n s'"
  using assms(1)
proof cases
  case (queues e)
  with assms(2) show ?thesis
    by (cases s) (simp only: susp_inv_def susp_state.select_convs susp_state.update_convs, blast)
next
  case (ts_add t i)
  show ?thesis
  proof (rule move [OF assms(2) ts_add(2)])
    show "pcs s' = (pcs s)(t := if suspended s + 1 = int n then TS_last_unlock i else TS_set i)"
      "cell s' = cell s" by (simp_all add: ts_add(1))
    show "\<exists>u<n. u \<noteq> t \<and> \<not> counted (cell s) (pcs s u)"
      if "counted (cell s) (if suspended s + 1 = int n then TS_last_unlock i else TS_set i)"
      using that last_is_last [OF assms(2) ts_add(2,3)] by (auto split: if_splits)
    show "know (if suspended s + 1 = int n then TS_last_unlock i else TS_set i) (cell s j)"
      if "holds (if suspended s + 1 = int n then TS_last_unlock i else TS_set i) = Some j" for j
      using that susp_invD(2) [OF assms(2) ts_add(2), of j] ts_add(3) by (auto split: if_splits)
  qed (simp_all add: ts_add(1,3) weight_def mutex_step_def)
next
  case (ts_set t i)
  then have c: "cell s i = FREE" using susp_invD(2) [OF assms(2) ts_set(2), of i] by simp
  then have alone: "sleeps_in (pcs s u) \<noteq> Some i" if "u < n" for u
    using susp_invD(3) [OF assms(2) that, of i] by auto
  have "\<exists>u<n. u \<noteq> t \<and> \<not> counted (cell s) (pcs s u)"
  proof -
    obtain u where "u < n" "\<not> counted (cell s) (pcs s u)"
      using susp_invD(6) [OF assms(2)] ts_set(2) by auto
    then show ?thesis using ts_set(3) by (intro exI [of _ u]) auto
  qed
  then show ?thesis
    by (intro take_cell [OF assms(2) ts_set(2), of i "TS_wait i" s' SUSPENDED])
      (use ts_set alone in \<open>simp_all add: weight_def\<close>)
next
  case (ts_free t i)
  have alone: "sleeps_in (pcs s u) \<noteq> Some i" if "u < n" "u \<noteq> t" for u
    using susp_invD(4) [OF assms(2) ts_free(2) _ that(1), of i] that(2) ts_free(3) by auto
  have "cell s i = RESUMED" using susp_invD(2) [OF assms(2) ts_free(2), of i] ts_free(3) by simp
  then show ?thesis
    by (intro take_cell [OF assms(2) ts_free(2), of i "TS_unlock i" s' FREE])
      (use ts_free alone in \<open>simp_all add: weight_def\<close>)
next
  case (tr_set t i)
  then have "cell s i = SUSPENDED" using susp_invD(2) [OF assms(2) tr_set(2), of i] by simp
  then show ?thesis
    by (intro wake_cell [OF assms(2) tr_set(2), of i "TR_sub i" s'])
      (use tr_set in \<open>simp_all add: weight_def\<close>)
next
  case (br_set t i)
  then have "cell s i = SUSPENDED" using susp_invD(2) [OF assms(2) br_set(2), of i] by simp
  then show ?thesis
    by (intro wake_cell [OF assms(2) br_set(2), of i "BR_unlock i" s'])
      (use br_set in \<open>simp_all add: weight_def\<close>)
qed (rule move_quiet [OF assms(2)], assumption, (auto simp: weight_def mutex_step_def split: if_splits)[7])+

lemma susp_reach_inv: "susp_reach n cells nQ s \<Longrightarrow> susp_inv n s"
  by (induction rule: susp_reach.induct) (auto intro: susp_init_inv susp_step_inv)

text \<open>The counter stays between 0 and the number of threads.\<close>

lemma weight_split: "weight c p = (if counted c p then 1 else 0) + extra p"
  by (simp add: weight_def)

lemma extra_cases: "extra p \<le> (if \<exists>i. p = BR_set i then - 1 else 1)"
  "(if \<exists>i. p = BR_set i then - 1 else 0) \<le> extra p" "counted c p \<Longrightarrow> extra p = 0"
  by (cases p; simp)+

lemma suspended_bounds:
  assumes inv: "susp_inv n s"
  shows "0 \<le> suspended s" "suspended s \<le> int n"
proof -
  note I = susp_invD [OF inv]
  let ?A = "{t. t < n \<and> (\<exists>i. pcs s t = BR_set i)}" and ?B = "{t. t < n \<and> counted (cell s) (pcs s t)}"
  have "weight (cell s) p \<le> 1" for p
    using extra_cases(1) [of p] extra_cases(3) [of "cell s" p] by (auto simp: weight_def split: if_splits)
  then have "(\<Sum>t<n. weight (cell s) (pcs s t)) \<le> (\<Sum>t<n. 1)" by (intro sum_mono)
  with I(1) show "suspended s \<le> int n" by simp
  have "\<exists>w<n. sleeps_in (pcs s w) = Some i \<and> counted (cell s) (pcs s w)"
    if "t < n" "pcs s t = BR_set i" for t i
  proof -
    have c: "cell s i = SUSPENDED" using I(2) [OF that(1), of i] that(2) by simp
    then obtain w where w: "w < n" "sleeps_in (pcs s w) = Some i" using I(5) [of i] by auto
    then have "w \<noteq> t" using that(2) by auto
    then have "holds (pcs s w) \<noteq> Some i" using others_not_hold [OF inv that(1) _ w(1)] that(2) by simp
    with w c show ?thesis by (intro exI [of _ w]) (cases "pcs s w"; auto)
  qed
  then have "\<forall>t \<in> ?A. \<exists>w. w < n \<and> (\<forall>i. pcs s t = BR_set i \<longrightarrow>
      sleeps_in (pcs s w) = Some i \<and> counted (cell s) (pcs s w))" by fastforce
  from bchoice [OF this] obtain f where f: "\<And>t i. t < n \<Longrightarrow> pcs s t = BR_set i \<Longrightarrow>
      f t < n \<and> sleeps_in (pcs s (f t)) = Some i \<and> counted (cell s) (pcs s (f t))"
    by blast
  have "inj_on f ?A"
  proof (rule inj_onI)
    fix t u
    assume tu: "t \<in> ?A" "u \<in> ?A" "f t = f u"
    then obtain i j where ij: "pcs s t = BR_set i" "pcs s u = BR_set j" by blast
    with tu f [of t i] f [of u j] have "i = j" by auto
    with ij tu others_not_hold [OF inv, of t i u] show "t = u" by auto
  qed
  moreover have "f ` ?A \<subseteq> ?B" using f by auto
  ultimately have card: "card ?A \<le> card ?B" by (intro card_inj_on_le [of f]) auto
  have "(\<Sum>t<n. (if counted (cell s) (pcs s t) then 1 else 0) + (if \<exists>i. pcs s t = BR_set i then - 1 else 0 :: int))
      \<le> (\<Sum>t<n. weight (cell s) (pcs s t))"
    by (rule sum_mono) (use extra_cases(2) in \<open>simp add: weight_def\<close>)
  moreover have "(\<Sum>t<n. if counted (cell s) (pcs s t) then 1 else 0) = int (card ?B)"
    by (simp add: sum.If_cases Int_def conj_commute)
  moreover have "(\<Sum>t<n. if \<exists>i. pcs s t = BR_set i then - 1 else 0 :: int) = - int (card ?A)"
    by (simp add: sum.If_cases Int_def conj_commute)
  ultimately show "0 \<le> suspended s" using card I(1) by (simp add: sum.distrib)
qed

section \<open>Properties\<close>

text \<open>
  C22: However suspending, resuming and shutting down interleave, the threads never all sleep:
  at least one is neither asleep in a cell that nobody has resumed nor on the way there.
\<close>

theorem suspend_someone_awake:
  assumes "susp_reach n cells nQ s" "0 < n"
  shows "\<exists>t<n. \<forall>i. pcs s t \<noteq> TS_set i \<and>
    (pcs s t = TS_wait i \<or> pcs s t = TS_asleep i \<longrightarrow> cell s i \<noteq> SUSPENDED)"
proof -
  obtain t where "t < n" "\<not> counted (cell s) (pcs s t)"
    using susp_invD(6) [OF susp_reach_inv [OF assms(1)] assms(2)] by blast
  then show ?thesis by (intro exI [of _ t]) auto
qed

text \<open>One of two threads falls asleep in the only cell.\<close>

lemma one_asleep:
  "\<exists>s. susp_reach 2 1 1 s \<and> pcs s 0 = TS_asleep 0 \<and> pcs s 1 = Idle \<and> cell s 0 = SUSPENDED \<and> suspended s = 1"
proof -
  have s0: "susp_reach 2 1 1 (susp_init 1)" by (rule susp_reach.start)
  let ?s1 = "goto 0 (TS_check 0) (susp_init 1)"
  have s1: "susp_reach 2 1 1 ?s1"
    by (rule susp_reach.step [OF s0], rule susp_step.call_suspend) (simp_all add: susp_init_def)
  have "susp_step 2 1 1 ?s1 (goto 0 (TS_lock 0) ?s1)"
    using susp_step.ts_check [of 0 2 ?s1 0 1 1] by (simp add: susp_init_def)
  from susp_reach.step [OF s1 this] have s2: "susp_reach 2 1 1 (goto 0 (TS_lock 0) ?s1)" .
  let ?s2 = "goto 0 (TS_lock 0) ?s1"
  let ?s3 = "goto 0 (TS_recheck 0) (set_mutex 0 (Some 0) ?s2)"
  have s3: "susp_reach 2 1 1 ?s3"
    by (rule susp_reach.step [OF s2], rule susp_step.ts_lock) (simp_all add: susp_init_def)
  let ?s4 = "goto 0 (TS_add 0) ?s3"
  have s4: "susp_reach 2 1 1 ?s4"
    by (rule susp_reach.step [OF s3], rule susp_step.ts_recheck) (simp_all add: susp_init_def)
  let ?s5 = "goto 0 (TS_set 0) (add_suspended 1 ?s4)"
  have "susp_step 2 1 1 ?s4 ?s5"
    using susp_step.ts_add [of 0 2 ?s4 0 1 1] by (simp add: susp_init_def)
  from susp_reach.step [OF s4 this] have s5: "susp_reach 2 1 1 ?s5" .
  let ?s6 = "goto 0 (TS_wait 0) (set_cell 0 SUSPENDED ?s5)"
  have s6: "susp_reach 2 1 1 ?s6"
    by (rule susp_reach.step [OF s5], rule susp_step.ts_set) simp_all
  let ?s7 = "goto 0 (TS_asleep 0) (set_mutex 0 None ?s6)"
  have s7: "susp_reach 2 1 1 ?s7"
    by (rule susp_reach.step [OF s6], rule susp_step.ts_wait) simp_all
  show ?thesis by (rule exI [of _ ?s7]) (use s7 in \<open>simp add: susp_init_def\<close>)
qed

theorem suspend_someone_awake_witness:
  "\<exists>s. susp_reach 2 1 1 s \<and> pcs s 0 = TS_asleep 0 \<and> cell s 0 = SUSPENDED \<and> (\<exists>t<2. \<forall>i. pcs s t \<noteq> TS_set i)"
proof -
  obtain s where s: "susp_reach 2 1 1 s" "pcs s 0 = TS_asleep 0" "cell s 0 = SUSPENDED"
    using one_asleep by blast
  with suspend_someone_awake [OF s(1)] show ?thesis by auto
qed

text \<open>
  C23: At every moment at most one thread sleeps in a cell, a cell is not free exactly while one
  does, a thread between locking and unlocking a cell's mutex is the only one, and the counter
  \<open>suspended\<close> is between 0 and the number of threads.
\<close>

theorem suspend_cells_consistent:
  assumes "susp_reach n cells nQ s"
  shows "0 \<le> suspended s \<and> suspended s \<le> int n \<and>
    (cell s i \<noteq> FREE \<longleftrightarrow> (\<exists>!t. t < n \<and> sleeps_in (pcs s t) = Some i)) \<and>
    (t < n \<and> u < n \<and> holds (pcs s t) = Some i \<and> holds (pcs s u) = Some i \<longrightarrow> t = u)"
proof -
  note inv = susp_reach_inv [OF assms] and I = susp_invD [OF susp_reach_inv [OF assms]]
  have "cell s i \<noteq> FREE \<longleftrightarrow> (\<exists>!t. t < n \<and> sleeps_in (pcs s t) = Some i)"
    using I(3,4,5) by blast
  moreover have "t < n \<and> u < n \<and> holds (pcs s t) = Some i \<and> holds (pcs s u) = Some i \<longrightarrow> t = u"
    using others_not_hold [OF inv, of t i u] by blast
  ultimately show ?thesis using suspended_bounds [OF inv] by blast
qed

theorem suspend_cells_consistent_witness:
  "\<exists>s. susp_reach 2 1 1 s \<and> suspended s = 1 \<and> (\<exists>!t. t < 2 \<and> sleeps_in (pcs s t) = Some 0)"
proof -
  obtain s where s: "susp_reach 2 1 1 s" "cell s 0 = SUSPENDED" "suspended s = 1"
    using one_asleep by blast
  have "cell s 0 \<noteq> FREE \<longleftrightarrow> (\<exists>!t. t < 2 \<and> sleeps_in (pcs s t) = Some 0)"
    using suspend_cells_consistent [OF s(1), of 0 0 0] by blast
  with s show ?thesis by auto
qed

end
