(* ===== verification/FixedSize.thy ===== *)
theory FixedSize
  imports Prelude
begin

text \<open>
  \<open>FixedSizeBag\<close> and \<open>FixedSizeRing\<close> of \<open>Galois/FixedSizeRing.h\<close>, the chunks the Galois
  worklists and \<open>gdeque\<close> are made of. The storage is a list of \<open>chunksize\<close> cells; a cell is
  \<open>None\<close> while no object is constructed in it. \<open>ring_list\<close> and \<open>bag_list\<close> are the sequences the
  structures stand for; the invariants also say that exactly the cells in use hold an object, so
  that nothing is constructed over a live object or destroyed twice. Indices are \<open>nat\<close>; they stay
  below \<open>2 * chunksize\<close>. The address a push returns is the index of the cell.
\<close>

section \<open>FixedSizeBag\<close>

record 'a FixedSizeBag =
  b_datac :: "'a option list"
  b_count :: nat

definition bag_init :: "nat \<Rightarrow> 'a FixedSizeBag" where
  "bag_init chunksize = \<lparr>b_datac = replicate chunksize None, b_count = 0\<rparr>"

definition bag_size :: "'a FixedSizeBag \<Rightarrow> nat" where
  "bag_size B = b_count B"

definition bag_empty :: "'a FixedSizeBag \<Rightarrow> bool" where
  "bag_empty B \<longleftrightarrow> b_count B = 0"

definition bag_full :: "nat \<Rightarrow> 'a FixedSizeBag \<Rightarrow> bool" where
  "bag_full chunksize B \<longleftrightarrow> b_count B = chunksize"

definition bag_clear :: "'a FixedSizeBag \<Rightarrow> 'a FixedSizeBag" where
  "bag_clear B = B\<lparr>b_datac := foldl (\<lambda>d x. d[x := None]) (b_datac B) [0..<b_count B], b_count := 0\<rparr>"

definition bag_push_back :: "nat \<Rightarrow> 'a \<Rightarrow> 'a FixedSizeBag \<Rightarrow> nat option \<times> 'a FixedSizeBag" where
  "bag_push_back chunksize val B =
     (if bag_full chunksize B then (None, B)
      else let e = b_count B in (Some e, B\<lparr>b_count := b_count B + 1, b_datac := (b_datac B)[e := Some val]\<rparr>))"

definition bag_push_front :: "nat \<Rightarrow> 'a \<Rightarrow> 'a FixedSizeBag \<Rightarrow> nat option \<times> 'a FixedSizeBag" where
  "bag_push_front chunksize val B = bag_push_back chunksize val B"

definition bag_emplace_back :: "nat \<Rightarrow> 'a \<Rightarrow> 'a FixedSizeBag \<Rightarrow> nat option \<times> 'a FixedSizeBag" where
  "bag_emplace_back chunksize val B =
     (if bag_full chunksize B then (None, B)
      else let e = b_count B in (Some e, B\<lparr>b_count := b_count B + 1, b_datac := (b_datac B)[e := Some val]\<rparr>))"

definition bag_emplace_front :: "nat \<Rightarrow> 'a \<Rightarrow> 'a FixedSizeBag \<Rightarrow> nat option \<times> 'a FixedSizeBag" where
  "bag_emplace_front chunksize val B = bag_emplace_back chunksize val B"

text \<open>\<open>back\<close> and \<open>pop_back\<close> assert that the bag is not empty; \<open>None\<close> is the failed assertion.\<close>

definition bag_back :: "'a FixedSizeBag \<Rightarrow> 'a option" where
  "bag_back B = (if bag_empty B then None else b_datac B ! (b_count B - 1))"

definition bag_front :: "'a FixedSizeBag \<Rightarrow> 'a option" where
  "bag_front B = bag_back B"

definition bag_pop_back :: "'a FixedSizeBag \<Rightarrow> 'a FixedSizeBag option" where
  "bag_pop_back B =
     (if bag_empty B then None
      else let e = b_count B - 1 in Some (B\<lparr>b_datac := (b_datac B)[e := None], b_count := b_count B - 1\<rparr>))"

definition bag_pop_front :: "'a FixedSizeBag \<Rightarrow> 'a FixedSizeBag option" where
  "bag_pop_front B = bag_pop_back B"

definition bag_extract_back :: "'a FixedSizeBag \<Rightarrow> 'a option \<times> 'a FixedSizeBag" where
  "bag_extract_back B =
     (if \<not> bag_empty B then
        (case (bag_back B, bag_pop_back B) of (retval, Some B1) \<Rightarrow> (retval, B1) | (_, None) \<Rightarrow> (None, B))
      else (None, B))"

definition bag_extract_front :: "'a FixedSizeBag \<Rightarrow> 'a option \<times> 'a FixedSizeBag" where
  "bag_extract_front B = bag_extract_back B"

text \<open>The elements from \<open>begin()\<close> to \<open>end()\<close>.\<close>

definition bag_range :: "'a FixedSizeBag \<Rightarrow> 'a option list" where
  "bag_range B = take (b_count B) (b_datac B)"

section \<open>FixedSizeRing\<close>

record 'a FixedSizeRing =
  datac :: "'a option list"
  start :: nat
  count :: nat

definition ring_init :: "nat \<Rightarrow> 'a FixedSizeRing" where
  "ring_init chunksize = \<lparr>datac = replicate chunksize None, start = 0, count = 0\<rparr>"

definition ring_size :: "'a FixedSizeRing \<Rightarrow> nat" where
  "ring_size R = count R"

definition ring_empty :: "'a FixedSizeRing \<Rightarrow> bool" where
  "ring_empty R \<longleftrightarrow> count R = 0"

definition ring_full :: "nat \<Rightarrow> 'a FixedSizeRing \<Rightarrow> bool" where
  "ring_full chunksize R \<longleftrightarrow> count R = chunksize"

definition ring_getAt :: "nat \<Rightarrow> 'a FixedSizeRing \<Rightarrow> nat \<Rightarrow> 'a option" where
  "ring_getAt chunksize R x = (if ring_empty R then None else datac R ! ((start R + x) mod chunksize))"

definition ring_clear :: "nat \<Rightarrow> 'a FixedSizeRing \<Rightarrow> 'a FixedSizeRing" where
  "ring_clear chunksize R =
     R\<lparr>datac := foldl (\<lambda>d x. d[(start R + x) mod chunksize := None]) (datac R) [0..<count R],
       count := 0, start := 0\<rparr>"

definition ring_push_front :: "nat \<Rightarrow> 'a \<Rightarrow> 'a FixedSizeRing \<Rightarrow> nat option \<times> 'a FixedSizeRing" where
  "ring_push_front chunksize val R =
     (if ring_full chunksize R then (None, R)
      else let s = (start R + chunksize - 1) mod chunksize
           in (Some s, R\<lparr>start := s, count := count R + 1, datac := (datac R)[s := Some val]\<rparr>))"

definition ring_emplace_front :: "nat \<Rightarrow> 'a \<Rightarrow> 'a FixedSizeRing \<Rightarrow> nat option \<times> 'a FixedSizeRing" where
  "ring_emplace_front chunksize val R =
     (if ring_full chunksize R then (None, R)
      else let s = (start R + chunksize - 1) mod chunksize
           in (Some s, R\<lparr>start := s, count := count R + 1, datac := (datac R)[s := Some val]\<rparr>))"

definition ring_push_back :: "nat \<Rightarrow> 'a \<Rightarrow> 'a FixedSizeRing \<Rightarrow> nat option \<times> 'a FixedSizeRing" where
  "ring_push_back chunksize val R =
     (if ring_full chunksize R then (None, R)
      else let e = (start R + count R) mod chunksize
           in (Some e, R\<lparr>count := count R + 1, datac := (datac R)[e := Some val]\<rparr>))"

definition ring_emplace_back :: "nat \<Rightarrow> 'a \<Rightarrow> 'a FixedSizeRing \<Rightarrow> nat option \<times> 'a FixedSizeRing" where
  "ring_emplace_back chunksize val R =
     (if ring_full chunksize R then (None, R)
      else let e = (start R + count R) mod chunksize
           in (Some e, R\<lparr>count := count R + 1, datac := (datac R)[e := Some val]\<rparr>))"

definition ring_front :: "'a FixedSizeRing \<Rightarrow> 'a option" where
  "ring_front R = (if ring_empty R then None else datac R ! start R)"

definition ring_pop_front :: "nat \<Rightarrow> 'a FixedSizeRing \<Rightarrow> 'a FixedSizeRing option" where
  "ring_pop_front chunksize R =
     (if ring_empty R then None
      else Some (R\<lparr>datac := (datac R)[start R := None], start := (start R + 1) mod chunksize,
                   count := count R - 1\<rparr>))"

definition ring_extract_front :: "nat \<Rightarrow> 'a FixedSizeRing \<Rightarrow> 'a option \<times> 'a FixedSizeRing" where
  "ring_extract_front chunksize R =
     (if \<not> ring_empty R then
        (case ring_pop_front chunksize R of Some R1 \<Rightarrow> (ring_front R, R1) | None \<Rightarrow> (None, R))
      else (None, R))"

definition ring_back :: "nat \<Rightarrow> 'a FixedSizeRing \<Rightarrow> 'a option" where
  "ring_back chunksize R =
     (if ring_empty R then None else datac R ! ((start R + count R - 1) mod chunksize))"

definition ring_pop_back :: "nat \<Rightarrow> 'a FixedSizeRing \<Rightarrow> 'a FixedSizeRing option" where
  "ring_pop_back chunksize R =
     (if ring_empty R then None
      else let e = (start R + count R - 1) mod chunksize
           in Some (R\<lparr>datac := (datac R)[e := None], count := count R - 1\<rparr>))"

definition ring_extract_back :: "nat \<Rightarrow> 'a FixedSizeRing \<Rightarrow> 'a option \<times> 'a FixedSizeRing" where
  "ring_extract_back chunksize R =
     (if \<not> ring_empty R then
        (case ring_pop_back chunksize R of Some R1 \<Rightarrow> (ring_back chunksize R, R1) | None \<Rightarrow> (None, R))
      else (None, R))"

subsection \<open>Iterators\<close>

text \<open>\<open>base\<close> is the array or null; \<open>None\<close> of \<open>it_base\<close> is null.\<close>

record ring_iterator =
  it_base :: bool
  cur :: nat
  it_count :: nat

definition it_new :: "nat \<Rightarrow> nat \<Rightarrow> ring_iterator" where
  "it_new c co = (if co = 0 then \<lparr>it_base = False, cur = 0, it_count = co\<rparr>
                  else \<lparr>it_base = True, cur = c, it_count = co\<rparr>)"

definition it_null :: ring_iterator where
  "it_null = \<lparr>it_base = False, cur = 0, it_count = 0\<rparr>"

definition it_equal :: "ring_iterator \<Rightarrow> ring_iterator \<Rightarrow> bool" where
  "it_equal i j \<longleftrightarrow> it_base i = it_base j \<and> cur i = cur j \<and> it_count i = it_count j"

definition it_deref :: "'a FixedSizeRing \<Rightarrow> ring_iterator \<Rightarrow> 'a option" where
  "it_deref R i = datac R ! cur i"

definition it_increment :: "nat \<Rightarrow> bool \<Rightarrow> ring_iterator \<Rightarrow> ring_iterator" where
  "it_increment chunksize isForward i =
     (let co = it_count i - 1 in
      if co = 0 then \<lparr>it_base = False, cur = 0, it_count = co\<rparr>
      else i\<lparr>cur := (if isForward then (cur i + 1) mod chunksize else (cur i + chunksize - 1) mod chunksize),
             it_count := co\<rparr>)"

definition ring_begin :: "'a FixedSizeRing \<Rightarrow> ring_iterator" where
  "ring_begin R = it_new (start R) (count R)"

definition ring_rbegin :: "nat \<Rightarrow> 'a FixedSizeRing \<Rightarrow> ring_iterator" where
  "ring_rbegin chunksize R = it_new ((start R + count R - 1) mod chunksize) (count R)"

text \<open>A traversal \<open>for (i = begin; i != end; ++i)\<close> of at most \<open>n\<close> elements.\<close>

fun ring_walk :: "nat \<Rightarrow> nat \<Rightarrow> bool \<Rightarrow> 'a FixedSizeRing \<Rightarrow> ring_iterator \<Rightarrow> 'a option list option" where
  "ring_walk chunksize 0 isForward R i = (if it_equal i it_null then Some [] else None)"
| "ring_walk chunksize (Suc n) isForward R i =
     (if it_equal i it_null then Some []
      else map_option (Cons (it_deref R i)) (ring_walk chunksize n isForward R (it_increment chunksize isForward i)))"

section \<open>The ring is a list\<close>

definition slot :: "nat \<Rightarrow> nat \<Rightarrow> nat \<Rightarrow> nat" where
  "slot c s x = (s + x) mod c"

lemma slot_eq: "s < c \<Longrightarrow> x \<le> c \<Longrightarrow> slot c s x = (if s + x < c then s + x else s + x - c)"
  by (simp add: slot_def le_mod_geq)

lemma slot_less: "0 < c \<Longrightarrow> slot c s x < c"
  by (simp add: slot_def)

lemma slot_inj: "s < c \<Longrightarrow> x < c \<Longrightarrow> y < c \<Longrightarrow> slot c s x = slot c s y \<longleftrightarrow> x = y"
  by (simp add: slot_eq) arith

lemma slot_0: "s < c \<Longrightarrow> slot c s 0 = s"
  by (simp add: slot_def)

lemma slot_wrap: "s < c \<Longrightarrow> slot c s c = s"
  by (simp add: slot_def)

lemma slot_before: "s < c \<Longrightarrow> slot c ((s + c - 1) mod c) (Suc x) = slot c s x"
proof -
  assume "s < c"
  then have "s + c - 1 + Suc x = s + x + c" by simp
  then show ?thesis unfolding slot_def by (metis mod_add_left_eq mod_add_self2)
qed

lemma slot_after: "slot c (Suc s mod c) x = slot c s (Suc x)"
  unfolding slot_def by (simp add: mod_simps)

lemma slot_last: "s < c \<Longrightarrow> slot c s (c - 1) = (s + c - 1) mod c"
  by (simp add: slot_def)

text \<open>\<open>ring_rep c R l\<close>: the ring \<open>R\<close> stands for \<open>l\<close>; the cells outside hold no object.\<close>

definition ring_rep :: "nat \<Rightarrow> 'a FixedSizeRing \<Rightarrow> 'a list \<Rightarrow> bool" where
  "ring_rep c R l \<longleftrightarrow> 0 < c \<and> length (datac R) = c \<and> start R < c \<and> count R = length l \<and> length l \<le> c \<and>
     (\<forall>x < c. datac R ! slot c (start R) x = (if x < length l then Some (l ! x) else None))"

lemma ring_rep_cell:
  "ring_rep c R l \<Longrightarrow> x < length l \<Longrightarrow> datac R ! slot c (start R) x = Some (l ! x)"
  by (simp add: ring_rep_def)

lemma ring_init_rep: "0 < c \<Longrightarrow> ring_rep c (ring_init c) []"
  by (simp add: ring_rep_def ring_init_def slot_less)

lemma ring_empty_rep: "ring_rep c R l \<Longrightarrow> ring_empty R \<longleftrightarrow> l = []"
  by (simp add: ring_rep_def ring_empty_def)

lemma ring_full_rep: "ring_rep c R l \<Longrightarrow> ring_full c R \<longleftrightarrow> length l = c"
  by (simp add: ring_rep_def ring_full_def)

lemma ring_getAt_rep: "ring_rep c R l \<Longrightarrow> x < length l \<Longrightarrow> ring_getAt c R x = Some (l ! x)"
  using ring_rep_cell [of c R l x] by (auto simp: ring_getAt_def ring_empty_rep slot_def)

lemma ring_front_rep:
  assumes "ring_rep c R l"
  shows "ring_front R = (if l = [] then None else Some (hd l))"
proof (cases l)
  case Nil
  with assms show ?thesis by (simp add: ring_front_def ring_empty_rep)
next
  case (Cons v l')
  moreover have "start R < c" using assms by (simp add: ring_rep_def)
  ultimately show ?thesis
    using ring_rep_cell [OF assms, of 0] ring_empty_rep [OF assms] by (simp add: ring_front_def slot_0)
qed

lemma ring_back_rep:
  assumes "ring_rep c R l"
  shows "ring_back c R = (if l = [] then None else Some (last l))"
proof (cases l rule: rev_cases)
  case Nil
  with assms show ?thesis by (simp add: ring_back_def ring_empty_rep)
next
  case (snoc l' v)
  moreover have "count R = length l" using assms by (simp add: ring_rep_def)
  ultimately show ?thesis
    using ring_rep_cell [OF assms, of "length l'"] ring_empty_rep [OF assms]
    by (simp add: ring_back_def slot_def nth_append)
qed

lemma ring_push_back_rep:
  assumes "ring_rep c R l" "length l < c"
  shows "\<exists>p R'. ring_push_back c v R = (Some p, R') \<and> ring_rep c R' (l @ [v]) \<and> datac R ! p = None"
proof -
  let ?e = "slot c (start R) (length l)"
  have R: "0 < c" "length (datac R) = c" "start R < c" "count R = length l"
    "\<And>x. x < c \<Longrightarrow> datac R ! slot c (start R) x = (if x < length l then Some (l ! x) else None)"
    using assms(1) by (simp_all add: ring_rep_def)
  have "ring_push_back c v R = (Some ?e, R\<lparr>count := length l + 1, datac := (datac R)[?e := Some v]\<rparr>)"
    using assms(2) R(4) by (simp add: ring_push_back_def ring_full_def slot_def Let_def)
  moreover have "ring_rep c (R\<lparr>count := length l + 1, datac := (datac R)[?e := Some v]\<rparr>) (l @ [v])"
    using R assms(2) by (auto simp: ring_rep_def nth_list_update slot_less slot_inj nth_append)
  ultimately show ?thesis using R(5) [OF assms(2)] by auto
qed

lemma ring_push_front_rep:
  assumes "ring_rep c R l" "length l < c"
  shows "\<exists>p R'. ring_push_front c v R = (Some p, R') \<and> ring_rep c R' (v # l) \<and> datac R ! p = None"
proof -
  let ?s = "(start R + c - 1) mod c"
  have R: "0 < c" "length (datac R) = c" "start R < c" "count R = length l"
    "\<And>x. x < c \<Longrightarrow> datac R ! slot c (start R) x = (if x < length l then Some (l ! x) else None)"
    using assms(1) by (simp_all add: ring_rep_def)
  have s: "?s < c" "?s = slot c (start R) (c - 1)" using R(1) slot_last [OF R(3)] by simp_all
  have "ring_push_front c v R =
      (Some ?s, R\<lparr>start := ?s, count := length l + 1, datac := (datac R)[?s := Some v]\<rparr>)"
    using assms(2) R(4) by (simp add: ring_push_front_def ring_full_def Let_def)
  moreover have "ring_rep c (R\<lparr>start := ?s, count := length l + 1, datac := (datac R)[?s := Some v]\<rparr>) (v # l)"
  proof -
    have "(datac R)[?s := Some v] ! slot c ?s x = (if x < Suc (length l) then Some ((v # l) ! x) else None)"
      if x: "x < c" for x
    proof (cases x)
      case 0
      with s(1) R(2) show ?thesis by (simp add: slot_0)
    next
      case (Suc y)
      then have "slot c ?s x = slot c (start R) y" "y < c" "y \<noteq> c - 1"
        using slot_before [OF R(3), of y] x by auto
      then have "slot c ?s x \<noteq> ?s" using slot_inj [OF R(3), of y "c - 1"] s(2) R(1) by simp
      with \<open>slot c ?s x = slot c (start R) y\<close> R(5) [OF \<open>y < c\<close>] Suc show ?thesis by simp
    qed
    with R(1,2) s(1) assms(2) show ?thesis by (simp add: ring_rep_def)
  qed
  ultimately show ?thesis using R(5) [of "c - 1"] assms(2) s(2) by auto
qed

lemma ring_pop_front_rep:
  assumes "ring_rep c R (v # l)"
  shows "\<exists>R'. ring_pop_front c R = Some R' \<and> ring_rep c R' l \<and> datac R ! start R = Some v"
proof -
  have R: "0 < c" "length (datac R) = c" "start R < c" "count R = Suc (length l)" "length l < c"
    "\<And>x. x < c \<Longrightarrow> datac R ! slot c (start R) x = (if x < Suc (length l) then Some ((v # l) ! x) else None)"
    using assms by (simp_all add: ring_rep_def)
  let ?R = "R\<lparr>datac := (datac R)[start R := None], start := (start R + 1) mod c, count := count R - 1\<rparr>"
  have "(datac R)[start R := None] ! slot c ((start R + 1) mod c) x = (if x < length l then Some (l ! x) else None)"
    if x: "x < c" for x
  proof (cases "Suc x = c")
    case True
    then have "slot c (start R) (Suc x) = start R" using slot_wrap [OF R(3)] by simp
    with R(2,3,5) True show ?thesis by (simp add: slot_after)
  next
    case False
    with x have "Suc x < c" by simp
    then have "slot c (start R) (Suc x) \<noteq> start R"
      using slot_inj [OF R(3), of "Suc x" 0] R(1) slot_0 [OF R(3)] by simp
    with R(6) [OF \<open>Suc x < c\<close>] show ?thesis by (simp add: slot_after)
  qed
  with R have "ring_rep c ?R l" by (simp add: ring_rep_def)
  moreover have "ring_pop_front c R = Some ?R" using R(4) by (simp add: ring_pop_front_def ring_empty_def)
  ultimately show ?thesis using R(6) [of 0] R(1,3) by (auto simp: slot_0)
qed

lemma ring_pop_back_rep:
  assumes "ring_rep c R (l @ [v])"
  shows "\<exists>R'. ring_pop_back c R = Some R' \<and> ring_rep c R' l \<and>
    datac R ! ((start R + count R - 1) mod c) = Some v"
proof -
  have R: "0 < c" "length (datac R) = c" "start R < c" "count R = Suc (length l)" "length l < c"
    "\<And>x. x < c \<Longrightarrow> datac R ! slot c (start R) x = (if x < Suc (length l) then Some ((l @ [v]) ! x) else None)"
    using assms by (simp_all add: ring_rep_def)
  let ?e = "slot c (start R) (length l)"
  have e: "(start R + count R - 1) mod c = ?e" using R(4) by (simp add: slot_def)
  let ?R = "R\<lparr>datac := (datac R)[?e := None], count := count R - 1\<rparr>"
  have "ring_rep c ?R l"
    using R by (auto simp: ring_rep_def nth_list_update slot_less slot_inj nth_append)
  moreover have "ring_pop_back c R = Some ?R"
    using R(4) e by (simp add: ring_pop_back_def ring_empty_def Let_def)
  ultimately show ?thesis using R(6) [OF R(5)] e by (auto simp: nth_append)
qed

lemma destroy_all:
  "length (foldl (\<lambda>d x. d[f x := None]) d xs) = length d \<and>
   (\<forall>i < length d. foldl (\<lambda>d x. d[f x := None]) d xs ! i = (if i \<in> f ` set xs then None else d ! i))"
proof (induction xs arbitrary: d)
  case (Cons x xs)
  from Cons.IH [of "d[f x := None]"] show ?case by (auto simp: nth_list_update)
qed simp

lemma ring_clear_rep:
  assumes "ring_rep c R l"
  shows "ring_rep c (ring_clear c R) []"
proof -
  have R: "0 < c" "length (datac R) = c" "start R < c" "count R = length l" "length l \<le> c"
    "\<And>x. x < c \<Longrightarrow> datac R ! slot c (start R) x = (if x < length l then Some (l ! x) else None)"
    using assms by (simp_all add: ring_rep_def)
  have cells: "datac (ring_clear c R) = foldl (\<lambda>d x. d[slot c (start R) x := None]) (datac R) [0..<length l]"
    using R(4) by (simp add: ring_clear_def slot_def)
  note d = destroy_all [of "slot c (start R)" "datac R" "[0..<length l]", folded cells]
  have "datac (ring_clear c R) ! i = None" if "i < c" for i
  proof -
    define y where "y = (if start R \<le> i then i - start R else i + c - start R)"
    have y: "y < c" "slot c (start R) y = i" using that R(3) by (auto simp: y_def slot_eq)
    show ?thesis
    proof (cases "y < length l")
      case True
      then have "i \<in> slot c (start R) ` set [0..<length l]" using y(2) by force
      with d that R(2) show ?thesis by simp
    next
      case False
      then have "datac R ! i = None" using R(6) [OF y(1)] y(2) by simp
      with d that R(2) show ?thesis by simp
    qed
  qed
  with d R(1,2) show ?thesis by (simp add: ring_rep_def slot_less) (simp add: ring_clear_def)
qed

lemma emplace_is_push [simp]:
  "ring_emplace_back = ring_push_back" "ring_emplace_front = ring_push_front"
  by (simp_all add: ring_emplace_back_def ring_push_back_def ring_emplace_front_def ring_push_front_def fun_eq_iff)

subsection \<open>Traversal\<close>

lemma it_null_cases: "it_equal i it_null \<longleftrightarrow> \<not> it_base i \<and> cur i = 0 \<and> it_count i = 0"
  by (simp add: it_equal_def it_null_def)

lemma ring_walk_forward:
  assumes "ring_rep c R l" "k + n = length l"
  shows "ring_walk c n True R (it_new (slot c (start R) k) n) = Some (map Some (drop k l))"
  using assms(2)
proof (induction n arbitrary: k)
  case 0
  then show ?case by (simp add: it_new_def it_null_def it_equal_def)
next
  case (Suc n)
  have "it_increment c True (it_new (slot c (start R) k) (Suc n)) = it_new (slot c (start R) (Suc k)) n"
    by (simp add: it_increment_def it_new_def slot_def mod_simps)
  moreover have "datac R ! slot c (start R) k = Some (l ! k)"
    using Suc.prems by (intro ring_rep_cell [OF assms(1)]) simp
  moreover have "drop k l = l ! k # drop (Suc k) l" using Suc.prems by (simp add: Cons_nth_drop_Suc)
  ultimately show ?case using Suc.IH [of "Suc k"] Suc.prems
    by (simp add: it_null_cases it_deref_def) (simp add: it_new_def)
qed

lemma ring_walk_backward:
  assumes "ring_rep c R l" "n \<le> length l"
  shows "ring_walk c n False R (it_new (slot c (start R) (n - 1)) n) = Some (map Some (rev (take n l)))"
  using assms(2)
proof (induction n)
  case 0
  then show ?case by (simp add: it_new_def it_null_def it_equal_def)
next
  case (Suc n)
  have R: "start R < c" "length l \<le> c" using assms(1) by (simp_all add: ring_rep_def)
  have "(slot c (start R) n + c - 1) mod c = slot c (start R) (n - 1)" if "n > 0"
    using that R Suc.prems by (simp add: slot_eq) (auto simp: le_mod_geq)
  then have "it_increment c False (it_new (slot c (start R) n) (Suc n)) = it_new (slot c (start R) (n - 1)) n"
    by (simp add: it_increment_def it_new_def)
  moreover have "datac R ! slot c (start R) n = Some (l ! n)"
    using Suc.prems by (intro ring_rep_cell [OF assms(1)]) simp
  moreover have "rev (take (Suc n) l) = l ! n # rev (take n l)"
    using Suc.prems by (simp add: take_Suc_conv_app_nth)
  ultimately show ?case using Suc.IH Suc.prems
    by (simp add: it_null_cases it_deref_def) (simp add: it_new_def)
qed

section \<open>The bag is a stack\<close>

definition bag_rep :: "nat \<Rightarrow> 'a FixedSizeBag \<Rightarrow> 'a list \<Rightarrow> bool" where
  "bag_rep c B l \<longleftrightarrow> length l \<le> c \<and> b_count B = length l \<and>
     b_datac B = map Some l @ replicate (c - length l) None"

lemma bag_init_rep: "bag_rep c (bag_init c) []"
  by (simp add: bag_rep_def bag_init_def)

lemma replicate_update_first: "0 < n \<Longrightarrow> (replicate n a)[0 := b] = b # replicate (n - 1) a"
  by (cases n) simp_all

lemma bag_push_back_rep:
  assumes "bag_rep c B l"
  shows "if length l = c then bag_push_back c v B = (None, B)
    else fst (bag_push_back c v B) = Some (length l) \<and> bag_rep c (snd (bag_push_back c v B)) (l @ [v])"
proof (cases "length l = c")
  case True
  with assms show ?thesis by (simp add: bag_rep_def bag_push_back_def bag_full_def)
next
  case False
  then have "length l < c" using assms by (simp add: bag_rep_def)
  with assms show ?thesis
    by (auto simp: bag_rep_def bag_push_back_def bag_full_def Let_def list_update_append
        replicate_update_first)
qed

lemma bag_back_rep: "bag_rep c B l \<Longrightarrow> bag_back B = (if l = [] then None else Some (last l))"
  by (cases l rule: rev_cases) (simp_all add: bag_rep_def bag_back_def bag_empty_def nth_append)

lemma bag_pop_back_rep:
  assumes "bag_rep c B (l @ [v])"
  shows "\<exists>B'. bag_pop_back B = Some B' \<and> bag_rep c B' l"
proof -
  have "Suc (length l) \<le> c" using assms by (simp add: bag_rep_def)
  then have "Suc (c - Suc (length l)) = c - length l" by arith
  then have "None # replicate (c - Suc (length l)) None = replicate (c - length l) None"
    by (metis replicate_Suc)
  with assms show ?thesis
    by (auto simp: bag_rep_def bag_pop_back_def bag_empty_def Let_def list_update_append)
qed

lemma bag_clear_rep:
  assumes "bag_rep c B l"
  shows "bag_rep c (bag_clear B) []"
proof -
  note d = destroy_all [of "\<lambda>x. x" "b_datac B" "[0..<length l]"]
  have "foldl (\<lambda>d x. d[x := None]) (b_datac B) [0..<length l] = replicate c None"
  proof (rule nth_equalityI)
    show "length (foldl (\<lambda>d x. d[x := None]) (b_datac B) [0..<length l]) = length (replicate c None)"
      using d assms by (simp add: bag_rep_def)
    fix i
    assume "i < length (foldl (\<lambda>d x. d[x := None]) (b_datac B) [0..<length l])"
    with d assms show "foldl (\<lambda>d x. d[x := None]) (b_datac B) [0..<length l] ! i = replicate c None ! i"
      by (auto simp: bag_rep_def nth_append)
  qed
  with assms show ?thesis by (simp add: bag_rep_def bag_clear_def)
qed

section \<open>Properties\<close>

text \<open>
  \<open>FixedSizeRing\<close> is a double-ended queue of bounded size: each operation does to the
  sequence what its name says, a push on a full ring changes nothing and returns null, and a
  new object is constructed only in a cell without one.
\<close>

theorem FixedSizeRing_refines_deque:
  assumes "ring_rep c R l"
  shows "(if length l = c then ring_push_back c v R = (None, R) \<and> ring_push_front c v R = (None, R)
      else (\<exists>p R'. ring_push_back c v R = (Some p, R') \<and> ring_rep c R' (l @ [v]) \<and> datac R ! p = None) \<and>
        (\<exists>p R'. ring_push_front c v R = (Some p, R') \<and> ring_rep c R' (v # l) \<and> datac R ! p = None)) \<and>
    (l \<noteq> [] \<longrightarrow> (\<exists>R'. ring_extract_front c R = (Some (hd l), R') \<and> ring_rep c R' (tl l)) \<and>
       (\<exists>R'. ring_extract_back c R = (Some (last l), R') \<and> ring_rep c R' (butlast l))) \<and>
    (l = [] \<longrightarrow> ring_extract_front c R = (None, R) \<and> ring_extract_back c R = (None, R)) \<and>
    (\<forall>x < length l. ring_getAt c R x = Some (l ! x)) \<and> ring_rep c (ring_clear c R) []"
proof (intro conjI impI allI)
  have "length l \<noteq> c \<Longrightarrow> length l < c" using assms by (simp add: ring_rep_def)
  then show "if length l = c then ring_push_back c v R = (None, R) \<and> ring_push_front c v R = (None, R)
      else (\<exists>p R'. ring_push_back c v R = (Some p, R') \<and> ring_rep c R' (l @ [v]) \<and> datac R ! p = None) \<and>
        (\<exists>p R'. ring_push_front c v R = (Some p, R') \<and> ring_rep c R' (v # l) \<and> datac R ! p = None)"
    using ring_push_back_rep [OF assms, of v] ring_push_front_rep [OF assms, of v] ring_full_rep [OF assms]
    by (simp add: ring_push_back_def ring_push_front_def)
next
  assume "l \<noteq> []"
  then obtain w k where l: "l = w # k" by (cases l) auto
  show "\<exists>R'. ring_extract_front c R = (Some (hd l), R') \<and> ring_rep c R' (tl l)"
    using ring_pop_front_rep [of c R w k] ring_front_rep [OF assms] ring_empty_rep [OF assms] assms l
    by (auto simp: ring_extract_front_def)
next
  assume "l \<noteq> []"
  then obtain w k where l: "l = k @ [w]" by (cases l rule: rev_cases) auto
  show "\<exists>R'. ring_extract_back c R = (Some (last l), R') \<and> ring_rep c R' (butlast l)"
    using ring_pop_back_rep [of c R k w] ring_back_rep [OF assms] ring_empty_rep [OF assms] assms l
    by (auto simp: ring_extract_back_def)
qed (use assms in \<open>simp_all add: ring_extract_front_def ring_extract_back_def ring_empty_rep
    ring_getAt_rep ring_clear_rep\<close>)

theorem FixedSizeRing_refines_deque_witness:
  "\<exists>R. ring_rep 3 R [7, 8, 9 :: nat] \<and> start R = 2 \<and> ring_push_back 3 5 R = (None, R) \<and>
     fst (ring_extract_back 3 R) = Some 9"
proof -
  let ?R = "\<lparr>datac = [Some 8, Some 9, Some 7], start = 2, count = 3\<rparr> :: nat FixedSizeRing"
  have rep: "ring_rep 3 ?R [7, 8, 9]"
    by code_simp
  show ?thesis
    using FixedSizeRing_refines_deque [OF rep, of 5] rep by (intro exI [of _ ?R]) auto
qed

text \<open>
  A traversal of a \<open>FixedSizeRing\<close> from \<open>begin()\<close> to \<open>end()\<close> ends and visits the elements in
  order, one from \<open>rbegin()\<close> to \<open>rend()\<close> visits them in the reverse order.
\<close>

theorem FixedSizeRing_traversal:
  assumes "ring_rep c R l"
  shows "ring_walk c (count R) True R (ring_begin R) = Some (map Some l) \<and>
    ring_walk c (count R) False R (ring_rbegin c R) = Some (map Some (rev l))"
proof -
  have R: "count R = length l" "start R < c" using assms by (simp_all add: ring_rep_def)
  have "ring_begin R = it_new (slot c (start R) 0) (length l)"
    using R by (simp add: ring_begin_def slot_0)
  moreover have "ring_rbegin c R = it_new (slot c (start R) (length l - 1)) (length l)"
    using R by (cases l) (simp_all add: ring_rbegin_def it_new_def slot_def)
  ultimately show ?thesis
    using ring_walk_forward [OF assms, of 0 "length l"] ring_walk_backward [OF assms order_refl] R(1)
    by simp
qed

theorem FixedSizeRing_traversal_witness:
  "ring_walk 2 1 True \<lparr>datac = [None, Some (4 :: nat)], start = 1, count = 1\<rparr> \<lparr>it_base = True, cur = 1, it_count = 1\<rparr>
     = Some [Some 4]"
proof -
  let ?R = "\<lparr>datac = [None, Some (4 :: nat)], start = 1, count = 1\<rparr>"
  have "ring_rep 2 ?R [4]"
    by code_simp
  from FixedSizeRing_traversal [OF this] show ?thesis by (simp add: ring_begin_def it_new_def)
qed

text \<open>
  \<open>FixedSizeBag\<close> is a bounded stack: \<open>push_front\<close> and \<open>push_back\<close> both push, \<open>extract_front\<close>
  and \<open>extract_back\<close> both pop, and the elements stay in the first \<open>count\<close> cells.
\<close>

theorem FixedSizeBag_refines_stack:
  assumes "bag_rep c B l"
  shows "(if length l = c then bag_push_back c v B = (None, B) \<and> bag_push_front c v B = (None, B)
      else (\<exists>B'. bag_push_back c v B = (Some (length l), B') \<and> bag_push_front c v B = (Some (length l), B') \<and>
        bag_rep c B' (l @ [v]))) \<and>
    (if l = [] then bag_extract_back B = (None, B) \<and> bag_extract_front B = (None, B)
     else \<exists>B'. bag_extract_back B = (Some (last l), B') \<and> bag_extract_front B = (Some (last l), B') \<and>
       bag_rep c B' (butlast l)) \<and>
    bag_range B = map Some l \<and> bag_rep c (bag_clear B) []"
proof (intro conjI)
  show "if length l = c then bag_push_back c v B = (None, B) \<and> bag_push_front c v B = (None, B)
      else (\<exists>B'. bag_push_back c v B = (Some (length l), B') \<and> bag_push_front c v B = (Some (length l), B') \<and>
        bag_rep c B' (l @ [v]))"
    using bag_push_back_rep [OF assms, of v] by (cases "bag_push_back c v B") (auto simp: bag_push_front_def)
  show "if l = [] then bag_extract_back B = (None, B) \<and> bag_extract_front B = (None, B)
     else \<exists>B'. bag_extract_back B = (Some (last l), B') \<and> bag_extract_front B = (Some (last l), B') \<and>
       bag_rep c B' (butlast l)"
  proof (cases l rule: rev_cases)
    case Nil
    with assms show ?thesis
      by (simp add: bag_extract_front_def bag_extract_back_def bag_empty_def bag_rep_def)
  next
    case (snoc k w)
    have "\<not> bag_empty B" using assms snoc by (simp add: bag_empty_def bag_rep_def)
    with bag_pop_back_rep [of c B k w] bag_back_rep [OF assms] assms snoc show ?thesis
      by (auto simp: bag_extract_front_def bag_extract_back_def)
  qed
  show "bag_range B = map Some l" using assms by (simp add: bag_range_def bag_rep_def)
qed (rule bag_clear_rep [OF assms])

theorem FixedSizeBag_refines_stack_witness:
  "bag_extract_front \<lparr>b_datac = [Some 1, Some (2 :: nat), None], b_count = 2\<rparr> =
     (Some 2, \<lparr>b_datac = [Some 1, None, None], b_count = 1\<rparr>)"
proof -
  let ?B = "\<lparr>b_datac = [Some 1, Some (2 :: nat), None], b_count = 2\<rparr>"
  have "bag_rep 3 ?B [1, 2]" by (simp add: bag_rep_def)
  from FixedSizeBag_refines_stack [OF this, of 0]
  obtain B' where "bag_extract_front ?B = (Some 2, B')" "bag_rep 3 B' [1]" by auto
  then show ?thesis
    by (cases B') (simp add: bag_extract_front_def bag_extract_back_def bag_empty_def bag_back_def
        bag_pop_back_def bag_rep_def)
qed

end
