(* ===== verification/GDeque.thy ===== *)
theory GDeque
  imports FixedSize "HOL-Library.Monad_Syntax"
begin

text \<open>
  \<open>gdeque\<close> of \<open>Galois/gdeque.h\<close>: a double-ended queue made of blocks, each a container of
  bounded size, in a doubly linked list from \<open>first\<close> to \<open>last\<close>. Block pointers are addresses in a memory of blocks, \<open>None\<close>
  the null pointer; the allocator \<open>heap\<close> gives an address that is not in use and never gives one again, so an access through a
  pointer to a freed block is an access outside the memory. What \<open>gdeque\<close> calls of its parameter \<open>ContainerTy\<close> is a record of
  operations and the locale \<open>block_container\<close> states what they promise; \<open>FixedSizeRing\<close>, the
  default, is shown to keep it. A failed assertion and an access through a null pointer or to a freed block are \<open>None\<close>. \<open>num\<close> has
  its 32 bits.
\<close>

section \<open>The interface of a block\<close>

record ('a, 'b) block_ops =
  k_new :: 'b
  k_emplace_back :: "'a \<Rightarrow> 'b \<Rightarrow> bool \<times> 'b"
  k_emplace_front :: "'a \<Rightarrow> 'b \<Rightarrow> bool \<times> 'b"
  k_pop_back :: "'b \<Rightarrow> 'b option"
  k_pop_front :: "'b \<Rightarrow> 'b option"
  k_front :: "'b \<Rightarrow> 'a option"
  k_back :: "'b \<Rightarrow> 'a option"
  k_empty :: "'b \<Rightarrow> bool"
  k_size :: "'b \<Rightarrow> nat"
  k_getAt :: "'b \<Rightarrow> nat \<Rightarrow> 'a option"

locale block_container =
  fixes K :: "('a, 'b) block_ops" and krep :: "'b \<Rightarrow> 'a list \<Rightarrow> bool" and cap :: nat
  assumes cap_pos: "0 < cap"
    and new_rep: "krep (k_new K) []"
    and cap_le: "krep b l \<Longrightarrow> length l \<le> cap"
    and back_full: "krep b l \<Longrightarrow> length l = cap \<Longrightarrow> k_emplace_back K v b = (False, b)"
    and front_full: "krep b l \<Longrightarrow> length l = cap \<Longrightarrow> k_emplace_front K v b = (False, b)"
    and back_add: "krep b l \<Longrightarrow> length l < cap \<Longrightarrow>
      \<exists>b'. k_emplace_back K v b = (True, b') \<and> krep b' (l @ [v])"
    and front_add: "krep b l \<Longrightarrow> length l < cap \<Longrightarrow>
      \<exists>b'. k_emplace_front K v b = (True, b') \<and> krep b' (v # l)"
    and back_rem: "krep b (l @ [v]) \<Longrightarrow> \<exists>b'. k_pop_back K b = Some b' \<and> krep b' l"
    and front_rem: "krep b (v # l) \<Longrightarrow> \<exists>b'. k_pop_front K b = Some b' \<and> krep b' l"
    and front_val: "krep b (v # l) \<Longrightarrow> k_front K b = Some v"
    and back_val: "krep b (l @ [v]) \<Longrightarrow> k_back K b = Some v"
    and empty_rep: "krep b l \<Longrightarrow> k_empty K b \<longleftrightarrow> l = []"
    and size_rep: "krep b l \<Longrightarrow> k_size K b = length l"
    and at_rep: "krep b l \<Longrightarrow> x < length l \<Longrightarrow> k_getAt K b x = Some (l ! x)"

section \<open>gdeque\<close>

record 'b Block =
  b_cont :: 'b
  b_next :: "nat option"
  b_prev :: "nat option"

record 'b gdeque =
  g_first :: "nat option"
  g_last :: "nat option"
  g_num :: u32
  g_mem :: "nat \<Rightarrow> 'b Block option"
  g_heap :: nat

definition gdeque_init :: "'b gdeque" where
  "gdeque_init = \<lparr>g_first = None, g_last = None, g_num = 0, g_mem = \<lambda>_. None, g_heap = 0\<rparr>"

definition check_that :: "bool \<Rightarrow> unit option" where
  "check_that b = (if b then Some () else None)"

text \<open>Reading and writing the block a pointer points to.\<close>

definition block_at :: "'b gdeque \<Rightarrow> nat option \<Rightarrow> 'b Block option" where
  "block_at d p = Option.bind p (g_mem d)"

definition set_block :: "nat option \<Rightarrow> ('b Block \<Rightarrow> 'b Block) \<Rightarrow> 'b gdeque \<Rightarrow> 'b gdeque option" where
  "set_block p f d = do { a \<leftarrow> p; b \<leftarrow> g_mem d a; Some (d\<lparr>g_mem := (g_mem d)(a \<mapsto> f b)\<rparr>) }"

definition alloc_block :: "('a, 'b) block_ops \<Rightarrow> 'b gdeque \<Rightarrow> nat \<times> 'b gdeque" where
  "alloc_block K d =
     (g_heap d, d\<lparr>g_mem := (g_mem d)(g_heap d \<mapsto> \<lparr>b_cont = k_new K, b_next = None, b_prev = None\<rparr>), g_heap := g_heap d + 1\<rparr>)"

definition free_block :: "nat option \<Rightarrow> 'b gdeque \<Rightarrow> 'b gdeque option" where
  "free_block p d = do { a \<leftarrow> p; b \<leftarrow> g_mem d a; Some (d\<lparr>g_mem := (g_mem d)(a := None)\<rparr>) }"

definition g_precondition :: "'b gdeque \<Rightarrow> bool" where
  "g_precondition d \<longleftrightarrow> (g_num d = 0 \<and> g_first d = None \<and> g_last d = None) \<or>
     (g_num d > 0 \<and> g_first d \<noteq> None \<and> g_last d \<noteq> None)"

definition gdeque_size :: "'b gdeque \<Rightarrow> nat option" where
  "gdeque_size d = do { check_that (g_precondition d); Some (unat (g_num d)) }"

definition gdeque_empty :: "'b gdeque \<Rightarrow> bool option" where
  "gdeque_empty d = do { check_that (g_precondition d); Some (g_num d = 0) }"

definition extend_first :: "('a, 'b) block_ops \<Rightarrow> 'b gdeque \<Rightarrow> 'b gdeque option" where
  "extend_first K d0 =
     (let (b, d) = alloc_block K d0 in do {
        d \<leftarrow> set_block (Some b) (\<lambda>x. x\<lparr>b_next := g_first d\<rparr>) d;
        d \<leftarrow> (if g_first d \<noteq> None then set_block (g_first d) (\<lambda>x. x\<lparr>b_prev := Some b\<rparr>) d else Some d);
        let d = d\<lparr>g_first := Some b\<rparr>;
        Some (if g_last d = None then d\<lparr>g_last := Some b\<rparr> else d)
      })"

definition extend_last :: "('a, 'b) block_ops \<Rightarrow> 'b gdeque \<Rightarrow> 'b gdeque option" where
  "extend_last K d0 =
     (let (b, d) = alloc_block K d0 in do {
        d \<leftarrow> set_block (Some b) (\<lambda>x. x\<lparr>b_prev := g_last d\<rparr>) d;
        d \<leftarrow> (if g_last d \<noteq> None then set_block (g_last d) (\<lambda>x. x\<lparr>b_next := Some b\<rparr>) d else Some d);
        let d = d\<lparr>g_last := Some b\<rparr>;
        Some (if g_first d = None then d\<lparr>g_first := Some b\<rparr> else d)
      })"

definition shrink_first :: "'b gdeque \<Rightarrow> 'b gdeque option" where
  "shrink_first d = do {
     let p = g_first d;
     b \<leftarrow> block_at d p;
     let d = d\<lparr>g_first := b_next b\<rparr>;
     d \<leftarrow> (if b_next b \<noteq> None then set_block (b_next b) (\<lambda>x. x\<lparr>b_prev := None\<rparr>) d else Some (d\<lparr>g_last := None\<rparr>));
     free_block p d
   }"

definition shrink_last :: "'b gdeque \<Rightarrow> 'b gdeque option" where
  "shrink_last d = do {
     let p = g_last d;
     b \<leftarrow> block_at d p;
     let d = d\<lparr>g_last := b_prev b\<rparr>;
     d \<leftarrow> (if b_prev b \<noteq> None then set_block (b_prev b) (\<lambda>x. x\<lparr>b_next := None\<rparr>) d else Some (d\<lparr>g_first := None\<rparr>));
     free_block p d
   }"

definition gdeque_front :: "('a, 'b) block_ops \<Rightarrow> 'b gdeque \<Rightarrow> 'a option" where
  "gdeque_front K d = do {
     e \<leftarrow> gdeque_empty d; check_that (\<not> e);
     b \<leftarrow> block_at d (g_first d); k_front K (b_cont b)
   }"

definition gdeque_back :: "('a, 'b) block_ops \<Rightarrow> 'b gdeque \<Rightarrow> 'a option" where
  "gdeque_back K d = do {
     e \<leftarrow> gdeque_empty d; check_that (\<not> e);
     b \<leftarrow> block_at d (g_last d); k_back K (b_cont b)
   }"

definition gdeque_pop_back :: "('a, 'b) block_ops \<Rightarrow> 'b gdeque \<Rightarrow> 'b gdeque option" where
  "gdeque_pop_back K d = do {
     e \<leftarrow> gdeque_empty d; check_that (\<not> e);
     let d = d\<lparr>g_num := g_num d - 1\<rparr>;
     b \<leftarrow> block_at d (g_last d);
     c \<leftarrow> k_pop_back K (b_cont b);
     d \<leftarrow> set_block (g_last d) (\<lambda>x. x\<lparr>b_cont := c\<rparr>) d;
     if k_empty K c then shrink_last d else Some d
   }"

definition gdeque_pop_front :: "('a, 'b) block_ops \<Rightarrow> 'b gdeque \<Rightarrow> 'b gdeque option" where
  "gdeque_pop_front K d = do {
     e \<leftarrow> gdeque_empty d; check_that (\<not> e);
     let d = d\<lparr>g_num := g_num d - 1\<rparr>;
     b \<leftarrow> block_at d (g_first d);
     c \<leftarrow> k_pop_front K (b_cont b);
     d \<leftarrow> set_block (g_first d) (\<lambda>x. x\<lparr>b_cont := c\<rparr>) d;
     if k_empty K c then shrink_first d else Some d
   }"

text \<open>The loop of \<open>clear\<close>; the elements of a block go with the block.\<close>

partial_function (option) clear_loop :: "nat option \<Rightarrow> 'b gdeque \<Rightarrow> 'b gdeque option" where
  "clear_loop p d =
     (case p of None \<Rightarrow> Some d
      | Some a \<Rightarrow> do { b \<leftarrow> block_at d p; d \<leftarrow> free_block p d; clear_loop (b_next b) d })"

declare clear_loop.simps [code]

definition gdeque_clear :: "'b gdeque \<Rightarrow> 'b gdeque option" where
  "gdeque_clear d = do {
     check_that (g_precondition d);
     d \<leftarrow> clear_loop (g_first d) d;
     Some (d\<lparr>g_first := None, g_last := None, g_num := 0\<rparr>)
   }"

text \<open>\<open>emplace_back\<close> of a block that is there, with whether it had room.\<close>

definition try_emplace_back :: "('a, 'b) block_ops \<Rightarrow> 'a \<Rightarrow> 'b gdeque \<Rightarrow> (bool \<times> 'b gdeque) option" where
  "try_emplace_back K v d = do {
     b \<leftarrow> block_at d (g_last d);
     let r = k_emplace_back K v (b_cont b);
     d \<leftarrow> set_block (g_last d) (\<lambda>x. x\<lparr>b_cont := snd r\<rparr>) d;
     Some (fst r, d)
   }"

definition try_emplace_front :: "('a, 'b) block_ops \<Rightarrow> 'a \<Rightarrow> 'b gdeque \<Rightarrow> (bool \<times> 'b gdeque) option" where
  "try_emplace_front K v d = do {
     b \<leftarrow> block_at d (g_first d);
     let r = k_emplace_front K v (b_cont b);
     d \<leftarrow> set_block (g_first d) (\<lambda>x. x\<lparr>b_cont := snd r\<rparr>) d;
     Some (fst r, d)
   }"

text \<open>The second attempt, on the new block, is asserted to succeed.\<close>

definition gdeque_emplace_back :: "('a, 'b) block_ops \<Rightarrow> 'a \<Rightarrow> 'b gdeque \<Rightarrow> 'b gdeque option" where
  "gdeque_emplace_back K v d = do {
     check_that (g_precondition d);
     let d = d\<lparr>g_num := g_num d + 1\<rparr>;
     (added, d) \<leftarrow> (if g_last d \<noteq> None then try_emplace_back K v d else Some (False, d));
     if added then Some d
     else do {
       d \<leftarrow> extend_last K d;
       (p, d) \<leftarrow> try_emplace_back K v d;
       check_that p;
       Some d
     }
   }"

definition gdeque_emplace_front :: "('a, 'b) block_ops \<Rightarrow> 'a \<Rightarrow> 'b gdeque \<Rightarrow> 'b gdeque option" where
  "gdeque_emplace_front K v d = do {
     check_that (g_precondition d);
     let d = d\<lparr>g_num := g_num d + 1\<rparr>;
     (added, d) \<leftarrow> (if g_first d \<noteq> None then try_emplace_front K v d else Some (False, d));
     if added then Some d
     else do {
       d \<leftarrow> extend_first K d;
       (p, d) \<leftarrow> try_emplace_front K v d;
       check_that p;
       Some d
     }
   }"

definition gdeque_push_back :: "('a, 'b) block_ops \<Rightarrow> 'a \<Rightarrow> 'b gdeque \<Rightarrow> 'b gdeque option" where
  "gdeque_push_back K v d = gdeque_emplace_back K v d"

definition gdeque_push_front :: "('a, 'b) block_ops \<Rightarrow> 'a \<Rightarrow> 'b gdeque \<Rightarrow> 'b gdeque option" where
  "gdeque_push_front K v d = gdeque_emplace_front K v d"

subsection \<open>Iterators\<close>

record gdeque_iterator =
  gi_b :: "nat option"
  gi_offset :: nat

definition gdeque_begin :: "'b gdeque \<Rightarrow> gdeque_iterator option" where
  "gdeque_begin d = do { check_that (g_precondition d); Some \<lparr>gi_b = g_first d, gi_offset = 0\<rparr> }"

definition gdeque_end :: "'b gdeque \<Rightarrow> gdeque_iterator option" where
  "gdeque_end d = do { check_that (g_precondition d); Some \<lparr>gi_b = None, gi_offset = 0\<rparr> }"

definition gi_increment :: "('a, 'b) block_ops \<Rightarrow> 'b gdeque \<Rightarrow> gdeque_iterator \<Rightarrow> gdeque_iterator option" where
  "gi_increment K d i =
     (if gi_b i = None then Some i
      else do {
        b \<leftarrow> block_at d (gi_b i);
        let off = gi_offset i + 1;
        Some (if off = k_size K (b_cont b) then \<lparr>gi_b = b_next b, gi_offset = 0\<rparr> else i\<lparr>gi_offset := off\<rparr>)
      })"

definition gi_equal :: "gdeque_iterator \<Rightarrow> gdeque_iterator \<Rightarrow> bool" where
  "gi_equal i j \<longleftrightarrow> gi_b i = gi_b j \<and> gi_offset i = gi_offset j"

definition gi_deref :: "('a, 'b) block_ops \<Rightarrow> 'b gdeque \<Rightarrow> gdeque_iterator \<Rightarrow> 'a option" where
  "gi_deref K d i = do { b \<leftarrow> block_at d (gi_b i); k_getAt K (b_cont b) (gi_offset i) }"

text \<open>\<open>insert\<close> of \<open>n\<close> copies at the end: the iterator to the first of them.\<close>

fun push_copies :: "('a, 'b) block_ops \<Rightarrow> nat \<Rightarrow> 'a \<Rightarrow> 'b gdeque \<Rightarrow> 'b gdeque option" where
  "push_copies K 0 v d = Some d"
| "push_copies K (Suc n) v d = do { d \<leftarrow> gdeque_push_back K v d; push_copies K n v d }"

definition gdeque_insert ::
    "('a, 'b) block_ops \<Rightarrow> gdeque_iterator \<Rightarrow> nat \<Rightarrow> 'a \<Rightarrow> 'b gdeque \<Rightarrow> (gdeque_iterator \<times> 'b gdeque) option" where
  "gdeque_insert K position n val d = do {
     e \<leftarrow> gdeque_end d;
     check_that (gi_equal position e);
     if n = 0 then do { e \<leftarrow> gdeque_end d; Some (e, d) }
     else do {
       d \<leftarrow> gdeque_push_back K val d;
       b \<leftarrow> block_at d (g_last d);
       let retval = \<lparr>gi_b = g_last d, gi_offset = k_size K (b_cont b) - 1\<rparr>;
       d \<leftarrow> push_copies K (n - 1) val d;
       Some (retval, d)
     }
   }"

text \<open>A traversal of at most \<open>n\<close> elements from an iterator.\<close>

fun gdeque_walk :: "('a, 'b) block_ops \<Rightarrow> nat \<Rightarrow> 'b gdeque \<Rightarrow> gdeque_iterator \<Rightarrow> 'a list option" where
  "gdeque_walk K n d i = do {
     e \<leftarrow> gdeque_end d;
     if gi_equal i e then Some []
     else (case n of 0 \<Rightarrow> None
           | Suc m \<Rightarrow> do { x \<leftarrow> gi_deref K d i; j \<leftarrow> gi_increment K d i; xs \<leftarrow> gdeque_walk K m d j; Some (x # xs) })
   }"

declare gdeque_walk.simps [simp del]

section \<open>The list of blocks\<close>

definition head_ptr :: "(nat \<times> 'b) list \<Rightarrow> nat option \<Rightarrow> nat option" where
  "head_ptr xs p = (case xs of [] \<Rightarrow> p | x # _ \<Rightarrow> Some (fst x))"

definition last_ptr :: "nat option \<Rightarrow> (nat \<times> 'b) list \<Rightarrow> nat option" where
  "last_ptr p xs = (if xs = [] then p else Some (fst (last xs)))"

lemma ptr_simps [simp]:
  "head_ptr [] p = p" "head_ptr (x # xs) p = Some (fst x)" "last_ptr p [] = p" "last_ptr p (xs @ [x]) = Some (fst x)"
  "last_ptr p (x # xs) = last_ptr (Some (fst x)) xs"
  by (simp_all add: head_ptr_def last_ptr_def)

lemma ptr_append:
  "head_ptr (xs @ ys) p = head_ptr xs (head_ptr ys p)" "last_ptr p (xs @ ys) = last_ptr (last_ptr p xs) ys"
  by (simp_all add: head_ptr_def last_ptr_def split: list.splits)

text \<open>
  \<open>links\<close>: the blocks at the addresses of \<open>xs\<close> hold the contents of \<open>xs\<close> and point to each other in both directions;
  \<open>pv\<close> and \<open>nx\<close> are the neighbours outside.
\<close>

fun links :: "(nat \<Rightarrow> 'b Block option) \<Rightarrow> nat option \<Rightarrow> (nat \<times> 'b) list \<Rightarrow> nat option \<Rightarrow> bool" where
  "links m pv [] nx \<longleftrightarrow> True"
| "links m pv (x # xs) nx \<longleftrightarrow>
     m (fst x) = Some \<lparr>b_cont = snd x, b_next = head_ptr xs nx, b_prev = pv\<rparr> \<and> links m (Some (fst x)) xs nx"

lemma links_append:
  "links m pv (xs @ ys) nx \<longleftrightarrow> links m pv xs (head_ptr ys nx) \<and> links m (last_ptr pv xs) ys nx"
  by (induction xs arbitrary: pv) (auto simp: ptr_append)

lemma links_upd [simp]: "a \<notin> fst ` set xs \<Longrightarrow> links (m(a := v)) pv xs nx = links m pv xs nx"
  by (induction xs arbitrary: pv) auto

text \<open>
  The deque's blocks are those of \<open>bs\<close>, in this order, and nothing else is allocated.
\<close>

definition blocks :: "'b gdeque \<Rightarrow> (nat \<times> 'b) list \<Rightarrow> bool" where
  "blocks d bs \<longleftrightarrow> links (g_mem d) None bs None \<and> distinct (map fst bs) \<and> dom (g_mem d) = fst ` set bs \<and>
     g_first d = head_ptr bs None \<and> g_last d = last_ptr None bs \<and> (\<forall>x \<in> set bs. fst x < g_heap d)"

lemma blocks_num [simp]: "blocks (d\<lparr>g_num := n\<rparr>) bs = blocks d bs"
  by (simp add: blocks_def)

lemma blocks_ptrs: "blocks d bs \<Longrightarrow> g_first d = head_ptr bs None \<and> g_last d = last_ptr None bs"
  by (simp add: blocks_def)

lemma extend_first_blocks:
  assumes "blocks d bs"
  shows "\<exists>d'. extend_first K d = Some d' \<and> blocks d' ((g_heap d, k_new K) # bs) \<and> g_num d' = g_num d"
proof -
  let ?h = "g_heap d"
  have new: "?h \<notin> fst ` set bs" using assms by (auto simp: blocks_def)
  show ?thesis
  proof (cases bs)
    case Nil
    then show ?thesis using assms
      by (simp add: extend_first_def alloc_block_def set_block_def Let_def blocks_def)
  next
    case (Cons x xs)
    let ?m = "(g_mem d)(?h \<mapsto> \<lparr>b_cont = k_new K, b_next = Some (fst x), b_prev = None\<rparr>,
        fst x \<mapsto> \<lparr>b_cont = snd x, b_next = head_ptr xs None, b_prev = Some ?h\<rparr>)"
    have ne: "fst x \<noteq> ?h" "fst x \<notin> fst ` set xs" "?h \<notin> fst ` set xs" using assms new Cons by (auto simp: blocks_def)
    have "extend_first K d = Some (d\<lparr>g_mem := ?m, g_heap := ?h + 1, g_first := Some ?h\<rparr>)"
      using assms Cons ne by (simp add: extend_first_def alloc_block_def set_block_def Let_def blocks_def last_ptr_def)
    moreover have "blocks (d\<lparr>g_mem := ?m, g_heap := ?h + 1, g_first := Some ?h\<rparr>) ((?h, k_new K) # bs)"
      using assms Cons ne by (auto simp: blocks_def last_ptr_def)
    ultimately show ?thesis by simp
  qed
qed

lemma extend_last_blocks:
  assumes "blocks d bs"
  shows "\<exists>d'. extend_last K d = Some d' \<and> blocks d' (bs @ [(g_heap d, k_new K)]) \<and> g_num d' = g_num d"
proof -
  let ?h = "g_heap d"
  have new: "?h \<notin> fst ` set bs" using assms by (auto simp: blocks_def)
  show ?thesis
  proof (cases bs rule: rev_cases)
    case Nil
    then show ?thesis using assms
      by (simp add: extend_last_def alloc_block_def set_block_def Let_def blocks_def)
  next
    case (snoc xs x)
    let ?m = "(g_mem d)(?h \<mapsto> \<lparr>b_cont = k_new K, b_next = None, b_prev = Some (fst x)\<rparr>,
        fst x \<mapsto> \<lparr>b_cont = snd x, b_next = Some ?h, b_prev = last_ptr None xs\<rparr>)"
    have ne: "fst x \<noteq> ?h" "fst x \<notin> fst ` set xs" "?h \<notin> fst ` set xs" using assms new snoc by (auto simp: blocks_def)
    have "extend_last K d = Some (d\<lparr>g_mem := ?m, g_heap := ?h + 1, g_last := Some ?h\<rparr>)"
      using assms snoc ne
      by (simp add: extend_last_def alloc_block_def set_block_def Let_def blocks_def links_append ptr_append)
        (simp add: head_ptr_def split: list.splits)
    moreover have "blocks (d\<lparr>g_mem := ?m, g_heap := ?h + 1, g_last := Some ?h\<rparr>) (bs @ [(?h, k_new K)])"
      using assms snoc ne by (auto simp: blocks_def links_append ptr_append)
    ultimately show ?thesis by simp
  qed
qed

lemma drop_only: "dom m = {a} \<Longrightarrow> m(a := None) = (\<lambda>_. None)"
  by (rule ext) (auto simp: domIff)

lemma shrink_first_blocks:
  assumes "blocks d (x # xs)"
  shows "\<exists>d'. shrink_first d = Some d' \<and> blocks d' xs \<and> g_num d' = g_num d"
proof (cases xs)
  case Nil
  then show ?thesis using assms
    by (auto simp: drop_only shrink_first_def block_at_def free_block_def Let_def blocks_def)
next
  case (Cons y ys)
  let ?m = "((g_mem d)(fst y \<mapsto> \<lparr>b_cont = snd y, b_next = head_ptr ys None, b_prev = None\<rparr>))(fst x := None)"
  have ne: "fst x \<noteq> fst y" "fst x \<notin> fst ` set ys" "fst y \<notin> fst ` set ys" using assms Cons by (auto simp: blocks_def)
  have "shrink_first d = Some (d\<lparr>g_mem := ?m, g_first := Some (fst y)\<rparr>)"
    using assms Cons ne by (simp add: shrink_first_def block_at_def set_block_def free_block_def Let_def blocks_def)
  moreover have "dom ?m = fst ` set xs"
    using assms Cons ne by (simp add: blocks_def insert_Diff_if insert_absorb)
  then have "blocks (d\<lparr>g_mem := ?m, g_first := Some (fst y)\<rparr>) xs"
    using assms Cons ne by (auto simp: blocks_def last_ptr_def)
  ultimately show ?thesis by simp
qed

lemma shrink_last_blocks:
  assumes "blocks d (xs @ [x])"
  shows "\<exists>d'. shrink_last d = Some d' \<and> blocks d' xs \<and> g_num d' = g_num d"
proof (cases xs rule: rev_cases)
  case Nil
  then show ?thesis using assms
    by (auto simp: drop_only shrink_last_def block_at_def free_block_def Let_def blocks_def)
next
  case (snoc ys y)
  let ?m = "((g_mem d)(fst y \<mapsto> \<lparr>b_cont = snd y, b_next = None, b_prev = last_ptr None ys\<rparr>))(fst x := None)"
  have ne: "fst x \<noteq> fst y" "fst x \<notin> fst ` set ys" "fst y \<notin> fst ` set ys" using assms snoc by (auto simp: blocks_def)
  have "shrink_last d = Some (d\<lparr>g_mem := ?m, g_last := Some (fst y)\<rparr>)"
    using assms snoc ne
    by (simp add: shrink_last_def block_at_def set_block_def free_block_def Let_def blocks_def links_append ptr_append)
  moreover have "dom ?m = fst ` set xs"
    using assms snoc ne by (simp add: blocks_def insert_Diff_if insert_absorb)
  then have "blocks (d\<lparr>g_mem := ?m, g_last := Some (fst y)\<rparr>) xs"
    using assms snoc ne by (auto simp: blocks_def links_append ptr_append)
  ultimately show ?thesis by simp
qed

text \<open>One block: its contents can be read and replaced.\<close>

lemma block_at_blocks:
  assumes "blocks d (xs @ x # ys)"
  shows "block_at d (Some (fst x)) = Some \<lparr>b_cont = snd x, b_next = head_ptr ys None, b_prev = last_ptr None xs\<rparr>"
  using assms by (simp add: block_at_def blocks_def links_append)

lemma set_cont_blocks:
  assumes "blocks d (xs @ x # ys)"
  shows "\<exists>d'. set_block (Some (fst x)) (\<lambda>b. b\<lparr>b_cont := c\<rparr>) d = Some d' \<and> blocks d' (xs @ (fst x, c) # ys) \<and> g_num d' = g_num d"
proof -
  have ne: "fst x \<notin> fst ` set xs" "fst x \<notin> fst ` set ys" using assms by (auto simp: blocks_def)
  have m: "g_mem d (fst x) = Some \<lparr>b_cont = snd x, b_next = head_ptr ys None, b_prev = last_ptr None xs\<rparr>"
    using assms by (simp add: blocks_def links_append)
  have h: "head_ptr (xs @ (fst x, c) # ys) None = head_ptr (xs @ x # ys) None"
    "last_ptr None (xs @ (fst x, c) # ys) = last_ptr None (xs @ x # ys)" by (simp_all add: ptr_append)
  show ?thesis using assms m ne h by (auto simp: set_block_def blocks_def links_append)
qed

section \<open>The sequence a gdeque stands for\<close>

definition contents :: "('b \<Rightarrow> 'a list \<Rightarrow> bool) \<Rightarrow> (nat \<times> 'b) list \<Rightarrow> 'a list list \<Rightarrow> bool" where
  "contents krep bs ls \<longleftrightarrow> list_all2 (\<lambda>x. krep (snd x)) bs ls \<and> [] \<notin> set ls"

definition gdeque_rep :: "('b \<Rightarrow> 'a list \<Rightarrow> bool) \<Rightarrow> 'b gdeque \<Rightarrow> 'a list \<Rightarrow> bool" where
  "gdeque_rep krep d l \<longleftrightarrow>
     (\<exists>bs ls. blocks d bs \<and> contents krep bs ls \<and> l = concat ls \<and> g_num d = of_nat (length l))"

lemma gdeque_repI:
  "blocks d bs \<Longrightarrow> contents krep bs ls \<Longrightarrow> l = concat ls \<Longrightarrow> g_num d = of_nat (length l) \<Longrightarrow> gdeque_rep krep d l"
  by (auto simp: gdeque_rep_def)

lemma contents_simps [simp]:
  "contents krep [] ls \<longleftrightarrow> ls = []"
  "contents krep (x # bs) (k # ks) \<longleftrightarrow> krep (snd x) k \<and> k \<noteq> [] \<and> contents krep bs ks"
  by (auto simp: contents_def)

lemma contents_snoc [simp]:
  "contents krep (bs @ [x]) (ks @ [k]) \<longleftrightarrow> contents krep bs ks \<and> krep (snd x) k \<and> k \<noteq> []"
  by (cases "length bs = length ks") (auto simp: contents_def list_all2_append dest: list_all2_lengthD)

lemma contents_empty: "contents krep bs ls \<Longrightarrow> (bs = [] \<longleftrightarrow> concat ls = []) \<and> (ls = [] \<longleftrightarrow> concat ls = [])"
  by (cases ls; cases bs) (auto simp: contents_def)

lemma gdeque_init_rep: "gdeque_rep krep gdeque_init []"
  by (rule gdeque_repI [of _ "[]" _ "[]"]) (simp_all add: gdeque_init_def blocks_def)

text \<open>Below \<open>2 ^ 32\<close> elements \<open>num\<close> is their number.\<close>

abbreviation (input) "fits l \<equiv> length l < 2 ^ 32"

lemma gdeque_rep_state:
  assumes "gdeque_rep krep d l" "fits l"
  shows "g_precondition d" "gdeque_empty d = Some (l = [])" "gdeque_size d = Some (length l)"
    "g_first d = None \<longleftrightarrow> l = []" "g_last d = None \<longleftrightarrow> l = []"
proof -
  obtain bs ls where d: "blocks d bs" "contents krep bs ls" "l = concat ls" "g_num d = of_nat (length l)"
    using assms(1) by (auto simp: gdeque_rep_def)
  have n: "unat (g_num d) = length l" using assms(2) d(4) by (simp add: unat_of_nat)
  then have z: "g_num d = 0 \<longleftrightarrow> l = []" by (metis length_0_conv unat_eq_0 unat_0)
  have b: "bs = [] \<longleftrightarrow> l = []" using contents_empty [OF d(2)] d(3) by simp
  show p: "g_first d = None \<longleftrightarrow> l = []" "g_last d = None \<longleftrightarrow> l = []"
    using blocks_ptrs [OF d(1)] b by (auto simp: head_ptr_def last_ptr_def split: list.splits)
  then show "g_precondition d" using z by (auto simp: g_precondition_def word_gt_0)
  then show "gdeque_empty d = Some (l = [])" "gdeque_size d = Some (length l)"
    using z n by (simp_all add: gdeque_empty_def gdeque_size_def check_that_def)
qed

text \<open>The last (first) block of a deque that is not empty, and the rest.\<close>

lemma gdeque_rep_last:
  assumes "gdeque_rep krep d l" "l \<noteq> []"
  obtains bs x ks k where "blocks d (bs @ [x])" "contents krep bs ks" "krep (snd x) k" "k \<noteq> []" "l = concat ks @ k"
    "g_num d = of_nat (length l)" "g_last d = Some (fst x)"
proof -
  obtain bs ls where d: "blocks d bs" "contents krep bs ls" "l = concat ls" "g_num d = of_nat (length l)"
    using assms(1) by (auto simp: gdeque_rep_def)
  have "bs \<noteq> []" "ls \<noteq> []" using contents_empty [OF d(2)] d(3) assms(2) by auto
  then obtain bs1 x ks k where e: "bs = bs1 @ [x]" "ls = ks @ [k]" by (metis rev_exhaust)
  show ?thesis
    by (rule that [of bs1 x ks k]) (use d blocks_ptrs [OF d(1)] e in auto)
qed

lemma gdeque_rep_first:
  assumes "gdeque_rep krep d l" "l \<noteq> []"
  obtains bs x ks k where "blocks d (x # bs)" "contents krep bs ks" "krep (snd x) k" "k \<noteq> []" "l = k @ concat ks"
    "g_num d = of_nat (length l)" "g_first d = Some (fst x)"
proof -
  obtain bs ls where d: "blocks d bs" "contents krep bs ls" "l = concat ls" "g_num d = of_nat (length l)"
    using assms(1) by (auto simp: gdeque_rep_def)
  have "bs \<noteq> []" "ls \<noteq> []" using contents_empty [OF d(2)] d(3) assms(2) by auto
  then obtain bs1 x ks k where e: "bs = x # bs1" "ls = k # ks" by (metis neq_Nil_conv)
  show ?thesis
    by (rule that [of x bs1 ks k]) (use d blocks_ptrs [OF d(1)] e in auto)
qed

context block_container
begin

lemma new_add:
  "\<exists>b'. k_emplace_back K v (k_new K) = (True, b') \<and> krep b' [v]"
  "\<exists>b'. k_emplace_front K v (k_new K) = (True, b') \<and> krep b' [v]"
  using back_add [OF new_rep] front_add [OF new_rep] cap_pos by simp_all

text \<open>The attempt on the last (first) block, and with a new block.\<close>

lemma try_back:
  assumes "blocks d (bs @ [x])" "k_emplace_back K v (snd x) = (p, c)"
  shows "\<exists>d'. try_emplace_back K v d = Some (p, d') \<and> blocks d' (bs @ [(fst x, c)]) \<and> g_num d' = g_num d"
proof -
  have l: "g_last d = Some (fst x)" using blocks_ptrs [OF assms(1)] by simp
  show ?thesis
    using block_at_blocks [of d bs x "[]"] set_cont_blocks [of d bs x "[]" c] assms
    by (auto simp: try_emplace_back_def l Let_def)
qed

lemma try_front:
  assumes "blocks d (x # bs)" "k_emplace_front K v (snd x) = (p, c)"
  shows "\<exists>d'. try_emplace_front K v d = Some (p, d') \<and> blocks d' ((fst x, c) # bs) \<and> g_num d' = g_num d"
proof -
  have l: "g_first d = Some (fst x)" using blocks_ptrs [OF assms(1)] by simp
  show ?thesis
    using block_at_blocks [of d "[]" x bs] set_cont_blocks [of d "[]" x bs c] assms
    by (auto simp: try_emplace_front_def l Let_def)
qed

lemma new_back:
  assumes "blocks d bs"
  shows "\<exists>d1 d2 c. extend_last K d = Some d1 \<and> try_emplace_back K v d1 = Some (True, d2) \<and>
    blocks d2 (bs @ [(g_heap d, c)]) \<and> krep c [v] \<and> g_num d2 = g_num d"
proof -
  obtain d1 where d1: "extend_last K d = Some d1" "blocks d1 (bs @ [(g_heap d, k_new K)])" "g_num d1 = g_num d"
    using extend_last_blocks [OF assms, of K] by blast
  obtain c where c: "k_emplace_back K v (k_new K) = (True, c)" "krep c [v]" using new_add(1) by blast
  with try_back [OF d1(2)] d1 show ?thesis by fastforce
qed

lemma new_front:
  assumes "blocks d bs"
  shows "\<exists>d1 d2 c. extend_first K d = Some d1 \<and> try_emplace_front K v d1 = Some (True, d2) \<and>
    blocks d2 ((g_heap d, c) # bs) \<and> krep c [v] \<and> g_num d2 = g_num d"
proof -
  obtain d1 where d1: "extend_first K d = Some d1" "blocks d1 ((g_heap d, k_new K) # bs)" "g_num d1 = g_num d"
    using extend_first_blocks [OF assms, of K] by blast
  obtain c where c: "k_emplace_front K v (k_new K) = (True, c)" "krep c [v]" using new_add(2) by blast
  with try_front [OF d1(2)] d1 show ?thesis by fastforce
qed

lemma emplace_back_rep:
  assumes "gdeque_rep krep d l" "fits l"
  shows "\<exists>d'. gdeque_emplace_back K v d = Some d' \<and> gdeque_rep krep d' (l @ [v])"
proof -
  let ?d = "d\<lparr>g_num := g_num d + 1\<rparr>"
  note st = gdeque_rep_state [OF assms]
  have start: "gdeque_emplace_back K v d =
      do { (added, d) \<leftarrow> (if g_last d \<noteq> None then try_emplace_back K v ?d else Some (False, ?d));
        if added then Some d
        else do { d \<leftarrow> extend_last K d; (p, d) \<leftarrow> try_emplace_back K v d; check_that p; Some d } }"
    using st(1) by (simp add: gdeque_emplace_back_def check_that_def Let_def)
  show ?thesis
  proof (cases "l = []")
    case True
    with assms(1) have "blocks ?d []" "g_num d = 0"
      by (auto simp: gdeque_rep_def dest!: contents_empty)
    from new_back [OF this(1), of v] this(2) True st(5) show ?thesis
      by (fastforce simp: start check_that_def intro: gdeque_repI [of _ _ _ "[[v]]"])
  next
    case False
    obtain bs x ks k where d: "blocks d (bs @ [x])" "contents krep bs ks" "krep (snd x) k" "k \<noteq> []" "l = concat ks @ k"
      "g_num d = of_nat (length l)" "g_last d = Some (fst x)"
      by (rule gdeque_rep_last [OF assms(1) False])
    then have b: "blocks ?d (bs @ [x])" by simp
    have n: "g_num d + 1 = of_nat (length (l @ [v]))" using d(6) by simp
    show ?thesis
    proof (cases "length k = cap")
      case True
      obtain d1 where d1: "try_emplace_back K v ?d = Some (False, d1)" "blocks d1 (bs @ [x])" "g_num d1 = g_num d + 1"
        using try_back [OF b back_full [OF d(3) True]] by auto
      obtain d2 d3 c where d3: "extend_last K d1 = Some d2" "try_emplace_back K v d2 = Some (True, d3)"
        "blocks d3 ((bs @ [x]) @ [(g_heap d1, c)])" "krep c [v]" "g_num d3 = g_num d1"
        using new_back [OF d1(2), of v] by blast
      have "contents krep ((bs @ [x]) @ [(g_heap d1, c)]) ((ks @ [k]) @ [[v]])"
        unfolding contents_snoc using d d3(4) by simp
      from gdeque_repI [OF d3(3) this, of "l @ [v]"] show ?thesis
        using d d1 d3 n by (simp add: start check_that_def)
    next
      case notfull: False
      then have "length k < cap" using cap_le [OF d(3)] by simp
      from back_add [OF d(3) this] obtain c where c: "k_emplace_back K v (snd x) = (True, c)" "krep c (k @ [v])" by blast
      obtain d1 where d1: "try_emplace_back K v ?d = Some (True, d1)" "blocks d1 (bs @ [(fst x, c)])" "g_num d1 = g_num d + 1"
        using try_back [OF b c(1)] by auto
      have "contents krep (bs @ [(fst x, c)]) (ks @ [k @ [v]])" using d c(2) by simp
      from gdeque_repI [OF d1(2) this, of "l @ [v]"] show ?thesis
        using d d1 n by (simp add: start)
    qed
  qed
qed

lemma emplace_front_rep:
  assumes "gdeque_rep krep d l" "fits l"
  shows "\<exists>d'. gdeque_emplace_front K v d = Some d' \<and> gdeque_rep krep d' (v # l)"
proof -
  let ?d = "d\<lparr>g_num := g_num d + 1\<rparr>"
  note st = gdeque_rep_state [OF assms]
  have start: "gdeque_emplace_front K v d =
      do { (added, d) \<leftarrow> (if g_first d \<noteq> None then try_emplace_front K v ?d else Some (False, ?d));
        if added then Some d
        else do { d \<leftarrow> extend_first K d; (p, d) \<leftarrow> try_emplace_front K v d; check_that p; Some d } }"
    using st(1) by (simp add: gdeque_emplace_front_def check_that_def Let_def)
  show ?thesis
  proof (cases "l = []")
    case True
    with assms(1) have "blocks ?d []" "g_num d = 0"
      by (auto simp: gdeque_rep_def dest!: contents_empty)
    from new_front [OF this(1), of v] this(2) True st(4) show ?thesis
      by (fastforce simp: start check_that_def intro: gdeque_repI [of _ _ _ "[[v]]"])
  next
    case False
    obtain bs x ks k where d: "blocks d (x # bs)" "contents krep bs ks" "krep (snd x) k" "k \<noteq> []" "l = k @ concat ks"
      "g_num d = of_nat (length l)" "g_first d = Some (fst x)"
      by (rule gdeque_rep_first [OF assms(1) False])
    then have b: "blocks ?d (x # bs)" by simp
    have n: "g_num d + 1 = of_nat (length (v # l))" using d(6) by simp
    show ?thesis
    proof (cases "length k = cap")
      case True
      obtain d1 where d1: "try_emplace_front K v ?d = Some (False, d1)" "blocks d1 (x # bs)" "g_num d1 = g_num d + 1"
        using try_front [OF b front_full [OF d(3) True]] by auto
      obtain d2 d3 c where d3: "extend_first K d1 = Some d2" "try_emplace_front K v d2 = Some (True, d3)"
        "blocks d3 ((g_heap d1, c) # x # bs)" "krep c [v]" "g_num d3 = g_num d1"
        using new_front [OF d1(2), of v] by blast
      have "contents krep ((g_heap d1, c) # x # bs) ([v] # k # ks)" using d d3(4) by simp
      from gdeque_repI [OF d3(3) this, of "v # l"] show ?thesis
        using d d1 d3 n by (simp add: start check_that_def)
    next
      case notfull: False
      then have "length k < cap" using cap_le [OF d(3)] by simp
      from front_add [OF d(3) this] obtain c where c: "k_emplace_front K v (snd x) = (True, c)" "krep c (v # k)" by blast
      obtain d1 where d1: "try_emplace_front K v ?d = Some (True, d1)" "blocks d1 ((fst x, c) # bs)" "g_num d1 = g_num d + 1"
        using try_front [OF b c(1)] by auto
      have "contents krep ((fst x, c) # bs) ((v # k) # ks)" using d c(2) by simp
      from gdeque_repI [OF d1(2) this, of "v # l"] show ?thesis
        using d d1 n by (simp add: start)
    qed
  qed
qed

lemma pop_back_rep:
  assumes "gdeque_rep krep d (l @ [v])" "fits (l @ [v])"
  shows "gdeque_back K d = Some v \<and> (\<exists>d'. gdeque_pop_back K d = Some d' \<and> gdeque_rep krep d' l)"
proof -
  have ne: "l @ [v] \<noteq> []" by simp
  obtain bs x ks k where d: "blocks d (bs @ [x])" "contents krep bs ks" "krep (snd x) k" "k \<noteq> []"
    "l @ [v] = concat ks @ k" "g_num d = of_nat (length (l @ [v]))" "g_last d = Some (fst x)"
    by (rule gdeque_rep_last [OF assms(1) ne])
  note st = gdeque_rep_state(2) [OF assms]
  obtain k1 where k: "k = k1 @ [v]" "l = concat ks @ k1" using d(4,5) by (cases k rule: rev_cases) auto
  let ?d = "d\<lparr>g_num := g_num d - 1\<rparr>"
  have n: "g_num ?d = of_nat (length l)" using d(6) by simp
  obtain c where c: "k_pop_back K (snd x) = Some c" "krep c k1" using back_rem [of "snd x" k1 v] d(3) k(1) by blast
  have b: "blocks ?d (bs @ x # [])" using d(1) by simp
  obtain d1 where d1: "set_block (Some (fst x)) (\<lambda>b. b\<lparr>b_cont := c\<rparr>) ?d = Some d1" "blocks d1 (bs @ [(fst x, c)])"
    "g_num d1 = g_num ?d" using set_cont_blocks [OF b, of c] by blast
  have pop: "gdeque_pop_back K d = (if k_empty K c then shrink_last d1 else Some d1)"
    using st c(1) d1(1) d(7) block_at_blocks [OF b]
    by (simp add: gdeque_pop_back_def check_that_def Let_def)
  have "\<exists>d'. gdeque_pop_back K d = Some d' \<and> gdeque_rep krep d' l"
  proof (cases "k1 = []")
    case True
    obtain d2 where d2: "shrink_last d1 = Some d2" "blocks d2 bs" "g_num d2 = g_num d1"
      using shrink_last_blocks [OF d1(2)] by blast
    have "gdeque_rep krep d2 l"
      by (rule gdeque_repI [OF d2(2) d(2)]) (use True k(2) n d1(3) d2(3) in simp_all)
    with True pop d2(1) empty_rep [OF c(2)] show ?thesis by simp
  next
    case False
    have "contents krep (bs @ [(fst x, c)]) (ks @ [k1])" using d(2) c(2) False by simp
    from gdeque_repI [OF d1(2) this, of l] have "gdeque_rep krep d1 l" using k(2) n d1(3) by simp
    with False pop empty_rep [OF c(2)] show ?thesis by simp
  qed
  moreover have "gdeque_back K d = Some v"
    using st d(7) block_at_blocks [of d bs x "[]"] d(1,3) k(1) back_val [of "snd x" k1 v]
    by (simp add: gdeque_back_def check_that_def)
  ultimately show ?thesis by blast
qed

lemma pop_front_rep:
  assumes "gdeque_rep krep d (v # l)" "fits (v # l)"
  shows "gdeque_front K d = Some v \<and> (\<exists>d'. gdeque_pop_front K d = Some d' \<and> gdeque_rep krep d' l)"
proof -
  have ne: "v # l \<noteq> []" by simp
  obtain bs x ks k where d: "blocks d (x # bs)" "contents krep bs ks" "krep (snd x) k" "k \<noteq> []"
    "v # l = k @ concat ks" "g_num d = of_nat (length (v # l))" "g_first d = Some (fst x)"
    by (rule gdeque_rep_first [OF assms(1) ne])
  note st = gdeque_rep_state(2) [OF assms]
  obtain k1 where k: "k = v # k1" "l = k1 @ concat ks" using d(4,5) by (cases k) auto
  let ?d = "d\<lparr>g_num := g_num d - 1\<rparr>"
  have n: "g_num ?d = of_nat (length l)" using d(6) by simp
  obtain c where c: "k_pop_front K (snd x) = Some c" "krep c k1" using front_rem [of "snd x" v k1] d(3) k(1) by blast
  have b: "blocks ?d ([] @ x # bs)" using d(1) by simp
  obtain d1 where d1: "set_block (Some (fst x)) (\<lambda>b. b\<lparr>b_cont := c\<rparr>) ?d = Some d1" "blocks d1 ((fst x, c) # bs)"
    "g_num d1 = g_num ?d" using set_cont_blocks [OF b, of c] by auto
  have pop: "gdeque_pop_front K d = (if k_empty K c then shrink_first d1 else Some d1)"
    using st c(1) d1(1) d(7) block_at_blocks [OF b]
    by (simp add: gdeque_pop_front_def check_that_def Let_def)
  have "\<exists>d'. gdeque_pop_front K d = Some d' \<and> gdeque_rep krep d' l"
  proof (cases "k1 = []")
    case True
    obtain d2 where d2: "shrink_first d1 = Some d2" "blocks d2 bs" "g_num d2 = g_num d1"
      using shrink_first_blocks [OF d1(2)] by blast
    have "gdeque_rep krep d2 l"
      by (rule gdeque_repI [OF d2(2) d(2)]) (use True k(2) n d1(3) d2(3) in simp_all)
    with True pop d2(1) empty_rep [OF c(2)] show ?thesis by simp
  next
    case False
    have "contents krep ((fst x, c) # bs) (k1 # ks)" using d(2) c(2) False by simp
    from gdeque_repI [OF d1(2) this, of l] have "gdeque_rep krep d1 l" using k(2) n d1(3) by simp
    with False pop empty_rep [OF c(2)] show ?thesis by simp
  qed
  moreover have "gdeque_front K d = Some v"
    using st d(7) block_at_blocks [of d "[]" x bs] d(1,3) k(1) front_val [of "snd x" v k1]
    by (simp add: gdeque_front_def check_that_def)
  ultimately show ?thesis by blast
qed

lemma push_copies_rep:
  "gdeque_rep krep d l \<Longrightarrow> length l + n < 2 ^ 32 + 1 \<Longrightarrow>
    \<exists>d'. push_copies K n v d = Some d' \<and> gdeque_rep krep d' (l @ replicate n v)"
proof (induction n arbitrary: d l)
  case (Suc n)
  then have "fits l" by simp
  then obtain d1 where d1: "gdeque_push_back K v d = Some d1" "gdeque_rep krep d1 (l @ [v])"
    using emplace_back_rep [OF Suc.prems(1), of v] by (auto simp: gdeque_push_back_def)
  from Suc.IH [OF d1(2)] Suc.prems(2) d1(1) show ?case by auto
qed simp

lemma insert_rep:
  assumes "gdeque_rep krep d l" "length l + n < 2 ^ 32" "gdeque_end d = Some e"
  shows "\<exists>i d'. gdeque_insert K e n v d = Some (i, d') \<and> gdeque_rep krep d' (l @ replicate n v)"
proof (cases n)
  case 0
  with assms show ?thesis by (simp add: gdeque_insert_def gi_equal_def check_that_def)
next
  case (Suc m)
  have "fits l" using assms(2) by simp
  then obtain d1 where d1: "gdeque_push_back K v d = Some d1" "gdeque_rep krep d1 (l @ [v])"
    using emplace_back_rep [OF assms(1), of v] by (auto simp: gdeque_push_back_def)
  have ne: "l @ [v] \<noteq> []" by simp
  obtain bs x where "blocks d1 (bs @ x # [])" "g_last d1 = Some (fst x)"
    by (rule gdeque_rep_last [OF d1(2) ne]) auto
  then obtain b where b: "block_at d1 (g_last d1) = Some b" using block_at_blocks by metis
  obtain d2 where "push_copies K m v d1 = Some d2" "gdeque_rep krep d2 ((l @ [v]) @ replicate m v)"
    using push_copies_rep [OF d1(2), of m v] assms(2) Suc by auto
  with d1(1) b Suc assms(3) show ?thesis
    by (simp add: gdeque_insert_def gi_equal_def check_that_def Let_def)
qed

text \<open>\<open>clear\<close> frees every block.\<close>

lemma clear_loop_links:
  "links (g_mem d) pv xs None \<Longrightarrow> distinct (map fst xs) \<Longrightarrow>
    clear_loop (head_ptr xs None) d = Some (d\<lparr>g_mem := \<lambda>a. if a \<in> fst ` set xs then None else g_mem d a\<rparr>)"
proof (induction xs arbitrary: d pv)
  case Nil
  show ?case by (simp add: clear_loop.simps)
next
  case (Cons x xs)
  let ?d = "d\<lparr>g_mem := (g_mem d)(fst x := None)\<rparr>"
  have "links (g_mem ?d) (Some (fst x)) xs None" "distinct (map fst xs)" using Cons.prems by simp_all
  from Cons.IH [OF this]
  have "clear_loop (head_ptr xs None) ?d = Some (d\<lparr>g_mem := \<lambda>a. if a \<in> fst ` set (x # xs) then None else g_mem d a\<rparr>)"
    by (simp add: fun_eq_iff fun_upd_def)
  then show ?case using Cons.prems
    by (simp add: clear_loop.simps [of "Some (fst x)"] block_at_def free_block_def)
qed

lemma clear_rep:
  assumes "gdeque_rep krep d l" "fits l"
  shows "\<exists>d'. gdeque_clear d = Some d' \<and> gdeque_rep krep d' [] \<and> g_mem d' = (\<lambda>_. None)"
proof -
  obtain bs where b: "blocks d bs" using assms(1) by (auto simp: gdeque_rep_def)
  have "(\<lambda>a. if a \<in> fst ` set bs then None else g_mem d a) = (\<lambda>_. None)"
    using b by (auto simp: blocks_def fun_eq_iff domIff set_eq_iff)
  with b clear_loop_links [of d None bs]
  have "clear_loop (g_first d) d = Some (d\<lparr>g_mem := \<lambda>_. None\<rparr>)" by (simp add: blocks_def)
  then have "gdeque_clear d = Some (d\<lparr>g_mem := \<lambda>_. None, g_first := None, g_last := None, g_num := 0\<rparr>)"
    using gdeque_rep_state(1) [OF assms] by (simp add: gdeque_clear_def check_that_def)
  moreover have "gdeque_rep krep (d\<lparr>g_mem := \<lambda>_. None, g_first := None, g_last := None, g_num := 0\<rparr>) []"
    by (rule gdeque_repI [of _ "[]" _ "[]"]) (simp_all add: blocks_def)
  ultimately show ?thesis by simp
qed

text \<open>The traversal.\<close>

lemma walk_from:
  assumes "gdeque_end d = Some \<lparr>gi_b = None, gi_offset = 0\<rparr>"
    and "blocks d (xs @ x # ys)" "krep (snd x) k" "contents krep ys ls" "off < length k" "n = length (drop off k @ concat ls)"
  shows "gdeque_walk K n d \<lparr>gi_b = Some (fst x), gi_offset = off\<rparr> = Some (drop off k @ concat ls)"
  using assms(2-)
proof (induction n arbitrary: xs x ys k ls off)
  case 0
  then show ?case by simp
next
  case (Suc n)
  note b = block_at_blocks [OF Suc.prems(1)]
  let ?j = "if Suc off = length k then \<lparr>gi_b = head_ptr ys None, gi_offset = 0\<rparr> else \<lparr>gi_b = Some (fst x), gi_offset = Suc off\<rparr>"
  have d: "drop off k = k ! off # drop (Suc off) k" using Suc.prems(4) by (simp add: Cons_nth_drop_Suc)
  have step: "gdeque_walk K (Suc n) d \<lparr>gi_b = Some (fst x), gi_offset = off\<rparr> =
      do { xs \<leftarrow> gdeque_walk K n d ?j; Some (k ! off # xs) }"
    using assms(1) b at_rep [OF Suc.prems(2,4)] size_rep [OF Suc.prems(2)]
    by (simp add: gdeque_walk.simps [of K "Suc n"] gi_equal_def gi_deref_def gi_increment_def)
  consider "Suc off < length k" | "Suc off = length k" "ys = []" | y zs where "Suc off = length k" "ys = y # zs"
    using Suc.prems(4) by (metis Suc_lessI neq_Nil_conv)
  then show ?case
  proof cases
    case 1
    with Suc.IH [OF Suc.prems(1-3), of "Suc off"] Suc.prems(5) step d show ?thesis by simp
  next
    case 2
    then have "n = 0" "ls = []" using Suc.prems(3,5) d by auto
    with 2 step d assms(1) show ?thesis by (simp add: gdeque_walk.simps [of K 0] gi_equal_def)
  next
    case 3
    then obtain m ms where ls: "ls = m # ms" using Suc.prems(3) by (cases ls) (auto simp: contents_def)
    have "krep (snd y) m" "m \<noteq> []" "contents krep zs ms" using Suc.prems(3) 3 ls by auto
    with Suc.IH [of "xs @ [x]" y zs m ms 0] Suc.prems(1,5) step d 3 ls show ?thesis by simp
  qed
qed

lemma walk_all:
  assumes "gdeque_rep krep d l" "fits l"
  shows "do { i \<leftarrow> gdeque_begin d; gdeque_walk K (length l) d i } = Some l"
proof -
  note st = gdeque_rep_state [OF assms]
  have e: "gdeque_end d = Some \<lparr>gi_b = None, gi_offset = 0\<rparr>" "gdeque_begin d = Some \<lparr>gi_b = g_first d, gi_offset = 0\<rparr>"
    using st(1) by (simp_all add: gdeque_end_def gdeque_begin_def check_that_def)
  show ?thesis
  proof (cases "l = []")
    case True
    with e st(4) show ?thesis by (simp add: gdeque_walk.simps gi_equal_def)
  next
    case False
    obtain bs x ks k where d: "blocks d (x # bs)" "contents krep bs ks" "krep (snd x) k" "k \<noteq> []" "l = k @ concat ks"
      "g_first d = Some (fst x)" by (rule gdeque_rep_first [OF assms(1) False])
    with walk_from [OF e(1), of "[]" x bs k ks 0 "length l"] e show ?thesis by simp
  qed
qed

end

section \<open>With FixedSizeRing as the block\<close>

definition ring_ops :: "nat \<Rightarrow> ('a, 'a FixedSizeRing) block_ops" where
  "ring_ops c =
     \<lparr>k_new = ring_init c,
      k_emplace_back = \<lambda>v R. map_prod (\<lambda>p. p \<noteq> None) id (ring_emplace_back c v R),
      k_emplace_front = \<lambda>v R. map_prod (\<lambda>p. p \<noteq> None) id (ring_emplace_front c v R),
      k_pop_back = ring_pop_back c, k_pop_front = ring_pop_front c,
      k_front = ring_front, k_back = ring_back c, k_empty = ring_empty, k_size = ring_size,
      k_getAt = ring_getAt c\<rparr>"

lemma ring_ops_sel [simp]:
  "k_new (ring_ops c) = ring_init c"
  "k_emplace_back (ring_ops c) = (\<lambda>v R. map_prod (\<lambda>p. p \<noteq> None) id (ring_push_back c v R))"
  "k_emplace_front (ring_ops c) = (\<lambda>v R. map_prod (\<lambda>p. p \<noteq> None) id (ring_push_front c v R))"
  "k_pop_back (ring_ops c) = ring_pop_back c" "k_pop_front (ring_ops c) = ring_pop_front c"
  "k_front (ring_ops c) = ring_front" "k_back (ring_ops c) = ring_back c"
  "k_empty (ring_ops c) = ring_empty" "k_size (ring_ops c) = ring_size"
  "k_getAt (ring_ops c) = ring_getAt c"
  by (simp_all add: ring_ops_def)

lemma ring_block_container:
  assumes "0 < c"
  shows "block_container (ring_ops c) (ring_rep c) c"
proof
  show "0 < c" by (rule assms)
  show "ring_rep c (k_new (ring_ops c)) []" using ring_init_rep [OF assms] by simp
next
  fix b l v and w :: 'a
  show "ring_rep c b l \<Longrightarrow> length l \<le> c" by (simp add: ring_rep_def)
  show "ring_rep c b l \<Longrightarrow> length l = c \<Longrightarrow> k_emplace_back (ring_ops c) v b = (False, b)"
    "ring_rep c b l \<Longrightarrow> length l = c \<Longrightarrow> k_emplace_front (ring_ops c) v b = (False, b)"
    using ring_full_rep [of c b l] by (simp_all add: ring_push_back_def ring_push_front_def)
  show "ring_rep c b l \<Longrightarrow> length l < c \<Longrightarrow>
      \<exists>b'. k_emplace_back (ring_ops c) v b = (True, b') \<and> ring_rep c b' (l @ [v])"
    using ring_push_back_rep [of c b l v] by fastforce
  show "ring_rep c b l \<Longrightarrow> length l < c \<Longrightarrow>
      \<exists>b'. k_emplace_front (ring_ops c) v b = (True, b') \<and> ring_rep c b' (v # l)"
    using ring_push_front_rep [of c b l v] by fastforce
  show "ring_rep c b (l @ [v]) \<Longrightarrow> \<exists>b'. k_pop_back (ring_ops c) b = Some b' \<and> ring_rep c b' l"
    using ring_pop_back_rep [of c b l v] by auto
  show "ring_rep c b (v # l) \<Longrightarrow> \<exists>b'. k_pop_front (ring_ops c) b = Some b' \<and> ring_rep c b' l"
    using ring_pop_front_rep [of c b v l] by auto
  show "ring_rep c b l \<Longrightarrow> k_size (ring_ops c) b = length l" by (simp add: ring_rep_def ring_size_def)
qed (simp_all add: ring_front_rep ring_back_rep ring_empty_rep ring_getAt_rep)

interpretation ring64: block_container "ring_ops 64" "ring_rep 64" 64
  by (rule ring_block_container) simp

section \<open>Properties\<close>

text \<open>
  C27: A \<open>gdeque\<close> with blocks of any size is a double-ended queue: pushes, pops, \<open>insert\<close> at the end and \<open>clear\<close> do to the
  sequence what their names say and never fail on their own account: no pointer they follow is null or dangling, no assertion
  fails. The traversal visits the elements in order; the blocks stay linked in both directions, none is empty and
  none is leaked (\<open>clear\<close> frees all). The count \<open>num\<close> has 32 bits, so this holds below \<open>2 ^ 32\<close> elements.
\<close>

theorem gdeque_refines_list:
  assumes "0 < c" "gdeque_rep (ring_rep c) d l" "length l + n < 2 ^ 32" "gdeque_end d = Some e"
  shows "(\<exists>d'. gdeque_push_back (ring_ops c) v d = Some d' \<and> gdeque_rep (ring_rep c) d' (l @ [v])) \<and>
    (\<exists>d'. gdeque_push_front (ring_ops c) v d = Some d' \<and> gdeque_rep (ring_rep c) d' (v # l)) \<and>
    (\<exists>i d'. gdeque_insert (ring_ops c) e n v d = Some (i, d') \<and> gdeque_rep (ring_rep c) d' (l @ replicate n v)) \<and>
    (l \<noteq> [] \<longrightarrow> gdeque_front (ring_ops c) d = Some (hd l) \<and> gdeque_back (ring_ops c) d = Some (last l) \<and>
       (\<exists>d'. gdeque_pop_front (ring_ops c) d = Some d' \<and> gdeque_rep (ring_rep c) d' (tl l)) \<and>
       (\<exists>d'. gdeque_pop_back (ring_ops c) d = Some d' \<and> gdeque_rep (ring_rep c) d' (butlast l))) \<and>
    (\<exists>d'. gdeque_clear d = Some d' \<and> gdeque_rep (ring_rep c) d' [] \<and> g_mem d' = (\<lambda>_. None)) \<and>
    gdeque_size d = Some (length l) \<and> gdeque_empty d = Some (l = []) \<and> g_precondition d \<and>
    do { i \<leftarrow> gdeque_begin d; gdeque_walk (ring_ops c) (length l) d i } = Some l"
proof -
  note B = ring_block_container [OF assms(1), where 'a = 'a]
  have fits: "length l < 2 ^ 32" using assms(3) by simp
  note st = gdeque_rep_state [OF assms(2) fits]
  have "gdeque_front (ring_ops c) d = Some (hd l) \<and> gdeque_back (ring_ops c) d = Some (last l) \<and>
      (\<exists>d'. gdeque_pop_front (ring_ops c) d = Some d' \<and> gdeque_rep (ring_rep c) d' (tl l)) \<and>
      (\<exists>d'. gdeque_pop_back (ring_ops c) d = Some d' \<and> gdeque_rep (ring_rep c) d' (butlast l))" if "l \<noteq> []"
    using that block_container.pop_front_rep [OF B, of d "hd l" "tl l"]
      block_container.pop_back_rep [OF B, of d "butlast l" "last l"] assms(2) fits by simp
  then show ?thesis
    using block_container.emplace_back_rep [OF B assms(2) fits, of v]
      block_container.emplace_front_rep [OF B assms(2) fits, of v]
      block_container.insert_rep [OF B assms(2-4), of v] block_container.walk_all [OF B assms(2) fits]
      block_container.clear_rep [OF B assms(2) fits] st
    by (simp add: gdeque_push_back_def gdeque_push_front_def)
qed

text \<open>Two blocks of two cells, the second one not full.\<close>

definition two_blocks :: "nat FixedSizeRing gdeque" where
  "two_blocks =
     \<lparr>g_first = Some 0, g_last = Some 1, g_num = 3,
      g_mem = [0 \<mapsto> \<lparr>b_cont = \<lparr>datac = [Some 6, Some 5], start = 1, count = 2\<rparr>, b_next = Some 1, b_prev = None\<rparr>,
               1 \<mapsto> \<lparr>b_cont = \<lparr>datac = [Some 7, None], start = 0, count = 1\<rparr>, b_next = None, b_prev = Some 0\<rparr>],
      g_heap = 2\<rparr>"

theorem gdeque_refines_list_witness:
  "gdeque_rep (ring_rep 2) two_blocks [5, 6, 7] \<and>
   (\<exists>d. gdeque_push_front (ring_ops 2) 4 two_blocks = Some d \<and> gdeque_rep (ring_rep 2) d [4, 5, 6, 7]) \<and>
   (\<exists>d. gdeque_pop_back (ring_ops 2) two_blocks = Some d \<and> gdeque_rep (ring_rep 2) d [5, 6])"
proof -
  have "ring_rep 2 \<lparr>datac = [Some 6, Some 5], start = 1, count = 2\<rparr> [5, 6 :: nat]"
    "ring_rep 2 \<lparr>datac = [Some 7, None], start = 0, count = 1\<rparr> [7 :: nat]" by code_simp+
  then have rep: "gdeque_rep (ring_rep 2) two_blocks [5, 6, 7]"
    by (intro gdeque_repI [of _ "[(0, \<lparr>datac = [Some 6, Some 5], start = 1, count = 2\<rparr>),
        (1, \<lparr>datac = [Some 7, None], start = 0, count = 1\<rparr>)]" _ "[[5, 6], [7]]"])
      (auto simp: blocks_def two_blocks_def)
  have e: "gdeque_end two_blocks = Some \<lparr>gi_b = None, gi_offset = 0\<rparr>"
    by (simp add: gdeque_end_def g_precondition_def two_blocks_def check_that_def)
  from gdeque_refines_list [OF _ rep _ e, of 0 4] rep show ?thesis by auto
qed

end
