(* ===== verification/FlatMap.thy ===== *)
theory FlatMap
  imports Prelude
begin

text \<open>
  \<open>flat_map\<close> of \<open>Galois/FlatMap.h\<close>: a map kept as one array of pairs sorted by key, with
  \<open>std::less\<close> as the comparer. An iterator is an index, \<open>end()\<close> the length. The searches of the
  standard library return the first index whose key is not below (is above) the key. Reading
  \<open>*end()\<close> is undefined: \<open>None\<close>. \<open>map_of\<close> of the array is the map it stands for.
\<close>

section \<open>Operations\<close>

type_synonym ('k, 'v) flat_map = "('k \<times> 'v) list"

definition key_comp :: "'k::linorder \<Rightarrow> 'k \<Rightarrow> bool" where
  "key_comp x y \<longleftrightarrow> x < y"

definition value_compare :: "('k::linorder \<times> 'v) \<Rightarrow> ('k \<times> 'v) \<Rightarrow> bool" where
  "value_compare x y \<longleftrightarrow> key_comp (fst x) (fst y)"

definition value_key_compare :: "('k::linorder \<times> 'v) \<Rightarrow> 'k \<Rightarrow> bool" where
  "value_key_compare x y \<longleftrightarrow> key_comp (fst x) y"

definition key_eq :: "'k::linorder \<Rightarrow> 'k \<Rightarrow> bool" where
  "key_eq k1 k2 \<longleftrightarrow> \<not> key_comp k1 k2 \<and> \<not> key_comp k2 k1"

definition lower_bound :: "'k::linorder \<Rightarrow> ('k, 'v) flat_map \<Rightarrow> nat" where
  "lower_bound x d = length (takeWhile (\<lambda>p. value_key_compare p x) d)"

definition upper_bound :: "'k::linorder \<Rightarrow> ('k, 'v) flat_map \<Rightarrow> nat" where
  "upper_bound x d = length (takeWhile (\<lambda>p. \<not> key_comp x (fst p)) d)"

definition equal_range :: "'k::linorder \<Rightarrow> ('k, 'v) flat_map \<Rightarrow> nat \<times> nat" where
  "equal_range x d = (lower_bound x d, upper_bound x d)"

text \<open>\<open>std::sort\<close>, here by insertion before the first pair that is not below.\<close>

fun sort_into :: "('k::linorder \<times> 'v) \<Rightarrow> ('k, 'v) flat_map \<Rightarrow> ('k, 'v) flat_map" where
  "sort_into p [] = [p]"
| "sort_into p (q # d) = (if value_compare q p then q # sort_into p d else p # q # d)"

definition resort :: "('k::linorder, 'v) flat_map \<Rightarrow> ('k, 'v) flat_map" where
  "resort d = foldr sort_into d []"

text \<open>The constructor from a range of pairs.\<close>

definition flat_map_range :: "('k::linorder \<times> 'v) list \<Rightarrow> ('k, 'v) flat_map" where
  "flat_map_range xs = resort xs"

text \<open>\<open>_data.insert(i, x)\<close> of the vector.\<close>

definition insert_at :: "nat \<Rightarrow> 'p \<Rightarrow> 'p list \<Rightarrow> 'p list" where
  "insert_at i x d = take i d @ x # drop i d"

definition erase_at :: "nat \<Rightarrow> 'p list \<Rightarrow> 'p list" where
  "erase_at i d = take i d @ drop (i + 1) d"

text \<open>\<open>operator[]\<close>: the index of the entry, whose \<open>second\<close> the reference denotes; \<open>dflt\<close> is \<open>mapped_type()\<close>.\<close>

definition fm_index :: "'v \<Rightarrow> 'k::linorder \<Rightarrow> ('k, 'v) flat_map \<Rightarrow> nat \<times> ('k, 'v) flat_map" where
  "fm_index dflt k d =
     (let i = lower_bound k d in
      if i = length d \<or> key_comp k (fst (d ! i)) then (i, insert_at i (k, dflt) d) else (i, d))"

text \<open>\<open>at\<close> throws \<open>out_of_range\<close>: \<open>None\<close>.\<close>

definition fm_at :: "'k::linorder \<Rightarrow> ('k, 'v) flat_map \<Rightarrow> 'v option" where
  "fm_at k d =
     (let i = lower_bound k d in
      if i = length d \<or> key_comp k (fst (d ! i)) then None else Some (snd (d ! i)))"

definition fm_insert :: "('k::linorder \<times> 'v) \<Rightarrow> ('k, 'v) flat_map \<Rightarrow> nat \<times> bool \<times> ('k, 'v) flat_map" where
  "fm_insert x d =
     (let i = lower_bound (fst x) d in
      if i \<noteq> length d \<and> key_eq (fst (d ! i)) (fst x) then (i, False, d)
      else (i, True, insert_at i x d))"

definition fm_insert_range :: "('k::linorder \<times> 'v) list \<Rightarrow> ('k, 'v) flat_map \<Rightarrow> ('k, 'v) flat_map" where
  "fm_insert_range xs d = foldl (\<lambda>d x. snd (snd (fm_insert x d))) d xs"

definition fm_find :: "'k::linorder \<Rightarrow> ('k, 'v) flat_map \<Rightarrow> nat option" where
  "fm_find k d =
     (let i = lower_bound k d in
      if i = length d then None
      else Some (if key_eq (fst (d ! i)) k then i else length d))"

definition fm_count :: "'k::linorder \<Rightarrow> ('k, 'v) flat_map \<Rightarrow> nat option" where
  "fm_count k d = map_option (\<lambda>i. if i = length d then 0 else 1) (fm_find k d)"

definition fm_erase :: "'k::linorder \<Rightarrow> ('k, 'v) flat_map \<Rightarrow> (nat \<times> ('k, 'v) flat_map) option" where
  "fm_erase k d =
     (case fm_find k d of
        None \<Rightarrow> None
      | Some i \<Rightarrow>
          if i = length d then None
          else if key_eq k (fst (d ! i)) then Some (1, erase_at i d)
          else Some (0, d))"

definition fm_swap :: "('k, 'v) flat_map \<Rightarrow> ('k, 'v) flat_map \<Rightarrow> ('k, 'v) flat_map \<times> ('k, 'v) flat_map" where
  "fm_swap d e = (e, d)"

section \<open>The sorted array is a map\<close>

definition fm_ok :: "('k::linorder, 'v) flat_map \<Rightarrow> bool" where
  "fm_ok d \<longleftrightarrow> sorted_wrt (\<lambda>p q. fst p < fst q) d"

lemma fm_ok_Nil [simp]: "fm_ok []"
  by (simp add: fm_ok_def)

lemma fm_ok_Cons [simp]: "fm_ok (p # d) \<longleftrightarrow> (\<forall>q \<in> set d. fst p < fst q) \<and> fm_ok d"
  by (simp add: fm_ok_def)

lemma key_eq_iff [simp]: "key_eq k1 k2 \<longleftrightarrow> k1 = k2"
  by (auto simp: key_eq_def key_comp_def)

lemma lower_bound_Nil [simp]: "lower_bound k [] = 0"
  by (simp add: lower_bound_def)

lemma lower_bound_Cons [simp]: "lower_bound k (p # d) = (if fst p < k then Suc (lower_bound k d) else 0)"
  by (simp add: lower_bound_def value_key_compare_def key_comp_def)

lemma lower_bound_le: "lower_bound k d \<le> length d"
  by (simp add: lower_bound_def length_takeWhile_le)

text \<open>The array around the lower bound: smaller keys before, the others from there on.\<close>

lemma lower_bound_split:
  assumes "fm_ok d"
  obtains a b where "d = a @ b" "lower_bound k d = length a" "\<forall>p \<in> set a. fst p < k" "\<forall>p \<in> set b. k \<le> fst p"
    "fm_ok a" "fm_ok b"
proof -
  let ?P = "\<lambda>p. fst p < k"
  have "\<forall>p \<in> set (dropWhile ?P d). k \<le> fst p"
    using assms by (induction d) (auto simp: less_imp_le)
  moreover have "lower_bound k d = length (takeWhile ?P d)"
    by (simp add: lower_bound_def value_key_compare_def key_comp_def)
  moreover have "fm_ok (takeWhile ?P d)" "fm_ok (dropWhile ?P d)"
    using assms unfolding fm_ok_def
    by (metis sorted_wrt_append takeWhile_dropWhile_id)+
  moreover have "\<forall>p \<in> set (takeWhile ?P d). fst p < k" by (auto dest: set_takeWhileD)
  ultimately show ?thesis using that [of "takeWhile ?P d" "dropWhile ?P d"] by simp
qed

lemma map_of_above: "\<forall>p \<in> set d. k < fst p \<Longrightarrow> map_of d k = None" for k :: "'k::linorder"
  by (induction d) auto

lemma map_of_below: "\<forall>p \<in> set d. fst p < k \<Longrightarrow> map_of d k = None" for k :: "'k::linorder"
  by (induction d) auto

text \<open>The entry at the lower bound, if any, decides whether the key is there.\<close>

lemma lower_bound_entry:
  assumes "fm_ok d"
  shows "map_of d k =
    (if lower_bound k d < length d \<and> fst (d ! lower_bound k d) = k then Some (snd (d ! lower_bound k d)) else None)"
proof -
  obtain a b where s: "d = a @ b" "lower_bound k d = length a" "\<forall>p \<in> set a. fst p < k" "\<forall>p \<in> set b. k \<le> fst p"
      "fm_ok b"
    by (rule lower_bound_split [OF assms, of k])
  have a: "map_of a k = None" by (rule map_of_below [OF s(3)])
  show ?thesis
  proof (cases b)
    case Nil
    with s a show ?thesis by simp
  next
    case (Cons p b')
    have "map_of b k = (if fst p = k then Some (snd p) else None)"
    proof (cases "fst p = k")
      case False
      then have "\<forall>q \<in> set b'. k < fst q" using s(4,5) Cons by fastforce
      with False Cons show ?thesis by (simp add: map_of_above)
    qed (simp add: Cons)
    with s a Cons show ?thesis by (simp add: map_add_def nth_append)
  qed
qed

lemma insert_at_lower:
  assumes "fm_ok d" "map_of d k = None"
  shows "fm_ok (insert_at (lower_bound k d) (k, v) d) \<and>
    map_of (insert_at (lower_bound k d) (k, v) d) = (map_of d)(k \<mapsto> v) \<and>
    insert_at (lower_bound k d) (k, v) d ! lower_bound k d = (k, v) \<and>
    length (insert_at (lower_bound k d) (k, v) d) = Suc (length d)"
proof -
  obtain a b where s: "d = a @ b" "lower_bound k d = length a" "\<forall>p \<in> set a. fst p < k" "\<forall>p \<in> set b. k \<le> fst p"
      "fm_ok a" "fm_ok b"
    by (rule lower_bound_split [OF assms(1), of k])
  have b: "\<forall>p \<in> set b. k < fst p"
    using s(1,4) assms(2) by (auto simp: map_of_eq_None_iff order.strict_iff_order)
  have eq: "insert_at (lower_bound k d) (k, v) d = a @ (k, v) # b"
    unfolding insert_at_def s(2) by (simp add: s(1))
  have "map_of (a @ (k, v) # b) = (map_of d)(k \<mapsto> v)"
  proof
    fix x
    show "map_of (a @ (k, v) # b) x = ((map_of d)(k \<mapsto> v)) x"
      using map_of_below [OF s(3)] by (auto simp: s(1) map_add_def split: option.splits)
  qed
  moreover have "fm_ok (a @ (k, v) # b)"
    using s(3,5,6) b by (fastforce simp: fm_ok_def sorted_wrt_append)
  moreover have "(a @ (k, v) # b) ! lower_bound k d = (k, v)" by (simp add: s(2))
  moreover have "length (a @ (k, v) # b) = Suc (length d)" by (simp add: s(1))
  ultimately show ?thesis unfolding eq by blast
qed

lemma fm_index_facts:
  assumes "fm_ok d" "fm_index dflt k d = (j, d')"
  shows "fm_ok d'" "j < length d'" "fst (d' ! j) = k" "map_of d' k = Some (snd (d' ! j))"
    "map_of d' = (if map_of d k = None then (map_of d)(k \<mapsto> dflt) else map_of d)"
proof -
  let ?i = "lower_bound k d"
  note entry = lower_bound_entry [OF assms(1), of k]
  have le: "?i < length d \<Longrightarrow> k \<le> fst (d ! ?i)"
    by (rule lower_bound_split [OF assms(1), of k]) (auto simp: nth_append)
  have absent: "?i = length d \<or> key_comp k (fst (d ! ?i)) \<longleftrightarrow> map_of d k = None"
  proof (cases "?i = length d")
    case False
    then have "?i < length d" using lower_bound_le [of k d] by simp
    with entry le show ?thesis by (auto simp: key_comp_def)
  qed (use entry in simp)
  have "fm_ok d' \<and> j < length d' \<and> fst (d' ! j) = k \<and> map_of d' k = Some (snd (d' ! j)) \<and>
      map_of d' = (if map_of d k = None then (map_of d)(k \<mapsto> dflt) else map_of d)"
  proof (cases "map_of d k")
    case None
    note ins = insert_at_lower [OF assms(1) None, of dflt]
    have "j = ?i" "d' = insert_at ?i (k, dflt) d" using assms(2) absent None by (auto simp: fm_index_def Let_def)
    moreover have "?i < Suc (length d)" using lower_bound_le [of k d] by simp
    ultimately show ?thesis using ins None by simp
  next
    case (Some w)
    then have e: "?i < length d" "fst (d ! ?i) = k" "snd (d ! ?i) = w" using entry by (auto split: if_splits)
    have "j = ?i" "d' = d" using assms(2) absent Some by (auto simp: fm_index_def Let_def)
    then show ?thesis using assms(1) Some e by simp
  qed
  then show "fm_ok d'" "j < length d'" "fst (d' ! j) = k" "map_of d' k = Some (snd (d' ! j))"
    "map_of d' = (if map_of d k = None then (map_of d)(k \<mapsto> dflt) else map_of d)"
    by blast+
qed

lemma fm_ok_distinct: "fm_ok d \<Longrightarrow> distinct (map fst d)"
  by (induction d) auto

lemma fm_update_facts:
  assumes "fm_ok d" "j < length d" "fst (d ! j) = k"
  shows "fm_ok (d[j := (k, v)])" "map_of (d[j := (k, v)]) = (map_of d)(k \<mapsto> v)"
proof -
  have keys: "map fst (d[j := (k, v)]) = map fst d" for v
    using assms(2,3) by (metis fst_conv list_update_id map_update nth_map)
  have wrt: "fm_ok e \<longleftrightarrow> sorted_wrt (<) (map fst e)" for e :: "('a \<times> 'b) list"
    by (simp add: fm_ok_def sorted_wrt_map)
  show ok: "fm_ok (d[j := (k, v)])" using assms(1) by (simp only: wrt keys)
  note dist = fm_ok_distinct
  show "map_of (d[j := (k, v)]) = (map_of d)(k \<mapsto> v)"
  proof
    fix x
    have "map_of (d[j := (k, v)]) x = Some w \<longleftrightarrow> ((map_of d)(k \<mapsto> v)) x = Some w" for w
    proof -
      have "(x, w) \<in> set (d[j := (k, v)]) \<longleftrightarrow> (x = k \<and> w = v) \<or> (x \<noteq> k \<and> (x, w) \<in> set d)"
      proof (cases "x = k")
        case True
        have "(k, v) \<in> set (d[j := (k, v)])" using assms(2) by (rule set_update_memI)
        then show ?thesis using True dist [OF ok] eq_key_imp_eq_value by metis
      next
        case False
        then have "(x, w) \<in> set (d[j := (k, v)]) \<longleftrightarrow> (x, w) \<in> set d"
          using assms(2,3) by (auto simp: in_set_conv_nth nth_list_update) (metis fst_conv)
        with False show ?thesis by simp
      qed
      then show ?thesis using dist [OF ok] dist [OF assms(1)] by (auto simp: map_of_eq_Some_iff)
    qed
    then show "map_of (d[j := (k, v)]) x = ((map_of d)(k \<mapsto> v)) x"
      by (metis not_None_eq)
  qed
qed

lemma sort_into_props:
  "mset (sort_into p d) = add_mset p (mset d) \<and>
   (sorted_wrt (\<lambda>p q. fst p \<le> fst q) d \<longrightarrow> sorted_wrt (\<lambda>p q. fst p \<le> fst q) (sort_into p d))"
proof (induction d)
  case (Cons q d)
  have "set (sort_into p d) = insert p (set d)"
    using Cons.IH by (metis set_mset_add_mset_insert set_mset_mset)
  with Cons show ?case
    by (auto simp: value_compare_def key_comp_def not_less intro: less_imp_le order_trans)
qed simp

section \<open>Properties\<close>

text \<open>
  A \<open>flat_map\<close> whose keys are in ascending order is a finite map: \<open>insert\<close> adds an absent
  key and leaves a present one alone, \<open>operator[]\<close> adds the default for an absent key and points
  at the entry, \<open>at\<close> looks up or throws, and the order is kept.
\<close>

theorem flat_map_refines_map:
  assumes "fm_ok d"
  shows "fm_at k d = map_of d k \<and>
    (case fm_insert (k, v) d of (i, added, d') \<Rightarrow>
       fm_ok d' \<and> (added \<longleftrightarrow> k \<notin> dom (map_of d)) \<and>
       map_of d' = (if added then (map_of d)(k \<mapsto> v) else map_of d) \<and> i < length d' \<and> fst (d' ! i) = k) \<and>
    (case fm_index dflt k d of (i, d') \<Rightarrow>
       fm_ok d' \<and> map_of d' = (if k \<in> dom (map_of d) then map_of d else (map_of d)(k \<mapsto> dflt)) \<and>
       i < length d' \<and> fst (d' ! i) = k \<and> Some (snd (d' ! i)) = map_of d' k)"
proof -
  let ?i = "lower_bound k d"
  note entry = lower_bound_entry [OF assms, of k]
  have le: "?i < length d \<Longrightarrow> k \<le> fst (d ! ?i)"
    by (rule lower_bound_split [OF assms, of k]) (auto simp: nth_append)
  have absent: "?i = length d \<or> key_comp k (fst (d ! ?i)) \<longleftrightarrow> map_of d k = None"
  proof (cases "?i = length d")
    case False
    then have "?i < length d" using lower_bound_le [of k d] by simp
    with entry le show ?thesis by (auto simp: key_comp_def)
  qed (use entry in simp)
  show ?thesis
  proof (cases "map_of d k")
    case None
    note ins = insert_at_lower [OF assms None]
    have "\<not> (?i \<noteq> length d \<and> fst (d ! ?i) = k)" using entry None lower_bound_le [of k d] by (auto split: if_splits)
    then have "fm_insert (k, v) d = (?i, True, insert_at ?i (k, v) d)"
      by (simp add: fm_insert_def Let_def)
    moreover have "fm_index dflt k d = (?i, insert_at ?i (k, dflt) d)" "fm_at k d = None"
      using absent None by (simp_all add: fm_index_def fm_at_def Let_def)
    moreover have "?i < Suc (length d)" using lower_bound_le [of k d] by simp
    ultimately show ?thesis using ins None by (simp add: domIff)
  next
    case (Some w)
    then have e: "?i < length d" "fst (d ! ?i) = k" "snd (d ! ?i) = w" using entry by (auto split: if_splits)
    then have "fm_insert (k, v) d = (?i, False, d)" by (simp add: fm_insert_def Let_def)
    moreover have "fm_index dflt k d = (?i, d)" "fm_at k d = Some w"
      using absent Some e by (auto simp: fm_index_def fm_at_def Let_def)
    ultimately show ?thesis using assms Some e by (simp add: domIff)
  qed
qed

theorem flat_map_refines_map_witness:
  "map_of (snd (snd (fm_insert (2, CHR ''b'') [(1 :: nat, CHR ''a''), (3, CHR ''c'')]))) 2 = Some CHR ''b''"
proof -
  have "fm_ok [(1 :: nat, CHR ''a''), (3, CHR ''c'')]" by simp
  from flat_map_refines_map [OF this, of 2 "CHR ''b''" "CHR ''x''"] show ?thesis
    by (auto simp: domIff split: prod.splits)
qed

text \<open>
  \<open>find\<close> is right only for keys up to the greatest one, and \<open>erase\<close> by key only for keys that
  are there; else both read \<open>*end()\<close>. In particular every search in an empty map is undefined.
\<close>

theorem flat_map_find_erase:
  assumes "fm_ok d"
  shows "fm_find k d = (if \<forall>p \<in> set d. fst p < k then None
      else Some (if k \<in> dom (map_of d) then lower_bound k d else length d)) \<and>
    (case fm_erase k d of None \<Rightarrow> k \<notin> dom (map_of d)
     | Some (n, d') \<Rightarrow> n = 1 \<and> k \<in> dom (map_of d) \<and> fm_ok d' \<and> map_of d' = (map_of d)(k := None))"
proof -
  let ?i = "lower_bound k d"
  obtain a b where s: "d = a @ b" "?i = length a" "\<forall>p \<in> set a. fst p < k" "\<forall>p \<in> set b. k \<le> fst p"
      "fm_ok a" "fm_ok b"
    by (rule lower_bound_split [OF assms, of k])
  have "?i = length d \<longleftrightarrow> (\<forall>p \<in> set d. fst p < k)"
    using s by (cases b) (auto simp: not_less [symmetric])
  then have find: "fm_find k d = (if \<forall>p \<in> set d. fst p < k then None
      else Some (if k \<in> dom (map_of d) then ?i else length d))"
    using lower_bound_entry [OF assms, of k] lower_bound_le [of k d]
    by (auto simp: fm_find_def Let_def domIff)
  show ?thesis
  proof (cases "k \<in> dom (map_of d)")
    case False
    with find show ?thesis by (simp add: fm_erase_def)
  next
    case True
    then have e: "?i < length d" "fst (d ! ?i) = k" using lower_bound_entry [OF assms, of k] by (auto split: if_splits)
    then obtain p b' where b: "b = p # b'" "fst p = k" using s(1,2) by (cases b) (auto simp: nth_append)
    have "fst (d ! ?i) < k \<longleftrightarrow> False" using e by simp
    then have "\<not> (\<forall>p \<in> set d. fst p < k)" using e(1) nth_mem by blast
    then have "fm_erase k d = Some (1, a @ b')"
      using find True e s(1,2) b by (simp add: fm_erase_def erase_at_def nth_append)
    moreover have "map_of (a @ b') = (map_of d)(k := None)"
    proof
      fix x
      have "map_of b' k = None" using s(6) b by (intro map_of_above) auto
      then show "map_of (a @ b') x = ((map_of d)(k := None)) x"
        using map_of_below [OF s(3)] b by (auto simp: s(1) map_add_def split: option.splits)
    qed
    moreover have "fm_ok (a @ b')" using assms s(1) b(1) by (auto simp: fm_ok_def sorted_wrt_append)
    ultimately show ?thesis using find True by simp
  qed
qed

theorem flat_map_find_erase_witness:
  "fm_find 5 [(1 :: nat, True)] = None \<and> fm_erase 0 [(1 :: nat, True)] = None \<and>
   fm_find 0 [(1 :: nat, True)] = Some 1"
proof -
  have ok: "fm_ok [(1 :: nat, True)]" by simp
  have "fm_erase 0 [(1 :: nat, True)] = None"
    by (simp add: fm_erase_def fm_find_def Let_def)
  with flat_map_find_erase [OF ok, of 5] flat_map_find_erase [OF ok, of 0] show ?thesis by simp
qed

text \<open>
  The constructor from a range sorts the pairs and keeps all of them: two pairs with one key
  stay, so the result is a map only if the keys of the range are distinct.
\<close>

theorem flat_map_range_keeps_duplicates:
  "mset (flat_map_range xs) = mset xs \<and> sorted_wrt (\<lambda>p q. fst p \<le> fst q) (flat_map_range xs) \<and>
   (fm_ok (flat_map_range xs) \<longleftrightarrow> distinct (map fst xs))"
proof -
  have props: "mset (foldr sort_into xs []) = mset xs \<and>
      sorted_wrt (\<lambda>p q. fst p \<le> fst q) (foldr sort_into xs [])"
    by (induction xs) (simp_all add: sort_into_props)
  have ok: "fm_ok d \<longleftrightarrow> distinct (map fst d)" if "sorted_wrt (\<lambda>p q. fst p \<le> fst q) d" for d :: "('a, 'b) flat_map"
    using that by (induction d) (auto simp: order.strict_iff_order)
  have "distinct (map fst (foldr sort_into xs [])) \<longleftrightarrow> distinct (map fst xs)"
    using props by (metis mset_eq_imp_distinct_iff mset_map)
  with props ok show ?thesis by (simp add: flat_map_range_def resort_def)
qed

end
