(* ===== verification/UnionFind.thy ===== *)
theory UnionFind
  imports Prelude
begin

text \<open>
  \<open>UnionFindNode\<close> of \<open>Galois/UnionFind.h\<close>: nodes are indices (the order of their addresses),
  \<open>m ! x\<close> is the \<open>m_component\<close> of node \<open>x\<close>. A call runs without interference, so the CAS of
  \<open>merge\<close> finds the root it has just read. The loops are partial functions; \<open>uf_ok\<close>, that every
  pointer leads to a node of at least the same address, makes them end.
\<close>

section \<open>Operations\<close>

definition isRep :: "nat list \<Rightarrow> nat \<Rightarrow> bool" where
  "isRep m x \<longleftrightarrow> m ! x = x"

definition uf_init :: "nat \<Rightarrow> nat list" where
  "uf_init n = [0..<n]"

partial_function (option) find_loop :: "nat list \<Rightarrow> nat \<Rightarrow> nat option" where
  "find_loop m rep = (if m ! rep \<noteq> rep then find_loop m (m ! rep) else Some rep)"

definition findImpl :: "nat list \<Rightarrow> nat \<Rightarrow> nat option" where
  "findImpl m x = (if isRep m x then Some (m ! x) else find_loop m (m ! x))"

definition uf_find :: "nat list \<Rightarrow> nat \<Rightarrow> nat option" where
  "uf_find m x = findImpl m x"

partial_function (option) compress_loop :: "nat list \<Rightarrow> nat option \<Rightarrow> nat \<Rightarrow> (nat list \<times> nat) option" where
  "compress_loop m prev rep =
     (if m ! rep \<noteq> rep then
        let nxt = m ! rep;
            m1 = (case prev of None \<Rightarrow> m | Some p \<Rightarrow> if m ! p = rep then m[p := nxt] else m)
        in compress_loop m1 (Some rep) nxt
      else Some (m, rep))"

definition findAndCompress :: "nat list \<Rightarrow> nat \<Rightarrow> (nat list \<times> nat) option" where
  "findAndCompress m x = (if isRep m x then Some (m, m ! x) else compress_loop m None (m ! x))"

text \<open>The result of \<open>merge\<close> is the new root, or \<open>None\<close> for the null pointer.\<close>

partial_function (option) merge_loop :: "nat list \<Rightarrow> nat \<Rightarrow> nat \<Rightarrow> (nat list \<times> nat option) option" where
  "merge_loop m a b =
     Option.bind (findAndCompress m a) (\<lambda>(m1, a1).
     Option.bind (findAndCompress m1 b) (\<lambda>(m2, b1).
       if a1 = b1 then Some (m2, None)
       else let a2 = min a1 b1; b2 = max a1 b1
            in if m2 ! a2 = a2 then Some (m2[a2 := b2], Some b2) else merge_loop m2 a2 b2))"

definition uf_merge :: "nat list \<Rightarrow> nat \<Rightarrow> nat \<Rightarrow> (nat list \<times> nat option) option" where
  "uf_merge m x b = merge_loop m (m ! x) b"

declare find_loop.simps [code] compress_loop.simps [code] merge_loop.simps [code]

section \<open>Roots\<close>

definition uf_ok :: "nat list \<Rightarrow> bool" where
  "uf_ok m \<longleftrightarrow> (\<forall>x < length m. x \<le> m ! x \<and> m ! x < length m)"

inductive root_of :: "nat list \<Rightarrow> nat \<Rightarrow> nat \<Rightarrow> bool" for m where
  here: "m ! x = x \<Longrightarrow> root_of m x x"
| up: "m ! x \<noteq> x \<Longrightarrow> root_of m (m ! x) r \<Longrightarrow> root_of m x r"

inductive_cases root_ofE: "root_of m x r"

lemma root_of_up: "m ! x \<noteq> x \<Longrightarrow> root_of m x r \<longleftrightarrow> root_of m (m ! x) r"
  by (auto intro: root_of.up elim: root_ofE)

lemma root_of_here: "m ! x = x \<Longrightarrow> root_of m x r \<longleftrightarrow> r = x"
  by (auto intro: root_of.here elim: root_ofE)

lemma root_of_root: "root_of m x r \<Longrightarrow> m ! r = r"
  by (induction rule: root_of.induct) simp_all

lemma root_of_unique: "root_of m x r \<Longrightarrow> root_of m x r' \<Longrightarrow> r = r'"
  by (induction rule: root_of.induct) (auto simp: root_of_here root_of_up)

lemma uf_up:
  assumes "uf_ok m" "x < length m" "m ! x \<noteq> x"
  shows "m ! x < length m" "length m - m ! x < length m - x" "x < m ! x"
proof -
  have "x \<le> m ! x" "m ! x < length m" using assms(1,2) by (simp_all add: uf_ok_def)
  with assms(2,3) show "m ! x < length m" "length m - m ! x < length m - x" "x < m ! x" by linarith+
qed

lemma root_of_bounds: "root_of m x r \<Longrightarrow> uf_ok m \<Longrightarrow> x < length m \<Longrightarrow> x \<le> r \<and> r < length m"
proof (induction rule: root_of.induct)
  case (up x r)
  with uf_up [OF up.prems up.hyps(1)] show ?case by simp
qed simp

lemma uf_ok_update:
  assumes "uf_ok m" "a \<le> b" "b < length m"
  shows "uf_ok (m[a := b])"
  unfolding uf_ok_def
proof (intro allI impI)
  fix x
  assume "x < length (m[a := b])"
  then show "x \<le> m[a := b] ! x \<and> m[a := b] ! x < length (m[a := b])"
    using assms by (cases "x = a") (simp_all add: uf_ok_def)
qed

lemma root_exists: "uf_ok m \<Longrightarrow> x < length m \<Longrightarrow> \<exists>r. root_of m x r"
proof (induction "length m - x" arbitrary: x rule: less_induct)
  case less
  show ?case
  proof (cases "m ! x = x")
    case True
    then show ?thesis by (auto intro: root_of.here)
  next
    case False
    with less.hyps [of "m ! x"] uf_up [OF less.prems False] less.prems(1)
    obtain r where "root_of m (m ! x) r" by blast
    then show ?thesis using root_of.up [OF False] by blast
  qed
qed

lemma find_loop_root: "root_of m x r \<Longrightarrow> find_loop m x = Some r"
  by (induction rule: root_of.induct) (simp_all add: find_loop.simps)

lemma findImpl_root: "root_of m x r \<Longrightarrow> findImpl m x = Some r"
  by (auto simp: findImpl_def isRep_def root_of_here root_of_up intro: find_loop_root)

lemma find_iff: "uf_ok m \<Longrightarrow> x < length m \<Longrightarrow> uf_find m x = Some r \<longleftrightarrow> root_of m x r"
  using root_exists [of m x] by (auto simp: uf_find_def findImpl_root dest: root_of_unique)

text \<open>\<open>same_roots m m'\<close>: as many nodes, each with the same root.\<close>

definition same_roots :: "nat list \<Rightarrow> nat list \<Rightarrow> bool" where
  "same_roots m m' \<longleftrightarrow> length m' = length m \<and> uf_ok m' \<and> (\<forall>y r. y < length m \<longrightarrow> root_of m y r \<longrightarrow> root_of m' y r)"

lemma same_roots_refl: "uf_ok m \<Longrightarrow> same_roots m m"
  by (simp add: same_roots_def)

lemma same_roots_trans: "same_roots m m1 \<Longrightarrow> same_roots m1 m2 \<Longrightarrow> same_roots m m2"
  by (simp add: same_roots_def)

text \<open>Path compression: a pointer to \<open>q\<close> becomes a pointer to the next node.\<close>

lemma compress_step:
  assumes ok: "uf_ok m" and p: "p < length m" "m ! p = q" "q \<noteq> p" "m ! q \<noteq> q"
  shows "same_roots m (m[p := m ! q])"
proof -
  let ?m = "m[p := m ! q]"
  have q: "p < q" "q < length m" "q < m ! q" "m ! q < length m"
    using uf_up [OF ok p(1)] p uf_up [OF ok, of q] by auto
  have "root_of ?m y r" if "root_of m y r" for y r
    using that
  proof (induction rule: root_of.induct)
    case (here y)
    then have "y \<noteq> p" using p by auto
    then show ?case using here by (simp add: root_of_here)
  next
    case (up y r)
    show ?case
    proof (cases "y = p")
      case True
      have nth: "?m ! q = m ! q" "?m ! p = m ! q" using q p(1) by simp_all
      have "root_of ?m q r" using up.IH unfolding True p(2) .
      moreover have "?m ! q \<noteq> q" unfolding nth by (rule p(4))
      ultimately have "root_of ?m (?m ! p) r" using root_of_up [of ?m q r] nth by metis
      moreover have "?m ! p \<noteq> p" using q nth by linarith
      ultimately show ?thesis unfolding True by (metis root_of.up)
    next
      case False
      with up show ?thesis by (simp_all add: root_of.up)
    qed
  qed
  moreover have "uf_ok ?m" using q by (intro uf_ok_update [OF ok]) simp_all
  ultimately show ?thesis by (simp add: same_roots_def)
qed

lemma compress_loop_root:
  "uf_ok m \<Longrightarrow> rep < length m \<Longrightarrow> (\<forall>p. prev = Some p \<longrightarrow> p < rep) \<Longrightarrow> root_of m rep r \<Longrightarrow>
   \<exists>m'. compress_loop m prev rep = Some (m', r) \<and> same_roots m m'"
proof (induction "length m - rep" arbitrary: m prev rep rule: less_induct)
  case less
  show ?case
  proof (cases "m ! rep = rep")
    case True
    then show ?thesis
      using less.prems by (subst compress_loop.simps) (auto simp: root_of_here same_roots_refl)
  next
    case False
    note u = uf_up [OF less.prems(1,2) False]
    define m1 where "m1 = (case prev of None \<Rightarrow> m | Some p \<Rightarrow> if m ! p = rep then m[p := m ! rep] else m)"
    have m1: "same_roots m m1"
      using less.prems(1-3) False compress_step [OF less.prems(1), of _ rep]
      by (auto simp: m1_def same_roots_refl split: option.splits)
    have eq: "compress_loop m prev rep = compress_loop m1 (Some rep) (m ! rep)"
      using False by (subst compress_loop.simps) (simp add: m1_def Let_def)
    have r: "root_of m (m ! rep) r" using less.prems(4) False by (simp add: root_of_up)
    have len: "length m1 = length m" and ok: "uf_ok m1" and r1: "root_of m1 (m ! rep) r"
      using m1 r u(1) by (auto simp: same_roots_def)
    from less.hyps [of m1 "m ! rep" "Some rep"] len ok r1 u
    obtain m' where "compress_loop m1 (Some rep) (m ! rep) = Some (m', r)" "same_roots m1 m'" by auto
    with eq same_roots_trans [OF m1] show ?thesis by auto
  qed
qed

lemma findAndCompress_root:
  assumes "uf_ok m" "x < length m" "root_of m x r"
  shows "\<exists>m'. findAndCompress m x = Some (m', r) \<and> same_roots m m'"
proof (cases "m ! x = x")
  case True
  with assms show ?thesis by (simp add: findAndCompress_def isRep_def root_of_here same_roots_refl)
next
  case False
  with compress_loop_root [of m "m ! x" None r] uf_up [OF assms(1,2) False] assms show ?thesis
    by (auto simp: findAndCompress_def isRep_def root_of_up)
qed

lemma link_roots:
  assumes ok: "uf_ok m" and a: "a < b" "b < length m" "m ! a = a" "m ! b = b"
  shows "uf_ok (m[a := b])" "root_of m y r \<Longrightarrow> root_of (m[a := b]) y (if r = a then b else r)"
proof -
  show "uf_ok (m[a := b])" using a by (intro uf_ok_update [OF ok]) simp_all
  have b: "root_of (m[a := b]) b b" using a by (simp add: root_of_here)
  show "root_of m y r \<Longrightarrow> root_of (m[a := b]) y (if r = a then b else r)"
  proof (induction rule: root_of.induct)
    case (here y)
    show ?case
    proof (cases "y = a")
      case True
      with a b show ?thesis by (simp_all add: root_of.up)
    next
      case False
      with here show ?thesis by (simp add: root_of_here)
    qed
  next
    case (up y r)
    then have "y \<noteq> a" using a by auto
    with up show ?case by (simp_all add: root_of.up)
  qed
qed

lemma merge_roots:
  assumes "uf_ok m" "x < length m" "b < length m" "root_of m x rx" "root_of m b rb"
  shows "\<exists>m'. uf_merge m x b = Some (m', if rx = rb then None else Some (max rx rb)) \<and>
    length m' = length m \<and> uf_ok m' \<and>
    (\<forall>y r. y < length m \<longrightarrow> root_of m y r \<longrightarrow> root_of m' y (if r \<in> {rx, rb} then max rx rb else r))"
proof -
  have x: "m ! x < length m" "root_of m (m ! x) rx"
    using assms(1,2) by (simp_all add: uf_ok_def) (metis assms(4) root_of_up)
  obtain m1 where m1: "findAndCompress m (m ! x) = Some (m1, rx)" "same_roots m m1"
    using findAndCompress_root [OF assms(1) x] by blast
  then have b1: "uf_ok m1" "b < length m1" "root_of m1 b rb" using assms(3,5) by (auto simp: same_roots_def)
  obtain m2 where m2: "findAndCompress m1 b = Some (m2, rb)" "same_roots m1 m2"
    using findAndCompress_root [OF b1] by blast
  have s: "same_roots m m2" by (rule same_roots_trans [OF m1(2) m2(2)])
  then have ok: "uf_ok m2" "length m2 = length m" by (simp_all add: same_roots_def)
  have "root_of m2 x rx" "root_of m2 b rb" using s assms(2-5) by (simp_all add: same_roots_def)
  then have roots: "m2 ! rx = rx" "m2 ! rb = rb" "rx < length m" "rb < length m"
    using root_of_bounds [OF assms(4,1,2)] root_of_bounds [OF assms(5,1,3)] by (simp_all add: root_of_root)
  show ?thesis
  proof (cases "rx = rb")
    case True
    then have "uf_merge m x b = Some (m2, None)"
      using m1(1) m2(1) by (simp add: uf_merge_def merge_loop.simps)
    with True s show ?thesis by (auto simp: same_roots_def)
  next
    case False
    let ?a = "min rx rb" and ?b = "max rx rb"
    have ab: "?a < ?b" "?b < length m2" "m2 ! ?a = ?a" "m2 ! ?b = ?b"
      using False roots ok(2) by (simp_all add: min_def max_def)
    have "uf_merge m x b = Some (m2[?a := ?b], Some ?b)"
      using m1(1) m2(1) False ab(3) by (simp add: uf_merge_def merge_loop.simps Let_def)
    moreover have "root_of (m2[?a := ?b]) y (if r \<in> {rx, rb} then ?b else r)"
      if "y < length m" "root_of m y r" for y r
      using link_roots(2) [OF ok(1) ab, of y r] s that by (auto simp: same_roots_def min_def max_def split: if_splits)
    ultimately show ?thesis using False link_roots(1) [OF ok(1) ab] ok(2) by auto
  qed
qed

section \<open>Properties\<close>

text \<open>
  In a forest whose pointers never lead to a lower address, \<open>find\<close> and \<open>findAndCompress\<close>
  return, with the same root, and compression changes the root of no node.
\<close>

theorem UnionFind_find_correct:
  assumes "uf_ok m" "x < length m"
  shows "\<exists>r m'. uf_find m x = Some r \<and> findAndCompress m x = Some (m', r) \<and> isRep m r \<and>
    uf_ok m' \<and> length m' = length m \<and> (\<forall>y < length m. uf_find m' y = uf_find m y)"
proof -
  obtain r where r: "root_of m x r" using root_exists [OF assms] by blast
  obtain m' where m': "findAndCompress m x = Some (m', r)" "same_roots m m'"
    using findAndCompress_root [OF assms r] by blast
  have "uf_find m' y = uf_find m y" if y: "y < length m" for y
  proof -
    obtain s where s: "root_of m y s" using root_exists [OF assms(1) y] by blast
    then have "root_of m' y s" using m'(2) y by (simp add: same_roots_def)
    with s show ?thesis by (simp add: uf_find_def findImpl_root)
  qed
  moreover have "uf_find m x = Some r" using r by (simp add: uf_find_def findImpl_root)
  ultimately show ?thesis
    using m' root_of_root [OF r] by (auto simp: same_roots_def isRep_def)
qed

theorem UnionFind_find_correct_witness:
  "uf_find [1, 2, 3, 3] 0 = Some 3 \<and> (\<exists>m'. findAndCompress [1, 2, 3, 3] 0 = Some (m', 3) \<and> m' \<noteq> [1, 2, 3, 3])"
proof -
  have "uf_ok [1, 2, 3, 3]" by code_simp
  moreover have "findAndCompress [1, 2, 3, 3] 0 = Some ([1, 3, 3, 3], 3)" by code_simp
  ultimately show ?thesis using UnionFind_find_correct [of "[1, 2, 3, 3]" 0] by auto
qed

text \<open>
  \<open>merge\<close> returns null exactly if the two nodes had one root already; else it returns the
  greater of their roots, which is then the root of all the nodes that had either, every other
  node keeping its own. It keeps the forest free of cycles.
\<close>

theorem UnionFind_merge_correct:
  assumes "uf_ok m" "x < length m" "b < length m" "uf_find m x = Some rx" "uf_find m b = Some rb"
  shows "\<exists>m'. uf_merge m x b = Some (m', if rx = rb then None else Some (max rx rb)) \<and>
    length m' = length m \<and> uf_ok m' \<and>
    (\<forall>y r. y < length m \<longrightarrow> uf_find m y = Some r \<longrightarrow>
       uf_find m' y = Some (if r \<in> {rx, rb} then max rx rb else r))"
proof -
  have "root_of m x rx" "root_of m b rb" using assms find_iff by auto
  from merge_roots [OF assms(1-3) this] obtain m' where
    "uf_merge m x b = Some (m', if rx = rb then None else Some (max rx rb))" "length m' = length m" "uf_ok m'"
    "\<forall>y r. y < length m \<longrightarrow> root_of m y r \<longrightarrow> root_of m' y (if r \<in> {rx, rb} then max rx rb else r)" by blast
  with find_iff [OF assms(1)] find_iff [of m'] show ?thesis by metis
qed

theorem UnionFind_merge_correct_witness:
  "\<exists>m'. uf_merge (uf_init 3) 0 2 = Some (m', Some 2) \<and> uf_find m' 0 = Some 2 \<and> uf_find m' 1 = Some 1"
proof -
  have "uf_ok (uf_init 3)" "length (uf_init 3) = 3" by code_simp+
  moreover have "uf_find (uf_init 3) 0 = Some 0" "uf_find (uf_init 3) 1 = Some 1" "uf_find (uf_init 3) 2 = Some 2"
    by code_simp+
  ultimately show ?thesis using UnionFind_merge_correct [of "uf_init 3" 0 2 0 2] by auto
qed

end
