(* ===== verification/Endian.thy ===== *)
theory Endian
  imports Prelude
begin

unbundle bit_operations_syntax

text \<open>
  The byte-order conversions of \<open>Galois/Endian.h\<close>, which the graph file readers use. On a
  little-endian machine they are the identity, on a big-endian one (\<open>HAVE_BIG_ENDIAN\<close>) the naive
  byte swap. \<open>HAVE_BIG_ENDIAN\<close> is the parameter \<open>big\<close>.
\<close>

section \<open>The conversions\<close>

definition convert_le64 :: "bool \<Rightarrow> u64 \<Rightarrow> u64" where
  "convert_le64 big x =
     (if \<not> big then x
      else (push_bit 56 x AND 0xFF00000000000000) OR
           (push_bit 40 x AND 0x00FF000000000000) OR
           (push_bit 24 x AND 0x0000FF0000000000) OR
           (push_bit 8 x AND 0x000000FF00000000) OR
           (drop_bit 8 x AND 0x00000000FF000000) OR
           (drop_bit 24 x AND 0x0000000000FF0000) OR
           (drop_bit 40 x AND 0x000000000000FF00) OR
           (drop_bit 56 x AND 0x00000000000000FF))"

definition convert_le32 :: "bool \<Rightarrow> u32 \<Rightarrow> u32" where
  "convert_le32 big x =
     (if \<not> big then x
      else (push_bit 24 x AND 0xFF000000) OR
           (push_bit 8 x AND 0x00FF0000) OR
           (drop_bit 8 x AND 0x0000FF00) OR
           (drop_bit 24 x AND 0x000000FF))"

section \<open>Bits\<close>

text \<open>The masks are a byte of ones at a multiple of eight.\<close>

lemma mask_bytes:
  "(0xFF00000000000000 :: u64) = push_bit 56 (mask 8)" "(0x00FF000000000000 :: u64) = push_bit 48 (mask 8)"
  "(0x0000FF0000000000 :: u64) = push_bit 40 (mask 8)" "(0x000000FF00000000 :: u64) = push_bit 32 (mask 8)"
  "(0x00000000FF000000 :: u64) = push_bit 24 (mask 8)" "(0x0000000000FF0000 :: u64) = push_bit 16 (mask 8)"
  "(0x000000000000FF00 :: u64) = push_bit 8 (mask 8)" "(0x00000000000000FF :: u64) = push_bit 0 (mask 8)"
  "(0xFF000000 :: u32) = push_bit 24 (mask 8)" "(0x00FF0000 :: u32) = push_bit 16 (mask 8)"
  "(0x0000FF00 :: u32) = push_bit 8 (mask 8)" "(0x000000FF :: u32) = push_bit 0 (mask 8)"
  by (simp_all add: mask_eq_exp_minus_1)

lemma bit_byte: "bit (push_bit k (mask 8) :: 'a::len word) i \<longleftrightarrow> i < LENGTH('a) \<and> k \<le> i \<and> i < k + 8"
  by (auto simp: bit_simps)

text \<open>Bit \<open>i\<close> of the swapped word is the same bit of the byte at the mirrored place.\<close>

lemma bit_swap64:
  assumes "i < 64"
  shows "bit (convert_le64 True x) i \<longleftrightarrow> bit x (56 - 8 * (i div 8) + i mod 8)"
proof -
  define k where "k = i div 8"
  define r where "r = i mod 8"
  have i: "i = 8 * k + r" "r < 8" "k < 8" using assms by (simp_all add: k_def r_def less_mult_imp_div_less)
  have byte: "bit (a AND push_bit j (mask 8)) i \<longleftrightarrow> bit a i \<and> j \<le> i \<and> i < j + 8" for a :: u64 and j
    using assms by (simp only: bit_and_iff bit_byte) simp
  have "k = 0 \<or> k = 1 \<or> k = 2 \<or> k = 3 \<or> k = 4 \<or> k = 5 \<or> k = 6 \<or> k = 7" using i(3) by arith
  then show ?thesis
    unfolding convert_le64_def mask_bytes not_True_eq_False if_False bit_or_iff byte
      k_def [symmetric] r_def [symmetric]
    using i(2) by (elim disjE; simp add: i(1) bit_push_bit_iff bit_drop_bit_eq add.commute)
qed

lemma bit_swap32:
  assumes "i < 32"
  shows "bit (convert_le32 True x) i \<longleftrightarrow> bit x (24 - 8 * (i div 8) + i mod 8)"
proof -
  define k where "k = i div 8"
  define r where "r = i mod 8"
  have i: "i = 8 * k + r" "r < 8" "k < 4" using assms by (simp_all add: k_def r_def less_mult_imp_div_less)
  have byte: "bit (a AND push_bit j (mask 8)) i \<longleftrightarrow> bit a i \<and> j \<le> i \<and> i < j + 8" for a :: u32 and j
    using assms by (simp only: bit_and_iff bit_byte) simp
  have "k = 0 \<or> k = 1 \<or> k = 2 \<or> k = 3" using i(3) by arith
  then show ?thesis
    unfolding convert_le32_def mask_bytes not_True_eq_False if_False bit_or_iff byte
      k_def [symmetric] r_def [symmetric]
    using i(2) by (elim disjE; simp add: i(1) bit_push_bit_iff bit_drop_bit_eq add.commute)
qed

lemma mirror: "i < 8 * n \<Longrightarrow> 8 * (n - 1) - 8 * (i div 8) + i mod 8 < 8 * n \<and>
    (8 * (n - 1) - 8 * (i div 8) + i mod 8) div 8 = n - 1 - i div 8 \<and>
    (8 * (n - 1) - 8 * (i div 8) + i mod 8) mod 8 = i mod 8" for i n :: nat
proof -
  assume "i < 8 * n"
  then have k: "i div 8 < n" by (simp add: less_mult_imp_div_less mult.commute)
  have eq: "8 * (n - 1) - 8 * (i div 8) + i mod 8 = 8 * (n - 1 - i div 8) + i mod 8"
    by (simp add: diff_mult_distrib2)
  have "8 * (n - 1 - i div 8) + i mod 8 < 8 * n"
    using k mod_less_divisor [of 8 i] by linarith
  then show ?thesis unfolding eq by simp
qed

lemma swap64_swap64: "convert_le64 True (convert_le64 True x) = x"
proof (rule bit_word_eqI)
  fix k
  assume "k < LENGTH(64)"
  then have k: "k < 8 * 8" by simp
  note m = mirror [OF k]
  have "k div 8 < 8" using k by (simp add: less_mult_imp_div_less)
  then have "56 - 8 * (7 - k div 8) + k mod 8 = k"
    using div_mult_mod_eq [of k 8] by linarith
  then show "bit (convert_le64 True (convert_le64 True x)) k \<longleftrightarrow> bit x k"
    using m k by (simp add: bit_swap64)
qed

lemma swap32_swap32: "convert_le32 True (convert_le32 True x) = x"
proof (rule bit_word_eqI)
  fix k
  assume "k < LENGTH(32)"
  then have k: "k < 8 * 4" by simp
  note m = mirror [OF k]
  have "k div 8 < 4" using k by (simp add: less_mult_imp_div_less)
  then have "24 - 8 * (3 - k div 8) + k mod 8 = k"
    using div_mult_mod_eq [of k 8] by linarith
  then show "bit (convert_le32 True (convert_le32 True x)) k \<longleftrightarrow> bit x k"
    using m k by (simp add: bit_swap32)
qed

section \<open>Property\<close>

text \<open>
  On either kind of machine a conversion undoes itself, and on a big-endian one the bytes
  are in the reverse order.
\<close>

theorem convert_le_involution:
  "convert_le64 big (convert_le64 big x) = x \<and> convert_le32 big (convert_le32 big y) = y \<and>
   (i < 64 \<longrightarrow> bit (convert_le64 True x) i = bit x (56 - 8 * (i div 8) + i mod 8))"
  using swap64_swap64 [of x] swap32_swap32 [of y] bit_swap64 [of i x]
  by (cases big) (simp_all add: convert_le64_def [of False] convert_le32_def [of False])

theorem convert_le_involution_witness:
  "bit (convert_le64 True 1) 56 \<and> convert_le32 True (convert_le32 True 258) = 258"
  using convert_le_involution [of True 1 258 56] by simp

end
