(* ===== verification/TermDetect.thy ===== *)
theory TermDetect
  imports Prelude
begin

text \<open>
  How the parallel loop stops: the worker loop of \<open>Runtime/ParallelWork.h\<close> (\<open>go\<close>,
  \<open>runQueueSimple\<close>), what it expects of a \<open>TerminationDetection\<close> (\<open>Runtime/Termination.h\<close>), and the
  proof that a detector that works in two passes makes all workers stop only when no task is
  left. The detectors of \<open>Termination.cpp\<close> are in \<open>RingTermination\<close> and \<open>TreeTermination\<close>.

  The scheduler \<open>wl\<close> is a template parameter of the loop, so it is a parameter here: it keeps each task either in a
  place all threads see (\<open>shared\<close>: the heaps of a \<open>MultiQueue\<close>) or in a place of one thread (\<open>own\<close>: its buffers, or its heap
  in a \<open>StealingMultiQueue\<close>), and says when a \<open>pop\<close> may come back empty (\<open>misses\<close>) and what an operation may leave in these
  places (\<open>leaves\<close>). The loop does not restrict either. That no task is left at the end needs a \<open>thorough\<close> scheduler, whose \<open>pop\<close> fails
  only if it sees neither a shared task nor one of its own, and where no thread adds to another one's place.
\<close>

section \<open>Two-pass detection, abstractly\<close>

text \<open>
  A detector visits each thread once in every wave. A wave is black if some thread it visited had
  worked since the visit before; two white waves in a row end the loop.
\<close>

record wave =
  dirty :: "nat \<Rightarrow> bool"     \<comment> \<open>work reported since the last visit\<close>
  visited :: "nat set"
  wblack :: bool
  lwhite :: bool            \<comment> \<open>the last wave was white\<close>
  wterm :: bool

definition report :: "nat \<Rightarrow> bool \<Rightarrow> wave \<Rightarrow> wave" where
  "report t b a = a\<lparr>dirty := (dirty a)(t := dirty a t \<or> b)\<rparr>"

definition visit :: "nat \<Rightarrow> wave \<Rightarrow> wave" where
  "visit t a = a\<lparr>dirty := (dirty a)(t := False), visited := insert t (visited a), wblack := wblack a \<or> dirty a t\<rparr>"

definition finish :: "wave \<Rightarrow> wave" where
  "finish a = a\<lparr>visited := {}, wblack := False, lwhite := \<not> wblack a, wterm := wterm a \<or> lwhite a \<and> \<not> wblack a\<rparr>"

text \<open>
  What one call may do: report, and perhaps be visited, and perhaps end the wave. After the end the
  detector may do what it likes, but not take it back.
\<close>

definition wave_call :: "nat \<Rightarrow> nat \<Rightarrow> bool \<Rightarrow> wave \<Rightarrow> wave \<Rightarrow> bool" where
  "wave_call n t b a a' \<longleftrightarrow>
     wterm a \<and> wterm a' \<or> a' = report t b a \<or>
     t \<notin> visited a \<and>
       (a' = visit t (report t b a) \<or> insert t (visited a) = {..<n} \<and> a' = finish (visit t (report t b a)))"

definition wave_start :: "nat \<Rightarrow> wave \<Rightarrow> bool" where
  "wave_start n a \<longleftrightarrow> (\<forall>t<n. dirty a t) \<and> 0 \<notin> visited a \<and> \<not> wterm a"

section \<open>The worker loop\<close>

datatype wpc = Popping | Processing | Calling | Checking | Stopped

text \<open>The workers and the scheduler; of the tasks only their numbers matter here.\<close>

record workers =
  wpcs :: "nat \<Rightarrow> wpc"
  didWork :: "nat \<Rightarrow> bool"
  shared :: nat
  own :: "nat \<Rightarrow> nat"

definition at :: "nat \<Rightarrow> wpc \<Rightarrow> workers \<Rightarrow> workers" where
  "at t p s = s\<lparr>wpcs := (wpcs s)(t := p)\<rparr>"

definition some_task :: "nat \<Rightarrow> workers \<Rightarrow> bool" where
  "some_task n s \<longleftrightarrow> 0 < shared s \<or> (\<exists>u<n. 0 < own s u)"

record scheduler =
  misses :: "workers \<Rightarrow> nat \<Rightarrow> bool"
  leaves :: "workers \<Rightarrow> nat \<Rightarrow> nat \<Rightarrow> (nat \<Rightarrow> nat) \<Rightarrow> bool"

definition thorough :: "nat \<Rightarrow> scheduler \<Rightarrow> bool" where
  "thorough n W \<longleftrightarrow>
     (\<forall>s t. misses W s t \<longrightarrow> shared s = 0 \<and> own s t = 0) \<and>
     (\<forall>s t sh ow. leaves W s t sh ow \<longrightarrow> (\<forall>u<n. u \<noteq> t \<longrightarrow> ow u \<le> own s u))"

text \<open>
  A scheduler that finds every task there is, and one whose \<open>pop\<close> may come back empty at any moment, as those of
  the \<open>MultiQueue\<close>s may after a few random attempts.
\<close>

definition exact_scheduler :: scheduler where
  "exact_scheduler = \<lparr>misses = \<lambda>s t. shared s = 0 \<and> own s t = 0, leaves = \<lambda>s t sh ow. \<forall>u. u \<noteq> t \<longrightarrow> ow u \<le> own s u\<rparr>"

definition hasty_scheduler :: scheduler where
  "hasty_scheduler = exact_scheduler\<lparr>misses := \<lambda>s t. True\<rparr>"

lemma exact_thorough: "thorough n exact_scheduler"
  by (simp add: thorough_def exact_scheduler_def)

lemma scheduler_simps [simp]:
  "misses exact_scheduler s t \<longleftrightarrow> shared s = 0 \<and> own s t = 0" "misses hasty_scheduler s t"
  "leaves exact_scheduler s t sh ow \<longleftrightarrow> (\<forall>u. u \<noteq> t \<longrightarrow> ow u \<le> own s u)"
  by (simp_all add: exact_scheduler_def hasty_scheduler_def)

text \<open>
  Steps of thread \<open>t\<close>: \<open>pop\<close> gets a task (and may move others, to \<open>own s t\<close> or to \<open>shared\<close>), the
  operator runs and pushes, \<open>pop\<close> gets none, \<open>localTermination\<close> is called with what the round did
  (\<open>call\<close>, a step of the detector), \<open>globalTermination\<close> is read.
\<close>

inductive work_step ::
    "nat \<Rightarrow> scheduler \<Rightarrow> (nat \<Rightarrow> bool \<Rightarrow> 'd \<Rightarrow> 'd) \<Rightarrow> ('d \<Rightarrow> bool) \<Rightarrow> workers \<times> 'd \<Rightarrow> workers \<times> 'd \<Rightarrow> bool"
  for n W call stop where
  pop_task: "t < n \<Longrightarrow> wpcs s t = Popping \<Longrightarrow> some_task n s \<Longrightarrow> leaves W s t sh ow \<Longrightarrow>
    work_step n W call stop (s, d)
      (at t Processing (s\<lparr>didWork := (didWork s)(t := True), shared := sh, own := ow\<rparr>), d)"
| process: "t < n \<Longrightarrow> wpcs s t = Processing \<Longrightarrow> leaves W s t sh ow \<Longrightarrow>
    work_step n W call stop (s, d) (at t Popping (s\<lparr>shared := sh, own := ow\<rparr>), d)"
| pop_fails: "t < n \<Longrightarrow> wpcs s t = Popping \<Longrightarrow> misses W s t \<Longrightarrow>
    work_step n W call stop (s, d) (at t Calling s, d)"
| call: "t < n \<Longrightarrow> wpcs s t = Calling \<Longrightarrow>
    work_step n W call stop (s, d)
      (at t Checking (s\<lparr>didWork := (didWork s)(t := False)\<rparr>), call t (didWork s t) d)"
| check: "t < n \<Longrightarrow> wpcs s t = Checking \<Longrightarrow>
    work_step n W call stop (s, d) (at t (if stop d then Stopped else Popping) s, d)"

inductive_cases work_stepE: "work_step n W call stop sd sd'"

definition work_start :: "nat \<Rightarrow> workers \<Rightarrow> bool" where
  "work_start n s \<longleftrightarrow> (\<forall>t<n. wpcs s t = Popping \<and> \<not> didWork s t)"

inductive work_reach ::
    "nat \<Rightarrow> scheduler \<Rightarrow> (nat \<Rightarrow> bool \<Rightarrow> 'd \<Rightarrow> 'd) \<Rightarrow> ('d \<Rightarrow> bool) \<Rightarrow> 'd \<Rightarrow> workers \<times> 'd \<Rightarrow> bool"
  for n W call stop d0 where
  start: "work_start n s \<Longrightarrow> work_reach n W call stop d0 (s, d0)"
| step: "work_reach n W call stop d0 sd \<Longrightarrow> work_step n W call stop sd sd' \<Longrightarrow> work_reach n W call stop d0 sd'"

text \<open>Nothing is left to do: no task anywhere, no thread works or has work to report.\<close>

definition quiet :: "nat \<Rightarrow> workers \<Rightarrow> bool" where
  "quiet n s \<longleftrightarrow> \<not> some_task n s \<and> (\<forall>t<n. wpcs s t \<noteq> Processing \<and> \<not> didWork s t)"

text \<open>One fruitless round of a thread: \<open>pop\<close> fails, it reports, it is not told to stop and starts again.\<close>

lemma fruitless_round:
  assumes r: "work_reach n W call stop d0 (s, d)" and t: "t < n" "wpcs s t = Popping" "misses W s t"
    and c: "\<not> stop (call t (didWork s t) d)"
  shows "work_reach n W call stop d0 (s\<lparr>didWork := (didWork s)(t := False)\<rparr>, call t (didWork s t) d)"
proof -
  let ?s1 = "at t Calling s"
  let ?s2 = "at t Checking (?s1\<lparr>didWork := (didWork ?s1)(t := False)\<rparr>)"
  have r1: "work_reach n W call stop d0 (?s1, d)"
    by (rule work_reach.step [OF r]) (rule work_step.pop_fails [OF t])
  have r2: "work_reach n W call stop d0 (?s2, call t (didWork ?s1 t) d)"
    by (rule work_reach.step [OF r1], rule work_step.call) (use t(1) in \<open>simp_all add: at_def\<close>)
  have r3: "work_reach n W call stop d0
      (at t (if stop (call t (didWork ?s1 t) d) then Stopped else Popping) ?s2, call t (didWork ?s1 t) d)"
    by (rule work_reach.step [OF r2], rule work_step.check) (use t(1) in \<open>simp_all add: at_def\<close>)
  have "at t Popping ?s2 = s\<lparr>didWork := (didWork s)(t := False)\<rparr>"
    using t(2) by (simp add: at_def fun_upd_idem)
  with r3 c show ?thesis by (simp add: at_def)
qed

section \<open>Two white waves mean that nothing is left\<close>

text \<open>
  The invariant: \<open>F\<close> holds threads whose \<open>pop\<close> has failed since they were last visited. If every thread
  not visited in this wave is in \<open>F\<close>, and nobody has anything to report and the wave is white, then
  at the last of these failures nothing was left (\<open>settled\<close>). That makes a white wave \<open>lwhite\<close>
  certify, for as long as the next wave is white too, that what follows it is quiet.
\<close>

definition settled :: "nat \<Rightarrow> workers \<Rightarrow> wave \<Rightarrow> nat set \<Rightarrow> bool" where
  "settled n s a F \<longleftrightarrow>
     (\<not> wblack a \<and> (\<forall>u<n. \<not> dirty a u \<and> \<not> didWork s u \<and> (u \<notin> visited a \<longrightarrow> u \<in> F)) \<longrightarrow> quiet n s)"

definition passing :: "nat \<Rightarrow> workers \<Rightarrow> wave \<Rightarrow> bool" where
  "passing n s a \<longleftrightarrow>
     (lwhite a \<and> \<not> wblack a \<and> (\<forall>u<n. u \<notin> visited a \<longrightarrow> \<not> dirty a u \<and> \<not> didWork s u) \<longrightarrow> quiet n s)"

definition local_ok :: "nat \<Rightarrow> workers \<Rightarrow> wave \<Rightarrow> nat set \<Rightarrow> bool" where
  "local_ok n s a F \<longleftrightarrow>
     (\<forall>t<n. (wpcs s t = Processing \<longrightarrow> didWork s t) \<and> (wpcs s t = Calling \<longrightarrow> own s t = 0) \<and>
        (\<not> dirty a t \<and> \<not> didWork s t \<longrightarrow> own s t = 0) \<and>
        (wpcs s t = Calling \<and> \<not> didWork s t \<longrightarrow> t \<in> F))"

definition work_inv :: "nat \<Rightarrow> workers \<Rightarrow> wave \<Rightarrow> bool" where
  "work_inv n s a \<longleftrightarrow>
     (\<exists>F. local_ok n s a F \<and> settled n s a F) \<and> passing n s a \<and> (wterm a \<longrightarrow> quiet n s)"

lemma at_simps [simp]:
  "wpcs (at t p s) = (wpcs s)(t := p)" "didWork (at t p s) = didWork s"
  "shared (at t p s) = shared s" "own (at t p s) = own s"
  by (simp_all add: at_def)

lemma some_task_at [simp]: "some_task n (at t p s) = some_task n s"
  by (simp add: some_task_def)

lemma quietI_stores:
  assumes "shared s = 0" "\<And>u. u < n \<Longrightarrow> own s u = 0" "\<And>u. u < n \<Longrightarrow> \<not> didWork s u"
    "\<And>u. u < n \<Longrightarrow> wpcs s u \<noteq> Processing"
  shows "quiet n s"
  using assms by (simp add: quiet_def some_task_def)

lemma local_okD:
  assumes "local_ok n s a F" "t < n"
  shows "wpcs s t = Processing \<Longrightarrow> didWork s t" "wpcs s t = Calling \<Longrightarrow> own s t = 0"
    "\<not> dirty a t \<Longrightarrow> \<not> didWork s t \<Longrightarrow> own s t = 0"
    "wpcs s t = Calling \<Longrightarrow> \<not> didWork s t \<Longrightarrow> t \<in> F"
  using assms by (auto simp: local_ok_def)

text \<open>A step of a thread that works: it has something to report, so no condition gets stronger.\<close>

lemma work_inv_busy:
  assumes inv: "work_inv n s a" and t: "t < n"
    and busy: "didWork s t \<or> some_task n s" "\<not> quiet n s"
    and s': "didWork s' = (didWork s)(t := True)" "wpcs s' = (wpcs s)(t := p)" "p \<noteq> Calling"
      "\<And>u. u < n \<Longrightarrow> u \<noteq> t \<Longrightarrow> own s' u \<le> own s u"
  shows "work_inv n s' a"
proof -
  from inv obtain F where F: "local_ok n s a F" "settled n s a F" and pass: "passing n s a"
    and tm: "wterm a \<longrightarrow> quiet n s" by (auto simp: work_inv_def)
  have "local_ok n s' a F"
    unfolding local_ok_def
  proof (intro allI impI conjI)
    fix u
    assume u: "u < n"
    note L = local_okD [OF F(1) u]
    show "wpcs s' u = Processing \<Longrightarrow> didWork s' u" using L(1) s'(1,2) by (auto split: if_splits)
    show "own s' u = 0" if "wpcs s' u = Calling" using that L(2) s'(2,3) s'(4) [OF u] by (auto split: if_splits)
    show "own s' u = 0" if "\<not> dirty a u \<and> \<not> didWork s' u"
      using that L(3) s'(1) s'(4) [OF u] by (auto split: if_splits)
    show "u \<in> F" if "wpcs s' u = Calling \<and> \<not> didWork s' u"
      using that L(4) s'(1-3) by (auto split: if_splits)
  qed
  moreover have "settled n s' a F" using t s'(1) by (auto simp: settled_def)
  moreover have "passing n s' a"
  proof (cases "t \<in> visited a")
    case True
    have "\<not> (lwhite a \<and> \<not> wblack a \<and> (\<forall>u<n. u \<notin> visited a \<longrightarrow> \<not> dirty a u \<and> \<not> didWork s u))"
      using pass busy(2) by (simp add: passing_def)
    moreover have "u \<notin> visited a \<Longrightarrow> didWork s' u = didWork s u" for u using True s'(1) by auto
    ultimately show ?thesis by (auto simp: passing_def)
  next
    case False
    then show ?thesis using t s'(1) by (auto simp: passing_def)
  qed
  moreover have "\<not> wterm a" using tm busy(2) by blast
  ultimately show ?thesis by (auto simp: work_inv_def)
qed

lemma work_inv_pop_task:
  assumes "work_inv n s a" "t < n" "some_task n s" "\<And>u. u < n \<Longrightarrow> u \<noteq> t \<Longrightarrow> ow u \<le> own s u"
  shows "work_inv n (at t Processing (s\<lparr>didWork := (didWork s)(t := True), shared := sh, own := ow\<rparr>)) a"
  by (rule work_inv_busy [OF assms(1,2), where p = Processing]) (use assms(3,4) in \<open>auto simp: quiet_def\<close>)

lemma work_inv_process:
  assumes inv: "work_inv n s a" and t: "t < n" "wpcs s t = Processing" and ow: "\<And>u. u < n \<Longrightarrow> u \<noteq> t \<Longrightarrow> ow u \<le> own s u"
  shows "work_inv n (at t Popping (s\<lparr>shared := sh, own := ow\<rparr>)) a"
proof -
  obtain F where "local_ok n s a F" using inv by (auto simp: work_inv_def)
  from local_okD(1) [OF this t] have d: "didWork s t" .
  then have "didWork s = (didWork s)(t := True)" by (simp add: fun_upd_idem)
  with d t ow show ?thesis by (intro work_inv_busy [OF inv t(1), where p = Popping]) (auto simp: quiet_def)
qed

text \<open>Steps that change nothing but where a thread is.\<close>

lemma quiet_at: "p \<noteq> Processing \<Longrightarrow> quiet n s \<Longrightarrow> quiet n (at t p s)"
  by (simp add: quiet_def)

lemma passing_at: "p \<noteq> Processing \<Longrightarrow> passing n s a \<Longrightarrow> passing n (at t p s) a"
  using quiet_at by (auto simp: passing_def)

lemma work_inv_check:
  assumes "work_inv n s a" "t < n" "p = Popping \<or> p = Stopped"
  shows "work_inv n (at t p s) a"
proof -
  have p: "p \<noteq> Processing" "p \<noteq> Calling" using assms(3) by auto
  from assms(1) obtain F where F: "local_ok n s a F" "settled n s a F" by (auto simp: work_inv_def)
  have "local_ok n (at t p s) a F" using F(1) p by (auto simp: local_ok_def)
  moreover have "settled n (at t p s) a F" using F(2) quiet_at [OF p(1)] by (simp add: settled_def)
  ultimately show ?thesis using assms(1) passing_at [OF p(1)] quiet_at [OF p(1)] by (auto simp: work_inv_def)
qed

lemma work_inv_pop_fails:
  assumes inv: "work_inv n s a" and t: "t < n" "wpcs s t = Popping" "shared s = 0" "own s t = 0"
  shows "work_inv n (at t Calling s) a"
proof -
  from inv obtain F where F: "local_ok n s a F" "settled n s a F" by (auto simp: work_inv_def)
  note L = local_okD [OF F(1)]
  have "local_ok n (at t Calling s) a (insert t F)" using F(1) t by (auto simp: local_ok_def)
  moreover have "settled n (at t Calling s) a (insert t F)"
    unfolding settled_def
  proof (intro impI, elim conjE)
    assume q: "\<forall>u<n. \<not> dirty a u \<and> \<not> didWork (at t Calling s) u \<and> (u \<notin> visited a \<longrightarrow> u \<in> insert t F)"
    show "quiet n (at t Calling s)"
      by (rule quietI_stores) (use q t L in auto)
  qed
  ultimately show ?thesis
    using inv passing_at [of Calling] quiet_at [of Calling] by (auto simp: work_inv_def)
qed

text \<open>The call: what the worker did goes to the detector, which may visit it and end the wave.\<close>

lemma report_simps [simp]:
  "dirty (report t b a) = (dirty a)(t := dirty a t \<or> b)" "visited (report t b a) = visited a"
  "wblack (report t b a) = wblack a" "lwhite (report t b a) = lwhite a" "wterm (report t b a) = wterm a"
  by (simp_all add: report_def)

lemma visit_simps [simp]:
  "dirty (visit t a) = (dirty a)(t := False)" "visited (visit t a) = insert t (visited a)"
  "wblack (visit t a) \<longleftrightarrow> wblack a \<or> dirty a t" "lwhite (visit t a) = lwhite a"
  "wterm (visit t a) = wterm a"
  by (simp_all add: visit_def)

lemma finish_simps [simp]:
  "dirty (finish a) = dirty a" "visited (finish a) = {}" "\<not> wblack (finish a)"
  "lwhite (finish a) \<longleftrightarrow> \<not> wblack a" "wterm (finish a) \<longleftrightarrow> wterm a \<or> lwhite a \<and> \<not> wblack a"
  by (simp_all add: finish_def)

definition called :: "nat \<Rightarrow> workers \<Rightarrow> workers" where
  "called t s = at t Checking (s\<lparr>didWork := (didWork s)(t := False)\<rparr>)"

lemma called_simps [simp]:
  "wpcs (called t s) = (wpcs s)(t := Checking)" "didWork (called t s) = (didWork s)(t := False)"
  "shared (called t s) = shared s" "own (called t s) = own s"
  "some_task n (called t s) = some_task n s"
  by (simp_all add: called_def some_task_def)

lemma quiet_called: "quiet n s \<Longrightarrow> quiet n (called t s)"
  by (simp add: quiet_def)

lemma work_inv_report:
  assumes inv: "work_inv n s a" and t: "t < n" "wpcs s t = Calling"
  shows "work_inv n (called t s) (report t (didWork s t) a)"
proof -
  from inv obtain F where F: "local_ok n s a F" "settled n s a F" by (auto simp: work_inv_def)
  have "local_ok n (called t s) (report t (didWork s t) a) F"
    using F(1) by (auto simp: local_ok_def)
  moreover have "settled n (called t s) (report t (didWork s t) a) F"
    unfolding settled_def
  proof (intro impI, elim conjE)
    assume w: "\<not> wblack (report t (didWork s t) a)"
      and all: "\<forall>u<n. \<not> dirty (report t (didWork s t) a) u \<and> \<not> didWork (called t s) u \<and>
        (u \<notin> visited (report t (didWork s t) a) \<longrightarrow> u \<in> F)"
    have "\<not> dirty a u \<and> \<not> didWork s u \<and> (u \<notin> visited a \<longrightarrow> u \<in> F)" if "u < n" for u
      using spec [OF all, of u] that by (cases "u = t") auto
    then have "quiet n s" using F(2) w by (simp add: settled_def)
    then show "quiet n (called t s)" by (rule quiet_called)
  qed
  moreover have "passing n (called t s) (report t (didWork s t) a)"
    unfolding passing_def
  proof (intro impI, elim conjE)
    assume w: "lwhite (report t (didWork s t) a)" "\<not> wblack (report t (didWork s t) a)"
      and all: "\<forall>u<n. u \<notin> visited (report t (didWork s t) a) \<longrightarrow>
        \<not> dirty (report t (didWork s t) a) u \<and> \<not> didWork (called t s) u"
    have "\<not> dirty a u \<and> \<not> didWork s u" if "u < n" "u \<notin> visited a" for u
      using all that by (cases "u = t") auto
    then have "quiet n s" using inv w by (simp add: work_inv_def passing_def)
    then show "quiet n (called t s)" by (rule quiet_called)
  qed
  ultimately show ?thesis using inv quiet_called by (auto simp: work_inv_def)
qed

lemma work_inv_visit:
  assumes inv: "work_inv n s a" and t: "t < n" "wpcs s t = Calling" "t \<notin> visited a"
  defines "a1 \<equiv> visit t (report t (didWork s t) a)"
  shows "work_inv n (called t s) a1"
    "insert t (visited a) = {..<n} \<Longrightarrow> work_inv n (called t s) (finish a1)"
proof -
  from inv obtain F where F: "local_ok n s a F" "settled n s a F" and pass: "passing n s a"
    and tm: "wterm a \<longrightarrow> quiet n s" by (auto simp: work_inv_def)
  note L = local_okD [OF F(1)]
  have white: "\<not> wblack a \<and> \<not> dirty a t \<and> \<not> didWork s t \<and> t \<in> F" if "\<not> wblack a1"
    using that L(4) [OF t(1,2)] by (auto simp: a1_def)
  have ok: "local_ok n (called t s) a2 (F - {t})" if "dirty a2 = dirty a1" for a2
    unfolding local_ok_def using F(1) t(2) that by (auto simp: local_ok_def a1_def)
  have settled: "settled n (called t s) a1 (F - {t})"
    unfolding settled_def
  proof (intro impI, elim conjE)
    assume b: "\<not> wblack a1"
      and all: "\<forall>u<n. \<not> dirty a1 u \<and> \<not> didWork (called t s) u \<and> (u \<notin> visited a1 \<longrightarrow> u \<in> F - {t})"
    have "\<not> dirty a u \<and> \<not> didWork s u \<and> (u \<notin> visited a \<longrightarrow> u \<in> F)" if "u < n" for u
      using white [OF b] all that by (cases "u = t") (auto simp: a1_def)
    then have "quiet n s" using F(2) white [OF b] by (auto simp: settled_def)
    then show "quiet n (called t s)" by (rule quiet_called)
  qed
  have "passing n (called t s) a1"
    unfolding passing_def
  proof (intro impI, elim conjE)
    assume b: "\<not> wblack a1" and lw: "lwhite a1"
      and all: "\<forall>u<n. u \<notin> visited a1 \<longrightarrow> \<not> dirty a1 u \<and> \<not> didWork (called t s) u"
    have "\<not> dirty a u \<and> \<not> didWork s u" if "u < n" "u \<notin> visited a" for u
      using white [OF b] all that by (cases "u = t") (auto simp: a1_def)
    then have "quiet n s" using pass white [OF b] lw by (auto simp: passing_def a1_def)
    then show "quiet n (called t s)" by (rule quiet_called)
  qed
  then show "work_inv n (called t s) a1"
    using ok [of a1] settled tm quiet_called [of n s t] by (auto simp: work_inv_def a1_def)
  assume full: "insert t (visited a) = {..<n}"
  have quiet1: "quiet n (called t s)" if b: "\<not> wblack a1" and lw: "lwhite a"
  proof -
    have "\<not> dirty a u \<and> \<not> didWork s u" if "u < n" "u \<notin> visited a" for u
    proof -
      have "u = t" using that full by auto
      then show ?thesis using white [OF b] by simp
    qed
    then have "quiet n s" using pass white [OF b] lw by (simp add: passing_def)
    then show ?thesis by (rule quiet_called)
  qed
  have quiet2: "quiet n (called t s)"
    if b: "\<not> wblack a1" and all: "\<forall>u<n. \<not> dirty a1 u \<and> \<not> didWork (called t s) u"
  proof -
    have "\<not> dirty a u \<and> \<not> didWork s u \<and> (u \<notin> visited a \<longrightarrow> u \<in> F)" if u: "u < n" for u
    proof (cases "u = t")
      case False
      then have "u \<in> visited a" using full u by auto
      then show ?thesis using spec [OF all, of u] u False by (simp add: a1_def)
    qed (use white [OF b] in simp)
    then have "quiet n s" using F(2) white [OF b] by (auto simp: settled_def)
    then show ?thesis by (rule quiet_called)
  qed
  have "settled n (called t s) (finish a1) (F - {t})" using t(1) by (auto simp: settled_def)
  moreover have "passing n (called t s) (finish a1)"
    using quiet2 by (simp add: passing_def)
  moreover have "wterm (finish a1) \<longrightarrow> quiet n (called t s)"
    using quiet1 tm quiet_called [of n s t] by (auto simp: a1_def)
  ultimately show "work_inv n (called t s) (finish a1)"
    using ok [of "finish a1"] by (auto simp: work_inv_def)
qed

lemma work_inv_quiet:
  assumes "quiet n s"
  shows "work_inv n s a"
proof -
  have "local_ok n s a UNIV" using assms by (simp add: local_ok_def quiet_def some_task_def)
  moreover have "settled n s a UNIV" using assms by (simp add: settled_def)
  ultimately show ?thesis using assms by (auto simp: work_inv_def passing_def)
qed

lemma work_inv_call:
  assumes "work_inv n s a" "t < n" "wpcs s t = Calling" "wave_call n t (didWork s t) a a'"
  shows "work_inv n (called t s) a'"
proof (cases "wterm a")
  case True
  then have "quiet n (called t s)" using assms(1) quiet_called by (simp add: work_inv_def)
  then show ?thesis by (rule work_inv_quiet)
next
  case False
  then show ?thesis using assms work_inv_report work_inv_visit by (auto simp: wave_call_def)
qed

lemma work_inv_start:
  assumes "work_start n s" "wave_start n a" "0 < n"
  shows "work_inv n s a"
proof -
  have "local_ok n s a {}" "settled n s a {}"
    using assms by (auto simp: work_start_def wave_start_def local_ok_def settled_def)
  moreover have "passing n s a" using assms by (auto simp: wave_start_def passing_def)
  ultimately show ?thesis using assms(2) by (auto simp: work_inv_def wave_start_def)
qed

section \<open>Two white waves and any scheduler\<close>

definition resting :: "nat \<Rightarrow> workers \<Rightarrow> bool" where
  "resting n s \<longleftrightarrow> (\<forall>t<n. wpcs s t \<noteq> Processing \<and> \<not> didWork s t)"

text \<open>A moment of the run before the end, when every thread was at rest.\<close>

definition rested ::
    "nat \<Rightarrow> scheduler \<Rightarrow> (nat \<Rightarrow> bool \<Rightarrow> 'd \<Rightarrow> 'd) \<Rightarrow> ('d \<Rightarrow> bool) \<Rightarrow> 'd \<Rightarrow> workers \<times> 'd \<Rightarrow> bool" where
  "rested n W call stop d0 sd \<longleftrightarrow>
     (\<exists>s e. work_reach n W call stop d0 (s, e) \<and> \<not> stop e \<and> resting n s \<and> (work_step n W call stop)\<^sup>*\<^sup>* (s, e) sd)"

definition rest_inv ::
    "nat \<Rightarrow> scheduler \<Rightarrow> (nat \<Rightarrow> bool \<Rightarrow> 'd \<Rightarrow> 'd) \<Rightarrow> ('d \<Rightarrow> bool) \<Rightarrow> 'd \<Rightarrow> workers \<times> 'd \<Rightarrow> wave \<Rightarrow> bool" where
  "rest_inv n W call stop d0 sd a \<longleftrightarrow>
     (\<forall>t<n. wpcs (fst sd) t = Processing \<longrightarrow> didWork (fst sd) t) \<and>
     (wterm a \<longrightarrow> rested n W call stop d0 sd) \<and>
     (lwhite a \<and> \<not> wblack a \<and> (\<forall>u<n. u \<notin> visited a \<longrightarrow> \<not> dirty a u \<and> \<not> didWork (fst sd) u) \<longrightarrow>
        rested n W call stop d0 sd)"

lemma rested_step:
  "rested n W call stop d0 sd \<Longrightarrow> work_step n W call stop sd sd' \<Longrightarrow> rested n W call stop d0 sd'"
  unfolding rested_def by (meson rtranclp.rtrancl_into_rtrancl)

lemma rested_now:
  "work_reach n W call stop d0 (s, e) \<Longrightarrow> \<not> stop e \<Longrightarrow> resting n s \<Longrightarrow> rested n W call stop d0 (s, e)"
  unfolding rested_def by blast

lemma rest_call:
  assumes inv: "rest_inv n W call stop d0 (s, d) a" and t: "t < n" "wpcs s t = Calling"
    and call: "wave_call n t (didWork s t) a a'" and s': "s' = called t s"
    and kept: "rested n W call stop d0 (s, d) \<Longrightarrow> rested n W call stop d0 (s', d')"
    and reach: "work_reach n W call stop d0 (s', d')" and stop: "stop d' \<longleftrightarrow> wterm a'"
  shows "rest_inv n W call stop d0 (s', d') a'"
proof -
  have busy: "\<forall>u<n. wpcs s' u = Processing \<longrightarrow> didWork s' u" using inv by (auto simp: rest_inv_def s')
  note past = inv [unfolded rest_inv_def, THEN conjunct2, simplified]
  let ?v = "visit t (report t (didWork s t) a)"
  consider "wterm a" | "\<not> wterm a" "a' = report t (didWork s t) a" | "\<not> wterm a" "t \<notin> visited a" "a' = ?v"
    | "\<not> wterm a" "t \<notin> visited a" "insert t (visited a) = {..<n}" "a' = finish ?v"
    using call by (auto simp: wave_call_def)
  then show ?thesis
  proof cases
    case 1
    with past kept have "rested n W call stop d0 (s', d')" by blast
    with busy show ?thesis by (simp add: rest_inv_def)
  next
    case 2
    have "rested n W call stop d0 (s, d)"
      if "lwhite a'" "\<not> wblack a'" "\<forall>u<n. u \<notin> visited a' \<longrightarrow> \<not> dirty a' u \<and> \<not> didWork s' u"
    proof -
      have "\<not> dirty a u \<and> \<not> didWork s u" if "u < n" "u \<notin> visited a" for u
        using that \<open>\<forall>u<n. u \<notin> visited a' \<longrightarrow> \<not> dirty a' u \<and> \<not> didWork s' u\<close> by (cases "u = t") (auto simp: 2 s')
      with past that(1,2) show ?thesis by (simp add: 2)
    qed
    with busy 2 kept show ?thesis by (simp add: rest_inv_def)
  next
    case 3
    have "rested n W call stop d0 (s, d)"
      if "lwhite a'" "\<not> wblack a'" "\<forall>u<n. u \<notin> visited a' \<longrightarrow> \<not> dirty a' u \<and> \<not> didWork s' u"
    proof -
      have "\<not> dirty a u \<and> \<not> didWork s u" if "u < n" "u \<notin> visited a" "u \<noteq> t" for u
        using that \<open>\<forall>u<n. u \<notin> visited a' \<longrightarrow> \<not> dirty a' u \<and> \<not> didWork s' u\<close> by (simp add: 3 s')
      moreover have "\<not> dirty a t \<and> \<not> didWork s t" "\<not> wblack a" "lwhite a" using that(1,2) by (simp_all add: 3)
      ultimately show ?thesis using past by blast
    qed
    with busy 3 kept show ?thesis by (simp add: rest_inv_def)
  next
    case 4
    have old: "rested n W call stop d0 (s', d')" if "lwhite a" "\<not> wblack ?v"
    proof -
      have "u = t" if "u < n" "u \<notin> visited a" for u using that 4(3) by auto
      moreover have "\<not> dirty a t \<and> \<not> didWork s t" "\<not> wblack a" using that(2) by simp_all
      ultimately have "rested n W call stop d0 (s, d)" using past that(1) by blast
      then show ?thesis by (rule kept)
    qed
    have now: "rested n W call stop d0 (s', d')" if "\<not> wterm a'" "\<forall>u<n. \<not> didWork s' u"
      using that busy stop by (intro rested_now [OF reach]) (auto simp: resting_def)
    have "rested n W call stop d0 (s', d')" if "wterm a'"
      using that old 4 by simp
    moreover have "rested n W call stop d0 (s', d')" if "\<forall>u<n. u \<notin> visited a' \<longrightarrow> \<not> didWork s' u"
      using that now calculation 4(4) by (cases "wterm a'") auto
    ultimately show ?thesis using busy by (auto simp: rest_inv_def)
  qed
qed

section \<open>The interface of a detector\<close>

text \<open>
  What the loop relies on: the states of the detector are related to those of the abstract one, its
  calls to abstract calls. Then it may say stop only when nothing is left.
\<close>

locale two_pass_detector =
  fixes n :: nat and call :: "nat \<Rightarrow> bool \<Rightarrow> 'd \<Rightarrow> 'd" and stop :: "'d \<Rightarrow> bool" and d0 :: 'd
    and R :: "'d \<Rightarrow> wave \<Rightarrow> bool"
  assumes some_thread: "0 < n"
    and starts: "\<exists>a. R d0 a \<and> wave_start n a"
    and calls: "R d a \<Longrightarrow> t < n \<Longrightarrow> \<exists>a'. R (call t b d) a' \<and> wave_call n t b a a'"
    and stops: "R d a \<Longrightarrow> stop d \<longleftrightarrow> wterm a"
begin

lemma work_step_inv:
  assumes W: "thorough n W" and "work_step n W call stop (s, d) (s', d')" "work_inv n s a" "R d a"
  shows "\<exists>a'. work_inv n s' a' \<and> R d' a'"
  using assms(2)
proof cases
  case (pop_task t sh ow)
  then show ?thesis using work_inv_pop_task [OF assms(3), of t ow sh] assms(4) W by (auto simp: thorough_def)
next
  case (process t sh ow)
  then show ?thesis using work_inv_process [OF assms(3), of t ow sh] assms(4) W by (auto simp: thorough_def)
next
  case (pop_fails t)
  then have "shared s = 0" "own s t = 0" using W by (auto simp: thorough_def)
  with pop_fails work_inv_pop_fails [OF assms(3)] assms(4) show ?thesis by auto
next
  case (call t)
  then show ?thesis using calls [OF assms(4), of t "didWork s t"] work_inv_call [OF assms(3)]
    by (auto simp: called_def)
next
  case (check t)
  then show ?thesis using work_inv_check [OF assms(3)] assms(4) by auto
qed

lemma work_reach_inv:
  "work_reach n W call stop d0 sd \<Longrightarrow> thorough n W \<Longrightarrow> \<exists>a. work_inv n (fst sd) a \<and> R (snd sd) a"
proof (induction rule: work_reach.induct)
  case (start s)
  then show ?case using starts work_inv_start [OF _ _ some_thread] by auto
next
  case (step sd sd')
  then show ?case by (cases sd; cases sd') (auto dest: work_step_inv)
qed

lemma stop_means_quiet: "work_reach n W call stop d0 (s, d) \<Longrightarrow> stop d \<Longrightarrow> thorough n W \<Longrightarrow> quiet n s"
  using work_reach_inv [of W "(s, d)"] stops by (auto simp: work_inv_def)

text \<open>Any scheduler: between the two white waves there was a moment when nobody worked.\<close>

lemma rest_step:
  assumes "work_step n W call stop (s, d) (s', d')" "rest_inv n W call stop d0 (s, d) a" "R d a"
    "work_reach n W call stop d0 (s, d)"
  shows "\<exists>a'. rest_inv n W call stop d0 (s', d') a' \<and> R d' a'"
proof -
  have kept: "rested n W call stop d0 (s', d')" if "rested n W call stop d0 (s, d)"
    by (rule rested_step [OF that assms(1)])
  have reach: "work_reach n W call stop d0 (s', d')" by (rule work_reach.step [OF assms(4,1)])
  from assms(1) show ?thesis
  proof cases
    case (pop_task t sh ow)
    with assms(2,3) kept show ?thesis by (intro exI [of _ a]) (auto simp: rest_inv_def)
  next
    case (process t sh ow)
    with assms(2,3) kept show ?thesis by (intro exI [of _ a]) (auto simp: rest_inv_def)
  next
    case (pop_fails t)
    with assms(2,3) kept show ?thesis by (intro exI [of _ a]) (auto simp: rest_inv_def)
  next
    case (check t)
    with assms(2,3) kept show ?thesis by (intro exI [of _ a]) (auto simp: rest_inv_def)
  next
    case (call t)
    obtain a' where a': "R d' a'" "wave_call n t (didWork s t) a a'"
      using calls [OF assms(3) call(3), of "didWork s t"] call(2) by auto
    have s': "s' = called t s" using call(1) by (simp add: called_def)
    have "rest_inv n W call stop d0 (s', d') a'"
      by (rule rest_call [OF assms(2) call(3,4) a'(2) s' kept reach stops [OF a'(1)]])
    with a' show ?thesis by blast
  qed
qed

lemma rest_reach:
  "work_reach n W call stop d0 sd \<Longrightarrow> \<exists>a. rest_inv n W call stop d0 sd a \<and> R (snd sd) a"
proof (induction rule: work_reach.induct)
  case (start s)
  obtain a where "R d0 a" "wave_start n a" using starts by blast
  moreover from this have "rest_inv n W call stop d0 (s, d0) a"
    using start some_thread by (auto simp: rest_inv_def wave_start_def work_start_def)
  ultimately show ?case by auto
next
  case (step sd sd')
  then show ?case by (cases sd; cases sd') (auto dest: rest_step)
qed

lemma stop_means_rested: "work_reach n W call stop d0 (s, d) \<Longrightarrow> stop d \<Longrightarrow> rested n W call stop d0 (s, d)"
  using rest_reach [of W "(s, d)"] stops by (auto simp: rest_inv_def)

end

end
