(* ===== verification/RingTermination.thy ===== *)
theory RingTermination
  imports TermDetect
begin

text \<open>
  \<open>LocalTerminationDetection\<close> of \<open>src/Termination.cpp\<close>, the detector the runtime uses: a token
  goes round the threads. The flags of each thread are a record; \<open>n\<close> is \<open>activeThreads\<close>, the
  thread id an argument. A call is one step: of the fields of another thread it writes only those of
  the next thread while that has no token, and publishes them last by setting \<open>hasToken\<close>.
\<close>

section \<open>The detector\<close>

record TokenHolder =
  tokenIsBlack :: bool
  hasToken :: bool
  processIsBlack :: bool
  epoch :: "64 word"
  first :: bool
  lastWasWhite :: bool

record ring =
  holders :: "TokenHolder list"
  globalTerm :: bool

text \<open>\<open>initializeThread\<close> of thread \<open>id\<close>, and all threads in turn.\<close>

definition fresh_holder :: "nat \<Rightarrow> TokenHolder" where
  "fresh_holder i =
     \<lparr>tokenIsBlack = False, hasToken = (i = 0), processIsBlack = True, epoch = 0, first = True,
      lastWasWhite = True\<rparr>"

definition ring_initializeThread :: "nat \<Rightarrow> ring \<Rightarrow> ring" where
  "ring_initializeThread i d = \<lparr>holders = (holders d)[i := fresh_holder i], globalTerm = False\<rparr>"

definition ring_init :: "ring \<Rightarrow> ring" where
  "ring_init d = fold ring_initializeThread [0..<length (holders d)] d"

text \<open>The epoch passes through an argument of type \<open>int\<close>.\<close>

definition propToken :: "nat \<Rightarrow> nat \<Rightarrow> bool \<Rightarrow> 64 word \<Rightarrow> ring \<Rightarrow> ring" where
  "propToken n i isBlack ep d =
     (let j = (i + 1) mod n; th = holders d ! j
      in d\<lparr>holders := (holders d)[j := th\<lparr>tokenIsBlack := isBlack, epoch := signed_take_bit 31 ep, hasToken := True\<rparr>]\<rparr>)"

definition propGlobalTerm :: "ring \<Rightarrow> ring" where
  "propGlobalTerm d = d\<lparr>globalTerm := True\<rparr>"

definition set_holder :: "nat \<Rightarrow> TokenHolder \<Rightarrow> ring \<Rightarrow> ring" where
  "set_holder i th d = d\<lparr>holders := (holders d)[i := th]\<rparr>"

definition pass_on :: "nat \<Rightarrow> nat \<Rightarrow> TokenHolder \<Rightarrow> ring \<Rightarrow> ring" where
  "pass_on n i th d =
     (let taint = processIsBlack th \<or> tokenIsBlack th
      in propToken n i taint (epoch th)
           (set_holder i (th\<lparr>processIsBlack := False, tokenIsBlack := False, hasToken := False\<rparr>) d))"

definition ring_localTermination :: "nat \<Rightarrow> nat \<Rightarrow> bool \<Rightarrow> ring \<Rightarrow> ring" where
  "ring_localTermination n i workHappened d =
     (let th = holders d ! i;
          th1 = th\<lparr>processIsBlack := processIsBlack th \<or> workHappened\<rparr>
      in if hasToken th1 then
           if i = 0 then
             let failed = tokenIsBlack th1 \<or> processIsBlack th1;
                 th2 = th1\<lparr>tokenIsBlack := False, processIsBlack := False,
                            epoch := (if first th1 then epoch th1 else epoch th1 + 1), first := False\<rparr>
             in if lastWasWhite th2 \<and> \<not> failed then propGlobalTerm (set_holder i th2 d)
                else pass_on n i (th2\<lparr>lastWasWhite := \<not> failed\<rparr>) d
           else pass_on n i th1 d
         else set_holder i th1 d)"

definition ring_getEpoch :: "nat \<Rightarrow> ring \<Rightarrow> 64 word" where
  "ring_getEpoch i d = epoch (holders d ! i)"

section \<open>Relation to the two-pass scheme\<close>

text \<open>Before the end one thread has the token, and the threads between the master and it have been visited.\<close>

definition token_at :: "nat \<Rightarrow> ring \<Rightarrow> nat \<Rightarrow> bool" where
  "token_at n d k \<longleftrightarrow> k < n \<and> (\<forall>t<n. hasToken (holders d ! t) \<longleftrightarrow> t = k)"

definition passed :: "nat \<Rightarrow> nat \<Rightarrow> nat set" where
  "passed n k = {1..<(if k = 0 then n else k)}"

definition ring_rel :: "nat \<Rightarrow> ring \<Rightarrow> wave \<Rightarrow> bool" where
  "ring_rel n d a \<longleftrightarrow> length (holders d) = n \<and> (wterm a \<longleftrightarrow> globalTerm d) \<and>
     (globalTerm d \<or>
        (\<forall>t<n. dirty a t \<longleftrightarrow> processIsBlack (holders d ! t)) \<and> lwhite a = lastWasWhite (holders d ! 0) \<and>
        (\<exists>k. token_at n d k \<and> visited a = passed n k \<and> wblack a = tokenIsBlack (holders d ! k)))"

lemma set_holder_simps [simp]:
  "holders (set_holder i th d) = (holders d)[i := th]" "globalTerm (set_holder i th d) = globalTerm d"
  by (simp_all add: set_holder_def)

lemma propToken_simps [simp]:
  "length (holders (propToken n i b e d)) = length (holders d)"
  "globalTerm (propToken n i b e d) = globalTerm d"
  by (simp_all add: propToken_def Let_def)

lemma pass_on_simps [simp]:
  "length (holders (pass_on n i th d)) = length (holders d)"
  "globalTerm (pass_on n i th d) = globalTerm d"
  by (simp_all add: pass_on_def Let_def)

text \<open>The token moves on by one thread and takes the colour along.\<close>

lemma pass_on_holders:
  assumes "i < n" "length (holders d) = n" "hasToken th"
    and others: "\<forall>t<n. t \<noteq> i \<longrightarrow> \<not> hasToken (holders d ! t)"
  shows "token_at n (pass_on n i th d) (Suc i mod n)"
    "tokenIsBlack (holders (pass_on n i th d) ! (Suc i mod n)) \<longleftrightarrow> processIsBlack th \<or> tokenIsBlack th"
    "\<And>t. t < n \<Longrightarrow> processIsBlack (holders (pass_on n i th d) ! t) \<longleftrightarrow>
       t \<noteq> i \<and> processIsBlack (holders d ! t)"
    "lastWasWhite (holders (pass_on n i th d) ! 0) =
       (if i = 0 then lastWasWhite th else lastWasWhite (holders d ! 0))"
proof -
  have j: "Suc i mod n < n" using assms(1) by simp
  show "token_at n (pass_on n i th d) (Suc i mod n)"
    using assms j by (auto simp: token_at_def pass_on_def propToken_def Let_def nth_list_update)
  show "tokenIsBlack (holders (pass_on n i th d) ! (Suc i mod n)) \<longleftrightarrow> processIsBlack th \<or> tokenIsBlack th"
    using assms j by (simp add: pass_on_def propToken_def Let_def)
  show "processIsBlack (holders (pass_on n i th d) ! t) \<longleftrightarrow> t \<noteq> i \<and> processIsBlack (holders d ! t)"
    if "t < n" for t
    using assms j that by (simp add: pass_on_def propToken_def Let_def nth_list_update)
  show "lastWasWhite (holders (pass_on n i th d) ! 0) =
      (if i = 0 then lastWasWhite th else lastWasWhite (holders d ! 0))"
    using assms j by (simp add: pass_on_def propToken_def Let_def nth_list_update)
qed

lemma passed_next:
  assumes "k < n"
  shows "k \<noteq> 0 \<Longrightarrow> passed n (Suc k mod n) = insert k (passed n k)" "passed n (Suc 0 mod n) = {}"
    "k \<notin> passed n k" "insert 0 (passed n 0) = {..<n}"
proof -
  show "passed n (Suc k mod n) = insert k (passed n k)" if "k \<noteq> 0"
    using assms that by (cases "Suc k = n") (auto simp: passed_def)
  show "passed n (Suc 0 mod n) = {}" by (cases "n = 1") (auto simp: passed_def mod_Suc)
qed (use assms in \<open>auto simp: passed_def\<close>)

text \<open>The two handlings of the token, and the call of a thread without it.\<close>

lemma localTermination_no_token:
  assumes "\<not> hasToken (holders d ! t)"
  shows "ring_localTermination n t b d =
    set_holder t ((holders d ! t)\<lparr>processIsBlack := processIsBlack (holders d ! t) \<or> b\<rparr>) d"
  using assms by (simp add: ring_localTermination_def Let_def)

lemma localTermination_token:
  assumes "hasToken (holders d ! t)" "t \<noteq> 0"
  shows "ring_localTermination n t b d =
    pass_on n t ((holders d ! t)\<lparr>processIsBlack := processIsBlack (holders d ! t) \<or> b\<rparr>) d"
  using assms by (simp add: ring_localTermination_def Let_def)

definition failed_wave :: "bool \<Rightarrow> ring \<Rightarrow> bool" where
  "failed_wave b d \<longleftrightarrow> tokenIsBlack (holders d ! 0) \<or> processIsBlack (holders d ! 0) \<or> b"

lemma localTermination_master:
  assumes "hasToken (holders d ! 0)"
  obtains th where "hasToken th" "\<not> tokenIsBlack th" "\<not> processIsBlack th"
    "lastWasWhite th \<longleftrightarrow> \<not> failed_wave b d"
    "ring_localTermination n 0 b d =
       (if lastWasWhite (holders d ! 0) \<and> \<not> failed_wave b d
        then propGlobalTerm (set_holder 0 th d) else pass_on n 0 th d)"
proof -
  let ?th = "holders d ! 0"
  let ?th2 = "?th\<lparr>tokenIsBlack := False, processIsBlack := False,
      epoch := (if first ?th then epoch ?th else epoch ?th + 1), first := False\<rparr>"
  show ?thesis
  proof (cases "lastWasWhite ?th \<and> \<not> failed_wave b d")
    case True
    then show ?thesis using assms
      by (intro that [of ?th2]) (auto simp: ring_localTermination_def Let_def failed_wave_def)
  next
    case False
    then have "ring_localTermination n 0 b d = pass_on n 0 (?th2\<lparr>lastWasWhite := \<not> failed_wave b d\<rparr>) d"
      using assms by (auto simp: ring_localTermination_def Let_def failed_wave_def)
    with False assms show ?thesis by (intro that [of "?th2\<lparr>lastWasWhite := \<not> failed_wave b d\<rparr>"]) auto
  qed
qed

lemma ring_rel_call:
  assumes rel: "ring_rel n d a" and t: "t < n"
  shows "\<exists>a'. ring_rel n (ring_localTermination n t b d) a' \<and> wave_call n t b a a'"
proof (cases "globalTerm d")
  case True
  have "globalTerm (ring_localTermination n t b d)" "length (holders (ring_localTermination n t b d)) = n"
    using True rel by (auto simp: ring_localTermination_def Let_def propGlobalTerm_def ring_rel_def)
  then have "ring_rel n (ring_localTermination n t b d) (a\<lparr>wterm := True\<rparr>)" by (simp add: ring_rel_def)
  moreover have "wave_call n t b a (a\<lparr>wterm := True\<rparr>)" using True rel by (simp add: wave_call_def ring_rel_def)
  ultimately show ?thesis by blast
next
  case False
  from rel False obtain k where len: "length (holders d) = n" and k: "token_at n d k"
    and v: "visited a = passed n k" "wblack a = tokenIsBlack (holders d ! k)"
    and dirty: "\<And>u. u < n \<Longrightarrow> dirty a u = processIsBlack (holders d ! u)"
    and lw: "lwhite a = lastWasWhite (holders d ! 0)" and tm: "\<not> wterm a" by (auto simp: ring_rel_def)
  from k have kn: "k < n" and tok: "hasToken (holders d ! k)"
    and others: "\<forall>u<n. u \<noteq> k \<longrightarrow> \<not> hasToken (holders d ! u)" by (auto simp: token_at_def)
  consider "t \<noteq> k" | "t = k" "k \<noteq> 0" | "t = k" "k = 0" by blast
  then show ?thesis
  proof cases
    case 1
    with others t have nt: "\<not> hasToken (holders d ! t)" by blast
    have "ring_rel n (ring_localTermination n t b d) (report t b a)"
      unfolding localTermination_no_token [OF nt]
      using False len k v dirty lw tm t 1
      by (auto simp: ring_rel_def token_at_def nth_list_update intro!: exI [of _ k])
    then show ?thesis by (auto simp: wave_call_def)
  next
    case 2
    note P = pass_on_holders [OF kn len _ others]
    have "ring_rel n (ring_localTermination n t b d) (visit t (report t b a))"
      unfolding ring_rel_def localTermination_token [OF tok [folded 2(1)] 2(2) [folded 2(1)]]
      using False len v dirty lw tm t 2 tok P passed_next(1) [OF kn]
      by (auto intro!: exI [of _ "Suc k mod n"])
    then show ?thesis using v 2 passed_next(3) [OF kn] by (auto simp: wave_call_def)
  next
    case 3
    have t0: "hasToken (holders d ! 0)" using tok 3 by simp
    obtain th where th: "hasToken th" "\<not> tokenIsBlack th" "\<not> processIsBlack th"
      "lastWasWhite th \<longleftrightarrow> \<not> failed_wave b d"
      "ring_localTermination n 0 b d = (if lastWasWhite (holders d ! 0) \<and> \<not> failed_wave b d
        then propGlobalTerm (set_holder 0 th d) else pass_on n 0 th d)"
      using localTermination_master [OF t0] by blast
    let ?a = "finish (visit 0 (report 0 b a))"
    have n: "0 < n" using t by simp
    have w: "wblack a \<or> dirty a 0 \<or> b \<longleftrightarrow> failed_wave b d"
      using v dirty [OF n] 3 by (auto simp: failed_wave_def)
    have "ring_rel n (ring_localTermination n 0 b d) ?a"
    proof (cases "lastWasWhite (holders d ! 0) \<and> \<not> failed_wave b d")
      case True
      then show ?thesis using th(5) w lw len by (simp add: ring_rel_def propGlobalTerm_def)
    next
      case fin: False
      note P = pass_on_holders [OF n len th(1)]
      have "\<forall>t<n. t \<noteq> 0 \<longrightarrow> \<not> hasToken (holders d ! t)" using others 3 by simp
      note P = P [OF this]
      show ?thesis
        unfolding ring_rel_def th(5)
        using fin False len dirty lw tm th w P passed_next(2) [OF n]
        by (auto intro!: exI [of _ "Suc 0 mod n"])
    qed
    moreover have "wave_call n 0 b a ?a"
      using v 3 passed_next(3,4) [OF kn] by (auto simp: wave_call_def)
    ultimately show ?thesis using 3 by auto
  qed
qed

section \<open>Initialisation and the interface\<close>

lemma fold_initializeThread:
  "k \<le> length hs \<Longrightarrow> fold ring_initializeThread [0..<k] \<lparr>holders = hs, globalTerm = g\<rparr> =
     \<lparr>holders = map fresh_holder [0..<k] @ drop k hs, globalTerm = g \<and> k = 0\<rparr>"
proof (induction k)
  case (Suc k)
  then show ?case
    by (auto simp: ring_initializeThread_def list_update_append Cons_nth_drop_Suc [symmetric])
qed simp

lemma ring_init_eq:
  "ring_init d = \<lparr>holders = map fresh_holder [0..<length (holders d)], globalTerm = globalTerm d \<and> holders d = []\<rparr>"
  using fold_initializeThread [of "length (holders d)" "holders d" "globalTerm d"]
  by (cases d) (simp add: ring_init_def)

lemma ring_rel_start:
  assumes "0 < length (holders d)"
  shows "\<exists>a. ring_rel (length (holders d)) (ring_init d) a \<and> wave_start (length (holders d)) a"
proof -
  let ?n = "length (holders d)"
  let ?a = "\<lparr>dirty = \<lambda>_. True, visited = passed ?n 0, wblack = False, lwhite = True, wterm = False\<rparr>"
  have "token_at ?n (ring_init d) 0" using assms by (simp add: token_at_def ring_init_eq fresh_holder_def)
  then have "ring_rel ?n (ring_init d) ?a"
    using assms by (auto simp: ring_rel_def ring_init_eq fresh_holder_def intro!: exI [of _ 0])
  moreover have "wave_start ?n ?a" by (simp add: wave_start_def passed_def)
  ultimately show ?thesis by blast
qed

interpretation ring: two_pass_detector "Suc (length hs)" "ring_localTermination (Suc (length hs))" globalTerm
    "ring_init \<lparr>holders = h # hs, globalTerm = g\<rparr>" "ring_rel (Suc (length hs))" for h hs g
proof unfold_locales
  show "\<exists>a. ring_rel (Suc (length hs)) (ring_init \<lparr>holders = h # hs, globalTerm = g\<rparr>) a \<and>
      wave_start (Suc (length hs)) a"
    using ring_rel_start [of "\<lparr>holders = h # hs, globalTerm = g\<rparr>"] by simp
  show "\<exists>a'. ring_rel (Suc (length hs)) (ring_localTermination (Suc (length hs)) t b d) a' \<and>
      wave_call (Suc (length hs)) t b a a'"
    if "ring_rel (Suc (length hs)) d a" "t < Suc (length hs)" for d a t b
    using that by (rule ring_rel_call)
  show "globalTerm d \<longleftrightarrow> wterm a" if "ring_rel (Suc (length hs)) d a" for d a
    using that by (simp add: ring_rel_def)
qed simp

section \<open>Properties\<close>


text \<open>Two threads, one task: thread 0 processes it, then both idle until the token has gone round.\<close>

definition ring2 :: ring where
  "ring2 = ring_init \<lparr>holders = [fresh_holder 1, fresh_holder 1], globalTerm = True\<rparr>"

definition ring2_work :: workers where
  "ring2_work = \<lparr>wpcs = \<lambda>_. Popping, didWork = \<lambda>_. False, shared = 1, own = \<lambda>_. 0\<rparr>"

definition ring_calls :: "nat \<Rightarrow> (nat \<times> bool) list \<Rightarrow> ring \<Rightarrow> ring" where
  "ring_calls n cs d = fold (\<lambda>(t, b). ring_localTermination n t b) cs d"

abbreviation "ring2_reach \<equiv> work_reach 2 exact_scheduler (ring_localTermination 2) globalTerm ring2"

lemma ring2_one_task_done:
  "ring2_reach (ring2_work\<lparr>didWork := (\<lambda>_. False)(0 := True), shared := 0\<rparr>, ring2)"
proof -
  let ?s1 = "at 0 Processing (ring2_work\<lparr>didWork := (didWork ring2_work)(0 := True), shared := 0, own := \<lambda>_. 0\<rparr>)"
  have s0: "ring2_reach (ring2_work, ring2)"
    by (rule work_reach.start) (simp add: work_start_def ring2_work_def)
  have s1: "ring2_reach (?s1, ring2)"
    by (rule work_reach.step [OF s0], rule work_step.pop_task) (simp_all add: ring2_work_def some_task_def)
  have "ring2_reach (at 0 Popping (?s1\<lparr>shared := 0, own := \<lambda>_. 0\<rparr>), ring2)"
    by (rule work_reach.step [OF s1], rule work_step.process) (simp_all add: ring2_work_def)
  moreover have "at 0 Popping (?s1\<lparr>shared := 0, own := \<lambda>_. 0\<rparr>) =
      ring2_work\<lparr>didWork := (\<lambda>_. False)(0 := True), shared := 0\<rparr>"
    by (auto simp: ring2_work_def at_def)
  ultimately show ?thesis by simp
qed

lemma ring2_idle_round:
  assumes "ring2_reach (ring2_work\<lparr>shared := 0\<rparr>, d)" "t < 2" "\<not> globalTerm (ring_localTermination 2 t False d)"
  shows "ring2_reach (ring2_work\<lparr>shared := 0\<rparr>, ring_localTermination 2 t False d)"
  using fruitless_round [OF assms(1,2)] assms(3) by (simp add: ring2_work_def fun_upd_idem)

fun goes_on :: "nat list \<Rightarrow> ring \<Rightarrow> bool" where
  "goes_on [] d \<longleftrightarrow> True"
| "goes_on (t # ts) d \<longleftrightarrow>
     t < 2 \<and> \<not> globalTerm (ring_localTermination 2 t False d) \<and> goes_on ts (ring_localTermination 2 t False d)"

lemma ring2_idle_rounds:
  "ring2_reach (ring2_work\<lparr>shared := 0\<rparr>, d) \<Longrightarrow> goes_on ts d \<Longrightarrow>
   ring2_reach (ring2_work\<lparr>shared := 0\<rparr>, ring_calls 2 (map (\<lambda>t. (t, False)) ts) d)"
proof (induction ts arbitrary: d)
  case (Cons t ts)
  then have "ring2_reach (ring2_work\<lparr>shared := 0\<rparr>, ring_localTermination 2 t False d)"
    by (intro ring2_idle_round) auto
  with Cons show ?case by (simp add: ring_calls_def)
qed (simp add: ring_calls_def)

definition ring2_end :: ring where
  "ring2_end = ring_calls 2 [(0, True), (1, False), (0, False), (1, False), (0, False), (1, False), (0, False)] ring2"

lemma ring2_terminates:
  "\<exists>s. ring2_reach (s, ring2_end) \<and> globalTerm ring2_end"
proof -
  let ?d = "ring_localTermination 2 0 True ring2"
  let ?ts = "[1, 0, 1, 0, 1] :: nat list"
  have "\<not> globalTerm ?d" by code_simp
  then have "ring2_reach (ring2_work\<lparr>shared := 0\<rparr>, ?d)"
    using fruitless_round [OF ring2_one_task_done, of 0] by (simp add: ring2_work_def fun_upd_idem)
  moreover have "goes_on ?ts ?d" by code_simp
  ultimately have r: "ring2_reach (ring2_work\<lparr>shared := 0\<rparr>, ring_calls 2 (map (\<lambda>t. (t, False)) ?ts) ?d)"
    by (rule ring2_idle_rounds)
  let ?s = "at 0 Calling (ring2_work\<lparr>shared := 0\<rparr>)"
  have r2: "ring2_reach (?s, ring_calls 2 (map (\<lambda>t. (t, False)) ?ts) ?d)"
    by (rule work_reach.step [OF r], rule work_step.pop_fails) (simp_all add: ring2_work_def)
  have "\<exists>s. ring2_reach (s, ring_localTermination 2 0 (didWork ?s 0) (ring_calls 2 (map (\<lambda>t. (t, False)) ?ts) ?d))"
    by (rule exI, rule work_reach.step [OF r2], rule work_step.call) (simp_all add: ring2_work_def)
  moreover have "globalTerm ring2_end" by code_simp
  ultimately show ?thesis by (simp add: ring2_end_def ring_calls_def ring2_work_def)
qed


text \<open>
  The condition on the scheduler is needed: with one whose \<open>pop\<close> may miss a task that is stored, two threads that
  miss it three times each (in the two white rounds of the token) end the loop with the task still there.
\<close>

abbreviation "hasty2_reach \<equiv> work_reach 2 hasty_scheduler (ring_localTermination 2) globalTerm ring2"

lemma hasty2_idle_rounds:
  "hasty2_reach (ring2_work, d) \<Longrightarrow> goes_on ts d \<Longrightarrow> hasty2_reach (ring2_work, ring_calls 2 (map (\<lambda>t. (t, False)) ts) d)"
proof (induction ts arbitrary: d)
  case (Cons t ts)
  then have "hasty2_reach (ring2_work, ring_localTermination 2 t False d)"
    using fruitless_round [OF Cons.prems(1), of t] by (simp add: ring2_work_def fun_upd_idem)
  with Cons show ?case by (simp add: ring_calls_def)
qed (simp add: ring_calls_def)

theorem ring_stops_with_task:
  "\<exists>s d. hasty2_reach (s, d) \<and> globalTerm d \<and> shared s = 1"
proof -
  let ?ts = "[0, 1, 0, 1, 0, 1] :: nat list"
  let ?d = "ring_calls 2 (map (\<lambda>t. (t, False)) ?ts) ring2"
  let ?s = "at 0 Calling ring2_work"
  have r0: "hasty2_reach (ring2_work, ring2)"
    by (rule work_reach.start) (simp add: work_start_def ring2_work_def)
  have "goes_on ?ts ring2" by code_simp
  from hasty2_idle_rounds [OF r0 this] have r: "hasty2_reach (?s, ?d)"
    by (rule work_reach.step) (rule work_step.pop_fails, simp_all add: ring2_work_def)
  have "hasty2_reach (at 0 Checking (?s\<lparr>didWork := (didWork ?s)(0 := False)\<rparr>), ring_localTermination 2 0 (didWork ?s 0) ?d)"
    by (rule work_reach.step [OF r], rule work_step.call) (simp_all add: ring2_work_def)
  moreover have "globalTerm (ring_localTermination 2 0 (didWork ?s 0) ?d)"
  proof -
    have "globalTerm (ring_localTermination 2 0 False ?d)" by code_simp
    then show ?thesis by (simp add: ring2_work_def)
  qed
  moreover have "shared (at 0 Checking (?s\<lparr>didWork := (didWork ?s)(0 := False)\<rparr>)) = 1" by (simp add: ring2_work_def)
  ultimately show ?thesis by blast
qed

section \<open>Progress\<close>

text \<open>
  Once nobody reports work any more, every call by the thread with the token brings the end
  nearer: \<open>ring_rank\<close> is the number of such calls that are left.
\<close>

definition seg_end :: "nat \<Rightarrow> nat \<Rightarrow> nat" where
  "seg_end n k = (if k = 0 then n else k)"

definition white_now :: "nat \<Rightarrow> ring \<Rightarrow> nat \<Rightarrow> bool" where
  "white_now n d k \<longleftrightarrow> \<not> tokenIsBlack (holders d ! k) \<and> \<not> processIsBlack (holders d ! 0) \<and>
     (\<forall>u<n. seg_end n k \<le> u \<longrightarrow> \<not> processIsBlack (holders d ! u))"

definition white_next :: "nat \<Rightarrow> ring \<Rightarrow> nat \<Rightarrow> bool" where
  "white_next n d k \<longleftrightarrow> (\<forall>u < seg_end n k. 0 < u \<longrightarrow> \<not> processIsBlack (holders d ! u))"

definition waves_left :: "bool \<Rightarrow> bool \<Rightarrow> bool \<Rightarrow> nat" where
  "waves_left lw w1 w2 = (if lw \<and> w1 then 0 else if w1 \<and> w2 then 1 else if w2 then 2 else 3)"

definition ring_rank :: "nat \<Rightarrow> ring \<Rightarrow> nat \<Rightarrow> nat" where
  "ring_rank n d k = Suc (n - seg_end n k) +
     n * waves_left (lastWasWhite (holders d ! 0)) (white_now n d k) (white_next n d k)"

lemma ring_rank_bound: "k < n \<Longrightarrow> ring_rank n d k \<le> 4 * n"
  by (auto simp: ring_rank_def waves_left_def seg_end_def)

lemma waves_left_judge: "\<not> (lw \<and> w1) \<Longrightarrow> Suc (waves_left w1 w2 True) = waves_left lw w1 w2"
  by (auto simp: waves_left_def)

lemma quiet_call_no_token:
  "\<not> hasToken (holders d ! t) \<Longrightarrow> ring_localTermination n t False d = d"
  by (simp add: localTermination_no_token set_holder_def)

lemma ring_rank_step:
  assumes k: "token_at n d k" and len: "length (holders d) = n"
    and go: "\<not> globalTerm (ring_localTermination n k False d)"
  shows "\<exists>k'. token_at n (ring_localTermination n k False d) k' \<and>
    Suc (ring_rank n (ring_localTermination n k False d) k') = ring_rank n d k"
proof -
  let ?d = "ring_localTermination n k False d"
  from k have kn: "k < n" and tok: "hasToken (holders d ! k)"
    and others: "\<forall>u<n. u \<noteq> k \<longrightarrow> \<not> hasToken (holders d ! u)" by (auto simp: token_at_def)
  show ?thesis
  proof (cases "k = 0")
    case False
    have d: "?d = pass_on n k (holders d ! k) d"
      using localTermination_token [OF tok False, of n False] by simp
    note P = pass_on_holders [OF kn len tok others, folded d]
    let ?k = "Suc k mod n"
    have up: "seg_end n ?k = Suc k" "seg_end n k = k" using kn False by (auto simp: seg_end_def mod_Suc)
    have n0: "0 < n" using kn by simp
    have "white_now n ?d ?k = white_now n d k"
      unfolding white_now_def up P(2) using P(3) n0 False kn
      by (auto simp: Suc_le_eq)
    moreover have "white_next n ?d ?k = white_next n d k"
      unfolding white_next_def up using P(3) kn by (auto simp: less_Suc_eq)
    moreover have "lastWasWhite (holders ?d ! 0) = lastWasWhite (holders d ! 0)" using P(4) False by simp
    ultimately have "Suc (ring_rank n ?d ?k) = ring_rank n d k"
      using kn by (simp add: ring_rank_def up)
    with P(1) show ?thesis by blast
  next
    case True
    obtain th where th: "hasToken th" "\<not> tokenIsBlack th" "\<not> processIsBlack th"
      "lastWasWhite th \<longleftrightarrow> \<not> failed_wave False d"
      "ring_localTermination n 0 False d = (if lastWasWhite (holders d ! 0) \<and> \<not> failed_wave False d
        then propGlobalTerm (set_holder 0 th d) else pass_on n 0 th d)"
      using localTermination_master [where d = d and n = n and b = False] tok True by auto
    have nj: "\<not> (lastWasWhite (holders d ! 0) \<and> \<not> failed_wave False d)"
    proof
      assume "lastWasWhite (holders d ! 0) \<and> \<not> failed_wave False d"
      then have "globalTerm ?d" using th(5) True by (simp add: propGlobalTerm_def)
      with go show False by blast
    qed
    then have d: "?d = pass_on n 0 th d" using th(5) True by (simp only: if_False)
    have n0: "0 < n" using kn by simp
    have ot: "\<forall>u<n. u \<noteq> 0 \<longrightarrow> \<not> hasToken (holders d ! u)" using others True by simp
    note P = pass_on_holders [OF n0 len th(1) ot, folded d]
    let ?k = "Suc 0 mod n"
    have up: "seg_end n ?k = 1" "seg_end n k = n" using n0 True by (auto simp: seg_end_def mod_Suc)
    have w1: "white_now n d k \<longleftrightarrow> \<not> failed_wave False d"
      using True by (auto simp: white_now_def failed_wave_def seg_end_def)
    have "white_now n ?d ?k = white_next n d k"
      unfolding white_now_def white_next_def up P(2) using P(3) th n0 by (auto simp: Suc_le_eq)
    moreover have "white_next n ?d ?k" unfolding white_next_def up by auto
    moreover have "lastWasWhite (holders ?d ! 0) \<longleftrightarrow> white_now n d k" using P(4) th(4) w1 by simp
    ultimately have "Suc (ring_rank n ?d ?k) =
        Suc n + n * waves_left (white_now n d k) (white_next n d k) True"
      unfolding ring_rank_def up using n0 by (simp only: Suc_diff_1)
    also have "\<dots> = 1 + n * Suc (waves_left (white_now n d k) (white_next n d k) True)" by simp
    also have "\<dots> = ring_rank n d k"
      using nj w1 by (subst waves_left_judge) (auto simp: ring_rank_def up)
    finally show ?thesis using P(1) by blast
  qed
qed

text \<open>The calls of a schedule \<open>ts\<close>, without work to report, and how many of them find the token.\<close>

fun quiet_run :: "nat \<Rightarrow> nat list \<Rightarrow> ring \<Rightarrow> ring" where
  "quiet_run n [] d = d"
| "quiet_run n (t # ts) d = quiet_run n ts (ring_localTermination n t False d)"

fun token_calls :: "nat \<Rightarrow> nat list \<Rightarrow> ring \<Rightarrow> nat" where
  "token_calls n [] d = 0"
| "token_calls n (t # ts) d =
     (if hasToken (holders d ! t) then 1 else 0) + token_calls n ts (ring_localTermination n t False d)"

lemma globalTerm_call: "globalTerm d \<Longrightarrow> globalTerm (ring_localTermination n t b d)"
  by (auto simp: ring_localTermination_def Let_def propGlobalTerm_def)

lemma globalTerm_quiet_run: "globalTerm d \<Longrightarrow> globalTerm (quiet_run n ts d)"
  by (induction ts arbitrary: d) (auto intro: globalTerm_call)

lemma length_call [simp]: "length (holders (ring_localTermination n t b d)) = length (holders d)"
  by (auto simp: ring_localTermination_def Let_def propGlobalTerm_def)

lemma token_calls_rank:
  assumes "token_at n d k" "length (holders d) = n" "\<not> globalTerm (quiet_run n ts d)" "list_all (\<lambda>t. t < n) ts"
  shows "token_calls n ts d < ring_rank n d k"
  using assms
proof (induction ts arbitrary: d k)
  case Nil
  then show ?case by (simp add: ring_rank_def)
next
  case (Cons t ts)
  let ?d = "ring_localTermination n t False d"
  show ?case
  proof (cases "t = k")
    case True
    have "\<not> globalTerm ?d" using Cons.prems(3) globalTerm_quiet_run [of ?d n ts] by auto
    then obtain k' where "token_at n ?d k'" "Suc (ring_rank n ?d k') = ring_rank n d k"
      using ring_rank_step [OF Cons.prems(1,2)] True by auto
    with Cons.IH [of ?d k'] Cons.prems True show ?thesis by (auto simp: token_at_def)
  next
    case False
    then have "\<not> hasToken (holders d ! t)" using Cons.prems(1,4) by (auto simp: token_at_def)
    with Cons.IH [of d k] Cons.prems show ?thesis by (simp add: quiet_call_no_token)
  qed
qed

lemma ring_calls_rel:
  assumes "ring_rel n d a" "list_all (\<lambda>(t, b). t < n) cs"
  shows "\<exists>a'. ring_rel n (ring_calls n cs d) a'"
  using assms
proof (induction cs arbitrary: d a)
  case (Cons c cs)
  obtain t b where c: "c = (t, b)" by (cases c)
  with Cons.prems ring_rel_call [of n d a t b] obtain a' where "ring_rel n (ring_localTermination n t b d) a'"
    by auto
  with Cons.IH Cons.prems(2) c show ?case by (auto simp: ring_calls_def)
qed (auto simp: ring_calls_def)

text \<open>
  C25: The token ring comes to an end. After any calls, with or without work, exactly one thread has the
  token unless the end was announced; and if from then on nobody has work to report, the end is announced
  by the time the thread with the token of the moment has called \<open>4 * n\<close> times, whatever
  the order of the calls. Other threads' calls change nothing.
\<close>

theorem ring_termination_live:
  assumes n: "length (holders d0) = n" "0 < n" and cs: "list_all (\<lambda>(t, b). t < n) cs"
    and d: "d = ring_calls n cs (ring_init d0)"
  shows "(globalTerm d \<or> (\<exists>!t. t < n \<and> hasToken (holders d ! t))) \<and>
    (list_all (\<lambda>t. t < n) ts \<and> 4 * n \<le> token_calls n ts d \<longrightarrow> globalTerm (quiet_run n ts d)) \<and>
    (\<not> hasToken (holders d ! t) \<longrightarrow> ring_localTermination n t False d = d)"
proof -
  obtain a0 where "ring_rel n (ring_init d0) a0" using ring_rel_start [of d0] n by auto
  with ring_calls_rel cs d obtain a where rel: "ring_rel n d a" by blast
  have "globalTerm (quiet_run n ts d)" if "list_all (\<lambda>t. t < n) ts" "4 * n \<le> token_calls n ts d"
  proof (cases "globalTerm d")
    case False
    then obtain k where k: "token_at n d k" using rel by (auto simp: ring_rel_def)
    then have "ring_rank n d k \<le> 4 * n" by (intro ring_rank_bound) (simp add: token_at_def)
    with token_calls_rank [OF k _ _ that(1)] that(2) rel show ?thesis by (force simp: ring_rel_def)
  qed (rule globalTerm_quiet_run)
  moreover have "globalTerm d \<or> (\<exists>!t. t < n \<and> hasToken (holders d ! t))"
    using rel by (auto simp: ring_rel_def token_at_def)
  ultimately show ?thesis using quiet_call_no_token by blast
qed

theorem ring_termination_live_witness:
  "globalTerm (quiet_run 2 (concat (replicate 8 [0, 1])) (ring_calls 2 [(0, True)] ring2))"
proof -
  have "8 \<le> token_calls 2 (concat (replicate 8 [0, 1])) (ring_calls 2 [(0, True)] ring2)" by code_simp
  with ring_termination_live [of "\<lparr>holders = [fresh_holder 1, fresh_holder 1], globalTerm = True\<rparr>" 2
      "[(0, True)]" _ "concat (replicate 8 [0, 1])" 0, folded ring2_def, OF _ _ _ refl]
  show ?thesis by (simp add: numeral_eq_Suc)
qed

end
