(* ===== verification/TreeTermination.thy ===== *)
theory TreeTermination
  imports TermDetect
begin

text \<open>
  \<open>TreeTerminationDetection\<close> of \<open>src/Termination.cpp\<close>: tokens go down a binary tree of the threads
  and their colours come up. Pointers to other nodes are thread ids; a call is one step.
\<close>

section \<open>The detector\<close>

record TreeHolder =
  down_token :: bool
  up_token :: "int list"     \<comment> \<open>\<open>- 1\<close>: not there yet\<close>
  processIsBlack :: bool
  hasToken :: bool
  lastWasWhite :: bool
  parent :: nat
  parent_offset :: nat
  child :: "nat option list"

record tree_det =
  tnodes :: "TreeHolder list"
  tglobalTerm :: bool

text \<open>For the master the code computes a parent it never uses; here it is 0.\<close>

definition tree_holder :: "nat \<Rightarrow> nat \<Rightarrow> TreeHolder" where
  "tree_holder n t =
     \<lparr>down_token = (t = 0), up_token = [0, 0], processIsBlack = True, hasToken = False,
      lastWasWhite = False, parent = (t - 1) div 2, parent_offset = (t - 1) mod 2,
      child = map (\<lambda>i. let cn = t * 2 + i + 1 in if cn < n then Some cn else None) [0, 1]\<rparr>"

definition tree_initializeThread :: "nat \<Rightarrow> nat \<Rightarrow> tree_det \<Rightarrow> tree_det" where
  "tree_initializeThread n t d = \<lparr>tnodes = (tnodes d)[t := tree_holder n t], tglobalTerm = False\<rparr>"

definition tree_init :: "tree_det \<Rightarrow> tree_det" where
  "tree_init d = fold (tree_initializeThread (length (tnodes d))) [0..<length (tnodes d)] d"

definition set_node :: "nat \<Rightarrow> TreeHolder \<Rightarrow> tree_det \<Rightarrow> tree_det" where
  "set_node t th d = d\<lparr>tnodes := (tnodes d)[t := th]\<rparr>"

text \<open>\<open>processToken\<close>: look at the tokens of the children,\<close>

definition collect_one :: "TreeHolder \<Rightarrow> nat \<Rightarrow> bool \<times> bool \<Rightarrow> bool \<times> bool" where
  "collect_one th i ab =
     (case ab of (haveAll, black) \<Rightarrow>
        if child th ! i \<noteq> None then
          if up_token th ! i = - 1 then (False, black) else (haveAll, black \<or> up_token th ! i \<noteq> 0)
        else (haveAll, black))"

definition collect :: "TreeHolder \<Rightarrow> bool \<times> bool" where
  "collect th = fold (collect_one th) [0, 1] (hasToken th, processIsBlack th)"

text \<open>send the colour up,\<close>

definition send_up :: "nat \<Rightarrow> bool \<Rightarrow> tree_det \<Rightarrow> tree_det" where
  "send_up t black d =
     (let th = tnodes d ! t; p = tnodes d ! parent th
      in set_node (parent th) (p\<lparr>up_token := (up_token p)[parent_offset th := (if black then 1 else 0)]\<rparr>) d)"

text \<open>and pass a token from above down.\<close>

definition pass_down_one :: "nat \<Rightarrow> nat \<Rightarrow> tree_det \<Rightarrow> tree_det" where
  "pass_down_one t i d =
     (let th = tnodes d ! t; d1 = set_node t (th\<lparr>up_token := (up_token th)[i := - 1]\<rparr>) d
      in case child th ! i of
           None \<Rightarrow> d1
         | Some c \<Rightarrow> set_node c ((tnodes d1 ! c)\<lparr>down_token := True\<rparr>) d1)"

definition take_down :: "nat \<Rightarrow> tree_det \<Rightarrow> tree_det" where
  "take_down t d =
     (if down_token (tnodes d ! t) then
        fold (pass_down_one t) [0, 1] (set_node t ((tnodes d ! t)\<lparr>down_token := False, hasToken := True\<rparr>) d)
      else d)"

definition processToken :: "nat \<Rightarrow> tree_det \<Rightarrow> tree_det" where
  "processToken t d =
     (let th = tnodes d ! t
      in case collect th of (haveAll, black) \<Rightarrow>
        if haveAll then
          let th1 = th\<lparr>processIsBlack := False, hasToken := False\<rparr>; d1 = set_node t th1 d
          in if t = 0 then
               if lastWasWhite th1 \<and> \<not> black then d1\<lparr>tglobalTerm := True\<rparr>
               else take_down t (set_node t (th1\<lparr>lastWasWhite := \<not> black, down_token := True\<rparr>) d)
             else take_down t (send_up t black d1)
        else take_down t d)"

definition tree_localTermination :: "nat \<Rightarrow> bool \<Rightarrow> tree_det \<Rightarrow> tree_det" where
  "tree_localTermination t workHappened d =
     (let th = tnodes d ! t
      in processToken t (set_node t (th\<lparr>processIsBlack := processIsBlack th \<or> workHappened\<rparr>) d))"

section \<open>The state, thread by thread\<close>

abbreviation (input) "pa t \<equiv> (t - 1) div 2"
abbreviation (input) "off t \<equiv> (t - 1) mod 2"

definition tok :: "tree_det \<Rightarrow> nat \<Rightarrow> bool" where "tok d t = hasToken (tnodes d ! t)"
definition down :: "tree_det \<Rightarrow> nat \<Rightarrow> bool" where "down d t = down_token (tnodes d ! t)"
definition black :: "tree_det \<Rightarrow> nat \<Rightarrow> bool" where "black d t = processIsBlack (tnodes d ! t)"
definition lww :: "tree_det \<Rightarrow> bool" where "lww d = lastWasWhite (tnodes d ! 0)"

text \<open>What the thread \<open>t\<close> has told its parent.\<close>

definition slot :: "tree_det \<Rightarrow> nat \<Rightarrow> int" where "slot d t = up_token (tnodes d ! pa t) ! off t"

definition tree_shape :: "nat \<Rightarrow> tree_det \<Rightarrow> bool" where
  "tree_shape n d \<longleftrightarrow> length (tnodes d) = n \<and>
     (\<forall>t<n. length (up_token (tnodes d ! t)) = 2 \<and> parent (tnodes d ! t) = pa t \<and>
        parent_offset (tnodes d ! t) = off t \<and> child (tnodes d ! t) = child (tree_holder n t))"

definition is_child :: "nat \<Rightarrow> nat \<Rightarrow> nat \<Rightarrow> bool" where
  "is_child n u t \<longleftrightarrow> u < n \<and> 0 < u \<and> pa u = t"

lemma is_child_iff: "is_child n u t \<longleftrightarrow> u < n \<and> (u = 2 * t + 1 \<or> u = 2 * t + 2)"
  by (auto simp: is_child_def)

lemma slot_index_inj:
  fixes t u :: nat
  assumes "pa t = pa u" "off t = off u" "0 < t" "0 < u"
  shows "t = u"
proof -
  have "t - 1 = u - 1" using assms(1,2) by (metis mult_div_mod_eq)
  then show ?thesis using assms(3,4) by simp
qed

lemma tree_shapeD:
  assumes "tree_shape n d" "t < n"
  shows "length (tnodes d) = n" "length (up_token (tnodes d ! t)) = 2" "parent (tnodes d ! t) = pa t"
    "parent_offset (tnodes d ! t) = off t"
    "child (tnodes d ! t) = [if 2 * t + 1 < n then Some (2 * t + 1) else None, if 2 * t + 2 < n then Some (2 * t + 2) else None]"
  using assms by (auto simp: tree_shape_def tree_holder_def mult.commute)

lemma set_node_twice: "set_node t x (set_node t y d) = set_node t x d"
  by (simp add: set_node_def)

text \<open>What the parts of \<open>processToken\<close> do to it.\<close>

lemma set_node_simps [simp]:
  "tnodes (set_node t th d) = (tnodes d)[t := th]" "tglobalTerm (set_node t th d) = tglobalTerm d"
  by (simp_all add: set_node_def)

lemma all_children:
  "(\<forall>u. is_child n u t \<longrightarrow> Q u) \<longleftrightarrow> (2 * t + 1 < n \<longrightarrow> Q (2 * t + 1)) \<and> (2 * t + 2 < n \<longrightarrow> Q (2 * t + 2))"
  by (auto simp: is_child_iff)

lemma ex_children:
  "(\<exists>u. is_child n u t \<and> Q u) \<longleftrightarrow> 2 * t + 1 < n \<and> Q (2 * t + 1) \<or> 2 * t + 2 < n \<and> Q (2 * t + 2)"
  by (auto simp: is_child_iff)

lemma slot_children:
  "slot d (2 * t + 1) = up_token (tnodes d ! t) ! 0" "slot d (2 * t + 2) = up_token (tnodes d ! t) ! 1"
  by (simp_all add: slot_def)

lemma collect_eq:
  assumes "tree_shape n d" "t < n"
  shows "fst (collect (tnodes d ! t)) \<longleftrightarrow> tok d t \<and> (\<forall>u. is_child n u t \<longrightarrow> slot d u \<noteq> - 1)"
    "fst (collect (tnodes d ! t)) \<Longrightarrow>
     snd (collect (tnodes d ! t)) \<longleftrightarrow> black d t \<or> (\<exists>u. is_child n u t \<and> slot d u \<noteq> 0)"
  unfolding all_children ex_children slot_children using tree_shapeD(5) [OF assms]
  by (auto simp: collect_def collect_one_def tok_def black_def split: if_splits)

lemma shape_set_node:
  assumes "tree_shape n d" "t < n" "length (up_token th) = 2" "parent th = parent (tnodes d ! t)"
    "parent_offset th = parent_offset (tnodes d ! t)" "child th = child (tnodes d ! t)"
  shows "tree_shape n (set_node t th d)"
  using assms by (auto simp: tree_shape_def nth_list_update)

lemma send_up_simps:
  assumes d: "tree_shape n d" and t: "t < n" "0 < t"
  shows "tree_shape n (send_up t b d)" "tglobalTerm (send_up t b d) = tglobalTerm d"
    "tok (send_up t b d) = tok d" "down (send_up t b d) = down d" "black (send_up t b d) = black d"
    "lww (send_up t b d) = lww d"
    "\<And>u. 0 < u \<Longrightarrow> u < n \<Longrightarrow> slot (send_up t b d) u = (if u = t then if b then 1 else 0 else slot d u)"
proof -
  have p: "pa t < n" using t by simp
  note S = tree_shapeD [OF d t(1)] and P = tree_shapeD [OF d p]
  show "tree_shape n (send_up t b d)"
    unfolding send_up_def Let_def S(3) by (rule shape_set_node [OF d p]) (use P in simp_all)
  show "tglobalTerm (send_up t b d) = tglobalTerm d" by (simp add: send_up_def Let_def)
  have "tok (send_up t b d) u = tok d u" "down (send_up t b d) u = down d u" "black (send_up t b d) u = black d u" for u
    using p S(1,3,4) by (simp_all add: send_up_def Let_def tok_def down_def black_def nth_list_update)
  then show "tok (send_up t b d) = tok d" "down (send_up t b d) = down d" "black (send_up t b d) = black d"
    by blast+
  show "lww (send_up t b d) = lww d"
    using p S(1,3,4) by (simp add: send_up_def Let_def lww_def nth_list_update)
  show "slot (send_up t b d) u = (if u = t then if b then 1 else 0 else slot d u)" if "0 < u" "u < n" for u
  proof (cases "u = t")
    case True
    then show ?thesis using p S P by (simp add: send_up_def Let_def slot_def)
  next
    case False
    then have "pa u \<noteq> pa t \<or> off u \<noteq> off t" using slot_index_inj that t by blast
    then show ?thesis using False p S by (auto simp: send_up_def Let_def slot_def nth_list_update)
  qed
qed

lemma pass_down_one_simps:
  assumes d: "tree_shape n d" and t: "t < n" and i: "i < 2"
  shows "tree_shape n (pass_down_one t i d)" "tglobalTerm (pass_down_one t i d) = tglobalTerm d"
    "tok (pass_down_one t i d) = tok d" "black (pass_down_one t i d) = black d" "lww (pass_down_one t i d) = lww d"
    "\<And>u. u < n \<Longrightarrow> down (pass_down_one t i d) u \<longleftrightarrow> u = 2 * t + i + 1 \<or> down d u"
    "\<And>u. slot (pass_down_one t i d) u = (if pa u = t \<and> off u = i then - 1 else slot d u)"
proof -
  note S = tree_shapeD [OF d t]
  let ?c = "2 * t + i + 1" and ?d1 = "set_node t ((tnodes d ! t)\<lparr>up_token := (up_token (tnodes d ! t))[i := - 1]\<rparr>) d"
  have c: "child (tnodes d ! t) ! i = (if ?c < n then Some ?c else None)"
    using S(5) i by (auto simp: less_2_cases_iff)
  have eq: "pass_down_one t i d = (if ?c < n then set_node ?c ((tnodes ?d1 ! ?c)\<lparr>down_token := True\<rparr>) ?d1 else ?d1)"
    by (simp add: pass_down_one_def Let_def c)
  have len: "length (tnodes d) = n" by (rule S(1))
  have s1: "tree_shape n ?d1" by (rule shape_set_node [OF d t]) (use S(2) in simp_all)
  have "tree_shape n (set_node ?c ((tnodes ?d1 ! ?c)\<lparr>down_token := True\<rparr>) ?d1)" if "?c < n"
    by (rule shape_set_node [OF s1 that]) (use tree_shapeD(2) [OF s1 that] in simp_all)
  with s1 show "tree_shape n (pass_down_one t i d)" unfolding eq by simp
  show "tglobalTerm (pass_down_one t i d) = tglobalTerm d" by (simp add: eq)
  have "tok (pass_down_one t i d) u = tok d u" "black (pass_down_one t i d) u = black d u" for u
    unfolding eq using t len by (simp_all add: tok_def black_def nth_list_update)
  then show "tok (pass_down_one t i d) = tok d" "black (pass_down_one t i d) = black d" by blast+
  show "lww (pass_down_one t i d) = lww d"
    unfolding eq using t len by (simp add: lww_def nth_list_update)
  show "down (pass_down_one t i d) u \<longleftrightarrow> u = ?c \<or> down d u" if "u < n" for u
    unfolding eq using t len that by (simp add: down_def nth_list_update)
  have "up_token (tnodes (pass_down_one t i d) ! v) =
      (if v = t then (up_token (tnodes d ! t))[i := - 1] else up_token (tnodes d ! v))" for v
    unfolding eq using t len by (simp add: nth_list_update)
  then show "slot (pass_down_one t i d) u = (if pa u = t \<and> off u = i then - 1 else slot d u)" for u
    using S(2) i by (auto simp: slot_def nth_list_update)
qed

lemma take_down_simps:
  assumes d: "tree_shape n d" and t: "t < n" and dn: "down d t"
  shows "tree_shape n (take_down t d)" "tglobalTerm (take_down t d) = tglobalTerm d"
    "\<And>u. tok (take_down t d) u \<longleftrightarrow> u = t \<or> tok d u" "black (take_down t d) = black d" "lww (take_down t d) = lww d"
    "\<And>u. u < n \<Longrightarrow> down (take_down t d) u \<longleftrightarrow> is_child n u t \<or> u \<noteq> t \<and> down d u"
    "\<And>u. slot (take_down t d) u = (if pa u = t then - 1 else slot d u)"
proof -
  note S = tree_shapeD [OF d t]
  let ?d0 = "set_node t ((tnodes d ! t)\<lparr>down_token := False, hasToken := True\<rparr>) d"
  have eq: "take_down t d = pass_down_one t 1 (pass_down_one t 0 ?d0)"
    using dn by (simp add: take_down_def down_def)
  have s0: "tree_shape n ?d0" by (rule shape_set_node [OF d t]) (use S(2) in simp_all)
  have D0: "tok ?d0 u \<longleftrightarrow> u = t \<or> tok d u" "black ?d0 u = black d u" "lww ?d0 = lww d"
    "down ?d0 u \<longleftrightarrow> u \<noteq> t \<and> down d u" "slot ?d0 u = slot d u" for u
    using t S(1) by (simp_all add: tok_def black_def lww_def down_def slot_def nth_list_update)
  note A = pass_down_one_simps [OF s0 t, of 0, simplified]
  note B = pass_down_one_simps [OF A(1) t, of 1, simplified]
  show "tree_shape n (take_down t d)" "tglobalTerm (take_down t d) = tglobalTerm d"
    unfolding eq using A B by simp_all
  show "tok (take_down t d) u \<longleftrightarrow> u = t \<or> tok d u" for u unfolding eq using A(3) B(3) D0(1) by simp
  show "black (take_down t d) = black d" unfolding eq using A(4) B(4) D0(2) by auto
  show "lww (take_down t d) = lww d" unfolding eq using A(5) B(5) D0(3) by simp
  show "down (take_down t d) u \<longleftrightarrow> is_child n u t \<or> u \<noteq> t \<and> down d u" if "u < n" for u
    unfolding eq using A(6) [OF that] B(6) [OF that] D0(4) that by (auto simp: is_child_iff)
  show "slot (take_down t d) u = (if pa u = t then - 1 else slot d u)" for u
    unfolding eq using A(7) B(7) D0(5) by auto
qed

section \<open>Relation to the two-pass scheme\<close>

text \<open>
  A thread with a token has got it from a parent that still has its own; a thread is visited when it
  has told its parent; below a parent without a token all or none are visited; the wave is black if
  some colour not yet summed up is.
\<close>

definition tree_ok :: "nat \<Rightarrow> tree_det \<Rightarrow> wave \<Rightarrow> bool" where
  "tree_ok n d a \<longleftrightarrow>
     (\<forall>t<n. dirty a t = black d t) \<and> lwhite a = lww d \<and> visited a \<subseteq> {..<n} \<and>
     (\<forall>t<n. tok d t \<or> down d t \<longrightarrow> \<not> (tok d t \<and> down d t) \<and> t \<notin> visited a) \<and>
     (\<forall>t<n. 0 < t \<longrightarrow>
        (tok d t \<or> down d t \<longrightarrow> tok d (pa t) \<and> slot d t = - 1) \<and>
        (tok d (pa t) \<and> slot d t \<noteq> - 1 \<longrightarrow> t \<in> visited a) \<and>
        (\<not> tok d (pa t) \<longrightarrow> (t \<in> visited a \<longleftrightarrow> pa t \<in> visited a))) \<and>
     (wblack a \<longleftrightarrow> (\<exists>t<n. 0 < t \<and> tok d (pa t) \<and> slot d t \<noteq> - 1 \<and> slot d t \<noteq> 0))"

definition tree_rel :: "nat \<Rightarrow> tree_det \<Rightarrow> wave \<Rightarrow> bool" where
  "tree_rel n d a \<longleftrightarrow> tree_shape n d \<and> (wterm a \<longleftrightarrow> tglobalTerm d) \<and> (tglobalTerm d \<or> tree_ok n d a)"

lemma tree_okD:
  assumes "tree_ok n d a" "t < n"
  shows "dirty a t = black d t" "lwhite a = lww d" "visited a \<subseteq> {..<n}"
    "tok d t \<Longrightarrow> \<not> down d t" "tok d t \<Longrightarrow> t \<notin> visited a" "down d t \<Longrightarrow> t \<notin> visited a"
    "0 < t \<Longrightarrow> tok d t \<Longrightarrow> tok d (pa t)" "0 < t \<Longrightarrow> down d t \<Longrightarrow> tok d (pa t)"
    "0 < t \<Longrightarrow> tok d t \<Longrightarrow> slot d t = - 1" "0 < t \<Longrightarrow> down d t \<Longrightarrow> slot d t = - 1"
    "0 < t \<Longrightarrow> tok d (pa t) \<Longrightarrow> slot d t \<noteq> - 1 \<Longrightarrow> t \<in> visited a"
    "0 < t \<Longrightarrow> \<not> tok d (pa t) \<Longrightarrow> t \<in> visited a \<longleftrightarrow> pa t \<in> visited a"
  using assms unfolding tree_ok_def by blast+

lemma tree_ok_report:
  fixes b :: bool
  assumes ok: "tree_ok n d a" and d: "tree_shape n d" and t: "t < n"
  defines "d1 \<equiv> set_node t ((tnodes d ! t)\<lparr>processIsBlack := processIsBlack (tnodes d ! t) \<or> b\<rparr>) d"
  shows "tree_shape n d1" "tglobalTerm d1 = tglobalTerm d" "tree_ok n d1 (report t b a)"
proof -
  show "tree_shape n d1" unfolding d1_def by (rule shape_set_node [OF d t]) (use tree_shapeD(2) [OF d t] in simp_all)
  show "tglobalTerm d1 = tglobalTerm d" by (simp add: d1_def)
  have eq: "tok d1 = tok d" "down d1 = down d" "slot d1 = slot d" "lww d1 = lww d"
    "black d1 = (black d)(t := black d t \<or> b)"
    using t tree_shapeD(1) [OF d t]
    by (auto simp: fun_eq_iff d1_def tok_def down_def slot_def lww_def black_def nth_list_update)
  show "tree_ok n d1 (report t b a)"
    using ok unfolding tree_ok_def eq by simp
qed

lemma tree_ok_take_down:
  assumes ok: "tree_ok n d a" and d: "tree_shape n d" and t: "t < n" "down d t"
  shows "tree_ok n (take_down t d) a"
proof -
  note I = tree_okD [OF ok] and T = take_down_simps [OF d t]
  have nt: "\<not> tok d t" using I(4) t by blast
  have tv: "t \<notin> visited a" using I(6) t by blast
  have kids: "\<not> tok d u" "\<not> down d u" "u \<notin> visited a" if "is_child n u t" for u
    using that I(7,8) [of u] I(12) [of u] nt tv by (auto simp: is_child_def)
  have "wblack a \<longleftrightarrow> (\<exists>u<n. 0 < u \<and> tok d (pa u) \<and> slot d u \<noteq> - 1 \<and> slot d u \<noteq> 0)"
    using ok by (simp add: tree_ok_def)
  also have "\<dots> \<longleftrightarrow> (\<exists>u<n. 0 < u \<and> tok (take_down t d) (pa u) \<and> slot (take_down t d) u \<noteq> - 1 \<and>
      slot (take_down t d) u \<noteq> 0)"
    unfolding T using nt by auto
  finally have wb: "wblack a \<longleftrightarrow> \<dots>" .
  have A: "\<not> (tok (take_down t d) u \<and> down (take_down t d) u) \<and> u \<notin> visited a"
    if "u < n" "tok (take_down t d) u \<or> down (take_down t d) u" for u
    using that T(3) [of u] T(6) [of u] kids [of u] nt tv I(4-6) [of u] by (auto simp: is_child_def)
  have B: "tok (take_down t d) (pa u) \<and> slot (take_down t d) u = - 1"
    if "u < n" "0 < u" "tok (take_down t d) u \<or> down (take_down t d) u" for u
    using that T(3,6,7) kids [of u] I(7-10) [of u] t by (auto simp: is_child_def)
  have C: "u \<in> visited a" if "u < n" "0 < u" "tok (take_down t d) (pa u)" "slot (take_down t d) u \<noteq> - 1" for u
    using that T(3,7) I(11) [of u] by (auto split: if_splits)
  have D: "u \<in> visited a \<longleftrightarrow> pa u \<in> visited a" if "u < n" "0 < u" "\<not> tok (take_down t d) (pa u)" for u
    using that T(3) I(12) [of u] by auto
  show ?thesis
    unfolding tree_ok_def
  proof (intro conjI)
    show "\<forall>u<n. dirty a u = black (take_down t d) u" using I(1) T(4) by simp
    show "lwhite a = lww (take_down t d)" "visited a \<subseteq> {..<n}" using I(2,3) [OF t(1)] T(5) by simp_all
    show "\<forall>u<n. tok (take_down t d) u \<or> down (take_down t d) u \<longrightarrow>
        \<not> (tok (take_down t d) u \<and> down (take_down t d) u) \<and> u \<notin> visited a"
      using A by blast
  qed (use wb B C D in blast)+
qed

lemma tree_ok_send_up:
  assumes ok: "tree_ok n d a" and d: "tree_shape n d" and t: "t < n" "0 < t" "tok d t"
    and all: "\<And>u. is_child n u t \<Longrightarrow> slot d u \<noteq> - 1"
    and b: "b \<longleftrightarrow> black d t \<or> (\<exists>u. is_child n u t \<and> slot d u \<noteq> 0)"
  defines "d1 \<equiv> send_up t b (set_node t ((tnodes d ! t)\<lparr>processIsBlack := False, hasToken := False\<rparr>) d)"
  shows "tree_shape n d1" "tglobalTerm d1 = tglobalTerm d" "\<not> down d1 t" "tree_ok n d1 (visit t a)"
proof -
  let ?d0 = "set_node t ((tnodes d ! t)\<lparr>processIsBlack := False, hasToken := False\<rparr>) d"
  have s0: "tree_shape n ?d0" by (rule shape_set_node [OF d t(1)]) (use tree_shapeD(2) [OF d t(1)] in simp_all)
  have D0: "tok ?d0 = (tok d)(t := False)" "down ?d0 = down d" "black ?d0 = (black d)(t := False)"
    "lww ?d0 = lww d" "slot ?d0 = slot d"
    using t(1) tree_shapeD(1) [OF d t(1)]
    by (auto simp: fun_eq_iff tok_def down_def slot_def lww_def black_def nth_list_update)
  note S = send_up_simps [OF s0 t(1,2), where b = b, folded d1_def, unfolded D0] and I = tree_okD [OF ok]
  show "tree_shape n d1" "tglobalTerm d1 = tglobalTerm d" using S(1,2) by simp_all
  show "\<not> down d1 t" using S(4) I(4) t by simp
  have pt: "tok d (pa t)" "slot d t = - 1" "pa t \<noteq> t" "pa t < n" using I(7,9) t by auto
  have kv: "u \<in> visited a" "\<not> tok d u" "\<not> down d u" if "is_child n u t" for u
    using that I(9-11) [of u] all [OF that] t(3) by (auto simp: is_child_def)
  have A: "\<not> (tok d1 u \<and> down d1 u) \<and> u \<notin> visited (visit t a)" if "u < n" "tok d1 u \<or> down d1 u" for u
    using that S(3,4) I(4-6) [of u] t by (auto split: if_splits)
  have B: "tok d1 (pa u) \<and> slot d1 u = - 1" if "u < n" "0 < u" "tok d1 u \<or> down d1 u" for u
  proof -
    have "u \<noteq> t" using that(3) S(3,4) I(4) t by auto
    moreover have "pa u \<noteq> t" using that kv [of u] S(3,4) by (auto simp: is_child_def split: if_splits)
    ultimately show ?thesis using that S(3,4,7) I(7-10) [of u] by auto
  qed
  have C: "u \<in> visited (visit t a)" if "u < n" "0 < u" "tok d1 (pa u)" "slot d1 u \<noteq> - 1" for u
    using that S(3,7) I(11) [of u] by (auto split: if_splits)
  have D: "u \<in> visited (visit t a) \<longleftrightarrow> pa u \<in> visited (visit t a)" if u: "u < n" "0 < u" "\<not> tok d1 (pa u)" for u
  proof (cases "pa u = t")
    case True
    then show ?thesis using kv(1) [of u] u by (simp add: is_child_def)
  next
    case False
    then have "\<not> tok d (pa u)" using u(3) S(3) by simp
    moreover from this have "u \<noteq> t" using pt(1) by auto
    ultimately show ?thesis using I(12) [OF u(1,2)] False by simp
  qed
  have "wblack (visit t a) \<longleftrightarrow> (\<exists>u<n. 0 < u \<and> tok d1 (pa u) \<and> slot d1 u \<noteq> - 1 \<and> slot d1 u \<noteq> 0)"
  proof
    assume "wblack (visit t a)"
    then consider u where "u < n" "0 < u" "tok d (pa u)" "slot d u \<noteq> - 1" "slot d u \<noteq> 0" | "black d t"
      using ok I(1) [OF t(1)] by (auto simp: tree_ok_def)
    then show "\<exists>u<n. 0 < u \<and> tok d1 (pa u) \<and> slot d1 u \<noteq> - 1 \<and> slot d1 u \<noteq> 0"
    proof cases
      case (1 u)
      show ?thesis
      proof (cases "pa u = t")
        case True
        then have b using b 1 by (auto simp: is_child_def)
        then show ?thesis using t pt S(3,7) by (intro exI [of _ t]) simp
      next
        case False
        then show ?thesis using 1 pt S(3,7) by (intro exI [of _ u]) auto
      qed
    next
      case 2
      then show ?thesis using t pt S(3,7) b by (intro exI [of _ t]) simp
    qed
  next
    assume "\<exists>u<n. 0 < u \<and> tok d1 (pa u) \<and> slot d1 u \<noteq> - 1 \<and> slot d1 u \<noteq> 0"
    then obtain u where u: "u < n" "0 < u" "tok d1 (pa u)" "slot d1 u \<noteq> - 1" "slot d1 u \<noteq> 0" by blast
    have old: "wblack a" if "v < n" "0 < v" "tok d (pa v)" "slot d v \<noteq> - 1" "slot d v \<noteq> 0" for v
      using ok that by (auto simp: tree_ok_def)
    show "wblack (visit t a)"
    proof (cases "u = t")
      case True
      then have b using u S(7) by (simp split: if_splits)
      then show ?thesis using b I(1) [OF t(1)] old all t(3) by (auto simp: is_child_def)
    next
      case False
      then show ?thesis using old [of u] u S(3,7) by (auto split: if_splits)
    qed
  qed
  note wb = this
  show "tree_ok n d1 (visit t a)"
    unfolding tree_ok_def
  proof (intro conjI)
    show "\<forall>u<n. dirty (visit t a) u = black d1 u" using I(1) S(5) by simp
    show "lwhite (visit t a) = lww d1" "visited (visit t a) \<subseteq> {..<n}" using I(2,3) [OF t(1)] S(6) t(1) by auto
    show "\<forall>u<n. tok d1 u \<or> down d1 u \<longrightarrow> \<not> (tok d1 u \<and> down d1 u) \<and> u \<notin> visited (visit t a)"
      using A by blast
  qed (use wb B C D in blast)+
qed

text \<open>When the master has all tokens, the wave is over.\<close>

lemma tree_all_visited:
  assumes ok: "tree_ok n d a" and m: "tok d 0"
    and all: "\<And>u. is_child n u 0 \<Longrightarrow> slot d u \<noteq> - 1"
  shows "t < n \<Longrightarrow> 0 < t \<Longrightarrow> t \<in> visited a \<and> \<not> tok d t \<and> \<not> down d t"
proof (induction t rule: less_induct)
  case (less t)
  note I = tree_okD [OF ok less.prems(1)]
  have "t \<in> visited a"
  proof (cases "pa t = 0")
    case True
    then show ?thesis using I(11) m all [of t] less.prems by (auto simp: is_child_def)
  next
    case False
    have "pa t < t" using less.prems(2) by auto
    with less False have "pa t \<in> visited a \<and> \<not> tok d (pa t)" by auto
    then show ?thesis using I(12) less.prems(2) by blast
  qed
  then show ?case using I(5,6) by blast
qed

lemma tree_wave_over:
  assumes ok: "tree_ok n d a" and d: "tree_shape n d" and n: "0 < n" and m: "tok d 0"
    and all: "\<And>u. is_child n u 0 \<Longrightarrow> slot d u \<noteq> - 1"
    and b: "b \<longleftrightarrow> black d 0 \<or> (\<exists>u. is_child n u 0 \<and> slot d u \<noteq> 0)"
  defines "th1 \<equiv> (tnodes d ! 0)\<lparr>processIsBlack := False, hasToken := False\<rparr>"
  shows "insert 0 (visited a) = {..<n}" "wblack (visit 0 a) \<longleftrightarrow> b"
    "tree_shape n (set_node 0 th1 d)"
    "tree_shape n (take_down 0 (set_node 0 (th1\<lparr>lastWasWhite := \<not> b, down_token := True\<rparr>) (set_node 0 th1 d)))"
    "tglobalTerm (take_down 0 (set_node 0 (th1\<lparr>lastWasWhite := \<not> b, down_token := True\<rparr>) (set_node 0 th1 d))) = tglobalTerm d"
    "tree_ok n (take_down 0 (set_node 0 (th1\<lparr>lastWasWhite := \<not> b, down_token := True\<rparr>) (set_node 0 th1 d)))
       (finish (visit 0 a))"
proof -
  let ?d2 = "set_node 0 (th1\<lparr>lastWasWhite := \<not> b, down_token := True\<rparr>) (set_node 0 th1 d)"
  note V = tree_all_visited [OF ok m all] and I = tree_okD [OF ok]
  show "insert 0 (visited a) = {..<n}" using V I(3) [OF n] n by fastforce
  have "wblack a \<longleftrightarrow> (\<exists>u<n. 0 < u \<and> tok d (pa u) \<and> slot d u \<noteq> - 1 \<and> slot d u \<noteq> 0)"
    using ok by (simp add: tree_ok_def)
  also have "\<dots> \<longleftrightarrow> (\<exists>u. is_child n u 0 \<and> slot d u \<noteq> 0)"
  proof
    assume "\<exists>u<n. 0 < u \<and> tok d (pa u) \<and> slot d u \<noteq> - 1 \<and> slot d u \<noteq> 0"
    then obtain u where u: "u < n" "0 < u" "tok d (pa u)" "slot d u \<noteq> 0" by blast
    moreover have "pa u < n" using u(1) by auto
    ultimately have "pa u = 0" using V [of "pa u"] by (meson gr0I)
    with u show "\<exists>u. is_child n u 0 \<and> slot d u \<noteq> 0" by (auto simp: is_child_def)
  qed (use all m in \<open>auto simp: is_child_def\<close>)
  finally show wb: "wblack (visit 0 a) \<longleftrightarrow> b" using b I(1) [OF n] by auto
  show s1: "tree_shape n (set_node 0 th1 d)"
    unfolding th1_def by (rule shape_set_node [OF d n]) (use tree_shapeD(2) [OF d n] in simp_all)
  have s2: "tree_shape n ?d2"
    by (rule shape_set_node [OF s1 n])
      (use tree_shapeD(1,2) [OF d n] n in \<open>simp_all add: th1_def\<close>)
  have D: "tok ?d2 u \<longleftrightarrow> u \<noteq> 0 \<and> tok d u" "down ?d2 u \<longleftrightarrow> u = 0 \<or> down d u" "slot ?d2 u = slot d u"
    "black ?d2 u \<longleftrightarrow> u \<noteq> 0 \<and> black d u" "lww ?d2 \<longleftrightarrow> \<not> b" for u
    using n tree_shapeD(1) [OF d n]
    by (simp_all add: th1_def tok_def down_def slot_def lww_def black_def nth_list_update)
  have d0: "down ?d2 0" by (simp add: D)
  note T = take_down_simps [OF s2 n d0]
  show "tree_shape n (take_down 0 ?d2)" "tglobalTerm (take_down 0 ?d2) = tglobalTerm d" using T(1,2) by simp_all
  have tk: "tok (take_down 0 ?d2) u \<longleftrightarrow> u = 0" "down (take_down 0 ?d2) u \<longleftrightarrow> is_child n u 0" if "u < n" for u
    using that T(3) [of u] T(6) [OF that] D V [of u] by auto
  show "tree_ok n (take_down 0 ?d2) (finish (visit 0 a))"
    unfolding tree_ok_def
  proof (intro conjI)
    show "\<forall>u<n. dirty (finish (visit 0 a)) u = black (take_down 0 ?d2) u"
      unfolding T(4) using D(4) I(1) by simp
    show "lwhite (finish (visit 0 a)) = lww (take_down 0 ?d2)" unfolding T(5) using D(5) wb by simp
    show "\<forall>u<n. tok (take_down 0 ?d2) u \<or> down (take_down 0 ?d2) u \<longrightarrow>
        \<not> (tok (take_down 0 ?d2) u \<and> down (take_down 0 ?d2) u) \<and> u \<notin> visited (finish (visit 0 a))"
      using tk by (auto simp: is_child_def)
    show "\<forall>u<n. 0 < u \<longrightarrow> (tok (take_down 0 ?d2) u \<or> down (take_down 0 ?d2) u \<longrightarrow>
          tok (take_down 0 ?d2) (pa u) \<and> slot (take_down 0 ?d2) u = - 1) \<and>
        (tok (take_down 0 ?d2) (pa u) \<and> slot (take_down 0 ?d2) u \<noteq> - 1 \<longrightarrow> u \<in> visited (finish (visit 0 a))) \<and>
        (\<not> tok (take_down 0 ?d2) (pa u) \<longrightarrow>
           (u \<in> visited (finish (visit 0 a)) \<longleftrightarrow> pa u \<in> visited (finish (visit 0 a))))"
    proof (intro allI impI)
      fix u
      assume u: "u < n" "0 < u"
      then have "pa u < n" by auto
      with tk u T(7) [of u] n show "(tok (take_down 0 ?d2) u \<or> down (take_down 0 ?d2) u \<longrightarrow>
          tok (take_down 0 ?d2) (pa u) \<and> slot (take_down 0 ?d2) u = - 1) \<and>
        (tok (take_down 0 ?d2) (pa u) \<and> slot (take_down 0 ?d2) u \<noteq> - 1 \<longrightarrow> u \<in> visited (finish (visit 0 a))) \<and>
        (\<not> tok (take_down 0 ?d2) (pa u) \<longrightarrow>
           (u \<in> visited (finish (visit 0 a)) \<longleftrightarrow> pa u \<in> visited (finish (visit 0 a))))"
        by (simp add: is_child_def)
    qed
    have "\<not> (tok (take_down 0 ?d2) (pa u) \<and> slot (take_down 0 ?d2) u \<noteq> - 1)" if "u < n" "0 < u" for u
    proof -
      have "pa u < n" using that by auto
      then show ?thesis using tk(1) [of "pa u"] T(7) [of u] by auto
    qed
    then show "wblack (finish (visit 0 a)) \<longleftrightarrow> (\<exists>u<n. 0 < u \<and> tok (take_down 0 ?d2) (pa u) \<and>
        slot (take_down 0 ?d2) u \<noteq> - 1 \<and> slot (take_down 0 ?d2) u \<noteq> 0)"
      by auto
  qed simp
qed

lemma shape_term [simp]: "tree_shape n (d\<lparr>tglobalTerm := b\<rparr>) = tree_shape n d"
  by (simp add: tree_shape_def)

lemma take_down_frame:
  "tree_shape n d \<Longrightarrow> t < n \<Longrightarrow> tree_shape n (take_down t d) \<and> tglobalTerm (take_down t d) = tglobalTerm d"
  using take_down_simps(1,2) [of n d t] by (cases "down d t") (simp_all add: take_down_def down_def)

lemma processToken_frame:
  assumes d: "tree_shape n d" and t: "t < n"
  shows "tree_shape n (processToken t d) \<and> (tglobalTerm d \<longrightarrow> tglobalTerm (processToken t d))"
proof -
  have s: "tree_shape n (set_node t th d)"
    if "up_token th = up_token (tnodes d ! t)" "parent th = parent (tnodes d ! t)"
      "parent_offset th = parent_offset (tnodes d ! t)" "child th = child (tnodes d ! t)" for th
    by (rule shape_set_node [OF d t]) (use that tree_shapeD(2) [OF d t] in simp_all)
  have u: "tree_shape n (take_down t (send_up t b e)) \<and> tglobalTerm (take_down t (send_up t b e)) = tglobalTerm e"
    if "tree_shape n e" "t \<noteq> 0" for b e
    using take_down_frame [OF send_up_simps(1) [OF that(1) t, of b] t] send_up_simps(2) [OF that(1) t, of b] that(2)
    by simp
  show ?thesis
    using take_down_frame [OF d t] take_down_frame [OF s t] u [OF s] s
    by (auto simp: processToken_def Let_def set_node_twice split: prod.splits)
qed

lemma tree_rel_call:
  assumes rel: "tree_rel n d a" and t: "t < n"
  shows "\<exists>a'. tree_rel n (tree_localTermination t b d) a' \<and> wave_call n t b a a'"
proof -
  define d1 where "d1 = set_node t ((tnodes d ! t)\<lparr>processIsBlack := processIsBlack (tnodes d ! t) \<or> b\<rparr>) d"
  let ?d = "tree_localTermination t b d"
  have eq: "?d = processToken t d1" by (simp add: tree_localTermination_def d1_def Let_def)
  have shape: "tree_shape n d" and tm: "wterm a \<longleftrightarrow> tglobalTerm d" using rel by (simp_all add: tree_rel_def)
  have s1: "tree_shape n d1"
    unfolding d1_def by (rule shape_set_node [OF shape t]) (use tree_shapeD(2) [OF shape t] in simp_all)
  have pt: "pa t < n" using t by auto
  show ?thesis
  proof (cases "tglobalTerm d")
    case True
    have "tree_shape n ?d \<and> tglobalTerm ?d"
      using processToken_frame [OF s1 t] True by (simp add: eq d1_def)
    then have "tree_rel n ?d (a\<lparr>wterm := True\<rparr>)" by (simp add: tree_rel_def)
    moreover have "wave_call n t b a (a\<lparr>wterm := True\<rparr>)" using True tm by (simp add: wave_call_def)
    ultimately show ?thesis by blast
  next
    case False
    then have "tree_ok n d a" using rel by (simp add: tree_rel_def)
    note R = tree_ok_report [OF this shape t, of b, folded d1_def]
    let ?a1 = "report t b a"
    have tm1: "\<not> wterm ?a1" "\<not> tglobalTerm d1" using False tm R(2) by simp_all
    note I = tree_okD [OF R(3) t] and Co = collect_eq [OF s1 t]
    let ?th = "tnodes d1 ! t" and ?hb = "collect (tnodes d1 ! t)"
    have pT: "processToken t d1 =
        (if fst ?hb then
           if t = 0 then
             if lww d1 \<and> \<not> snd ?hb
             then (set_node t (?th\<lparr>processIsBlack := False, hasToken := False\<rparr>) d1)\<lparr>tglobalTerm := True\<rparr>
             else take_down t (set_node t (?th\<lparr>processIsBlack := False, hasToken := False,
                     lastWasWhite := \<not> snd ?hb, down_token := True\<rparr>) d1)
           else take_down t (send_up t (snd ?hb) (set_node t (?th\<lparr>processIsBlack := False, hasToken := False\<rparr>) d1))
         else take_down t d1)"
      by (auto simp: processToken_def Let_def lww_def set_node_twice split: prod.splits)
    show ?thesis
    proof (cases "fst ?hb")
      case no: False
      have "tree_ok n ?d ?a1 \<and> tree_shape n ?d \<and> \<not> tglobalTerm ?d"
      proof (cases "down d1 t")
        case True
        then show ?thesis
          using tree_ok_take_down [OF R(3) s1 t True] take_down_simps(1,2) [OF s1 t True] no tm1(2)
          by (simp add: eq pT)
      next
        case False
        then have "take_down t d1 = d1" by (simp add: take_down_def down_def)
        then show ?thesis using no R(3) s1 tm1(2) by (simp add: eq pT)
      qed
      then have "tree_rel n ?d ?a1" using tm1(1) by (simp add: tree_rel_def)
      then show ?thesis by (auto simp: wave_call_def)
    next
      case yes: True
      then have tk: "tok d1 t" and all: "\<And>u. is_child n u t \<Longrightarrow> slot d1 u \<noteq> - 1"
        and b': "snd ?hb \<longleftrightarrow> black d1 t \<or> (\<exists>u. is_child n u t \<and> slot d1 u \<noteq> 0)" using Co by auto
      have tv: "t \<notin> visited a" using I(5) tk by simp
      show ?thesis
      proof (cases "t = 0")
        case False
        then have t0: "0 < t" by simp
        note S = tree_ok_send_up [OF R(3) s1 t t0 tk all b']
        let ?d2 = "send_up t (snd ?hb) (set_node t (?th\<lparr>processIsBlack := False, hasToken := False\<rparr>) d1)"
        have "take_down t ?d2 = ?d2" using S(3) by (simp add: take_down_def down_def)
        then have "?d = ?d2" using yes False by (simp add: eq pT)
        then have "tree_rel n ?d (visit t ?a1)" using S(1,2,4) tm1 by (simp add: tree_rel_def)
        then show ?thesis using tv by (auto simp: wave_call_def)
      next
        case True
        have n: "0 < n" using t by simp
        note W = tree_wave_over [OF R(3) s1 n tk [unfolded True] all [unfolded True] b' [unfolded True],
            unfolded True set_node_twice]
        note eq0 = eq [unfolded True] pT [unfolded True] and yes0 = yes [unfolded True]
        have "tree_rel n (tree_localTermination 0 b d) (finish (visit 0 ?a1))"
        proof (cases "lww d1 \<and> \<not> snd (collect (tnodes d1 ! 0))")
          case fin: True
          have "wterm (finish (visit 0 ?a1))" using fin W(2) I(2) True by simp
          moreover have "tglobalTerm (tree_localTermination 0 b d)" "tree_shape n (tree_localTermination 0 b d)"
            unfolding eq0 using fin yes0 W(3) by simp_all
          ultimately show ?thesis by (simp add: tree_rel_def)
        next
          case go: False
          have "\<not> wterm (finish (visit 0 ?a1))" using go W(2) I(2) True tm1(1) by simp
          then show ?thesis unfolding tree_rel_def eq0 using go yes0 True W(4-6) tm1(2) by auto
        qed
        moreover have "wave_call n 0 b a (finish (visit 0 (report 0 b a)))"
          using W(1) tv True by (simp add: wave_call_def)
        ultimately show ?thesis using True by auto
      qed
    qed
  qed
qed

section \<open>Initialisation and the interface\<close>

lemma fold_tree_initializeThread:
  "k \<le> length hs \<Longrightarrow> fold (tree_initializeThread n) [0..<k] \<lparr>tnodes = hs, tglobalTerm = g\<rparr> =
     \<lparr>tnodes = map (tree_holder n) [0..<k] @ drop k hs, tglobalTerm = g \<and> k = 0\<rparr>"
proof (induction k)
  case (Suc k)
  then show ?case
    by (auto simp: tree_initializeThread_def list_update_append Cons_nth_drop_Suc [symmetric])
qed simp

lemma tree_rel_start:
  assumes "0 < length (tnodes d)"
  shows "\<exists>a. tree_rel (length (tnodes d)) (tree_init d) a \<and> wave_start (length (tnodes d)) a"
proof -
  let ?n = "length (tnodes d)"
  let ?a = "\<lparr>dirty = \<lambda>_. True, visited = {}, wblack = False, lwhite = False, wterm = False\<rparr>"
  have eq: "tree_init d = \<lparr>tnodes = map (tree_holder ?n) [0..<?n], tglobalTerm = False\<rparr>"
    using assms fold_tree_initializeThread [of ?n "tnodes d" ?n "tglobalTerm d"]
    by (cases d) (simp add: tree_init_def)
  have nth: "tnodes (tree_init d) ! t = tree_holder ?n t" if "t < ?n" for t using that by (simp add: eq)
  have "tree_shape ?n (tree_init d)" using nth by (simp add: tree_shape_def eq) (simp add: tree_holder_def)
  moreover have "tree_ok ?n (tree_init d) ?a"
  proof -
    have "pa t < ?n" if "t < ?n" for t using that by auto
    then show ?thesis using nth assms
      by (auto simp: tree_ok_def tok_def down_def black_def lww_def tree_holder_def)
  qed
  ultimately have "tree_rel ?n (tree_init d) ?a" by (simp add: tree_rel_def eq)
  moreover have "wave_start ?n ?a" by (simp add: wave_start_def)
  ultimately show ?thesis by blast
qed

interpretation tree: two_pass_detector "Suc (length hs)" tree_localTermination tglobalTerm
    "tree_init \<lparr>tnodes = h # hs, tglobalTerm = g\<rparr>" "tree_rel (Suc (length hs))" for h hs g
proof unfold_locales
  show "\<exists>a. tree_rel (Suc (length hs)) (tree_init \<lparr>tnodes = h # hs, tglobalTerm = g\<rparr>) a \<and>
      wave_start (Suc (length hs)) a"
    using tree_rel_start [of "\<lparr>tnodes = h # hs, tglobalTerm = g\<rparr>"] by simp
  show "\<exists>a'. tree_rel (Suc (length hs)) (tree_localTermination t b d) a' \<and> wave_call (Suc (length hs)) t b a a'"
    if "tree_rel (Suc (length hs)) d a" "t < Suc (length hs)" for d a t b
    using that by (rule tree_rel_call)
  show "tglobalTerm d \<longleftrightarrow> wterm a" if "tree_rel (Suc (length hs)) d a" for d a
    using that by (simp add: tree_rel_def)
qed simp

section \<open>Properties\<close>

text \<open>
  The tree detector keeps the contract of the ring: when it reports global termination and the scheduler is thorough, no
  task is left, no thread processes one and none has work to report.
\<close>

theorem tree_termination_safe:
  assumes "length (tnodes d0) = n" "0 < n"
    and "work_reach n W tree_localTermination tglobalTerm (tree_init d0) (s, d)" "tglobalTerm d" "thorough n W"
  shows "shared s = 0 \<and> (\<forall>t<n. own s t = 0 \<and> wpcs s t \<noteq> Processing \<and> \<not> didWork s t)"
proof -
  obtain h hs where d0: "d0 = \<lparr>tnodes = h # hs, tglobalTerm = tglobalTerm d0\<rparr>" "n = Suc (length hs)"
    using assms(1,2) by (cases d0; cases "tnodes d0") auto
  have "quiet n s"
    using tree.stop_means_quiet [of hs W h "tglobalTerm d0" s d] assms(3-5) d0(2) by (simp flip: d0(1))
  then show ?thesis by (simp add: quiet_def some_task_def)
qed

text \<open>Three threads with nothing to do.\<close>

definition tree3 :: tree_det where
  "tree3 = tree_init \<lparr>tnodes = replicate 3 (tree_holder 3 1), tglobalTerm = True\<rparr>"

definition tree3_work :: workers where
  "tree3_work = \<lparr>wpcs = \<lambda>_. Popping, didWork = \<lambda>_. False, shared = 0, own = \<lambda>_. 0\<rparr>"

fun tree_goes_on :: "nat list \<Rightarrow> tree_det \<Rightarrow> bool" where
  "tree_goes_on [] d \<longleftrightarrow> True"
| "tree_goes_on (t # ts) d \<longleftrightarrow>
     t < 3 \<and> \<not> tglobalTerm (tree_localTermination t False d) \<and> tree_goes_on ts (tree_localTermination t False d)"

abbreviation "tree3_reach \<equiv> work_reach 3 exact_scheduler tree_localTermination tglobalTerm tree3"

lemma tree3_idle_rounds:
  "tree3_reach (tree3_work, d) \<Longrightarrow> tree_goes_on ts d \<Longrightarrow>
   tree3_reach (tree3_work, fold (\<lambda>t. tree_localTermination t False) ts d)"
proof (induction ts arbitrary: d)
  case (Cons t ts)
  then have "tree3_reach (tree3_work, tree_localTermination t False d)"
    using fruitless_round [OF Cons.prems(1), of t] by (simp add: tree3_work_def fun_upd_idem)
  with Cons show ?case by simp
qed simp

definition tree3_end :: tree_det where
  "tree3_end = fold (\<lambda>t. tree_localTermination t False)
     [0, 1, 2, 1, 2, 0, 1, 2, 1, 2, 0, 1, 2, 1, 2, 0] tree3"

lemma tree3_terminates: "\<exists>s. tree3_reach (s, tree3_end) \<and> tglobalTerm tree3_end"
proof -
  let ?ts = "[0, 1, 2, 1, 2, 0, 1, 2, 1, 2, 0, 1, 2, 1, 2] :: nat list"
  let ?d = "fold (\<lambda>t. tree_localTermination t False) ?ts tree3"
  have "tree3_reach (tree3_work, tree3)"
    by (rule work_reach.start) (simp add: work_start_def tree3_work_def)
  moreover have "tree_goes_on ?ts tree3" by code_simp
  ultimately have r: "tree3_reach (tree3_work, ?d)" by (rule tree3_idle_rounds)
  have r2: "tree3_reach (at 0 Calling tree3_work, ?d)"
    by (rule work_reach.step [OF r], rule work_step.pop_fails) (simp_all add: tree3_work_def)
  have "\<exists>s. tree3_reach (s, tree_localTermination 0 (didWork (at 0 Calling tree3_work) 0) ?d)"
    by (rule exI, rule work_reach.step [OF r2], rule work_step.call) (simp_all add: tree3_work_def)
  moreover have "tglobalTerm tree3_end" by code_simp
  ultimately show ?thesis by (simp add: tree3_end_def tree3_work_def)
qed

theorem tree_termination_safe_witness:
  "\<exists>s. tree3_reach (s, tree3_end) \<and> tglobalTerm tree3_end \<and> shared s = 0 \<and> (\<forall>t<3. own s t = 0)"
proof -
  obtain s where s: "tree3_reach (s, tree3_end)" "tglobalTerm tree3_end" using tree3_terminates by blast
  have "shared s = 0 \<and> (\<forall>t<3. own s t = 0 \<and> wpcs s t \<noteq> Processing \<and> \<not> didWork s t)"
    by (rule tree_termination_safe [OF _ _ s(1) [unfolded tree3_def] s(2) exact_thorough]) simp_all
  with s show ?thesis by blast
qed

end
