(* ===== verification/Ranges.thy ===== *)
theory Ranges
  imports MQProbProb
begin

text \<open>
  Ranges of tasks: the helpers of \<open>gstl.h\<close> and \<open>StandardRange\<close> of \<open>Runtime/Range.h\<close>, by
  which every thread finds its share of the initial tasks, and \<open>push_initial\<close> of a scheduler on
  all threads. A position in the range is a number; the block arithmetic is that of \<open>unsigned int\<close>.
\<close>

section \<open>The helpers\<close>

text \<open>
  \<open>safe_advance\<close> for random access iterators, on positions, and for input iterators, on the elements that
  remain.
\<close>

definition safe_advance_random :: "int \<Rightarrow> int \<Rightarrow> int \<Rightarrow> int" where
  "safe_advance_random b e n = (if e - b < n then b + n else e)"

fun safe_advance_input :: "'a list \<Rightarrow> int \<Rightarrow> 'a list" where
  "safe_advance_input [] n = []"
| "safe_advance_input (x # xs) n = (if n \<noteq> 0 then safe_advance_input xs (n - 1) else x # xs)"

definition split_range :: "nat \<Rightarrow> nat \<Rightarrow> nat" where
  "split_range b e = b + (e - b + 1) div 2"

definition block_range :: "nat \<Rightarrow> nat \<Rightarrow> u32 \<Rightarrow> u32 \<Rightarrow> nat \<times> nat" where
  "block_range b e i num =
     (let dist = of_nat (e - b) :: u32;
          numper = max ((dist + num - 1) div num) 1;
          A = min (numper * i) dist;
          B = min (numper * (i + 1)) dist;
          b1 = b + unat A
      in (b1, if dist \<noteq> B then b1 + unat (B - A) else e))"

text \<open>\<open>StandardRange\<close>: the bounds; thread id and number of threads are arguments.\<close>

record StandardRange =
  ii :: nat
  ei :: nat

definition range_block_pair :: "u32 \<Rightarrow> u32 \<Rightarrow> StandardRange \<Rightarrow> nat \<times> nat" where
  "range_block_pair tid activeThreads r = block_range (ii r) (ei r) tid activeThreads"

definition range_local_pair :: "u32 \<Rightarrow> u32 \<Rightarrow> StandardRange \<Rightarrow> nat \<times> nat" where
  "range_local_pair tid activeThreads r = range_block_pair tid activeThreads r"

section \<open>The blocks\<close>

definition per_block :: "nat \<Rightarrow> nat \<Rightarrow> nat" where
  "per_block k m = max ((k + m - 1) div m) 1"

lemma per_block_covers: "0 < m \<Longrightarrow> k \<le> per_block k m * m"
proof -
  assume m: "0 < m"
  have "k \<le> (k + m - 1) div m * m"
    using m div_mult_mod_eq [of "k + m - 1" m] mod_less_divisor [OF m, of "k + m - 1"] by linarith
  also have "\<dots> \<le> per_block k m * m" by (simp add: per_block_def)
  finally show ?thesis .
qed

lemma per_block_bound: "per_block k m * m \<le> max (k + m - 1) m"
proof -
  have "(k + m - 1) div m * m \<le> k + m - 1" by (rule div_times_less_eq_dividend)
  then show ?thesis unfolding per_block_def nat_mult_max_left by (intro max.mono) simp_all
qed

text \<open>Without wrap-around the words compute the same numbers as \<open>nat\<close>.\<close>

lemma block_range_nat:
  assumes fits: "e - b + unat num \<le> 2 ^ 32" and num: "0 < num" and i: "i < num"
  defines "k \<equiv> e - b" and "p \<equiv> per_block (e - b) (unat num)"
  shows "block_range b e i num =
    (b + min (p * unat i) k, if k \<le> p * (unat i + 1) then e else b + p * (unat i + 1))"
proof -
  let ?m = "unat num" and ?dist = "of_nat (e - b) :: u32"
  let ?numper = "max ((?dist + num - 1) div num) 1 :: u32"
  have m: "0 < ?m" using num by (simp add: unat_gt_0 word_gt_0)
  have k: "k < 2 ^ 32" using fits m by (simp add: k_def)
  have dist: "unat ?dist = k" using k by (simp add: k_def take_bit_nat_eq_self unat_of_nat)
  have sum: "unat (?dist + num - 1) = k + ?m - 1"
  proof -
    have eq: "?dist + num - 1 = of_nat (k + ?m - 1)" using m by (simp add: k_def of_nat_diff)
    show ?thesis unfolding eq unat_of_nat using fits m by (simp add: k_def)
  qed
  have one: "unat (1 :: u32) = 1" by simp
  have numper: "unat ?numper = p"
  proof -
    have "unat ?numper = max (unat ((?dist + num - 1) div num)) 1"
      by (simp add: max_def word_le_nat_alt)
    also have "\<dots> = max ((k + ?m - 1) div ?m) 1" by (simp only: unat_div sum)
    finally show ?thesis by (simp add: p_def per_block_def k_def)
  qed
  have "?m < 2 ^ LENGTH(32)" by (rule unsigned_less)
  then have "?m < 2 ^ 32" by simp
  moreover have "k + ?m - 1 < 2 ^ 32" using fits m by (simp add: k_def)
  ultimately have pm: "p * ?m < 2 ^ 32"
    unfolding p_def k_def [symmetric] by (intro le_less_trans [OF per_block_bound]) simp
  have im: "unat i < ?m" using i by (simp add: word_less_nat_alt)
  have i1: "unat (i + 1) = unat i + 1" using im \<open>?m < 2 ^ 32\<close> by (simp add: unat_word_ariths(1))
  have le: "p * (unat i + 1) \<le> p * ?m" "p * unat i \<le> p * ?m"
    using im by (intro mult_le_mono2; simp)+
  have lt: "p * unat i < 2 ^ 32" "p * (unat i + 1) < 2 ^ 32"
    using le_less_trans [OF le(2) pm] le_less_trans [OF le(1) pm] by blast+
  have "unat (?numper * i) = (p * unat i) mod 2 ^ 32"
    by (simp only: unat_word_ariths(2) numper) simp
  then have A: "unat (?numper * i) = p * unat i" using mod_less [OF lt(1)] by (simp only:)
  have "unat (?numper * (i + 1)) = (p * (unat i + 1)) mod 2 ^ 32"
    by (simp only: unat_word_ariths(2) numper i1) simp
  then have B: "unat (?numper * (i + 1)) = p * (unat i + 1)" using mod_less [OF lt(2)] by (simp only:)
  have umin: "unat (min x y) = min (unat x) (unat y)" for x y :: u32 by (simp add: min_def word_le_nat_alt)
  have uA: "unat (min (?numper * i) ?dist) = min (p * unat i) k"
    and uB: "unat (min (?numper * (i + 1)) ?dist) = min (p * (unat i + 1)) k"
    by (simp_all only: umin A B dist)
  have "p * unat i \<le> p * (unat i + 1)" by simp
  then have AB: "min (?numper * i) ?dist \<le> min (?numper * (i + 1)) ?dist"
    unfolding word_le_nat_alt uA uB by (intro min.mono) simp_all
  have ne: "?dist \<noteq> min (?numper * (i + 1)) ?dist \<longleftrightarrow> p * (unat i + 1) < k"
    unfolding word_unat_eq_iff uB dist by auto
  have "block_range b e i num =
      (b + min (p * unat i) k,
       if p * (unat i + 1) < k
       then b + min (p * unat i) k + (min (p * (unat i + 1)) k - min (p * unat i) k) else e)"
    by (simp only: block_range_def Let_def ne unat_sub [OF AB] uA uB)
  then show ?thesis by (simp add: not_le [symmetric] min_def)
qed

text \<open>The elements of the share of thread \<open>i\<close>.\<close>

definition local_share :: "u32 \<Rightarrow> u32 \<Rightarrow> 'a list \<Rightarrow> 'a list" where
  "local_share i num xs =
     (case range_local_pair i num \<lparr>ii = 0, ei = length xs\<rparr> of (b, e) \<Rightarrow> take (e - b) (drop b xs))"

lemma local_share_eq:
  assumes "length xs + unat num \<le> 2 ^ 32" "i < num"
  defines "p \<equiv> per_block (length xs) (unat num)"
  shows "local_share i num xs =
    take (min (p * (unat i + 1)) (length xs) - min (p * unat i) (length xs)) (drop (min (p * unat i) (length xs)) xs)"
proof -
  have "0 < num" using assms(2) by (simp add: word_less_nat_alt)
  then show ?thesis
    using block_range_nat [of "length xs" 0 num i] assms
    by (auto simp: local_share_def range_local_pair_def range_block_pair_def min_def)
qed

lemma shares_prefix:
  assumes "length xs + unat num \<le> 2 ^ 32" "m \<le> unat num"
  shows "concat (map (\<lambda>i. local_share (of_nat i) num xs) [0..<m]) =
    take (min (per_block (length xs) (unat num) * m) (length xs)) xs"
  using assms(2)
proof (induction m)
  case (Suc m)
  let ?p = "per_block (length xs) (unat num)"
  let ?A = "min (?p * m) (length xs)" and ?E = "min (?p * Suc m) (length xs)"
  have m: "m < 2 ^ 32" using Suc.prems assms(1) by simp
  then have um: "unat (of_nat m :: u32) = m" by (simp add: unat_of_nat)
  with Suc.prems have "(of_nat m :: u32) < num" by (simp add: word_less_nat_alt)
  from local_share_eq [OF assms(1) this] have "local_share (of_nat m) num xs = take (?E - ?A) (drop ?A xs)"
    by (simp only: um Suc_eq_plus1)
  moreover have "?A \<le> ?E" by (simp add: min.coboundedI1 min_le_iff_disj)
  ultimately have "take ?A xs @ local_share (of_nat m) num xs = take ?E xs"
    using take_add [of ?A "?E - ?A" xs] by simp
  with Suc show ?case by simp
qed simp

section \<open>Initial work\<close>

text \<open>
  \<open>push_initial\<close> of \<open>MultiQueueProbProb\<close>: the calling thread pushes its share. All threads do so, here
  one after the other; each has its own generator and current queues.
\<close>

definition MultiQueueProbProb_push_initial where
  "MultiQueueProbProb_push_initial B nQ c tid activeThreads hs t xs =
     MultiQueueProbProb_push B nQ c hs t (local_share tid activeThreads xs)"

fun push_initial_all ::
    "('a, 'h) heap_ops \<Rightarrow> nat \<Rightarrow> nat \<Rightarrow> u32 \<Rightarrow> 'a list \<Rightarrow> (nat \<times> mq_thread) list \<Rightarrow> 'h HeapWithLock list \<Rightarrow>
     'h HeapWithLock list option" where
  "push_initial_all B nQ c num xs [] hs = Some hs"
| "push_initial_all B nQ c num xs ((i, t) # ts) hs =
     (case MultiQueueProbProb_push_initial B nQ c (of_nat i) num hs t xs of
        None \<Rightarrow> None
      | Some (hs1, t1, n) \<Rightarrow> push_initial_all B nQ c num xs ts hs1)"

context task_heap
begin

lemma push_initial_all_Some:
  assumes "push_initial_all B (length hs) c num xs its hs = Some hs'"
    and "mq_ok B hinv hbag hs" "0 < length hs" "\<forall>(i, t) \<in> set its. thread_ok (length hs) t"
  shows "mq_ok B hinv hbag hs' \<and>
    mq_bag hbag hs' = mq_bag hbag hs + mset (concat (map (\<lambda>(i, t). local_share (of_nat i) num xs) its))"
  using assms
proof (induction its arbitrary: hs)
  case (Cons it its)
  obtain i t where it: "it = (i, t)" by (cases it)
  let ?es = "local_share (of_nat i) num xs"
  from Cons.prems(1) it obtain hs1 t1 n
    where p: "prob_push B (rand_heap (length hs)) stay c hs t ?es = Some (hs1, t1, n)"
      and rest: "push_initial_all B (length hs) c num xs its hs1 = Some hs'"
    by (auto simp: MultiQueueProbProb_push_initial_def MultiQueueProbProb_push_def split: option.splits)
  have t: "thread_ok (length hs) t" using Cons.prems(4) it by auto
  note P = prob_push_Some [OF p rand_heap_below [OF Cons.prems(3)] stay_keeps Cons.prems(2) t]
  then have len: "length hs1 = length hs" by (simp add: others_kept_def)
  show ?case
    using Cons.IH [of hs1] P rest len Cons.prems(3,4) it by (simp add: ac_simps)
qed simp

end

section \<open>Properties\<close>

text \<open>
  The shares of the threads, in the order of their ids, are consecutive pieces that together are the
  range, and no share is longer than the range divided by the number of threads, rounded up
  (or one). The length of the range and the number of threads together may be at most \<open>2 ^ 32\<close>.
\<close>

theorem local_pair_partitions:
  assumes "0 < num" "length xs + unat num \<le> 2 ^ 32"
  shows "concat (map (\<lambda>i. local_share (of_nat i) num xs) [0..<unat num]) = xs \<and>
    (\<forall>i<num. length (local_share i num xs) \<le> max ((length xs + unat num - 1) div unat num) 1)"
proof -
  have m: "0 < unat num" using assms(1) by (simp add: word_less_nat_alt)
  have "length (local_share i num xs) \<le> per_block (length xs) (unat num)" if "i < num" for i
    unfolding local_share_eq [OF assms(2) that] by (simp add: min_def) linarith
  then show ?thesis
    using shares_prefix [OF assms(2) order_refl] per_block_covers [OF m, of "length xs"]
    by (simp add: per_block_def)
qed

theorem local_pair_partitions_witness:
  "concat (map (\<lambda>i. local_share (of_nat i) 3 [10, 20, 30, 40, 50 :: nat]) [0..<3]) = [10, 20, 30, 40, 50] \<and>
   local_share 1 3 [10, 20, 30, 40, 50 :: nat] = [30, 40]"
proof -
  have "local_share 1 3 [10, 20, 30, 40, 50 :: nat] = [30, 40]" by code_simp
  then show ?thesis using local_pair_partitions [of 3 "[10, 20, 30, 40, 50 :: nat]"] by simp
qed

text \<open>
  Beyond that bound elements are lost: with two threads and \<open>2 ^ 32 - 1\<close> elements the rounding up
  wraps around, and the shares are the first element and the second.
\<close>

theorem block_range_overflow:
  "block_range 0 (2 ^ 32 - 1) 0 2 = (0, 1) \<and> block_range 0 (2 ^ 32 - 1) 1 2 = (1, 2)"
  by (simp add: block_range_def Let_def)

text \<open>
  \<open>safe_advance\<close> of a random access iterator runs past the end when the range is
  shorter than the distance, and to the end when it is longer; for an input iterator it is as documented.
\<close>

theorem safe_advance_reversed:
  "(e - b < n \<longrightarrow> e < safe_advance_random b e n) \<and>
   (n < e - b \<longrightarrow> safe_advance_random b e n \<noteq> b + n) \<and>
   (0 \<le> n \<longrightarrow> safe_advance_input xs n = drop (nat n) xs)"
proof -
  have "safe_advance_input xs (int k) = drop k xs" for k
    by (induction xs arbitrary: k) (auto simp: drop_Cons split: nat.split)
  then have "0 \<le> n \<longrightarrow> safe_advance_input xs n = drop (nat n) xs" by (metis int_nat_eq)
  then show ?thesis by (auto simp: safe_advance_random_def)
qed

theorem safe_advance_reversed_witness:
  "safe_advance_random 0 3 5 = 5 \<and> safe_advance_random 0 9 5 = 9 \<and> safe_advance_input [1, 2, 3 :: nat] 2 = [3]"
  using safe_advance_reversed [of 3 0 5 "[] :: nat list"] safe_advance_reversed [of 0 0 2 "[1, 2, 3 :: nat]"]
  by (simp add: numeral_2_eq_2 safe_advance_random_def)

text \<open>
  C24: When \<open>push_initial\<close> has returned on every thread of a loop, whichever heaps the draws chose, the
  scheduler has got exactly the tasks of the initial range, each once.
\<close>

theorem push_initial_complete:
  assumes "task_heap cmp B hinv hbag" "mq_ok B hinv hbag hs" "0 < length hs"
    and "0 < num" "length xs + unat num \<le> 2 ^ 32"
    and "length ts = unat num" "\<forall>t \<in> set ts. thread_ok (length hs) t"
    and "push_initial_all B (length hs) c num xs (zip [0..<unat num] ts) hs = Some hs'"
  shows "mq_ok B hinv hbag hs' \<and> mq_bag hbag hs' = mq_bag hbag hs + mset xs"
proof -
  have "map (\<lambda>(i, t). local_share (of_nat i) num xs) (zip [0..<unat num] ts) =
      map (\<lambda>i. local_share (of_nat i) num xs) [0..<unat num]"
    using assms(6) by (auto intro!: nth_equalityI)
  moreover have "\<forall>(i, t) \<in> set (zip [0..<unat num] ts). thread_ok (length hs) t"
    using assms(7) by (auto dest: set_zip_rightD)
  ultimately show ?thesis
    using task_heap.push_initial_all_Some [OF assms(1,8,2,3)] shares_prefix [OF assms(5) order_refl]
      per_block_covers [of "unat num" "length xs"] assms(4) by (simp add: word_less_nat_alt)
qed

theorem push_initial_complete_witness:
  "\<exists>hs'. push_initial_all req_heap 2 8 2 [UpdateRequest 1 4, UpdateRequest 2 3, UpdateRequest 5 5]
       (zip [0..<2] [new_thread, new_thread]) (req_heaps []) = Some hs' \<and>
     mq_bag req_bag hs' = mset [UpdateRequest 1 4, UpdateRequest 2 3, UpdateRequest 5 5]"
proof -
  let ?xs = "[UpdateRequest 1 4, UpdateRequest 2 3, UpdateRequest 5 5]"
  have "map_option (\<lambda>_. ()) (push_initial_all req_heap 2 8 2 ?xs
      (zip [0..<2] [new_thread, new_thread]) (req_heaps [])) = Some ()" by code_simp
  then obtain hs' where r: "push_initial_all req_heap 2 8 2 ?xs
      (zip [0..<2] [new_thread, new_thread]) (req_heaps []) = Some hs'" by auto
  have "mq_bag req_bag hs' = mq_bag req_bag (req_heaps []) + mset ?xs"
    using push_initial_complete [OF req.task_heap_axioms req_heaps_ok(1), of "[]" 2 ?xs "[new_thread, new_thread]" 8 hs']
      r req_heaps_ok(2,3) [of "[]"] new_thread_ok by simp
  with r req_heaps_ok(2,3) [of "[]"] show ?thesis by auto
qed

end
