(* ===== verification/Barriers.thy ===== *)
theory Barriers
  imports Prelude
begin

text \<open>
  \<open>MCSBarrier\<close> of \<open>src/Barrier.cpp\<close>: threads report up a tree of arity four and are released
  down a tree of arity two. Every access to the flags is a step; the history counters
  \<open>arrived\<close> and \<open>released\<close> count how often a thread has entered and left \<open>wait\<close>. Spinning without
  success changes nothing and is no step, except that the first loop starts again at its first flag.
\<close>

section \<open>State and steps\<close>

text \<open>The points of \<open>wait\<close> before each access; the argument is a loop index.\<close>

datatype bpc = Outside | Children nat | Reset nat | Signal | Spin | Wake nat | Flip

record mcs =
  bpcs :: "nat \<Rightarrow> bpc"
  childnotready :: "nat \<Rightarrow> nat \<Rightarrow> bool"
  parentsense :: "nat \<Rightarrow> bool"
  sense :: "nat \<Rightarrow> bool"
  arrived :: "nat \<Rightarrow> nat"
  released :: "nat \<Rightarrow> nat"

definition havechild :: "nat \<Rightarrow> nat \<Rightarrow> nat \<Rightarrow> bool" where
  "havechild P i j \<longleftrightarrow> 4 * i + j + 1 < P"

text \<open>The flags as \<open>_reinit\<close> leaves them.\<close>

definition mcs_init :: "nat \<Rightarrow> mcs" where
  "mcs_init P =
     \<lparr>bpcs = \<lambda>_. Outside, childnotready = havechild P, parentsense = \<lambda>_. False, sense = \<lambda>_. True,
      arrived = \<lambda>_. 0, released = \<lambda>_. 0\<rparr>"

definition bgoto :: "nat \<Rightarrow> bpc \<Rightarrow> mcs \<Rightarrow> mcs" where
  "bgoto t p s = s\<lparr>bpcs := (bpcs s)(t := p)\<rparr>"

definition set_cnr :: "nat \<Rightarrow> nat \<Rightarrow> bool \<Rightarrow> mcs \<Rightarrow> mcs" where
  "set_cnr i j b s = s\<lparr>childnotready := (childnotready s)(i := (childnotready s i)(j := b))\<rparr>"

inductive mcs_step :: "nat \<Rightarrow> mcs \<Rightarrow> mcs \<Rightarrow> bool" for P where
  enter: "t < P \<Longrightarrow> bpcs s t = Outside \<Longrightarrow>
    mcs_step P s (bgoto t (Children 0) (s\<lparr>arrived := (arrived s)(t := arrived s t + 1)\<rparr>))"
| child_wait: "t < P \<Longrightarrow> bpcs s t = Children j \<Longrightarrow> childnotready s t j \<Longrightarrow>
    mcs_step P s (bgoto t (Children 0) s)"
| child_ready: "t < P \<Longrightarrow> bpcs s t = Children j \<Longrightarrow> \<not> childnotready s t j \<Longrightarrow>
    mcs_step P s (bgoto t (if j = 3 then Reset 0 else Children (j + 1)) s)"
| reset: "t < P \<Longrightarrow> bpcs s t = Reset j \<Longrightarrow>
    mcs_step P s (bgoto t (if j = 3 then Signal else Reset (j + 1)) (set_cnr t j (havechild P t j) s))"
| signal_root: "t < P \<Longrightarrow> bpcs s t = Signal \<Longrightarrow> t = 0 \<Longrightarrow> mcs_step P s (bgoto t (Wake 0) s)"
| signal: "t < P \<Longrightarrow> bpcs s t = Signal \<Longrightarrow> t \<noteq> 0 \<Longrightarrow>
    mcs_step P s (bgoto t Spin (set_cnr ((t - 1) div 4) ((t - 1) mod 4) False s))"
| spin: "t < P \<Longrightarrow> bpcs s t = Spin \<Longrightarrow> parentsense s t = sense s t \<Longrightarrow> mcs_step P s (bgoto t (Wake 0) s)"
| wake: "t < P \<Longrightarrow> bpcs s t = Wake k \<Longrightarrow>
    mcs_step P s (bgoto t (if k = 1 then Flip else Wake (k + 1))
      (if 2 * t + k + 1 < P then s\<lparr>parentsense := (parentsense s)(2 * t + k + 1 := sense s t)\<rparr> else s))"
| flip: "t < P \<Longrightarrow> bpcs s t = Flip \<Longrightarrow>
    mcs_step P s (bgoto t Outside
      (s\<lparr>sense := (sense s)(t := \<not> sense s t), released := (released s)(t := released s t + 1)\<rparr>))"

inductive mcs_reach :: "nat \<Rightarrow> mcs \<Rightarrow> bool" for P where
  start: "mcs_reach P (mcs_init P)"
| step: "mcs_reach P s \<Longrightarrow> mcs_step P s s' \<Longrightarrow> mcs_reach P s'"

section \<open>Counting\<close>

text \<open>
  How often a thread has passed a point of \<open>wait\<close>: seen child \<open>j\<close> ready, reset its flag, told its
  parent, been woken, woken its \<open>k\<close>th child.
\<close>

fun past_seen :: "bpc \<Rightarrow> nat \<Rightarrow> bool" where
  "past_seen Outside j = False"
| "past_seen (Children k) j = (j < k)"
| "past_seen _ j = True"

fun past_reset :: "bpc \<Rightarrow> nat \<Rightarrow> bool" where
  "past_reset Outside j = False"
| "past_reset (Children k) j = False"
| "past_reset (Reset k) j = (j < k)"
| "past_reset _ j = True"

fun past_up :: "bpc \<Rightarrow> bool" where
  "past_up Spin = True" | "past_up (Wake k) = True" | "past_up Flip = True" | "past_up _ = False"

fun past_woken :: "bpc \<Rightarrow> bool" where
  "past_woken (Wake k) = True" | "past_woken Flip = True" | "past_woken _ = False"

fun past_sent :: "bpc \<Rightarrow> nat \<Rightarrow> bool" where
  "past_sent (Wake m) k = (k < m)" | "past_sent Flip k = True" | "past_sent _ k = False"

definition seen :: "mcs \<Rightarrow> nat \<Rightarrow> nat \<Rightarrow> nat" where "seen s t j = released s t + of_bool (past_seen (bpcs s t) j)"
definition resets :: "mcs \<Rightarrow> nat \<Rightarrow> nat \<Rightarrow> nat" where "resets s t j = released s t + of_bool (past_reset (bpcs s t) j)"
definition up :: "mcs \<Rightarrow> nat \<Rightarrow> nat" where "up s t = released s t + of_bool (past_up (bpcs s t))"
definition woken :: "mcs \<Rightarrow> nat \<Rightarrow> nat" where "woken s t = released s t + of_bool (past_woken (bpcs s t))"
definition sent :: "mcs \<Rightarrow> nat \<Rightarrow> nat \<Rightarrow> nat" where "sent s t k = released s t + of_bool (past_sent (bpcs s t) k)"

text \<open>The indices of the loops stay in their ranges.\<close>

fun pc_ok :: "bpc \<Rightarrow> bool" where
  "pc_ok (Children j) = (j < 4)" | "pc_ok (Reset j) = (j < 4)" | "pc_ok (Wake k) = (k < 2)" | "pc_ok _ = True"

lemma past_order:
  "past_sent p k \<Longrightarrow> past_woken p" "past_woken p \<Longrightarrow> past_up p" "past_up p \<Longrightarrow> past_reset p j"
  "past_reset p j \<Longrightarrow> past_seen p j" "past_seen p j \<Longrightarrow> p \<noteq> Outside"
  by (cases p; simp)+

lemma counts_order:
  "sent s t k \<le> woken s t" "woken s t \<le> up s t" "up s t \<le> resets s t j" "resets s t j \<le> seen s t j"
  "released s t \<le> sent s t k"
  using past_order [of "bpcs s t"] by (auto simp: sent_def woken_def up_def resets_def seen_def)

definition local_ok :: "nat \<Rightarrow> mcs \<Rightarrow> bool" where
  "local_ok P s \<longleftrightarrow> (\<forall>t<P. pc_ok (bpcs s t) \<and> (sense s t \<longleftrightarrow> even (released s t)) \<and>
     arrived s t = released s t + of_bool (bpcs s t \<noteq> Outside))"

definition arrive_ok :: "nat \<Rightarrow> mcs \<Rightarrow> bool" where
  "arrive_ok P s \<longleftrightarrow> (\<forall>p j. p < P \<and> j < 4 \<longrightarrow>
     (if 4 * p + j + 1 < P
      then seen s p j \<le> up s (4 * p + j + 1) \<and> resets s p j \<le> up s (4 * p + j + 1) \<and>
        up s (4 * p + j + 1) \<le> resets s p j + 1 \<and> (childnotready s p j \<longleftrightarrow> up s (4 * p + j + 1) = resets s p j)
      else \<not> childnotready s p j))"

definition wake_ok :: "nat \<Rightarrow> mcs \<Rightarrow> bool" where
  "wake_ok P s \<longleftrightarrow> (\<forall>q k. q < P \<and> k < 2 \<and> 2 * q + k + 1 < P \<longrightarrow>
     woken s (2 * q + k + 1) \<le> sent s q k \<and> (parentsense s (2 * q + k + 1) \<longleftrightarrow> odd (sent s q k)))"

definition mcs_inv :: "nat \<Rightarrow> mcs \<Rightarrow> bool" where
  "mcs_inv P s \<longleftrightarrow> local_ok P s \<and> arrive_ok P s \<and> wake_ok P s"

lemma four_children: "(t - 1) mod 4 < 4" "0 < t \<Longrightarrow> 4 * ((t - 1) div 4) + (t - 1) mod 4 + 1 = (t :: nat)"
  by simp_all

lemma arrive_okD:
  assumes "arrive_ok P s" "p < P" "j < 4"
  shows "4 * p + j + 1 < P \<Longrightarrow> seen s p j \<le> up s (4 * p + j + 1)"
    "4 * p + j + 1 < P \<Longrightarrow> resets s p j \<le> up s (4 * p + j + 1)"
    "4 * p + j + 1 < P \<Longrightarrow> up s (4 * p + j + 1) \<le> resets s p j + 1"
    "4 * p + j + 1 < P \<Longrightarrow> childnotready s p j \<longleftrightarrow> up s (4 * p + j + 1) = resets s p j"
    "\<not> 4 * p + j + 1 < P \<Longrightarrow> \<not> childnotready s p j"
  using assms unfolding arrive_ok_def by (auto split: if_splits)

lemma arrive_okI:
  assumes "\<And>p j. p < P \<Longrightarrow> j < 4 \<Longrightarrow> 4 * p + j + 1 < P \<Longrightarrow> seen s p j \<le> up s (4 * p + j + 1)"
    "\<And>p j. p < P \<Longrightarrow> j < 4 \<Longrightarrow> 4 * p + j + 1 < P \<Longrightarrow> resets s p j \<le> up s (4 * p + j + 1)"
    "\<And>p j. p < P \<Longrightarrow> j < 4 \<Longrightarrow> 4 * p + j + 1 < P \<Longrightarrow> up s (4 * p + j + 1) \<le> resets s p j + 1"
    "\<And>p j. p < P \<Longrightarrow> j < 4 \<Longrightarrow> 4 * p + j + 1 < P \<Longrightarrow>
       childnotready s p j \<longleftrightarrow> up s (4 * p + j + 1) = resets s p j"
    "\<And>p j. p < P \<Longrightarrow> j < 4 \<Longrightarrow> \<not> 4 * p + j + 1 < P \<Longrightarrow> \<not> childnotready s p j"
  shows "arrive_ok P s"
  using assms unfolding arrive_ok_def by presburger

lemma wake_okI:
  assumes "\<And>q k. q < P \<Longrightarrow> k < 2 \<Longrightarrow> 2 * q + k + 1 < P \<Longrightarrow> woken s (2 * q + k + 1) \<le> sent s q k"
    "\<And>q k. q < P \<Longrightarrow> k < 2 \<Longrightarrow> 2 * q + k + 1 < P \<Longrightarrow> parentsense s (2 * q + k + 1) \<longleftrightarrow> odd (sent s q k)"
  shows "wake_ok P s"
  using assms unfolding wake_ok_def by blast

lemma wake_okD:
  assumes "wake_ok P s" "q < P" "k < 2" "2 * q + k + 1 < P"
  shows "woken s (2 * q + k + 1) \<le> sent s q k" "parentsense s (2 * q + k + 1) \<longleftrightarrow> odd (sent s q k)"
  using assms unfolding wake_ok_def by blast+

text \<open>Up the one tree and down the other: the root is woken last and told last.\<close>

lemma up_root_least:
  assumes "arrive_ok P s"
  shows "t < P \<Longrightarrow> up s 0 \<le> up s t"
proof (induction t rule: less_induct)
  case (less t)
  show ?case
  proof (cases "t = 0")
    case False
    let ?p = "(t - 1) div 4" and ?j = "(t - 1) mod 4"
    have p: "?p < t" "?p < P" using False less.prems by auto
    have "up s 0 \<le> up s ?p" using less p by blast
    also have "\<dots> \<le> seen s ?p ?j" using counts_order(3,4) [of s ?p ?j] by (rule order_trans)
    also have "\<dots> \<le> up s t"
      using arrive_okD(1) [OF assms p(2) four_children(1), of t] four_children(2) [of t] False less.prems by simp
    finally show ?thesis .
  qed simp
qed

lemma woken_root_most:
  assumes "wake_ok P s"
  shows "t < P \<Longrightarrow> woken s t \<le> woken s 0"
proof (induction t rule: less_induct)
  case (less t)
  show ?case
  proof (cases "t = 0")
    case False
    let ?q = "(t - 1) div 2" and ?k = "(t - 1) mod 2"
    have q: "?q < t" "?q < P" "2 * ?q + ?k + 1 = t" using False less.prems by auto
    have "woken s t \<le> sent s ?q ?k" using wake_okD(1) [OF assms q(2), of ?k] q(3) less.prems by simp
    also have "\<dots> \<le> woken s ?q" by (rule counts_order(1))
    also have "\<dots> \<le> woken s 0" using less q by blast
    finally show ?thesis .
  qed simp
qed

lemma woken_le_up:
  assumes "mcs_inv P s" "t < P" "u < P"
  shows "woken s t \<le> up s u"
proof -
  have "woken s t \<le> woken s 0" using assms woken_root_most [of P s t] by (simp add: mcs_inv_def)
  also have "\<dots> \<le> up s 0" by (rule counts_order(2))
  also have "\<dots> \<le> up s u" using assms up_root_least [of P s u] by (simp add: mcs_inv_def)
  finally show ?thesis .
qed

section \<open>The invariant is kept\<close>

lemma bgoto_counts [simp]:
  "seen (bgoto t p s) u j = (if u = t then released s t + of_bool (past_seen p j) else seen s u j)"
  "resets (bgoto t p s) u j = (if u = t then released s t + of_bool (past_reset p j) else resets s u j)"
  "up (bgoto t p s) u = (if u = t then released s t + of_bool (past_up p) else up s u)"
  "woken (bgoto t p s) u = (if u = t then released s t + of_bool (past_woken p) else woken s u)"
  "sent (bgoto t p s) u k = (if u = t then released s t + of_bool (past_sent p k) else sent s u k)"
  by (simp_all add: seen_def resets_def up_def woken_def sent_def bgoto_def)

lemma flag_counts [simp]:
  "seen (set_cnr i j b s) = seen s" "resets (set_cnr i j b s) = resets s" "up (set_cnr i j b s) = up s"
  "woken (set_cnr i j b s) = woken s" "sent (set_cnr i j b s) = sent s"
  "seen (s\<lparr>parentsense := f\<rparr>) = seen s" "resets (s\<lparr>parentsense := f\<rparr>) = resets s" "up (s\<lparr>parentsense := f\<rparr>) = up s"
  "woken (s\<lparr>parentsense := f\<rparr>) = woken s" "sent (s\<lparr>parentsense := f\<rparr>) = sent s"
  "seen (s\<lparr>arrived := g\<rparr>) = seen s" "resets (s\<lparr>arrived := g\<rparr>) = resets s" "up (s\<lparr>arrived := g\<rparr>) = up s"
  "woken (s\<lparr>arrived := g\<rparr>) = woken s" "sent (s\<lparr>arrived := g\<rparr>) = sent s"
  by (simp_all add: fun_eq_iff seen_def resets_def up_def woken_def sent_def set_cnr_def)

lemma bgoto_fields [simp]:
  "bpcs (bgoto t p s) = (bpcs s)(t := p)" "childnotready (bgoto t p s) = childnotready s"
  "parentsense (bgoto t p s) = parentsense s" "sense (bgoto t p s) = sense s"
  "arrived (bgoto t p s) = arrived s" "released (bgoto t p s) = released s"
  by (simp_all add: bgoto_def)

lemma set_cnr_fields [simp]:
  "bpcs (set_cnr i j b s) = bpcs s" "parentsense (set_cnr i j b s) = parentsense s"
  "childnotready (set_cnr i j b s) u m = (if u = i \<and> m = j then b else childnotready s u m)"
  "sense (set_cnr i j b s) = sense s" "arrived (set_cnr i j b s) = arrived s" "released (set_cnr i j b s) = released s"
  by (simp_all add: set_cnr_def)

text \<open>Steps that leave the counts and flags of one of the two trees alone.\<close>

lemma arrive_ok_cong:
  assumes "arrive_ok P s" "up s' = up s" "resets s' = resets s" "childnotready s' = childnotready s"
    "\<And>p j. p < P \<Longrightarrow> j < 4 \<Longrightarrow> 4 * p + j + 1 < P \<Longrightarrow> seen s' p j \<le> up s (4 * p + j + 1)"
  shows "arrive_ok P s'"
proof (rule arrive_okI)
  fix p j :: nat
  assume pj: "p < P" "j < 4"
  note A = arrive_okD [OF assms(1) pj]
  show "\<not> childnotready s' p j" if "\<not> 4 * p + j + 1 < P" using A(5) [OF that] assms(4) by simp
  assume c: "4 * p + j + 1 < P"
  show "seen s' p j \<le> up s' (4 * p + j + 1)" using assms(5) [OF pj c] assms(2) by simp
  show "resets s' p j \<le> up s' (4 * p + j + 1)" "up s' (4 * p + j + 1) \<le> resets s' p j + 1"
    "childnotready s' p j \<longleftrightarrow> up s' (4 * p + j + 1) = resets s' p j"
    unfolding assms(2-4) using A(2-4) [OF c] by blast+
qed

lemma wake_ok_cong:
  "wake_ok P s \<Longrightarrow> woken s' = woken s \<Longrightarrow> sent s' = sent s \<Longrightarrow> parentsense s' = parentsense s \<Longrightarrow> wake_ok P s'"
  unfolding wake_ok_def by simp

lemma local_ok_goto:
  assumes "local_ok P s" "pc_ok p" "p \<noteq> Outside" "bpcs s t \<noteq> Outside"
    "bpcs s' = (bpcs s)(t := p)" "sense s' = sense s" "released s' = released s" "arrived s' = arrived s"
  shows "local_ok P s'"
  using assms unfolding local_ok_def by auto

lemma mcs_init_inv: "mcs_inv P (mcs_init P)"
  by (auto simp: mcs_inv_def local_ok_def arrive_ok_def wake_ok_def mcs_init_def seen_def resets_def up_def
      woken_def sent_def havechild_def)

lemma inv_enter:
  assumes "mcs_inv P s" "t < P" "bpcs s t = Outside"
  shows "mcs_inv P (bgoto t (Children 0) (s\<lparr>arrived := (arrived s)(t := arrived s t + 1)\<rparr>))" (is "mcs_inv P ?s")
proof -
  have old: "resets s t j = released s t" "seen s t j = released s t" "up s t = released s t" "woken s t = released s t"
    "sent s t k = released s t" for j k
    using assms(3) by (simp_all add: resets_def seen_def up_def woken_def sent_def)
  have "local_ok P ?s" using assms unfolding mcs_inv_def local_ok_def by simp
  moreover have "arrive_ok P ?s"
  proof (rule arrive_ok_cong [of P s])
    have A: "arrive_ok P s" using assms(1) by (simp add: mcs_inv_def)
    then show "arrive_ok P s" .
    show "seen ?s p j \<le> up s (4 * p + j + 1)" if "p < P" "j < 4" "4 * p + j + 1 < P" for p j
      using arrive_okD(1) [OF A that] old(2) by auto
  qed (simp_all add: fun_eq_iff old)
  moreover have "wake_ok P ?s"
    using assms(1) by (rule_tac wake_ok_cong [of P s]) (auto simp: mcs_inv_def fun_eq_iff old)
  ultimately show ?thesis by (simp add: mcs_inv_def)
qed

lemma inv_children:
  assumes inv: "mcs_inv P s" and t: "t < P" "bpcs s t = Children j"
    and p: "p = Children 0 \<or> \<not> childnotready s t j \<and> p = (if j = 3 then Reset 0 else Children (j + 1))"
  shows "mcs_inv P (bgoto t p s)"
proof -
  have j: "j < 4" using inv t by (auto simp: mcs_inv_def local_ok_def dest: spec [of _ t])
  have old: "resets s t m = released s t" "up s t = released s t" "woken s t = released s t"
    "sent s t k = released s t" for m k
    using t(2) by (simp_all add: resets_def up_def woken_def sent_def)
  have new: "past_reset p m = False" "past_up p = False" "past_woken p = False" "past_sent p k = False" for m k
    using p by (auto split: if_splits)
  have "local_ok P (bgoto t p s)"
    using inv by (rule_tac local_ok_goto [of P s p t]) (use t p j in \<open>auto simp: mcs_inv_def split: if_splits\<close>)
  moreover have "arrive_ok P (bgoto t p s)"
  proof (rule arrive_ok_cong [of P s])
    have A: "arrive_ok P s" using inv by (simp add: mcs_inv_def)
    then show "arrive_ok P s" .
    show "seen (bgoto t p s) q m \<le> up s (4 * q + m + 1)" if "q < P" "m < 4" "4 * q + m + 1 < P" for q m
    proof (cases "q = t \<and> m = j \<and> \<not> childnotready s t j")
      case True
      then have "up s (4 * q + m + 1) \<noteq> resets s q m" using arrive_okD(4) [OF A that] by blast
      then have "released s t + 1 \<le> up s (4 * q + m + 1)"
        using arrive_okD(2) [OF A that] True old(1) by simp
      then show ?thesis using True by simp
    next
      case False
      have "seen (bgoto t p s) q m \<le> seen s q m"
        using False p t(2) j \<open>m < 4\<close> by (auto simp: seen_def less_Suc_eq split: if_splits)
      then show ?thesis using arrive_okD(1) [OF A that] by simp
    qed
  qed (auto simp: fun_eq_iff old new)
  moreover have "wake_ok P (bgoto t p s)"
    using inv by (rule_tac wake_ok_cong [of P s]) (auto simp: mcs_inv_def fun_eq_iff old new)
  ultimately show ?thesis by (simp add: mcs_inv_def)
qed

lemma inv_reset:
  assumes inv: "mcs_inv P s" and t: "t < P" "bpcs s t = Reset j"
  shows "mcs_inv P (bgoto t (if j = 3 then Signal else Reset (j + 1)) (set_cnr t j (havechild P t j) s))"
    (is "mcs_inv P ?s")
proof -
  have A: "arrive_ok P s" and W: "wake_ok P s" using inv by (simp_all add: mcs_inv_def)
  have j: "j < 4" using inv t by (auto simp: mcs_inv_def local_ok_def dest: spec [of _ t])
  have old: "seen s t m = released s t + 1" "resets s t m = released s t + of_bool (m < j)"
    "up s t = released s t" "woken s t = released s t" "sent s t k = released s t" for m k
    using t(2) by (simp_all add: resets_def seen_def up_def woken_def sent_def)
  have new: "resets ?s q m = (if q = t then released s t + of_bool (m \<le> j) else resets s q m)" if "m < 4" for q m
    using that j by auto
  have same: "seen ?s = seen s" "up ?s = up s" "woken ?s = woken s" "sent ?s = sent s"
    by (auto simp: fun_eq_iff old)
  have "local_ok P ?s"
    using inv by (rule_tac local_ok_goto [of P s "if j = 3 then Signal else Reset (j + 1)" t])
      (use t j in \<open>auto simp: mcs_inv_def split: if_splits\<close>)
  moreover have "wake_ok P ?s" by (rule wake_ok_cong [OF W same(3) same(4)]) simp
  moreover have "arrive_ok P ?s"
  proof (rule arrive_okI)
    fix q m :: nat
    assume q: "q < P" "m < 4"
    show "\<not> childnotready ?s q m" if "\<not> 4 * q + m + 1 < P"
      using that arrive_okD(5) [OF A q] by (auto simp: havechild_def)
    assume c: "4 * q + m + 1 < P"
    note D = arrive_okD [OF A q]
    have up: "up s (4 * q + m + 1) = released s t + 1" if "q = t" "m = j"
      using D(1,3) [OF c] that old by simp
    show "seen ?s q m \<le> up ?s (4 * q + m + 1)" unfolding same by (rule D(1) [OF c])
    have le: "m \<le> j \<longleftrightarrow> m = j \<or> m < j" by auto
    show "resets ?s q m \<le> up ?s (4 * q + m + 1)" "up ?s (4 * q + m + 1) \<le> resets ?s q m + 1"
      "childnotready ?s q m \<longleftrightarrow> up ?s (4 * q + m + 1) = resets ?s q m"
      unfolding same new [OF q(2)] using D(2-4) [OF c] up c by (auto simp: old havechild_def le)
  qed
  ultimately show ?thesis by (simp add: mcs_inv_def)
qed

lemma inv_signal_root:
  assumes inv: "mcs_inv P s" and t: "0 < P" "bpcs s 0 = Signal"
  shows "mcs_inv P (bgoto 0 (Wake 0) s)" (is "mcs_inv P ?s")
proof -
  have old: "seen s 0 m = released s 0 + 1" "resets s 0 m = released s 0 + 1" "sent s 0 m = released s 0" for m
    using t(2) by (simp_all add: resets_def seen_def sent_def)
  have same: "seen ?s = seen s" "resets ?s = resets s" "sent ?s = sent s" by (auto simp: fun_eq_iff old)
  have "local_ok P ?s"
    using inv by (rule_tac local_ok_goto [of P s "Wake 0" 0]) (use t in \<open>auto simp: mcs_inv_def\<close>)
  moreover have "arrive_ok P ?s"
    by (rule arrive_okI) (unfold same, use inv arrive_okD [of P s] in \<open>simp_all add: mcs_inv_def\<close>)
  moreover have "wake_ok P ?s"
    by (rule wake_okI) (unfold same, use inv wake_okD [of P s] in \<open>simp_all add: mcs_inv_def\<close>)
  ultimately show ?thesis by (simp add: mcs_inv_def)
qed

lemma inv_signal:
  assumes inv: "mcs_inv P s" and t: "t < P" "bpcs s t = Signal" "t \<noteq> 0"
  shows "mcs_inv P (bgoto t Spin (set_cnr ((t - 1) div 4) ((t - 1) mod 4) False s))" (is "mcs_inv P ?s")
proof -
  have A: "arrive_ok P s" and W: "wake_ok P s" using inv by (simp_all add: mcs_inv_def)
  have old: "seen s t m = released s t + 1" "resets s t m = released s t + 1" "up s t = released s t"
    "woken s t = released s t" "sent s t m = released s t" for m
    using t(2) by (simp_all add: resets_def seen_def sent_def up_def woken_def)
  have same: "seen ?s = seen s" "resets ?s = resets s" "sent ?s = sent s" "woken ?s = woken s"
    by (auto simp: fun_eq_iff old)
  have new: "up ?s u = (if u = t then released s t + 1 else up s u)" for u by simp
  have "local_ok P ?s"
    using inv by (rule_tac local_ok_goto [of P s Spin t]) (use t in \<open>auto simp: mcs_inv_def\<close>)
  moreover have "wake_ok P ?s" by (rule wake_ok_cong [OF W same(4) same(3)]) simp
  moreover have "arrive_ok P ?s"
  proof (rule arrive_okI)
    fix q m :: nat
    assume q: "q < P" "m < 4"
    show "\<not> childnotready ?s q m" if "\<not> 4 * q + m + 1 < P" using that arrive_okD(5) [OF A q] by simp
    assume c: "4 * q + m + 1 < P"
    note D = arrive_okD [OF A q]
    have edge: "(q = (t - 1) div 4 \<and> m = (t - 1) mod 4) \<longleftrightarrow> 4 * q + m + 1 = t"
      using four_children(2) [of t] t(3) q(2) by auto
    have eq: "resets s q m = released s t" if "4 * q + m + 1 = t"
    proof (rule antisym)
      show "resets s q m \<le> released s t" using D(2) [OF c] that old(3) by simp
      have "released s t \<le> up s q" using woken_le_up [OF inv t(1) q(1)] old(4) by simp
      also have "\<dots> \<le> resets s q m" by (rule counts_order(3))
      finally show "released s t \<le> resets s q m" .
    qed
    have "up s (4 * q + m + 1) \<le> up ?s (4 * q + m + 1)" unfolding new using old(3) by simp
    then show "seen ?s q m \<le> up ?s (4 * q + m + 1)" "resets ?s q m \<le> up ?s (4 * q + m + 1)"
      unfolding same using D(1,2) [OF c] by linarith+
    show "up ?s (4 * q + m + 1) \<le> resets ?s q m + 1" unfolding same new using D(3) [OF c] eq by simp
    have cnr: "childnotready ?s q m \<longleftrightarrow> 4 * q + m + 1 \<noteq> t \<and> childnotready s q m" using edge by simp
    show "childnotready ?s q m \<longleftrightarrow> up ?s (4 * q + m + 1) = resets ?s q m"
      unfolding same new cnr using D(4) [OF c] eq by simp
  qed
  ultimately show ?thesis by (simp add: mcs_inv_def)
qed

lemma inv_spin:
  assumes inv: "mcs_inv P s" and t: "t < P" "bpcs s t = Spin" "parentsense s t = sense s t"
  shows "mcs_inv P (bgoto t (Wake 0) s)" (is "mcs_inv P ?s")
proof -
  have A: "arrive_ok P s" and W: "wake_ok P s" using inv by (simp_all add: mcs_inv_def)
  have old: "seen s t m = released s t + 1" "resets s t m = released s t + 1" "up s t = released s t + 1"
    "woken s t = released s t" "sent s t m = released s t" for m
    using t(2) by (simp_all add: resets_def seen_def sent_def up_def woken_def)
  have same: "seen ?s = seen s" "resets ?s = resets s" "sent ?s = sent s" "up ?s = up s"
    by (auto simp: fun_eq_iff old)
  have "local_ok P ?s"
    using inv by (rule_tac local_ok_goto [of P s "Wake 0" t]) (use t in \<open>auto simp: mcs_inv_def\<close>)
  moreover have "arrive_ok P ?s"
    by (rule arrive_ok_cong [OF A same(4) same(2)]) (simp, unfold same, rule arrive_okD(1) [OF A])
  moreover have "wake_ok P ?s"
  proof (rule wake_okI)
    fix q k :: nat
    assume q: "q < P" "k < 2" "2 * q + k + 1 < P"
    note D = wake_okD [OF W q]
    show "parentsense ?s (2 * q + k + 1) \<longleftrightarrow> odd (sent ?s q k)" unfolding same using D(2) by simp
    have "released s t + 1 \<le> sent s q k" if c: "2 * q + k + 1 = t"
    proof -
      have "sense s t \<longleftrightarrow> even (released s t)" using inv t(1) by (simp add: mcs_inv_def local_ok_def)
      then have "sent s q k \<noteq> released s t" using D(2) t(3) c by auto
      moreover have "released s t \<le> sent s q k" using D(1) c old(4) by simp
      ultimately show ?thesis by simp
    qed
    then show "woken ?s (2 * q + k + 1) \<le> sent ?s q k" unfolding same using D(1) by simp
  qed
  ultimately show ?thesis by (simp add: mcs_inv_def)
qed

lemma inv_wake:
  assumes inv: "mcs_inv P s" and t: "t < P" "bpcs s t = Wake k"
  shows "mcs_inv P (bgoto t (if k = 1 then Flip else Wake (k + 1))
      (if 2 * t + k + 1 < P then s\<lparr>parentsense := (parentsense s)(2 * t + k + 1 := sense s t)\<rparr> else s))"
    (is "mcs_inv P ?s")
proof -
  have A: "arrive_ok P s" and W: "wake_ok P s" using inv by (simp_all add: mcs_inv_def)
  have k: "k < 2" using inv t by (auto simp: mcs_inv_def local_ok_def dest: spec [of _ t])
  have old: "seen s t m = released s t + 1" "resets s t m = released s t + 1" "up s t = released s t + 1"
    "woken s t = released s t + 1" "sent s t m = released s t + of_bool (m < k)" for m
    using t(2) by (simp_all add: resets_def seen_def sent_def up_def woken_def)
  have same: "seen ?s = seen s" "resets ?s = resets s" "woken ?s = woken s" "up ?s = up s"
    by (auto simp: fun_eq_iff old)
  have new: "sent ?s q m = (if q = t then released s t + of_bool (m \<le> k) else sent s q m)" if "m < 2" for q m
    using that k by auto
  have "local_ok P ?s"
    using inv by (rule_tac local_ok_goto [of P s "if k = 1 then Flip else Wake (k + 1)" t])
      (use t k in \<open>auto simp: mcs_inv_def split: if_splits\<close>)
  moreover have "arrive_ok P ?s"
    by (rule arrive_ok_cong [OF A same(4) same(2)]) (simp, unfold same, rule arrive_okD(1) [OF A])
  moreover have "wake_ok P ?s"
  proof (rule wake_okI)
    fix q m :: nat
    assume q: "q < P" "m < 2" "2 * q + m + 1 < P"
    note D = wake_okD [OF W q]
    have le: "m \<le> k \<longleftrightarrow> m = k \<or> m < k" by auto
    show "woken ?s (2 * q + m + 1) \<le> sent ?s q m" unfolding same new [OF q(2)] using D(1) by (auto simp: old le)
    have sense: "sense s t \<longleftrightarrow> even (released s t)" using inv t(1) by (simp add: mcs_inv_def local_ok_def)
    have ps: "parentsense ?s (2 * q + m + 1) = (if q = t \<and> m = k then sense s t else parentsense s (2 * q + m + 1))"
    proof -
      have "2 * q + m + 1 = 2 * t + k + 1 \<longleftrightarrow> q = t \<and> m = k" using q(2) k by presburger
      then show ?thesis using q(3) by auto
    qed
    show "parentsense ?s (2 * q + m + 1) \<longleftrightarrow> odd (sent ?s q m)"
      unfolding ps new [OF q(2)] using D(2) sense by (auto simp: old le)
  qed
  ultimately show ?thesis by (simp add: mcs_inv_def)
qed

lemma inv_flip:
  assumes inv: "mcs_inv P s" and t: "t < P" "bpcs s t = Flip"
  shows "mcs_inv P (bgoto t Outside
      (s\<lparr>sense := (sense s)(t := \<not> sense s t), released := (released s)(t := released s t + 1)\<rparr>))" (is "mcs_inv P ?s")
proof -
  have A: "arrive_ok P s" and W: "wake_ok P s" using inv by (simp_all add: mcs_inv_def)
  have same: "seen ?s = seen s" "resets ?s = resets s" "woken ?s = woken s" "up ?s = up s" "sent ?s = sent s"
    using t(2) by (auto simp: fun_eq_iff resets_def seen_def sent_def up_def woken_def)
  have "local_ok P ?s" using inv t unfolding mcs_inv_def local_ok_def by simp
  moreover have "arrive_ok P ?s"
    by (rule arrive_ok_cong [OF A same(4) same(2)]) (simp, unfold same, rule arrive_okD(1) [OF A])
  moreover have "wake_ok P ?s" by (rule wake_ok_cong [OF W same(3) same(5)]) simp
  ultimately show ?thesis by (simp add: mcs_inv_def)
qed

lemma mcs_step_inv:
  assumes "mcs_step P s s'" "mcs_inv P s"
  shows "mcs_inv P s'"
  using assms(1)
proof cases
  case (enter t)
  then show ?thesis using inv_enter [OF assms(2)] by blast
next
  case (child_wait t j)
  then show ?thesis using inv_children [OF assms(2)] by blast
next
  case (child_ready t j)
  then show ?thesis using inv_children [OF assms(2) child_ready(2,3)] by blast
next
  case (reset t j)
  then show ?thesis using inv_reset [OF assms(2)] by blast
next
  case (signal_root t)
  then show ?thesis using inv_signal_root [OF assms(2)] by blast
next
  case (signal t)
  then show ?thesis using inv_signal [OF assms(2)] by blast
next
  case (spin t)
  then show ?thesis using inv_spin [OF assms(2)] by blast
next
  case (wake t k)
  then show ?thesis using inv_wake [OF assms(2) wake(2,3)] by simp
next
  case (flip t)
  then show ?thesis using inv_flip [OF assms(2)] by blast
qed

lemma mcs_reach_inv: "mcs_reach P s \<Longrightarrow> mcs_inv P s"
  by (induction rule: mcs_reach.induct) (auto intro: mcs_init_inv mcs_step_inv)

section \<open>Properties\<close>

text \<open>
  Nobody leaves the barrier before all have come: in every interleaving, a thread that has left
  \<open>wait\<close> for the \<open>k\<close>th time has done so after every thread entered it for the \<open>k\<close>th time, and no
  thread is ever more than one round ahead.
\<close>

theorem mcs_barrier_safe:
  assumes "mcs_reach P s" "t < P" "u < P"
  shows "released s t \<le> arrived s u \<and> arrived s u \<le> released s t + 1 + of_bool (bpcs s t \<noteq> Outside)"
proof -
  note inv = mcs_reach_inv [OF assms(1)]
  have arr: "arrived s v = released s v + of_bool (bpcs s v \<noteq> Outside)" if "v < P" for v
    using inv that by (simp add: mcs_inv_def local_ok_def)
  have up: "up s v \<le> arrived s v" if "v < P" for v
    using arr [OF that] past_order [of "bpcs s v"] by (auto simp: up_def)
  have rel: "released s v \<le> arrived s w" if "v < P" "w < P" for v w
  proof -
    have "released s v \<le> woken s v" by (simp add: woken_def)
    also have "\<dots> \<le> up s w" by (rule woken_le_up [OF inv that])
    also have "\<dots> \<le> arrived s w" by (rule up [OF that(2)])
    finally show ?thesis .
  qed
  have "arrived s u \<le> released s u + 1" using arr [OF assms(3)] by simp
  also have "\<dots> \<le> arrived s t + 1" using rel [OF assms(3,2)] by simp
  also have "\<dots> = released s t + 1 + of_bool (bpcs s t \<noteq> Outside)" using arr [OF assms(2)] by simp
  finally show ?thesis using rel [OF assms(2,3)] by blast
qed

lemma mcs_reach_root: "mcs_reach P s \<Longrightarrow> bpcs s 0 \<noteq> Spin"
proof (induction rule: mcs_reach.induct)
  case (step s s')
  from step(2) show ?case by cases (use step(3) in \<open>auto simp: bgoto_def set_cnr_def\<close>)
qed (simp add: mcs_init_def)

text \<open>A thread that will go on: it is not in a loop, or what it waits for has happened.\<close>

definition can_go_on :: "mcs \<Rightarrow> nat \<Rightarrow> bool" where
  "can_go_on s t = (case bpcs s t of
       Outside \<Rightarrow> False
     | Children j \<Rightarrow> \<not> (childnotready s t 0 \<or> childnotready s t 1 \<or> childnotready s t 2 \<or> childnotready s t 3)
     | Spin \<Rightarrow> parentsense s t = sense s t
     | _ \<Rightarrow> True)"

text \<open>
  The barrier does not deadlock: when all threads are in \<open>wait\<close>, at least one of them will go on,
  whatever the others do.
\<close>

theorem mcs_barrier_no_deadlock:
  assumes r: "mcs_reach P s" and P: "0 < P" and inside: "\<forall>t<P. bpcs s t \<noteq> Outside"
  shows "\<exists>t<P. can_go_on s t"
proof (rule ccontr)
  assume "\<not> ?thesis"
  then have stuck: "\<not> can_go_on s t" if "t < P" for t using that by blast
  note inv = mcs_reach_inv [OF r]
  have A: "arrive_ok P s" and W: "wake_ok P s" and L: "local_ok P s" using inv by (simp_all add: mcs_inv_def)
  define C where "C t \<longleftrightarrow> (\<exists>j. bpcs s t = Children j)" for t
  define e where "e = released s 0"
  have S: "bpcs s t = Spin" "parentsense s t \<noteq> sense s t" if "t < P" "\<not> C t" for t
    using stuck [OF that(1)] inside that unfolding can_go_on_def C_def by (cases "bpcs s t"; auto)+
  have "C 0" using S(1) [OF P] mcs_reach_root [OF r] by blast
  then have e: "up s 0 = e" "woken s 0 = e" by (auto simp: C_def up_def woken_def e_def)
  have Crel: "up s t = released s t" "resets s t j = released s t" "sent s t k = released s t" if "C t" for t j k
    using that by (auto simp: C_def up_def resets_def sent_def)
  have Srel: "up s t = released s t + 1" "woken s t = released s t" "sent s t k = released s t" if "t < P" "\<not> C t" for t k
    using S(1) [OF that] by (simp_all add: up_def woken_def sent_def)
  have low: "e \<le> up s t" if "t < P" for t using up_root_least [OF A that] e(1) by simp
  have high: "released s t \<le> e" if "t < P" for t
  proof -
    have "released s t \<le> woken s t" by (simp add: woken_def)
    also have "\<dots> \<le> e" using woken_root_most [OF W that] e(2) by simp
    finally show ?thesis .
  qed
  have Ce: "released s t = e" if "t < P" "C t" for t using low high Crel(1) that by (metis antisym)
  have notbehind: "C t \<or> released s t = e" if "t < P" for t
    using that
  proof (induction t rule: less_induct)
    case (less t)
    show ?case
    proof (cases "C t")
      case False
      let ?q = "(t - 1) div 2" and ?k = "(t - 1) mod 2"
      have "t \<noteq> 0" using False \<open>C 0\<close> by metis
      then have q: "?q < t" "?q < P" "?k < 2" "2 * ?q + ?k + 1 = t" using less.prems by auto
      note D = wake_okD [OF W q(2,3), unfolded q(4), OF less.prems]
      have "released s ?q = e" using less.IH [OF q(1,2)] Ce [OF q(2)] by blast
      then have "sent s ?q ?k = e" using Crel(3) Srel(3) [OF q(2)] by (cases "C ?q") simp_all
      moreover have "sense s t \<longleftrightarrow> even (released s t)" using L less.prems by (simp add: local_ok_def)
      ultimately have "odd e \<noteq> even (released s t)" using S(2) [OF less.prems False] D(2) by simp
      moreover have "e \<le> released s t + 1" "released s t \<le> e"
        using low [OF less.prems] Srel(1) [OF less.prems False] high [OF less.prems] by simp_all
      ultimately show ?thesis by (metis add.commute even_plus_one_iff le_antisym not_less_eq_eq plus_1_eq_Suc)
    qed simp
  qed
  define t where "t = Max {u. u < P \<and> C u}"
  have fin: "finite {u. u < P \<and> C u}" by simp
  have "t \<in> {u. u < P \<and> C u}" unfolding t_def by (rule Max_in [OF fin]) (use P \<open>C 0\<close> in blast)
  then have t: "t < P" "C t" by auto
  then have "childnotready s t 0 \<or> childnotready s t 1 \<or> childnotready s t 2 \<or> childnotready s t 3"
    using stuck [OF t(1)] unfolding can_go_on_def C_def by auto
  moreover have "(0 :: nat) < 4" "(1 :: nat) < 4" "(2 :: nat) < 4" "(3 :: nat) < 4" by simp_all
  ultimately obtain j where "j < 4" and cnr: "childnotready s t j" by blast
  then have c: "4 * t + j + 1 < P" using arrive_okD(5) [OF A t(1) \<open>j < 4\<close>] by blast
  let ?c = "4 * t + j + 1"
  have upc: "up s ?c = e"
    using arrive_okD(4) [OF A t(1) \<open>j < 4\<close> c] cnr Crel(2) [OF t(2)] Ce [OF t] by simp
  have "C ?c"
  proof (rule ccontr)
    assume n: "\<not> C ?c"
    then have "up s ?c = e + 1" using Srel(1) [OF c n] notbehind [OF c] by simp
    with upc show False by simp
  qed
  then have "?c \<in> {u. u < P \<and> C u}" using c by simp
  then have "?c \<le> t" using Max_ge [OF fin] t_def by blast
  then show False by simp
qed

text \<open>Two threads go through the barrier; the schedule lists who takes the next step.\<close>

fun mcs_next :: "nat \<Rightarrow> nat \<Rightarrow> mcs \<Rightarrow> mcs option" where
  "mcs_next P t s = (case bpcs s t of
       Outside \<Rightarrow> Some (bgoto t (Children 0) (s\<lparr>arrived := (arrived s)(t := arrived s t + 1)\<rparr>))
     | Children j \<Rightarrow> if childnotready s t j then Some (bgoto t (Children 0) s)
         else Some (bgoto t (if j = 3 then Reset 0 else Children (j + 1)) s)
     | Reset j \<Rightarrow> Some (bgoto t (if j = 3 then Signal else Reset (j + 1)) (set_cnr t j (havechild P t j) s))
     | Signal \<Rightarrow> if t = 0 then Some (bgoto t (Wake 0) s)
         else Some (bgoto t Spin (set_cnr ((t - 1) div 4) ((t - 1) mod 4) False s))
     | Spin \<Rightarrow> if parentsense s t = sense s t then Some (bgoto t (Wake 0) s) else None
     | Wake k \<Rightarrow> Some (bgoto t (if k = 1 then Flip else Wake (k + 1))
         (if 2 * t + k + 1 < P then s\<lparr>parentsense := (parentsense s)(2 * t + k + 1 := sense s t)\<rparr> else s))
     | Flip \<Rightarrow> Some (bgoto t Outside
         (s\<lparr>sense := (sense s)(t := \<not> sense s t), released := (released s)(t := released s t + 1)\<rparr>)))"

fun mcs_run :: "nat \<Rightarrow> nat list \<Rightarrow> mcs \<Rightarrow> mcs option" where
  "mcs_run P [] s = Some s"
| "mcs_run P (t # ts) s =
     (if t < P then case mcs_next P t s of None \<Rightarrow> None | Some s1 \<Rightarrow> mcs_run P ts s1 else None)"

lemma mcs_next_step:
  assumes n: "mcs_next P t s = Some s'" and t: "t < P"
  shows "mcs_step P s s'"
proof (cases "bpcs s t")
  case Outside
  then show ?thesis using n mcs_step.enter [OF t Outside] by simp
next
  case (Children j)
  then show ?thesis
    using n mcs_step.child_wait [OF t Children] mcs_step.child_ready [OF t Children] by (simp split: if_splits)
next
  case (Reset j)
  then show ?thesis using n mcs_step.reset [OF t Reset] by (simp split: if_splits)
next
  case Signal
  then show ?thesis
    using n mcs_step.signal_root [OF t Signal] mcs_step.signal [OF t Signal] by (simp split: if_splits)
next
  case Spin
  then show ?thesis using n mcs_step.spin [OF t Spin] by (simp split: if_splits)
next
  case (Wake k)
  then show ?thesis using n mcs_step.wake [OF t Wake] by (simp split: if_splits)
next
  case Flip
  then show ?thesis using n mcs_step.flip [OF t Flip] by simp
qed

lemma mcs_run_reach: "mcs_reach P s \<Longrightarrow> mcs_run P ts s = Some s' \<Longrightarrow> mcs_reach P s'"
proof (induction ts arbitrary: s)
  case (Cons t ts)
  then obtain s1 where "t < P" "mcs_next P t s = Some s1" "mcs_run P ts s1 = Some s'"
    by (auto simp del: mcs_next.simps split: if_splits option.splits)
  with Cons mcs_next_step mcs_reach.step show ?case by blast
qed simp

theorem mcs_barrier_safe_witness:
  "\<exists>s. mcs_reach 2 s \<and> bpcs s 0 = Outside \<and> released s 0 = 1 \<and> released s 1 = 0 \<and> released s 0 \<le> arrived s 1"
proof -
  let ?ts = "[0, 1] @ replicate 9 1 @ replicate 12 0 :: nat list"
  have "map_option (\<lambda>s. (bpcs s 0, released s 0, released s 1)) (mcs_run 2 ?ts (mcs_init 2)) = Some (Outside, 1, 0)"
    by code_simp
  then obtain s where s: "mcs_run 2 ?ts (mcs_init 2) = Some s" "bpcs s 0 = Outside" "released s 0 = 1" "released s 1 = 0"
    by auto
  have r: "mcs_reach 2 s" by (rule mcs_run_reach [OF mcs_reach.start s(1)])
  with s mcs_barrier_safe [OF r, of 0 1] show ?thesis by auto
qed

theorem mcs_barrier_no_deadlock_witness:
  "\<exists>s. mcs_reach 2 s \<and> bpcs s 0 = Children 0 \<and> childnotready s 0 0 \<and> (\<exists>t<2. can_go_on s t)"
proof -
  have "map_option (\<lambda>s. (bpcs s 0, bpcs s 1, childnotready s 0 0)) (mcs_run 2 [0, 1] (mcs_init 2)) =
      Some (Children 0, Children 0, True)" by code_simp
  then obtain s where s: "mcs_run 2 [0, 1] (mcs_init 2) = Some s" "bpcs s 0 = Children 0" "bpcs s 1 = Children 0"
    "childnotready s 0 0" by auto
  have r: "mcs_reach 2 s" by (rule mcs_run_reach [OF mcs_reach.start s(1)])
  have "\<forall>t<2. bpcs s t \<noteq> Outside" using s by (simp add: numeral_2_eq_2 All_less_Suc)
  with r s mcs_barrier_no_deadlock [OF r] show ?thesis by auto
qed

end
