(* ===== verification/ThreadStorage.thy ===== *)
theory ThreadStorage
  imports Prelude
begin

text \<open>
  \<open>PerBackend\<close> of \<open>src/PerThreadStorage.cpp\<close>: it hands out offsets into the storage every
  thread has, first from the end of what is in use, then from blocks given back. Sizes and offsets are natural
  numbers: \<open>allocSize\<close> is at most \<open>2 ^ 30\<close>, so the additions of the code do not wrap.
  Ending the program (\<open>GALOIS_DIE\<close>) is \<open>None\<close>.
\<close>

section \<open>The allocator\<close>

definition MAX_SIZE :: nat where "MAX_SIZE = 50"
definition MIN_SIZE :: nat where "MIN_SIZE = 3"

record PerBackend =
  nextLoc :: nat
  freeOffsets :: "nat list list"

definition PerBackend_init :: PerBackend where
  "PerBackend_init = \<lparr>nextLoc = 0, freeOffsets = replicate MAX_SIZE []\<rparr>"

function log2_loop :: "nat \<Rightarrow> nat \<Rightarrow> nat" where
  "log2_loop i sz = (if 2 ^ i < sz then log2_loop (i + 1) sz else i)"
  by pat_completeness auto
termination
proof (relation "measure (\<lambda>(i, sz). sz - 2 ^ i)")
  fix i sz :: nat
  assume "2 ^ i < sz"
  moreover have "(2 :: nat) ^ i < 2 ^ (i + 1)" by simp
  ultimately show "((i + 1, sz), (i, sz)) \<in> measure (\<lambda>(i, sz). sz - 2 ^ i)"
    by (simp only: in_measure prod.case)
qed simp

definition nextLog2 :: "nat \<Rightarrow> nat option" where
  "nextLog2 sz = (let i = log2_loop MIN_SIZE sz in if MAX_SIZE \<le> i then None else Some i)"

text \<open>The first class from \<open>index\<close> on with a free block.\<close>

function find_index :: "nat list list \<Rightarrow> nat \<Rightarrow> nat" where
  "find_index fs index = (if index < MAX_SIZE \<and> fs ! index = [] then find_index fs (index + 1) else index)"
  by pat_completeness auto
termination by (relation "measure (\<lambda>(fs, index). MAX_SIZE - index)") auto

text \<open>The rest of a block that is too large is given back in halves.\<close>

fun change_loop :: "nat \<Rightarrow> nat \<Rightarrow> nat \<Rightarrow> nat list list \<Rightarrow> nat list list" where
  "change_loop 0 start end' fs = fs"
| "change_loop (Suc i) start end' fs =
     (if start < end' then change_loop i (start + 2 ^ i) end' (fs[i := fs ! i @ [start]]) else fs)"

definition allocOffset :: "nat \<Rightarrow> nat \<Rightarrow> PerBackend \<Rightarrow> (nat \<times> PerBackend) option" where
  "allocOffset allocSize sz b =
     (case nextLog2 sz of
        None \<Rightarrow> None
      | Some index0 \<Rightarrow>
          let len = 2 ^ index0 in
          if nextLoc b + len \<le> allocSize then Some (nextLoc b, b\<lparr>nextLoc := nextLoc b + len\<rparr>)
          else
            let fs = freeOffsets b in
            if fs ! index0 \<noteq> [] then
              Some (last (fs ! index0), b\<lparr>freeOffsets := fs[index0 := butlast (fs ! index0)]\<rparr>)
            else
              let index = find_index fs index0 in
              if index = MAX_SIZE then None
              else
                let retval = last (fs ! index);
                    fs1 = fs[index := butlast (fs ! index)]
                in Some (retval, b\<lparr>freeOffsets := change_loop index (retval + len) (retval + 2 ^ index) fs1\<rparr>))"

definition deallocOffset :: "nat \<Rightarrow> nat \<Rightarrow> PerBackend \<Rightarrow> PerBackend option" where
  "deallocOffset offset sz b =
     (case nextLog2 sz of
        None \<Rightarrow> None
      | Some k \<Rightarrow>
          if nextLoc b = offset + 2 ^ k then Some (b\<lparr>nextLoc := offset\<rparr>)
          else Some (b\<lparr>freeOffsets := (freeOffsets b)[k := freeOffsets b ! k @ [offset]]\<rparr>))"

section \<open>Blocks\<close>

text \<open>\<open>covers\<close> counts the blocks that contain a byte; a block is an offset and the logarithm of its size.\<close>

definition covers :: "(nat \<times> nat) list \<Rightarrow> nat \<Rightarrow> nat" where
  "covers bs x = (\<Sum>(off, k)\<leftarrow>bs. of_bool (off \<le> x \<and> x < off + 2 ^ k))"

definition free_blocks :: "nat list list \<Rightarrow> (nat \<times> nat) list" where
  "free_blocks fs = concat (map (\<lambda>k. map (\<lambda>off. (off, k)) (fs ! k)) [0..<length fs])"

definition storage_ok :: "nat \<Rightarrow> PerBackend \<Rightarrow> (nat \<times> nat) list \<Rightarrow> bool" where
  "storage_ok allocSize b used \<longleftrightarrow> length (freeOffsets b) = MAX_SIZE \<and> nextLoc b \<le> allocSize \<and>
     (\<forall>x. covers used x + covers (free_blocks (freeOffsets b)) x \<le> of_bool (x < nextLoc b))"

lemma covers_simps [simp]:
  "covers [] x = 0" "covers ((off, k) # bs) x = of_bool (off \<le> x \<and> x < off + 2 ^ k) + covers bs x"
  "covers (as @ bs) x = covers as x + covers bs x"
  by (simp_all add: covers_def)

text \<open>What one class contributes; changing one list changes just that.\<close>

definition class_covers :: "nat \<Rightarrow> nat list \<Rightarrow> nat \<Rightarrow> nat" where
  "class_covers k offs x = covers (map (\<lambda>off. (off, k)) offs) x"

lemma class_covers_simps [simp]:
  "class_covers k [] x = 0"
  "class_covers k (as @ bs) x = class_covers k as x + class_covers k bs x"
  "class_covers k [off] x = of_bool (off \<le> x \<and> x < off + 2 ^ k)"
  by (simp_all add: class_covers_def)

lemma covers_free: "covers (free_blocks fs) x = (\<Sum>k<length fs. class_covers k (fs ! k) x)"
proof -
  have "covers (concat (map f ks)) x = (\<Sum>k\<leftarrow>ks. covers (f k) x)" for f :: "nat \<Rightarrow> (nat \<times> nat) list" and ks
    by (induction ks) simp_all
  then show ?thesis
    by (simp add: free_blocks_def class_covers_def interv_sum_list_conv_sum_set_nat atLeast0LessThan)
qed

lemma covers_free_update:
  assumes "i < length fs"
  shows "covers (free_blocks (fs[i := offs])) x + class_covers i (fs ! i) x =
    covers (free_blocks fs) x + class_covers i offs x"
proof -
  have "(\<Sum>k<length fs. class_covers k (fs[i := offs] ! k) x) =
      class_covers i offs x + (\<Sum>k\<in>{..<length fs} - {i}. class_covers k (fs[i := offs] ! k) x)"
    using assms by (subst sum.remove [of _ i]) auto
  also have "(\<Sum>k\<in>{..<length fs} - {i}. class_covers k (fs[i := offs] ! k) x) =
      (\<Sum>k\<in>{..<length fs} - {i}. class_covers k (fs ! k) x)"
    by (rule sum.cong) auto
  finally show ?thesis
    using assms sum.remove [of "{..<length fs}" i "\<lambda>k. class_covers k (fs ! k) x"] by (simp add: covers_free)
qed

lemma covers_push:
  "i < length fs \<Longrightarrow> covers (free_blocks (fs[i := fs ! i @ [off]])) x =
     covers (free_blocks fs) x + of_bool (off \<le> x \<and> x < off + 2 ^ i)"
  using covers_free_update [of i fs "fs ! i @ [off]" x] by simp

lemma covers_pop:
  assumes "i < length fs" "fs ! i \<noteq> []"
  shows "covers (free_blocks (fs[i := butlast (fs ! i)])) x +
      of_bool (last (fs ! i) \<le> x \<and> x < last (fs ! i) + 2 ^ i) = covers (free_blocks fs) x"
proof -
  have "class_covers i (fs ! i) x = class_covers i (butlast (fs ! i) @ [last (fs ! i)]) x" using assms(2) by simp
  then show ?thesis using covers_free_update [OF assms(1), of "butlast (fs ! i)" x] by simp
qed

lemma range_split:
  fixes s x p q :: nat
  shows "of_bool (s \<le> x \<and> x < s + p) + of_bool (s + p \<le> x \<and> x < s + p + q) =
   (of_bool (s \<le> x \<and> x < s + p + q) :: nat)"
  by auto

text \<open>The halves of the rest are the rest.\<close>

lemma change_loop_length [simp]: "length (change_loop i s e fs) = length fs"
  by (induction i arbitrary: s fs) auto

lemma change_loop_covers:
  assumes "i \<le> length fs" "k \<le> i" "e = s + (2 ^ i - 2 ^ k)"
  shows "covers (free_blocks (change_loop i s e fs)) x = covers (free_blocks fs) x + of_bool (s \<le> x \<and> x < e)"
  using assms
proof (induction i arbitrary: s fs)
  case (Suc i)
  show ?case
  proof (cases "k = Suc i")
    case False
    then have k: "k \<le> i" using Suc.prems(2) by simp
    have p: "(2 :: nat) ^ k \<le> 2 ^ i" using k by simp
    then have e: "e = s + 2 ^ i + (2 ^ i - 2 ^ k)" using Suc.prems(3) by (simp only: power_Suc)
    then have "s < e" by simp
    then have "covers (free_blocks (change_loop (Suc i) s e fs)) x =
        covers (free_blocks fs) x + of_bool (s \<le> x \<and> x < s + 2 ^ i) + of_bool (s + 2 ^ i \<le> x \<and> x < e)"
      using Suc.IH [of "fs[i := fs ! i @ [s]]" "s + 2 ^ i"] Suc.prems(1) k e covers_push [of i fs s x] by simp
    then show ?thesis using range_split [of s x "2 ^ i" "2 ^ i - 2 ^ k"] e by (simp only: add.assoc)
  qed (use Suc.prems in simp)
qed simp

section \<open>What the operations keep\<close>

declare log2_loop.simps [simp del] find_index.simps [simp del]

lemma log2_loop_le: "i \<le> log2_loop i sz \<and> sz \<le> 2 ^ log2_loop i sz"
proof (induction i sz rule: log2_loop.induct)
  case (1 i sz)
  then show ?case by (cases "2 ^ i < sz") (simp_all add: log2_loop.simps [of i sz])
qed

lemma nextLog2_Some: "nextLog2 sz = Some k \<Longrightarrow> k < MAX_SIZE \<and> sz \<le> 2 ^ k"
  using log2_loop_le [of MIN_SIZE sz] by (auto simp: nextLog2_def Let_def split: if_splits)

lemma find_index_spec:
  "index \<le> find_index fs index \<and> (index \<le> MAX_SIZE \<longrightarrow> find_index fs index \<le> MAX_SIZE) \<and>
   (find_index fs index < MAX_SIZE \<longrightarrow> fs ! find_index fs index \<noteq> [])"
proof (induction fs index rule: find_index.induct)
  case (1 fs index)
  then show ?case
    by (cases "index < MAX_SIZE \<and> fs ! index = []") (auto simp: find_index.simps [of fs index])
qed

lemma allocOffset_ok:
  assumes ok: "storage_ok A b used" and a: "allocOffset A sz b = Some (off, b')"
    and k: "nextLog2 sz = Some k"
  shows "storage_ok A b' ((off, k) # used)"
proof -
  let ?fs = "freeOffsets b"
  have len: "length ?fs = MAX_SIZE" "nextLoc b \<le> A"
    and cov: "covers used x + covers (free_blocks ?fs) x \<le> of_bool (x < nextLoc b)" for x
    using ok by (auto simp: storage_ok_def)
  have kM: "k < MAX_SIZE" using nextLog2_Some [OF k] by simp
  show ?thesis
  proof (cases "nextLoc b + 2 ^ k \<le> A")
    case True
    then have b': "off = nextLoc b" "b' = b\<lparr>nextLoc := nextLoc b + 2 ^ k\<rparr>"
      using a k by (auto simp: allocOffset_def Let_def)
    have "of_bool (nextLoc b \<le> x \<and> x < nextLoc b + 2 ^ k) + (covers used x + covers (free_blocks ?fs) x)
        \<le> of_bool (x < nextLoc b + 2 ^ k)" for x
      using cov [of x] by (cases "x < nextLoc b") auto
    then show ?thesis using len True by (simp add: storage_ok_def b' add.assoc)
  next
    case bump: False
    have same: "storage_ok A b' ((off, k) # used)"
      if "b' = b\<lparr>freeOffsets := fs'\<rparr>" "length fs' = MAX_SIZE"
        "\<And>x. covers (free_blocks fs') x + of_bool (off \<le> x \<and> x < off + 2 ^ k) = covers (free_blocks ?fs) x" for fs'
    proof -
      have "covers ((off, k) # used) x + covers (free_blocks fs') x \<le> of_bool (x < nextLoc b)" for x
        using cov [of x] that(3) [of x] by simp
      then show ?thesis using that(1,2) len by (simp add: storage_ok_def)
    qed
    show ?thesis
    proof (cases "?fs ! k = []")
      case False
      then have "off = last (?fs ! k)" "b' = b\<lparr>freeOffsets := ?fs[k := butlast (?fs ! k)]\<rparr>"
        using a k bump by (auto simp: allocOffset_def Let_def)
      then show ?thesis using False kM len covers_pop [of k ?fs]
        by (intro same [of "?fs[k := butlast (?fs ! k)]"]) simp_all
    next
      case True
      let ?i = "find_index ?fs k"
      have i: "k \<le> ?i" "?i < MAX_SIZE" "?fs ! ?i \<noteq> []"
        using a k bump True find_index_spec [of k ?fs] kM
        by (auto simp: allocOffset_def Let_def split: if_splits)
      let ?fs1 = "?fs[?i := butlast (?fs ! ?i)]"
      have b': "off = last (?fs ! ?i)"
        "b' = b\<lparr>freeOffsets := change_loop ?i (off + 2 ^ k) (off + 2 ^ ?i) ?fs1\<rparr>"
        using a k bump True i(2) by (auto simp: allocOffset_def Let_def)
      have le: "(2 :: nat) ^ k \<le> 2 ^ ?i" using i(1) by simp
      have "covers (free_blocks (change_loop ?i (off + 2 ^ k) (off + 2 ^ ?i) ?fs1)) x +
          of_bool (off \<le> x \<and> x < off + 2 ^ k) = covers (free_blocks ?fs) x" for x
      proof -
        have e: "off + 2 ^ k + (2 ^ ?i - 2 ^ k) = off + 2 ^ ?i" using le by simp
        have "covers (free_blocks (change_loop ?i (off + 2 ^ k) (off + 2 ^ ?i) ?fs1)) x =
            covers (free_blocks ?fs1) x + of_bool (off + 2 ^ k \<le> x \<and> x < off + 2 ^ ?i)"
          by (rule change_loop_covers [OF _ i(1)]) (use i(2) len e in simp_all)
        moreover have "covers (free_blocks ?fs1) x + of_bool (off \<le> x \<and> x < off + 2 ^ ?i) =
            covers (free_blocks ?fs) x"
          unfolding b'(1) by (rule covers_pop) (use i len in simp_all)
        ultimately show ?thesis using range_split [of off x "2 ^ k" "2 ^ ?i - 2 ^ k", unfolded e] by linarith
      qed
      then show ?thesis by (intro same [OF b'(2)]) (simp_all add: len)
    qed
  qed
qed

lemma deallocOffset_ok:
  assumes ok: "storage_ok A b (as @ (off, k) # bs)" and k: "nextLog2 sz = Some k"
    and d: "deallocOffset off sz b = Some b'"
  shows "storage_ok A b' (as @ bs)"
proof -
  have len: "length (freeOffsets b) = MAX_SIZE" "nextLoc b \<le> A"
    and cov: "covers (as @ bs) x + of_bool (off \<le> x \<and> x < off + 2 ^ k) + covers (free_blocks (freeOffsets b)) x
      \<le> of_bool (x < nextLoc b)" for x
    using ok by (auto simp: storage_ok_def ac_simps)
  show ?thesis
  proof (cases "nextLoc b = off + 2 ^ k")
    case True
    then have b': "b' = b\<lparr>nextLoc := off\<rparr>" using d k by (simp add: deallocOffset_def)
    have "covers (as @ bs) x + covers (free_blocks (freeOffsets b)) x \<le> of_bool (x < off)" for x
      using cov [of x] True by (cases "x < off"; cases "x < off + 2 ^ k") auto
    then show ?thesis using len True by (simp add: storage_ok_def b')
  next
    case False
    then have b': "b' = b\<lparr>freeOffsets := (freeOffsets b)[k := freeOffsets b ! k @ [off]]\<rparr>"
      using d k by (simp add: deallocOffset_def)
    show ?thesis
      using len cov nextLog2_Some [OF k] covers_push [of k "freeOffsets b" off]
      by (simp add: storage_ok_def b' ac_simps)
  qed
qed

section \<open>Properties\<close>

text \<open>
  The life of the allocator: storage objects are made and destroyed in any order; \<open>live\<close> lists
  their offsets and sizes.
\<close>

datatype storage_op = Alloc nat | Free nat

fun storage_run ::
    "nat \<Rightarrow> storage_op list \<Rightarrow> PerBackend \<Rightarrow> (nat \<times> nat) list \<Rightarrow> (PerBackend \<times> (nat \<times> nat) list) option" where
  "storage_run A [] b live = Some (b, live)"
| "storage_run A (Alloc sz # ops) b live =
     (case allocOffset A sz b of None \<Rightarrow> None | Some (off, b1) \<Rightarrow> storage_run A ops b1 ((off, sz) # live))"
| "storage_run A (Free i # ops) b live =
     (if i < length live then
        case deallocOffset (fst (live ! i)) (snd (live ! i)) b of
          None \<Rightarrow> None
        | Some b1 \<Rightarrow> storage_run A ops b1 (take i live @ drop (Suc i) live)
      else None)"

definition blocks :: "(nat \<times> nat) list \<Rightarrow> (nat \<times> nat) list" where
  "blocks live = map (\<lambda>(off, sz). (off, the (nextLog2 sz))) live"

lemma storage_run_ok:
  "storage_run A ops b live = Some (b', live') \<Longrightarrow> storage_ok A b (blocks live) \<Longrightarrow>
   \<forall>(off, sz) \<in> set live. nextLog2 sz \<noteq> None \<Longrightarrow>
   storage_ok A b' (blocks live') \<and> (\<forall>(off, sz) \<in> set live'. nextLog2 sz \<noteq> None)"
proof (induction A ops b live rule: storage_run.induct)
  case (2 A sz ops b live)
  then obtain off b1 where a: "allocOffset A sz b = Some (off, b1)"
    and r: "storage_run A ops b1 ((off, sz) # live) = Some (b', live')" by (auto split: option.splits)
  then obtain k where k: "nextLog2 sz = Some k" by (auto simp: allocOffset_def split: option.splits)
  have "storage_ok A b1 (blocks ((off, sz) # live))"
    using allocOffset_ok [OF "2.prems"(2) a k] k by (simp add: blocks_def)
  then show ?case by (rule "2.IH" [OF a refl r]) (use "2.prems"(3) k in simp)
next
  case (3 A i ops b live)
  then have i: "i < length live" by (auto split: if_splits)
  obtain off sz where l: "live ! i = (off, sz)" by fastforce
  have live: "live = take i live @ (off, sz) # drop (Suc i) live" using id_take_nth_drop [OF i] l by simp
  from "3.prems"(1) i l obtain b1 where d: "deallocOffset off sz b = Some b1"
    and r: "storage_run A ops b1 (take i live @ drop (Suc i) live) = Some (b', live')"
    by (auto split: option.splits)
  from l i "3.prems"(3) obtain k where k: "nextLog2 sz = Some k" using nth_mem [OF i] by fastforce
  have "storage_ok A b (blocks (take i live) @ (off, k) # blocks (drop (Suc i) live))"
    using "3.prems"(2) by (subst (asm) live) (simp add: blocks_def k)
  from deallocOffset_ok [OF this k d] have "storage_ok A b1 (blocks (take i live @ drop (Suc i) live))"
    by (simp add: blocks_def)
  moreover have "\<forall>(off, sz) \<in> set (take i live @ drop (Suc i) live). nextLog2 sz \<noteq> None"
    using "3.prems"(3) by (auto dest: in_set_takeD in_set_dropD)
  moreover have "deallocOffset (fst (live ! i)) (snd (live ! i)) b = Some b1" using d l by simp
  ultimately show ?case using "3.IH" [OF i _ r] by blast
qed simp

lemma PerBackend_init_ok: "storage_ok A PerBackend_init []"
proof -
  have "free_blocks (replicate MAX_SIZE []) = []" by (simp add: free_blocks_def)
  then show ?thesis by (simp add: storage_ok_def PerBackend_init_def)
qed

lemma covers_pos: "(off, k) \<in> set bs \<Longrightarrow> off \<le> x \<Longrightarrow> x < off + 2 ^ k \<Longrightarrow> 0 < covers bs x"
  by (induction bs) auto

lemma covers_disjoint:
  assumes "i < j" "j < length bs" "covers bs x \<le> 1"
    and "fst (bs ! i) \<le> x" "x < fst (bs ! i) + 2 ^ snd (bs ! i)"
  shows "\<not> (fst (bs ! j) \<le> x \<and> x < fst (bs ! j) + 2 ^ snd (bs ! j))"
proof
  assume x: "fst (bs ! j) \<le> x \<and> x < fst (bs ! j) + 2 ^ snd (bs ! j)"
  have "bs = take j bs @ bs ! j # drop (Suc j) bs" using assms(2) by (rule id_take_nth_drop)
  then have "covers bs x = covers (take j bs) x + covers [bs ! j] x + covers (drop (Suc j) bs) x"
    using covers_simps(3) by (metis append_Cons append_Nil add.assoc)
  moreover have "bs ! i \<in> set (take j bs)" using assms(1,2) by (auto simp: in_set_conv_nth)
  then have "0 < covers (take j bs) x"
    using covers_pos [of "fst (bs ! i)" "snd (bs ! i)"] assms(4,5) by simp
  moreover have "covers [bs ! j] x = 1" using x by (cases "bs ! j") simp
  ultimately show False using assms(3) by simp
qed

text \<open>
  C28: However storage objects are created and destroyed, the blocks of those alive never overlap, none
  reaches beyond the storage of a thread, and each is as large as was asked for.
\<close>

theorem thread_storage_disjoint:
  assumes "storage_run A ops PerBackend_init [] = Some (b, live)"
  shows "(\<forall>(off, sz) \<in> set live. off + sz \<le> A) \<and>
    (\<forall>i j. i < j \<longrightarrow> j < length live \<longrightarrow>
       {fst (live ! i)..<fst (live ! i) + snd (live ! i)} \<inter> {fst (live ! j)..<fst (live ! j) + snd (live ! j)} = {})"
proof -
  have ok: "storage_ok A b (blocks live)" and sizes: "\<forall>(off, sz) \<in> set live. nextLog2 sz \<noteq> None"
    using storage_run_ok [OF assms] PerBackend_init_ok by (simp_all add: blocks_def)
  have cov: "covers (blocks live) x \<le> of_bool (x < nextLoc b)" for x
    using ok unfolding storage_ok_def by (metis add_leD1)
  have le: "sz \<le> 2 ^ the (nextLog2 sz)" if "(off, sz) \<in> set live" for off sz
    using sizes that nextLog2_Some by fastforce
  have "off + sz \<le> A" if m: "(off, sz) \<in> set live" for off sz
  proof -
    let ?k = "the (nextLog2 sz)" and ?x = "off + 2 ^ the (nextLog2 sz) - 1"
    have p: "(0 :: nat) < 2 ^ ?k" by simp
    have "(off, ?k) \<in> set (blocks live)" using m by (force simp: blocks_def)
    then have "0 < covers (blocks live) ?x" by (rule covers_pos) (use p in linarith)+
    then have "?x < nextLoc b" using cov [of ?x] by (cases "?x < nextLoc b") simp_all
    then have "off + 2 ^ ?k \<le> A" using ok p unfolding storage_ok_def by linarith
    then show ?thesis using le [OF m] by simp
  qed
  moreover have "{fst (live ! i)..<fst (live ! i) + snd (live ! i)} \<inter>
      {fst (live ! j)..<fst (live ! j) + snd (live ! j)} = {}" if ij: "i < j" "j < length live" for i j
  proof (rule ccontr)
    assume "\<not> ?thesis"
    then obtain x where x: "fst (live ! i) \<le> x" "x < fst (live ! i) + snd (live ! i)"
      "fst (live ! j) \<le> x" "x < fst (live ! j) + snd (live ! j)"
      by (metis (no_types, lifting) Int_iff atLeastLessThan_iff ex_in_conv)
    have b: "blocks live ! m = (fst (live ! m), the (nextLog2 (snd (live ! m))))"
      "snd (live ! m) \<le> 2 ^ the (nextLog2 (snd (live ! m)))" if "m < length live" for m
      using that le [of "fst (live ! m)" "snd (live ! m)"] by (simp_all add: blocks_def case_prod_unfold)
    have "covers (blocks live) x \<le> 1" using cov [of x] by (cases "x < nextLoc b") simp_all
    from covers_disjoint [OF ij(1) _ this] show False
      using b [OF ij(2)] b [of i] ij x by (fastforce simp: blocks_def)
  qed
  ultimately show ?thesis by blast
qed

theorem thread_storage_disjoint_witness:
  "map_option snd (storage_run 64 [Alloc 20, Alloc 8, Alloc 16, Free 2, Alloc 5, Alloc 10] PerBackend_init []) =
     Some [(0, 10), (56, 5), (40, 16), (32, 8)] \<and>
   {0 :: nat..<10} \<inter> {56..<61} = {}"
proof -
  let ?r = "storage_run 64 [Alloc 20, Alloc 8, Alloc 16, Free 2, Alloc 5, Alloc 10] PerBackend_init []"
  have v: "map_option snd ?r = Some [(0, 10), (56, 5), (40, 16), (32, 8)]" by code_simp
  then obtain b where r: "?r = Some (b, [(0, 10), (56, 5), (40, 16), (32, 8)])" by auto
  note d = conjunct2 [OF thread_storage_disjoint [OF r], rule_format, of 0 1]
  have "{0 :: nat..<10} \<inter> {56..<61} = {}" using d by simp
  with v show ?thesis by simp
qed

end
