(* ===== verification/PtrLock.thy ===== *)
theory PtrLock
  imports Prelude
begin

text \<open>
  \<open>PtrLock\<close> of \<open>Runtime/ll/PtrLock.h\<close>, a pointer whose lowest bit is a spin lock, and
  \<open>SimpleLock\<close> of \<open>Runtime/ll/SimpleLock.h\<close>; and the lists threaded through the objects
  themselves that both the conflict detection and the chunk lists of the worklists keep.
\<close>

unbundle bit_operations_syntax

section \<open>A pointer with a lock bit\<close>

text \<open>Each operation takes the word in memory; a pointer is even.\<close>

definition pl_is_locked :: "u64 \<Rightarrow> bool" where "pl_is_locked w \<longleftrightarrow> w AND 1 \<noteq> 0"

definition pl_getValue :: "u64 \<Rightarrow> u64" where "pl_getValue w = w AND NOT 1"

definition pl_setValue :: "u64 \<Rightarrow> u64 \<Rightarrow> u64" where "pl_setValue val w = val OR (w AND 1)"

definition pl_unlock :: "u64 \<Rightarrow> u64" where "pl_unlock w = w AND NOT 1"

definition pl_unlock_and_clear :: "u64 \<Rightarrow> u64" where "pl_unlock_and_clear w = 0"

definition pl_unlock_and_set :: "u64 \<Rightarrow> u64 \<Rightarrow> u64" where "pl_unlock_and_set val w = val"

definition pl_try_lock :: "u64 \<Rightarrow> bool \<times> u64" where
  "pl_try_lock w =
     (let oldval = w in
      if oldval AND 1 \<noteq> 0 then (False, w)
      else let oldval = w in (\<not> oldval AND 1 \<noteq> 0, w OR 1))"

definition pl_CAS :: "u64 \<Rightarrow> u64 \<Rightarrow> u64 \<Rightarrow> bool \<times> u64" where
  "pl_CAS oldval newval w = (if w = oldval then (True, newval) else (False, w))"

definition pl_stealing_CAS :: "u64 \<Rightarrow> u64 \<Rightarrow> u64 \<Rightarrow> bool \<times> u64" where
  "pl_stealing_CAS oldval newval w = (if w = 1 OR oldval then (True, 1 OR newval) else (False, w))"

text \<open>
  \<open>lock\<close> without another thread: it spins for ever on a locked word. The weak exchange may fail
  without reason, which \<open>weak_fails\<close> says.
\<close>

partial_function (option) pl_slow_lock :: "u64 \<Rightarrow> u64 option" where
  "pl_slow_lock w =
     (if w AND 1 \<noteq> 0 then pl_slow_lock w
      else
        let oldval = w; w1 = w OR 1
        in if oldval AND 1 \<noteq> 0 then pl_slow_lock w1 else Some w1)"

definition pl_lock :: "bool \<Rightarrow> u64 \<Rightarrow> u64 option" where
  "pl_lock weak_fails w =
     (if w AND 1 \<noteq> 0 then pl_slow_lock w
      else if weak_fails then pl_slow_lock w
      else Some (w OR 1))"

lemma pl_locked_iff: "pl_is_locked w \<longleftrightarrow> odd w"
  by (simp add: pl_is_locked_def and_one_eq odd_iff_mod_2_eq_one mod2_eq_if)

lemma even_and_1 [simp]: "even (w :: u64) \<Longrightarrow> w AND 1 = 0"
  by (simp add: and_one_eq mod2_eq_if)

lemma odd_and_1 [simp]: "odd (w :: u64) \<Longrightarrow> w AND 1 = 1"
  by (simp add: and_one_eq mod2_eq_if)

lemma odd_or_1 [simp]: "odd ((w :: u64) OR 1)"
  by (simp add: even_or_iff)

lemma getValue_or_1 [simp]: "even w \<Longrightarrow> pl_getValue (w OR 1) = w"
  by (rule bit_eqI) (auto simp: pl_getValue_def bit_simps bit_0)

lemma getValue_even [simp]: "even w \<Longrightarrow> pl_getValue w = w"
  by (rule bit_eqI) (auto simp: pl_getValue_def bit_simps bit_0)

lemma getValue_1 [simp]: "pl_getValue 1 = 0"
  using getValue_or_1 [of 0] by simp

lemma or_1_inject: "even v \<Longrightarrow> even w \<Longrightarrow> v OR 1 = w OR (1 :: u64) \<longleftrightarrow> v = w"
  by (metis getValue_or_1)

lemma pl_try_lock_simps [simp]:
  "even w \<Longrightarrow> pl_try_lock w = (True, w OR 1)"
  "odd w \<Longrightarrow> pl_try_lock w = (False, w)"
  by (simp_all add: pl_try_lock_def)

text \<open>
  The lock bit and the pointer do not disturb each other: taking the lock keeps the pointer, storing a
  pointer keeps the lock, and releasing keeps or sets the pointer as named.
\<close>

lemma pl_lock_pointer:
  assumes "even w" "even val"
  shows "pl_lock weak w = Some (w OR 1)" "pl_getValue (w OR 1) = w"
    "pl_setValue val (w OR 1) = val OR 1" "pl_setValue val w = val"
    "pl_unlock (w OR 1) = w"
  using assms getValue_or_1 [of w] unfolding pl_getValue_def
  by (simp_all add: pl_lock_def pl_setValue_def pl_slow_lock.simps pl_unlock_def)

lemma pl_slow_lock_sound:
  assumes "pl_slow_lock w = Some w'"
  shows "even w \<and> w' = w OR 1"
proof (rule pl_slow_lock.raw_induct [OF _ assms])
  fix f :: "u64 \<Rightarrow> u64 option" and w w' :: u64
  assume "\<And>x y. f x = Some y \<Longrightarrow> even x \<and> y = x OR 1"
    "(if w AND 1 \<noteq> 0 then f w
      else let oldval = w; w1 = w OR 1 in if oldval AND 1 \<noteq> 0 then f w1 else Some w1) = Some w'"
  then show "even w \<and> w' = w OR 1" by (cases "even w") auto
qed

lemma pl_lock_sound: "pl_lock weak w = Some w' \<Longrightarrow> even w \<and> w' = w OR 1"
  using pl_slow_lock_sound [of w w'] by (cases "even w") (auto simp: pl_lock_def split: if_splits)

text \<open>The exchange for unlocked words never takes a locked one, the stealing one only takes a locked one.\<close>

lemma pl_CAS_unlocked: "even oldval \<Longrightarrow> odd w \<Longrightarrow> pl_CAS oldval newval w = (False, w)"
  by (auto simp: pl_CAS_def)

lemma pl_stealing_CAS_locked:
  assumes "even oldval" "even newval"
  shows "pl_stealing_CAS oldval newval w =
    (if pl_is_locked w \<and> pl_getValue w = oldval then (True, newval OR 1) else (False, w))"
proof -
  have "w = 1 OR oldval \<longleftrightarrow> pl_is_locked w \<and> pl_getValue w = oldval"
  proof
    assume "pl_is_locked w \<and> pl_getValue w = oldval"
    then have "odd w" "w AND NOT 1 = oldval" by (simp_all add: pl_locked_iff pl_getValue_def)
    then show "w = 1 OR oldval" by (auto intro!: bit_eqI simp: bit_simps bit_0)
  qed (use assms in \<open>simp add: pl_locked_iff or.commute [of 1]\<close>)
  then show ?thesis by (simp add: pl_stealing_CAS_def or.commute [of 1])
qed

section \<open>Lists threaded through the objects\<close>

text \<open>\<open>linked nx h xs\<close>: from the pointer \<open>h\<close> the fields \<open>next\<close> run through \<open>xs\<close> to the null pointer.\<close>

fun linked :: "('p \<Rightarrow> 'p option) \<Rightarrow> 'p option \<Rightarrow> 'p list \<Rightarrow> bool" where
  "linked nx h [] \<longleftrightarrow> h = None"
| "linked nx h (x # xs) \<longleftrightarrow> h = Some x \<and> linked nx (nx x) xs"

lemma linked_None [simp]: "linked nx None xs \<longleftrightarrow> xs = []"
  by (cases xs) auto

lemma linked_Some [simp]: "linked nx (Some x) xs \<longleftrightarrow> (\<exists>ys. xs = x # ys \<and> linked nx (nx x) ys)"
  by (cases xs) auto

lemma linked_cong: "(\<And>x. x \<in> set xs \<Longrightarrow> nx x = nx' x) \<Longrightarrow> linked nx h xs = linked nx' h xs"
  by (induction xs arbitrary: h) auto

lemma linked_upd [simp]: "x \<notin> set xs \<Longrightarrow> linked (nx(x := q)) h xs = linked nx h xs"
  by (rule linked_cong) auto

lemma linked_fun: "linked nx h xs \<Longrightarrow> linked nx h ys \<Longrightarrow> xs = ys"
  by (induction xs arbitrary: h ys) auto

end
