(* ===== verification/ConflictDetection.thy ===== *)
theory ConflictDetection
  imports PtrLock
begin

text \<open>
  Conflict detection of \<open>src/Context.cpp\<close> and \<open>Runtime/Context.h\<close>: an iteration acquires the objects
  it touches, each a \<open>PtrLock\<close> to the context of its owner, and keeps them in a list through the
  objects; at its end or at a conflict it gives them back. Every access to shared memory is a step.
  A context without \<open>customAcquire\<close> belongs to each thread \<open>t\<close>, at the address \<open>this t\<close>; objects are numbers.
\<close>

section \<open>Which calls lock\<close>

definition MF_ALL :: u32 where "MF_ALL = 3"
definition MF_CHECK_CONFLICT :: u32 where "MF_CHECK_CONFLICT = 1"
definition MF_SAVE_UNDO :: u32 where "MF_SAVE_UNDO = 2"
definition MF_NONE :: u32 where "MF_NONE = 0"

definition shouldLock :: "u32 \<Rightarrow> bool" where
  "shouldLock g =
     (let m = g AND MF_ALL in
      if m = MF_NONE \<or> m = MF_SAVE_UNDO then False
      else if m = MF_ALL \<or> m = MF_CHECK_CONFLICT then True
      else False)"

section \<open>State and steps\<close>

text \<open>
  The points before each access. \<open>Try_load\<close>, \<open>Try_or\<close> are \<open>try_lock\<close>, \<open>Set_load\<close>, \<open>Set_store\<close> are
  \<open>setValue\<close>, \<open>Own_test\<close> is \<open>getOwner\<close>, \<open>Link\<close> and \<open>Head\<close> are \<open>addToNhood\<close>, the others \<open>commitIteration\<close>.
\<close>

datatype cpc =
    Running
  | Try_load nat | Try_or nat | Set_load nat | Set_store nat u64 | Own_test nat | Link nat | Head nat
  | Commit | Next nat | Clear nat | Rel nat

record ctxs =
  cpcs :: "nat \<Rightarrow> cpc"
  owner :: "nat \<Rightarrow> u64"
  nxt :: "nat \<Rightarrow> nat option"
  locks :: "nat \<Rightarrow> nat option"
  numLocks :: "nat \<Rightarrow> nat"

definition ctx_init :: ctxs where
  "ctx_init =
     \<lparr>cpcs = \<lambda>_. Running, owner = \<lambda>_. 0, nxt = \<lambda>_. None, locks = \<lambda>_. None, numLocks = \<lambda>_. 0\<rparr>"

definition cgoto :: "nat \<Rightarrow> cpc \<Rightarrow> ctxs \<Rightarrow> ctxs" where "cgoto t p s = s\<lparr>cpcs := (cpcs s)(t := p)\<rparr>"

definition set_owner :: "nat \<Rightarrow> u64 \<Rightarrow> ctxs \<Rightarrow> ctxs" where "set_owner l w s = s\<lparr>owner := (owner s)(l := w)\<rparr>"

definition set_next :: "nat \<Rightarrow> nat option \<Rightarrow> ctxs \<Rightarrow> ctxs" where "set_next l p s = s\<lparr>nxt := (nxt s)(l := p)\<rparr>"

definition set_locks :: "nat \<Rightarrow> nat option \<Rightarrow> ctxs \<Rightarrow> ctxs" where
  "set_locks t p s = s\<lparr>locks := (locks s)(t := p)\<rparr>"

definition set_numLocks :: "nat \<Rightarrow> nat \<Rightarrow> ctxs \<Rightarrow> ctxs" where
  "set_numLocks t n s = s\<lparr>numLocks := (numLocks s)(t := n)\<rparr>"

text \<open>A conflict ends the iteration: the executor catches it and calls \<open>cancelIteration\<close>, which commits.\<close>

inductive ctx_step :: "(nat \<Rightarrow> u64) \<Rightarrow> nat \<Rightarrow> ctxs \<Rightarrow> ctxs \<Rightarrow> bool" for this t where
  acquire: "cpcs s t = Running \<Longrightarrow> ctx_step this t s (cgoto t (Try_load l) s)"
| try_load: "cpcs s t = Try_load l \<Longrightarrow>
    ctx_step this t s (cgoto t (if owner s l AND 1 \<noteq> 0 then Own_test l else Try_or l) s)"
| try_or: "cpcs s t = Try_or l \<Longrightarrow>
    ctx_step this t s (cgoto t (if owner s l AND 1 \<noteq> 0 then Own_test l else Set_load l)
      (set_owner l (owner s l OR 1) s))"
| set_load: "cpcs s t = Set_load l \<Longrightarrow>
    ctx_step this t s (cgoto t (Set_store l (this t OR (owner s l AND 1))) s)"
| set_store: "cpcs s t = Set_store l v \<Longrightarrow> ctx_step this t s (cgoto t (Link l) (set_owner l v s))"
| own_already: "cpcs s t = Own_test l \<Longrightarrow> pl_getValue (owner s l) = this t \<Longrightarrow>
    ctx_step this t s (cgoto t Running s)"
| own_conflict: "cpcs s t = Own_test l \<Longrightarrow> pl_getValue (owner s l) \<noteq> this t \<Longrightarrow>
    ctx_step this t s (cgoto t Commit (set_numLocks t 0 s))"
| link: "cpcs s t = Link l \<Longrightarrow> ctx_step this t s (cgoto t (Head l) (set_next l (locks s t) s))"
| head: "cpcs s t = Head l \<Longrightarrow> ctx_step this t s (cgoto t Running (set_locks t (Some l) s))"
| finish: "cpcs s t = Running \<Longrightarrow> ctx_step this t s (cgoto t Commit (set_numLocks t 0 s))"
| commit_end: "cpcs s t = Commit \<Longrightarrow> locks s t = None \<Longrightarrow> ctx_step this t s (cgoto t Running s)"
| commit: "cpcs s t = Commit \<Longrightarrow> locks s t = Some l \<Longrightarrow> ctx_step this t s (cgoto t (Next l) s)"
| unlink: "cpcs s t = Next l \<Longrightarrow> ctx_step this t s (cgoto t (Clear l) (set_locks t (nxt s l) s))"
| clear: "cpcs s t = Clear l \<Longrightarrow> ctx_step this t s (cgoto t (Rel l) (set_next l None s))"
| release: "cpcs s t = Rel l \<Longrightarrow>
    ctx_step this t s (cgoto t Commit
      (set_numLocks t (numLocks s t + 1) (set_owner l (pl_unlock_and_clear (owner s l)) s)))"

text \<open>The next step of a thread as a function; \<open>choice\<close> is what the iteration does next when it runs.\<close>

definition ctx_exec :: "(nat \<Rightarrow> u64) \<Rightarrow> nat \<Rightarrow> nat option \<Rightarrow> ctxs \<Rightarrow> ctxs" where
  "ctx_exec this t choice s =
     (case cpcs s t of
        Running \<Rightarrow> (case choice of Some l \<Rightarrow> cgoto t (Try_load l) s | None \<Rightarrow> cgoto t Commit (set_numLocks t 0 s))
      | Try_load l \<Rightarrow> cgoto t (if owner s l AND 1 \<noteq> 0 then Own_test l else Try_or l) s
      | Try_or l \<Rightarrow>
          cgoto t (if owner s l AND 1 \<noteq> 0 then Own_test l else Set_load l) (set_owner l (owner s l OR 1) s)
      | Set_load l \<Rightarrow> cgoto t (Set_store l (this t OR (owner s l AND 1))) s
      | Set_store l v \<Rightarrow> cgoto t (Link l) (set_owner l v s)
      | Own_test l \<Rightarrow>
          if pl_getValue (owner s l) = this t then cgoto t Running s else cgoto t Commit (set_numLocks t 0 s)
      | Link l \<Rightarrow> cgoto t (Head l) (set_next l (locks s t) s)
      | Head l \<Rightarrow> cgoto t Running (set_locks t (Some l) s)
      | Commit \<Rightarrow> (case locks s t of None \<Rightarrow> cgoto t Running s | Some l \<Rightarrow> cgoto t (Next l) s)
      | Next l \<Rightarrow> cgoto t (Clear l) (set_locks t (nxt s l) s)
      | Clear l \<Rightarrow> cgoto t (Rel l) (set_next l None s)
      | Rel l \<Rightarrow>
          cgoto t Commit
            (set_numLocks t (numLocks s t + 1) (set_owner l (pl_unlock_and_clear (owner s l)) s)))"

lemma ctx_step_iff_exec: "ctx_step this t s s' \<longleftrightarrow> (\<exists>choice. s' = ctx_exec this t choice s)"
proof
  assume "ctx_step this t s s'"
  then show "\<exists>choice. s' = ctx_exec this t choice s"
  proof cases
    case (acquire l)
    then show ?thesis by (intro exI [of _ "Some l"]) (simp add: ctx_exec_def)
  qed (intro exI [of _ None]; simp add: ctx_exec_def)+
next
  assume "\<exists>choice. s' = ctx_exec this t choice s"
  then obtain choice where s': "s' = ctx_exec this t choice s" by blast
  show "ctx_step this t s s'"
    unfolding s' ctx_exec_def
    using ctx_step.link [of s t _ this] ctx_step.release [of s t _ this]
    by (cases "cpcs s t"; cases choice; cases "locks s t") (simp_all add: ctx_step.intros)
qed

fun ctx_run :: "(nat \<Rightarrow> u64) \<Rightarrow> (nat \<times> nat option) list \<Rightarrow> ctxs \<Rightarrow> ctxs" where
  "ctx_run this [] s = s"
| "ctx_run this ((t, choice) # cs) s = ctx_run this cs (ctx_exec this t choice s)"

inductive ctx_reach :: "nat \<Rightarrow> (nat \<Rightarrow> u64) \<Rightarrow> ctxs \<Rightarrow> bool" for nT this where
  start: "ctx_reach nT this ctx_init"
| step: "ctx_reach nT this s \<Longrightarrow> t < nT \<Longrightarrow> ctx_step this t s s' \<Longrightarrow> ctx_reach nT this s'"

text \<open>The addresses of the contexts of the \<open>nT\<close> threads: distinct, aligned, not null.\<close>

definition addresses_ok :: "nat \<Rightarrow> (nat \<Rightarrow> u64) \<Rightarrow> bool" where
  "addresses_ok nT this \<longleftrightarrow> inj_on this {..<nT} \<and> (\<forall>t<nT. even (this t) \<and> this t \<noteq> 0)"

text \<open>
  The assertions of \<open>addToNhood\<close>, \<open>release\<close> and \<open>unlock_and_clear\<close>. The one of \<open>startIteration\<close>, that the list of locks is
  empty, is the test the loop of the commit before it ended on (\<open>commit_end\<close>), and no other step of the context lies between.
\<close>

definition ctx_asserts :: "(nat \<Rightarrow> u64) \<Rightarrow> ctxs \<Rightarrow> bool" where
  "ctx_asserts this s \<longleftrightarrow> (\<forall>t l.
     (cpcs s t = Link l \<longrightarrow> nxt s l = None) \<and>
     (cpcs s t = Rel l \<longrightarrow>
        nxt s l = None \<and> pl_is_locked (owner s l) \<and> pl_getValue (owner s l) = this t))"

section \<open>The invariant\<close>

text \<open>
  An object a thread owns is in its list or, while it is taken or given back, in its hands; then its
  fields are what the point of the code says.
\<close>

fun in_hand :: "cpc \<Rightarrow> nat set" where
  "in_hand (Set_load l) = {l}" | "in_hand (Set_store l v) = {l}" | "in_hand (Link l) = {l}"
| "in_hand (Head l) = {l}" | "in_hand (Clear l) = {l}" | "in_hand (Rel l) = {l}" | "in_hand _ = {}"

fun hand_owner :: "u64 \<Rightarrow> cpc \<Rightarrow> u64" where
  "hand_owner a (Set_load l) = 1" | "hand_owner a (Set_store l v) = 1" | "hand_owner a _ = a OR 1"

fun hand_next :: "nat option \<Rightarrow> cpc \<Rightarrow> nat option" where
  "hand_next h (Head l) = h" | "hand_next h (Clear l) = h" | "hand_next h _ = None"

fun point_ok :: "u64 \<Rightarrow> nat option \<Rightarrow> cpc \<Rightarrow> bool" where
  "point_ok a h (Set_store l v) = (v = a OR 1)" | "point_ok a h (Next l) = (h = Some l)" | "point_ok a h _ = True"

definition ctx_local :: "u64 \<Rightarrow> cpc \<Rightarrow> (nat \<Rightarrow> u64) \<Rightarrow> (nat \<Rightarrow> nat option) \<Rightarrow> nat option \<Rightarrow> nat list \<Rightarrow> bool" where
  "ctx_local a p ow nx h xs \<longleftrightarrow>
     linked nx h xs \<and> distinct xs \<and> set xs \<inter> in_hand p = {} \<and> point_ok a h p \<and>
     (\<forall>l\<in>set xs. ow l = a OR 1) \<and> (\<forall>l\<in>in_hand p. ow l = hand_owner a p \<and> nx l = hand_next h p)"

abbreviation ctx_local_at :: "(nat \<Rightarrow> u64) \<Rightarrow> ctxs \<Rightarrow> nat \<Rightarrow> nat list \<Rightarrow> bool" where
  "ctx_local_at this s t xs \<equiv> ctx_local (this t) (cpcs s t) (owner s) (nxt s) (locks s t) xs"

definition held :: "ctxs \<Rightarrow> (nat \<Rightarrow> nat list) \<Rightarrow> nat \<Rightarrow> nat set" where
  "held s nh t = set (nh t) \<union> in_hand (cpcs s t)"

definition ctx_ok :: "(nat \<Rightarrow> u64) \<Rightarrow> ctxs \<Rightarrow> (nat \<Rightarrow> nat list) \<Rightarrow> bool" where
  "ctx_ok this s nh \<longleftrightarrow>
     (\<forall>t. ctx_local_at this s t (nh t)) \<and>
     (\<forall>t u. t \<noteq> u \<longrightarrow> held s nh t \<inter> held s nh u = {}) \<and>
     (\<forall>l. (\<forall>t. l \<notin> held s nh t) \<longrightarrow> owner s l = 0 \<and> nxt s l = None)"

lemma ctx_local_frame:
  assumes "ctx_local a p ow nx h xs" "\<And>l. l \<in> set xs \<union> in_hand p \<Longrightarrow> ow' l = ow l \<and> nx' l = nx l"
  shows "ctx_local a p ow' nx' h xs"
  using assms linked_cong [of xs nx' nx h] by (auto simp: ctx_local_def)

text \<open>A step of thread \<open>t\<close> that touches nothing but what it owns or what nobody owns.\<close>

lemma ctx_ok_change:
  assumes ok: "ctx_ok this s nh"
    and same: "\<And>u. u \<noteq> t \<Longrightarrow> cpcs s' u = cpcs s u \<and> locks s' u = locks s u"
    and loc: "ctx_local_at this s' t xs"
    and new: "\<And>l. l \<in> set xs \<union> in_hand (cpcs s' t) \<Longrightarrow> l \<in> held s nh t \<or> (\<forall>u. l \<notin> held s nh u)"
    and frame: "\<And>l. l \<notin> set xs \<union> in_hand (cpcs s' t) \<Longrightarrow> l \<notin> held s nh t \<Longrightarrow>
      owner s' l = owner s l \<and> nxt s' l = nxt s l"
    and gone: "\<And>l. l \<notin> set xs \<union> in_hand (cpcs s' t) \<Longrightarrow> l \<in> held s nh t \<Longrightarrow>
      owner s' l = 0 \<and> nxt s' l = None"
  shows "ctx_ok this s' (nh(t := xs))"
proof -
  let ?nh = "nh(t := xs)"
  have h: "held s' ?nh u = (if u = t then set xs \<union> in_hand (cpcs s' t) else held s nh u)" for u
    using same by (simp add: held_def)
  have dis: "held s nh u \<inter> held s nh v = {}" if "u \<noteq> v" for u v using ok that by (auto simp: ctx_ok_def)
  have "ctx_local_at this s' u (?nh u)" for u
  proof (cases "u = t")
    case False
    have fr: "owner s' l = owner s l \<and> nxt s' l = nxt s l" if l: "l \<in> set (nh u) \<union> in_hand (cpcs s u)" for l
    proof (rule frame)
      have lu: "l \<in> held s nh u" using l by (simp add: held_def)
      then show "l \<notin> held s nh t" using dis [OF False] by auto
      then show "l \<notin> set xs \<union> in_hand (cpcs s' t)" using new lu by blast
    qed
    have "ctx_local_at this s u (nh u)" using ok by (simp add: ctx_ok_def)
    from ctx_local_frame [OF this, of "owner s'" "nxt s'"] fr show ?thesis using same [OF False] False by simp
  qed (use loc in simp)
  moreover have "held s' ?nh u \<inter> held s' ?nh v = {}" if uv: "u \<noteq> v" for u v
  proof -
    have "held s' ?nh t \<inter> held s nh u = {}" if "u \<noteq> t" for u
      using new dis [OF that] h [of t] by (simp add: disjoint_iff) blast
    moreover have "held s' ?nh u = held s nh u" if "u \<noteq> t" for u using h [of u] that by simp
    ultimately show ?thesis using uv dis [OF uv] by (cases "u = t"; cases "v = t") (simp_all add: Int_commute)
  qed
  moreover have "owner s' l = 0 \<and> nxt s' l = None" if "\<forall>u. l \<notin> held s' ?nh u" for l
  proof -
    have l: "l \<notin> set xs \<union> in_hand (cpcs s' t)" using that h [of t] by auto
    show ?thesis
    proof (cases "l \<in> held s nh t")
      case False
      then have "\<forall>u. l \<notin> held s nh u" using that h by metis
      then show ?thesis using ok frame [OF l False] by (simp add: ctx_ok_def)
    qed (use gone [OF l] in blast)
  qed
  ultimately show ?thesis unfolding ctx_ok_def by blast
qed

text \<open>A step that changes the point of the code only, or nothing a thread owns.\<close>

lemma ctx_ok_local:
  assumes ok: "ctx_ok this s nh"
    and same: "\<And>u. u \<noteq> t \<Longrightarrow> cpcs s' u = cpcs s u" "locks s' = locks s" "owner s' = owner s" "nxt s' = nxt s"
    and hand: "in_hand (cpcs s' t) = in_hand (cpcs s t)"
    and loc: "ctx_local_at this s t (nh t) \<Longrightarrow> ctx_local_at this s' t (nh t)"
  shows "ctx_ok this s' nh"
proof -
  have "ctx_local_at this s t (nh t)" using ok by (simp add: ctx_ok_def)
  then have l: "ctx_local_at this s' t (nh t)" by (rule loc)
  have "ctx_ok this s' (nh(t := nh t))"
    by (rule ctx_ok_change [OF ok _ l]) (use same hand in \<open>auto simp: held_def\<close>)
  then show ?thesis by simp
qed

lemmas ctx_ops = cgoto_def set_owner_def set_next_def set_locks_def set_numLocks_def

lemma ctx_init_ok: "ctx_ok this ctx_init (\<lambda>_. [])"
  by (simp add: ctx_ok_def ctx_local_def held_def ctx_init_def)

lemma owned_odd:
  assumes ok: "ctx_ok this s nh" and l: "l \<in> held s nh u"
  shows "odd (owner s l)"
proof -
  have loc: "ctx_local_at this s u (nh u)" using ok by (simp add: ctx_ok_def)
  show "odd (owner s l)"
  proof (cases "l \<in> set (nh u)")
    case False
    then have "l \<in> in_hand (cpcs s u)" using l by (simp add: held_def)
    then show ?thesis using loc by (cases "cpcs s u") (auto simp: ctx_local_def)
  qed (use loc in \<open>simp add: ctx_local_def\<close>)
qed

lemma ctx_step_ok:
  assumes "ctx_step this t s s'" and ok: "ctx_ok this s nh"
  shows "\<exists>nh'. ctx_ok this s' nh'"
proof -
  have loc: "ctx_local_at this s t (nh t)" using ok by (simp add: ctx_ok_def)
  note upd = ctx_local_def ctx_ops held_def
  from assms(1) show ?thesis
  proof cases
    case acquire
    then show ?thesis by (intro exI [of _ nh] ctx_ok_local [OF ok, of t]) (auto simp: upd)
  next
    case (try_load l)
    then show ?thesis by (intro exI [of _ nh] ctx_ok_local [OF ok, of t]) (auto simp: upd)
  next
    case (try_or l)
    show ?thesis
    proof (cases "odd (owner s l)")
      case True
      have "owner s l OR 1 = owner s l" using True by (intro bit_eqI) (auto simp: bit_simps bit_0)
      then have "set_owner l (owner s l OR 1) s = s" by (simp add: set_owner_def)
      then show ?thesis
        using try_or True by (intro exI [of _ nh] ctx_ok_local [OF ok, of t]) (auto simp: upd)
    next
      case False
      then have free: "\<forall>u. l \<notin> held s nh u" using owned_odd [OF ok] by blast
      then have "owner s l = 0" "nxt s l = None" using ok by (simp_all add: ctx_ok_def)
      then have "ctx_ok this s' (nh(t := nh t))"
        using try_or loc free by (intro ctx_ok_change [OF ok]) (auto simp: upd intro: ctx_local_frame)
      then show ?thesis by blast
    qed
  next
    case (set_load l)
    have "odd (owner s l)" using set_load loc by (simp add: ctx_local_def)
    then show ?thesis using set_load
      by (intro exI [of _ nh] ctx_ok_local [OF ok, of t]) (auto simp: upd)
  next
    case (set_store l v)
    then have "ctx_ok this s' (nh(t := nh t))"
      using loc by (intro ctx_ok_change [OF ok]) (auto simp: upd)
    then show ?thesis by blast
  next
    case (own_already l)
    then show ?thesis by (intro exI [of _ nh] ctx_ok_local [OF ok, of t]) (auto simp: upd)
  next
    case (own_conflict l)
    then show ?thesis by (intro exI [of _ nh] ctx_ok_local [OF ok, of t]) (auto simp: upd)
  next
    case (link l)
    then have "ctx_ok this s' (nh(t := nh t))"
      using loc by (intro ctx_ok_change [OF ok]) (auto simp: upd)
    then show ?thesis by blast
  next
    case (head l)
    then have "ctx_ok this s' (nh(t := l # nh t))"
      using loc by (intro ctx_ok_change [OF ok]) (auto simp: upd)
    then show ?thesis by blast
  next
    case finish
    then show ?thesis by (intro exI [of _ nh] ctx_ok_local [OF ok, of t]) (auto simp: upd)
  next
    case commit_end
    then show ?thesis by (intro exI [of _ nh] ctx_ok_local [OF ok, of t]) (auto simp: upd)
  next
    case (commit l)
    then show ?thesis by (intro exI [of _ nh] ctx_ok_local [OF ok, of t]) (auto simp: upd)
  next
    case (unlink l)
    then obtain xs where "nh t = l # xs" using loc by (auto simp: ctx_local_def)
    then have "ctx_ok this s' (nh(t := xs))"
      using unlink loc by (intro ctx_ok_change [OF ok]) (auto simp: upd)
    then show ?thesis by blast
  next
    case (clear l)
    then have "ctx_ok this s' (nh(t := nh t))"
      using loc by (intro ctx_ok_change [OF ok]) (auto simp: upd)
    then show ?thesis by blast
  next
    case (release l)
    then have "ctx_ok this s' (nh(t := nh t))"
      using loc by (intro ctx_ok_change [OF ok]) (auto simp: upd pl_unlock_and_clear_def)
    then show ?thesis by blast
  qed
qed

lemma ctx_reach_ok: "ctx_reach nT this s \<Longrightarrow> \<exists>nh. ctx_ok this s nh"
  by (induction rule: ctx_reach.induct) (use ctx_init_ok ctx_step_ok in blast)+

lemma ctx_reach_idle: "ctx_reach nT this s \<Longrightarrow> nT \<le> u \<Longrightarrow> cpcs s u = Running \<and> locks s u = None"
proof (induction rule: ctx_reach.induct)
  case (step s t s')
  then have "t \<noteq> u" by simp
  with step.hyps(3) step.IH [OF step.prems] show ?case by cases (simp_all add: ctx_ops)
qed (simp add: ctx_init_def)

lemma ctx_ok_listed:
  "ctx_ok this s nh \<Longrightarrow> linked (nxt s) (locks s t) ls \<Longrightarrow> nh t = ls"
  by (auto simp: ctx_ok_def ctx_local_def dest: linked_fun)

lemma ctx_ok_owner:
  assumes "ctx_ok this s nh" "addresses_ok nT this" "t < nT" "l \<in> set (nh t)"
  shows "pl_is_locked (owner s l) \<and> pl_getValue (owner s l) = this t"
  using assms by (simp add: ctx_ok_def ctx_local_def pl_locked_iff addresses_ok_def)

lemma ctx_run_reach:
  "ctx_reach nT this s \<Longrightarrow> \<forall>c \<in> set cs. fst c < nT \<Longrightarrow> ctx_reach nT this (ctx_run this cs s)"
proof (induction cs arbitrary: s)
  case (Cons c cs)
  obtain t choice where c: "c = (t, choice)" by fastforce
  have "ctx_reach nT this (ctx_exec this t choice s)"
    by (rule ctx_reach.step [OF Cons.prems(1), of t]) (use Cons.prems(2) c ctx_step_iff_exec in auto)
  then show ?case using Cons c by simp
qed simp

section \<open>Properties\<close>

text \<open>
  C31: Whatever the iterations of the threads do, no object is in the neighbourhoods of two of them,
  each neighbourhood is a proper list of objects locked in the name of its context, and no
  assertion of the code fails.
\<close>

theorem context_exclusive:
  assumes "addresses_ok nT this" "ctx_reach nT this s"
  shows "\<exists>nh. (\<forall>t<nT. linked (nxt s) (locks s t) (nh t) \<and> distinct (nh t) \<and>
        (\<forall>l \<in> set (nh t). pl_is_locked (owner s l) \<and> pl_getValue (owner s l) = this t)) \<and>
      (\<forall>t<nT. \<forall>u<nT. t \<noteq> u \<longrightarrow> set (nh t) \<inter> set (nh u) = {}) \<and> ctx_asserts this s"
proof -
  obtain nh where ok: "ctx_ok this s nh" using ctx_reach_ok [OF assms(2)] by blast
  have loc: "ctx_local_at this s t (nh t)" for t using ok by (simp add: ctx_ok_def)
  have "ctx_asserts this s"
    unfolding ctx_asserts_def
  proof (intro allI conjI impI)
    fix t l
    assume "cpcs s t = Rel l"
    moreover from this have "t < nT" using ctx_reach_idle [OF assms(2), of t] by force
    ultimately show "nxt s l = None" "pl_is_locked (owner s l)" "pl_getValue (owner s l) = this t"
      using loc [of t] assms(1) by (simp_all add: ctx_local_def pl_locked_iff addresses_ok_def)
  qed (use loc in \<open>simp add: ctx_local_def, metis hand_next.simps in_hand.simps(3) singletonI\<close>)
  moreover have "set (nh t) \<inter> set (nh u) = {}" if "t \<noteq> u" for t u
    using ok that by (auto simp: ctx_ok_def held_def)
  ultimately show ?thesis
    using loc ctx_ok_owner [OF ok assms(1)] by (intro exI [of _ nh]) (auto simp: ctx_local_def)
qed

text \<open>
  When \<open>try_lock\<close> has failed, the comparison of the owner finds exactly the objects that are in the
  neighbourhood of this context already; every other one is a conflict.
\<close>

theorem acquire_verdict:
  assumes "addresses_ok nT this" "ctx_reach nT this s" "t < nT"
    and "cpcs s t = Own_test l" "linked (nxt s) (locks s t) ls"
  shows "pl_getValue (owner s l) = this t \<longleftrightarrow> l \<in> set ls"
proof
  obtain nh where ok: "ctx_ok this s nh" using ctx_reach_ok [OF assms(2)] by blast
  have ls: "nh t = ls" by (rule ctx_ok_listed [OF ok assms(5)])
  show "pl_getValue (owner s l) = this t" if "l \<in> set ls"
    using ctx_ok_owner [OF ok assms(1,3), of l] that ls by simp
  assume v: "pl_getValue (owner s l) = this t"
  have nz: "this t \<noteq> 0" using assms(1,3) by (simp add: addresses_ok_def)
  have "owner s l \<noteq> 0" using v nz by auto
  then obtain u where u: "l \<in> held s nh u" using ok unfolding ctx_ok_def by blast
  have "u < nT"
  proof (rule ccontr)
    assume "\<not> u < nT"
    then have "cpcs s u = Running" "locks s u = None" using ctx_reach_idle [OF assms(2), of u] by simp_all
    moreover have "ctx_local_at this s u (nh u)" using ok by (simp add: ctx_ok_def)
    ultimately show False using u by (simp add: ctx_local_def held_def)
  qed
  have loc: "ctx_local_at this s u (nh u)" using ok by (simp add: ctx_ok_def)
  have eu: "even (this u)" using assms(1) \<open>u < nT\<close> by (simp add: addresses_ok_def)
  have "pl_getValue (owner s l) = this u"
  proof (cases "l \<in> set (nh u)")
    case False
    then have i: "l \<in> in_hand (cpcs s u)" using u by (simp add: held_def)
    then have "owner s l = hand_owner (this u) (cpcs s u)" using loc by (simp add: ctx_local_def)
    then show ?thesis using i eu v nz by (cases "cpcs s u") auto
  qed (use loc eu in \<open>simp add: ctx_local_def\<close>)
  then have "u = t" using v assms(1,3) \<open>u < nT\<close> by (auto simp: addresses_ok_def inj_on_def)
  then show "l \<in> set ls" using u assms(4) ls by (simp add: held_def)
qed

lemma commit_one:
  assumes "cpcs s t = Commit" "linked (nxt s) (locks s t) (l # ls)"
  shows "(ctx_exec this t choice ^^ 4) s =
    s\<lparr>owner := (owner s)(l := 0), nxt := (nxt s)(l := None), locks := (locks s)(t := nxt s l),
      numLocks := (numLocks s)(t := numLocks s t + 1)\<rparr>"
  using assms
  by (simp add: eval_nat_numeral ctx_exec_def ctx_ops pl_unlock_and_clear_def fun_upd_idem)

text \<open>
  \<open>commitIteration\<close> (and \<open>cancelIteration\<close>, which calls it) gives back exactly the objects of the
  neighbourhood and counts them, in four accesses for each, and leaves the list empty.
\<close>

theorem commitIteration_releases:
  assumes "cpcs s t = Commit" "linked (nxt s) (locks s t) ls" "distinct ls"
  shows "(ctx_exec this t choice ^^ (4 * length ls + 1)) s =
    s\<lparr>cpcs := (cpcs s)(t := Running),
      owner := (\<lambda>l. if l \<in> set ls then 0 else owner s l),
      nxt := (\<lambda>l. if l \<in> set ls then None else nxt s l),
      locks := (locks s)(t := None),
      numLocks := (numLocks s)(t := numLocks s t + length ls)\<rparr>"
  using assms
proof (induction ls arbitrary: s)
  case Nil
  then have "(locks s)(t := None) = locks s" by (simp add: fun_upd_idem)
  with Nil show ?case by (intro ctxs.equality) (simp_all add: ctx_exec_def ctx_ops fun_eq_iff)
next
  case (Cons l ls)
  define s1 where "s1 = s\<lparr>owner := (owner s)(l := 0), nxt := (nxt s)(l := None), locks := (locks s)(t := nxt s l),
      numLocks := (numLocks s)(t := numLocks s t + 1)\<rparr>"
  have "linked ((nxt s)(l := None)) (nxt s l) ls" "cpcs s t = Commit" "distinct ls" using Cons.prems by simp_all
  then have prems1: "cpcs s1 t = Commit" "linked (nxt s1) (locks s1 t) ls" "distinct ls"
    unfolding s1_def by (simp_all add: fun_upd_same del: fun_upd_apply)
  have "(ctx_exec this t choice ^^ (4 * length ls + 1)) s1 =
    s1\<lparr>cpcs := (cpcs s1)(t := Running),
      owner := (\<lambda>l. if l \<in> set ls then 0 else owner s1 l),
      nxt := (\<lambda>l. if l \<in> set ls then None else nxt s1 l),
      locks := (locks s1)(t := None),
      numLocks := (numLocks s1)(t := numLocks s1 t + length ls)\<rparr>"
    by (rule Cons.IH [OF prems1])
  moreover have "4 * length (l # ls) + 1 = (4 * length ls + 1) + 4" by simp
  ultimately have "(ctx_exec this t choice ^^ (4 * length (l # ls) + 1)) s =
    s1\<lparr>cpcs := (cpcs s1)(t := Running),
      owner := (\<lambda>l. if l \<in> set ls then 0 else owner s1 l),
      nxt := (\<lambda>l. if l \<in> set ls then None else nxt s1 l),
      locks := (locks s1)(t := None),
      numLocks := (numLocks s1)(t := numLocks s1 t + length ls)\<rparr>"
    using commit_one [OF Cons.prems(1,2)] by (simp only: funpow_add comp_apply s1_def)
  also have "\<dots> = s\<lparr>cpcs := (cpcs s)(t := Running),
      owner := (\<lambda>l'. if l' \<in> set (l # ls) then 0 else owner s l'),
      nxt := (\<lambda>l'. if l' \<in> set (l # ls) then None else nxt s l'),
      locks := (locks s)(t := None),
      numLocks := (numLocks s)(t := numLocks s t + length (l # ls))\<rparr>"
    by (rule ctxs.equality) (auto simp: s1_def fun_eq_iff)
  finally show ?case .
qed

text \<open>Two threads; thread 0 takes objects 7 and 5, thread 1 is about to run into the first.\<close>

definition two_contexts :: "nat \<Rightarrow> u64" where "two_contexts t = (if t = 0 then 16 else 32)"

definition conflict_run :: "(nat \<times> nat option) list" where
  "conflict_run = replicate 7 (0, Some 7) @ replicate 2 (1, Some 7) @ replicate 7 (0, Some 5)"

lemma two_contexts_ok: "addresses_ok 2 two_contexts"
  by (auto simp: addresses_ok_def two_contexts_def inj_on_def less_2_cases_iff)

lemma conflict_run_reach: "ctx_reach 2 two_contexts (ctx_run two_contexts conflict_run ctx_init)"
  by (rule ctx_run_reach [OF ctx_reach.start]) (simp add: conflict_run_def)

theorem context_exclusive_witness:
  "locks (ctx_run two_contexts conflict_run ctx_init) 0 = Some 5 \<and>
   ctx_asserts two_contexts (ctx_run two_contexts conflict_run ctx_init)"
proof
  show "locks (ctx_run two_contexts conflict_run ctx_init) 0 = Some 5" by code_simp
  show "ctx_asserts two_contexts (ctx_run two_contexts conflict_run ctx_init)"
    using context_exclusive [OF two_contexts_ok conflict_run_reach] by blast
qed

theorem acquire_verdict_witness:
  "pl_getValue (owner (ctx_run two_contexts conflict_run ctx_init) 7) \<noteq> two_contexts 1"
proof -
  let ?s = "ctx_run two_contexts conflict_run ctx_init"
  have "cpcs ?s 1 = Own_test 7" "locks ?s 1 = None" by code_simp+
  then have "linked (nxt ?s) (locks ?s 1) []" by simp
  from acquire_verdict [OF two_contexts_ok conflict_run_reach _ \<open>cpcs ?s 1 = _\<close> this] show ?thesis by simp
qed

theorem commitIteration_releases_witness:
  "let s = ctx_exec two_contexts 0 None (ctx_run two_contexts conflict_run ctx_init);
       s' = (ctx_exec two_contexts 0 None ^^ 9) s
   in owner s 7 = 17 \<and> owner s 5 = 17 \<and> owner s' 7 = 0 \<and> owner s' 5 = 0 \<and> locks s' 0 = None \<and> numLocks s' 0 = 2"
proof -
  let ?s = "ctx_exec two_contexts 0 None (ctx_run two_contexts conflict_run ctx_init)"
  have v: "cpcs ?s 0 = Commit" "locks ?s 0 = Some 5" "nxt ?s 5 = Some 7" "nxt ?s 7 = None" "numLocks ?s 0 = 0"
    "owner ?s 7 = 17" "owner ?s 5 = 17"
    by code_simp+
  from v have l: "linked (nxt ?s) (locks ?s 0) [5, 7]" by simp
  have "4 * length [5 :: nat, 7] + 1 = 9" by simp
  from commitIteration_releases [OF v(1) l, of two_contexts None, unfolded this] v(5-7) show ?thesis
    unfolding Let_def by simp
qed

end
