(* ===== verification/ConExtStack.thy ===== *)
theory ConExtStack
  imports PtrLock
begin

text \<open>
  \<open>ConExtLinkedStack\<close> of \<open>WorkList/WorkListHelpers.h\<close>: a stack of nodes linked through their own
  \<open>next\<close> fields behind a \<open>PtrLock\<close>. \<open>push\<close> exchanges the head without the lock, \<open>pop\<close> takes the lock to
  keep every exchange away. Each access is a step; a step that takes effect carries the operation
  it stands for as its label. The word of the \<open>PtrLock\<close> is given by its pointer and its lock bit,
  which \<open>pl_lock_pointer\<close> justifies; spinning on a locked head is no step.
\<close>

section \<open>The stack without interference\<close>

record link_state =
  lhead :: "nat option"
  lnext :: "nat \<Rightarrow> nat option"

definition stack_empty :: "'a link_state_scheme \<Rightarrow> bool" where "stack_empty q \<longleftrightarrow> lhead q = None"

definition stack_push :: "nat \<Rightarrow> 'a link_state_scheme \<Rightarrow> 'a link_state_scheme" where
  "stack_push C q =
     (let oldhead = lhead q; q1 = q\<lparr>lnext := (lnext q)(C := oldhead)\<rparr> in q1\<lparr>lhead := Some C\<rparr>)"

definition stack_pop :: "'a link_state_scheme \<Rightarrow> nat option \<times> 'a link_state_scheme" where
  "stack_pop q =
     (if stack_empty q then (None, q)
      else case lhead q of
        None \<Rightarrow> (None, q)
      | Some C \<Rightarrow>
          let q1 = q\<lparr>lhead := lnext q C\<rparr> in (Some C, q1\<lparr>lnext := (lnext q1)(C := None)\<rparr>))"

section \<open>Steps\<close>

text \<open>The points of \<open>push C\<close> and \<open>pop\<close> before each access to shared memory.\<close>

datatype spc =
    Client
  | Push_read nat | Push_link nat "nat option" | Push_cas nat "nat option"
  | Pop_test | Pop_lock | Pop_read | Pop_unlock | Pop_next nat | Pop_set nat "nat option" | Pop_clear nat

text \<open>\<open>mine t\<close> are the nodes the client of thread \<open>t\<close> has and may push.\<close>

record stack_state = link_state +
  llocked :: bool
  spcs :: "nat \<Rightarrow> spc"
  mine :: "nat \<Rightarrow> nat set"

datatype link_op = Op_push nat | Op_pop nat | Op_pop_empty

definition sgoto :: "nat \<Rightarrow> spc \<Rightarrow> stack_state \<Rightarrow> stack_state" where
  "sgoto t p s = s\<lparr>spcs := (spcs s)(t := p)\<rparr>"

inductive stack_step :: "stack_state \<Rightarrow> link_op option \<Rightarrow> stack_state \<Rightarrow> bool" where
  push: "spcs s t = Client \<Longrightarrow> C \<in> mine s t \<Longrightarrow>
    stack_step s None (sgoto t (Push_read C) (s\<lparr>mine := (mine s)(t := mine s t - {C})\<rparr>))"
| push_read: "spcs s t = Push_read C \<Longrightarrow> stack_step s None (sgoto t (Push_link C (lhead s)) s)"
| push_link: "spcs s t = Push_link C oldhead \<Longrightarrow>
    stack_step s None (sgoto t (Push_cas C oldhead) (s\<lparr>lnext := (lnext s)(C := oldhead)\<rparr>))"
| push_cas: "spcs s t = Push_cas C oldhead \<Longrightarrow> \<not> llocked s \<Longrightarrow> lhead s = oldhead \<Longrightarrow>
    stack_step s (Some (Op_push C)) (sgoto t Client (s\<lparr>lhead := Some C\<rparr>))"
| push_retry: "spcs s t = Push_cas C oldhead \<Longrightarrow> llocked s \<or> lhead s \<noteq> oldhead \<Longrightarrow>
    stack_step s None (sgoto t (Push_read C) s)"
| pop: "spcs s t = Client \<Longrightarrow> stack_step s None (sgoto t Pop_test s)"
| pop_empty: "spcs s t = Pop_test \<Longrightarrow> lhead s = None \<Longrightarrow> stack_step s (Some Op_pop_empty) (sgoto t Client s)"
| pop_nonempty: "spcs s t = Pop_test \<Longrightarrow> lhead s \<noteq> None \<Longrightarrow> stack_step s None (sgoto t Pop_lock s)"
| pop_lock: "spcs s t = Pop_lock \<Longrightarrow> \<not> llocked s \<Longrightarrow>
    stack_step s None (sgoto t Pop_read (s\<lparr>llocked := True\<rparr>))"
| pop_read_none: "spcs s t = Pop_read \<Longrightarrow> lhead s = None \<Longrightarrow>
    stack_step s (Some Op_pop_empty) (sgoto t Pop_unlock s)"
| pop_read: "spcs s t = Pop_read \<Longrightarrow> lhead s = Some C \<Longrightarrow> stack_step s None (sgoto t (Pop_next C) s)"
| pop_unlock: "spcs s t = Pop_unlock \<Longrightarrow> stack_step s None (sgoto t Client (s\<lparr>llocked := False\<rparr>))"
| pop_next: "spcs s t = Pop_next C \<Longrightarrow> stack_step s None (sgoto t (Pop_set C (lnext s C)) s)"
| pop_set: "spcs s t = Pop_set C n \<Longrightarrow>
    stack_step s (Some (Op_pop C)) (sgoto t (Pop_clear C) (s\<lparr>lhead := n, llocked := False\<rparr>))"
| pop_clear: "spcs s t = Pop_clear C \<Longrightarrow>
    stack_step s None (sgoto t Client (s\<lparr>lnext := (lnext s)(C := None), mine := (mine s)(t := insert C (mine s t))\<rparr>))"

text \<open>The next step of a thread as a function; \<open>choice\<close> is the node its client pushes next, or a \<open>pop\<close>.\<close>

definition stack_exec :: "nat \<Rightarrow> nat option \<Rightarrow> stack_state \<Rightarrow> (link_op option \<times> stack_state) option" where
  "stack_exec t choice s =
     (case spcs s t of
        Client \<Rightarrow>
          (case choice of
             None \<Rightarrow> Some (None, sgoto t Pop_test s)
           | Some C \<Rightarrow>
               if C \<in> mine s t then Some (None, sgoto t (Push_read C) (s\<lparr>mine := (mine s)(t := mine s t - {C})\<rparr>))
               else None)
      | Push_read C \<Rightarrow> Some (None, sgoto t (Push_link C (lhead s)) s)
      | Push_link C oldhead \<Rightarrow> Some (None, sgoto t (Push_cas C oldhead) (s\<lparr>lnext := (lnext s)(C := oldhead)\<rparr>))
      | Push_cas C oldhead \<Rightarrow>
          if \<not> llocked s \<and> lhead s = oldhead then Some (Some (Op_push C), sgoto t Client (s\<lparr>lhead := Some C\<rparr>))
          else Some (None, sgoto t (Push_read C) s)
      | Pop_test \<Rightarrow>
          if lhead s = None then Some (Some Op_pop_empty, sgoto t Client s) else Some (None, sgoto t Pop_lock s)
      | Pop_lock \<Rightarrow> if llocked s then None else Some (None, sgoto t Pop_read (s\<lparr>llocked := True\<rparr>))
      | Pop_read \<Rightarrow>
          (case lhead s of
             None \<Rightarrow> Some (Some Op_pop_empty, sgoto t Pop_unlock s)
           | Some C \<Rightarrow> Some (None, sgoto t (Pop_next C) s))
      | Pop_unlock \<Rightarrow> Some (None, sgoto t Client (s\<lparr>llocked := False\<rparr>))
      | Pop_next C \<Rightarrow> Some (None, sgoto t (Pop_set C (lnext s C)) s)
      | Pop_set C n \<Rightarrow> Some (Some (Op_pop C), sgoto t (Pop_clear C) (s\<lparr>lhead := n, llocked := False\<rparr>))
      | Pop_clear C \<Rightarrow>
          Some (None, sgoto t Client (s\<lparr>lnext := (lnext s)(C := None), mine := (mine s)(t := insert C (mine s t))\<rparr>)))"

lemma stack_exec_step: "stack_exec t choice s = Some (e, s') \<Longrightarrow> stack_step s e s'"
  unfolding stack_exec_def
  by (cases "spcs s t"; cases choice; cases "lhead s")
    (use stack_step.push_read [of s t] in \<open>auto split: if_splits intro: stack_step.intros\<close>)

fun stack_replay :: "(nat \<times> nat option) list \<Rightarrow> link_op list \<Rightarrow> stack_state \<Rightarrow> (link_op list \<times> stack_state) option" where
  "stack_replay [] tr s = Some (tr, s)"
| "stack_replay ((t, choice) # cs) tr s =
     (case stack_exec t choice s of
        None \<Rightarrow> None
      | Some (None, s') \<Rightarrow> stack_replay cs tr s'
      | Some (Some e, s') \<Rightarrow> stack_replay cs (e # tr) s')"

definition stack_init :: "(nat \<Rightarrow> nat set) \<Rightarrow> stack_state" where
  "stack_init nodes =
     \<lparr>lhead = None, lnext = \<lambda>_. None, llocked = False, spcs = \<lambda>_. Client, mine = nodes\<rparr>"

text \<open>The effects of a run, the latest first.\<close>

inductive stack_run :: "(nat \<Rightarrow> nat set) \<Rightarrow> link_op list \<Rightarrow> stack_state \<Rightarrow> bool" for nodes where
  start: "stack_run nodes [] (stack_init nodes)"
| silent: "stack_run nodes tr s \<Longrightarrow> stack_step s None s' \<Longrightarrow> stack_run nodes tr s'"
| effect: "stack_run nodes tr s \<Longrightarrow> stack_step s (Some e) s' \<Longrightarrow> stack_run nodes (e # tr) s'"

lemma stack_replay_run:
  "stack_run nodes tr s \<Longrightarrow> stack_replay cs tr s = Some (tr', s') \<Longrightarrow> stack_run nodes tr' s'"
proof (induction cs tr s rule: stack_replay.induct)
  case (2 t choice cs tr s)
  from "2.prems"(2) obtain e s1 where e: "stack_exec t choice s = Some (e, s1)" by (auto split: option.splits)
  have "stack_run nodes (case e of None \<Rightarrow> tr | Some a \<Rightarrow> a # tr) s1"
    using stack_exec_step [OF e] "2.prems"(1) by (cases e) (auto intro: stack_run.intros)
  then show ?case using "2.IH" [OF e] "2.prems"(2) e by (cases e) auto
qed simp

section \<open>The abstract stack\<close>

text \<open>What a history of effects means for a stack; \<open>None\<close> when it is not one of a stack.\<close>

fun stack_effect :: "link_op \<Rightarrow> nat list \<Rightarrow> nat list option" where
  "stack_effect (Op_push C) xs = Some (C # xs)"
| "stack_effect (Op_pop C) xs = (case xs of [] \<Rightarrow> None | x # ys \<Rightarrow> if x = C then Some ys else None)"
| "stack_effect Op_pop_empty xs = (if xs = [] then Some [] else None)"

fun stack_history :: "link_op list \<Rightarrow> nat list option" where
  "stack_history [] = Some []"
| "stack_history (e # tr) = (case stack_history tr of None \<Rightarrow> None | Some xs \<Rightarrow> stack_effect e xs)"

section \<open>The invariant\<close>

text \<open>Nodes in the hands of a thread, and whether it has the lock.\<close>

fun spc_nodes :: "spc \<Rightarrow> nat set" where
  "spc_nodes (Push_read C) = {C}" | "spc_nodes (Push_link C h) = {C}" | "spc_nodes (Push_cas C h) = {C}"
| "spc_nodes (Pop_clear C) = {C}" | "spc_nodes _ = {}"

fun has_lock :: "spc \<Rightarrow> bool" where
  "has_lock Pop_read = True" | "has_lock Pop_unlock = True" | "has_lock (Pop_next C) = True"
| "has_lock (Pop_set C n) = True" | "has_lock _ = False"

fun spc_ok :: "stack_state \<Rightarrow> spc \<Rightarrow> bool" where
  "spc_ok s (Push_cas C h) = (lnext s C = h)"
| "spc_ok s (Pop_next C) = (lhead s = Some C)"
| "spc_ok s (Pop_set C n) = (lhead s = Some C \<and> lnext s C = n)"
| "spc_ok s _ = True"

definition client_nodes :: "stack_state \<Rightarrow> nat \<Rightarrow> nat set" where
  "client_nodes s t = mine s t \<union> spc_nodes (spcs s t)"

definition stack_ok :: "nat list \<Rightarrow> stack_state \<Rightarrow> bool" where
  "stack_ok xs s \<longleftrightarrow> linked (lnext s) (lhead s) xs \<and> distinct xs \<and>
     (\<forall>t. spc_ok s (spcs s t) \<and> set xs \<inter> client_nodes s t = {} \<and> mine s t \<inter> spc_nodes (spcs s t) = {}) \<and>
     (\<forall>t u. t \<noteq> u \<longrightarrow> client_nodes s t \<inter> client_nodes s u = {}) \<and>
     (\<forall>t. has_lock (spcs s t) \<longrightarrow> llocked s) \<and>
     (\<forall>t u. has_lock (spcs s t) \<longrightarrow> has_lock (spcs s u) \<longrightarrow> t = u)"

text \<open>A step of thread \<open>t\<close>: it writes only fields of its nodes, and the head only when nobody else has the lock.\<close>

lemma stack_ok_change:
  assumes ok: "stack_ok xs s"
    and same: "\<And>u. u \<noteq> t \<Longrightarrow> spcs s' u = spcs s u \<and> mine s' u = mine s u"
    and list: "linked (lnext s') (lhead s') xs'" "distinct xs'"
    and loc: "spc_ok s' (spcs s' t)"
    and part: "set xs' \<union> client_nodes s' t \<subseteq> set xs \<union> client_nodes s t"
      "set xs' \<inter> client_nodes s' t = {}" "mine s' t \<inter> spc_nodes (spcs s' t) = {}"
    and frame: "\<And>D. D \<notin> client_nodes s t \<Longrightarrow> lnext s' D = lnext s D"
    and hd: "lhead s' = lhead s \<or> (\<forall>u. u \<noteq> t \<longrightarrow> \<not> has_lock (spcs s u))"
    and lock: "has_lock (spcs s' t) \<Longrightarrow> llocked s' \<and> (\<forall>u. u \<noteq> t \<longrightarrow> \<not> has_lock (spcs s u))"
      "llocked s' = llocked s \<or> (\<forall>u. u \<noteq> t \<longrightarrow> \<not> has_lock (spcs s u))"
  shows "stack_ok xs' s'"
proof -
  have cn: "client_nodes s' u = client_nodes s u" if "u \<noteq> t" for u using same [OF that] by (simp add: client_nodes_def)
  have dis: "client_nodes s u \<inter> client_nodes s v = {}" if "u \<noteq> v" for u v using ok that by (simp add: stack_ok_def)
  have xsu: "set xs \<inter> client_nodes s u = {}" for u using ok by (simp add: stack_ok_def)
  have new: "(set xs' \<union> client_nodes s' t) \<inter> client_nodes s u = {}" if "u \<noteq> t" for u
    using part(1) dis [OF that] xsu [of u] by blast
  have other: "spc_ok s' (spcs s' u)" if u: "u \<noteq> t" for u
  proof -
    have o: "spc_ok s (spcs s u)" using ok by (simp add: stack_ok_def)
    have l: "lnext s' D = lnext s D" if "D \<in> set xs \<union> client_nodes s u" for D
      by (rule frame) (use that xsu [of t] dis [OF u] in blast)
    have h: "lhead s = Some D \<Longrightarrow> D \<in> set xs" for D using ok by (cases xs) (simp_all add: stack_ok_def)
    have k: "has_lock (spcs s u) \<Longrightarrow> lhead s' = lhead s" using hd u by blast
    show ?thesis
      using o l h k same [OF u] by (cases "spcs s u") (simp_all add: client_nodes_def)
  qed
  have "client_nodes s' u \<inter> client_nodes s' v = {}" if "u \<noteq> v" for u v
  proof -
    have "client_nodes s' t \<inter> client_nodes s w = {}" if "w \<noteq> t" for w using new [OF that] by blast
    then show ?thesis using that dis [OF that] cn by (cases "u = t"; cases "v = t") (simp_all add: Int_commute)
  qed
  moreover have "spc_ok s' (spcs s' u) \<and> set xs' \<inter> client_nodes s' u = {} \<and> mine s' u \<inter> spc_nodes (spcs s' u) = {}" for u
  proof (cases "u = t")
    case False
    have "mine s u \<inter> spc_nodes (spcs s u) = {}" using ok by (simp add: stack_ok_def)
    then show ?thesis using other [OF False] new [OF False] cn [OF False] same [OF False] by auto
  qed (use loc part in simp)
  moreover have "llocked s'" if h: "has_lock (spcs s' u)" for u
  proof (cases "u = t")
    case False
    then have "has_lock (spcs s u)" using h same by simp
    moreover from this have "llocked s" using ok unfolding stack_ok_def by blast
    ultimately show ?thesis using lock(2) False by blast
  qed (use lock(1) h in blast)
  moreover have "u = v" if "has_lock (spcs s' u)" "has_lock (spcs s' v)" for u v
  proof -
    have one: "has_lock (spcs s u) \<Longrightarrow> has_lock (spcs s v) \<Longrightarrow> u = v" using ok unfolding stack_ok_def by blast
    have "spcs s' w = spcs s w" if "w \<noteq> t" for w using same that by blast
    then show ?thesis using that lock(1) one by (cases "u = t"; cases "v = t") metis+
  qed
  ultimately show ?thesis using list unfolding stack_ok_def by blast
qed

lemma stack_init_ok: "(\<And>t u. t \<noteq> u \<Longrightarrow> nodes t \<inter> nodes u = {}) \<Longrightarrow> stack_ok [] (stack_init nodes)"
  by (simp add: stack_ok_def stack_init_def client_nodes_def)

lemma stack_ok_at:
  assumes "stack_ok xs s"
  shows "linked (lnext s) (lhead s) xs \<and> distinct xs \<and> spc_ok s (spcs s t) \<and> set xs \<inter> client_nodes s t = {} \<and>
    mine s t \<inter> spc_nodes (spcs s t) = {} \<and> (\<not> llocked s \<longrightarrow> (\<forall>u. \<not> has_lock (spcs s u))) \<and>
    (has_lock (spcs s t) \<longrightarrow> llocked s \<and> (\<forall>u. u \<noteq> t \<longrightarrow> \<not> has_lock (spcs s u)))"
  using assms unfolding stack_ok_def by blast

lemmas stack_ops = sgoto_def client_nodes_def

lemma stack_silent_ok:
  assumes "stack_step s None s'" and ok: "stack_ok xs s"
  shows "stack_ok xs s'"
  using assms(1)
proof cases
  case (push t C)
  with stack_ok_at [OF ok, of t] show ?thesis by (intro stack_ok_change [OF ok, of t]) (auto simp: stack_ops)
next
  case (push_read t C)
  with stack_ok_at [OF ok, of t] show ?thesis by (intro stack_ok_change [OF ok, of t]) (auto simp: stack_ops)
next
  case (push_link t C h)
  with stack_ok_at [OF ok, of t] show ?thesis by (intro stack_ok_change [OF ok, of t]) (auto simp: stack_ops)
next
  case (push_retry t C h)
  with stack_ok_at [OF ok, of t] show ?thesis by (intro stack_ok_change [OF ok, of t]) (auto simp: stack_ops)
next
  case (pop t)
  with stack_ok_at [OF ok, of t] show ?thesis by (intro stack_ok_change [OF ok, of t]) (auto simp: stack_ops)
next
  case (pop_nonempty t)
  with stack_ok_at [OF ok, of t] show ?thesis by (intro stack_ok_change [OF ok, of t]) (auto simp: stack_ops)
next
  case (pop_lock t)
  with stack_ok_at [OF ok, of t] show ?thesis by (intro stack_ok_change [OF ok, of t]) (auto simp: stack_ops)
next
  case (pop_read t C)
  with stack_ok_at [OF ok, of t] show ?thesis by (intro stack_ok_change [OF ok, of t]) (auto simp: stack_ops)
next
  case (pop_unlock t)
  with stack_ok_at [OF ok, of t] show ?thesis by (intro stack_ok_change [OF ok, of t]) (auto simp: stack_ops)
next
  case (pop_next t C)
  with stack_ok_at [OF ok, of t] show ?thesis by (intro stack_ok_change [OF ok, of t]) (auto simp: stack_ops)
next
  case (pop_clear t C)
  with stack_ok_at [OF ok, of t] show ?thesis by (intro stack_ok_change [OF ok, of t]) (auto simp: stack_ops)
qed

lemma stack_effect_ok:
  assumes "stack_step s (Some e) s'" and ok: "stack_ok xs s"
  shows "\<exists>ys. stack_effect e xs = Some ys \<and> stack_ok ys s'"
  using assms(1)
proof cases
  case (push_cas t C h)
  with stack_ok_at [OF ok, of t] have "stack_ok (C # xs) s'"
    by (intro stack_ok_change [OF ok, of t]) (auto simp: stack_ops)
  then show ?thesis using push_cas by simp
next
  case (pop_empty t)
  with stack_ok_at [OF ok, of t] have "stack_ok xs s'"
    by (intro stack_ok_change [OF ok, of t]) (auto simp: stack_ops)
  then show ?thesis using pop_empty stack_ok_at [OF ok] by simp
next
  case (pop_read_none t)
  with stack_ok_at [OF ok, of t] have "stack_ok xs s'"
    by (intro stack_ok_change [OF ok, of t]) (auto simp: stack_ops)
  then show ?thesis using pop_read_none stack_ok_at [OF ok] by simp
next
  case (pop_set t C n)
  then obtain ys where ys: "xs = C # ys" using stack_ok_at [OF ok, of t] by auto
  with pop_set stack_ok_at [OF ok, of t] have "stack_ok ys s'"
    by (intro stack_ok_change [OF ok, of t]) (auto simp: stack_ops)
  then show ?thesis using pop_set ys by simp
qed

text \<open>
  C32: \<open>ConExtLinkedStack\<close> is linearizable: in every run of any number of threads the operations, in the
  order in which they take effect, are a history of a stack, and the list from the head is what that
  history leaves, without repetition.
\<close>

theorem stack_linearizable:
  assumes "stack_run nodes tr s" "\<And>t u. t \<noteq> u \<Longrightarrow> nodes t \<inter> nodes u = {}"
  shows "\<exists>xs. stack_history tr = Some xs \<and> linked (lnext s) (lhead s) xs \<and> distinct xs"
proof -
  have "\<exists>xs. stack_history tr = Some xs \<and> stack_ok xs s"
    using assms(1)
  proof induction
    case start
    show ?case using stack_init_ok [of nodes] assms(2) by simp
  next
    case (silent tr s s')
    then show ?case using stack_silent_ok by blast
  next
    case (effect tr s e s')
    then show ?case using stack_effect_ok by fastforce
  qed
  then show ?thesis unfolding stack_ok_def by blast
qed

text \<open>Alone, a thread does what the functions for the stack without interference say.\<close>

lemma stack_push_alone:
  assumes "spcs s t = Client" "\<not> llocked s" "C \<in> mine s t"
  shows "map_option (\<lambda>(tr, s). (tr, link_state.truncate s)) (stack_replay (replicate 4 (t, Some C)) tr s) =
    Some (Op_push C # tr, stack_push C (link_state.truncate s))"
  using assms by (simp add: eval_nat_numeral stack_exec_def sgoto_def stack_push_def link_state.truncate_def)

lemma stack_pop_alone:
  assumes "spcs s t = Client" "\<not> llocked s" "lhead s = Some C"
  shows "map_option (\<lambda>(tr, s). (tr, Some C, link_state.truncate s)) (stack_replay (replicate 7 (t, None)) tr s) =
    Some (Op_pop C # tr, stack_pop (link_state.truncate s))"
  using assms
  by (simp add: eval_nat_numeral stack_exec_def sgoto_def stack_pop_def stack_empty_def link_state.truncate_def)

lemma stack_push_linked:
  "linked (lnext q) (lhead q) xs \<Longrightarrow> C \<notin> set xs \<Longrightarrow> linked (lnext (stack_push C q)) (lhead (stack_push C q)) (C # xs)"
  by (simp add: stack_push_def)

lemma stack_pop_linked:
  assumes "linked (lnext q) (lhead q) (C # xs)" "C \<notin> set xs"
  shows "fst (stack_pop q) = Some C \<and> linked (lnext (snd (stack_pop q))) (lhead (snd (stack_pop q))) xs"
  using assms by (simp add: stack_pop_def stack_empty_def)

text \<open>Thread 0 pushes 4; thread 1 reads the head before thread 0 pushes 6, so its exchange fails once.\<close>

definition stack_example :: "(nat \<times> nat option) list" where
  "stack_example = replicate 4 (0, Some 4) @ replicate 3 (1, Some 5) @ replicate 4 (0, Some 6) @
     replicate 4 (1, None) @ replicate 4 (0, None)"

theorem stack_linearizable_witness:
  "(case stack_replay stack_example [] (stack_init (\<lambda>t. if t = 0 then {4, 6} else if t = 1 then {5} else {})) of
      None \<Rightarrow> False
    | Some (tr, s) \<Rightarrow> tr = [Op_push 5, Op_push 6, Op_push 4] \<and> lhead s = Some 5 \<and> spcs s 0 = Pop_next 5 \<and>
        (\<exists>xs. stack_history tr = Some xs \<and> linked (lnext s) (lhead s) xs \<and> distinct xs))"
proof -
  let ?n = "\<lambda>t :: nat. if t = 0 then {4 :: nat, 6} else if t = 1 then {5} else {}"
  let ?r = "stack_replay stack_example [] (stack_init ?n)"
  have v: "map_option (\<lambda>(tr, s). (tr, lhead s, spcs s 0)) ?r =
      Some ([Op_push 5, Op_push 6, Op_push 4], Some 5, Pop_next 5)" by code_simp
  then obtain tr s where r: "?r = Some (tr, s)" by auto
  have "stack_run ?n tr s" by (rule stack_replay_run [OF stack_run.start r])
  from stack_linearizable [OF this] have "\<exists>xs. stack_history tr = Some xs \<and> linked (lnext s) (lhead s) xs \<and> distinct xs"
    by auto
  then show ?thesis using v r by simp
qed

end
