(* ===== verification/ConExtQueue.thy ===== *)
theory ConExtQueue
  imports ConExtStack
begin

text \<open>
  \<open>ConExtLinkedQueue\<close> of \<open>WorkList/WorkListHelpers.h\<close>: a queue of linked nodes with a tail pointer. All
  changes are made under the lock; only the first test of \<open>pop\<close> reads the tail without it.
\<close>

section \<open>The queue without interference\<close>

record queue_links = link_state +
  ltail :: "nat option"

definition queue_empty :: "('a) queue_links_scheme \<Rightarrow> bool" where "queue_empty q \<longleftrightarrow> ltail q = None"

definition queue_push :: "nat \<Rightarrow> queue_links \<Rightarrow> queue_links" where
  "queue_push C q =
     (let q1 = q\<lparr>lnext := (lnext q)(C := None)\<rparr> in
      case ltail q1 of
        Some T \<Rightarrow> let q2 = q1\<lparr>lnext := (lnext q1)(T := Some C)\<rparr> in q2\<lparr>ltail := Some C\<rparr>
      | None \<Rightarrow> let q2 = q1\<lparr>ltail := Some C\<rparr> in q2\<lparr>lhead := Some C\<rparr>)"

definition queue_pop :: "queue_links \<Rightarrow> nat option \<times> queue_links" where
  "queue_pop q =
     (if queue_empty q then (None, q)
      else case lhead q of
        None \<Rightarrow> (None, q)
      | Some C \<Rightarrow>
          if ltail q = Some C then let q1 = q\<lparr>ltail := None\<rparr> in (Some C, q1\<lparr>lhead := None\<rparr>)
          else let q1 = q\<lparr>lhead := lnext q C\<rparr> in (Some C, q1\<lparr>lnext := (lnext q1)(C := None)\<rparr>))"

section \<open>Steps\<close>

datatype qpc =
    QClient
  | Enq_lock nat | Enq_clear nat | Enq_test nat | Enq_tail nat | Enq_link nat nat | Enq_settail nat | Enq_unlock
  | Enq_first nat | Enq_set nat
  | Deq_test | Deq_lock | Deq_read | Deq_unlock | Deq_tail nat | Deq_notail nat | Deq_clearhead nat
  | Deq_next nat | Deq_set nat "nat option" | Deq_clear nat

record queue_state = queue_links +
  qlocked :: bool
  qpcs :: "nat \<Rightarrow> qpc"
  qmine :: "nat \<Rightarrow> nat set"

definition qgoto :: "nat \<Rightarrow> qpc \<Rightarrow> queue_state \<Rightarrow> queue_state" where
  "qgoto t p s = s\<lparr>qpcs := (qpcs s)(t := p)\<rparr>"

definition qgain :: "nat \<Rightarrow> nat \<Rightarrow> queue_state \<Rightarrow> queue_state" where
  "qgain t C s = s\<lparr>qmine := (qmine s)(t := insert C (qmine s t))\<rparr>"

inductive queue_step :: "queue_state \<Rightarrow> link_op option \<Rightarrow> queue_state \<Rightarrow> bool" where
  enq: "qpcs s t = QClient \<Longrightarrow> C \<in> qmine s t \<Longrightarrow>
    queue_step s None (qgoto t (Enq_lock C) (s\<lparr>qmine := (qmine s)(t := qmine s t - {C})\<rparr>))"
| enq_lock: "qpcs s t = Enq_lock C \<Longrightarrow> \<not> qlocked s \<Longrightarrow>
    queue_step s None (qgoto t (Enq_clear C) (s\<lparr>qlocked := True\<rparr>))"
| enq_clear: "qpcs s t = Enq_clear C \<Longrightarrow>
    queue_step s None (qgoto t (Enq_test C) (s\<lparr>lnext := (lnext s)(C := None)\<rparr>))"
| enq_nonempty: "qpcs s t = Enq_test C \<Longrightarrow> ltail s \<noteq> None \<Longrightarrow> queue_step s None (qgoto t (Enq_tail C) s)"
| enq_empty: "qpcs s t = Enq_test C \<Longrightarrow> ltail s = None \<Longrightarrow> queue_step s None (qgoto t (Enq_first C) s)"
| enq_tail: "qpcs s t = Enq_tail C \<Longrightarrow> ltail s = Some T \<Longrightarrow> queue_step s None (qgoto t (Enq_link C T) s)"
| enq_link: "qpcs s t = Enq_link C T \<Longrightarrow>
    queue_step s (Some (Op_push C)) (qgoto t (Enq_settail C) (s\<lparr>lnext := (lnext s)(T := Some C)\<rparr>))"
| enq_settail: "qpcs s t = Enq_settail C \<Longrightarrow>
    queue_step s None (qgoto t Enq_unlock (s\<lparr>ltail := Some C\<rparr>))"
| enq_unlock: "qpcs s t = Enq_unlock \<Longrightarrow> queue_step s None (qgoto t QClient (s\<lparr>qlocked := False\<rparr>))"
| enq_first: "qpcs s t = Enq_first C \<Longrightarrow> queue_step s None (qgoto t (Enq_set C) (s\<lparr>ltail := Some C\<rparr>))"
| enq_set: "qpcs s t = Enq_set C \<Longrightarrow>
    queue_step s (Some (Op_push C)) (qgoto t QClient (s\<lparr>lhead := Some C, qlocked := False\<rparr>))"
| deq: "qpcs s t = QClient \<Longrightarrow> queue_step s None (qgoto t Deq_test s)"
| deq_empty: "qpcs s t = Deq_test \<Longrightarrow> ltail s = None \<Longrightarrow> queue_step s (Some Op_pop_empty) (qgoto t QClient s)"
| deq_nonempty: "qpcs s t = Deq_test \<Longrightarrow> ltail s \<noteq> None \<Longrightarrow> queue_step s None (qgoto t Deq_lock s)"
| deq_lock: "qpcs s t = Deq_lock \<Longrightarrow> \<not> qlocked s \<Longrightarrow>
    queue_step s None (qgoto t Deq_read (s\<lparr>qlocked := True\<rparr>))"
| deq_read_none: "qpcs s t = Deq_read \<Longrightarrow> lhead s = None \<Longrightarrow>
    queue_step s (Some Op_pop_empty) (qgoto t Deq_unlock s)"
| deq_read: "qpcs s t = Deq_read \<Longrightarrow> lhead s = Some C \<Longrightarrow> queue_step s None (qgoto t (Deq_tail C) s)"
| deq_unlock: "qpcs s t = Deq_unlock \<Longrightarrow> queue_step s None (qgoto t QClient (s\<lparr>qlocked := False\<rparr>))"
| deq_last: "qpcs s t = Deq_tail C \<Longrightarrow> ltail s = Some C \<Longrightarrow> queue_step s None (qgoto t (Deq_notail C) s)"
| deq_more: "qpcs s t = Deq_tail C \<Longrightarrow> ltail s \<noteq> Some C \<Longrightarrow> queue_step s None (qgoto t (Deq_next C) s)"
| deq_notail: "qpcs s t = Deq_notail C \<Longrightarrow>
    queue_step s (Some (Op_pop C)) (qgoto t (Deq_clearhead C) (s\<lparr>ltail := None\<rparr>))"
| deq_clearhead: "qpcs s t = Deq_clearhead C \<Longrightarrow>
    queue_step s None (qgain t C (qgoto t QClient (s\<lparr>lhead := None, qlocked := False\<rparr>)))"
| deq_next: "qpcs s t = Deq_next C \<Longrightarrow> queue_step s None (qgoto t (Deq_set C (lnext s C)) s)"
| deq_set: "qpcs s t = Deq_set C n \<Longrightarrow>
    queue_step s (Some (Op_pop C)) (qgoto t (Deq_clear C) (s\<lparr>lhead := n, qlocked := False\<rparr>))"
| deq_clear: "qpcs s t = Deq_clear C \<Longrightarrow>
    queue_step s None (qgain t C (qgoto t QClient (s\<lparr>lnext := (lnext s)(C := None)\<rparr>)))"

definition queue_init :: "(nat \<Rightarrow> nat set) \<Rightarrow> queue_state" where
  "queue_init nodes =
     \<lparr>lhead = None, lnext = \<lambda>_. None, ltail = None, qlocked = False, qpcs = \<lambda>_. QClient, qmine = nodes\<rparr>"

inductive queue_run :: "(nat \<Rightarrow> nat set) \<Rightarrow> link_op list \<Rightarrow> queue_state \<Rightarrow> bool" for nodes where
  start: "queue_run nodes [] (queue_init nodes)"
| silent: "queue_run nodes tr s \<Longrightarrow> queue_step s None s' \<Longrightarrow> queue_run nodes tr s'"
| effect: "queue_run nodes tr s \<Longrightarrow> queue_step s (Some e) s' \<Longrightarrow> queue_run nodes (e # tr) s'"

text \<open>The next step of a thread as a function; \<open>choice\<close> is the node its client pushes next, or a \<open>pop\<close>.\<close>

definition queue_exec :: "nat \<Rightarrow> nat option \<Rightarrow> queue_state \<Rightarrow> (link_op option \<times> queue_state) option" where
  "queue_exec t choice s =
     (case qpcs s t of
        QClient \<Rightarrow>
          (case choice of
             None \<Rightarrow> Some (None, qgoto t Deq_test s)
           | Some C \<Rightarrow>
               if C \<in> qmine s t then
                 Some (None, qgoto t (Enq_lock C) (s\<lparr>qmine := (qmine s)(t := qmine s t - {C})\<rparr>))
               else None)
      | Enq_lock C \<Rightarrow> if qlocked s then None else Some (None, qgoto t (Enq_clear C) (s\<lparr>qlocked := True\<rparr>))
      | Enq_clear C \<Rightarrow> Some (None, qgoto t (Enq_test C) (s\<lparr>lnext := (lnext s)(C := None)\<rparr>))
      | Enq_test C \<Rightarrow> Some (None, qgoto t (if ltail s = None then Enq_first C else Enq_tail C) s)
      | Enq_tail C \<Rightarrow> (case ltail s of None \<Rightarrow> None | Some T \<Rightarrow> Some (None, qgoto t (Enq_link C T) s))
      | Enq_link C T \<Rightarrow>
          Some (Some (Op_push C), qgoto t (Enq_settail C) (s\<lparr>lnext := (lnext s)(T := Some C)\<rparr>))
      | Enq_settail C \<Rightarrow> Some (None, qgoto t Enq_unlock (s\<lparr>ltail := Some C\<rparr>))
      | Enq_unlock \<Rightarrow> Some (None, qgoto t QClient (s\<lparr>qlocked := False\<rparr>))
      | Enq_first C \<Rightarrow> Some (None, qgoto t (Enq_set C) (s\<lparr>ltail := Some C\<rparr>))
      | Enq_set C \<Rightarrow> Some (Some (Op_push C), qgoto t QClient (s\<lparr>lhead := Some C, qlocked := False\<rparr>))
      | Deq_test \<Rightarrow>
          if ltail s = None then Some (Some Op_pop_empty, qgoto t QClient s) else Some (None, qgoto t Deq_lock s)
      | Deq_lock \<Rightarrow> if qlocked s then None else Some (None, qgoto t Deq_read (s\<lparr>qlocked := True\<rparr>))
      | Deq_read \<Rightarrow>
          (case lhead s of
             None \<Rightarrow> Some (Some Op_pop_empty, qgoto t Deq_unlock s)
           | Some C \<Rightarrow> Some (None, qgoto t (Deq_tail C) s))
      | Deq_unlock \<Rightarrow> Some (None, qgoto t QClient (s\<lparr>qlocked := False\<rparr>))
      | Deq_tail C \<Rightarrow> Some (None, qgoto t (if ltail s = Some C then Deq_notail C else Deq_next C) s)
      | Deq_notail C \<Rightarrow> Some (Some (Op_pop C), qgoto t (Deq_clearhead C) (s\<lparr>ltail := None\<rparr>))
      | Deq_clearhead C \<Rightarrow> Some (None, qgain t C (qgoto t QClient (s\<lparr>lhead := None, qlocked := False\<rparr>)))
      | Deq_next C \<Rightarrow> Some (None, qgoto t (Deq_set C (lnext s C)) s)
      | Deq_set C n \<Rightarrow> Some (Some (Op_pop C), qgoto t (Deq_clear C) (s\<lparr>lhead := n, qlocked := False\<rparr>))
      | Deq_clear C \<Rightarrow> Some (None, qgain t C (qgoto t QClient (s\<lparr>lnext := (lnext s)(C := None)\<rparr>))))"

lemma queue_exec_step: "queue_exec t choice s = Some (e, s') \<Longrightarrow> queue_step s e s'"
  unfolding queue_exec_def
  by (cases "qpcs s t"; cases choice)
    (use queue_step.deq_next [of s t] in
      \<open>auto split: if_splits option.splits intro: queue_step.intros simp del: not_None_eq\<close>)

fun queue_replay :: "(nat \<times> nat option) list \<Rightarrow> link_op list \<Rightarrow> queue_state \<Rightarrow> (link_op list \<times> queue_state) option" where
  "queue_replay [] tr s = Some (tr, s)"
| "queue_replay ((t, choice) # cs) tr s =
     (case queue_exec t choice s of
        None \<Rightarrow> None
      | Some (None, s') \<Rightarrow> queue_replay cs tr s'
      | Some (Some e, s') \<Rightarrow> queue_replay cs (e # tr) s')"

lemma queue_replay_run:
  "queue_run nodes tr s \<Longrightarrow> queue_replay cs tr s = Some (tr', s') \<Longrightarrow> queue_run nodes tr' s'"
proof (induction cs tr s rule: queue_replay.induct)
  case (2 t choice cs tr s)
  from "2.prems"(2) obtain e s1 where e: "queue_exec t choice s = Some (e, s1)" by (auto split: option.splits)
  have "queue_run nodes (case e of None \<Rightarrow> tr | Some a \<Rightarrow> a # tr) s1"
    using queue_exec_step [OF e] "2.prems"(1) by (cases e) (auto intro: queue_run.intros)
  then show ?case using "2.IH" [OF e] "2.prems"(2) e by (cases e) auto
qed simp

section \<open>The abstract queue\<close>

fun queue_effect :: "link_op \<Rightarrow> nat list \<Rightarrow> nat list option" where
  "queue_effect (Op_push C) xs = Some (xs @ [C])"
| "queue_effect (Op_pop C) xs = (case xs of [] \<Rightarrow> None | x # ys \<Rightarrow> if x = C then Some ys else None)"
| "queue_effect Op_pop_empty xs = (if xs = [] then Some [] else None)"

fun queue_history :: "link_op list \<Rightarrow> nat list option" where
  "queue_history [] = Some []"
| "queue_history (e # tr) = (case queue_history tr of None \<Rightarrow> None | Some xs \<Rightarrow> queue_effect e xs)"

section \<open>The invariant\<close>

fun qpc_nodes :: "qpc \<Rightarrow> nat set" where
  "qpc_nodes (Enq_lock C) = {C}" | "qpc_nodes (Enq_clear C) = {C}" | "qpc_nodes (Enq_test C) = {C}"
| "qpc_nodes (Enq_tail C) = {C}" | "qpc_nodes (Enq_link C T) = {C}" | "qpc_nodes (Enq_first C) = {C}"
| "qpc_nodes (Enq_set C) = {C}" | "qpc_nodes (Deq_clearhead C) = {C}" | "qpc_nodes (Deq_clear C) = {C}"
| "qpc_nodes _ = {}"

fun lock_free :: "qpc \<Rightarrow> bool" where
  "lock_free QClient = True" | "lock_free (Enq_lock C) = True" | "lock_free Deq_test = True"
| "lock_free Deq_lock = True" | "lock_free (Deq_clear C) = True" | "lock_free _ = False"

definition whole :: "queue_state \<Rightarrow> nat list \<Rightarrow> bool" where
  "whole s xs \<longleftrightarrow> linked (lnext s) (lhead s) xs \<and> ltail s = (if xs = [] then None else Some (last xs))"

text \<open>What the owner of the lock may find and leave at each point.\<close>

fun qshape :: "queue_state \<Rightarrow> nat list \<Rightarrow> qpc \<Rightarrow> bool" where
  "qshape s xs (Enq_test C) \<longleftrightarrow> whole s xs \<and> lnext s C = None"
| "qshape s xs (Enq_tail C) \<longleftrightarrow> whole s xs \<and> lnext s C = None \<and> xs \<noteq> []"
| "qshape s xs (Enq_link C T) \<longleftrightarrow> whole s xs \<and> lnext s C = None \<and> xs \<noteq> [] \<and> T = last xs"
| "qshape s xs (Enq_settail C) \<longleftrightarrow> linked (lnext s) (lhead s) xs \<and> xs \<noteq> [] \<and> last xs = C \<and> ltail s \<noteq> None"
| "qshape s xs (Enq_first C) \<longleftrightarrow> whole s xs \<and> lnext s C = None \<and> xs = []"
| "qshape s xs (Enq_set C) \<longleftrightarrow> xs = [] \<and> lhead s = None \<and> ltail s = Some C \<and> lnext s C = None"
| "qshape s xs (Deq_tail C) \<longleftrightarrow> whole s xs \<and> lhead s = Some C"
| "qshape s xs (Deq_notail C) \<longleftrightarrow> whole s xs \<and> lhead s = Some C \<and> xs = [C]"
| "qshape s xs (Deq_clearhead C) \<longleftrightarrow> xs = [] \<and> ltail s = None \<and> lhead s = Some C \<and> lnext s C = None"
| "qshape s xs (Deq_next C) \<longleftrightarrow> whole s xs \<and> lhead s = Some C \<and> ltail s \<noteq> Some C"
| "qshape s xs (Deq_set C n) \<longleftrightarrow> whole s xs \<and> lhead s = Some C \<and> ltail s \<noteq> Some C \<and> lnext s C = n"
| "qshape s xs _ \<longleftrightarrow> whole s xs"

definition qnodes :: "queue_state \<Rightarrow> nat \<Rightarrow> nat set" where
  "qnodes s t = qmine s t \<union> qpc_nodes (qpcs s t)"

definition queue_ok :: "nat list \<Rightarrow> queue_state \<Rightarrow> bool" where
  "queue_ok xs s \<longleftrightarrow> distinct xs \<and>
     (\<forall>t. set xs \<inter> qnodes s t = {} \<and> qmine s t \<inter> qpc_nodes (qpcs s t) = {}) \<and>
     (\<forall>t u. t \<noteq> u \<longrightarrow> qnodes s t \<inter> qnodes s u = {}) \<and>
     (if qlocked s then \<exists>t. \<not> lock_free (qpcs s t) \<and> qshape s xs (qpcs s t) \<and> (\<forall>u. u \<noteq> t \<longrightarrow> lock_free (qpcs s u))
      else whole s xs \<and> (\<forall>t. lock_free (qpcs s t)))"

definition queue_parts :: "nat list \<Rightarrow> queue_state \<Rightarrow> bool" where
  "queue_parts xs s \<longleftrightarrow> distinct xs \<and>
     (\<forall>t. set xs \<inter> qnodes s t = {} \<and> qmine s t \<inter> qpc_nodes (qpcs s t) = {}) \<and>
     (\<forall>t u. t \<noteq> u \<longrightarrow> qnodes s t \<inter> qnodes s u = {})"

text \<open>How a step of thread \<open>t\<close> may move nodes between the queue, its code and its client.\<close>

definition moves :: "nat \<Rightarrow> nat list \<Rightarrow> queue_state \<Rightarrow> nat list \<Rightarrow> queue_state \<Rightarrow> bool" where
  "moves t xs s xs' s' \<longleftrightarrow> distinct xs' \<and>
     (\<forall>u. u \<noteq> t \<longrightarrow> qpcs s' u = qpcs s u \<and> qmine s' u = qmine s u) \<and>
     set xs' \<union> qnodes s' t \<subseteq> set xs \<union> qnodes s t \<and>
     set xs' \<inter> qnodes s' t = {} \<and> qmine s' t \<inter> qpc_nodes (qpcs s' t) = {}"

lemma queue_parts_change:
  assumes ok: "queue_parts xs s" and m: "moves t xs s xs' s'"
  shows "queue_parts xs' s'"
proof -
  have qn: "qnodes s' u = qnodes s u" if "u \<noteq> t" for u using m that by (simp add: qnodes_def moves_def)
  have dis: "qnodes s u \<inter> qnodes s v = {}" if "u \<noteq> v" for u v using ok that by (simp add: queue_parts_def)
  have new: "(set xs' \<union> qnodes s' t) \<inter> qnodes s u = {}" if "u \<noteq> t" for u
    using m dis [OF that] ok unfolding moves_def queue_parts_def by blast
  have "qnodes s' u \<inter> qnodes s' v = {}" if "u \<noteq> v" for u v
  proof -
    have "qnodes s' t \<inter> qnodes s w = {}" if "w \<noteq> t" for w using new [OF that] by blast
    then show ?thesis using that dis [OF that] qn by (cases "u = t"; cases "v = t") (simp_all add: Int_commute)
  qed
  moreover have "set xs' \<inter> qnodes s' u = {} \<and> qmine s' u \<inter> qpc_nodes (qpcs s' u) = {}" for u
  proof (cases "u = t")
    case False
    then have "qmine s' u \<inter> qpc_nodes (qpcs s' u) = {}" using ok m by (simp add: queue_parts_def moves_def)
    then show ?thesis using new [OF False] qn [OF False] by auto
  qed (use m in \<open>simp add: moves_def\<close>)
  ultimately show ?thesis using m unfolding queue_parts_def moves_def by blast
qed

lemma queue_ok_parts: "queue_ok xs s \<longleftrightarrow> queue_parts xs s \<and>
   (if qlocked s then \<exists>t. \<not> lock_free (qpcs s t) \<and> qshape s xs (qpcs s t) \<and> (\<forall>u. u \<noteq> t \<longrightarrow> lock_free (qpcs s u))
    else whole s xs \<and> (\<forall>t. lock_free (qpcs s t)))"
  unfolding queue_ok_def queue_parts_def by blast

text \<open>A step without the lock writes nothing but fields of the nodes of its thread.\<close>

lemma queue_ok_free:
  assumes ok: "queue_ok xs s" and m: "moves t xs s xs s'"
    and free: "lock_free (qpcs s t)" "lock_free (qpcs s' t)"
    and same: "lhead s' = lhead s" "ltail s' = ltail s" "qlocked s' = qlocked s"
    and frame: "\<And>D. D \<notin> qnodes s t \<Longrightarrow> lnext s' D = lnext s D"
  shows "queue_ok xs s'"
proof -
  have parts: "queue_parts xs s" using ok by (simp add: queue_ok_parts)
  have "lnext s' D = lnext s D" if "D \<in> set xs" for D
    by (rule frame) (use parts that in \<open>auto simp: queue_parts_def\<close>)
  then have l: "linked (lnext s') (lhead s) xs = linked (lnext s) (lhead s) xs" by (rule linked_cong)
  have w: "whole s' xs = whole s xs" using same l by (simp add: whole_def)
  have h: "lhead s = Some C \<Longrightarrow> whole s xs \<Longrightarrow> C \<in> set xs" for C by (cases xs) (simp_all add: whole_def)
  have sh: "qshape s' xs (qpcs s u)" if "qshape s xs (qpcs s u)" "u \<noteq> t" for u
  proof -
    have "lnext s' D = lnext s D" if D: "D \<in> qpc_nodes (qpcs s u) \<union> set xs" for D
    proof (rule frame)
      have "D \<in> qnodes s u \<union> set xs" using D by (auto simp: qnodes_def)
      then show "D \<notin> qnodes s t" using parts \<open>u \<noteq> t\<close> unfolding queue_parts_def by blast
    qed
    then show ?thesis using that(1) w same l h by (cases "qpcs s u") auto
  qed
  show ?thesis
  proof (cases "qlocked s")
    case True
    then obtain u where u: "\<not> lock_free (qpcs s u)" "qshape s xs (qpcs s u)" "\<forall>v. v \<noteq> u \<longrightarrow> lock_free (qpcs s v)"
      using ok by (auto simp: queue_ok_parts)
    then have ut: "u \<noteq> t" using free by auto
    then have "\<forall>v. v \<noteq> u \<longrightarrow> lock_free (qpcs s' v)" using u(3) m free(2) unfolding moves_def by metis
    moreover have "qpcs s' u = qpcs s u" using m ut by (simp add: moves_def)
    ultimately show ?thesis
      using sh [OF u(2) ut] u(1) queue_parts_change [OF parts m] same True unfolding queue_ok_parts by metis
  next
    case False
    then have "lock_free (qpcs s' v)" for v using ok m free(2) by (cases "v = t") (auto simp: queue_ok_parts moves_def)
    then show ?thesis using ok w False queue_parts_change [OF parts m] same by (simp add: queue_ok_parts)
  qed
qed

text \<open>The owner of the lock, or the thread that takes the free lock.\<close>

lemma queue_ok_lock:
  assumes ok: "queue_ok xs s" and m: "moves t xs s xs' s'"
    and own: "qlocked s \<longrightarrow> \<not> lock_free (qpcs s t)"
    and new: "if qlocked s' then \<not> lock_free (qpcs s' t) \<and> qshape s' xs' (qpcs s' t)
      else lock_free (qpcs s' t) \<and> whole s' xs'"
  shows "queue_ok xs' s'"
proof -
  have "lock_free (qpcs s u)" if "u \<noteq> t" for u using ok own that unfolding queue_ok_parts by (metis (full_types))
  then have fr: "lock_free (qpcs s' u)" if "u \<noteq> t" for u using m that by (simp add: moves_def)
  have "queue_parts xs' s'" using queue_parts_change [OF _ m] ok by (simp add: queue_ok_parts)
  then show ?thesis using fr new unfolding queue_ok_parts by metis
qed

lemma queue_ok_at:
  assumes "queue_ok xs s" "\<not> lock_free (qpcs s t)"
  shows "qlocked s \<and> qshape s xs (qpcs s t)"
  using assms unfolding queue_ok_parts by (metis (full_types))

lemma queue_ok_unlocked: "queue_ok xs s \<Longrightarrow> \<not> qlocked s \<Longrightarrow> whole s xs"
  by (simp add: queue_ok_parts)

lemma queue_ok_nodes:
  "queue_ok xs s \<Longrightarrow> distinct xs \<and> set xs \<inter> qnodes s t = {} \<and> qmine s t \<inter> qpc_nodes (qpcs s t) = {}"
  by (simp add: queue_ok_def)

text \<open>The test without the lock sees no tail only when the queue is empty.\<close>

lemma queue_ok_notail:
  assumes "queue_ok xs s" "ltail s = None"
  shows "xs = []"
proof (cases "qlocked s")
  case True
  then obtain t where "qshape s xs (qpcs s t)" using assms(1) by (auto simp: queue_ok_parts)
  then show ?thesis using assms(2) by (cases "qpcs s t") (auto simp: whole_def split: if_splits)
qed (use assms in \<open>auto simp: queue_ok_parts whole_def split: if_splits\<close>)

lemmas queue_ops = qgoto_def qgain_def qnodes_def moves_def whole_def

lemma whole_single:
  assumes "whole s xs" "distinct xs" "lhead s = Some C" "ltail s = Some C"
  shows "xs = [C]"
proof -
  obtain ys where ys: "xs = C # ys" using assms(1,3) by (auto simp: whole_def)
  then have "last xs = C" using assms(1,4) by (simp add: whole_def)
  then show ?thesis using ys assms(2) by (cases ys) (auto split: if_splits)
qed

lemma linked_last_None: "linked nx h xs \<Longrightarrow> xs \<noteq> [] \<Longrightarrow> nx (last xs) = None"
  by (induction xs arbitrary: h) (auto split: if_splits)

lemma linked_snoc:
  "linked nx h xs \<Longrightarrow> xs \<noteq> [] \<Longrightarrow> distinct xs \<Longrightarrow> C \<notin> set xs \<Longrightarrow> nx C = None \<Longrightarrow>
   linked (nx(last xs := Some C)) h (xs @ [C])"
proof (induction xs arbitrary: h)
  case (Cons x xs)
  show ?case
  proof (cases "xs = []")
    case False
    then have "x \<noteq> last xs" using Cons.prems(3) by auto
    then show ?thesis using Cons False by auto
  qed (use Cons in auto)
qed simp

lemma queue_silent_ok:
  assumes "queue_step s None s'" and ok: "queue_ok xs s"
  shows "queue_ok xs s'"
  using assms(1)
proof cases
  case (enq t C)
  with queue_ok_nodes [OF ok, of t] show ?thesis
    by (intro queue_ok_free [OF ok, of t]) (auto simp: queue_ops)
next
  case (deq t)
  with queue_ok_nodes [OF ok, of t] show ?thesis
    by (intro queue_ok_free [OF ok, of t]) (auto simp: queue_ops)
next
  case (deq_nonempty t)
  with queue_ok_nodes [OF ok, of t] show ?thesis
    by (intro queue_ok_free [OF ok, of t]) (auto simp: queue_ops)
next
  case (deq_clear t C)
  with queue_ok_nodes [OF ok, of t] show ?thesis
    by (intro queue_ok_free [OF ok, of t]) (auto simp: queue_ops)
next
  case (enq_lock t C)
  with queue_ok_nodes [OF ok, of t] queue_ok_unlocked [OF ok] show ?thesis
    by (intro queue_ok_lock [OF ok, of t]) (auto simp: queue_ops)
next
  case (deq_lock t)
  with queue_ok_nodes [OF ok, of t] queue_ok_unlocked [OF ok] show ?thesis
    by (intro queue_ok_lock [OF ok, of t]) (auto simp: queue_ops)
next
  case (enq_clear t C)
  with queue_ok_nodes [OF ok, of t] queue_ok_at [OF ok, of t] show ?thesis
    by (intro queue_ok_lock [OF ok, of t]) (auto simp: queue_ops split: if_splits)
next
  case (enq_nonempty t C)
  with queue_ok_nodes [OF ok, of t] queue_ok_at [OF ok, of t] show ?thesis
    by (intro queue_ok_lock [OF ok, of t]) (auto simp: queue_ops split: if_splits)
next
  case (enq_empty t C)
  with queue_ok_nodes [OF ok, of t] queue_ok_at [OF ok, of t] show ?thesis
    by (intro queue_ok_lock [OF ok, of t]) (auto simp: queue_ops split: if_splits)
next
  case (enq_tail t C T)
  with queue_ok_nodes [OF ok, of t] queue_ok_at [OF ok, of t] show ?thesis
    by (intro queue_ok_lock [OF ok, of t]) (auto simp: queue_ops split: if_splits)
next
  case (enq_settail t C)
  with queue_ok_nodes [OF ok, of t] queue_ok_at [OF ok, of t] show ?thesis
    by (intro queue_ok_lock [OF ok, of t]) (auto simp: queue_ops split: if_splits)
next
  case (enq_unlock t)
  with queue_ok_nodes [OF ok, of t] queue_ok_at [OF ok, of t] show ?thesis
    by (intro queue_ok_lock [OF ok, of t]) (auto simp: queue_ops split: if_splits)
next
  case (enq_first t C)
  with queue_ok_nodes [OF ok, of t] queue_ok_at [OF ok, of t] show ?thesis
    by (intro queue_ok_lock [OF ok, of t]) (auto simp: queue_ops split: if_splits)
next
  case (deq_read t C)
  with queue_ok_nodes [OF ok, of t] queue_ok_at [OF ok, of t] show ?thesis
    by (intro queue_ok_lock [OF ok, of t]) (auto simp: queue_ops split: if_splits)
next
  case (deq_unlock t)
  with queue_ok_nodes [OF ok, of t] queue_ok_at [OF ok, of t] show ?thesis
    by (intro queue_ok_lock [OF ok, of t]) (auto simp: queue_ops split: if_splits)
next
  case (deq_last t C)
  with queue_ok_nodes [OF ok, of t] queue_ok_at [OF ok, of t] whole_single [of s xs C] show ?thesis
    by (intro queue_ok_lock [OF ok, of t]) (auto simp: queue_ops split: if_splits)
next
  case (deq_more t C)
  with queue_ok_nodes [OF ok, of t] queue_ok_at [OF ok, of t] show ?thesis
    by (intro queue_ok_lock [OF ok, of t]) (auto simp: queue_ops split: if_splits)
next
  case (deq_clearhead t C)
  with queue_ok_nodes [OF ok, of t] queue_ok_at [OF ok, of t] show ?thesis
    by (intro queue_ok_lock [OF ok, of t]) (auto simp: queue_ops split: if_splits)
next
  case (deq_next t C)
  with queue_ok_nodes [OF ok, of t] queue_ok_at [OF ok, of t] show ?thesis
    by (intro queue_ok_lock [OF ok, of t]) (auto simp: queue_ops split: if_splits)
qed

lemma queue_effect_ok:
  assumes "queue_step s (Some e) s'" and ok: "queue_ok xs s"
  shows "\<exists>ys. queue_effect e xs = Some ys \<and> queue_ok ys s'"
  using assms(1)
proof cases
  case (enq_link t C T)
  have at: "whole s xs" "lnext s C = None" "xs \<noteq> []" "T = last xs" "qlocked s"
    using queue_ok_at [OF ok, of t] enq_link by simp_all
  have n: "C \<notin> set xs" "distinct xs" using queue_ok_nodes [OF ok, of t] enq_link by (auto simp: qnodes_def)
  have "linked ((lnext s)(last xs := Some C)) (lhead s) (xs @ [C])"
    using at n by (intro linked_snoc) (simp_all add: whole_def)
  then have "queue_ok (xs @ [C]) s'"
    using enq_link at n queue_ok_nodes [OF ok, of t]
    by (intro queue_ok_lock [OF ok, of t]) (auto simp: queue_ops)
  then show ?thesis using enq_link by simp
next
  case (enq_set t C)
  with queue_ok_nodes [OF ok, of t] queue_ok_at [OF ok, of t] have "queue_ok [C] s'"
    by (intro queue_ok_lock [OF ok, of t]) (auto simp: queue_ops)
  then show ?thesis using enq_set queue_ok_at [OF ok, of t] by simp
next
  case (deq_empty t)
  with queue_ok_nodes [OF ok, of t] have "queue_ok xs s'"
    by (intro queue_ok_free [OF ok, of t]) (auto simp: queue_ops)
  then show ?thesis using deq_empty queue_ok_notail [OF ok] by simp
next
  case (deq_read_none t)
  with queue_ok_at [OF ok, of t] have "xs = []" by (cases xs) (auto simp: whole_def)
  moreover from deq_read_none queue_ok_nodes [OF ok, of t] queue_ok_at [OF ok, of t] have "queue_ok xs s'"
    by (intro queue_ok_lock [OF ok, of t]) (auto simp: queue_ops)
  ultimately show ?thesis using deq_read_none by simp
next
  case (deq_notail t C)
  have at: "whole s xs" "lhead s = Some C" "xs = [C]" "qlocked s"
    using queue_ok_at [OF ok, of t] deq_notail by auto
  then have "queue_ok [] s'" using deq_notail queue_ok_nodes [OF ok, of t]
    by (intro queue_ok_lock [OF ok, of t]) (auto simp: queue_ops)
  then show ?thesis using deq_notail at by simp
next
  case (deq_set t C n)
  have at: "whole s xs" "lhead s = Some C" "ltail s \<noteq> Some C" "lnext s C = n" "qlocked s"
    using queue_ok_at [OF ok, of t] deq_set by simp_all
  then obtain ys where ys: "xs = C # ys" "ys \<noteq> []" by (cases xs) (auto simp: whole_def split: if_splits)
  then have "queue_ok ys s'" using deq_set at queue_ok_nodes [OF ok, of t]
    by (intro queue_ok_lock [OF ok, of t]) (auto simp: queue_ops)
  then show ?thesis using deq_set ys by simp
qed

lemma queue_init_ok: "(\<And>t u. t \<noteq> u \<Longrightarrow> nodes t \<inter> nodes u = {}) \<Longrightarrow> queue_ok [] (queue_init nodes)"
  by (simp add: queue_ok_def queue_init_def qnodes_def whole_def)

lemma queue_run_ok:
  assumes "queue_run nodes tr s" "\<And>t u. t \<noteq> u \<Longrightarrow> nodes t \<inter> nodes u = {}"
  shows "\<exists>xs. queue_history tr = Some xs \<and> queue_ok xs s"
  using assms(1)
proof induction
  case start
  show ?case using queue_init_ok [of nodes] assms(2) by simp
next
  case (silent tr s s')
  then show ?case using queue_silent_ok by blast
next
  case (effect tr s e s')
  then show ?case using queue_effect_ok by fastforce
qed

section \<open>Properties\<close>

text \<open>The assertions of \<open>push\<close> and \<open>pop\<close> and of the unlocking operations they call.\<close>

definition queue_asserts :: "queue_state \<Rightarrow> bool" where
  "queue_asserts s \<longleftrightarrow> (\<forall>t C.
     (qpcs s t = Enq_first C \<longrightarrow> lhead s = None) \<and> (qpcs s t = Deq_clearhead C \<longrightarrow> lnext s C = None) \<and>
     (qpcs s t = Enq_unlock \<or> qpcs s t = Enq_set C \<or> qpcs s t = Deq_unlock \<or> qpcs s t = Deq_clearhead C \<or>
        (\<exists>n. qpcs s t = Deq_set C n) \<longrightarrow> qlocked s))"

text \<open>
  C33: \<open>ConExtLinkedQueue\<close> is linearizable: in every run of any number of threads the operations, in the
  order in which they take effect, are a history of a first-in first-out queue, and no
  assertion of the code fails.
\<close>

theorem queue_linearizable:
  assumes "queue_run nodes tr s" "\<And>t u. t \<noteq> u \<Longrightarrow> nodes t \<inter> nodes u = {}"
  shows "queue_history tr \<noteq> None \<and> queue_asserts s \<and>
    (\<not> qlocked s \<longrightarrow> linked (lnext s) (lhead s) (the (queue_history tr)))"
proof -
  obtain xs where xs: "queue_history tr = Some xs" and ok: "queue_ok xs s" using queue_run_ok [OF assms] by blast
  have "queue_asserts s"
    unfolding queue_asserts_def
  proof (intro allI)
    fix t C
    show "(qpcs s t = Enq_first C \<longrightarrow> lhead s = None) \<and> (qpcs s t = Deq_clearhead C \<longrightarrow> lnext s C = None) \<and>
     (qpcs s t = Enq_unlock \<or> qpcs s t = Enq_set C \<or> qpcs s t = Deq_unlock \<or> qpcs s t = Deq_clearhead C \<or>
        (\<exists>n. qpcs s t = Deq_set C n) \<longrightarrow> qlocked s)"
      using queue_ok_at [OF ok, of t] by (auto simp: whole_def)
  qed
  then show ?thesis using xs queue_ok_unlocked [OF ok] by (simp add: whole_def)
qed

text \<open>Without interference the functions keep the list and its tail.\<close>

definition links_hold :: "queue_links \<Rightarrow> nat list \<Rightarrow> bool" where
  "links_hold q xs \<longleftrightarrow> linked (lnext q) (lhead q) xs \<and> distinct xs \<and> ltail q = (if xs = [] then None else Some (last xs))"

lemma queue_push_holds:
  assumes "links_hold q xs" "C \<notin> set xs"
  shows "links_hold (queue_push C q) (xs @ [C])"
proof (cases "xs = []")
  case False
  have "linked ((lnext q)(C := None)) (lhead q) xs" using assms by (simp add: links_hold_def)
  then have "linked ((lnext q)(C := None, last xs := Some C)) (lhead q) (xs @ [C])"
    using assms False by (intro linked_snoc) (simp_all add: links_hold_def)
  then show ?thesis using assms False by (simp add: links_hold_def queue_push_def)
qed (use assms in \<open>simp add: links_hold_def queue_push_def\<close>)

lemma queue_pop_holds:
  assumes "links_hold q (C # xs)"
  shows "fst (queue_pop q) = Some C \<and> links_hold (snd (queue_pop q)) xs"
  using assms by (cases "xs = []") (auto simp: links_hold_def queue_pop_def queue_empty_def)

lemma queue_pop_none: "links_hold q [] \<Longrightarrow> queue_pop q = (None, q)"
  by (simp add: links_hold_def queue_pop_def queue_empty_def)

text \<open>Thread 0 pushes 4, thread 1 pushes 5, thread 0 takes the first node while thread 1 waits for the lock.\<close>

definition queue_example :: "(nat \<times> nat option) list" where
  "queue_example = replicate 6 (0, Some 4) @ replicate 8 (1, Some 5) @ [(1, None), (1, None)] @
     replicate 7 (0, None) @ replicate 3 (1, None)"

theorem queue_linearizable_witness:
  "(case queue_replay queue_example [] (queue_init (\<lambda>t. if t = 0 then {4} else if t = 1 then {5} else {})) of
      None \<Rightarrow> False
    | Some (tr, s) \<Rightarrow> tr = [Op_pop 4, Op_push 5, Op_push 4] \<and> qpcs s 1 = Deq_notail 5 \<and>
        queue_history tr \<noteq> None \<and> queue_asserts s)"
proof -
  let ?n = "\<lambda>t :: nat. if t = 0 then {4 :: nat} else if t = 1 then {5} else {}"
  let ?r = "queue_replay queue_example [] (queue_init ?n)"
  have v: "map_option (\<lambda>(tr, s). (tr, qpcs s 1)) ?r = Some ([Op_pop 4, Op_push 5, Op_push 4], Deq_notail 5)"
    by code_simp
  then obtain tr s where r: "?r = Some (tr, s)" by auto
  have "queue_run ?n tr s" by (rule queue_replay_run [OF queue_run.start r])
  from queue_linearizable [OF this] have "queue_history tr \<noteq> None \<and> queue_asserts s" by auto
  then show ?thesis using v r by simp
qed

end
