(* ===== verification/Chunked.thy ===== *)
theory Chunked
  imports ConExtQueue FixedSize
begin

text \<open>
  The chunked worklists of \<open>WorkList/Chunked.h\<close>: each thread fills and empties its own chunk, a
  \<open>FixedSizeRing\<close>, and full chunks travel through linked lists that threads share or own. Chunks are
  numbers, the addresses of rings in a heap; the operations run without interference.
\<close>

section \<open>Data and operations\<close>

text \<open>The list of chunks is one of two classes; each works on the links in the chunks themselves.\<close>

datatype linkage = LinkedStack | LinkedQueue

fun qt_push :: "linkage \<Rightarrow> nat \<Rightarrow> queue_links \<Rightarrow> queue_links" where
  "qt_push LinkedStack C q = stack_push C q"
| "qt_push LinkedQueue C q = queue_push C q"

fun qt_pop :: "linkage \<Rightarrow> queue_links \<Rightarrow> nat option \<times> queue_links" where
  "qt_pop LinkedStack q = stack_pop q"
| "qt_pop LinkedQueue q = queue_pop q"

text \<open>
  The template arguments and the machine: which list a thread pushes to and which one an index names
  (\<open>squeue\<close>), the thread's own index and the number of lists to look at, and the allocator, given the
  chunks in use.
\<close>

datatype storage = PerThread | PerPackage | Shared

record chunk_cfg =
  qt :: linkage
  distrib :: storage
  isStack :: bool
  chunkSize :: nat
  activeThreads :: nat
  packageOf :: "nat \<Rightarrow> nat"
  leaderOf :: "nat \<Rightarrow> nat"
  maxPackage :: "nat \<Rightarrow> nat"
  allocate :: "nat set \<Rightarrow> nat"

definition sq_get :: "chunk_cfg \<Rightarrow> nat \<Rightarrow> nat" where
  "sq_get K i = (case distrib K of PerThread \<Rightarrow> i | PerPackage \<Rightarrow> leaderOf K i | Shared \<Rightarrow> 0)"

definition sq_local :: "chunk_cfg \<Rightarrow> nat \<Rightarrow> nat" where
  "sq_local K tid =
     (case distrib K of PerThread \<Rightarrow> tid | PerPackage \<Rightarrow> leaderOf K (packageOf K tid) | Shared \<Rightarrow> 0)"

definition myEffectiveID :: "chunk_cfg \<Rightarrow> nat \<Rightarrow> nat" where
  "myEffectiveID K tid = (case distrib K of PerThread \<Rightarrow> tid | PerPackage \<Rightarrow> packageOf K tid | Shared \<Rightarrow> 0)"

definition sq_size :: "chunk_cfg \<Rightarrow> nat" where
  "sq_size K =
     (case distrib K of PerThread \<Rightarrow> activeThreads K | PerPackage \<Rightarrow> maxPackage K (activeThreads K - 1) + 1 | Shared \<Rightarrow> 0)"

record 'a chunked =
  chunk :: "nat \<Rightarrow> 'a FixedSizeRing"
  links :: "nat \<Rightarrow> nat option"
  live :: "nat set"
  level_head :: "nat \<Rightarrow> nat option"
  level_tail :: "nat \<Rightarrow> nat option"
  p_cur :: "nat \<Rightarrow> nat option"
  p_next :: "nat \<Rightarrow> nat option"

definition level :: "'a chunked \<Rightarrow> nat \<Rightarrow> queue_links" where
  "level s i = \<lparr>lhead = level_head s i, lnext = links s, ltail = level_tail s i\<rparr>"

definition put_level :: "nat \<Rightarrow> queue_links \<Rightarrow> 'a chunked \<Rightarrow> 'a chunked" where
  "put_level i q s =
     s\<lparr>level_head := (level_head s)(i := lhead q), links := lnext q, level_tail := (level_tail s)(i := ltail q)\<rparr>"

definition set_chunk :: "nat \<Rightarrow> 'a FixedSizeRing \<Rightarrow> 'a chunked \<Rightarrow> 'a chunked" where
  "set_chunk C R s = s\<lparr>chunk := (chunk s)(C := R)\<rparr>"

definition set_cur :: "nat \<Rightarrow> nat option \<Rightarrow> 'a chunked \<Rightarrow> 'a chunked" where
  "set_cur t C s = s\<lparr>p_cur := (p_cur s)(t := C)\<rparr>"

definition set_nxt :: "nat \<Rightarrow> nat option \<Rightarrow> 'a chunked \<Rightarrow> 'a chunked" where
  "set_nxt t C s = s\<lparr>p_next := (p_next s)(t := C)\<rparr>"

definition chunked_init :: "nat \<Rightarrow> 'a chunked" where
  "chunked_init cs =
     \<lparr>chunk = \<lambda>_. ring_init cs, links = \<lambda>_. None, live = {}, level_head = \<lambda>_. None, level_tail = \<lambda>_. None,
      p_cur = \<lambda>_. None, p_next = \<lambda>_. None\<rparr>"

definition mkChunk :: "chunk_cfg \<Rightarrow> 'a chunked \<Rightarrow> nat \<times> 'a chunked" where
  "mkChunk K s =
     (let C = allocate K (live s)
      in (C, s\<lparr>live := insert C (live s), chunk := (chunk s)(C := ring_init (chunkSize K)), links := (links s)(C := None)\<rparr>))"

definition delChunk :: "nat \<Rightarrow> 'a chunked \<Rightarrow> 'a chunked" where
  "delChunk C s = s\<lparr>live := live s - {C}\<rparr>"

definition pushChunk :: "chunk_cfg \<Rightarrow> nat \<Rightarrow> nat \<Rightarrow> 'a chunked \<Rightarrow> 'a chunked" where
  "pushChunk K tid C s = (let i = sq_local K tid in put_level i (qt_push (qt K) C (level s i)) s)"

definition popChunkByID :: "chunk_cfg \<Rightarrow> nat \<Rightarrow> 'a chunked \<Rightarrow> nat option \<times> 'a chunked" where
  "popChunkByID K i s =
     (let j = sq_get K i in case qt_pop (qt K) (level s j) of (r, q) \<Rightarrow> (r, put_level j q s))"

text \<open>The two loops over the other indices, as the list of the indices they visit.\<close>

fun popChunk_scan :: "chunk_cfg \<Rightarrow> nat list \<Rightarrow> 'a chunked \<Rightarrow> nat option \<times> 'a chunked" where
  "popChunk_scan K [] s = (None, s)"
| "popChunk_scan K (i # is) s =
     (case popChunkByID K i s of
        (Some r, s1) \<Rightarrow> (Some r, s1)
      | (None, s1) \<Rightarrow> popChunk_scan K is s1)"

definition popChunk :: "chunk_cfg \<Rightarrow> nat \<Rightarrow> 'a chunked \<Rightarrow> nat option \<times> bool \<times> 'a chunked" where
  "popChunk K tid s =
     (let id = myEffectiveID K tid in
      case popChunkByID K id s of
        (Some r, s1) \<Rightarrow> (Some r, True, s1)
      | (None, s1) \<Rightarrow>
          case popChunk_scan K ([id + 1..<sq_size K] @ [0..<id]) s1 of (r, s2) \<Rightarrow> (r, False, s2))"

text \<open>\<open>emplacei\<close> returns the address of the new element: its chunk and its cell.\<close>

definition emplace_fresh :: "chunk_cfg \<Rightarrow> nat \<Rightarrow> 'a \<Rightarrow> 'a chunked \<Rightarrow> (nat \<times> nat) option \<times> 'a chunked" where
  "emplace_fresh K tid val s =
     (case mkChunk K s of
        (C, s1) \<Rightarrow>
          let s2 = set_nxt tid (Some C) s1 in
          case ring_emplace_back (chunkSize K) val (chunk s2 C) of
            (cell, R) \<Rightarrow>
              let s3 = set_chunk C R s2;
                  s4 = (if chunkSize K = 1 then set_nxt tid None (pushChunk K tid C s3) else s3)
              in (map_option (Pair C) cell, s4))"

definition emplacei :: "chunk_cfg \<Rightarrow> nat \<Rightarrow> 'a \<Rightarrow> 'a chunked \<Rightarrow> (nat \<times> nat) option \<times> 'a chunked" where
  "emplacei K tid val s =
     (case p_next s tid of
        None \<Rightarrow> emplace_fresh K tid val s
      | Some C \<Rightarrow>
          case ring_emplace_back (chunkSize K) val (chunk s C) of
            (Some cell, R) \<Rightarrow> (Some (C, cell), set_chunk C R s)
          | (None, R) \<Rightarrow> emplace_fresh K tid val (pushChunk K tid C (set_chunk C R s)))"

definition chunked_flush :: "chunk_cfg \<Rightarrow> nat \<Rightarrow> 'a chunked \<Rightarrow> 'a chunked" where
  "chunked_flush K tid s =
     (let s1 = (case p_next s tid of None \<Rightarrow> s | Some C \<Rightarrow> pushChunk K tid C s) in set_nxt tid None s1)"

definition chunked_push :: "chunk_cfg \<Rightarrow> nat \<Rightarrow> 'a \<Rightarrow> 'a chunked \<Rightarrow> 'a chunked" where
  "chunked_push K tid val s = snd (emplacei K tid val s)"

fun chunked_push_range :: "chunk_cfg \<Rightarrow> nat \<Rightarrow> 'a list \<Rightarrow> nat \<Rightarrow> 'a chunked \<Rightarrow> nat \<times> 'a chunked" where
  "chunked_push_range K tid [] npush s = (npush, s)"
| "chunked_push_range K tid (v # vs) npush s =
     chunked_push_range K tid vs (npush + 1) (snd (emplacei K tid v s))"

definition del_opt :: "nat option \<Rightarrow> 'a chunked \<Rightarrow> 'a chunked" where
  "del_opt C s = (case C of None \<Rightarrow> s | Some C \<Rightarrow> delChunk C s)"

text \<open>\<open>retval\<close> of a chunk, when there is one, from the back or the front.\<close>

definition extract_of :: "chunk_cfg \<Rightarrow> nat option \<Rightarrow> 'a chunked \<Rightarrow> 'a option \<times> 'a chunked" where
  "extract_of K C s =
     (case C of
        None \<Rightarrow> (None, s)
      | Some C \<Rightarrow>
          case (if isStack K then ring_extract_back else ring_extract_front) (chunkSize K) (chunk s C) of
            (r, R) \<Rightarrow> (r, set_chunk C R s))"

definition chunked_pop :: "chunk_cfg \<Rightarrow> nat \<Rightarrow> 'a chunked \<Rightarrow> 'a option \<times> 'a chunked" where
  "chunked_pop K tid s =
     (if isStack K then
        (case extract_of K (p_next s tid) s of
           (Some v, s1) \<Rightarrow> (Some v, s1)
         | (None, s1) \<Rightarrow>
             case popChunk K tid (del_opt (p_next s1 tid) s1) of
               (C, local, s2) \<Rightarrow> extract_of K C (set_nxt tid C s2))
      else
        (case extract_of K (p_cur s tid) s of
           (Some v, s1) \<Rightarrow> (Some v, s1)
         | (None, s1) \<Rightarrow>
             case popChunk K tid (del_opt (p_cur s1 tid) s1) of
               (C, local, s2) \<Rightarrow>
                 let s3 = set_cur tid C s2;
                     s4 = (if C = None then set_nxt tid None (set_cur tid (p_next s3 tid) s3) else s3)
                 in extract_of K (p_cur s4 tid) s4))"

definition peek_of :: "chunk_cfg \<Rightarrow> nat option \<Rightarrow> 'a chunked \<Rightarrow> 'a option" where
  "peek_of K C s =
     (case C of
        None \<Rightarrow> None
      | Some C \<Rightarrow>
          if ring_empty (chunk s C) then None
          else if isStack K then ring_back (chunkSize K) (chunk s C) else ring_front (chunk s C))"

definition chunked_peek :: "chunk_cfg \<Rightarrow> nat \<Rightarrow> 'a chunked \<Rightarrow> 'a option \<times> 'a chunked" where
  "chunked_peek K tid s =
     (if isStack K then
        (case peek_of K (p_next s tid) s of
           Some v \<Rightarrow> (Some v, s)
         | None \<Rightarrow>
             case popChunk K tid (del_opt (p_next s tid) s) of
               (C, local, s1) \<Rightarrow> let s2 = set_nxt tid C s1 in (peek_of K C s2, s2))
      else
        (case peek_of K (p_cur s tid) s of
           Some v \<Rightarrow> (Some v, s)
         | None \<Rightarrow>
             case popChunk K tid (del_opt (p_cur s tid) s) of
               (C, local, s1) \<Rightarrow>
                 let s2 = set_cur tid C s1;
                     s3 = (if C = None then set_nxt tid None (set_cur tid (p_next s2 tid) s2) else s2)
                 in (peek_of K (p_cur s3 tid) s3, s3)))"

text \<open>\<open>pop_peeked\<close> asserts that there is a chunk with an element; \<open>None\<close> is the failed assertion.\<close>

definition chunked_pop_peeked :: "chunk_cfg \<Rightarrow> nat \<Rightarrow> 'a chunked \<Rightarrow> 'a chunked option" where
  "chunked_pop_peeked K tid s =
     (case (if isStack K then p_next s tid else p_cur s tid) of
        None \<Rightarrow> None
      | Some C \<Rightarrow>
          map_option (\<lambda>R. set_chunk C R s)
            ((if isStack K then ring_pop_back else ring_pop_front) (chunkSize K) (chunk s C)))"

section \<open>The contract of the linked lists\<close>

text \<open>
  What the worklist needs of \<open>ConExtLinkedStack\<close> and \<open>ConExtLinkedQueue\<close>: a list of distinct chunks,
  where a new one goes, which one comes out, and that only links of its own chunks are written.
\<close>

locale chunk_list =
  fixes lpush :: "nat \<Rightarrow> queue_links \<Rightarrow> queue_links"
    and lpop :: "queue_links \<Rightarrow> nat option \<times> queue_links"
    and holds :: "queue_links \<Rightarrow> nat list \<Rightarrow> bool"
    and ins :: "nat \<Rightarrow> nat list \<Rightarrow> nat list"
  assumes start: "holds \<lparr>lhead = None, lnext = f, ltail = None\<rparr> []"
    and frame: "holds q xs \<Longrightarrow> (\<And>x. x \<in> set xs \<Longrightarrow> f x = lnext q x) \<Longrightarrow> holds (q\<lparr>lnext := f\<rparr>) xs"
    and push: "holds q xs \<Longrightarrow> C \<notin> set xs \<Longrightarrow> holds (lpush C q) (ins C xs)"
    and push_frame: "holds q xs \<Longrightarrow> D \<notin> insert C (set xs) \<Longrightarrow> lnext (lpush C q) D = lnext q D"
    and pop_empty: "holds q [] \<Longrightarrow> lpop q = (None, q)"
    and pop: "holds q (C # xs) \<Longrightarrow> fst (lpop q) = Some C \<and> holds (snd (lpop q)) xs"
    and pop_frame: "holds q xs \<Longrightarrow> D \<notin> set xs \<Longrightarrow> lnext (snd (lpop q)) D = lnext q D"
    and ins: "mset (ins C xs) = add_mset C (mset xs)"
begin

text \<open>Another list of chunks is not disturbed.\<close>

lemma push_other:
  assumes "holds q xs" "holds r ys" "lnext r = lnext q" "set ys \<inter> insert C (set xs) = {}"
  shows "holds (r\<lparr>lnext := lnext (lpush C q)\<rparr>) ys"
proof (rule frame [OF assms(2)])
  fix x
  assume "x \<in> set ys"
  then have "x \<notin> insert C (set xs)" using assms(4) by blast
  then show "lnext (lpush C q) x = lnext r x" using push_frame [OF assms(1)] assms(3) by simp
qed

lemma pop_other:
  assumes "holds q xs" "holds r ys" "lnext r = lnext q" "set ys \<inter> set xs = {}"
  shows "holds (r\<lparr>lnext := lnext (snd (lpop q))\<rparr>) ys"
  by (rule frame [OF assms(2)]) (use assms pop_frame [OF assms(1)] in auto)

lemma pop_result:
  assumes "holds q xs"
  shows "(case fst (lpop q) of None \<Rightarrow> xs = [] \<and> snd (lpop q) = q | Some C \<Rightarrow> \<exists>ys. xs = C # ys \<and> holds (snd (lpop q)) ys)"
  using assms pop_empty pop by (cases xs) auto

end

fun qt_holds :: "linkage \<Rightarrow> queue_links \<Rightarrow> nat list \<Rightarrow> bool" where
  "qt_holds LinkedStack q xs \<longleftrightarrow> linked (lnext q) (lhead q) xs \<and> distinct xs"
| "qt_holds LinkedQueue q xs \<longleftrightarrow> links_hold q xs"

fun qt_ins :: "linkage \<Rightarrow> nat \<Rightarrow> nat list \<Rightarrow> nat list" where
  "qt_ins LinkedStack C xs = C # xs"
| "qt_ins LinkedQueue C xs = xs @ [C]"

lemma queue_push_frame: "links_hold q xs \<Longrightarrow> D \<notin> insert C (set xs) \<Longrightarrow> lnext (queue_push C q) D = lnext q D"
  by (auto simp: queue_push_def links_hold_def split: option.splits if_splits)

lemma queue_pop_frame: "links_hold q xs \<Longrightarrow> D \<notin> set xs \<Longrightarrow> lnext (snd (queue_pop q)) D = lnext q D"
  by (cases xs) (auto simp: queue_pop_def links_hold_def queue_empty_def split: option.splits if_splits)

lemma links_hold_frame: "links_hold q xs \<Longrightarrow> (\<And>x. x \<in> set xs \<Longrightarrow> f x = lnext q x) \<Longrightarrow> links_hold (q\<lparr>lnext := f\<rparr>) xs"
  using linked_cong [of xs f "lnext q" "lhead q"] by (simp add: links_hold_def)

lemma links_hold_init: "links_hold \<lparr>lhead = None, lnext = f, ltail = None\<rparr> []"
  by (simp add: links_hold_def)

interpretation qtl: chunk_list "qt_push k" "qt_pop k" "qt_holds k" "qt_ins k" for k
proof (cases k)
  case LinkedStack
  have fr: "linked f (lhead q) xs" if "linked (lnext q) (lhead q) xs" "\<And>x. x \<in> set xs \<Longrightarrow> f x = lnext q x"
    for q :: queue_links and f xs
    using that linked_cong [of xs f "lnext q" "lhead q"] by simp
  show "chunk_list (qt_push k) (qt_pop k) (qt_holds k) (qt_ins k)"
    unfolding LinkedStack
    by unfold_locales
      (auto simp: stack_push_def stack_pop_def stack_empty_def fr split: option.splits)
next
  case LinkedQueue
  show "chunk_list (qt_push k) (qt_pop k) (qt_holds k) (qt_ins k)"
    unfolding LinkedQueue
    by unfold_locales
      (auto simp: links_hold_init queue_pop_none queue_push_frame queue_pop_frame intro: queue_push_holds
        links_hold_frame dest: queue_pop_holds)
qed

end
