(* ===== verification/ChunkedTasks.thy ===== *)
theory ChunkedTasks
  imports Chunked
begin

text \<open>
  Correctness of the chunked worklists of theory \<open>Chunked\<close>: who holds which chunk, that no chunk is lost,
  held twice or freed while in use, and what \<open>push\<close>, \<open>pop\<close>, \<open>peek\<close> and \<open>flush\<close> do to the tasks.
\<close>

section \<open>Places of chunks\<close>

datatype place = Level nat | Cur nat | Nxt nat

fun opt_list :: "'b option \<Rightarrow> 'b list" where
  "opt_list None = []" | "opt_list (Some x) = [x]"

fun located :: "chunk_cfg \<Rightarrow> 'a chunked \<Rightarrow> place \<Rightarrow> nat list \<Rightarrow> bool" where
  "located K s (Level i) xs \<longleftrightarrow> qt_holds (qt K) (level s i) xs"
| "located K s (Cur t) xs \<longleftrightarrow> xs = opt_list (p_cur s t)"
| "located K s (Nxt t) xs \<longleftrightarrow> xs = opt_list (p_next s t)"

definition owned :: "place set \<Rightarrow> (place \<Rightarrow> nat list) \<Rightarrow> nat multiset" where
  "owned P ls = (\<Sum>pl\<in>P. mset (ls pl))"

definition ring_items :: "nat \<Rightarrow> 'a FixedSizeRing \<Rightarrow> 'a list" where
  "ring_items c R = map (\<lambda>x. the (ring_getAt c R x)) [0..<count R]"

lemma ring_items_rep: "ring_rep c R l \<Longrightarrow> ring_items c R = l"
proof (rule nth_equalityI)
  assume r: "ring_rep c R l"
  then have n: "count R = length l" by (simp add: ring_rep_def)
  then show "length (ring_items c R) = length l" by (simp add: ring_items_def)
  show "ring_items c R ! i = l ! i" if "i < length (ring_items c R)" for i
    using that n ring_getAt_rep [OF r, of i] by (simp add: ring_items_def)
qed

text \<open>
  Every chunk in use is in one place of \<open>P\<close> or in the hands \<open>H\<close> of the operation that runs, and is the ring
  of some sequence.
\<close>

definition chunk_ok :: "chunk_cfg \<Rightarrow> place set \<Rightarrow> nat multiset \<Rightarrow> 'a chunked \<Rightarrow> (place \<Rightarrow> nat list) \<Rightarrow> bool" where
  "chunk_ok K P H s ls \<longleftrightarrow> finite P \<and> (\<forall>pl\<in>P. located K s pl (ls pl)) \<and>
     (\<forall>p. Multiset.count (owned P ls + H) p \<le> 1) \<and> set_mset (owned P ls + H) \<subseteq> live s \<and> finite (live s) \<and>
     (\<forall>p \<in># owned P ls + H. ring_rep (chunkSize K) (chunk s p) (ring_items (chunkSize K) (chunk s p)))"

definition tasks :: "chunk_cfg \<Rightarrow> nat multiset \<Rightarrow> 'a chunked \<Rightarrow> 'a multiset" where
  "tasks K A s = (\<Sum>p\<in>#A. mset (ring_items (chunkSize K) (chunk s p)))"

lemma tasks_simps [simp]:
  "tasks K {#} s = {#}" "tasks K (add_mset p A) s = mset (ring_items (chunkSize K) (chunk s p)) + tasks K A s"
  "tasks K (A + B) s = tasks K A s + tasks K B s"
  by (simp_all add: tasks_def)

lemma tasks_cong: "(\<And>p. p \<in># A \<Longrightarrow> chunk s' p = chunk s p) \<Longrightarrow> tasks K A s' = tasks K A s"
  unfolding tasks_def by (metis (mono_tags, lifting) image_mset_cong)

lemma owned_upd:
  assumes "finite P" "pl \<in> P"
  shows "owned P (ls(pl := xs)) + mset (ls pl) = owned P ls + mset xs"
proof -
  have "(\<Sum>q\<in>P - {pl}. mset ((ls(pl := xs)) q)) = (\<Sum>q\<in>P - {pl}. mset (ls q))" by (rule sum.cong) auto
  then show ?thesis using sum.remove [OF assms, of "\<lambda>q. mset (ls q)"]
      sum.remove [OF assms, of "\<lambda>q. mset ((ls(pl := xs)) q)"] by (simp add: owned_def ac_simps)
qed

text \<open>One chunk more or less in a place, against the hands.\<close>

lemma owned_gain:
  assumes "finite P" "pl \<in> P" "mset xs = add_mset C (mset (ls pl))"
  shows "owned P (ls(pl := xs)) = add_mset C (owned P ls)"
  using owned_upd [OF assms(1,2), of ls xs] assms(3) by simp

lemma owned_member: "finite P \<Longrightarrow> pl \<in> P \<Longrightarrow> C \<in> set (ls pl) \<Longrightarrow> C \<in># owned P ls"
  using owned_upd [of P pl ls "[]"] by (metis add_0_right mset.simps(1) set_mset_mset union_iff)

lemma owned_disjoint:
  assumes "finite P" "pl \<in> P" "pl' \<in> P" "pl \<noteq> pl'" "\<forall>p. Multiset.count (owned P ls + H) p \<le> 1"
  shows "set (ls pl) \<inter> set (ls pl') = {}"
proof (rule ccontr)
  assume "\<not> ?thesis"
  then obtain C where C: "C \<in> set (ls pl)" "C \<in> set (ls pl')" by auto
  have "Multiset.count (owned P (ls(pl := []))) C + Multiset.count (mset (ls pl)) C = Multiset.count (owned P ls) C"
    using owned_upd [OF assms(1,2), of ls "[]"] by (metis add_0_right count_union mset.simps(1))
  moreover have "0 < Multiset.count (mset (ls pl)) C" using C(1) by (simp add: count_greater_zero_iff)
  moreover have "C \<in># owned P (ls(pl := []))"
    by (rule owned_member [OF assms(1,3)]) (use C(2) assms(4) in simp)
  ultimately show False using assms(5) [rule_format, of C] by (simp add: count_greater_zero_iff [symmetric] del: count_greater_zero_iff)
qed

lemma hand_disjoint:
  assumes "finite P" "pl \<in> P" "\<forall>p. Multiset.count (owned P ls + add_mset C H) p \<le> 1"
  shows "C \<notin> set (ls pl)"
proof
  assume "C \<in> set (ls pl)"
  then have "C \<in># owned P ls" using owned_member [OF assms(1,2)] by simp
  then show False using assms(3) [rule_format, of C] by (simp add: count_eq_zero_iff)
qed

text \<open>A step that leaves chunks and links alone and moves chunk \<open>C\<close> between a place and the hands.\<close>

lemma chunk_ok_move:
  assumes ok: "chunk_ok K P H s ls"
    and total: "owned P ls' + H' = owned P ls + H"
    and loc: "\<And>pl. pl \<in> P \<Longrightarrow> located K s' pl (ls' pl)"
    and same: "chunk s' = chunk s" "live s' = live s"
  shows "chunk_ok K P H' s' ls'"
  using assms by (simp add: chunk_ok_def)

lemma take_nxt:
  assumes ok: "chunk_ok K P H s ls" and t: "Nxt t \<in> P" "p_next s t = Some C"
  shows "chunk_ok K P (add_mset C H) (set_nxt t None s) (ls(Nxt t := []))"
proof (rule chunk_ok_move [OF ok])
  have l: "located K s pl (ls pl)" if "pl \<in> P" for pl using ok that by (simp add: chunk_ok_def)
  have "ls (Nxt t) = [C]" using l [OF t(1)] t(2) by simp
  then show "owned P (ls(Nxt t := [])) + add_mset C H = owned P ls + H"
    using owned_upd [of P "Nxt t" ls "[]"] ok t(1) by (simp add: chunk_ok_def)
  show "located K (set_nxt t None s) pl ((ls(Nxt t := [])) pl)" if "pl \<in> P" for pl
    using l [OF that] by (cases pl) (auto simp: set_nxt_def level_def)
qed (simp_all add: set_nxt_def)

lemma give_nxt:
  assumes ok: "chunk_ok K P (add_mset C H) s ls" and t: "Nxt t \<in> P" "p_next s t = None"
  shows "chunk_ok K P H (set_nxt t (Some C) s) (ls(Nxt t := [C]))"
proof (rule chunk_ok_move [OF ok])
  have l: "located K s pl (ls pl)" if "pl \<in> P" for pl using ok that by (simp add: chunk_ok_def)
  have "ls (Nxt t) = []" using l [OF t(1)] t(2) by simp
  then show "owned P (ls(Nxt t := [C])) + H = owned P ls + add_mset C H"
    using owned_upd [of P "Nxt t" ls "[C]"] ok t(1) by (simp add: chunk_ok_def)
  show "located K (set_nxt t (Some C) s) pl ((ls(Nxt t := [C])) pl)" if "pl \<in> P" for pl
    using l [OF that] by (cases pl) (auto simp: set_nxt_def level_def)
qed (simp_all add: set_nxt_def)

lemma take_cur:
  assumes ok: "chunk_ok K P H s ls" and t: "Cur t \<in> P" "p_cur s t = Some C"
  shows "chunk_ok K P (add_mset C H) (set_cur t None s) (ls(Cur t := []))"
proof (rule chunk_ok_move [OF ok])
  have l: "located K s pl (ls pl)" if "pl \<in> P" for pl using ok that by (simp add: chunk_ok_def)
  have "ls (Cur t) = [C]" using l [OF t(1)] t(2) by simp
  then show "owned P (ls(Cur t := [])) + add_mset C H = owned P ls + H"
    using owned_upd [of P "Cur t" ls "[]"] ok t(1) by (simp add: chunk_ok_def)
  show "located K (set_cur t None s) pl ((ls(Cur t := [])) pl)" if "pl \<in> P" for pl
    using l [OF that] by (cases pl) (auto simp: set_cur_def level_def)
qed (simp_all add: set_cur_def)

lemma give_cur:
  assumes ok: "chunk_ok K P (add_mset C H) s ls" and t: "Cur t \<in> P" "p_cur s t = None"
  shows "chunk_ok K P H (set_cur t (Some C) s) (ls(Cur t := [C]))"
proof (rule chunk_ok_move [OF ok])
  have l: "located K s pl (ls pl)" if "pl \<in> P" for pl using ok that by (simp add: chunk_ok_def)
  have "ls (Cur t) = []" using l [OF t(1)] t(2) by simp
  then show "owned P (ls(Cur t := [C])) + H = owned P ls + add_mset C H"
    using owned_upd [of P "Cur t" ls "[C]"] ok t(1) by (simp add: chunk_ok_def)
  show "located K (set_cur t (Some C) s) pl ((ls(Cur t := [C])) pl)" if "pl \<in> P" for pl
    using l [OF that] by (cases pl) (auto simp: set_cur_def level_def)
qed (simp_all add: set_cur_def)

lemma level_put [simp]:
  "level (put_level i q s) j = (if j = i then q else (level s j)\<lparr>lnext := lnext q\<rparr>)"
  by (simp add: level_def put_level_def)

lemma put_level_fields [simp]:
  "chunk (put_level i q s) = chunk s" "live (put_level i q s) = live s"
  "p_cur (put_level i q s) = p_cur s" "p_next (put_level i q s) = p_next s"
  by (simp_all add: put_level_def)

lemma pushChunk_fields [simp]:
  "chunk (pushChunk K t C s) = chunk s" "live (pushChunk K t C s) = live s"
  "p_cur (pushChunk K t C s) = p_cur s" "p_next (pushChunk K t C s) = p_next s"
  by (simp_all add: pushChunk_def Let_def)

lemma pushChunk_ok:
  assumes ok: "chunk_ok K P (add_mset C H) s ls" and j: "Level (sq_local K t) \<in> P"
  shows "chunk_ok K P H (pushChunk K t C s)
    (ls(Level (sq_local K t) := qt_ins (qt K) C (ls (Level (sq_local K t)))))"
proof (rule chunk_ok_move [OF ok])
  let ?j = "sq_local K t"
  have fin: "finite P" and one: "\<forall>p. Multiset.count (owned P ls + add_mset C H) p \<le> 1"
    and l: "\<And>pl. pl \<in> P \<Longrightarrow> located K s pl (ls pl)"
    using ok by (simp_all add: chunk_ok_def)
  have new: "C \<notin> set (ls pl)" if "pl \<in> P" for pl by (rule hand_disjoint [OF fin that one])
  show "owned P (ls(Level ?j := qt_ins (qt K) C (ls (Level ?j)))) + H = owned P ls + add_mset C H"
    using owned_gain [OF fin j, of "qt_ins (qt K) C (ls (Level ?j))" C ls] qtl.ins by simp
  show "located K (pushChunk K t C s) pl ((ls(Level ?j := qt_ins (qt K) C (ls (Level ?j)))) pl)" if pl: "pl \<in> P" for pl
  proof (cases pl)
    case (Level i)
    have h: "qt_holds (qt K) (level s ?j) (ls (Level ?j))" using l [OF j] by simp
    show ?thesis
    proof (cases "i = ?j")
      case True
      then show ?thesis using Level qtl.push [OF h new [OF j]] by (simp add: pushChunk_def Let_def)
    next
      case False
      have "set (ls (Level i)) \<inter> set (ls (Level ?j)) = {}"
        using owned_disjoint [OF fin _ j _ one, of "Level i"] pl Level False by simp
      then have "set (ls (Level i)) \<inter> insert C (set (ls (Level ?j))) = {}" using new [OF pl] Level by simp
      moreover have "qt_holds (qt K) (level s i) (ls (Level i))" using l [OF pl] Level by simp
      ultimately show ?thesis
        using qtl.push_other [OF h, of "level s i" "ls (Level i)" C] Level False
        by (simp add: pushChunk_def Let_def) (simp add: level_def)
    qed
  qed (use l [OF pl] in \<open>simp_all\<close>)
qed simp_all

lemma popChunkByID_ok:
  assumes ok: "chunk_ok K P H s ls" and j: "Level (sq_get K i) \<in> P"
    and r: "popChunkByID K i s = (r, s')"
  shows "(case r of
      None \<Rightarrow> ls (Level (sq_get K i)) = [] \<and> chunk_ok K P H s' ls
    | Some C \<Rightarrow> ls (Level (sq_get K i)) \<noteq> [] \<and> hd (ls (Level (sq_get K i))) = C \<and>
        chunk_ok K P (add_mset C H) s' (ls(Level (sq_get K i) := tl (ls (Level (sq_get K i)))))) \<and>
    chunk s' = chunk s \<and> live s' = live s \<and> p_cur s' = p_cur s \<and> p_next s' = p_next s"
proof -
  let ?j = "sq_get K i"
  let ?q = "snd (qt_pop (qt K) (level s ?j))"
  have fin: "finite P" and one: "\<forall>p. Multiset.count (owned P ls + H) p \<le> 1"
    and l: "\<And>pl. pl \<in> P \<Longrightarrow> located K s pl (ls pl)"
    using ok by (simp_all add: chunk_ok_def)
  have h: "qt_holds (qt K) (level s ?j) (ls (Level ?j))" using l [OF j] by simp
  have r': "r = fst (qt_pop (qt K) (level s ?j))" "s' = put_level ?j ?q s"
    using r by (auto simp: popChunkByID_def Let_def split: prod.splits)
  have other: "located K s' pl (ls pl)" if pl: "pl \<in> P" "pl \<noteq> Level ?j" for pl
  proof (cases pl)
    case (Level k)
    have "set (ls (Level k)) \<inter> set (ls (Level ?j)) = {}"
      using owned_disjoint [OF fin _ j _ one, of "Level k"] pl Level by simp
    moreover have "qt_holds (qt K) (level s k) (ls (Level k))" using l [OF pl(1)] Level by simp
    ultimately show ?thesis
      using qtl.pop_other [OF h, of "level s k" "ls (Level k)"] pl Level r'(2) by simp (simp add: level_def)
  qed (use l [OF pl(1)] r'(2) in \<open>simp_all\<close>)
  have f: "chunk s' = chunk s" "live s' = live s" "p_cur s' = p_cur s" "p_next s' = p_next s" by (simp_all add: r'(2))
  note res = qtl.pop_result [OF h]
  show ?thesis
  proof (cases r)
    case None
    then have e: "ls (Level ?j) = []" "?q = level s ?j" using res r'(1) by auto
    have "chunk_ok K P H s' ls"
    proof (rule chunk_ok_move [OF ok refl])
      show "located K s' pl (ls pl)" if "pl \<in> P" for pl
        using other [OF that] h e(2) r'(2) by (cases "pl = Level ?j") simp_all
    qed (simp_all add: f)
    then show ?thesis using None e f by simp
  next
    case (Some C)
    then obtain ys where ys: "ls (Level ?j) = C # ys" "qt_holds (qt K) ?q ys" using res r'(1) by auto
    have "chunk_ok K P (add_mset C H) s' (ls(Level ?j := ys))"
    proof (rule chunk_ok_move [OF ok])
      show "owned P (ls(Level ?j := ys)) + add_mset C H = owned P ls + H"
        using owned_upd [OF fin j, of ls ys] ys(1) by simp
      show "located K s' pl ((ls(Level ?j := ys)) pl)" if "pl \<in> P" for pl
        using other [OF that] ys(2) r'(2) by (cases "pl = Level ?j") simp_all
    qed (simp_all add: f)
    then show ?thesis using Some ys f by simp
  qed
qed

lemma mkChunk_ok:
  assumes ok: "chunk_ok K P H s ls" and fresh: "allocate K (live s) \<notin> live s" and c: "0 < chunkSize K"
    and m: "mkChunk K s = (C, s')"
  shows "chunk_ok K P (add_mset C H) s' ls \<and> ring_rep (chunkSize K) (chunk s' C) [] \<and>
    p_cur s' = p_cur s \<and> p_next s' = p_next s \<and> tasks K (owned P ls + H) s' = tasks K (owned P ls + H) s"
proof -
  have C: "C \<notin> live s" and s': "s' = s\<lparr>live := insert C (live s), chunk := (chunk s)(C := ring_init (chunkSize K)),
      links := (links s)(C := None)\<rparr>"
    using m fresh by (auto simp: mkChunk_def Let_def)
  have sub: "set_mset (owned P ls + H) \<subseteq> live s" and fin: "finite P" using ok by (simp_all add: chunk_ok_def)
  have new: "C \<notin># owned P ls + H" using sub C by blast
  have out: "C \<notin> set (ls pl)" if "pl \<in> P" for pl using owned_member [OF fin that] new by auto
  have "located K s' pl (ls pl)" if pl: "pl \<in> P" for pl
  proof (cases pl)
    case (Level i)
    have "qt_holds (qt K) (level s i) (ls (Level i))" using ok pl Level by (auto simp: chunk_ok_def)
    then have "qt_holds (qt K) ((level s i)\<lparr>lnext := (links s)(C := None)\<rparr>) (ls (Level i))"
      by (rule qtl.frame) (use out [OF pl] Level in \<open>auto simp: level_def\<close>)
    then show ?thesis using Level by (simp add: s' level_def)
  qed (use ok pl in \<open>auto simp: chunk_ok_def s'\<close>)
  moreover have "Multiset.count (owned P ls + add_mset C H) p \<le> 1" for p
  proof -
    have "Multiset.count (owned P ls + H) C = 0" using new by (simp add: not_in_iff)
    then show ?thesis using ok by (auto simp: chunk_ok_def)
  qed
  moreover have "ring_rep (chunkSize K) (chunk s' p) (ring_items (chunkSize K) (chunk s' p))"
    if "p \<in># owned P ls + add_mset C H" for p
  proof (cases "p = C")
    case True
    then show ?thesis using ring_init_rep [OF c, where ?'a = 'a] ring_items_rep [OF ring_init_rep [OF c, where ?'a = 'a]] by (simp add: s')
  next
    case False
    then show ?thesis using that ok by (auto simp: chunk_ok_def s')
  qed
  ultimately have "chunk_ok K P (add_mset C H) s' ls"
    using ok sub unfolding chunk_ok_def by (auto simp: s')
  moreover have "tasks K (owned P ls + H) s' = tasks K (owned P ls + H) s"
    by (rule tasks_cong) (use new in \<open>auto simp: s'\<close>)
  ultimately show ?thesis using ring_init_rep [OF c, where ?'a = 'a] by (simp add: s')
qed

lemma delChunk_ok:
  assumes ok: "chunk_ok K P (add_mset C H) s ls"
  shows "chunk_ok K P H (delChunk C s) ls"
proof -
  have one: "Multiset.count (owned P ls + add_mset C H) p \<le> 1" for p using ok by (simp add: chunk_ok_def)
  have new: "C \<notin># owned P ls + H" using one [of C] by (simp add: count_eq_zero_iff)
  have "Multiset.count (owned P ls + H) p \<le> 1" for p using one [of p] by (simp split: if_splits)
  moreover have "located K (delChunk C s) pl xs = located K s pl xs" for pl xs
    by (cases pl) (simp_all add: delChunk_def level_def)
  moreover have "set_mset (owned P ls + H) \<subseteq> live s - {C}" using ok new by (auto simp: chunk_ok_def)
  ultimately show ?thesis using ok by (simp add: chunk_ok_def delChunk_def)
qed

lemma set_chunk_ok:
  assumes ok: "chunk_ok K P H s ls" and R: "ring_rep (chunkSize K) R l"
  shows "chunk_ok K P H (set_chunk C R s) ls"
proof -
  have "located K (set_chunk C R s) pl xs = located K s pl xs" for pl xs
    by (cases pl) (simp_all add: set_chunk_def level_def)
  moreover have "ring_rep (chunkSize K) R (ring_items (chunkSize K) R)" using R ring_items_rep [OF R] by simp
  ultimately show ?thesis using ok by (simp add: chunk_ok_def set_chunk_def)
qed

section \<open>Push\<close>

lemma tasks_set_chunk:
  assumes "C \<in># A" "Multiset.count A C \<le> 1"
  shows "tasks K A (set_chunk C R s) + mset (ring_items (chunkSize K) (chunk s C)) =
    tasks K A s + mset (ring_items (chunkSize K) R)"
proof -
  obtain B where A: "A = add_mset C B" using mset_add [OF assms(1)] .
  then have "C \<notin># B" using assms(2) by (simp add: count_eq_zero_iff)
  then have B: "tasks K B (set_chunk C R s) = tasks K B s" by (intro tasks_cong) (auto simp: set_chunk_def)
  have "chunk (set_chunk C R s) C = R" by (simp add: set_chunk_def)
  then show ?thesis unfolding A tasks_simps B by (simp only: ac_simps)
qed

text \<open>
  Chunks that may be popped hold a task: those in the lists and, where \<open>pop\<close> takes the chunk being filled
  last, that one.
\<close>

definition filled :: "chunk_cfg \<Rightarrow> place set \<Rightarrow> 'a chunked \<Rightarrow> (place \<Rightarrow> nat list) \<Rightarrow> bool" where
  "filled K P s ls \<longleftrightarrow> (\<forall>pl\<in>P. (\<exists>i. pl = Level i) \<or> \<not> isStack K \<and> (\<exists>t. pl = Nxt t) \<longrightarrow>
     (\<forall>C \<in> set (ls pl). ring_items (chunkSize K) (chunk s C) \<noteq> []))"

definition fresh_chunks :: "chunk_cfg \<Rightarrow> bool" where
  "fresh_chunks K \<longleftrightarrow> 0 < chunkSize K \<and> (\<forall>S. finite S \<longrightarrow> allocate K S \<notin> S)"

definition places :: "chunk_cfg \<Rightarrow> place set \<Rightarrow> nat \<Rightarrow> bool" where
  "places K P t \<longleftrightarrow> Cur t \<in> P \<and> Nxt t \<in> P \<and> Level (sq_local K t) \<in> P \<and>
     (\<forall>i. i \<le> myEffectiveID K t \<or> i < sq_size K \<longrightarrow> Level (sq_get K i) \<in> P)"

lemma chunk_ok_total:
  assumes "chunk_ok K P H s ls"
  shows "finite P" "Multiset.count (owned P ls + H) p \<le> 1" "set_mset (owned P ls + H) \<subseteq> live s" "finite (live s)"
    "p \<in># owned P ls + H \<Longrightarrow> ring_rep (chunkSize K) (chunk s p) (ring_items (chunkSize K) (chunk s p))"
    "pl \<in> P \<Longrightarrow> located K s pl (ls pl)"
  using assms by (simp_all add: chunk_ok_def)

lemma set_nxt_simps [simp]:
  "set_nxt t x (set_nxt t y s) = set_nxt t x s" "set_nxt t x (set_chunk C R s) = set_chunk C R (set_nxt t x s)"
  "set_nxt t x (pushChunk K u C s) = pushChunk K u C (set_nxt t x s)"
  "chunk (set_nxt t x s) = chunk s" "live (set_nxt t x s) = live s" "p_next (set_nxt t x s) t = x"
  "p_cur (set_nxt t x s) = p_cur s"
  by (simp_all add: set_nxt_def set_chunk_def pushChunk_def put_level_def Let_def level_def)

lemma set_chunk_fields [simp]:
  "chunk (set_chunk C R s) = (chunk s)(C := R)" "live (set_chunk C R s) = live s"
  "p_cur (set_chunk C R s) = p_cur s" "p_next (set_chunk C R s) = p_next s"
  by (simp_all add: set_chunk_def)

lemma set_chunk_same [simp]: "set_chunk C (chunk s C) s = s"
  by (simp add: set_chunk_def)

lemma emplace_fresh_clear: "emplace_fresh K t v (set_nxt t x s) = emplace_fresh K t v s"
proof -
  have "mkChunk K (set_nxt t x s) = (case mkChunk K s of (C, s1) \<Rightarrow> (C, set_nxt t x s1))"
    by (simp add: mkChunk_def Let_def set_nxt_def)
  then show ?thesis by (simp add: emplace_fresh_def split: prod.splits)
qed

lemma ring_emplace_rep:
  assumes "ring_rep c R l"
  shows "(if length l < c then \<exists>p R'. ring_emplace_back c v R = (Some p, R') \<and> ring_rep c R' (l @ [v])
    else ring_emplace_back c v R = (None, R))"
proof (cases "ring_full c R")
  case True
  then have "length l = c" using ring_full_rep [OF assms] by simp
  with True show ?thesis by (simp add: ring_push_back_def)
next
  case False
  then have "length l < c" using ring_full_rep [OF assms] assms by (simp add: ring_rep_def)
  with ring_push_back_rep [OF assms this, of v] show ?thesis by auto
qed

lemma filled_upd:
  assumes "filled K P s ls" "\<And>D. D \<noteq> C \<Longrightarrow> chunk s' D = chunk s D" "ring_items (chunkSize K) (chunk s' C) \<noteq> []"
    and "\<And>q. q \<in> P \<Longrightarrow> set (ls' q) \<subseteq> insert C (set (ls q))"
  shows "filled K P s' ls'"
  unfolding filled_def
proof (intro ballI impI)
  fix q D
  assume q: "q \<in> P" "(\<exists>i. q = Level i) \<or> \<not> isStack K \<and> (\<exists>t. q = Nxt t)" "D \<in> set (ls' q)"
  show "ring_items (chunkSize K) (chunk s' D) \<noteq> []"
  proof (cases "D = C")
    case False
    then have "D \<in> set (ls q)" using q(1,3) assms(4) by blast
    then show ?thesis using assms(1) q(1,2) assms(2) [OF False] unfolding filled_def by metis
  qed (simp add: assms(3))
qed

lemma set_qt_ins [simp]: "set (qt_ins k C xs) = insert C (set xs)"
  using qtl.ins [of k C xs] by (metis set_mset_add_mset_insert set_mset_mset)

lemma emplace_fresh_ok:
  assumes ok: "chunk_ok K P {#} s ls" and t: "places K P t" "p_next s t = None" and K: "fresh_chunks K"
    and r: "emplace_fresh K t v s = (cell, s')"
  shows "\<exists>ls'. cell \<noteq> None \<and> chunk_ok K P {#} s' ls' \<and> (filled K P s ls \<longrightarrow> filled K P s' ls') \<and>
    tasks K (owned P ls') s' = add_mset v (tasks K (owned P ls) s)"
proof -
  let ?c = "chunkSize K"
  let ?j = "sq_local K t"
  have c: "0 < ?c" and fr: "allocate K (live s) \<notin> live s" using K chunk_ok_total(4) [OF ok] by (auto simp: fresh_chunks_def)
  have pl: "Nxt t \<in> P" "Level ?j \<in> P" using t(1) by (simp_all add: places_def)
  obtain C s1 where m: "mkChunk K s = (C, s1)" by fastforce
  have s1: "chunk_ok K P (add_mset C {#}) s1 ls" "ring_rep ?c (chunk s1 C) []" "p_next s1 = p_next s"
    "tasks K (owned P ls) s1 = tasks K (owned P ls) s"
    using mkChunk_ok [OF ok fr c m] by simp_all
  have oth: "chunk s1 p = chunk s p" if "p \<noteq> C" for p using m that by (auto simp: mkChunk_def Let_def)
  define s2 where "s2 = set_nxt t (Some C) s1"
  have ok2: "chunk_ok K P {#} s2 (ls(Nxt t := [C]))"
    unfolding s2_def by (rule give_nxt [OF s1(1) pl(1)]) (simp add: s1(3) t(2))
  have "located K s1 (Nxt t) (ls (Nxt t))" by (rule chunk_ok_total(6) [OF s1(1) pl(1)])
  then have nx: "ls (Nxt t) = []" using s1(3) t(2) by simp
  have own: "owned P (ls(Nxt t := [C])) = add_mset C (owned P ls)"
    by (rule owned_gain [OF chunk_ok_total(1) [OF ok] pl(1)]) (simp add: nx)
  obtain cl R where e: "ring_emplace_back ?c v (chunk s2 C) = (Some cl, R)" "ring_rep ?c R [v]"
    using ring_emplace_rep [OF s1(2), of v] c by (auto simp: s2_def)
  have it: "ring_items ?c R = [v]" by (rule ring_items_rep [OF e(2)])
  define s3 where "s3 = set_chunk C R s2"
  have ok3: "chunk_ok K P {#} s3 (ls(Nxt t := [C]))" unfolding s3_def by (rule set_chunk_ok [OF ok2 e(2)])
  have "Multiset.count (add_mset C (owned P ls)) C \<le> 1" using chunk_ok_total(2) [OF ok2, of C] own by simp
  then have new: "C \<notin># owned P ls" by (simp add: count_eq_zero_iff)
  have "tasks K (owned P ls) s3 = tasks K (owned P ls) s1"
    by (rule tasks_cong) (use new in \<open>auto simp: s3_def s2_def\<close>)
  then have T: "tasks K (add_mset C (owned P ls)) s3 = add_mset v (tasks K (owned P ls) s)"
    by (simp add: s1(4) it) (simp add: s3_def it)
  have kept: "chunk s3 p = chunk s p" if "p \<noteq> C" for p using that oth by (simp add: s3_def s2_def)
  have fC: "ring_items ?c (chunk s3 C) = [v]" by (simp add: s3_def it)
  show ?thesis
  proof (cases "?c = 1")
    case False
    then have s': "s' = s3" "cell = Some (C, cl)"
      using r m e(1) by (simp_all add: emplace_fresh_def Let_def s2_def s3_def)
    have "filled K P s ls \<longrightarrow> filled K P s3 (ls(Nxt t := [C]))"
      by (rule impI, erule filled_upd [where C = C]) (use fC kept in auto)
    then show ?thesis using ok3 own T s' by (intro exI [of _ "ls(Nxt t := [C])"]) simp
  next
    case True
    then have s': "s' = pushChunk K t C (set_nxt t None s3)" "cell = Some (C, cl)"
      using r m e(1) by (simp_all add: emplace_fresh_def Let_def s2_def s3_def)
    have "p_next s3 t = Some C" by (simp add: s3_def s2_def)
    from take_nxt [OF ok3 pl(1) this]
    have "chunk_ok K P (add_mset C {#}) (set_nxt t None s3) ls" using nx by (simp add: fun_upd_idem)
    note p = pushChunk_ok [OF this pl(2)]
    let ?ls = "ls(Level ?j := qt_ins (qt K) C (ls (Level ?j)))"
    have own': "owned P ?ls = add_mset C (owned P ls)"
      by (rule owned_gain [OF chunk_ok_total(1) [OF ok] pl(2)]) (rule qtl.ins)
    have ch: "chunk s' = chunk s3" by (simp add: s')
    then have "tasks K (owned P ?ls) s' = tasks K (owned P ?ls) s3" by (intro tasks_cong) simp
    moreover have "filled K P s ls \<longrightarrow> filled K P s' ?ls"
      by (rule impI, erule filled_upd [where C = C]) (use fC kept ch in auto)
    ultimately show ?thesis using p s' own' T by (intro exI [of _ ?ls]) simp
  qed
qed

lemma emplacei_ok:
  assumes ok: "chunk_ok K P {#} s ls" and t: "places K P t" and K: "fresh_chunks K"
    and r: "emplacei K t v s = (cell, s')"
  shows "\<exists>ls'. cell \<noteq> None \<and> chunk_ok K P {#} s' ls' \<and> (filled K P s ls \<longrightarrow> filled K P s' ls') \<and>
    tasks K (owned P ls') s' = add_mset v (tasks K (owned P ls) s)"
proof (cases "p_next s t")
  case None
  then show ?thesis using emplace_fresh_ok [OF ok t None K] r by (simp add: emplacei_def)
next
  case (Some C)
  let ?c = "chunkSize K"
  let ?j = "sq_local K t"
  have pl: "Nxt t \<in> P" "Level ?j \<in> P" using t by (simp_all add: places_def)
  have fin: "finite P" by (rule chunk_ok_total(1) [OF ok])
  have nx: "ls (Nxt t) = [C]" using chunk_ok_total(6) [OF ok pl(1)] Some by simp
  then have C: "C \<in># owned P ls" using owned_member [OF fin pl(1), of C ls] by simp
  let ?l = "ring_items ?c (chunk s C)"
  have rep: "ring_rep ?c (chunk s C) ?l" using chunk_ok_total(5) [OF ok, of C] C by simp
  show ?thesis
  proof (cases "length ?l < ?c")
    case True
    then obtain p R where R: "ring_emplace_back ?c v (chunk s C) = (Some p, R)" "ring_rep ?c R (?l @ [v])"
      using ring_emplace_rep [OF rep, of v] by auto
    then have s': "s' = set_chunk C R s" "cell = Some (C, p)" using r Some by (simp_all add: emplacei_def)
    have it: "ring_items ?c R = ?l @ [v]" by (rule ring_items_rep [OF R(2)])
    have "Multiset.count (owned P ls) C \<le> 1" using chunk_ok_total(2) [OF ok, of C] by simp
    from tasks_set_chunk [OF C this, of K R s] it
    have "tasks K (owned P ls) s' = add_mset v (tasks K (owned P ls) s)" by (simp add: s')
    moreover have "filled K P s ls \<longrightarrow> filled K P s' ls"
      by (rule impI, erule filled_upd [where C = C]) (use it s' in auto)
    ultimately show ?thesis using set_chunk_ok [OF ok R(2), of C] s' by (intro exI [of _ ls]) simp
  next
    case False
    then have e: "ring_emplace_back ?c v (chunk s C) = (None, chunk s C)" using ring_emplace_rep [OF rep, of v] by simp
    define s1 where "s1 = pushChunk K t C (set_nxt t None s)"
    have r1: "emplace_fresh K t v s1 = (cell, s')"
      using r Some e emplace_fresh_clear [of K t v None "pushChunk K t C s"] by (simp add: emplacei_def s1_def)
    from take_nxt [OF ok pl(1) Some]
    have "chunk_ok K P (add_mset C {#}) (set_nxt t None s) (ls(Nxt t := []))" .
    note p = pushChunk_ok [OF this pl(2)]
    let ?ls = "(ls(Nxt t := []))(Level ?j := qt_ins (qt K) C ((ls(Nxt t := [])) (Level ?j)))"
    have "owned P ?ls = add_mset C (owned P (ls(Nxt t := [])))"
      by (rule owned_gain [OF fin pl(2)]) (rule qtl.ins)
    also have "\<dots> = owned P ls" using owned_upd [OF fin pl(1), of ls "[]"] nx by simp
    finally have own: "owned P ?ls = owned P ls" .
    have "0 < ?c" using K by (simp add: fresh_chunks_def)
    then have ne: "?l \<noteq> []" using False by (metis list.size(3))
    have "filled K P s ls \<longrightarrow> filled K P s1 ?ls"
      by (rule impI, erule filled_upd [where C = C]) (use ne in \<open>auto simp: s1_def\<close>)
    moreover have "tasks K (owned P ls) s1 = tasks K (owned P ls) s" by (rule tasks_cong) (simp add: s1_def)
    moreover have "p_next s1 t = None" by (simp add: s1_def)
    ultimately show ?thesis
      using emplace_fresh_ok [OF p [folded s1_def] t _ K r1] own by metis
  qed
qed

lemma chunked_push_range_ok:
  assumes "chunk_ok K P {#} s ls" "places K P t" "fresh_chunks K"
  shows "\<exists>ls'. chunk_ok K P {#} (snd (chunked_push_range K t vs n s)) ls' \<and>
    (filled K P s ls \<longrightarrow> filled K P (snd (chunked_push_range K t vs n s)) ls') \<and>
    tasks K (owned P ls') (snd (chunked_push_range K t vs n s)) = mset vs + tasks K (owned P ls) s \<and>
    fst (chunked_push_range K t vs n s) = n + length vs"
  using assms(1)
proof (induction vs arbitrary: n s ls)
  case Nil
  then show ?case by auto
next
  case (Cons v vs)
  obtain cell s1 where e: "emplacei K t v s = (cell, s1)" by fastforce
  obtain ls1 where ls1: "chunk_ok K P {#} s1 ls1" "filled K P s ls \<longrightarrow> filled K P s1 ls1"
    "tasks K (owned P ls1) s1 = add_mset v (tasks K (owned P ls) s)"
    using emplacei_ok [OF Cons.prems assms(2,3) e] by blast
  from Cons.IH [OF ls1(1), of "n + 1"] obtain ls2 where
    "chunk_ok K P {#} (snd (chunked_push_range K t vs (n + 1) s1)) ls2"
    "filled K P s1 ls1 \<longrightarrow> filled K P (snd (chunked_push_range K t vs (n + 1) s1)) ls2"
    "tasks K (owned P ls2) (snd (chunked_push_range K t vs (n + 1) s1)) = mset vs + tasks K (owned P ls1) s1"
    "fst (chunked_push_range K t vs (n + 1) s1) = n + 1 + length vs" by blast
  then show ?case using ls1 e by (intro exI [of _ ls2]) auto
qed

section \<open>Pop\<close>

definition visited :: "chunk_cfg \<Rightarrow> nat \<Rightarrow> nat list" where
  "visited K t = (let id = myEffectiveID K t in id # [id + 1..<sq_size K] @ [0..<id])"

text \<open>What taking a chunk from the lists with indices \<open>is\<close> does.\<close>

definition popped ::
    "chunk_cfg \<Rightarrow> place set \<Rightarrow> nat multiset \<Rightarrow> 'a chunked \<Rightarrow> (place \<Rightarrow> nat list) \<Rightarrow> nat list \<Rightarrow> nat option \<Rightarrow> 'a chunked \<Rightarrow> bool" where
  "popped K P H s ls is r s' \<longleftrightarrow>
     chunk s' = chunk s \<and> live s' = live s \<and> p_cur s' = p_cur s \<and> p_next s' = p_next s \<and>
     (case r of
        None \<Rightarrow> chunk_ok K P H s' ls \<and> (\<forall>i \<in> set is. ls (Level (sq_get K i)) = [])
      | Some C \<Rightarrow> \<exists>ls'. chunk_ok K P (add_mset C H) s' ls' \<and> owned P ls = add_mset C (owned P ls') \<and> (\<forall>t. ls' (Cur t) = ls (Cur t) \<and> ls' (Nxt t) = ls (Nxt t)) \<and>
          (filled K P s ls \<longrightarrow> filled K P s' ls' \<and> ring_items (chunkSize K) (chunk s C) \<noteq> []))"

lemma popChunkByID_popped:
  assumes ok: "chunk_ok K P H s ls" and j: "Level (sq_get K i) \<in> P" and r: "popChunkByID K i s = (r, s')"
  shows "popped K P H s ls [i] r s'"
proof (cases r)
  case None
  then show ?thesis using popChunkByID_ok [OF assms] by (simp add: popped_def)
next
  case (Some C)
  let ?j = "Level (sq_get K i)"
  let ?ls = "ls(?j := tl (ls ?j))"
  have p: "ls ?j \<noteq> []" "hd (ls ?j) = C" "chunk_ok K P (add_mset C H) s' ?ls"
    "chunk s' = chunk s" "live s' = live s" "p_cur s' = p_cur s" "p_next s' = p_next s"
    using popChunkByID_ok [OF assms] Some by auto
  have sub: "set (?ls q) \<subseteq> set (ls q)" for q using list.set_sel(2) [OF p(1)] by auto
  have "filled K P s ls \<longrightarrow> filled K P s' ?ls \<and> ring_items (chunkSize K) (chunk s C) \<noteq> []"
  proof
    assume f: "filled K P s ls"
    have "C \<in> set (ls ?j)" using p(1,2) by auto
    then have "ring_items (chunkSize K) (chunk s C) \<noteq> []" using f j unfolding filled_def by blast
    moreover have "filled K P s' ?ls" using f sub p(4) unfolding filled_def by (metis subsetD)
    ultimately show "filled K P s' ?ls \<and> ring_items (chunkSize K) (chunk s C) \<noteq> []" by simp
  qed
  moreover have "owned P ls = add_mset C (owned P ?ls)"
  proof -
    obtain xs where "ls ?j = C # xs" using p(1,2) by (cases "ls ?j") auto
    then show ?thesis using owned_upd [OF chunk_ok_total(1) [OF ok] j, of ls xs] by simp
  qed
  ultimately show ?thesis using p(3-7) Some unfolding popped_def by (auto intro!: exI [of _ ?ls])
qed

lemma popped_trans:
  assumes "popped K P H s ls is None s1" "popped K P H s1 ls js r s2"
  shows "popped K P H s ls (is @ js) r s2"
proof -
  have "filled K P s1 ls = filled K P s ls" using assms(1) by (simp add: popped_def filled_def)
  then show ?thesis using assms by (cases r) (auto simp: popped_def)
qed

lemma popChunk_scan_popped:
  "chunk_ok K P H s ls \<Longrightarrow> (\<forall>i \<in> set is. Level (sq_get K i) \<in> P) \<Longrightarrow> popChunk_scan K is s = (r, s') \<Longrightarrow>
   popped K P H s ls is r s'"
proof (induction "is" arbitrary: s)
  case Nil
  then show ?case by (auto simp: popped_def)
next
  case (Cons i js)
  obtain r1 s1 where e: "popChunkByID K i s = (r1, s1)" by fastforce
  have p: "popped K P H s ls [i] r1 s1" by (rule popChunkByID_popped [OF Cons.prems(1) _ e]) (use Cons.prems in simp)
  show ?case
  proof (cases r1)
    case None
    then have "chunk_ok K P H s1 ls" using p by (simp add: popped_def)
    then have "popped K P H s1 ls js r s'" using Cons.IH Cons.prems e None by simp
    from popped_trans [OF p [unfolded None] this] show ?thesis by simp
  next
    case (Some C)
    then show ?thesis using p Cons.prems(3) e by (auto simp: popped_def)
  qed
qed

lemma popChunk_popped:
  assumes ok: "chunk_ok K P H s ls" and t: "places K P t" and r: "popChunk K t s = (r, local, s')"
  shows "popped K P H s ls (visited K t) r s'"
proof -
  let ?id = "myEffectiveID K t"
  have id: "Level (sq_get K ?id) \<in> P" using t by (simp add: places_def)
  obtain r1 s1 where e: "popChunkByID K ?id s = (r1, s1)" by fastforce
  have p: "popped K P H s ls [?id] r1 s1" by (rule popChunkByID_popped [OF ok id e])
  show ?thesis
  proof (cases r1)
    case None
    then have "chunk_ok K P H s1 ls" using p by (simp add: popped_def)
    moreover have "popChunk_scan K ([?id + 1..<sq_size K] @ [0..<?id]) s1 = (r, s')"
      using r e None by (auto simp: popChunk_def Let_def split: prod.splits)
    moreover have "\<forall>i \<in> set ([?id + 1..<sq_size K] @ [0..<?id]). Level (sq_get K i) \<in> P" using t by (auto simp: places_def)
    ultimately have "popped K P H s1 ls ([?id + 1..<sq_size K] @ [0..<?id]) r s'" by (intro popChunk_scan_popped)
    from popped_trans [OF p [unfolded None] this] show ?thesis by (simp add: visited_def Let_def)
  next
    case (Some C)
    then show ?thesis using p r e by (auto simp: popChunk_def Let_def popped_def)
  qed
qed

text \<open>Commuting with the fields of the thread.\<close>

lemma popChunkByID_set [simp]:
  "popChunkByID K i (set_nxt t x s) = (case popChunkByID K i s of (r, s') \<Rightarrow> (r, set_nxt t x s'))"
  "popChunkByID K i (set_cur t x s) = (case popChunkByID K i s of (r, s') \<Rightarrow> (r, set_cur t x s'))"
  by (simp_all add: popChunkByID_def Let_def set_nxt_def set_cur_def level_def put_level_def split: prod.splits)

lemma popChunk_scan_set [simp]:
  "popChunk_scan K is (set_nxt t x s) = (case popChunk_scan K is s of (r, s') \<Rightarrow> (r, set_nxt t x s'))"
  "popChunk_scan K is (set_cur t x s) = (case popChunk_scan K is s of (r, s') \<Rightarrow> (r, set_cur t x s'))"
  by (induction "is" arbitrary: s) (auto split: prod.splits option.splits)

lemma popChunk_set:
  "popChunk K u (set_nxt t x s) = (case popChunk K u s of (r, l, s') \<Rightarrow> (r, l, set_nxt t x s'))"
  "popChunk K u (set_cur t x s) = (case popChunk K u s of (r, l, s') \<Rightarrow> (r, l, set_cur t x s'))"
  by (auto simp: popChunk_def Let_def split: prod.splits option.splits)

lemma set_cur_simps [simp]:
  "set_cur t x (set_cur t y s) = set_cur t x s" "chunk (set_cur t x s) = chunk s" "live (set_cur t x s) = live s"
  "p_cur (set_cur t x s) t = x" "p_next (set_cur t x s) = p_next s"
  by (simp_all add: set_cur_def)

lemma delChunk_set [simp]:
  "set_nxt t x (delChunk C s) = delChunk C (set_nxt t x s)" "set_cur t x (delChunk C s) = delChunk C (set_cur t x s)"
  "chunk (delChunk C s) = chunk s" "p_cur (delChunk C s) = p_cur s" "p_next (delChunk C s) = p_next s"
  by (simp_all add: set_nxt_def set_cur_def delChunk_def)

text \<open>Taking an element from a chunk that stays where it is.\<close>

lemma extract_of_ok:
  assumes ok: "chunk_ok K P {#} s ls" and C: "C \<in># owned P ls" and r: "extract_of K (Some C) s = (v, s')"
  shows "case v of
      None \<Rightarrow> s' = s \<and> ring_items (chunkSize K) (chunk s C) = []
    | Some x \<Rightarrow> chunk_ok K P {#} s' ls \<and> tasks K (owned P ls) s = add_mset x (tasks K (owned P ls) s') \<and>
        (\<forall>D. D \<noteq> C \<longrightarrow> chunk s' D = chunk s D)"
proof -
  let ?c = "chunkSize K"
  let ?l = "ring_items ?c (chunk s C)"
  let ?x = "if isStack K then ring_extract_back else ring_extract_front"
  have rep: "ring_rep ?c (chunk s C) ?l" using chunk_ok_total(5) [OF ok, of C] C by simp
  have one: "Multiset.count (owned P ls) C \<le> 1" using chunk_ok_total(2) [OF ok, of C] by simp
  note deq = FixedSizeRing_refines_deque [OF rep, of undefined]
  show ?thesis
  proof (cases "?l = []")
    case True
    then have "?x ?c (chunk s C) = (None, chunk s C)" using deq by auto
    then have "v = None" "s' = s" using r by (simp_all add: extract_of_def)
    then show ?thesis using True by simp
  next
    case False
    then obtain x R l' where R: "?x ?c (chunk s C) = (Some x, R)" "ring_rep ?c R l'" "mset ?l = add_mset x (mset l')"
    proof (cases "isStack K")
      case True
      obtain R where "ring_extract_back ?c (chunk s C) = (Some (last ?l), R)" "ring_rep ?c R (butlast ?l)"
        using deq False by blast
      then show ?thesis using that [of "last ?l" R "butlast ?l"] True mset_butlast_last [OF False] by simp
    next
      case nst: False
      obtain R where "ring_extract_front ?c (chunk s C) = (Some (hd ?l), R)" "ring_rep ?c R (tl ?l)"
        using deq False by blast
      moreover have "mset ?l = add_mset (hd ?l) (mset (tl ?l))" using False by (metis list.collapse mset.simps(2))
      ultimately show ?thesis using that [of "hd ?l" R "tl ?l"] nst by simp
    qed
    then have v: "v = Some x" "s' = set_chunk C R s" using r by (simp_all add: extract_of_def)
    have "tasks K (owned P ls) s' + mset ?l = tasks K (owned P ls) s + mset l'"
      using tasks_set_chunk [OF C one, of K R s] ring_items_rep [OF R(2)] v(2) by simp
    then have "tasks K (owned P ls) s = add_mset x (tasks K (owned P ls) s')" using R(3) by simp
    then show ?thesis using set_chunk_ok [OF ok R(2), of C] v by simp
  qed
qed

text \<open>The chunk a thread pops from: the one it fills, or a second one.\<close>

definition hand :: "chunk_cfg \<Rightarrow> nat \<Rightarrow> place" where "hand K t = (if isStack K then Nxt t else Cur t)"
definition get_hand :: "chunk_cfg \<Rightarrow> nat \<Rightarrow> 'a chunked \<Rightarrow> nat option" where
  "get_hand K t s = (if isStack K then p_next s t else p_cur s t)"
definition set_hand :: "chunk_cfg \<Rightarrow> nat \<Rightarrow> nat option \<Rightarrow> 'a chunked \<Rightarrow> 'a chunked" where
  "set_hand K t C s = (if isStack K then set_nxt t C s else set_cur t C s)"

lemma hand_place: "places K P t \<Longrightarrow> hand K t \<in> P"
  by (simp add: places_def hand_def)

lemma take_hand:
  "chunk_ok K P H s ls \<Longrightarrow> places K P t \<Longrightarrow> get_hand K t s = Some C \<Longrightarrow>
   chunk_ok K P (add_mset C H) (set_hand K t None s) (ls(hand K t := []))"
  by (auto simp: get_hand_def set_hand_def hand_def places_def intro: take_nxt take_cur)

lemma give_hand:
  "chunk_ok K P (add_mset C H) s ls \<Longrightarrow> places K P t \<Longrightarrow> get_hand K t s = None \<Longrightarrow>
   chunk_ok K P H (set_hand K t (Some C) s) (ls(hand K t := [C]))"
  by (auto simp: get_hand_def set_hand_def hand_def places_def intro: give_nxt give_cur)

lemma hand_list:
  assumes "chunk_ok K P H s ls" "places K P t"
  shows "ls (hand K t) = opt_list (get_hand K t s)"
  using chunk_ok_total(6) [OF assms(1) hand_place [OF assms(2)]] by (simp add: hand_def get_hand_def split: if_splits)

lemma set_hand_simps [simp]:
  "set_hand K t x (set_hand K t y s) = set_hand K t x s" "chunk (set_hand K t x s) = chunk s"
  "live (set_hand K t x s) = live s" "get_hand K t (set_hand K t x s) = x"
  "set_hand K t x (delChunk C s) = delChunk C (set_hand K t x s)"
  by (simp_all add: set_hand_def get_hand_def)

lemma set_hand_idem: "get_hand K t s = x \<Longrightarrow> set_hand K t x s = s"
  by (auto simp: set_hand_def get_hand_def set_nxt_def set_cur_def fun_upd_idem)

lemma popChunk_hand:
  "popChunk K u (set_hand K t x s) = (case popChunk K u s of (r, l, s') \<Rightarrow> (r, l, set_hand K t x s'))"
  by (simp add: set_hand_def popChunk_set)

lemma filled_less:
  assumes "filled K P s ls" "chunk s' = chunk s" "\<And>q. set (ls' q) \<subseteq> set (ls q)"
  shows "filled K P s' ls'"
  unfolding filled_def assms(2)
proof (intro ballI impI)
  fix q D
  assume "q \<in> P" "(\<exists>i. q = Level i) \<or> \<not> isStack K \<and> (\<exists>t. q = Nxt t)" "D \<in> set (ls' q)"
  then show "ring_items (chunkSize K) (chunk s D) \<noteq> []" using assms(1,3) unfolding filled_def by blast
qed

text \<open>The chunk popped from is empty: it is freed and another one taken from the lists.\<close>

lemma refill_ok:
  assumes ok: "chunk_ok K P {#} s ls" and t: "places K P t"
    and empty: "\<forall>C \<in> set (ls (hand K t)). ring_items (chunkSize K) (chunk s C) = []"
    and r: "popChunk K t (del_opt (get_hand K t s) s) = (r, l, s2)"
  shows "\<exists>ls'. chunk_ok K P {#} (set_hand K t r s2) ls' \<and>
    tasks K (owned P ls') s2 = tasks K (owned P ls) s \<and> chunk s2 = chunk s \<and> ls' (hand K t) = opt_list r \<and>
    (\<not> isStack K \<longrightarrow> p_next s2 = p_next s \<and> ls' (Nxt t) = ls (Nxt t)) \<and>
    (filled K P s ls \<longrightarrow> filled K P s2 ls' \<and> (\<forall>C. r = Some C \<longrightarrow> ring_items (chunkSize K) (chunk s C) \<noteq> [])) \<and>
    (r = None \<longrightarrow> (\<forall>i \<in> set (visited K t). ls (Level (sq_get K i)) = []))"
proof -
  let ?h = "hand K t"
  let ?ls0 = "ls(?h := [])"
  let ?s0 = "set_hand K t None s"
  let ?s1 = "del_opt (get_hand K t s) ?s0"
  have hP: "?h \<in> P" by (rule hand_place [OF t])
  have fin: "finite P" by (rule chunk_ok_total(1) [OF ok])
  have lh: "ls ?h = opt_list (get_hand K t s)" by (rule hand_list [OF ok t])
  have ok1: "chunk_ok K P {#} ?s1 ?ls0"
  proof (cases "get_hand K t s")
    case None
    then have "?ls0 = ls" using lh by (simp add: fun_upd_idem)
    then show ?thesis using ok None by (simp add: del_opt_def set_hand_idem)
  next
    case (Some C)
    from delChunk_ok [OF take_hand [OF ok t Some]] show ?thesis using Some by (simp add: del_opt_def)
  qed
  have T0: "tasks K (owned P ?ls0) s = tasks K (owned P ls) s"
  proof -
    have "tasks K (mset (ls ?h)) s = {#}" using empty lh by (cases "get_hand K t s") auto
    moreover have "tasks K (owned P ?ls0 + mset (ls ?h)) s = tasks K (owned P ls) s"
      using owned_upd [OF fin hP, of ls "[]"] by simp
    ultimately show ?thesis by simp
  qed
  have c1: "chunk ?s1 = chunk s" "p_next ?s1 = (if isStack K then p_next ?s0 else p_next s)"
    by (simp_all add: del_opt_def set_hand_def split: option.splits)
  have "popChunk K t ?s1 = (r, l, set_hand K t None s2)"
  proof -
    have e: "?s1 = set_hand K t None (del_opt (get_hand K t s) s)" by (simp add: del_opt_def split: option.splits)
    show ?thesis unfolding e popChunk_hand r by simp
  qed
  from popChunk_popped [OF ok1 t this] have p: "popped K P {#} ?s1 ?ls0 (visited K t) r (set_hand K t None s2)" .
  have c2: "chunk s2 = chunk s" using p c1 by (simp add: popped_def)
  have nx2: "\<not> isStack K \<longrightarrow> p_next s2 = p_next s" using p c1 by (auto simp: popped_def set_hand_def)
  have f1: "filled K P s ls \<longrightarrow> filled K P ?s1 ?ls0" using filled_less [of K P s ls ?s1 ?ls0] c1 by auto
  have lev: "?ls0 (Level i) = ls (Level i)" for i by (simp add: hand_def)
  have nxl: "\<not> isStack K \<longrightarrow> ?ls0 (Nxt t) = ls (Nxt t)" by (simp add: hand_def)
  show ?thesis
  proof (cases r)
    case None
    have "chunk_ok K P {#} (set_hand K t None s2) ?ls0" "\<forall>i \<in> set (visited K t). ?ls0 (Level (sq_get K i)) = []"
      using p None unfolding popped_def by simp_all
    moreover have "tasks K (owned P ?ls0) s2 = tasks K (owned P ?ls0) s" by (rule tasks_cong) (simp add: c2)
    moreover have "filled K P s ls \<longrightarrow> filled K P s2 ?ls0" using f1 c1(1) c2 unfolding filled_def by metis
    ultimately show ?thesis using None T0 c2 nx2 nxl unfolding lev by (intro exI [of _ ?ls0]) simp
  next
    case (Some C)
    then obtain ls2 where ls2: "chunk_ok K P (add_mset C {#}) (set_hand K t None s2) ls2"
      "owned P ?ls0 = add_mset C (owned P ls2)" "\<forall>t. ls2 (Cur t) = ?ls0 (Cur t) \<and> ls2 (Nxt t) = ?ls0 (Nxt t)"
      "filled K P ?s1 ?ls0 \<longrightarrow> filled K P (set_hand K t None s2) ls2 \<and> ring_items (chunkSize K) (chunk s C) \<noteq> []"
      using p c1 by (auto simp: popped_def)
    let ?ls' = "ls2(?h := [C])"
    have h2: "ls2 ?h = []" using ls2(3) by (auto simp: hand_def)
    have ok3: "chunk_ok K P {#} (set_hand K t (Some C) s2) ?ls'"
      using give_hand [OF ls2(1) t] by simp
    have own: "owned P ?ls' = owned P ?ls0"
      using owned_gain [OF fin hP, of "[C]" C ls2] h2 ls2(2) by simp
    have "tasks K (owned P ?ls') s2 = tasks K (owned P ls) s"
      unfolding own T0 [symmetric] by (rule tasks_cong) (simp add: c2)
    moreover have "filled K P s ls \<longrightarrow> filled K P s2 ?ls'"
    proof
      assume "filled K P s ls"
      then have "filled K P (set_hand K t None s2) ls2" and ne: "ring_items (chunkSize K) (chunk s C) \<noteq> []"
        using f1 ls2(4) by simp_all
      then show "filled K P s2 ?ls'"
        by (elim filled_upd [where C = C]) (use c2 ne in auto)
    qed
    moreover have "\<not> isStack K \<longrightarrow> ?ls' (Nxt t) = ls (Nxt t)" using ls2(3) by (simp add: hand_def)
    ultimately show ?thesis using ok3 Some c2 nx2 f1 ls2(4) by (intro exI [of _ ?ls']) auto
  qed
qed

lemma extract_hand:
  assumes ok: "chunk_ok K P {#} s ls" and t: "places K P t" and r: "extract_of K (get_hand K t s) s = (v, s')"
  shows "case v of
      None \<Rightarrow> s' = s \<and> (\<forall>C \<in> set (ls (hand K t)). ring_items (chunkSize K) (chunk s C) = [])
    | Some x \<Rightarrow> chunk_ok K P {#} s' ls \<and> tasks K (owned P ls) s = add_mset x (tasks K (owned P ls) s') \<and>
        (filled K P s ls \<longrightarrow> filled K P s' ls)"
proof (cases "get_hand K t s")
  case None
  then have "v = None" "s' = s" using r by (simp_all add: extract_of_def)
  then show ?thesis using hand_list [OF ok t] None by simp
next
  case (Some C)
  have fin: "finite P" and hP: "hand K t \<in> P" by (rule chunk_ok_total(1) [OF ok], rule hand_place [OF t])
  have one: "\<forall>p. Multiset.count (owned P ls + {#}) p \<le> 1" using chunk_ok_total(2) [OF ok] by blast
  have l: "ls (hand K t) = [C]" using hand_list [OF ok t] Some by simp
  then have "C \<in># owned P ls" using owned_member [OF fin hP, of C ls] by simp
  note e = extract_of_ok [OF ok this r [unfolded Some]]
  show ?thesis
  proof (cases v)
    case None
    then show ?thesis using e l by simp
  next
    case v: (Some x)
    have "filled K P s' ls" if "filled K P s ls"
      unfolding filled_def
    proof (intro ballI impI)
      fix q D
      assume q: "q \<in> P" "(\<exists>i. q = Level i) \<or> \<not> isStack K \<and> (\<exists>t. q = Nxt t)" "D \<in> set (ls q)"
      then have "q \<noteq> hand K t" by (auto simp: hand_def)
      then have "D \<noteq> C" using owned_disjoint [OF fin q(1) hP _ one] q(3) l by auto
      then show "ring_items (chunkSize K) (chunk s' D) \<noteq> []" using e v q that by (auto simp: filled_def)
    qed
    then show ?thesis using e v by simp
  qed
qed

text \<open>What \<open>pop\<close> and \<open>peek\<close> do when the chunk at hand has nothing.\<close>

definition refill :: "chunk_cfg \<Rightarrow> nat \<Rightarrow> 'a chunked \<Rightarrow> 'a chunked" where
  "refill K t s =
     (case popChunk K t (del_opt (get_hand K t s) s) of
        (C, local, s2) \<Rightarrow>
          let s3 = set_hand K t C s2
          in if \<not> isStack K \<and> C = None then set_nxt t None (set_hand K t (p_next s3 t) s3) else s3)"

lemma chunked_pop_eq:
  "chunked_pop K t s =
     (case extract_of K (get_hand K t s) s of
        (Some v, s1) \<Rightarrow> (Some v, s1)
      | (None, s1) \<Rightarrow> extract_of K (get_hand K t (refill K t s1)) (refill K t s1))"
  by (auto simp: chunked_pop_def refill_def get_hand_def set_hand_def Let_def split: prod.splits option.splits)

lemma chunked_peek_eq:
  "chunked_peek K t s =
     (case peek_of K (get_hand K t s) s of
        Some v \<Rightarrow> (Some v, s)
      | None \<Rightarrow> (peek_of K (get_hand K t (refill K t s)) (refill K t s), refill K t s))"
  by (auto simp: chunked_peek_def refill_def get_hand_def set_hand_def Let_def split: prod.splits option.splits)

text \<open>The chunk being filled becomes the one popped from.\<close>

lemma steal_own_ok:
  assumes ok: "chunk_ok K P {#} s ls" and t: "places K P t" and st: "\<not> isStack K" "get_hand K t s = None"
  defines "s' \<equiv> set_nxt t None (set_hand K t (p_next s t) s)"
  shows "\<exists>ls'. chunk_ok K P {#} s' ls' \<and> owned P ls' = owned P ls \<and> chunk s' = chunk s \<and>
    ls' (hand K t) = ls (Nxt t) \<and> (filled K P s ls \<longrightarrow> filled K P s' ls')"
proof -
  have pl: "Nxt t \<in> P" "Cur t \<in> P" and fin: "finite P" using t chunk_ok_total(1) [OF ok] by (simp_all add: places_def)
  have h: "hand K t = Cur t" "set_hand K t x s1 = set_cur t x s1" for x and s1 :: "'a chunked"
    using st(1) by (simp_all add: hand_def set_hand_def)
  have cur: "p_cur s t = None" using st by (simp add: get_hand_def)
  have lc: "ls (Cur t) = []" using chunk_ok_total(6) [OF ok pl(2)] cur by simp
  have ln: "ls (Nxt t) = opt_list (p_next s t)" using chunk_ok_total(6) [OF ok pl(1)] by simp
  show ?thesis
  proof (cases "p_next s t")
    case None
    then have "s' = s" using cur by (simp add: s'_def h set_nxt_def set_cur_def fun_upd_idem)
    then show ?thesis using ok lc ln None h(1) by (intro exI [of _ ls]) simp
  next
    case (Some D)
    let ?ls = "(ls(Nxt t := []))(Cur t := [D])"
    have c1: "p_cur (set_nxt t None s) t = None" using cur by simp
    have "set_cur t (Some D) (set_nxt t None s) = s'" using Some by (simp add: s'_def h set_nxt_def set_cur_def)
    with give_cur [OF take_nxt [OF ok pl(1) Some] pl(2) c1] have "chunk_ok K P {#} s' ?ls" by simp
    moreover have "owned P ?ls = owned P ls"
    proof -
      have "owned P ?ls = add_mset D (owned P (ls(Nxt t := [])))"
        by (rule owned_gain [OF fin pl(2)]) (simp add: lc)
      then show ?thesis using owned_upd [OF fin pl(1), of ls "[]"] ln Some by simp
    qed
    moreover have "filled K P s ls \<longrightarrow> filled K P s' ?ls"
    proof
      assume f: "filled K P s ls"
      then have "ring_items (chunkSize K) (chunk s D) \<noteq> []" using pl(1) st(1) ln Some unfolding filled_def by fastforce
      with f show "filled K P s' ?ls" by (elim filled_upd [where C = D]) (auto simp: s'_def)
    qed
    ultimately show ?thesis using h(1) ln Some by (intro exI [of _ ?ls]) (simp add: s'_def)
  qed
qed

lemma refill_all:
  assumes ok: "chunk_ok K P {#} s ls" and t: "places K P t"
    and empty: "\<forall>C \<in> set (ls (hand K t)). ring_items (chunkSize K) (chunk s C) = []"
  shows "\<exists>ls'. chunk_ok K P {#} (refill K t s) ls' \<and>
    tasks K (owned P ls') (refill K t s) = tasks K (owned P ls) s \<and>
    (filled K P s ls \<longrightarrow> filled K P (refill K t s) ls' \<and>
      (\<forall>C \<in> set (ls' (hand K t)). ring_items (chunkSize K) (chunk (refill K t s) C) \<noteq> []) \<and>
      (ls' (hand K t) = [] \<longrightarrow> (\<forall>i \<in> set (visited K t). ls (Level (sq_get K i)) = []) \<and> (isStack K \<or> ls (Nxt t) = [])))"
proof -
  obtain r l s2 where e: "popChunk K t (del_opt (get_hand K t s) s) = (r, l, s2)" by (metis prod.exhaust)
  obtain ls2 where ls2: "chunk_ok K P {#} (set_hand K t r s2) ls2"
    "tasks K (owned P ls2) s2 = tasks K (owned P ls) s" "chunk s2 = chunk s" "ls2 (hand K t) = opt_list r"
    "\<not> isStack K \<longrightarrow> p_next s2 = p_next s \<and> ls2 (Nxt t) = ls (Nxt t)"
    "filled K P s ls \<longrightarrow> filled K P s2 ls2 \<and> (\<forall>C. r = Some C \<longrightarrow> ring_items (chunkSize K) (chunk s C) \<noteq> [])"
    "r = None \<longrightarrow> (\<forall>i \<in> set (visited K t). ls (Level (sq_get K i)) = [])"
    using refill_ok [OF assms e] by blast
  define s3 where "s3 = set_hand K t r s2"
  have c3: "chunk s3 = chunk s" by (simp add: s3_def ls2(3))
  have f3: "filled K P s ls \<longrightarrow> filled K P s3 ls2" using ls2(6) by (simp add: s3_def filled_def)
  have T3: "tasks K (owned P ls2) s3 = tasks K (owned P ls) s"
    unfolding ls2(2) [symmetric] by (rule tasks_cong) (simp add: s3_def)
  show ?thesis
  proof (cases "\<not> isStack K \<and> r = None")
    case True
    have s4: "refill K t s = set_nxt t None (set_hand K t (p_next s3 t) s3)"
      using e True by (simp add: refill_def s3_def Let_def)
    from True have "get_hand K t s3 = None" by (simp add: s3_def)
    from steal_own_ok [OF ls2(1) [folded s3_def] t _ this] True obtain ls4 where
      ls4: "chunk_ok K P {#} (refill K t s) ls4" "owned P ls4 = owned P ls2" "chunk (refill K t s) = chunk s"
      "ls4 (hand K t) = ls (Nxt t)" "filled K P s ls \<longrightarrow> filled K P (refill K t s) ls4"
      using f3 ls2(5) c3 unfolding s4 by auto
    have "tasks K (owned P ls4) (refill K t s) = tasks K (owned P ls) s"
      unfolding ls4(2) T3 [symmetric] by (rule tasks_cong) (simp add: ls4(3) c3)
    moreover have "filled K P s ls \<longrightarrow> (\<forall>C \<in> set (ls (Nxt t)). ring_items (chunkSize K) (chunk s C) \<noteq> [])"
      using t True unfolding filled_def places_def by blast
    ultimately show ?thesis using ls4 ls2(7) True by (intro exI [of _ ls4]) simp
  next
    case False
    then have s4: "refill K t s = s3" using e by (auto simp: refill_def s3_def Let_def)
    show ?thesis
      using ls2 f3 T3 c3 False unfolding s4 by (intro exI [of _ ls2]) (cases r; auto simp: s3_def)
  qed
qed

lemma peek_extract:
  assumes ok: "chunk_ok K P {#} s ls" and t: "places K P t"
  shows "peek_of K (get_hand K t s) s = fst (extract_of K (get_hand K t s) s) \<and>
    (case fst (extract_of K (get_hand K t s) s) of
       None \<Rightarrow> snd (extract_of K (get_hand K t s) s) = s
     | Some v \<Rightarrow> chunked_pop_peeked K t s = Some (snd (extract_of K (get_hand K t s) s)))"
proof (cases "get_hand K t s")
  case (Some C)
  have "ls (hand K t) = [C]" using hand_list [OF ok t] Some by simp
  then have "C \<in># owned P ls"
    using owned_member [OF chunk_ok_total(1) [OF ok] hand_place [OF t], of C ls] by simp
  then have rep: "ring_rep (chunkSize K) (chunk s C) (ring_items (chunkSize K) (chunk s C))"
    using chunk_ok_total(5) [OF ok, of C] by simp
  show ?thesis
    using Some ring_back_rep [OF rep] ring_front_rep [OF rep] ring_empty_rep [OF rep]
    by (auto simp: peek_of_def extract_of_def chunked_pop_peeked_def get_hand_def ring_extract_back_def
        ring_extract_front_def ring_pop_back_def ring_pop_front_def Let_def)
qed (simp add: peek_of_def extract_of_def)

lemma chunked_init_ok:
  assumes "finite P"
  shows "chunk_ok K P {#} (chunked_init c :: 'a chunked) (\<lambda>_. []) \<and> filled K P (chunked_init c :: 'a chunked) (\<lambda>_. []) \<and>
    tasks K (owned P (\<lambda>_. [])) (chunked_init c :: 'a chunked) = {#}"
proof -
  have "located K (chunked_init c :: 'a chunked) pl []" for pl
    using qtl.start [of "qt K" "\<lambda>_. None"] by (cases pl) (simp_all add: chunked_init_def level_def)
  then show ?thesis using assms by (simp add: chunk_ok_def owned_def filled_def tasks_def chunked_init_def)
qed

lemma chunked_flush_ok:
  assumes ok: "chunk_ok K P {#} s ls" and t: "places K P t"
  shows "\<exists>ls'. chunk_ok K P {#} (chunked_flush K t s) ls' \<and>
    tasks K (owned P ls') (chunked_flush K t s) = tasks K (owned P ls) s \<and> ls' (Nxt t) = [] \<and>
    (filled K P s ls \<and> tasks K (mset (ls (Nxt t))) s \<noteq> {#} \<longrightarrow> filled K P (chunked_flush K t s) ls')"
proof (cases "p_next s t")
  case None
  have "ls (Nxt t) = []" using chunk_ok_total(6) [OF ok, of "Nxt t"] t None by (simp add: places_def)
  moreover have "chunked_flush K t s = s" using None by (simp add: chunked_flush_def set_nxt_def fun_upd_idem)
  ultimately show ?thesis using ok by (intro exI [of _ ls]) simp
next
  case (Some C)
  let ?j = "sq_local K t"
  have pl: "Nxt t \<in> P" "Level ?j \<in> P" and fin: "finite P" using t chunk_ok_total(1) [OF ok] by (simp_all add: places_def)
  have ln: "ls (Nxt t) = [C]" using chunk_ok_total(6) [OF ok pl(1)] Some by simp
  let ?ls = "(ls(Nxt t := []))(Level ?j := qt_ins (qt K) C ((ls(Nxt t := [])) (Level ?j)))"
  have s': "chunked_flush K t s = pushChunk K t C (set_nxt t None s)"
    using Some by (simp add: chunked_flush_def Let_def)
  have "chunk_ok K P {#} (chunked_flush K t s) ?ls"
    unfolding s' by (rule pushChunk_ok [OF take_nxt [OF ok pl(1) Some] pl(2)])
  moreover have "owned P ?ls = owned P ls"
  proof -
    have "owned P ?ls = add_mset C (owned P (ls(Nxt t := [])))"
      by (rule owned_gain [OF fin pl(2)]) (rule qtl.ins)
    then show ?thesis using owned_upd [OF fin pl(1), of ls "[]"] ln by simp
  qed
  moreover have "tasks K (owned P ls) (chunked_flush K t s) = tasks K (owned P ls) s"
    by (rule tasks_cong) (simp add: s')
  moreover have "filled K P s ls \<and> tasks K (mset (ls (Nxt t))) s \<noteq> {#} \<longrightarrow> filled K P (chunked_flush K t s) ?ls"
  proof
    assume f: "filled K P s ls \<and> tasks K (mset (ls (Nxt t))) s \<noteq> {#}"
    then have "ring_items (chunkSize K) (chunk s C) \<noteq> []" by (simp add: ln)
    with f show "filled K P (chunked_flush K t s) ?ls" unfolding s' by (elim conjE filled_upd [where C = C]) auto
  qed
  ultimately show ?thesis by (intro exI [of _ ?ls]) simp
qed

section \<open>Properties\<close>

text \<open>
  C34: \<open>push\<close> of a chunked worklist adds exactly the task it is given, whichever lists it is built on: a full
  chunk goes to the thread's list, a new one is taken, and no chunk is lost, shared or freed while in use.
\<close>

theorem chunked_push_correct:
  assumes "chunk_ok K P {#} s ls" "places K P t" "fresh_chunks K"
  shows "\<exists>ls'. chunk_ok K P {#} (chunked_push K t v s) ls' \<and> (filled K P s ls \<longrightarrow> filled K P (chunked_push K t v s) ls') \<and>
    tasks K (owned P ls') (chunked_push K t v s) = add_mset v (tasks K (owned P ls) s)"
  using emplacei_ok [OF assms, of v "fst (emplacei K t v s)" "chunked_push K t v s"]
  by (auto simp: chunked_push_def)

text \<open>
  C35: \<open>pop\<close> removes exactly the task it returns. When all chunks in the lists hold a task, as they do after any
  \<open>push\<close> and \<open>pop\<close>, it returns nothing only when all the lists it may take from and its own chunks are empty.
\<close>

theorem chunked_pop_correct:
  assumes "chunk_ok K P {#} s ls" "places K P t"
  shows "\<exists>ls'. chunk_ok K P {#} (snd (chunked_pop K t s)) ls' \<and>
    (filled K P s ls \<longrightarrow> filled K P (snd (chunked_pop K t s)) ls') \<and>
    (case fst (chunked_pop K t s) of
       Some v \<Rightarrow> tasks K (owned P ls) s = add_mset v (tasks K (owned P ls') (snd (chunked_pop K t s)))
     | None \<Rightarrow> tasks K (owned P ls') (snd (chunked_pop K t s)) = tasks K (owned P ls) s \<and>
         (filled K P s ls \<longrightarrow> (\<forall>i \<in> set (visited K t). ls (Level (sq_get K i)) = []) \<and>
            tasks K (mset (ls (hand K t))) s = {#} \<and> (isStack K \<or> ls (Nxt t) = [])))"
proof -
  obtain v s1 where e1: "extract_of K (get_hand K t s) s = (v, s1)" by fastforce
  note x1 = extract_hand [OF assms e1]
  show ?thesis
  proof (cases v)
    case (Some x)
    then have "chunked_pop K t s = (Some x, s1)" using e1 by (simp add: chunked_pop_eq)
    then show ?thesis using x1 Some by (intro exI [of _ ls]) simp
  next
    case None
    then have s1: "s1 = s" and empty: "\<forall>C \<in> set (ls (hand K t)). ring_items (chunkSize K) (chunk s C) = []"
      using x1 by simp_all
    have no: "tasks K (mset (ls (hand K t))) s = {#}"
      using empty by (simp add: tasks_def)
    obtain ls4 where ls4: "chunk_ok K P {#} (refill K t s) ls4"
      "tasks K (owned P ls4) (refill K t s) = tasks K (owned P ls) s"
      "filled K P s ls \<longrightarrow> filled K P (refill K t s) ls4 \<and>
        (\<forall>C \<in> set (ls4 (hand K t)). ring_items (chunkSize K) (chunk (refill K t s) C) \<noteq> []) \<and>
        (ls4 (hand K t) = [] \<longrightarrow> (\<forall>i \<in> set (visited K t). ls (Level (sq_get K i)) = []) \<and> (isStack K \<or> ls (Nxt t) = []))"
      using refill_all [OF assms empty] by blast
    obtain w s5 where e3: "extract_of K (get_hand K t (refill K t s)) (refill K t s) = (w, s5)" by fastforce
    note x3 = extract_hand [OF ls4(1) assms(2) e3]
    have pop: "chunked_pop K t s = (w, s5)" using e1 None s1 e3 by (simp add: chunked_pop_eq)
    show ?thesis
    proof (cases w)
      case (Some x)
      then show ?thesis using x3 pop ls4 by (intro exI [of _ ls4]) simp
    next
      case None
      then have "filled K P s ls \<longrightarrow> ls4 (hand K t) = []" using x3 ls4(3) by (cases "ls4 (hand K t)") auto
      then show ?thesis using x3 None pop ls4 no by (intro exI [of _ ls4]) auto
    qed
  qed
qed

text \<open>\<open>peek\<close> shows the task the next \<open>pop\<close> returns, and \<open>pop_peeked\<close> after it is that \<open>pop\<close>.\<close>

theorem chunked_peek_pop:
  assumes "chunk_ok K P {#} s ls" "places K P t" "chunked_peek K t s = (v, s')"
  shows "case v of
      None \<Rightarrow> chunked_pop K t s = (None, s')
    | Some x \<Rightarrow> \<exists>s2. chunked_pop_peeked K t s' = Some s2 \<and> chunked_pop K t s = (Some x, s2)"
proof -
  obtain w s1 where e: "extract_of K (get_hand K t s) s = (w, s1)" by fastforce
  note p = peek_extract [OF assms(1,2)] and x = extract_hand [OF assms(1,2) e]
  show ?thesis
  proof (cases w)
    case (Some y)
    then have "v = Some y" "s' = s" "chunked_pop_peeked K t s = Some s1" using p e assms(3) by (simp_all add: chunked_peek_eq)
    then show ?thesis using e Some by (simp add: chunked_pop_eq)
  next
    case None
    then have s1: "s1 = s" "\<forall>C \<in> set (ls (hand K t)). ring_items (chunkSize K) (chunk s C) = []" using x by simp_all
    obtain ls2 where ok2: "chunk_ok K P {#} (refill K t s) ls2" using refill_all [OF assms(1,2) s1(2)] by blast
    have v: "v = peek_of K (get_hand K t (refill K t s)) (refill K t s)" "s' = refill K t s"
      using None p e assms(3) unfolding chunked_peek_eq by auto
    have pop: "chunked_pop K t s = extract_of K (get_hand K t s') s'" using e None s1(1) v(2) by (simp add: chunked_pop_eq)
    obtain x s2 where e2: "extract_of K (get_hand K t s') s' = (x, s2)" by fastforce
    from peek_extract [OF ok2 assms(2)] e2 v pop show ?thesis by (cases x) auto
  qed
qed

section \<open>Examples\<close>

text \<open>Two threads with two lists, chunks of two tasks; addresses are handed out in order.\<close>

definition lifo2 :: chunk_cfg where
  "lifo2 = \<lparr>qt = LinkedStack, distrib = PerThread, isStack = True, chunkSize = 2, activeThreads = 2,
     packageOf = (\<lambda>_. 0), leaderOf = (\<lambda>_. 0), maxPackage = (\<lambda>_. 0), allocate = (\<lambda>S. if S = {} then 0 else Max S + 1)\<rparr>"

definition fifo2 :: chunk_cfg where
  "fifo2 = lifo2\<lparr>qt := LinkedQueue, isStack := False\<rparr>"

definition places2 :: "place set" where
  "places2 = {Level 0, Level 1, Cur 0, Cur 1, Nxt 0, Nxt 1}"

lemma lifo2_fresh: "fresh_chunks lifo2" "fresh_chunks fifo2"
proof -
  have "Max S + 1 \<notin> S" if "finite S" for S :: "nat set" using Max_ge [OF that, of "Max S + 1"] by auto
  then show "fresh_chunks lifo2" "fresh_chunks fifo2" by (auto simp: fresh_chunks_def lifo2_def fifo2_def)
qed

lemma lifo2_places: "t < 2 \<Longrightarrow> places lifo2 places2 t" "t < 2 \<Longrightarrow> places fifo2 places2 t"
  by (auto simp: places_def places2_def lifo2_def fifo2_def sq_local_def sq_get_def sq_size_def myEffectiveID_def
      less_Suc_eq_le numeral_2_eq_2 le_Suc_eq)

lemma init2:
  "chunk_ok K places2 {#} (chunked_init c :: nat chunked) (\<lambda>_. [])" "filled K places2 (chunked_init c :: nat chunked) (\<lambda>_. [])"
  "tasks K (owned places2 (\<lambda>_. [])) (chunked_init c :: nat chunked) = {#}"
proof -
  have "finite places2" by (simp add: places2_def)
  from chunked_init_ok [OF this, of K c, where ?'a = nat] show
    "chunk_ok K places2 {#} (chunked_init c :: nat chunked) (\<lambda>_. [])" "filled K places2 (chunked_init c :: nat chunked) (\<lambda>_. [])"
    "tasks K (owned places2 (\<lambda>_. [])) (chunked_init c :: nat chunked) = {#}" by simp_all
qed

theorem chunked_push_correct_witness:
  "\<exists>ls. chunk_ok lifo2 places2 {#} (chunked_push lifo2 1 (7 :: nat) (chunked_init 2)) ls \<and>
     tasks lifo2 (owned places2 ls) (chunked_push lifo2 1 (7 :: nat) (chunked_init 2)) = {#7#}"
  using chunked_push_correct [OF init2(1) [of lifo2 2] lifo2_places(1) [of 1] lifo2_fresh(1), of 7] init2(3) by auto

text \<open>Thread 0 pushes three tasks, which fills one chunk; thread 1 finds the full chunk.\<close>

definition push3 :: "chunk_cfg \<Rightarrow> nat chunked" where
  "push3 K = snd (chunked_push_range K 0 [4, 5, 6] 0 (chunked_init 2))"

lemma push3_ok:
  assumes "K = lifo2 \<or> K = fifo2"
  shows "\<exists>ls. chunk_ok K places2 {#} (push3 K) ls \<and> filled K places2 (push3 K) ls \<and>
    tasks K (owned places2 ls) (push3 K) = {#4, 5, 6#}"
  using chunked_push_range_ok [OF init2(1) [of K 2], of 0 "[4, 5, 6 :: nat]" 0] assms lifo2_places lifo2_fresh init2(2,3)
  by (auto simp: push3_def)

theorem chunked_pop_correct_witness:
  "fst (chunked_pop fifo2 1 (push3 fifo2)) = Some 4 \<and> fst (chunked_pop lifo2 1 (push3 lifo2)) = Some 5 \<and>
   (\<exists>ls'. tasks fifo2 (owned places2 ls') (snd (chunked_pop fifo2 1 (push3 fifo2))) = {#5, 6#})"
proof -
  have v: "fst (chunked_pop fifo2 1 (push3 fifo2)) = Some 4" "fst (chunked_pop lifo2 1 (push3 lifo2)) = Some 5"
    by code_simp+
  obtain ls where ls: "chunk_ok fifo2 places2 {#} (push3 fifo2) ls" "tasks fifo2 (owned places2 ls) (push3 fifo2) = {#4, 5, 6#}"
    using push3_ok by blast
  from chunked_pop_correct [OF ls(1) lifo2_places(2), of 1] v(1) ls(2) show ?thesis using v by fastforce
qed

text \<open>
  \<open>flush\<close> passes on a chunk the thread has emptied: a \<open>pop\<close> of another thread that gets it returns nothing, although
  there is a task in the list below it.
\<close>

theorem chunked_flush_hides_task:
  "let s1 = chunked_push lifo2 1 (9 :: nat) (chunked_init 2);
       s2 = chunked_flush lifo2 1 s1;
       s3 = snd (chunked_pop lifo2 1 (chunked_push lifo2 1 8 s2));
       s4 = chunked_flush lifo2 1 s3
   in fst (chunked_pop lifo2 0 s4) = None \<and> fst (chunked_pop lifo2 0 (snd (chunked_pop lifo2 0 s4))) = Some 9"
  by code_simp

end
