(* ===== verification/ShortestPaths.thy ===== *)
theory ShortestPaths
  imports UpdateRequest "HOL-Library.Multiset"
begin

text \<open>
  The shortest-path application on any scheduler: \<open>AsyncAlgo<true>\<close> of \<open>apps/sssp/SSSP.cpp\<close>. Threads take requests in
  any order, relax edges with compare-and-swap and push new requests; every access to a node is a step. The
  scheduler is the multiset of the requests in it: a push adds one, a pop takes any.
  The initial phase and the loop over the work list, which the code runs one after the other, may overlap here, so
  the theorems hold of more runs than the code has. The counters that are only reported are left out, except
  the one that is written into \<open>dist\<close>, whose value is arbitrary.
\<close>

unbundle bit_operations_syntax

section \<open>Distances\<close>

text \<open>
  \<open>dist\<close> of a node has 64 bits: the lower half is the distance, the upper half counts the time spent on it.
  \<open>(unsigned int)\<close> keeps the lower half; the weight of an edge has 32 bits.
\<close>

definition lo :: "u64 \<Rightarrow> u64" where "lo d = d AND 0xffffffff"

definition DIST_INF32 :: u64 where "DIST_INF32 = lo DIST_INFINITY"

definition replace_lo :: "u64 \<Rightarrow> u64 \<Rightarrow> u64" where
  "replace_lo newDist oldDist = newDist OR (oldDist AND 0xffffffff00000000)"

definition with_work :: "u64 \<Rightarrow> u64 \<Rightarrow> u64" where "with_work w work = w OR push_bit 32 work"

definition edge_dist :: "u64 \<Rightarrow> u32 \<Rightarrow> u64" where "edge_dist sdist d = lo sdist + ucast d"

lemma lo_mask: "lo d = take_bit 32 d"
proof -
  have "(0xffffffff :: u64) = mask 32" by (simp add: mask_eq_exp_minus_1)
  then show ?thesis by (simp add: lo_def take_bit_eq_mask)
qed

lemma unat_lo: "unat (lo d) = unat d mod 2 ^ 32"
  unfolding lo_mask unsigned_take_bit_eq by (rule take_bit_eq_mod)

lemma unat_lo_less: "unat (lo d) < 2 ^ 32"
  by (simp add: unat_lo)

lemma lo_idem: "unat w < 2 ^ 32 \<Longrightarrow> lo w = w"
  by (rule word_unat_eq_iff [THEN iffD2]) (simp add: unat_lo)

lemma lo_lo [simp]: "lo (lo d) = lo d"
  by (simp add: lo_mask)

lemma unat_edge_dist: "unat (edge_dist s d) = unat (lo s) + unat d"
proof -
  have d: "unat d < 2 ^ 32" using unsigned_less [of d] by simp
  moreover from d have "unat (ucast d :: u64) = unat d" by (simp add: unsigned_ucast_eq take_bit_nat_eq_self)
  ultimately show ?thesis using unat_lo_less [of s] by (simp add: edge_dist_def unat_word_ariths)
qed

lemma lo_replace: "unat w < 2 ^ 32 \<Longrightarrow> lo (replace_lo w old) = w"
proof -
  assume w: "unat w < 2 ^ 32"
  have "(0xffffffff00000000 :: u64) AND 0xffffffff = 0" by simp
  then have "lo (replace_lo w old) = lo w" by (simp add: lo_def replace_lo_def bit.conj_disj_distrib2 and.assoc)
  then show ?thesis using lo_idem [OF w] by simp
qed

lemma lo_with_work: "unat w < 2 ^ 32 \<Longrightarrow> lo (with_work w work) = w"
proof -
  assume w: "unat w < 2 ^ 32"
  have "take_bit 32 (push_bit 32 work) = 0" by (rule bit_eqI) (auto simp: bit_simps)
  then have "lo (with_work w work) = lo w" by (simp add: lo_mask with_work_def take_bit_or)
  then show ?thesis using lo_idem [OF w] by simp
qed

lemma DIST_INF32: "unat DIST_INF32 = 4294967294"
  by (simp add: DIST_INF32_def DIST_INFINITY_def lo_def)

section \<open>State and steps\<close>

text \<open>
  The points of \<open>relaxNode\<close> and \<open>relaxEdge\<close> before each access to a node. A loop point carries the
  request and the edges left, a relaxation the node it starts from and what follows it: the rest of
  the loop, or nothing in \<open>InitialProcess\<close>. At \<open>Flush\<close> the iteration is over and commits.
\<close>

type_synonym 'n edge = "'n \<times> u32"
type_synonym 'n rest = "('n update_request \<times> 'n edge list) option"

datatype 'n rpc =
    Idle
  | Check "'n update_request"
  | Loop "'n update_request" "'n edge list"
  | Relax 'n "'n edge" "'n rest"
  | Compare 'n "'n edge" u64 "'n rest"
  | Cas 'n "'n edge" u64 u64 "'n rest"
  | Push 'n u64 "'n rest"
  | Final "'n update_request"
  | FinalCas "'n update_request" u64
  | Flush

text \<open>The requests in the scheduler, the edges of the source not relaxed yet, and the push buffers.\<close>

record 'n sssp =
  dist :: "'n \<Rightarrow> u64"
  wlist :: "'n update_request multiset"
  initial :: "'n edge multiset"
  pushBuffer :: "nat \<Rightarrow> 'n update_request multiset"
  rpcs :: "nat \<Rightarrow> 'n rpc"

definition rgoto :: "nat \<Rightarrow> 'n rpc \<Rightarrow> 'n sssp \<Rightarrow> 'n sssp" where
  "rgoto t p s = s\<lparr>rpcs := (rpcs s)(t := p)\<rparr>"

definition set_dist :: "'n \<Rightarrow> u64 \<Rightarrow> 'n sssp \<Rightarrow> 'n sssp" where
  "set_dist n d s = s\<lparr>dist := (dist s)(n := d)\<rparr>"

definition wl_push :: "'n update_request \<Rightarrow> 'n sssp \<Rightarrow> 'n sssp" where
  "wl_push r s = s\<lparr>wlist := add_mset r (wlist s)\<rparr>"

definition set_buffer :: "nat \<Rightarrow> 'n update_request multiset \<Rightarrow> 'n sssp \<Rightarrow> 'n sssp" where
  "set_buffer t b s = s\<lparr>pushBuffer := (pushBuffer s)(t := b)\<rparr>"

fun after :: "'n rest \<Rightarrow> 'n rpc" where
  "after None = Idle"
| "after (Some (req, es)) = Loop req es"

text \<open>All nodes start at infinity and the source at 0; its edges are relaxed first, in parallel.\<close>

definition sssp_init :: "('n \<Rightarrow> 'n edge list) \<Rightarrow> 'n \<Rightarrow> 'n sssp" where
  "sssp_init out source =
     \<lparr>dist = (\<lambda>n. DIST_INF32)(source := 0), wlist = {#}, initial = mset (out source), pushBuffer = \<lambda>_. {#},
      rpcs = \<lambda>_. Idle\<rparr>"

text \<open>
  A push of the initial phase goes to the bag the scheduler starts from, one of an iteration to the thread's
  buffer, from where it moves to the scheduler at the latest when the iteration commits.
\<close>

inductive sssp_step :: "('n \<Rightarrow> 'n edge list) \<Rightarrow> 'n \<Rightarrow> nat \<Rightarrow> 'n sssp \<Rightarrow> 'n sssp \<Rightarrow> bool" for out source where
  initial: "rpcs s t = Idle \<Longrightarrow> e \<in># initial s \<Longrightarrow>
    sssp_step out source t s (rgoto t (Relax source e None) (s\<lparr>initial := initial s - {#e#}\<rparr>))"
| pop: "rpcs s t = Idle \<Longrightarrow> req \<in># wlist s \<Longrightarrow>
    sssp_step out source t s (rgoto t (Check req) (s\<lparr>wlist := wlist s - {#req#}\<rparr>))"
| stale: "rpcs s t = Check req \<Longrightarrow> req_w req \<noteq> lo (dist s (req_n req)) \<Longrightarrow>
    sssp_step out source t s (rgoto t Flush s)"
| fresh: "rpcs s t = Check req \<Longrightarrow> req_w req = lo (dist s (req_n req)) \<Longrightarrow>
    sssp_step out source t s (rgoto t (Loop req (out (req_n req))) s)"
| loop_stale: "rpcs s t = Loop req (e # es) \<Longrightarrow> req_w req \<noteq> lo (dist s (req_n req)) \<Longrightarrow>
    sssp_step out source t s (rgoto t Flush s)"
| loop: "rpcs s t = Loop req (e # es) \<Longrightarrow> req_w req = lo (dist s (req_n req)) \<Longrightarrow>
    sssp_step out source t s (rgoto t (Relax (req_n req) e (Some (req, es))) s)"
| loop_end: "rpcs s t = Loop req [] \<Longrightarrow> sssp_step out source t s (rgoto t (Final req) s)"
| relax: "rpcs s t = Relax n (m, d) k \<Longrightarrow>
    sssp_step out source t s (rgoto t (Compare n (m, d) (edge_dist (dist s n) d) k) s)"
| compare_less: "rpcs s t = Compare n (m, d) newDist k \<Longrightarrow> newDist < lo (dist s m) \<Longrightarrow>
    sssp_step out source t s (rgoto t (Cas n (m, d) newDist (dist s m) k) s)"
| compare_not: "rpcs s t = Compare n (m, d) newDist k \<Longrightarrow> \<not> newDist < lo (dist s m) \<Longrightarrow>
    sssp_step out source t s (rgoto t (after k) s)"
| cas: "rpcs s t = Cas n (m, d) newDist oldDist k \<Longrightarrow> dist s m = oldDist \<Longrightarrow>
    sssp_step out source t s (rgoto t (Push m newDist k) (set_dist m (replace_lo newDist oldDist) s))"
| cas_fail: "rpcs s t = Cas n (m, d) newDist oldDist k \<Longrightarrow> dist s m \<noteq> oldDist \<Longrightarrow>
    sssp_step out source t s (rgoto t (Compare n (m, d) newDist k) s)"
| push_bag: "rpcs s t = Push m newDist None \<Longrightarrow>
    sssp_step out source t s (rgoto t Idle (wl_push (UpdateRequest m newDist) s))"
| push: "rpcs s t = Push m newDist (Some k) \<Longrightarrow>
    sssp_step out source t s (rgoto t (after (Some k))
      (set_buffer t (add_mset (UpdateRequest m newDist) (pushBuffer s t)) s))"
| final_skip: "rpcs s t = Final req \<Longrightarrow> lo (dist s (req_n req)) < req_w req \<Longrightarrow>
    sssp_step out source t s (rgoto t Flush s)"
| final: "rpcs s t = Final req \<Longrightarrow> \<not> lo (dist s (req_n req)) < req_w req \<Longrightarrow>
    sssp_step out source t s (rgoto t (FinalCas req (dist s (req_n req))) s)"
| final_cas: "rpcs s t = FinalCas req oldDist \<Longrightarrow> dist s (req_n req) = oldDist \<Longrightarrow>
    sssp_step out source t s (rgoto t Flush (set_dist (req_n req) (with_work (req_w req) work) s))"
| final_fail: "rpcs s t = FinalCas req oldDist \<Longrightarrow> dist s (req_n req) \<noteq> oldDist \<Longrightarrow>
    sssp_step out source t s (rgoto t Flush s)"
| flush: "r \<in># pushBuffer s t \<Longrightarrow>
    sssp_step out source t s (wl_push r (set_buffer t (pushBuffer s t - {#r#}) s))"
| committed: "rpcs s t = Flush \<Longrightarrow> pushBuffer s t = {#} \<Longrightarrow> sssp_step out source t s (rgoto t Idle s)"

inductive sssp_reach :: "nat \<Rightarrow> ('n \<Rightarrow> 'n edge list) \<Rightarrow> 'n \<Rightarrow> 'n sssp \<Rightarrow> bool" for threads out source where
  start: "sssp_reach threads out source (sssp_init out source)"
| step: "sssp_reach threads out source s \<Longrightarrow> t < threads \<Longrightarrow> sssp_step out source t s s' \<Longrightarrow>
    sssp_reach threads out source s'"

text \<open>The parallel loop ends when no request is left and no thread works on one.\<close>

definition sssp_done :: "'n sssp \<Rightarrow> bool" where
  "sssp_done s \<longleftrightarrow> wlist s = {#} \<and> initial s = {#} \<and> (\<forall>t. rpcs s t = Idle)"

section \<open>Walks\<close>

inductive walk :: "('n \<Rightarrow> 'n edge list) \<Rightarrow> 'n \<Rightarrow> 'n \<Rightarrow> nat \<Rightarrow> bool" for out source where
  here: "walk out source source 0"
| along: "walk out source n c \<Longrightarrow> (m, d) \<in> set (out n) \<Longrightarrow> walk out source m (c + unat d)"

section \<open>Distances are walks\<close>

definition NOT_REACHED :: nat where "NOT_REACHED = 4294967294"

definition reached :: "'n sssp \<Rightarrow> 'n \<Rightarrow> bool" where "reached s n \<longleftrightarrow> unat (lo (dist s n)) \<noteq> NOT_REACHED"

text \<open>A request is a walk, smaller than infinity and not below the distance of its node.\<close>

definition req_ok :: "('n \<Rightarrow> 'n edge list) \<Rightarrow> 'n \<Rightarrow> 'n sssp \<Rightarrow> 'n update_request \<Rightarrow> bool" where
  "req_ok out source s req \<longleftrightarrow> walk out source (req_n req) (unat (req_w req)) \<and> unat (req_w req) < NOT_REACHED \<and>
     lo (dist s (req_n req)) \<le> req_w req"

fun rest_ok :: "('n \<Rightarrow> 'n edge list) \<Rightarrow> 'n \<Rightarrow> 'n sssp \<Rightarrow> 'n rest \<Rightarrow> bool" where
  "rest_ok out source s None \<longleftrightarrow> True"
| "rest_ok out source s (Some (req, es)) \<longleftrightarrow> req_ok out source s req"

fun rpc_ok :: "('n \<Rightarrow> 'n edge list) \<Rightarrow> 'n \<Rightarrow> 'n sssp \<Rightarrow> 'n rpc \<Rightarrow> bool" where
  "rpc_ok out source s (Check req) \<longleftrightarrow> req_ok out source s req"
| "rpc_ok out source s (Loop req es) \<longleftrightarrow> req_ok out source s req \<and> set es \<subseteq> set (out (req_n req))"
| "rpc_ok out source s (Relax n e k) \<longleftrightarrow> reached s n \<and> e \<in> set (out n) \<and> rest_ok out source s k \<and>
     (\<forall>req es. k = Some (req, es) \<longrightarrow> set es \<subseteq> set (out (req_n req)))"
| "rpc_ok out source s (Compare n e nd k) \<longleftrightarrow> walk out source (fst e) (unat nd) \<and> rest_ok out source s k \<and>
     (\<forall>req es. k = Some (req, es) \<longrightarrow> set es \<subseteq> set (out (req_n req)))"
| "rpc_ok out source s (Cas n e nd od k) \<longleftrightarrow> walk out source (fst e) (unat nd) \<and> nd < lo od \<and> rest_ok out source s k \<and>
     (\<forall>req es. k = Some (req, es) \<longrightarrow> set es \<subseteq> set (out (req_n req)))"
| "rpc_ok out source s (Push m nd k) \<longleftrightarrow> req_ok out source s (UpdateRequest m nd) \<and> rest_ok out source s k \<and>
     (\<forall>req es. k = Some (req, es) \<longrightarrow> set es \<subseteq> set (out (req_n req)))"
| "rpc_ok out source s (Final req) \<longleftrightarrow> req_ok out source s req"
| "rpc_ok out source s (FinalCas req od) \<longleftrightarrow> req_ok out source s req \<and> \<not> lo od < req_w req"
| "rpc_ok out source s _ \<longleftrightarrow> True"

definition walks_ok :: "('n \<Rightarrow> 'n edge list) \<Rightarrow> 'n \<Rightarrow> 'n sssp \<Rightarrow> bool" where
  "walks_ok out source s \<longleftrightarrow>
     (\<forall>n. unat (lo (dist s n)) \<le> NOT_REACHED \<and> (reached s n \<longrightarrow> walk out source n (unat (lo (dist s n))))) \<and>
     lo (dist s source) = 0 \<and> set_mset (initial s) \<subseteq> set (out source) \<and>
     (\<forall>req \<in># wlist s. req_ok out source s req) \<and> (\<forall>t. \<forall>req \<in># pushBuffer s t. req_ok out source s req) \<and>
     (\<forall>t. rpc_ok out source s (rpcs s t))"

text \<open>Distances only fall; what was right stays right.\<close>

definition falls :: "'n sssp \<Rightarrow> 'n sssp \<Rightarrow> bool" where
  "falls s s' \<longleftrightarrow> (\<forall>n. lo (dist s' n) \<le> lo (dist s n))"

lemma req_ok_falls: "falls s s' \<Longrightarrow> req_ok out source s req \<Longrightarrow> req_ok out source s' req"
  by (auto simp: req_ok_def falls_def intro: order_trans)

lemma rest_ok_falls: "falls s s' \<Longrightarrow> rest_ok out source s k \<Longrightarrow> rest_ok out source s' k"
  by (cases k) (auto intro: req_ok_falls)

lemma reached_falls:
  assumes "falls s s'" "unat (lo (dist s n)) \<le> NOT_REACHED" "reached s n"
  shows "reached s' n"
proof -
  have "unat (lo (dist s' n)) \<le> unat (lo (dist s n))" using assms(1) by (simp add: falls_def word_le_nat_alt)
  then show ?thesis using assms(2,3) by (simp add: reached_def)
qed

lemma rpc_ok_falls:
  assumes "falls s s'" "\<forall>n. unat (lo (dist s n)) \<le> NOT_REACHED" "rpc_ok out source s p"
  shows "rpc_ok out source s' p"
  using assms(3) req_ok_falls [OF assms(1)] rest_ok_falls [OF assms(1)] reached_falls [OF assms(1)] assms(2)
  by (cases p) auto

lemma req_ok_reached: "req_ok out source s req \<Longrightarrow> reached s (req_n req)"
  by (auto simp: req_ok_def reached_def word_le_nat_alt)

text \<open>A step of thread \<open>t\<close> keeps it when it is right about its own point, its requests and the distance it writes.\<close>

lemma walks_ok_change:
  assumes ok: "walks_ok out source s"
    and same: "\<And>u. u \<noteq> t \<Longrightarrow> rpcs s' u = rpcs s u"
    and fall: "falls s s'"
    and new: "\<And>n. dist s' n \<noteq> dist s n \<Longrightarrow> lo (dist s' n) \<noteq> lo (dist s n) \<Longrightarrow>
      walk out source n (unat (lo (dist s' n)))"
    and data: "set_mset (initial s') \<subseteq> set_mset (initial s)"
      "\<And>req. req \<in># wlist s' \<Longrightarrow> req_ok out source s' req"
      "\<And>u req. req \<in># pushBuffer s' u \<Longrightarrow> req_ok out source s' req"
    and point: "rpc_ok out source s' (rpcs s' t)"
  shows "walks_ok out source s'"
proof -
  have bound: "\<forall>n. unat (lo (dist s n)) \<le> NOT_REACHED" using ok by (simp add: walks_ok_def)
  have le: "unat (lo (dist s' n)) \<le> unat (lo (dist s n))" for n using fall by (simp add: falls_def word_le_nat_alt)
  have "unat (lo (dist s' n)) \<le> NOT_REACHED" for n using le [of n] bound by (meson order_trans)
  moreover have "walk out source n (unat (lo (dist s' n)))" if "reached s' n" for n
  proof (cases "lo (dist s' n) = lo (dist s n)")
    case True
    then show ?thesis using ok that by (simp add: walks_ok_def reached_def)
  qed (use new in metis)
  moreover have "lo (dist s' source) = 0"
  proof -
    have "lo (dist s source) = 0" using ok by (simp add: walks_ok_def)
    then show ?thesis using le [of source] by (simp add: unat_eq_zero)
  qed
  moreover have "rpc_ok out source s' (rpcs s' u)" for u
  proof (cases "u = t")
    case False
    have "rpc_ok out source s (rpcs s u)" using ok by (simp add: walks_ok_def)
    then show ?thesis using rpc_ok_falls [OF fall bound] same [OF False] by simp
  qed (use point in simp)
  ultimately show ?thesis using ok data unfolding walks_ok_def by auto
qed

lemmas sssp_state = rgoto_def set_dist_def wl_push_def set_buffer_def

lemma walks_ok_point: "walks_ok out source s \<Longrightarrow> rpcs s t = p \<Longrightarrow> rpc_ok out source s p"
  unfolding walks_ok_def by metis

lemma falls_refl: "dist s' = dist s \<Longrightarrow> falls s s'"
  by (simp add: falls_def)

text \<open>A step that writes no distance and invents no request: only its point is to be checked.\<close>

lemma walks_ok_goto:
  assumes ok: "walks_ok out source s"
    and same: "dist s' = dist s" "rpcs s' = (rpcs s)(t := p)"
    and data: "set_mset (initial s') \<subseteq> set_mset (initial s)"
      "\<And>req. req \<in># wlist s' \<Longrightarrow> req_ok out source s req"
      "\<And>u req. req \<in># pushBuffer s' u \<Longrightarrow> req_ok out source s req"
    and point: "rpc_ok out source s p"
  shows "walks_ok out source s'"
proof -
  have "falls s s'" using same(1) by (rule falls_refl)
  then have req: "req_ok out source s req \<Longrightarrow> req_ok out source s' req" for req by (rule req_ok_falls)
  have bound: "\<forall>n. unat (lo (dist s n)) \<le> NOT_REACHED" using ok by (simp add: walks_ok_def)
  have "rpc_ok out source s' (rpcs s' t)"
    using rpc_ok_falls [OF falls_refl [OF same(1)] bound point] same(2) by simp
  then show ?thesis
    using walks_ok_change [OF ok, of t s'] same data(1) data(2,3) [THEN req] \<open>falls s s'\<close> by simp
qed

lemma walks_ok_wlist: "walks_ok out source s \<Longrightarrow> req \<in># wlist s \<Longrightarrow> req_ok out source s req"
  by (simp add: walks_ok_def)

lemma walks_ok_buffer: "walks_ok out source s \<Longrightarrow> req \<in># pushBuffer s u \<Longrightarrow> req_ok out source s req"
  by (simp add: walks_ok_def)

lemma walk_edge_dist:
  assumes "walks_ok out source s" "reached s n" "(m, d) \<in> set (out n)"
  shows "walk out source m (unat (edge_dist (dist s n) d))"
  using assms walk.along [of out source n "unat (lo (dist s n))" m d] by (simp add: walks_ok_def unat_edge_dist)

lemma rpc_ok_after:
  "rest_ok out source s k \<Longrightarrow> (\<forall>req es. k = Some (req, es) \<longrightarrow> set es \<subseteq> set (out (req_n req))) \<Longrightarrow>
    rpc_ok out source s (after k)"
  by (cases k) (auto split: prod.splits)

lemma below_not_reached:
  assumes "walks_ok out source s" "w < lo (dist s m)"
  shows "unat w < NOT_REACHED" "unat w < 2 ^ 32"
proof -
  have "unat w < unat (lo (dist s m))" using assms(2) by (simp add: word_less_nat_alt)
  moreover have "unat (lo (dist s m)) \<le> NOT_REACHED" using assms(1) by (simp add: walks_ok_def)
  ultimately show "unat w < NOT_REACHED" by simp
  then show "unat w < 2 ^ 32" by (simp add: NOT_REACHED_def)
qed

lemma walks_ok_init: "walks_ok out source (sssp_init out source)"
proof -
  have "DIST_INF32 = lo DIST_INF32" by (simp add: DIST_INF32_def)
  then show ?thesis
    by (auto simp: walks_ok_def sssp_init_def reached_def DIST_INF32 NOT_REACHED_def lo_def [of 0] intro: walk.here)
qed

lemma walks_ok_cas:
  assumes ok: "walks_ok out source s" and pc: "rpcs s t = Cas n (m, d) newDist oldDist k" and eq: "dist s m = oldDist"
  shows "walks_ok out source (rgoto t (Push m newDist k) (set_dist m (replace_lo newDist oldDist) s))" (is "walks_ok _ _ ?s")
proof -
  note point = walks_ok_point [OF ok pc, simplified]
  then have less: "newDist < lo (dist s m)" using eq by simp
  note small = below_not_reached [OF ok less]
  have lo: "lo (dist ?s m) = newDist" by (simp add: sssp_state lo_replace [OF small(2)])
  have fall: "falls s ?s" using less lo by (auto simp: falls_def sssp_state)
  then have req: "req_ok out source s req \<Longrightarrow> req_ok out source ?s req" for req by (rule req_ok_falls)
  show ?thesis
  proof (rule walks_ok_change [OF ok, of t])
    show "rpc_ok out source ?s (rpcs ?s t)"
      using point small lo rest_ok_falls [OF fall] by (auto simp: sssp_state req_ok_def)
    show "walk out source j (unat (lo (dist ?s j)))" if "dist ?s j \<noteq> dist s j" for j
      using that lo point by (cases "j = m") (auto simp: sssp_state)
  qed (use ok fall req in \<open>auto simp: sssp_state walks_ok_def\<close>)
qed

lemma final_cas_value:
  assumes "walks_ok out source s" "rpcs s t = FinalCas req oldDist" "dist s (req_n req) = oldDist"
  shows "lo (dist s (req_n req)) = req_w req" "lo (with_work (req_w req) work) = req_w req"
proof -
  from walks_ok_point [OF assms(1,2)] assms(3)
  show "lo (dist s (req_n req)) = req_w req" by (auto simp: req_ok_def)
  have "unat (req_w req) < 2 ^ 32" using walks_ok_point [OF assms(1,2)] by (simp add: req_ok_def NOT_REACHED_def)
  then show "lo (with_work (req_w req) work) = req_w req" by (rule lo_with_work)
qed

lemma walks_ok_final_cas:
  assumes ok: "walks_ok out source s" and pc: "rpcs s t = FinalCas req oldDist" and eq: "dist s (req_n req) = oldDist"
  shows "walks_ok out source (rgoto t Flush (set_dist (req_n req) (with_work (req_w req) work) s))" (is "walks_ok _ _ ?s")
proof -
  have same: "lo (dist ?s j) = lo (dist s j)" for j
    using final_cas_value [OF assms] by (simp add: sssp_state)
  then have fall: "falls s ?s" by (simp add: falls_def)
  then have req: "req_ok out source s req \<Longrightarrow> req_ok out source ?s req" for req by (rule req_ok_falls)
  show ?thesis
  proof (rule walks_ok_change [OF ok, of t])
    show "walk out source j (unat (lo (dist ?s j)))" if "lo (dist ?s j) \<noteq> lo (dist s j)" for j
      using that same by simp
  qed (use ok fall req in \<open>auto simp: sssp_state walks_ok_def\<close>)
qed

lemma walks_ok_step:
  assumes ok: "walks_ok out source s" and step: "sssp_step out source t s s'"
  shows "walks_ok out source s'"
proof -
  have pt: "rpc_ok out source s (rpcs s t)" by (rule walks_ok_point [OF ok refl])
  show ?thesis
    using step
  proof cases
    case (initial e)
    then have "e \<in> set (out source)" "reached s source"
      using ok by (auto simp: walks_ok_def reached_def NOT_REACHED_def)
    then show ?thesis using initial ok
      by (intro walks_ok_goto [OF ok, of _ t]) (auto simp: sssp_state dest: walks_ok_wlist walks_ok_buffer in_diffD)
  next
    case (pop req)
    then show ?thesis using walks_ok_wlist [OF ok]
      by (intro walks_ok_goto [OF ok, of _ t]) (auto simp: sssp_state dest: in_diffD walks_ok_buffer [OF ok])
  next
    case (relax n m d k)
    then show ?thesis using pt walk_edge_dist [OF ok] walks_ok_wlist [OF ok]
      by (intro walks_ok_goto [OF ok, of _ t]) (fastforce simp: sssp_state dest: walks_ok_buffer [OF ok])+
  next
    case (compare_not n m d newDist k)
    from walks_ok_point [OF ok compare_not(2)] have "rpc_ok out source s (after k)" by (auto intro: rpc_ok_after)
    then show ?thesis using compare_not walks_ok_wlist [OF ok]
      by (intro walks_ok_goto [OF ok, of _ t]) (auto simp: sssp_state dest: walks_ok_buffer [OF ok])
  next
    case (cas m newDist n d k)
    then show ?thesis using walks_ok_cas [OF ok] by simp
  next
    case (final_cas req work)
    then show ?thesis using walks_ok_final_cas [OF ok] by simp
  qed (use ok pt walks_ok_wlist [OF ok] walks_ok_buffer [OF ok] in
  \<open>auto intro!: walks_ok_goto [OF ok, of _ t] simp: sssp_state req_ok_reached split: if_splits dest!: in_diffD\<close>)
qed

section \<open>Edges are relaxed or pending\<close>

text \<open>
  An edge out of a node with distance \<open>w\<close> is pending at a point that will still compare with the
  distance over it: a loop for the current distance that has the edge ahead, a relaxation of it, or the push of
  a request for the current distance.
\<close>

fun rest_handles :: "u64 \<Rightarrow> 'n rest \<Rightarrow> 'n \<Rightarrow> 'n edge \<Rightarrow> bool" where
  "rest_handles w None n e \<longleftrightarrow> False"
| "rest_handles w (Some (req, es)) n e \<longleftrightarrow> req = UpdateRequest n w \<and> e \<in> set es"

fun handles :: "u64 \<Rightarrow> 'n rpc \<Rightarrow> 'n \<Rightarrow> 'n edge \<Rightarrow> bool" where
  "handles w (Check req) n e \<longleftrightarrow> req = UpdateRequest n w"
| "handles w (Loop req es) n e \<longleftrightarrow> req = UpdateRequest n w \<and> e \<in> set es"
| "handles w (Relax n' e' k) n e \<longleftrightarrow> n' = n \<and> e' = e \<or> rest_handles w k n e"
| "handles w (Compare n' e' nd k) n e \<longleftrightarrow> n' = n \<and> e' = e \<and> nd = edge_dist w (snd e) \<or> rest_handles w k n e"
| "handles w (Cas n' e' nd od k) n e \<longleftrightarrow> n' = n \<and> e' = e \<and> nd = edge_dist w (snd e) \<or> rest_handles w k n e"
| "handles w (Push m nd k) n e \<longleftrightarrow> m = n \<and> nd = w \<or> rest_handles w k n e"
| "handles w _ n e \<longleftrightarrow> False"

definition pending :: "'n \<Rightarrow> 'n sssp \<Rightarrow> 'n \<Rightarrow> 'n edge \<Rightarrow> bool" where
  "pending source s n e \<longleftrightarrow>
     UpdateRequest n (lo (dist s n)) \<in># wlist s \<or> (\<exists>t. UpdateRequest n (lo (dist s n)) \<in># pushBuffer s t) \<or>
     n = source \<and> e \<in># initial s \<or> (\<exists>t. handles (lo (dist s n)) (rpcs s t) n e)"

definition relaxed :: "'n sssp \<Rightarrow> 'n \<Rightarrow> 'n edge \<Rightarrow> bool" where
  "relaxed s n e \<longleftrightarrow> lo (dist s (fst e)) \<le> edge_dist (dist s n) (snd e)"

definition covered :: "('n \<Rightarrow> 'n edge list) \<Rightarrow> 'n \<Rightarrow> 'n sssp \<Rightarrow> bool" where
  "covered out source s \<longleftrightarrow>
     (\<forall>n e. reached s n \<longrightarrow> e \<in> set (out n) \<longrightarrow> relaxed s n e \<or> pending source s n e)"

lemma edge_dist_lo [simp]: "edge_dist (lo w) d = edge_dist w d"
  by (simp add: edge_dist_def)

lemma rest_handles_after: "handles w (after k) n e \<longleftrightarrow> rest_handles w k n e"
  by (cases k) (auto split: prod.splits)

lemma covered_init: "covered out source (sssp_init out source)"
proof -
  have "lo DIST_INF32 = DIST_INF32" by (simp add: DIST_INF32_def)
  then show ?thesis
    by (auto simp: covered_def sssp_init_def reached_def pending_def DIST_INF32 NOT_REACHED_def)
qed

text \<open>Only what thread \<open>t\<close> holds or takes is to be checked: the edges it handled, and the requests it moves.\<close>

lemma covered_change:
  assumes cov: "covered out source s"
    and same: "\<And>u. u \<noteq> t \<Longrightarrow> rpcs s' u = rpcs s u"
    and fall: "falls s s'"
    and new: "\<And>n. lo (dist s' n) \<noteq> lo (dist s n) \<Longrightarrow> \<exists>k. rpcs s' t = Push n (lo (dist s' n)) k"
    and keep: "\<And>n e. lo (dist s' n) = lo (dist s n) \<Longrightarrow> reached s n \<Longrightarrow> e \<in> set (out n) \<Longrightarrow>
      UpdateRequest n (lo (dist s n)) \<in># wlist s \<or> (\<exists>u. UpdateRequest n (lo (dist s n)) \<in># pushBuffer s u) \<or>
      n = source \<and> e \<in># initial s \<or> handles (lo (dist s n)) (rpcs s t) n e \<Longrightarrow>
      relaxed s' n e \<or> pending source s' n e"
  shows "covered out source s'"
  unfolding covered_def
proof (intro allI impI)
  fix n e
  assume reached: "reached s' n" and e: "e \<in> set (out n)"
  show "relaxed s' n e \<or> pending source s' n e"
  proof (cases "lo (dist s' n) = lo (dist s n)")
    case False
    from new [OF this] obtain k where "rpcs s' t = Push n (lo (dist s' n)) k" by blast
    then have "handles (lo (dist s' n)) (rpcs s' t) n e" by simp
    then show ?thesis unfolding pending_def by blast
  next
    case True
    then have r: "reached s n" using reached by (simp add: reached_def)
    then consider "relaxed s n e" | "pending source s n e" using cov e unfolding covered_def by blast
    then show ?thesis
    proof cases
      case 1
      have "lo (dist s' (fst e)) \<le> lo (dist s (fst e))" using fall by (simp add: falls_def)
      moreover have "edge_dist (dist s' n) (snd e) = edge_dist (dist s n) (snd e)" using True by (simp add: edge_dist_def)
      ultimately show ?thesis using 1 by (auto simp: relaxed_def)
    next
      case 2
      then consider u where "u \<noteq> t" "handles (lo (dist s n)) (rpcs s u) n e"
        | "UpdateRequest n (lo (dist s n)) \<in># wlist s \<or> (\<exists>u. UpdateRequest n (lo (dist s n)) \<in># pushBuffer s u) \<or>
            n = source \<and> e \<in># initial s \<or> handles (lo (dist s n)) (rpcs s t) n e"
        unfolding pending_def by metis
      then show ?thesis
      proof cases
        case 1
        then have "handles (lo (dist s' n)) (rpcs s' u) n e" using same True by simp
        then show ?thesis unfolding pending_def by blast
      qed (use keep [OF True r e] in blast)
    qed
  qed
qed

lemma covered_goto:
  assumes cov: "covered out source s" and same: "dist s' = dist s" "rpcs s' = (rpcs s)(t := p)"
    and keep: "\<And>n e. reached s n \<Longrightarrow> e \<in> set (out n) \<Longrightarrow>
      UpdateRequest n (lo (dist s n)) \<in># wlist s \<or> (\<exists>u. UpdateRequest n (lo (dist s n)) \<in># pushBuffer s u) \<or>
      n = source \<and> e \<in># initial s \<or> handles (lo (dist s n)) (rpcs s t) n e \<Longrightarrow>
      UpdateRequest n (lo (dist s n)) \<in># wlist s' \<or> (\<exists>u. UpdateRequest n (lo (dist s n)) \<in># pushBuffer s' u) \<or>
      n = source \<and> e \<in># initial s' \<or> handles (lo (dist s n)) p n e \<or> relaxed s n e"
  shows "covered out source s'"
proof (rule covered_change [OF cov, of t])
  show "rpcs s' u = rpcs s u" if "u \<noteq> t" for u using that same(2) by simp
  show "falls s s'" using same(1) by (rule falls_refl)
  show "relaxed s' n e \<or> pending source s' n e" if "reached s n" "e \<in> set (out n)"
    "UpdateRequest n (lo (dist s n)) \<in># wlist s \<or> (\<exists>u. UpdateRequest n (lo (dist s n)) \<in># pushBuffer s u) \<or>
      n = source \<and> e \<in># initial s \<or> handles (lo (dist s n)) (rpcs s t) n e" for n e
  proof -
    have p: "rpcs s' t = p" using same(2) by simp
    have "relaxed s' n e = relaxed s n e" using same(1) by (simp add: relaxed_def)
    with keep [OF that] p show ?thesis unfolding pending_def same(1) by metis
  qed
qed (use same in simp_all)

lemma in_minus_other: "x \<in># M \<Longrightarrow> x = y \<or> x \<in># M - {#y#}"
  by (cases "x = y") (auto simp: in_diff_count)

lemma covered_cas:
  assumes ok: "walks_ok out source s" and cov: "covered out source s"
    and pc: "rpcs s t = Cas n (m, d) newDist oldDist k" and eq: "dist s m = oldDist"
  shows "covered out source (rgoto t (Push m newDist k) (set_dist m (replace_lo newDist oldDist) s))"
    (is "covered _ _ ?s")
proof -
  have less: "newDist < lo (dist s m)" using walks_ok_point [OF ok pc] eq by simp
  note small = below_not_reached [OF ok less]
  have lo: "lo (dist ?s m) = newDist" by (simp add: sssp_state lo_replace [OF small(2)])
  have other: "dist ?s j = dist s j" if "j \<noteq> m" for j using that by (simp add: sssp_state)
  show ?thesis
  proof (rule covered_change [OF cov, of t])
    show "falls s ?s" using less lo other unfolding falls_def by (metis order.refl order.strict_implies_order)
    show "\<exists>k. rpcs ?s t = Push j (lo (dist ?s j)) k" if "lo (dist ?s j) \<noteq> lo (dist s j)" for j
      using that lo other by (cases "j = m") (auto simp: sssp_state)
    show "relaxed ?s j e \<or> pending source ?s j e"
      if same: "lo (dist ?s j) = lo (dist s j)" and h: "UpdateRequest j (lo (dist s j)) \<in># wlist s \<or>
        (\<exists>u. UpdateRequest j (lo (dist s j)) \<in># pushBuffer s u) \<or> j = source \<and> e \<in># initial s \<or>
        handles (lo (dist s j)) (rpcs s t) j e" for j e
    proof -
      have "j \<noteq> m" using same lo less by auto
      then have ds: "dist ?s j = dist s j" by (rule other)
      have pc': "rpcs ?s t = Push m newDist k" by (simp add: sssp_state)
      from h pc consider "UpdateRequest j (lo (dist s j)) \<in># wlist s" | u where "UpdateRequest j (lo (dist s j)) \<in># pushBuffer s u"
        | "j = source \<and> e \<in># initial s" | "j = n" "e = (m, d)" "newDist = edge_dist (dist s j) d" | "rest_handles (lo (dist s j)) k j e"
        by auto
      then show ?thesis
      proof cases
        case 4
        then show ?thesis using lo ds by (simp add: relaxed_def)
      next
        case 5
        then have "handles (lo (dist ?s j)) (rpcs ?s t) j e" using ds pc' by simp
        then show ?thesis unfolding pending_def by blast
      qed (use ds in \<open>auto simp: pending_def sssp_state\<close>)
    qed
  qed (simp_all add: sssp_state)
qed

lemma covered_final_cas:
  assumes ok: "walks_ok out source s" and cov: "covered out source s"
    and pc: "rpcs s t = FinalCas req oldDist" and eq: "dist s (req_n req) = oldDist"
  shows "covered out source (rgoto t Flush (set_dist (req_n req) (with_work (req_w req) work) s))" (is "covered _ _ ?s")
proof -
  have same: "lo (dist ?s j) = lo (dist s j)" for j
    using final_cas_value [OF ok pc eq] by (simp add: sssp_state)
  show ?thesis
  proof (rule covered_change [OF cov, of t])
    show "relaxed ?s j e \<or> pending source ?s j e"
      if h: "UpdateRequest j (lo (dist s j)) \<in># wlist s \<or> (\<exists>u. UpdateRequest j (lo (dist s j)) \<in># pushBuffer s u) \<or>
        j = source \<and> e \<in># initial s \<or> handles (lo (dist s j)) (rpcs s t) j e" for j e
      using h pc unfolding pending_def same by (auto simp: sssp_state)
  qed (use same in \<open>simp_all add: sssp_state falls_def\<close>)
qed

lemma covered_step:
  assumes ok: "walks_ok out source s" and cov: "covered out source s" and step: "sssp_step out source t s s'"
  shows "covered out source s'"
  using step
proof cases
  case (initial e)
  show ?thesis unfolding initial(1)
    by (rule covered_goto [OF cov, of _ t "Relax source e None"])
      (use initial in_minus_other [of _ "initial s" e] in \<open>auto simp: sssp_state\<close>)
next
  case (pop req)
  show ?thesis unfolding pop(1)
    by (rule covered_goto [OF cov, of _ t "Check req"])
      (use pop in_minus_other [of _ "wlist s" req] in \<open>auto simp: sssp_state\<close>)
next
  case (compare_not n m d newDist k)
  show ?thesis unfolding compare_not(1)
    by (rule covered_goto [OF cov, of _ t "after k"])
      (use compare_not in \<open>auto simp: sssp_state rest_handles_after relaxed_def\<close>)
next
  case (push m newDist k)
  have after: "handles w (after (Some k)) n e \<longleftrightarrow> rest_handles w (Some k) n e" for w n e
    by (rule rest_handles_after)
  have moved: "q \<in># pushBuffer s' u" if "q \<in># pushBuffer s u" for q u
    using that unfolding push(1) by (auto simp: sssp_state)
  have new: "UpdateRequest m newDist \<in># pushBuffer s' t" unfolding push(1) by (simp add: sssp_state)
  have rest: "dist s' = dist s" "rpcs s' = (rpcs s)(t := after (Some k))" "wlist s' = wlist s" "initial s' = initial s"
    unfolding push(1) by (simp_all add: sssp_state)
  show ?thesis
    by (rule covered_goto [OF cov rest(1,2)])
      (use new after push(2) in \<open>auto simp: rest(3,4) simp del: after.simps dest: moved\<close>)
next
  case (flush r)
  have moved: "q \<in># wlist s' \<or> q \<in># pushBuffer s' u" if "q \<in># pushBuffer s u" for q u
    using that in_minus_other [of q "pushBuffer s t" r] unfolding flush(1) by (auto simp: sssp_state)
  have kept: "q \<in># wlist s'" if "q \<in># wlist s" for q
    using that unfolding flush(1) by (simp add: sssp_state)
  have rest: "dist s' = dist s" "rpcs s' = (rpcs s)(t := rpcs s t)" "initial s' = initial s"
    unfolding flush(1) by (simp_all add: sssp_state)
  show ?thesis
    by (rule covered_goto [OF cov rest(1,2)]) (auto simp: rest(3) dest: moved kept)
next
  case (cas m newDist n d k)
  then show ?thesis using covered_cas [OF ok cov] by simp
next
  case (final_cas req work)
  then show ?thesis using covered_final_cas [OF ok cov] by simp
qed (auto intro!: covered_goto [OF cov, of _ t] simp: sssp_state)

section \<open>Threads outside an iteration hold no requests\<close>

fun outside :: "'n rpc \<Rightarrow> bool" where
  "outside Idle \<longleftrightarrow> True"
| "outside (Relax n e k) \<longleftrightarrow> k = None"
| "outside (Compare n e nd k) \<longleftrightarrow> k = None"
| "outside (Cas n e nd od k) \<longleftrightarrow> k = None"
| "outside (Push m nd k) \<longleftrightarrow> k = None"
| "outside p \<longleftrightarrow> False"

definition buffers_ok :: "nat \<Rightarrow> 'n sssp \<Rightarrow> bool" where
  "buffers_ok threads s \<longleftrightarrow>
     (\<forall>t. outside (rpcs s t) \<longrightarrow> pushBuffer s t = {#}) \<and> (\<forall>t. threads \<le> t \<longrightarrow> rpcs s t = Idle)"

lemma outside_after: "outside (after k) \<longleftrightarrow> k = None"
  by (cases k) (auto split: prod.splits)

lemma buffers_ok_init: "buffers_ok threads (sssp_init out source)"
  by (simp add: buffers_ok_def sssp_init_def)

lemma buffers_ok_goto:
  assumes "buffers_ok threads s" "t < threads" "rpcs s' = (rpcs s)(t := p)"
    "\<And>u. u \<noteq> t \<Longrightarrow> pushBuffer s' u = pushBuffer s u" "outside p \<Longrightarrow> pushBuffer s' t = {#}"
  shows "buffers_ok threads s'"
  using assms unfolding buffers_ok_def by (auto simp: fun_upd_def)

lemma buffers_ok_step:
  assumes ok: "buffers_ok threads s" and t: "t < threads" and step: "sssp_step out source t s s'"
  shows "buffers_ok threads s'"
proof -
  have pt: "outside (rpcs s t) \<longrightarrow> pushBuffer s t = {#}" using ok by (simp add: buffers_ok_def)
  from step show ?thesis
  proof cases
    case (flush r)
    then show ?thesis using pt
      by (intro buffers_ok_goto [OF ok t, of _ "rpcs s t"]) (auto simp: sssp_state)
  next
    case (push m newDist k)
    then show ?thesis using outside_after [of "Some k"]
      by (intro buffers_ok_goto [OF ok t, of _ "after (Some k)"]) (auto simp: sssp_state simp del: after.simps)
  qed (use pt in \<open>auto intro!: buffers_ok_goto [OF ok t] simp: sssp_state outside_after\<close>)
qed

lemma sssp_invariants:
  assumes "sssp_reach threads out source s"
  shows "walks_ok out source s" "covered out source s" "buffers_ok threads s"
  using assms
proof (induction)
  case start
  show "walks_ok out source (sssp_init out source)" by (rule walks_ok_init)
  show "covered out source (sssp_init out source)" by (rule covered_init)
  show "buffers_ok threads (sssp_init out source)" by (rule buffers_ok_init)
next
  case (step s t s')
  show "walks_ok out source s'" by (rule walks_ok_step [OF step.IH(1) step.hyps(3)])
  show "covered out source s'" by (rule covered_step [OF step.IH(1,2) step.hyps(3)])
  show "buffers_ok threads s'" by (rule buffers_ok_step [OF step.IH(3) step.hyps(2,3)])
qed

section \<open>When no thread has a step left\<close>

definition sssp_stuck :: "nat \<Rightarrow> ('n \<Rightarrow> 'n edge list) \<Rightarrow> 'n \<Rightarrow> 'n sssp \<Rightarrow> bool" where
  "sssp_stuck threads out source s \<longleftrightarrow> (\<nexists>t s'. t < threads \<and> sssp_step out source t s s')"

lemma thread_has_step:
  assumes "rpcs s t \<noteq> Idle"
  shows "\<exists>s'. sssp_step out source t s s'"
proof (cases "rpcs s t")
  case (Check req)
  then show ?thesis by (cases "req_w req = lo (dist s (req_n req))") (blast intro: sssp_step.intros)+
next
  case (Loop req es)
  show ?thesis
  proof (cases es)
    case (Cons e es')
    then show ?thesis using Loop
      by (cases "req_w req = lo (dist s (req_n req))") (blast intro: sssp_step.intros)+
  qed (use Loop in \<open>blast intro: sssp_step.intros\<close>)
next
  case (Relax n e k)
  then show ?thesis by (cases e) (blast intro: sssp_step.intros)
next
  case (Compare n e nd k)
  then show ?thesis by (cases e; cases "nd < lo (dist s (fst e))") (auto intro: sssp_step.intros)
next
  case (Cas n e nd od k)
  then show ?thesis by (cases e; cases "dist s (fst e) = od") (auto intro: sssp_step.intros)
next
  case (Push m nd k)
  then show ?thesis by (cases k) (blast intro: sssp_step.intros)+
next
  case (Final req)
  then show ?thesis by (cases "lo (dist s (req_n req)) < req_w req") (blast intro: sssp_step.intros)+
next
  case (FinalCas req od)
  then show ?thesis by (cases "dist s (req_n req) = od") (blast intro: sssp_step.intros)+
next
  case Flush
  show ?thesis
  proof (cases "pushBuffer s t = {#}")
    case False
    then obtain r where "r \<in># pushBuffer s t" by (auto dest: multiset_nonemptyE)
    then show ?thesis by (blast intro: sssp_step.intros)
  qed (use Flush in \<open>blast intro: sssp_step.intros\<close>)
qed (use assms in simp)

lemma stuck_done:
  assumes reach: "sssp_reach threads out source s" and threads: "0 < threads" and stuck: "sssp_stuck threads out source s"
  shows "sssp_done s"
proof -
  have idle: "rpcs s t = Idle" for t
    using thread_has_step [of s t out source] stuck sssp_invariants(3) [OF reach]
    unfolding sssp_stuck_def buffers_ok_def by (meson not_le)
  have "wlist s = {#}"
  proof (rule ccontr)
    assume "wlist s \<noteq> {#}"
    then obtain r where "r \<in># wlist s" by (auto dest: multiset_nonemptyE)
    from sssp_step.pop [OF idle this] show False using stuck threads unfolding sssp_stuck_def by blast
  qed
  moreover have "initial s = {#}"
  proof (rule ccontr)
    assume "initial s \<noteq> {#}"
    then obtain e where "e \<in># initial s" by (auto dest: multiset_nonemptyE)
    from sssp_step.initial [OF idle this] show False using stuck threads unfolding sssp_stuck_def by blast
  qed
  ultimately show ?thesis using idle by (simp add: sssp_done_def)
qed

lemma done_relaxed:
  assumes reach: "sssp_reach threads out source s" and fin: "sssp_done s"
    and "reached s n" "(m, d) \<in> set (out n)"
  shows "unat (lo (dist s m)) \<le> unat (lo (dist s n)) + unat d"
proof -
  have idle: "rpcs s t = Idle" for t using fin by (simp add: sssp_done_def)
  moreover have "pushBuffer s t = {#}" for t
    using sssp_invariants(3) [OF reach] idle [of t] by (auto simp: buffers_ok_def)
  ultimately have "\<not> pending source s n (m, d)" using fin by (simp add: pending_def sssp_done_def)
  then have "relaxed s n (m, d)" using sssp_invariants(2) [OF reach] assms(3,4) unfolding covered_def by blast
  then show ?thesis by (simp add: relaxed_def word_le_nat_alt unat_edge_dist)
qed

lemma done_below_walks:
  assumes reach: "sssp_reach threads out source s" and fin: "sssp_done s" and walk: "walk out source n c"
  shows "unat (lo (dist s n)) \<le> c"
  using walk
proof induction
  case here
  then show ?case using sssp_invariants(1) [OF reach] by (simp add: walks_ok_def)
next
  case (along n c m d)
  show ?case
  proof (cases "reached s n")
    case True
    from done_relaxed [OF reach fin True along.hyps(2)] show ?thesis using along.IH by simp
  next
    case False
    then have "unat (lo (dist s n)) = NOT_REACHED" by (simp add: reached_def)
    moreover have "unat (lo (dist s m)) \<le> NOT_REACHED" using sssp_invariants(1) [OF reach] by (simp add: walks_ok_def)
    ultimately show ?thesis using along.IH by simp
  qed
qed

lemma done_distance:
  assumes reach: "sssp_reach threads out source s" and fin: "sssp_done s"
  shows "unat (lo (dist s n)) = (LEAST c. c = NOT_REACHED \<or> walk out source n c)"
proof (rule Least_equality [symmetric])
  have ok: "unat (lo (dist s n)) \<le> NOT_REACHED" "reached s n \<longrightarrow> walk out source n (unat (lo (dist s n)))"
    using sssp_invariants(1) [OF reach] by (simp_all add: walks_ok_def)
  then show "unat (lo (dist s n)) = NOT_REACHED \<or> walk out source n (unat (lo (dist s n)))"
    by (auto simp: reached_def)
  show "unat (lo (dist s n)) \<le> c" if "c = NOT_REACHED \<or> walk out source n c" for c
    using that ok(1) done_below_walks [OF reach fin] by blast
qed

end
