(* ===== verification/ShortestPathsEnd.thy ===== *)
theory ShortestPathsEnd
  imports ShortestPaths
begin

text \<open>
  The shortest-path loop ends on a finite graph, whatever the scheduler hands out and however the threads
  interleave: a measure of the state falls with every step. A successful update lowers the sum of the distances;
  between two of them the work left falls. A thread whose compare-and-swap lost to the work counter
  of a finished iteration tries again; the end of an iteration pays for all of them.
\<close>

section \<open>The work left\<close>

definition loop_weight :: "nat \<Rightarrow> 'n edge list \<Rightarrow> nat" where
  "loop_weight threads es = 2 * threads + 5 + 5 * length es"

fun rest_weight :: "nat \<Rightarrow> 'n rest \<Rightarrow> nat" where
  "rest_weight threads None = 0"
| "rest_weight threads (Some (req, es)) = loop_weight threads es"

definition req_weight :: "nat \<Rightarrow> ('n \<Rightarrow> 'n edge list) \<Rightarrow> 'n update_request \<Rightarrow> nat" where
  "req_weight threads out req = loop_weight threads (out (req_n req)) + 1"

fun rpc_weight :: "nat \<Rightarrow> ('n \<Rightarrow> 'n edge list) \<Rightarrow> ('n \<Rightarrow> u64) \<Rightarrow> 'n rpc \<Rightarrow> nat" where
  "rpc_weight threads out D Idle = 0"
| "rpc_weight threads out D (Check req) = req_weight threads out req"
| "rpc_weight threads out D (Loop req es) = loop_weight threads es"
| "rpc_weight threads out D (Relax n e k) = 3 + rest_weight threads k"
| "rpc_weight threads out D (Compare n e nd k) = 2 + rest_weight threads k"
| "rpc_weight threads out D (Cas n e nd od k) = (if D (fst e) = od then 1 else 3) + rest_weight threads k"
| "rpc_weight threads out D (Push m nd k) = req_weight threads out (UpdateRequest m nd) + 3 + rest_weight threads k"
| "rpc_weight threads out D (Final req) = 2 * threads + 4"
| "rpc_weight threads out D (FinalCas req od) = 2 * threads + 3"
| "rpc_weight threads out D Flush = 1"

definition thread_weight :: "nat \<Rightarrow> ('n \<Rightarrow> 'n edge list) \<Rightarrow> 'n sssp \<Rightarrow> nat \<Rightarrow> nat" where
  "thread_weight threads out s t = rpc_weight threads out (dist s) (rpcs s t) +
     (\<Sum>r \<in># pushBuffer s t. req_weight threads out r + 2)"

definition work_left :: "nat \<Rightarrow> ('n \<Rightarrow> 'n edge list) \<Rightarrow> 'n sssp \<Rightarrow> nat" where
  "work_left threads out s = 4 * size (initial s) + (\<Sum>r \<in># wlist s. req_weight threads out r + 1) +
     (\<Sum>t<threads. thread_weight threads out s t)"

definition dist_sum :: "('n::finite) sssp \<Rightarrow> nat" where
  "dist_sum s = (\<Sum>n\<in>UNIV. unat (lo (dist s n)))"

lemma sum_mset_minus:
  assumes "x \<in># M"
  shows "(\<Sum>r \<in># M. (f r :: nat)) = f x + (\<Sum>r \<in># M - {#x#}. f r)"
proof -
  from assms obtain N where "M = add_mset x N" by (rule mset_add)
  then show ?thesis by simp
qed

lemma rest_weight_after: "rpc_weight threads out D (after k) = rest_weight threads k"
  by (cases k) (auto split: prod.splits)

lemma work_split:
  assumes "t < threads"
  shows "work_left threads out s = 4 * size (initial s) + (\<Sum>r \<in># wlist s. req_weight threads out r + 1) +
    thread_weight threads out s t + (\<Sum>u\<in>{..<threads} - {t}. thread_weight threads out s u)"
  using assms sum.remove [of "{..<threads}" t "thread_weight threads out s"] by (simp add: work_left_def)

text \<open>A step that writes no distance changes the weight of its own thread and of the shared requests only.\<close>

lemma work_goto:
  assumes t: "t < threads" and same: "dist s' = dist s" "\<And>u. u \<noteq> t \<Longrightarrow> rpcs s' u = rpcs s u"
      "\<And>u. u \<noteq> t \<Longrightarrow> pushBuffer s' u = pushBuffer s u"
    and less: "4 * size (initial s') + (\<Sum>r \<in># wlist s'. req_weight threads out r + 1) + thread_weight threads out s' t <
      4 * size (initial s) + (\<Sum>r \<in># wlist s. req_weight threads out r + 1) + thread_weight threads out s t"
  shows "work_left threads out s' < work_left threads out s"
proof -
  have "(\<Sum>u\<in>{..<threads} - {t}. thread_weight threads out s' u) = (\<Sum>u\<in>{..<threads} - {t}. thread_weight threads out s u)"
    by (rule sum.cong) (use same in \<open>auto simp: thread_weight_def\<close>)
  then show ?thesis using less by (simp add: work_split [OF t])
qed

text \<open>Writing the work counter costs each other thread at most one failed compare-and-swap.\<close>

lemma rpc_weight_other: "rpc_weight threads out D' p \<le> rpc_weight threads out D p + 2"
  by (cases p) auto

lemma work_final_cas:
  assumes t: "t < threads" and pc: "rpcs s t = FinalCas req oldDist"
  shows "work_left threads out (rgoto t Flush (set_dist (req_n req) w s)) < work_left threads out s" (is "work_left _ _ ?s < _")
proof -
  have "(\<Sum>u\<in>{..<threads} - {t}. thread_weight threads out ?s u) \<le>
      (\<Sum>u\<in>{..<threads} - {t}. thread_weight threads out s u + 2)"
    using rpc_weight_other by (intro sum_mono) (auto simp: thread_weight_def sssp_state)
  also have "\<dots> \<le> (\<Sum>u\<in>{..<threads} - {t}. thread_weight threads out s u) + 2 * threads"
    using t by (simp add: sum.distrib [of _ "\<lambda>_. 2"] del: add_2_eq_Suc')
  finally show ?thesis using pc by (simp add: work_split [OF t] thread_weight_def sssp_state)
qed

lemma work_falls:
  assumes t: "t < threads" and step: "sssp_step out source t s s'" and same: "\<And>n. lo (dist s' n) = lo (dist s n)"
    and ok: "walks_ok out source s"
  shows "work_left threads out s' < work_left threads out s"
  using step
proof cases
  case (initial e)
  from initial(3) have "size (initial s) = Suc (size (initial s - {#e#}))" by (metis insert_DiffM size_add_mset)
  then show ?thesis using initial(1,2)
    by (intro work_goto [OF t]) (auto simp: sssp_state thread_weight_def)
next
  case (pop req)
  show ?thesis using pop(1,2) sum_mset_minus [OF pop(3), of "\<lambda>r. req_weight threads out r + 1"]
    by (intro work_goto [OF t]) (auto simp: sssp_state thread_weight_def)
next
  case (compare_not n m d newDist k)
  then show ?thesis
    by (intro work_goto [OF t]) (auto simp: sssp_state thread_weight_def rest_weight_after)
next
  case (cas n m d newDist oldDist k)
  then have less: "newDist < lo (dist s m)" using walks_ok_point [OF ok cas(2)] cas(3) by simp
  have "lo (dist s' m) = newDist"
    using cas(1) lo_replace [OF below_not_reached(2) [OF ok less]] by (simp add: sssp_state)
  then show ?thesis using same [of m] less by simp
next
  case (push m newDist k)
  then show ?thesis using rest_weight_after [of threads out "dist s" "Some k"]
    by (intro work_goto [OF t]) (auto simp: sssp_state thread_weight_def simp del: after.simps)
next
  case (flush r)
  show ?thesis using flush(1) sum_mset_minus [OF flush(2), of "\<lambda>r. req_weight threads out r + 2"]
    by (intro work_goto [OF t]) (auto simp: sssp_state thread_weight_def)
next
  case (final_cas req work)
  then show ?thesis using work_final_cas [OF t] by simp
qed (auto intro!: work_goto [OF t] simp: sssp_state thread_weight_def req_weight_def loop_weight_def)

section \<open>The measure falls\<close>

lemma dist_lo_falls:
  assumes ok: "walks_ok out source s" and step: "sssp_step out source t s s'"
  shows "falls s s'"
  using step
proof cases
  case (cas n m d newDist oldDist k)
  then have less: "newDist < lo (dist s m)" using walks_ok_point [OF ok cas(2)] cas(3) by simp
  then show ?thesis
    using cas(1) lo_replace [OF below_not_reached(2) [OF ok less]] by (auto simp: falls_def sssp_state)
next
  case (final_cas req work)
  then show ?thesis using final_cas_value [OF ok] by (auto simp: falls_def sssp_state)
qed (auto simp: falls_def sssp_state)

lemma sssp_measure:
  fixes s :: "('n::finite) sssp"
  assumes ok: "walks_ok out source s" and t: "t < threads" and step: "sssp_step out source t s s'"
  shows "(s', s) \<in> measures [dist_sum, work_left threads out]"
proof -
  have le: "unat (lo (dist s' n)) \<le> unat (lo (dist s n))" for n
    using dist_lo_falls [OF ok step] by (simp add: falls_def word_le_nat_alt)
  show ?thesis
  proof (cases "\<forall>n. lo (dist s' n) = lo (dist s n)")
    case True
    then have "dist_sum s' = dist_sum s" by (simp add: dist_sum_def)
    then show ?thesis using work_falls [OF t step _ ok] True by simp
  next
    case False
    then obtain n where "lo (dist s' n) \<noteq> lo (dist s n)" by blast
    then have "unat (lo (dist s' n)) < unat (lo (dist s n))" using le [of n] word_unat_eq_iff by (metis le_neq_implies_less)
    then have "dist_sum s' < dist_sum s" unfolding dist_sum_def using le by (intro sum_strict_mono_ex1) auto
    then show ?thesis by simp
  qed
qed

lemma sssp_wf:
  "wf {(s', s). sssp_reach threads out (source :: 'n::finite) s \<and> (\<exists>t<threads. sssp_step out source t s s')}"
  by (rule wf_subset [OF wf_measures]) (auto intro: sssp_measure dest: sssp_invariants(1) simp del: in_measures)

lemma sssp_ends:
  assumes "sssp_reach threads out (source :: 'n::finite) s"
  shows "\<exists>s'. sssp_reach threads out source s' \<and> sssp_stuck threads out source s'"
  using assms
proof (induction s rule: wf_induct_rule [OF sssp_wf [of threads out source]])
  case (1 s)
  show ?case
  proof (cases "sssp_stuck threads out source s")
    case False
    then obtain t s' where "t < threads" "sssp_step out source t s s'" by (auto simp: sssp_stuck_def)
    moreover have "sssp_reach threads out source s'" using 1(2) calculation by (blast intro: sssp_reach.step)
    ultimately show ?thesis using 1(1) 1(2) by blast
  qed (use 1(2) in blast)
qed

section \<open>The check after the run\<close>

text \<open>
  \<open>verify\<close>: the source has distance 0, all 64 bits of it, and no edge out of a visited node leads to a node
  farther away than over the edge. \<open>max_dist\<close> is the value a node adds to the printed maximum.
\<close>

definition not_visited :: "('n \<Rightarrow> u64) \<Rightarrow> 'n \<Rightarrow> bool" where "not_visited D n \<longleftrightarrow> lo (D n) \<ge> DIST_INF32"

definition not_consistent :: "('n \<Rightarrow> 'n edge list) \<Rightarrow> ('n \<Rightarrow> u64) \<Rightarrow> 'n \<Rightarrow> bool" where
  "not_consistent out D n =
     (let d = lo (D n) in if d = DIST_INF32 then False else list_ex (\<lambda>(m, w). lo (D m) > d + ucast w) (out n))"

definition max_dist :: "('n \<Rightarrow> u64) \<Rightarrow> 'n \<Rightarrow> u64 option" where
  "max_dist D n = (if D n = DIST_INFINITY then None else Some (D n))"

definition verify :: "('n \<Rightarrow> 'n edge list) \<Rightarrow> 'n list \<Rightarrow> ('n \<Rightarrow> u64) \<Rightarrow> 'n \<Rightarrow> bool" where
  "verify out nodes D source = (if D source \<noteq> 0 then False else \<not> list_ex (not_consistent out D) nodes)"

text \<open>No request is for the source, so that its work counter stays 0 as well.\<close>

fun rest_targets :: "'n rest \<Rightarrow> 'n set" where
  "rest_targets None = {}"
| "rest_targets (Some (req, es)) = {req_n req}"

fun rpc_targets :: "'n rpc \<Rightarrow> 'n set" where
  "rpc_targets (Check req) = {req_n req}"
| "rpc_targets (Loop req es) = {req_n req}"
| "rpc_targets (Relax n e k) = rest_targets k"
| "rpc_targets (Compare n e nd k) = rest_targets k"
| "rpc_targets (Cas n e nd od k) = rest_targets k"
| "rpc_targets (Push m nd k) = insert m (rest_targets k)"
| "rpc_targets (Final req) = {req_n req}"
| "rpc_targets (FinalCas req od) = {req_n req}"
| "rpc_targets _ = {}"

definition source_alone :: "'n \<Rightarrow> 'n sssp \<Rightarrow> bool" where
  "source_alone source s \<longleftrightarrow> dist s source = 0 \<and> (\<forall>req \<in># wlist s. req_n req \<noteq> source) \<and>
     (\<forall>t. \<forall>req \<in># pushBuffer s t. req_n req \<noteq> source) \<and> (\<forall>t. source \<notin> rpc_targets (rpcs s t))"

lemma rpc_targets_after: "rpc_targets (after k) = rest_targets k"
  by (cases k) (auto split: prod.splits)

lemma source_alone_change:
  assumes "source_alone source s" "dist s' source = 0" "rpcs s' = (rpcs s)(t := p)" "source \<notin> rpc_targets p"
    "\<And>req. req \<in># wlist s' \<Longrightarrow> req_n req \<noteq> source" "\<And>u req. req \<in># pushBuffer s' u \<Longrightarrow> req_n req \<noteq> source"
  shows "source_alone source s'"
  using assms by (simp add: source_alone_def)

lemma source_alone_step:
  assumes al: "source_alone source s" and step: "sssp_step out source t s s'" and ok: "walks_ok out source s"
  shows "source_alone source s'"
proof -
  have pt: "source \<notin> rpc_targets (rpcs s t)" and src: "dist s source = 0"
    and wl: "\<And>req. req \<in># wlist s \<Longrightarrow> req_n req \<noteq> source"
    and buf: "\<And>u req. req \<in># pushBuffer s u \<Longrightarrow> req_n req \<noteq> source"
    using al by (auto simp: source_alone_def)
  from step show ?thesis
  proof cases
    case (cas n m d newDist oldDist k)
    have "m \<noteq> source" using walks_ok_point [OF ok cas(2)] cas(3) src by (auto simp: lo_def)
    then show ?thesis using cas(1,2) pt src wl buf
      by (intro source_alone_change [OF al, of _ t "Push m newDist k"]) (auto simp: sssp_state)
  next
    case (push m newDist k)
    then show ?thesis using pt src wl buf rpc_targets_after [of "Some k"]
      by (intro source_alone_change [OF al, of _ t "after (Some k)"])
        (auto simp: sssp_state simp del: after.simps split: if_splits)
  next
    case (flush r)
    then show ?thesis using pt src wl buf
      by (intro source_alone_change [OF al, of _ t "rpcs s t"]) (auto simp: sssp_state split: if_splits dest: in_diffD)
  qed (use pt src in \<open>auto intro!: source_alone_change [OF al, of _ t] simp: sssp_state rpc_targets_after
    dest!: in_diffD dest: wl buf\<close>)
qed

lemma sssp_source_alone: "sssp_reach threads out source s \<Longrightarrow> source_alone source s"
proof (induction rule: sssp_reach.induct)
  case start
  show ?case by (simp add: source_alone_def sssp_init_def)
qed (blast intro: source_alone_step sssp_invariants(1))

lemma done_consistent:
  assumes reach: "sssp_reach threads out source s" and fin: "sssp_done s"
  shows "\<not> not_consistent out (dist s) n"
proof (cases "lo (dist s n) = DIST_INF32")
  case False
  then have r: "reached s n" using DIST_INF32 word_unat_eq_iff unfolding reached_def NOT_REACHED_def by metis
  have "\<not> lo (dist s m) > lo (dist s n) + ucast w" if "(m, w) \<in> set (out n)" for m w
    using done_relaxed [OF reach fin r that] unat_edge_dist [of "dist s n" w]
    by (simp add: word_less_nat_alt edge_dist_def)
  then show ?thesis by (auto simp: not_consistent_def list_ex_iff Let_def)
qed (simp add: not_consistent_def)

section \<open>Properties\<close>

text \<open>
  C5: when the parallel loop is over, every node has its shortest distance. In every state in which no thread has a
  step left, however the scheduler ordered the requests and however the threads interleaved, the lower half of
  \<open>dist\<close> is the smallest length of a walk from the source to the node, or \<open>(unsigned)DIST_INFINITY\<close>
  where there is none below it.
\<close>

theorem sssp_exact:
  assumes "sssp_reach threads out source s" "0 < threads" "sssp_stuck threads out source s"
  shows "unat (lo (dist s n)) = (LEAST c. c = NOT_REACHED \<or> walk out source n c)"
  by (rule done_distance [OF assms(1) stuck_done [OF assms]])

definition two_nodes :: "bool \<Rightarrow> bool edge list" where
  "two_nodes n = (if n then [(False, 5), (False, 3)] else [(True, 1)])"

lemma two_nodes_walk: "walk two_nodes True n c \<Longrightarrow> (n \<or> 3 \<le> c)"
  by (induction rule: walk.induct) (auto simp: two_nodes_def split: if_splits)

theorem sssp_exact_witness:
  "\<exists>s. sssp_reach 2 two_nodes True s \<and> sssp_stuck 2 two_nodes True s \<and> unat (lo (dist s False)) = 3"
proof -
  obtain s where s: "sssp_reach 2 two_nodes True s" "sssp_stuck 2 two_nodes True s"
    using sssp_ends [OF sssp_reach.start] by blast
  have "walk two_nodes True False (0 + unat (3 :: u32))"
    by (rule walk.along [OF walk.here]) (simp add: two_nodes_def)
  then have "(LEAST c. c = NOT_REACHED \<or> walk two_nodes True False c) = 3"
    using two_nodes_walk [of False] by (intro Least_equality) (auto simp: NOT_REACHED_def)
  with sssp_exact [OF s(1) _ s(2), of False] s show ?thesis by auto
qed

text \<open>
  C6: the parallel loop ends. On a finite graph there is no infinite sequence of steps, from any reachable state, of any
  number of threads, with any order of the requests: the compare-and-swap loops and the work list both run dry.
\<close>

theorem sssp_terminates:
  "wf {(s', s). sssp_reach threads out (source :: 'n::finite) s \<and> (\<exists>t<threads. sssp_step out source t s s')}"
  by (rule sssp_wf)

text \<open>
  the check of the program passes after its own loop: the source still holds 0 in all 64 bits, work counter included,
  and no node is farther away than over an edge from a visited node.
\<close>

theorem sssp_verify_passes:
  assumes "sssp_reach threads out source s" "0 < threads" "sssp_stuck threads out source s"
  shows "verify out nodes (dist s) source"
  using done_consistent [OF assms(1) stuck_done [OF assms]] sssp_source_alone [OF assms(1)]
  by (simp add: verify_def source_alone_def list_ex_iff)

theorem sssp_verify_passes_witness:
  "\<exists>s. sssp_stuck 2 two_nodes True s \<and> verify two_nodes [True, False] (dist s) True"
proof -
  obtain s where s: "sssp_reach 2 two_nodes True s" "sssp_stuck 2 two_nodes True s"
    using sssp_ends [OF sssp_reach.start] by blast
  with sssp_verify_passes [OF s(1) _ s(2)] show ?thesis by auto
qed

text \<open>
  The printed maximum counts nodes that were never reached: \<open>max_dist\<close> leaves out 64-bit infinity, and the
  loop starts from the 32-bit one.
\<close>

theorem max_dist_unreached: "max_dist (dist (sssp_init out source)) n \<noteq> None"
  by (simp add: max_dist_def sssp_init_def DIST_INF32_def DIST_INFINITY_def lo_def)

end
