(* ===== verification/HeapWorklists.thy ===== *)
theory HeapWorklists
  imports MQProbProb
begin

text \<open>
  The heap-based worklists of \<open>WorkList/WorkListHelpers.h\<close> the experiments compare with: \<open>MyPQ\<close>, one heap
  without locks; \<open>MyHMQ\<close>, a MultiQueue that looks at all its heaps before it gives up;
  \<open>HeapMultiQueue\<close>, the one of the skip-list family, whose heaps each hold a sentinel; and \<open>HeapSwarmPQ\<close>, where
  a thread pushes to a random heap and pops from its own.
\<close>

section \<open>MyPQ\<close>

definition mypq_push :: "('a, 'h) heap_ops \<Rightarrow> 'h \<Rightarrow> 'a \<Rightarrow> 'h" where
  "mypq_push B h val = h_push B h val"

fun mypq_push_range :: "('a, 'h) heap_ops \<Rightarrow> 'h \<Rightarrow> u32 \<Rightarrow> 'a list \<Rightarrow> 'h \<times> u32" where
  "mypq_push_range B h npush [] = (h, npush)"
| "mypq_push_range B h npush (b # bs) = mypq_push_range B (mypq_push B h b) (npush + 1) bs"

definition mypq_extract_min :: "('a, 'h) heap_ops \<Rightarrow> 'h \<Rightarrow> 'a option \<times> 'h" where
  "mypq_extract_min B h = (h_top B h, h_pop B h)"

definition mypq_pop :: "('a, 'h) heap_ops \<Rightarrow> 'h \<Rightarrow> 'a option \<times> 'h" where
  "mypq_pop B h = (if h_size B h \<noteq> 0 then mypq_extract_min B h else (None, h))"

context task_heap
begin

lemma mypq_push_range_bag:
  "hinv h \<Longrightarrow> mypq_push_range B h n es = (h', n') \<Longrightarrow>
    hinv h' \<and> hbag h' = hbag h + mset es \<and> n' = n + of_nat (length es)"
proof (induction es arbitrary: h n)
  case (Cons e es)
  from Cons.IH [of "h_push B h e" "n + 1"] Cons.prems push_inv [of h e] push_bag [of h e] show ?case
    by (simp add: mypq_push_def)
qed simp

lemma mypq_pop_min:
  assumes "hinv h" "mypq_pop B h = (r, h')"
  shows "hinv h' \<and> (case r of None \<Rightarrow> hbag h = {#} \<and> h' = h
    | Some x \<Rightarrow> hbag h = add_mset x (hbag h') \<and> (\<forall>y \<in># hbag h. \<not> cmp x y))"
proof (cases "hbag h = {#}")
  case True
  then show ?thesis using assms size_zero [OF assms(1)] by (auto simp: mypq_pop_def)
next
  case False
  then obtain x where x: "h_top B h = Some x" using top_Some [OF assms(1)] by blast
  then have "r = Some x" "h' = h_pop B h"
    using assms False size_zero [OF assms(1)] by (auto simp: mypq_pop_def mypq_extract_min_def)
  then show ?thesis using pop_inv [OF assms(1) x] pop_bag [OF assms(1) x] top_min [OF assms(1) x] by auto
qed

end

section \<open>MyHMQ\<close>

text \<open>
  \<open>LockableHeapDAry\<close> has the fields of \<open>HeapWithLock\<close>; \<open>usedT\<close> has all bits set, so its priority is the dummy.
  \<open>extract_min\<close> of a locked heap (\<open>None\<close>: \<open>top()\<close> of an empty one).
\<close>

definition LockableHeapDAry_init :: "('a, 'h) heap_ops \<Rightarrow> 'h HeapWithLock" where
  "LockableHeapDAry_init B = \<lparr>bheap = h_empty B, lck = False, hmin = dummy\<rparr>"

definition hmq_init :: "('a, 'h) heap_ops \<Rightarrow> nat \<Rightarrow> nat \<Rightarrow> 'h HeapWithLock list" where
  "hmq_init B C nT = replicate (if C > 0 then C * nT else 1) (LockableHeapDAry_init B)"

definition hmq_store_top :: "('a, 'h) heap_ops \<Rightarrow> 'h HeapWithLock \<Rightarrow> 'h HeapWithLock" where
  "hmq_store_top B H = (case h_top B (bheap H) of Some x \<Rightarrow> H\<lparr>hmin := t_prior B x\<rparr> | None \<Rightarrow> H)"

definition hmq_extract_min :: "('a, 'h) heap_ops \<Rightarrow> 'h HeapWithLock \<Rightarrow> 'a option \<times> 'h HeapWithLock" where
  "hmq_extract_min B H =
     (case h_top B (bheap H) of
        None \<Rightarrow> (None, H)
      | Some result \<Rightarrow>
          let H1 = H\<lparr>bheap := h_pop B (bheap H)\<rparr>;
              H2 = H1\<lparr>hmin := (if h_size B (bheap H1) \<noteq> 0
                               then (case h_top B (bheap H1) of Some x \<Rightarrow> t_prior B x | None \<Rightarrow> dummy)
                               else dummy)\<rparr>
          in (Some result, unlock H2))"

definition hmq_push ::
    "('a, 'h) heap_ops \<Rightarrow> nat \<Rightarrow> 'h HeapWithLock list \<Rightarrow> u32 \<Rightarrow> 'a \<Rightarrow> ('h HeapWithLock list \<times> u32) option" where
  "hmq_push B nQ hs x val =
     (case rand_heap nQ x of (q_ind, x1) \<Rightarrow>
      case lock_loop (rand_heap nQ) hs q_ind x1 of
        None \<Rightarrow> None
      | Some (hs1, q, x2) \<Rightarrow>
          let H = hmq_store_top B (HeapWithLock_push B (hs1 ! q) val)
          in Some (hs1[q := unlock H], x2))"

fun hmq_push_range ::
    "('a, 'h) heap_ops \<Rightarrow> nat \<Rightarrow> 'h HeapWithLock list \<Rightarrow> u32 \<Rightarrow> u32 \<Rightarrow> 'a list \<Rightarrow>
     ('h HeapWithLock list \<times> u32 \<times> u32) option" where
  "hmq_push_range B nQ hs x npush [] = Some (hs, x, npush)"
| "hmq_push_range B nQ hs x npush (b # bs) =
     (case hmq_push B nQ hs x b of
        None \<Rightarrow> None
      | Some (hs', x') \<Rightarrow> hmq_push_range B nQ hs' x' (npush + 1) bs)"

text \<open>
  The loop of \<open>pop\<close> ends at a heap whose minimum is the dummy, without a lock, or at one it could lock. The scan
  over all heaps is made only with at most four threads.
\<close>

definition hmq_try :: "'h HeapWithLock list \<Rightarrow> nat \<Rightarrow> bool \<times> 'h HeapWithLock list" where
  "hmq_try hs i = (if isMinDummy (min_at hs i) then (True, hs) else try_lock_at hs i)"

function hmq_scan ::
    "('a, 'h) heap_ops \<Rightarrow> nat \<Rightarrow> nat \<Rightarrow> 'h HeapWithLock list \<Rightarrow> 'a option \<times> 'h HeapWithLock list" where
  "hmq_scan B nQ i hs =
     (if i < nQ then
        if \<not> isMinDummy (min_at hs i) then
          case try_lock_at hs i of (r, hs1) \<Rightarrow>
            if r then
              if h_size B (bheap (hs1 ! i)) \<noteq> 0 then
                case hmq_extract_min B (hs1 ! i) of (v, H) \<Rightarrow> (v, hs1[i := H])
              else hmq_scan B nQ (i + 1) (hs1[i := unlock (hs1 ! i)])
            else hmq_scan B nQ (i + 1) hs1
        else hmq_scan B nQ (i + 1) hs
      else (None, hs))"
  by pat_completeness auto
termination
  by (relation "measure (\<lambda>(B, nQ, i, hs). nQ - i)") auto

declare hmq_scan.simps [simp del]

definition hmq_fallback ::
    "('a, 'h) heap_ops \<Rightarrow> nat \<Rightarrow> nat \<Rightarrow> 'h HeapWithLock list \<Rightarrow> 'a option \<times> 'h HeapWithLock list" where
  "hmq_fallback B nT nQ hs = (if nT \<le> 4 then hmq_scan B nQ 0 hs else (None, hs))"

definition hmq_pop ::
    "('a, 'h) heap_ops \<Rightarrow> nat \<Rightarrow> nat \<Rightarrow> 'h HeapWithLock list \<Rightarrow> u32 \<Rightarrow>
     ('h HeapWithLock list \<times> u32 \<times> 'a option) option" where
  "hmq_pop B nT nQ hs x =
     (case choose_loop (rand_heap nQ) nQ min_at hmq_try hs x of
        None \<Rightarrow> None
      | Some (hs1, i_ind, x1) \<Rightarrow>
          if \<not> isMinDummy (min_at hs i_ind) then
            if h_size B (bheap (hs1 ! i_ind)) \<noteq> 0 then
              case hmq_extract_min B (hs1 ! i_ind) of (v, H) \<Rightarrow> Some (hs1[i_ind := H], x1, v)
            else case hmq_fallback B nT nQ (hs1[i_ind := unlock (hs1 ! i_ind)]) of (v, hs2) \<Rightarrow> Some (hs2, x1, v)
          else case hmq_fallback B nT nQ hs1 of (v, hs2) \<Rightarrow> Some (hs2, x1, v))"

lemma hmq_extract_min_eq: "hmq_extract_min B H = ProbProb_extract_min B H"
  by (simp add: hmq_extract_min_def ProbProb_extract_min_def HeapWithLock_extractMin_def updateMin_def
      split: option.splits)

lemma hmq_try_stays: "hmq_try hs i = (False, hs') \<Longrightarrow> hs' = hs"
  by (auto simp: hmq_try_def try_lock_at_cases split: if_splits)

text \<open>What a \<open>pop\<close> that returns nothing has seen: every heap is locked, or has only tasks of the dummy priority.\<close>

definition all_seen_empty :: "('a, 'h) heap_ops \<Rightarrow> ('h \<Rightarrow> 'a multiset) \<Rightarrow> 'h HeapWithLock list \<Rightarrow> bool" where
  "all_seen_empty B hbag hs \<longleftrightarrow>
     (\<forall>H \<in> set hs. lck H \<or> (\<forall>x \<in># hbag (bheap H). t_prior B x = dummy))"

context task_heap
begin

lemma hmq_store_top_push:
  assumes "hinv (bheap H)"
  shows "hmq_store_top B (HeapWithLock_push B H x) = updateMin B (HeapWithLock_push B H x)"
proof -
  have inv: "hinv (h_push B (bheap H) x)" and ne: "hbag (h_push B (bheap H) x) \<noteq> {#}"
    using push_inv [OF assms] push_bag [OF assms] by simp_all
  then obtain y where "h_top B (h_push B (bheap H) x) = Some y" using top_Some by blast
  moreover have "0 < h_size B (h_push B (bheap H) x)" using ne inv by (simp add: size_bag nonempty_has_size)
  ultimately show ?thesis by (simp add: hmq_store_top_def updateMin_def)
qed

lemma hmq_push_Some:
  assumes "mq_ok B hinv hbag hs" "0 < length hs" "hmq_push B (length hs) hs x v = Some (hs', x')"
  shows "mq_ok B hinv hbag hs' \<and> others_kept hs hs' \<and> mq_bag hbag hs' = add_mset v (mq_bag hbag hs)"
proof -
  obtain q x1 where d: "rand_heap (length hs) x = (q, x1)" by fastforce
  from assms(3) d obtain hs1 k x2 where l: "lock_loop (rand_heap (length hs)) hs q x1 = Some (hs1, k, x2)"
    by (auto simp: hmq_push_def split: option.splits)
  note below = rand_heap_below [OF assms(2)]
  have k: "k < length hs" "\<not> lck (hs ! k)" "hs1 = locked_at hs k"
    using lock_loop_Some [OF l below draws_belowD [OF below d]] by auto
  have "hinv (bheap ((hs ! k)\<lparr>lck := True\<rparr>))" using mq_ok_nth [OF assms(1) k(1)] by simp
  then have "hs' = hs[k := unlock (updateMin B (foldl (HeapWithLock_push B) ((hs ! k)\<lparr>lck := True\<rparr>) [v]))]"
    using assms(3) d l k hmq_store_top_push by (simp add: hmq_push_def Let_def)
  then show ?thesis using push_batch_section [OF assms(1) k(1,2) refl, of "[v]"] by simp
qed

lemma hmq_push_range_Some:
  "mq_ok B hinv hbag hs \<Longrightarrow> 0 < length hs \<Longrightarrow> hmq_push_range B (length hs) hs x n es = Some (hs', x', n') \<Longrightarrow>
    mq_ok B hinv hbag hs' \<and> others_kept hs hs' \<and> mq_bag hbag hs' = mq_bag hbag hs + mset es \<and>
    n' = n + of_nat (length es)"
proof (induction es arbitrary: hs x n)
  case (Cons e es)
  from Cons.prems(3) obtain hs1 x1 where p: "hmq_push B (length hs) hs x e = Some (hs1, x1)"
    and r: "hmq_push_range B (length hs) hs1 x1 (n + 1) es = Some (hs', x', n')"
    by (auto split: option.splits)
  note one = hmq_push_Some [OF Cons.prems(1,2) p]
  then have len: "length hs1 = length hs" using others_kept_length by blast
  from Cons.IH [of hs1 x1 "n + 1"] one r Cons.prems(2) len show ?case
    using others_kept_trans [of hs hs1 hs'] by simp
qed simp

text \<open>The scan takes from the first heap that is neither locked nor marked by the dummy.\<close>

lemma hmq_scan_cases:
  assumes "mq_ok B hinv hbag hs" "hmq_scan B (length hs) i hs = (r, hs')"
    and "\<forall>k < i. k < length hs \<longrightarrow> lck (hs ! k) \<or> (\<forall>x \<in># hbag (bheap (hs ! k)). t_prior B x = dummy)"
  shows "mq_ok B hinv hbag hs' \<and> others_kept hs hs' \<and>
    (case r of None \<Rightarrow> hs' = hs \<and> all_seen_empty B hbag hs | Some x \<Rightarrow> \<exists>k. takes_min cmp hbag hs hs' k x)"
  using assms(2,3)
proof (induction "length hs - i" arbitrary: i rule: less_induct)
  case less
  show ?case
  proof (cases "i < length hs")
    case False
    then have "k < length hs \<Longrightarrow> k < i" for k by simp
    then have "all_seen_empty B hbag hs" using less.prems(2) by (metis all_seen_empty_def in_set_conv_nth)
    with False less.prems(1) assms(1) show ?thesis by (simp add: hmq_scan.simps [of B "length hs" i])
  next
    case True
    have cache: "\<not> lck (hs ! i) \<Longrightarrow> min_cache B (hbag (bheap (hs ! i))) (hmin (hs ! i))"
      using assms(1) True by (simp add: mq_ok_def hl_ok_def)
    show ?thesis
    proof (cases "isMinDummy (min_at hs i) \<or> lck (hs ! i)")
      case skip: True
      then have "hmq_scan B (length hs) (i + 1) hs = (r, hs')"
        using less.prems(1) True try_lock_at_cases [of hs i]
        by (auto simp: hmq_scan.simps [of B "length hs" i] split: if_splits prod.splits)
      moreover have "lck (hs ! i) \<or> (\<forall>x \<in># hbag (bheap (hs ! i)). t_prior B x = dummy)"
        using skip cache dummy_max
        by (auto simp: isMinDummy_def min_at_def getMin_def min_cache_def order_antisym split: if_splits)
      ultimately show ?thesis using less.hyps [of "i + 1"] less.prems(2) True by (auto simp: less_Suc_eq)
    next
      case take: False
      then have ne: "\<not> HeapWithLock_empty B (hs ! i)"
        using cache empty_iff [OF mq_ok_nth [OF assms(1) True]]
        by (auto simp: isMinDummy_def min_at_def getMin_def min_cache_def)
      obtain v H where e: "ProbProb_extract_min B ((hs ! i)\<lparr>lck := True\<rparr>) = (v, H)" by fastforce
      have "r = v" "hs' = hs[i := H]"
        using less.prems(1) take True ne e
        by (auto simp: hmq_scan.simps [of B "length hs" i] try_lock_at_def try_lock_def hmq_extract_min_eq
            HeapWithLock_empty_def)
      with extract_min_section [OF assms(1) True _ ne e] take show ?thesis by auto
    qed
  qed
qed

lemma hmq_pop_Some:
  assumes "mq_ok B hinv hbag hs" "0 < length hs" "hmq_pop B nT (length hs) hs x = Some (hs', x', r)"
  shows "mq_ok B hinv hbag hs' \<and> others_kept hs hs' \<and>
    (case r of
       None \<Rightarrow> hs' = hs \<and> (if nT \<le> 4 then all_seen_empty B hbag hs else looks_empty (length hs) min_at hs (length hs))
     | Some y \<Rightarrow> \<exists>k. takes_min cmp hbag hs hs' k y \<and>
         (two_choice (length hs) min_at hs (length hs) k \<or> nT \<le> 4 \<and> looks_empty (length hs) min_at hs (length hs)))"
proof -
  from assms(3) obtain hs1 k x1 where
    c: "choose_loop (rand_heap (length hs)) (length hs) min_at hmq_try hs x = Some (hs1, k, x1)"
    by (auto simp: hmq_pop_def split: option.splits)
  from choose_loop_Some [OF c rand_heap_below [OF assms(2)] hmq_try_stays]
  have tc: "two_choice (length hs) min_at hs (length hs) k" and t: "hmq_try hs k = (True, hs1)" by auto
  note k = two_choice_less [OF tc]
  show ?thesis
  proof (cases "isMinDummy (min_at hs k)")
    case True
    then have le: "looks_empty (length hs) min_at hs (length hs)"
      using two_choice_dummy [OF tc] by (simp add: isMinDummy_def)
    have hs1: "hs1 = hs" using t True by (simp add: hmq_try_def)
    obtain v hs2 where s: "hmq_scan B (length hs) 0 hs = (v, hs2)" by fastforce
    note sc = hmq_scan_cases [OF assms(1) s]
    show ?thesis
      using assms(1,3) c True hs1 s sc le by (auto simp: hmq_pop_def hmq_fallback_def split: if_splits option.splits)
  next
    case False
    then have l: "\<not> lck (hs ! k)" "hs1 = locked_at hs k"
      using t by (auto simp: hmq_try_def try_lock_at_cases split: if_splits)
    have "min_cache B (hbag (bheap (hs ! k))) (hmin (hs ! k))" using assms(1) k l(1) by (simp add: mq_ok_def hl_ok_def)
    then have ne: "\<not> HeapWithLock_empty B (hs ! k)"
      using False empty_iff [OF mq_ok_nth [OF assms(1) k]]
      by (auto simp: isMinDummy_def min_at_def getMin_def min_cache_def)
    obtain v H where e: "ProbProb_extract_min B ((hs ! k)\<lparr>lck := True\<rparr>) = (v, H)" by fastforce
    have "r = v" "hs' = hs[k := H]"
      using assms(3) c False ne e l k by (auto simp: hmq_pop_def hmq_extract_min_eq HeapWithLock_empty_def)
    with extract_min_section [OF assms(1) k l(1) ne e] tc show ?thesis by auto
  qed
qed

end

section \<open>HeapMultiQueue\<close>

text \<open>
  \<open>rand_range\<close> of \<open>LockFreeSkipList\<close>: Marsaglia's xorshift on three 64-bit words, then \<open>% r\<close> and plus one. The
  queues use \<open>rand_range(nQ) - 1\<close>.
\<close>

type_synonym seeds = "u64 \<times> u64 \<times> u64"

definition xorshf96 :: "seeds \<Rightarrow> u64 \<times> seeds" where
  "xorshf96 = (\<lambda>(x, y, z).
     let x1 = xor x (push_bit 16 x);
         x2 = xor x1 (drop_bit 5 x1);
         t = xor x2 (push_bit 1 x2);
         z' = xor (xor t y) z
     in (z', (y, z, z')))"

definition rand_range :: "nat \<Rightarrow> seeds \<Rightarrow> nat \<times> seeds" where
  "rand_range r s = (case xorshf96 s of (v, s') \<Rightarrow> (unat v mod r + 1, s'))"

lemma rand_range_code [code]:
  "rand_range r s = (case xorshf96 s of (v, s') \<Rightarrow> (nat (uint v mod int r) + 1, s'))"
  by (simp add: rand_range_def nat_mod_distrib unsigned_of_nat)

definition rand_queue :: "nat \<Rightarrow> seeds \<Rightarrow> nat \<times> seeds" where
  "rand_queue nQ s = (case rand_range nQ s of (i, s') \<Rightarrow> (i - 1, s'))"

record ('a, 'h) hm =
  hm_lock :: bool
  hm_min :: 'a
  hm_heap :: 'h

definition HeapMultiQueue_init :: "('a, 'h) heap_ops \<Rightarrow> 'a \<Rightarrow> nat \<Rightarrow> nat \<Rightarrow> ('a, 'h) hm list" where
  "HeapMultiQueue_init B emptyK c nT =
     replicate (nT * c) \<lparr>hm_lock = False, hm_min = emptyK, hm_heap = h_push B (h_empty B) emptyK\<rparr>"

text \<open>\<open>do { i = rand_range(nQ) - 1; \<dots> } while (!try_lock())\<close>, for any type of lockable thing.\<close>

partial_function (option) free_loop ::
    "('g \<Rightarrow> nat \<times> 'g) \<Rightarrow> ('q \<Rightarrow> bool) \<Rightarrow> ('q \<Rightarrow> 'q) \<Rightarrow> 'q list \<Rightarrow> 'g \<Rightarrow> ('q list \<times> nat \<times> 'g) option" where
  "free_loop rr locked lock qs g =
     (case rr g of (i, g1) \<Rightarrow>
        if \<not> locked (qs ! i) then Some (qs[i := lock (qs ! i)], i, g1)
        else free_loop rr locked lock qs g1)"

definition hm_set_lock :: "bool \<Rightarrow> ('a, 'h) hm \<Rightarrow> ('a, 'h) hm" where
  "hm_set_lock b H = H\<lparr>hm_lock := b\<rparr>"

definition hm_set_min :: "('a, 'h) heap_ops \<Rightarrow> ('a, 'h) hm \<Rightarrow> ('a, 'h) hm" where
  "hm_set_min B H = (case h_top B (hm_heap H) of Some x \<Rightarrow> H\<lparr>hm_min := x\<rparr> | None \<Rightarrow> H)"

definition hm_push ::
    "('a, 'h) heap_ops \<Rightarrow> ('g \<Rightarrow> nat \<times> 'g) \<Rightarrow> ('a, 'h) hm list \<Rightarrow> 'g \<Rightarrow> 'a \<Rightarrow> (('a, 'h) hm list \<times> 'g) option" where
  "hm_push B rr qs g key =
     (case free_loop rr hm_lock (hm_set_lock True) qs g of
        None \<Rightarrow> None
      | Some (qs1, i, g1) \<Rightarrow>
          let H = qs1 ! i; H1 = hm_set_min B (H\<lparr>hm_heap := h_push B (hm_heap H) key\<rparr>)
          in Some (qs1[i := hm_set_lock False H1], g1))"

text \<open>
  The loop of \<open>try_pop\<close>. \<open>continue\<close> on equal indices goes to the loop condition, which tries the lock. The index
  \<open>i\<close> stays the first one drawn when \<open>hi\<close> becomes the second heap.
\<close>

partial_function (option) hm_choose ::
    "('a, 'h) heap_ops \<Rightarrow> ('g \<Rightarrow> nat \<times> 'g) \<Rightarrow> ('a, 'h) hm list \<Rightarrow> 'g \<Rightarrow> (('a, 'h) hm list \<times> nat \<times> nat \<times> 'g) option" where
  "hm_choose B rr qs g =
     (case rr g of (i, g1) \<Rightarrow> case rr g1 of (j, g2) \<Rightarrow>
      let hi = (if i = j then i
                else if t_prior B (hm_min (qs ! i)) > t_prior B (hm_min (qs ! j)) then j else i)
      in if \<not> hm_lock (qs ! hi) then Some (qs[hi := hm_set_lock True (qs ! hi)], i, hi, g2)
         else hm_choose B rr qs g2)"

text \<open>
  The scan after a heap that holds only its sentinel. \<open>lock()\<close> waits: with the lock held by another thread for ever it
  does not return, which is \<open>None\<close>. A heap that is found is left locked.
\<close>

function hm_scan ::
    "('a, 'h) heap_ops \<Rightarrow> 'a \<Rightarrow> nat \<Rightarrow> nat \<Rightarrow> ('a, 'h) hm list \<Rightarrow> (('a, 'h) hm list \<times> nat option) option" where
  "hm_scan B emptyK i j qs =
     (if j < length qs then
        let k = (i + j) mod length qs in
        if t_prior B (hm_min (qs ! k)) = t_prior B emptyK then hm_scan B emptyK i (j + 1) qs
        else if hm_lock (qs ! k) then None
        else
          let qs1 = qs[k := hm_set_lock True (qs ! k)] in
          if h_size B (hm_heap (qs1 ! k)) > 1 then Some (qs1, Some k)
          else hm_scan B emptyK i (j + 1) (qs1[k := hm_set_lock False (qs1 ! k)])
      else Some (qs, None))"
  by pat_completeness auto
termination
  by (relation "measure (\<lambda>(B, e, i, j, qs). length qs - j)") auto

declare hm_scan.simps [simp del]

definition hm_deq :: "('a, 'h) heap_ops \<Rightarrow> ('a, 'h) hm \<Rightarrow> 'a option \<times> ('a, 'h) hm" where
  "hm_deq B H =
     (h_top B (hm_heap H), hm_set_lock False (hm_set_min B (H\<lparr>hm_heap := h_pop B (hm_heap H)\<rparr>)))"

definition hm_try_pop ::
    "('a, 'h) heap_ops \<Rightarrow> 'a \<Rightarrow> ('g \<Rightarrow> nat \<times> 'g) \<Rightarrow> ('a, 'h) hm list \<Rightarrow> 'g \<Rightarrow>
     (('a, 'h) hm list \<times> 'g \<times> 'a option) option" where
  "hm_try_pop B emptyK rr qs g =
     (case hm_choose B rr qs g of
        None \<Rightarrow> None
      | Some (qs1, i, hi, g1) \<Rightarrow>
          if h_size B (hm_heap (qs1 ! hi)) = 1 then
            case hm_scan B emptyK i 1 (qs1[hi := hm_set_lock False (qs1 ! hi)]) of
              None \<Rightarrow> None
            | Some (qs2, None) \<Rightarrow> Some (qs2, g1, None)
            | Some (qs2, Some k) \<Rightarrow> (case hm_deq B (qs2 ! k) of (key, H) \<Rightarrow> Some (qs2[k := H], g1, key))
          else (case hm_deq B (qs1 ! hi) of (key, H) \<Rightarrow> Some (qs1[hi := H], g1, key)))"

section \<open>HeapSwarmPQ\<close>

record 'h swarm =
  sw_lock :: bool
  sw_heap :: 'h

definition HeapSwarmPQ_init :: "('a, 'h) heap_ops \<Rightarrow> nat \<Rightarrow> 'h swarm list" where
  "HeapSwarmPQ_init B nT = replicate nT \<lparr>sw_lock = False, sw_heap = h_empty B\<rparr>"

definition sw_set_lock :: "bool \<Rightarrow> 'h swarm \<Rightarrow> 'h swarm" where
  "sw_set_lock b H = H\<lparr>sw_lock := b\<rparr>"

definition swarm_push ::
    "('a, 'h) heap_ops \<Rightarrow> ('g \<Rightarrow> nat \<times> 'g) \<Rightarrow> 'h swarm list \<Rightarrow> 'g \<Rightarrow> 'a \<Rightarrow> ('h swarm list \<times> 'g) option" where
  "swarm_push B rr qs g key =
     (case free_loop rr sw_lock (sw_set_lock True) qs g of
        None \<Rightarrow> None
      | Some (qs1, tid, g1) \<Rightarrow>
          let H = (qs1 ! tid)\<lparr>sw_heap := h_push B (sw_heap (qs1 ! tid)) key\<rparr>
          in Some (qs1[tid := sw_set_lock False H], g1))"

definition swarm_try_pop ::
    "('a, 'h) heap_ops \<Rightarrow> nat \<Rightarrow> 'h swarm list \<Rightarrow> ('h swarm list \<times> 'a option) option" where
  "swarm_try_pop B tid qs =
     (if sw_lock (qs ! tid) then None
      else
        let H = sw_set_lock True (qs ! tid) in
        if h_size B (sw_heap H) \<noteq> 0 then
          Some (qs[tid := sw_set_lock False (H\<lparr>sw_heap := h_pop B (sw_heap H)\<rparr>)], h_top B (sw_heap H))
        else Some (qs[tid := sw_set_lock False H], None))"

section \<open>The retry loops\<close>

definition draws_in :: "('g \<Rightarrow> nat \<times> 'g) \<Rightarrow> nat \<Rightarrow> bool" where
  "draws_in rr N \<longleftrightarrow> (\<forall>g. fst (rr g) < N)"

lemma draws_inD: "draws_in rr N \<Longrightarrow> rr g = (i, g') \<Longrightarrow> i < N"
  by (metis draws_in_def fst_conv)

lemma rand_queue_in: "0 < nQ \<Longrightarrow> draws_in (rand_queue nQ) nQ"
  by (auto simp: draws_in_def rand_queue_def rand_range_def split: prod.splits)

lemma free_loop_Some:
  assumes "free_loop rr locked lock qs g = Some (qs', k, g')" "draws_in rr N"
  shows "k < N \<and> \<not> locked (qs ! k) \<and> qs' = qs[k := lock (qs ! k)]"
proof -
  have "draws_in rr N \<longrightarrow> (case r of (qs', k, g') \<Rightarrow> k < N \<and> \<not> locked (qs ! k) \<and> qs' = qs[k := lock (qs ! k)])"
    if "free_loop rr locked lock qs g = Some r" for r
  proof (rule free_loop.raw_induct [OF _ that], goal_cases)
    case (1 loop rr locked lock qs g r)
    obtain i g1 where d: "rr g = (i, g1)" by fastforce
    show ?case
    proof (cases "locked (qs ! i)")
      case True
      then show ?thesis using 1(1) [of rr locked lock qs g1 r] 1(2) d by simp
    next
      case False
      then show ?thesis using 1(2) d by (auto dest: draws_inD)
    qed
  qed
  from this [OF assms(1)] assms(2) show ?thesis by simp
qed

lemma free_loop_unlocked:
  assumes "\<forall>q \<in> set qs. \<not> locked q" "draws_in rr (length qs)"
  shows "\<exists>r. free_loop rr locked lock qs g = Some r"
proof -
  obtain i g1 where d: "rr g = (i, g1)" by fastforce
  then have "\<not> locked (qs ! i)" using assms draws_inD nth_mem by metis
  then show ?thesis by (subst free_loop.simps) (simp add: d)
qed

lemma hm_choose_Some:
  assumes "hm_choose B rr qs g = Some (qs', i, k, g')" "draws_in rr N"
  shows "i < N \<and> k < N \<and> \<not> hm_lock (qs ! k) \<and> qs' = qs[k := hm_set_lock True (qs ! k)] \<and>
    t_prior B (hm_min (qs ! k)) \<le> t_prior B (hm_min (qs ! i)) \<and>
    (k \<noteq> i \<longrightarrow> t_prior B (hm_min (qs ! k)) < t_prior B (hm_min (qs ! i)))"
proof -
  have "draws_in rr N \<longrightarrow> (case r of (qs', i, k, g') \<Rightarrow>
      i < N \<and> k < N \<and> \<not> hm_lock (qs ! k) \<and> qs' = qs[k := hm_set_lock True (qs ! k)] \<and>
      t_prior B (hm_min (qs ! k)) \<le> t_prior B (hm_min (qs ! i)) \<and>
      (k \<noteq> i \<longrightarrow> t_prior B (hm_min (qs ! k)) < t_prior B (hm_min (qs ! i))))"
    if "hm_choose B rr qs g = Some r" for r
  proof (rule hm_choose.raw_induct [OF _ that], goal_cases)
    case (1 loop B rr qs g r)
    obtain i g1 j g2 where d: "rr g = (i, g1)" "rr g1 = (j, g2)" by fastforce
    define h where "h = (if i = j then i else if t_prior B (hm_min (qs ! i)) > t_prior B (hm_min (qs ! j)) then j else i)"
    show ?case
    proof (cases "hm_lock (qs ! h)")
      case True
      then show ?thesis using 1(1) [of B rr qs g2 r] 1(2) d by (simp add: h_def)
    next
      case False
      then have "r = (qs[h := hm_set_lock True (qs ! h)], i, h, g2)" using 1(2) d by (auto simp: h_def Let_def split: if_splits)
      moreover have "draws_in rr N \<longrightarrow> i < N \<and> j < N" using d by (auto dest: draws_inD)
      ultimately show ?thesis using False by (auto simp: h_def)
    qed
  qed
  from this [OF assms(1)] assms(2) show ?thesis by simp
qed

section \<open>What HeapMultiQueue does\<close>

text \<open>
  Every heap holds its sentinel besides its tasks, whose priorities stay below the sentinel's; the minimum of an
  unlocked heap is right. \<open>hm_tasks\<close> are the tasks of a heap.
\<close>

definition hm_tasks :: "('h \<Rightarrow> 'a multiset) \<Rightarrow> 'a \<Rightarrow> ('a, 'h) hm \<Rightarrow> 'a multiset" where
  "hm_tasks hbag emptyK H = hbag (hm_heap H) - {#emptyK#}"

definition hm_ok ::
    "('a \<Rightarrow> 'a \<Rightarrow> bool) \<Rightarrow> ('a, 'h) heap_ops \<Rightarrow> ('h \<Rightarrow> bool) \<Rightarrow> ('h \<Rightarrow> 'a multiset) \<Rightarrow> 'a \<Rightarrow> ('a, 'h) hm \<Rightarrow> bool" where
  "hm_ok cmp B hinv hbag emptyK H \<longleftrightarrow>
     hinv (hm_heap H) \<and> emptyK \<in># hbag (hm_heap H) \<and>
     (\<forall>x \<in># hm_tasks hbag emptyK H. t_prior B x < t_prior B emptyK) \<and>
     (\<not> hm_lock H \<longrightarrow> hm_min H \<in># hbag (hm_heap H) \<and> (\<forall>y \<in># hbag (hm_heap H). \<not> cmp (hm_min H) y))"

definition hm_kept :: "('a, 'h) hm list \<Rightarrow> ('a, 'h) hm list \<Rightarrow> bool" where
  "hm_kept qs qs' \<longleftrightarrow> length qs' = length qs \<and>
     (\<forall>i < length qs. hm_lock (qs' ! i) = hm_lock (qs ! i) \<and> (hm_lock (qs ! i) \<longrightarrow> qs' ! i = qs ! i))"

lemma hm_kept_update:
  "k < length qs \<Longrightarrow> \<not> hm_lock (qs ! k) \<Longrightarrow> \<not> hm_lock H \<Longrightarrow> hm_kept qs (qs[k := H])"
  by (auto simp: hm_kept_def nth_list_update)

lemma hm_unlock_lock [simp]: "\<not> hm_lock H \<Longrightarrow> hm_set_lock False (hm_set_lock True H) = H"
  by (cases H) (simp add: hm_set_lock_def)

lemma hm_set_lock_fields [simp]:
  "hm_lock (hm_set_lock b H) = b" "hm_min (hm_set_lock b H) = hm_min H" "hm_heap (hm_set_lock b H) = hm_heap H"
  by (simp_all add: hm_set_lock_def)

text \<open>\<open>hm_takes\<close>: the task is a minimum of heap \<open>k\<close>, which loses just it.\<close>

definition hm_takes ::
    "('a \<Rightarrow> 'a \<Rightarrow> bool) \<Rightarrow> ('h \<Rightarrow> 'a multiset) \<Rightarrow> 'a \<Rightarrow> ('a, 'h) hm list \<Rightarrow> ('a, 'h) hm list \<Rightarrow> nat \<Rightarrow> 'a \<Rightarrow> bool" where
  "hm_takes cmp hbag emptyK qs qs' k x \<longleftrightarrow> k < length qs \<and> \<not> hm_lock (qs ! k) \<and>
     (\<forall>y \<in># hm_tasks hbag emptyK (qs ! k). \<not> cmp x y) \<and>
     hm_tasks hbag emptyK (qs ! k) = add_mset x (hm_tasks hbag emptyK (qs' ! k)) \<and>
     (\<forall>i < length qs. i \<noteq> k \<longrightarrow> qs' ! i = qs ! i)"

text \<open>The scan of \<open>try_pop\<close> visits every index but the one it starts from.\<close>

lemma scan_visits:
  assumes "k < n" "i < (n :: nat)" "k \<noteq> i"
  shows "\<exists>j. 1 \<le> j \<and> j < n \<and> k = (i + j) mod n"
proof (cases "i < k")
  case True
  then show ?thesis using assms by (intro exI [of _ "k - i"]) auto
next
  case False
  then have "i + (n - i + k) = n + k" using assms by simp
  then show ?thesis using assms False by (intro exI [of _ "n - i + k"]) auto
qed

context task_heap
begin

lemma hm_set_min_ok:
  assumes "hinv (hm_heap H)" "emptyK \<in># hbag (hm_heap H)" "\<forall>x \<in># hm_tasks hbag emptyK H. t_prior B x < t_prior B emptyK"
  shows "hm_ok cmp B hinv hbag emptyK (hm_set_lock False (hm_set_min B H))"
proof -
  have "hbag (hm_heap H) \<noteq> {#}" using assms(2) by auto
  then obtain y where y: "h_top B (hm_heap H) = Some y" using top_Some [OF assms(1)] by blast
  then show ?thesis using assms top_in [OF assms(1) y] top_min [OF assms(1) y]
    by (simp add: hm_ok_def hm_tasks_def hm_set_lock_def hm_set_min_def)
qed

lemma hm_push_ok:
  assumes "hm_ok cmp B hinv hbag emptyK H" "t_prior B x < t_prior B emptyK"
    and H': "H' = hm_set_lock False (hm_set_min B (H\<lparr>hm_heap := h_push B (hm_heap H) x\<rparr>))"
  shows "hm_ok cmp B hinv hbag emptyK H'" "hm_tasks hbag emptyK H' = add_mset x (hm_tasks hbag emptyK H)"
proof -
  have inv: "hinv (hm_heap H)" and e: "emptyK \<in># hbag (hm_heap H)" using assms(1) by (auto simp: hm_ok_def)
  have bag: "hbag (h_push B (hm_heap H) x) = add_mset x (hbag (hm_heap H))" by (rule push_bag [OF inv])
  then have t: "hm_tasks hbag emptyK (H\<lparr>hm_heap := h_push B (hm_heap H) x\<rparr>) = add_mset x (hm_tasks hbag emptyK H)"
    using e by (simp add: hm_tasks_def)
  show "hm_ok cmp B hinv hbag emptyK H'"
    unfolding H' using assms(1,2) t bag push_inv [OF inv] by (intro hm_set_min_ok) (auto simp: hm_ok_def)
  show "hm_tasks hbag emptyK H' = add_mset x (hm_tasks hbag emptyK H)"
    unfolding t [symmetric] H' by (simp add: hm_tasks_def hm_set_lock_def hm_set_min_def split: option.splits)
qed

lemma hm_deq_ok:
  assumes "hm_ok cmp B hinv hbag emptyK H" "h_size B (hm_heap H) > 1" "hm_deq B H = (r, H')"
  shows "\<exists>x. r = Some x \<and> hm_tasks hbag emptyK H = add_mset x (hm_tasks hbag emptyK H') \<and>
    (\<forall>y \<in># hm_tasks hbag emptyK H. \<not> cmp x y)" "hm_ok cmp B hinv hbag emptyK H'" "\<not> hm_lock H'"
proof -
  have inv: "hinv (hm_heap H)" and e: "emptyK \<in># hbag (hm_heap H)"
    and small: "\<forall>x \<in># hm_tasks hbag emptyK H. t_prior B x < t_prior B emptyK" using assms(1) by (auto simp: hm_ok_def)
  obtain ts where ts: "hbag (hm_heap H) = add_mset emptyK ts" using e by (rule mset_add)
  then have tasks: "hm_tasks hbag emptyK H = ts" by (simp add: hm_tasks_def)
  have "ts \<noteq> {#}" using assms(2) ts by (auto simp: size_bag [OF inv])
  then obtain y where y: "y \<in># ts" by (auto dest: multiset_nonemptyE)
  obtain x where x: "h_top B (hm_heap H) = Some x" using top_Some [OF inv] ts by force
  have ne: "x \<noteq> emptyK"
  proof
    assume "x = emptyK"
    moreover have "t_prior B y < t_prior B emptyK" using small y tasks by simp
    ultimately show False using top_prior [OF inv x, of y] ts y by auto
  qed
  let ?H = "H\<lparr>hm_heap := h_pop B (hm_heap H)\<rparr>"
  have pop: "add_mset emptyK ts = add_mset x (hbag (h_pop B (hm_heap H)))" using pop_bag [OF inv x] ts by simp
  then obtain us where us: "ts = add_mset x us" "hbag (h_pop B (hm_heap H)) = add_mset emptyK us"
    using ne by (auto simp: add_eq_conv_ex)
  have H': "r = Some x" "H' = hm_set_lock False (hm_set_min B ?H)" using assms(3) x by (simp_all add: hm_deq_def)
  have t': "hm_tasks hbag emptyK H' = us"
    using us by (simp add: H' hm_tasks_def hm_set_lock_def hm_set_min_def split: option.splits)
  show "\<exists>x. r = Some x \<and> hm_tasks hbag emptyK H = add_mset x (hm_tasks hbag emptyK H') \<and>
      (\<forall>y \<in># hm_tasks hbag emptyK H. \<not> cmp x y)"
    using H' us t' tasks top_min [OF inv x] ts by auto
  show "hm_ok cmp B hinv hbag emptyK H'" unfolding H'(2)
    using pop_inv [OF inv x] us small tasks by (intro hm_set_min_ok) (auto simp: hm_tasks_def)
  show "\<not> hm_lock H'" by (simp add: H' hm_set_lock_def)
qed

lemma hm_ok_set_lock: "hm_ok cmp B hinv hbag emptyK H \<Longrightarrow> hm_ok cmp B hinv hbag emptyK (hm_set_lock True H)"
  by (simp add: hm_ok_def hm_set_lock_def hm_tasks_def)

lemma hm_only_sentinel:
  assumes "hm_ok cmp B hinv hbag emptyK H" "\<not> hm_lock H"
  shows "h_size B (hm_heap H) \<le> 1 \<longleftrightarrow> hm_tasks hbag emptyK H = {#}"
    "t_prior B (hm_min H) = t_prior B emptyK \<longleftrightarrow> hm_tasks hbag emptyK H = {#}" "h_size B (hm_heap H) \<noteq> 0"
proof -
  have inv: "hinv (hm_heap H)" and e: "emptyK \<in># hbag (hm_heap H)"
    and small: "\<forall>x \<in># hm_tasks hbag emptyK H. t_prior B x < t_prior B emptyK"
    and mn: "hm_min H \<in># hbag (hm_heap H)" "\<forall>y \<in># hbag (hm_heap H). \<not> cmp (hm_min H) y"
    using assms by (auto simp: hm_ok_def)
  obtain ts where ts: "hbag (hm_heap H) = add_mset emptyK ts" using e by (rule mset_add)
  then have tasks: "hm_tasks hbag emptyK H = ts" by (simp add: hm_tasks_def)
  show "h_size B (hm_heap H) \<le> 1 \<longleftrightarrow> hm_tasks hbag emptyK H = {#}" "h_size B (hm_heap H) \<noteq> 0"
    using ts tasks by (auto simp: size_bag [OF inv])
  show "t_prior B (hm_min H) = t_prior B emptyK \<longleftrightarrow> hm_tasks hbag emptyK H = {#}"
  proof
    assume eq: "t_prior B (hm_min H) = t_prior B emptyK"
    show "hm_tasks hbag emptyK H = {#}"
    proof (rule ccontr)
      assume "hm_tasks hbag emptyK H \<noteq> {#}"
      then obtain y where "y \<in># ts" using tasks by (auto dest: multiset_nonemptyE)
      then have "t_prior B y < t_prior B emptyK" "t_prior B (hm_min H) \<le> t_prior B y"
        using small tasks mn(2) ts min_prior by auto
      with eq show False by simp
    qed
  qed (use mn(1) ts tasks in auto)
qed

lemma hm_push_Some:
  assumes ok: "\<forall>i < length qs. hm_ok cmp B hinv hbag emptyK (qs ! i)" and rr: "draws_in rr (length qs)"
    and key: "t_prior B key < t_prior B emptyK" and push: "hm_push B rr qs g key = Some (qs', g')"
  shows "(\<forall>i < length qs'. hm_ok cmp B hinv hbag emptyK (qs' ! i)) \<and> hm_kept qs qs' \<and>
    bags (hm_tasks hbag emptyK) qs' = add_mset key (bags (hm_tasks hbag emptyK) qs)"
proof -
  from push obtain qs1 k where f: "free_loop rr hm_lock (hm_set_lock True) qs g = Some (qs1, k, g')"
    by (auto simp: hm_push_def Let_def split: option.splits)
  note k = free_loop_Some [OF f rr]
  let ?L = "hm_set_lock True (qs ! k)"
  let ?H = "hm_set_lock False (hm_set_min B (?L\<lparr>hm_heap := h_push B (hm_heap ?L) key\<rparr>))"
  have qs': "qs' = qs[k := ?H]" using push f k by (simp add: hm_push_def Let_def)
  have "hm_ok cmp B hinv hbag emptyK ?L" using ok k by (simp add: hm_ok_set_lock)
  note p = hm_push_ok [OF this key refl]
  have "hm_tasks hbag emptyK ?L = hm_tasks hbag emptyK (qs ! k)" by (simp add: hm_tasks_def)
  then show ?thesis
    using k p all_upd [OF ok p(1), of k] hm_kept_update [of k qs ?H]
      bags_update_add [of k qs "hm_tasks hbag emptyK" ?H "{#key#}"]
    by (simp add: qs')
qed

lemma hm_scan_Some:
  assumes ok: "\<forall>i < length qs. hm_ok cmp B hinv hbag emptyK (qs ! i)"
    and scan: "hm_scan B emptyK i j qs = Some (qs', r)"
    and seen: "\<forall>j'. 1 \<le> j' \<longrightarrow> j' < j \<longrightarrow> j' < length qs \<longrightarrow>
      hm_lock (qs ! ((i + j') mod length qs)) \<or> hm_tasks hbag emptyK (qs ! ((i + j') mod length qs)) = {#}"
  shows "case r of
      None \<Rightarrow> qs' = qs \<and> (\<forall>j'. 1 \<le> j' \<longrightarrow> j' < length qs \<longrightarrow>
        hm_lock (qs ! ((i + j') mod length qs)) \<or> hm_tasks hbag emptyK (qs ! ((i + j') mod length qs)) = {#})
    | Some k \<Rightarrow> k < length qs \<and> \<not> hm_lock (qs ! k) \<and> qs' = qs[k := hm_set_lock True (qs ! k)] \<and> h_size B (hm_heap (qs ! k)) > 1"
  using scan seen
proof (induction "length qs - j" arbitrary: j rule: less_induct)
  case less
  show ?case
  proof (cases "j < length qs")
    case False
    then show ?thesis using less.prems by (auto simp: hm_scan.simps [of B emptyK i j])
  next
    case True
    define k where "k = (i + j) mod length qs"
    have k: "k < length qs" unfolding k_def by (rule mod_less_divisor) (use True in linarith)
    then have okk: "hm_ok cmp B hinv hbag emptyK (qs ! k)" using ok by simp
    show ?thesis
    proof (cases "t_prior B (hm_min (qs ! k)) = t_prior B emptyK \<or> \<not> h_size B (hm_heap (qs ! k)) > 1 \<and> \<not> hm_lock (qs ! k)")
      case skip: True
      then have s: "hm_scan B emptyK i (j + 1) qs = Some (qs', r)"
        using less.prems(1) True k
        by (auto simp: hm_scan.simps [of B emptyK i j] Let_def k_def [symmetric] split: if_splits)
      have "hm_lock (qs ! k) \<or> hm_tasks hbag emptyK (qs ! k) = {#}"
        using skip hm_only_sentinel [OF okk] by auto
      then show ?thesis using less.hyps [OF _ s] less.prems(2) True by (auto simp: k_def less_Suc_eq)
    next
      case False
      then have "r = Some k" "qs' = qs[k := hm_set_lock True (qs ! k)]" "\<not> hm_lock (qs ! k)"
        "h_size B (hm_heap (qs ! k)) > 1"
        using less.prems(1) True k
        by (auto simp: hm_scan.simps [of B emptyK i j] Let_def k_def [symmetric] split: if_splits)
      then show ?thesis using k by simp
    qed
  qed
qed

lemma hm_deq_section:
  assumes ok: "\<forall>i < length qs. hm_ok cmp B hinv hbag emptyK (qs ! i)" and k: "k < length qs" "\<not> hm_lock (qs ! k)"
    and sz: "h_size B (hm_heap (qs ! k)) > 1" and deq: "hm_deq B (hm_set_lock True (qs ! k)) = (r, H)"
  shows "(\<forall>i < length qs. hm_ok cmp B hinv hbag emptyK (qs[k := H] ! i)) \<and> hm_kept qs (qs[k := H]) \<and>
    (\<exists>x. r = Some x \<and> hm_takes cmp hbag emptyK qs (qs[k := H]) k x \<and>
      bags (hm_tasks hbag emptyK) qs = add_mset x (bags (hm_tasks hbag emptyK) (qs[k := H])))"
proof -
  have "hm_ok cmp B hinv hbag emptyK (hm_set_lock True (qs ! k))" using ok k by (simp add: hm_ok_set_lock)
  from hm_deq_ok [OF this _ deq] sz obtain x where x: "r = Some x"
    "hm_tasks hbag emptyK (qs ! k) = add_mset x (hm_tasks hbag emptyK H)"
    "\<forall>y \<in># hm_tasks hbag emptyK (qs ! k). \<not> cmp x y" and H: "hm_ok cmp B hinv hbag emptyK H" "\<not> hm_lock H"
    by (auto simp: hm_tasks_def)
  have "bags (hm_tasks hbag emptyK) qs = add_mset x (bags (hm_tasks hbag emptyK) (qs[k := H]))"
    using bags_update_sub [of k qs "hm_tasks hbag emptyK" H "{#x#}"] k x(2) by simp
  then show ?thesis using all_upd [OF ok H(1), of k] hm_kept_update [OF k H(2)] x k by (simp add: hm_takes_def)
qed

lemma hm_try_pop_Some:
  assumes ok: "\<forall>i < length qs. hm_ok cmp B hinv hbag emptyK (qs ! i)" and rr: "draws_in rr (length qs)"
    and e: "t_prior B emptyK = dummy" and pop: "hm_try_pop B emptyK rr qs g = Some (qs', g', r)"
  shows "(\<forall>i < length qs. hm_ok cmp B hinv hbag emptyK (qs' ! i)) \<and> hm_kept qs qs' \<and>
    (case r of
       None \<Rightarrow> qs' = qs \<and> (\<forall>k < length qs. hm_lock (qs ! k) \<or> hm_tasks hbag emptyK (qs ! k) = {#})
     | Some x \<Rightarrow> bags (hm_tasks hbag emptyK) qs = add_mset x (bags (hm_tasks hbag emptyK) qs') \<and>
         (\<exists>k. hm_takes cmp hbag emptyK qs qs' k x))"
proof -
  from pop obtain qs1 i k g1 where c: "hm_choose B rr qs g = Some (qs1, i, k, g1)"
    by (auto simp: hm_try_pop_def split: option.splits)
  note k = hm_choose_Some [OF c rr]
  then have kk: "k < length qs" "\<not> hm_lock (qs ! k)" "i < length qs" "qs1 = qs[k := hm_set_lock True (qs ! k)]" by auto
  then have okk: "hm_ok cmp B hinv hbag emptyK (qs ! k)" using ok by simp
  show ?thesis
  proof (cases "h_size B (hm_heap (qs ! k)) = 1")
    case False
    obtain v H where d: "hm_deq B (hm_set_lock True (qs ! k)) = (v, H)" by fastforce
    have "r = v" "qs' = qs[k := H]" using pop c kk False d by (simp_all add: hm_try_pop_def)
    with hm_deq_section [OF ok kk(1,2) _ d] False hm_only_sentinel(3) [OF okk kk(2)] show ?thesis by auto
  next
    case True
    then have et: "hm_tasks hbag emptyK (qs ! k) = {#}" using hm_only_sentinel(1) [OF okk kk(2)] by simp
    then have "t_prior B (hm_min (qs ! k)) = dummy" using hm_only_sentinel(2) [OF okk kk(2)] e by simp
    then have ki: "k = i" using k dummy_max [of "t_prior B (hm_min (qs ! i))"] by (auto simp: not_less)
    from pop c kk True obtain qs2 v where s: "hm_scan B emptyK i 1 qs = Some (qs2, v)"
      by (auto simp: hm_try_pop_def split: option.splits)
    note sc = hm_scan_Some [OF ok s]
    show ?thesis
    proof (cases v)
      case None
      then have "qs' = qs" "r = None" using pop c kk True s sc by (auto simp: hm_try_pop_def)
      moreover have "hm_lock (qs ! m) \<or> hm_tasks hbag emptyK (qs ! m) = {#}" if "m < length qs" for m
        using scan_visits [OF that kk(3)] sc None et ki by (cases "m = i") auto
      ultimately show ?thesis using ok by (simp add: hm_kept_def)
    next
      case (Some m)
      then have m: "m < length qs" "\<not> hm_lock (qs ! m)" "qs2 = qs[m := hm_set_lock True (qs ! m)]"
        "h_size B (hm_heap (qs ! m)) > 1" using sc by auto
      obtain w H where d: "hm_deq B (hm_set_lock True (qs ! m)) = (w, H)" by fastforce
      have "r = w" "qs' = qs[m := H]" using pop c kk True s Some m d by (auto simp: hm_try_pop_def)
      with hm_deq_section [OF ok m(1,2,4) d] show ?thesis by auto
    qed
  qed
qed

end

text \<open>With no lock held by another thread, both operations return.\<close>

lemma hm_scan_returns:
  "\<forall>q \<in> set qs. \<not> hm_lock q \<Longrightarrow> \<exists>r. hm_scan B emptyK i j qs = Some r"
proof (induction "length qs - j" arbitrary: j rule: less_induct)
  case less
  show ?case
  proof (cases "j < length qs")
    case True
    define k where "k = (i + j) mod length qs"
    have k: "k < length qs" unfolding k_def by (rule mod_less_divisor) (use True in linarith)
    then have "\<not> hm_lock (qs ! k)" using less.prems by simp
    then show ?thesis using less.hyps [of "j + 1"] less.prems True k
      by (subst hm_scan.simps) (simp add: Let_def k_def [symmetric])
  qed (subst hm_scan.simps, simp)
qed

lemma hm_choose_unlocked:
  assumes "\<forall>q \<in> set qs. \<not> hm_lock q" "draws_in rr (length qs)"
  shows "\<exists>i k g'. hm_choose B rr qs g = Some (qs[k := hm_set_lock True (qs ! k)], i, k, g')"
proof -
  obtain i g1 j g2 where d: "rr g = (i, g1)" "rr g1 = (j, g2)" by fastforce
  then have "i < length qs" "j < length qs" using draws_inD [OF assms(2)] by auto
  then have "\<not> hm_lock (qs ! i)" "\<not> hm_lock (qs ! j)" using assms(1) by (simp_all add: nth_mem)
  then show ?thesis by (subst hm_choose.simps) (auto simp: d Let_def)
qed

lemma hm_try_pop_returns:
  assumes "\<forall>q \<in> set qs. \<not> hm_lock q" "draws_in rr (length qs)"
  shows "\<exists>r. hm_try_pop B emptyK rr qs g = Some r"
proof -
  obtain i k g' where c: "hm_choose B rr qs g = Some (qs[k := hm_set_lock True (qs ! k)], i, k, g')"
    using hm_choose_unlocked [OF assms] by blast
  have k: "k < length qs" "\<not> hm_lock (qs ! k)" using hm_choose_Some [OF c assms(2)] by auto
  obtain r where "hm_scan B emptyK i 1 qs = Some r" using hm_scan_returns [OF assms(1)] by blast
  then show ?thesis using c k by (cases r) (auto simp: hm_try_pop_def split: option.splits prod.splits)
qed

section \<open>What HeapSwarmPQ does\<close>

lemma swarm_push_Some:
  assumes "task_heap cmp B hinv hbag" "\<forall>q \<in> set qs. hinv (sw_heap q)" "draws_in rr (length qs)"
    and "swarm_push B rr qs g key = Some (qs', g')"
  shows "(\<forall>q \<in> set qs'. hinv (sw_heap q)) \<and> length qs' = length qs \<and> map sw_lock qs' = map sw_lock qs \<and>
    bags (\<lambda>q. hbag (sw_heap q)) qs' = add_mset key (bags (\<lambda>q. hbag (sw_heap q)) qs)"
proof -
  from assms(4) obtain qs1 k where f: "free_loop rr sw_lock (sw_set_lock True) qs g = Some (qs1, k, g')"
    by (auto simp: swarm_push_def Let_def split: option.splits)
  note k = free_loop_Some [OF f assms(3)]
  let ?H = "sw_set_lock False ((sw_set_lock True (qs ! k))\<lparr>sw_heap := h_push B (sw_heap (qs ! k)) key\<rparr>)"
  have qs': "qs' = qs[k := ?H]" using assms(4) f k by (simp add: swarm_push_def Let_def sw_set_lock_def)
  have inv: "hinv (sw_heap (qs ! k))" using assms(2) k by simp
  note p = task_heap.push_inv [OF assms(1) inv, of key] task_heap.push_bag [OF assms(1) inv, of key]
  have "map sw_lock qs' = map sw_lock qs"
    using k by (simp add: qs' map_update sw_set_lock_def list_update_same_conv)
  moreover have "\<forall>q \<in> set qs'. hinv (sw_heap q)"
    using assms(2) p(1) set_update_subset_insert [of qs k ?H] by (auto simp: qs' sw_set_lock_def)
  ultimately show ?thesis
    using bags_update_add [of k qs "\<lambda>q. hbag (sw_heap q)" ?H "{#key#}"] k p(2) by (simp add: qs' sw_set_lock_def)
qed

lemma swarm_try_pop_Some:
  assumes "task_heap cmp B hinv hbag" "\<forall>q \<in> set qs. hinv (sw_heap q)" "tid < length qs"
    and "swarm_try_pop B tid qs = Some (qs', r)"
  shows "(\<forall>q \<in> set qs'. hinv (sw_heap q)) \<and> map sw_lock qs' = map sw_lock qs \<and>
    (case r of None \<Rightarrow> qs' = qs \<and> hbag (sw_heap (qs ! tid)) = {#}
     | Some x \<Rightarrow> (\<forall>y \<in># hbag (sw_heap (qs ! tid)). \<not> cmp x y) \<and>
         bags (\<lambda>q. hbag (sw_heap q)) qs = add_mset x (bags (\<lambda>q. hbag (sw_heap q)) qs'))"
proof -
  have inv: "hinv (sw_heap (qs ! tid))" using assms(2,3) by simp
  have free: "\<not> sw_lock (qs ! tid)" using assms(4) by (auto simp: swarm_try_pop_def split: if_splits)
  have id: "qs[tid := (qs ! tid)\<lparr>sw_lock := False\<rparr>] = qs"
    using free by (cases "qs ! tid") (simp add: list_update_same_conv assms(3))
  show ?thesis
  proof (cases "hbag (sw_heap (qs ! tid)) = {#}")
    case True
    then have "r = None" "qs' = qs"
      using assms(4) free id task_heap.size_bag [OF assms(1) inv]
      by (auto simp: swarm_try_pop_def Let_def sw_set_lock_def intro: list_update_same_conv [THEN iffD2])
    with True assms(2) show ?thesis by simp
  next
    case False
    then obtain x where x: "h_top B (sw_heap (qs ! tid)) = Some x" using task_heap.top_Some [OF assms(1) inv] by blast
    let ?H = "sw_set_lock False ((sw_set_lock True (qs ! tid))\<lparr>sw_heap := h_pop B (sw_heap (qs ! tid))\<rparr>)"
    have r: "r = Some x" "qs' = qs[tid := ?H]"
      using assms(4) free False x task_heap.size_bag [OF assms(1) inv]
      by (auto simp: swarm_try_pop_def Let_def sw_set_lock_def nonempty_has_size [symmetric])
    note p = task_heap.pop_inv [OF assms(1) inv x] task_heap.pop_bag [OF assms(1) inv x]
    have "map sw_lock qs' = map sw_lock qs"
      using free assms(3) by (simp add: r map_update sw_set_lock_def list_update_same_conv)
    moreover have "\<forall>q \<in> set qs'. hinv (sw_heap q)"
      using assms(2) p(1) set_update_subset_insert [of qs tid ?H] by (auto simp: r sw_set_lock_def)
    ultimately show ?thesis
      using bags_update_sub [of tid qs "\<lambda>q. hbag (sw_heap q)" ?H "{#x#}"] assms(3) p(2)
        task_heap.top_min [OF assms(1) inv x] by (simp add: r sw_set_lock_def)
  qed
qed

section \<open>Properties\<close>

text \<open>
  \<open>pop\<close> of \<open>MyHMQ\<close>, whenever it returns a task, has removed one minimum of one heap. With at most four
  threads it returns nothing only after it has seen every heap: each one is locked by another thread or holds no task of
  a priority below the dummy.
\<close>

theorem MyHMQ_pop_correct:
  assumes "task_heap cmp B hinv hbag" "mq_ok B hinv hbag hs" "0 < length hs"
    and "hmq_pop B nT (length hs) hs x = Some (hs', x', r)"
  shows "mq_ok B hinv hbag hs' \<and> others_kept hs hs' \<and>
    (case r of
       None \<Rightarrow> hs' = hs \<and> (if nT \<le> 4 then all_seen_empty B hbag hs else looks_empty (length hs) min_at hs (length hs))
     | Some y \<Rightarrow> mq_bag hbag hs = add_mset y (mq_bag hbag hs') \<and> (\<exists>k. takes_min cmp hbag hs hs' k y))"
  using task_heap.hmq_pop_Some [OF assms] takes_min_bag others_kept_length by (fastforce split: option.splits)

theorem MyHMQ_pop_correct_witness:
  "\<exists>hs' x'. hmq_pop req_heap 1 2 (req_heaps [UpdateRequest 1 4, UpdateRequest 2 3]) 1 = Some (hs', x', Some (UpdateRequest 2 3)) \<and>
     mq_bag req_bag (req_heaps [UpdateRequest 1 4, UpdateRequest 2 3]) = add_mset (UpdateRequest 2 3) (mq_bag req_bag hs')"
proof -
  let ?hs = "req_heaps [UpdateRequest 1 4, UpdateRequest 2 3]"
  have "map_option (\<lambda>(hs', x', r). r) (hmq_pop req_heap 1 2 ?hs 1) = Some (Some (UpdateRequest 2 3))" by code_simp
  then obtain hs' x' where r: "hmq_pop req_heap 1 2 ?hs 1 = Some (hs', x', Some (UpdateRequest 2 3))" by auto
  then have "mq_bag req_bag ?hs = add_mset (UpdateRequest 2 3) (mq_bag req_bag hs')"
    using MyHMQ_pop_correct [OF req.task_heap_axioms req_heaps_ok(1), of "[UpdateRequest 1 4, UpdateRequest 2 3]" 1 1 hs' x'
        "Some (UpdateRequest 2 3)"] req_heaps_ok(3) by simp
  with r show ?thesis by blast
qed

text \<open>
  \<open>push\<close> of a range to \<open>MyHMQ\<close> adds exactly the tasks of the range.
\<close>

theorem MyHMQ_push_correct:
  assumes "task_heap cmp B hinv hbag" "mq_ok B hinv hbag hs" "0 < length hs"
    and "hmq_push_range B (length hs) hs x 0 es = Some (hs', x', n)"
  shows "mq_ok B hinv hbag hs' \<and> others_kept hs hs' \<and> mq_bag hbag hs' = mq_bag hbag hs + mset es \<and> n = of_nat (length es)"
  using task_heap.hmq_push_range_Some [OF assms] by simp

theorem MyHMQ_push_correct_witness:
  "\<exists>hs' x'. hmq_push_range req_heap 2 (req_heaps []) 1 0 [UpdateRequest 1 4, UpdateRequest 2 3] = Some (hs', x', 2) \<and>
     mq_bag req_bag hs' = {#UpdateRequest 1 4, UpdateRequest 2 3#}"
proof -
  let ?es = "[UpdateRequest 1 4, UpdateRequest 2 3]"
  have "map_option (\<lambda>(hs', x', n). n) (hmq_push_range req_heap 2 (req_heaps []) 1 0 ?es) = Some 2" by code_simp
  then obtain hs' x' where r: "hmq_push_range req_heap 2 (req_heaps []) 1 0 ?es = Some (hs', x', 2)" by auto
  then have "mq_bag req_bag hs' = {#UpdateRequest 1 4, UpdateRequest 2 3#}"
    using MyHMQ_push_correct [OF req.task_heap_axioms req_heaps_ok(1), of "[]" 1 ?es hs' x' 2]
      req_heaps_ok(2,3) [of "[]"] by (simp add: add_mset_commute)
  with r show ?thesis by blast
qed

text \<open>
  \<open>try_pop\<close> of \<open>HeapMultiQueue\<close>, whenever it returns, never hands out a sentinel: it returns a minimum of one
  heap and removes just that, or returns false with nothing changed, and then every heap that no other thread
  holds is without tasks, although the scan leaves out the index it starts from.
\<close>

theorem HeapMultiQueue_pop_correct:
  assumes "task_heap cmp B hinv hbag" "\<forall>i < length qs. hm_ok cmp B hinv hbag emptyK (qs ! i)" "draws_in rr (length qs)"
    and "t_prior B emptyK = dummy" "hm_try_pop B emptyK rr qs g = Some (qs', g', r)"
  shows "(\<forall>i < length qs. hm_ok cmp B hinv hbag emptyK (qs' ! i)) \<and> hm_kept qs qs' \<and>
    (case r of
       None \<Rightarrow> qs' = qs \<and> (\<forall>k < length qs. hm_lock (qs ! k) \<or> hm_tasks hbag emptyK (qs ! k) = {#})
     | Some x \<Rightarrow> bags (hm_tasks hbag emptyK) qs = add_mset x (bags (hm_tasks hbag emptyK) qs') \<and>
         (\<exists>k. hm_takes cmp hbag emptyK qs qs' k x))"
  by (rule task_heap.hm_try_pop_Some [OF assms])

declare free_loop.simps [code] hm_choose.simps [code] hm_scan.simps [code]

lemma HeapMultiQueue_init_ok:
  assumes "task_heap cmp B hinv hbag" "i < nT * c" "\<not> cmp emptyK emptyK"
  shows "hm_ok cmp B hinv hbag emptyK (HeapMultiQueue_init B emptyK c nT ! i)"
  using task_heap.push_inv [OF assms(1) task_heap.empty_inv [OF assms(1)], of emptyK]
    task_heap.push_bag [OF assms(1) task_heap.empty_inv [OF assms(1)], of emptyK] task_heap.empty_bag [OF assms(1)] assms(2,3)
  by (simp add: HeapMultiQueue_init_def hm_ok_def hm_tasks_def)

definition req_sentinel :: "nat update_request" where "req_sentinel = UpdateRequest 0 dummy"

abbreviation hm2 :: "(nat update_request, nat update_request DAryHeap) hm list" where
  "hm2 \<equiv> HeapMultiQueue_init req_heap req_sentinel 2 1"

theorem HeapMultiQueue_pop_correct_witness:
  "\<exists>qs g qs' g'. hm_push req_heap (rand_queue 2) hm2 (1, 2, 3) (UpdateRequest 5 7) = Some (qs, g) \<and>
     hm_try_pop req_heap req_sentinel (rand_queue 2) qs g = Some (qs', g', Some (UpdateRequest 5 7)) \<and>
     bags (hm_tasks req_bag req_sentinel) qs = add_mset (UpdateRequest 5 7) (bags (hm_tasks req_bag req_sentinel) qs')"
proof -
  let ?push = "hm_push req_heap (rand_queue 2) hm2 (1, 2, 3) (UpdateRequest 5 7)"
  have "map_option (\<lambda>(qs, g). map_option (\<lambda>(qs', g', r). r) (hm_try_pop req_heap req_sentinel (rand_queue 2) qs g)) ?push =
      Some (Some (Some (UpdateRequest 5 7)))" by code_simp
  then obtain qs g qs' g' where r: "?push = Some (qs, g)"
    "hm_try_pop req_heap req_sentinel (rand_queue 2) qs g = Some (qs', g', Some (UpdateRequest 5 7))" by auto
  have e: "t_prior req_heap req_sentinel = dummy" "t_prior req_heap (UpdateRequest 5 7) < dummy"
    by (simp_all add: req_heap_def array_heap_def req_sentinel_def prior_def dummy_def)
  have len: "length hm2 = 2" by (simp add: HeapMultiQueue_init_def)
  have ok: "\<forall>i < length hm2. hm_ok UpdateRequestComparer req_heap req_inv req_bag req_sentinel (hm2 ! i)"
    unfolding len by (auto intro!: HeapMultiQueue_init_ok [OF req.task_heap_axioms] simp: UpdateRequestComparer_def)
  note q = rand_queue_in [of 2, simplified]
  from req.hm_push_Some [OF ok _ _ r(1)] q e len
  have qs: "\<forall>i < length qs. hm_ok UpdateRequestComparer req_heap req_inv req_bag req_sentinel (qs ! i)" "length qs = 2"
    by (auto simp: hm_kept_def)
  from HeapMultiQueue_pop_correct [OF req.task_heap_axioms qs(1) _ e(1) r(2)] q qs(2)
  have "bags (hm_tasks req_bag req_sentinel) qs = add_mset (UpdateRequest 5 7) (bags (hm_tasks req_bag req_sentinel) qs')"
    by simp
  with r show ?thesis by blast
qed

text \<open>
  \<open>try_pop\<close> of \<open>HeapSwarmPQ\<close> takes a minimum of the thread's own heap, and returns nothing exactly when that one is
  empty, whatever the others hold; \<open>push\<close> adds the task to a heap whose lock is free.
\<close>

theorem HeapSwarmPQ_correct:
  assumes "task_heap cmp B hinv hbag" "\<forall>q \<in> set qs. hinv (sw_heap q)" "tid < length qs" "draws_in rr (length qs)"
  shows "(\<forall>qs' g'. swarm_push B rr qs g key = Some (qs', g') \<longrightarrow>
      bags (\<lambda>q. hbag (sw_heap q)) qs' = add_mset key (bags (\<lambda>q. hbag (sw_heap q)) qs)) \<and>
    (\<forall>qs' r. swarm_try_pop B tid qs = Some (qs', r) \<longrightarrow>
      (case r of None \<Rightarrow> qs' = qs \<and> hbag (sw_heap (qs ! tid)) = {#}
       | Some x \<Rightarrow> (\<forall>y \<in># hbag (sw_heap (qs ! tid)). \<not> cmp x y) \<and>
           bags (\<lambda>q. hbag (sw_heap q)) qs = add_mset x (bags (\<lambda>q. hbag (sw_heap q)) qs')))"
  using swarm_push_Some [OF assms(1,2,4)] swarm_try_pop_Some [OF assms(1-3)] by blast

text \<open>\<open>MyPQ\<close> is a priority queue: \<open>pop\<close> returns a minimum, and nothing only when it is empty.\<close>

theorem MyPQ_pop_correct:
  assumes "task_heap cmp B hinv hbag" "hinv h" "mypq_pop B h = (r, h')"
  shows "hinv h' \<and> (case r of None \<Rightarrow> hbag h = {#} \<and> h' = h
    | Some x \<Rightarrow> hbag h = add_mset x (hbag h') \<and> (\<forall>y \<in># hbag h. \<not> cmp x y))"
  by (rule task_heap.mypq_pop_min [OF assms])

end
