(* ===== verification/HWTopo.thy ===== *)
theory HWTopo
  imports Prelude
begin

text \<open>
  The packages (sockets) of the machine, \<open>src/ll/HWTopoLinux.cpp\<close>. The operating system numbers them as it
  likes; \<open>finalizePackageData\<close> renumbers them in the order in which the threads meet them. The input is the
  list of the raw package numbers of the threads, \<open>vals[virtmap[i]].physid\<close>; reading it is not modelled.
\<close>

section \<open>The tables\<close>

text \<open>\<open>mapping\<close> holds the new number plus one, 0 where there is none yet.\<close>

fun assign_packages :: "(nat \<Rightarrow> nat) \<Rightarrow> nat \<Rightarrow> nat list \<Rightarrow> nat list" where
  "assign_packages mapping nextval [] = []"
| "assign_packages mapping nextval (x # xs) =
     (if mapping x = 0
      then (nextval - 1) # assign_packages (mapping(x := nextval)) (nextval + 1) xs
      else (mapping x - 1) # assign_packages mapping nextval xs)"

definition finalizePackageData :: "nat list \<Rightarrow> nat list" where
  "finalizePackageData physids = assign_packages (\<lambda>_. 0) 1 physids"

definition generatePackageData :: "nat list \<Rightarrow> nat" where
  "generatePackageData physids = length (remdups physids)"

text \<open>The greatest package so far, and the first thread of each package (\<open>None\<close> for -1).\<close>

fun cumulative_max :: "nat \<Rightarrow> nat list \<Rightarrow> nat list" where
  "cumulative_max p [] = []"
| "cumulative_max p (x # xs) = (let p' = max x p in p' # cumulative_max p' xs)"

fun leaders_loop :: "nat \<Rightarrow> nat option list \<Rightarrow> nat list \<Rightarrow> nat option list" where
  "leaders_loop i leaders [] = leaders"
| "leaders_loop i leaders (p # ps) =
     leaders_loop (i + 1) (if leaders ! p = None then leaders[p := Some i] else leaders) ps"

definition leaders_of :: "nat list \<Rightarrow> nat option list" where
  "leaders_of physids =
     leaders_loop 0 (replicate (generatePackageData physids) None) (finalizePackageData physids)"

definition getPackageForThread :: "nat list \<Rightarrow> nat \<Rightarrow> nat" where
  "getPackageForThread physids t = finalizePackageData physids ! t"

definition getMaxPackageForThread :: "nat list \<Rightarrow> nat \<Rightarrow> nat" where
  "getMaxPackageForThread physids t = cumulative_max 0 (finalizePackageData physids) ! t"

definition isPackageLeader :: "nat list \<Rightarrow> nat \<Rightarrow> bool" where
  "isPackageLeader physids t \<longleftrightarrow> leaders_of physids ! (getPackageForThread physids t) = Some t"

section \<open>What they hold\<close>

lemma length_assign_packages [simp]: "length (assign_packages m n xs) = length xs"
  by (induction m n xs rule: assign_packages.induct) (simp_all del: fun_upd_apply)

lemma length_finalizePackageData [simp]: "length (finalizePackageData physids) = length physids"
  by (simp add: finalizePackageData_def)

text \<open>The numbers are dense: below a number that occurs, all have occurred before.\<close>

lemma assign_packages_dense:
  assumes "\<forall>x. m x < n" "i < length xs" "k \<le> assign_packages m n xs ! i"
  shows "k < n - 1 \<or> (\<exists>j \<le> i. assign_packages m n xs ! j = k)"
  using assms
proof (induction m n xs arbitrary: i rule: assign_packages.induct)
  case (2 m n x xs)
  show ?case
  proof (cases "m x = 0")
    case True
    show ?thesis
    proof (cases i)
      case 0
      then show ?thesis using 2(5) True by (auto simp: Let_def)
    next
      case (Suc i')
      have less: "\<forall>y. (m(x := n)) y < n + 1" using 2(3) by (auto simp: less_Suc_eq)
      from Suc 2(4,5) True have "k < n + 1 - 1 \<or> (\<exists>j \<le> i'. assign_packages (m(x := n)) (n + 1) xs ! j = k)"
        by (intro 2(1) [OF True less]) (auto simp del: fun_upd_apply)
      then show ?thesis
      proof
        assume "k < n + 1 - 1"
        then show ?thesis using True by (cases "k = n - 1") (auto simp del: fun_upd_apply intro!: exI [of _ 0])
      next
        assume "\<exists>j \<le> i'. assign_packages (m(x := n)) (n + 1) xs ! j = k"
        then obtain j where "j \<le> i'" "assign_packages (m(x := n)) (n + 1) xs ! j = k" by blast
        then show ?thesis using True Suc by (intro disjI2 exI [of _ "Suc j"]) (simp del: fun_upd_apply)
      qed
    qed
  next
    case False
    show ?thesis
    proof (cases i)
      case 0
      have "m x < n" using 2(3) by blast
      then show ?thesis using 0 False 2(5) by auto
    next
      case (Suc i')
      from Suc 2(4,5) False have "k < n - 1 \<or> (\<exists>j \<le> i'. assign_packages m n xs ! j = k)"
        by (intro 2(2) [OF False 2(3)]) auto
      then show ?thesis using False Suc by fastforce
    qed
  qed
qed simp

lemma assign_packages_below:
  "y \<in> set (assign_packages m n xs) \<Longrightarrow> \<forall>x. m x < n \<Longrightarrow> y < n - 1 + card {x \<in> set xs. m x = 0}"
proof (induction m n xs rule: assign_packages.induct)
  case (2 m n x xs)
  have n: "0 < n" using 2(4) by (metis gr_zeroI not_less_zero)
  show ?case
  proof (cases "m x = 0")
    case True
    have set: "{y \<in> set (x # xs). m y = 0} = insert x {y \<in> set xs. (m(x := n)) y = 0}" using True n by auto
    have card: "card {y \<in> set (x # xs). m y = 0} = Suc (card {y \<in> set xs. (m(x := n)) y = 0})"
      unfolding set using n by (subst card_insert_disjoint) auto
    have less: "\<forall>y. (m(x := n)) y < n + 1" using 2(4) by (auto simp: less_Suc_eq)
    from 2(3) True consider "y = n - 1" | "y \<in> set (assign_packages (m(x := n)) (n + 1) xs)" by (auto simp: Let_def)
    then show ?thesis
    proof cases
      case 2
      from "2.IH"(1) [OF True this less] show ?thesis unfolding card using n by linarith
    qed (use card n in linarith)
  next
    case False
    have set: "{y \<in> set (x # xs). m y = 0} = {y \<in> set xs. m y = 0}" using False by auto
    have "m x < n" using 2(4) by blast
    then show ?thesis using 2(2) [OF False _ 2(4)] 2(3) False unfolding set by auto
  qed
qed simp

lemma getPackageForThread_below:
  assumes "t < length physids"
  shows "getPackageForThread physids t < generatePackageData physids"
proof -
  have "getPackageForThread physids t \<in> set (finalizePackageData physids)"
    using assms by (simp add: getPackageForThread_def)
  from assign_packages_below [OF this [unfolded finalizePackageData_def]] show ?thesis
    by (simp add: generatePackageData_def length_remdups_card_conv)
qed

lemma getPackageForThread_dense:
  assumes "t < length physids" "k \<le> getPackageForThread physids t"
  shows "\<exists>u \<le> t. getPackageForThread physids u = k"
  using assign_packages_dense [of "\<lambda>_. 0" 1 t physids k] assms
  by (simp add: getPackageForThread_def finalizePackageData_def)

lemma getPackageForThread_0: "physids \<noteq> [] \<Longrightarrow> getPackageForThread physids 0 = 0"
  using getPackageForThread_dense [of 0 physids 0] by auto

lemma cumulative_max_Max:
  "i < length xs \<Longrightarrow> (\<forall>j \<le> i. xs ! j \<le> cumulative_max p xs ! i) \<and> p \<le> cumulative_max p xs ! i \<and>
    (cumulative_max p xs ! i = p \<or> (\<exists>j \<le> i. xs ! j = cumulative_max p xs ! i))"
proof (induction p xs arbitrary: i rule: cumulative_max.induct)
  case (2 p x xs)
  show ?case
  proof (cases i)
    case (Suc i')
    note IH = 2(1) [OF refl, of i'] and len = 2(2)
    have all: "\<forall>j \<le> i. (x # xs) ! j \<le> cumulative_max (max x p) xs ! i'"
      using IH len Suc by (auto simp: nth_Cons split: nat.splits)
    from IH len Suc consider "cumulative_max (max x p) xs ! i' = max x p" | j where "j \<le> i'" "xs ! j = cumulative_max (max x p) xs ! i'"
      by auto
    then show ?thesis
    proof cases
      case 1
      then show ?thesis using all Suc IH len by (cases "x \<le> p") (auto simp: Let_def max_def intro!: exI [of _ 0])
    next
      case 2
      then show ?thesis using all Suc IH len by (auto simp: Let_def intro!: exI [of _ "Suc j"])
    qed
  qed (auto simp: Let_def)
qed simp

text \<open>The leader of a package is its first thread.\<close>

lemma leaders_loop_first:
  assumes "\<forall>p \<in> set ps. p < length ls" "k < length ls"
  shows "leaders_loop i ls ps ! k =
    (if ls ! k \<noteq> None then ls ! k
     else if \<exists>j < length ps. ps ! j = k then Some (i + (LEAST j. j < length ps \<and> ps ! j = k)) else None)"
  using assms
proof (induction i ls ps rule: leaders_loop.induct)
  case (2 i ls p ps)
  let ?ls = "if ls ! p = None then ls[p := Some i] else ls"
  have IH: "leaders_loop (i + 1) ?ls ps ! k =
    (if ?ls ! k \<noteq> None then ?ls ! k
     else if \<exists>j < length ps. ps ! j = k then Some (i + 1 + (LEAST j. j < length ps \<and> ps ! j = k)) else None)"
    using 2 by auto
  show ?case
  proof (cases "p = k")
    case True
    have "(LEAST j. j < length (p # ps) \<and> (p # ps) ! j = k) = 0" using True by (intro Least_equality) auto
    then show ?thesis using IH True 2(3) by auto
  next
    case False
    have ex: "(\<exists>j < length (p # ps). (p # ps) ! j = k) \<longleftrightarrow> (\<exists>j < length ps. ps ! j = k)"
      using False by (auto simp: less_Suc_eq_0_disj)
    have least: "(LEAST j. j < length (p # ps) \<and> (p # ps) ! j = k) = Suc (LEAST j. j < length ps \<and> ps ! j = k)"
      if "j < length ps" "ps ! j = k" for j
      using Least_Suc [of "\<lambda>j. j < length (p # ps) \<and> (p # ps) ! j = k" "Suc j"] that False by simp
    have "?ls ! k = ls ! k" using False by simp
    then show ?thesis unfolding leaders_loop.simps IH ex using least by auto
  qed
qed simp

lemma isPackageLeader_iff:
  assumes "t < length physids"
  shows "isPackageLeader physids t \<longleftrightarrow> (\<forall>u < t. getPackageForThread physids u \<noteq> getPackageForThread physids t)"
proof -
  let ?ps = "finalizePackageData physids" and ?k = "getPackageForThread physids t"
  let ?P = "\<lambda>j. j < length ?ps \<and> ?ps ! j = ?k"
  have below: "\<forall>p \<in> set ?ps. p < length (replicate (generatePackageData physids) None)"
    using getPackageForThread_below by (auto simp: in_set_conv_nth getPackageForThread_def)
  have t: "?P t" using assms by (simp add: getPackageForThread_def)
  have "leaders_of physids ! ?k = Some (LEAST j. ?P j)"
    unfolding leaders_of_def using getPackageForThread_below [OF assms] t
    by (subst leaders_loop_first [OF below]) auto
  then have "isPackageLeader physids t \<longleftrightarrow> (LEAST j. ?P j) = t" by (simp add: isPackageLeader_def)
  also have "\<dots> \<longleftrightarrow> (\<forall>u < t. \<not> ?P u)"
  proof
    assume "(LEAST j. ?P j) = t"
    then show "\<forall>u < t. \<not> ?P u" using not_less_Least [of _ ?P] by metis
  next
    assume "\<forall>u < t. \<not> ?P u"
    then show "(LEAST j. ?P j) = t" using t by (intro Least_equality) (meson not_le)+
  qed
  also have "\<dots> \<longleftrightarrow> (\<forall>u < t. getPackageForThread physids u \<noteq> ?k)"
    using assms by (auto simp: getPackageForThread_def)
  finally show ?thesis .
qed

text \<open>
  Among the first \<open>P\<close> threads: package 0 is led by thread 0, and every package up to the greatest one has
  exactly one leader.
\<close>

theorem packages_well_formed:
  assumes "0 < P" "P \<le> length physids" "i \<le> getMaxPackageForThread physids (P - 1)"
  shows "isPackageLeader physids 0 \<and> getPackageForThread physids 0 = 0 \<and>
    (\<exists>!t. t < P \<and> isPackageLeader physids t \<and> getPackageForThread physids t = i)"
proof -
  let ?pk = "getPackageForThread physids"
  have max: "getMaxPackageForThread physids (P - 1) = 0 \<or>
      (\<exists>j \<le> P - 1. ?pk j = getMaxPackageForThread physids (P - 1))"
    using cumulative_max_Max [of "P - 1" "finalizePackageData physids" 0] assms(1,2)
    by (auto simp: getMaxPackageForThread_def getPackageForThread_def)
  have "\<exists>u < P. ?pk u = i"
  proof (cases "i = 0")
    case True
    moreover have "physids \<noteq> []" using assms(1,2) by auto
    ultimately show ?thesis using getPackageForThread_0 [of physids] assms(1) by (intro exI [of _ 0]) simp
  next
    case False
    then obtain j where "j \<le> P - 1" "?pk j = getMaxPackageForThread physids (P - 1)" using max assms(3) by auto
    then have "j < P" "i \<le> ?pk j" using assms(1,3) by simp_all
    then show ?thesis using getPackageForThread_dense [of j physids i] assms(2) by (meson le_less_trans less_le_trans)
  qed
  then obtain u where u: "u < P" "?pk u = i" by blast
  define t where "t = (LEAST t. ?pk t = i)"
  have t: "?pk t = i" "t \<le> u" unfolding t_def using u(2) by (auto intro: LeastI Least_le)
  have first: "\<forall>v < t. ?pk v \<noteq> i" unfolding t_def using not_less_Least by blast
  have "isPackageLeader physids t" using isPackageLeader_iff [of t physids] t first u(1) assms(2) by simp
  moreover have "v = t" if "v < P" "isPackageLeader physids v" "?pk v = i" for v
    using isPackageLeader_iff [of v physids] that first t assms(2)
    by (metis less_le_trans linorder_neqE_nat)
  moreover have "t < P" using t u by simp
  moreover have "physids \<noteq> []" using assms(1,2) by auto
  moreover from this have "isPackageLeader physids 0" using isPackageLeader_iff [of 0 physids] by simp
  ultimately show ?thesis using t getPackageForThread_0 [of physids] by metis
qed

theorem getMaxPackageForThread_bound:
  assumes "t < P" "P \<le> length physids"
  shows "getPackageForThread physids t \<le> getMaxPackageForThread physids (P - 1)"
  using cumulative_max_Max [of "P - 1" "finalizePackageData physids" 0] assms
  by (auto simp: getMaxPackageForThread_def getPackageForThread_def)

end
