(* ===== verification/TopoBarrier.thy ===== *)
theory TopoBarrier
  imports HWTopo
begin

text \<open>
  \<open>TopoBarrier\<close> of \<open>src/Barrier.cpp\<close>, the barrier of the runtime: the threads of a package report to its leader, the
  leaders report up a tree of arity four over the packages and are released down one of arity two. Every
  access to a node is a step. Counters and senses are 32-bit words. \<open>entered\<close> and \<open>left\<close> count how often a thread has
  begun and finished \<open>wait\<close>.
\<close>

section \<open>Topology and state\<close>

record topo =
  threads :: nat
  pkg_of :: "nat \<Rightarrow> nat"
  leads :: "nat \<Rightarrow> bool"
  pkgs :: nat

definition topo_of :: "nat list \<Rightarrow> nat \<Rightarrow> topo" where
  "topo_of physids P =
     \<lparr>threads = P, pkg_of = getPackageForThread physids, leads = isPackageLeader physids,
      pkgs = getMaxPackageForThread physids (P - 1) + 1\<rparr>"

datatype tpc = Out | Await | Reload | Report | Decrement | SpinT | WakeT nat | OwnSense | Leave

record topo_state =
  tpcs :: "nat \<Rightarrow> tpc"
  cnr :: "nat \<Rightarrow> u32"
  psense :: "nat \<Rightarrow> u32"
  tsense :: "nat \<Rightarrow> u32"
  entered :: "nat \<Rightarrow> nat"
  left :: "nat \<Rightarrow> nat"

text \<open>\<open>havechild\<close> of a package: its child packages and its threads other than the leader.\<close>

definition topo_havechild :: "topo \<Rightarrow> nat \<Rightarrow> nat" where
  "topo_havechild T i =
     length (filter (\<lambda>j. 4 * i + j + 1 < pkgs T) [0..<4]) +
     length (filter (\<lambda>t. pkg_of T t = i \<and> \<not> leads T t) [0..<threads T])"

definition topo_init :: "topo \<Rightarrow> topo_state" where
  "topo_init T =
     \<lparr>tpcs = \<lambda>_. Out, cnr = \<lambda>i. of_nat (topo_havechild T i), psense = \<lambda>_. 0, tsense = \<lambda>_. 1,
      entered = \<lambda>_. 0, left = \<lambda>_. 0\<rparr>"

definition tgoto :: "nat \<Rightarrow> tpc \<Rightarrow> topo_state \<Rightarrow> topo_state" where
  "tgoto t p s = s\<lparr>tpcs := (tpcs s)(t := p)\<rparr>"

definition set_count :: "nat \<Rightarrow> u32 \<Rightarrow> topo_state \<Rightarrow> topo_state" where
  "set_count i v s = s\<lparr>cnr := (cnr s)(i := v)\<rparr>"

definition set_psense :: "nat \<Rightarrow> u32 \<Rightarrow> topo_state \<Rightarrow> topo_state" where
  "set_psense i v s = s\<lparr>psense := (psense s)(i := v)\<rparr>"

text \<open>After the signal: the leader wakes its children, any other thread is done. Thread 0 does not wait for it.\<close>

definition to_wake :: "topo \<Rightarrow> nat \<Rightarrow> tpc" where
  "to_wake T t = (if leads T t then WakeT 0 else Leave)"

definition to_spin :: "topo \<Rightarrow> nat \<Rightarrow> tpc" where
  "to_spin T t = (if t \<noteq> 0 then SpinT else to_wake T t)"

text \<open>The next access of thread \<open>t\<close>; \<open>None\<close> while a loop spins.\<close>

definition topo_next :: "topo \<Rightarrow> nat \<Rightarrow> topo_state \<Rightarrow> topo_state option" where
  "topo_next T t s = (let i = pkg_of T t in case tpcs s t of
       Out \<Rightarrow> Some (tgoto t (if leads T t then Await else Decrement) (s\<lparr>entered := (entered s)(t := entered s t + 1)\<rparr>))
     | Await \<Rightarrow> if cnr s i \<noteq> 0 then None else Some (tgoto t Reload s)
     | Reload \<Rightarrow> Some (tgoto t (if i \<noteq> 0 then Report else to_spin T t) (set_count i (of_nat (topo_havechild T i)) s))
     | Report \<Rightarrow> Some (tgoto t (to_spin T t) (set_count ((i - 1) div 4) (cnr s ((i - 1) div 4) - 1) s))
     | Decrement \<Rightarrow> Some (tgoto t (to_spin T t) (set_count i (cnr s i - 1) s))
     | SpinT \<Rightarrow> if psense s i \<noteq> tsense s t then None else Some (tgoto t (to_wake T t) s)
     | WakeT k \<Rightarrow> Some (tgoto t (if k = 0 then WakeT 1 else if t = 0 then OwnSense else Leave)
         (if 2 * i + k + 1 < pkgs T then set_psense (2 * i + k + 1) (tsense s t) s else s))
     | OwnSense \<Rightarrow> Some (tgoto t Leave (set_psense i (tsense s t) s))
     | Leave \<Rightarrow> Some (tgoto t Out (s\<lparr>tsense := (tsense s)(t := tsense s t + 1), left := (left s)(t := left s t + 1)\<rparr>)))"

inductive topo_reach :: "topo \<Rightarrow> topo_state \<Rightarrow> bool" for T where
  start: "topo_reach T (topo_init T)"
| step: "topo_reach T s \<Longrightarrow> t < threads T \<Longrightarrow> topo_next T t s = Some s' \<Longrightarrow> topo_reach T s'"

section \<open>The trees\<close>

definition topo_ok :: "topo \<Rightarrow> bool" where
  "topo_ok T \<longleftrightarrow> 0 < threads T \<and> threads T < 2 ^ 32 \<and> leads T 0 \<and> pkg_of T 0 = 0 \<and>
     (\<forall>t<threads T. pkg_of T t < pkgs T) \<and>
     (\<forall>i<pkgs T. \<exists>!t. t < threads T \<and> leads T t \<and> pkg_of T t = i)"

lemma topo_of_ok:
  assumes "0 < P" "P \<le> length physids" "P < 2 ^ 32"
  shows "topo_ok (topo_of physids P)"
  using packages_well_formed [OF assms(1,2)] getMaxPackageForThread_bound [OF _ assms(2)] assms
  by (auto simp: topo_ok_def topo_of_def less_Suc_eq_le)

definition leader :: "topo \<Rightarrow> nat \<Rightarrow> nat" where
  "leader T i = (THE t. t < threads T \<and> leads T t \<and> pkg_of T t = i)"

lemma topo_okD:
  assumes "topo_ok T"
  shows "0 < threads T" "threads T < 2 ^ 32" "leads T 0" "pkg_of T 0 = 0" "t < threads T \<Longrightarrow> pkg_of T t < pkgs T"
  using assms by (simp_all add: topo_ok_def)

text \<open>The package whose counter a thread decrements, and the threads that decrement that of a package.\<close>

definition boss :: "topo \<Rightarrow> nat \<Rightarrow> nat" where
  "boss T t = (if leads T t then (pkg_of T t - 1) div 4 else pkg_of T t)"

definition kids :: "topo \<Rightarrow> nat \<Rightarrow> nat set" where
  "kids T i = {t. t < threads T \<and> t \<noteq> 0 \<and> boss T t = i}"

lemma leader_props:
  assumes "topo_ok T" "i < pkgs T"
  shows "leader T i < threads T" "leads T (leader T i)" "pkg_of T (leader T i) = i"
proof -
  have "\<exists>!t. t < threads T \<and> leads T t \<and> pkg_of T t = i" using assms by (simp add: topo_ok_def)
  from theI' [OF this] show "leader T i < threads T" "leads T (leader T i)" "pkg_of T (leader T i) = i"
    by (auto simp: leader_def)
qed

lemma leader_unique:
  assumes "topo_ok T" "t < threads T" "leads T t"
  shows "leader T (pkg_of T t) = t"
proof -
  have "pkg_of T t < pkgs T" using assms by (simp add: topo_ok_def)
  then have "\<exists>!u. u < threads T \<and> leads T u \<and> pkg_of T u = pkg_of T t" using assms by (simp add: topo_ok_def)
  then show ?thesis unfolding leader_def by (rule the1_equality) (use assms in simp)
qed

lemma leader_0: "topo_ok T \<Longrightarrow> leader T 0 = 0"
  using leader_unique [of T 0] by (simp add: topo_ok_def)

lemma leads_pkg_0: "topo_ok T \<Longrightarrow> t < threads T \<Longrightarrow> leads T t \<Longrightarrow> pkg_of T t = 0 \<longleftrightarrow> t = 0"
  using leader_unique [of T t] leader_0 [of T] by (auto simp: topo_ok_def)

lemma finite_kids [simp]: "finite (kids T i)"
  by (simp add: kids_def)

lemma kids_small: "topo_ok T \<Longrightarrow> S \<subseteq> kids T i \<Longrightarrow> card S < 2 ^ 32"
proof -
  assume ok: "topo_ok T" and "S \<subseteq> kids T i"
  then have "S \<subseteq> {..<threads T}" by (auto simp: kids_def)
  then have "card S \<le> threads T" using card_mono [of "{..<threads T}" S] by simp
  then show ?thesis using ok by (simp add: topo_ok_def)
qed

lemma boss_below:
  assumes "topo_ok T" "t < threads T" "t \<noteq> 0"
  shows "boss T t < pkgs T" "leads T t \<Longrightarrow> boss T t < pkg_of T t"
proof -
  have pkg: "pkg_of T t < pkgs T" using assms by (simp add: topo_ok_def)
  show "boss T t < pkg_of T t" if "leads T t"
    using leads_pkg_0 [OF assms(1,2) that] assms(3) that by (simp add: boss_def)
  then show "boss T t < pkgs T" using pkg by (cases "leads T t") (auto simp: boss_def)
qed

lemma card_kids:
  assumes ok: "topo_ok T" and i: "i < pkgs T"
  shows "card (kids T i) = topo_havechild T i"
proof -
  let ?J = "{j. j < 4 \<and> 4 * i + j + 1 < pkgs T}" and ?N = "{t. t < threads T \<and> pkg_of T t = i \<and> \<not> leads T t}"
  let ?f = "\<lambda>j. leader T (4 * i + j + 1)"
  have inj: "inj_on ?f ?J"
  proof (rule inj_onI)
    fix j k assume "j \<in> ?J" "k \<in> ?J" "?f j = ?f k"
    then show "j = k" using leader_props(3) [OF ok, of "4 * i + j + 1"] leader_props(3) [OF ok, of "4 * i + k + 1"] by simp
  qed
  have "kids T i = ?f ` ?J \<union> ?N"
  proof (intro equalityI subsetI)
    fix t assume t: "t \<in> kids T i"
    then have tt: "t < threads T" "t \<noteq> 0" "boss T t = i" by (simp_all add: kids_def)
    show "t \<in> ?f ` ?J \<union> ?N"
    proof (cases "leads T t")
      case True
      let ?j = "(pkg_of T t - 1) mod 4"
      have "pkg_of T t \<noteq> 0" using leads_pkg_0 [OF ok tt(1) True] tt(2) by simp
      moreover have "4 * i + ?j = pkg_of T t - 1"
        using tt(3) True mult_div_mod_eq [of 4 "pkg_of T t - 1"] by (simp add: boss_def)
      ultimately have "4 * i + ?j + 1 = pkg_of T t" by linarith
      moreover have "pkg_of T t < pkgs T" using ok tt(1) by (simp add: topo_ok_def)
      ultimately have "?j \<in> ?J" "t = ?f ?j" using leader_unique [OF ok tt(1) True] by simp_all
      then show ?thesis by blast
    next
      case False
      then show ?thesis using tt by (simp add: boss_def)
    qed
  next
    fix t assume "t \<in> ?f ` ?J \<union> ?N"
    then consider j where "j \<in> ?J" "t = ?f j" | "t \<in> ?N" by blast
    then show "t \<in> kids T i"
    proof cases
      case 1
      have j: "j < 4" "4 * i + j + 1 < pkgs T" using 1(1) by simp_all
      have l: "t < threads T" "leads T t" "pkg_of T t = 4 * i + j + 1"
        unfolding 1(2) by (rule leader_props [OF ok j(2)])+
      have "t \<noteq> 0" using leads_pkg_0 [OF ok l(1,2)] l(3) by simp
      moreover have "(4 * i + j + 1 - 1) div 4 = i" using j(1) by simp
      ultimately show ?thesis using l by (simp only: kids_def boss_def mem_Collect_eq if_True simp_thms)
    next
      case 2
      have "t \<noteq> 0"
      proof
        assume "t = 0"
        then show False using 2 topo_okD(3) [OF ok] by simp
      qed
      then show ?thesis using 2 by (simp add: kids_def boss_def)
    qed
  qed
  moreover have "?f ` ?J \<inter> ?N = {}" using leader_props(2) [OF ok] by auto
  moreover have "card ?J = length (filter (\<lambda>j. 4 * i + j + 1 < pkgs T) [0..<4])"
    by (subst distinct_card [symmetric]) (auto intro: arg_cong [of _ _ card])
  moreover have "card ?N = length (filter (\<lambda>t. pkg_of T t = i \<and> \<not> leads T t) [0..<threads T])"
    by (subst distinct_card [symmetric]) (auto intro: arg_cong [of _ _ card])
  ultimately show ?thesis using inj by (simp add: topo_havechild_def card_Un_disjoint card_image)
qed

section \<open>Counting\<close>

fun ahead :: "tpc \<Rightarrow> nat" where
  "ahead Out = 0" | "ahead Await = 0" | "ahead Decrement = 0" | "ahead Reload = 1" | "ahead Report = 2" | "ahead SpinT = 3"
| "ahead (WakeT k) = 4 + k" | "ahead OwnSense = 6" | "ahead Leave = 7"

text \<open>How often a thread has seen its children report, reloaded its counter, reported, been woken, woken its children.\<close>

definition past :: "nat \<Rightarrow> topo_state \<Rightarrow> nat \<Rightarrow> nat" where
  "past n s t = left s t + of_bool (n \<le> ahead (tpcs s t))"

abbreviation "seen \<equiv> past 1"
abbreviation "reloads \<equiv> past 2"
abbreviation "up \<equiv> past 3"
abbreviation "woken \<equiv> past 4"
abbreviation "sent s t k \<equiv> past (5 + k) s t"
abbreviation "owned \<equiv> past 7"

lemma past_antimono: "m \<le> n \<Longrightarrow> past n s t \<le> past m s t"
  by (simp add: past_def)

text \<open>How often the sense of a package has been set.\<close>

definition sig :: "topo \<Rightarrow> topo_state \<Rightarrow> nat \<Rightarrow> nat" where
  "sig T s i = (if i = 0 then owned s 0 else sent s (leader T ((i - 1) div 2)) ((i - 1) mod 2))"

definition tlocal :: "topo \<Rightarrow> topo_state \<Rightarrow> bool" where
  "tlocal T s \<longleftrightarrow> (\<forall>t<threads T. tsense s t = of_nat (left s t + 1) \<and>
     entered s t = left s t + of_bool (tpcs s t \<noteq> Out) \<and>
     (case tpcs s t of Await \<Rightarrow> leads T t | Reload \<Rightarrow> leads T t | Report \<Rightarrow> leads T t \<and> t \<noteq> 0 | Decrement \<Rightarrow> \<not> leads T t
      | SpinT \<Rightarrow> t \<noteq> 0 | WakeT k \<Rightarrow> leads T t \<and> k < 2 | OwnSense \<Rightarrow> t = 0 | _ \<Rightarrow> True))"

definition tarrive :: "topo \<Rightarrow> topo_state \<Rightarrow> bool" where
  "tarrive T s \<longleftrightarrow> (\<forall>i<pkgs T. (\<forall>c \<in> kids T i. seen s (leader T i) \<le> up s c \<and>
       reloads s (leader T i) \<le> up s c \<and> up s c \<le> reloads s (leader T i) + 1) \<and>
     cnr s i = of_nat (card {c \<in> kids T i. up s c = reloads s (leader T i)}))"

definition twake :: "topo \<Rightarrow> topo_state \<Rightarrow> bool" where
  "twake T s \<longleftrightarrow> (\<forall>i<pkgs T. psense s i = of_nat (sig T s i)) \<and>
     (\<forall>t<threads T. t \<noteq> 0 \<longrightarrow> woken s t \<le> sig T s (pkg_of T t))"

definition topo_inv :: "topo \<Rightarrow> topo_state \<Rightarrow> bool" where
  "topo_inv T s \<longleftrightarrow> tlocal T s \<and> tarrive T s \<and> twake T s"

lemma tarriveD:
  assumes "tarrive T s" "i < pkgs T"
  shows "c \<in> kids T i \<Longrightarrow> seen s (leader T i) \<le> up s c" "c \<in> kids T i \<Longrightarrow> reloads s (leader T i) \<le> up s c"
    "c \<in> kids T i \<Longrightarrow> up s c \<le> reloads s (leader T i) + 1"
    "cnr s i = of_nat (card {c \<in> kids T i. up s c = reloads s (leader T i)})"
  using assms unfolding tarrive_def by blast+

text \<open>Up the one tree and down the other: thread 0 reports last and is woken first.\<close>

lemma topo_up_root_least:
  assumes ok: "topo_ok T" and A: "tarrive T s"
  shows "t < threads T \<Longrightarrow> up s 0 \<le> up s t"
proof -
  have lead: "up s 0 \<le> up s (leader T i)" if "i < pkgs T" for i
    using that
  proof (induction i rule: less_induct)
    case (less i)
    show ?case
    proof (cases "i = 0")
      case False
      let ?l = "leader T i"
      note l = leader_props [OF ok less.prems]
      have "?l \<noteq> 0" using leads_pkg_0 [OF ok l(1,2)] l(3) False by simp
      then have k: "?l \<in> kids T (boss T ?l)" and b: "boss T ?l < i" "boss T ?l < pkgs T"
        using l boss_below [OF ok l(1)] by (simp_all add: kids_def)
      have "up s 0 \<le> up s (leader T (boss T ?l))" using less.IH b by blast
      also have "\<dots> \<le> seen s (leader T (boss T ?l))" by (rule past_antimono) simp
      also have "\<dots> \<le> up s ?l" by (rule tarriveD(1) [OF A b(2) k])
      finally show ?thesis .
    qed (simp add: leader_0 [OF ok])
  qed
  show "up s 0 \<le> up s t" if t: "t < threads T"
  proof (cases "t = 0")
    case False
    note b = boss_below(1) [OF ok t False]
    have "up s 0 \<le> up s (leader T (boss T t))" by (rule lead [OF b])
    also have "\<dots> \<le> seen s (leader T (boss T t))" by (rule past_antimono) simp
    also have "\<dots> \<le> up s t" by (rule tarriveD(1) [OF A b]) (use t False in \<open>simp add: kids_def\<close>)
    finally show ?thesis .
  qed simp
qed

lemma sig_root_most:
  assumes ok: "topo_ok T" and W: "twake T s"
  shows "i < pkgs T \<Longrightarrow> sig T s i \<le> woken s 0"
proof (induction i rule: less_induct)
  case (less i)
  show ?case
  proof (cases "i = 0")
    case True
    then show ?thesis using past_antimono [of 4 7 s 0] by (simp add: sig_def)
  next
    case False
    let ?q = "(i - 1) div 2"
    let ?l = "leader T ?q"
    have q: "?q < i" "?q < pkgs T" using False less.prems by auto
    note l = leader_props [OF ok q(2)]
    have "sig T s i = sent s ?l ((i - 1) mod 2)" using False by (simp only: sig_def if_False)
    also have "\<dots> \<le> woken s ?l" by (rule past_antimono) simp
    also have "woken s ?l \<le> woken s 0"
    proof (cases "?l = 0")
      case False
      then have "woken s ?l \<le> sig T s ?q" using W l by (auto simp: twake_def)
      then show ?thesis using less.IH [OF q] by simp
    qed simp
    finally show ?thesis .
  qed
qed

lemma topo_woken_root_most:
  assumes "topo_ok T" "twake T s" "t < threads T"
  shows "woken s t \<le> woken s 0"
proof (cases "t = 0")
  case False
  then have "woken s t \<le> sig T s (pkg_of T t)" using assms by (simp add: twake_def)
  also have "\<dots> \<le> woken s 0" using assms by (intro sig_root_most [OF assms(1,2)]) (simp add: topo_ok_def)
  finally show ?thesis .
qed simp

lemma topo_woken_le_up:
  assumes ok: "topo_ok T" and inv: "topo_inv T s" and t: "t < threads T" "u < threads T"
  shows "woken s t \<le> up s u"
proof -
  have "woken s t \<le> woken s 0" using topo_woken_root_most [OF ok _ t(1)] inv by (simp add: topo_inv_def)
  also have "\<dots> \<le> up s 0" by (rule past_antimono) simp
  also have "\<dots> \<le> up s u" using topo_up_root_least [OF ok _ t(2)] inv by (simp add: topo_inv_def)
  finally show ?thesis .
qed

section \<open>The invariant is kept\<close>

lemma past_tgoto [simp]:
  "past n (tgoto t p s) u = (if u = t then left s t + of_bool (n \<le> ahead p) else past n s u)"
  by (simp add: past_def tgoto_def)

lemma past_set [simp]:
  "past n (set_count i v s) u = past n s u" "past n (set_psense i v s) u = past n s u"
  "past n (s\<lparr>entered := e\<rparr>) u = past n s u"
  by (simp_all add: past_def set_count_def set_psense_def)

lemma topo_fields [simp]:
  "tpcs (tgoto t p s) = (tpcs s)(t := p)" "cnr (tgoto t p s) = cnr s" "psense (tgoto t p s) = psense s"
  "tsense (tgoto t p s) = tsense s" "entered (tgoto t p s) = entered s" "left (tgoto t p s) = left s"
  "tpcs (set_count i v s) = tpcs s" "cnr (set_count i v s) = (cnr s)(i := v)" "psense (set_count i v s) = psense s"
  "tsense (set_count i v s) = tsense s" "entered (set_count i v s) = entered s" "left (set_count i v s) = left s"
  "tpcs (set_psense i v s) = tpcs s" "psense (set_psense i v s) = (psense s)(i := v)" "cnr (set_psense i v s) = cnr s"
  "tsense (set_psense i v s) = tsense s" "entered (set_psense i v s) = entered s" "left (set_psense i v s) = left s"
  by (simp_all add: tgoto_def set_count_def set_psense_def)

lemma tlocalD:
  assumes "tlocal T s" "t < threads T"
  shows "tsense s t = of_nat (left s t + 1)" "entered s t = left s t + of_bool (tpcs s t \<noteq> Out)"
    "tpcs s t = Await \<Longrightarrow> leads T t" "tpcs s t = Reload \<Longrightarrow> leads T t" "tpcs s t = Report \<Longrightarrow> leads T t \<and> t \<noteq> 0"
    "tpcs s t = Decrement \<Longrightarrow> \<not> leads T t" "tpcs s t = SpinT \<Longrightarrow> t \<noteq> 0" "tpcs s t = WakeT k \<Longrightarrow> leads T t \<and> k < 2"
    "tpcs s t = OwnSense \<Longrightarrow> t = 0"
  using assms unfolding tlocal_def by force+

text \<open>A thread inside \<open>wait\<close> moves to a point it may be at.\<close>

fun may_be :: "topo \<Rightarrow> nat \<Rightarrow> tpc \<Rightarrow> bool" where
  "may_be T t Await = leads T t" | "may_be T t Reload = leads T t" | "may_be T t Report = (leads T t \<and> t \<noteq> 0)"
| "may_be T t Decrement = (\<not> leads T t)" | "may_be T t SpinT = (t \<noteq> 0)" | "may_be T t (WakeT k) = (leads T t \<and> k < 2)"
| "may_be T t OwnSense = (t = 0)" | "may_be T t _ = True"

lemma tlocal_goto:
  assumes "tlocal T s" "tpcs s t \<noteq> Out" "p \<noteq> Out" "may_be T t p"
    "tpcs s' = (tpcs s)(t := p)" "tsense s' = tsense s" "entered s' = entered s" "left s' = left s"
  shows "tlocal T s'"
  using assms unfolding tlocal_def by (cases p) auto

lemma may_be_after: "may_be T t (to_spin T t)" "may_be T t (to_wake T t)" "to_spin T t \<noteq> Out" "to_wake T t \<noteq> Out"
  by (auto simp: to_spin_def to_wake_def)

lemma tarrive_cong:
  assumes "tarrive T s" "\<And>u. up s' u = up s u" "\<And>i. i < pkgs T \<Longrightarrow> reloads s' (leader T i) = reloads s (leader T i)"
    "cnr s' = cnr s" "\<And>i c. i < pkgs T \<Longrightarrow> c \<in> kids T i \<Longrightarrow> seen s' (leader T i) \<le> up s c"
  shows "tarrive T s'"
  using assms unfolding tarrive_def by simp

lemma twake_cong:
  assumes "twake T s" "\<And>i. i < pkgs T \<Longrightarrow> sig T s' i = sig T s i" "psense s' = psense s"
    "\<And>t. t < threads T \<Longrightarrow> t \<noteq> 0 \<Longrightarrow> woken s' t \<le> sig T s (pkg_of T t)" "topo_ok T"
  shows "twake T s'"
  using assms unfolding twake_def topo_ok_def by simp

lemma sig_cong:
  assumes "\<And>n u. 5 \<le> n \<Longrightarrow> past n s' u = past n s u"
  shows "sig T s' i = sig T s i"
  using assms by (simp add: sig_def)

lemma twake_same:
  assumes "topo_ok T" "twake T s" "\<And>n u. 4 \<le> n \<Longrightarrow> past n s' u = past n s u" "psense s' = psense s"
  shows "twake T s'"
proof -
  have "sig T s' i = sig T s i" for i by (rule sig_cong) (use assms(3) in simp)
  then show ?thesis using assms(2-4) unfolding twake_def by simp
qed

lemma topo_init_inv:
  assumes ok: "topo_ok T"
  shows "topo_inv T (topo_init T)"
proof -
  have z: "past n (topo_init T) u = 0" if "0 < n" for n u using that by (simp add: past_def topo_init_def)
  have f: "cnr (topo_init T) i = of_nat (topo_havechild T i)" "psense (topo_init T) i = 0" for i
    by (simp_all add: topo_init_def)
  have "tarrive T (topo_init T)" unfolding tarrive_def by (simp add: z f card_kids [OF ok])
  moreover have "twake T (topo_init T)" unfolding twake_def by (simp add: z f sig_def)
  moreover have "tlocal T (topo_init T)" by (simp add: tlocal_def topo_init_def)
  ultimately show ?thesis by (simp add: topo_inv_def)
qed

lemma topo_inv_enter:
  assumes ok: "topo_ok T" and inv: "topo_inv T s" and t: "t < threads T" "tpcs s t = Out"
  shows "topo_inv T (tgoto t (if leads T t then Await else Decrement) (s\<lparr>entered := (entered s)(t := entered s t + 1)\<rparr>))"
    (is "topo_inv T ?s")
proof -
  have A: "tarrive T s" and W: "twake T s" using inv by (simp_all add: topo_inv_def)
  have same: "past n ?s u = past n s u" if "0 < n" for n u using t(2) that by (simp add: past_def)
  have "tlocal T ?s" using inv t unfolding topo_inv_def tlocal_def by auto
  moreover have "tarrive T ?s" using same tarriveD(1) [OF A] by (intro tarrive_cong [OF A]) (simp_all add: numeral_eq_Suc)
  moreover have "twake T ?s" by (rule twake_same [OF ok W]) (use same in simp_all)
  ultimately show ?thesis by (simp add: topo_inv_def)
qed

lemma no_child_missing:
  assumes ok: "topo_ok T" and A: "tarrive T s" and i: "i < pkgs T" and z: "cnr s i = 0" and c: "c \<in> kids T i"
  shows "up s c = reloads s (leader T i) + 1"
proof -
  let ?S = "{c \<in> kids T i. up s c = reloads s (leader T i)}"
  have "(of_nat (card ?S) :: u32) = 0" using tarriveD(4) [OF A i] z by simp
  moreover have "card ?S < 2 ^ 32" by (rule kids_small [OF ok, of _ i]) blast
  ultimately have "card ?S = 0" using nat_dvd_not_less [of "card ?S" "2 ^ 32"] by (auto simp: word_of_nat_eq_0_iff)
  then have "up s c \<noteq> reloads s (leader T i)" using c by auto
  then show ?thesis using tarriveD(2,3) [OF A i c] by linarith
qed

lemma topo_inv_await:
  assumes ok: "topo_ok T" and inv: "topo_inv T s" and t: "t < threads T" "tpcs s t = Await" and z: "cnr s (pkg_of T t) = 0"
  shows "topo_inv T (tgoto t Reload s)" (is "topo_inv T ?s")
proof -
  have A: "tarrive T s" and L: "tlocal T s" and W: "twake T s" using inv by (simp_all add: topo_inv_def)
  note lead = tlocalD(3) [OF L t]
  have i: "pkg_of T t < pkgs T" using ok t(1) by (simp add: topo_ok_def)
  have same: "past n ?s u = past n s u" if "1 < n" for n u using t(2) that by (simp add: past_def)
  have "tlocal T ?s" by (rule tlocal_goto [OF L, of t Reload]) (use t lead in simp_all)
  moreover have "tarrive T ?s"
  proof (rule tarrive_cong [OF A])
    show "seen ?s (leader T j) \<le> up s c" if j: "j < pkgs T" "c \<in> kids T j" for j c
    proof (cases "leader T j = t")
      case True
      then have "j = pkg_of T t" using leader_props(3) [OF ok j(1)] by simp
      then have "up s c = reloads s t + 1" using no_child_missing [OF ok A i z] j True by simp
      then show ?thesis using True by (simp add: past_def)
    qed (use tarriveD(1) [OF A j] in simp)
  qed (use same in simp_all)
  moreover have "twake T ?s" by (rule twake_same [OF ok W]) (use same in simp_all)
  ultimately show ?thesis by (simp add: topo_inv_def)
qed

lemma topo_inv_reload:
  assumes ok: "topo_ok T" and inv: "topo_inv T s" and t: "t < threads T" "tpcs s t = Reload"
  shows "topo_inv T (tgoto t (if pkg_of T t \<noteq> 0 then Report else to_spin T t)
    (set_count (pkg_of T t) (of_nat (topo_havechild T (pkg_of T t))) s))" (is "topo_inv T (tgoto t ?p (set_count ?i _ s))")
proof -
  let ?s = "tgoto t ?p (set_count ?i (of_nat (topo_havechild T ?i)) s)"
  have A: "tarrive T s" and L: "tlocal T s" and W: "twake T s" using inv by (simp_all add: topo_inv_def)
  note lead = tlocalD(4) [OF L t]
  have i: "?i < pkgs T" by (rule topo_okD(5) [OF ok t(1)])
  have lt: "leader T ?i = t" by (rule leader_unique [OF ok t(1) lead])
  have root: "?i = 0 \<longleftrightarrow> t = 0" by (rule leads_pkg_0 [OF ok t(1) lead])
  have p: "?p = (if t \<noteq> 0 then Report else WakeT 0)" using root lead topo_okD(3) [OF ok] by (simp add: to_spin_def to_wake_def)
  have upc: "up s c = left s t + 1" if c: "c \<in> kids T ?i" for c
  proof -
    have "seen s t = left s t + 1" "reloads s t = left s t" using t(2) by (simp_all add: past_def)
    then show ?thesis using tarriveD(1,3) [OF A i c] lt by simp
  qed
  have other: "past n ?s u = past n s u" if "u \<noteq> t" for n u using that by simp
  have kid: "c \<noteq> t \<or> t \<noteq> 0" if "c \<in> kids T j" for c j using that by (auto simp: kids_def)
  have upkid: "up ?s c = up s c" if "c \<in> kids T j" for c j
    using kid [OF that] t(2) unfolding p by (auto simp: past_def tgoto_def set_count_def)
  have rel: "reloads ?s t = left s t + 1" "seen ?s t = left s t + 1" unfolding p by simp_all
  have "tlocal T ?s" by (rule tlocal_goto [OF L, of t ?p]) (use t lead p in auto)
  moreover have "tarrive T ?s"
    unfolding tarrive_def
  proof (intro allI impI)
    fix j assume j: "j < pkgs T"
    show "(\<forall>c \<in> kids T j. seen ?s (leader T j) \<le> up ?s c \<and> reloads ?s (leader T j) \<le> up ?s c \<and>
        up ?s c \<le> reloads ?s (leader T j) + 1) \<and> cnr ?s j = of_nat (card {c \<in> kids T j. up ?s c = reloads ?s (leader T j)})"
    proof (cases "j = ?i")
      case True
      then have l: "leader T j = t" using lt by simp
      have U: "up ?s c = left s t + 1" if "c \<in> kids T j" for c
        using upkid [OF that] upc that True by simp
      have "{c \<in> kids T j. up ?s c = left s t + 1} = kids T j" using U by blast
      moreover have "cnr ?s j = of_nat (card (kids T j))" using True card_kids [OF ok j] by simp
      ultimately show ?thesis unfolding l rel using U by auto
    next
      case False
      then have ne: "leader T j \<noteq> t" using leader_props(3) [OF ok j] by auto
      have S: "{c \<in> kids T j. up ?s c = reloads s (leader T j)} = {c \<in> kids T j. up s c = reloads s (leader T j)}"
        by (rule Collect_cong, rule conj_cong [OF refl], simp only: upkid)
      have "seen s (leader T j) \<le> up ?s c" "reloads s (leader T j) \<le> up ?s c" "up ?s c \<le> reloads s (leader T j) + 1"
        if c: "c \<in> kids T j" for c
        unfolding upkid [OF c] by (rule tarriveD(1-3) [OF A j c])+
      moreover have "cnr ?s j = of_nat (card {c \<in> kids T j. up s c = reloads s (leader T j)})"
        using False tarriveD(4) [OF A j] by simp
      ultimately show ?thesis unfolding other [OF ne] S by blast
    qed
  qed
  moreover have "twake T ?s"
  proof -
    have high: "past n ?s u = past n s u" if "5 \<le> n" for n u
      using that t(2) unfolding p by (auto simp: past_def tgoto_def set_count_def)
    have w: "woken ?s u = woken s u" if "u \<noteq> 0" for u
      using that t(2) unfolding p by (auto simp: past_def tgoto_def set_count_def)
    have sig: "sig T ?s j = sig T s j" for j by (rule sig_cong) (rule high)
    show ?thesis
      unfolding twake_def
    proof (intro conjI allI impI)
      show "psense ?s j = of_nat (sig T ?s j)" if "j < pkgs T" for j
        unfolding sig using W that by (simp add: twake_def)
      show "woken ?s u \<le> sig T ?s (pkg_of T u)" if "u < threads T" "u \<noteq> 0" for u
        unfolding sig w [OF that(2)] using W that by (simp add: twake_def)
    qed
  qed
  ultimately show ?thesis by (simp add: topo_inv_def)
qed

text \<open>A report: the counter of the boss's package goes down, and is not zero before.\<close>

lemma topo_inv_report:
  assumes ok: "topo_ok T" and inv: "topo_inv T s" and t: "t < threads T" "tpcs s t = Report \<or> tpcs s t = Decrement"
  shows "topo_inv T (tgoto t (to_spin T t) (set_count (boss T t) (cnr s (boss T t) - 1) s))" (is "topo_inv T ?s")
proof -
  have A: "tarrive T s" and L: "tlocal T s" and W: "twake T s" using inv by (simp_all add: topo_inv_def)
  let ?b = "boss T t" and ?l = "leader T (boss T t)"
  have t0: "t \<noteq> 0" using t(2) tlocalD(5,6) [OF L t(1)] topo_okD(3) [OF ok] by metis
  have spin: "to_spin T t = SpinT" using t0 by (simp add: to_spin_def)
  have b: "?b < pkgs T" by (rule boss_below(1) [OF ok t(1) t0])
  have k: "t \<in> kids T ?b" using t(1) t0 by (simp add: kids_def)
  have upt: "up s t = left s t" "woken s t = left s t" "up ?s t = left s t + 1" "woken ?s t = left s t"
    using t(2) spin by (auto simp: past_def tgoto_def)
  have "woken s t \<le> up s ?l" by (rule topo_woken_le_up [OF ok inv t(1) leader_props(1) [OF ok b]])
  also have "\<dots> \<le> reloads s ?l" by (rule past_antimono) simp
  finally have eq: "up s t = reloads s ?l" using tarriveD(2) [OF A b k] upt by simp
  have other: "past n ?s u = past n s u" if "u \<noteq> t" for n u using that by simp
  have lead: "seen ?s (leader T j) = seen s (leader T j) \<and> reloads ?s (leader T j) = reloads s (leader T j)"
    if j: "j < pkgs T" for j
  proof (cases "leader T j = t")
    case True
    then have "leads T t" using leader_props(2) [OF ok j] by simp
    then have "tpcs s t = Report" using t(2) tlocalD(6) [OF L t(1)] by blast
    then show ?thesis using True spin by (simp add: past_def tgoto_def set_count_def)
  qed (use other in simp)
  have "tlocal T ?s" by (rule tlocal_goto [OF L, of t SpinT]) (use t t0 spin in auto)
  moreover have "tarrive T ?s"
    unfolding tarrive_def
  proof (intro allI impI)
    fix j assume j: "j < pkgs T"
    let ?S = "{c \<in> kids T j. up s c = reloads s (leader T j)}" and ?S' = "{c \<in> kids T j. up ?s c = reloads s (leader T j)}"
    have mono: "up s c \<le> up ?s c" for c using other [of c] upt by (cases "c = t") simp_all
    show "(\<forall>c \<in> kids T j. seen ?s (leader T j) \<le> up ?s c \<and> reloads ?s (leader T j) \<le> up ?s c \<and>
        up ?s c \<le> reloads ?s (leader T j) + 1) \<and> cnr ?s j = of_nat (card {c \<in> kids T j. up ?s c = reloads ?s (leader T j)})"
    proof (cases "j = ?b")
      case True
      have S: "t \<in> ?S" "?S' = ?S - {t}" using k eq True upt other by auto
      have card: "card ?S = Suc (card ?S')" unfolding S(2) by (rule card.remove [OF _ S(1)]) simp
      have "up ?s c \<le> reloads s (leader T j) + 1" if "c \<in> kids T j" for c
        using tarriveD(3) [OF A j that] eq upt other [of c] True by (cases "c = t") simp_all
      moreover have "seen s (leader T j) \<le> up ?s c" "reloads s (leader T j) \<le> up ?s c" if "c \<in> kids T j" for c
        using tarriveD(1,2) [OF A j that] mono [of c] by (blast intro: order_trans)+
      moreover have "cnr ?s j = of_nat (card ?S')"
      proof -
        have "cnr ?s j = cnr s j - 1" using True by simp
        also have "cnr s j = of_nat (Suc (card ?S'))" using tarriveD(4) [OF A j] unfolding card .
        finally show ?thesis by (simp only: of_nat_Suc add_diff_cancel_left')
      qed
      ultimately show ?thesis unfolding lead [OF j, THEN conjunct1] lead [OF j, THEN conjunct2] by blast
    next
      case False
      then have nt: "t \<notin> kids T j" by (auto simp: kids_def)
      then have E: "up ?s c = up s c" if "c \<in> kids T j" for c using that other by metis
      have S: "?S' = ?S" by (rule Collect_cong, rule conj_cong [OF refl], simp only: E)
      have "seen s (leader T j) \<le> up ?s c" "reloads s (leader T j) \<le> up ?s c" "up ?s c \<le> reloads s (leader T j) + 1"
        if c: "c \<in> kids T j" for c
        unfolding E [OF c] by (rule tarriveD(1-3) [OF A j c])+
      moreover have "cnr ?s j = of_nat (card ?S')" unfolding S using False tarriveD(4) [OF A j] by simp
      ultimately show ?thesis unfolding lead [OF j, THEN conjunct1] lead [OF j, THEN conjunct2] by blast
    qed
  qed
  moreover have "twake T ?s"
    by (rule twake_same [OF ok W]) (use t(2) spin in \<open>auto simp: past_def tgoto_def set_count_def\<close>)
  ultimately show ?thesis by (simp add: topo_inv_def)
qed

lemma topo_inv_spin:
  assumes ok: "topo_ok T" and inv: "topo_inv T s" and t: "t < threads T" "tpcs s t = SpinT"
    and go: "psense s (pkg_of T t) = tsense s t"
  shows "topo_inv T (tgoto t (to_wake T t) s)" (is "topo_inv T ?s")
proof -
  have A: "tarrive T s" and L: "tlocal T s" and W: "twake T s" using inv by (simp_all add: topo_inv_def)
  let ?i = "pkg_of T t"
  have i: "?i < pkgs T" by (rule topo_okD(5) [OF ok t(1)])
  have t0: "t \<noteq> 0" by (rule tlocalD(7) [OF L t])
  have pt: "woken s t = left s t" "up s t = left s t + 1" "owned s t = left s t" using t(2) by (simp_all add: past_def)
  have "sig T s ?i \<le> woken s 0" by (rule sig_root_most [OF ok W i])
  also have "\<dots> \<le> up s t" by (rule topo_woken_le_up [OF ok inv topo_okD(1) [OF ok] t(1)])
  finally have "sig T s ?i \<le> left s t + 1" using pt by simp
  moreover have "woken s t \<le> sig T s ?i" using W t(1) t0 by (simp add: twake_def)
  then have "left s t \<le> sig T s ?i" using pt by simp
  moreover have "(of_nat (sig T s ?i) :: u32) = of_nat (left s t + 1)"
    using W i go tlocalD(1) [OF L t(1)] by (simp add: twake_def)
  ultimately have sig: "sig T s ?i = left s t + 1" by (cases "sig T s ?i = left s t") auto
  have other: "past n ?s u = past n s u" if "u \<noteq> t \<or> n \<le> 3" for n u using that t(2) by (auto simp: past_def to_wake_def)
  have sent: "past n ?s t = past n s t" if "leads T t" "5 \<le> n" for n
    using that t(2) by (simp add: past_def to_wake_def)
  have sigs: "sig T ?s j = sig T s j" if "j < pkgs T" for j
  proof (cases "j = 0")
    case True
    then show ?thesis using other [of 0] t0 by (simp add: sig_def)
  next
    case False
    then have q: "(j - 1) div 2 < pkgs T" using that by auto
    have "past n ?s (leader T ((j - 1) div 2)) = past n s (leader T ((j - 1) div 2))" if "5 \<le> n" for n
      using other [of "leader T ((j - 1) div 2)" n] sent [OF _ that] leader_props(2) [OF ok q]
      by (cases "leader T ((j - 1) div 2) = t") auto
    then show ?thesis using False by (simp add: sig_def)
  qed
  have "tlocal T ?s" by (rule tlocal_goto [OF L, of t "to_wake T t"]) (use t may_be_after [of T t] in auto)
  moreover have "tarrive T ?s" by (rule tarrive_cong [OF A]) (use other tarriveD(1) [OF A] in simp_all)
  moreover have "twake T ?s"
    unfolding twake_def
  proof (intro conjI allI impI)
    show "psense ?s j = of_nat (sig T ?s j)" if "j < pkgs T" for j using W sigs [OF that] that by (simp add: twake_def)
    show "woken ?s u \<le> sig T ?s (pkg_of T u)" if "u < threads T" "u \<noteq> 0" for u
    proof (cases "u = t")
      case True
      then show ?thesis using sig sigs [OF i] by (simp add: to_wake_def)
    next
      case False
      then show ?thesis using W that other [of u] sigs [OF topo_okD(5) [OF ok that(1)]] by (simp add: twake_def)
    qed
  qed
  ultimately show ?thesis by (simp add: topo_inv_def)
qed

text \<open>Setting the sense of a package counts as a signal to it; the other signals stay.\<close>

lemma topo_inv_signal:
  assumes ok: "topo_ok T" and inv: "topo_inv T s" and t: "t < threads T" "4 \<le> ahead (tpcs s t)" "4 \<le> ahead p"
    and loc: "p \<noteq> Out" "may_be T t p"
    and s': "tpcs s' = (tpcs s)(t := p)" "cnr s' = cnr s" "tsense s' = tsense s"
      "entered s' = entered s" "left s' = left s"
    and sense: "\<And>j. j < pkgs T \<Longrightarrow> sig T s j \<le> sig T s' j \<and> psense s' j = of_nat (sig T s' j)"
  shows "topo_inv T s'"
proof -
  have A: "tarrive T s" and L: "tlocal T s" and W: "twake T s" using inv by (simp_all add: topo_inv_def)
  have same: "past n s' u = past n s u" if "n \<le> 4" for n u using that t s' by (auto simp: past_def)
  have "tpcs s t \<noteq> Out" using t(2) by auto
  then have "tlocal T s'" using s' by (intro tlocal_goto [OF L _ loc]) simp_all
  moreover have "tarrive T s'" by (rule tarrive_cong [OF A]) (use same s' tarriveD(1) [OF A] in simp_all)
  moreover have "twake T s'"
    unfolding twake_def
  proof (intro conjI allI impI)
    show "psense s' j = of_nat (sig T s' j)" if "j < pkgs T" for j using sense [OF that] by simp
    show "woken s' u \<le> sig T s' (pkg_of T u)" if "u < threads T" "u \<noteq> 0" for u
      using W that same [of 4 u] sense [OF topo_okD(5) [OF ok that(1)]] unfolding twake_def by fastforce
  qed
  ultimately show ?thesis by (simp add: topo_inv_def)
qed

lemma topo_inv_wake:
  assumes ok: "topo_ok T" and inv: "topo_inv T s" and t: "t < threads T" "tpcs s t = WakeT k"
  shows "topo_inv T (tgoto t (if k = 0 then WakeT 1 else if t = 0 then OwnSense else Leave)
    (if 2 * pkg_of T t + k + 1 < pkgs T then set_psense (2 * pkg_of T t + k + 1) (tsense s t) s else s))"
    (is "topo_inv T (tgoto t ?p ?s0)")
proof -
  have L: "tlocal T s" and W: "twake T s" using inv by (simp_all add: topo_inv_def)
  let ?s = "tgoto t ?p ?s0" and ?i = "pkg_of T t"
  have k: "leads T t" "k < 2" using tlocalD(8) [OF L t] by auto
  have lt: "leader T ?i = t" by (rule leader_unique [OF ok t(1) k(1)])
  have pst: "past n ?s u = (if u = t \<and> n = 5 + k then left s t + 1 else past n s u)" if "5 \<le> n" "u = t \<longrightarrow> n < 7" for n u
    using that t(2) k(2) by (auto simp: past_def less_Suc_eq numeral_eq_Suc)
  have old: "past (5 + k) s t = left s t" using t(2) by (simp add: past_def)
  have own: "owned ?s 0 = owned s 0"
    using t(2) k(2) by (auto simp: past_def tgoto_def set_psense_def)
  have sig: "sig T ?s j = (if j = 2 * ?i + k + 1 then left s t + 1 else sig T s j)" if j: "j < pkgs T" for j
  proof (cases "j = 0")
    case True
    then show ?thesis using own by (simp add: sig_def)
  next
    case False
    let ?q = "(j - 1) div 2" and ?m = "(j - 1) mod 2"
    have q: "?q < pkgs T" using False j by auto
    have "leader T ?q = t \<longleftrightarrow> ?q = ?i" using leader_props(3) [OF ok q] lt by metis
    moreover have "j = 2 * ?q + ?m + 1" using False by simp
    moreover have "?q = ?i \<and> ?m = k" if "j = 2 * ?i + k + 1" using that k(2) by presburger
    ultimately have iff: "leader T ?q = t \<and> 5 + ?m = 5 + k \<longleftrightarrow> j = 2 * ?i + k + 1" by (metis add_left_cancel)
    have "sent ?s (leader T ?q) ?m = (if leader T ?q = t \<and> 5 + ?m = 5 + k then left s t + 1 else sent s (leader T ?q) ?m)"
      by (rule pst) simp_all
    then show ?thesis using False iff by (simp only: sig_def if_False)
  qed
  have oldsig: "sig T s (2 * ?i + k + 1) = left s t" if "2 * ?i + k + 1 < pkgs T"
  proof -
    have "(2 * ?i + k + 1 - 1) div 2 = ?i" "(2 * ?i + k + 1 - 1) mod 2 = k" using k(2) by simp_all
    then have "sig T s (2 * ?i + k + 1) = sent s (leader T ?i) k" by (simp only: sig_def) simp
    then show ?thesis using lt old by simp
  qed
  show ?thesis
  proof (rule topo_inv_signal [OF ok inv t(1), where p = ?p])
    show "sig T s j \<le> sig T ?s j \<and> psense ?s j = of_nat (sig T ?s j)" if j: "j < pkgs T" for j
      using sig [OF j] oldsig j W tlocalD(1) [OF L t(1)] by (auto simp: twake_def)
  qed (use t(2) k in auto)
qed

lemma topo_inv_own:
  assumes ok: "topo_ok T" and inv: "topo_inv T s" and t: "t < threads T" "tpcs s t = OwnSense"
  shows "topo_inv T (tgoto t Leave (set_psense (pkg_of T t) (tsense s t) s))" (is "topo_inv T ?s")
proof -
  have L: "tlocal T s" and W: "twake T s" using inv by (simp_all add: topo_inv_def)
  have t0: "t = 0" by (rule tlocalD(9) [OF L t])
  have same: "past n ?s u = past n s u" if "u \<noteq> 0 \<or> n \<le> 6" for n u using that t(2) t0 by (auto simp: past_def)
  have sig: "sig T ?s j = (if j = 0 then left s t + 1 else sig T s j)" for j
  proof (cases "j = 0")
    case False
    have "sent ?s u ((j - 1) mod 2) = sent s u ((j - 1) mod 2)" for u
    proof (rule same, intro disjI2)
      have "(j - 1) mod 2 < 2" by simp
      then show "5 + (j - 1) mod 2 \<le> 6" by linarith
    qed
    then show ?thesis using False by (simp only: sig_def if_False)
  qed (simp add: sig_def t0)
  have old: "sig T s 0 = left s t" using t(2) t0 by (simp add: sig_def past_def)
  show ?thesis
  proof (rule topo_inv_signal [OF ok inv t(1), where p = Leave])
    show "sig T s j \<le> sig T ?s j \<and> psense ?s j = of_nat (sig T ?s j)" if j: "j < pkgs T" for j
      using sig [of j] old j W tlocalD(1) [OF L t(1)] t0 topo_okD(4) [OF ok] by (auto simp: twake_def)
  qed (use t(2) in auto)
qed

lemma topo_inv_leave:
  assumes ok: "topo_ok T" and inv: "topo_inv T s" and t: "t < threads T" "tpcs s t = Leave"
  shows "topo_inv T (tgoto t Out (s\<lparr>tsense := (tsense s)(t := tsense s t + 1), left := (left s)(t := left s t + 1)\<rparr>))"
    (is "topo_inv T ?s")
proof -
  have A: "tarrive T s" and L: "tlocal T s" and W: "twake T s" using inv by (simp_all add: topo_inv_def)
  have same: "past n ?s u = past n s u" if "0 < n" "n \<le> 7" for n u using t(2) that by (auto simp: past_def tgoto_def)
  have "tlocal T ?s" using L t unfolding tlocal_def by (auto simp: tgoto_def)
  moreover have "tarrive T ?s"
    by (rule tarrive_cong [OF A]) (use same tarriveD(1) [OF A] in \<open>simp_all add: tgoto_def\<close>)
  moreover have "twake T ?s"
  proof -
    have "sig T ?s j = sig T s j" for j
    proof -
      have "(j - 1) mod 2 < 2" by simp
      then have "sent ?s u ((j - 1) mod 2) = sent s u ((j - 1) mod 2)" for u by (intro same) linarith+
      moreover have "owned ?s 0 = owned s 0" by (rule same) simp_all
      ultimately show ?thesis by (simp only: sig_def)
    qed
    moreover have "woken ?s u = woken s u" for u by (rule same) simp_all
    ultimately show ?thesis using W unfolding twake_def by (simp add: tgoto_def)
  qed
  ultimately show ?thesis by (simp add: topo_inv_def)
qed

lemma topo_next_inv:
  assumes ok: "topo_ok T" and inv: "topo_inv T s" and t: "t < threads T" and step: "topo_next T t s = Some s'"
  shows "topo_inv T s'"
proof (cases "tpcs s t")
  case Report
  then have "boss T t = (pkg_of T t - 1) div 4" using tlocalD(5) [of T s t] inv t by (simp add: topo_inv_def boss_def)
  then show ?thesis using step Report topo_inv_report [OF ok inv t] by (simp add: topo_next_def Let_def)
next
  case Decrement
  then have "boss T t = pkg_of T t" using tlocalD(6) [of T s t] inv t by (simp add: topo_inv_def boss_def)
  then show ?thesis using step Decrement topo_inv_report [OF ok inv t] by (simp add: topo_next_def Let_def)
qed (use step topo_inv_enter [OF ok inv t] topo_inv_await [OF ok inv t] topo_inv_reload [OF ok inv t] topo_inv_spin [OF ok inv t]
    topo_inv_wake [OF ok inv t] topo_inv_own [OF ok inv t] topo_inv_leave [OF ok inv t] in
    \<open>auto simp: topo_next_def Let_def split: if_splits\<close>)

lemma topo_reach_inv:
  assumes ok: "topo_ok T" and "topo_reach T s"
  shows "topo_inv T s"
  using assms(2)
proof induction
  case start
  show ?case by (rule topo_init_inv [OF ok])
next
  case (step s t s')
  then show ?case using topo_next_inv [OF ok] by blast
qed

section \<open>No deadlock\<close>

text \<open>
  When no thread can move, each waits for its children or for its signal. All are then in the same round, and the
  last package that waits for its children waits for a thread that waits itself.
\<close>

definition all_stuck :: "topo \<Rightarrow> topo_state \<Rightarrow> bool" where
  "all_stuck T s \<longleftrightarrow> (\<forall>t<threads T. tpcs s t \<noteq> Out \<and> topo_next T t s = None)"

lemma stuck_points:
  assumes "all_stuck T s" "t < threads T"
  shows "tpcs s t = Await \<and> cnr s (pkg_of T t) \<noteq> 0 \<or> tpcs s t = SpinT \<and> psense s (pkg_of T t) \<noteq> tsense s t"
proof -
  have "tpcs s t \<noteq> Out" "topo_next T t s = None" using assms by (simp_all add: all_stuck_def)
  then show ?thesis by (cases "tpcs s t") (simp_all add: topo_next_def Let_def split: if_splits)
qed

lemma stuck_counts:
  assumes "all_stuck T s" "t < threads T"
  shows "woken s t = left s t" "reloads s t = left s t + of_bool (tpcs s t = SpinT)" "up s t = left s t + of_bool (tpcs s t = SpinT)"
    "sent s t k = left s t" "owned s t = left s t"
  using stuck_points [OF assms] by (auto simp: past_def)

lemma stuck_round:
  assumes ok: "topo_ok T" and inv: "topo_inv T s" and stuck: "all_stuck T s" and t: "t < threads T"
  shows "left s t \<le> left s 0" "tpcs s t = Await \<Longrightarrow> left s t = left s 0" "left s 0 \<le> left s t + 1"
proof -
  have L: "tlocal T s" and A: "tarrive T s" and W: "twake T s" using inv by (simp_all add: topo_inv_def)
  have 0: "0 < threads T" by (rule topo_okD(1) [OF ok])
  have "tpcs s 0 \<noteq> SpinT" using tlocalD(7) [OF L 0] by blast
  then have up0: "up s 0 = left s 0" using stuck_counts(3) [OF stuck 0] by simp
  show le: "left s t \<le> left s 0"
    using topo_woken_root_most [OF ok W t] stuck_counts(1) [OF stuck 0] stuck_counts(1) [OF stuck t] by simp
  have "left s 0 \<le> up s t" using topo_up_root_least [OF ok A t] up0 by simp
  then show "left s 0 \<le> left s t + 1" "tpcs s t = Await \<Longrightarrow> left s t = left s 0"
    using stuck_counts(3) [OF stuck t] le by (cases "tpcs s t = SpinT"; simp)+
qed

text \<open>A thread that waits for its signal is in the round of the thread that will send it.\<close>

lemma stuck_spin:
  assumes ok: "topo_ok T" and inv: "topo_inv T s" and stuck: "all_stuck T s" and t: "t < threads T" "t \<noteq> 0"
    and sig: "sig T s (pkg_of T t) = left s 0"
  shows "left s t = left s 0"
proof (cases "tpcs s t = Await")
  case False
  have W: "twake T s" and L: "tlocal T s" using inv by (simp_all add: topo_inv_def)
  have "psense s (pkg_of T t) \<noteq> tsense s t" using stuck_points [OF stuck t(1)] False by blast
  then have "left s 0 \<noteq> left s t + 1"
    using W topo_okD(5) [OF ok t(1)] tlocalD(1) [OF L t(1)] sig by (auto simp: twake_def)
  then show ?thesis using stuck_round(1,3) [OF ok inv stuck t(1)] by simp
qed (use stuck_round(2) [OF ok inv stuck t(1)] in blast)

lemma stuck_leaders:
  assumes ok: "topo_ok T" and inv: "topo_inv T s" and stuck: "all_stuck T s"
  shows "i < pkgs T \<Longrightarrow> left s (leader T i) = left s 0"
proof (induction i rule: less_induct)
  case (less i)
  show ?case
  proof (cases "i = 0")
    case False
    note l = leader_props [OF ok less.prems]
    let ?q = "(i - 1) div 2"
    have q: "?q < i" "?q < pkgs T" using False less.prems by auto
    have "leader T i \<noteq> 0" using leads_pkg_0 [OF ok l(1,2)] l(3) False by simp
    moreover have "sig T s i = left s (leader T ?q)"
      using False stuck_counts(4) [OF stuck leader_props(1) [OF ok q(2)]] by (simp only: sig_def if_False)
    ultimately show ?thesis using stuck_spin [OF ok inv stuck l(1)] less.IH [OF q] l(3) by simp
  qed (simp add: leader_0 [OF ok])
qed

lemma stuck_all:
  assumes ok: "topo_ok T" and inv: "topo_inv T s" and stuck: "all_stuck T s" and t: "t < threads T"
  shows "left s t = left s 0"
proof (cases "t = 0")
  case False
  let ?i = "pkg_of T t" and ?q = "(pkg_of T t - 1) div 2"
  have i: "?i < pkgs T" by (rule topo_okD(5) [OF ok t])
  have "sig T s ?i = left s 0"
  proof (cases "?i = 0")
    case True
    then show ?thesis using stuck_counts(5) [OF stuck topo_okD(1) [OF ok]] by (simp add: sig_def)
  next
    case False
    then have q: "?q < pkgs T" using i by auto
    have "sig T s ?i = left s (leader T ?q)"
      using False stuck_counts(4) [OF stuck leader_props(1) [OF ok q]] by (simp only: sig_def if_False)
    then show ?thesis using stuck_leaders [OF ok inv stuck q] by simp
  qed
  then show ?thesis by (rule stuck_spin [OF ok inv stuck t False])
qed simp

lemma not_all_stuck:
  assumes ok: "topo_ok T" and inv: "topo_inv T s"
  shows "\<not> all_stuck T s"
proof
  assume stuck: "all_stuck T s"
  have L: "tlocal T s" and A: "tarrive T s" using inv by (simp_all add: topo_inv_def)
  let ?W = "{i. i < pkgs T \<and> tpcs s (leader T i) = Await}"
  have 0: "0 < threads T" by (rule topo_okD(1) [OF ok])
  have "tpcs s 0 \<noteq> SpinT" using tlocalD(7) [OF L 0] by blast
  then have "tpcs s 0 = Await" using stuck_points [OF stuck 0] by blast
  then have "0 \<in> ?W" using leader_0 [OF ok] topo_okD(5) [OF ok 0] topo_okD(4) [OF ok] by simp
  moreover have fin: "finite ?W" by simp
  ultimately have max: "Max ?W \<in> ?W" by (intro Max_in) blast+
  define i where "i = Max ?W"
  have i: "i < pkgs T" "tpcs s (leader T i) = Await" using max by (simp_all add: i_def)
  note l = leader_props [OF ok i(1)]
  have rel: "reloads s (leader T i) = left s 0"
    unfolding stuck_counts(2) [OF stuck l(1)] stuck_all [OF ok inv stuck l(1)] i(2) by simp
  have "cnr s (pkg_of T (leader T i)) \<noteq> 0" using stuck_points [OF stuck l(1)] i(2) by simp
  then have missing: "cnr s i \<noteq> 0" unfolding l(3) .
  have "{c \<in> kids T i. up s c = left s 0} \<noteq> {}"
  proof
    assume e: "{c \<in> kids T i. up s c = left s 0} = {}"
    have "cnr s i = 0" using tarriveD(4) [OF A i(1)] unfolding rel e by simp
    with missing show False ..
  qed
  then obtain c where c: "c \<in> kids T i" "up s c = left s 0" by blast
  then have ct: "c < threads T" "c \<noteq> 0" "boss T c = i" by (simp_all add: kids_def)
  have "tpcs s c \<noteq> SpinT"
    using stuck_counts(3) [OF stuck ct(1)] stuck_all [OF ok inv stuck ct(1)] c(2) by (cases "tpcs s c = SpinT") simp_all
  then have "tpcs s c = Await" using stuck_points [OF stuck ct(1)] by blast
  moreover from this have lead: "leads T c" by (rule tlocalD(3) [OF L ct(1)])
  ultimately have "pkg_of T c \<in> ?W" using leader_unique [OF ok ct(1)] topo_okD(5) [OF ok ct(1)] by simp
  then have "pkg_of T c \<le> i" unfolding i_def by (rule Max_ge [OF fin])
  then show False using boss_below(2) [OF ok ct(1,2) lead] ct(3) by simp
qed

section \<open>Properties\<close>

text \<open>
  C14: nobody leaves \<open>TopoBarrier\<close> before all have come. On the packages of any machine, for any number of its threads and in
  every interleaving, a thread that has left \<open>wait\<close> for the \<open>k\<close>th time has done so after every thread entered it for the
  \<open>k\<close>th time, and no thread is more than one round ahead. The 32-bit counters and senses may wrap.
\<close>

theorem topo_barrier_safe:
  assumes "P \<le> length physids" "P < 2 ^ 32" "topo_reach (topo_of physids P) s" "t < P" "u < P"
  shows "left s t \<le> entered s u \<and> entered s u \<le> left s t + 1 + of_bool (tpcs s t \<noteq> Out)"
proof -
  have P: "threads (topo_of physids P) = P" by (simp add: topo_of_def)
  have ok: "topo_ok (topo_of physids P)" using assms by (intro topo_of_ok) auto
  note inv = topo_reach_inv [OF ok assms(3)]
  have ent: "entered s v = left s v + of_bool (tpcs s v \<noteq> Out)" if "v < P" for v
    using tlocalD(2) [of "topo_of physids P" s v] inv that P by (simp add: topo_inv_def)
  have rel: "left s v \<le> entered s w" if "v < P" "w < P" for v w
  proof -
    have "left s v \<le> woken s v" by (simp add: past_def)
    also have "\<dots> \<le> up s w" using topo_woken_le_up [OF ok inv] that P by simp
    also have "\<dots> \<le> entered s w" using ent [OF that(2)] by (cases "tpcs s w") (simp_all add: past_def)
    finally show ?thesis .
  qed
  have "entered s u \<le> left s u + 1" using ent [OF assms(5)] by simp
  also have "\<dots> \<le> entered s t + 1" using rel [OF assms(5,4)] by simp
  also have "\<dots> = left s t + 1 + of_bool (tpcs s t \<noteq> Out)" using ent [OF assms(4)] by simp
  finally show ?thesis using rel [OF assms(4,5)] by blast
qed

text \<open>
  C15: \<open>TopoBarrier\<close> does not deadlock: when all threads are in \<open>wait\<close>, one of them can go on.
\<close>

theorem topo_barrier_no_deadlock:
  assumes "0 < P" "P \<le> length physids" "P < 2 ^ 32" "topo_reach (topo_of physids P) s" "\<forall>t<P. tpcs s t \<noteq> Out"
  shows "\<exists>t<P. topo_next (topo_of physids P) t s \<noteq> None"
proof -
  have ok: "topo_ok (topo_of physids P)" by (rule topo_of_ok [OF assms(1-3)])
  have "\<not> all_stuck (topo_of physids P) s" by (rule not_all_stuck [OF ok topo_reach_inv [OF ok assms(4)]])
  then show ?thesis using assms(5) by (auto simp: all_stuck_def topo_of_def)
qed

text \<open>Two packages of two threads; the schedule lists who takes the next step.\<close>

fun topo_run :: "topo \<Rightarrow> nat list \<Rightarrow> topo_state \<Rightarrow> topo_state option" where
  "topo_run T [] s = Some s"
| "topo_run T (t # ts) s =
     (if t < threads T then case topo_next T t s of None \<Rightarrow> None | Some s1 \<Rightarrow> topo_run T ts s1 else None)"

lemma topo_run_reach: "topo_reach T s \<Longrightarrow> topo_run T ts s = Some s' \<Longrightarrow> topo_reach T s'"
proof (induction ts arbitrary: s)
  case (Cons t ts)
  then obtain s1 where "t < threads T" "topo_next T t s = Some s1" "topo_run T ts s1 = Some s'"
    by (auto split: if_splits option.splits)
  with Cons topo_reach.step show ?case by blast
qed simp

abbreviation two_by_two :: topo where
  "two_by_two \<equiv> topo_of [7, 7, 3, 3] 4"

theorem topo_barrier_safe_witness:
  "\<exists>s. topo_reach two_by_two s \<and> left s 3 = 1 \<and> left s 1 = 0 \<and> left s 3 \<le> entered s 1"
proof -
  let ?ts = "[1, 1, 3, 3, 2, 2, 2, 2, 0, 0, 0, 0, 0, 0, 3, 3] :: nat list"
  have "map_option (\<lambda>s. (left s 3, left s 1)) (topo_run two_by_two ?ts (topo_init two_by_two)) = Some (1, 0)"
    by code_simp
  then obtain s where s: "topo_run two_by_two ?ts (topo_init two_by_two) = Some s" "left s 3 = 1" "left s 1 = 0" by auto
  have r: "topo_reach two_by_two s" by (rule topo_run_reach [OF topo_reach.start s(1)])
  with s topo_barrier_safe [OF _ _ r, of 3 1] show ?thesis by auto
qed

theorem topo_barrier_no_deadlock_witness:
  "\<exists>s. topo_reach two_by_two s \<and> topo_next two_by_two 0 s = None \<and> (\<exists>t<4. topo_next two_by_two t s \<noteq> None)"
proof -
  have "map_option (\<lambda>s. (topo_next two_by_two 0 s = None, list_all (\<lambda>t. tpcs s t \<noteq> Out) [0..<4]))
      (topo_run two_by_two [0, 1, 2, 3] (topo_init two_by_two)) = Some (True, True)" by code_simp
  then obtain s where s: "topo_run two_by_two [0, 1, 2, 3] (topo_init two_by_two) = Some s"
    "topo_next two_by_two 0 s = None" "\<forall>t<4. tpcs s t \<noteq> Out" by (auto simp: list_all_iff)
  have r: "topo_reach two_by_two s" by (rule topo_run_reach [OF topo_reach.start s(1)])
  with s topo_barrier_no_deadlock [OF _ _ _ r] show ?thesis by auto
qed

end
