(* ===== verification/SimpleLists.thy ===== *)
theory SimpleLists
  imports Ranges
begin

text \<open>
  The worklists \<open>FIFO\<close> and \<open>LIFO\<close> of \<open>WorkList/Fifo.h\<close> and \<open>WorkList/Lifo.h\<close>: a \<open>std::deque\<close> behind a lock that every
  operation takes first and gives back last, so an operation is one step on the deque. They are the bins of the
  bucket scheduler of theory \<open>Obim\<close>, and \<open>work_bin\<close> is what that scheduler needs of a bin.
\<close>

section \<open>The operations\<close>

type_synonym 'a deque = "'a list"

definition FIFO_push :: "'a deque \<Rightarrow> 'a \<Rightarrow> 'a deque" where
  "FIFO_push wl val = wl @ [val]"

definition FIFO_push_range :: "'a deque \<Rightarrow> 'a list \<Rightarrow> nat \<times> 'a deque" where
  "FIFO_push_range wl vals = (let wl' = wl @ vals in (length wl' - length wl, wl'))"

definition FIFO_push_initial :: "nat \<Rightarrow> 'a deque \<Rightarrow> 'a list \<Rightarrow> nat \<times> 'a deque" where
  "FIFO_push_initial tid wl vals = (if tid = 0 then FIFO_push_range wl vals else (0, wl))"

definition FIFO_pop :: "'a deque \<Rightarrow> 'a deque \<times> 'a option" where
  "FIFO_pop wl = (case wl of [] \<Rightarrow> (wl, None) | x # wl' \<Rightarrow> (wl', Some x))"

definition LIFO_push :: "'a deque \<Rightarrow> 'a \<Rightarrow> 'a deque" where
  "LIFO_push wl val = wl @ [val]"

definition LIFO_push_range :: "'a deque \<Rightarrow> 'a list \<Rightarrow> nat \<times> 'a deque" where
  "LIFO_push_range wl vals = (let wl' = wl @ vals in (length wl' - length wl, wl'))"

definition LIFO_push_initial :: "nat \<Rightarrow> 'a deque \<Rightarrow> 'a list \<Rightarrow> nat \<times> 'a deque" where
  "LIFO_push_initial tid wl vals = (if tid = 0 then LIFO_push_range wl vals else (0, wl))"

definition LIFO_pop :: "'a deque \<Rightarrow> 'a deque \<times> 'a option" where
  "LIFO_pop wl = (if wl = [] then (wl, None) else (butlast wl, Some (last wl)))"

text \<open>
  \<open>steal\<close>: \<open>same\<close> is \<open>&victim == this\<close>, \<open>locked\<close> the result of \<open>TryLockPairOrdered\<close>. The result is the two deques and
  what was popped.
\<close>

definition LIFO_steal :: "bool \<Rightarrow> bool \<Rightarrow> bool \<Rightarrow> bool \<Rightarrow> 'a deque \<Rightarrow> 'a deque \<Rightarrow> 'a deque \<times> 'a deque \<times> 'a option" where
  "LIFO_steal same locked half pop wl victim =
     (if same \<or> \<not> locked then (wl, victim, None)
      else
        let (wl, victim) =
              (if half
               then (let split = split_range 0 (length victim) in (wl @ take split victim, drop split victim))
               else if wl = [] then (victim, wl)
               else (wl @ victim, []))
        in if pop \<and> wl \<noteq> [] then (butlast wl, victim, Some (last wl)) else (wl, victim, None))"

section \<open>What they do to the tasks\<close>

lemma FIFO_push_mset: "mset (FIFO_push wl x) = add_mset x (mset wl)"
  by (simp add: FIFO_push_def)

lemma FIFO_pop_Some: "FIFO_pop wl = (wl', Some x) \<longleftrightarrow> wl = x # wl'"
  by (auto simp: FIFO_pop_def split: list.splits)

lemma FIFO_pop_None: "FIFO_pop wl = (wl', None) \<longleftrightarrow> wl = [] \<and> wl' = []"
  by (auto simp: FIFO_pop_def split: list.splits)

lemma LIFO_push_mset: "mset (LIFO_push wl x) = add_mset x (mset wl)"
  by (simp add: LIFO_push_def)

lemma LIFO_pop_Some: "LIFO_pop wl = (wl', Some x) \<longleftrightarrow> wl = wl' @ [x]"
  by (auto simp: LIFO_pop_def)

lemma LIFO_pop_None: "LIFO_pop wl = (wl', None) \<longleftrightarrow> wl = [] \<and> wl' = []"
  by (auto simp: LIFO_pop_def)

text \<open>\<open>steal\<close> moves tasks between the two deques and loses none; a half rounded up goes over.\<close>

theorem LIFO_steal_keeps_tasks:
  "LIFO_steal same locked half pop wl victim = (wl', victim', r) \<Longrightarrow>
   mset wl + mset victim = mset wl' + mset victim' + (case r of None \<Rightarrow> {#} | Some x \<Rightarrow> {#x#}) \<and>
   (same \<or> \<not> locked \<longrightarrow> wl' = wl \<and> victim' = victim \<and> r = None) \<and>
   (\<not> same \<and> locked \<longrightarrow> length victim' = (if half then length victim div 2 else 0))"
proof -
  assume steal: "LIFO_steal same locked half pop wl victim = (wl', victim', r)"
  let ?split = "split_range 0 (length victim)"
  have halves: "mset (take ?split victim) + mset (drop ?split victim) = mset victim"
    by (metis append_take_drop_id mset_append)
  have last: "mset ws = add_mset (last ws) (mset (butlast ws))" if "ws \<noteq> []" for ws :: "'a list"
    using that mset_butlast_last [of ws] by simp
  show ?thesis
  proof (cases "same \<or> \<not> locked")
    case True
    with steal show ?thesis by (auto simp: LIFO_steal_def)
  next
    case False
    define moved where "moved = (if half then (wl @ take ?split victim, drop ?split victim) else
      if wl = [] then (victim, wl) else (wl @ victim, []))"
    have bag: "mset (fst moved) + mset (snd moved) = mset wl + mset victim"
      using halves by (auto simp: moved_def add.assoc)
    have len: "length (snd moved) = (if half then length victim div 2 else 0)"
      by (auto simp: moved_def split_range_def)
    have "LIFO_steal same locked half pop wl victim =
        (if pop \<and> fst moved \<noteq> [] then (butlast (fst moved), snd moved, Some (last (fst moved)))
         else (fst moved, snd moved, None))"
      using False by (simp add: LIFO_steal_def moved_def Let_def split: prod.splits)
    with steal have "victim' = snd moved"
      "wl' = (if pop \<and> fst moved \<noteq> [] then butlast (fst moved) else fst moved)"
      "r = (if pop \<and> fst moved \<noteq> [] then Some (last (fst moved)) else None)"
      by (auto split: if_splits)
    with bag len False last [of "fst moved"] show ?thesis by (auto simp: add.commute)
  qed
qed

section \<open>The interface of a bin\<close>

locale work_bin =
  fixes bin_new :: "'i::linorder \<Rightarrow> 'c" and bin_push :: "'c \<Rightarrow> 'a \<Rightarrow> 'c" and bin_pop :: "'c \<Rightarrow> 'c \<times> 'a option"
    and bin_bag :: "'c \<Rightarrow> 'a multiset"
  assumes new_bag: "bin_bag (bin_new i) = {#}"
    and push_bag: "bin_bag (bin_push c x) = add_mset x (bin_bag c)"
    and pop_Some: "bin_pop c = (c', Some x) \<Longrightarrow> bin_bag c = add_mset x (bin_bag c')"
    and pop_None: "bin_pop c = (c', None) \<Longrightarrow> bin_bag c = {#} \<and> bin_bag c' = {#}"

interpretation fifo_bin: work_bin "\<lambda>_. []" FIFO_push FIFO_pop mset
  by unfold_locales (auto simp: FIFO_push_mset FIFO_pop_Some FIFO_pop_None)

interpretation lifo_bin: work_bin "\<lambda>_. []" LIFO_push LIFO_pop mset
  by unfold_locales (auto simp: LIFO_push_mset LIFO_pop_Some LIFO_pop_None)

end
