(* ===== verification/Obim.thy ===== *)
theory Obim
  imports SimpleLists FlatMap HWTopo
begin

text \<open>
  \<open>OrderedByIntegerMetric\<close> of \<open>WorkList/Obim.h\<close>, the bucket scheduler: one bin per priority index. The master log lists the
  bins in the order of their creation; every thread has a map of its own from index to bin, brought up to date from the log.
  A bin is a worklist, \<open>Container\<close>: the parameters \<open>bin_new\<close>, \<open>bin_push\<close>, \<open>bin_pop\<close>. The address of a bin
  is its position in the list of bins; \<open>None\<close> is the null pointer, which \<open>operator[]\<close> of the map leaves at an index it
  has not met. An operation runs without interference here, so \<open>try_lock\<close> of the master lock succeeds at once;
  theory \<open>ObimProtocol\<close> interleaves the threads. Versions count bins and are natural numbers.
\<close>

section \<open>State\<close>

type_synonym 'i bin_map = "('i, nat option) flat_map"

record 'i perItem =
  local_map :: "'i bin_map"
  curIndex :: 'i
  scanStart :: 'i
  current :: "nat option"
  lastMasterVersion :: nat
  numPops :: u32

record ('i, 'c) obim =
  masterLog :: "('i \<times> nat) list"
  masterVersion :: nat
  items :: "'i perItem list"
  bins :: "'c list"
  numberOfPris :: nat

text \<open>The template parameters, \<open>std::numeric_limits<Index>::min()\<close>, \<open>activeThreads\<close> and the packages of the machine.\<close>

record 'i obim_cfg =
  BlockPeriod :: int
  BSP :: bool
  uniformBSP :: bool
  minIndex :: 'i
  activeThreads :: nat
  physids :: "nat list"

definition perItem_init :: "'i::linorder obim_cfg \<Rightarrow> 'i::linorder perItem" where
  "perItem_init cfg = \<lparr>local_map = [], curIndex = minIndex cfg, scanStart = minIndex cfg, current = None,
     lastMasterVersion = 0, numPops = 0\<rparr>"

definition Obim_init :: "'i::linorder obim_cfg \<Rightarrow> nat \<Rightarrow> ('i::linorder, 'c) obim" where
  "Obim_init cfg P = \<lparr>masterLog = [], masterVersion = 0, items = replicate P (perItem_init cfg), bins = [],
     numberOfPris = 0\<rparr>"

section \<open>The map of a thread\<close>

text \<open>\<open>p.local[i]\<close> as a value, and \<open>p.local[i] = c\<close>.\<close>

definition local_at :: "'i::linorder \<Rightarrow> 'i::linorder perItem \<Rightarrow> nat option \<times> 'i::linorder perItem" where
  "local_at i p = (let (j, d) = fm_index None i (local_map p) in (snd (d ! j), p\<lparr>local_map := d\<rparr>))"

definition local_put :: "'i::linorder \<Rightarrow> nat option \<Rightarrow> 'i::linorder perItem \<Rightarrow> 'i::linorder perItem" where
  "local_put i c p = (let (j, d) = fm_index None i (local_map p) in p\<lparr>local_map := d[j := (i, c)]\<rparr>)"

text \<open>\<open>updateLocal\<close>: the entries of the log from \<open>lastMasterVersion\<close> to \<open>masterVersion\<close>.\<close>

function update_loop :: "('i::linorder \<times> nat) list \<Rightarrow> nat \<Rightarrow> 'i::linorder perItem \<Rightarrow> 'i::linorder perItem" where
  "update_loop log v p =
     (if lastMasterVersion p < v
      then let entry = log ! lastMasterVersion p;
               p' = local_put (fst entry) (Some (snd entry)) p
           in update_loop log v (p'\<lparr>lastMasterVersion := lastMasterVersion p' + 1\<rparr>)
      else p)"
  by auto
termination
  by (relation "measure (\<lambda>(log, v, p). v - lastMasterVersion p)") (auto simp: local_put_def split: prod.splits)

declare update_loop.simps [simp del]

definition updateLocal :: "('i::linorder, 'c) obim \<Rightarrow> 'i::linorder perItem \<Rightarrow> bool \<times> 'i::linorder perItem" where
  "updateLocal s p =
     (if lastMasterVersion p \<noteq> masterVersion s then (True, update_loop (masterLog s) (masterVersion s) p) else (False, p))"

text \<open>\<open>slowUpdateLocalOrCreate\<close> and \<open>updateLocalOrCreate\<close>: the bin of index \<open>i\<close>.\<close>

definition create_bin :: "('i::linorder \<Rightarrow> 'c) \<Rightarrow> 'i::linorder \<Rightarrow> 'i::linorder perItem \<Rightarrow> ('i::linorder, 'c) obim \<Rightarrow> nat \<times> 'i::linorder perItem \<times> ('i::linorder, 'c) obim" where
  "create_bin bin_new i p s =
     (let lC2 = length (bins s);
          p = local_put i (Some lC2) p;
          p = p\<lparr>lastMasterVersion := masterVersion s + 1\<rparr>
      in (lC2, p, s\<lparr>bins := bins s @ [bin_new i], masterLog := masterLog s @ [(i, lC2)],
            masterVersion := masterVersion s + 1, numberOfPris := numberOfPris s + 1\<rparr>))"

definition slowUpdateLocalOrCreate :: "('i::linorder \<Rightarrow> 'c) \<Rightarrow> 'i::linorder perItem \<Rightarrow> 'i::linorder \<Rightarrow> ('i::linorder, 'c) obim \<Rightarrow> nat \<times> 'i::linorder perItem \<times> ('i::linorder, 'c) obim" where
  "slowUpdateLocalOrCreate bin_new p i s =
     (let p = snd (updateLocal s p);
          (lC, p) = local_at i p
      in case lC of
           Some a \<Rightarrow> (a, p, s)
         | None \<Rightarrow>
             let p = snd (updateLocal s p);
                 (lC2, p) = local_at i p
             in case lC2 of Some a \<Rightarrow> (a, p, s) | None \<Rightarrow> create_bin bin_new i p s)"

definition updateLocalOrCreate :: "('i::linorder \<Rightarrow> 'c) \<Rightarrow> 'i::linorder perItem \<Rightarrow> 'i::linorder \<Rightarrow> ('i::linorder, 'c) obim \<Rightarrow> nat \<times> 'i::linorder perItem \<times> ('i::linorder, 'c) obim" where
  "updateLocalOrCreate bin_new p i s =
     (let (lC, p) = local_at i p
      in case lC of Some a \<Rightarrow> (a, p, s) | None \<Rightarrow> slowUpdateLocalOrCreate bin_new p i s)"

section \<open>Push\<close>

definition set_item :: "nat \<Rightarrow> 'i::linorder perItem \<Rightarrow> ('i::linorder, 'c) obim \<Rightarrow> ('i::linorder, 'c) obim" where
  "set_item t p s = s\<lparr>items := (items s)[t := p]\<rparr>"

definition push_bin :: "('c \<Rightarrow> 'a \<Rightarrow> 'c) \<Rightarrow> nat \<Rightarrow> 'a \<Rightarrow> ('i::linorder, 'c) obim \<Rightarrow> ('i::linorder, 'c) obim" where
  "push_bin bin_push a x s = s\<lparr>bins := (bins s)[a := bin_push (bins s ! a) x]\<rparr>"

definition Obim_push ::
  "'i::linorder obim_cfg \<Rightarrow> ('i::linorder \<Rightarrow> 'c) \<Rightarrow> ('c \<Rightarrow> 'a \<Rightarrow> 'c) \<Rightarrow> ('a \<Rightarrow> 'i::linorder) \<Rightarrow> nat \<Rightarrow> 'a \<Rightarrow> ('i::linorder, 'c) obim \<Rightarrow> ('i::linorder, 'c) obim" where
  "Obim_push cfg bin_new bin_push indexer t x s =
     (let index = indexer x;
          p = items s ! t
      in case (if index = curIndex p then current p else None) of
           Some c \<Rightarrow> push_bin bin_push c x s
         | None \<Rightarrow>
             let (lC, p, s) = updateLocalOrCreate bin_new p index s;
                 p = (if BSP cfg \<and> index < scanStart p then p\<lparr>scanStart := index\<rparr> else p);
                 p = (if index < curIndex p then p\<lparr>curIndex := index, current := Some lC\<rparr> else p)
             in push_bin bin_push lC x (set_item t p s))"

fun Obim_push_range ::
  "'i::linorder obim_cfg \<Rightarrow> ('i::linorder \<Rightarrow> 'c) \<Rightarrow> ('c \<Rightarrow> 'a \<Rightarrow> 'c) \<Rightarrow> ('a \<Rightarrow> 'i::linorder) \<Rightarrow> nat \<Rightarrow> 'a list \<Rightarrow> ('i::linorder, 'c) obim \<Rightarrow> nat \<times> ('i::linorder, 'c) obim" where
  "Obim_push_range cfg bin_new bin_push indexer t [] s = (0, s)"
| "Obim_push_range cfg bin_new bin_push indexer t (x # xs) s =
     (let (n, s) = Obim_push_range cfg bin_new bin_push indexer t xs (Obim_push cfg bin_new bin_push indexer t x s)
      in (n + 1, s))"

text \<open>\<open>range.local_pair()\<close>, the thread's share of the initial tasks (theory \<open>Ranges\<close>), is the argument.\<close>

definition Obim_push_initial ::
  "'i::linorder obim_cfg \<Rightarrow> ('i::linorder \<Rightarrow> 'c) \<Rightarrow> ('c \<Rightarrow> 'a \<Rightarrow> 'c) \<Rightarrow> ('a \<Rightarrow> 'i::linorder) \<Rightarrow> nat \<Rightarrow> 'a list \<Rightarrow> ('i::linorder, 'c) obim \<Rightarrow> nat \<times> ('i::linorder, 'c) obim" where
  "Obim_push_initial cfg bin_new bin_push indexer t share s = Obim_push_range cfg bin_new bin_push indexer t share s"

section \<open>Pop\<close>

definition getLeaderForThread :: "nat list \<Rightarrow> nat \<Rightarrow> nat" where
  "getLeaderForThread phys t = the (leaders_of phys ! getPackageForThread phys t)"

text \<open>The index the scan starts from. The own item is already up to date when the others are read.\<close>

definition scan_from :: "'i::linorder obim_cfg \<Rightarrow> nat \<Rightarrow> 'i::linorder perItem list \<Rightarrow> 'i::linorder" where
  "scan_from cfg t ps =
     (if BSP cfg
      then
        (if isPackageLeader (physids cfg) t \<or> uniformBSP cfg
         then foldl (\<lambda>m i. min m (scanStart (ps ! i))) (scanStart (ps ! t)) [0..<activeThreads cfg]
         else min (scanStart (ps ! t)) (scanStart (ps ! getLeaderForThread (physids cfg) t)))
      else minIndex cfg)"

text \<open>The scan: the first bin that gives a task. \<open>None\<close>: a null pointer is followed.\<close>

fun scan_bins ::
  "('c \<Rightarrow> 'c \<times> 'a option) \<Rightarrow> 'i::linorder bin_map \<Rightarrow> 'c list \<Rightarrow> (('i::linorder \<times> nat \<times> 'a) option \<times> 'c list) option" where
  "scan_bins bin_pop [] bs = Some (None, bs)"
| "scan_bins bin_pop ((i, None) # d) bs = None"
| "scan_bins bin_pop ((i, Some a) # d) bs =
     (case bin_pop (bs ! a) of
        (c, Some x) \<Rightarrow> Some (Some (i, a, x), bs[a := c])
      | (c, None) \<Rightarrow> scan_bins bin_pop d (bs[a := c]))"

definition slowPop :: "'i::linorder obim_cfg \<Rightarrow> ('c \<Rightarrow> 'c \<times> 'a option) \<Rightarrow> nat \<Rightarrow> ('i::linorder, 'c) obim \<Rightarrow> ('a option \<times> ('i::linorder, 'c) obim) option" where
  "slowPop cfg bin_pop t s =
     (let p = snd (updateLocal s (items s ! t));
          s = set_item t p s;
          msS = scan_from cfg t (items s)
      in case scan_bins bin_pop (drop (lower_bound msS (local_map p)) (local_map p)) (bins s) of
           None \<Rightarrow> None
         | Some (None, bs) \<Rightarrow> Some (None, s\<lparr>bins := bs\<rparr>)
         | Some (Some (i, a, x), bs) \<Rightarrow>
             Some (Some x, set_item t (p\<lparr>current := Some a, curIndex := i, scanStart := i\<rparr>) (s\<lparr>bins := bs\<rparr>)))"

text \<open>The test at the head of \<open>pop\<close>: the counter is masked with \<open>(1ull << BlockPeriod) - 1 == 0\<close>, a truth value.\<close>

definition period_mask :: "int \<Rightarrow> nat" where
  "period_mask period = (if 2 ^ nat period - 1 = (0 :: nat) then 1 else 0)"

definition block_test :: "'i::linorder obim_cfg \<Rightarrow> 'i::linorder perItem \<Rightarrow> bool \<times> 'i::linorder perItem" where
  "block_test cfg p =
     (if BlockPeriod cfg = 0 then (False, p)
      else if BlockPeriod cfg < 0 then (True, p)
      else ((numPops p AND of_nat (period_mask (BlockPeriod cfg))) \<noteq> 0, p\<lparr>numPops := numPops p + 1\<rparr>))"

definition Obim_pop :: "'i::linorder obim_cfg \<Rightarrow> ('c \<Rightarrow> 'c \<times> 'a option) \<Rightarrow> nat \<Rightarrow> ('i::linorder, 'c) obim \<Rightarrow> ('a option \<times> ('i::linorder, 'c) obim) option" where
  "Obim_pop cfg bin_pop t s =
     (let p = items s ! t;
          C = current p;
          (slow, p) = block_test cfg p;
          s = set_item t p s
      in if slow then slowPop cfg bin_pop t s
         else case C of
                None \<Rightarrow> slowPop cfg bin_pop t s
              | Some c \<Rightarrow>
                  (case bin_pop (bins s ! c) of
                     (b, Some x) \<Rightarrow> Some (Some x, s\<lparr>bins := (bins s)[c := b]\<rparr>)
                   | (b, None) \<Rightarrow> slowPop cfg bin_pop t (s\<lparr>bins := (bins s)[c := b]\<rparr>)))"

section \<open>What the map of a thread map_holds\<close>

text \<open>The bin an index leads to, null or absent alike, and the indices with a null pointer.\<close>

definition bin_at :: "'i::linorder perItem \<Rightarrow> 'i::linorder \<Rightarrow> nat option" where
  "bin_at p i = Option.bind (map_of (local_map p) i) (\<lambda>c. c)"

definition nulls :: "'i::linorder perItem \<Rightarrow> 'i::linorder set" where
  "nulls p = {i. map_of (local_map p) i = Some None}"

definition same_item :: "'i::linorder perItem \<Rightarrow> 'i::linorder perItem \<Rightarrow> bool" where
  "same_item p q \<longleftrightarrow> curIndex q = curIndex p \<and> scanStart q = scanStart p \<and> current q = current p \<and> numPops q = numPops p"

lemma same_item_refl [simp]: "same_item p p"
  by (simp add: same_item_def)

lemma local_at_facts:
  assumes "fm_ok (local_map p)" "local_at i p = (c, q)"
  shows "c = bin_at p i" "bin_at q = bin_at p" "nulls q = (if bin_at p i = None then insert i (nulls p) else nulls p)"
    "fm_ok (local_map q)" "same_item p q" "lastMasterVersion q = lastMasterVersion p"
proof -
  obtain j d where d: "fm_index None i (local_map p) = (j, d)" by force
  note f = fm_index_facts [OF assms(1) d]
  have q: "c = snd (d ! j)" "q = p\<lparr>local_map := d\<rparr>" using assms(2) d by (auto simp: local_at_def)
  show "c = bin_at p i" using f(4,5) q(1) by (auto simp: bin_at_def split: if_splits)
  show "bin_at q = bin_at p"
    using f(5) by (auto simp: bin_at_def q(2) fun_eq_iff)
  show "nulls q = (if bin_at p i = None then insert i (nulls p) else nulls p)"
    using f(5) by (auto simp: nulls_def bin_at_def q(2) bind_eq_None_conv)
  show "fm_ok (local_map q)" "same_item p q" "lastMasterVersion q = lastMasterVersion p"
    using f(1) by (simp_all add: q(2) same_item_def)
qed

lemma local_put_facts:
  assumes "fm_ok (local_map p)"
  shows "bin_at (local_put i (Some a) p) = (bin_at p)(i \<mapsto> a)" "nulls (local_put i (Some a) p) = nulls p - {i}"
    "fm_ok (local_map (local_put i (Some a) p))" "same_item p (local_put i (Some a) p)"
    "lastMasterVersion (local_put i (Some a) p) = lastMasterVersion p"
proof -
  obtain j d where d: "fm_index None i (local_map p) = (j, d)" by force
  note f = fm_index_facts [OF assms(1) d]
  note u = fm_update_facts [OF f(1-3)]
  have q: "local_put i (Some a) p = p\<lparr>local_map := d[j := (i, Some a)]\<rparr>" using d by (simp add: local_put_def)
  show "bin_at (local_put i (Some a) p) = (bin_at p)(i \<mapsto> a)"
    using f(5) by (auto simp: bin_at_def q u(2) fun_eq_iff)
  show "nulls (local_put i (Some a) p) = nulls p - {i}"
    using f(5) by (auto simp: nulls_def q u(2))
  show "fm_ok (local_map (local_put i (Some a) p))" "same_item p (local_put i (Some a) p)"
    "lastMasterVersion (local_put i (Some a) p) = lastMasterVersion p"
    using u(1) by (simp_all add: q same_item_def)
qed

text \<open>The map holds the log up to \<open>lastMasterVersion\<close>.\<close>

definition map_holds :: "('i::linorder \<times> nat) list \<Rightarrow> 'i::linorder perItem \<Rightarrow> bool" where
  "map_holds log p \<longleftrightarrow> fm_ok (local_map p) \<and> lastMasterVersion p \<le> length log \<and>
     bin_at p = map_of (take (lastMasterVersion p) log)"

lemma map_of_snoc: "map_of (xs @ [e]) = (if map_of xs (fst e) = None then (map_of xs)(fst e \<mapsto> snd e) else map_of xs)"
  by (cases e) (auto simp: map_add_def fun_eq_iff split: option.splits)

lemma map_of_take_nth:
  assumes "distinct (map fst log)" "n < length log"
  shows "map_of (take (Suc n) log) = (map_of (take n log))(fst (log ! n) \<mapsto> snd (log ! n))"
proof -
  have "fst (log ! n) \<notin> fst ` set (take n log)"
  proof
    assume "fst (log ! n) \<in> fst ` set (take n log)"
    then obtain j where "j < n" "fst (log ! n) = fst (log ! j)" using assms(2) by (auto simp: in_set_conv_nth)
    then have "map fst log ! n = map fst log ! j" using assms(2) by simp
    with assms \<open>j < n\<close> show False by (metis distinct_conv_nth length_map less_trans nat_neq_iff)
  qed
  then have "map_of (take n log) (fst (log ! n)) = None" by (simp add: map_of_eq_None_iff)
  then show ?thesis by (simp only: take_Suc_conv_app_nth [OF assms(2)] map_of_snoc if_True refl)
qed

lemma update_loop_facts:
  assumes "map_holds log p" "distinct (map fst log)" "lastMasterVersion p \<le> v" "v \<le> length log"
  shows "map_holds log (update_loop log v p) \<and> lastMasterVersion (update_loop log v p) = v \<and>
    nulls (update_loop log v p) \<subseteq> nulls p \<and> same_item p (update_loop log v p)"
  using assms
proof (induction log v p rule: update_loop.induct)
  case (1 log v p)
  show ?case
  proof (cases "lastMasterVersion p < v")
    case False
    with "1.prems" show ?thesis by (subst (1 2 3 4) update_loop.simps) simp
  next
    case True
    let ?n = "lastMasterVersion p"
    let ?e = "log ! ?n"
    define p' where "p' = local_put (fst ?e) (Some (snd ?e)) p"
    define q where "q = p'\<lparr>lastMasterVersion := lastMasterVersion p' + 1\<rparr>"
    have ok: "fm_ok (local_map p)" using "1.prems"(1) by (simp add: map_holds_def)
    note put = local_put_facts [OF ok, of "fst ?e" "snd ?e", folded p'_def]
    have last: "lastMasterVersion q = Suc ?n" by (simp add: q_def put(5))
    have n: "?n < length log" using True "1.prems"(4) by simp
    have "bin_at q = bin_at p'" "nulls q = nulls p'" by (simp_all add: q_def bin_at_def nulls_def fun_eq_iff)
    moreover have "bin_at p' = map_of (take (Suc ?n) log)"
      using "1.prems"(1) by (simp add: put(1) map_of_take_nth [OF "1.prems"(2) n] map_holds_def)
    ultimately have q: "map_holds log q" "nulls q \<subseteq> nulls p" "same_item p q"
      using put n last by (auto simp: map_holds_def q_def same_item_def)
    have "map_holds log (update_loop log v q) \<and> lastMasterVersion (update_loop log v q) = v \<and>
        nulls (update_loop log v q) \<subseteq> nulls q \<and> same_item q (update_loop log v q)"
      unfolding q_def p'_def
      by (rule "1.IH" [OF True refl refl])
        (use q True last "1.prems" in \<open>simp_all add: q_def p'_def\<close>)
    moreover have "update_loop log v p = update_loop log v q"
      using True by (subst update_loop.simps) (simp add: q_def p'_def Let_def)
    ultimately show ?thesis using q by (auto simp: same_item_def)
  qed
qed

section \<open>The invariant\<close>

definition log_ok :: "'i::linorder obim_cfg \<Rightarrow> ('i::linorder, 'c) obim \<Rightarrow> bool" where
  "log_ok cfg s \<longleftrightarrow> masterVersion s = length (masterLog s) \<and> map snd (masterLog s) = [0..<length (bins s)] \<and>
     distinct (map fst (masterLog s)) \<and> (\<forall>e \<in> set (masterLog s). minIndex cfg \<le> fst e)"

definition item_ok :: "'i::linorder obim_cfg \<Rightarrow> ('i::linorder \<times> nat) list \<Rightarrow> 'i::linorder perItem \<Rightarrow> bool" where
  "item_ok cfg log p \<longleftrightarrow> map_holds log p \<and> nulls p = {} \<and> (BSP cfg \<longrightarrow> scanStart p \<le> curIndex p) \<and>
     (\<forall>c. current p = Some c \<longrightarrow> (curIndex p, c) \<in> set log)"

text \<open>Every task is in the bin of its index; with back-scan prevention some thread scans every bin with a task.\<close>

definition in_place :: "('a \<Rightarrow> 'i::linorder \<Rightarrow> bool) \<Rightarrow> ('c \<Rightarrow> 'a multiset) \<Rightarrow> ('i::linorder, 'c) obim \<Rightarrow> bool" where
  "in_place fits bag s \<longleftrightarrow> (\<forall>a < length (bins s). \<forall>x \<in># bag (bins s ! a). fits x (fst (masterLog s ! a)))"

definition scanned :: "'i::linorder obim_cfg \<Rightarrow> ('c \<Rightarrow> 'a multiset) \<Rightarrow> ('i::linorder, 'c) obim \<Rightarrow> bool" where
  "scanned cfg bag s \<longleftrightarrow> (BSP cfg \<longrightarrow> (\<forall>a < length (bins s). bag (bins s ! a) \<noteq> {#} \<longrightarrow>
     (\<exists>t < activeThreads cfg. scanStart (items s ! t) \<le> fst (masterLog s ! a))))"

definition obim_ok :: "'i::linorder obim_cfg \<Rightarrow> ('a \<Rightarrow> 'i::linorder \<Rightarrow> bool) \<Rightarrow> ('c \<Rightarrow> 'a multiset) \<Rightarrow> ('i::linorder, 'c) obim \<Rightarrow> bool" where
  "obim_ok cfg fits bag s \<longleftrightarrow> log_ok cfg s \<and> activeThreads cfg \<le> length (items s) \<and>
     (\<forall>t < length (items s). item_ok cfg (masterLog s) (items s ! t)) \<and> in_place fits bag s \<and> scanned cfg bag s"

text \<open>The threads whose scan starts early enough for every task.\<close>

definition sees_all :: "'i::linorder obim_cfg \<Rightarrow> nat \<Rightarrow> bool" where
  "sees_all cfg t \<longleftrightarrow> \<not> BSP cfg \<or> uniformBSP cfg \<or> isPackageLeader (physids cfg) t"

lemma holds_append: "map_holds log p \<Longrightarrow> map_holds (log @ es) p"
  by (simp add: map_holds_def)

lemma holds_bin: "map_holds log p \<Longrightarrow> bin_at p i = Some a \<Longrightarrow> (i, a) \<in> set log"
  by (auto simp: map_holds_def dest: map_of_SomeD in_set_takeD)

lemma item_ok_append: "item_ok cfg log p \<Longrightarrow> item_ok cfg (log @ es) p"
  by (auto simp: item_ok_def holds_append)

lemma updateLocal_facts:
  assumes "log_ok cfg s" "map_holds (masterLog s) p" "q = snd (updateLocal s p)"
  shows "map_holds (masterLog s) q" "lastMasterVersion q = masterVersion s" "nulls q \<subseteq> nulls p" "same_item p q"
proof -
  have "map_holds (masterLog s) q \<and> lastMasterVersion q = masterVersion s \<and> nulls q \<subseteq> nulls p \<and> same_item p q"
  proof (cases "lastMasterVersion p = masterVersion s")
    case True
    with assms show ?thesis by (simp add: updateLocal_def)
  next
    case False
    with update_loop_facts [OF assms(2), of "masterVersion s"] assms show ?thesis
      by (simp add: updateLocal_def log_ok_def map_holds_def)
  qed
  then show "map_holds (masterLog s) q" "lastMasterVersion q = masterVersion s" "nulls q \<subseteq> nulls p" "same_item p q"
    by simp_all
qed

lemma local_at_holds:
  assumes "map_holds log p" "local_at i p = (c, q)"
  shows "c = bin_at p i" "map_holds log q" "bin_at q = bin_at p" "same_item p q"
    "nulls q = (if bin_at p i = None then insert i (nulls p) else nulls p)" "lastMasterVersion q = lastMasterVersion p"
  using assms(1) local_at_facts [of p i c q] assms(2) by (simp_all add: map_holds_def)

lemma bin_not_null: "bin_at p i = Some a \<Longrightarrow> i \<notin> nulls p"
  by (auto simp: bin_at_def nulls_def)

text \<open>\<open>updateLocalOrCreate\<close> finds the bin of the index or appends one to the log.\<close>

definition bin_found :: "('i::linorder \<Rightarrow> 'c) \<Rightarrow> 'i::linorder \<Rightarrow> ('i::linorder, 'c) obim \<Rightarrow> nat \<Rightarrow> ('i::linorder, 'c) obim \<Rightarrow> bool" where
  "bin_found bin_new i s a s' \<longleftrightarrow> items s' = items s \<and> (i, a) \<in> set (masterLog s') \<and>
     (s' = s \<or> i \<notin> fst ` set (masterLog s) \<and> a = length (bins s) \<and> bins s' = bins s @ [bin_new i] \<and>
        masterLog s' = masterLog s @ [(i, a)] \<and> numberOfPris s' = numberOfPris s + 1)"

lemma create_bin_facts:
  assumes log: "log_ok cfg s" and p: "map_holds (masterLog s) p" "lastMasterVersion p = masterVersion s"
    and i: "nulls p \<subseteq> {i}" "bin_at p i = None" "minIndex cfg \<le> i"
    and create: "create_bin bin_new i p s = (a, q, s')"
  shows "log_ok cfg s' \<and> map_holds (masterLog s') q \<and> nulls q = {} \<and> same_item p q \<and> bin_found bin_new i s a s'"
proof -
  have ok: "fm_ok (local_map p)" using p(1) by (simp add: map_holds_def)
  note put = local_put_facts [OF ok, of i "length (bins s)"]
  have s': "a = length (bins s)" "s' = s\<lparr>bins := bins s @ [bin_new i], masterLog := masterLog s @ [(i, length (bins s))],
      masterVersion := masterVersion s + 1, numberOfPris := numberOfPris s + 1\<rparr>"
    "q = (local_put i (Some (length (bins s))) p)\<lparr>lastMasterVersion := masterVersion s + 1\<rparr>"
    using create by (auto simp: create_bin_def Let_def)
  have new: "map_of (masterLog s) i = None" using p i(2) log by (simp add: map_holds_def log_ok_def)
  then have fresh: "i \<notin> fst ` set (masterLog s)" by (simp add: map_of_eq_None_iff)
  have "log_ok cfg s'" using log fresh i(3) by (auto simp: log_ok_def s')
  moreover have "bin_at q = bin_at (local_put i (Some (length (bins s))) p)"
    "nulls q = nulls (local_put i (Some (length (bins s))) p)" by (simp_all add: s' bin_at_def nulls_def fun_eq_iff)
  moreover have "bin_at p = map_of (masterLog s)" using p log by (simp add: map_holds_def log_ok_def)
  moreover have "map_of (masterLog s @ [(i, length (bins s))]) = (map_of (masterLog s))(i \<mapsto> length (bins s))"
    using map_of_snoc [of "masterLog s" "(i, length (bins s))"] new by (simp only: fst_conv snd_conv if_True refl)
  ultimately show ?thesis
    using put i(1) log fresh
    by (auto simp: map_holds_def s' same_item_def bin_found_def log_ok_def simp del: map_of_append)
qed

lemma slowUpdateLocalOrCreate_facts:
  assumes log: "log_ok cfg s" and p: "map_holds (masterLog s) p" "nulls p \<subseteq> {i}" "minIndex cfg \<le> i"
    and slow: "slowUpdateLocalOrCreate bin_new p i s = (a, q, s')"
  shows "log_ok cfg s' \<and> map_holds (masterLog s') q \<and> nulls q = {} \<and> same_item p q \<and> bin_found bin_new i s a s'"
proof -
  define p1 where "p1 = snd (updateLocal s p)"
  note u1 = updateLocal_facts [OF log p(1) p1_def]
  obtain c1 p2 where a1: "local_at i p1 = (c1, p2)" by force
  note l1 = local_at_holds [OF u1(1) a1]
  show ?thesis
  proof (cases "c1")
    case (Some b)
    then have "a = b" "q = p2" "s' = s" using slow a1 by (auto simp: slowUpdateLocalOrCreate_def p1_def)
    moreover have b: "bin_at p1 i = Some b" using l1(1) Some by simp
    moreover have "(i, b) \<in> set (masterLog s)" using holds_bin [OF u1(1) b] .
    moreover have "nulls p1 = {}" using bin_not_null [OF b] u1(3) p(2) by auto
    ultimately show ?thesis using l1(2,4,5) u1(4) log by (simp add: bin_found_def same_item_def)
  next
    case None
    define p3 where "p3 = snd (updateLocal s p2)"
    note u2 = updateLocal_facts [OF log l1(2) p3_def]
    obtain c2 p4 where a2: "local_at i p3 = (c2, p4)" by force
    note l2 = local_at_holds [OF u2(1) a2]
    have "bin_at p3 = bin_at p1" using u1(1,2) u2(1,2) by (simp add: map_holds_def)
    then have c2: "c2 = None" using l1(1) l2(1) None by simp
    then have "create_bin bin_new i p4 s = (a, q, s')"
      using slow a1 a2 None by (simp add: slowUpdateLocalOrCreate_def p1_def p3_def)
    moreover have "lastMasterVersion p4 = masterVersion s" using l2(6) u2(2) by simp
    moreover have "nulls p2 \<subseteq> {i}" using l1(5) u1(3) p(2) by (auto split: if_splits)
    then have "nulls p4 \<subseteq> {i}" using l2(5) u2(3) by (auto split: if_splits)
    moreover have "bin_at p4 i = None" using l2(1,3) c2 by simp
    ultimately have
      "log_ok cfg s' \<and> map_holds (masterLog s') q \<and> nulls q = {} \<and> same_item p4 q \<and> bin_found bin_new i s a s'"
      by (intro create_bin_facts [OF log l2(2) _ _ _ p(3)])
    then show ?thesis using l1(4) l2(4) u1(4) u2(4) by (simp add: same_item_def)
  qed
qed

lemma updateLocalOrCreate_facts:
  assumes log: "log_ok cfg s" and p: "map_holds (masterLog s) p" "nulls p = {}" "minIndex cfg \<le> i"
    and upd: "updateLocalOrCreate bin_new p i s = (a, q, s')"
  shows "log_ok cfg s' \<and> map_holds (masterLog s') q \<and> nulls q = {} \<and> same_item p q \<and> bin_found bin_new i s a s'"
proof -
  obtain c p1 where a: "local_at i p = (c, p1)" by force
  note l = local_at_holds [OF p(1) a]
  show ?thesis
  proof (cases c)
    case (Some b)
    then have "a = b" "q = p1" "s' = s" using upd a by (auto simp: updateLocalOrCreate_def)
    moreover have b: "bin_at p i = Some b" using l(1) Some by simp
    moreover have "(i, b) \<in> set (masterLog s)" using holds_bin [OF p(1) b] .
    ultimately show ?thesis using l(2,4,5) p(2) log by (simp add: bin_found_def)
  next
    case None
    then have "slowUpdateLocalOrCreate bin_new p1 i s = (a, q, s')" using upd a by (simp add: updateLocalOrCreate_def)
    from slowUpdateLocalOrCreate_facts [OF log l(2) _ p(3) this] show ?thesis
      using l(4,5) p(2) by (auto simp: same_item_def)
  qed
qed

section \<open>Push keeps the invariant\<close>

lemma set_item_ok:
  assumes "obim_ok cfg fits bag s" "item_ok cfg (masterLog s) q" "scanStart q \<le> scanStart (items s ! t)"
  shows "obim_ok cfg fits bag (set_item t q s)"
proof -
  have "scanned cfg bag (set_item t q s)"
    unfolding scanned_def
  proof (intro impI allI)
    fix a
    assume a: "BSP cfg" "a < length (bins (set_item t q s))" "bag (bins (set_item t q s) ! a) \<noteq> {#}"
    then obtain u where "u < activeThreads cfg" "scanStart (items s ! u) \<le> fst (masterLog s ! a)"
      using assms(1) by (auto simp: obim_ok_def scanned_def set_item_def)
    moreover have "scanStart ((items s)[t := q] ! u) \<le> scanStart (items s ! u)"
      using assms(3) by (cases "t < length (items s)") (auto simp: nth_list_update list_update_beyond)
    ultimately show "\<exists>u < activeThreads cfg. scanStart (items (set_item t q s) ! u) \<le> fst (masterLog (set_item t q s) ! a)"
      by (auto simp: set_item_def intro: order_trans)
  qed
  moreover have "\<forall>u < length ((items s)[t := q]). item_ok cfg (masterLog s) ((items s)[t := q] ! u)"
    using assms(1,2) by (intro all_upd) (simp_all add: obim_ok_def)
  ultimately show ?thesis using assms(1)
    by (simp add: obim_ok_def log_ok_def in_place_def set_item_def)
qed

lemma in_log_nth:
  assumes "log_ok cfg s" "(i, a) \<in> set (masterLog s)"
  shows "a < length (bins s)" "masterLog s ! a = (i, a)"
proof -
  have len: "length (masterLog s) = length (bins s)" using assms(1) by (metis log_ok_def length_map length_upt minus_nat.diff_0)
  obtain j where j: "j < length (masterLog s)" "masterLog s ! j = (i, a)" using assms(2) by (auto simp: in_set_conv_nth)
  then have "a = map snd (masterLog s) ! j" by simp
  also have "\<dots> = j" using assms(1) j(1) len by (simp add: log_ok_def del: nth_map)
  finally show "a < length (bins s)" "masterLog s ! a = (i, a)" using j len by simp_all
qed

lemma nth_in_log:
  assumes "log_ok cfg s" "a < length (bins s)"
  shows "(fst (masterLog s ! a), a) \<in> set (masterLog s)"
proof -
  have len: "length (masterLog s) = length (bins s)" using assms(1) by (metis log_ok_def length_map length_upt minus_nat.diff_0)
  have "snd (masterLog s ! a) = map snd (masterLog s) ! a" using assms(2) len by simp
  also have "\<dots> = a" using assms by (simp add: log_ok_def del: nth_map)
  finally show ?thesis using assms(2) len by (metis nth_mem prod.collapse)
qed

text \<open>Taking tasks away needs no other change.\<close>

lemma fewer_tasks_ok:
  assumes "obim_ok cfg fits bag s" "length bs = length (bins s)" "\<forall>a < length bs. bag (bs ! a) \<subseteq># bag (bins s ! a)"
  shows "obim_ok cfg fits bag (s\<lparr>bins := bs\<rparr>)"
proof -
  have "in_place fits bag (s\<lparr>bins := bs\<rparr>)"
    using assms by (simp add: obim_ok_def in_place_def) (blast dest: mset_subset_eqD)
  moreover have "scanned cfg bag (s\<lparr>bins := bs\<rparr>)"
    using assms unfolding obim_ok_def scanned_def by (metis (no_types, lifting) obim.select_convs(1,3,4)
      obim.update_convs(4) obim.surjective subset_mset.le_zero_eq)
  ultimately show ?thesis using assms by (simp add: obim_ok_def log_ok_def)
qed

lemma bags_cong: "length xs = length ys \<Longrightarrow> \<forall>i < length ys. f (xs ! i) = f (ys ! i) \<Longrightarrow> bags f xs = bags f ys"
proof (induction xs ys rule: list_induct2)
  case (Cons x xs y ys)
  have "f x = f y" "\<forall>i < length ys. f (xs ! i) = f (ys ! i)" using Cons.prems by force+
  with Cons.IH show ?case by simp
qed simp

lemma foldl_min: "foldl (\<lambda>m i. min m (f i)) (a :: 'i::linorder) xs \<le> a \<and> (\<forall>i \<in> set xs. foldl (\<lambda>m i. min m (f i)) a xs \<le> f i)"
proof (induction xs arbitrary: a)
  case (Cons x xs)
  from Cons.IH [of "min a (f x)"] show ?case by auto
qed simp

lemma scan_from_own: "BSP cfg \<Longrightarrow> scan_from cfg t ps \<le> scanStart (ps ! t)"
  using foldl_min [of "\<lambda>i. scanStart (ps ! i)" "scanStart (ps ! t)"] by (simp add: scan_from_def)

lemma scan_from_others:
  "sees_all cfg t \<Longrightarrow> BSP cfg \<Longrightarrow> u < activeThreads cfg \<Longrightarrow> scan_from cfg t ps \<le> scanStart (ps ! u)"
  using foldl_min [of "\<lambda>i. scanStart (ps ! i)" "scanStart (ps ! t)" "[0..<activeThreads cfg]"]
  by (auto simp: scan_from_def sees_all_def)

text \<open>What a pop took, and that it was a task of a bin with the least index, or that there was none.\<close>

definition took :: "('c \<Rightarrow> 'a multiset) \<Rightarrow> ('i::linorder, 'c) obim \<Rightarrow> 'a option \<Rightarrow> ('i::linorder, 'c) obim \<Rightarrow> bool" where
  "took bag s r s' \<longleftrightarrow> bags bag (bins s) = (case r of None \<Rightarrow> {#} | Some x \<Rightarrow> {#x#}) + bags bag (bins s')"

definition best :: "('a \<Rightarrow> 'i \<Rightarrow> bool) \<Rightarrow> ('c \<Rightarrow> 'a multiset) \<Rightarrow> ('i::linorder, 'c) obim \<Rightarrow> 'a option \<Rightarrow> bool" where
  "best fits bag s r \<longleftrightarrow>
     (case r of
        None \<Rightarrow> bags bag (bins s) = {#}
      | Some x \<Rightarrow> \<exists>i. fits x i \<and> (\<forall>b < length (bins s). bag (bins s ! b) \<noteq> {#} \<longrightarrow> i \<le> fst (masterLog s ! b)))"

lemma best_cong:
  "length (bins s') = length (bins s) \<Longrightarrow> \<forall>b < length (bins s). bag (bins s' ! b) = bag (bins s ! b) \<Longrightarrow>
   masterLog s' = masterLog s \<Longrightarrow> best fits bag s' r \<longleftrightarrow> best fits bag s r"
  using bags_cong [of "bins s'" "bins s" bag] by (simp add: best_def split: option.splits)

definition same_bags :: "('c \<Rightarrow> 'a multiset) \<Rightarrow> ('i::linorder, 'c) obim \<Rightarrow> ('i, 'c) obim \<Rightarrow> bool" where
  "same_bags bag s s' \<longleftrightarrow> masterLog s' = masterLog s \<and> length (bins s') = length (bins s) \<and>
     (\<forall>b < length (bins s). bag (bins s' ! b) = bag (bins s ! b))"

lemma same_bagsD:
  assumes "same_bags bag s s'"
  shows "took bag s' r s'' \<longleftrightarrow> took bag s r s''" "best fits bag s' r \<longleftrightarrow> best fits bag s r" "masterLog s' = masterLog s"
  using assms bags_cong [of "bins s'" "bins s" bag] best_cong [of s' s bag fits r]
  by (simp_all add: same_bags_def took_def)

context work_bin
begin

lemma push_bin_ok:
  assumes "obim_ok cfg fits bin_bag s" "fits x i" "(i, a) \<in> set (masterLog s)"
    "BSP cfg \<Longrightarrow> \<exists>t < activeThreads cfg. scanStart (items s ! t) \<le> i"
  shows "obim_ok cfg fits bin_bag (push_bin bin_push a x s) \<and>
    bags bin_bag (bins (push_bin bin_push a x s)) = add_mset x (bags bin_bag (bins s)) \<and>
    masterLog (push_bin bin_push a x s) = masterLog s"
proof -
  have log: "log_ok cfg s" using assms(1) by (simp add: obim_ok_def)
  note a = in_log_nth [OF log assms(3)]
  let ?bs = "(bins s)[a := bin_push (bins s ! a) x]"
  have bag: "bin_bag (?bs ! b) = (if b = a then add_mset x (bin_bag (bins s ! a)) else bin_bag (bins s ! b))" for b
    using a(1) by (simp add: push_bag nth_list_update)
  have "in_place fits bin_bag (push_bin bin_push a x s)"
    using assms(1,2) a by (auto simp: obim_ok_def in_place_def push_bin_def bag)
  moreover have "scanned cfg bin_bag (push_bin bin_push a x s)"
    using assms(1,4) a by (auto simp: obim_ok_def scanned_def push_bin_def bag)
  moreover have "bags bin_bag ?bs = add_mset x (bags bin_bag (bins s))"
    using bags_update_add [OF a(1), of bin_bag "bin_push (bins s ! a) x" "{#x#}"] by (simp add: push_bag)
  ultimately show ?thesis using assms(1) by (simp add: obim_ok_def log_ok_def push_bin_def)
qed

lemma new_bin_ok:
  assumes ok: "obim_ok cfg fits bin_bag s" and new: "bin_found bin_new i s a s'" "log_ok cfg s'"
  shows "obim_ok cfg fits bin_bag s' \<and> bags bin_bag (bins s') = bags bin_bag (bins s)"
proof (cases "s' = s")
  case False
  then have s': "a = length (bins s)" "bins s' = bins s @ [bin_new i]" "masterLog s' = masterLog s @ [(i, a)]"
    "items s' = items s" using new(1) by (auto simp: bin_found_def)
  have len: "length (masterLog s) = length (bins s)"
    using ok by (metis obim_ok_def log_ok_def length_map length_upt minus_nat.diff_0)
  have "in_place fits bin_bag s'" "scanned cfg bin_bag s'"
    using ok len by (auto simp: obim_ok_def in_place_def scanned_def s' nth_append new_bag less_Suc_eq)
  with ok new(2) show ?thesis by (auto simp: obim_ok_def s' item_ok_append new_bag)
qed (use ok in simp)

lemma Obim_push_facts:
  assumes ok: "obim_ok cfg fits bin_bag s" and t: "t < activeThreads cfg" and x: "minIndex cfg \<le> indexer x" "fits x (indexer x)"
    and push: "s' = Obim_push cfg bin_new bin_push indexer t x s"
  shows "obim_ok cfg fits bin_bag s' \<and> bags bin_bag (bins s') = add_mset x (bags bin_bag (bins s)) \<and>
    fst ` set (masterLog s') = insert (indexer x) (fst ` set (masterLog s)) \<and>
    masterLog s = take (length (masterLog s)) (masterLog s')"
proof -
  let ?p = "items s ! t"
  have log: "log_ok cfg s" and p: "item_ok cfg (masterLog s) ?p" and len: "t < length (items s)"
    using ok t by (auto simp: obim_ok_def)
  show ?thesis
  proof (cases "if indexer x = curIndex ?p then current ?p else None")
    case (Some c)
    then have c: "indexer x = curIndex ?p" "current ?p = Some c" by (auto split: if_splits)
    then have "(indexer x, c) \<in> set (masterLog s)" using p by (simp add: item_ok_def)
    moreover have "BSP cfg \<Longrightarrow> \<exists>t < activeThreads cfg. scanStart (items s ! t) \<le> indexer x"
      using p c(1) t by (auto simp: item_ok_def)
    moreover have "s' = push_bin bin_push c x s" using push c by (simp add: Obim_push_def)
    ultimately show ?thesis using push_bin_ok [OF ok x(2), of c] by force
  next
    case None
    obtain a q1 s1 where upd: "updateLocalOrCreate bin_new ?p (indexer x) s = (a, q1, s1)"
      by (metis prod_cases3)
    define q2 where "q2 = (if BSP cfg \<and> indexer x < scanStart q1 then q1\<lparr>scanStart := indexer x\<rparr> else q1)"
    define q where "q = (if indexer x < curIndex q2 then q2\<lparr>curIndex := indexer x, current := Some a\<rparr> else q2)"
    have s': "s' = push_bin bin_push a x (set_item t q s1)"
      using push None upd by (simp add: Obim_push_def q_def q2_def Let_def)
    have u: "log_ok cfg s1" "map_holds (masterLog s1) q1" "nulls q1 = {}" "same_item ?p q1" "bin_found bin_new (indexer x) s a s1"
      using updateLocalOrCreate_facts [OF log _ _ x(1) upd] p by (auto simp: item_ok_def)
    note s1 = new_bin_ok [OF ok u(5,1)]
    have a: "(indexer x, a) \<in> set (masterLog s1)" using u(5) by (simp add: bin_found_def)
    have same: "bin_at q = bin_at q1" "nulls q = nulls q1" "local_map q = local_map q1"
      "lastMasterVersion q = lastMasterVersion q1" by (simp_all add: q_def q2_def bin_at_def nulls_def fun_eq_iff)
    have it: "items s1 = items s" using u(5) by (simp add: bin_found_def)
    have p1: "item_ok cfg (masterLog s1) ?p" using s1 len by (auto simp: obim_ok_def it)
    have "map_holds (masterLog s1) q" "nulls q = {}" using u(2,3) by (simp_all add: map_holds_def same)
    moreover have "BSP cfg \<longrightarrow> scanStart q \<le> curIndex q" "\<forall>c. current q = Some c \<longrightarrow> (curIndex q, c) \<in> set (masterLog s1)"
      using p1 u(4) a by (auto simp: item_ok_def q_def q2_def same_item_def)
    ultimately have "item_ok cfg (masterLog s1) q" by (simp add: item_ok_def)
    moreover have "scanStart q \<le> scanStart (items s1 ! t)" using u(4) by (auto simp: q_def q2_def same_item_def it)
    ultimately have ok2: "obim_ok cfg fits bin_bag (set_item t q s1)" using s1 set_item_ok by blast
    have "BSP cfg \<Longrightarrow> scanStart q \<le> indexer x" by (auto simp: q_def q2_def)
    then have "BSP cfg \<Longrightarrow> \<exists>u < activeThreads cfg. scanStart (items (set_item t q s1) ! u) \<le> indexer x"
      using t len by (auto simp: set_item_def it intro!: exI [of _ t])
    from push_bin_ok [OF ok2 x(2) _ this] a have "obim_ok cfg fits bin_bag s' \<and>
        bags bin_bag (bins s') = add_mset x (bags bin_bag (bins s)) \<and> masterLog s' = masterLog s1"
      using s1 by (simp add: s' set_item_def)
    then show ?thesis using u(5) a by (auto simp: bin_found_def image_iff) force+
  qed
qed

lemma scan_facts:
  assumes "\<forall>e \<in> set d. \<exists>a < length bs. snd e = Some a"
  shows "\<exists>r bs'. scan_bins bin_pop d bs = Some (r, bs') \<and> length bs' = length bs \<and>
    (case r of
       None \<Rightarrow> (\<forall>a. bin_bag (bs' ! a) = bin_bag (bs ! a)) \<and> (\<forall>i a. (i, Some a) \<in> set d \<longrightarrow> bin_bag (bs ! a) = {#})
     | Some (i, a, x) \<Rightarrow>
         bin_bag (bs ! a) = add_mset x (bin_bag (bs' ! a)) \<and> (\<forall>b. b \<noteq> a \<longrightarrow> bin_bag (bs' ! b) = bin_bag (bs ! b)) \<and>
         (\<exists>d1 d2. d = d1 @ (i, Some a) # d2 \<and> (\<forall>j b. (j, Some b) \<in> set d1 \<longrightarrow> bin_bag (bs ! b) = {#})))"
  using assms
proof (induction d arbitrary: bs)
  case (Cons e d)
  obtain i a where e: "e = (i, Some a)" "a < length bs" using Cons.prems by (cases e) auto
  obtain c r where pop: "bin_pop (bs ! a) = (c, r)" by force
  show ?case
  proof (cases r)
    case None
    note empty = pop_None [OF pop [unfolded None]]
    have bag: "bin_bag (bs[a := c] ! b) = bin_bag (bs ! b)" for b
      using empty e(2) by (cases "b = a") simp_all
    have "scan_bins bin_pop (e # d) bs = scan_bins bin_pop d (bs[a := c])" using e pop None by simp
    moreover have "\<forall>e \<in> set d. \<exists>k < length (bs[a := c]). snd e = Some k" using Cons.prems by simp
    from Cons.IH [OF this] obtain r' bs' where ih: "scan_bins bin_pop d (bs[a := c]) = Some (r', bs')" "length bs' = length bs"
      "case r' of
         None \<Rightarrow> (\<forall>a. bin_bag (bs' ! a) = bin_bag (bs ! a)) \<and> (\<forall>i a. (i, Some a) \<in> set d \<longrightarrow> bin_bag (bs ! a) = {#})
       | Some (i, a, x) \<Rightarrow>
           bin_bag (bs ! a) = add_mset x (bin_bag (bs' ! a)) \<and> (\<forall>b. b \<noteq> a \<longrightarrow> bin_bag (bs' ! b) = bin_bag (bs ! b)) \<and>
           (\<exists>d1 d2. d = d1 @ (i, Some a) # d2 \<and> (\<forall>j b. (j, Some b) \<in> set d1 \<longrightarrow> bin_bag (bs ! b) = {#}))"
      unfolding bag by auto
    moreover have "case r' of
         None \<Rightarrow> (\<forall>a. bin_bag (bs' ! a) = bin_bag (bs ! a)) \<and> (\<forall>i a. (i, Some a) \<in> set (e # d) \<longrightarrow> bin_bag (bs ! a) = {#})
       | Some (i, a, x) \<Rightarrow>
           bin_bag (bs ! a) = add_mset x (bin_bag (bs' ! a)) \<and> (\<forall>b. b \<noteq> a \<longrightarrow> bin_bag (bs' ! b) = bin_bag (bs ! b)) \<and>
           (\<exists>d1 d2. e # d = d1 @ (i, Some a) # d2 \<and> (\<forall>j b. (j, Some b) \<in> set d1 \<longrightarrow> bin_bag (bs ! b) = {#}))"
    proof (cases r')
      case None
      with ih(3) empty e show ?thesis by auto
    next
      case (Some s)
      obtain k b x where s: "s = (k, b, x)" by (cases s)
      with Some ih(3) obtain d1 d2 where d: "d = d1 @ (k, Some b) # d2" "\<forall>j b. (j, Some b) \<in> set d1 \<longrightarrow> bin_bag (bs ! b) = {#}"
        by auto
      then have "e # d = (e # d1) @ (k, Some b) # d2" "\<forall>j b. (j, Some b) \<in> set (e # d1) \<longrightarrow> bin_bag (bs ! b) = {#}"
        using empty e by auto
      then have "\<exists>d1 d2. e # d = d1 @ (k, Some b) # d2 \<and> (\<forall>j b. (j, Some b) \<in> set d1 \<longrightarrow> bin_bag (bs ! b) = {#})" by blast
      with Some s ih(3) show ?thesis by simp
    qed
    ultimately show ?thesis by auto
  next
    case (Some x)
    note taken = pop_Some [OF pop [unfolded Some]]
    have "scan_bins bin_pop (e # d) bs = Some (Some (i, a, x), bs[a := c])" using e pop Some by simp
    moreover have "\<exists>d1 d2. e # d = d1 @ (i, Some a) # d2 \<and> (\<forall>j b. (j, Some b) \<in> set d1 \<longrightarrow> bin_bag (bs ! b) = {#})"
      by (rule exI [of _ "[]"]) (simp add: e(1))
    ultimately show ?thesis using taken e(2)
      by (intro exI [of _ "Some (i, a, x)"] exI [of _ "bs[a := c]"]) simp
  qed
qed simp

text \<open>The scan of a thread whose map is up to date, from \<open>m\<close> on.\<close>

lemma scan_up_to_date:
  assumes log: "log_ok cfg s" and p: "map_holds (masterLog s) p" "nulls p = {}" "lastMasterVersion p = masterVersion s"
    and d: "d = drop (lower_bound m (local_map p)) (local_map p)"
  shows "\<forall>e \<in> set d. \<exists>a < length (bins s). snd e = Some a"
    "(i, Some a) \<in> set d \<longleftrightarrow> (i, a) \<in> set (masterLog s) \<and> m \<le> i"
    "fm_ok d"
proof -
  have ok: "fm_ok (local_map p)" using p(1) by (simp add: map_holds_def)
  obtain d0 d1 where s: "local_map p = d0 @ d1" "lower_bound m (local_map p) = length d0" "\<forall>e \<in> set d0. fst e < m"
      "\<forall>e \<in> set d1. m \<le> fst e" "fm_ok d1"
    by (rule lower_bound_split [OF ok, of m])
  have dd: "d = d1" using d by (simp only: s(2)) (simp add: s(1))
  show "fm_ok d" using s(5) dd by simp
  have dist: "distinct (map fst (local_map p))"
    using ok by (rule fm_ok_distinct)
  have bin: "bin_at p = map_of (masterLog s)" using p(1,3) log by (simp add: map_holds_def log_ok_def)
  have entry: "(i, Some a) \<in> set (local_map p) \<longleftrightarrow> (i, a) \<in> set (masterLog s)" for i a
  proof -
    have "(i, Some a) \<in> set (local_map p) \<longleftrightarrow> map_of (local_map p) i = Some (Some a)" using dist by simp
    also have "\<dots> \<longleftrightarrow> bin_at p i = Some a" by (auto simp: bin_at_def bind_eq_Some_conv)
    also have "\<dots> \<longleftrightarrow> (i, a) \<in> set (masterLog s)" using log by (simp add: bin log_ok_def)
    finally show ?thesis .
  qed
  show "(i, Some a) \<in> set d \<longleftrightarrow> (i, a) \<in> set (masterLog s) \<and> m \<le> i"
    using entry [of i a] s(1,3,4) dd by (auto simp: not_le)
  show "\<forall>e \<in> set d. \<exists>a < length (bins s). snd e = Some a"
  proof
    fix e
    assume e: "e \<in> set d"
    then have mem: "(fst e, snd e) \<in> set (local_map p)" using s(1) dd by simp
    then have "map_of (local_map p) (fst e) = Some (snd e)" using dist by simp
    then obtain a where a: "snd e = Some a" using p(2) by (cases "snd e") (auto simp: nulls_def)
    with mem entry have "(fst e, a) \<in> set (masterLog s)" by simp
    with a in_log_nth [OF log] show "\<exists>a < length (bins s). snd e = Some a" by blast
  qed
qed

lemma nonempty_scanned:
  assumes ok: "obim_ok cfg fits bin_bag s" and b: "b < length (bins s)" "bin_bag (bins s ! b) \<noteq> {#}"
    and sees: "sees_all cfg t"
  shows "scan_from cfg t (items s) \<le> fst (masterLog s ! b)"
proof (cases "BSP cfg")
  case True
  then obtain u where u: "u < activeThreads cfg" "scanStart (items s ! u) \<le> fst (masterLog s ! b)"
    using ok b by (auto simp: obim_ok_def scanned_def)
  then show ?thesis using scan_from_others [OF sees True u(1)] by (blast intro: order_trans)
next
  case False
  have "(fst (masterLog s ! b), b) \<in> set (masterLog s)"
    using ok b(1) nth_in_log [of cfg s b] by (simp add: obim_ok_def)
  then have "minIndex cfg \<le> fst (masterLog s ! b)" using ok by (fastforce simp: obim_ok_def log_ok_def)
  with False show ?thesis by (simp add: scan_from_def)
qed

lemma slowPop_facts:
  assumes ok0: "obim_ok cfg fits bin_bag s0" and t: "t < activeThreads cfg"
  shows "\<exists>r s'. slowPop cfg bin_pop t s0 = Some (r, s') \<and> obim_ok cfg fits bin_bag s' \<and> took bin_bag s0 r s' \<and>
    masterLog s' = masterLog s0 \<and> (sees_all cfg t \<longrightarrow> best fits bin_bag s0 r)"
proof -
  define p where "p = snd (updateLocal s0 (items s0 ! t))"
  define s where "s = set_item t p s0"
  define m where "m = scan_from cfg t (items s)"
  define d where "d = drop (lower_bound m (local_map p)) (local_map p)"
  have log0: "log_ok cfg s0" and p0: "item_ok cfg (masterLog s0) (items s0 ! t)" and len: "t < length (items s0)"
    using ok0 t by (auto simp: obim_ok_def)
  have h0: "map_holds (masterLog s0) (items s0 ! t)" using p0 by (simp add: item_ok_def)
  note u = updateLocal_facts [OF log0 h0 p_def]
  have p: "item_ok cfg (masterLog s0) p" using p0 u by (auto simp: item_ok_def same_item_def)
  have ok: "obim_ok cfg fits bin_bag s"
    unfolding s_def using set_item_ok [OF ok0 p] u(4) by (simp add: same_item_def)
  have same: "bins s = bins s0" "masterLog s = masterLog s0" "masterVersion s = masterVersion s0"
    "items s ! t = p" "t < length (items s)" using len by (simp_all add: s_def set_item_def)
  have log: "log_ok cfg s" using ok by (simp add: obim_ok_def)
  have pn: "map_holds (masterLog s) p" "nulls p = {}" "lastMasterVersion p = masterVersion s"
    using p u by (simp_all add: item_ok_def same)
  note upd = scan_up_to_date [OF log pn d_def]
  obtain r bs where scan: "scan_bins bin_pop d (bins s) = Some (r, bs)" "length bs = length (bins s)"
    "case r of
       None \<Rightarrow> (\<forall>a. bin_bag (bs ! a) = bin_bag (bins s ! a)) \<and> (\<forall>i a. (i, Some a) \<in> set d \<longrightarrow> bin_bag (bins s ! a) = {#})
     | Some (i, a, x) \<Rightarrow>
         bin_bag (bins s ! a) = add_mset x (bin_bag (bs ! a)) \<and> (\<forall>b. b \<noteq> a \<longrightarrow> bin_bag (bs ! b) = bin_bag (bins s ! b)) \<and>
         (\<exists>d1 d2. d = d1 @ (i, Some a) # d2 \<and> (\<forall>j b. (j, Some b) \<in> set d1 \<longrightarrow> bin_bag (bins s ! b) = {#}))"
    using scan_facts [OF upd(1)] by blast
  have in_d: "(fst (masterLog s ! b), Some b) \<in> set d" if "b < length (bins s)" "m \<le> fst (masterLog s ! b)" for b
    using upd(2) nth_in_log [OF log that(1)] that(2) by blast
  note slow = slowPop_def [of cfg bin_pop t s0, folded p_def, unfolded Let_def, folded s_def, folded m_def, folded d_def]
  show ?thesis
  proof (cases r)
    case None
    have "bags bin_bag bs = bags bin_bag (bins s)"
      using scan(2,3) None by (intro bags_cong) simp_all
    moreover have "obim_ok cfg fits bin_bag (s\<lparr>bins := bs\<rparr>)"
      using scan(2,3) None by (intro fewer_tasks_ok [OF ok]) simp_all
    moreover have "bags bin_bag (bins s) = {#}" if sees: "sees_all cfg t"
    proof (rule ccontr)
      assume "bags bin_bag (bins s) \<noteq> {#}"
      then obtain x where "x \<in># bags bin_bag (bins s)" by blast
      then obtain b where b: "b < length (bins s)" "x \<in># bin_bag (bins s ! b)" by (auto simp: in_bags_iff)
      then have "bin_bag (bins s ! b) \<noteq> {#}" by auto
      moreover from nonempty_scanned [OF ok b(1) this sees] have "(fst (masterLog s ! b), Some b) \<in> set d"
        using in_d b(1) by (simp add: m_def)
      ultimately show False using scan(3) None by auto
    qed
    ultimately show ?thesis using scan(1) None by (simp add: slow took_def best_def same)
  next
    case (Some e)
    obtain i a x where e: "e = (i, a, x)" by (metis prod_cases3)
    from Some e scan(3) obtain d1 d2 where bag: "bin_bag (bins s ! a) = add_mset x (bin_bag (bs ! a))"
      "\<forall>b. b \<noteq> a \<longrightarrow> bin_bag (bs ! b) = bin_bag (bins s ! b)"
      and d: "d = d1 @ (i, Some a) # d2" "\<forall>j b. (j, Some b) \<in> set d1 \<longrightarrow> bin_bag (bins s ! b) = {#}" by auto
    have ia: "(i, a) \<in> set (masterLog s)" using upd(2) [of i a] d(1) by simp
    note a = in_log_nth [OF log ia]
    have first: "i \<le> fst (masterLog s ! b)"
      if "b < length (bins s)" "bin_bag (bins s ! b) \<noteq> {#}" "m \<le> fst (masterLog s ! b)" for b
      using in_d [OF that(1,3)] d that(2) upd(3) by (auto simp: fm_ok_def sorted_wrt_append)
    define q where "q = p\<lparr>current := Some a, curIndex := i, scanStart := i\<rparr>"
    define s' where "s' = set_item t q (s\<lparr>bins := bs\<rparr>)"
    have fewer: "bin_bag (bs ! b) \<subseteq># bin_bag (bins s ! b)" for b using bag by (cases "b = a") auto
    have ok1: "obim_ok cfg fits bin_bag (s\<lparr>bins := bs\<rparr>)"
      using scan(2) fewer by (intro fewer_tasks_ok [OF ok]) simp_all
    have "map_holds (masterLog s) q" "nulls q = {}"
      using pn(1,2) by (simp_all add: q_def map_holds_def nulls_def bin_at_def fun_eq_iff)
    then have "item_ok cfg (masterLog s) q" using ia by (simp add: item_ok_def q_def)
    moreover have "items s' = (items s)[t := q]" by (simp add: s'_def set_item_def)
    ultimately have items: "\<forall>u < length (items s'). item_ok cfg (masterLog s) (items s' ! u)"
      using ok all_upd [of "items s" "item_ok cfg (masterLog s)" q t] by (simp add: obim_ok_def)
    have "scanned cfg bin_bag s'"
      unfolding scanned_def
    proof (intro impI allI)
      fix b
      assume b: "BSP cfg" "b < length (bins s')" "bin_bag (bins s' ! b) \<noteq> {#}"
      then have b': "b < length (bins s)" "bin_bag (bins s ! b) \<noteq> {#}"
        using scan(2) fewer [of b] by (auto simp: s'_def set_item_def)
      then obtain u where u: "u < activeThreads cfg" "scanStart (items s ! u) \<le> fst (masterLog s ! b)"
        using ok b(1) by (auto simp: obim_ok_def scanned_def)
      show "\<exists>u < activeThreads cfg. scanStart (items s' ! u) \<le> fst (masterLog s' ! b)"
      proof (cases "u = t")
        case True
        then have "m \<le> fst (masterLog s ! b)"
          using u(2) scan_from_own [OF b(1), of t "items s"] by (simp add: m_def)
        from first [OF b' this] t same(5) show ?thesis by (auto simp: s'_def set_item_def q_def intro!: exI [of _ t])
      next
        case False
        with u show ?thesis by (auto simp: s'_def set_item_def)
      qed
    qed
    with ok1 items have ok': "obim_ok cfg fits bin_bag s'"
      by (simp add: obim_ok_def s'_def set_item_def log_ok_def in_place_def)
    have bags: "bags bin_bag (bins s) = add_mset x (bags bin_bag bs)"
    proof -
      have "bags bin_bag ((bins s)[a := bs ! a]) = bags bin_bag bs"
        using scan(2) bag(2) a(1) by (intro bags_cong) (auto simp: nth_list_update)
      then show ?thesis using bags_update_sub [OF a(1), of bin_bag "bs ! a" "{#x#}"] bag(1) by simp
    qed
    have "fits x i" using ok bag(1) a by (force simp: obim_ok_def in_place_def)
    moreover have "i \<le> fst (masterLog s ! b)" if "sees_all cfg t" "b < length (bins s)" "bin_bag (bins s ! b) \<noteq> {#}" for b
      using first [OF that(2,3)] nonempty_scanned [OF ok that(2,3,1)] by (simp add: m_def)
    ultimately have "sees_all cfg t \<longrightarrow> best fits bin_bag s (Some x)" by (auto simp: best_def)
    moreover have "slowPop cfg bin_pop t s0 = Some (Some x, s')" using scan(1) Some e by (simp add: slow s'_def q_def)
    moreover have "bins s' = bs" "masterLog s' = masterLog s" by (simp_all add: s'_def set_item_def)
    moreover have "best fits bin_bag s r \<longleftrightarrow> best fits bin_bag s0 r" for r by (intro best_cong) (simp_all add: same)
    ultimately show ?thesis using ok' bags by (simp add: took_def same)
  qed
qed

text \<open>What \<open>pop\<close> does before it scans: it counts, and tries the current bin.\<close>

lemma pop_counts:
  assumes ok: "obim_ok cfg fits bin_bag s" and t: "t < length (items s)" and test: "block_test cfg (items s ! t) = (slow, q)"
  shows "obim_ok cfg fits bin_bag (set_item t q s)" "BlockPeriod cfg < 0 \<Longrightarrow> slow" "same_bags bin_bag s (set_item t q s)"
proof -
  let ?p = "items s ! t"
  have q: "\<exists>n. q = ?p\<lparr>numPops := n\<rparr>"
    using test by (auto simp: block_test_def split: if_splits intro: exI [of _ "numPops ?p"])
  have "item_ok cfg (masterLog s) ?p" using ok t by (simp add: obim_ok_def)
  then have "item_ok cfg (masterLog s) q"
    using q by (auto simp: item_ok_def map_holds_def nulls_def bin_at_def fun_eq_iff)
  then show "obim_ok cfg fits bin_bag (set_item t q s)" using q set_item_ok [OF ok] by force
  show "BlockPeriod cfg < 0 \<Longrightarrow> slow" using test by (auto simp: block_test_def)
  show "same_bags bin_bag s (set_item t q s)" by (simp add: same_bags_def set_item_def)
qed

lemma pop_current:
  assumes ok: "obim_ok cfg fits bin_bag s" and t: "t < length (items s)" and test: "block_test cfg (items s ! t) = (slow, q)"
    and c: "current (items s ! t) = Some c" "bin_pop (bins s ! c) = (b, r)"
    and s': "s' = (set_item t q s)\<lparr>bins := (bins s)[c := b]\<rparr>"
  shows "obim_ok cfg fits bin_bag s'" "r = None \<Longrightarrow> same_bags bin_bag s s'"
    "r = Some x \<Longrightarrow> took bin_bag s r s' \<and> bin_bag (bins s ! c) \<noteq> {#}" "masterLog s' = masterLog s"
proof -
  have same: "bins (set_item t q s) = bins s" "masterLog (set_item t q s) = masterLog s" by (simp_all add: set_item_def)
  have "(curIndex (items s ! t), c) \<in> set (masterLog s)" using ok t c(1) by (simp add: obim_ok_def item_ok_def)
  moreover have "log_ok cfg s" using ok by (simp add: obim_ok_def)
  ultimately have cl: "c < length (bins s)" using in_log_nth by blast
  note took = pop_Some [of "bins s ! c" b] and none = pop_None [of "bins s ! c" b]
  have sub: "bin_bag b \<subseteq># bin_bag (bins s ! c)" using took none c(2) by (cases r) auto
  show "obim_ok cfg fits bin_bag s'"
    unfolding s'
  proof (rule fewer_tasks_ok [OF pop_counts(1) [OF ok t test]])
    have "bin_bag ((bins s)[c := b] ! a) \<subseteq># bin_bag (bins s ! a)" for a using sub cl by (cases "a = c") simp_all
    then show "\<forall>a < length ((bins s)[c := b]). bin_bag ((bins s)[c := b] ! a) \<subseteq># bin_bag (bins (set_item t q s) ! a)"
      by (simp only: same) blast
  qed (simp add: same)
  show "same_bags bin_bag s s'" if "r = None"
  proof -
    have "bin_bag ((bins s)[c := b] ! k) = bin_bag (bins s ! k)" for k
      using none c(2) that cl by (cases "k = c") simp_all
    then show ?thesis by (simp add: same_bags_def s' same)
  qed
  show "took bin_bag s r s' \<and> bin_bag (bins s ! c) \<noteq> {#}" if "r = Some x"
    using bags_update_sub [OF cl, of bin_bag b "{#x#}"] took c(2) that by (simp add: took_def s' same)
  show "masterLog s' = masterLog s" by (simp add: s' same)
qed

lemma Obim_pop_facts:
  assumes ok: "obim_ok cfg fits bin_bag s" and t: "t < activeThreads cfg"
  shows "\<exists>r s'. Obim_pop cfg bin_pop t s = Some (r, s') \<and> obim_ok cfg fits bin_bag s' \<and> took bin_bag s r s' \<and>
    masterLog s' = masterLog s \<and>
    (sees_all cfg t \<and> (r = None \<or> BlockPeriod cfg < 0 \<or> (\<forall>c. current (items s ! t) = Some c \<longrightarrow> bin_bag (bins s ! c) = {#})) \<longrightarrow>
       best fits bin_bag s r)"
proof -
  obtain slow q where test: "block_test cfg (items s ! t) = (slow, q)" by force
  have len: "t < length (items s)" using ok t by (simp add: obim_ok_def)
  note counts = pop_counts [OF ok len test]
  note pop = Obim_pop_def [of cfg bin_pop t s, unfolded Let_def test prod.case]
  have bins: "bins (set_item t q s) = bins s" by (simp add: set_item_def)
  have scan: ?thesis
    if "Obim_pop cfg bin_pop t s = slowPop cfg bin_pop t s1" "obim_ok cfg fits bin_bag s1" "same_bags bin_bag s s1" for s1
    using slowPop_facts [OF that(2) t] unfolding that(1) same_bagsD [OF that(3)] by blast
  show ?thesis
  proof (cases "slow \<or> current (items s ! t) = None")
    case True
    then have "Obim_pop cfg bin_pop t s = slowPop cfg bin_pop t (set_item t q s)" by (auto simp: pop)
    then show ?thesis by (rule scan [OF _ counts(1,3)])
  next
    case False
    then obtain c where c: "current (items s ! t) = Some c" by auto
    obtain b r where bpop: "bin_pop (bins s ! c) = (b, r)" by force
    note cur = pop_current [OF ok len test c bpop refl]
    show ?thesis
    proof (cases r)
      case None
      have "Obim_pop cfg bin_pop t s = slowPop cfg bin_pop t ((set_item t q s)\<lparr>bins := (bins s)[c := b]\<rparr>)"
        using False c bpop None by (simp add: pop bins)
      then show ?thesis by (rule scan [OF _ cur(1) cur(2) [OF None]])
    next
      case (Some x)
      have "Obim_pop cfg bin_pop t s = Some (Some x, (set_item t q s)\<lparr>bins := (bins s)[c := b]\<rparr>)"
        using False c bpop Some by (simp add: pop bins)
      moreover have "\<not> BlockPeriod cfg < 0" using counts(2) False by blast
      ultimately show ?thesis using cur(1,4) cur(3) [OF Some] c Some by simp
    qed
  qed
qed

end

lemma Obim_init_ok:
  assumes "activeThreads cfg \<le> P"
  shows "obim_ok cfg fits bag (Obim_init cfg P :: ('i::linorder, 'c) obim)"
proof -
  have "item_ok cfg [] (perItem_init cfg)"
    by (simp add: item_ok_def map_holds_def nulls_def bin_at_def perItem_init_def fun_eq_iff)
  with assms show ?thesis
    by (simp add: obim_ok_def log_ok_def in_place_def scanned_def Obim_init_def)
qed

section \<open>Properties\<close>

text \<open>Here the index of a task does not change, and its bin is the one of that index.\<close>

definition at_index :: "('a \<Rightarrow> 'i) \<Rightarrow> 'a \<Rightarrow> 'i \<Rightarrow> bool" where
  "at_index indexer x i \<longleftrightarrow> indexer x = i"

lemma at_index_self: "at_index indexer x (indexer x)"
  by (simp add: at_index_def)

definition least_task :: "('a \<Rightarrow> 'i::linorder) \<Rightarrow> 'a multiset \<Rightarrow> 'a option \<Rightarrow> bool" where
  "least_task indexer tasks r \<longleftrightarrow>
     (case r of None \<Rightarrow> tasks = {#} | Some x \<Rightarrow> \<forall>y \<in># tasks. indexer x \<le> indexer y)"

lemma best_least_task:
  assumes "obim_ok cfg (at_index indexer) bag s" "best (at_index indexer) bag s r"
  shows "least_task indexer (bags bag (bins s)) r"
proof (cases r)
  case (Some x)
  have "indexer x \<le> indexer y" if "y \<in># bags bag (bins s)" for y
  proof -
    from that obtain b where b: "b < length (bins s)" "y \<in># bag (bins s ! b)" unfolding in_bags_iff by blast
    then have "indexer y = fst (masterLog s ! b)" using assms(1) by (auto simp: obim_ok_def in_place_def at_index_def)
    moreover have "bag (bins s ! b) \<noteq> {#}" using b(2) by auto
    ultimately show ?thesis using assms(2) b(1) Some by (auto simp: best_def at_index_def)
  qed
  with Some show ?thesis by (simp add: least_task_def)
qed (use assms(2) in \<open>simp add: best_def least_task_def\<close>)

text \<open>
  \<open>push\<close> on any thread puts the task into the bin of its index and no other, creating the bin at the end of the master log
  exactly when the index is new; it keeps the invariant: every thread's map is a prefix of the master log without a null
  pointer, the indices of the log are distinct, every task lies in the bin of its index, and with back-scan prevention
  some active thread's scan starts at or below every bin that has a task.
\<close>

theorem Obim_push_correct:
  assumes "obim_ok cfg (at_index indexer) mset s" "t < activeThreads cfg" "minIndex cfg \<le> indexer x"
    and "s' = Obim_push cfg (\<lambda>_. []) FIFO_push indexer t x s"
  shows "obim_ok cfg (at_index indexer) mset s' \<and> bags mset (bins s') = add_mset x (bags mset (bins s)) \<and>
    fst ` set (masterLog s') = insert (indexer x) (fst ` set (masterLog s)) \<and>
    masterLog s = take (length (masterLog s)) (masterLog s')"
  by (rule fifo_bin.Obim_push_facts [OF assms(1-3) at_index_self assms(4)])

definition three_threads :: "int obim_cfg" where
  "three_threads = \<lparr>BlockPeriod = 10, BSP = True, uniformBSP = False, minIndex = 0, activeThreads = 3, physids = [0, 0, 0]\<rparr>"

theorem Obim_push_correct_witness:
  "bags mset (bins (Obim_push three_threads (\<lambda>_. []) FIFO_push (\<lambda>x. x) 1 5 (Obim_init three_threads 3))) = {#5#}"
proof -
  have "obim_ok three_threads (at_index (\<lambda>x. x)) mset (Obim_init three_threads 3 :: (int, int list) obim)"
    by (rule Obim_init_ok) (simp add: three_threads_def)
  from Obim_push_correct [OF this, of 1 5] show ?thesis by (simp add: three_threads_def Obim_init_def)
qed

text \<open>
  C37: \<open>pop\<close> on an active thread follows no null pointer, takes exactly the task it returns and keeps the invariant. When the
  thread scans (its current bin is empty or missing, or the period is negative) and it is a package leader or runs with uniform or no
  back-scan prevention, the task has the least index of all tasks, and \<open>pop\<close> returns nothing only when there
  is no task at all.
\<close>

theorem Obim_pop_correct:
  assumes "obim_ok cfg (at_index indexer) mset s" "t < activeThreads cfg"
  shows "\<exists>r s'. Obim_pop cfg FIFO_pop t s = Some (r, s') \<and> obim_ok cfg (at_index indexer) mset s' \<and> took mset s r s' \<and>
    masterLog s' = masterLog s \<and>
    (sees_all cfg t \<and> (r = None \<or> BlockPeriod cfg < 0 \<or> (\<forall>c. current (items s ! t) = Some c \<longrightarrow> mset (bins s ! c) = {#})) \<longrightarrow>
       least_task indexer (bags mset (bins s)) r)"
  using fifo_bin.Obim_pop_facts [OF assms] best_least_task [OF assms(1)] by blast

theorem Obim_pop_correct_witness:
  "\<exists>r s'. Obim_pop three_threads FIFO_pop 1 (Obim_init three_threads 3 :: (int, int list) obim) = Some (r, s') \<and>
     obim_ok three_threads (at_index (\<lambda>x. x)) mset s' \<and> r = None"
proof -
  have "obim_ok three_threads (at_index (\<lambda>x. x)) mset (Obim_init three_threads 3 :: (int, int list) obim)"
    by (rule Obim_init_ok) (simp add: three_threads_def)
  from Obim_pop_correct [OF this, of 1] show ?thesis
    by (auto simp: three_threads_def Obim_init_def took_def split: option.splits)
qed

text \<open>Any sequence of operations from the empty scheduler.\<close>

datatype 'a obim_op = OPush nat 'a | OPop nat

fun Obim_run :: "int obim_cfg \<Rightarrow> ('a \<Rightarrow> int) \<Rightarrow> 'a obim_op list \<Rightarrow> (int, 'a list) obim \<Rightarrow> ('a list \<times> (int, 'a list) obim) option" where
  "Obim_run cfg indexer [] s = Some ([], s)"
| "Obim_run cfg indexer (OPush t x # ops) s =
     Obim_run cfg indexer ops (Obim_push cfg (\<lambda>_. []) FIFO_push indexer t x s)"
| "Obim_run cfg indexer (OPop t # ops) s =
     (case Obim_pop cfg FIFO_pop t s of
        None \<Rightarrow> None
      | Some (r, s) \<Rightarrow> map_option (\<lambda>(out, s). ((case r of None \<Rightarrow> out | Some x \<Rightarrow> x # out), s)) (Obim_run cfg indexer ops s))"

definition op_ok :: "int obim_cfg \<Rightarrow> ('a \<Rightarrow> int) \<Rightarrow> 'a obim_op \<Rightarrow> bool" where
  "op_ok cfg indexer p \<longleftrightarrow>
     (case p of OPush t x \<Rightarrow> t < activeThreads cfg \<and> minIndex cfg \<le> indexer x | OPop t \<Rightarrow> t < activeThreads cfg)"

fun pushed :: "'a obim_op list \<Rightarrow> 'a multiset" where
  "pushed [] = {#}"
| "pushed (OPush t x # ops) = add_mset x (pushed ops)"
| "pushed (OPop t # ops) = pushed ops"

lemma Obim_run_facts:
  assumes "obim_ok cfg (at_index indexer) mset s" "\<forall>p \<in> set ops. op_ok cfg indexer p"
  shows "\<exists>out s'. Obim_run cfg indexer ops s = Some (out, s') \<and> obim_ok cfg (at_index indexer) mset s' \<and>
    bags mset (bins s) + pushed ops = mset out + bags mset (bins s')"
  using assms
proof (induction ops arbitrary: s)
  case (Cons p ops)
  show ?case
  proof (cases p)
    case (OPush t x)
    define s1 where "s1 = Obim_push cfg (\<lambda>_. []) FIFO_push indexer t x s"
    have "t < activeThreads cfg" "minIndex cfg \<le> indexer x" using Cons.prems(2) OPush by (auto simp: op_ok_def)
    note s1 = fifo_bin.Obim_push_facts [OF Cons.prems(1) this at_index_self s1_def]
    from Cons.IH [of s1] s1 Cons.prems(2) obtain out s' where "Obim_run cfg indexer ops s1 = Some (out, s')"
      "obim_ok cfg (at_index indexer) mset s'" "bags mset (bins s1) + pushed ops = mset out + bags mset (bins s')" by auto
    then show ?thesis using s1 OPush by (intro exI [of _ out] exI [of _ s']) (simp add: s1_def [symmetric])
  next
    case (OPop t)
    have t: "t < activeThreads cfg" using Cons.prems(2) OPop by (auto simp: op_ok_def)
    obtain r s1 where s1: "Obim_pop cfg FIFO_pop t s = Some (r, s1)" "obim_ok cfg (at_index indexer) mset s1" "took mset s r s1"
      using fifo_bin.Obim_pop_facts [OF Cons.prems(1) t] by blast
    from Cons.IH [OF s1(2)] Cons.prems(2) obtain out s' where run: "Obim_run cfg indexer ops s1 = Some (out, s')"
      "obim_ok cfg (at_index indexer) mset s'" "bags mset (bins s1) + pushed ops = mset out + bags mset (bins s')" by auto
    let ?out = "case r of None \<Rightarrow> out | Some x \<Rightarrow> x # out"
    have "Obim_run cfg indexer (p # ops) s = Some (?out, s')" using OPop s1(1) run(1) by simp
    moreover have "bags mset (bins s) + pushed (p # ops) = mset ?out + bags mset (bins s')"
      using s1(3) run(3) OPop by (cases r) (simp_all add: took_def)
    ultimately show ?thesis using run(2) by blast
  qed
qed simp

text \<open>Thread 0 leads its package, so its scan always sees everything.\<close>

lemma thread_0_sees_all:
  assumes "physids cfg \<noteq> []"
  shows "sees_all cfg 0"
proof -
  have "isPackageLeader (physids cfg) 0" using assms isPackageLeader_iff [of 0 "physids cfg"] by simp
  then show ?thesis by (simp add: sees_all_def)
qed

text \<open>
  C36: Whatever the threads do from the empty scheduler on, no operation follows a null pointer, what was pushed is what was popped
  and what the bins hold, and when thread 0 finds nothing the bins are empty.
\<close>

theorem Obim_run_correct:
  assumes "activeThreads cfg \<le> P" "\<forall>p \<in> set ops. op_ok cfg indexer p" "physids cfg \<noteq> []" "0 < activeThreads cfg"
  shows "\<exists>out s r s'. Obim_run cfg indexer ops (Obim_init cfg P) = Some (out, s) \<and>
    pushed ops = mset out + bags mset (bins s) \<and> Obim_pop cfg FIFO_pop 0 s = Some (r, s') \<and>
    (r = None \<longrightarrow> pushed ops = mset out)"
proof -
  have "obim_ok cfg (at_index indexer) mset (Obim_init cfg P)" by (rule Obim_init_ok [OF assms(1)])
  from Obim_run_facts [OF this assms(2)] obtain out s where s: "Obim_run cfg indexer ops (Obim_init cfg P) = Some (out, s)"
    "obim_ok cfg (at_index indexer) mset s" "pushed ops = mset out + bags mset (bins s)" by (auto simp: Obim_init_def)
  obtain r s' where "Obim_pop cfg FIFO_pop 0 s = Some (r, s')" "r = None \<Longrightarrow> best (at_index indexer) mset s r"
    using fifo_bin.Obim_pop_facts [OF s(2) assms(4)] thread_0_sees_all [OF assms(3)] by auto
  with s show ?thesis by (auto simp: best_def)
qed

theorem Obim_run_correct_witness:
  "\<exists>out s. Obim_run three_threads (\<lambda>x. x) [OPush 0 7, OPush 1 5, OPop 2] (Obim_init three_threads 3) = Some (out, s) \<and>
     {#7, 5#} = mset out + bags mset (bins s)"
proof -
  have "\<forall>p \<in> set [OPush 0 7, OPush 1 5, OPop 2]. op_ok three_threads (\<lambda>x. x) p"
    by (simp add: op_ok_def three_threads_def)
  from Obim_run_correct [OF _ this, of 3] show ?thesis by (auto simp: three_threads_def)
qed

text \<open>
  Other threads may miss work: threads 0 and 1 have moved on to index 5 when thread 2 pushes a task of index 3, and thread 1
  looks at its own start and that of its leader only. The leader finds the task.
\<close>

definition missed_ops :: "int obim_op list" where
  "missed_ops = [OPush 0 5, OPush 0 5, OPop 0, OPop 1, OPush 2 3]"

theorem Obim_worker_misses_task:
  "(case Obim_run three_threads (\<lambda>x. x) missed_ops (Obim_init three_threads 3) of
      None \<Rightarrow> False
    | Some (out, s) \<Rightarrow>
        bags mset (bins s) = {#3#} \<and> map_option fst (Obim_pop three_threads FIFO_pop 1 s) = Some None \<and>
        map_option fst (Obim_pop three_threads FIFO_pop 0 s) = Some (Some 3))"
  by code_simp

text \<open>
  The check for better work \<open>every 2^BlockPeriod iterations\<close> never happens: for every positive period the counter is masked with 0.
\<close>

theorem Obim_period_never_checks:
  "0 < BlockPeriod cfg \<Longrightarrow> block_test cfg p = (False, p\<lparr>numPops := numPops p + 1\<rparr>)"
proof -
  assume pos: "0 < BlockPeriod cfg"
  then have "nat (BlockPeriod cfg) \<noteq> 0" by simp
  then have "(2 :: nat) ^ nat (BlockPeriod cfg) - 1 \<noteq> 0"
    by (metis One_nat_def diff_is_0_eq' diff_self_eq_0 not_less one_less_power zero_less_iff_neq_zero one_less_numeral_iff semiring_norm(76) zero_less_diff)
  with pos show ?thesis by (simp add: block_test_def period_mask_def)
qed

theorem Obim_period_never_checks_witness:
  "fst (block_test three_threads (perItem_init three_threads)) = False"
  using Obim_period_never_checks [of three_threads "perItem_init three_threads"] by (simp add: three_threads_def)

end
