(* ===== verification/ObimProtocol.thy ===== *)
theory ObimProtocol
  imports Obim
begin

text \<open>
  How the threads of \<open>OrderedByIntegerMetric\<close> find or create the bin of an index, access by access: \<open>updateLocalOrCreate\<close>,
  \<open>slowUpdateLocalOrCreate\<close> and \<open>updateLocal\<close> of \<open>WorkList/Obim.h\<close>. Only \<open>try_lock\<close> guards the master log; \<open>updateLocal\<close> reads it
  without the lock. The address of a bin is the number of the allocation. A step of a thread is one access to the shared
  log, version or lock, or to its own map.
\<close>

section \<open>The steps\<close>

text \<open>The flag of the first four says whether the thread holds the master lock.\<close>

datatype bin_pc =
    Upd int bool
  | Copy int bool
  | Read int bool
  | Check int bool
  | Rest
  | Look int
  | TryLock int
  | Create int
  | Stamp int nat
  | Append int nat
  | Publish int nat
  | Unlock int nat
  | Got int nat

record bin_state =
  mlog :: "(int \<times> nat) list"
  mversion :: nat
  mlock :: bool
  allocated :: nat
  item :: "nat \<Rightarrow> int perItem"
  bin_pcs :: "nat \<Rightarrow> bin_pc"

definition bin_init :: "int obim_cfg \<Rightarrow> bin_state" where
  "bin_init cfg = \<lparr>mlog = [], mversion = 0, mlock = False, allocated = 0, item = (\<lambda>_. perItem_init cfg), bin_pcs = (\<lambda>_. Rest)\<rparr>"

definition bin_goto :: "nat \<Rightarrow> bin_pc \<Rightarrow> int perItem \<Rightarrow> bin_state \<Rightarrow> bin_state" where
  "bin_goto t c p s = s\<lparr>bin_pcs := (bin_pcs s)(t := c), item := (item s)(t := p)\<rparr>"

text \<open>One step of thread \<open>t\<close>, which looks for index \<open>i\<close> next. \<open>None\<close>: it reads the master log out of range.\<close>

definition bin_step :: "nat \<Rightarrow> int \<Rightarrow> bin_state \<Rightarrow> bin_state option" where
  "bin_step t i s =
     (let p = item s t in
      case bin_pcs s t of
        Rest \<Rightarrow> Some (bin_goto t (Look i) p s)
      | Look i \<Rightarrow>
          (case local_at i p of
             (Some a, p) \<Rightarrow> Some (bin_goto t (Got i a) p s)
           | (None, p) \<Rightarrow> Some (bin_goto t (Upd i False) p s))
      | Upd i h \<Rightarrow> Some (bin_goto t (if lastMasterVersion p \<noteq> mversion s then Copy i h else Check i h) p s)
      | Copy i h \<Rightarrow> Some (bin_goto t (if lastMasterVersion p < mversion s then Read i h else Check i h) p s)
      | Read i h \<Rightarrow>
          (if lastMasterVersion p < length (mlog s)
           then let entry = mlog s ! lastMasterVersion p;
                    p' = local_put (fst entry) (Some (snd entry)) p
                in Some (bin_goto t (Copy i h) (p'\<lparr>lastMasterVersion := lastMasterVersion p' + 1\<rparr>) s)
           else None)
      | Check i h \<Rightarrow>
          (case local_at i p of
             (Some a, p) \<Rightarrow> Some (bin_goto t (if h then Unlock i a else Got i a) p s)
           | (None, p) \<Rightarrow> Some (bin_goto t (if h then Create i else TryLock i) p s))
      | TryLock i \<Rightarrow>
          Some (if mlock s then bin_goto t (Upd i False) p s else bin_goto t (Upd i True) p (s\<lparr>mlock := True\<rparr>))
      | Create i \<Rightarrow>
          Some (bin_goto t (Stamp i (allocated s)) (local_put i (Some (allocated s)) p) (s\<lparr>allocated := allocated s + 1\<rparr>))
      | Stamp i a \<Rightarrow> Some (bin_goto t (Append i a) (p\<lparr>lastMasterVersion := mversion s + 1\<rparr>) s)
      | Append i a \<Rightarrow> Some (bin_goto t (Publish i a) p (s\<lparr>mlog := mlog s @ [(i, a)]\<rparr>))
      | Publish i a \<Rightarrow> Some (bin_goto t (Unlock i a) p (s\<lparr>mversion := mversion s + 1\<rparr>))
      | Unlock i a \<Rightarrow> Some (bin_goto t (Got i a) p (s\<lparr>mlock := False\<rparr>))
      | Got i a \<Rightarrow> Some (bin_goto t Rest p s))"

inductive bin_reach :: "int obim_cfg \<Rightarrow> bin_state \<Rightarrow> bool" for cfg where
  start: "bin_reach cfg (bin_init cfg)"
| step: "bin_reach cfg s \<Longrightarrow> bin_step t i s = Some s' \<Longrightarrow> bin_reach cfg s'"

section \<open>The invariant\<close>

fun holds_lock :: "bin_pc \<Rightarrow> bool" where
  "holds_lock (Upd i h) = h"
| "holds_lock (Copy i h) = h"
| "holds_lock (Read i h) = h"
| "holds_lock (Check i h) = h"
| "holds_lock Rest = False"
| "holds_lock (Look i) = False"
| "holds_lock (TryLock i) = False"
| "holds_lock (Create i) = True"
| "holds_lock (Stamp i a) = True"
| "holds_lock (Append i a) = True"
| "holds_lock (Publish i a) = True"
| "holds_lock (Unlock i a) = True"
| "holds_lock (Got i a) = False"

text \<open>A thread's map against the log \<open>l\<close>, the version \<open>v\<close> and the number \<open>n\<close> of allocations.\<close>

definition synced :: "(int \<times> nat) list \<Rightarrow> nat \<Rightarrow> int set \<Rightarrow> int perItem \<Rightarrow> bool" where
  "synced l v N p \<longleftrightarrow> map_holds l p \<and> lastMasterVersion p \<le> v \<and> nulls p \<subseteq> N"

definition fresh_bin :: "(int \<times> nat) list \<Rightarrow> nat \<Rightarrow> int \<Rightarrow> nat \<Rightarrow> bool" where
  "fresh_bin l n i a \<longleftrightarrow> i \<notin> fst ` set l \<and> a \<notin> snd ` set l \<and> a < n"

fun bin_pc_ok :: "(int \<times> nat) list \<Rightarrow> nat \<Rightarrow> nat \<Rightarrow> bin_pc \<Rightarrow> int perItem \<Rightarrow> bool" where
  "bin_pc_ok l v n (Upd i h) p \<longleftrightarrow> synced l v {i} p"
| "bin_pc_ok l v n (Copy i h) p \<longleftrightarrow> synced l v {i} p"
| "bin_pc_ok l v n (Read i h) p \<longleftrightarrow> synced l v {i} p \<and> lastMasterVersion p < v"
| "bin_pc_ok l v n (Check i h) p \<longleftrightarrow> synced l v {i} p \<and> (h \<longrightarrow> lastMasterVersion p = v)"
| "bin_pc_ok l v n Rest p \<longleftrightarrow> synced l v {} p"
| "bin_pc_ok l v n (Look i) p \<longleftrightarrow> synced l v {} p"
| "bin_pc_ok l v n (TryLock i) p \<longleftrightarrow> synced l v {i} p"
| "bin_pc_ok l v n (Create i) p \<longleftrightarrow> synced l v {i} p \<and> lastMasterVersion p = v \<and> bin_at p i = None"
| "bin_pc_ok l v n (Stamp i a) p \<longleftrightarrow>
     fm_ok (local_map p) \<and> nulls p = {} \<and> bin_at p = (map_of l)(i \<mapsto> a) \<and> fresh_bin l n i a"
| "bin_pc_ok l v n (Append i a) p \<longleftrightarrow>
     fm_ok (local_map p) \<and> nulls p = {} \<and> bin_at p = (map_of l)(i \<mapsto> a) \<and> fresh_bin l n i a \<and>
     lastMasterVersion p = v + 1"
| "bin_pc_ok l v n (Publish i a) p \<longleftrightarrow> synced l (v + 1) {} p \<and> (i, a) \<in> set l \<and> length l = v + 1"
| "bin_pc_ok l v n (Unlock i a) p \<longleftrightarrow> synced l v {} p \<and> (i, a) \<in> set l"
| "bin_pc_ok l v n (Got i a) p \<longleftrightarrow> synced l v {} p \<and> (i, a) \<in> set l"

definition publishing :: "bin_pc \<Rightarrow> bool" where
  "publishing c \<longleftrightarrow> (\<exists>i a. c = Publish i a)"

definition bin_inv :: "bin_state \<Rightarrow> bool" where
  "bin_inv s \<longleftrightarrow>
     distinct (map fst (mlog s)) \<and> distinct (map snd (mlog s)) \<and> (\<forall>a \<in> snd ` set (mlog s). a < allocated s) \<and>
     (\<forall>t. bin_pc_ok (mlog s) (mversion s) (allocated s) (bin_pcs s t) (item s t)) \<and>
     (\<forall>t u. holds_lock (bin_pcs s t) \<longrightarrow> holds_lock (bin_pcs s u) \<longrightarrow> t = u) \<and>
     (\<not> mlock s \<longrightarrow> (\<forall>t. \<not> holds_lock (bin_pcs s t))) \<and>
     ((\<forall>t. \<not> publishing (bin_pcs s t)) \<longrightarrow> mversion s = length (mlog s)) \<and> mversion s \<le> length (mlog s)"

text \<open>What a thread without the lock relies on only grows.\<close>

lemma synced_mono: "synced l v N p \<Longrightarrow> v \<le> v' \<Longrightarrow> synced (l @ es) v' N p"
  by (auto simp: synced_def holds_append)

lemma bin_pc_ok_mono:
  "bin_pc_ok l v n c p \<Longrightarrow> \<not> holds_lock c \<Longrightarrow> v \<le> v' \<Longrightarrow> bin_pc_ok (l @ es) v' n' c p"
  by (cases c) (auto intro: synced_mono)

text \<open>A step of thread \<open>t\<close> to the point \<open>c\<close>: either the shared log is the same, or the thread holds the lock.\<close>

lemma bin_inv_stepI:
  assumes inv: "bin_inv s" and s': "bin_pcs s' = (bin_pcs s)(t := c)" "item s' = (item s)(t := p)"
    and log: "distinct (map fst (mlog s'))" "distinct (map snd (mlog s'))" "\<forall>a \<in> snd ` set (mlog s'). a < allocated s'"
    and own: "bin_pc_ok (mlog s') (mversion s') (allocated s') c p"
    and shared: "mlog s' = mlog s \<and> mversion s' = mversion s \<and> allocated s' = allocated s \<or>
      holds_lock (bin_pcs s t) \<and> (\<exists>es. mlog s' = mlog s @ es) \<and> mversion s \<le> mversion s'"
    and lock: "holds_lock c \<Longrightarrow> holds_lock (bin_pcs s t) \<or> \<not> mlock s"
      "\<not> mlock s' \<Longrightarrow> \<not> holds_lock c \<and> (holds_lock (bin_pcs s t) \<or> \<not> mlock s)"
    and version: "\<not> publishing c \<Longrightarrow> \<forall>u. u \<noteq> t \<longrightarrow> \<not> publishing (bin_pcs s u) \<Longrightarrow> mversion s' = length (mlog s')"
      "mversion s' \<le> length (mlog s')"
  shows "bin_inv s'"
proof -
  have ok: "bin_pc_ok (mlog s) (mversion s) (allocated s) (bin_pcs s u) (item s u)" for u
    using inv by (simp add: bin_inv_def)
  have one: "holds_lock (bin_pcs s u) \<Longrightarrow> holds_lock (bin_pcs s w) \<Longrightarrow> u = w" for u w
    using inv by (simp add: bin_inv_def)
  have free: "\<not> mlock s \<Longrightarrow> \<not> holds_lock (bin_pcs s u)" for u using inv by (simp add: bin_inv_def)
  have "bin_pc_ok (mlog s') (mversion s') (allocated s') (bin_pcs s' u) (item s' u)" for u
  proof (cases "u = t")
    case False
    then have eq: "bin_pcs s' u = bin_pcs s u" "item s' u = item s u" using s' by simp_all
    from shared show ?thesis
    proof
      assume *: "holds_lock (bin_pcs s t) \<and> (\<exists>es. mlog s' = mlog s @ es) \<and> mversion s \<le> mversion s'"
      then obtain es where es: "mlog s' = mlog s @ es" by blast
      have "\<not> holds_lock (bin_pcs s u)" using * one [of t u] False by blast
      from bin_pc_ok_mono [OF ok this, of "mversion s'" es "allocated s'"] show ?thesis using * eq es by simp
    qed (use ok [of u] eq in simp)
  qed (use own s' in simp)
  moreover have "u = w" if "holds_lock (bin_pcs s' u)" "holds_lock (bin_pcs s' w)" for u w
    using that one [of u w] one [of t u] one [of t w] free [of u] free [of w] lock(1) s'(1)
    by (cases "u = t"; cases "w = t") auto
  moreover have "\<not> holds_lock (bin_pcs s' u)" if "\<not> mlock s'" for u
    using lock(2) [OF that] one [of t u] free [of u] s'(1) by (cases "u = t") auto
  moreover have "mversion s' = length (mlog s')" if "\<forall>u. \<not> publishing (bin_pcs s' u)"
  proof -
    have "\<not> publishing c" using that [rule_format, of t] s'(1) by simp
    moreover have "\<forall>u. u \<noteq> t \<longrightarrow> \<not> publishing (bin_pcs s u)"
    proof (intro allI impI)
      fix u assume "u \<noteq> t"
      then show "\<not> publishing (bin_pcs s u)" using that [rule_format, of u] s'(1) by simp
    qed
    ultimately show ?thesis by (rule version(1))
  qed
  ultimately show ?thesis unfolding bin_inv_def using log version(2) by blast
qed

lemma publishing_holds: "publishing c \<Longrightarrow> holds_lock c"
  by (auto simp: publishing_def)

text \<open>The case of a step that changes nothing shared but perhaps takes or gives back the lock.\<close>

lemma bin_inv_own:
  assumes inv: "bin_inv s" and own: "bin_pc_ok (mlog s) (mversion s) (allocated s) c p"
    and c: "holds_lock c \<Longrightarrow> holds_lock (bin_pcs s t)" "publishing c \<longleftrightarrow> publishing (bin_pcs s t)"
  shows "bin_inv (bin_goto t c p s)"
proof (rule bin_inv_stepI [OF inv, where t = t and c = c and p = p])
  assume *: "\<not> publishing c" "\<forall>u. u \<noteq> t \<longrightarrow> \<not> publishing (bin_pcs s u)"
  then have "\<forall>u. \<not> publishing (bin_pcs s u)" using c(2) by metis
  then show "mversion (bin_goto t c p s) = length (mlog (bin_goto t c p s))"
    using inv by (simp add: bin_inv_def bin_goto_def)
next
  assume "\<not> mlock (bin_goto t c p s)"
  then show "\<not> holds_lock c \<and> (holds_lock (bin_pcs s t) \<or> \<not> mlock s)"
    using inv c(1) by (auto simp: bin_inv_def bin_goto_def)
qed (use inv own c(1) in \<open>auto simp: bin_inv_def bin_goto_def\<close>)

lemma holder_version:
  assumes "bin_inv s" "holds_lock (bin_pcs s t)" "\<not> publishing (bin_pcs s t)"
  shows "mversion s = length (mlog s)"
proof -
  have "\<not> publishing (bin_pcs s u)" for u
    using assms publishing_holds [of "bin_pcs s u"] by (cases "u = t") (auto simp: bin_inv_def)
  with assms(1) show ?thesis by (simp add: bin_inv_def)
qed

lemma bin_pc_ok_at: "bin_inv s \<Longrightarrow> bin_pc_ok (mlog s) (mversion s) (allocated s) (bin_pcs s t) (item s t)"
  by (simp add: bin_inv_def)

section \<open>Every step keeps it\<close>

lemma synced_local_at:
  assumes "synced l v N p" "local_at i p = (c, q)"
  shows "c = bin_at p i" "bin_at q = bin_at p" "lastMasterVersion q = lastMasterVersion p"
    "synced l v (if c = None then insert i N else N) q" "c = Some a \<Longrightarrow> N \<subseteq> {i} \<Longrightarrow> synced l v {} q \<and> (i, a) \<in> set l"
proof -
  have h: "map_holds l p" using assms(1) by (simp add: synced_def)
  note f = local_at_holds [OF h assms(2)]
  show eq: "c = bin_at p i" "bin_at q = bin_at p" "lastMasterVersion q = lastMasterVersion p" using f by simp_all
  show "synced l v (if c = None then insert i N else N) q" using f assms(1) by (auto simp: synced_def split: if_splits)
  show "synced l v {} q \<and> (i, a) \<in> set l" if "c = Some a" "N \<subseteq> {i}"
  proof -
    have a: "bin_at p i = Some a" using f(1) that(1) by simp
    have "nulls q = {}" using f(5) a bin_not_null [OF a] assms(1) that(2) by (auto simp: synced_def)
    then show ?thesis using f(2,6) assms(1) holds_bin [OF h a] by (simp add: synced_def)
  qed
qed

lemma synced_read:
  assumes "synced l v N p" "distinct (map fst l)" "lastMasterVersion p < v" "v \<le> length l"
    and q: "q = (local_put (fst (l ! lastMasterVersion p)) (Some (snd (l ! lastMasterVersion p))) p)
      \<lparr>lastMasterVersion := lastMasterVersion p + 1\<rparr>"
  shows "synced l v N q"
proof -
  let ?n = "lastMasterVersion p" and ?e = "l ! lastMasterVersion p"
  have ok: "fm_ok (local_map p)" and n: "?n < length l" using assms by (simp_all add: synced_def map_holds_def)
  note put = local_put_facts [OF ok, of "fst ?e" "snd ?e"]
  have "bin_at q = bin_at (local_put (fst ?e) (Some (snd ?e)) p)" "nulls q = nulls (local_put (fst ?e) (Some (snd ?e)) p)"
    by (simp_all add: q bin_at_def nulls_def fun_eq_iff)
  moreover have "map_of (take (Suc ?n) l) = (bin_at p)(fst ?e \<mapsto> snd ?e)"
    using assms(1) map_of_take_nth [OF assms(2) n] by (simp add: synced_def map_holds_def)
  ultimately show ?thesis using put assms(1,3) n by (auto simp: synced_def map_holds_def q)
qed

lemma bin_locked: "bin_inv s \<Longrightarrow> holds_lock (bin_pcs s t) \<Longrightarrow> mlock s"
  by (auto simp: bin_inv_def)

lemma bin_inv_create:
  assumes inv: "bin_inv s" and c: "bin_pcs s t = Create i"
  shows "bin_inv (bin_goto t (Stamp i (allocated s)) (local_put i (Some (allocated s)) (item s t))
    (s\<lparr>allocated := allocated s + 1\<rparr>))"
    (is "bin_inv ?s")
proof (rule bin_inv_stepI [OF inv, where t = t and c = "Stamp i (allocated s)" and p = "local_put i (Some (allocated s)) (item s t)"])
  let ?p = "item s t"
  have p: "synced (mlog s) (mversion s) {i} ?p" "lastMasterVersion ?p = mversion s" "bin_at ?p i = None"
    using bin_pc_ok_at [OF inv, of t] c by simp_all
  have v: "mversion s = length (mlog s)" using holder_version [OF inv, of t] c by (simp add: publishing_def)
  have ok: "fm_ok (local_map ?p)" and bin: "bin_at ?p = map_of (mlog s)" and nul: "nulls ?p \<subseteq> {i}"
    using p v by (simp_all add: synced_def map_holds_def)
  note put = local_put_facts [OF ok, of i "allocated s"]
  have "i \<notin> fst ` set (mlog s)" using p(3) bin by (simp add: map_of_eq_None_iff)
  moreover have "allocated s \<notin> snd ` set (mlog s)" using inv by (auto simp: bin_inv_def)
  ultimately have "fresh_bin (mlog s) (allocated s + 1) i (allocated s)" by (simp add: fresh_bin_def)
  then show "bin_pc_ok (mlog ?s) (mversion ?s) (allocated ?s) (Stamp i (allocated s)) (local_put i (Some (allocated s)) ?p)"
    using put bin nul by (auto simp: bin_goto_def)
  show "mversion ?s = length (mlog ?s)" using v by (simp add: bin_goto_def)
  show "\<not> mlock ?s \<Longrightarrow> \<not> holds_lock (Stamp i (allocated s)) \<and> (holds_lock (bin_pcs s t) \<or> \<not> mlock s)"
    using bin_locked [OF inv, of t] c by (simp add: bin_goto_def)
qed (use inv c in \<open>auto simp: bin_inv_def bin_goto_def\<close>)

lemma bin_inv_append:
  assumes inv: "bin_inv s" and c: "bin_pcs s t = Append i a"
  shows "bin_inv (bin_goto t (Publish i a) (item s t) (s\<lparr>mlog := mlog s @ [(i, a)]\<rparr>))" (is "bin_inv ?s")
proof (rule bin_inv_stepI [OF inv, where t = t and c = "Publish i a" and p = "item s t"])
  let ?p = "item s t"
  have p: "fm_ok (local_map ?p)" "nulls ?p = {}" "bin_at ?p = (map_of (mlog s))(i \<mapsto> a)"
    "fresh_bin (mlog s) (allocated s) i a" "lastMasterVersion ?p = mversion s + 1"
    using bin_pc_ok_at [OF inv, of t] c by simp_all
  have v: "mversion s = length (mlog s)" using holder_version [OF inv, of t] c by (simp add: publishing_def)
  have "map_of (mlog s) i = None" using p(4) by (simp add: fresh_bin_def map_of_eq_None_iff)
  then have "map_of (mlog s @ [(i, a)]) = (map_of (mlog s))(i \<mapsto> a)"
    using map_of_snoc [of "mlog s" "(i, a)"] by (simp only: fst_conv snd_conv if_True refl)
  then show "bin_pc_ok (mlog ?s) (mversion ?s) (allocated ?s) (Publish i a) ?p"
    using p v by (simp add: bin_goto_def synced_def map_holds_def del: map_of_append)
  show "distinct (map fst (mlog ?s))" "distinct (map snd (mlog ?s))" "\<forall>a \<in> snd ` set (mlog ?s). a < allocated ?s"
    using inv p(4) by (auto simp: bin_inv_def bin_goto_def fresh_bin_def)
  show "\<not> mlock ?s \<Longrightarrow> \<not> holds_lock (Publish i a) \<and> (holds_lock (bin_pcs s t) \<or> \<not> mlock s)"
    using bin_locked [OF inv, of t] c by (simp add: bin_goto_def)
  show "mversion ?s \<le> length (mlog ?s)" using v by (simp add: bin_goto_def)
qed (use c in \<open>auto simp: bin_goto_def publishing_def\<close>)

lemma bin_inv_publish:
  assumes inv: "bin_inv s" and c: "bin_pcs s t = Publish i a"
  shows "bin_inv (bin_goto t (Unlock i a) (item s t) (s\<lparr>mversion := mversion s + 1\<rparr>))" (is "bin_inv ?s")
proof (rule bin_inv_stepI [OF inv, where t = t and c = "Unlock i a" and p = "item s t"])
  have p: "synced (mlog s) (mversion s + 1) {} (item s t)" "(i, a) \<in> set (mlog s)" "length (mlog s) = mversion s + 1"
    using bin_pc_ok_at [OF inv, of t] c by simp_all
  then show "bin_pc_ok (mlog ?s) (mversion ?s) (allocated ?s) (Unlock i a) (item s t)" by (simp add: bin_goto_def)
  show "mversion ?s = length (mlog ?s)" "mversion ?s \<le> length (mlog ?s)" using p(3) by (simp_all add: bin_goto_def)
  show "\<not> mlock ?s \<Longrightarrow> \<not> holds_lock (Unlock i a) \<and> (holds_lock (bin_pcs s t) \<or> \<not> mlock s)"
    using bin_locked [OF inv, of t] c by (simp add: bin_goto_def)
qed (use inv c in \<open>auto simp: bin_inv_def bin_goto_def\<close>)

lemma bin_inv_lock:
  assumes inv: "bin_inv s" and c: "bin_pcs s t = TryLock i" "\<not> mlock s"
  shows "bin_inv (bin_goto t (Upd i True) (item s t) (s\<lparr>mlock := True\<rparr>))" (is "bin_inv ?s")
proof (rule bin_inv_stepI [OF inv, where t = t and c = "Upd i True" and p = "item s t"])
  show "bin_pc_ok (mlog ?s) (mversion ?s) (allocated ?s) (Upd i True) (item s t)"
    using bin_pc_ok_at [OF inv, of t] c by (simp add: bin_goto_def)
  assume "\<forall>u. u \<noteq> t \<longrightarrow> \<not> publishing (bin_pcs s u)"
  then have "\<forall>u. \<not> publishing (bin_pcs s u)" using c(1) by (metis bin_pc.distinct publishing_def)
  then show "mversion ?s = length (mlog ?s)" using inv by (simp add: bin_inv_def bin_goto_def)
qed (use inv c in \<open>auto simp: bin_inv_def bin_goto_def\<close>)

lemma bin_inv_unlock:
  assumes inv: "bin_inv s" and c: "bin_pcs s t = Unlock i a"
  shows "bin_inv (bin_goto t (Got i a) (item s t) (s\<lparr>mlock := False\<rparr>))" (is "bin_inv ?s")
proof (rule bin_inv_stepI [OF inv, where t = t and c = "Got i a" and p = "item s t"])
  show "bin_pc_ok (mlog ?s) (mversion ?s) (allocated ?s) (Got i a) (item s t)"
    using bin_pc_ok_at [OF inv, of t] c by (simp add: bin_goto_def)
  show "mversion ?s = length (mlog ?s)"
    using holder_version [OF inv, of t] c by (simp add: publishing_def bin_goto_def)
qed (use inv c in \<open>auto simp: bin_inv_def bin_goto_def\<close>)

lemma bin_step_inv:
  assumes inv: "bin_inv s"
  shows "\<exists>s'. bin_step t j s = Some s' \<and> bin_inv s'"
proof -
  note ok = bin_pc_ok_at [OF inv, of t]
  note own = bin_inv_own [OF inv, of _ _ t]
  note step = bin_step_def [of t j s, unfolded Let_def]
  have v: "mversion s \<le> length (mlog s)" and d: "distinct (map fst (mlog s))" using inv by (simp_all add: bin_inv_def)
  show ?thesis
  proof (cases "bin_pcs s t")
    case (Look i)
    obtain c p where l: "local_at i (item s t) = (c, p)" by force
    have "synced (mlog s) (mversion s) {} (item s t)" using ok Look by simp
    note f = synced_local_at [OF this l]
    let ?c = "case c of None \<Rightarrow> Upd i False | Some a \<Rightarrow> Got i a"
    have pc: "bin_pc_ok (mlog s) (mversion s) (allocated s) ?c p"
      using f(4,5) by (cases c) auto
    moreover have "bin_step t j s = Some (bin_goto t ?c p s)" using Look l by (cases c) (simp_all add: step)
    moreover have "bin_inv (bin_goto t ?c p s)"
      by (rule own [OF pc]) (use Look in \<open>auto simp: publishing_def split: option.splits if_splits\<close>)
    ultimately show ?thesis by simp
  next
    case (Check i h)
    obtain c p where l: "local_at i (item s t) = (c, p)" by force
    have p: "synced (mlog s) (mversion s) {i} (item s t)" "h \<longrightarrow> lastMasterVersion (item s t) = mversion s" using ok Check by simp_all
    note f = synced_local_at [OF p(1) l]
    let ?c = "case c of None \<Rightarrow> if h then Create i else TryLock i | Some a \<Rightarrow> if h then Unlock i a else Got i a"
    have pc: "bin_pc_ok (mlog s) (mversion s) (allocated s) ?c p"
    proof (cases c)
      case None
      have "synced (mlog s) (mversion s) {i} p" using f(4) None by simp
      moreover have "bin_at p i = None" using f(1,2) None by simp
      ultimately show ?thesis using p(2) f(3) None by simp
    next
      case (Some a)
      have "synced (mlog s) (mversion s) {} p \<and> (i, a) \<in> set (mlog s)" by (rule f(5) [OF Some order_refl])
      then show ?thesis using Some by simp
    qed
    moreover have "bin_step t j s = Some (bin_goto t ?c p s)" using Check l by (cases c) (simp_all add: step)
    moreover have "bin_inv (bin_goto t ?c p s)"
      by (rule own [OF pc]) (use Check in \<open>auto simp: publishing_def split: option.splits if_splits\<close>)
    ultimately show ?thesis by simp
  next
    case (Read i h)
    have p: "synced (mlog s) (mversion s) {i} (item s t)" "lastMasterVersion (item s t) < mversion s" using ok Read by simp_all
    have last: "lastMasterVersion (local_put k (Some b) (item s t)) = lastMasterVersion (item s t)" for k b
      using p(1) by (intro local_put_facts(5)) (simp add: synced_def map_holds_def)
    note q = synced_read [OF p(1) d p(2) v refl]
    have "lastMasterVersion (item s t) < length (mlog s)" using p(2) v by simp
    then show ?thesis using Read q by (auto simp: step publishing_def last Let_def intro!: own)
  next
    case (Upd i h)
    then show ?thesis using ok by (auto simp: step publishing_def intro!: own)
  next
    case (Copy i h)
    then show ?thesis using ok by (auto simp: step publishing_def synced_def intro!: own)
  next
    case (TryLock i)
    then show ?thesis using ok bin_inv_lock [OF inv TryLock] by (auto simp: step publishing_def intro!: own)
  next
    case (Stamp i a)
    then show ?thesis using ok by (auto simp: step publishing_def bin_at_def nulls_def fun_eq_iff intro!: own)
  qed (use ok bin_inv_create [OF inv] bin_inv_append [OF inv] bin_inv_publish [OF inv] bin_inv_unlock [OF inv] in
      \<open>auto simp: step publishing_def intro!: own\<close>)
qed

lemma bin_init_inv: "bin_inv (bin_init cfg)"
  by (simp add: bin_inv_def bin_init_def publishing_def synced_def map_holds_def nulls_def bin_at_def perItem_init_def fun_eq_iff)

lemma bin_reach_inv: "bin_reach cfg s \<Longrightarrow> bin_inv s"
proof (induction rule: bin_reach.induct)
  case (step s t i s')
  then show ?case using bin_step_inv [of s t i] by auto
qed (rule bin_init_inv)

section \<open>A thread that runs alone\<close>

definition alone :: "nat \<Rightarrow> bin_state \<Rightarrow> bin_state \<Rightarrow> bool" where
  "alone t = (\<lambda>s s'. \<exists>i. bin_step t i s = Some s')\<^sup>*\<^sup>*"

lemma alone_refl: "alone t s s"
  by (simp add: alone_def)

lemma alone_step: "bin_step t i s = Some s' \<Longrightarrow> alone t s' s'' \<Longrightarrow> alone t s s''"
  unfolding alone_def by (rule converse_rtranclp_into_rtranclp) blast+

text \<open>The state the operations of theory \<open>Obim\<close> see.\<close>

definition seq_state :: "'c list \<Rightarrow> nat \<Rightarrow> bin_state \<Rightarrow> (int, 'c) obim" where
  "seq_state bs n s = \<lparr>masterLog = mlog s, masterVersion = mversion s, items = [], bins = bs, numberOfPris = n\<rparr>"

lemma bin_goto_bgoto [simp]: "bin_goto t c p (bin_goto t c' p' s) = bin_goto t c p s"
  by (simp add: bin_goto_def)

lemma bin_goto_sel [simp]: "bin_pcs (bin_goto t c p s) t = c" "item (bin_goto t c p s) t = p" "mlog (bin_goto t c p s) = mlog s"
  "mversion (bin_goto t c p s) = mversion s" "mlock (bin_goto t c p s) = mlock s" "allocated (bin_goto t c p s) = allocated s"
  by (simp_all add: bin_goto_def)

lemma copy_alone:
  assumes "v = mversion s" "v \<le> length (mlog s)"
  shows "alone t (bin_goto t (Copy i h) p s) (bin_goto t (Check i h) (update_loop (mlog s) v p) s)"
  using assms
proof (induction "mlog s" v p rule: update_loop.induct)
  case (1 v p)
  show ?case
  proof (cases "lastMasterVersion p < v")
    case False
    then have "update_loop (mlog s) v p = p" by (subst update_loop.simps) simp
    moreover have "bin_step t i (bin_goto t (Copy i h) p s) = Some (bin_goto t (Check i h) p s)"
      using False "1.prems" by (simp add: bin_step_def)
    ultimately show ?thesis using alone_refl by (auto intro: alone_step)
  next
    case True
    define q where "q = (let entry = mlog s ! lastMasterVersion p; p' = local_put (fst entry) (Some (snd entry)) p
      in p'\<lparr>lastMasterVersion := lastMasterVersion p' + 1\<rparr>)"
    have "update_loop (mlog s) v p = update_loop (mlog s) v q"
      using True by (subst update_loop.simps) (simp add: q_def Let_def)
    moreover have "alone t (bin_goto t (Copy i h) q s) (bin_goto t (Check i h) (update_loop (mlog s) v q) s)"
      unfolding q_def Let_def using "1.hyps" [OF True refl refl] "1.prems" by simp
    moreover have "bin_step t i (bin_goto t (Copy i h) p s) = Some (bin_goto t (Read i h) p s)"
      using True "1.prems" by (simp add: bin_step_def)
    moreover have "bin_step t i (bin_goto t (Read i h) p s) = Some (bin_goto t (Copy i h) q s)"
      using True "1.prems" by (simp add: bin_step_def q_def Let_def)
    ultimately show ?thesis by (auto intro: alone_step)
  qed
qed

lemma upd_alone:
  assumes "mversion s \<le> length (mlog s)"
  shows "alone t (bin_goto t (Upd i h) p s) (bin_goto t (Check i h) (snd (updateLocal (seq_state bs n s) p)) s)"
proof (cases "lastMasterVersion p = mversion s")
  case True
  then have "bin_step t i (bin_goto t (Upd i h) p s) = Some (bin_goto t (Check i h) p s)" by (simp add: bin_step_def)
  with True show ?thesis using alone_refl by (auto simp: updateLocal_def seq_state_def intro: alone_step)
next
  case False
  then have "bin_step t i (bin_goto t (Upd i h) p s) = Some (bin_goto t (Copy i h) p s)" by (simp add: bin_step_def)
  with False copy_alone [OF refl assms] show ?thesis by (auto simp: updateLocal_def seq_state_def intro: alone_step)
qed

text \<open>How the two models are compared after the call: point, map, log, version, free lock and number of bins.\<close>

definition agrees :: "nat \<Rightarrow> int \<Rightarrow> nat \<Rightarrow> int perItem \<Rightarrow> (int, 'c) obim \<Rightarrow> bin_state \<Rightarrow> bool" where
  "agrees t i a q S s \<longleftrightarrow> bin_pcs s t = Got i a \<and> item s t = q \<and> mlog s = masterLog S \<and> mversion s = masterVersion S \<and>
     \<not> mlock s \<and> allocated s = length (bins S)"

lemma alone_trans: "alone t s s' \<Longrightarrow> alone t s' s'' \<Longrightarrow> alone t s s''"
  unfolding alone_def by (rule rtranclp_trans)

lemma create_alone:
  assumes "allocated s = length bs" "create_bin bin_new i p (seq_state bs n s) = (a, q, S)"
  shows "\<exists>s'. alone t (bin_goto t (Create i) p s) s' \<and> agrees t i a q S s'"
proof -
  let ?b = "allocated s" and ?q = "local_put i (Some (allocated s)) p"
  let ?s1 = "s\<lparr>allocated := allocated s + 1\<rparr>"
  let ?s2 = "?s1\<lparr>mlog := mlog s @ [(i, ?b)]\<rparr>"
  let ?s3 = "?s2\<lparr>mversion := mversion s + 1\<rparr>"
  have upd: "bin_goto t c p' s\<lparr>allocated := k\<rparr> = bin_goto t c p' (s\<lparr>allocated := k\<rparr>)"
    "bin_goto t c p' s\<lparr>mlog := l\<rparr> = bin_goto t c p' (s\<lparr>mlog := l\<rparr>)"
    "bin_goto t c p' s\<lparr>mversion := k\<rparr> = bin_goto t c p' (s\<lparr>mversion := k\<rparr>)"
    "bin_goto t c p' s\<lparr>mlock := b\<rparr> = bin_goto t c p' (s\<lparr>mlock := b\<rparr>)" for c p' k l b s
    by (simp_all add: bin_goto_def)
  have steps: "bin_step t j (bin_goto t (Create i) p s) = Some (bin_goto t (Stamp i ?b) ?q ?s1)"
    "bin_step t j (bin_goto t (Stamp i ?b) ?q ?s1) = Some (bin_goto t (Append i ?b) (?q\<lparr>lastMasterVersion := mversion s + 1\<rparr>) ?s1)"
    "bin_step t j (bin_goto t (Append i ?b) p' ?s1) = Some (bin_goto t (Publish i ?b) p' ?s2)"
    "bin_step t j (bin_goto t (Publish i ?b) p' ?s2) = Some (bin_goto t (Unlock i ?b) p' ?s3)"
    "bin_step t j (bin_goto t (Unlock i ?b) p' ?s3) = Some (bin_goto t (Got i ?b) p' (?s3\<lparr>mlock := False\<rparr>))" for j p'
    by (simp_all add: bin_step_def upd)
  have "alone t (bin_goto t (Create i) p s) (bin_goto t (Got i ?b) (?q\<lparr>lastMasterVersion := mversion s + 1\<rparr>) (?s3\<lparr>mlock := False\<rparr>))"
    by (rule steps [THEN alone_step])+ (rule alone_refl)
  moreover have "agrees t i a q S (bin_goto t (Got i ?b) (?q\<lparr>lastMasterVersion := mversion s + 1\<rparr>) (?s3\<lparr>mlock := False\<rparr>))"
    using assms by (auto simp: agrees_def create_bin_def seq_state_def Let_def)
  ultimately show ?thesis by blast
qed

lemma slow_alone:
  assumes "\<not> mlock s" "mversion s \<le> length (mlog s)" "allocated s = length bs"
    "slowUpdateLocalOrCreate bin_new p i (seq_state bs n s) = (a, q, S)"
  shows "\<exists>s'. alone t (bin_goto t (Upd i False) p s) s' \<and> agrees t i a q S s'"
proof -
  let ?S = "seq_state bs n s" and ?l = "s\<lparr>mlock := True\<rparr>"
  define p1 where "p1 = snd (updateLocal ?S p)"
  obtain c1 p2 where a1: "local_at i p1 = (c1, p2)" by force
  have go1: "alone t (bin_goto t (Upd i False) p s) (bin_goto t (Check i False) p1 s)"
    unfolding p1_def by (rule upd_alone [OF assms(2)])
  show ?thesis
  proof (cases c1)
    case (Some b)
    then have r: "a = b" "q = p2" "S = ?S" using assms(4) a1 by (auto simp: slowUpdateLocalOrCreate_def p1_def)
    have "bin_step t i (bin_goto t (Check i False) p1 s) = Some (bin_goto t (Got i b) p2 s)"
      using a1 Some by (simp add: bin_step_def)
    from alone_trans [OF go1 alone_step [OF this alone_refl]]
    show ?thesis using assms r by (intro exI conjI) (auto simp: agrees_def seq_state_def)
  next
    case None
    define p3 where "p3 = snd (updateLocal ?S p2)"
    obtain c2 p4 where a2: "local_at i p3 = (c2, p4)" by force
    have upd: "bin_goto t c p' s\<lparr>mlock := b\<rparr> = bin_goto t c p' (s\<lparr>mlock := b\<rparr>)" for c p' b s
      by (simp add: bin_goto_def)
    have s1: "bin_step t i (bin_goto t (Check i False) p1 s) = Some (bin_goto t (TryLock i) p2 s)"
      and s2: "bin_step t i (bin_goto t (TryLock i) p2 s) = Some (bin_goto t (Upd i True) p2 ?l)"
      using a1 None assms(1) by (simp_all add: bin_step_def upd)
    note go2 = alone_trans [OF go1 alone_step [OF s1 alone_step [OF s2 alone_refl]]]
    have "seq_state bs n ?l = ?S" by (simp add: seq_state_def)
    then have go3: "alone t (bin_goto t (Upd i False) p s) (bin_goto t (Check i True) p3 ?l)"
      using alone_trans [OF go2 upd_alone [of ?l t i True p2 bs n]] assms(2) by (simp add: p3_def)
    show ?thesis
    proof (cases c2)
      case (Some b)
      then have r: "a = b" "q = p4" "S = ?S"
        using assms(4) a1 a2 None by (auto simp: slowUpdateLocalOrCreate_def p1_def p3_def)
      have s3: "bin_step t i (bin_goto t (Check i True) p3 ?l) = Some (bin_goto t (Unlock i b) p4 ?l)"
        and s4: "bin_step t i (bin_goto t (Unlock i b) p4 ?l) = Some (bin_goto t (Got i b) p4 (?l\<lparr>mlock := False\<rparr>))"
        using a2 Some by (simp_all add: bin_step_def upd)
      from alone_trans [OF go3 alone_step [OF s3 alone_step [OF s4 alone_refl]]] show ?thesis
        using assms r by (intro exI conjI) (auto simp: agrees_def seq_state_def)
    next
      case none: None
      then have "create_bin bin_new i p4 (seq_state bs n ?l) = (a, q, S)"
        using assms(4) a1 a2 None by (simp add: slowUpdateLocalOrCreate_def p1_def p3_def seq_state_def)
      from create_alone [OF _ this] obtain s' where s': "alone t (bin_goto t (Create i) p4 ?l) s'" "agrees t i a q S s'"
        using assms(3) by auto
      have "bin_step t i (bin_goto t (Check i True) p3 ?l) = Some (bin_goto t (Create i) p4 ?l)"
        using a2 none by (simp add: bin_step_def)
      from alone_trans [OF go3 alone_step [OF this s'(1)]] s'(2) show ?thesis by blast
    qed
  qed
qed

section \<open>Properties\<close>

text \<open>
  C38: However the threads interleave, no two bins are ever created for one index: the indices and the addresses in the master log are
  distinct, a thread that is given a bin for an index finds it in the log, so all threads get the same one; at rest
  a thread's map has no null pointer and agrees with the log as far as it has read it; no thread reads the
  log out of range; and at most one thread map_holds the master lock.
\<close>

theorem obim_bins_unique:
  assumes "bin_reach cfg s"
  shows "distinct (map fst (mlog s)) \<and> distinct (map snd (mlog s)) \<and>
    (\<forall>t i a. bin_pcs s t = Got i a \<longrightarrow> (i, a) \<in> set (mlog s)) \<and>
    (\<forall>t u i a b. bin_pcs s t = Got i a \<and> bin_pcs s u = Got i b \<longrightarrow> a = b) \<and>
    (\<forall>t. bin_pcs s t = Rest \<longrightarrow> nulls (item s t) = {} \<and> bin_at (item s t) = map_of (take (lastMasterVersion (item s t)) (mlog s))) \<and>
    (\<forall>t i. bin_step t i s \<noteq> None) \<and> (\<forall>t u. holds_lock (bin_pcs s t) \<and> holds_lock (bin_pcs s u) \<longrightarrow> t = u)"
proof -
  note inv = bin_reach_inv [OF assms]
  have got: "(i, a) \<in> set (mlog s)" if "bin_pcs s t = Got i a" for t i a using bin_pc_ok_at [OF inv, of t] that by simp
  have d: "distinct (map fst (mlog s))" using inv by (simp add: bin_inv_def)
  have "a = b" if "bin_pcs s t = Got i a" "bin_pcs s u = Got i b" for t u i a b
    using eq_key_imp_eq_value [OF d got [OF that(1)] got [OF that(2)]] .
  moreover have "nulls (item s t) = {} \<and> bin_at (item s t) = map_of (take (lastMasterVersion (item s t)) (mlog s))"
    if "bin_pcs s t = Rest" for t using bin_pc_ok_at [OF inv, of t] that by (simp add: synced_def map_holds_def)
  moreover have "bin_step t i s \<noteq> None" for t i using bin_step_inv [OF inv, of t i] by auto
  moreover have "distinct (map snd (mlog s))" "\<forall>t u. holds_lock (bin_pcs s t) \<and> holds_lock (bin_pcs s u) \<longrightarrow> t = u"
    using inv by (simp_all add: bin_inv_def)
  ultimately show ?thesis using got d by blast
qed

text \<open>Two threads race for index 7; the list says who takes the next step.\<close>

fun bin_run :: "int \<Rightarrow> nat list \<Rightarrow> bin_state \<Rightarrow> bin_state option" where
  "bin_run i [] s = Some s"
| "bin_run i (t # ts) s = (case bin_step t i s of None \<Rightarrow> None | Some s' \<Rightarrow> bin_run i ts s')"

lemma bin_run_reach: "bin_reach cfg s \<Longrightarrow> bin_run i ts s = Some s' \<Longrightarrow> bin_reach cfg s'"
  by (induction ts arbitrary: s) (auto split: option.splits intro: bin_reach.step)

definition race :: "nat list" where
  "race = [0, 1, 0, 1, 0, 1, 0, 1, 0, 1, 1, 0, 0, 0, 0, 0, 0, 0, 1, 1, 1, 1, 1, 1, 1, 1]"

lemma race_end:
  "map_option (\<lambda>s. (mlog s, bin_pcs s 0, bin_pcs s 1)) (bin_run 7 race (bin_init three_threads)) = Some ([(7, 0)], Got 7 0, Got 7 0)"
  by code_simp

theorem obim_bins_unique_witness:
  "\<exists>s. bin_reach three_threads s \<and> bin_pcs s 0 = Got 7 0 \<and> bin_pcs s 1 = Got 7 0 \<and> (7, 0) \<in> set (mlog s)"
proof -
  obtain s where s: "bin_run 7 race (bin_init three_threads) = Some s" "bin_pcs s 0 = Got 7 0" "bin_pcs s 1 = Got 7 0"
    using race_end by auto
  have "bin_reach three_threads s" by (rule bin_run_reach [OF bin_reach.start s(1)])
  with obim_bins_unique [OF this] s show ?thesis by blast
qed

text \<open>
  A thread that runs alone and finds the lock free reaches the end of the call with the bin, the map, the log and the version
  that \<open>updateLocalOrCreate\<close> of theory \<open>Obim\<close> computes.
\<close>

theorem obim_alone_equals_sequential:
  assumes "\<not> mlock s" "mversion s \<le> length (mlog s)" "allocated s = length bs" "bin_pcs s t = Look i"
    and "updateLocalOrCreate bin_new (item s t) i (seq_state bs n s) = (a, q, S)"
  shows "\<exists>s'. alone t s s' \<and> agrees t i a q S s'"
proof -
  obtain c p where a: "local_at i (item s t) = (c, p)" by force
  show ?thesis
  proof (cases c)
    case (Some b)
    then have r: "a = b" "q = p" "S = seq_state bs n s" using assms(5) a by (auto simp: updateLocalOrCreate_def)
    have "bin_step t i s = Some (bin_goto t (Got i b) p s)" using a Some assms(4) by (simp add: bin_step_def)
    from alone_step [OF this alone_refl] show ?thesis
      using assms r by (intro exI conjI) (auto simp: agrees_def seq_state_def)
  next
    case None
    then have "slowUpdateLocalOrCreate bin_new p i (seq_state bs n s) = (a, q, S)"
      using assms(5) a by (simp add: updateLocalOrCreate_def)
    from slow_alone [OF assms(1-3) this] obtain s' where
      s': "alone t (bin_goto t (Upd i False) p s) s'" "agrees t i a q S s'" by blast
    have "bin_step t i s = Some (bin_goto t (Upd i False) p s)" using a None assms(4) by (simp add: bin_step_def)
    from alone_step [OF this s'(1)] s'(2) show ?thesis by blast
  qed
qed

definition looking :: bin_state where
  "looking = bin_goto 0 (Look 7) (perItem_init three_threads) (bin_init three_threads)"

theorem obim_alone_equals_sequential_witness:
  "\<exists>s'. alone 0 looking s' \<and> bin_pcs s' 0 = Got 7 0"
proof -
  obtain a q S where call: "updateLocalOrCreate (\<lambda>_. [] :: int list) (item looking 0) 7 (seq_state [] 0 looking) = (a, q, S)"
    by (metis prod_cases3)
  have "fst (updateLocalOrCreate (\<lambda>_. [] :: int list) (item looking 0) 7 (seq_state [] 0 looking)) = 0" by code_simp
  then have "a = 0" by (simp add: call)
  with obim_alone_equals_sequential [OF _ _ _ _ call] show ?thesis
    by (auto simp: looking_def bin_init_def agrees_def bin_goto_def)
qed

end
