(* ===== verification/DeltaIndex.thy ===== *)
theory DeltaIndex
  imports Prelude
begin

text \<open>
  \<open>deltaIndex\<close> of \<open>WorkList/AdaptiveObim.h\<close>: the priority \<open>k\<close> of a task with the shift \<open>d\<close> that was in force when it was
  pushed. It stands for the bucket of all priorities that agree with \<open>k\<close> above the lowest \<open>d\<close> bits. Buckets of different
  shifts may lie inside one another; the operators put a bucket after those inside it. A shift by 32 or more
  is undefined in the code and gives 0 here.
\<close>

section \<open>The operators\<close>

record deltaIndex =
  k :: u32
  d :: nat

definition deltaIndex_id :: "deltaIndex \<Rightarrow> u32" where
  "deltaIndex_id a = k a"

definition delta_eq :: "deltaIndex \<Rightarrow> deltaIndex \<Rightarrow> bool" where
  "delta_eq a b = (let delt = max (d a) (d b); a1 = drop_bit delt (k a); a2 = drop_bit delt (k b) in a1 = a2 \<and> d a = d b)"

definition delta_less :: "deltaIndex \<Rightarrow> deltaIndex \<Rightarrow> bool" where
  "delta_less a b =
     (let delt = max (d a) (d b); a1 = drop_bit delt (k a); a2 = drop_bit delt (k b) in
      if a1 < a2 then True else if a2 < a1 then False else if d a < d b then True else False)"

definition delta_greater :: "deltaIndex \<Rightarrow> deltaIndex \<Rightarrow> bool" where
  "delta_greater a b =
     (let delt = max (d a) (d b); a1 = drop_bit delt (k a); a2 = drop_bit delt (k b) in
      if a2 < a1 then True else if a1 < a2 then False else if d b < d a then True else False)"

definition delta_le :: "deltaIndex \<Rightarrow> deltaIndex \<Rightarrow> bool" where
  "delta_le a b =
     (let delt = max (d a) (d b); a1 = drop_bit delt (k a); a2 = drop_bit delt (k b) in
      if a1 < a2 then True else if a2 < a1 then False else if d a < d b then True
      else if d a = d b then True else False)"

definition delta_ge :: "deltaIndex \<Rightarrow> deltaIndex \<Rightarrow> bool" where
  "delta_ge a b =
     (let delt = max (d a) (d b); a1 = drop_bit delt (k a); a2 = drop_bit delt (k b) in
      if a2 < a1 then True else if a1 < a2 then False else if d b < d a then True
      else if d a = d b then True else False)"

section \<open>Buckets\<close>

text \<open>The bucket of an index by its number and its shift; it holds the priorities from \<open>n * 2 ^ l\<close> to below \<open>bucket_end\<close>.\<close>

datatype bucket = Bucket (number: nat) (level: nat)

definition bucket_of :: "deltaIndex \<Rightarrow> bucket" where
  "bucket_of a = Bucket (unat (k a) div 2 ^ d a) (d a)"

definition bucket_end :: "bucket \<Rightarrow> nat" where
  "bucket_end b = (number b + 1) * 2 ^ level b"

text \<open>By the end of the bucket, the inner one first.\<close>

instantiation bucket :: linorder
begin

definition less_eq_bucket :: "bucket \<Rightarrow> bucket \<Rightarrow> bool" where
  "a \<le> b \<longleftrightarrow> bucket_end a < bucket_end b \<or> bucket_end a = bucket_end b \<and> level a \<le> level b"

definition less_bucket :: "bucket \<Rightarrow> bucket \<Rightarrow> bool" where
  "a < b \<longleftrightarrow> bucket_end a < bucket_end b \<or> bucket_end a = bucket_end b \<and> level a < level b"

instance
proof
  fix a b c :: bucket
  show "a = b" if "a \<le> b" "b \<le> a"
    using that by (cases a; cases b) (auto simp: less_eq_bucket_def bucket_end_def)
qed (auto simp: less_eq_bucket_def less_bucket_def)

end

lemma number_less_end: "x div 2 ^ n < y \<longleftrightarrow> (x + 1) * 2 ^ m \<le> y * 2 ^ (n + m)" for x y :: nat
proof -
  have "x div 2 ^ n < y \<longleftrightarrow> x < y * 2 ^ n" by (simp add: div_less_iff_less_mult)
  also have "\<dots> \<longleftrightarrow> (x + 1) * 2 ^ m \<le> (y * 2 ^ n) * 2 ^ m" unfolding mult_le_cancel2 by auto
  finally show ?thesis by (simp add: power_add mult.assoc)
qed

text \<open>Comparing two buckets at the coarser of their levels is comparing their ends.\<close>

lemma bucket_less_same_level:
  assumes "l1 \<le> l2"
  shows "Bucket n1 l1 < Bucket n2 l2 \<longleftrightarrow>
    (n1 div 2 ^ (l2 - l1) < n2 \<or> n1 div 2 ^ (l2 - l1) = n2 \<and> l1 < l2)"
    and "Bucket n2 l2 < Bucket n1 l1 \<longleftrightarrow> n2 < n1 div 2 ^ (l2 - l1)"
proof -
  let ?n = "l2 - l1"
  have l: "l2 = ?n + l1" using assms by simp
  have below: "n1 div 2 ^ ?n < y \<longleftrightarrow> (n1 + 1) * 2 ^ l1 \<le> y * 2 ^ l2" for y
    using number_less_end [of n1 ?n y l1] assms by simp
  have n2: "n2 * 2 ^ l2 < (n2 + 1) * 2 ^ l2" by simp
  have cases: "n1 div 2 ^ ?n < n2 \<longleftrightarrow> (n1 + 1) * 2 ^ l1 \<le> n2 * 2 ^ l2"
    "n1 div 2 ^ ?n \<le> n2 \<longleftrightarrow> (n1 + 1) * 2 ^ l1 \<le> (n2 + 1) * 2 ^ l2"
    using below [of n2] below [of "n2 + 1"] by (simp_all add: less_Suc_eq_le)
  have same: "(n1 + 1) * 2 ^ l1 = (n2 + 1) * 2 ^ l2 \<Longrightarrow> l1 = l2 \<Longrightarrow> n1 = n2" by simp
  show "Bucket n1 l1 < Bucket n2 l2 \<longleftrightarrow> (n1 div 2 ^ ?n < n2 \<or> n1 div 2 ^ ?n = n2 \<and> l1 < l2)"
    using cases same n2 assms by (cases "l1 = l2") (auto simp: less_bucket_def bucket_end_def le_less)
  show "Bucket n2 l2 < Bucket n1 l1 \<longleftrightarrow> n2 < n1 div 2 ^ ?n"
    using cases(2) assms by (auto simp: less_bucket_def bucket_end_def not_le [symmetric])
qed

lemma drop_bit_less: "drop_bit n a < drop_bit n b \<longleftrightarrow> unat a div 2 ^ n < unat b div 2 ^ n" for a b :: "'a::len word"
  unfolding word_less_nat_alt unat_drop_bit_eq by (simp add: drop_bit_eq_div)

lemma drop_bit_same: "drop_bit n a = drop_bit n b \<longleftrightarrow> unat a div 2 ^ n = unat b div 2 ^ n" for a b :: "'a::len word"
  unfolding word_unat_eq_iff unat_drop_bit_eq by (simp add: drop_bit_eq_div)

lemma shift_number: "e \<le> m \<Longrightarrow> (x div 2 ^ e) div 2 ^ (m - e) = x div 2 ^ m" for x :: nat
  by (simp add: div_mult2_eq [symmetric] power_add [symmetric])

lemma delta_less_bucket: "delta_less a b \<longleftrightarrow> bucket_of a < bucket_of b"
proof (cases "d a \<le> d b")
  case True
  then show ?thesis
    using bucket_less_same_level(1) [OF True] shift_number [OF True, of "unat (k a)"]
    by (simp add: delta_less_def bucket_of_def Let_def drop_bit_less max_def)
next
  case False
  then have le: "d b \<le> d a" by simp
  then show ?thesis
    using bucket_less_same_level(2) [OF le] shift_number [OF le, of "unat (k b)"] False
    by (simp add: delta_less_def bucket_of_def Let_def drop_bit_less max_def)
qed

lemma delta_others:
  "delta_greater a b = delta_less b a" "delta_le a b \<longleftrightarrow> \<not> delta_less b a" "delta_ge a b \<longleftrightarrow> \<not> delta_less a b"
  "delta_eq a b \<longleftrightarrow> \<not> delta_less a b \<and> \<not> delta_less b a"
  by (auto simp: delta_greater_def delta_le_def delta_ge_def delta_eq_def delta_less_def Let_def max.commute [of "d b"])

section \<open>Properties\<close>

text \<open>
  C40: The operators are the linear order of buckets: two indices are equal exactly when they stand for the same bucket, and the
  other four compare buckets by their ends.
\<close>

theorem delta_operators:
  "(delta_less a b \<longleftrightarrow> bucket_of a < bucket_of b) \<and> (delta_eq a b \<longleftrightarrow> bucket_of a = bucket_of b) \<and>
   (delta_greater a b \<longleftrightarrow> bucket_of b < bucket_of a) \<and> (delta_le a b \<longleftrightarrow> bucket_of a \<le> bucket_of b) \<and>
   (delta_ge a b \<longleftrightarrow> bucket_of b \<le> bucket_of a)"
  unfolding delta_others delta_less_bucket by (auto simp: not_less)

text \<open>How far apart the priorities of two buckets can be: at a shift at least as coarse as both, the order is kept.\<close>

definition in_bucket :: "nat \<Rightarrow> bucket \<Rightarrow> bool" where
  "in_bucket v b \<longleftrightarrow> v div 2 ^ level b = number b"

lemma in_bucket_of: "in_bucket (unat (k a)) (bucket_of a)"
  by (simp add: in_bucket_def bucket_of_def)

lemma below_bucket_end: "in_bucket v b \<Longrightarrow> v < bucket_end b"
  using dividend_less_div_times [of "2 ^ level b" v] by (simp add: in_bucket_def bucket_end_def)

lemma bucket_end_coarse:
  assumes "in_bucket v b" "level b \<le> D"
  shows "bucket_end b \<le> (v div 2 ^ D + 1) * 2 ^ D"
proof -
  have "number b div 2 ^ (D - level b) < v div 2 ^ D + 1"
    using assms shift_number [OF assms(2), of v] by (simp add: in_bucket_def)
  then have "(number b + 1) * 2 ^ level b \<le> (v div 2 ^ D + 1) * 2 ^ (D - level b + level b)"
    using number_less_end [of "number b" "D - level b" "v div 2 ^ D + 1" "level b"] by blast
  then show ?thesis using assms(2) by (simp add: bucket_end_def)
qed

lemma bucket_order_coarse:
  assumes "a \<le> b" "in_bucket v a" "in_bucket w b" "level b \<le> D"
  shows "v div 2 ^ D \<le> w div 2 ^ D"
proof -
  have "v < bucket_end a" by (rule below_bucket_end [OF assms(2)])
  also have "\<dots> \<le> bucket_end b" using assms(1) by (auto simp: less_eq_bucket_def)
  also have "\<dots> \<le> (w div 2 ^ D + 1) * 2 ^ D" by (rule bucket_end_coarse [OF assms(3,4)])
  finally have "v div 2 ^ D < w div 2 ^ D + 1" by (simp add: div_less_iff_less_mult)
  then show ?thesis by simp
qed

end
