(* ===== verification/AdaptiveObim.thy ===== *)
theory AdaptiveObim
  imports Obim DeltaIndex
begin

text \<open>
  \<open>AdaptiveOrderedByIntegerMetric\<close> of \<open>WorkList/AdaptiveObim.h\<close> (PMOD): the bucket scheduler whose buckets grow. A task is
  put into the bucket of its priority under the current shift \<open>delta\<close>; thread 0 raises the shift when the bins are too small.
  The log, the maps and the bins are those of theory \<open>Obim\<close>, with buckets for indices; theory \<open>DeltaIndex\<close>
  shows that the code's map orders and identifies its keys as buckets. The statistics of a thread and the shift
  are added here. An operation runs without interference; the locks of the threads are treated at the end.
\<close>

section \<open>State\<close>

record ada_stats =
  sinceLastFix :: u32
  slowPopsLastPeriod :: u32
  pushesLastPeriod :: u32
  priosLastPeriod :: u32
  pmodAllDeq :: u64
  popsFromSameQ :: u32
  maxPrioDiffLastPeriod :: u32
  minPrio :: u32
  maxPrio :: u32

record 'c ada =
  core :: "(bucket, 'c) obim"
  stats :: "ada_stats list"
  delta :: nat
  counter :: u32

text \<open>\<open>slowPopsLastPeriod\<close> is not initialised: its first value \<open>u\<close> is an argument.\<close>

definition ada_stats_init :: "u32 \<Rightarrow> ada_stats" where
  "ada_stats_init u = \<lparr>sinceLastFix = 0, slowPopsLastPeriod = u, pushesLastPeriod = 0, priosLastPeriod = 0, pmodAllDeq = 0,
     popsFromSameQ = 0, maxPrioDiffLastPeriod = 0, minPrio = - 1, maxPrio = 0\<rparr>"

text \<open>The template parameters; the least index is \<open>deltaIndex()\<close>.\<close>

definition ada_cfg :: "int \<Rightarrow> bool \<Rightarrow> bool \<Rightarrow> nat \<Rightarrow> nat list \<Rightarrow> bucket obim_cfg" where
  "ada_cfg period bsp uniform active phys =
     \<lparr>BlockPeriod = period, BSP = bsp, uniformBSP = uniform, minIndex = Bucket 0 0, activeThreads = active, physids = phys\<rparr>"

definition ada_init :: "bucket obim_cfg \<Rightarrow> nat \<Rightarrow> u32 \<Rightarrow> nat \<Rightarrow> 'c ada" where
  "ada_init cfg chunk_size u P =
     \<lparr>core = Obim_init cfg P, stats = replicate P (ada_stats_init u), delta = 0, counter = of_nat chunk_size\<rparr>"

section \<open>Push\<close>

text \<open>\<open>val\<close> is \<open>val()\<close>, the priority of the task. A shift by 32 or more is undefined: \<open>None\<close>.\<close>

definition ada_index :: "nat \<Rightarrow> u32 \<Rightarrow> bucket" where
  "ada_index dl ind = bucket_of \<lparr>k = ind, d = dl\<rparr>"

definition ada_push :: "bucket obim_cfg \<Rightarrow> (bucket \<Rightarrow> 'c) \<Rightarrow> ('c \<Rightarrow> 'a \<Rightarrow> 'c) \<Rightarrow> ('a \<Rightarrow> u32) \<Rightarrow> nat \<Rightarrow> 'a \<Rightarrow> 'c ada \<Rightarrow> 'c ada option" where
  "ada_push cfg bin_new bin_push val t x s =
     (if \<not> delta s < 32 then None
      else
        let ind = val x;
            index = ada_index (delta s) ind;
            p = items (core s) ! t;
            st = stats s ! t;
            st = (if ind > maxPrio st then st\<lparr>maxPrio := ind\<rparr> else st);
            st = (if ind < minPrio st then st\<lparr>minPrio := ind\<rparr> else st);
            st = st\<lparr>pushesLastPeriod := pushesLastPeriod st + 1\<rparr>
        in case (if index = curIndex p then current p else None) of
             Some c \<Rightarrow> Some (s\<lparr>core := push_bin bin_push c x (core s), stats := (stats s)[t := st]\<rparr>)
           | None \<Rightarrow>
               let (lC, p, o1) = updateLocalOrCreate bin_new p index (core s);
                   st = (if numberOfPris o1 \<noteq> numberOfPris (core s) then st\<lparr>priosLastPeriod := priosLastPeriod st + 1\<rparr> else st);
                   p = (if BSP cfg \<and> index < scanStart p then p\<lparr>scanStart := index\<rparr> else p);
                   (p, st) = (if index < curIndex p
                              then (p\<lparr>curIndex := index, current := Some lC\<rparr>, st\<lparr>popsFromSameQ := 0\<rparr>) else (p, st))
               in Some (s\<lparr>core := push_bin bin_push lC x (set_item t p o1), stats := (stats s)[t := st]\<rparr>))"

fun ada_push_range :: "bucket obim_cfg \<Rightarrow> (bucket \<Rightarrow> 'c) \<Rightarrow> ('c \<Rightarrow> 'a \<Rightarrow> 'c) \<Rightarrow> ('a \<Rightarrow> u32) \<Rightarrow> nat \<Rightarrow> 'a list \<Rightarrow> 'c ada \<Rightarrow> (nat \<times> 'c ada) option" where
  "ada_push_range cfg bin_new bin_push val t [] s = Some (0, s)"
| "ada_push_range cfg bin_new bin_push val t (x # xs) s =
     (case ada_push cfg bin_new bin_push val t x s of
        None \<Rightarrow> None
      | Some s \<Rightarrow> map_option (\<lambda>(n, s). (n + 1, s)) (ada_push_range cfg bin_new bin_push val t xs s))"

definition ada_push_initial :: "bucket obim_cfg \<Rightarrow> (bucket \<Rightarrow> 'c) \<Rightarrow> ('c \<Rightarrow> 'a \<Rightarrow> 'c) \<Rightarrow> ('a \<Rightarrow> u32) \<Rightarrow> nat \<Rightarrow> 'a list \<Rightarrow> 'c ada \<Rightarrow> (nat \<times> 'c ada) option" where
  "ada_push_initial cfg bin_new bin_push val t share s = ada_push_range cfg bin_new bin_push val t share s"

section \<open>Pop\<close>

text \<open>
  The test of thread 0 and the new shift. The code computes with doubles; the comparisons here are their exact forms,
  \<open>slow / since > 1 / chunk_size\<close> and \<open>pushes / bins < chunk_size / 2\<close>, on 32-bit operands (a quotient by 0 bins is infinite or
  no number, so the second test fails). \<open>floor_log2 chunk_size pushes bins\<close> stands for
  \<open>std::floor(std::log2(chunk_size / (pushes / bins)))\<close>; with no pushes it is infinite and its conversion to \<open>unsigned\<close>
  undefined: \<open>None\<close>.
\<close>

definition fix_due :: "nat \<Rightarrow> nat \<Rightarrow> u32 \<Rightarrow> ada_stats \<Rightarrow> bool" where
  "fix_due chunk_size t cnt st \<longleftrightarrow>
     t = 0 \<and> sinceLastFix st > cnt \<and> unat (slowPopsLastPeriod st) * chunk_size > unat (sinceLastFix st)"

definition ada_reset :: "ada_stats \<Rightarrow> ada_stats" where
  "ada_reset st = st\<lparr>sinceLastFix := 0, slowPopsLastPeriod := 0, pushesLastPeriod := 0, priosLastPeriod := 0,
     maxPrioDiffLastPeriod := 0, minPrio := - 1, maxPrio := 0\<rparr>"

definition ada_fix ::
  "(nat \<Rightarrow> nat \<Rightarrow> nat \<Rightarrow> nat) \<Rightarrow> bucket obim_cfg \<Rightarrow> nat \<Rightarrow> 'c ada \<Rightarrow> 'c ada option" where
  "ada_fix floor_log2 cfg chunk_size s =
     (let active = map (\<lambda>i. stats s ! i) [0..<activeThreads cfg];
          minOfMin = foldl (\<lambda>m st. min m (minPrio st)) (- 1) active;
          maxOfMax = foldl (\<lambda>m st. max m (maxPrio st)) 0 active;
          pushes = sum_list (map (\<lambda>st. unat (pushesLastPeriod st)) active);
          bins = unat (drop_bit (delta s) maxOfMax - drop_bit (delta s) minOfMin);
          s = s\<lparr>stats := map ada_reset active @ drop (activeThreads cfg) (stats s)\<rparr>
      in if \<not> delta s < 32 then None
         else if bins \<noteq> 0 \<and> pushes < (chunk_size div 2) * bins
         then if pushes = 0 then None
              else Some (s\<lparr>delta := delta s + floor_log2 chunk_size pushes bins, counter := counter s * 2\<rparr>)
         else Some s)"

definition set_stats :: "nat \<Rightarrow> ada_stats \<Rightarrow> 'c ada \<Rightarrow> 'c ada" where
  "set_stats t st s = s\<lparr>stats := (stats s)[t := st]\<rparr>"

definition ada_slowPop ::
  "(nat \<Rightarrow> nat \<Rightarrow> nat \<Rightarrow> nat) \<Rightarrow> bucket obim_cfg \<Rightarrow> nat \<Rightarrow> ('c \<Rightarrow> 'c \<times> 'a option) \<Rightarrow> nat \<Rightarrow> 'c ada \<Rightarrow> ('a option \<times> 'c ada) option" where
  "ada_slowPop floor_log2 cfg chunk_size bin_pop t s =
     (let st = stats s ! t;
          st = st\<lparr>slowPopsLastPeriod := slowPopsLastPeriod st + 1\<rparr>;
          s = set_stats t st s
      in case (if fix_due chunk_size t (counter s) st then ada_fix floor_log2 cfg chunk_size s else Some s) of
           None \<Rightarrow> None
         | Some s \<Rightarrow>
             let s = set_stats t ((stats s ! t)\<lparr>popsFromSameQ := 0\<rparr>) s;
                 p = snd (updateLocal (core s) (items (core s) ! t));
                 o1 = set_item t p (core s);
                 msS = scan_from cfg t (items o1)
             in case scan_bins bin_pop (drop (lower_bound msS (local_map p)) (local_map p)) (bins o1) of
                  None \<Rightarrow> None
                | Some (None, bs) \<Rightarrow> Some (None, s\<lparr>core := o1\<lparr>bins := bs\<rparr>\<rparr>)
                | Some (Some (i, a, x), bs) \<Rightarrow>
                    Some (Some x, s\<lparr>core := set_item t (p\<lparr>current := Some a, curIndex := i, scanStart := i\<rparr>) (o1\<lparr>bins := bs\<rparr>)\<rparr>))"

definition ada_pop ::
  "(nat \<Rightarrow> nat \<Rightarrow> nat \<Rightarrow> nat) \<Rightarrow> bucket obim_cfg \<Rightarrow> nat \<Rightarrow> ('c \<Rightarrow> 'c \<times> 'a option) \<Rightarrow> nat \<Rightarrow> 'c ada \<Rightarrow> ('a option \<times> 'c ada) option" where
  "ada_pop floor_log2 cfg chunk_size bin_pop t s =
     (let st = stats s ! t;
          s = set_stats t (st\<lparr>sinceLastFix := sinceLastFix st + 1, pmodAllDeq := pmodAllDeq st + 1\<rparr>) s;
          p = items (core s) ! t;
          C = current p;
          (slow, p) = block_test cfg p;
          s = s\<lparr>core := set_item t p (core s)\<rparr>
      in if slow then ada_slowPop floor_log2 cfg chunk_size bin_pop t s
         else case C of
                None \<Rightarrow> ada_slowPop floor_log2 cfg chunk_size bin_pop t s
              | Some c \<Rightarrow>
                  (case bin_pop (bins (core s) ! c) of
                     (b, Some x) \<Rightarrow>
                       let st = stats s ! t
                       in Some (Some x, set_stats t (st\<lparr>popsFromSameQ := popsFromSameQ st + 1\<rparr>)
                            (s\<lparr>core := (core s)\<lparr>bins := (bins (core s))[c := b]\<rparr>\<rparr>))
                   | (b, None) \<Rightarrow>
                       ada_slowPop floor_log2 cfg chunk_size bin_pop t
                         (s\<lparr>core := (core s)\<lparr>bins := (bins (core s))[c := b]\<rparr>\<rparr>)))"

section \<open>Below the statistics it is the bucket scheduler\<close>

lemma core_set_stats [simp]: "core (set_stats t st s) = core s"
  by (simp add: set_stats_def)

lemma core_ada_fix: "ada_fix floor_log2 cfg chunk_size s = Some s' \<Longrightarrow> core s' = core s"
  by (auto simp: ada_fix_def Let_def split: if_splits)

lemma ada_push_refines:
  assumes "delta s < 32"
  shows "\<exists>s'. ada_push cfg bin_new bin_push val t x s = Some s' \<and> delta s' = delta s \<and>
    core s' = Obim_push cfg bin_new bin_push (\<lambda>_. ada_index (delta s) (val x)) t x (core s) \<and>
    length (stats s') = length (stats s)"
  using assms by (simp add: ada_push_def Obim_push_def Let_def split: option.split prod.split)

lemma ada_slowPop_refines:
  assumes slow: "slowPop cfg bin_pop t (core s) = Some (r, o')"
    and fixed: "(let st = (stats s ! t)\<lparr>slowPopsLastPeriod := slowPopsLastPeriod (stats s ! t) + 1\<rparr> in
      if fix_due chunk_size t (counter s) st then ada_fix floor_log2 cfg chunk_size (set_stats t st s)
      else Some (set_stats t st s)) = Some s1"
  shows "\<exists>s'. ada_slowPop floor_log2 cfg chunk_size bin_pop t s = Some (r, s') \<and> core s' = o' \<and> delta s' = delta s1 \<and>
    length (stats s') = length (stats s1)"
proof -
  have core: "core s1 = core s" using fixed by (auto simp: Let_def dest: core_ada_fix split: if_splits)
  have counter: "counter (set_stats t st s) = counter s" for st by (simp add: set_stats_def)
  have "ada_slowPop floor_log2 cfg chunk_size bin_pop t s =
     (let s = set_stats t ((stats s1 ! t)\<lparr>popsFromSameQ := 0\<rparr>) s1;
          p = snd (updateLocal (core s) (items (core s) ! t));
          o1 = set_item t p (core s);
          msS = scan_from cfg t (items o1)
      in case scan_bins bin_pop (drop (lower_bound msS (local_map p)) (local_map p)) (bins o1) of
           None \<Rightarrow> None
         | Some (None, bs) \<Rightarrow> Some (None, s\<lparr>core := o1\<lparr>bins := bs\<rparr>\<rparr>)
         | Some (Some (i, a, x), bs) \<Rightarrow>
             Some (Some x, s\<lparr>core := set_item t (p\<lparr>current := Some a, curIndex := i, scanStart := i\<rparr>) (o1\<lparr>bins := bs\<rparr>)\<rparr>))"
    using fixed unfolding ada_slowPop_def Let_def counter by simp
  then show ?thesis
    using slow unfolding slowPop_def Let_def core_set_stats core
    by (auto simp: set_stats_def split: option.splits)
qed

text \<open>When the new shift is not defined.\<close>

definition no_pushes :: "bucket obim_cfg \<Rightarrow> nat \<Rightarrow> 'c ada \<Rightarrow> bool" where
  "no_pushes cfg t s \<longleftrightarrow> t = 0 \<and> counter s < sinceLastFix (stats s ! 0) + 1 \<and>
     (\<forall>u < activeThreads cfg. pushesLastPeriod (stats s ! u) = 0)"

lemma ada_fix_defined:
  assumes "delta s < 32" "activeThreads cfg \<le> length (stats s)"
  shows "case ada_fix floor_log2 cfg chunk_size s of
      None \<Rightarrow> \<forall>u < activeThreads cfg. pushesLastPeriod (stats s ! u) = 0
    | Some s' \<Rightarrow> delta s \<le> delta s' \<and> length (stats s') = length (stats s)"
  using assms by (auto simp: ada_fix_def Let_def unat_eq_zero split: option.splits if_splits)

text \<open>Every task in a bucket that holds its priority, and no bucket wider than the current shift makes them.\<close>

definition ada_ok :: "bucket obim_cfg \<Rightarrow> ('a \<Rightarrow> u32) \<Rightarrow> ('c \<Rightarrow> 'a multiset) \<Rightarrow> 'c ada \<Rightarrow> bool" where
  "ada_ok cfg val bag s \<longleftrightarrow> minIndex cfg = Bucket 0 0 \<and> obim_ok cfg (\<lambda>x. in_bucket (unat (val x))) bag (core s) \<and>
     activeThreads cfg \<le> length (stats s) \<and> (\<forall>e \<in> set (masterLog (core s)). level (fst e) \<le> delta s)"

text \<open>The priority of a task found by a full scan is least up to the shift.\<close>

definition least_shifted :: "nat \<Rightarrow> ('a \<Rightarrow> u32) \<Rightarrow> 'a multiset \<Rightarrow> 'a option \<Rightarrow> bool" where
  "least_shifted dl val tasks r \<longleftrightarrow>
     (case r of None \<Rightarrow> tasks = {#} | Some x \<Rightarrow> \<forall>y \<in># tasks. unat (val x) div 2 ^ dl \<le> unat (val y) div 2 ^ dl)"

lemma best_least_shifted:
  assumes ok: "ada_ok cfg val bag s" and best: "best (\<lambda>x. in_bucket (unat (val x))) bag (core s) r"
  shows "least_shifted (delta s) val (bags bag (bins (core s))) r"
proof (cases r)
  case None
  then show ?thesis using best by (simp add: best_def least_shifted_def)
next
  case (Some x)
  let ?o = "core s"
  obtain i where i: "in_bucket (unat (val x)) i"
    "\<forall>b < length (bins ?o). bag (bins ?o ! b) \<noteq> {#} \<longrightarrow> i \<le> fst (masterLog ?o ! b)"
    using best Some by (auto simp: best_def)
  have obim: "obim_ok cfg (\<lambda>x. in_bucket (unat (val x))) bag ?o" using ok by (simp add: ada_ok_def)
  then have log: "log_ok cfg ?o" by (simp add: obim_ok_def)
  have "unat (val x) div 2 ^ delta s \<le> unat (val y) div 2 ^ delta s" if "y \<in># bags bag (bins ?o)" for y
  proof -
    from that obtain b where b: "b < length (bins ?o)" "y \<in># bag (bins ?o ! b)" unfolding in_bags_iff by blast
    let ?j = "fst (masterLog ?o ! b)"
    have "in_bucket (unat (val y)) ?j" using obim b by (auto simp: obim_ok_def in_place_def)
    moreover have "i \<le> ?j" using i(2) b by auto
    moreover have "level ?j \<le> delta s" using ok nth_in_log [OF log b(1)] by (fastforce simp: ada_ok_def)
    ultimately show ?thesis using bucket_order_coarse [OF _ i(1)] by blast
  qed
  with Some show ?thesis by (simp add: least_shifted_def)
qed

lemma Bucket_0_least: "Bucket 0 0 \<le> b"
proof -
  have "1 * 1 \<le> (number b + 1) * 2 ^ level b" by (rule mult_le_mono) simp_all
  then show ?thesis by (auto simp: less_eq_bucket_def bucket_end_def le_less)
qed

text \<open>The bins of this scheduler are named by buckets.\<close>

locale bucket_bins = work_bin bin_new bin_push bin_pop bin_bag
  for bin_new :: "bucket \<Rightarrow> 'c" and bin_push :: "'c \<Rightarrow> 'a \<Rightarrow> 'c" and bin_pop :: "'c \<Rightarrow> 'c \<times> 'a option"
    and bin_bag :: "'c \<Rightarrow> 'a multiset"
begin

lemma ada_push_facts:
  assumes ok: "ada_ok cfg val bin_bag s" and t: "t < activeThreads cfg" and dl: "delta s < 32"
  shows "\<exists>s'. ada_push cfg bin_new bin_push val t x s = Some s' \<and> ada_ok cfg val bin_bag s' \<and> delta s' = delta s \<and>
    bags bin_bag (bins (core s')) = add_mset x (bags bin_bag (bins (core s)))"
proof -
  let ?i = "ada_index (delta s) (val x)"
  obtain s' where s': "ada_push cfg bin_new bin_push val t x s = Some s'" "delta s' = delta s"
    "core s' = Obim_push cfg bin_new bin_push (\<lambda>_. ?i) t x (core s)" "length (stats s') = length (stats s)"
    using ada_push_refines [OF dl, of cfg bin_new bin_push val t x] by blast
  have "minIndex cfg \<le> ?i" using ok Bucket_0_least by (simp add: ada_ok_def)
  moreover have "in_bucket (unat (val x)) ?i" using in_bucket_of [of "\<lparr>k = val x, d = delta s\<rparr>"] by (simp add: ada_index_def)
  ultimately have o': "obim_ok cfg (\<lambda>x. in_bucket (unat (val x))) bin_bag (core s')"
    "bags bin_bag (bins (core s')) = add_mset x (bags bin_bag (bins (core s)))"
    "fst ` set (masterLog (core s')) = insert ?i (fst ` set (masterLog (core s)))"
    using Obim_push_facts [of cfg "\<lambda>x. in_bucket (unat (val x))" "core s" t "\<lambda>_. ?i" x] ok t s'(3) by (auto simp: ada_ok_def)
  have "level e \<le> delta s" if "e \<in> fst ` set (masterLog (core s'))" for e
    using that o'(3) ok by (auto simp: ada_ok_def ada_index_def bucket_of_def)
  then have "ada_ok cfg val bin_bag s'" using ok o' s' by (auto simp: ada_ok_def)
  with s' o'(2) show ?thesis by blast
qed

lemma ada_slowPop_facts:
  assumes ok: "ada_ok cfg val bin_bag s" and t: "t < activeThreads cfg" and dl: "delta s < 32"
  shows "(ada_slowPop floor_log2 cfg chunk_size bin_pop t s = None \<and> t = 0 \<and> counter s < sinceLastFix (stats s ! 0) \<and>
      (\<forall>u < activeThreads cfg. pushesLastPeriod (stats s ! u) = 0)) \<or>
    (\<exists>r s'. ada_slowPop floor_log2 cfg chunk_size bin_pop t s = Some (r, s') \<and> ada_ok cfg val bin_bag s' \<and>
      took bin_bag (core s) r (core s') \<and> delta s \<le> delta s' \<and>
      (sees_all cfg t \<longrightarrow> best (\<lambda>x. in_bucket (unat (val x))) bin_bag (core s) r))"
proof -
  let ?st = "(stats s ! t)\<lparr>slowPopsLastPeriod := slowPopsLastPeriod (stats s ! t) + 1\<rparr>"
  let ?s = "set_stats t ?st s"
  have len: "activeThreads cfg \<le> length (stats ?s)" using ok by (simp add: ada_ok_def set_stats_def)
  have dls: "delta ?s < 32" using dl by (simp add: set_stats_def)
  have pushes: "pushesLastPeriod (stats ?s ! u) = pushesLastPeriod (stats s ! u)" for u
    by (cases "u = t \<and> t < length (stats s)") (auto simp: set_stats_def nth_list_update list_update_beyond)
  note fixes_delta = ada_fix_defined [OF dls len, of floor_log2 chunk_size]
  define fixed where "fixed = (if fix_due chunk_size t (counter s) ?st then ada_fix floor_log2 cfg chunk_size ?s else Some ?s)"
  obtain r o' where slow: "slowPop cfg bin_pop t (core s) = Some (r, o')" "obim_ok cfg (\<lambda>x. in_bucket (unat (val x))) bin_bag o'"
    "took bin_bag (core s) r o'" "masterLog o' = masterLog (core s)"
    "sees_all cfg t \<longrightarrow> best (\<lambda>x. in_bucket (unat (val x))) bin_bag (core s) r"
    using slowPop_facts [of cfg "\<lambda>x. in_bucket (unat (val x))" "core s" t] ok t by (auto simp: ada_ok_def)
  show ?thesis
  proof (cases fixed)
    case None
    then have due: "fix_due chunk_size t (counter s) ?st" "ada_fix floor_log2 cfg chunk_size ?s = None"
      by (auto simp: fixed_def split: if_splits)
    have "ada_slowPop floor_log2 cfg chunk_size bin_pop t s = None"
      using due by (simp add: ada_slowPop_def Let_def set_stats_def)
    moreover have "\<forall>u < activeThreads cfg. pushesLastPeriod (stats s ! u) = 0"
      using due(2) fixes_delta by (simp only: option.case pushes)
    moreover have "t = 0" "counter s < sinceLastFix ?st" using due(1) by (auto simp: fix_due_def)
    ultimately show ?thesis by simp
  next
    case (Some s1)
    have s1: "delta s \<le> delta s1" "length (stats s1) = length (stats s)"
      using Some fixes_delta by (auto simp: fixed_def set_stats_def split: if_splits option.splits)
    from ada_slowPop_refines [OF slow(1), of chunk_size floor_log2 s1] Some obtain s' where
      s': "ada_slowPop floor_log2 cfg chunk_size bin_pop t s = Some (r, s')" "core s' = o'" "delta s' = delta s1"
        "length (stats s') = length (stats s1)"
      by (auto simp: fixed_def Let_def)
    have "ada_ok cfg val bin_bag s'" using ok slow(2,4) s' s1 by (fastforce simp: ada_ok_def)
    with s' slow s1 show ?thesis by auto
  qed
qed

lemma ada_pop_facts:
  assumes ok: "ada_ok cfg val bin_bag s" and t: "t < activeThreads cfg" and dl: "delta s < 32"
  shows "(ada_pop floor_log2 cfg chunk_size bin_pop t s = None \<and> no_pushes cfg t s) \<or>
    (\<exists>r s'. ada_pop floor_log2 cfg chunk_size bin_pop t s = Some (r, s') \<and> ada_ok cfg val bin_bag s' \<and>
      took bin_bag (core s) r (core s') \<and> delta s \<le> delta s' \<and>
      (sees_all cfg t \<and> (r = None \<or> BlockPeriod cfg < 0 \<or>
          (\<forall>c. current (items (core s) ! t) = Some c \<longrightarrow> bin_bag (bins (core s) ! c) = {#})) \<longrightarrow>
        best (\<lambda>x. in_bucket (unat (val x))) bin_bag (core s) r))"
proof -
  let ?fits = "\<lambda>x. in_bucket (unat (val x))" and ?o = "core s"
  have obim: "obim_ok cfg ?fits bin_bag ?o" using ok by (simp add: ada_ok_def)
  have len: "t < length (items ?o)" using obim t by (simp add: obim_ok_def)
  obtain slow q where test: "block_test cfg (items ?o ! t) = (slow, q)" by force
  define st where "st = (stats s ! t)\<lparr>sinceLastFix := sinceLastFix (stats s ! t) + 1, pmodAllDeq := pmodAllDeq (stats s ! t) + 1\<rparr>"
  define s1 where "s1 = (set_stats t st s)\<lparr>core := set_item t q ?o\<rparr>"
  note counts = pop_counts [OF obim len test]
  have oq: "bins (set_item t q ?o) = bins ?o" by (simp add: set_item_def)
  have tl: "t < length (stats s)" using ok t by (simp add: ada_ok_def)
  have s1: "stats s1 = (stats s)[t := st]" "delta s1 = delta s" "counter s1 = counter s" "core s1 = set_item t q ?o"
    "bins (core s1) = bins ?o" "masterLog (core s1) = masterLog ?o"
    by (simp_all add: s1_def set_stats_def set_item_def)
  have since: "sinceLastFix (stats s1 ! 0) = sinceLastFix (stats s ! 0) + 1" if "t = 0"
    using that tl by (simp add: s1 st_def)
  have pushes: "pushesLastPeriod (stats s1 ! u) = pushesLastPeriod (stats s ! u)" for u
    using tl by (cases "u = t") (simp_all add: s1 st_def)
  note pop = ada_pop_def [of floor_log2 cfg chunk_size bin_pop t s, unfolded Let_def core_set_stats test prod.case,
      folded st_def, folded s1_def]
  have scan: ?thesis
    if pop: "ada_pop floor_log2 cfg chunk_size bin_pop t s = ada_slowPop floor_log2 cfg chunk_size bin_pop t (s1\<lparr>core := o1\<rparr>)"
      and o1: "obim_ok cfg ?fits bin_bag o1" "same_bags bin_bag ?o o1" for o1
  proof -
    have log: "masterLog o1 = masterLog ?o" by (rule same_bagsD [OF o1(2)])
    have ok1: "ada_ok cfg val bin_bag (s1\<lparr>core := o1\<rparr>)" using ok o1(1) by (simp add: ada_ok_def s1 log)
    have "delta (s1\<lparr>core := o1\<rparr>) < 32" using dl by (simp add: s1)
    from ada_slowPop_facts [OF ok1 t this, of floor_log2 chunk_size] show ?thesis
    proof
      assume none: "ada_slowPop floor_log2 cfg chunk_size bin_pop t (s1\<lparr>core := o1\<rparr>) = None \<and> t = 0 \<and>
        counter (s1\<lparr>core := o1\<rparr>) < sinceLastFix (stats (s1\<lparr>core := o1\<rparr>) ! 0) \<and>
        (\<forall>u < activeThreads cfg. pushesLastPeriod (stats (s1\<lparr>core := o1\<rparr>) ! u) = 0)"
      then have "no_pushes cfg t s" using since s1(3) pushes by (simp add: no_pushes_def)
      moreover have "ada_pop floor_log2 cfg chunk_size bin_pop t s = None" unfolding pop using none by blast
      ultimately show ?thesis by blast
    next
      assume "\<exists>r s'. ada_slowPop floor_log2 cfg chunk_size bin_pop t (s1\<lparr>core := o1\<rparr>) = Some (r, s') \<and> ada_ok cfg val bin_bag s' \<and>
        took bin_bag (core (s1\<lparr>core := o1\<rparr>)) r (core s') \<and> delta (s1\<lparr>core := o1\<rparr>) \<le> delta s' \<and>
        (sees_all cfg t \<longrightarrow> best ?fits bin_bag (core (s1\<lparr>core := o1\<rparr>)) r)"
      then show ?thesis unfolding pop by (simp add: same_bagsD [OF o1(2)] s1) blast
    qed
  qed
  show ?thesis
  proof (cases "slow \<or> current (items ?o ! t) = None")
    case True
    then have "ada_pop floor_log2 cfg chunk_size bin_pop t s = ada_slowPop floor_log2 cfg chunk_size bin_pop t s1"
      by (auto simp: pop)
    then show ?thesis using scan [of "set_item t q ?o"] counts(1,3) by (simp add: s1_def)
  next
    case False
    then obtain c where c: "current (items ?o ! t) = Some c" by auto
    obtain b r where bpop: "bin_pop (bins ?o ! c) = (b, r)" by force
    let ?o1 = "(set_item t q ?o)\<lparr>bins := (bins ?o)[c := b]\<rparr>"
    note cur = pop_current [OF obim len test c bpop refl]
    show ?thesis
    proof (cases r)
      case None
      have "ada_pop floor_log2 cfg chunk_size bin_pop t s = ada_slowPop floor_log2 cfg chunk_size bin_pop t (s1\<lparr>core := ?o1\<rparr>)"
        using False c bpop None by (simp add: pop s1 oq)
      then show ?thesis by (rule scan [OF _ cur(1) cur(2) [OF None]])
    next
      case (Some x)
      let ?s' = "set_stats t ((stats s1 ! t)\<lparr>popsFromSameQ := popsFromSameQ (stats s1 ! t) + 1\<rparr>) (s1\<lparr>core := ?o1\<rparr>)"
      have "ada_pop floor_log2 cfg chunk_size bin_pop t s = Some (Some x, ?s')"
        using False c bpop Some by (simp add: pop s1 oq)
      moreover have "ada_ok cfg val bin_bag ?s'" using ok cur(1,4) by (simp add: ada_ok_def set_stats_def s1)
      moreover have "\<not> BlockPeriod cfg < 0" using counts(2) False by blast
      moreover have "delta ?s' = delta s" by (simp add: set_stats_def s1)
      ultimately show ?thesis using cur(3) [OF Some] c Some by simp
    qed
  qed
qed

end

interpretation fifo_buckets: bucket_bins "\<lambda>_. []" FIFO_push FIFO_pop mset
  by unfold_locales

lemma ada_init_ok:
  assumes "activeThreads cfg \<le> P" "minIndex cfg = Bucket 0 0"
  shows "ada_ok cfg val bag (ada_init cfg chunk_size u P)"
  using assms Obim_init_ok [OF assms(1)] by (simp add: ada_ok_def ada_init_def) (simp add: Obim_init_def)

section \<open>Properties\<close>

definition ada_two :: "bucket obim_cfg" where
  "ada_two = ada_cfg 0 True False 2 [0, 0]"

text \<open>
  \<open>push\<close> is defined exactly while the shift is below 32; then it puts the task into the bucket of its priority under the
  current shift, loses and duplicates nothing, and keeps the invariant.
\<close>

theorem AdaptiveObim_push_correct:
  assumes "ada_ok cfg val mset s" "t < activeThreads cfg"
  shows "case ada_push cfg (\<lambda>_. []) FIFO_push val t x s of
      None \<Rightarrow> 32 \<le> delta s
    | Some s' \<Rightarrow> delta s < 32 \<and> ada_ok cfg val mset s' \<and> delta s' = delta s \<and>
        bags mset (bins (core s')) = add_mset x (bags mset (bins (core s)))"
proof (cases "delta s < 32")
  case True
  from fifo_buckets.ada_push_facts [OF assms True, of x] obtain s' where
    "ada_push cfg (\<lambda>_. []) FIFO_push val t x s = Some s'" "ada_ok cfg val mset s'" "delta s' = delta s"
    "bags mset (bins (core s')) = add_mset x (bags mset (bins (core s)))" by blast
  with True show ?thesis by simp
qed (simp add: ada_push_def)

theorem AdaptiveObim_push_correct_witness:
  "case ada_push ada_two (\<lambda>_. []) FIFO_push (\<lambda>x. x) 1 5 (ada_init ada_two 64 0 2) of
     None \<Rightarrow> False | Some s \<Rightarrow> bags mset (bins (core s)) = {#5#}"
proof -
  have "ada_ok ada_two (\<lambda>x. x) mset (ada_init ada_two 64 0 2)"
    by (rule ada_init_ok) (simp_all add: ada_two_def ada_cfg_def)
  from AdaptiveObim_push_correct [OF this, of 1 5] show ?thesis
    by (auto simp: ada_two_def ada_cfg_def ada_init_def Obim_init_def split: option.splits)
qed

text \<open>
  C39: \<open>pop\<close> takes exactly the task it returns and keeps the invariant, whatever the new shift is. When a package leader (or any
  thread with uniform or no back-scan prevention) scans, no task has a priority that is smaller in the bits above the
  shift, and \<open>pop\<close> returns nothing only when there is no task. The only undefined case is thread 0 recomputing the shift after a period in
  which no active thread has pushed.
\<close>

theorem AdaptiveObim_pop_correct:
  assumes "ada_ok cfg val mset s" "t < activeThreads cfg" "delta s < 32"
  shows "case ada_pop floor_log2 cfg chunk_size FIFO_pop t s of
      None \<Rightarrow> no_pushes cfg t s
    | Some (r, s') \<Rightarrow> ada_ok cfg val mset s' \<and> took mset (core s) r (core s') \<and> delta s \<le> delta s' \<and>
        (sees_all cfg t \<and> (r = None \<or> BlockPeriod cfg < 0 \<or>
            (\<forall>c. current (items (core s) ! t) = Some c \<longrightarrow> bins (core s) ! c = [])) \<longrightarrow>
          least_shifted (delta s) val (bags mset (bins (core s))) r)"
  using fifo_buckets.ada_pop_facts [OF assms, of floor_log2 chunk_size]
proof
  assume "\<exists>r s'. ada_pop floor_log2 cfg chunk_size FIFO_pop t s = Some (r, s') \<and> ada_ok cfg val mset s' \<and>
      took mset (core s) r (core s') \<and> delta s \<le> delta s' \<and>
      (sees_all cfg t \<and> (r = None \<or> BlockPeriod cfg < 0 \<or>
          (\<forall>c. current (items (core s) ! t) = Some c \<longrightarrow> mset (bins (core s) ! c) = {#})) \<longrightarrow>
        best (\<lambda>x. in_bucket (unat (val x))) mset (core s) r)"
  then show ?thesis using best_least_shifted [OF assms(1)] by auto
qed simp

theorem AdaptiveObim_pop_correct_witness:
  "\<exists>s'. ada_pop (\<lambda>_ _ _. 1) ada_two 64 FIFO_pop 1 (ada_init ada_two 64 0 2 :: int list ada) = Some (None, s')"
proof -
  have "ada_ok ada_two (\<lambda>x. of_int x) mset (ada_init ada_two 64 0 2 :: int list ada)"
    by (rule ada_init_ok) (simp_all add: ada_two_def ada_cfg_def)
  from AdaptiveObim_pop_correct [OF this, of 1 "\<lambda>_ _ _. 1" 64] show ?thesis
    by (auto simp: ada_two_def ada_cfg_def ada_init_def Obim_init_def no_pushes_def took_def split: option.splits)
qed

text \<open>An idle thread 0 reaches the undefined conversion, here after three pops with \<open>chunk_size\<close> 2.\<close>

fun ada_pops :: "bucket obim_cfg \<Rightarrow> nat \<Rightarrow> nat \<Rightarrow> int list ada \<Rightarrow> int list ada option" where
  "ada_pops cfg chunk_size 0 s = Some s"
| "ada_pops cfg chunk_size (Suc n) s =
     (case ada_pop (\<lambda>_ _ _. 1) cfg chunk_size FIFO_pop 0 s of
        None \<Rightarrow> None | Some (_, s) \<Rightarrow> ada_pops cfg chunk_size n s)"

theorem AdaptiveObim_idle_undefined:
  "ada_pops ada_two 2 2 (ada_init ada_two 2 0 2) \<noteq> None \<and> ada_pops ada_two 2 3 (ada_init ada_two 2 0 2) = None"
  by code_simp

section \<open>The locks of the threads\<close>

text \<open>
  Every operation of a thread holds the lock of its item. Before thread 0 changes the shift it runs
  \<open>while(current.getRemote(i)->lock.try_lock());\<close>, which goes on while the lock is taken successfully. The steps: the
  owner \<open>enters\<close> and \<open>leaves\<close> its operation, thread 0 tries the lock, changes the statistics of the item and unlocks it.
\<close>

datatype holder_pc = Outside | Inside
datatype fixer_pc = Trying | Changing | Finished

inductive fix_step :: "bool \<times> holder_pc \<times> fixer_pc \<Rightarrow> bool \<times> holder_pc \<times> fixer_pc \<Rightarrow> bool" where
  enter: "fix_step (False, Outside, f) (True, Inside, f)"
| leave: "fix_step (l, Inside, f) (False, Outside, f)"
| taken: "fix_step (False, w, Trying) (True, w, Trying)"
| refused: "fix_step (True, w, Trying) (True, w, Changing)"
| release: "fix_step (l, w, Changing) (False, w, Finished)"

text \<open>So thread 0 changes the item while its owner is in the middle of an operation, and then unlocks the lock of the owner.\<close>

theorem AdaptiveObim_fix_ignores_lock:
  "fix_step\<^sup>*\<^sup>* (False, Outside, Trying) (True, Inside, Changing) \<and>
   fix_step\<^sup>*\<^sup>* (False, Outside, Trying) (False, Inside, Finished)"
proof -
  have a: "fix_step (False, Outside, Trying) (True, Inside, Trying)" by (rule enter)
  have b: "fix_step (True, Inside, Trying) (True, Inside, Changing)" by (rule refused)
  have c: "fix_step (True, Inside, Changing) (False, Inside, Finished)" by (rule release)
  show ?thesis using a b c by (meson converse_rtranclp_into_rtranclp rtranclp.rtrancl_refl)
qed

end
