(* ===== verification/Spec2Isabelle.thy ===== *)
theory Spec2Isabelle
  imports DAryIndexer MQLocalProb StealProtocol AdaptiveSMQ SparseBits AdaptiveMQ
    SuspendProtocol GDeque FlatMap UnionFind Endian RingTermination TreeTermination Ranges Barriers ThreadStorage ConflictDetection ConExtQueue ChunkedTasks ShortestPathsEnd HeapWorklists TopoBarrier ObimProtocol AdaptiveObim
begin

text \<open>
  A verification development for the relaxed priority schedulers built into Galois 2.2.1 (paths
  below are relative to \<open>src/Galois-2.2.1/include/Galois\<close> unless they start with \<open>apps\<close>) and
  for the containers the runtime and the applications keep their data in.

  \<^bold>\<open>How the program works.\<close> A worklist is one object shared by \<open>nT\<close> threads; each thread repeats
  \<open>pop\<close>, works on the task and calls \<open>push\<close> on the tasks that arise. A \<open>MultiQueue\<close> keeps \<open>nQ = C * nT\<close>
  heaps, each behind a try-lock and with a cached minimum; \<open>push\<close> goes to a random heap,
  \<open>pop\<close> to the better of two random heaps. The four variants differ in whether a thread stays at a heap
  with a probability (\<open>Prob\<close>) or buffers tasks (\<open>Local\<close>) in either operation, and each has a NUMA
  twin that draws heaps of near sockets with a greater weight. A \<open>StealingMultiQueue\<close> gives each thread a
  private heap and publishes its smallest tasks in a buffer that others take as a whole. Both
  families have an adaptive version.

  \<^bold>\<open>Theories.\<close>
  \<^item> \<open>Prelude\<close>: words, lists and the named theorem collections the rest shares.
  \<^item> \<open>DAryHeap\<close> (\<open>WorkList/Heap.h\<close>): \<open>sift_up\<close>, \<open>sift_down\<close>, \<open>push\<close>, \<open>extractMin\<close>, \<open>divideElems\<close>,
    \<open>pushAllAndClear\<close>, on the vector of the struct; heap order, multiset contents, minimality.
    \<open>DAryIndexer\<close>: the same operations with an indexer, \<open>decrease_key\<close>, and the packed pair of
    \<open>apps/astar/astar.h\<close>.
  \<^item> \<open>UpdateRequest\<close> (\<open>apps/sssp\<close>): the request type of the application with its comparers.
  \<^item> \<open>TaskHeap\<close>: the locale \<open>task_heap\<close>, the contract of \<open>boost::heap::d_ary_heap\<close>, which is not part of the
    repository; interpreted on the model of \<open>Heap.h\<close>.
  \<^item> \<open>ThreadRandom\<close>: the xorshift generator each scheduler has. \<open>RandomPeriod\<close>: its period is \<open>2 ^ 32 - 1\<close>, computed by squaring
    the step on lists of coefficients; \<open>RandomDraws\<close>: so the draws of \<open>MultiQueueProbProb\<close> reach every heap.
  \<^item> \<open>HeapWithLock\<close>, \<open>MultiQueueBase\<close>, \<open>NUMA\<close> (files of the same name under \<open>WorkList/MQs\<close>), then one
    theory per scheduler: \<open>MQProbProb\<close>, \<open>MQProbLocal\<close>, \<open>MQLocalLocal\<close>, \<open>MQLocalProb\<close>, each with its
    NUMA twin.
  \<^item> \<open>StealBuffer\<close>, \<open>StealingMQ\<close> (\<open>WorkList/StealingMultiQueue.h\<close> and \<open>StealingMultiQueueNuma.h\<close>): the heap
    with its steal buffer and the scheduler; \<open>StealBufferAdap\<close>, \<open>AdaptiveSMQ\<close>
    (\<open>AdaptiveStealingMultiQueue.h\<close>): the version that tunes its own batch size.
  \<^item> \<open>StealProtocol\<close>: the accesses to the steal buffer one at a time, as an inductive step relation of an owner and
    any number of thieves.
  \<^item> \<open>AdaptiveMQ\<close>, \<open>SuspendProtocol\<close> (\<open>experimental_adaptive_mqs/AdaptiveMultiQueue.h\<close>): the operations of the
    scheduler, and the suspension of threads as a step relation.
  \<^item> \<open>Ranges\<close> (\<open>gstl.h\<close>, \<open>Runtime/Range.h\<close>): the shares of the initial tasks, in 32-bit arithmetic, and
    \<open>push_initial\<close> of a scheduler on all threads.
  \<^item> \<open>TermDetect\<close> (\<open>Runtime/ParallelWork.h\<close>): the worker loop as a step relation over any termination
    detector and any scheduler, given by when a \<open>pop\<close> may fail and which tasks an operation leaves; the abstract two-pass
    scheme and the proofs that it ends the loop only after a moment when nobody worked and, with a scheduler whose \<open>pop\<close> fails
    only when there is nothing to see (\<open>thorough\<close>; the multi-queues are not), only when nothing is left; \<open>RingTermination\<close> and \<open>TreeTermination\<close> (\<open>src/Termination.cpp\<close>): the two detectors as
    simulations of that scheme, and progress of the ring.
  \<^item> \<open>ShortestPaths\<close> (\<open>apps/sssp/SSSP.cpp\<close>): the relaxations of \<open>AsyncAlgo<true>\<close> access by access, with the
    scheduler as a multiset of requests; every edge is relaxed or pending. \<open>ShortestPathsEnd\<close>: the distances at the
    end, a measure that falls with every step, and the check of the program.
  \<^item> \<open>Barriers\<close> (\<open>src/Barrier.cpp\<close>): \<open>MCSBarrier\<close>, access by access. \<open>HWTopo\<close> (\<open>src/ll/HWTopoLinux.cpp\<close>): the
    packages of the machine and their leaders. \<open>TopoBarrier\<close> (\<open>src/Barrier.cpp\<close>): the barrier of the runtime on them.
  \<^item> \<open>ThreadStorage\<close> (\<open>src/PerThreadStorage.cpp\<close>): the allocator of offsets into thread-local storage.
  \<^item> \<open>PtrLock\<close> (\<open>Runtime/ll/PtrLock.h\<close>): a pointer with a lock bit, on 64-bit words. \<open>ConflictDetection\<close>
    (\<open>src/Context.cpp\<close>): the objects an iteration acquires and gives back, access by access.
  \<^item> \<open>ConExtStack\<close>, \<open>ConExtQueue\<close> (\<open>WorkList/WorkListHelpers.h\<close>): the linked lists of chunks, access by access, with
    a function for each step and the operations without interference.
  \<^item> \<open>Chunked\<close> (\<open>WorkList/Chunked.h\<close>): the chunked worklists on these lists and on \<open>FixedSizeRing\<close>, with the chunks in an explicit
    heap; \<open>ChunkedTasks\<close>: ownership of chunks and what each operation does to the tasks.
  \<^item> \<open>HeapWorklists\<close> (\<open>WorkList/WorkListHelpers.h\<close>): the heap-based worklists the experiments compare with.
  \<^item> \<open>SimpleLists\<close> (\<open>WorkList/Fifo.h\<close>, \<open>Lifo.h\<close>), \<open>Obim\<close> (\<open>WorkList/Obim.h\<close>): the bucket scheduler over any bins;
    \<open>ObimProtocol\<close>: how its threads find and create bins, access by access. \<open>DeltaIndex\<close>,
    \<open>AdaptiveObim\<close> (\<open>WorkList/AdaptiveObim.h\<close>): the bucket scheduler whose buckets grow (PMOD).
  \<^item> \<open>SparseBits\<close> (\<open>SparseBitVector.h\<close>), \<open>FixedSize\<close> (\<open>FixedSizeRing.h\<close>), \<open>GDeque\<close> (\<open>gdeque.h\<close>, a doubly linked list of blocks in a
    memory of addresses, with 32-bit count), \<open>FlatMap\<close>,
    \<open>UnionFind\<close>, \<open>Endian\<close>: the containers.

  \<^bold>\<open>How the code is read.\<close> A struct is a record, a vector a list, a 32-bit or 64-bit word that wraps a word of its
  width; sizes and indices, which the code keeps far below \<open>2 ^ 64\<close>, are natural numbers. An
  operation takes the state and returns the new state with its result; an \<open>optional\<close> is an
  option. The thread-local statics of a scheduler (the generator, the current queue) are a record of
  their own, passed along. Template parameters are arguments, the compile-time ones in a
  configuration record. The scheduler operations run without interference of another
  thread, but from any state of the locks, so the branches of a failed \<open>try_lock\<close> are there; where
  interleaving is what matters (the steal buffer, the suspension, termination, the barrier) the model is a step relation over
  single accesses and the theorems hold in every reachable state.

  \<^bold>\<open>Loops.\<close> Loops over an index are total functions with a measure. Loops that retry until a draw reaches a free
  lock are partial functions in the option monad, so not returning is \<open>None\<close>; the
  theorems say when the value is \<open>Some\<close>, and there is no fuel and no bound. That the draws come to the heaps a loop waits for is
  proved from the period of the generator.

  \<^bold>\<open>Interfaces.\<close> \<open>task_heap\<close> is what the multi-queues need of a heap; \<open>block_container\<close> (theory \<open>GDeque\<close>) is what
  \<open>gdeque\<close> needs of its blocks, interpreted on \<open>FixedSizeRing\<close>; \<open>two_pass_detector\<close> (theory \<open>TermDetect\<close>) is
  what the worker loop needs of a detector, interpreted on the ring and on the tree; \<open>work_bin\<close> (theory \<open>SimpleLists\<close>)
  is what the bucket scheduler needs of a bin, interpreted on the two lists. The theories of
  the schedulers interpret their own client contracts on the operations they define.

  \<^bold>\<open>What the lemmas show.\<close> For the heap: order, contents, minimality and sorting. For each scheduler: \<open>push\<close> adds and \<open>pop\<close>
  removes exactly the tasks named (a multiset over all heaps and buffers), in which order
  a thread gets them, that no lock is left behind, when they return, and when \<open>pop\<close> may
  return nothing. For the containers: refinement of a list, a map, a set or an equivalence
  relation. Several theorems of kind error show inputs on which the code does not do what it
  means to; the manifest lists them as findings.

  \<^bold>\<open>Not modelled.\<close> The code under \<open>llvm\<close> is vendored; graphs, thread pools, allocators and the
  deterministic executor are the runtime around the schedulers; the skip lists, \<open>k_lsm\<close> and the remaining worklists of Galois are
  left out. The other applications and the tools are clients. Memory order is sequentially consistent
  throughout. Statistics that are only printed are left out.
\<close>

end
